(* ===== verification/Prelude.thy ===== *)
theory Prelude
  imports Main "HOL-Library.Sublist"
begin

text \<open>
  Shared ground of the development: Go strings as byte lists, the operations of the
  standard package \<^verbatim>\<open>strings\<close> that the program calls, and generic lemmas on lists.

  A Go \<^verbatim>\<open>string\<close> is a sequence of bytes; here it is a \<^typ>\<open>string\<close>, a list of
  \<^typ>\<open>char\<close>, where a \<^typ>\<open>char\<close> is an 8-bit value.  Indices and lengths count bytes,
  as Go's \<^verbatim>\<open>len\<close> and slicing do.  Operations that return an index with -1 for
  "absent" return an \<^typ>\<open>nat option\<close>.
\<close>

section \<open>Collections of hints\<close>

named_theorems str_eval \<open>equations that evaluate the string operations on literals\<close>
named_theorems path_eval \<open>equations that evaluate the path operations on literals\<close>

section \<open>Bytes\<close>

abbreviation slash :: char where
  "slash \<equiv> CHR ''/''"

abbreviation dot :: char where
  "dot \<equiv> CHR ''.''"

abbreviation backslash :: char where
  "backslash \<equiv> CHR 0x5C"

abbreviation newline :: char where
  "newline \<equiv> CHR 0x0A"

abbreviation byte_of :: "char \<Rightarrow> nat" where
  "byte_of \<equiv> of_char"

section \<open>Prefixes, suffixes, substrings\<close>

text \<open>\<^verbatim>\<open>strings.HasPrefix(s, p)\<close>, \<^verbatim>\<open>HasSuffix\<close>, \<^verbatim>\<open>Contains\<close>.\<close>

definition has_prefix :: "string \<Rightarrow> string \<Rightarrow> bool" where
  "has_prefix s p \<longleftrightarrow> prefix p s"

definition has_suffix :: "string \<Rightarrow> string \<Rightarrow> bool" where
  "has_suffix s p \<longleftrightarrow> suffix p s"

definition contains_str :: "string \<Rightarrow> string \<Rightarrow> bool" where
  "contains_str s p \<longleftrightarrow> sublist p s"

definition trim_prefix :: "string \<Rightarrow> string \<Rightarrow> string" where
  "trim_prefix s p = (if prefix p s then drop (length p) s else s)"

definition trim_suffix :: "string \<Rightarrow> string \<Rightarrow> string" where
  "trim_suffix s p = (if suffix p s then take (length s - length p) s else s)"

text \<open>\<^verbatim>\<open>strings.TrimLeft\<close> and \<^verbatim>\<open>TrimRight\<close> with a one-byte cutset, and \<^verbatim>\<open>Trim\<close>.\<close>

definition trim_left_byte :: "char \<Rightarrow> string \<Rightarrow> string" where
  "trim_left_byte c s = dropWhile (\<lambda>x. x = c) s"

definition trim_right_byte :: "char \<Rightarrow> string \<Rightarrow> string" where
  "trim_right_byte c s = rev (dropWhile (\<lambda>x. x = c) (rev s))"

declare has_prefix_def [str_eval] has_suffix_def [str_eval] contains_str_def [str_eval]
  trim_prefix_def [str_eval] trim_suffix_def [str_eval] trim_left_byte_def [str_eval]
  trim_right_byte_def [str_eval]

lemma trim_prefix_append [simp]: "trim_prefix (p @ s) p = s"
  by (simp add: trim_prefix_def)

lemma has_prefix_iff: "has_prefix s p \<longleftrightarrow> (\<exists>r. s = p @ r)"
  by (auto simp: has_prefix_def prefix_def)

lemma has_prefix_append [simp]: "has_prefix (p @ r) p"
  by (simp add: has_prefix_def)

lemma dropWhile_eq_hd: "dropWhile P xs = y # ys \<Longrightarrow> \<not> P y"
  by (metis dropWhile_eq_Cons_conv)

section \<open>Splitting and joining on one byte\<close>

text \<open>\<^verbatim>\<open>strings.Split(s, sep)\<close> and \<^verbatim>\<open>strings.Join(parts, sep)\<close> for a one-byte separator.\<close>

fun split_on :: "char \<Rightarrow> string \<Rightarrow> string list" where
  "split_on c [] = [[]]"
| "split_on c (x # xs) =
     (if x = c then [] # split_on c xs
      else (case split_on c xs of [] \<Rightarrow> [[x]] | y # ys \<Rightarrow> (x # y) # ys))"

fun join_with :: "string \<Rightarrow> string list \<Rightarrow> string" where
  "join_with sep [] = []"
| "join_with sep [x] = x"
| "join_with sep (x # y # ys) = x @ sep @ join_with sep (y # ys)"

lemma split_on_not_Nil [simp]: "split_on c s \<noteq> []"
  by (induction s) (auto split: list.splits)

lemma split_on_no_sep: "seg \<in> set (split_on c s) \<Longrightarrow> c \<notin> set seg"
  by (induction s arbitrary: seg) (fastforce split: if_splits list.splits)+

lemma join_with_Cons: "ys \<noteq> [] \<Longrightarrow> join_with sep (x # ys) = x @ sep @ join_with sep ys"
  by (cases ys) auto

lemma join_split [simp]: "join_with [c] (split_on c s) = s"
proof (induction s)
  case (Cons x xs)
  obtain y ys where sp: "split_on c xs = y # ys"
    by (metis list.exhaust split_on_not_Nil)
  show ?case using Cons sp by (cases ys) auto
qed simp

lemma split_on_none: "c \<notin> set s \<Longrightarrow> split_on c s = [s]"
  by (induction s) auto

lemma split_on_append_sep: "c \<notin> set s \<Longrightarrow> split_on c (s @ c # t) = s # split_on c t"
  by (induction s) auto

lemma split_join:
  "xs \<noteq> [] \<Longrightarrow> \<forall>x\<in>set xs. c \<notin> set x \<Longrightarrow> split_on c (join_with [c] xs) = xs"
proof (induction xs rule: list_nonempty_induct)
  case (single x)
  then show ?case by (simp add: split_on_none)
next
  case (cons x xs)
  then show ?case by (simp add: join_with_Cons split_on_append_sep)
qed

lemma split_on_append:
  "split_on c (s @ c # t) = split_on c s @ split_on c t"
proof (induction s)
  case (Cons x xs)
  obtain y ys where sp: "split_on c xs = y # ys"
    by (metis list.exhaust split_on_not_Nil)
  show ?case using Cons sp by auto
qed simp

lemma join_with_eq_Nil: "\<forall>x\<in>set xs. x \<noteq> [] \<Longrightarrow> join_with sep xs = [] \<longleftrightarrow> xs = []"
proof (cases xs)
  case (Cons y ys)
  then show "\<forall>x\<in>set xs. x \<noteq> [] \<Longrightarrow> ?thesis"
    by (cases ys) auto
qed simp

section \<open>Searching\<close>

text \<open>
  \<^verbatim>\<open>strings.IndexByte\<close>, \<^verbatim>\<open>LastIndexAny\<close> and \<^verbatim>\<open>LastIndexByte\<close> with \<^const>\<open>None\<close> for -1.
\<close>

fun index_byte :: "char \<Rightarrow> string \<Rightarrow> nat option" where
  "index_byte c [] = None"
| "index_byte c (x # xs) = (if x = c then Some 0 else map_option Suc (index_byte c xs))"

fun last_index_any :: "char set \<Rightarrow> string \<Rightarrow> nat option" where
  "last_index_any cs [] = None"
| "last_index_any cs (x # xs) =
     (case last_index_any cs xs of
        Some i \<Rightarrow> Some (Suc i)
      | None \<Rightarrow> (if x \<in> cs then Some 0 else None))"

lemma index_byte_None: "index_byte c s = None \<longleftrightarrow> c \<notin> set s"
  by (induction s) auto

lemma index_byte_Some:
  "index_byte c s = Some i \<Longrightarrow> i < length s \<and> s ! i = c \<and> c \<notin> set (take i s)"
  by (induction s arbitrary: i) (auto split: if_splits)

lemma last_index_any_None: "last_index_any cs s = None \<longleftrightarrow> set s \<inter> cs = {}"
  by (induction s) (auto split: option.splits)

lemma last_index_any_append:
  "set t \<inter> cs = {} \<Longrightarrow> c \<in> cs \<Longrightarrow> last_index_any cs (s @ c # t) = Some (length s)"
  by (induction s) (auto simp: last_index_any_None [THEN iffD2])

lemma last_index_any_Some:
  "last_index_any cs s = Some i \<Longrightarrow> i < length s \<and> s ! i \<in> cs \<and> set (drop (Suc i) s) \<inter> cs = {}"
proof (induction s arbitrary: i)
  case (Cons x xs)
  then show ?case
    by (auto split: option.splits if_splits simp: last_index_any_None)
qed simp

text \<open>\<^verbatim>\<open>strings.Index\<close>.\<close>

fun index_str :: "string \<Rightarrow> string \<Rightarrow> nat option" where
  "index_str pat [] = (if pat = [] then Some 0 else None)"
| "index_str pat (c # s) = (if prefix pat (c # s) then Some 0 else map_option Suc (index_str pat s))"

text \<open>\<^verbatim>\<open>fmt.Sprintf("%d", i)\<close>.\<close>

fun digits :: "nat \<Rightarrow> string" where
  "digits n = (if n < 10 then [char_of (48 + n)] else digits (n div 10) @ [char_of (48 + n mod 10)])"

declare digits.simps [simp del]

definition itoa :: "int \<Rightarrow> string" where
  "itoa i = (if i < 0 then CHR ''-'' # digits (nat (- i)) else digits (nat i))"

text \<open>\<^verbatim>\<open>strings.Trim(s, cutset)\<close> for an ASCII cutset.\<close>

definition trim_set :: "char set \<Rightarrow> string \<Rightarrow> string" where
  "trim_set cs s = rev (dropWhile (\<lambda>c. c \<in> cs) (rev (dropWhile (\<lambda>c. c \<in> cs) s)))"

text \<open>What follows the last character of a set, if anything does.\<close>

definition after_last :: "char set \<Rightarrow> string \<Rightarrow> string option" where
  "after_last cs s =
     (case last_index_any cs s of
        None \<Rightarrow> None
      | Some i \<Rightarrow> if i + 1 < length s then Some (drop (i + 1) s) else None)"

section \<open>Lists\<close>

text \<open>Removal of later elements with a key seen before, as the program's "seen" maps do it.\<close>

fun dedup_by :: "('a \<Rightarrow> 'k) \<Rightarrow> 'k set \<Rightarrow> 'a list \<Rightarrow> 'a list" where
  "dedup_by f seen [] = []"
| "dedup_by f seen (x # xs) =
     (if f x \<in> seen then dedup_by f seen xs else x # dedup_by f (insert (f x) seen) xs)"

lemma set_dedup_by: "set (dedup_by f seen xs) \<subseteq> {x \<in> set xs. f x \<notin> seen}"
  by (induction xs arbitrary: seen) auto

lemma keys_dedup_by [simp]: "f ` set (dedup_by f seen xs) = f ` set xs - seen"
  by (induction xs arbitrary: seen) auto

lemma distinct_dedup_by [simp]: "distinct (map f (dedup_by f seen xs))"
proof (induction xs arbitrary: seen)
  case (Cons x xs)
  have "f x \<notin> f ` set (dedup_by f (insert (f x) seen) xs)" by simp
  then show ?case using Cons.IH by auto
qed simp

lemma dedup_by_id: "distinct (map f xs) \<Longrightarrow> f ` set xs \<inter> seen = {} \<Longrightarrow> dedup_by f seen xs = xs"
  by (induction xs arbitrary: seen) auto

lemma dedup_by_append: "dedup_by f seen (xs @ ys) = dedup_by f seen xs @ dedup_by f (seen \<union> f ` set xs) ys"
  by (induction xs arbitrary: seen) (auto simp: insert_absorb)

text \<open>The result of a search through a list.\<close>

lemma find_SomeD: "find P xs = Some x \<Longrightarrow> x \<in> set xs \<and> P x"
  by (induction xs) (auto split: if_splits)

lemma takeWhile_neq_less: "x \<in> set xs \<Longrightarrow> length (takeWhile (\<lambda>y. y \<noteq> x) xs) < length xs"
  by (induction xs) auto

lemma distinct_eq_single: "distinct xs \<Longrightarrow> xs = [x] \<longleftrightarrow> set xs = {x}"
  by (cases xs) (auto simp: subset_singleton_iff)

section \<open>Keyset pagination\<close>

text \<open>
  The loop \<^verbatim>\<open>SELECT ... WHERE id > ? ORDER BY id LIMIT ?\<close>: pages of \<open>b\<close> rows, each continuing
  after the last key of the page before; a short page ends it.
\<close>

function paged :: "nat \<Rightarrow> ('r \<Rightarrow> int) \<Rightarrow> 'r list \<Rightarrow> int \<Rightarrow> 'r list" where
  "paged b key rows lo =
     (let page = take b (filter (\<lambda>r. lo < key r) rows) in
      if page = [] then []
      else page @ (if length page < b then [] else paged b key rows (key (last page))))"
  by pat_completeness auto
termination
proof (relation "measure (\<lambda>(b, key, rows, lo). length (filter (\<lambda>r. lo < key r) rows))", simp)
  fix b key and rows :: "'r list" and lo :: int and page
  assume page: "page = take b (filter (\<lambda>r. lo < key r) rows)" "page \<noteq> []"
  let ?l = "last page"
  have "?l \<in> set page" using page(2) by simp
  then have l: "?l \<in> set rows" "lo < key ?l"
    unfolding page(1) by (auto dest: in_set_takeD)
  have "{r. key ?l < key r} \<subset> {r. lo < key r}" using l(2) by auto
  moreover have "filter (\<lambda>r. key ?l < key r) rows = filter (\<lambda>r. key ?l < key r) (filter (\<lambda>r. lo < key r) rows)"
    using l(2) by (auto intro!: filter_cong)
  moreover have "length (filter (\<lambda>r. key ?l < key r) (filter (\<lambda>r. lo < key r) rows))
      < length (filter (\<lambda>r. lo < key r) rows)"
    using l by (intro length_filter_less [of ?l]) auto
  ultimately show "((b, key, rows, key ?l), b, key, rows, lo)
      \<in> measure (\<lambda>(b, key, rows, lo). length (filter (\<lambda>r. lo < key r) rows))" by simp
qed

declare paged.simps [simp del]

lemma sorted_filter_after:
  fixes key :: "'r \<Rightarrow> int"
  assumes "sorted_wrt (\<lambda>a b. key a < key b) xs" "xs = ys @ y # zs"
  shows "filter (\<lambda>r. key y < key r) xs = zs"
proof -
  have "filter (\<lambda>r. key y < key r) (ys @ [y]) = []"
    using assms by (auto simp: filter_empty_conv sorted_wrt_append)
  moreover have "filter (\<lambda>r. key y < key r) zs = zs"
    using assms by (auto simp: filter_id_conv sorted_wrt_append)
  ultimately show ?thesis using assms(2) by simp
qed

text \<open>Over rows in key order the pages are the rows.\<close>

lemma paged_all:
  assumes "0 < b" "sorted_wrt (\<lambda>a b. key a < key b) rows"
  shows "paged b key rows lo = filter (\<lambda>r. lo < key r) rows"
  using assms
proof (induction b key rows lo rule: paged.induct)
  case (1 b key rows lo)
  let ?f = "filter (\<lambda>r. lo < key r) rows"
  let ?p = "take b ?f"
  show ?case
  proof (cases "?p = [] \<or> length ?p < b")
    case True
    then have "?p = ?f" using 1(2) by auto
    then show ?thesis using True by (subst paged.simps) (auto simp: Let_def)
  next
    case False
    have IH: "paged b key rows (key (last ?p)) = filter (\<lambda>r. key (last ?p) < key r) rows"
      using 1(1) [OF refl _ _ 1(2,3)] False by blast
    have f: "?f = butlast ?p @ last ?p # drop b ?f"
      using False append_butlast_last_id [of ?p] by (metis append_assoc append_Cons append_Nil append_take_drop_id)
    have srt: "sorted_wrt (\<lambda>a b. key a < key b) ?f" using 1(3) by (rule sorted_wrt_filter)
    have "last ?p \<in> set ?p" using False by simp
    then have "last ?p \<in> set ?f" by (rule in_set_takeD)
    then have lt: "lo < key (last ?p)" by simp
    have "filter (\<lambda>r. key (last ?p) < key r) rows = filter (\<lambda>r. key (last ?p) < key r) ?f"
      using lt by (auto intro!: filter_cong)
    also have "\<dots> = drop b ?f" by (rule sorted_filter_after [OF srt f])
    finally show ?thesis
      using False IH by (subst paged.simps) (simp add: Let_def)
  qed
qed

end
