(* ===== verification/Go_Runes.thy ===== *)
theory Go_Runes
  imports Prelude
begin

text \<open>
  UTF-8 as Go's package \<^verbatim>\<open>unicode/utf8\<close> reads it, and the rune-wise string functions the
  program uses: \<^verbatim>\<open>[]rune(s)\<close>, \<^verbatim>\<open>utf8.ValidString\<close>, \<^verbatim>\<open>utf8.RuneStart\<close>, \<^verbatim>\<open>strings.TrimSpace\<close>
  and \<^verbatim>\<open>strings.Fields\<close>.  A rune is its code point, a \<^typ>\<open>nat\<close>; an invalid byte decodes to
  \<^verbatim>\<open>utf8.RuneError\<close> (U+FFFD) with width one.
\<close>

section \<open>Decoding\<close>

definition rune_error :: nat where
  "rune_error = 65533"

definition byte_in :: "nat \<Rightarrow> nat \<Rightarrow> char \<Rightarrow> bool" where
  "byte_in lo hi c \<longleftrightarrow> lo \<le> byte_of c \<and> byte_of c \<le> hi"

abbreviation cont_byte :: "char \<Rightarrow> bool" where
  "cont_byte \<equiv> byte_in 128 191"

abbreviation cont_bits :: "char \<Rightarrow> nat" where
  "cont_bits c \<equiv> byte_of c - 128"

text \<open>\<^verbatim>\<open>utf8.DecodeRuneInString\<close>: the code point and its width; width 0 only on the empty string.\<close>

definition decode_rune :: "string \<Rightarrow> nat \<times> nat" where
  "decode_rune s =
     (case s of
        [] \<Rightarrow> (rune_error, 0)
      | c0 # t \<Rightarrow>
          (let b0 = byte_of c0 in
           if b0 < 128 then (b0, 1)
           else if b0 < 194 \<or> 244 < b0 then (rune_error, 1)
           else if b0 < 224 then
             (case t of
                c1 # _ \<Rightarrow>
                  (if cont_byte c1 then ((b0 - 192) * 64 + cont_bits c1, 2) else (rune_error, 1))
              | [] \<Rightarrow> (rune_error, 1))
           else if b0 < 240 then
             (case t of
                c1 # c2 # _ \<Rightarrow>
                  (if byte_in (if b0 = 224 then 160 else 128) (if b0 = 237 then 159 else 191) c1
                      \<and> cont_byte c2
                   then ((b0 - 224) * 4096 + cont_bits c1 * 64 + cont_bits c2, 3)
                   else (rune_error, 1))
              | _ \<Rightarrow> (rune_error, 1))
           else
             (case t of
                c1 # c2 # c3 # _ \<Rightarrow>
                  (if byte_in (if b0 = 240 then 144 else 128) (if b0 = 244 then 143 else 191) c1
                      \<and> cont_byte c2 \<and> cont_byte c3
                   then ((b0 - 240) * 262144 + cont_bits c1 * 4096 + cont_bits c2 * 64
                         + cont_bits c3, 4)
                   else (rune_error, 1))
              | _ \<Rightarrow> (rune_error, 1))))"

lemma decode_rune_width_pos: "s \<noteq> [] \<Longrightarrow> 0 < snd (decode_rune s)"
  by (auto simp: decode_rune_def Let_def split: list.splits)

lemma decode_rune_width_le: "snd (decode_rune s) \<le> length s"
  by (auto simp: decode_rune_def Let_def split: list.splits)

text \<open>The whole string as runes, each with the bytes it was decoded from.\<close>

function rune_segs :: "string \<Rightarrow> (nat \<times> string) list" where
  "rune_segs s =
     (if s = [] then []
      else (fst (decode_rune s), take (snd (decode_rune s)) s)
             # rune_segs (drop (snd (decode_rune s)) s))"
  by pat_completeness auto
termination
  by (relation "measure length") (use decode_rune_width_pos in \<open>auto simp: diff_less\<close>)

declare rune_segs.simps [simp del]

lemma rune_segs_Nil [simp]: "rune_segs [] = []"
  by (simp add: rune_segs.simps)

lemma rune_segs_nonempty:
  "s \<noteq> [] \<Longrightarrow> rune_segs s =
     (fst (decode_rune s), take (snd (decode_rune s)) s) # rune_segs (drop (snd (decode_rune s)) s)"
  by (subst rune_segs.simps) simp

lemma rune_segs_bytes: "concat (map snd (rune_segs s)) = s"
proof (induction s rule: rune_segs.induct)
  case (1 s)
  then show ?case by (cases "s = []") (simp_all add: rune_segs_nonempty)
qed

text \<open>\<^verbatim>\<open>[]rune(s)\<close>.\<close>

definition runes_of :: "string \<Rightarrow> nat list" where
  "runes_of s = map fst (rune_segs s)"

lemma runes_of_Nil [simp]: "runes_of [] = []"
  by (simp add: runes_of_def)

definition ascii_string :: "string \<Rightarrow> bool" where
  "ascii_string s \<longleftrightarrow> (\<forall>c\<in>set s. byte_of c < (128::nat))"

lemma decode_rune_ascii: "byte_of c < (128::nat) \<Longrightarrow> decode_rune (c # s) = (byte_of c, 1)"
  by (simp add: decode_rune_def)

lemma rune_segs_ascii: "ascii_string s \<Longrightarrow> rune_segs s = map (\<lambda>c. (byte_of c, [c])) s"
  by (induction s) (auto simp: ascii_string_def rune_segs_nonempty decode_rune_ascii)

lemma runes_of_ascii: "ascii_string s \<Longrightarrow> runes_of s = map byte_of s"
  by (simp add: runes_of_def rune_segs_ascii)

text \<open>
  \<^verbatim>\<open>utf8.ValidString\<close>: no byte decodes to an error of width one (U+FFFD itself, written in
  its three bytes, is valid), and \<^verbatim>\<open>utf8.RuneStart\<close>: not a continuation byte.
\<close>

definition valid_utf8 :: "string \<Rightarrow> bool" where
  "valid_utf8 s \<longleftrightarrow> (\<forall>(r, bs)\<in>set (rune_segs s). \<not> (r = rune_error \<and> length bs = 1))"

definition rune_start :: "char \<Rightarrow> bool" where
  "rune_start c \<longleftrightarrow> \<not> cont_byte c"

lemma valid_utf8_Nil [simp]: "valid_utf8 []"
  by (simp add: valid_utf8_def)

lemma valid_utf8_ascii: "ascii_string s \<Longrightarrow> valid_utf8 s"
  by (auto simp: valid_utf8_def rune_segs_ascii ascii_string_def rune_error_def)

section \<open>White space\<close>

text \<open>\<^verbatim>\<open>unicode.IsSpace\<close>: the Unicode White_Space property.\<close>

definition is_space :: "nat \<Rightarrow> bool" where
  "is_space r \<longleftrightarrow>
     (9 \<le> r \<and> r \<le> 13) \<or> r = 32 \<or> r = 133 \<or> r = 160 \<or> r = 5760 \<or> (8192 \<le> r \<and> r \<le> 8202)
     \<or> r = 8232 \<or> r = 8233 \<or> r = 8239 \<or> r = 8287 \<or> r = 12288"

text \<open>\<^verbatim>\<open>strings.TrimSpace\<close>.\<close>

definition trim_space :: "string \<Rightarrow> string" where
  "trim_space s =
     (let sp = (\<lambda>(r, bs). is_space r);
          segs = rev (dropWhile sp (rev (dropWhile sp (rune_segs s))))
      in concat (map snd segs))"

lemma trim_space_Nil [simp]: "trim_space [] = []"
  by (simp add: trim_space_def)

lemma trim_space_ascii:
  assumes "ascii_string s"
  shows "trim_space s =
    (let sp = (\<lambda>c. is_space (byte_of c)) in rev (dropWhile sp (rev (dropWhile sp s))))"
proof -
  have sing: "concat (map (\<lambda>c. [c]) xs) = xs" for xs :: string
    by (induction xs) auto
  show ?thesis
    by (simp add: trim_space_def rune_segs_ascii [OF assms] dropWhile_map rev_map comp_def sing Let_def)
qed

lemma trim_space_id_ascii [str_eval]:
  assumes "ascii_string s" "\<forall>c\<in>set s. \<not> is_space (byte_of c)"
  shows "trim_space s = s"
proof -
  have "dropWhile (\<lambda>c. is_space (byte_of c)) s = s"
    using assms(2) by (cases s) auto
  moreover have "dropWhile (\<lambda>c. is_space (byte_of c)) (rev s) = rev s"
    using assms(2) by (cases s rule: rev_cases) auto
  ultimately show ?thesis by (simp add: trim_space_ascii [OF assms(1)])
qed

declare ascii_string_def [str_eval] is_space_def [str_eval]

text \<open>\<^verbatim>\<open>strings.FieldsFunc(s, f)\<close> on a list of decoded runes: the maximal runs outside \<open>f\<close>.\<close>

fun fields_by :: "('a \<Rightarrow> bool) \<Rightarrow> 'a list \<Rightarrow> 'a list \<Rightarrow> 'a list list" where
  "fields_by f acc [] = (if acc = [] then [] else [rev acc])"
| "fields_by f acc (x # xs) =
     (if f x then (if acc = [] then [] else [rev acc]) @ fields_by f [] xs
      else fields_by f (x # acc) xs)"

lemma fields_by_concat: "concat (fields_by f acc xs) = rev acc @ filter (\<lambda>x. \<not> f x) xs"
  by (induction f acc xs rule: fields_by.induct) auto

lemma fields_by_nonempty: "seg \<in> set (fields_by f acc xs) \<Longrightarrow> seg \<noteq> []"
  by (induction f acc xs rule: fields_by.induct) (auto split: if_splits)

lemma fields_by_clean:
  "seg \<in> set (fields_by f acc xs) \<Longrightarrow> \<forall>x\<in>set acc. \<not> f x \<Longrightarrow> x \<in> set seg \<Longrightarrow> \<not> f x"
  by (induction f acc xs arbitrary: seg rule: fields_by.induct) (auto split: if_splits)

definition fields_func :: "(nat \<Rightarrow> bool) \<Rightarrow> string \<Rightarrow> string list" where
  "fields_func f s = map (\<lambda>segs. concat (map snd segs)) (fields_by (\<lambda>(r, bs). f r) [] (rune_segs s))"

end
