(* ===== verification/Edit_Distance.thy ===== *)
theory Edit_Distance
  imports Go_Runes
begin

text \<open>
  The bounded Levenshtein distance of the fuzzy symbol search
  (\<^verbatim>\<open>internal/search/edit_distance.go\<close>).  The code keeps two rows of the dynamic programming
  table and leaves early when a whole row exceeds the bound.  The specification is the least
  number of insertions, deletions and substitutions that turn one rune sequence into the
  other, as an inductive relation.
\<close>

section \<open>The code\<close>

definition min3 :: "int \<Rightarrow> int \<Rightarrow> int \<Rightarrow> int" where
  "min3 a b c =
     (if a < b then (if a < c then a else c) else if b < c then b else c)"

definition go_abs :: "int \<Rightarrow> int" where
  "go_abs x = (if x < 0 then - x else x)"

text \<open>
  One row: \<open>left\<close> is \<^verbatim>\<open>cur[j-1]\<close>, the head of \<open>prev\<close> is \<^verbatim>\<open>prev[j-1]\<close> and the element after it
  \<^verbatim>\<open>prev[j]\<close>; the list \<open>ys\<close> is what is left of the second string.
\<close>

fun dp_cells :: "'a \<Rightarrow> int \<Rightarrow> int list \<Rightarrow> 'a list \<Rightarrow> int list" where
  "dp_cells x left (p0 # p1 # ps) (y # ys) =
     (let cost = (if x \<noteq> y then 1 else 0);
          c = min3 (left + 1) (p1 + 1) (p0 + cost)
      in c # dp_cells x c (p1 # ps) ys)"
| "dp_cells x left ps ys = []"

definition dp_row :: "'a \<Rightarrow> int \<Rightarrow> int list \<Rightarrow> 'a list \<Rightarrow> int list" where
  "dp_row x i prev b = i # dp_cells x i prev b"

definition row_min :: "int list \<Rightarrow> int" where
  "row_min cur = foldl (\<lambda>m c. if c < m then c else m) (hd cur) (tl cur)"

fun bed_loop :: "'a list \<Rightarrow> int \<Rightarrow> int list \<Rightarrow> 'a list \<Rightarrow> int \<Rightarrow> int" where
  "bed_loop [] i prev b maxd = last prev"
| "bed_loop (x # xs) i prev b maxd =
     (let cur = dp_row x i prev b in
      if row_min cur > maxd then maxd + 1 else bed_loop xs (i + 1) cur b maxd)"

definition bounded_edit_distance :: "string \<Rightarrow> string \<Rightarrow> int \<Rightarrow> int" where
  "bounded_edit_distance a b maxd =
     (if a = b then 0
      else
        (let ra = runes_of a; rb = runes_of b; al = int (length ra); bl = int (length rb) in
         if go_abs (al - bl) > maxd then maxd + 1
         else if al = 0 then bl
         else if bl = 0 then al
         else bed_loop ra 1 (map int [0..<Suc (length rb)]) rb maxd))"

section \<open>The specification\<close>

inductive edits :: "nat \<Rightarrow> 'a list \<Rightarrow> 'a list \<Rightarrow> bool" where
  nothing: "edits 0 [] []"
| keep: "edits n a b \<Longrightarrow> edits n (x # a) (x # b)"
| substitute: "edits n a b \<Longrightarrow> edits (Suc n) (x # a) (y # b)"
| insert: "edits n a b \<Longrightarrow> edits (Suc n) a (y # b)"
| delete: "edits n a b \<Longrightarrow> edits (Suc n) (x # a) b"

text \<open>An executable form of the least number of edits.\<close>

fun lev :: "'a list \<Rightarrow> 'a list \<Rightarrow> nat" where
  "lev [] b = length b"
| "lev (x # a) [] = length (x # a)"
| "lev (x # a) (y # b) =
     min (Suc (lev a (y # b)))
         (min (Suc (lev (x # a) b)) ((if x \<noteq> y then 1 else 0) + lev a b))"

lemma lev_Nil2 [simp]: "lev a [] = length a"
  by (cases a) auto

lemma edits_inserts: "edits (length b) [] b"
  by (induction b) (auto intro: edits.intros)

lemma edits_deletes: "edits (length a) a []"
  by (induction a) (auto intro: edits.intros)

lemma edits_lev: "edits (lev a b) a b"
proof (induction a b rule: lev.induct)
  case (3 x a y b)
  have "edits ((if x \<noteq> y then 1 else 0) + lev a b) (x # a) (y # b)"
    using 3(3) by (auto intro: edits.keep edits.substitute)
  then show ?case
    using edits.delete [OF 3(1), of x] edits.insert [OF 3(2), of y]
    by (simp only: lev.simps min_def split: if_split) simp
next
  case (2 x a)
  then show ?case using edits_deletes [of "x # a"] by simp
qed (simp add: edits_inserts)

lemma lev_le_edits: "edits n a b \<Longrightarrow> lev a b \<le> n"
proof (induction rule: edits.induct)
  case (insert n a b y)
  then show ?case by (cases a) auto
next
  case (delete n a b x)
  then show ?case by (cases b) auto
qed auto

lemma lev_Least: "lev a b = (LEAST n. edits n a b)"
  by (rule Least_equality [symmetric]) (auto intro: edits_lev lev_le_edits)

text \<open>Edits from the right end, hence reversal.\<close>

lemma edits_snoc_keep: "edits n a b \<Longrightarrow> edits n (a @ [x]) (b @ [x])"
  by (induction rule: edits.induct) (auto intro: edits.intros)

lemma edits_snoc_substitute: "edits n a b \<Longrightarrow> edits (Suc n) (a @ [x]) (b @ [y])"
  by (induction rule: edits.induct) (auto intro: edits.intros)

lemma edits_snoc_insert: "edits n a b \<Longrightarrow> edits (Suc n) a (b @ [y])"
  by (induction rule: edits.induct) (auto intro: edits.intros)

lemma edits_snoc_delete: "edits n a b \<Longrightarrow> edits (Suc n) (a @ [x]) b"
  by (induction rule: edits.induct) (auto intro: edits.intros)

lemma edits_rev: "edits n a b \<Longrightarrow> edits n (rev a) (rev b)"
  by (induction rule: edits.induct)
     (auto intro: edits.intros edits_snoc_keep edits_snoc_substitute edits_snoc_insert edits_snoc_delete)

lemma lev_rev: "lev (rev a) (rev b) = lev a b"
proof (rule antisym)
  show "lev (rev a) (rev b) \<le> lev a b"
    by (rule lev_le_edits, rule edits_rev, rule edits_lev)
  have "lev (rev (rev a)) (rev (rev b)) \<le> lev (rev a) (rev b)"
    by (rule lev_le_edits, rule edits_rev, rule edits_lev)
  then show "lev a b \<le> lev (rev a) (rev b)" by simp
qed

lemma lev_snoc:
  "lev (a @ [x]) (b @ [y]) =
     min (Suc (lev a (b @ [y])))
         (min (Suc (lev (a @ [x]) b)) ((if x \<noteq> y then 1 else 0) + lev a b))"
  using lev.simps(3) [of x "rev a" y "rev b"] lev_rev [of "a @ [x]" "b @ [y]"]
    lev_rev [of a "b @ [y]"] lev_rev [of "a @ [x]" b] lev_rev [of a b]
  by simp

text \<open>Every alignment of \<open>a1 @ a2\<close> passes through the row after \<open>a1\<close>.\<close>

lemma edits_split:
  "edits n a b \<Longrightarrow> a = a1 @ a2 \<Longrightarrow>
     \<exists>b1 b2 n1 n2. b = b1 @ b2 \<and> n = n1 + n2 \<and> edits n1 a1 b1 \<and> edits n2 a2 b2"
proof (induction arbitrary: a1 rule: edits.induct)
  case nothing
  then show ?case by (auto intro: edits.nothing)
next
  case (keep n a b x)
  show ?case
  proof (cases a1)
    case Nil
    then show ?thesis using keep.prems edits.keep [OF keep.hyps, of x] edits.nothing
      by (intro exI [of _ "[]"] exI [of _ "x # b"] exI [of _ 0] exI [of _ n]) simp
  next
    case (Cons x' a1')
    then obtain b1 b2 n1 n2 where "b = b1 @ b2 \<and> n = n1 + n2 \<and> edits n1 a1' b1 \<and> edits n2 a2 b2" "x' = x"
      using keep by auto
    then show ?thesis using Cons edits.keep [of n1 a1' b1 x]
      by (intro exI [of _ "x # b1"] exI [of _ b2] exI [of _ n1] exI [of _ n2]) simp
  qed
next
  case (substitute n a b x y)
  show ?case
  proof (cases a1)
    case Nil
    then show ?thesis
      using substitute.prems edits.substitute [OF substitute.hyps, of x y] edits.nothing
      by (intro exI [of _ "[]"] exI [of _ "y # b"] exI [of _ 0] exI [of _ "Suc n"]) simp
  next
    case (Cons x' a1')
    then obtain b1 b2 n1 n2 where "b = b1 @ b2 \<and> n = n1 + n2 \<and> edits n1 a1' b1 \<and> edits n2 a2 b2" "x' = x"
      using substitute by auto
    then show ?thesis using Cons edits.substitute [of n1 a1' b1 x y]
      by (intro exI [of _ "y # b1"] exI [of _ b2] exI [of _ "Suc n1"] exI [of _ n2]) simp
  qed
next
  case (insert n a b y)
  then obtain b1 b2 n1 n2 where "b = b1 @ b2 \<and> n = n1 + n2 \<and> edits n1 a1 b1 \<and> edits n2 a2 b2"
    by auto
  then show ?case using edits.insert [of n1 a1 b1 y]
    by (intro exI [of _ "y # b1"] exI [of _ b2] exI [of _ "Suc n1"] exI [of _ n2]) simp
next
  case (delete n a b x)
  show ?case
  proof (cases a1)
    case Nil
    then show ?thesis using delete.prems edits.delete [OF delete.hyps, of x] edits.nothing
      by (intro exI [of _ "[]"] exI [of _ b] exI [of _ 0] exI [of _ "Suc n"]) simp
  next
    case (Cons x' a1')
    then obtain b1 b2 n1 n2 where "b = b1 @ b2 \<and> n = n1 + n2 \<and> edits n1 a1' b1 \<and> edits n2 a2 b2" "x' = x"
      using delete by auto
    then show ?thesis using Cons edits.delete [of n1 a1' b1 x]
      by (intro exI [of _ b1] exI [of _ b2] exI [of _ "Suc n1"] exI [of _ n2]) simp
  qed
qed

lemma lev_row_bound: "\<exists>b1 b2. b = b1 @ b2 \<and> lev a1 b1 \<le> lev (a1 @ a2) b"
proof -
  from edits_split [OF edits_lev [of "a1 @ a2" b] refl]
  obtain b1 b2 n1 n2 where s: "b = b1 @ b2" "lev (a1 @ a2) b = n1 + n2" "edits n1 a1 b1"
    by (elim exE conjE) (rule that)
  have "lev a1 b1 \<le> n1" using s(3) by (rule lev_le_edits)
  then have "lev a1 b1 \<le> lev (a1 @ a2) b" unfolding s(2) by simp
  then show ?thesis using s(1) by (intro exI [of _ b1] exI [of _ b2]) simp
qed

section \<open>The rows of the table\<close>

text \<open>Row after \<open>a\<close>, from the column after \<open>b1\<close> on.\<close>

fun lev_row :: "'a list \<Rightarrow> 'a list \<Rightarrow> 'a list \<Rightarrow> int list" where
  "lev_row a b1 [] = [int (lev a b1)]"
| "lev_row a b1 (y # ys) = int (lev a b1) # lev_row a (b1 @ [y]) ys"

lemma lev_row_not_Nil [simp]: "lev_row a b1 ys \<noteq> []"
  by (cases ys) auto

lemma hd_lev_row [simp]: "hd (lev_row a b1 ys) = int (lev a b1)"
  by (cases ys) auto

lemma last_lev_row [simp]: "last (lev_row a b1 ys) = int (lev a (b1 @ ys))"
  by (induction a b1 ys rule: lev_row.induct) auto

lemma set_lev_row: "set (lev_row a b1 ys) = {int (lev a (b1 @ p)) | p. prefix p ys}"
proof (induction a b1 ys rule: lev_row.induct)
  case (2 a b1 y ys)
  show ?case
    unfolding lev_row.simps list.set 2 prefix_Cons
    by (force simp: prefix_Cons)
qed auto

lemma min3_eq: "min3 a b c = min (min a b) c"
  by (simp add: min3_def)

lemma dp_cells_lev_row:
  "dp_cells x (int (lev (a @ [x]) b1)) (lev_row a b1 ys) ys = tl (lev_row (a @ [x]) b1 ys)"
proof (induction ys arbitrary: b1)
  case (Cons y ys)
  obtain zs where row: "lev_row a (b1 @ [y]) ys = int (lev a (b1 @ [y])) # zs"
    by (cases ys) auto
  have cell: "min3 (int (lev (a @ [x]) b1) + 1) (int (lev a (b1 @ [y])) + 1)
      (int (lev a b1) + (if x \<noteq> y then 1 else 0)) = int (lev (a @ [x]) (b1 @ [y]))"
    unfolding lev_snoc min3_eq by (simp add: min_def)
  have "dp_cells x (int (lev (a @ [x]) b1)) (lev_row a b1 (y # ys)) (y # ys)
      = int (lev (a @ [x]) (b1 @ [y])) # tl (lev_row (a @ [x]) (b1 @ [y]) ys)"
    using Cons.IH [of "b1 @ [y]"] unfolding lev_row.simps(2) row dp_cells.simps Let_def cell by simp
  then show ?case
    using hd_Cons_tl [OF lev_row_not_Nil [of "a @ [x]" "b1 @ [y]" ys]] by simp
qed simp

lemma dp_row_lev_row:
  "dp_row x (int (length a) + 1) (lev_row a [] b) b = lev_row (a @ [x]) [] b"
proof -
  have "int (length a) + 1 = int (lev (a @ [x]) [])" by simp
  then show ?thesis
    using dp_cells_lev_row [of x a "[]" b] hd_Cons_tl [OF lev_row_not_Nil [of "a @ [x]" "[]" b]]
    unfolding dp_row_def by (simp add: add.commute)
qed

lemma row_min_Min: "xs \<noteq> [] \<Longrightarrow> row_min xs = Min (set xs)"
proof (cases xs)
  case (Cons m ys)
  have "foldl (\<lambda>m c. if c < m then c else m) m ys = fold min ys m"
    by (induction ys arbitrary: m) (auto simp: min_def)
  then show ?thesis using Cons by (simp only: row_min_def list.sel Min.set_eq_fold)
qed simp

lemma bed_loop_correct:
  "bed_loop a2 (int (length a1) + 1) (lev_row a1 [] b) b maxd = int (lev (a1 @ a2) b)
   \<or> bed_loop a2 (int (length a1) + 1) (lev_row a1 [] b) b maxd = maxd + 1
     \<and> maxd < int (lev (a1 @ a2) b)"
proof (induction a2 arbitrary: a1)
  case (Cons x a2)
  let ?row = "lev_row (a1 @ [x]) [] b"
  have unroll: "bed_loop (x # a2) (int (length a1) + 1) (lev_row a1 [] b) b maxd =
      (if row_min ?row > maxd then maxd + 1
       else bed_loop a2 (int (length (a1 @ [x])) + 1) ?row b maxd)"
    unfolding bed_loop.simps Let_def dp_row_lev_row by simp
  show ?case
  proof (cases "row_min ?row > maxd")
    case True
    obtain b1 b2 where b: "b = b1 @ b2" "lev (a1 @ [x]) b1 \<le> lev ((a1 @ [x]) @ a2) b"
      using lev_row_bound by blast
    have "int (lev (a1 @ [x]) b1) \<in> set ?row" using b(1) by (auto simp: set_lev_row)
    then have "maxd < int (lev (a1 @ [x]) b1)"
      using True by (simp add: row_min_Min)
    then show ?thesis using True b(2) unfolding unroll by simp
  next
    case False
    then show ?thesis
      using Cons.IH [of "a1 @ [x]"] unfolding unroll by simp
  qed
qed simp

lemma lev_row_Nil: "lev_row [] b1 b = map int [length b1..<Suc (length b1 + length b)]"
  by (induction b arbitrary: b1) (simp_all add: upt_conv_Cons del: upt_Suc)

lemma lev_ge_diff: "\<bar>int (length a) - int (length b)\<bar> \<le> int (lev a b)"
  by (induction a b rule: lev.induct) auto

lemma lev_refl: "lev a a = 0"
  by (induction a) auto

section \<open>Properties\<close>

text \<open>C10 (\<open>bounded_edit_distance_correct\<close>).  The bounded edit distance decides the bound exactly and is exact below it: for a
  bound of at least zero the result is at most the bound if and only if the least number of
  insertions, deletions and substitutions between the two rune sequences is, and then it is that
  number; otherwise the result is at least \<^verbatim>\<open>maxDist+1\<close>.\<close>

theorem bounded_edit_distance_correct:
  fixes a b :: string
  assumes "0 \<le> maxd"
  defines "d \<equiv> int (LEAST n. edits n (runes_of a) (runes_of b))"
    and "r \<equiv> bounded_edit_distance a b maxd"
  shows "(d \<le> maxd \<longrightarrow> r = d) \<and> (maxd < d \<longrightarrow> maxd < r)"
proof -
  have d: "d = int (lev (runes_of a) (runes_of b))" by (simp add: d_def lev_Least)
  have diff: "go_abs (int (length (runes_of a)) - int (length (runes_of b))) \<le> d"
    using lev_ge_diff [of "runes_of a" "runes_of b"] d by (auto simp: go_abs_def)
  have row: "map int [0..<Suc (length (runes_of b))] = lev_row [] [] (runes_of b)"
    using lev_row_Nil [of "[]" "runes_of b"] by simp
  have loop: "bed_loop (runes_of a) 1 (lev_row [] [] (runes_of b)) (runes_of b) maxd = d
      \<or> bed_loop (runes_of a) 1 (lev_row [] [] (runes_of b)) (runes_of b) maxd = maxd + 1 \<and> maxd < d"
    using bed_loop_correct [of "runes_of a" "[]" "runes_of b" maxd] d by simp
  show ?thesis
    using diff loop d assms(1) lev_refl [of "runes_of b"]
    unfolding r_def bounded_edit_distance_def Let_def row by (auto split: if_splits)
qed

theorem bounded_edit_distance_correct_witness:
  "bounded_edit_distance ''kitten'' ''sitting'' 3 = 3 \<and> bounded_edit_distance ''kitten'' ''sitting'' 1 = 2
   \<and> (LEAST n. edits n (runes_of ''kitten'') (runes_of ''sitting'')) = 3"
proof -
  have r: "runes_of ''kitten'' = [107,105,116,116,101,110]"
    "runes_of ''sitting'' = [115,105,116,116,105,110,103]"
    by (simp_all add: runes_of_ascii ascii_string_def)
  have v: "bounded_edit_distance ''kitten'' ''sitting'' 3 = 3"
    "bounded_edit_distance ''kitten'' ''sitting'' 1 = 2"
    by (simp_all add: bounded_edit_distance_def r go_abs_def dp_row_def row_min_def min3_def upt_rec)
  show ?thesis
    using v bounded_edit_distance_correct [of 3 "''kitten''" "''sitting''"] by linarith
qed

end
