(* ===== verification/Go_Match.thy ===== *)
theory Go_Match
  imports Go_Runes
begin

text \<open>
  \<^verbatim>\<open>filepath.Match\<close> of the Go library on Unix (\<^verbatim>\<open>scanChunk\<close>, \<^verbatim>\<open>matchChunk\<close>, \<^verbatim>\<open>getEsc\<close>), which
  the exclusion rules are interpreted with.  \<^const>\<open>None\<close> is \<^verbatim>\<open>ErrBadPattern\<close>.  Like the library
  the program was measured against, a failed match does not look at the rest of the pattern.
\<close>

section \<open>Chunks\<close>

abbreviation star :: char where "star \<equiv> CHR ''*''"
abbreviation lbracket :: char where "lbracket \<equiv> CHR ''[''"
abbreviation rbracket :: char where "rbracket \<equiv> CHR '']''"

fun scan_end :: "bool \<Rightarrow> string \<Rightarrow> nat" where
  "scan_end inrange [] = 0"
| "scan_end inrange (c # cs) =
     (if c = backslash then (case cs of [] \<Rightarrow> 1 | d # ds \<Rightarrow> 2 + scan_end inrange ds)
      else if c = lbracket then 1 + scan_end True cs
      else if c = rbracket then 1 + scan_end False cs
      else if c = star \<and> \<not> inrange then 0
      else 1 + scan_end inrange cs)"

text \<open>Whether the chunk is preceded by a star, the chunk, and the rest of the pattern.\<close>

definition scan_chunk :: "string \<Rightarrow> bool \<times> string \<times> string" where
  "scan_chunk pat =
     (let body = dropWhile (\<lambda>c. c = star) pat; n = scan_end False body
      in (body \<noteq> pat, take n body, drop n body))"

lemma scan_end_pos: "c \<noteq> star \<Longrightarrow> 0 < scan_end False (c # cs)"
  by (simp split: list.split)

lemma scan_chunk_shorter:
  assumes "scan_chunk pat = (st, chunk, rest)" "\<not> (st \<and> chunk = [])" "pat \<noteq> []"
  shows "length rest < length pat"
proof -
  let ?b = "dropWhile (\<lambda>c. c = star) pat"
  have r: "rest = drop (scan_end False ?b) ?b" "st = (?b \<noteq> pat)" "chunk = take (scan_end False ?b) ?b"
    using assms(1) by (auto simp: scan_chunk_def Let_def)
  have le: "length ?b \<le> length pat" by (simp add: length_dropWhile_le)
  show ?thesis
  proof (cases ?b)
    case Nil
    then have "rest = []" using r(1) by (simp only: drop_Nil)
    then show ?thesis using assms(3) by simp
  next
    case (Cons c cs)
    then have "c \<noteq> star" using dropWhile_eq_hd [OF Cons] by simp
    then have "0 < scan_end False ?b" using Cons scan_end_pos by simp
    then have "length rest < length ?b" using r(1) Cons by (simp add: diff_less)
    then show ?thesis using le by linarith
  qed
qed

section \<open>Classes\<close>

definition get_esc :: "string \<Rightarrow> (nat \<times> string) option" where
  "get_esc chunk =
     (case chunk of
        [] \<Rightarrow> None
      | c # cs \<Rightarrow>
          if c = CHR ''-'' \<or> c = rbracket then None
          else
            (let body = (if c = backslash then cs else chunk) in
             if body = [] then None
             else
               (let (r, n) = decode_rune body; rest = drop n body in
                if (r = rune_error \<and> n = 1) \<or> rest = [] then None else Some (r, rest))))"

lemma get_esc_shorter: "get_esc chunk = Some (r, rest) \<Longrightarrow> length rest < length chunk \<and> rest \<noteq> []"
proof -
  assume a: "get_esc chunk = Some (r, rest)"
  then obtain c cs where c: "chunk = c # cs" by (auto simp: get_esc_def split: list.splits)
  let ?body = "if c = backslash then cs else chunk"
  have b: "?body \<noteq> []" "rest = drop (snd (decode_rune ?body)) ?body" "rest \<noteq> []"
    using a c by (auto simp: get_esc_def Let_def split: if_splits prod.splits)
  have "0 < snd (decode_rune ?body)" using b(1) by (rule decode_rune_width_pos)
  moreover have "length ?body \<le> length chunk" using c by auto
  ultimately show ?thesis using b c by (auto split: if_splits)
qed

text \<open>The ranges of a class, up to its closing bracket, which needs at least one range before it.\<close>

function class_ranges :: "nat \<Rightarrow> string \<Rightarrow> ((nat \<times> nat) list \<times> string) option" where
  "class_ranges k chunk =
     (if chunk \<noteq> [] \<and> hd chunk = rbracket \<and> 0 < k then Some ([], tl chunk)
      else case get_esc chunk of
        None \<Rightarrow> None
      | Some (lo, c1) \<Rightarrow>
          (if hd c1 = CHR ''-'' then
             (case get_esc (tl c1) of
                None \<Rightarrow> None
              | Some (hi, c2) \<Rightarrow> map_option (\<lambda>(rs, t). ((lo, hi) # rs, t)) (class_ranges (Suc k) c2))
           else map_option (\<lambda>(rs, t). ((lo, lo) # rs, t)) (class_ranges (Suc k) c1)))"
  by pat_completeness auto
termination
  by (relation "measure (length \<circ> snd)") (fastforce dest: get_esc_shorter)+

declare class_ranges.simps [simp del]

lemma class_ranges_shorter:
  "class_ranges k chunk = Some (rs, rest) \<Longrightarrow> length rest < length chunk"
proof (induction k chunk arbitrary: rs rest rule: class_ranges.induct)
  case (1 k chunk)
  show ?case
  proof (cases "chunk \<noteq> [] \<and> hd chunk = rbracket \<and> 0 < k")
    case True
    then show ?thesis using "1.prems" by (auto simp: class_ranges.simps [of k chunk])
  next
    case close: False
    then obtain lo c1 where g: "get_esc chunk = Some (lo, c1)"
      using "1.prems" by (auto simp: class_ranges.simps [of k chunk] split: option.splits)
    show ?thesis
    proof (cases "hd c1 = CHR ''-''")
      case True
      then obtain hi c2 where h: "get_esc (tl c1) = Some (hi, c2)"
        using "1.prems" close g by (auto simp: class_ranges.simps [of k chunk] split: option.splits)
      obtain rs' where "class_ranges (Suc k) c2 = Some (rs', rest)"
        using "1.prems" close g h True by (auto simp: class_ranges.simps [of k chunk])
      from "1.IH"(1) [OF close g refl True h refl this]
      show ?thesis using get_esc_shorter [OF g] get_esc_shorter [OF h] \<open>length rest < length c2\<close> by auto
    next
      case False
      obtain rs' where "class_ranges (Suc k) c1 = Some (rs', rest)"
        using "1.prems" close g False by (auto simp: class_ranges.simps [of k chunk])
      from "1.IH"(2) [OF close g refl False this]
      show ?thesis using get_esc_shorter [OF g] by simp
    qed
  qed
qed

definition class_negated :: "string \<Rightarrow> bool \<times> string" where
  "class_negated cs = (case cs of [] \<Rightarrow> (False, []) | c # t \<Rightarrow> if c = CHR ''^'' then (True, t) else (False, cs))"

lemma class_negated_length: "length (snd (class_negated cs)) \<le> length cs"
  by (simp add: class_negated_def split: list.split)

definition in_ranges :: "nat \<Rightarrow> (nat \<times> nat) list \<Rightarrow> bool" where
  "in_ranges r rs \<longleftrightarrow> list_ex (\<lambda>(lo, hi). lo \<le> r \<and> r \<le> hi) rs"

section \<open>Matching\<close>

definition eat_byte :: "char \<Rightarrow> string option \<Rightarrow> string option" where
  "eat_byte c s = (case s of Some (d # t) \<Rightarrow> if c = d then Some t else None | _ \<Rightarrow> None)"

definition eat_any :: "string option \<Rightarrow> string option" where
  "eat_any s =
     (case s of
        Some (d # t) \<Rightarrow> if d = slash then None else Some (drop (snd (decode_rune (d # t))) (d # t))
      | _ \<Rightarrow> None)"

definition eat_class :: "bool \<Rightarrow> (nat \<times> nat) list \<Rightarrow> string option \<Rightarrow> string option" where
  "eat_class neg rs s =
     (case s of
        Some (d # t) \<Rightarrow>
          (let (r, n) = decode_rune (d # t) in
           if in_ranges r rs = neg then None else Some (drop n (d # t)))
      | _ \<Rightarrow> None)"

text \<open>
  \<^verbatim>\<open>matchChunk\<close>: the string still to be read, \<^const>\<open>None\<close> once the match has failed; the chunk's
  syntax is checked to its end all the same.
\<close>

function match_chunk :: "string \<Rightarrow> string option \<Rightarrow> string option option" where
  "match_chunk [] s = Some s"
| "match_chunk (c # cs) s =
     (if c = lbracket then
        (case class_ranges 0 (snd (class_negated cs)) of
           None \<Rightarrow> None
         | Some (rs, rest) \<Rightarrow> match_chunk rest (eat_class (fst (class_negated cs)) rs s))
      else if c = CHR ''?'' then match_chunk cs (eat_any s)
      else if c = backslash then
        (case cs of [] \<Rightarrow> None | d # ds \<Rightarrow> match_chunk ds (eat_byte d s))
      else match_chunk cs (eat_byte c s))"
  by pat_completeness auto
termination
proof (relation "measure (length \<circ> fst)", goal_cases)
  case (2 c cs s a rs rest)
  then show ?case using class_ranges_shorter [of 0 _ rs rest] class_negated_length [of cs] by fastforce
qed auto

text \<open>The positions a star may skip to; it never skips a separator.\<close>

fun star_search :: "string \<Rightarrow> bool \<Rightarrow> string \<Rightarrow> string option option" where
  "star_search chunk final [] = Some None"
| "star_search chunk final (c # cs) =
     (if c = slash then Some None
      else case match_chunk chunk (Some cs) of
             None \<Rightarrow> None
           | Some None \<Rightarrow> star_search chunk final cs
           | Some (Some t) \<Rightarrow> if final \<and> t \<noteq> [] then star_search chunk final cs else Some (Some t))"

function go_match :: "string \<Rightarrow> string \<Rightarrow> bool option" where
  "go_match pat name =
     (if pat = [] then Some (name = [])
      else case scan_chunk pat of (starred, chunk, rest) \<Rightarrow>
         if starred \<and> chunk = [] then Some (slash \<notin> set name)
         else case match_chunk chunk (Some name) of
                None \<Rightarrow> None
              | Some m \<Rightarrow>
                  if m \<noteq> None \<and> (the m = [] \<or> rest \<noteq> []) then go_match rest (the m)
                  else if starred then
                    (case star_search chunk (rest = []) name of
                       None \<Rightarrow> None
                     | Some None \<Rightarrow> Some False
                     | Some (Some t) \<Rightarrow> go_match rest t)
                  else Some False)"
  by pat_completeness auto
termination
  by (relation "measure (length \<circ> fst)") (auto dest: sym [THEN scan_chunk_shorter])

declare go_match.simps [simp del]

section \<open>Patterns without metacharacters\<close>

definition glob_meta :: "char set" where
  "glob_meta = {star, CHR ''?'', lbracket, backslash}"

lemma match_chunk_literal:
  assumes "set chunk \<inter> glob_meta = {}"
  shows "match_chunk chunk s = Some (case s of None \<Rightarrow> None
    | Some x \<Rightarrow> if prefix chunk x then Some (drop (length chunk) x) else None)"
  using assms
proof (induction chunk arbitrary: s)
  case Nil
  then show ?case by (cases s) auto
next
  case (Cons c cs)
  have "c \<noteq> lbracket" "c \<noteq> CHR ''?''" "c \<noteq> backslash" and cs: "set cs \<inter> glob_meta = {}"
    using Cons.prems by (auto simp: glob_meta_def)
  then have c: "match_chunk (c # cs) s = match_chunk cs (eat_byte c s)" by simp
  consider "s = None \<or> s = Some []" | d t where "s = Some (d # t)"
    by (metis list.exhaust option.exhaust)
  then show ?case
    unfolding c by cases (auto simp add: Cons.IH [OF cs] eat_byte_def simp del: match_chunk.simps)
qed

lemma scan_end_literal: "set p \<inter> glob_meta = {} \<Longrightarrow> scan_end b p = length p"
  by (induction p arbitrary: b) (auto simp: glob_meta_def)

lemma scan_chunk_literal: "set p \<inter> glob_meta = {} \<Longrightarrow> p \<noteq> [] \<Longrightarrow> scan_chunk p = (False, p, [])"
  by (cases p) (auto simp: scan_chunk_def Let_def scan_end_literal glob_meta_def)

lemma go_match_empty: "go_match [] s = Some (s = [])"
  by (simp add: go_match.simps [of "[]"])

lemma go_match_literal:
  assumes "set p \<inter> glob_meta = {}"
  shows "go_match p s = Some (s = p)"
proof (cases "p = []")
  case False
  have m: "match_chunk p (Some s) = Some (if prefix p s then Some (drop (length p) s) else None)"
    using match_chunk_literal [OF assms, of "Some s"] by simp
  have step: "go_match p s = (case match_chunk p (Some s) of None \<Rightarrow> None
      | Some r \<Rightarrow> if r \<noteq> None \<and> (the r = [] \<or> [] \<noteq> ([] :: string)) then go_match [] (the r)
          else if False then (case star_search p ([] = ([] :: string)) s of
              None \<Rightarrow> None | Some None \<Rightarrow> Some False | Some (Some t) \<Rightarrow> go_match [] t)
          else Some False)"
    by (subst go_match.simps, subst if_not_P [OF False], subst scan_chunk_literal [OF assms False],
        subst split_conv, subst split_conv, simp only: HOL.simp_thms if_False)
  have "go_match p s = Some (prefix p s \<and> drop (length p) s = [])"
    unfolding step m by (cases "prefix p s") (simp_all add: go_match_empty)
  moreover have "prefix p s \<and> drop (length p) s = [] \<longleftrightarrow> s = p" by (auto simp: prefix_def)
  ultimately show ?thesis by (simp only: )
qed (simp add: go_match_empty)

end
