(* ===== verification/Go_Filepath.thy ===== *)
theory Go_Filepath
  imports Go_Runes
begin

text \<open>
  Go's package \<^verbatim>\<open>path/filepath\<close> on Unix, as far as the program uses it: \<^verbatim>\<open>IsAbs\<close>, \<^verbatim>\<open>Clean\<close>,
  \<^verbatim>\<open>Join\<close>, \<^verbatim>\<open>Dir\<close>, \<^verbatim>\<open>Base\<close>, \<^verbatim>\<open>Ext\<close> and \<^verbatim>\<open>Rel\<close>.  \<^verbatim>\<open>ToSlash\<close> and \<^verbatim>\<open>FromSlash\<close> are the identity
  there.  \<^verbatim>\<open>Clean\<close> is written over path elements: a stack of elements is rewritten element
  by element, exactly as the byte loop of the standard library backtracks over its output
  buffer.  \<^verbatim>\<open>Rel\<close> returns \<^const>\<open>None\<close> where Go returns an error.
\<close>

section \<open>Clean\<close>

definition is_abs :: "string \<Rightarrow> bool" where
  "is_abs p = (case p of [] \<Rightarrow> False | c # _ \<Rightarrow> c = slash)"

text \<open>One element against the stack (top first) of elements written so far.\<close>

definition clean_step :: "bool \<Rightarrow> string list \<Rightarrow> string \<Rightarrow> string list" where
  "clean_step rooted out seg =
     (if seg = [] \<or> seg = ''.'' then out
      else if seg = ''..'' then
        (case out of
           [] \<Rightarrow> (if rooted then [] else [''..''])
         | t # ts \<Rightarrow> (if t = ''..'' then ''..'' # out else ts))
      else seg # out)"

definition clean_segs :: "bool \<Rightarrow> string list \<Rightarrow> string list" where
  "clean_segs rooted segs = rev (foldl (clean_step rooted) [] segs)"

definition render :: "bool \<Rightarrow> string list \<Rightarrow> string" where
  "render rooted segs =
     (if rooted then slash # join_with [slash] segs
      else if segs = [] then ''.'' else join_with [slash] segs)"

definition clean :: "string \<Rightarrow> string" where
  "clean p = render (is_abs p) (clean_segs (is_abs p) (split_on slash p))"

text \<open>The elements of a path: what lies between its slashes, without empty and dot elements.\<close>

definition path_elems :: "string \<Rightarrow> string list" where
  "path_elems p = filter (\<lambda>s. s \<noteq> [] \<and> s \<noteq> ''.'') (split_on slash p)"

text \<open>The normal form of element lists: what \<^verbatim>\<open>Clean\<close> produces.\<close>

definition normal_seg :: "string \<Rightarrow> bool" where
  "normal_seg s \<longleftrightarrow> s \<noteq> [] \<and> s \<noteq> ''.'' \<and> slash \<notin> set s"

text \<open>
  Read from the top of the stack: a parent element stands on nothing but parent elements,
  and never in a rooted path.
\<close>

fun stack_ok :: "bool \<Rightarrow> string list \<Rightarrow> bool" where
  "stack_ok r [] = True"
| "stack_ok r (t # ts) =
     (normal_seg t \<and> stack_ok r ts
      \<and> (t = ''..'' \<longrightarrow> \<not> r \<and> (case ts of [] \<Rightarrow> True | u # _ \<Rightarrow> u = ''..'')))"

definition normal_segs :: "bool \<Rightarrow> string list \<Rightarrow> bool" where
  "normal_segs r segs \<longleftrightarrow> stack_ok r (rev segs)"

lemma normal_segs_Nil [simp]: "normal_segs r []"
  by (simp add: normal_segs_def)

lemma stack_ok_normal_seg: "stack_ok r out \<Longrightarrow> s \<in> set out \<Longrightarrow> normal_seg s"
  by (induction out) auto

lemma normal_segs_no_slash: "normal_segs r segs \<Longrightarrow> s \<in> set segs \<Longrightarrow> normal_seg s"
  using stack_ok_normal_seg [of r "rev segs"] by (simp add: normal_segs_def)

lemma stack_ok_rooted: "stack_ok True out \<Longrightarrow> ''..'' \<notin> set out"
  by (induction out) auto

lemma clean_step_ok: "stack_ok r out \<Longrightarrow> slash \<notin> set seg \<Longrightarrow> stack_ok r (clean_step r out seg)"
  by (cases out) (auto simp: clean_step_def normal_seg_def)

lemma clean_fold_ok:
  "stack_ok r out \<Longrightarrow> \<forall>s\<in>set segs. slash \<notin> set s \<Longrightarrow> stack_ok r (foldl (clean_step r) out segs)"
  by (induction segs arbitrary: out) (auto intro: clean_step_ok)

lemma clean_segs_normal: "\<forall>s\<in>set segs. slash \<notin> set s \<Longrightarrow> normal_segs r (clean_segs r segs)"
  unfolding clean_segs_def normal_segs_def by (simp add: clean_fold_ok)

lemma clean_segs_split_normal [simp]: "normal_segs r (clean_segs r (split_on slash p))"
  by (rule clean_segs_normal) (auto dest: split_on_no_sep)

lemma clean_step_push:
  "stack_ok r (t # ts) \<Longrightarrow> clean_step r ts t = t # ts"
  by (cases ts) (auto simp: clean_step_def normal_seg_def)

lemma clean_fold_id: "stack_ok r out \<Longrightarrow> foldl (clean_step r) [] (rev out) = out"
proof (induction out)
  case (Cons t ts)
  then show ?case using clean_step_push [OF Cons.prems] by simp
qed simp

lemma clean_segs_id: "normal_segs r segs \<Longrightarrow> clean_segs r segs = segs"
  using clean_fold_id [of r "rev segs"] by (simp add: clean_segs_def normal_segs_def)

section \<open>Rendering and reading back\<close>

lemma split_render:
  assumes "normal_segs r segs"
  shows "path_elems (render r segs) = segs"
proof -
  have ns: "\<forall>s\<in>set segs. slash \<notin> set s" and nz: "\<forall>s\<in>set segs. s \<noteq> [] \<and> s \<noteq> ''.''"
    using normal_segs_no_slash [OF assms] by (auto simp: normal_seg_def)
  have f: "filter (\<lambda>s. s \<noteq> [] \<and> s \<noteq> ''.'') segs = segs"
    using nz by (simp add: filter_id_conv)
  show ?thesis
    by (cases "segs = []") (auto simp: render_def path_elems_def split_join ns f)
qed

lemma is_abs_render [simp]:
  assumes "normal_segs r segs"
  shows "is_abs (render r segs) = r"
proof (cases segs)
  case (Cons x xs)
  have "x \<noteq> []" "slash \<notin> set x"
    using normal_segs_no_slash [OF assms] Cons by (auto simp: normal_seg_def)
  then show ?thesis
    using Cons by (cases x; cases xs) (auto simp: render_def is_abs_def)
qed (simp add: render_def is_abs_def)

lemma render_not_Nil [simp]: "normal_segs r segs \<Longrightarrow> render r segs \<noteq> []"
proof (cases segs)
  case (Cons x xs)
  moreover assume "normal_segs r segs"
  ultimately have "x \<noteq> []" using normal_segs_no_slash by (fastforce simp: normal_seg_def)
  then show ?thesis using Cons by (cases xs) (auto simp: render_def)
qed (simp add: render_def)

lemma clean_not_Nil [simp]: "clean p \<noteq> []"
  by (simp add: clean_def)

lemma is_abs_clean [simp]: "is_abs (clean p) = is_abs p"
  by (simp add: clean_def)

lemma path_elems_clean: "path_elems (clean p) = clean_segs (is_abs p) (split_on slash p)"
  by (simp add: clean_def split_render)

lemma path_elems_clean_normal [simp]: "normal_segs (is_abs p) (path_elems (clean p))"
  by (simp add: path_elems_clean)

lemma clean_step_skip: "foldl (clean_step r) out (filter (\<lambda>s. s \<noteq> [] \<and> s \<noteq> ''.'') segs)
    = foldl (clean_step r) out segs"
  by (induction segs arbitrary: out) (auto simp: clean_step_def)

lemma clean_segs_path_elems: "clean_segs r (split_on slash p) = clean_segs r (path_elems p)"
  by (simp add: clean_segs_def path_elems_def clean_step_skip)

lemma clean_eq_render: "clean p = render (is_abs p) (clean_segs (is_abs p) (path_elems p))"
  by (simp add: clean_def clean_segs_path_elems)

lemma clean_render: "normal_segs r segs \<Longrightarrow> clean (render r segs) = render r segs"
  by (simp add: clean_eq_render split_render clean_segs_id)

lemma clean_idem [simp]: "clean (clean p) = clean p"
  using clean_render [OF clean_segs_split_normal] by (simp add: clean_def [of p])

lemma clean_as_render: "clean p = render (is_abs p) (path_elems (clean p))"
  unfolding path_elems_clean by (rule clean_def)

text \<open>A clean path is determined by its root flag and its elements.\<close>

lemma clean_inj:
  "is_abs p = is_abs q \<Longrightarrow> path_elems (clean p) = path_elems (clean q) \<Longrightarrow> clean p = clean q"
  by (simp add: path_elems_clean) (simp add: clean_def)

section \<open>Join\<close>

definition filepath_join :: "string list \<Rightarrow> string" where
  "filepath_join es =
     (case dropWhile (\<lambda>e. e = []) es of [] \<Rightarrow> [] | e # rest \<Rightarrow> clean (join_with [slash] (e # rest)))"

lemma filepath_join2: "a \<noteq> [] \<Longrightarrow> filepath_join [a, b] = clean (a @ slash # b)"
  by (simp add: filepath_join_def)

lemma path_elems_append: "path_elems (a @ slash # b) = path_elems a @ path_elems b"
  by (simp add: path_elems_def split_on_append)

lemma clean_segs_append:
  assumes "\<forall>s\<in>set xs. slash \<notin> set s"
  shows "clean_segs r (clean_segs r xs @ ys) = clean_segs r (xs @ ys)"
proof -
  have "foldl (clean_step r) [] (clean_segs r xs) = foldl (clean_step r) [] xs"
    using clean_segs_id [OF clean_segs_normal [OF assms]] by (metis clean_segs_def rev_rev_ident)
  then show ?thesis by (simp add: clean_segs_def)
qed

lemma path_elems_no_slash: "s \<in> set (path_elems p) \<Longrightarrow> slash \<notin> set s"
  by (auto simp: path_elems_def dest: split_on_no_sep)

lemma is_abs_append [simp]: "a \<noteq> [] \<Longrightarrow> is_abs (a @ b) = is_abs a"
  by (cases a) (auto simp: is_abs_def)

lemma path_elems_join:
  "a \<noteq> [] \<Longrightarrow> path_elems (filepath_join [a, b]) =
     clean_segs (is_abs a) (path_elems (clean a) @ path_elems b)"
  by (simp add: filepath_join2 path_elems_clean clean_segs_path_elems path_elems_append
      clean_segs_append path_elems_no_slash)

lemma is_abs_join [simp]: "a \<noteq> [] \<Longrightarrow> is_abs (filepath_join [a, b]) = is_abs a"
  by (simp add: filepath_join2)

lemma clean_join [simp]: "a \<noteq> [] \<Longrightarrow> clean (filepath_join [a, b]) = filepath_join [a, b]"
  by (simp add: filepath_join2)

section \<open>Dir, Base, Ext\<close>

definition filepath_dir :: "string \<Rightarrow> string" where
  "filepath_dir p =
     clean (case last_index_any {slash} p of Some i \<Rightarrow> take (Suc i) p | None \<Rightarrow> [])"

definition filepath_base :: "string \<Rightarrow> string" where
  "filepath_base p =
     (if p = [] then ''.''
      else let q = trim_right_byte slash p in
        if q = [] then [slash]
        else (case last_index_any {slash} q of None \<Rightarrow> q | Some i \<Rightarrow> drop (Suc i) q))"

definition filepath_ext :: "string \<Rightarrow> string" where
  "filepath_ext p =
     (case last_index_any {slash, dot} p of
        Some i \<Rightarrow> (if p ! i = dot then drop i p else [])
      | None \<Rightarrow> [])"

lemma filepath_base_no_slash:
  assumes "filepath_base p \<noteq> [slash]"
  shows "slash \<notin> set (filepath_base p)"
proof (cases "p = [] \<or> trim_right_byte slash p = []")
  case True
  then show ?thesis using assms by (auto simp: filepath_base_def)
next
  case False
  then have b: "filepath_base p = (case last_index_any {slash} (trim_right_byte slash p) of
      None \<Rightarrow> trim_right_byte slash p | Some i \<Rightarrow> drop (Suc i) (trim_right_byte slash p))"
    by (simp add: filepath_base_def Let_def)
  show ?thesis
  proof (cases "last_index_any {slash} (trim_right_byte slash p)")
    case None
    then have "slash \<notin> set (trim_right_byte slash p)" by (simp add: last_index_any_None)
    then show ?thesis using b None by simp
  next
    case (Some i)
    then show ?thesis using b last_index_any_Some [OF Some] by auto
  qed
qed

section \<open>Rel\<close>

text \<open>
  The loop of \<^verbatim>\<open>Rel\<close> over the two cleaned paths drops their common leading elements; what
  is left of the base becomes parent elements.  A base that goes up (a parent element is
  left of it) is an error, as are one absolute and one relative path.
\<close>

fun strip_common :: "'a list \<Rightarrow> 'a list \<Rightarrow> 'a list \<times> 'a list" where
  "strip_common (x # xs) (y # ys) = (if x = y then strip_common xs ys else (x # xs, y # ys))"
| "strip_common xs ys = (xs, ys)"

definition filepath_rel :: "string \<Rightarrow> string \<Rightarrow> string option" where
  "filepath_rel basepath targpath =
     (let base = clean basepath; targ = clean targpath in
      if targ = base then Some ''.''
      else if is_abs base \<noteq> is_abs targ then None
      else
        (let (br, tr) = strip_common (path_elems base) (path_elems targ) in
         if br \<noteq> [] \<and> hd br = ''..'' then None
         else Some (join_with [slash] (replicate (length br) ''..'' @ tr))))"

lemma strip_common_split:
  "strip_common xs ys = (xr, yr) \<Longrightarrow> \<exists>c. xs = c @ xr \<and> ys = c @ yr \<and> (xr = [] \<or> yr = [] \<or> hd xr \<noteq> hd yr)"
proof (induction xs ys rule: strip_common.induct)
  case (1 x xs y ys)
  show ?case
  proof (cases "x = y")
    case True
    then obtain c where "xs = c @ xr \<and> ys = c @ yr \<and> (xr = [] \<or> yr = [] \<or> hd xr \<noteq> hd yr)"
      using 1 by auto
    then show ?thesis using True by (intro exI [of _ "x # c"]) simp
  qed (use 1 in auto)
qed auto

lemma strip_common_prefix [simp]: "strip_common xs (xs @ ys) = ([], ys)"
  by (induction xs) (cases ys, auto)

text \<open>A relative path that leaves its base: \<^verbatim>\<open>rel == ".." || HasPrefix(rel, "../")\<close>.\<close>

definition rel_escapes :: "string \<Rightarrow> bool" where
  "rel_escapes rel \<longleftrightarrow> rel = ''..'' \<or> has_prefix rel ''../''"

lemma join_dotdot_escapes:
  "rel_escapes (join_with [slash] (''..'' # xs))"
  by (cases xs) (auto simp: rel_escapes_def has_prefix_def)

lemma join_escapes_hd:
  assumes "\<forall>s\<in>set xs. slash \<notin> set s" "rel_escapes (join_with [slash] xs)"
  shows "xs \<noteq> [] \<and> hd xs = ''..''"
proof -
  have ne: "xs \<noteq> []" using assms(2) by (auto simp: rel_escapes_def has_prefix_def)
  have sp: "split_on slash (join_with [slash] xs) = xs"
    using ne assms(1) by (rule split_join)
  from assms(2) consider "join_with [slash] xs = ''..''" | r where "join_with [slash] xs = ''..'' @ slash # r"
    by (auto simp: rel_escapes_def has_prefix_iff)
  then have "hd (split_on slash (join_with [slash] xs)) = ''..''"
    by cases (simp_all add: split_on_append_sep)
  then show ?thesis using ne sp by simp
qed

text \<open>A relative path that does not escape names something below its base.\<close>

lemma filepath_rel_inside:
  assumes rel: "filepath_rel b t = Some r" and ne: "\<not> rel_escapes r"
  obtains k where "path_elems (clean t) = path_elems (clean b) @ k"
    and "is_abs t = is_abs b" and "''..'' \<notin> set (take 1 k)"
    and "r = (if k = [] then ''.'' else join_with [slash] k)"
proof (cases "clean t = clean b")
  case True
  then have "is_abs t = is_abs b" by (metis is_abs_clean)
  then show ?thesis using that [of "[]"] True rel by (simp add: filepath_rel_def)
next
  case False
  obtain br tr where sc: "strip_common (path_elems (clean b)) (path_elems (clean t)) = (br, tr)"
    by fastforce
  have ab: "is_abs t = is_abs b" and r: "r = join_with [slash] (replicate (length br) ''..'' @ tr)"
    using rel False sc by (auto simp: filepath_rel_def Let_def split: if_splits)
  have br: "br = []"
  proof (cases br)
    case (Cons x xs)
    then show ?thesis using ne r join_dotdot_escapes by simp
  qed simp
  obtain c where c: "path_elems (clean b) = c @ br" "path_elems (clean t) = c @ tr"
    using strip_common_split [OF sc] by auto
  have "tr \<noteq> []" using False c br clean_inj ab by fastforce
  moreover have "hd tr \<noteq> ''..''"
    using ne r br join_dotdot_escapes [of "tl tr"] \<open>tr \<noteq> []\<close> by (cases tr) auto
  ultimately show ?thesis
    using that [of tr] c br ab r by (cases tr) auto
qed

text \<open>Conversely, what lies below the base is reported by its remaining elements.\<close>

lemma filepath_rel_below:
  assumes "is_abs t = is_abs b" "path_elems (clean t) = path_elems (clean b) @ k"
  shows "filepath_rel b t = Some (if k = [] then ''.'' else join_with [slash] k)"
proof (cases "k = []")
  case True
  then show ?thesis using clean_inj [OF assms(1)] assms(2) by (simp add: filepath_rel_def)
next
  case False
  then have "clean t \<noteq> clean b" using assms(2) by auto
  then show ?thesis using assms False by (simp add: filepath_rel_def)
qed

lemma normal_segs_append_no_dotdot:
  assumes "normal_segs r (xs @ k)" "''..'' \<notin> set (take 1 k)"
  shows "''..'' \<notin> set k"
  using assms
proof (induction k rule: rev_induct)
  case (snoc x k)
  then have "normal_segs r (xs @ k)" by (simp add: normal_segs_def)
  then have k: "''..'' \<notin> set k" using snoc by (cases k) auto
  show ?case
  proof (cases k rule: rev_cases)
    case Nil
    then show ?thesis using snoc.prems by simp
  next
    case (snoc k' y)
    then have "y \<noteq> ''..''" using k by auto
    then show ?thesis using snoc.prems(1) snoc k by (auto simp: normal_segs_def)
  qed
qed simp

lemma normal_segs_append:
  "normal_segs r xs \<Longrightarrow> list_all normal_seg k \<Longrightarrow> ''..'' \<notin> set k \<Longrightarrow> normal_segs r (xs @ k)"
  by (induction k rule: rev_induct) (auto simp: normal_segs_def)

section \<open>Lengths\<close>

text \<open>Cleaning a path never makes it longer, so the walk up through its parents comes to an end.\<close>

definition seg_weight :: "string list \<Rightarrow> nat" where
  "seg_weight segs = sum_list (map (\<lambda>s. Suc (length s)) segs)"

lemma clean_fold_weight: "seg_weight (foldl (clean_step r) out segs) \<le> seg_weight out + seg_weight segs"
proof (induction segs arbitrary: out)
  case (Cons s segs)
  have "seg_weight (clean_step r out s) \<le> seg_weight out + Suc (length s)"
    by (cases out) (auto simp: clean_step_def seg_weight_def)
  then show ?case using Cons.IH [of "clean_step r out s"] by (simp add: seg_weight_def)
qed simp

lemma split_weight: "seg_weight (split_on c s) = Suc (length s)"
proof (induction s)
  case (Cons x s)
  then show ?case by (cases "split_on c s") (auto simp: seg_weight_def)
qed (simp add: seg_weight_def)

lemma join_weight: "xs \<noteq> [] \<Longrightarrow> Suc (length (join_with [c] xs)) = seg_weight xs"
proof (induction xs)
  case (Cons x xs)
  then show ?case by (cases xs) (auto simp: seg_weight_def)
qed simp

lemma clean_length: "length (clean s) \<le> max 1 (length s)"
proof (cases "is_abs s")
  case True
  then obtain t where s: "s = slash # t" by (auto simp: is_abs_def split: list.splits)
  let ?k = "clean_segs True (split_on slash t)"
  have "seg_weight ?k \<le> Suc (length t)"
    using clean_fold_weight [of True "[]" "split_on slash t"] split_weight [of slash t]
    by (simp add: clean_segs_def seg_weight_def rev_map [symmetric] sum_list_rev)
  moreover have "clean s = slash # join_with [slash] ?k"
    using True s by (simp add: clean_def render_def clean_segs_def clean_step_def)
  ultimately show ?thesis using join_weight [of ?k slash] s by (cases "?k = []") auto
next
  case False
  let ?k = "clean_segs False (split_on slash s)"
  have "seg_weight ?k \<le> Suc (length s)"
    using clean_fold_weight [of False "[]" "split_on slash s"] split_weight [of slash s]
    by (simp add: clean_segs_def seg_weight_def rev_map [symmetric] sum_list_rev)
  then show ?thesis using False join_weight [of ?k slash] by (cases "?k = []") (auto simp: clean_def render_def)
qed

lemma clean_trailing_slash: "r \<noteq> [] \<Longrightarrow> clean (r @ [slash]) = clean r"
  using path_elems_append [of r "[]"] by (simp add: clean_eq_render path_elems_def)

definition path_weight :: "string \<Rightarrow> nat" where
  "path_weight p = (if p = ''.'' then 0 else Suc (length p))"

lemma filepath_dir_smaller: "filepath_dir p \<noteq> p \<Longrightarrow> path_weight (filepath_dir p) < path_weight p"
proof (cases "last_index_any {slash} p")
  case None
  then have "filepath_dir p = ''.''" by (simp add: filepath_dir_def clean_def render_def clean_segs_def clean_step_def is_abs_def)
  moreover assume "filepath_dir p \<noteq> p"
  ultimately show ?thesis by (simp add: path_weight_def)
next
  case (Some i)
  assume ne: "filepath_dir p \<noteq> p"
  have i: "i < length p" "p ! i = slash" using last_index_any_Some [OF Some] by auto
  then have dir: "filepath_dir p = clean (take i p @ [slash])" using Some by (simp add: filepath_dir_def take_Suc_conv_app_nth)
  show ?thesis
  proof (cases "take i p = []")
    case True
    then have "filepath_dir p = clean [slash]" unfolding dir True by simp
    then have "filepath_dir p = [slash]"
      by (simp add: clean_def render_def clean_segs_def clean_step_def is_abs_def)
    then show ?thesis using ne i by (cases p) (auto simp: path_weight_def)
  next
    case False
    then have "length (filepath_dir p) \<le> max 1 i"
      using dir clean_trailing_slash [of "take i p"] clean_length [of "take i p"] i by simp
    moreover have "1 \<le> i" using False by (cases i) auto
    ultimately show ?thesis using i by (auto simp: path_weight_def)
  qed
qed

section \<open>Evaluation\<close>

declare is_abs_def [path_eval] clean_def [path_eval] clean_segs_def [path_eval]
  clean_step_def [path_eval] render_def [path_eval] path_elems_def [path_eval]
  filepath_join_def [path_eval] filepath_rel_def [path_eval] rel_escapes_def [path_eval]
  filepath_dir_def [path_eval] filepath_base_def [path_eval] filepath_ext_def [path_eval]

end
