(* ===== verification/Skip_Rules.thy ===== *)
theory Skip_Rules
  imports Go_Match Go_Filepath
begin

text \<open>
  Which directories the walk enters (\<^verbatim>\<open>extraction/skip.go\<close>): the built-in names and path
  fragments, the Go toolchain trees, the user's exclusion rules, the home mode, and the
  narrowing of the workdir list at start-up.  What the code asks the process and the file
  system for (the working directory, the home directory, whether a path exists) and the loaded
  configuration are fields of \<open>walk_env\<close>.
\<close>

section \<open>The environment\<close>

record walk_env =
  we_cwd :: "string option"
  we_home :: "string option"
  we_exists :: "string \<Rightarrow> bool"
  we_exclude :: "string list"
  we_home_all :: bool

text \<open>\<^verbatim>\<open>filepath.Abs\<close>: an error when the working directory is unknown.\<close>

definition filepath_abs :: "string option \<Rightarrow> string \<Rightarrow> string option" where
  "filepath_abs cwd p =
     (if is_abs p then Some (clean p) else map_option (\<lambda>d. filepath_join [d, p]) cwd)"

definition abs_clean :: "walk_env \<Rightarrow> string \<Rightarrow> string" where
  "abs_clean env p = clean (case filepath_abs (we_cwd env) p of None \<Rightarrow> p | Some a \<Rightarrow> a)"

lemma abs_clean_abs [simp]: "is_abs p \<Longrightarrow> abs_clean env p = clean p"
  by (simp add: abs_clean_def filepath_abs_def)

lemma clean_abs_clean [simp]: "clean (abs_clean env p) = abs_clean env p"
  by (simp add: abs_clean_def)

lemma abs_clean_not_Nil [simp]: "abs_clean env p \<noteq> []"
  by (simp add: abs_clean_def)

section \<open>Built-in exclusions\<close>

definition skip_dir_names :: "string list" where
  "skip_dir_names =
     [''.git'', ''node_modules'', ''vendor'', ''.codegraph'', ''dist'', ''build'', ''out'', ''coverage'',
      ''__pycache__'', ''.venv'', ''venv'', ''target'', ''.gradle'', ''.cargo'', ''.rustup'', ''.npm'',
      ''.nvm'', ''.cache'', ''.pub-cache'', ''.dartServer'', ''.android'', ''.tox'', ''.mypy_cache'',
      ''.pytest_cache'', ''.ruff_cache'', ''.next'', ''.nuxt'', ''.turbo'', ''.yarn'',
      ''bower_components'', ''site-packages'', ''.eggs'', ''.idea'', ''.terraform'', ''Pods'',
      ''Carthage'', ''.bundle'', ''DerivedData'', ''.wt'']"

definition skip_path_fragments :: "string list" where
  "skip_path_fragments =
     [''/.gradle/'', ''/.cargo/registry/'', ''/.cargo/git/'', ''/.rustup/'', ''/.npm/'', ''/.nvm/'',
      ''/.cache/'', ''/.pub-cache/'', ''/node_modules/'', ''/.local/share/uv/'',
      ''/.local/share/virtualenv/'', ''/.local/lib/'', ''/.local/share/'', ''/Library/Caches/'',
      ''/.gradle/caches/'', ''/AppData/Local/Go/'', ''/AppData/Local/npm-cache/'',
      ''/code_references/'', ''/gopath/pkg/'', ''/gopath/src/golang.org/'']"

definition project_markers :: "string list" where
  "project_markers =
     [''.git'', ''go.mod'', ''package.json'', ''pyproject.toml'', ''Cargo.toml'', ''pom.xml'',
      ''build.gradle'', ''build.gradle.kts'', ''composer.json'', ''Gemfile'', ''mix.exs'',
      ''CMakeLists.txt'', ''Makefile'', ''Cargo.lock'', ''pnpm-workspace.yaml'', ''setup.py'',
      ''requirements.txt'', ''Pipfile'', ''build.sbt'', ''Package.swift'']"

definition is_gopath_root :: "walk_env \<Rightarrow> string \<Rightarrow> bool" where
  "is_gopath_root env slashed =
     (let s = trim_suffix slashed ''/''; parts = split_on slash s in
      s = ''/root/go''
      \<or> (case we_home env of None \<Rightarrow> False | Some home \<Rightarrow> s = filepath_join [home, ''go''])
      \<or> (length parts = 4 \<and> (parts ! 1 = ''home'' \<or> parts ! 1 = ''Users'') \<and> parts ! 2 \<noteq> []
          \<and> parts ! 3 = ''go''))"

text \<open>The loop over the segments; a path that ends in a segment \<^verbatim>\<open>go\<close> is decided by its whole.\<close>

fun go_segments :: "bool \<Rightarrow> string list \<Rightarrow> bool" where
  "go_segments whole [] = False"
| "go_segments whole (p # ps) =
     (if p \<noteq> ''go'' then go_segments whole ps
      else if ps = [] then whole
      else hd ps = ''pkg'' \<or> hd ps = ''bin'' \<or> hd ps = ''src'' \<or> go_segments whole ps)"

definition is_go_toolchain_path :: "walk_env \<Rightarrow> string \<Rightarrow> bool" where
  "is_go_toolchain_path env slashed = go_segments (is_gopath_root env slashed) (split_on slash slashed)"

definition has_project_marker :: "walk_env \<Rightarrow> string \<Rightarrow> bool" where
  "has_project_marker env dir \<longleftrightarrow> list_ex (\<lambda>m. we_exists env (filepath_join [dir, m])) project_markers"

definition is_broad_workdir :: "walk_env \<Rightarrow> string \<Rightarrow> bool" where
  "is_broad_workdir env workdir =
     (if workdir = [] then False
      else
        (let a = abs_clean env workdir in
         a = ''/'' \<or> a = ''/home'' \<or> a = ''/Users''
         \<or> (case we_home env of None \<Rightarrow> False | Some home \<Rightarrow> clean home = a)
         \<or> a = ''/root''))"

section \<open>The user's rules\<close>

text \<open>\<^verbatim>\<open>normalizeExcludeRule\<close>: the pattern and whether it is anchored; \<^const>\<open>None\<close> for \<^verbatim>\<open>ok = false\<close>.\<close>

definition normalize_exclude_rule :: "string \<Rightarrow> (string \<times> bool) option" where
  "normalize_exclude_rule raw =
     (let pat0 = trim_space raw;
          anchored = has_prefix pat0 ''./'' \<or> has_prefix pat0 ''/'';
          pat1 = (if anchored then trim_left_byte slash (trim_prefix pat0 ''./'') else pat0);
          pat = trim_right_byte slash pat1
      in if pat = [] \<or> pat = ''.'' \<or> pat = ''..'' then None else Some (pat, anchored))"

text \<open>One rule against a directory: its base name, and its path below the workdir if it has one.\<close>

definition exclude_rule_hits :: "string \<Rightarrow> string option \<Rightarrow> string \<Rightarrow> bool" where
  "exclude_rule_hits name rel raw =
     (case normalize_exclude_rule raw of
        None \<Rightarrow> False
      | Some (pat, anchored) \<Rightarrow>
          if \<not> anchored \<and> slash \<notin> set pat then name = pat \<or> go_match pat name = Some True
          else (case rel of
                  None \<Rightarrow> False
                | Some r \<Rightarrow> r = pat \<or> has_prefix r (pat @ ''/'') \<or> go_match pat r = Some True))"

section \<open>The decision\<close>

definition cache_tree_below :: "walk_env \<Rightarrow> string \<Rightarrow> string \<Rightarrow> bool" where
  "cache_tree_below env path_abs rel =
     (let target = slash # trim_set {slash} rel in
      is_go_toolchain_path env target
      \<or> (rel = ''go'' \<and> is_gopath_root env path_abs)
      \<or> list_ex (contains_str (target @ ''/'')) skip_path_fragments)"

definition cache_tree_outside :: "walk_env \<Rightarrow> string \<Rightarrow> bool" where
  "cache_tree_outside env path =
     (let slashed = (if \<not> has_prefix path ''/'' \<and> \<not> contains_str path '':/'' then slash # path else path);
          check = (if has_suffix slashed ''/'' then slashed else slashed @ ''/'')
      in is_go_toolchain_path env (trim_suffix slashed ''/'')
         \<or> list_ex (contains_str check) skip_path_fragments)"

definition home_mode_skips :: "walk_env \<Rightarrow> string \<Rightarrow> string \<Rightarrow> string option \<Rightarrow> string \<Rightarrow> bool" where
  "home_mode_skips env workdir path_abs rel name =
     (is_broad_workdir env workdir \<and> \<not> we_home_all env
      \<and> (case rel of
           None \<Rightarrow> False
         | Some r \<Rightarrow> r \<noteq> ''.'' \<and> slash \<notin> set r \<and> (has_prefix name ''.'' \<or> \<not> has_project_marker env path_abs)))"

definition should_skip_dir_in :: "walk_env \<Rightarrow> string \<Rightarrow> string \<Rightarrow> string \<Rightarrow> bool" where
  "should_skip_dir_in env workdir path name0 =
     (let name = (if name0 = [] then filepath_base path else name0);
          wd = abs_clean env workdir; pa = abs_clean env path;
          rel = (if workdir = [] then None else filepath_rel wd pa)
      in if workdir \<noteq> [] \<and> pa = wd then False
         else name \<in> set skip_dir_names
           \<or> list_ex (exclude_rule_hits name rel) (we_exclude env)
           \<or> (case rel of
                Some r \<Rightarrow> if r \<noteq> ''.'' \<and> \<not> rel_escapes r then cache_tree_below env pa r
                          else cache_tree_outside env path
              | None \<Rightarrow> cache_tree_outside env path)
           \<or> home_mode_skips env workdir pa rel name)"

definition should_skip_dir :: "walk_env \<Rightarrow> string \<Rightarrow> string \<Rightarrow> bool" where
  "should_skip_dir env path name = should_skip_dir_in env [] path name"

section \<open>Narrowing the workdirs\<close>

text \<open>The directories from the workdir down to the target, each as the walker would be asked.\<close>

fun blocked_below :: "walk_env \<Rightarrow> string \<Rightarrow> string \<Rightarrow> string list \<Rightarrow> bool" where
  "blocked_below env wd seg_path [] = False"
| "blocked_below env wd seg_path (seg # segs) =
     (if seg = [] \<or> seg = ''.'' then blocked_below env wd seg_path segs
      else
        (let p = filepath_join [seg_path, seg] in
         should_skip_dir_in env wd p (filepath_base p) \<or> blocked_below env wd p segs))"

definition blind_to :: "walk_env \<Rightarrow> string \<Rightarrow> string \<Rightarrow> bool" where
  "blind_to env target_abs wd0 =
     (case filepath_abs (we_cwd env) wd0 of
        None \<Rightarrow> False
      | Some a \<Rightarrow>
          (let wd = clean a in
           wd \<noteq> target_abs
           \<and> (case filepath_rel wd target_abs of
                None \<Rightarrow> False
              | Some rel \<Rightarrow> \<not> rel_escapes rel \<and> blocked_below env wd wd (split_on slash rel))))"

definition narrow_excluded_workdirs :: "walk_env \<Rightarrow> string \<Rightarrow> string \<Rightarrow> string list \<Rightarrow> string list" where
  "narrow_excluded_workdirs env explicit_workdir cwd workdirs =
     (let target = (if explicit_workdir = [] then cwd else explicit_workdir) in
      if target = [] \<or> workdirs = [] then workdirs
      else case filepath_abs (we_cwd env) target of
             None \<Rightarrow> workdirs
           | Some a \<Rightarrow> if list_ex (blind_to env (clean a)) workdirs then [target] else workdirs)"

section \<open>What the rules mean\<close>

lemma trim_right_byte_last: "trim_right_byte c s \<noteq> [] \<Longrightarrow> last (trim_right_byte c s) \<noteq> c"
proof -
  assume "trim_right_byte c s \<noteq> []"
  then have "dropWhile (\<lambda>x. x = c) (rev s) \<noteq> []" by (simp add: trim_right_byte_def)
  then have "hd (dropWhile (\<lambda>x. x = c) (rev s)) \<noteq> c" by (rule hd_dropWhile)
  then show ?thesis by (simp add: trim_right_byte_def last_rev)
qed

lemma trim_left_byte_hd: "trim_left_byte c s \<noteq> [] \<Longrightarrow> hd (trim_left_byte c s) \<noteq> c"
  unfolding trim_left_byte_def by (rule hd_dropWhile)

lemma trim_right_byte_prefix: "prefix (trim_right_byte c s) s"
proof -
  have "suffix (dropWhile (\<lambda>x. x = c) (rev s)) (rev s)" by (rule suffix_dropWhile)
  then show ?thesis by (metis rev_rev_ident suffix_to_prefix trim_right_byte_def)
qed

lemma prefix_hd: "prefix p s \<Longrightarrow> p \<noteq> [] \<Longrightarrow> hd p = hd s"
  by (auto simp: prefix_def)

text \<open>
  A rule that survives \<^verbatim>\<open>normalizeExcludeRule\<close> is a non-empty
  path that neither starts nor ends with a separator and is not a dot element, whatever the user
  wrote: the globs \<^verbatim>\<open>/pat\<close>, \<^verbatim>\<open>pat/\<close> and \<^verbatim>\<open>pat/**\<close> built from it never contain a doubled separator at
  the seams.
\<close>

theorem normalize_exclude_rule_shape:
  assumes "normalize_exclude_rule raw = Some (pat, anchored)"
  shows "pat \<noteq> [] \<and> hd pat \<noteq> slash \<and> last pat \<noteq> slash \<and> pat \<noteq> ''.'' \<and> pat \<noteq> ''..''
    \<and> sublist pat (trim_space raw)"
proof -
  let ?t = "trim_space raw"
  let ?a = "has_prefix ?t ''./'' \<or> has_prefix ?t ''/''"
  let ?p = "if ?a then trim_left_byte slash (trim_prefix ?t ''./'') else ?t"
  have p: "pat = trim_right_byte slash ?p" "pat \<noteq> []" "pat \<noteq> ''.''" "pat \<noteq> ''..''"
    using assms by (auto simp: normalize_exclude_rule_def Let_def split: if_splits)
  have "hd pat = hd ?p" using trim_right_byte_prefix prefix_hd p(1,2) by metis
  moreover have "?p \<noteq> []" using p(1,2) by (auto simp: trim_right_byte_def)
  then have "hd ?p \<noteq> slash"
  proof (cases ?a)
    case True
    then show ?thesis using \<open>?p \<noteq> []\<close> by (simp add: trim_left_byte_hd)
  next
    case False
    then show ?thesis using \<open>?p \<noteq> []\<close> by (cases ?t) (auto simp: has_prefix_def)
  qed
  moreover have "sublist pat ?t"
  proof -
    have "sublist (trim_prefix ?t ''./'') ?t" by (simp add: trim_prefix_def sublist_drop)
    then have "sublist (trim_left_byte slash (trim_prefix ?t ''./'')) ?t"
      unfolding trim_left_byte_def by (rule sublist_order.order_trans [OF sublist_dropWhile])
    then have "sublist ?p ?t" by (simp split: if_split)
    moreover have "sublist pat ?p"
      unfolding p(1) by (rule prefix_imp_sublist [OF trim_right_byte_prefix])
    ultimately show ?thesis using sublist_order.order_trans by blast
  qed
  ultimately show ?thesis using p trim_right_byte_last by simp
qed

theorem normalize_exclude_rule_shape_witness:
  "normalize_exclude_rule ''.//sub//'' = Some (''sub'', True) \<and> hd ''sub'' \<noteq> slash \<and> sublist ''sub'' (trim_space ''.//sub//'')"
proof -
  have "normalize_exclude_rule ''.//sub//'' = Some (''sub'', True)"
    by (simp add: normalize_exclude_rule_def str_eval)
  from this normalize_exclude_rule_shape [OF this] show ?thesis by simp
qed

text \<open>A rule without metacharacters: its pattern test adds nothing to the exact comparisons.\<close>

lemma exclude_rule_hits_literal:
  assumes "normalize_exclude_rule raw = Some (pat, anchored)" "set pat \<inter> glob_meta = {}"
  shows "exclude_rule_hits name rel raw \<longleftrightarrow>
    (if \<not> anchored \<and> slash \<notin> set pat then name = pat
     else case rel of None \<Rightarrow> False | Some r \<Rightarrow> r = pat \<or> has_prefix r (pat @ ''/''))"
  using assms by (auto simp: exclude_rule_hits_def go_match_literal split: option.split)

lemma split_on_prefix:
  "prefix (split_on c p) (split_on c r) \<longleftrightarrow> r = p \<or> prefix (p @ [c]) r"
proof
  assume pre: "prefix (split_on c p) (split_on c r)"
  then obtain k where k: "split_on c r = split_on c p @ k" by (auto simp: prefix_def)
  show "r = p \<or> prefix (p @ [c]) r"
  proof (cases "k = []")
    case True
    then have "r = p" using k by (metis append_Nil2 join_split)
    then show ?thesis ..
  next
    case False
    have "join_with [c] (xs @ k) = join_with [c] xs @ c # join_with [c] k" if "xs \<noteq> []" for xs
      using that False by (induction xs rule: list_nonempty_induct) (simp_all add: join_with_Cons)
    then have "r = p @ c # join_with [c] k" using k by (metis join_split split_on_not_Nil)
    then show ?thesis by simp
  qed
qed (auto simp: prefix_def split_on_append)

text \<open>
  What a rule without wildcards excludes: a bare name excludes the
  directories of that name at any depth and nothing else; a rule anchored with \<^verbatim>\<open>./\<close> or \<^verbatim>\<open>/\<close>, or one
  that contains a separator, excludes exactly the directory it names below the workdir and the
  subtree under it, compared element by element (\<^verbatim>\<open>ref\<close> never takes \<^verbatim>\<open>reference\<close> along).
\<close>

theorem exclude_rule_scope:
  assumes "normalize_exclude_rule raw = Some (pat, anchored)" "set pat \<inter> glob_meta = {}"
  shows "exclude_rule_hits name (Some rel) raw =
    (if anchored \<or> slash \<in> set pat then prefix (split_on slash pat) (split_on slash rel) else name = pat)"
  unfolding split_on_prefix
  using exclude_rule_hits_literal [OF assms, of name "Some rel"] by (auto simp: has_prefix_def)

theorem exclude_rule_scope_witness:
  "exclude_rule_hits ''x'' (Some ''ref/x'') ''./ref'' \<and> \<not> exclude_rule_hits ''reference'' (Some ''reference'') ''./ref''"
proof -
  have "normalize_exclude_rule ''./ref'' = Some (''ref'', True)"
    by (simp add: normalize_exclude_rule_def str_eval)
  moreover have "set ''ref'' \<inter> glob_meta = {}" by (simp add: glob_meta_def)
  ultimately show ?thesis
    using exclude_rule_scope [of "''./ref''" "''ref''" True "''x''" "''ref/x''"]
      exclude_rule_scope [of "''./ref''" "''ref''" True "''reference''" "''reference''"] by simp
qed

section \<open>The walk below a workdir\<close>

lemma root_not_skipped: "workdir \<noteq> [] \<Longrightarrow> abs_clean env path = abs_clean env workdir \<Longrightarrow> \<not> should_skip_dir_in env workdir path name"
  by (simp add: should_skip_dir_in_def Let_def)

text \<open>
  The directories the walker enters from a workdir: the root, and below an entered directory
  every child that \<^const>\<open>should_skip_dir_in\<close> does not reject, asked as \<^verbatim>\<open>filepath.Walk\<close> asks it,
  with the joined path and the entry's name.
\<close>

inductive enters :: "walk_env \<Rightarrow> string \<Rightarrow> string \<Rightarrow> bool" for env wd where
  enters_root: "enters env wd wd"
| enters_child: "enters env wd d \<Longrightarrow> normal_seg s \<Longrightarrow> s \<noteq> ''..''
    \<Longrightarrow> \<not> should_skip_dir_in env wd (filepath_join [d, s]) s \<Longrightarrow> enters env wd (filepath_join [d, s])"

definition below_path :: "string \<Rightarrow> string list \<Rightarrow> string" where
  "below_path wd k = render True (path_elems wd @ k)"

definition plain_seg :: "string \<Rightarrow> bool" where
  "plain_seg s \<longleftrightarrow> normal_seg s \<and> s \<noteq> ''..''"

lemma abs_elems_normal: "is_abs wd \<Longrightarrow> clean wd = wd \<Longrightarrow> normal_segs True (path_elems wd)"
  using path_elems_clean_normal [of wd] by simp

lemma below_normal:
  "is_abs wd \<Longrightarrow> clean wd = wd \<Longrightarrow> list_all plain_seg k \<Longrightarrow> normal_segs True (path_elems wd @ k)"
  using normal_segs_append [OF abs_elems_normal] by (auto simp: list_all_iff plain_seg_def)

lemma below_path_Nil: "is_abs wd \<Longrightarrow> clean wd = wd \<Longrightarrow> below_path wd [] = wd"
  using clean_as_render [of wd] by (simp add: below_path_def)

lemma is_abs_below_path [simp]: "is_abs (below_path wd k)"
  by (simp add: below_path_def render_def is_abs_def)

lemma path_elems_below_path:
  "is_abs wd \<Longrightarrow> clean wd = wd \<Longrightarrow> list_all plain_seg k \<Longrightarrow> path_elems (below_path wd k) = path_elems wd @ k"
  using split_render [OF below_normal] by (simp add: below_path_def)

lemma path_elems_plain: "plain_seg s \<Longrightarrow> path_elems s = [s]"
  by (auto simp: path_elems_def plain_seg_def normal_seg_def split_on_none)

lemma join_below_path:
  assumes "is_abs wd" "clean wd = wd" "list_all plain_seg k" "plain_seg s"
  shows "filepath_join [below_path wd k, s] = below_path wd (k @ [s])"
proof -
  let ?p = "below_path wd k"
  have k: "list_all plain_seg (k @ [s])" using assms by simp
  have ne: "?p \<noteq> []" using is_abs_below_path [of wd k] by (auto simp: is_abs_def simp del: is_abs_below_path)
  have cl: "clean ?p = ?p" unfolding below_path_def by (rule clean_render [OF below_normal [OF assms(1-3)]])
  have el: "path_elems (filepath_join [?p, s]) = path_elems wd @ k @ [s]"
    using clean_segs_id [OF below_normal [OF assms(1,2) k]]
    by (simp add: path_elems_join [OF ne] cl path_elems_below_path [OF assms(1-3)] path_elems_plain [OF assms(4)])
  have "filepath_join [?p, s] = render True (path_elems (filepath_join [?p, s]))"
    using clean_as_render [of "filepath_join [?p, s]"] ne by simp
  then show ?thesis unfolding el by (simp only: below_path_def [of wd "k @ [s]"])
qed

lemma filepath_base_append: "normal_seg s \<Longrightarrow> filepath_base (d @ slash # s) = s"
proof -
  assume "normal_seg s"
  then have s: "s \<noteq> []" "slash \<notin> set s" by (auto simp: normal_seg_def)
  have "trim_right_byte slash (d @ slash # s) = d @ slash # s"
    using s by (cases s rule: rev_cases) (auto simp: trim_right_byte_def)
  moreover have "last_index_any {slash} (d @ slash # s) = Some (length d)"
    using s by (intro last_index_any_append) auto
  ultimately show ?thesis by (simp add: filepath_base_def)
qed

lemma below_path_snoc: "\<exists>d. below_path wd (k @ [s]) = d @ slash # s"
proof -
  have "\<exists>d. slash # join_with [slash] (xs @ [s]) = d @ slash # s" for xs
  proof (induction xs)
    case (Cons x xs)
    then obtain d where "slash # join_with [slash] (xs @ [s]) = d @ slash # s" ..
    then have "slash # join_with [slash] ((x # xs) @ [s]) = (slash # x @ d) @ slash # s"
      by (simp add: join_with_Cons)
    then show ?case by blast
  qed simp
  then show ?thesis by (auto simp: below_path_def render_def simp flip: append_assoc)
qed

lemma base_below_path: "plain_seg s \<Longrightarrow> filepath_base (below_path wd (k @ [s])) = s"
  using below_path_snoc [of wd k s] filepath_base_append by (auto simp: plain_seg_def)

lemma blocked_below_snoc:
  assumes "is_abs wd" "clean wd = wd" "list_all plain_seg j" "list_all plain_seg k" "plain_seg s"
  shows "blocked_below env wd (below_path wd j) (k @ [s]) \<longleftrightarrow>
    blocked_below env wd (below_path wd j) k \<or> should_skip_dir_in env wd (below_path wd (j @ k @ [s])) s"
  using assms(3,4)
proof (induction k arbitrary: j)
  case Nil
  have "s \<noteq> []" "s \<noteq> ''.''" using assms(5) by (auto simp: plain_seg_def normal_seg_def)
  then show ?case
    by (simp add: join_below_path [OF assms(1,2) Nil.prems(1) assms(5)] base_below_path [OF assms(5)] Let_def)
next
  case (Cons t k)
  have t: "plain_seg t" "t \<noteq> []" "t \<noteq> ''.''" using Cons.prems by (auto simp: plain_seg_def normal_seg_def)
  then show ?case
    using Cons.IH [of "j @ [t]"] Cons.prems
    by (simp add: join_below_path [OF assms(1,2) Cons.prems(1)] Let_def)
qed

lemma below_path_inj:
  "is_abs wd \<Longrightarrow> clean wd = wd \<Longrightarrow> list_all plain_seg j \<Longrightarrow> list_all plain_seg k
    \<Longrightarrow> below_path wd j = below_path wd k \<Longrightarrow> j = k"
  by (metis path_elems_below_path same_append_eq)

text \<open>The walker enters exactly the directories none of whose segments is blocked.\<close>

lemma enters_below_path:
  assumes "is_abs wd" "clean wd = wd" "list_all plain_seg k"
  shows "enters env wd (below_path wd k) \<longleftrightarrow> \<not> blocked_below env wd wd k"
proof -
  note wd = below_path_Nil [OF assms(1,2)]
  note snoc = blocked_below_snoc [OF assms(1,2), of "[]", unfolded wd, simplified]
  have "\<exists>k. list_all plain_seg k \<and> p = below_path wd k \<and> \<not> blocked_below env wd wd k"
    if "enters env wd p" for p
    using that
  proof induction
    case enters_root
    then show ?case using wd by (intro exI [of _ "[]"]) simp
  next
    case (enters_child d s)
    then obtain k where k: "list_all plain_seg k" "d = below_path wd k" "\<not> blocked_below env wd wd k" by blast
    have s: "plain_seg s" using enters_child by (simp add: plain_seg_def)
    have j: "filepath_join [d, s] = below_path wd (k @ [s])"
      using join_below_path [OF assms(1,2) k(1) s] k(2) by simp
    then show ?case using k s snoc enters_child.hyps by (intro exI [of _ "k @ [s]"]) simp
  qed
  moreover have "\<not> blocked_below env wd wd k \<Longrightarrow> enters env wd (below_path wd k)"
    using assms(3)
  proof (induction k rule: rev_induct)
    case Nil
    show ?case unfolding wd by (rule enters_root)
  next
    case (snoc s k)
    have k: "list_all plain_seg k" and s: "plain_seg s" using snoc.prems by auto
    have j: "filepath_join [below_path wd k, s] = below_path wd (k @ [s])"
      by (rule join_below_path [OF assms(1,2) k s])
    have "enters env wd (filepath_join [below_path wd k, s])"
      using snoc k s blocked_below_snoc [OF assms(1,2) _ k s, of "[]" env]
      by (intro enters_child) (auto simp: j plain_seg_def wd)
    then show ?case by (simp only: j)
  qed
  ultimately show ?thesis
    using below_path_inj [OF assms(1,2)] assms(3) by metis
qed

lemma below_path_of_prefix:
  assumes "is_abs t" "clean t = t" "path_elems t = path_elems wd @ k"
  shows "list_all plain_seg k \<and> t = below_path wd k"
proof -
  have n: "normal_segs True (path_elems wd @ k)" using abs_elems_normal [OF assms(1,2)] assms(3) by simp
  then have "''..'' \<notin> set k" using stack_ok_rooted by (fastforce simp: normal_segs_def)
  then have "list_all plain_seg k" using normal_segs_no_slash [OF n] by (auto simp: list_all_iff plain_seg_def)
  moreover have "t = below_path wd k" using clean_as_render [of t] assms by (simp add: below_path_def)
  ultimately show ?thesis by simp
qed

lemma join_plain_no_escape:
  assumes "list_all plain_seg k"
  shows "\<not> rel_escapes (join_with [slash] k)"
proof
  assume "rel_escapes (join_with [slash] k)"
  then have "k \<noteq> [] \<and> hd k = ''..''"
    using assms by (intro join_escapes_hd) (auto simp: list_all_iff plain_seg_def normal_seg_def)
  then show False using assms by (cases k) (auto simp: plain_seg_def)
qed

lemma split_join_plain: "list_all plain_seg k \<Longrightarrow> k \<noteq> [] \<Longrightarrow> split_on slash (join_with [slash] k) = k"
  by (rule split_join) (auto simp: list_all_iff plain_seg_def normal_seg_def)

lemma blind_to_iff:
  assumes "is_abs wd0" "is_abs t" "clean t = t"
  shows "blind_to env t wd0 \<longleftrightarrow>
    prefix (path_elems (clean wd0)) (path_elems t) \<and> \<not> enters env (clean wd0) t"
proof -
  define wd where "wd = clean wd0"
  have wd: "is_abs wd" "clean wd = wd" using assms(1) by (simp_all add: wd_def)
  have blind: "blind_to env t wd0 \<longleftrightarrow> wd \<noteq> t \<and> (case filepath_rel wd t of None \<Rightarrow> False
      | Some rel \<Rightarrow> \<not> rel_escapes rel \<and> blocked_below env wd wd (split_on slash rel))"
    using assms(1) unfolding wd_def by (simp add: blind_to_def filepath_abs_def Let_def)
  show ?thesis
  proof (cases "prefix (path_elems wd) (path_elems t)")
    case True
    then obtain k where k: "path_elems t = path_elems wd @ k" by (auto simp: prefix_def)
    note t = below_path_of_prefix [OF assms(2,3) k]
    have rel: "filepath_rel wd t = Some (if k = [] then ''.'' else join_with [slash] k)"
      using filepath_rel_below [of t wd k] assms(2,3) wd k by simp
    show ?thesis
    proof (cases "k = []")
      case True
      then have "t = wd" using t below_path_Nil [OF wd] by simp
      then show ?thesis unfolding blind by (auto simp: wd_def [symmetric] intro: enters_root)
    next
      case False
      then have "wd \<noteq> t" using k by auto
      then show ?thesis
        using t enters_below_path [OF wd, of k env] join_plain_no_escape split_join_plain [of k] False True
        unfolding blind rel wd_def [symmetric] by simp
    qed
  next
    case False
    have "rel_escapes rel" if r: "filepath_rel wd t = Some rel" for rel
    proof (rule ccontr)
      assume "\<not> rel_escapes rel"
      then obtain k where "path_elems (clean t) = path_elems (clean wd) @ k"
        using filepath_rel_inside [OF r] by metis
      then show False using False assms(3) wd(2) by (simp add: prefix_def)
    qed
    then show ?thesis using False unfolding blind wd_def [symmetric] by (auto split: option.split)
  qed
qed

text \<open>
  C11 (\<open>narrowing_exact\<close>).  \<^verbatim>\<open>NarrowExcludedWorkdirs\<close> shrinks the workdirs to the session's target
  exactly when some workdir contains the target but a walk of that workdir never enters it; in
  every other case the list is untouched.  The rule is checked against the walker's own relation,
  so a session never indexes a parent that is blind to its tree, and never loses a parent that
  is not.
\<close>

theorem narrowing_exact:
  assumes "target = (if explicit_workdir = [] then cwd else explicit_workdir)" "is_abs target"
    and "list_all is_abs workdirs"
  shows "narrow_excluded_workdirs env explicit_workdir cwd workdirs =
    (if list_ex (\<lambda>wd. prefix (path_elems (clean wd)) (path_elems (clean target))
          \<and> \<not> enters env (clean wd) (clean target)) workdirs
     then [target] else workdirs)"
proof -
  have "target \<noteq> []" using assms(2) by (auto simp: is_abs_def)
  moreover have "list_ex (blind_to env (clean target)) workdirs =
      list_ex (\<lambda>wd. prefix (path_elems (clean wd)) (path_elems (clean target))
          \<and> \<not> enters env (clean wd) (clean target)) workdirs"
    using assms(2,3) blind_to_iff [of _ "clean target" env] by (induction workdirs) auto
  ultimately show ?thesis
    using assms(1,2) by (simp add: narrow_excluded_workdirs_def filepath_abs_def Let_def)
qed

definition sample_walk_env :: walk_env where
  "sample_walk_env = \<lparr>we_cwd = Some ''/w'', we_home = None, we_exists = (\<lambda>_. False),
     we_exclude = [''./gen''], we_home_all = False\<rparr>"

theorem narrowing_exact_witness:
  "narrow_excluded_workdirs sample_walk_env [] ''/w/.wt/x'' [''/w''] = [''/w/.wt/x'']
   \<and> \<not> enters sample_walk_env ''/w'' ''/w/.wt/x''"
proof -
  have "blocked_below sample_walk_env ''/w'' ''/w'' [''.wt'', ''x'']"
    by (simp add: should_skip_dir_in_def skip_dir_names_def abs_clean_def filepath_abs_def path_eval str_eval)
  then have "\<not> enters sample_walk_env ''/w'' (below_path ''/w'' [''.wt'', ''x''])"
    by (subst enters_below_path) (simp_all add: path_eval plain_seg_def normal_seg_def)
  then have n: "\<not> enters sample_walk_env ''/w'' ''/w/.wt/x''" by (simp add: below_path_def path_eval)
  have "clean ''/w'' = ''/w''" "clean ''/w/.wt/x'' = ''/w/.wt/x''"
    "prefix (path_elems ''/w'') (path_elems ''/w/.wt/x'')" "is_abs ''/w''" "is_abs ''/w/.wt/x''"
    by (simp_all add: path_eval)
  then show ?thesis
    using n narrowing_exact [of "''/w/.wt/x''" "[]" "''/w/.wt/x''" "[''/w'']" sample_walk_env] by simp
qed

end
