(* ===== verification/Rg_Globs.thy ===== *)
theory Rg_Globs
  imports Skip_Rules "HOL-Library.List_Lexorder" "HOL-Library.Char_ord"
begin

text \<open>
  The translation of an exclusion rule into the globs handed to the external search tool
  (\<^verbatim>\<open>extraction/skip.go\<close>, from \<^verbatim>\<open>RgExcludeGlob\<close> to \<^verbatim>\<open>BuiltinSkipGlobs\<close>): the check that a pattern
  is well formed, the escaping of literal names, the translation of wildcards and character
  classes.  A rune is its code point; the two results \<^verbatim>\<open>(glob, satisfiable)\<close> are an option.
\<close>

section \<open>Escaping\<close>

definition trailing_backslashes :: "string \<Rightarrow> nat" where
  "trailing_backslashes s = length (takeWhile (\<lambda>c. c = backslash) (rev s))"

definition fix_rg_trailing_escape :: "string \<Rightarrow> string" where
  "fix_rg_trailing_escape g =
     (let n = trailing_backslashes g in if 0 < n \<and> n mod 2 = 0 then g @ [backslash] else g)"

definition escape_rg_char :: "char \<Rightarrow> string" where
  "escape_rg_char c =
     (if c = backslash then [lbracket, backslash, backslash, rbracket]
      else if c = CHR ''{'' \<or> c = CHR ''}'' then [lbracket, c, rbracket]
      else if c = star \<or> c = CHR ''?'' \<or> c = lbracket \<or> c = rbracket then [backslash, c]
      else [c])"

definition escape_rg_literal :: "string \<Rightarrow> string" where
  "escape_rg_literal s = concat (map escape_rg_char s)"

section \<open>Well-formed patterns\<close>

lemma scan_rest_shorter:
  assumes "rest \<noteq> []" "take n (dropWhile (\<lambda>c. c = star) rest) \<noteq> []"
  shows "length (drop n (dropWhile (\<lambda>c. c = star) rest)) < length rest"
proof -
  have "0 < n" "dropWhile (\<lambda>c. c = star) rest \<noteq> []" using assms(2) by auto
  then have "length (drop n (dropWhile (\<lambda>c. c = star) rest)) < length (dropWhile (\<lambda>c. c = star) rest)"
    by (simp add: diff_less)
  also have "\<dots> \<le> length rest" by (rule length_dropWhile_le)
  finally show ?thesis .
qed

function is_valid_go_pattern :: "string \<Rightarrow> bool" where
  "is_valid_go_pattern rest =
     (if rest = [] then True
      else
        (let body = dropWhile (\<lambda>c. c = star) rest; n = scan_end False body;
             chunk = take n body; rest' = drop n body
         in if chunk = [] then rest' = []
            else if go_match chunk [] = None then False
            else is_valid_go_pattern rest'))"
  by pat_completeness auto
termination
  by (relation "measure length") (simp_all only: wf_measure in_measure scan_rest_shorter not_False_eq_True)

declare is_valid_go_pattern.simps [simp del]

section \<open>Character classes\<close>

text \<open>\<^verbatim>\<open>string(r)\<close> of a rune: its UTF-8 bytes, those of U+FFFD where it is no code point.\<close>

definition encode_rune :: "nat \<Rightarrow> string" where
  "encode_rune r0 =
     (let r = (if (55296 \<le> r0 \<and> r0 \<le> 57343) \<or> 1114111 < r0 then rune_error else r0) in
      if r < 128 then [char_of r]
      else if r < 2048 then [char_of (192 + r div 64), char_of (128 + r mod 64)]
      else if r < 65536 then
        [char_of (224 + r div 4096), char_of (128 + r div 64 mod 64), char_of (128 + r mod 64)]
      else
        [char_of (240 + r div 262144), char_of (128 + r div 4096 mod 64),
         char_of (128 + r div 64 mod 64), char_of (128 + r mod 64)])"

abbreviation slash_rune :: nat where "slash_rune \<equiv> 47"
abbreviation bang_rune :: nat where "bang_rune \<equiv> 33"
abbreviation minus_rune :: nat where "minus_rune \<equiv> 45"
abbreviation rbracket_rune :: nat where "rbracket_rune \<equiv> 93"
abbreviation caret_rune :: nat where "caret_rune \<equiv> 94"

definition go_class_rune :: "string \<Rightarrow> nat \<times> string" where
  "go_class_rune s =
     (if hd s = backslash
      then (let (r, n) = decode_rune (tl s) in (r, drop n (tl s)))
      else (let (r, n) = decode_rune s in (r, drop n s)))"

definition add_class_single :: "bool \<Rightarrow> nat \<Rightarrow> nat list \<Rightarrow> nat list" where
  "add_class_single allow_slash r singles =
     (if (\<not> allow_slash \<and> r = slash_rune) \<or> r = rune_error \<or> r \<in> set singles then singles
      else singles @ [r])"

text \<open>A dash connects a range only when another member follows it.\<close>

definition range_follows :: "string \<Rightarrow> bool" where
  "range_follows b \<longleftrightarrow>
     b \<noteq> [] \<and> hd b = CHR ''-'' \<and> tl b \<noteq> [] \<and> hd (tl b) \<noteq> rbracket
     \<and> \<not> (hd (tl b) = backslash \<and> tl (tl b) = [])"

definition add_class_range :: "bool \<Rightarrow> nat \<Rightarrow> nat \<Rightarrow> nat list \<times> (nat \<times> nat) list \<Rightarrow> nat list \<times> (nat \<times> nat) list" where
  "add_class_range allow_slash lo hi acc =
     (let (singles, ranges) = acc in
      if hi < lo then (singles, ranges)
      else if lo = hi then (add_class_single allow_slash lo singles, ranges)
      else if \<not> allow_slash \<and> lo \<le> slash_rune \<and> slash_rune \<le> hi then
        (singles, ranges @ (if lo \<le> slash_rune - 1 then [(lo, slash_rune - 1)] else [])
                         @ (if slash_rune + 1 \<le> hi then [(slash_rune + 1, hi)] else []))
      else (singles, ranges @ [(lo, hi)]))"

lemma go_class_rune_shorter: "s \<noteq> [] \<Longrightarrow> length (snd (go_class_rune s)) < length s"
  using decode_rune_width_pos [of s] by (cases s) (auto simp: go_class_rune_def split_def Let_def)

function parse_class_members ::
    "bool \<Rightarrow> nat list \<times> (nat \<times> nat) list \<Rightarrow> string \<Rightarrow> (nat list \<times> (nat \<times> nat) list) \<times> string" where
  "parse_class_members allow_slash acc body =
     (if body = [] then (acc, [])
      else if hd body = rbracket then (acc, tl body)
      else
        (let lo = fst (go_class_rune body); b1 = snd (go_class_rune body) in
         if range_follows b1 then
           (let hi = fst (go_class_rune (tl b1)); b2 = snd (go_class_rune (tl b1)) in
            parse_class_members allow_slash (add_class_range allow_slash lo hi acc) b2)
         else parse_class_members allow_slash (add_class_single allow_slash lo (fst acc), snd acc) b1))"
  by pat_completeness auto
termination
proof (relation "measure (\<lambda>(_, _, b). length b)", goal_cases)
  case (2 allow_slash acc body lo b1 hi b2)
  then have "length b1 < length body" "length b2 < length (tl b1)" "tl b1 \<noteq> []"
    using go_class_rune_shorter [of body] go_class_rune_shorter [of "tl b1"] by (auto simp: range_follows_def)
  then show ?case by simp
next
  case (3 allow_slash acc body lo b1)
  then show ?case using go_class_rune_shorter [of body] by simp
qed simp

declare parse_class_members.simps [simp del]

text \<open>What follows the opening bracket; the last component is the rest of the pattern.\<close>

definition parse_go_class :: "string \<Rightarrow> bool \<Rightarrow> bool \<times> nat list \<times> (nat \<times> nat) list \<times> string" where
  "parse_go_class cs allow_slash =
     (let (neg, body) = class_negated cs;
          ((singles, ranges), rest) = parse_class_members allow_slash ([], []) body
      in (neg, singles, ranges, rest))"

definition endpoint_rune :: "nat \<Rightarrow> bool" where
  "endpoint_rune r \<longleftrightarrow> r = rbracket_rune \<or> r = minus_rune \<or> r = bang_rune \<or> r = caret_rune"

definition add_single :: "nat \<Rightarrow> nat list \<Rightarrow> nat list" where
  "add_single r singles = (if r \<in> set singles then singles else singles @ [r])"

function peel_range :: "nat list \<Rightarrow> nat \<Rightarrow> nat \<Rightarrow> nat list \<times> nat \<times> nat" where
  "peel_range singles lo hi =
     (if lo < hi \<and> endpoint_rune lo then peel_range (add_single lo singles) (lo + 1) hi
      else if lo < hi \<and> endpoint_rune hi then peel_range (add_single hi singles) lo (hi - 1)
      else (singles, lo, hi))"
  by pat_completeness auto
termination
  by (relation "measure (\<lambda>(_, lo, hi). hi - lo)") auto

declare peel_range.simps [simp del]

fun normalize_rg_range_endpoints ::
    "nat list \<Rightarrow> (nat \<times> nat) list \<Rightarrow> nat list \<times> (nat \<times> nat) list" where
  "normalize_rg_range_endpoints singles [] = (singles, [])"
| "normalize_rg_range_endpoints singles ((lo0, hi0) # rgs) =
     (let (singles1, lo, hi) = peel_range singles lo0 hi0 in
      if hi < lo then normalize_rg_range_endpoints singles1 rgs
      else if lo = hi then normalize_rg_range_endpoints (add_single lo singles1) rgs
      else (let (singles2, out) = normalize_rg_range_endpoints singles1 rgs in (singles2, (lo, hi) # out)))"

text \<open>\<^verbatim>\<open>emitRgClass\<close>: \<^const>\<open>None\<close> where it writes nothing and returns false.\<close>

definition only_bang_caret :: "nat list \<Rightarrow> bool" where
  "only_bang_caret singles \<longleftrightarrow> list_all (\<lambda>s. s = bang_rune \<or> s = caret_rune) singles"

definition class_minus_first :: "bool \<Rightarrow> nat list \<Rightarrow> (nat \<times> nat) list \<Rightarrow> bool" where
  "class_minus_first neg singles ranges \<longleftrightarrow>
     \<not> neg \<and> minus_rune \<in> set singles \<and> rbracket_rune \<notin> set singles \<and> ranges = []
     \<and> list_all endpoint_rune singles"

definition write_rg_class :: "bool \<Rightarrow> nat list \<Rightarrow> (nat \<times> nat) list \<Rightarrow> string" where
  "write_rg_class neg singles ranges =
     (let has = (\<lambda>r. r \<in> set singles); minus_first = class_minus_first neg singles ranges in
      [lbracket] @ (if neg then ''!'' else []) @ (if has rbracket_rune then [rbracket] else [])
      @ (if minus_first then ''-'' else [])
      @ concat (map encode_rune (filter (\<lambda>s. \<not> endpoint_rune s) singles))
      @ concat (map (\<lambda>(lo, hi). encode_rune lo @ ''-'' @ encode_rune hi) ranges)
      @ (if has bang_rune then ''!'' else []) @ (if has caret_rune then ''^'' else [])
      @ (if has minus_rune \<and> \<not> minus_first then ''-'' else []) @ [rbracket])"

definition emit_rg_class :: "bool \<Rightarrow> nat list \<Rightarrow> (nat \<times> nat) list \<Rightarrow> string option" where
  "emit_rg_class neg singles0 ranges0 =
     (let (singles, ranges) = normalize_rg_range_endpoints singles0 ranges0;
          bang = bang_rune \<in> set singles; caret = caret_rune \<in> set singles in
      if \<not> neg \<and> ranges = [] \<and> only_bang_caret singles then
        (if bang \<and> caret then Some (''{'' @ [backslash] @ ''!,'' @ [backslash] @ ''^}'')
         else if bang then Some (backslash # ''!'')
         else if caret then Some (backslash # ''^'')
         else None)
      else if neg \<and> singles = [] \<and> ranges = [] then None
      else Some (write_rg_class neg singles ranges))"

section \<open>Translation\<close>

lemma parse_class_members_shorter: "length (snd (parse_class_members a acc body)) \<le> length body"
proof (induction a acc body rule: parse_class_members.induct)
  case (1 a acc body)
  let ?lo = "fst (go_class_rune body)" and ?b1 = "snd (go_class_rune body)"
  let ?hi = "fst (go_class_rune (tl ?b1))" and ?b2 = "snd (go_class_rune (tl ?b1))"
  show ?case
  proof (cases "body = [] \<or> hd body = rbracket")
    case True
    then show ?thesis by (auto simp: parse_class_members.simps [of a acc body])
  next
    case False
    then have l1: "length ?b1 < length body" by (simp add: go_class_rune_shorter)
    show ?thesis
    proof (cases "range_follows ?b1")
      case True
      then have "length ?b2 < length (tl ?b1)"
        using go_class_rune_shorter [of "tl ?b1"] by (simp add: range_follows_def)
      moreover have "parse_class_members a acc body = parse_class_members a (add_class_range a ?lo ?hi acc) ?b2"
        using False True by (simp add: parse_class_members.simps [of a acc body] Let_def)
      ultimately show ?thesis using "1.IH"(1) [OF _ _ refl refl True refl refl] False l1 by simp
    next
      case no: False
      have "parse_class_members a acc body
          = parse_class_members a (add_class_single a ?lo (fst acc), snd acc) ?b1"
        using False no by (simp add: parse_class_members.simps [of a acc body] Let_def)
      then show ?thesis using "1.IH"(2) [OF _ _ refl refl no] False l1 by simp
    qed
  qed
qed

lemma parse_go_class_shorter: "length (snd (snd (snd (parse_go_class cs a)))) \<le> length cs"
  using parse_class_members_shorter [of a "([], [])" "snd (class_negated cs)"] class_negated_length [of cs]
  by (simp add: parse_go_class_def Let_def split_def)

text \<open>
  The scan of \<^verbatim>\<open>translateRgGlob\<close>: the byte before the scan position (the loop looks back at it to
  tell whether a class stands in the middle of a segment) and what is left of the pattern.
  \<^const>\<open>None\<close> is \<^verbatim>\<open>satisfiable = false\<close>.
\<close>

definition mid_segment :: "char option \<Rightarrow> string \<Rightarrow> bool" where
  "mid_segment before rest \<longleftrightarrow> before \<noteq> None \<and> before \<noteq> Some slash \<and> rest \<noteq> [] \<and> hd rest \<noteq> slash"

definition translate_class :: "bool \<Rightarrow> bool \<Rightarrow> nat list \<Rightarrow> (nat \<times> nat) list \<Rightarrow> bool \<Rightarrow> string option" where
  "translate_class allow_slash neg singles ranges mid =
     (let singles' = (if neg \<and> \<not> allow_slash \<and> (singles \<noteq> [] \<or> ranges \<noteq> [])
                      then singles @ [slash_rune] else singles)
      in case emit_rg_class neg singles' ranges of
           Some g \<Rightarrow> Some g
         | None \<Rightarrow>
             if \<not> neg then None
             else if allow_slash \<and> mid then Some ''{?,[/]}''
             else Some ''?'')"

function translate_rg :: "bool \<Rightarrow> char option \<Rightarrow> string \<Rightarrow> string option" where
  "translate_rg allow_slash before [] = Some []"
| "translate_rg allow_slash before (c # cs) =
     (if c = backslash then
        (case cs of
           [] \<Rightarrow> Some [backslash]
         | n # rest \<Rightarrow>
             map_option (\<lambda>g. (if n = backslash then [lbracket, backslash, backslash, rbracket]
                              else if n = CHR ''{'' \<or> n = CHR ''}'' then [lbracket, n, rbracket]
                              else [backslash, n]) @ g)
               (translate_rg allow_slash (Some n) rest))
      else if c = star then
        map_option (\<lambda>g. star # g) (translate_rg allow_slash (Some star) (dropWhile (\<lambda>x. x = star) cs))
      else if c = lbracket then
        (let cl = parse_go_class cs allow_slash; rest = snd (snd (snd cl));
             lastb = last (c # take (length cs - length rest) cs)
         in case translate_class allow_slash (fst cl) (fst (snd cl)) (fst (snd (snd cl))) (mid_segment before rest) of
              None \<Rightarrow> None
            | Some h \<Rightarrow> map_option (\<lambda>g. h @ g) (translate_rg allow_slash (Some lastb) rest))
      else if c = CHR ''{'' \<or> c = CHR ''}'' then
        map_option (\<lambda>g. [lbracket, c, rbracket] @ g) (translate_rg allow_slash (Some c) cs)
      else map_option (\<lambda>g. c # g) (translate_rg allow_slash (Some c) cs))"
  by pat_completeness auto
termination
  by (relation "measure (\<lambda>(_, _, s). length s)")
    (auto simp: le_imp_less_Suc length_dropWhile_le parse_go_class_shorter)

definition translate_rg_glob :: "string \<Rightarrow> bool \<Rightarrow> string option" where
  "translate_rg_glob pat allow_slash = translate_rg allow_slash None pat"

definition rg_safe_glob :: "string \<Rightarrow> bool \<Rightarrow> string option" where
  "rg_safe_glob pat allow_slash =
     (if \<not> is_valid_go_pattern pat then Some (fix_rg_trailing_escape (escape_rg_literal pat))
      else translate_rg_glob pat allow_slash)"

definition rg_exclude_globs :: "string \<Rightarrow> string list" where
  "rg_exclude_globs pattern =
     (case normalize_exclude_rule pattern of
        None \<Rightarrow> []
      | Some (pat, anchored) \<Rightarrow>
          (let allow_slash = (anchored \<or> slash \<in> set pat);
               out = (case rg_safe_glob pat allow_slash of
                        None \<Rightarrow> []
                      | Some g \<Rightarrow>
                          if \<not> allow_slash \<and> slash \<in> set g then [''**/'' @ g]
                          else if allow_slash then [slash # g]
                          else [g]);
               need_literal = (is_valid_go_pattern pat \<and> go_match pat pat = Some False);
               esc = fix_rg_trailing_escape (escape_rg_literal pat);
               lit = (if allow_slash then slash # esc else esc)
           in if need_literal \<and> (out = [] \<or> hd out \<noteq> lit) then out @ [lit] else out))"

definition rg_exclude_glob :: "string \<Rightarrow> string option" where
  "rg_exclude_glob pattern =
     (case rg_exclude_globs pattern of [] \<Rightarrow> None | g # _ \<Rightarrow> Some g)"

text \<open>The built-in exclusions as globs; the "seen" map and the final sort as \<^const>\<open>remdups\<close> and \<^const>\<open>sort\<close>.\<close>

definition builtin_skip_globs :: "walk_env \<Rightarrow> string \<Rightarrow> string list" where
  "builtin_skip_globs env root =
     (let frags = filter (\<lambda>f. f \<noteq> []) (map (trim_set {slash}) skip_path_fragments);
          bare = skip_dir_names @ filter (\<lambda>f. slash \<notin> set f) frags;
          multi = map (\<lambda>f. ''**/'' @ f) (filter (\<lambda>f. slash \<in> set f) frags);
          go = map (\<lambda>f. ''**/'' @ f) [''go/pkg'', ''go/bin'', ''go/src''];
          abs = (case filepath_abs (we_cwd env) root of None \<Rightarrow> root | Some a \<Rightarrow> a);
          top = (if root \<noteq> [] \<and> is_gopath_root env (filepath_join [clean abs, ''go'']) then [''/go''] else [])
      in sort (remdups (bare @ multi @ go @ top)))"

section \<open>A valid pattern never fails\<close>

text \<open>Whether a chunk parses does not depend on the string it is matched against.\<close>

lemma match_chunk_syntax: "match_chunk chunk s = None \<longleftrightarrow> match_chunk chunk t = None"
proof (induction chunk s arbitrary: t rule: match_chunk.induct)
  case (2 c cs s)
  consider "c = lbracket" | "c \<noteq> lbracket" "c = CHR ''?''" | "c \<noteq> lbracket" "c \<noteq> CHR ''?''" "c = backslash"
    | "c \<noteq> lbracket" "c \<noteq> CHR ''?''" "c \<noteq> backslash" by blast
  then show ?case
  proof cases
    case 1
    show ?thesis
    proof (cases "class_ranges 0 (snd (class_negated cs))")
      case None
      then show ?thesis unfolding match_chunk.simps(2) if_P [OF 1] by simp
    next
      case (Some p)
      show ?thesis
        unfolding match_chunk.simps(2) if_P [OF 1] Some option.case
        using "2.IH"(1) [OF 1 Some prod.collapse] by (simp only: split_def)
    qed
  next
    case 2
    then show ?thesis unfolding match_chunk.simps(2) if_not_P [OF 2(1)] if_P [OF 2(2)]
      using "2.IH"(2) [OF 2] by blast
  next
    case 3
    show ?thesis
    proof (cases cs)
      case Nil
      then show ?thesis using 3 by simp
    next
      case (Cons d ds)
      show ?thesis
        unfolding match_chunk.simps(2) if_not_P [OF 3(1)] if_not_P [OF 3(2)] if_P [OF 3(3)] Cons list.case
        using "2.IH"(3) [OF 3 Cons] by blast
    qed
  next
    case 4
    then show ?thesis
      unfolding match_chunk.simps(2) if_not_P [OF 4(1)] if_not_P [OF 4(2)] if_not_P [OF 4(3)]
      using "2.IH"(4) [OF 4] by blast
  qed
qed simp

lemma star_search_syntax: "match_chunk chunk (Some []) \<noteq> None \<Longrightarrow> star_search chunk final s \<noteq> None"
proof (induction s)
  case (Cons c cs)
  have "match_chunk chunk (Some cs) \<noteq> None"
    using Cons.prems match_chunk_syntax [of chunk "Some cs" "Some []"] by simp
  then show ?case using Cons.IH [OF Cons.prems] by (auto split: option.split)
qed simp

text \<open>A chunk cut off by \<^const>\<open>scan_end\<close> is scanned to its end.\<close>

lemma scan_end_take: "scan_end b (take (scan_end b p) p) = scan_end b p"
proof (induction b p rule: scan_end.induct)
  case (2 b c cs)
  show ?case
  proof (cases "c = backslash")
    case True
    then show ?thesis using 2(1) by (cases cs) simp_all
  next
    case False
    consider "c = lbracket" | "c = rbracket" | "c \<noteq> lbracket" "c \<noteq> rbracket" "c = star \<and> \<not> b"
      | "c \<noteq> lbracket" "c \<noteq> rbracket" "\<not> (c = star \<and> \<not> b)" by blast
    then show ?thesis
    proof cases
      case 1
      then show ?thesis using 2(2) False by simp
    next
      case 2
      then show ?thesis using "2.IH"(3) False by simp
    next
      case 3
      then show ?thesis using False by simp
    next
      case 4
      have "scan_end b (c # cs) = Suc (scan_end b cs)" using 4 False by auto
      moreover have "scan_end b (c # take (scan_end b cs) cs) = Suc (scan_end b (take (scan_end b cs) cs))"
        using 4 False by auto
      ultimately show ?thesis using "2.IH"(4) 4 False by simp
    qed
  qed
qed simp

lemma scan_end_le: "scan_end b p \<le> length p"
proof (induction b p rule: scan_end.induct)
  case (2 b c cs)
  then show ?case by (cases cs) auto
qed simp

definition first_chunk :: "string \<Rightarrow> string" where
  "first_chunk p = fst (snd (scan_chunk p))"

lemma scan_chunk_chunk:
  assumes "first_chunk p \<noteq> []"
  shows "scan_chunk (first_chunk p) = (False, first_chunk p, [])"
proof -
  let ?b = "dropWhile (\<lambda>c. c = star) p"
  let ?n = "scan_end False ?b"
  have c: "first_chunk p = take ?n ?b" by (simp add: first_chunk_def scan_chunk_def Let_def)
  have "?b \<noteq> []" "0 < ?n" using assms c by auto
  then have "hd (take ?n ?b) \<noteq> star" using hd_dropWhile [of "\<lambda>c. c = star" p] by simp
  then have "dropWhile (\<lambda>c. c = star) (take ?n ?b) = take ?n ?b"
    using assms c by (cases "take ?n ?b") auto
  then show ?thesis unfolding c using scan_end_le [of False ?b] by (simp add: scan_chunk_def scan_end_take Let_def)
qed

lemma go_match_chunk_error:
  assumes "first_chunk p \<noteq> []"
  shows "go_match (first_chunk p) [] = None \<longleftrightarrow> match_chunk (first_chunk p) (Some []) = None"
proof -
  let ?c = "first_chunk p"
  have "go_match ?c [] = (case match_chunk ?c (Some []) of None \<Rightarrow> None
      | Some m \<Rightarrow> if m \<noteq> None \<and> (the m = [] \<or> [] \<noteq> ([] :: string)) then go_match [] (the m)
          else if False then (case star_search ?c ([] = ([] :: string)) [] of
              None \<Rightarrow> None | Some None \<Rightarrow> Some False | Some (Some t) \<Rightarrow> go_match [] t)
          else Some False)"
    by (subst go_match.simps, subst if_not_P [OF assms], subst scan_chunk_chunk [OF assms],
        subst split_conv, subst split_conv, simp only: HOL.simp_thms if_False)
  then show ?thesis by (cases "match_chunk ?c (Some [])") (auto simp: go_match_empty split: if_split)
qed

lemma valid_step:
  assumes "p \<noteq> []" "first_chunk p \<noteq> []"
  shows "is_valid_go_pattern p \<longleftrightarrow>
    match_chunk (first_chunk p) (Some []) \<noteq> None \<and> is_valid_go_pattern (snd (snd (scan_chunk p)))"
proof -
  have "is_valid_go_pattern p = (if first_chunk p = [] then snd (snd (scan_chunk p)) = []
      else if go_match (first_chunk p) [] = None then False else is_valid_go_pattern (snd (snd (scan_chunk p))))"
    by (subst is_valid_go_pattern.simps, subst if_not_P [OF assms(1)])
      (simp only: first_chunk_def scan_chunk_def Let_def fst_conv snd_conv)
  then show ?thesis using assms(2) go_match_chunk_error [OF assms(2)] by simp
qed

lemma unstarred_chunk:
  assumes "\<not> (starred \<and> chunk = [])" "scan_chunk p = (starred, chunk, rest)" "p \<noteq> []"
  shows "chunk \<noteq> []"
proof (cases starred)
  case False
  then have b: "dropWhile (\<lambda>c. c = star) p = p" and c: "chunk = take (scan_end False p) p"
    using assms(2) by (auto simp: scan_chunk_def Let_def)
  obtain x xs where p: "p = x # xs" using assms(3) by (cases p) auto
  then have "x \<noteq> star" using dropWhile_eq_hd [of "\<lambda>c. c = star" p x xs] b by simp
  then have "0 < scan_end False p" unfolding p by (rule scan_end_pos)
  then show ?thesis using c p by simp
qed (use assms(1) in simp)

lemma go_match_valid: "is_valid_go_pattern p \<Longrightarrow> go_match p s \<noteq> None"
proof (induction p s rule: go_match.induct)
  case (1 p s)
  show ?case
  proof (cases "p = []")
    case False
    obtain starred chunk rest where sc: "scan_chunk p = (starred, chunk, rest)" by (cases "scan_chunk p")
    then have fc: "first_chunk p = chunk" by (simp add: first_chunk_def)
    show ?thesis
    proof (cases "starred \<and> chunk = []")
      case True
      then show ?thesis using False sc by (subst go_match.simps) simp
    next
      case no: False
      have "chunk \<noteq> []" using no sc False by (rule unstarred_chunk)
      then have v: "match_chunk chunk (Some []) \<noteq> None" "is_valid_go_pattern rest"
        using valid_step [OF False] "1.prems" fc sc by auto
      then obtain m where m: "match_chunk chunk (Some s) = Some m"
        using match_chunk_syntax [of chunk "Some s" "Some []"] by auto
      have ss: "star_search chunk (rest = []) s \<noteq> None" using v(1) by (rule star_search_syntax)
      have eq: "go_match p s = (if m \<noteq> None \<and> (the m = [] \<or> rest \<noteq> []) then go_match rest (the m)
          else if starred then (case star_search chunk (rest = []) s of None \<Rightarrow> None
            | Some None \<Rightarrow> Some False | Some (Some t) \<Rightarrow> go_match rest t) else Some False)"
        by (subst go_match.simps, subst if_not_P [OF False], subst sc)
          (simp only: split_conv if_not_P [OF no] m option.case)
      show ?thesis
      proof (cases "m \<noteq> None \<and> (the m = [] \<or> rest \<noteq> [])")
        case True
        then show ?thesis using eq "1.IH"(1) [OF False sc [symmetric] refl no m True v(2)] by simp
      next
        case stop: False
        show ?thesis
        proof (cases "star_search chunk (rest = []) s")
          case None
          then show ?thesis using ss by simp
        next
          case (Some st)
          show ?thesis
            using "1.IH"(2) [OF False sc [symmetric] refl no m stop] v(2) Some unfolding eq if_not_P [OF stop]
            by (cases st) auto
        qed
      qed
    qed
  qed (simp add: go_match_empty)
qed

text \<open>
  A pattern that \<^verbatim>\<open>isValidGoPattern\<close> accepts chunk by chunk never
  makes \<^verbatim>\<open>filepath.Match\<close> report a bad pattern, whatever name it is matched against: the check sees
  the errors that sit behind a star, which a single match against the empty name does not.
\<close>

theorem valid_pattern_never_fails:
  assumes "is_valid_go_pattern pat"
  shows "\<exists>matched. go_match pat name = Some matched"
  using go_match_valid [OF assms] by blast

theorem valid_pattern_never_fails_witness:
  "(\<exists>matched. go_match ''a*b'' ''ab'' = Some matched) \<and> \<not> is_valid_go_pattern ''a*[''
    \<and> go_match ''a*['' [] = Some False"
proof -
  have "is_valid_go_pattern ''a*b''"
    by (simp add: is_valid_go_pattern.simps go_match.simps scan_chunk_def eat_byte_def)
  moreover have "\<not> is_valid_go_pattern ''a*[''"
    by (simp add: is_valid_go_pattern.simps go_match.simps scan_chunk_def eat_byte_def class_negated_def
        class_ranges.simps get_esc_def)
  moreover have "go_match ''a*['' [] = Some False"
    by (simp add: go_match.simps scan_chunk_def eat_byte_def)
  ultimately show ?thesis using valid_pattern_never_fails by blast
qed

section \<open>Literal names\<close>

text \<open>A literal glob read back: a one-byte class or an escaped byte stands for that byte.\<close>

fun read_rg_literal :: "string \<Rightarrow> string" where
  "read_rg_literal [] = []"
| "read_rg_literal (c # cs) =
     (if c = lbracket then
        (case cs of
           d # e # f # rest \<Rightarrow> if d = backslash then d # read_rg_literal rest else d # read_rg_literal (f # rest)
         | d # _ \<Rightarrow> [d]
         | [] \<Rightarrow> [])
      else if c = backslash then (case cs of d # rest \<Rightarrow> d # read_rg_literal rest | [] \<Rightarrow> [])
      else c # read_rg_literal cs)"

lemma read_escape_char: "read_rg_literal (escape_rg_char c @ g) = c # read_rg_literal g"
  by (cases g) (auto simp: escape_rg_char_def)

lemma read_escape: "read_rg_literal (escape_rg_literal s @ g) = s @ read_rg_literal g"
  by (induction s) (simp_all add: escape_rg_literal_def read_escape_char)

lemma escape_char_last: "last (escape_rg_char c) \<noteq> backslash" "escape_rg_char c \<noteq> []"
  by (auto simp: escape_rg_char_def)

lemma escape_literal_last: "s = [] \<or> last (escape_rg_literal s) \<noteq> backslash"
proof (induction s rule: rev_induct)
  case (snoc c s)
  then show ?case using escape_char_last [of c] by (simp add: escape_rg_literal_def)
qed simp

lemma trailing_backslashes_zero: "g = [] \<or> last g \<noteq> backslash \<Longrightarrow> trailing_backslashes g = 0"
  by (cases g rule: rev_cases) (auto simp: trailing_backslashes_def)

lemma trailing_backslashes_snoc: "trailing_backslashes (g @ [backslash]) = Suc (trailing_backslashes g)"
  by (simp add: trailing_backslashes_def)

lemma fix_escape_id: "fix_rg_trailing_escape (escape_rg_literal s) = escape_rg_literal s"
proof -
  have "trailing_backslashes (escape_rg_literal s) = 0"
    using escape_literal_last [of s]
    by (intro trailing_backslashes_zero) (auto simp: escape_rg_literal_def)
  then show ?thesis by (simp add: fix_rg_trailing_escape_def)
qed

text \<open>
  The glob of a literal name reads back as that name, so two names
  never share a glob, and no backslash ends it: the \<^verbatim>\<open>/\<close> the caller appends is never swallowed, and
  \<^verbatim>\<open>fixRgTrailingEscape\<close> has nothing to repair on it.  On any other glob that function leaves a run
  of backslashes at the end that is empty or odd.
\<close>

theorem literal_glob_roundtrip:
  "read_rg_literal (fix_rg_trailing_escape (escape_rg_literal s)) = s
   \<and> trailing_backslashes (fix_rg_trailing_escape (escape_rg_literal s)) = 0
   \<and> (trailing_backslashes (fix_rg_trailing_escape g) = 0 \<or> trailing_backslashes (fix_rg_trailing_escape g) mod 2 = 1)"
proof (intro conjI)
  show "read_rg_literal (fix_rg_trailing_escape (escape_rg_literal s)) = s"
    using read_escape [of s "[]"] by (simp add: fix_escape_id)
  show "trailing_backslashes (fix_rg_trailing_escape (escape_rg_literal s)) = 0"
    unfolding fix_escape_id using escape_literal_last [of s]
    by (intro trailing_backslashes_zero) (auto simp: escape_rg_literal_def)
  show "trailing_backslashes (fix_rg_trailing_escape g) = 0 \<or> trailing_backslashes (fix_rg_trailing_escape g) mod 2 = 1"
    by (cases "0 < trailing_backslashes g \<and> even (trailing_backslashes g)")
      (auto simp: fix_rg_trailing_escape_def Let_def trailing_backslashes_snoc even_iff_mod_2_eq_zero mod_Suc)
qed

section \<open>Ranges\<close>

definition denotes :: "nat list \<Rightarrow> (nat \<times> nat) list \<Rightarrow> nat \<Rightarrow> bool" where
  "denotes singles ranges r \<longleftrightarrow> r \<in> set singles \<or> in_ranges r ranges"

lemma in_ranges_simps [simp]:
  "in_ranges r [] = False" "in_ranges r ((lo, hi) # rs) = ((lo \<le> r \<and> r \<le> hi) \<or> in_ranges r rs)"
  "in_ranges r (rs @ rs') = (in_ranges r rs \<or> in_ranges r rs')"
  by (simp_all add: in_ranges_def)

lemma set_add_single [simp]: "set (add_single r ss) = insert r (set ss)"
  by (auto simp: add_single_def)

lemma distinct_add_single [simp]: "distinct ss \<Longrightarrow> distinct (add_single r ss)"
  by (auto simp: add_single_def)

lemma peel_range_spec:
  assumes "peel_range singles lo hi = (singles', lo', hi')" "lo \<le> hi"
  shows "lo' \<le> hi' \<and> (\<forall>r. (r \<in> set singles' \<or> lo' \<le> r \<and> r \<le> hi') \<longleftrightarrow> (r \<in> set singles \<or> lo \<le> r \<and> r \<le> hi))
    \<and> (lo' < hi' \<longrightarrow> \<not> endpoint_rune lo' \<and> \<not> endpoint_rune hi') \<and> (distinct singles \<longrightarrow> distinct singles')"
  using assms
proof (induction singles lo hi rule: peel_range.induct)
  case (1 singles lo hi)
  note eq = peel_range.simps [of singles lo hi]
  consider "lo < hi \<and> endpoint_rune lo" | "\<not> (lo < hi \<and> endpoint_rune lo)" "lo < hi \<and> endpoint_rune hi"
    | "\<not> (lo < hi \<and> endpoint_rune lo)" "\<not> (lo < hi \<and> endpoint_rune hi)" by blast
  then show ?case
  proof cases
    case c: 1
    then have "peel_range (add_single lo singles) (lo + 1) hi = (singles', lo', hi')"
      using "1.prems"(1) eq by simp
    note ih = "1.IH"(1) [OF c this]
    have "r \<in> set singles \<or> lo \<le> r \<and> r \<le> hi \<longleftrightarrow> r \<in> set (add_single lo singles) \<or> lo + 1 \<le> r \<and> r \<le> hi" for r
      using c by auto
    then show ?thesis using ih c by simp
  next
    case c: 2
    then have "peel_range (add_single hi singles) lo (hi - 1) = (singles', lo', hi')"
      using "1.prems"(1) eq by simp
    note ih = "1.IH"(2) [OF c this]
    have "r \<in> set singles \<or> lo \<le> r \<and> r \<le> hi \<longleftrightarrow> r \<in> set (add_single hi singles) \<or> lo \<le> r \<and> r \<le> hi - 1" for r
      using c by auto
    moreover have "lo \<le> hi - 1" using c by linarith
    ultimately show ?thesis using ih c by simp
  next
    case c: 3
    then show ?thesis using "1.prems" eq by auto
  qed
qed

lemma normalize_ranges_spec:
  assumes "list_all (\<lambda>(lo, hi). lo \<le> hi) ranges" "normalize_rg_range_endpoints singles ranges = (singles', ranges')"
  shows "denotes singles' ranges' r = denotes singles ranges r
    \<and> list_all (\<lambda>(lo, hi). lo < hi \<and> \<not> endpoint_rune lo \<and> \<not> endpoint_rune hi) ranges'
    \<and> (distinct singles \<longrightarrow> distinct singles')"
  using assms
proof (induction singles ranges arbitrary: singles' ranges' rule: normalize_rg_range_endpoints.induct)
  case (2 singles lo0 hi0 rgs)
  obtain s1 lo hi where p: "peel_range singles lo0 hi0 = (s1, lo, hi)" by (cases "peel_range singles lo0 hi0") auto
  note sp = peel_range_spec [OF p]
  have le: "lo0 \<le> hi0" "list_all (\<lambda>(lo, hi). lo \<le> hi) rgs" using "2.prems"(1) by auto
  show ?case
  proof (cases "lo = hi")
    case True
    have n: "normalize_rg_range_endpoints (add_single lo s1) rgs = (singles', ranges')"
      using "2.prems"(2) p True by simp
    then show ?thesis
      using "2.IH"(2) [OF p [symmetric] refl refl _ True le(2) n] sp [OF le(1)] True
      by (auto simp: denotes_def)
  next
    case False
    then have lt: "lo < hi" using sp [OF le(1)] by auto
    obtain s2 out where n: "normalize_rg_range_endpoints s1 rgs = (s2, out)" by fastforce
    then have "singles' = s2" "ranges' = (lo, hi) # out"
      using "2.prems"(2) p lt False by auto
    then show ?thesis
      using "2.IH"(3) [OF p [symmetric] refl refl _ False le(2) n] sp [OF le(1)] lt
      by (auto simp: denotes_def)
  qed
qed simp

section \<open>Parsing a class\<close>

lemma get_esc_go_class_rune:
  assumes "get_esc chunk = Some (r, rest)"
  shows "go_class_rune chunk = (r, rest)" "chunk \<noteq> []" "hd chunk \<noteq> rbracket" "hd chunk \<noteq> CHR ''-''"
    "\<not> (hd chunk = backslash \<and> tl chunk = [])"
proof -
  obtain c cs where c: "chunk = c # cs" using assms by (auto simp: get_esc_def split: list.splits)
  then show "chunk \<noteq> []" "hd chunk \<noteq> rbracket" "hd chunk \<noteq> CHR ''-''" "\<not> (hd chunk = backslash \<and> tl chunk = [])"
    using assms by (auto simp: get_esc_def)
  show "go_class_rune chunk = (r, rest)"
    using assms c by (auto simp: get_esc_def go_class_rune_def Let_def split_def split: if_splits)
qed

definition class_inv :: "bool \<Rightarrow> nat list \<times> (nat \<times> nat) list \<Rightarrow> bool" where
  "class_inv allow_slash acc \<longleftrightarrow>
     list_all (\<lambda>(lo, hi). lo \<le> hi) (snd acc) \<and> distinct (fst acc)
     \<and> (allow_slash \<or> \<not> denotes (fst acc) (snd acc) slash_rune)"

text \<open>The runes whose membership the translation preserves.\<close>

definition class_rune :: "bool \<Rightarrow> nat \<Rightarrow> bool" where
  "class_rune allow_slash r \<longleftrightarrow> r \<noteq> rune_error \<and> (allow_slash \<or> r \<noteq> slash_rune)"

lemma add_class_single_spec:
  "class_inv a acc \<Longrightarrow> class_inv a (add_class_single a lo (fst acc), snd acc)"
  "class_rune a r \<Longrightarrow> denotes (add_class_single a lo (fst acc)) (snd acc) r \<longleftrightarrow> denotes (fst acc) (snd acc) r \<or> r = lo"
  by (auto simp: class_inv_def class_rune_def add_class_single_def denotes_def)

lemma add_class_range_spec:
  assumes "class_inv a acc"
  shows "class_inv a (add_class_range a lo hi acc)"
    and "class_rune a r \<Longrightarrow> denotes (fst (add_class_range a lo hi acc)) (snd (add_class_range a lo hi acc)) r
      \<longleftrightarrow> denotes (fst acc) (snd acc) r \<or> (lo \<le> r \<and> r \<le> hi)"
proof -
  obtain ss rs where acc: "acc = (ss, rs)" by (cases acc)
  consider "hi < lo" | "lo = hi" | "lo < hi" "\<not> a" "lo \<le> slash_rune" "slash_rune \<le> hi"
    | "lo < hi" "a \<or> slash_rune < lo \<or> hi < slash_rune" by linarith
  then have "class_inv a (add_class_range a lo hi acc) \<and> (class_rune a r \<longrightarrow>
      denotes (fst (add_class_range a lo hi acc)) (snd (add_class_range a lo hi acc)) r
      = (denotes (fst acc) (snd acc) r \<or> (lo \<le> r \<and> r \<le> hi)))"
  proof cases
    case 1
    then show ?thesis using assms by (auto simp: add_class_range_def acc)
  next
    case 2
    then have "add_class_range a lo hi acc = (add_class_single a lo (fst acc), snd acc)"
      by (simp add: add_class_range_def acc)
    then show ?thesis
      using add_class_single_spec(1) [OF assms, of lo] add_class_single_spec(2) [of a r lo acc] 2
      by (simp only: fst_conv snd_conv) auto
  next
    case 3
    then have "add_class_range a lo hi acc = (ss, rs @ (if lo \<le> 46 then [(lo, 46)] else [])
        @ (if 48 \<le> hi then [(48, hi)] else []))" (is "_ = (_, _ @ ?l @ ?r)")
      by (simp add: add_class_range_def acc)
    moreover define xs where "xs = ?l @ ?r"
    ultimately have e: "add_class_range a lo hi acc = (ss, rs @ xs)" by simp
    have i: "in_ranges x xs \<longleftrightarrow> lo \<le> x \<and> x \<le> hi \<and> x \<noteq> slash_rune" for x
      using 3 unfolding xs_def by (auto split: if_split)
    have ok: "list_all (\<lambda>(lo, hi). lo \<le> hi) xs" unfolding xs_def by simp
    show ?thesis using assms 3(2) i ok unfolding e unfolding acc class_inv_def class_rune_def denotes_def
      by simp
  next
    case 4
    then have e: "add_class_range a lo hi acc = (ss, rs @ [(lo, hi)])"
      by (auto simp: add_class_range_def acc)
    show ?thesis using assms 4 unfolding e unfolding acc class_inv_def denotes_def by auto
  qed
  then show "class_inv a (add_class_range a lo hi acc)"
    and "class_rune a r \<Longrightarrow> denotes (fst (add_class_range a lo hi acc)) (snd (add_class_range a lo hi acc)) r
      \<longleftrightarrow> denotes (fst acc) (snd acc) r \<or> (lo \<le> r \<and> r \<le> hi)" by blast+
qed

lemma parse_class_members_spec:
  assumes "class_ranges k body = Some (rs, rest)" "class_inv a acc"
  shows "snd (parse_class_members a acc body) = rest \<and> class_inv a (fst (parse_class_members a acc body))
    \<and> (\<forall>r. class_rune a r \<longrightarrow>
         denotes (fst (fst (parse_class_members a acc body))) (snd (fst (parse_class_members a acc body))) r
         = (denotes (fst acc) (snd acc) r \<or> in_ranges r rs))"
  using assms
proof (induction k body arbitrary: rs rest acc rule: class_ranges.induct)
  case (1 k chunk)
  note parse = parse_class_members.simps [of a acc chunk]
  show ?case
  proof (cases "chunk \<noteq> [] \<and> hd chunk = rbracket \<and> 0 < k")
    case True
    then have "rs = []" "rest = tl chunk" "parse_class_members a acc chunk = (acc, tl chunk)"
      using "1.prems"(1) parse by (auto simp: class_ranges.simps [of k chunk])
    then show ?thesis using "1.prems"(2) by simp
  next
    case close: False
    then obtain lo c1 where g: "get_esc chunk = Some (lo, c1)"
      using "1.prems"(1) by (auto simp: class_ranges.simps [of k chunk] split: option.splits)
    note g' = get_esc_go_class_rune [OF g]
    show ?thesis
    proof (cases "hd c1 = CHR ''-''")
      case True
      then obtain hi c2 rs' where h: "get_esc (tl c1) = Some (hi, c2)"
        and r: "class_ranges (Suc k) c2 = Some (rs', rest)" "rs = (lo, hi) # rs'"
        using "1.prems"(1) close g by (auto simp: class_ranges.simps [of k chunk] split: option.splits)
      note h' = get_esc_go_class_rune [OF h]
      have "range_follows c1" using True h' by (cases c1) (auto simp: range_follows_def)
      then have p: "parse_class_members a acc chunk = parse_class_members a (add_class_range a lo hi acc) c2"
        using parse g' h'(1) by (simp add: Let_def)
      show ?thesis
        using "1.IH"(1) [OF close g refl True h refl r(1) add_class_range_spec(1) [OF "1.prems"(2)]]
          add_class_range_spec(2) [OF "1.prems"(2), of _ lo hi] r(2) unfolding p by auto
    next
      case False
      then obtain rs' where r: "class_ranges (Suc k) c1 = Some (rs', rest)" "rs = (lo, lo) # rs'"
        using "1.prems"(1) close g by (auto simp: class_ranges.simps [of k chunk])
      have "\<not> range_follows c1" using False by (simp add: range_follows_def)
      then have p: "parse_class_members a acc chunk
          = parse_class_members a (add_class_single a lo (fst acc), snd acc) c1"
        using parse g' by (simp add: Let_def)
      show ?thesis
        using "1.IH"(2) [OF close g refl False r(1) add_class_single_spec(1) [OF "1.prems"(2)]]
          add_class_single_spec(2) [of a _ lo acc] r(2) unfolding p by auto
    qed
  qed
qed

lemma parse_go_class_spec:
  assumes "class_ranges 0 (snd (class_negated cs)) = Some (rs, rest)"
    and "parse_go_class cs a = (neg, singles, ranges, rest')"
  shows "neg = fst (class_negated cs) \<and> rest' = rest \<and> class_inv a (singles, ranges)
    \<and> (\<forall>r. class_rune a r \<longrightarrow> denotes singles ranges r = in_ranges r rs)"
proof -
  have "class_inv a ([], [])" by (simp add: class_inv_def denotes_def)
  from parse_class_members_spec [OF assms(1) this] assms(2) show ?thesis
    by (auto simp: parse_go_class_def Let_def split_def denotes_def)
qed

text \<open>
  A character class keeps its meaning on the way to the search tool:
  for a class the matcher accepts, the members that \<^verbatim>\<open>parseGoClass\<close> and
  \<^verbatim>\<open>normalizeRgRangeEndpoints\<close> hand to the emitter are exactly the runes that \<^verbatim>\<open>matchChunk\<close> tests
  for, U+FFFD aside, and the separator exactly when the rule is matched against paths.  The
  ranges are strictly increasing with no bracket, dash, bang or caret at an end, and no single
  is repeated.
\<close>

theorem go_class_translation:
  assumes "class_ranges 0 (snd (class_negated cs)) = Some (rs, rest)"
    and "parse_go_class cs allow_slash = (neg, singles0, ranges0, rest')"
    and "normalize_rg_range_endpoints singles0 ranges0 = (singles, ranges)"
  shows "neg = fst (class_negated cs) \<and> rest' = rest
    \<and> (r \<noteq> rune_error \<longrightarrow> denotes singles ranges r = (in_ranges r rs \<and> (allow_slash \<or> r \<noteq> slash_rune)))
    \<and> list_all (\<lambda>(lo, hi). lo < hi \<and> \<not> endpoint_rune lo \<and> \<not> endpoint_rune hi) ranges
    \<and> distinct singles"
proof -
  note p = parse_go_class_spec [OF assms(1,2)]
  have "list_all (\<lambda>(lo, hi). lo \<le> hi) ranges0" using p by (auto simp: class_inv_def list_all_iff)
  note n = normalize_ranges_spec [OF this assms(3)]
  show ?thesis using p n by (auto simp: class_inv_def class_rune_def)
qed

theorem go_class_translation_witness:
  "denotes [45, 46] [(48, 57)] 50 = in_ranges 50 [(45, 57)]"
proof -
  let ?cs = "[backslash, CHR ''-'', CHR ''-'', CHR ''9'', rbracket]"
  have "class_ranges 0 (snd (class_negated ?cs)) = Some ([(45, 57)], [])"
    by (simp add: class_ranges.simps get_esc_def class_negated_def decode_rune_def rune_error_def)
  moreover have "parse_go_class ?cs False = (False, [], [(45, 46), (48, 57)], [])"
    by (simp add: parse_go_class_def class_negated_def parse_class_members.simps go_class_rune_def
        decode_rune_def range_follows_def add_class_range_def)
  moreover have "normalize_rg_range_endpoints [] [(45, 46), (48, 57)] = ([45, 46], [(48, 57)])"
    by (simp add: peel_range.simps endpoint_rune_def add_single_def)
  ultimately have "50 \<noteq> rune_error \<longrightarrow> denotes [45, 46] [(48, 57)] 50 = (in_ranges 50 [(45, 57)] \<and> (False \<or> 50 \<noteq> slash_rune))"
    using go_class_translation [of ?cs "[(45, 57)]" "[]" False False "[]" "[(45, 46), (48, 57)]" "[]" "[45, 46]" "[(48, 57)]" 50]
    by blast
  then show ?thesis by (simp add: rune_error_def)
qed

section \<open>Emitting a class\<close>

lemma denotes_empty: "list_all (\<lambda>(lo, hi). lo \<le> hi) ranges \<Longrightarrow> (\<forall>r. \<not> denotes singles ranges r) \<longleftrightarrow> singles = [] \<and> ranges = []"
proof (cases ranges)
  case (Cons p ps)
  assume "list_all (\<lambda>(lo, hi). lo \<le> hi) ranges"
  then have "denotes singles ranges (fst p)" using Cons by (cases p) (auto simp: denotes_def)
  then show ?thesis using Cons by auto
next
  case Nil
  then show ?thesis by (cases singles) (auto simp: denotes_def)
qed

lemma encode_rune_hd_byte:
  "128 \<le> r \<Longrightarrow> (192::nat) \<le> byte_of (hd (encode_rune r))"
proof -
  define q where "q = (if (55296 \<le> r \<and> r \<le> 57343) \<or> 1114111 < r then rune_error else r)"
  assume "128 \<le> r"
  then have q: "128 \<le> q" "q \<le> 1114111" by (auto simp: q_def rune_error_def)
  have d: "q < 2048 \<Longrightarrow> q div 64 < 32" "q < 65536 \<Longrightarrow> q div 4096 < 16" "q div 262144 < 5"
    using q(2) by (simp_all add: div_less_iff_less_mult)
  consider "q < 2048" "q div 64 < 32" | "\<not> q < 2048" "q < 65536" "q div 4096 < 16"
    | "\<not> q < 2048" "\<not> q < 65536" "q div 262144 < 5"
    using d by blast
  then show ?thesis
    unfolding encode_rune_def q_def [symmetric] Let_def using q(1) by cases simp_all
qed

lemma encode_rune_hd:
  "encode_rune r \<noteq> [] \<and> (hd (encode_rune r) = CHR ''!'' \<longrightarrow> r = bang_rune) \<and> (hd (encode_rune r) = CHR ''^'' \<longrightarrow> r = caret_rune)"
proof (cases "r < 128")
  case True
  then have e: "encode_rune r = [char_of r]" by (simp add: encode_rune_def)
  have "byte_of (char_of r :: char) = r" using True by simp
  moreover have "byte_of (CHR ''!'') = (33::nat)" "byte_of (CHR ''^'') = (94::nat)" by simp_all
  ultimately show ?thesis unfolding e by (metis list.sel(1) list.distinct(1))
next
  case False
  have "byte_of (CHR ''!'') = (33::nat)" "byte_of (CHR ''^'') = (94::nat)" by simp_all
  then have "hd (encode_rune r) \<noteq> CHR ''!''" "hd (encode_rune r) \<noteq> CHR ''^''"
    using encode_rune_hd_byte [of r] False by auto
  moreover have "encode_rune r \<noteq> []" by (simp add: encode_rune_def Let_def)
  ultimately show ?thesis by simp
qed

lemma normalize_only_ends:
  assumes "list_all (\<lambda>(lo, hi). lo \<le> hi) ranges0" "normalize_rg_range_endpoints singles0 ranges0 = (singles, ranges)"
  shows "(singles = [] \<and> ranges = []) = (\<forall>r. \<not> denotes singles0 ranges0 r)"
proof -
  note n = normalize_ranges_spec [OF assms]
  have "list_all (\<lambda>(lo, hi). lo \<le> hi) ranges" using n [of undefined] by (auto simp: list_all_iff)
  from denotes_empty [OF this, of singles] n show ?thesis by blast
qed

text \<open>The first byte written after the bracket of a positive class.\<close>

lemma write_rg_class_first:
  assumes "\<not> (ranges = [] \<and> only_bang_caret singles)"
    and "list_all (\<lambda>(lo, hi). \<not> endpoint_rune lo) ranges"
  shows "\<exists>c g. write_rg_class False singles ranges = lbracket # c # g \<and> c \<noteq> CHR ''!'' \<and> c \<noteq> CHR ''^''"
proof -
  let ?os = "filter (\<lambda>s. \<not> endpoint_rune s) singles"
  consider "rbracket_rune \<in> set singles" | "rbracket_rune \<notin> set singles" "class_minus_first False singles ranges"
    | s t where "rbracket_rune \<notin> set singles" "\<not> class_minus_first False singles ranges" "?os = s # t"
    | "rbracket_rune \<notin> set singles" "\<not> class_minus_first False singles ranges" "?os = []"
    by (cases ?os) auto
  then show ?thesis
  proof cases
    case (3 s t)
    then have "\<not> endpoint_rune s" by (metis filter_eq_ConsD)
    then have "hd (encode_rune s) \<noteq> CHR ''!''" "hd (encode_rune s) \<noteq> CHR ''^''" "encode_rune s \<noteq> []"
      using encode_rune_hd [of s] by (auto simp: endpoint_rune_def)
    then show ?thesis using 3 by (cases "encode_rune s") (auto simp: write_rg_class_def)
  next
    case 4
    have "ranges \<noteq> []"
    proof
      assume r: "ranges = []"
      have all: "list_all endpoint_rune singles" using 4(3) by (auto simp: filter_empty_conv list_all_iff)
      then have "minus_rune \<notin> set singles" using 4(1,2) r by (simp add: class_minus_first_def)
      then have "only_bang_caret singles"
        using all 4(1) by (auto simp: only_bang_caret_def list_all_iff endpoint_rune_def)
      then show False using assms(1) r by simp
    qed
    then obtain lo hi rs where r: "ranges = (lo, hi) # rs" by (cases ranges) auto
    then have "\<not> endpoint_rune lo" using assms(2) by simp
    then have "hd (encode_rune lo) \<noteq> CHR ''!''" "hd (encode_rune lo) \<noteq> CHR ''^''" "encode_rune lo \<noteq> []"
      using encode_rune_hd [of lo] by (auto simp: endpoint_rune_def)
    then show ?thesis using 4 r by (cases "encode_rune lo") (auto simp: write_rg_class_def)
  qed (simp_all add: write_rg_class_def Let_def)
qed

text \<open>
  \<^verbatim>\<open>emitRgClass\<close> gives up exactly on the classes without a member, negated
  or not, so a satisfiable class is never dropped and an empty one never reaches the search tool
  as class syntax.  A positive class it does write never has a bang or a caret right behind its
  bracket, where the tool would read a negation.
\<close>

theorem emit_class_exact:
  assumes "list_all (\<lambda>(lo, hi). lo \<le> hi) ranges0"
  shows "(emit_rg_class neg singles0 ranges0 = None) = (\<forall>r. \<not> denotes singles0 ranges0 r)
    \<and> (emit_rg_class False singles0 ranges0 = Some (lbracket # g) \<longrightarrow> g \<noteq> [] \<and> hd g \<noteq> CHR ''!'' \<and> hd g \<noteq> CHR ''^'')"
proof -
  obtain singles ranges where n: "normalize_rg_range_endpoints singles0 ranges0 = (singles, ranges)" by fastforce
  note emp = normalize_only_ends [OF assms n]
  have "only_bang_caret singles \<and> bang_rune \<notin> set singles \<and> caret_rune \<notin> set singles \<longleftrightarrow> singles = []"
    by (cases singles) (auto simp: only_bang_caret_def)
  then have "(emit_rg_class neg singles0 ranges0 = None) \<longleftrightarrow> singles = [] \<and> ranges = []"
    by (auto simp: emit_rg_class_def n Let_def split: if_splits)
  moreover have "g \<noteq> [] \<and> hd g \<noteq> CHR ''!'' \<and> hd g \<noteq> CHR ''^''" if e: "emit_rg_class False singles0 ranges0 = Some (lbracket # g)"
  proof -
    have "\<not> (ranges = [] \<and> only_bang_caret singles)" and w: "write_rg_class False singles ranges = lbracket # g"
      using e by (auto simp: emit_rg_class_def n Let_def split: if_splits)
    moreover have "list_all (\<lambda>(lo, hi). \<not> endpoint_rune lo) ranges"
      using normalize_ranges_spec [OF assms n] by (auto simp: list_all_iff)
    ultimately obtain c h where "write_rg_class False singles ranges = lbracket # c # h" "c \<noteq> CHR ''!''" "c \<noteq> CHR ''^''"
      using write_rg_class_first by blast
    then show ?thesis using w by auto
  qed
  ultimately show ?thesis using emp by simp
qed

lemma encode_a: "encode_rune 97 = ''a''"
  by (simp add: encode_rune_def char_of_def bit_Suc_0_iff)

theorem emit_class_exact_witness:
  "emit_rg_class True [] [] = None \<and> emit_rg_class False [bang_rune, 97] [] = Some ''[a!]''"
proof -
  have "emit_rg_class True [] [] = None" using emit_class_exact [of "[]" True "[]"] by (simp add: denotes_def)
  moreover have "emit_rg_class False [bang_rune, 97] [] = Some ''[a!]''"
    by (simp add: emit_rg_class_def only_bang_caret_def write_rg_class_def class_minus_first_def endpoint_rune_def
        encode_a)
  ultimately show ?thesis by simp
qed

section \<open>Rules without wildcards\<close>

definition rg_meta :: "char set" where
  "rg_meta = glob_meta \<union> {rbracket, CHR ''{'', CHR ''}''}"

lemma translate_rg_plain: "set p \<inter> rg_meta = {} \<Longrightarrow> translate_rg a before p = Some p"
proof (induction p arbitrary: before)
  case (Cons c cs)
  then have "c \<noteq> backslash" "c \<noteq> star" "c \<noteq> lbracket" "\<not> (c = CHR ''{'' \<or> c = CHR ''}'')" "set cs \<inter> rg_meta = {}"
    by (auto simp: rg_meta_def glob_meta_def)
  then show ?case using Cons.IH by (simp del: disj_not1)
qed simp

lemma escape_rg_plain: "set p \<inter> rg_meta = {} \<Longrightarrow> escape_rg_literal p = p"
proof (induction p)
  case (Cons c cs)
  then have "escape_rg_char c = [c]" by (auto simp: escape_rg_char_def rg_meta_def glob_meta_def)
  then show ?case using Cons by (simp add: escape_rg_literal_def)
qed (simp add: escape_rg_literal_def)

lemma valid_plain: "set p \<inter> glob_meta = {} \<Longrightarrow> is_valid_go_pattern p"
proof (cases "p = []")
  case False
  assume m: "set p \<inter> glob_meta = {}"
  note sc = scan_chunk_literal [OF m False]
  then have "first_chunk p = p" by (simp add: first_chunk_def)
  then show ?thesis
    using valid_step [OF False] False sc match_chunk_literal [OF m, of "Some []"] by (simp add: is_valid_go_pattern.simps [of "[]"])
qed (simp add: is_valid_go_pattern.simps)

text \<open>
  A rule the matcher can only read literally, because it has no
  metacharacter or because it is not a well-formed pattern, becomes exactly one glob, which reads
  back as the rule's own name: a malformed rule is never handed to the search tool as syntax and
  never lost.  The glob is anchored at the search root exactly when the walker compares the rule
  with the path below the workdir.
\<close>

theorem literal_rule_glob:
  assumes "normalize_exclude_rule rule = Some (pat, anchored)"
    and "set pat \<inter> rg_meta = {} \<or> \<not> is_valid_go_pattern pat"
  shows "\<exists>g. rg_exclude_globs rule = [(if anchored \<or> slash \<in> set pat then [slash] else []) @ g]
    \<and> read_rg_literal g = pat \<and> g = escape_rg_literal pat"
proof -
  have g: "rg_safe_glob pat a = Some (escape_rg_literal pat)" for a
    using assms(2) by (auto simp: rg_safe_glob_def translate_rg_glob_def translate_rg_plain escape_rg_plain fix_escape_id)
  have no_lit: "\<not> (is_valid_go_pattern pat \<and> go_match pat pat = Some False)"
    using assms(2) go_match_literal [of pat pat] by (auto simp: rg_meta_def)
  have "slash \<notin> set pat \<Longrightarrow> slash \<notin> set (escape_rg_literal pat)"
    by (auto simp: escape_rg_literal_def escape_rg_char_def split: if_splits)
  then have "rg_exclude_globs rule = [(if anchored \<or> slash \<in> set pat then [slash] else []) @ escape_rg_literal pat]"
    using assms(1) g no_lit by (auto simp: rg_exclude_globs_def Let_def)
  then show ?thesis using read_escape [of pat "[]"] by simp
qed

theorem literal_rule_glob_witness:
  "(\<exists>g. rg_exclude_globs ''data['' = [g] \<and> read_rg_literal g = ''data['' \<and> g = escape_rg_literal ''data['')"
proof -
  have "normalize_exclude_rule ''data['' = Some (''data['', False)"
    by (simp add: normalize_exclude_rule_def str_eval)
  moreover have "\<not> is_valid_go_pattern ''data[''"
    by (simp add: is_valid_go_pattern.simps go_match.simps scan_chunk_def eat_byte_def class_negated_def
        class_ranges.simps get_esc_def)
  ultimately show ?thesis using literal_rule_glob [of "''data[''" "''data[''" False] by simp
qed

section \<open>A class of U+FFFD\<close>

text \<open>
  The parser drops U+FFFD from a class, the rune that undecodable bytes stand for as well.  A
  rule whose only class names it is a valid pattern that the walker honours, but no glob is
  emitted for it, not even the literal one, since the pattern matches its own text.
\<close>

definition fffd_rule :: string where
  "fffd_rule = [star, lbracket, CHR 0xEF, CHR 0xBF, CHR 0xBD, rbracket, star]"

lemma fffd_rule_lost:
  "exclude_rule_hits (''a'' @ [CHR 0xFF]) None fffd_rule \<and> rg_exclude_globs fffd_rule = []"
proof -
  have n: "normalize_exclude_rule fffd_rule = Some (fffd_rule, False)"
    by (simp add: normalize_exclude_rule_def fffd_rule_def trim_space_def rune_segs.simps decode_rune_def
        byte_in_def is_space_def rune_error_def str_eval)
  have c: "class_ranges 0 [CHR 0xEF, CHR 0xBF, CHR 0xBD, rbracket] = Some ([(65533, 65533)], [])"
    by (simp add: class_ranges.simps get_esc_def decode_rune_def byte_in_def rune_error_def)
  have m: "go_match fffd_rule (''a'' @ [CHR 0xFF]) = Some True" "go_match fffd_rule fffd_rule = Some True"
    by (simp_all add: fffd_rule_def go_match.simps scan_chunk_def class_negated_def c eat_class_def
        decode_rune_def byte_in_def rune_error_def)
  have v: "is_valid_go_pattern fffd_rule"
    by (simp add: fffd_rule_def is_valid_go_pattern.simps go_match.simps scan_chunk_def class_negated_def c eat_class_def)
  have "translate_rg_glob fffd_rule False = None"
    by (simp add: fffd_rule_def translate_rg_glob_def parse_go_class_def class_negated_def
        parse_class_members.simps go_class_rune_def range_follows_def decode_rune_def byte_in_def add_class_single_def
        translate_class_def emit_rg_class_def only_bang_caret_def rune_error_def)
  then have "rg_exclude_globs fffd_rule = []"
    using n m(2) v by (simp add: rg_exclude_globs_def rg_safe_glob_def) (simp add: fffd_rule_def)
  moreover have "slash \<notin> set fffd_rule" by (simp add: fffd_rule_def)
  ultimately show ?thesis using n m(1) by (simp add: exclude_rule_hits_def)
qed

end
