(* ===== verification/Reach.thy ===== *)
theory Reach
  imports Prelude
begin

text \<open>
  Nodes within a number of steps of a start set: the specification that the bounded searches of
  the tools (impact, affected tests) are measured against.
\<close>

primrec within :: "('a \<Rightarrow> 'a set) \<Rightarrow> 'a set \<Rightarrow> nat \<Rightarrow> 'a set" where
  "within step S 0 = {}"
| "within step S (Suc n) = S \<union> (\<Union>x\<in>within step S n. step x)"

text \<open>It is what the powers of the step relation reach.\<close>

lemma within_reach: "x \<in> within step S n \<longleftrightarrow> (\<exists>k<n. \<exists>s\<in>S. (s, x) \<in> {(a, b). b \<in> step a} ^^ k)"
proof (induction n arbitrary: x)
  case (Suc n)
  let ?R = "{(a, b). b \<in> step a}"
  have "x \<in> within step S (Suc n) \<longleftrightarrow> x \<in> S \<or> (\<exists>k<n. \<exists>s\<in>S. \<exists>y. (s, y) \<in> ?R ^^ k \<and> (y, x) \<in> ?R)"
    using Suc.IH by auto
  also have "\<dots> \<longleftrightarrow> x \<in> S \<or> (\<exists>k<n. \<exists>s\<in>S. (s, x) \<in> ?R ^^ Suc k)"
    by (simp add: relcomp_unfold)
  also have "\<dots> \<longleftrightarrow> (\<exists>k<Suc n. \<exists>s\<in>S. (s, x) \<in> ?R ^^ k)"
    unfolding Ex_less_Suc2 by auto
  finally show ?case .
qed simp

lemma within_mono_Suc: "within step S n \<subseteq> within step S (Suc n)"
proof (induction n)
  case (Suc n)
  then have "(\<Union>x\<in>within step S n. step x) \<subseteq> (\<Union>x\<in>within step S (Suc n). step x)" by (rule UN_mono) simp
  then show ?case by auto
qed simp

lemma within_mono: "m \<le> n \<Longrightarrow> within step S m \<subseteq> within step S n"
  by (rule lift_Suc_mono_le [of "within step S"]) (rule within_mono_Suc)

lemma finite_within: "finite S \<Longrightarrow> (\<And>x. finite (step x)) \<Longrightarrow> finite (within step S n)"
  by (induction n) auto

text \<open>One more level only expands what the last level added.\<close>

lemma within_level:
  assumes "within step S (Suc d) = X \<union> within step S d"
  shows "within step S (Suc (Suc d)) = within step S (Suc d) \<union> (\<Union>i\<in>X. step i)"
proof -
  have "within step S (Suc (Suc d)) = S \<union> (\<Union>i\<in>X \<union> within step S d. step i)"
    unfolding assms [symmetric] by (rule within.simps)
  also have "\<dots> = (S \<union> (\<Union>i\<in>within step S d. step i)) \<union> (\<Union>i\<in>X. step i)" by blast
  finally show ?thesis by simp
qed

end
