(* ===== verification/Keyed_Table.thy ===== *)
theory Keyed_Table
  imports Prelude
begin

text \<open>
  Database tables and fallible statements.  A table is the list of its rows; a uniqueness
  constraint is a key function with distinct values.  \<open>upsert_by\<close> is SQLite's
  \<^verbatim>\<open>INSERT ... ON CONFLICT(key) DO UPDATE\<close>: a row with the same key is updated in place,
  otherwise the new row is appended.  The locale \<open>keyed_table\<close> is the contract every table of
  the index has with it: an update keeps the key.

  A statement that can fail returns a sum, the error on the left.  \<open>foldE\<close> runs one statement
  per list element and stops at the first error.
\<close>

section \<open>Statements that can fail\<close>

definition bindE :: "'e + 'a \<Rightarrow> ('a \<Rightarrow> 'e + 'b) \<Rightarrow> 'e + 'b" where
  "bindE m f = (case m of Inl e \<Rightarrow> Inl e | Inr x \<Rightarrow> f x)"

lemma bindE_Inl [simp]: "bindE (Inl e) f = Inl e"
  and bindE_Inr [simp]: "bindE (Inr x) f = f x"
  by (simp_all add: bindE_def)

lemma bindE_eq_Inr: "bindE m f = Inr y \<longleftrightarrow> (\<exists>x. m = Inr x \<and> f x = Inr y)"
  by (cases m) auto

fun foldE :: "('x \<Rightarrow> 's \<Rightarrow> 'e + 's) \<Rightarrow> 'x list \<Rightarrow> 's \<Rightarrow> 'e + 's" where
  "foldE f [] s = Inr s"
| "foldE f (x # xs) s = bindE (f x s) (foldE f xs)"

lemma foldE_append: "foldE f (xs @ ys) s = bindE (foldE f xs s) (foldE f ys)"
proof (induction xs arbitrary: s)
  case (Cons x xs)
  then show ?case by (cases "f x s") auto
qed simp

lemma foldE_invariant:
  assumes "foldE f xs s = Inr t" "P s"
    and "\<And>x u v. x \<in> set xs \<Longrightarrow> P u \<Longrightarrow> f x u = Inr v \<Longrightarrow> P v"
  shows "P t"
  using assms
proof (induction xs arbitrary: s)
  case (Cons x xs)
  obtain u where u: "f x s = Inr u" "foldE f xs u = Inr t"
    using Cons.prems(1) by (auto simp: bindE_eq_Inr)
  have "P u" using Cons.prems(2,3) u(1) by auto
  then show ?case using Cons.IH [OF u(2)] Cons.prems(3) by auto
qed simp

lemma foldE_frame:
  "foldE f xs s = Inr t \<Longrightarrow> (\<And>x u v. f x u = Inr v \<Longrightarrow> g v = g u) \<Longrightarrow> g t = g s"
  by (induction xs arbitrary: s) (auto simp: bindE_eq_Inr)

lemma foldE_total:
  assumes "P s" and "\<And>x u. x \<in> set xs \<Longrightarrow> P u \<Longrightarrow> \<exists>v. f x u = Inr v \<and> P v"
  shows "\<exists>t. foldE f xs s = Inr t \<and> P t"
  using assms
proof (induction xs arbitrary: s)
  case (Cons x xs)
  obtain u where "f x s = Inr u" "P u" using Cons.prems by fastforce
  then show ?case using Cons.IH [of u] Cons.prems(2) by auto
qed simp

text \<open>A fold whose steps all succeed, each adding its part to what has been covered.\<close>

lemma foldE_collect:
  assumes "Cov S s"
    and "\<And>x u S. x \<in> set xs \<Longrightarrow> Cov S u \<Longrightarrow> \<exists>v. f x u = Inr v \<and> Cov (S \<union> K x) v"
  shows "\<exists>t. foldE f xs s = Inr t \<and> Cov (S \<union> (\<Union>x\<in>set xs. K x)) t"
  using assms
proof (induction xs arbitrary: s S)
  case (Cons x xs)
  obtain u where u: "f x s = Inr u" "Cov (S \<union> K x) u" using Cons.prems by fastforce
  obtain t where "foldE f xs u = Inr t" "Cov (S \<union> K x \<union> (\<Union>x\<in>set xs. K x)) t"
    using Cons.IH [OF u(2)] Cons.prems(2) by fastforce
  then show ?case using u(1) by (auto simp: Un_assoc)
qed simp

section \<open>Keyed tables\<close>

definition upsert_by :: "('r \<Rightarrow> 'k) \<Rightarrow> ('r \<Rightarrow> 'r \<Rightarrow> 'r) \<Rightarrow> 'r \<Rightarrow> 'r list \<Rightarrow> 'r list" where
  "upsert_by key upd new rows =
     (if \<exists>r\<in>set rows. key r = key new
      then map (\<lambda>r. if key r = key new then upd r new else r) rows
      else rows @ [new])"

definition row_with_key :: "('r \<Rightarrow> 'k) \<Rightarrow> 'k \<Rightarrow> 'r list \<Rightarrow> 'r option" where
  "row_with_key key k rows = find (\<lambda>r. key r = k) rows"

lemma row_with_key_None: "row_with_key key k rows = None \<longleftrightarrow> k \<notin> key ` set rows"
  by (auto simp: row_with_key_def find_None_iff)

lemma row_with_key_Some:
  "distinct (map key rows) \<Longrightarrow> row_with_key key k rows = Some r \<longleftrightarrow> r \<in> set rows \<and> key r = k"
  by (induction rows) (auto simp: row_with_key_def image_iff)

locale keyed_table =
  fixes key :: "'r \<Rightarrow> 'k" and upd :: "'r \<Rightarrow> 'r \<Rightarrow> 'r"
  assumes key_upd: "key r = key new \<Longrightarrow> key (upd r new) = key r"
begin

lemma map_key_upsert:
  "map key (upsert_by key upd new rows) =
     (if key new \<in> key ` set rows then map key rows else map key rows @ [key new])"
  by (auto simp: upsert_by_def key_upd image_iff) metis

lemma keys_upsert: "key ` set (upsert_by key upd new rows) = insert (key new) (key ` set rows)"
proof -
  have "set (map key (upsert_by key upd new rows)) = insert (key new) (set (map key rows))"
    unfolding map_key_upsert by auto
  then show ?thesis by simp
qed

lemma distinct_upsert:
  "distinct (map key rows) \<Longrightarrow> distinct (map key (upsert_by key upd new rows))"
  by (auto simp: map_key_upsert)

lemma upsert_cases:
  assumes "r \<in> set (upsert_by key upd new rows)"
  obtains "r = new" | "r \<in> set rows" "key r \<noteq> key new"
    | old where "old \<in> set rows" "key old = key new" "r = upd old new"
  using assms by (auto simp: upsert_by_def split: if_splits)

lemma upsert_other: "r \<in> set rows \<Longrightarrow> key r \<noteq> key new \<Longrightarrow> r \<in> set (upsert_by key upd new rows)"
  by (auto simp: upsert_by_def image_iff)

lemma upsert_has_key: "\<exists>r\<in>set (upsert_by key upd new rows). key r = key new"
  using keys_upsert [of new rows] by (metis imageE insertI1)

end

text \<open>A property that every row written has, and that an update of an old row gives again.\<close>

lemma upsert_by_all:
  assumes "\<forall>r\<in>set rows. P r" "P new" "\<And>r. r \<in> set rows \<Longrightarrow> P r \<Longrightarrow> P (upd r new)"
  shows "\<forall>r\<in>set (upsert_by key upd new rows). P r"
  using assms by (auto simp: upsert_by_def)

end
