(* ===== verification/Storage_Paths.thy ===== *)
theory Storage_Paths
  imports Go_Filepath
begin

text \<open>
  The path keys of the index (\<^verbatim>\<open>internal/db/resolve.go\<close>): \<^verbatim>\<open>StoragePath\<close> turns a path into the
  workdir-relative key stored in the database, \<^verbatim>\<open>AbsPath\<close> turns a key back into a path for
  disk access and refuses keys that leave the workdir, \<^verbatim>\<open>RelPath\<close> shortens paths for output
  and \<^verbatim>\<open>PathUnderRoot\<close> filters by subtree.  \<^verbatim>\<open>filepath.EvalSymlinks\<close> is the only effect: it is
  the argument \<open>evals\<close>, \<^const>\<open>None\<close> for an error.
\<close>

section \<open>The operations\<close>

definition storage_path :: "string \<Rightarrow> string \<Rightarrow> string" where
  "storage_path workdir path0 =
     (let path = trim_space path0 in
      if path = [] then []
      else if workdir = [] then clean path
      else
        (let wd = clean workdir;
             target = clean (if is_abs path then path else filepath_join [wd, path])
         in case filepath_rel wd target of
              None \<Rightarrow> target
            | Some rel \<Rightarrow> (if rel_escapes rel then target else if rel = ''.'' then ''.'' else rel)))"

definition abs_path :: "string \<Rightarrow> string \<Rightarrow> string" where
  "abs_path workdir stored0 =
     (let stored = trim_space stored0 in
      if stored = [] then workdir
      else if is_abs stored then clean stored
      else if workdir = [] then clean stored
      else
        (let wd = clean workdir in
         if stored = ''.'' then wd
         else
           (let joined = clean (filepath_join [wd, stored]) in
            case filepath_rel wd joined of
              None \<Rightarrow> []
            | Some rel \<Rightarrow> (if rel_escapes rel then [] else joined))))"

definition rel_path :: "string \<Rightarrow> string \<Rightarrow> string" where
  "rel_path workdir file =
     (if file = [] then file
      else if workdir = [] then file
      else if \<not> is_abs file then clean file
      else case filepath_rel workdir file of
             None \<Rightarrow> file
           | Some rel \<Rightarrow> (if rel_escapes rel then file else rel))"

definition path_key_under_root :: "string \<Rightarrow> string \<Rightarrow> bool" where
  "path_key_under_root file_key root_key \<longleftrightarrow>
     root_key = [] \<or> root_key = ''.'' \<or> file_key = root_key \<or> has_prefix file_key (root_key @ ''/'')"

definition path_under_root :: "(string \<Rightarrow> string option) \<Rightarrow> string \<Rightarrow> string \<Rightarrow> string \<Rightarrow> bool" where
  "path_under_root evals file workdir root \<longleftrightarrow>
     (if root = [] \<or> root = workdir then True
      else if path_key_under_root (storage_path workdir file) (storage_path workdir root) then True
      else case evals workdir of
             None \<Rightarrow> False
           | Some real_wd \<Rightarrow>
               (if real_wd = [] \<or> real_wd = clean workdir then False
                else path_key_under_root (storage_path real_wd file) (storage_path real_wd root)))"

text \<open>\<^verbatim>\<open>TruncateBody\<close>: the stored body is cut at a line or rune boundary near the cap.\<close>

definition max_body_chars :: nat where
  "max_body_chars = 8000"

definition trunc_marker :: string where
  "trunc_marker = newline # ''/* ... body truncated ... */''"

fun back_to_rune_start :: "string \<Rightarrow> nat \<Rightarrow> nat" where
  "back_to_rune_start body 0 = 0"
| "back_to_rune_start body (Suc n) =
     (if \<not> rune_start (body ! Suc n) then back_to_rune_start body n else Suc n)"

definition truncate_body :: "string \<Rightarrow> string" where
  "truncate_body body =
     (if length body \<le> max_body_chars then body
      else
        (let cut0 = max_body_chars;
             cut1 = (case last_index_any {newline} (take cut0 body) of
                       Some i \<Rightarrow> (if i > max_body_chars * 3 div 4 then i else cut0)
                     | None \<Rightarrow> cut0);
             cut = back_to_rune_start body cut1
         in take cut body @ trunc_marker))"

section \<open>The jail\<close>

lemma abs_path_cases:
  assumes "trim_space key \<noteq> []" "\<not> is_abs (trim_space key)" "wd \<noteq> []" "abs_path wd key \<noteq> []"
  obtains k where "path_elems (abs_path wd key) = path_elems (clean wd) @ k"
    and "is_abs (abs_path wd key) = is_abs wd" "''..'' \<notin> set k"
    and "clean (abs_path wd key) = abs_path wd key"
proof (cases "trim_space key = ''.''")
  case True
  then have "abs_path wd key = clean wd"
    using assms by (simp add: abs_path_def Let_def)
  then show ?thesis using that [of "[]"] by simp
next
  case False
  let ?j = "filepath_join [clean wd, trim_space key]"
  have eq: "abs_path wd key = (case filepath_rel (clean wd) ?j of None \<Rightarrow> []
      | Some rel \<Rightarrow> (if rel_escapes rel then [] else ?j))"
    using assms(1-3) False by (simp add: abs_path_def Let_def split: option.split)
  obtain rel where rel: "filepath_rel (clean wd) ?j = Some rel" "\<not> rel_escapes rel"
    and res: "abs_path wd key = ?j"
    using assms(4) unfolding eq by (cases "filepath_rel (clean wd) ?j") (auto split: if_splits)
  obtain k where k: "path_elems (clean ?j) = path_elems (clean (clean wd)) @ k"
    "is_abs ?j = is_abs (clean wd)" "''..'' \<notin> set (take 1 k)"
    using filepath_rel_inside [OF rel] by blast
  have "normal_segs (is_abs ?j) (path_elems (clean ?j))" by (rule path_elems_clean_normal)
  then have nd: "''..'' \<notin> set k"
    unfolding k(1) using k(3) by (rule normal_segs_append_no_dotdot)
  have cj: "clean ?j = ?j" by simp
  show ?thesis
  proof (rule that [OF _ _ nd])
    show "path_elems (abs_path wd key) = path_elems (clean wd) @ k"
      using k(1) unfolding res cj clean_idem .
    show "is_abs (abs_path wd key) = is_abs wd" "clean (abs_path wd key) = abs_path wd key"
      unfolding res using assms(3) by simp_all
  qed
qed

text \<open>Every key of \<^const>\<open>storage_path\<close> for an absolute path, on both sides of the workdir border.\<close>

lemma storage_path_abs_cases:
  assumes "is_abs wd" "is_abs p" "trim_space p = p"
  obtains (outside) "storage_path wd p = clean p"
    | (inside) k where "path_elems (clean p) = path_elems (clean wd) @ k" "''..'' \<notin> set k"
        "storage_path wd p = (if k = [] then ''.'' else join_with [slash] k)"
proof -
  have ne: "wd \<noteq> []" "p \<noteq> []" using assms(1,2) by (auto simp: is_abs_def)
  have eq: "storage_path wd p = (case filepath_rel (clean wd) (clean p) of
      None \<Rightarrow> clean p
    | Some rel \<Rightarrow> (if rel_escapes rel then clean p else rel))"
    using ne assms by (simp add: storage_path_def Let_def split: option.split)
  show ?thesis
  proof (cases "filepath_rel (clean wd) (clean p)")
    case None
    then show ?thesis using eq outside by simp
  next
    case (Some rel)
    show ?thesis
    proof (cases "rel_escapes rel")
      case True
      then show ?thesis using eq Some outside by simp
    next
      case False
      obtain k where k: "path_elems (clean (clean p)) = path_elems (clean (clean wd)) @ k"
        "''..'' \<notin> set (take 1 k)" "rel = (if k = [] then ''.'' else join_with [slash] k)"
        using filepath_rel_inside [OF Some False] by blast
      have "normal_segs (is_abs p) (path_elems (clean wd) @ k)"
        using path_elems_clean_normal [of p] k(1) by (simp del: path_elems_clean_normal)
      then have "''..'' \<notin> set k" using k(2) by (rule normal_segs_append_no_dotdot)
      then show ?thesis using inside k False eq Some by simp
    qed
  qed
qed

text \<open>Disk access with a key of elements \<open>k\<close> below the workdir reads the path with these elements.\<close>

lemma abs_path_below:
  assumes "is_abs wd" "list_all normal_seg k" "k \<noteq> []" "''..'' \<notin> set k"
    and trim: "trim_space (join_with [slash] k) = join_with [slash] k"
  shows "abs_path wd (join_with [slash] k) = render True (path_elems (clean wd) @ k)"
proof -
  let ?key = "join_with [slash] k" and ?w = "path_elems (clean wd)"
  have nk: "normal_segs False k"
    using normal_segs_append [of False "[]" k] assms(2,4) by simp
  have key: "?key = render False k" using assms(3) by (simp add: render_def)
  have wdne: "wd \<noteq> []" using assms(1) by (auto simp: is_abs_def)
  have kne: "?key \<noteq> []" "\<not> is_abs ?key" using nk unfolding key by simp_all
  have kdot: "?key \<noteq> ''.''"
  proof
    assume "?key = ''.''"
    then have "path_elems ?key = []" by (simp add: path_elems_def)
    then show False using split_render [OF nk] key assms(3) by simp
  qed
  have wn: "normal_segs True ?w"
    using path_elems_clean_normal [of wd] assms(1) by (simp del: path_elems_clean_normal)
  have n: "normal_segs True (?w @ k)" using wn assms(2,4) by (rule normal_segs_append)
  have pe: "path_elems (filepath_join [clean wd, ?key]) = ?w @ k"
    using path_elems_join [of "clean wd" ?key] split_render [OF nk] key assms(1)
    by (simp add: clean_segs_id [OF n])
  have j: "filepath_join [clean wd, ?key] = render True (?w @ k)"
    using clean_eq_render [of "filepath_join [clean wd, ?key]"] pe assms(1)
    by (simp add: clean_segs_id [OF n])
  have rel: "filepath_rel (clean wd) (filepath_join [clean wd, ?key]) = Some ?key"
    using filepath_rel_below [of "filepath_join [clean wd, ?key]" "clean wd" k] pe assms(3) by simp
  have "\<not> rel_escapes ?key"
    using join_escapes_hd [of k] assms(2,3,4) by (cases k) (auto simp: list_all_iff normal_seg_def)
  moreover have "abs_path wd ?key = (case filepath_rel (clean wd) (filepath_join [clean wd, ?key]) of
      None \<Rightarrow> [] | Some rel \<Rightarrow> (if rel_escapes rel then [] else filepath_join [clean wd, ?key]))"
    using kne kdot wdne trim by (simp add: abs_path_def Let_def split: option.split)
  ultimately show ?thesis unfolding rel by (simp add: j)
qed

section \<open>Truncated bodies\<close>

lemma back_to_rune_start_le: "back_to_rune_start body n \<le> n"
  by (induction n) auto

lemma back_to_rune_start_boundary:
  "back_to_rune_start body n = 0 \<or> rune_start (body ! back_to_rune_start body n)"
  by (induction n) auto

lemma truncate_body_shape:
  assumes "max_body_chars < length body"
  obtains cut where "cut \<le> max_body_chars" "truncate_body body = take cut body @ trunc_marker"
    and "cut = 0 \<or> rune_start (body ! cut)"
proof -
  define c1 where "c1 = (case last_index_any {newline} (take max_body_chars body) of
      Some i \<Rightarrow> (if i > max_body_chars * 3 div 4 then i else max_body_chars) | None \<Rightarrow> max_body_chars)"
  have "c1 \<le> max_body_chars"
  proof (cases "last_index_any {newline} (take max_body_chars body)")
    case (Some i)
    then have "i \<le> max_body_chars" using last_index_any_Some [OF Some] by simp
    then show ?thesis using Some by (simp add: c1_def)
  qed (simp add: c1_def)
  then have "back_to_rune_start body c1 \<le> max_body_chars"
    using back_to_rune_start_le order_trans by blast
  moreover have "truncate_body body = take (back_to_rune_start body c1) body @ trunc_marker"
    using assms unfolding truncate_body_def c1_def Let_def by simp
  ultimately show ?thesis using that back_to_rune_start_boundary by blast
qed

section \<open>Properties\<close>



text \<open>Reading back a stored key yields the file it was made from: for every absolute
  path, inside or outside the workdir, \<^verbatim>\<open>AbsPath(wd, StoragePath(wd, p)) = Clean(p)\<close>, provided
  neither the path nor its key begins or ends in white space (\<^verbatim>\<open>AbsPath\<close> trims the key).\<close>

theorem storage_abs_roundtrip:
  assumes "is_abs wd" "is_abs p" "trim_space p = p"
    and "trim_space (storage_path wd p) = storage_path wd p"
  shows "abs_path wd (storage_path wd p) = clean p"
  using assms(1-3)
proof (cases rule: storage_path_abs_cases)
  case outside
  then show ?thesis using assms(2,4) by (simp add: abs_path_def)
next
  case (inside k)
  have wdne: "wd \<noteq> []" using assms(1) by (auto simp: is_abs_def)
  show ?thesis
  proof (cases "k = []")
    case True
    then have "clean p = clean wd" using inside(1) clean_inj [of p wd] assms(1,2) by simp
    moreover have "abs_path wd ''.'' = clean wd"
      using wdne assms(4) inside(3) True by (simp add: abs_path_def is_abs_def)
    ultimately show ?thesis using inside(3) True by simp
  next
    case False
    have "list_all normal_seg k"
      using normal_segs_no_slash [OF path_elems_clean_normal [of p]] inside(1)
      by (auto simp: list_all_iff)
    then have "abs_path wd (storage_path wd p) = render True (path_elems (clean wd) @ k)"
      using abs_path_below [OF assms(1) _ False inside(2)] inside(3) assms(4) False by simp
    then show ?thesis
      using clean_as_render [of p] inside(1) assms(2) by simp
  qed
qed

theorem storage_abs_roundtrip_witness:
  "storage_path ''/srv/app'' ''/srv/app/./x//y.go'' = ''x/y.go''
   \<and> abs_path ''/srv/app'' (storage_path ''/srv/app'' ''/srv/app/./x//y.go'') = ''/srv/app/x/y.go''"
proof -
  have t: "trim_space ''/srv/app/./x//y.go'' = ''/srv/app/./x//y.go''"
    "trim_space ''x/y.go'' = ''x/y.go''" "clean ''/srv/app/./x//y.go'' = ''/srv/app/x/y.go''"
    by (simp_all add: path_eval str_eval)
  have s: "storage_path ''/srv/app'' ''/srv/app/./x//y.go'' = ''x/y.go''"
    by (simp add: storage_path_def t path_eval str_eval)
  show ?thesis
    using storage_abs_roundtrip [of "''/srv/app''" "''/srv/app/./x//y.go''"] t s
    by (simp add: is_abs_def)
qed

text \<open>
  Without the trimming hypothesis the round trip fails: a file whose name begins with a space
  is stored under a key that \<^verbatim>\<open>AbsPath\<close> reads as another file.
\<close>

lemma storage_roundtrip_space:
  "storage_path ''/w'' ''/w/ a.go'' = '' a.go'' \<and> abs_path ''/w'' '' a.go'' = ''/w/a.go''"
proof -
  have "trim_space '' a.go'' = ''a.go''" "trim_space ''/w/ a.go'' = ''/w/ a.go''"
    by (simp_all add: trim_space_ascii ascii_string_def is_space_def)
  then show ?thesis by (simp add: storage_path_def abs_path_def path_eval has_prefix_def)
qed

text \<open>A stored body is the source body or a prefix of at most 8000 bytes that does not
  split a rune, followed by the truncation marker.\<close>

theorem truncate_body_bounds:
  "truncate_body body = body \<and> length body \<le> max_body_chars
   \<or> (\<exists>cut \<le> max_body_chars. truncate_body body = take cut body @ trunc_marker
        \<and> (cut = 0 \<or> rune_start (body ! cut)))"
proof (cases "length body \<le> max_body_chars")
  case True
  then show ?thesis by (simp add: truncate_body_def)
next
  case False
  then have "max_body_chars < length body" by simp
  then show ?thesis using truncate_body_shape [of body] by blast
qed

end
