(* ===== verification/Graph_Store.thy ===== *)
theory Graph_Store
  imports Keyed_Table Storage_Paths
begin

text \<open>
  The index database (\<^verbatim>\<open>internal/db\<close>): its tables \<^verbatim>\<open>nodes\<close>, \<^verbatim>\<open>edges\<close>, \<^verbatim>\<open>unresolved_refs\<close> and
  \<^verbatim>\<open>files\<close>, and the statements and transactions of \<^verbatim>\<open>query_index.go\<close>, \<^verbatim>\<open>query_edges.go\<close>,
  \<^verbatim>\<open>query_refs.go\<close> and \<^verbatim>\<open>query_files.go\<close> that write them.  The SQL text is translated: conflict
  keys, updated columns, \<^verbatim>\<open>ON DELETE CASCADE\<close>, foreign keys (the connection sets
  \<^verbatim>\<open>foreign_keys=ON\<close>) and the roll-back of a failed transaction, which returns the error and
  leaves the caller with the state it had.  Errors of the disk are not modelled; the errors are
  foreign key violations and malformed batch ids.
\<close>

section \<open>Constants\<close>

abbreviation kind_function :: string where "kind_function \<equiv> ''function''"
abbreviation kind_method :: string where "kind_method \<equiv> ''method''"
abbreviation kind_class :: string where "kind_class \<equiv> ''class''"
abbreviation kind_file :: string where "kind_file \<equiv> ''file''"
abbreviation kind_module :: string where "kind_module \<equiv> ''module''"
abbreviation edge_calls :: string where "edge_calls \<equiv> ''calls''"
abbreviation edge_imports :: string where "edge_imports \<equiv> ''imports''"
abbreviation edge_extends :: string where "edge_extends \<equiv> ''extends''"
abbreviation edge_implements :: string where "edge_implements \<equiv> ''implements''"
abbreviation edge_references :: string where "edge_references \<equiv> ''references''"
abbreviation edge_contains :: string where "edge_contains \<equiv> ''contains''"
abbreviation edge_bridge :: string where "edge_bridge \<equiv> ''bridge''"
abbreviation st_pending :: string where "st_pending \<equiv> ''pending''"
abbreviation st_failed :: string where "st_failed \<equiv> ''failed''"
abbreviation st_abandoned :: string where "st_abandoned \<equiv> ''abandoned''"

section \<open>Rows\<close>

record node =
  n_id :: int
  n_kind :: string
  n_name :: string
  n_file :: string
  n_line :: int
  n_end_line :: int
  n_body :: string
  n_language :: string
  n_qname :: string
  n_signature :: string
  n_docstring :: string
  n_start_col :: int
  n_end_col :: int
  n_visibility :: string
  n_exported :: bool
  n_return :: string

record edge =
  e_source :: int
  e_target :: int
  e_kind :: string
  e_file :: string
  e_line :: int
  e_col :: int
  e_provenance :: string
  e_metadata :: string

record uref =
  u_id :: int
  u_from :: int
  u_name :: string
  u_kind :: string
  u_line :: int
  u_col :: int
  u_file :: string
  u_language :: string
  u_status :: string
  u_attempts :: nat
  u_tail :: string
  u_candidates :: string

record file_rec =
  f_path :: string
  f_size :: int
  f_mtime :: int
  f_indexed_at :: int
  f_hash :: string
  f_language :: string
  f_node_count :: int

text \<open>The tables; \<open>g_next_node\<close> and \<open>g_next_ref\<close> are the \<^verbatim>\<open>AUTOINCREMENT\<close> counters.\<close>

record gdb =
  g_nodes :: "node list"
  g_next_node :: int
  g_edges :: "edge list"
  g_refs :: "uref list"
  g_next_ref :: int
  g_files :: "file_rec list"

datatype db_error = Fk_violation | Bad_placeholder int

section \<open>Conflict keys and updates\<close>

definition node_key :: "node \<Rightarrow> string \<times> int \<times> string \<times> string" where
  "node_key n = (n_file n, n_line n, n_kind n, n_name n)"

text \<open>\<^verbatim>\<open>DO UPDATE SET end_line = excluded.end_line, body = ...\<close>: every column but id and key.\<close>

definition node_upd :: "node \<Rightarrow> node \<Rightarrow> node" where
  "node_upd old new =
     new\<lparr>n_id := n_id old, n_file := n_file old, n_line := n_line old, n_kind := n_kind old,
         n_name := n_name old\<rparr>"

definition module_upd :: "node \<Rightarrow> node \<Rightarrow> node" where
  "module_upd old new = old\<lparr>n_language := n_language new\<rparr>"

definition edge_key :: "edge \<Rightarrow> int \<times> int \<times> string \<times> int \<times> int" where
  "edge_key e = (e_source e, e_target e, e_kind e, e_line e, e_col e)"

definition edge_upd :: "edge \<Rightarrow> edge \<Rightarrow> edge" where
  "edge_upd old new =
     old\<lparr>e_col := e_col new, e_file := e_file new, e_provenance := e_provenance new,
         e_metadata := e_metadata new\<rparr>"

definition uref_key :: "uref \<Rightarrow> int \<times> string \<times> string \<times> int \<times> int" where
  "uref_key r = (u_from r, u_name r, u_kind r, u_line r, u_col r)"

definition uref_upd :: "uref \<Rightarrow> uref \<Rightarrow> uref" where
  "uref_upd old new =
     old\<lparr>u_file := u_file new, u_language := u_language new, u_status := u_status new,
         u_tail := u_tail new, u_candidates := u_candidates new\<rparr>"

definition file_upd :: "file_rec \<Rightarrow> file_rec \<Rightarrow> file_rec" where
  "file_upd old new = new\<lparr>f_path := f_path old\<rparr>"

interpretation nodes_t: keyed_table node_key node_upd
  by unfold_locales (simp add: node_key_def node_upd_def)

interpretation modules_t: keyed_table node_key module_upd
  by unfold_locales (simp add: node_key_def module_upd_def)

interpretation edges_t: keyed_table edge_key edge_upd
  by unfold_locales (simp add: edge_key_def edge_upd_def)

interpretation urefs_t: keyed_table uref_key uref_upd
  by unfold_locales (simp add: uref_key_def uref_upd_def)

interpretation files_t: keyed_table f_path file_upd
  by unfold_locales (simp add: file_upd_def)

section \<open>Statements\<close>

definition node_ids :: "gdb \<Rightarrow> int set" where
  "node_ids db = set (map n_id (g_nodes db))"

text \<open>\<^verbatim>\<open>UpsertEdge\<close>: an insertion needs both endpoints to exist.\<close>

definition upsert_edge :: "edge \<Rightarrow> gdb \<Rightarrow> db_error + gdb" where
  "upsert_edge e db =
     (if (\<exists>x\<in>set (g_edges db). edge_key x = edge_key e)
         \<or> (e_source e \<in> node_ids db \<and> e_target e \<in> node_ids db)
      then Inr (db\<lparr>g_edges := upsert_by edge_key edge_upd e (g_edges db)\<rparr>)
      else Inl Fk_violation)"

text \<open>
  \<^verbatim>\<open>InsertUnresolvedRef\<close>: an empty status becomes pending; on conflict the attempts counter and
  the id are kept.
\<close>

definition insert_uref :: "uref \<Rightarrow> gdb \<Rightarrow> db_error + gdb" where
  "insert_uref r db =
     (let row = r\<lparr>u_id := g_next_ref db, u_attempts := 0,
                  u_status := (if u_status r = [] then st_pending else u_status r)\<rparr> in
      if \<exists>x\<in>set (g_refs db). uref_key x = uref_key row
      then Inr (db\<lparr>g_refs := upsert_by uref_key uref_upd row (g_refs db)\<rparr>)
      else if u_from r \<in> node_ids db
      then Inr (db\<lparr>g_refs := upsert_by uref_key uref_upd row (g_refs db),
                   g_next_ref := g_next_ref db + 1\<rparr>)
      else Inl Fk_violation)"

definition delete_uref :: "int \<Rightarrow> gdb \<Rightarrow> gdb" where
  "delete_uref i db = db\<lparr>g_refs := filter (\<lambda>r. u_id r \<noteq> i) (g_refs db)\<rparr>"

text \<open>\<^verbatim>\<open>MarkUnresolvedFailed\<close>; the flag reports whether this call abandoned the row.\<close>

definition mark_row :: "string \<Rightarrow> nat \<Rightarrow> uref \<Rightarrow> uref" where
  "mark_row tail max_attempts r =
     r\<lparr>u_attempts := u_attempts r + 1,
       u_status := (if u_attempts r + 1 \<ge> max_attempts then st_abandoned else st_failed),
       u_tail := tail\<rparr>"

definition mark_unresolved_failed :: "int \<Rightarrow> string \<Rightarrow> nat \<Rightarrow> gdb \<Rightarrow> gdb \<times> bool" where
  "mark_unresolved_failed i tail max_attempts db =
     (db\<lparr>g_refs := map (\<lambda>r. if u_id r = i then mark_row tail max_attempts r else r) (g_refs db)\<rparr>,
      \<exists>r\<in>set (g_refs db). u_id r = i \<and> u_attempts r + 1 \<ge> max_attempts)"

definition list_unresolved_refs :: "string \<Rightarrow> string \<Rightarrow> gdb \<Rightarrow> uref list" where
  "list_unresolved_refs file status db =
     filter (\<lambda>r. (file \<noteq> [] \<longrightarrow> u_file r = file) \<and> (status \<noteq> [] \<longrightarrow> u_status r = status)) (g_refs db)"

text \<open>\<^verbatim>\<open>DELETE FROM nodes WHERE file = ?\<close> with its cascades to edges and refs.\<close>

definition delete_nodes_of_file :: "string \<Rightarrow> gdb \<Rightarrow> gdb" where
  "delete_nodes_of_file file db =
     (let kept = filter (\<lambda>n. n_file n \<noteq> file) (g_nodes db);
          ids = set (map n_id kept)
      in db\<lparr>g_nodes := kept,
            g_edges := filter (\<lambda>e. e_source e \<in> ids \<and> e_target e \<in> ids) (g_edges db),
            g_refs := filter (\<lambda>r. u_from r \<in> ids) (g_refs db)\<rparr>)"

definition delete_refs_of_file :: "string \<Rightarrow> gdb \<Rightarrow> gdb" where
  "delete_refs_of_file file db = db\<lparr>g_refs := filter (\<lambda>r. u_file r \<noteq> file) (g_refs db)\<rparr>"

text \<open>Insertion of a node and of a module node, returning the row's id (\<^verbatim>\<open>RETURNING id\<close>).\<close>

definition put_node :: "(node \<Rightarrow> node \<Rightarrow> node) \<Rightarrow> node \<Rightarrow> gdb \<Rightarrow> gdb \<times> int" where
  "put_node upd n db =
     (case row_with_key node_key (node_key n) (g_nodes db) of
        Some old \<Rightarrow> (db\<lparr>g_nodes := upsert_by node_key upd n (g_nodes db)\<rparr>, n_id old)
      | None \<Rightarrow>
          (db\<lparr>g_nodes := upsert_by node_key upd (n\<lparr>n_id := g_next_node db\<rparr>) (g_nodes db),
              g_next_node := g_next_node db + 1\<rparr>, g_next_node db))"

text \<open>Module nodes are inserted with five columns only; batch nodes store a truncated body.\<close>

definition module_row :: "node \<Rightarrow> node" where
  "module_row n =
     n\<lparr>n_end_line := 0, n_body := [], n_qname := [], n_signature := [], n_docstring := [],
       n_start_col := 0, n_end_col := 0, n_visibility := [], n_exported := False, n_return := []\<rparr>"

definition batch_row :: "node \<Rightarrow> node" where
  "batch_row n = n\<lparr>n_body := truncate_body (n_body n)\<rparr>"

fun put_nodes :: "(node \<Rightarrow> node \<Rightarrow> node) \<Rightarrow> node list \<Rightarrow> gdb \<Rightarrow> gdb \<times> int list" where
  "put_nodes upd [] db = (db, [])"
| "put_nodes upd (n # ns) db =
     (let (db1, i) = put_node upd n db; (db2, is) = put_nodes upd ns db1 in (db2, i # is))"

definition upsert_file :: "file_rec \<Rightarrow> gdb \<Rightarrow> gdb" where
  "upsert_file f db = db\<lparr>g_files := upsert_by f_path file_upd f (g_files db)\<rparr>"

section \<open>ReplaceFileIndex\<close>

text \<open>Placeholders: \<open>-(i+1)\<close> is batch node \<open>i\<close>, deeper negatives are module nodes.\<close>

definition real_id :: "int list \<Rightarrow> int list \<Rightarrow> int \<Rightarrow> db_error + int" where
  "real_id ids mids v =
     (if v < 0 then
        (let idx = - (v + 1) in
         if idx < int (length ids) then Inr (ids ! nat idx)
         else (let m = idx - int (length ids) in
               if m \<ge> int (length mids) then Inl (Bad_placeholder v) else Inr (mids ! nat m)))
      else Inr v)"

definition put_edge :: "int list \<Rightarrow> int list \<Rightarrow> edge \<Rightarrow> gdb \<Rightarrow> db_error + gdb" where
  "put_edge ids mids e db =
     bindE (real_id ids mids (e_source e)) (\<lambda>s.
     bindE (real_id ids mids (e_target e)) (\<lambda>t.
       upsert_edge (e\<lparr>e_source := s, e_target := t\<rparr>) db))"

definition put_ref :: "int list \<Rightarrow> int list \<Rightarrow> uref \<Rightarrow> gdb \<Rightarrow> db_error + gdb" where
  "put_ref ids mids r db =
     bindE (real_id ids mids (u_from r)) (\<lambda>f. insert_uref (r\<lparr>u_from := f\<rparr>) db)"

definition replace_file_index ::
  "string \<Rightarrow> node list \<Rightarrow> edge list \<Rightarrow> uref list \<Rightarrow> file_rec option \<Rightarrow> node list \<Rightarrow> int \<Rightarrow> gdb
     \<Rightarrow> db_error + (gdb \<times> int list)" where
  "replace_file_index store nodes edges refs frec mods now db =
     (let (db1, mids) = put_nodes module_upd (map module_row mods) db;
          db2 = delete_refs_of_file store db1;
          db3 = delete_nodes_of_file store db2;
          (db4, ids) = put_nodes node_upd (map batch_row nodes) db3
      in bindE (foldE (put_edge ids mids) edges db4) (\<lambda>db5.
         bindE (foldE (put_ref ids mids) refs db5) (\<lambda>db6.
           Inr (case frec of
                  None \<Rightarrow> (db6, ids)
                | Some f \<Rightarrow> (upsert_file (f\<lparr>f_indexed_at := now\<rparr>) db6, ids)))))"

section \<open>Well-formed databases\<close>

definition nodes_ok :: "gdb \<Rightarrow> bool" where
  "nodes_ok db \<longleftrightarrow>
     distinct (map n_id (g_nodes db)) \<and> distinct (map node_key (g_nodes db))
     \<and> (\<forall>n\<in>set (g_nodes db). 0 < n_id n \<and> n_id n < g_next_node db) \<and> 0 < g_next_node db"

definition edges_ok :: "gdb \<Rightarrow> bool" where
  "edges_ok db \<longleftrightarrow>
     distinct (map edge_key (g_edges db))
     \<and> (\<forall>e\<in>set (g_edges db). e_source e \<in> node_ids db \<and> e_target e \<in> node_ids db)"

definition refs_ok :: "gdb \<Rightarrow> bool" where
  "refs_ok db \<longleftrightarrow>
     distinct (map u_id (g_refs db)) \<and> distinct (map uref_key (g_refs db))
     \<and> (\<forall>r\<in>set (g_refs db). u_from r \<in> node_ids db \<and> u_id r < g_next_ref db)"

definition files_ok :: "gdb \<Rightarrow> bool" where
  "files_ok db \<longleftrightarrow> distinct (map f_path (g_files db))"

definition db_ok :: "gdb \<Rightarrow> bool" where
  "db_ok db \<longleftrightarrow> nodes_ok db \<and> edges_ok db \<and> refs_ok db \<and> files_ok db"

lemmas ok_defs = nodes_ok_def edges_ok_def refs_ok_def files_ok_def node_ids_def

lemma upsert_edge_ok:
  assumes "upsert_edge e db = Inr db'" "db_ok db"
  shows "db_ok db'"
proof -
  have db': "db' = db\<lparr>g_edges := upsert_by edge_key edge_upd e (g_edges db)\<rparr>"
    and ends: "(\<exists>x\<in>set (g_edges db). edge_key x = edge_key e)
      \<or> (e_source e \<in> node_ids db \<and> e_target e \<in> node_ids db)"
    using assms(1) by (auto simp: upsert_edge_def split: if_splits)
  have e: "e_source e \<in> node_ids db \<and> e_target e \<in> node_ids db"
    using ends assms(2) by (auto simp: db_ok_def edges_ok_def edge_key_def)
  have "\<forall>x\<in>set (upsert_by edge_key edge_upd e (g_edges db)).
      e_source x \<in> node_ids db \<and> e_target x \<in> node_ids db"
    using e assms(2) by (intro upsert_by_all) (auto simp: db_ok_def edges_ok_def edge_upd_def)
  then show ?thesis
    using assms(2) edges_t.distinct_upsert [of "g_edges db" e]
    by (simp add: db_ok_def ok_defs db')
qed

lemma distinct_map_other: "distinct (map f xs) \<Longrightarrow> \<forall>x. f (g x) = f x \<Longrightarrow> distinct (map f (map g xs))"
  by (simp add: comp_def)

lemma insert_uref_ok:
  assumes "insert_uref r db = Inr db'" "db_ok db"
  shows "db_ok db'"
proof -
  define row where "row = r\<lparr>u_id := g_next_ref db, u_attempts := 0,
                  u_status := (if u_status r = [] then st_pending else u_status r)\<rparr>"
  let ?new = "upsert_by uref_key uref_upd row (g_refs db)"
  have r: "distinct (map u_id (g_refs db))" "distinct (map uref_key (g_refs db))"
    "\<forall>r\<in>set (g_refs db). u_from r \<in> node_ids db \<and> u_id r < g_next_ref db"
    using assms(2) by (auto simp: db_ok_def refs_ok_def)
  show ?thesis
  proof (cases "\<exists>x\<in>set (g_refs db). uref_key x = uref_key row")
    case True
    then have db': "db' = db\<lparr>g_refs := ?new\<rparr>"
      using assms(1) by (simp add: insert_uref_def row_def Let_def)
    have ids: "map u_id ?new = map u_id (g_refs db)"
      using True by (auto simp: upsert_by_def uref_upd_def)
    have "\<forall>x\<in>set ?new. u_from x \<in> node_ids db \<and> u_id x < g_next_ref db"
      using r(3) True by (auto simp: upsert_by_def uref_upd_def)
    then show ?thesis
      using assms(2) r urefs_t.distinct_upsert [OF r(2), of row] ids
      by (simp add: db_ok_def ok_defs db')
  next
    case False
    then have db': "db' = db\<lparr>g_refs := ?new, g_next_ref := g_next_ref db + 1\<rparr>"
      and fr: "u_from r \<in> node_ids db"
      using assms(1) by (simp_all add: insert_uref_def row_def Let_def split: if_splits)
    have new: "?new = g_refs db @ [row]" using False by (simp add: upsert_by_def)
    have "u_id row \<notin> u_id ` set (g_refs db)" using r(3) by (auto simp: row_def)
    moreover have "u_from row = u_from r" "u_id row = g_next_ref db" by (simp_all add: row_def)
    ultimately show ?thesis
      using assms(2) r urefs_t.distinct_upsert [OF r(2), of row] fr
      by (auto simp: db_ok_def ok_defs db' new less_le_trans)
  qed
qed

lemma delete_uref_ok: "db_ok db \<Longrightarrow> db_ok (delete_uref i db)"
  by (auto simp: db_ok_def ok_defs delete_uref_def distinct_map_filter)

lemma delete_refs_of_file_ok: "db_ok db \<Longrightarrow> db_ok (delete_refs_of_file f db)"
  by (auto simp: db_ok_def ok_defs delete_refs_of_file_def distinct_map_filter)

lemma mark_keys:
  "u_id \<circ> (\<lambda>r. if u_id r = i then mark_row t m r else r) = u_id"
  "uref_key \<circ> (\<lambda>r. if u_id r = i then mark_row t m r else r) = uref_key"
  by (auto simp: mark_row_def uref_key_def)

lemma mark_unresolved_failed_ok: "db_ok db \<Longrightarrow> db_ok (fst (mark_unresolved_failed i t m db))"
  by (auto simp: db_ok_def ok_defs mark_unresolved_failed_def mark_keys) (auto simp: mark_row_def)

lemma delete_nodes_of_file_ok: "db_ok db \<Longrightarrow> db_ok (delete_nodes_of_file f db)"
  by (auto simp: db_ok_def ok_defs delete_nodes_of_file_def Let_def distinct_map_filter)

lemma upsert_file_ok: "db_ok db \<Longrightarrow> db_ok (upsert_file f db)"
  using files_t.distinct_upsert [of "g_files db" f]
  by (auto simp: db_ok_def ok_defs upsert_file_def)

section \<open>Node insertion\<close>

text \<open>What both conflict actions on nodes have in common: the id and the key are kept.\<close>

definition keeps_row :: "(node \<Rightarrow> node \<Rightarrow> node) \<Rightarrow> bool" where
  "keeps_row upd \<longleftrightarrow> (\<forall>old new. n_id (upd old new) = n_id old \<and> node_key (upd old new) = node_key old)"

lemma keeps_row_upd [simp]: "keeps_row node_upd" "keeps_row module_upd"
  by (simp_all add: keeps_row_def node_upd_def module_upd_def node_key_def)

lemma put_node_cases:
  assumes "put_node upd n db = (db', i)" "keeps_row upd"
  obtains old where "old \<in> set (g_nodes db)" "node_key old = node_key n" "i = n_id old"
      "db' = db\<lparr>g_nodes := map (\<lambda>r. if node_key r = node_key n then upd r n else r) (g_nodes db)\<rparr>"
  | "node_key n \<notin> node_key ` set (g_nodes db)" "i = g_next_node db"
      "db' = db\<lparr>g_nodes := g_nodes db @ [n\<lparr>n_id := g_next_node db\<rparr>], g_next_node := g_next_node db + 1\<rparr>"
proof (cases "row_with_key node_key (node_key n) (g_nodes db)")
  case None
  have k: "node_key (n\<lparr>n_id := g_next_node db\<rparr>) = node_key n" by (simp add: node_key_def)
  have new: "node_key n \<notin> node_key ` set (g_nodes db)" using None by (simp add: row_with_key_None)
  then have "upsert_by node_key upd (n\<lparr>n_id := g_next_node db\<rparr>) (g_nodes db)
      = g_nodes db @ [n\<lparr>n_id := g_next_node db\<rparr>]"
    unfolding upsert_by_def k by (auto simp: image_iff)
  then have "db' = db\<lparr>g_nodes := g_nodes db @ [n\<lparr>n_id := g_next_node db\<rparr>],
      g_next_node := g_next_node db + 1\<rparr>" "i = g_next_node db"
    using assms(1) None by (auto simp: put_node_def)
  then show ?thesis using that(2) new by blast
next
  case (Some old)
  then have "old \<in> set (g_nodes db)" "node_key old = node_key n"
    by (auto simp: row_with_key_def find_Some_iff)
  moreover from this have "upsert_by node_key upd n (g_nodes db)
      = map (\<lambda>r. if node_key r = node_key n then upd r n else r) (g_nodes db)"
    unfolding upsert_by_def by auto
  ultimately show ?thesis
    using Some assms(1) that(1) by (simp add: put_node_def)
qed

lemma db_ok_grow:
  "db_ok db \<Longrightarrow> nodes_ok db' \<Longrightarrow> node_ids db \<subseteq> node_ids db' \<Longrightarrow> g_edges db' = g_edges db
    \<Longrightarrow> g_refs db' = g_refs db \<Longrightarrow> g_next_ref db' = g_next_ref db \<Longrightarrow> g_files db' = g_files db
    \<Longrightarrow> db_ok db'"
  by (auto simp: db_ok_def edges_ok_def refs_ok_def files_ok_def)

lemma put_node_ok:
  assumes p: "put_node upd n db = (db', i)" and upd: "keeps_row upd" and ok: "db_ok db"
  shows "db_ok db' \<and> node_ids db \<subseteq> node_ids db' \<and> i \<in> node_ids db'"
  using p upd
proof (cases rule: put_node_cases)
  case (1 old)
  let ?g = "\<lambda>r. if node_key r = node_key n then upd r n else r"
  have c: "n_id \<circ> ?g = n_id" "node_key \<circ> ?g = node_key" and g: "n_id (?g r) = n_id r" for r
    using upd by (auto simp: keeps_row_def)
  have "set (map n_id (g_nodes db')) = set (map n_id (g_nodes db))"
    unfolding 1(4) by (simp add: c del: set_map)
  then have ids: "node_ids db' = node_ids db" by (simp add: node_ids_def)
  have "\<forall>m\<in>set (map ?g (g_nodes db)). 0 < n_id m \<and> n_id m < g_next_node db"
    using ok unfolding set_map ball_simps g db_ok_def nodes_ok_def by blast
  then have "nodes_ok db'"
    using ok unfolding db_ok_def nodes_ok_def 1(4) by (simp add: c)
  then have "db_ok db'" by (rule db_ok_grow [OF ok]) (simp add: ids, simp_all add: 1(4))
  moreover have "i \<in> node_ids db" using 1(1,3) by (simp add: node_ids_def)
  ultimately show ?thesis using ids by simp
next
  case 2
  have k: "node_key (n\<lparr>n_id := g_next_node db\<rparr>) = node_key n" by (simp add: node_key_def)
  have ids: "node_ids db' = insert i (node_ids db)" using 2 by (auto simp: node_ids_def)
  have "nodes_ok db'"
    using ok 2(1) unfolding db_ok_def nodes_ok_def 2(3) by (auto simp: k)
  then have "db_ok db'" by (rule db_ok_grow [OF ok]) (force simp: ids, simp_all add: 2(3))
  then show ?thesis using ids by auto
qed

lemma put_nodes_ok:
  "put_nodes upd ns db = (db', is) \<Longrightarrow> keeps_row upd \<Longrightarrow> db_ok db
    \<Longrightarrow> db_ok db' \<and> node_ids db \<subseteq> node_ids db' \<and> set is \<subseteq> node_ids db' \<and> length is = length ns"
proof (induction ns arbitrary: db db' "is")
  case (Cons n ns)
  obtain db1 i js where p: "put_node upd n db = (db1, i)" "put_nodes upd ns db1 = (db', js)" "is = i # js"
    using Cons.prems(1) by (auto split: prod.splits)
  show ?case
    using put_node_ok [OF p(1) Cons.prems(2,3)] Cons.IH [OF p(2) Cons.prems(2)] p(3) by auto
qed simp

text \<open>The row keys after a batch: the old ones and those of the batch.\<close>

lemma put_nodes_keys:
  "put_nodes upd ns db = (db', is) \<Longrightarrow> keeps_row upd
    \<Longrightarrow> node_key ` set (g_nodes db') = node_key ` set (g_nodes db) \<union> node_key ` set ns"
proof (induction ns arbitrary: db db' "is")
  case (Cons n ns)
  obtain db1 i js where p: "put_node upd n db = (db1, i)" "put_nodes upd ns db1 = (db', js)"
    using Cons.prems(1) by (auto split: prod.splits)
  have "node_key ` set (g_nodes db1) = insert (node_key n) (node_key ` set (g_nodes db))"
    using p(1) Cons.prems(2)
  proof (cases rule: put_node_cases)
    case (1 old)
    have "node_key \<circ> (\<lambda>r. if node_key r = node_key n then upd r n else r) = node_key"
      using Cons.prems(2) by (auto simp: keeps_row_def)
    then have "set (map node_key (g_nodes db1)) = set (map node_key (g_nodes db))"
      unfolding 1(4) by (simp del: set_map)
    then have "node_key ` set (g_nodes db1) = node_key ` set (g_nodes db)" by simp
    then show ?thesis using 1(1,2) by (metis image_eqI insert_absorb)
  next
    case 2
    have "node_key (n\<lparr>n_id := g_next_node db\<rparr>) = node_key n" by (simp add: node_key_def)
    then show ?thesis using 2 by auto
  qed
  then show ?case using Cons.IH [OF p(2) Cons.prems(2)] by auto
qed simp

lemma put_nodes_other:
  "put_nodes upd ns db = (db', is) \<Longrightarrow> keeps_row upd \<Longrightarrow> node_key n \<notin> node_key ` set ns
    \<Longrightarrow> n \<in> set (g_nodes db') \<longleftrightarrow> n \<in> set (g_nodes db)"
proof (induction ns arbitrary: db db' "is")
  case (Cons m ns)
  obtain db1 i js where p: "put_node upd m db = (db1, i)" "put_nodes upd ns db1 = (db', js)"
    using Cons.prems(1) by (auto split: prod.splits)
  have ne: "node_key n \<noteq> node_key m" using Cons.prems(3) by auto
  have "n \<in> set (g_nodes db1) \<longleftrightarrow> n \<in> set (g_nodes db)"
    using p(1) Cons.prems(2)
  proof (cases rule: put_node_cases)
    case (1 old)
    have "node_key (upd r m) = node_key r" for r using Cons.prems(2) by (simp add: keeps_row_def)
    then show ?thesis using 1(4) ne by auto
  next
    case 2
    have "node_key (m\<lparr>n_id := g_next_node db\<rparr>) = node_key m" by (simp add: node_key_def)
    then show ?thesis using 2 ne by auto
  qed
  then show ?case using Cons.IH [OF p(2) Cons.prems(2)] Cons.prems(3) by simp
qed simp

section \<open>ReplaceFileIndex keeps the database well-formed\<close>

lemma put_edge_ok: "put_edge ids mids e db = Inr db' \<Longrightarrow> db_ok db \<Longrightarrow> db_ok db'"
  unfolding put_edge_def by (auto simp: bindE_eq_Inr dest: upsert_edge_ok)

lemma put_ref_ok: "put_ref ids mids r db = Inr db' \<Longrightarrow> db_ok db \<Longrightarrow> db_ok db'"
  unfolding put_ref_def by (auto simp: bindE_eq_Inr dest: insert_uref_ok)

lemma upsert_edge_nodes: "upsert_edge e db = Inr db' \<Longrightarrow> g_nodes db' = g_nodes db"
  by (auto simp: upsert_edge_def split: if_splits)

lemma insert_uref_nodes: "insert_uref r db = Inr db' \<Longrightarrow> g_nodes db' = g_nodes db"
  by (auto simp: insert_uref_def Let_def split: if_splits)

lemma put_edge_nodes: "put_edge ids mids e db = Inr db' \<Longrightarrow> g_nodes db' = g_nodes db"
  unfolding put_edge_def by (auto simp: bindE_eq_Inr dest: upsert_edge_nodes)

lemma put_ref_nodes: "put_ref ids mids r db = Inr db' \<Longrightarrow> g_nodes db' = g_nodes db"
  unfolding put_ref_def by (auto simp: bindE_eq_Inr dest: insert_uref_nodes)

lemma replace_file_index_stages:
  assumes "replace_file_index store nodes edges refs frec mods now db = Inr (db', ids)"
  obtains db1 mids db4 db5 db6 where
    "put_nodes module_upd (map module_row mods) db = (db1, mids)"
    "put_nodes node_upd (map batch_row nodes)
       (delete_nodes_of_file store (delete_refs_of_file store db1)) = (db4, ids)"
    "foldE (put_edge ids mids) edges db4 = Inr db5"
    "foldE (put_ref ids mids) refs db5 = Inr db6"
    "db' = (case frec of None \<Rightarrow> db6 | Some f \<Rightarrow> upsert_file (f\<lparr>f_indexed_at := now\<rparr>) db6)"
  using assms unfolding replace_file_index_def
  by (auto simp: Let_def bindE_eq_Inr split: prod.splits option.splits)

lemma replace_file_index_ok_aux:
  assumes "replace_file_index store nodes edges refs frec mods now db = Inr (db', ids)" "db_ok db"
  shows "db_ok db' \<and> set ids \<subseteq> node_ids db' \<and> length ids = length nodes"
  using assms(1)
proof (cases rule: replace_file_index_stages)
  case (1 db1 mids db4 db5 db6)
  have "db_ok db1" using put_nodes_ok [OF 1(1)] assms(2) by simp
  then have "db_ok (delete_nodes_of_file store (delete_refs_of_file store db1))"
    by (intro delete_nodes_of_file_ok delete_refs_of_file_ok)
  then have 4: "db_ok db4" "set ids \<subseteq> node_ids db4" "length ids = length nodes"
    using put_nodes_ok [OF 1(2)] by simp_all
  have "db_ok db5" using foldE_invariant [OF 1(3), of db_ok] 4(1) by (blast intro: put_edge_ok)
  moreover have "g_nodes db5 = g_nodes db4"
    using 1(3) by (rule foldE_frame) (rule put_edge_nodes)
  ultimately have 5: "db_ok db5" "g_nodes db5 = g_nodes db4" by simp_all
  have "db_ok db6" using foldE_invariant [OF 1(4), of db_ok] 5(1) by (blast intro: put_ref_ok)
  moreover have "g_nodes db6 = g_nodes db5"
    using 1(4) by (rule foldE_frame) (rule put_ref_nodes)
  ultimately have 6: "db_ok db6" "g_nodes db6 = g_nodes db5" by simp_all
  show ?thesis
    using 4 5 6 1(5)
    by (auto simp: node_ids_def upsert_file_def intro: upsert_file_ok [unfolded upsert_file_def]
        split: option.splits)
qed

lemma row_keys [simp]: "node_key (module_row n) = node_key n" "node_key (batch_row n) = node_key n"
  by (simp_all add: node_key_def module_row_def batch_row_def)

lemma node_keys_map: "\<forall>n. node_key (f n) = node_key n
    \<Longrightarrow> node_key ` set (map f ns) = node_key ` set ns"
  by (auto simp: image_image)

lemma replace_file_index_nodes:
  assumes "replace_file_index store nodes edges refs frec mods now db = Inr (db', ids)"
  obtains db1 mids db4 where
    "put_nodes module_upd (map module_row mods) db = (db1, mids)"
    "put_nodes node_upd (map batch_row nodes)
       (delete_nodes_of_file store (delete_refs_of_file store db1)) = (db4, ids)"
    "g_nodes db' = g_nodes db4"
  using assms
proof (cases rule: replace_file_index_stages)
  case (1 db1 mids db4 db5 db6)
  have "g_nodes db5 = g_nodes db4" using 1(3) by (rule foldE_frame) (rule put_edge_nodes)
  moreover have "g_nodes db6 = g_nodes db5" using 1(4) by (rule foldE_frame) (rule put_ref_nodes)
  ultimately have "g_nodes db' = g_nodes db4"
    using 1(5) by (auto simp: upsert_file_def split: option.splits)
  then show ?thesis using that 1(1,2) by blast
qed

lemma deleted_nodes:
  "set (g_nodes (delete_nodes_of_file store (delete_refs_of_file store db))) =
     {n \<in> set (g_nodes db). n_file n \<noteq> store}"
  by (auto simp: delete_nodes_of_file_def delete_refs_of_file_def Let_def)

lemma replace_file_index_exact_aux:
  assumes "replace_file_index store nodes edges refs frec mods now db = Inr (db', ids)"
    and "\<forall>n\<in>set nodes. n_file n = store" "\<forall>m\<in>set mods. n_file m \<noteq> store"
  shows "node_key ` {n \<in> set (g_nodes db'). n_file n = store} = node_key ` set nodes
    \<and> (\<forall>n. n_file n \<noteq> store \<longrightarrow> node_key n \<notin> node_key ` set mods
          \<longrightarrow> (n \<in> set (g_nodes db') \<longleftrightarrow> n \<in> set (g_nodes db)))"
  using assms(1)
proof (cases rule: replace_file_index_nodes)
  case (1 db1 mids db4)
  let ?d = "delete_nodes_of_file store (delete_refs_of_file store db1)"
  have nf: "n_file n = fst (node_key n)" for n by (simp add: node_key_def)
  have k4: "node_key ` set (g_nodes db4) = node_key ` set (g_nodes ?d) \<union> node_key ` set nodes"
    using put_nodes_keys [OF 1(2)] node_keys_map [of batch_row nodes] by simp
  have "node_key ` {n \<in> set (g_nodes db4). n_file n = store}
      = {k \<in> node_key ` set (g_nodes db4). fst k = store}" by (auto simp: nf)
  also have "\<dots> = node_key ` set nodes"
    unfolding k4 deleted_nodes using assms(2) by (auto simp: nf)
  finally have "node_key ` {n \<in> set (g_nodes db'). n_file n = store} = node_key ` set nodes"
    using 1(3) by simp
  moreover have "n \<in> set (g_nodes db') \<longleftrightarrow> n \<in> set (g_nodes db)"
    if n: "n_file n \<noteq> store" "node_key n \<notin> node_key ` set mods" for n
  proof -
    have "node_key n \<notin> node_key ` set (map batch_row nodes)"
      using n(1) assms(2) by (auto simp: nf)
    then have "n \<in> set (g_nodes db') \<longleftrightarrow> n \<in> set (g_nodes ?d)"
      using put_nodes_other [OF 1(2)] 1(3) by simp
    also have "\<dots> \<longleftrightarrow> n \<in> set (g_nodes db1)" unfolding deleted_nodes using n(1) by simp
    also have "\<dots> \<longleftrightarrow> n \<in> set (g_nodes db)"
      using put_nodes_other [OF 1(1)] n(2) node_keys_map [of module_row mods] by simp
    finally show ?thesis .
  qed
  ultimately show ?thesis by blast
qed

section \<open>Properties\<close>

text \<open>C1 (\<open>replace_file_index_wellformed\<close>).  Re-indexing a file keeps the database well-formed: unique ids and conflict
  keys, no edge and no unresolved reference to a node that does not exist; and it returns one
  existing id per node of the batch.\<close>

theorem replace_file_index_wellformed:
  assumes "db_ok db"
    and "replace_file_index store nodes edges refs frec mods now db = Inr (db', ids)"
  shows "db_ok db' \<and> length ids = length nodes \<and> set ids \<subseteq> node_ids db'"
  using replace_file_index_ok_aux [OF assms(2,1)] by simp


text \<open>A database with one file of two symbols and a call edge from another file into it.\<close>

definition sample_node :: "int \<Rightarrow> string \<Rightarrow> string \<Rightarrow> string \<Rightarrow> int \<Rightarrow> node" where
  "sample_node i kind name file line =
     \<lparr>n_id = i, n_kind = kind, n_name = name, n_file = file, n_line = line, n_end_line = line,
      n_body = [], n_language = ''go'', n_qname = name, n_signature = [], n_docstring = [],
      n_start_col = 0, n_end_col = 0, n_visibility = [], n_exported = True, n_return = []\<rparr>"

definition sample_edge :: "int \<Rightarrow> int \<Rightarrow> edge" where
  "sample_edge s t =
     \<lparr>e_source = s, e_target = t, e_kind = edge_calls, e_file = ''a.go'', e_line = 7, e_col = 0,
      e_provenance = ''exact'', e_metadata = []\<rparr>"

definition sample_db :: gdb where
  "sample_db =
     \<lparr>g_nodes = [sample_node 1 kind_function ''main'' ''a.go'' 3,
                 sample_node 2 kind_function ''Old'' ''b.go'' 5],
      g_next_node = 3, g_edges = [sample_edge 1 2], g_refs = [], g_next_ref = 1, g_files = []\<rparr>"

lemmas sample_defs = sample_db_def sample_node_def sample_edge_def

lemmas store_eval = replace_file_index_def put_node_def row_with_key_def node_key_def
  upsert_by_def delete_nodes_of_file_def delete_refs_of_file_def put_edge_def put_ref_def
  real_id_def upsert_edge_def insert_uref_def edge_key_def uref_key_def node_ids_def
  module_row_def batch_row_def truncate_body_def max_body_chars_def

lemma sample_db_ok: "db_ok sample_db"
  by (simp add: db_ok_def ok_defs sample_defs node_key_def edge_key_def)

definition sample_replace :: "db_error + (gdb \<times> int list)" where
  "sample_replace =
     replace_file_index ''b.go'' [sample_node 0 kind_function ''New'' ''b.go'' 5]
       [sample_edge 1 (-1)] [] None [] 9 sample_db"

lemma sample_replace_value:
  "sample_replace = Inr (sample_db\<lparr>
     g_nodes := [sample_node 1 kind_function ''main'' ''a.go'' 3,
                 sample_node 3 kind_function ''New'' ''b.go'' 5],
     g_next_node := 4, g_edges := [sample_edge 1 3]\<rparr>, [3])"
  by (simp add: sample_replace_def sample_defs store_eval del: set_filter)

theorem replace_file_index_wellformed_witness:
  "db_ok (fst (projr sample_replace)) \<and> snd (projr sample_replace) = [3]"
  using replace_file_index_wellformed [OF sample_db_ok, of "''b.go''"
      "[sample_node 0 kind_function ''New'' ''b.go'' 5]" "[sample_edge 1 (-1)]" "[]" None "[]" 9]
    sample_replace_value
  unfolding sample_replace_def by simp


end
