(* ===== verification/Name_Matcher.thy ===== *)
theory Name_Matcher
  imports Graph_Store "HOL-Library.Multiset"
begin

text \<open>
  Candidate collection and name matching (\<^verbatim>\<open>internal/resolution/name_matcher.go\<close>), the deprecated
  matcher of \<^verbatim>\<open>internal/db/resolve.go\<close>, and the paginated lookup by name they read
  (\<^verbatim>\<open>ForEachNodeByName\<close> of \<^verbatim>\<open>internal/db/query_nodes.go\<close>).  \<open>top_candidates\<close> is the specification
  the scoring loop is proved against: the eligible candidates of maximal positive score.
\<close>

section \<open>Lookups by key in pages\<close>

definition node_batch :: nat where
  "node_batch = 1000"

definition for_each_node_by_name :: "string \<Rightarrow> gdb \<Rightarrow> node list" where
  "for_each_node_by_name name db =
     (if name = [] then []
      else paged node_batch n_id (sort_key n_id (filter (\<lambda>n. n_name n = name) (g_nodes db))) 0)"

definition for_each_node_by_file_light :: "string \<Rightarrow> gdb \<Rightarrow> node list" where
  "for_each_node_by_file_light file db =
     (if file = [] then []
      else paged node_batch n_id (sort_key n_id (filter (\<lambda>n. n_file n = file) (g_nodes db))) 0)"

lemma sorted_keys_strict:
  fixes f :: "'a \<Rightarrow> 'k::linorder"
  assumes "distinct (map f xs)"
  shows "sorted_wrt (\<lambda>a b. f a < f b) (sort_key f xs)"
proof -
  have m: "mset (map f (sort_key f xs)) = mset (map f xs)" by simp
  have "distinct (map f (sort_key f xs))"
    using assms mset_eq_imp_distinct_iff [OF m] by simp
  then have "sorted_wrt (<) (map f (sort_key f xs))"
    by (simp add: strict_sorted_iff)
  then show ?thesis by (simp add: sorted_wrt_map)
qed

text \<open>Rows with distinct positive ids: the pages give the selected rows, each once.\<close>

lemma paged_selection:
  assumes "db_ok db" "0 < b"
  shows "set (paged b n_id (sort_key n_id (filter P (g_nodes db))) 0) = {n \<in> set (g_nodes db). P n}"
    and "distinct (map n_id (paged b n_id (sort_key n_id (filter P (g_nodes db))) 0))"
proof -
  let ?rows = "sort_key n_id (filter P (g_nodes db))"
  have d: "distinct (map n_id (filter P (g_nodes db)))"
    using assms(1) by (simp add: db_ok_def nodes_ok_def distinct_map_filter)
  have srt: "sorted_wrt (\<lambda>a b. n_id a < n_id b) ?rows" by (rule sorted_keys_strict [OF d])
  have pos: "\<forall>n\<in>set ?rows. 0 < n_id n" using assms(1) by (auto simp: db_ok_def nodes_ok_def)
  have eq: "paged b n_id ?rows 0 = ?rows"
    using paged_all [OF assms(2) srt, of 0] pos by simp
  show "set (paged b n_id ?rows 0) = {n \<in> set (g_nodes db). P n}" unfolding eq by auto
  have "mset (map n_id ?rows) = mset (map n_id (filter P (g_nodes db)))" by simp
  then show "distinct (map n_id (paged b n_id ?rows 0))"
    unfolding eq using d mset_eq_imp_distinct_iff by blast
qed

section \<open>Candidates of a reference\<close>

definition name_tail :: "string \<Rightarrow> string" where
  "name_tail name0 =
     (let name = trim_space name0 in
      case last_index_any {dot, CHR ''#'', CHR ''@''} name of
        None \<Rightarrow> name
      | Some i \<Rightarrow> (if i + 1 < length name then drop (i + 1) name else name))"

definition collect_candidates :: "gdb \<Rightarrow> string \<Rightarrow> node list" where
  "collect_candidates db ref0 =
     (let ref = trim_space ref0 in
      if ref = [] then []
      else
        (let exact = for_each_node_by_name ref db;
             tail = name_tail ref
         in dedup_by n_id {}
              (exact @ (if tail \<noteq> [] \<and> tail \<noteq> ref then for_each_node_by_name tail db else []))))"

section \<open>Scoring\<close>

record match_result =
  m_target :: int
  m_provenance :: string
  m_score :: nat

definition no_match :: match_result where
  "no_match = \<lparr>m_target = 0, m_provenance = [], m_score = 0\<rparr>"

abbreviation prov_exact :: string where "prov_exact \<equiv> ''exact''"
abbreviation prov_import :: string where "prov_import \<equiv> ''import''"
abbreviation prov_proximity :: string where "prov_proximity \<equiv> ''proximity''"
abbreviation prov_heuristic :: string where "prov_heuristic \<equiv> ''heuristic''"

definition ambiguous_ceiling :: nat where
  "ambiguous_ceiling = 80"

definition call_target_kind :: "string \<Rightarrow> bool" where
  "call_target_kind k \<longleftrightarrow>
     k \<in> {kind_function, kind_method, ''route'', kind_class, ''foreign_function''}"

definition eligible :: "bool \<Rightarrow> node \<Rightarrow> bool" where
  "eligible prefer_call c \<longleftrightarrow> (prefer_call \<longrightarrow> call_target_kind (n_kind c))"

text \<open>Proximity of a candidate to the referring file: points and provenance.\<close>

definition proximity :: "string \<Rightarrow> node \<Rightarrow> nat \<times> string" where
  "proximity from_file c =
     (let from_dir = filepath_dir from_file; from_parent = filepath_dir from_dir in
      if n_file c = from_file then (100, prov_exact)
      else if filepath_dir (n_file c) = from_dir then (50, prov_proximity)
      else if filepath_dir (n_file c) = from_parent
              \<or> filepath_dir (filepath_dir (n_file c)) = from_parent then (20, prov_proximity)
      else (0, prov_heuristic))"

definition kind_points :: "string \<Rightarrow> nat" where
  "kind_points k =
     (if k = kind_function \<or> k = kind_method then 5 else if k = ''route'' then 3 else 0)"

definition score :: "string \<Rightarrow> string \<Rightarrow> node \<Rightarrow> nat" where
  "score ref from_file c =
     fst (proximity from_file c) + kind_points (n_kind c) + (if n_body c \<noteq> [] then 1 else 0)
     + (if n_name c = ref then 2 else 0)"

definition hit :: "string \<Rightarrow> string \<Rightarrow> node \<Rightarrow> match_result" where
  "hit ref from_file c =
     \<lparr>m_target = n_id c, m_provenance = snd (proximity from_file c), m_score = score ref from_file c\<rparr>"

definition match_step ::
  "bool \<Rightarrow> string \<Rightarrow> string \<Rightarrow> match_result \<times> nat \<Rightarrow> node \<Rightarrow> match_result \<times> nat" where
  "match_step prefer_call ref from_file s c =
     (let (best, ties) = s; sc = score ref from_file c in
      if prefer_call \<and> \<not> call_target_kind (n_kind c) then s
      else if m_score best < sc then (hit ref from_file c, 1)
      else if sc = m_score best \<and> 0 < sc then (best, ties + 1)
      else s)"

definition match_name :: "node list \<Rightarrow> string \<Rightarrow> string \<Rightarrow> bool \<Rightarrow> match_result" where
  "match_name candidates ref from_file prefer_call =
     (if candidates = [] then no_match
      else if ambiguous_ceiling < length candidates then
        (case find (\<lambda>c. n_file c = from_file \<and> (\<not> prefer_call \<or> call_target_kind (n_kind c))) candidates of
           Some c \<Rightarrow> \<lparr>m_target = n_id c, m_provenance = prov_exact, m_score = 100\<rparr>
         | None \<Rightarrow> no_match)
      else
        (let (best, ties) = foldl (match_step prefer_call ref from_file) (no_match, 0) candidates in
         if 1 < ties then no_match
         else if 1 < length candidates \<and> m_score best < 5 \<and> prefer_call then no_match
         else if m_target best \<noteq> 0 \<and> m_provenance best = [] then best\<lparr>m_provenance := prov_heuristic\<rparr>
         else best))"

text \<open>\<^verbatim>\<open>ResolveBestTarget\<close>, the matcher kept for legacy callers.\<close>

definition legacy_score :: "string \<Rightarrow> node \<Rightarrow> int" where
  "legacy_score from_file c =
     (let from_dir = filepath_dir from_file; from_parent = filepath_dir from_dir in
      (if n_file c = from_file then 100
       else if filepath_dir (n_file c) = from_dir then 50
       else if filepath_dir (filepath_dir (n_file c)) = from_parent
               \<or> filepath_dir (n_file c) = from_parent then 20 else 0)
      + (if n_kind c = kind_function \<or> n_kind c = kind_method then 5
         else if n_kind c = ''route'' then 3 else 0)
      + (if n_body c \<noteq> [] then 1 else 0))"

definition legacy_step :: "bool \<Rightarrow> string \<Rightarrow> int \<times> int \<Rightarrow> node \<Rightarrow> int \<times> int" where
  "legacy_step prefer_call from_file s c =
     (let (best_id, best_score) = s in
      if prefer_call \<and> \<not> call_target_kind (n_kind c) then s
      else if best_score < legacy_score from_file c then (n_id c, legacy_score from_file c)
      else s)"

definition resolve_best_target :: "node list \<Rightarrow> string \<Rightarrow> bool \<Rightarrow> int" where
  "resolve_best_target candidates from_file prefer_call =
     (if candidates = [] then 0
      else if 80 < length candidates then
        (case find (\<lambda>c. n_file c = from_file \<and> (\<not> prefer_call \<or> call_target_kind (n_kind c))) candidates of
           Some c \<Rightarrow> n_id c
         | None \<Rightarrow> 0)
      else
        (let (best_id, best_score) = foldl (legacy_step prefer_call from_file) (0, -1) candidates in
         if best_score < 5 then 0 else best_id))"

section \<open>The scoring loop against its specification\<close>

definition top_candidates :: "bool \<Rightarrow> string \<Rightarrow> string \<Rightarrow> node list \<Rightarrow> node list" where
  "top_candidates prefer_call ref from_file cs =
     filter (\<lambda>c. eligible prefer_call c \<and> 0 < score ref from_file c
        \<and> (\<forall>d\<in>set cs. eligible prefer_call d \<longrightarrow> score ref from_file d \<le> score ref from_file c)) cs"

text \<open>The loop's state after the candidates \<open>cs\<close>: the best score so far and its multiplicity.\<close>

definition scan_inv :: "bool \<Rightarrow> string \<Rightarrow> string \<Rightarrow> node list \<Rightarrow> match_result \<Rightarrow> nat \<Rightarrow> bool" where
  "scan_inv p ref from_file cs best ties \<longleftrightarrow>
     (\<forall>c\<in>set cs. eligible p c \<longrightarrow> score ref from_file c \<le> m_score best)
     \<and> ties = length (filter (\<lambda>c. eligible p c \<and> 0 < score ref from_file c
                                 \<and> score ref from_file c = m_score best) cs)
     \<and> (if ties = 0 then best = no_match
        else \<exists>c\<in>set cs. eligible p c \<and> 0 < score ref from_file c \<and> best = hit ref from_file c)"

lemma m_score_hit [simp]: "m_score (hit r f c) = score r f c"
  and m_target_hit [simp]: "m_target (hit r f c) = n_id c"
  by (simp_all add: hit_def)

lemma m_provenance_hit: "m_provenance (hit r f c) \<noteq> []"
  by (simp add: hit_def proximity_def Let_def)

lemma no_match_fields [simp]: "m_target no_match = 0" "m_provenance no_match = []" "m_score no_match = 0"
  by (simp_all add: no_match_def)

lemma scan_invD:
  assumes "scan_inv p r f cs best ties"
  shows "\<And>c. c \<in> set cs \<Longrightarrow> eligible p c \<Longrightarrow> score r f c \<le> m_score best"
    and "ties = length (filter (\<lambda>c. eligible p c \<and> 0 < score r f c
                                 \<and> score r f c = m_score best) cs)"
    and "ties = 0 \<Longrightarrow> best = no_match"
    and "ties \<noteq> 0 \<Longrightarrow> \<exists>c\<in>set cs. eligible p c \<and> 0 < score r f c \<and> best = hit r f c"
proof -
  note inv = assms [unfolded scan_inv_def]
  note tail = inv [THEN conjunct2, THEN conjunct2]
  show "\<And>c. c \<in> set cs \<Longrightarrow> eligible p c \<Longrightarrow> score r f c \<le> m_score best"
    using inv [THEN conjunct1] by simp
  show "ties = length (filter (\<lambda>c. eligible p c \<and> 0 < score r f c
                                 \<and> score r f c = m_score best) cs)"
    by (rule inv [THEN conjunct2, THEN conjunct1])
  show "ties = 0 \<Longrightarrow> best = no_match" using tail by simp
  show "ties \<noteq> 0 \<Longrightarrow> \<exists>c\<in>set cs. eligible p c \<and> 0 < score r f c \<and> best = hit r f c"
    using tail by simp
qed

lemma scan_invI:
  assumes "\<And>c. c \<in> set cs \<Longrightarrow> eligible p c \<Longrightarrow> score r f c \<le> m_score best"
    and "ties = length (filter (\<lambda>c. eligible p c \<and> 0 < score r f c
                                 \<and> score r f c = m_score best) cs)"
    and "ties = 0 \<Longrightarrow> best = no_match"
    and "ties \<noteq> 0 \<Longrightarrow> \<exists>c\<in>set cs. eligible p c \<and> 0 < score r f c \<and> best = hit r f c"
  shows "scan_inv p r f cs best ties"
  unfolding scan_inv_def using assms(1,3,4)
  by (intro conjI ballI impI assms(2)) (assumption, simp split: if_split)

lemma scan_inv_other:
  assumes "scan_inv p r f cs best ties" "\<not> eligible p c \<or> score r f c < m_score best"
  shows "scan_inv p r f (cs @ [c]) best ties"
proof (rule scan_invI)
  show "\<And>d. d \<in> set (cs @ [c]) \<Longrightarrow> eligible p d \<Longrightarrow> score r f d \<le> m_score best"
    using scan_invD(1) [OF assms(1)] assms(2) by fastforce
  have "filter (\<lambda>d. eligible p d \<and> 0 < score r f d \<and> score r f d = m_score best) [c] = []"
    using assms(2) by auto
  then show "ties = length (filter (\<lambda>d. eligible p d \<and> 0 < score r f d
      \<and> score r f d = m_score best) (cs @ [c]))"
    using scan_invD(2) [OF assms(1)] by simp
  show "ties = 0 \<Longrightarrow> best = no_match" by (rule scan_invD(3) [OF assms(1)])
  show "ties \<noteq> 0 \<Longrightarrow> \<exists>d\<in>set (cs @ [c]). eligible p d \<and> 0 < score r f d \<and> best = hit r f d"
    using scan_invD(4) [OF assms(1)] by auto
qed

lemma scan_inv_tie:
  assumes "scan_inv p r f cs best ties" "eligible p c" "score r f c = m_score best" "0 < score r f c"
  shows "scan_inv p r f (cs @ [c]) best (ties + 1)"
proof (rule scan_invI)
  show "\<And>d. d \<in> set (cs @ [c]) \<Longrightarrow> eligible p d \<Longrightarrow> score r f d \<le> m_score best"
    using scan_invD(1) [OF assms(1)] assms(3) by fastforce
  show "ties + 1 = length (filter (\<lambda>d. eligible p d \<and> 0 < score r f d
      \<and> score r f d = m_score best) (cs @ [c]))"
    using scan_invD(2) [OF assms(1)] assms(2-4) by simp
  show "\<exists>d\<in>set (cs @ [c]). eligible p d \<and> 0 < score r f d \<and> best = hit r f d"
    using scan_invD(3,4) [OF assms(1)] assms(3,4) by (cases "ties = 0") auto
qed simp

lemma scan_inv_better:
  assumes "scan_inv p r f cs best ties" "eligible p c" "m_score best < score r f c"
  shows "scan_inv p r f (cs @ [c]) (hit r f c) 1"
proof (rule scan_invI)
  have le: "score r f d < score r f c" if "d \<in> set cs" "eligible p d" for d
    using scan_invD(1) [OF assms(1) that] assms(3) by simp
  show "\<And>d. d \<in> set (cs @ [c]) \<Longrightarrow> eligible p d \<Longrightarrow> score r f d \<le> m_score (hit r f c)"
    using le less_imp_le by fastforce
  have "filter (\<lambda>d. eligible p d \<and> 0 < score r f d \<and> score r f d = score r f c) cs = []"
    using le by (fastforce simp: filter_empty_conv)
  then show "1 = length (filter (\<lambda>d. eligible p d \<and> 0 < score r f d
      \<and> score r f d = m_score (hit r f c)) (cs @ [c]))"
    using assms(2,3) by simp
  show "\<exists>d\<in>set (cs @ [c]). eligible p d \<and> 0 < score r f d \<and> hit r f c = hit r f d"
    using assms(2,3) by auto
qed simp

lemma scan_inv_zero:
  assumes "scan_inv p r f cs best ties" "eligible p c" "score r f c = 0" "m_score best = 0"
  shows "scan_inv p r f (cs @ [c]) best ties"
proof (rule scan_invI)
  show "\<And>d. d \<in> set (cs @ [c]) \<Longrightarrow> eligible p d \<Longrightarrow> score r f d \<le> m_score best"
    using scan_invD(1) [OF assms(1)] assms(3) by fastforce
  show "ties = length (filter (\<lambda>d. eligible p d \<and> 0 < score r f d
      \<and> score r f d = m_score best) (cs @ [c]))"
    using scan_invD(2) [OF assms(1)] assms(3) by simp
  show "ties = 0 \<Longrightarrow> best = no_match" by (rule scan_invD(3) [OF assms(1)])
  show "ties \<noteq> 0 \<Longrightarrow> \<exists>d\<in>set (cs @ [c]). eligible p d \<and> 0 < score r f d \<and> best = hit r f d"
    using scan_invD(4) [OF assms(1)] by auto
qed

lemma scan_inv_step:
  assumes "scan_inv p r f cs best ties" "match_step p r f (best, ties) c = (best', ties')"
  shows "scan_inv p r f (cs @ [c]) best' ties'"
proof -
  have el: "(p \<and> \<not> call_target_kind (n_kind c)) = (\<not> eligible p c)" by (auto simp: eligible_def)
  have step: "(best', ties') =
      (if \<not> eligible p c then (best, ties)
       else if m_score best < score r f c then (hit r f c, 1)
       else if score r f c = m_score best \<and> 0 < score r f c then (best, ties + 1) else (best, ties))"
    using assms(2) unfolding match_step_def Let_def el by simp
  consider "\<not> eligible p c \<or> score r f c < m_score best" | "eligible p c" "m_score best < score r f c"
    | "eligible p c" "score r f c = m_score best" "0 < score r f c"
    | "eligible p c" "score r f c = 0" "m_score best = 0"
    by linarith
  then show ?thesis
  proof cases
    case 1
    then show ?thesis using step scan_inv_other [OF assms(1) 1] by (auto split: if_splits)
  next
    case 2
    then show ?thesis using step scan_inv_better [OF assms(1) 2] by simp
  next
    case 3
    then show ?thesis using step scan_inv_tie [OF assms(1) 3] by simp
  next
    case 4
    then show ?thesis using step scan_inv_zero [OF assms(1) 4] by simp
  qed
qed

lemma scan_inv_foldl:
  "foldl (match_step p r f) (no_match, 0) cs = (best, ties) \<Longrightarrow> scan_inv p r f cs best ties"
proof (induction cs arbitrary: best ties rule: rev_induct)
  case Nil
  then show ?case by (simp add: scan_inv_def)
next
  case (snoc c cs)
  obtain b n where bn: "foldl (match_step p r f) (no_match, 0) cs = (b, n)" by fastforce
  then show ?case using scan_inv_step [OF snoc.IH [OF bn]] snoc.prems by simp
qed

lemma scan_inv_top:
  assumes "scan_inv p r f cs best ties"
  shows "ties = length (top_candidates p r f cs)
    \<and> (ties = 1 \<longrightarrow> best = hit r f (hd (top_candidates p r f cs)))"
proof (cases "ties = 0")
  case True
  have "best = no_match" by (rule scan_invD(3) [OF assms True])
  then have "top_candidates p r f cs = []"
    using scan_invD(1) [OF assms] by (auto simp: top_candidates_def filter_empty_conv)
  then show ?thesis using True by simp
next
  case False
  then obtain c where c: "c \<in> set cs" "eligible p c" "0 < score r f c" "best = hit r f c"
    using scan_invD(4) [OF assms] by blast
  have le: "\<forall>d\<in>set cs. eligible p d \<longrightarrow> score r f d \<le> score r f c"
    using scan_invD(1) [OF assms] c(4) by simp
  have eq: "top_candidates p r f cs
      = filter (\<lambda>d. eligible p d \<and> 0 < score r f d \<and> score r f d = m_score best) cs"
    unfolding top_candidates_def using c le by (intro filter_cong) (auto intro: order_antisym)
  then have n: "ties = length (top_candidates p r f cs)"
    using scan_invD(2) [OF assms] by simp
  have "c \<in> set (top_candidates p r f cs)" unfolding eq using c by simp
  then have "ties = 1 \<longrightarrow> hd (top_candidates p r f cs) = c"
    unfolding n by (cases "top_candidates p r f cs") auto
  then show ?thesis using n c(4) by simp
qed

definition match_spec :: "node list \<Rightarrow> string \<Rightarrow> string \<Rightarrow> bool \<Rightarrow> match_result" where
  "match_spec cs ref from_file p =
     (case top_candidates p ref from_file cs of
        [c] \<Rightarrow> (if 1 < length cs \<and> score ref from_file c < 5 \<and> p then no_match else hit ref from_file c)
      | _ \<Rightarrow> no_match)"

lemma match_name_spec:
  assumes "length cs \<le> ambiguous_ceiling"
  shows "match_name cs r f p = match_spec cs r f p"
proof -
  obtain best ties where fold: "foldl (match_step p r f) (no_match, 0) cs = (best, ties)"
    by fastforce
  have inv: "scan_inv p r f cs best ties" by (rule scan_inv_foldl [OF fold])
  note top = scan_inv_top [OF inv]
  consider "top_candidates p r f cs = []" | c where "top_candidates p r f cs = [c]"
    | c d ds where "top_candidates p r f cs = c # d # ds"
    by (metis list.exhaust)
  then show ?thesis
  proof cases
    case 1
    then have "best = no_match" using top inv by (simp add: scan_inv_def)
    then show ?thesis using 1 assms top by (auto simp: match_name_def match_spec_def fold)
  next
    case (2 c)
    then have "best = hit r f c" "ties = 1" "cs \<noteq> []"
      using top by (auto simp: top_candidates_def)
    then show ?thesis
      using 2 assms by (auto simp: match_name_def match_spec_def fold m_provenance_hit)
  next
    case 3
    then show ?thesis using assms top by (auto simp: match_name_def match_spec_def fold)
  qed
qed

lemma top_candidates_mset:
  "mset cs = mset ds \<Longrightarrow> mset (top_candidates p r f cs) = mset (top_candidates p r f ds)"
  by (simp add: top_candidates_def mset_filter cong: filter_mset_cong) (metis set_mset_mset)

lemma match_spec_mset:
  assumes "mset cs = mset ds"
  shows "match_spec cs r f p = match_spec ds r f p"
proof -
  have t: "mset (top_candidates p r f cs) = mset (top_candidates p r f ds)"
    by (rule top_candidates_mset [OF assms])
  have l: "length cs = length ds" using assms by (metis size_mset)
  consider "top_candidates p r f cs = []" | c where "top_candidates p r f cs = [c]"
    | c d zs where "top_candidates p r f cs = c # d # zs"
    by (metis list.exhaust)
  then show ?thesis
  proof cases
    case 3
    then have "length (top_candidates p r f ds) = Suc (Suc (length zs))"
      using t by (metis length_Cons size_mset)
    then show ?thesis using 3 by (auto simp: match_spec_def length_Suc_conv)
  qed (use t l in \<open>auto simp: match_spec_def\<close>)
qed

section \<open>Properties\<close>

lemma match_name_target:
  assumes "m_target (match_name cs r f p) \<noteq> 0"
  shows "\<exists>c\<in>set cs. n_id c = m_target (match_name cs r f p) \<and> eligible p c"
proof (cases "length cs \<le> ambiguous_ceiling")
  case True
  obtain c where c: "top_candidates p r f cs = [c]" "match_spec cs r f p = hit r f c"
    using assms unfolding match_name_spec [OF True]
    by (auto simp: match_spec_def split: list.splits if_splits)
  have "c \<in> set (top_candidates p r f cs)" using c(1) by simp
  then show ?thesis unfolding match_name_spec [OF True] c(2) by (auto simp: top_candidates_def)
next
  case False
  then show ?thesis
    using assms by (cases "find (\<lambda>c. n_file c = f \<and> (\<not> p \<or> call_target_kind (n_kind c))) cs")
      (auto simp: match_name_def eligible_def dest!: find_SomeD)
qed

lemma top_candidates_single:
  assumes "distinct cs"
  shows "top_candidates p r f cs = [c] \<longleftrightarrow>
      c \<in> set cs \<and> eligible p c \<and> 0 < score r f c
      \<and> (\<forall>d\<in>set cs - {c}. eligible p d \<longrightarrow> score r f d < score r f c)"
    (is "_ \<longleftrightarrow> ?R")
proof -
  let ?top = "set (top_candidates p r f cs)"
  have mem: "x \<in> ?top \<longleftrightarrow> x \<in> set cs \<and> eligible p x \<and> 0 < score r f x
      \<and> (\<forall>d\<in>set cs. eligible p d \<longrightarrow> score r f d \<le> score r f x)" for x
    by (auto simp: top_candidates_def)
  have "?top = {c} \<longleftrightarrow> ?R"
  proof
    assume top: "?top = {c}"
    then have c: "c \<in> set cs" "eligible p c" "0 < score r f c"
        "\<forall>d\<in>set cs. eligible p d \<longrightarrow> score r f d \<le> score r f c"
      using mem [of c] by auto
    have "score r f d < score r f c" if d: "d \<in> set cs - {c}" "eligible p d" for d
    proof (rule ccontr)
      assume "\<not> score r f d < score r f c"
      then have "d \<in> ?top" unfolding mem using c d by force
      then show False using top d by blast
    qed
    then show ?R using c by blast
  next
    assume R: ?R
    then have "c \<in> ?top" unfolding mem by (auto intro: less_imp_le)
    moreover have "x = c" if "x \<in> ?top" for x
      using that R unfolding mem by (metis DiffI leD singletonD)
    ultimately show "?top = {c}" by blast
  qed
  then show ?thesis
    using distinct_eq_single [of "top_candidates p r f cs" c] assms by (simp add: top_candidates_def)
qed

text \<open>Up to the ambiguity ceiling of 80 candidates the
  match does not depend on the order in which the database returned them.\<close>

theorem match_name_order_independent:
  assumes "mset cs = mset ds" "length cs \<le> ambiguous_ceiling"
  shows "match_name cs ref from_file p = match_name ds ref from_file p"
proof -
  have "length ds \<le> ambiguous_ceiling" using assms by (metis size_mset)
  then show ?thesis
    using match_spec_mset [OF assms(1)] by (simp add: match_name_spec assms(2))
qed


text \<open>Whatever the number of candidates, the match of a call or
  reference is one of them, of a kind that can be called: a call edge never goes to a struct,
  an interface, a file or a module.\<close>

theorem match_name_call_targets:
  assumes "m_target (match_name cs ref from_file True) \<noteq> 0"
  shows "\<exists>c\<in>set cs. n_id c = m_target (match_name cs ref from_file True)
    \<and> n_kind c \<in> {kind_function, kind_method, kind_class, ''route'', ''foreign_function''}"
  using match_name_target [OF assms] by (auto simp: eligible_def call_target_kind_def)

lemma collect_candidates_exact:
  assumes "db_ok db" "trim_space ref \<noteq> []"
  shows "set (collect_candidates db ref) =
      {n \<in> set (g_nodes db). n_name n = trim_space ref
          \<or> (n_name n = name_tail (trim_space ref) \<and> name_tail (trim_space ref) \<noteq> [])}
    \<and> distinct (map n_id (collect_candidates db ref))"
proof -
  have by_name: "set (for_each_node_by_name m db) = {n \<in> set (g_nodes db). n_name n = m \<and> m \<noteq> []}" for m
    using paged_selection(1) [OF assms(1), of node_batch "\<lambda>n. n_name n = m"]
    by (simp add: for_each_node_by_name_def node_batch_def)
  let ?all = "for_each_node_by_name (trim_space ref) db
     @ (if name_tail (trim_space ref) \<noteq> [] \<and> name_tail (trim_space ref) \<noteq> trim_space ref
        then for_each_node_by_name (name_tail (trim_space ref)) db else [])"
  have set_all: "set ?all = {n \<in> set (g_nodes db). n_name n = trim_space ref
          \<or> (n_name n = name_tail (trim_space ref) \<and> name_tail (trim_space ref) \<noteq> [])}"
    using assms(2) by (auto simp: by_name)
  have inj: "inj_on n_id (set (g_nodes db))"
    using assms(1) by (simp add: db_ok_def nodes_ok_def distinct_map)
  have sub: "set ?all \<subseteq> set (g_nodes db)" unfolding set_all by blast
  have "set (dedup_by n_id {} ?all) \<subseteq> set ?all" using set_dedup_by [of n_id "{}" ?all] by blast
  moreover have "n_id ` set (dedup_by n_id {} ?all) = n_id ` set ?all" by simp
  ultimately have "set (dedup_by n_id {} ?all) = set ?all"
    using inj_on_image_eq_iff [OF inj _ sub] sub by (meson order_trans)
  then show ?thesis
    using assms(2) set_all by (simp add: collect_candidates_def Let_def)
qed

text \<open>The paginated collection returns every node whose name
  is the trimmed reference or its last segment after a dot, hash or at sign, and each once,
  however many pages there are.\<close>

theorem collect_candidates_complete:
  assumes "db_ok db" "trim_space ref \<noteq> []"
  shows "set (collect_candidates db ref) =
      {n \<in> set (g_nodes db). n_name n = trim_space ref
          \<or> (n_name n = name_tail (trim_space ref) \<and> name_tail (trim_space ref) \<noteq> [])}
    \<and> distinct (map n_id (collect_candidates db ref))"
  by (rule collect_candidates_exact [OF assms])

text \<open>Two functions of one name, one in the referring file: the nearer one wins in both orders.\<close>

definition two_defs :: "node list" where
  "two_defs = [sample_node 1 kind_function ''run'' ''a/x.go'' 3,
               sample_node 2 kind_function ''run'' ''b/y.go'' 5]"

lemmas match_eval = two_defs_def sample_node_def eligible_def call_target_kind_def score_def
  proximity_def kind_points_def ambiguous_ceiling_def

lemma two_defs_scores:
  "map (score ''run'' ''a/x.go'') two_defs = [107, 27]"
  by (simp add: match_eval filepath_dir_def path_eval str_eval)

theorem match_name_order_independent_witness:
  "match_name (rev two_defs) ''run'' ''a/x.go'' True = match_name two_defs ''run'' ''a/x.go'' True"
  by (rule match_name_order_independent) (simp_all add: two_defs_def ambiguous_ceiling_def)


theorem match_name_call_targets_witness:
  "\<exists>c\<in>set two_defs. n_id c = m_target (match_name two_defs ''run'' ''a/x.go'' True)
    \<and> n_kind c \<in> {kind_function, kind_method, kind_class, ''route'', ''foreign_function''}"
proof (rule match_name_call_targets)
  show "m_target (match_name two_defs ''run'' ''a/x.go'' True) \<noteq> 0"
    using two_defs_scores
    by (simp add: match_name_def match_step_def two_defs_def call_target_kind_def hit_def
        sample_node_def ambiguous_ceiling_def proximity_def)
qed

theorem collect_candidates_complete_witness:
  "n_id ` set (collect_candidates sample_db ''pkg.Old'') = {2}"
proof -
  have t: "trim_space ''pkg.Old'' = ''pkg.Old''" by (simp add: str_eval)
  have nt: "name_tail ''pkg.Old'' = ''Old''" by (simp add: name_tail_def t)
  have "set (collect_candidates sample_db ''pkg.Old'')
      = set (filter (\<lambda>n. n_name n = ''pkg.Old'' \<or> n_name n = ''Old'') (g_nodes sample_db))"
    using collect_candidates_complete [OF sample_db_ok, of "''pkg.Old''"] by (simp add: t nt)
  then show ?thesis by (simp add: sample_defs del: set_filter)
qed

end
