(* ===== verification/Ref_Parking.thy ===== *)
theory Ref_Parking
  imports Name_Matcher
begin

text \<open>
  Parking of inbound references (\<^verbatim>\<open>ParkInboundRefsForFile\<close> and \<^verbatim>\<open>parkInboundEdgesForNode\<close> of
  \<^verbatim>\<open>internal/db/query_refs.go\<close>).  Before the nodes of a file are replaced, every symbol edge that
  points into the file from another file is written back as a pending unresolved reference, so
  that the resolution pass can rebuild it against the new ids.  The whole sequence is one
  transaction.
\<close>

section \<open>The operations\<close>

definition inbound_park_kinds :: "string list" where
  "inbound_park_kinds = [edge_calls, edge_references, edge_bridge, edge_extends, edge_implements]"

definition ref_name_tail :: "string \<Rightarrow> string" where
  "ref_name_tail name0 =
     (let name = trim_space name0 in
      case last_index_any {dot, slash, CHR ''#'', CHR ''@''} name of
        None \<Rightarrow> name
      | Some i \<Rightarrow> (if i + 1 < length name then drop (i + 1) name else name))"

definition parked_ref :: "node \<Rightarrow> string \<Rightarrow> edge \<Rightarrow> uref" where
  "parked_ref src target_name e =
     \<lparr>u_id = 0, u_from = e_source e, u_name = target_name, u_kind = e_kind e, u_line = e_line e,
      u_col = e_col e, u_file = (if e_file e = [] then n_file src else e_file e),
      u_language = n_language src, u_status = st_pending, u_attempts = 0,
      u_tail = ref_name_tail target_name, u_candidates = []\<rparr>"

definition park_edge :: "string \<Rightarrow> string \<Rightarrow> edge \<Rightarrow> gdb \<Rightarrow> db_error + gdb" where
  "park_edge target_name file e db =
     (case row_with_key n_id (e_source e) (g_nodes db) of
        None \<Rightarrow> Inr db
      | Some src \<Rightarrow>
          if n_file src = file then Inr db else insert_uref (parked_ref src target_name e) db)"

definition park_inbound_edges_for_node :: "int \<Rightarrow> string \<Rightarrow> string \<Rightarrow> gdb \<Rightarrow> db_error + gdb" where
  "park_inbound_edges_for_node target target_name file db =
     foldE (park_edge target_name file)
       (filter (\<lambda>e. e_target e = target \<and> e_kind e \<in> set inbound_park_kinds) (g_edges db)) db"

definition park_target :: "string \<Rightarrow> node \<Rightarrow> gdb \<Rightarrow> db_error + gdb" where
  "park_target file t db =
     (if n_kind t = kind_file \<or> n_kind t = kind_module then Inr db
      else park_inbound_edges_for_node (n_id t) (n_name t) file db)"

definition park_inbound_refs_for_file :: "string \<Rightarrow> gdb \<Rightarrow> db_error + gdb" where
  "park_inbound_refs_for_file file db =
     (if file = [] then Inr db
      else foldE (park_target file)
        (paged node_batch n_id (sort_key n_id (filter (\<lambda>n. n_file n = file) (g_nodes db))) 0) db)"

section \<open>Frames\<close>

text \<open>A run that only writes references: nodes and edges stay, and no reference key is lost.\<close>

definition refs_grow :: "gdb \<Rightarrow> gdb \<Rightarrow> bool" where
  "refs_grow db db' \<longleftrightarrow>
     g_nodes db' = g_nodes db \<and> g_edges db' = g_edges db \<and> g_next_node db' = g_next_node db
     \<and> g_files db' = g_files db \<and> uref_key ` set (g_refs db) \<subseteq> uref_key ` set (g_refs db')"

lemma refs_grow_refl [simp]: "refs_grow db db"
  by (simp add: refs_grow_def)

lemma refs_grow_trans [trans]: "refs_grow a b \<Longrightarrow> refs_grow b c \<Longrightarrow> refs_grow a c"
  unfolding refs_grow_def by (metis (no_types, lifting) order_trans)

lemma insert_uref_keys:
  assumes "insert_uref r db = Inr db'"
  shows "uref_key ` set (g_refs db') = insert (uref_key r) (uref_key ` set (g_refs db))"
proof -
  let ?row = "r\<lparr>u_id := g_next_ref db, u_attempts := 0,
                  u_status := (if u_status r = [] then st_pending else u_status r)\<rparr>"
  have "g_refs db' = upsert_by uref_key uref_upd ?row (g_refs db)"
    using assms by (auto simp: insert_uref_def Let_def split: if_splits)
  moreover have "uref_key ?row = uref_key r" by (simp add: uref_key_def)
  ultimately show ?thesis using urefs_t.keys_upsert [of ?row "g_refs db"] by simp
qed

lemma insert_uref_grow:
  assumes "insert_uref r db = Inr db'"
  shows "refs_grow db db'"
proof -
  have "g_nodes db' = g_nodes db \<and> g_edges db' = g_edges db \<and> g_next_node db' = g_next_node db
     \<and> g_files db' = g_files db"
    using assms by (auto simp: insert_uref_def Let_def split: if_splits)
  then show ?thesis unfolding refs_grow_def insert_uref_keys [OF assms] by blast
qed

text \<open>What holds of the status and file of the row written, and of the rows of its key before,
  holds of the rows of its key after.\<close>

lemma insert_uref_row:
  assumes "insert_uref r db = Inr db'" "u_status r = st_pending" "Q st_pending (u_file r)"
    and "x \<in> set (g_refs db')"
    and "uref_key x = uref_key r
      \<or> (\<forall>y\<in>set (g_refs db). uref_key y = uref_key x \<longrightarrow> Q (u_status y) (u_file y))"
  shows "Q (u_status x) (u_file x)"
proof -
  let ?row = "r\<lparr>u_id := g_next_ref db, u_attempts := 0,
                  u_status := (if u_status r = [] then st_pending else u_status r)\<rparr>"
  have row: "uref_key ?row = uref_key r" "u_status ?row = st_pending" "u_file ?row = u_file r"
    using assms(2) by (simp_all add: uref_key_def)
  have "x \<in> set (upsert_by uref_key uref_upd ?row (g_refs db))"
    using assms(1,4) by (auto simp: insert_uref_def Let_def split: if_splits)
  then show ?thesis
  proof (cases rule: urefs_t.upsert_cases)
    case 1
    then show ?thesis using row assms(3) by simp
  next
    case 2
    then show ?thesis using assms(5) row by auto
  next
    case (3 old)
    then show ?thesis using row assms(3) by (simp add: uref_upd_def)
  qed
qed

lemma insert_uref_succeeds: "u_from r \<in> node_ids db \<Longrightarrow> \<exists>db'. insert_uref r db = Inr db'"
  by (simp add: insert_uref_def Let_def)

section \<open>What is parked\<close>

text \<open>The key under which an inbound edge is parked, if its source is a node of another file.\<close>

definition park_key :: "gdb \<Rightarrow> string \<Rightarrow> string \<Rightarrow> edge \<Rightarrow> (int \<times> string \<times> string \<times> int \<times> int) set" where
  "park_key db file target_name e =
     {(e_source e, target_name, e_kind e, e_line e, e_col e) |src.
        src \<in> set (g_nodes db) \<and> n_id src = e_source e \<and> n_file src \<noteq> file}"

definition park_keys :: "gdb \<Rightarrow> string \<Rightarrow> (int \<times> string \<times> string \<times> int \<times> int) set" where
  "park_keys db file =
     (\<Union>t\<in>{t \<in> set (g_nodes db). n_file t = file \<and> n_kind t \<noteq> kind_file \<and> n_kind t \<noteq> kind_module}.
        \<Union>e\<in>{e \<in> set (g_edges db). e_target e = n_id t \<and> e_kind e \<in> set inbound_park_kinds}.
          park_key db file (n_name t) e)"

text \<open>Edges are recorded in the file of their source node, or in no file.\<close>

definition homed :: "gdb \<Rightarrow> bool" where
  "homed db \<longleftrightarrow> (\<forall>e\<in>set (g_edges db). \<forall>s\<in>set (g_nodes db).
     n_id s = e_source e \<longrightarrow> e_file e = [] \<or> e_file e = n_file s)"

definition parked :: "string \<Rightarrow> gdb \<Rightarrow> (int \<times> string \<times> string \<times> int \<times> int) set \<Rightarrow> gdb \<Rightarrow> bool" where
  "parked file db0 ks db \<longleftrightarrow>
     db_ok db \<and> refs_grow db0 db \<and> uref_key ` set (g_refs db) = uref_key ` set (g_refs db0) \<union> ks
     \<and> (\<forall>r\<in>set (g_refs db). uref_key r \<in> ks \<longrightarrow>
          u_status r = st_pending \<and> (homed db0 \<longrightarrow> u_file r \<noteq> file))"

lemma park_edge_parks:
  assumes "parked file db0 S db" "db_ok db0" "e \<in> set (g_edges db0)"
  shows "\<exists>db'. park_edge tn file e db = Inr db' \<and> parked file db0 (S \<union> park_key db0 file tn e) db'"
proof -
  have ok: "db_ok db" and nodes: "g_nodes db = g_nodes db0"
    using assms(1) by (simp_all add: parked_def refs_grow_def)
  have dist: "distinct (map n_id (g_nodes db0))" using assms(2) by (simp add: db_ok_def nodes_ok_def)
  note row = row_with_key_Some [OF dist, of "e_source e"]
  show ?thesis
  proof (cases "row_with_key n_id (e_source e) (g_nodes db0)")
    case None
    then have "park_key db0 file tn e = {}"
      unfolding park_key_def row_with_key_None by (auto simp: image_iff)
    then show ?thesis using assms(1) None by (simp add: park_edge_def nodes)
  next
    case (Some src)
    then have src: "src \<in> set (g_nodes db0)" "n_id src = e_source e" using row by auto
    show ?thesis
    proof (cases "n_file src = file")
      case True
      have "n_file s = file" if "s \<in> set (g_nodes db0)" "n_id s = e_source e" for s
      proof -
        have "row_with_key n_id (e_source e) (g_nodes db0) = Some s" using that row by blast
        then show ?thesis using Some True by simp
      qed
      then have "park_key db0 file tn e = {}" by (auto simp: park_key_def)
      then show ?thesis using assms(1) Some True by (simp add: park_edge_def nodes)
    next
      case False
      let ?r = "parked_ref src tn e"
      have key: "park_key db0 file tn e = {uref_key ?r}"
        using src False by (auto simp: park_key_def uref_key_def parked_ref_def)
      have st: "u_status ?r = st_pending" by (simp add: parked_ref_def)
      have "n_id src \<in> node_ids db" using src(1) by (simp add: node_ids_def nodes)
      then have "u_from ?r \<in> node_ids db" using src(2) by (simp add: parked_ref_def)
      then obtain db' where ins: "insert_uref ?r db = Inr db'"
        using insert_uref_succeeds by blast
      have home: "homed db0 \<longrightarrow> u_file ?r \<noteq> file"
        using assms(3) src False by (auto simp: homed_def parked_ref_def)
      have "u_status x = st_pending \<and> (homed db0 \<longrightarrow> u_file x \<noteq> file)"
        if "x \<in> set (g_refs db')" "uref_key x \<in> insert (uref_key ?r) S" for x
        using insert_uref_row [OF ins st, of "\<lambda>st f. st = st_pending \<and> (homed db0 \<longrightarrow> f \<noteq> file)" x]
          home that assms(1) by (auto simp: parked_def)
      moreover have "refs_grow db0 db'"
        using assms(1) insert_uref_grow [OF ins] refs_grow_trans by (auto simp: parked_def)
      moreover have "db_ok db'" by (rule insert_uref_ok [OF ins ok])
      ultimately have "parked file db0 (insert (uref_key ?r) S) db'"
        using assms(1) insert_uref_keys [OF ins] by (auto simp: parked_def)
      then show ?thesis using Some False ins by (simp add: park_edge_def nodes key)
    qed
  qed
qed

lemma park_target_parks:
  assumes "parked file db0 S db" "db_ok db0"
  shows "\<exists>db'. park_target file t db = Inr db' \<and> parked file db0
    (S \<union> (if n_kind t = kind_file \<or> n_kind t = kind_module then {}
      else \<Union>e\<in>{e \<in> set (g_edges db0). e_target e = n_id t \<and> e_kind e \<in> set inbound_park_kinds}.
             park_key db0 file (n_name t) e)) db'"
proof (cases "n_kind t = kind_file \<or> n_kind t = kind_module")
  case True
  then show ?thesis using assms(1) by (auto simp: park_target_def)
next
  case False
  have edges: "g_edges db = g_edges db0" using assms(1) by (simp add: parked_def refs_grow_def)
  let ?es = "filter (\<lambda>e. e_target e = n_id t \<and> e_kind e \<in> set inbound_park_kinds) (g_edges db0)"
  have "\<exists>v. park_edge (n_name t) file e u = Inr v
      \<and> parked file db0 (S' \<union> park_key db0 file (n_name t) e) v"
    if "e \<in> set ?es" "parked file db0 S' u" for e u S'
    using park_edge_parks [OF that(2) assms(2)] that(1) by simp
  from foldE_collect [where Cov = "parked file db0" and xs = ?es and f = "park_edge (n_name t) file"
      and K = "park_key db0 file (n_name t)", OF assms(1) this]
  show ?thesis
    using False by (simp add: park_target_def park_inbound_edges_for_node_def edges)
qed

lemma park_parks:
  assumes "db_ok db" "file \<noteq> []"
  shows "\<exists>db'. park_inbound_refs_for_file file db = Inr db' \<and> parked file db (park_keys db file) db'"
proof -
  let ?ts = "paged node_batch n_id (sort_key n_id (filter (\<lambda>n. n_file n = file) (g_nodes db))) 0"
  have ts: "set ?ts = {n \<in> set (g_nodes db). n_file n = file}"
    using paged_selection(1) [OF assms(1), of node_batch] by (simp add: node_batch_def)
  have start: "parked file db {} db" using assms(1) by (simp add: parked_def)
  obtain db' where db': "foldE (park_target file) ?ts db = Inr db'"
    "parked file db ({} \<union> (\<Union>t\<in>set ?ts. if n_kind t = kind_file \<or> n_kind t = kind_module then {}
      else \<Union>e\<in>{e \<in> set (g_edges db). e_target e = n_id t \<and> e_kind e \<in> set inbound_park_kinds}.
             park_key db file (n_name t) e)) db'"
    using foldE_collect [of "parked file db" "{}" db ?ts "park_target file", OF start park_target_parks [OF _ assms(1)]]
    by blast
  have "(\<Union>t\<in>set ?ts. if n_kind t = kind_file \<or> n_kind t = kind_module then {}
      else \<Union>e\<in>{e \<in> set (g_edges db). e_target e = n_id t \<and> e_kind e \<in> set inbound_park_kinds}.
             park_key db file (n_name t) e) = park_keys db file"
    unfolding ts park_keys_def by (auto split: if_splits)
  then show ?thesis using db' assms(2) by (simp add: park_inbound_refs_for_file_def)
qed

lemma park_keysI:
  assumes e: "e \<in> set (g_edges db)"
      "e_kind e \<in> {edge_calls, edge_references, edge_bridge, edge_extends, edge_implements}"
    and s: "s \<in> set (g_nodes db)" "n_id s = e_source e" "n_file s \<noteq> file"
    and t: "t \<in> set (g_nodes db)" "n_id t = e_target e" "n_file t = file"
      "n_kind t \<noteq> kind_file" "n_kind t \<noteq> kind_module"
  shows "(n_id s, n_name t, e_kind e, e_line e, e_col e) \<in> park_keys db file"
proof -
  have "(n_id s, n_name t, e_kind e, e_line e, e_col e) \<in> park_key db file (n_name t) e"
    using s by (auto simp: park_key_def)
  moreover have "e_kind e \<in> set inbound_park_kinds"
    using e(2) by (simp add: inbound_park_kinds_def)
  ultimately show ?thesis
    unfolding park_keys_def using e t by (intro UN_I [of t] UN_I [of e]) simp_all
qed

section \<open>Properties\<close>

text \<open>Parking never fails on a well-formed database, and
  afterwards every calls, references, bridge, extends or implements edge that goes from a node
  of another file to a symbol of the file has a pending reference under its own source, kind,
  line and column; nodes, edges and the references there were all stay.\<close>

theorem park_inbound_complete:
  assumes "db_ok db" "file \<noteq> []"
  shows "\<exists>db'. park_inbound_refs_for_file file db = Inr db' \<and> db_ok db' \<and> refs_grow db db'
    \<and> (\<forall>e\<in>set (g_edges db). \<forall>s\<in>set (g_nodes db). \<forall>t\<in>set (g_nodes db).
         n_id s = e_source e \<and> n_file s \<noteq> file \<and> n_id t = e_target e \<and> n_file t = file
         \<and> n_kind t \<noteq> kind_file \<and> n_kind t \<noteq> kind_module
         \<and> e_kind e \<in> {edge_calls, edge_references, edge_bridge, edge_extends, edge_implements}
         \<longrightarrow> (\<exists>r\<in>set (g_refs db'). u_from r = n_id s \<and> u_name r = n_name t \<and> u_kind r = e_kind e
               \<and> u_line r = e_line e \<and> u_col r = e_col e \<and> u_status r = st_pending))"
proof -
  obtain db' where db': "park_inbound_refs_for_file file db = Inr db'" "parked file db (park_keys db file) db'"
    using park_parks [OF assms] by blast
  have "\<exists>r\<in>set (g_refs db'). u_from r = n_id s \<and> u_name r = n_name t \<and> u_kind r = e_kind e
          \<and> u_line r = e_line e \<and> u_col r = e_col e \<and> u_status r = st_pending"
    if "e \<in> set (g_edges db)" "s \<in> set (g_nodes db)" "t \<in> set (g_nodes db)"
      "n_id s = e_source e" "n_file s \<noteq> file" "n_id t = e_target e" "n_file t = file"
      "n_kind t \<noteq> kind_file" "n_kind t \<noteq> kind_module"
      "e_kind e \<in> {edge_calls, edge_references, edge_bridge, edge_extends, edge_implements}" for e s t
  proof -
    note k = park_keysI [OF that(1,10,2,4,5,3,6-9)]
    then obtain r where r: "r \<in> set (g_refs db')"
        "uref_key r = (n_id s, n_name t, e_kind e, e_line e, e_col e)"
      using db'(2) by (force simp: parked_def)
    have "u_status r = st_pending" using db'(2) r k by (simp add: parked_def)
    then show ?thesis using r by (auto simp: uref_key_def)
  qed
  then show ?thesis using db' by (auto simp: parked_def)
qed

text \<open>References of other files survive the replacement of a file.\<close>

definition node_home :: "node \<Rightarrow> int \<times> string" where
  "node_home n = (n_id n, n_file n)"

definition homes_kept :: "gdb \<Rightarrow> gdb \<Rightarrow> bool" where
  "homes_kept db db' \<longleftrightarrow> set (map node_home (g_nodes db)) \<subseteq> set (map node_home (g_nodes db'))"

lemma homes_kept_trans: "homes_kept a b \<Longrightarrow> homes_kept b c \<Longrightarrow> homes_kept a c"
  unfolding homes_kept_def by (rule subset_trans)

lemma homes_keptE:
  assumes "homes_kept db db'" "s \<in> set (g_nodes db)"
  obtains s' where "s' \<in> set (g_nodes db')" "n_id s' = n_id s" "n_file s' = n_file s"
proof -
  have "node_home s \<in> set (map node_home (g_nodes db'))"
    using assms unfolding homes_kept_def by (metis image_eqI list.set_map subsetD)
  then obtain s' where "s' \<in> set (g_nodes db')" "node_home s = node_home s'" by auto
  then show ?thesis using that by (simp add: node_home_def)
qed

lemma put_node_frame:
  assumes "put_node upd n db = (db', i)" "keeps_row upd"
  shows "g_refs db' = g_refs db \<and> g_edges db' = g_edges db \<and> g_next_ref db' = g_next_ref db
    \<and> homes_kept db db'"
  using assms
proof (cases rule: put_node_cases)
  case (1 old)
  have "node_home \<circ> (\<lambda>r. if node_key r = node_key n then upd r n else r) = node_home"
    using assms(2) by (auto simp: keeps_row_def node_key_def node_home_def)
  then show ?thesis unfolding 1(4) homes_kept_def by (simp del: set_map)
next
  case 2
  then show ?thesis by (auto simp: homes_kept_def)
qed

lemma put_nodes_frame:
  "put_nodes upd ns db = (db', is) \<Longrightarrow> keeps_row upd
    \<Longrightarrow> g_refs db' = g_refs db \<and> g_edges db' = g_edges db \<and> g_next_ref db' = g_next_ref db
    \<and> homes_kept db db'"
proof (induction ns arbitrary: db db' "is")
  case (Cons n ns)
  obtain db1 i js where p: "put_node upd n db = (db1, i)" "put_nodes upd ns db1 = (db', js)"
    using Cons.prems(1) by (auto split: prod.splits)
  show ?case
    using put_node_frame [OF p(1) Cons.prems(2)] Cons.IH [OF p(2) Cons.prems(2)]
    by (simp, blast intro: homes_kept_trans)
qed (simp add: homes_kept_def)

lemma put_edge_refs: "put_edge ids mids e db = Inr db' \<Longrightarrow> g_refs db' = g_refs db"
  unfolding put_edge_def by (auto simp: bindE_eq_Inr upsert_edge_def split: if_splits)

lemma put_ref_keys: "put_ref ids mids r db = Inr db' \<Longrightarrow> uref_key ` set (g_refs db) \<subseteq> uref_key ` set (g_refs db')"
  unfolding put_ref_def using insert_uref_keys by (fastforce simp: bindE_eq_Inr)

lemma foldE_keys_grow:
  "foldE (put_ref ids mids) rs db = Inr db' \<Longrightarrow> uref_key ` set (g_refs db) \<subseteq> uref_key ` set (g_refs db')"
  by (rule foldE_invariant [where P = "\<lambda>d. uref_key ` set (g_refs db) \<subseteq> uref_key ` set (g_refs d)"])
    (assumption, rule order_refl, blast dest: put_ref_keys)

lemma replace_keeps_ref:
  assumes "replace_file_index store nodes edges refs frec mods now db = Inr (db', ids)"
    and "r \<in> set (g_refs db)" "u_file r \<noteq> store" "s \<in> set (g_nodes db)" "n_id s = u_from r" "n_file s \<noteq> store"
  shows "uref_key r \<in> uref_key ` set (g_refs db')"
  using assms(1)
proof (cases rule: replace_file_index_stages)
  case (1 db1 mids db4 db5 db6)
  let ?d = "delete_nodes_of_file store (delete_refs_of_file store db1)"
  have r1: "g_refs db1 = g_refs db" using put_nodes_frame [OF 1(1)] by simp
  have "homes_kept db db1" using put_nodes_frame [OF 1(1)] by simp
  then obtain s' where "s' \<in> set (g_nodes db1)" "n_id s' = u_from r" "n_file s' \<noteq> store"
    using assms(4-6) by (metis homes_keptE)
  then have "r \<in> set (g_refs ?d)"
    using assms(2,3) r1 by (force simp: delete_nodes_of_file_def delete_refs_of_file_def Let_def)
  moreover have "g_refs db4 = g_refs ?d" using put_nodes_frame [OF 1(2)] by simp
  moreover have "g_refs db5 = g_refs db4" using 1(3) by (rule foldE_frame) (rule put_edge_refs)
  ultimately have "uref_key r \<in> uref_key ` set (g_refs db5)" by simp
  then have "uref_key r \<in> uref_key ` set (g_refs db6)" using foldE_keys_grow [OF 1(4)] by blast
  then show ?thesis using 1(5) by (auto simp: upsert_file_def split: option.splits)
qed

text \<open>C6 (\<open>reindex_keeps_inbound\<close>).  Parking followed by the replacement of the file loses no
  inbound symbol edge: the edge's reference is in the table afterwards, under the same source,
  symbol name, kind and position, although the nodes it pointed to are gone.  Edges are recorded
  in the file of their source.\<close>

theorem reindex_keeps_inbound:
  assumes "db_ok db" "homed db" "file \<noteq> []"
    and park: "park_inbound_refs_for_file file db = Inr db1"
    and repl: "replace_file_index file nodes edges refs frec mods now db1 = Inr (db2, ids)"
    and e: "e \<in> set (g_edges db)"
      "e_kind e \<in> {edge_calls, edge_references, edge_bridge, edge_extends, edge_implements}"
    and s: "s \<in> set (g_nodes db)" "n_id s = e_source e" "n_file s \<noteq> file"
    and t: "t \<in> set (g_nodes db)" "n_id t = e_target e" "n_file t = file"
      "n_kind t \<noteq> kind_file" "n_kind t \<noteq> kind_module"
  shows "(n_id s, n_name t, e_kind e, e_line e, e_col e) \<in> uref_key ` set (g_refs db2)"
proof -
  let ?k = "(n_id s, n_name t, e_kind e, e_line e, e_col e)"
  have db1: "parked file db (park_keys db file) db1"
    using park_parks [OF assms(1,3)] park by simp
  have k: "?k \<in> park_keys db file" by (rule park_keysI [OF e s t])
  then obtain r where r: "r \<in> set (g_refs db1)" "uref_key r = ?k"
    using db1 by (force simp: parked_def)
  have "u_file r \<noteq> file" using db1 r k assms(2) by (simp add: parked_def)
  moreover have "s \<in> set (g_nodes db1)" using s(1) db1 by (simp add: parked_def refs_grow_def)
  moreover have "n_id s = u_from r" using r(2) by (simp add: uref_key_def)
  ultimately have "uref_key r \<in> uref_key ` set (g_refs db2)"
    using replace_keeps_ref [OF repl r(1)] s(3) by blast
  then show ?thesis unfolding r(2) .
qed

text \<open>Re-indexing \<^verbatim>\<open>b.go\<close> of the sample database parks the call of \<^verbatim>\<open>Old\<close> by \<^verbatim>\<open>main\<close>.\<close>

definition sample_parked :: uref where
  "sample_parked = parked_ref (sample_node 1 kind_function ''main'' ''a.go'' 3) ''Old'' (sample_edge 1 2)"

lemma sample_ref_fields [simp]:
  "u_kind sample_parked = edge_calls" "u_name sample_parked = ''Old''" "u_status sample_parked = st_pending"
  "u_file sample_parked = ''a.go''" "u_from sample_parked = 1" "u_line sample_parked = 7"
  "u_language sample_parked = ''go''" "u_col sample_parked = 0" "u_candidates sample_parked = []"
  by (simp_all add: sample_parked_def parked_ref_def sample_node_def sample_edge_def)

lemma sample_park:
  "park_inbound_refs_for_file ''b.go'' sample_db =
     Inr (sample_db\<lparr>g_refs := [sample_parked\<lparr>u_id := 1\<rparr>], g_next_ref := 2\<rparr>)"
proof -
  have srt: "paged node_batch n_id (sort_key n_id (filter (\<lambda>n. n_file n = ''b.go'') (g_nodes sample_db))) 0
      = [sample_node 2 kind_function ''Old'' ''b.go'' 5]"
    by (simp add: sample_defs node_batch_def paged.simps)
  show ?thesis
    unfolding park_inbound_refs_for_file_def srt
    by (simp add: sample_parked_def park_target_def park_inbound_edges_for_node_def park_edge_def
        inbound_park_kinds_def sample_defs parked_ref_def store_eval del: set_filter)
qed

theorem park_inbound_complete_witness:
  "\<exists>r\<in>set (g_refs (projr (park_inbound_refs_for_file ''b.go'' sample_db))).
     u_from r = 1 \<and> u_name r = ''Old'' \<and> u_kind r = edge_calls \<and> u_status r = st_pending"
proof -
  obtain db' where db': "park_inbound_refs_for_file ''b.go'' sample_db = Inr db'"
    "\<forall>e\<in>set (g_edges sample_db). \<forall>s\<in>set (g_nodes sample_db). \<forall>t\<in>set (g_nodes sample_db).
         n_id s = e_source e \<and> n_file s \<noteq> ''b.go'' \<and> n_id t = e_target e \<and> n_file t = ''b.go''
         \<and> n_kind t \<noteq> kind_file \<and> n_kind t \<noteq> kind_module
         \<and> e_kind e \<in> {edge_calls, edge_references, edge_bridge, edge_extends, edge_implements}
         \<longrightarrow> (\<exists>r\<in>set (g_refs db'). u_from r = n_id s \<and> u_name r = n_name t \<and> u_kind r = e_kind e
               \<and> u_line r = e_line e \<and> u_col r = e_col e \<and> u_status r = st_pending)"
    using park_inbound_complete [OF sample_db_ok, of "''b.go''"] by blast
  have "\<exists>r\<in>set (g_refs db'). u_from r = 1 \<and> u_name r = ''Old'' \<and> u_kind r = edge_calls
      \<and> u_line r = 7 \<and> u_col r = 0 \<and> u_status r = st_pending"
    using db'(2) by (simp add: sample_defs)
  then show ?thesis unfolding db'(1) by auto
qed

theorem reindex_keeps_inbound_witness:
  "(1, ''Old'', edge_calls, 7, 0) \<in> uref_key ` set (g_refs (fst (projr
     (replace_file_index ''b.go'' [sample_node 0 kind_function ''New'' ''b.go'' 5] [] [] None [] 9
        (projr (park_inbound_refs_for_file ''b.go'' sample_db))))))"
proof -
  let ?r = "replace_file_index ''b.go'' [sample_node 0 kind_function ''New'' ''b.go'' 5] [] [] None [] 9
        (sample_db\<lparr>g_refs := [sample_parked\<lparr>u_id := 1\<rparr>], g_next_ref := 2\<rparr>)"
  obtain db2 ids where r: "?r = Inr (db2, ids)"
    by (auto simp: replace_file_index_def Let_def split_def)
  have h: "homed sample_db" by (simp add: homed_def sample_defs)
  have m: "sample_edge 1 2 \<in> set (g_edges sample_db)"
    "sample_node 1 kind_function ''main'' ''a.go'' 3 \<in> set (g_nodes sample_db)"
    "sample_node 2 kind_function ''Old'' ''b.go'' 5 \<in> set (g_nodes sample_db)"
    by (simp_all add: sample_db_def)
  have "(1, ''Old'', edge_calls, 7, 0) \<in> uref_key ` set (g_refs db2)"
    using reindex_keeps_inbound [OF sample_db_ok h _ sample_park r m(1) _ m(2) _ _ m(3)]
    by (simp add: sample_node_def sample_edge_def)
  then show ?thesis unfolding sample_park sum.sel r fst_conv .
qed

end
