(* ===== verification/Index_Builder.thy ===== *)
theory Index_Builder
  imports Ref_Parking
begin

text \<open>
  The write side of indexing one file (\<^verbatim>\<open>indexFile\<close> of \<^verbatim>\<open>internal/extraction/index_writer.go\<close>):
  from the extractor's symbols, edges and references, the framework routes and the language
  bridges it builds one batch with placeholder ids, links what the file itself defines, parks
  the rest as unresolved references, and hands the batch to \<^verbatim>\<open>ParkInboundRefsForFile\<close> and
  \<^verbatim>\<open>ReplaceFileIndex\<close>.  The noise rules are those of \<^verbatim>\<open>noise.go\<close>.  The outputs of the
  extractor and of the two detectors are arguments.
\<close>

section \<open>Extractor output\<close>

record xnode =
  x_kind :: string
  x_name :: string
  x_line :: int
  x_end_line :: int
  x_body :: string
  x_qname :: string
  x_signature :: string
  x_docstring :: string
  x_visibility :: string
  x_exported :: bool
  x_return :: string
  x_start_col :: int
  x_end_col :: int

record xedge =
  xe_source :: string
  xe_target :: string
  xe_kind :: string
  xe_line :: int
  xe_col :: int

record xref =
  xr_from :: string
  xr_from_line :: int
  xr_name :: string
  xr_kind :: string
  xr_line :: int
  xr_col :: int

record route =
  rt_method :: string
  rt_path :: string
  rt_handler :: string
  rt_line :: int
  rt_qname :: string

record bridge =
  br_target :: string
  br_line :: int

record extraction =
  ex_nodes :: "xnode list"
  ex_edges :: "xedge list"
  ex_refs :: "xref list"

section \<open>Noise\<close>

definition noisy_ref_names :: "string list" where
  "noisy_ref_names =
     [''setState'', ''forceUpdate'', ''addEventListener'', ''removeEventListener'',
      ''preventDefault'', ''stopPropagation'', ''stopImmediatePropagation'',
      ''setTimeout'', ''setInterval'', ''clearTimeout'', ''clearInterval'',
      ''requestAnimationFrame'', ''cancelAnimationFrame'',
      ''emit'', ''on'', ''off'', ''once'', ''addListener'', ''removeListener'',
      ''cb'', ''callback'', ''log'', ''warn'', ''debug'', ''info'', ''trace'',
      ''then'', ''catch'', ''finally'',
      ''defineProps'', ''defineEmits'', ''defineExpose'', ''defineOptions'', ''defineSlots'',
      ''defineModel'', ''withDefaults'',
      ''$props'', ''$state'', ''$derived'', ''$effect'', ''$bindable'', ''$inspect'', ''$host'',
      ''$snippet'']"

definition is_noisy_ref_name :: "string \<Rightarrow> bool" where
  "is_noisy_ref_name name0 \<longleftrightarrow>
     (let name = trim_space name0 in
      name = [] \<or> name \<in> set noisy_ref_names
      \<or> (case after_last {dot, CHR ''#''} name of
           None \<Rightarrow> False
         | Some tail \<Rightarrow> tail \<in> set noisy_ref_names))"

definition node_by_name_cap :: nat where
  "node_by_name_cap = 10000"

definition get_node_by_name :: "string \<Rightarrow> gdb \<Rightarrow> node list" where
  "get_node_by_name name db =
     take node_by_name_cap (sort_key n_id (filter (\<lambda>n. n_name n = name) (g_nodes db)))"

definition has_project_symbol :: "gdb \<Rightarrow> string \<Rightarrow> bool" where
  "has_project_symbol db ref =
     list_ex (\<lambda>n. get_node_by_name n db \<noteq> [])
       (ref # (let tail = ref_name_tail ref in if tail \<noteq> [] \<and> tail \<noteq> ref then [tail] else []))"

definition should_park_ref :: "gdb \<Rightarrow> string \<Rightarrow> bool" where
  "should_park_ref db ref \<longleftrightarrow> ref \<noteq> [] \<and> (\<not> is_noisy_ref_name ref \<or> has_project_symbol db ref)"

text \<open>\<^verbatim>\<open>ScrubNoisyFailedRefsForFiles\<close>: the failed list first, then the pending one.\<close>

definition scrub_list :: "uref list \<Rightarrow> gdb \<Rightarrow> gdb \<times> nat" where
  "scrub_list refs db =
     (let drop = filter (\<lambda>r. is_noisy_ref_name (u_name r) \<and> \<not> has_project_symbol db (u_name r)) refs
      in (foldl (\<lambda>d r. delete_uref (u_id r) d) db drop, length drop))"

definition scrub_noisy_failed_refs :: "gdb \<Rightarrow> gdb \<times> nat" where
  "scrub_noisy_failed_refs db =
     (let (db1, n1) = scrub_list (list_unresolved_refs [] st_failed db) db;
          (db2, n2) = scrub_list (list_unresolved_refs [] st_pending db1) db1
      in (db2, n1 + n2))"

section \<open>Nodes of the batch\<close>

definition bare_rank :: "string \<Rightarrow> nat" where
  "bare_rank kind =
     (if kind \<in> {kind_function, kind_method, ''component'', ''constructor''} then 3
      else if kind \<in> {kind_class, ''struct'', ''interface'', ''type''} then 2
      else if kind = ''route'' then 1 else 0)"

definition simplify_handler_name :: "string \<Rightarrow> string" where
  "simplify_handler_name h0 =
     (let h = trim_space h0 in
      if h = [] then h
      else case after_last {CHR ''@''} h of
        Some s \<Rightarrow> s
      | None \<Rightarrow>
          (case after_last {dot} h of
             Some s \<Rightarrow> trim_set {CHR ''('', CHR '')'', CHR '' ''} s
           | None \<Rightarrow> trim_set {CHR '' ''} (trim_suffix h ''()'')))"

definition route_name :: "route \<Rightarrow> string" where
  "route_name r = rt_method r @ '' '' @ rt_path r"

definition route_node :: "route \<Rightarrow> xnode" where
  "route_node r =
     \<lparr>x_kind = ''route'', x_name = route_name r, x_line = rt_line r, x_end_line = rt_line r,
      x_body = simplify_handler_name (trim_space (rt_handler r)), x_qname = rt_qname r,
      x_signature = [], x_docstring = [], x_visibility = [], x_exported = False, x_return = [],
      x_start_col = 0, x_end_col = 0\<rparr>"

definition file_node :: "string \<Rightarrow> string \<Rightarrow> node" where
  "file_node store lang =
     \<lparr>n_id = 0, n_kind = kind_file, n_name = store, n_file = store, n_line = 0, n_end_line = 0,
      n_body = [], n_language = lang, n_qname = [], n_signature = [], n_docstring = [],
      n_start_col = 0, n_end_col = 0, n_visibility = [], n_exported = False, n_return = []\<rparr>"

definition symbol_node :: "string \<Rightarrow> string \<Rightarrow> xnode \<Rightarrow> node" where
  "symbol_node store lang x =
     \<lparr>n_id = 0, n_kind = x_kind x, n_name = x_name x, n_file = store, n_line = x_line x,
      n_end_line = x_end_line x, n_body = x_body x, n_language = lang, n_qname = x_qname x,
      n_signature = x_signature x, n_docstring = x_docstring x, n_start_col = x_start_col x,
      n_end_col = x_end_col x, n_visibility = x_visibility x, n_exported = x_exported x,
      n_return = x_return x\<rparr>"

definition conflict_key :: "node \<Rightarrow> string" where
  "conflict_key n =
     n_file n @ [CHR 0x00] @ itoa (n_line n) @ [CHR 0x00] @ n_kind n @ [CHR 0x00] @ n_name n"

definition batch_nodes :: "string \<Rightarrow> string \<Rightarrow> xnode list \<Rightarrow> node list" where
  "batch_nodes store lang xs =
     dedup_by conflict_key {} (file_node store lang # map (symbol_node store lang) xs)"

section \<open>Lookup maps\<close>

text \<open>
  \<open>nm_idx\<close> is \<^verbatim>\<open>nodeIdx\<close>, \<open>nm_bare\<close> is \<^verbatim>\<open>bareBest\<close> (index, rank, line), \<open>nm_ambiguous\<close> and
  \<open>nm_all\<close> are \<^verbatim>\<open>ambiguous\<close> and \<^verbatim>\<open>nameIdx\<close>.
\<close>

record name_maps =
  nm_idx :: "string \<Rightarrow> nat option"
  nm_bare :: "string \<Rightarrow> (nat \<times> nat \<times> int) option"
  nm_ambiguous :: "string set"
  nm_all :: "string \<Rightarrow> nat list"

definition empty_maps :: name_maps where
  "empty_maps = \<lparr>nm_idx = (\<lambda>_. None), nm_bare = (\<lambda>_. None), nm_ambiguous = {}, nm_all = (\<lambda>_. [])\<rparr>"

definition name_line_key :: "string \<Rightarrow> int \<Rightarrow> string" where
  "name_line_key name line = name @ '':'' @ itoa line"

definition scan_node :: "name_maps \<Rightarrow> nat \<times> node \<Rightarrow> name_maps" where
  "scan_node m p =
     (let (i, n) = p;
          m1 = m\<lparr>nm_idx := (nm_idx m)(name_line_key (n_name n) (n_line n) \<mapsto> i)\<rparr>
      in if n_kind n = ''signature'' then m1
         else
           (let rank = bare_rank (n_kind n);
                m2 = m1\<lparr>nm_all := (nm_all m1)(n_name n := nm_all m1 (n_name n) @ [i])\<rparr>
            in case nm_bare m (n_name n) of
                 None \<Rightarrow> m2\<lparr>nm_bare := (nm_bare m2)(n_name n \<mapsto> (i, rank, n_line n))\<rparr>
               | Some (j, prank, pline) \<Rightarrow>
                   (let m3 = (if pline \<noteq> n_line n \<or> prank \<noteq> rank
                              then m2\<lparr>nm_ambiguous := insert (n_name n) (nm_ambiguous m2)\<rparr> else m2)
                    in if prank < rank \<or> (rank = prank \<and> n_line n < pline)
                       then m3\<lparr>nm_bare := (nm_bare m3)(n_name n \<mapsto> (i, rank, n_line n))\<rparr> else m3)))"

definition scan_nodes :: "node list \<Rightarrow> name_maps" where
  "scan_nodes ns = foldl scan_node empty_maps (tl (enumerate 0 ns))"

definition same_file_bare :: "name_maps \<Rightarrow> string \<Rightarrow> nat option" where
  "same_file_bare m name =
     (if name \<in> nm_ambiguous m then None else map_option fst (nm_bare m name))"

definition node_index :: "name_maps \<Rightarrow> string \<Rightarrow> nat option" where
  "node_index m key = (case same_file_bare m key of Some i \<Rightarrow> Some i | None \<Rightarrow> nm_idx m key)"

definition resolve_source_idx :: "name_maps \<Rightarrow> string \<Rightarrow> int \<Rightarrow> int" where
  "resolve_source_idx m name line =
     (if name = [] then 0
      else case (if 0 < line then node_index m (name_line_key name line) else None) of
             Some i \<Rightarrow> int i
           | None \<Rightarrow> (case node_index m name of Some i \<Rightarrow> int i | None \<Rightarrow> -1))"

section \<open>Linking one reference\<close>

datatype link = Link_none | Link_edge edge | Link_park uref

definition placeholder :: "nat \<Rightarrow> int" where
  "placeholder i = - (int i + 1)"

definition end_line_of :: "node \<Rightarrow> int" where
  "end_line_of n = (if n_end_line n = 0 then n_line n else n_end_line n)"

definition contains_line :: "node \<Rightarrow> int \<Rightarrow> bool" where
  "contains_line n line \<longleftrightarrow>
     \<not> (n_kind n = kind_file \<or> n_kind n = kind_module \<or> n_kind n = ''signature'')
     \<and> n_line n \<le> line \<and> line \<le> end_line_of n"

definition exact_edge :: "string \<Rightarrow> nat \<Rightarrow> nat \<Rightarrow> string \<Rightarrow> int \<Rightarrow> int \<Rightarrow> edge" where
  "exact_edge store src tgt kind line col =
     \<lparr>e_source = placeholder src, e_target = placeholder tgt, e_kind = kind, e_file = store,
      e_line = line, e_col = col, e_provenance = ''exact'', e_metadata = []\<rparr>"

definition pending_ref :: "string \<Rightarrow> string \<Rightarrow> nat \<Rightarrow> string \<Rightarrow> string \<Rightarrow> int \<Rightarrow> int \<Rightarrow> uref" where
  "pending_ref store lang src target kind line col =
     \<lparr>u_id = 0, u_from = placeholder src, u_name = target, u_kind = kind, u_line = line,
      u_col = col, u_file = store, u_language = lang, u_status = st_pending, u_attempts = 0,
      u_tail = ref_name_tail target, u_candidates = []\<rparr>"

text \<open>
  The same-file target of a name: its only definition, or, when the name is ambiguous, the only
  definition whose lines contain the reference.
\<close>

definition same_file_target :: "node list \<Rightarrow> name_maps \<Rightarrow> string \<Rightarrow> int \<Rightarrow> nat option" where
  "same_file_target ns m target line =
     (case (case same_file_bare m target of Some t \<Rightarrow> if 0 < t then Some t else None | None \<Rightarrow> None) of
        Some t \<Rightarrow> Some t
      | None \<Rightarrow>
          (let idxs = nm_all m target; inside = filter (\<lambda>i. contains_line (ns ! i) line) idxs in
           if 1 < length idxs \<and> length inside = 1 then Some (hd inside) else None))"

definition link_ref ::
  "gdb \<Rightarrow> string \<Rightarrow> string \<Rightarrow> node list \<Rightarrow> name_maps \<Rightarrow> int \<Rightarrow> string \<Rightarrow> int \<Rightarrow> int \<Rightarrow> string \<Rightarrow> link" where
  "link_ref db store lang ns m src target line col kind =
     (if src < 0 \<or> target = [] then Link_none
      else case same_file_target ns m target line of
        Some t \<Rightarrow> Link_edge (exact_edge store (nat src) t kind line col)
      | None \<Rightarrow>
          if should_park_ref db target
          then Link_park (pending_ref store lang (nat src) target kind line col)
          else Link_none)"

section \<open>The batch\<close>

text \<open>
  Import targets: an existing node of that name (a module node if there is one), or a queued
  module node.  The state is the list of queued module names.
\<close>

definition import_target :: "gdb \<Rightarrow> nat \<Rightarrow> string list \<Rightarrow> xedge \<Rightarrow> string list \<times> int" where
  "import_target db nbatch mods e =
     (case get_node_by_name (xe_target e) db of
        n # ns \<Rightarrow>
          (mods, case find (\<lambda>t. n_kind t = kind_module) (n # ns) of Some t \<Rightarrow> n_id t | None \<Rightarrow> n_id n)
      | [] \<Rightarrow>
          (let mods1 = (if xe_target e \<in> set mods then mods else mods @ [xe_target e]);
               idx = length (takeWhile (\<lambda>x. x \<noteq> xe_target e) mods1)
           in (mods1, - int (nbatch + idx + 1))))"

fun import_targets :: "gdb \<Rightarrow> nat \<Rightarrow> string list \<Rightarrow> xedge list \<Rightarrow> string list \<times> int option list" where
  "import_targets db nbatch mods [] = (mods, [])"
| "import_targets db nbatch mods (e # es) =
     (if xe_kind e \<noteq> edge_imports then
        (let (mods1, ts) = import_targets db nbatch mods es in (mods1, None # ts))
      else
        (let (mods1, t) = import_target db nbatch mods e;
             (mods2, ts) = import_targets db nbatch mods1 es
         in (mods2, (if t \<noteq> 0 then Some t else None) # ts)))"

definition module_node :: "string \<Rightarrow> string \<Rightarrow> node" where
  "module_node lang name = (file_node name lang)\<lparr>n_kind := kind_module\<rparr>"

definition import_edge :: "string \<Rightarrow> xedge \<Rightarrow> int \<Rightarrow> edge" where
  "import_edge store e t =
     \<lparr>e_source = placeholder 0, e_target = t, e_kind = edge_imports, e_file = store,
      e_line = xe_line e, e_col = 0, e_provenance = ''exact'', e_metadata = []\<rparr>"

text \<open>The enclosing function of a bridge: the innermost (last starting) one around its line.\<close>

definition bridge_source :: "name_maps \<Rightarrow> xnode list \<Rightarrow> int \<Rightarrow> int" where
  "bridge_source m xs line =
     (let step = (\<lambda>(src, best) n.
            if x_kind n \<noteq> kind_function \<and> x_kind n \<noteq> kind_method then (src, best)
            else
              (let endl = (if x_end_line n = 0 then x_line n else x_end_line n) in
               if x_line n \<le> line \<and> line \<le> endl \<and> x_line n \<ge> best
               then (case node_index m (name_line_key (x_name n) (x_line n)) of
                       Some i \<Rightarrow> (int i, x_line n) | None \<Rightarrow> (src, best))
               else (src, best)));
          src = fst (foldl step (-1, -1) xs)
      in if src < 0 then 0 else src)"

record batch =
  b_nodes :: "node list"
  b_edges :: "edge list"
  b_parks :: "uref list"
  b_modules :: "node list"

definition links_edges :: "link list \<Rightarrow> edge list" where
  "links_edges ls = concat (map (\<lambda>l. case l of Link_edge e \<Rightarrow> [e] | _ \<Rightarrow> []) ls)"

definition links_parks :: "link list \<Rightarrow> uref list" where
  "links_parks ls = concat (map (\<lambda>l. case l of Link_park r \<Rightarrow> [r] | _ \<Rightarrow> []) ls)"

text \<open>
  The links in the order the code makes them: routes, structural edges, references, bridges.
  Import edges take part in the same sequence.
\<close>

definition route_links ::
  "gdb \<Rightarrow> string \<Rightarrow> string \<Rightarrow> node list \<Rightarrow> name_maps \<Rightarrow> route list \<Rightarrow> link list" where
  "route_links db store lang ns m routes =
     concat (map (\<lambda>r.
       (let handler = simplify_handler_name (rt_handler r) in
        if handler = [] then []
        else case node_index m (name_line_key (route_name r) (rt_line r)) of
               None \<Rightarrow> []
             | Some i \<Rightarrow> [link_ref db store lang ns m (int i) handler (rt_line r) 0 edge_references])) routes)"

definition edge_links ::
  "gdb \<Rightarrow> string \<Rightarrow> string \<Rightarrow> node list \<Rightarrow> name_maps \<Rightarrow> (xedge \<times> int option) list \<Rightarrow> link list" where
  "edge_links db store lang ns m es =
     concat (map (\<lambda>(e, t).
       if xe_kind e = edge_imports then (case t of Some t \<Rightarrow> [Link_edge (import_edge store e t)] | None \<Rightarrow> [])
       else
         (let src = resolve_source_idx m (xe_source e) (xe_line e) in
          if src < 0 then []
          else [link_ref db store lang ns m src (xe_target e) (xe_line e) (xe_col e) (xe_kind e)])) es)"

definition ref_links ::
  "gdb \<Rightarrow> string \<Rightarrow> string \<Rightarrow> node list \<Rightarrow> name_maps \<Rightarrow> xref list \<Rightarrow> link list" where
  "ref_links db store lang ns m refs =
     map (\<lambda>r.
       (let src0 = resolve_source_idx m (xr_from r) (xr_from_line r);
            src = (if src0 < 0 then 0 else src0);
            kind = (if xr_kind r = [] then edge_calls else xr_kind r)
        in link_ref db store lang ns m src (xr_name r) (xr_line r) (xr_col r) kind)) refs"

definition bridge_links ::
  "gdb \<Rightarrow> string \<Rightarrow> string \<Rightarrow> node list \<Rightarrow> name_maps \<Rightarrow> xnode list \<Rightarrow> bridge list \<Rightarrow> link list" where
  "bridge_links db store lang ns m xs bs =
     concat (map (\<lambda>b.
       (let target = trim_space (br_target b) in
        if target = [] then []
        else [link_ref db store lang ns m (bridge_source m xs (br_line b)) target (br_line b) 0 ''bridge''])) bs)"

definition all_nodes :: "extraction \<Rightarrow> route list \<Rightarrow> xnode list" where
  "all_nodes ex routes = ex_nodes ex @ map route_node routes"

definition build_links ::
  "gdb \<Rightarrow> string \<Rightarrow> string \<Rightarrow> extraction \<Rightarrow> route list \<Rightarrow> bridge list \<Rightarrow> link list" where
  "build_links db store lang ex routes bridges =
     (let xs = all_nodes ex routes;
          ns = batch_nodes store lang xs;
          m = scan_nodes ns;
          ts = snd (import_targets db (length ns) [] (ex_edges ex))
      in route_links db store lang ns m routes
         @ edge_links db store lang ns m (zip (ex_edges ex) ts)
         @ ref_links db store lang ns m (ex_refs ex)
         @ bridge_links db store lang ns m xs bridges)"

definition build_batch ::
  "gdb \<Rightarrow> string \<Rightarrow> string \<Rightarrow> extraction \<Rightarrow> route list \<Rightarrow> bridge list \<Rightarrow> batch" where
  "build_batch db store lang ex routes bridges =
     (let ns = batch_nodes store lang (all_nodes ex routes);
          links = build_links db store lang ex routes bridges;
          mods = fst (import_targets db (length ns) [] (ex_edges ex))
      in \<lparr>b_nodes = ns, b_edges = links_edges links, b_parks = links_parks links,
          b_modules = map (module_node lang) mods\<rparr>)"

section \<open>IndexFile\<close>

datatype extract_error = Extract_ok | Ts_timeout | Extract_failed

datatype index_error = Keep_old_index | Write_failed db_error

definition file_has_content_hash :: "string \<Rightarrow> string \<Rightarrow> gdb \<Rightarrow> bool" where
  "file_has_content_hash path hash db \<longleftrightarrow>
     hash \<noteq> [] \<and> (case row_with_key f_path path (g_files db) of None \<Rightarrow> False | Some f \<Rightarrow> f_hash f = hash)"

definition touch_file_meta :: "string \<Rightarrow> int \<Rightarrow> int \<Rightarrow> string \<Rightarrow> int \<Rightarrow> gdb \<Rightarrow> gdb" where
  "touch_file_meta path sz mtime hash now db =
     db\<lparr>g_files := map (\<lambda>f. if f_path f = path
          then f\<lparr>f_size := sz, f_mtime := mtime, f_hash := hash, f_indexed_at := now\<rparr> else f) (g_files db)\<rparr>"

definition get_file_node_count :: "string \<Rightarrow> gdb \<Rightarrow> int" where
  "get_file_node_count path db =
     (case row_with_key f_path path (g_files db) of None \<Rightarrow> 0 | Some f \<Rightarrow> f_node_count f)"

text \<open>
  \<open>ts_errored\<close> and \<open>err\<close> are the two other results of \<^verbatim>\<open>extractFile\<close>; \<open>stat\<close> is size and mtime of the
  file when it can be read.
\<close>

definition keeps_old_index :: "gdb \<Rightarrow> string \<Rightarrow> extraction \<Rightarrow> bool \<Rightarrow> extract_error \<Rightarrow> bool" where
  "keeps_old_index db store ex ts_errored err \<longleftrightarrow>
     (err = Ts_timeout \<and> 0 < get_file_node_count store db)
     \<or> err = Extract_failed
     \<or> (ts_errored \<and> ex_nodes ex = [] \<and> ex_edges ex = [] \<and> ex_refs ex = []
        \<and> 0 < get_file_node_count store db)"

definition write_batch ::
  "string \<Rightarrow> string \<Rightarrow> nat \<Rightarrow> (int \<times> int) option \<Rightarrow> string \<Rightarrow> int \<Rightarrow> batch \<Rightarrow> gdb \<Rightarrow> db_error + gdb" where
  "write_batch store lang ncount stat hash now b db =
     bindE (park_inbound_refs_for_file store db) (\<lambda>db1.
       let fr = \<lparr>f_path = store,
                 f_size = (case stat of Some (s, t) \<Rightarrow> s | None \<Rightarrow> 0),
                 f_mtime = (case stat of Some (s, t) \<Rightarrow> t | None \<Rightarrow> 0),
                 f_indexed_at = 0, f_hash = hash, f_language = lang, f_node_count = int ncount\<rparr>
       in bindE (replace_file_index store (b_nodes b) (b_edges b) (b_parks b) (Some fr) (b_modules b) now db1)
            (\<lambda>(db2, ids). Inr db2))"

text \<open>The database afterwards, and the number of nodes or the error.\<close>

definition index_file ::
  "bool \<Rightarrow> string \<Rightarrow> string \<Rightarrow> string \<Rightarrow> (int \<times> int) option \<Rightarrow> int \<Rightarrow> extraction \<Rightarrow> bool \<Rightarrow> extract_error
     \<Rightarrow> route list \<Rightarrow> bridge list \<Rightarrow> gdb \<Rightarrow> gdb \<times> (index_error + nat)" where
  "index_file force store lang hash stat now ex ts_errored err routes bridges db =
     (if \<not> force \<and> file_has_content_hash store hash db then
        ((case stat of Some (s, t) \<Rightarrow> touch_file_meta store s t hash now db | None \<Rightarrow> db), Inr 0)
      else if keeps_old_index db store ex ts_errored err then (db, Inl Keep_old_index)
      else
        (let ncount = length (all_nodes ex routes) in
         case write_batch store lang ncount stat hash now (build_batch db store lang ex routes bridges) db of
           Inl e \<Rightarrow> ((case park_inbound_refs_for_file store db of Inr db1 \<Rightarrow> db1 | Inl _ \<Rightarrow> db), Inl (Write_failed e))
         | Inr db2 \<Rightarrow> (db2, Inr ncount)))"

section \<open>The lookup maps\<close>

definition named_at :: "node list \<Rightarrow> string \<Rightarrow> nat \<Rightarrow> nat list" where
  "named_at ns name k = filter (\<lambda>i. n_name (ns ! i) = name \<and> n_kind (ns ! i) \<noteq> ''signature'') [1..<k]"

text \<open>The entry of one name: the definitions \<open>is\<close>, the best of them, and the ambiguity flag.\<close>

definition entry_ok :: "node list \<Rightarrow> nat list \<Rightarrow> (nat \<times> nat \<times> int) option \<Rightarrow> bool \<Rightarrow> bool" where
  "entry_ok ns is b amb \<longleftrightarrow>
     (case b of None \<Rightarrow> is = []
      | Some (i, r, l) \<Rightarrow> i \<in> set is \<and> r = bare_rank (n_kind (ns ! i)) \<and> l = n_line (ns ! i)
          \<and> (\<not> amb \<longrightarrow> (\<forall>j\<in>set is. n_line (ns ! j) = l \<and> bare_rank (n_kind (ns ! j)) = r)))"

definition maps_inv :: "node list \<Rightarrow> nat \<Rightarrow> name_maps \<Rightarrow> bool" where
  "maps_inv ns k m \<longleftrightarrow>
     (\<forall>key i. nm_idx m key = Some i \<longrightarrow> i < k)
     \<and> (\<forall>name. nm_all m name = named_at ns name k)
     \<and> (\<forall>name. entry_ok ns (named_at ns name k) (nm_bare m name) (name \<in> nm_ambiguous m))"

lemma named_at_Suc:
  "1 \<le> k \<Longrightarrow> named_at ns name (Suc k) = named_at ns name k @
     (if n_name (ns ! k) = name \<and> n_kind (ns ! k) \<noteq> ''signature'' then [k] else [])"
  by (simp add: named_at_def)

lemma maps_inv_start: "maps_inv ns 1 empty_maps"
  by (simp add: maps_inv_def empty_maps_def named_at_def entry_ok_def)

lemma entry_step:
  assumes "entry_ok ns is b amb" "rank = bare_rank (n_kind (ns ! k))" "l = n_line (ns ! k)"
  shows "entry_ok ns (is @ [k])
    (case b of None \<Rightarrow> Some (k, rank, l)
     | Some (j, pr, pl) \<Rightarrow> if pr < rank \<or> rank = pr \<and> l < pl then Some (k, rank, l) else b)
    (case b of None \<Rightarrow> amb | Some (j, pr, pl) \<Rightarrow> amb \<or> pl \<noteq> l \<or> pr \<noteq> rank)"
  using assms by (auto simp: entry_ok_def split: option.splits if_splits)

lemma scan_node_fields:
  "nm_idx (scan_node m (k, n)) = (nm_idx m)(name_line_key (n_name n) (n_line n) \<mapsto> k)"
  "nm_all (scan_node m (k, n)) name =
     nm_all m name @ (if n_name n = name \<and> n_kind n \<noteq> ''signature'' then [k] else [])"
  "nm_bare (scan_node m (k, n)) name =
     (if n_name n = name \<and> n_kind n \<noteq> ''signature''
      then (case nm_bare m name of None \<Rightarrow> Some (k, bare_rank (n_kind n), n_line n)
            | Some (j, pr, pl) \<Rightarrow>
                if pr < bare_rank (n_kind n) \<or> bare_rank (n_kind n) = pr \<and> n_line n < pl
                then Some (k, bare_rank (n_kind n), n_line n) else nm_bare m name)
      else nm_bare m name)"
  "name \<in> nm_ambiguous (scan_node m (k, n)) \<longleftrightarrow>
     (if n_name n = name \<and> n_kind n \<noteq> ''signature''
      then (case nm_bare m name of None \<Rightarrow> name \<in> nm_ambiguous m
            | Some (j, pr, pl) \<Rightarrow> name \<in> nm_ambiguous m \<or> pl \<noteq> n_line n \<or> pr \<noteq> bare_rank (n_kind n))
      else name \<in> nm_ambiguous m)"
  by (auto simp: scan_node_def Let_def split: option.split prod.split)

lemma maps_inv_step:
  assumes inv: "maps_inv ns k m" and k: "1 \<le> k"
  shows "maps_inv ns (Suc k) (scan_node m (k, ns ! k))"
proof -
  have "entry_ok ns (named_at ns name (Suc k)) (nm_bare (scan_node m (k, ns ! k)) name)
      (name \<in> nm_ambiguous (scan_node m (k, ns ! k)))" for name
  proof (cases "n_name (ns ! k) = name \<and> n_kind (ns ! k) \<noteq> ''signature''")
    case True
    have "entry_ok ns (named_at ns name k) (nm_bare m name) (name \<in> nm_ambiguous m)"
      using inv by (simp add: maps_inv_def)
    from entry_step [OF this refl refl, of k] True
    show ?thesis by (simp add: scan_node_fields named_at_Suc [OF k])
  next
    case False
    have "entry_ok ns (named_at ns name k) (nm_bare m name) (name \<in> nm_ambiguous m)"
      using inv by (simp add: maps_inv_def)
    then show ?thesis
      by (simp only: scan_node_fields named_at_Suc [OF k] False if_False append_Nil2)
  qed
  moreover have "i < Suc k" if "nm_idx (scan_node m (k, ns ! k)) key = Some i" for key i
    using that inv by (auto simp: scan_node_fields(1) maps_inv_def less_Suc_eq split: if_splits)
  ultimately show ?thesis
    using inv by (simp add: maps_inv_def scan_node_fields(2) named_at_Suc [OF k])
qed

lemma scan_nodes_inv:
  assumes "ns \<noteq> []"
  shows "maps_inv ns (length ns) (scan_nodes ns)"
proof -
  have "maps_inv ns k (foldl scan_node empty_maps (map (\<lambda>i. (i, ns ! i)) [1..<k]))" if "1 \<le> k" for k
    using that
  proof (induction k rule: dec_induct)
    case base
    then show ?case using maps_inv_start by simp
  next
    case (step k)
    then show ?case using maps_inv_step by simp
  qed
  moreover have "tl (enumerate 0 ns) = map (\<lambda>i. (i, ns ! i)) [1..<length ns]"
    by (intro nth_equalityI) (auto simp: nth_tl nth_enumerate_eq)
  ultimately show ?thesis using assms by (simp add: scan_nodes_def Suc_le_eq)
qed

text \<open>What the maps answer.\<close>

lemma named_atD:
  "i \<in> set (named_at ns name k) \<Longrightarrow> 0 < i \<and> i < k \<and> n_name (ns ! i) = name \<and> n_kind (ns ! i) \<noteq> ''signature''"
  by (auto simp: named_at_def)

lemma same_file_bareD:
  assumes "ns \<noteq> []" "same_file_bare (scan_nodes ns) name = Some i"
  shows "i \<in> set (named_at ns name (length ns))
    \<and> (\<forall>j\<in>set (named_at ns name (length ns)). n_line (ns ! j) = n_line (ns ! i)
          \<and> bare_rank (n_kind (ns ! j)) = bare_rank (n_kind (ns ! i)))"
proof -
  have "entry_ok ns (named_at ns name (length ns)) (nm_bare (scan_nodes ns) name)
      (name \<in> nm_ambiguous (scan_nodes ns))"
    using scan_nodes_inv [OF assms(1)] by (simp add: maps_inv_def)
  then show ?thesis
    using assms(2) by (auto simp: same_file_bare_def entry_ok_def split: if_splits option.splits)
qed

lemma node_index_less:
  assumes "ns \<noteq> []" "node_index (scan_nodes ns) key = Some i"
  shows "i < length ns"
proof (cases "same_file_bare (scan_nodes ns) key")
  case None
  then show ?thesis using assms(2) scan_nodes_inv [OF assms(1)] by (auto simp: node_index_def maps_inv_def)
next
  case (Some j)
  then show ?thesis
    using assms same_file_bareD [OF assms(1) Some] named_atD by (fastforce simp: node_index_def)
qed

lemma resolve_source_less:
  "ns \<noteq> [] \<Longrightarrow> resolve_source_idx (scan_nodes ns) name line < int (length ns)"
  by (auto simp: resolve_source_idx_def dest: node_index_less split: option.split if_split)

lemma bridge_source_less:
  assumes "ns \<noteq> []"
  shows "bridge_source (scan_nodes ns) xs line < int (length ns) \<and> 0 \<le> bridge_source (scan_nodes ns) xs line"
proof -
  let ?step = "\<lambda>(src, best) n.
            if x_kind n \<noteq> kind_function \<and> x_kind n \<noteq> kind_method then (src, best)
            else
              (let endl = (if x_end_line n = 0 then x_line n else x_end_line n) in
               if x_line n \<le> line \<and> line \<le> endl \<and> x_line n \<ge> best
               then (case node_index (scan_nodes ns) (name_line_key (x_name n) (x_line n)) of
                       Some i \<Rightarrow> (int i, x_line n) | None \<Rightarrow> (src, best))
               else (src, best))"
  have one: "fst s < int (length ns) \<Longrightarrow> fst (?step s n) < int (length ns)" for s :: "int \<times> int" and n
    using node_index_less [OF assms] by (auto simp: Let_def split_def split: option.split)
  have "fst s < int (length ns) \<Longrightarrow> fst (foldl ?step s xs) < int (length ns)" for s :: "int \<times> int"
  proof (induction xs arbitrary: s)
    case (Cons x xs)
    have "fst (foldl ?step (?step s x) xs) < int (length ns)"
      using Cons.IH one [OF Cons.prems] by blast
    then show ?case by (simp only: foldl_Cons)
  qed simp
  from this [of "(-1, -1)"] show ?thesis
    using assms by (auto simp: bridge_source_def Let_def)
qed

lemma same_file_targetD:
  assumes "ns \<noteq> []" "same_file_target ns (scan_nodes ns) target line = Some t"
  shows "t \<in> set (named_at ns target (length ns))
    \<and> ((\<forall>j\<in>set (named_at ns target (length ns)). n_line (ns ! j) = n_line (ns ! t)
          \<and> bare_rank (n_kind (ns ! j)) = bare_rank (n_kind (ns ! t)))
       \<or> (contains_line (ns ! t) line
          \<and> (\<forall>j\<in>set (named_at ns target (length ns)). j \<noteq> t \<longrightarrow> \<not> contains_line (ns ! j) line)))"
proof (cases "\<exists>i. same_file_bare (scan_nodes ns) target = Some i \<and> 0 < i")
  case True
  then have "same_file_bare (scan_nodes ns) target = Some t"
    using assms(2) by (auto simp: same_file_target_def)
  then show ?thesis using same_file_bareD [OF assms(1)] by blast
next
  case False
  let ?idxs = "named_at ns target (length ns)"
  have all: "nm_all (scan_nodes ns) target = ?idxs"
    using scan_nodes_inv [OF assms(1)] by (simp add: maps_inv_def)
  have t: "length (filter (\<lambda>i. contains_line (ns ! i) line) ?idxs) = 1"
      "t = hd (filter (\<lambda>i. contains_line (ns ! i) line) ?idxs)"
    using False assms(2) by (auto simp: same_file_target_def all Let_def split: option.splits if_splits)
  then have "filter (\<lambda>i. contains_line (ns ! i) line) ?idxs = [t]"
    by (cases "filter (\<lambda>i. contains_line (ns ! i) line) ?idxs") auto
  then have "set (filter (\<lambda>i. contains_line (ns ! i) line) ?idxs) = {t}" by simp
  then show ?thesis by (auto simp: set_eq_iff)
qed

section \<open>Endpoints of the batch\<close>

text \<open>A source or a same-file target: the placeholder of a node of the batch.\<close>

definition local_end :: "nat \<Rightarrow> int \<Rightarrow> bool" where
  "local_end n v \<longleftrightarrow> (\<exists>i<n. v = placeholder i)"

text \<open>An import target: a queued module node or a node of the database with the module's name.\<close>

definition import_end :: "gdb \<Rightarrow> nat \<Rightarrow> nat \<Rightarrow> string \<Rightarrow> int \<Rightarrow> bool" where
  "import_end db n k name v \<longleftrightarrow>
     (\<exists>i<k. v = placeholder (n + i)) \<or> (\<exists>x\<in>set (g_nodes db). n_id x = v \<and> n_name x = name)"

definition link_ok :: "gdb \<Rightarrow> nat \<Rightarrow> nat \<Rightarrow> string list \<Rightarrow> link \<Rightarrow> bool" where
  "link_ok db n k names l \<longleftrightarrow>
     (case l of Link_none \<Rightarrow> True
      | Link_park r \<Rightarrow> local_end n (u_from r)
      | Link_edge e \<Rightarrow> local_end n (e_source e)
          \<and> (local_end n (e_target e) \<or> (\<exists>name\<in>set names. import_end db n k name (e_target e))))"

lemma link_ref_ok:
  assumes "ns \<noteq> []" "src < int (length ns)"
  shows "link_ok db (length ns) k names (link_ref db store lang ns (scan_nodes ns) src target line col kind)"
proof (cases "same_file_target ns (scan_nodes ns) target line")
  case None
  then show ?thesis using assms
    by (auto simp: link_ref_def link_ok_def local_end_def pending_ref_def intro!: exI [of _ "nat src"])
next
  case (Some t)
  then have "t < length ns" using same_file_targetD [OF assms(1)] named_atD by blast
  then have "local_end (length ns) (placeholder t)" by (auto simp: local_end_def)
  moreover have "\<not> src < 0 \<Longrightarrow> local_end (length ns) (placeholder (nat src))"
    using assms(2) by (auto simp: local_end_def intro!: exI [of _ "nat src"])
  ultimately show ?thesis using Some by (auto simp: link_ref_def link_ok_def exact_edge_def)
qed

lemma get_node_by_name_mem: "n \<in> set (get_node_by_name name db) \<Longrightarrow> n \<in> set (g_nodes db) \<and> n_name n = name"
  by (auto simp: get_node_by_name_def dest!: in_set_takeD)

lemma import_target_ok:
  assumes "import_target db n mods e = (mods', t)"
  shows "import_end db n (length mods') (xe_target e) t \<and> (\<exists>ys. mods' = mods @ ys)
    \<and> set mods' \<subseteq> insert (xe_target e) (set mods)"
proof (cases "get_node_by_name (xe_target e) db")
  case Nil
  let ?m = "if xe_target e \<in> set mods then mods else mods @ [xe_target e]"
  have "length (takeWhile (\<lambda>x. x \<noteq> xe_target e) ?m) < length ?m"
    by (rule takeWhile_neq_less) auto
  moreover have "set ?m \<subseteq> insert (xe_target e) (set mods)" "\<exists>ys. ?m = mods @ ys" by auto
  ultimately show ?thesis
    using assms Nil by (auto simp: import_target_def import_end_def placeholder_def Let_def)
next
  case (Cons a as)
  have mem: "x \<in> set (a # as) \<Longrightarrow> x \<in> set (g_nodes db) \<and> n_name x = xe_target e" for x
    using get_node_by_name_mem [of x "xe_target e" db] Cons by simp
  let ?f = "find (\<lambda>t. n_kind t = kind_module) (a # as)"
  have t: "t = n_id (case ?f of Some t \<Rightarrow> t | None \<Rightarrow> a)" "mods' = mods"
    using assms unfolding import_target_def Cons by (auto simp del: find.simps split: option.splits)
  have x: "(case ?f of Some t \<Rightarrow> t | None \<Rightarrow> a) \<in> set (a # as)"
    by (cases ?f) (auto simp del: find.simps dest: find_SomeD)
  show ?thesis using mem [OF x] t by (auto simp: import_end_def)
qed

lemma import_end_mono: "import_end db n k name v \<Longrightarrow> k \<le> k' \<Longrightarrow> import_end db n k' name v"
  unfolding import_end_def by (elim disjE exE conjE) (blast intro: order_less_le_trans, blast)

lemma import_targets_ok:
  "import_targets db n mods es = (mods', ts) \<Longrightarrow>
     length ts = length es \<and> (\<exists>ys. mods' = mods @ ys)
     \<and> set mods' \<subseteq> set mods \<union> xe_target ` {e \<in> set es. xe_kind e = edge_imports}
     \<and> (\<forall>(e, t)\<in>set (zip es ts). \<forall>v. t = Some v \<longrightarrow>
          xe_kind e = edge_imports \<and> import_end db n (length mods') (xe_target e) v)"
proof (induction es arbitrary: mods mods' ts)
  case (Cons e es)
  show ?case
  proof (cases "xe_kind e = edge_imports")
    case False
    obtain ts' where "import_targets db n mods es = (mods', ts')" "ts = None # ts'"
      using Cons.prems False by (auto split: prod.splits)
    moreover have "{x \<in> set (e # es). xe_kind x = edge_imports} = {x \<in> set es. xe_kind x = edge_imports}"
      using False by auto
    ultimately show ?thesis using Cons.IH [of mods mods' ts'] by simp
  next
    case True
    have ins: "{x \<in> set (e # es). xe_kind x = edge_imports}
        = insert e {x \<in> set es. xe_kind x = edge_imports}"
      using True by auto
    obtain mods1 v ts' where one: "import_target db n mods e = (mods1, v)"
      and rest: "import_targets db n mods1 es = (mods', ts')" "ts = (if v \<noteq> 0 then Some v else None) # ts'"
      using Cons.prems True by (auto split: prod.splits)
    note 1 = import_target_ok [OF one] and IH = Cons.IH [OF rest(1)]
    have "length mods1 \<le> length mods'" using IH by auto
    then have "import_end db n (length mods') (xe_target e) v" using 1 import_end_mono by blast
    then show ?thesis unfolding ins using 1 IH rest(2) True by auto
  qed
qed simp

lemma batch_nodes_nonempty: "batch_nodes store lang xs \<noteq> []"
  by (simp add: batch_nodes_def)

lemma build_links_ok:
  fixes store lang ex routes bridges db
  defines "ns \<equiv> batch_nodes store lang (all_nodes ex routes)"
  defines "imp \<equiv> import_targets db (length ns) [] (ex_edges ex)"
  assumes "l \<in> set (build_links db store lang ex routes bridges)"
  shows "link_ok db (length ns) (length (fst imp))
    (map xe_target (filter (\<lambda>e. xe_kind e = edge_imports) (ex_edges ex))) l"
proof -
  let ?names = "map xe_target (filter (\<lambda>e. xe_kind e = edge_imports) (ex_edges ex))"
  let ?ok = "link_ok db (length ns) (length (fst imp)) ?names"
  have ne: "ns \<noteq> []" unfolding ns_def by (rule batch_nodes_nonempty)
  have link: "src < int (length ns) \<Longrightarrow> ?ok (link_ref db store lang ns (scan_nodes ns) src tg ln col kind)"
    for src tg ln col kind by (rule link_ref_ok [OF ne])
  have "?ok l" if "l \<in> set (route_links db store lang ns (scan_nodes ns) routes)"
    using that node_index_less [OF ne]
    by (auto simp: route_links_def Let_def split: if_splits option.splits intro!: link)
  moreover have "?ok l" if "l \<in> set (ref_links db store lang ns (scan_nodes ns) (ex_refs ex))"
    using that resolve_source_less [OF ne] ne
    by (auto simp: ref_links_def Let_def intro!: link)
  moreover have "?ok l" if "l \<in> set (bridge_links db store lang ns (scan_nodes ns) (all_nodes ex routes) bridges)"
    using that bridge_source_less [OF ne] by (auto simp: bridge_links_def Let_def intro!: link)
  moreover have "?ok l" if l: "l \<in> set (edge_links db store lang ns (scan_nodes ns) (zip (ex_edges ex) (snd imp)))"
  proof -
    note ok = import_targets_ok [of db "length ns" "[]" "ex_edges ex" "fst imp" "snd imp"]
    obtain e t where et: "(e, t) \<in> set (zip (ex_edges ex) (snd imp))"
      and m: "l \<in> set (if xe_kind e = edge_imports
           then (case t of Some t \<Rightarrow> [Link_edge (import_edge store e t)] | None \<Rightarrow> [])
           else (let src = resolve_source_idx (scan_nodes ns) (xe_source e) (xe_line e) in
             if src < 0 then []
             else [link_ref db store lang ns (scan_nodes ns) src (xe_target e) (xe_line e) (xe_col e) (xe_kind e)]))"
      using l unfolding edge_links_def by auto
    have e: "e \<in> set (ex_edges ex)" using et by (rule set_zip_leftD)
    show ?thesis
    proof (cases "xe_kind e = edge_imports")
      case True
      then obtain v where v: "t = Some v" "l = Link_edge (import_edge store e v)"
        using m by (auto split: option.splits)
      have "import_end db (length ns) (length (fst imp)) (xe_target e) v"
        using ok et v(1) by (auto simp: imp_def)
      moreover have "xe_target e \<in> set ?names" using e True by auto
      ultimately show ?thesis
        using ne v(2) by (auto simp: link_ok_def import_edge_def local_end_def)
    next
      case False
      then show ?thesis using m resolve_source_less [OF ne] by (auto simp: Let_def intro!: link split: if_splits)
    qed
  qed
  ultimately show ?thesis
    using assms(3) by (auto simp: build_links_def Let_def ns_def [symmetric] imp_def [symmetric])
qed

section \<open>Writing the batch\<close>

lemma real_id_local:
  assumes "local_end (length ids) v"
  shows "\<exists>r\<in>set ids. real_id ids mids v = Inr r"
proof -
  obtain i where i: "i < length ids" "v = placeholder i" using assms by (auto simp: local_end_def)
  then have "real_id ids mids v = Inr (ids ! i)" by (simp add: real_id_def placeholder_def)
  then show ?thesis using i(1) nth_mem by blast
qed

lemma real_id_import:
  assumes "import_end db (length ids) (length mids) name v" "db_ok db"
  shows "\<exists>r. real_id ids mids v = Inr r
    \<and> (r \<in> set mids \<or> (\<exists>x\<in>set (g_nodes db). n_id x = r \<and> n_name x = name))"
proof -
  consider i where "i < length mids" "v = placeholder (length ids + i)"
    | x where "x \<in> set (g_nodes db)" "n_id x = v" "n_name x = name"
    using assms(1) by (auto simp: import_end_def)
  then show ?thesis
  proof cases
    case (1 i)
    then have "real_id ids mids v = Inr (mids ! i)" by (simp add: real_id_def placeholder_def Let_def)
    then show ?thesis using 1(1) nth_mem by blast
  next
    case (2 x)
    then have "0 < v" using assms(2) by (auto simp: db_ok_def nodes_ok_def)
    then show ?thesis using 2 by (auto simp: real_id_def)
  qed
qed

lemma upsert_edge_total:
  "e_source e \<in> node_ids db \<Longrightarrow> e_target e \<in> node_ids db \<Longrightarrow> \<exists>db'. upsert_edge e db = Inr db' \<and> g_nodes db' = g_nodes db"
  by (simp add: upsert_edge_def)

lemma put_node_id:
  assumes "put_node upd n db = (db', i)" "keeps_row upd"
  shows "\<exists>r\<in>set (g_nodes db'). n_id r = i \<and> n_file r = n_file n"
  using assms
proof (cases rule: put_node_cases)
  case (1 old)
  let ?r = "upd old n"
  have "n_id ?r = i \<and> n_file ?r = n_file n"
    using 1 assms(2) by (simp add: keeps_row_def node_key_def)
  moreover have "?r \<in> set (g_nodes db')" using 1 by force
  ultimately show ?thesis by blast
next
  case 2
  then show ?thesis by auto
qed

lemma put_nodes_ids:
  "put_nodes upd ns db = (db', is) \<Longrightarrow> keeps_row upd
    \<Longrightarrow> \<forall>i\<in>set is. \<exists>r\<in>set (g_nodes db'). n_id r = i \<and> n_file r \<in> n_file ` set ns"
proof (induction ns arbitrary: db db' "is")
  case (Cons n ns)
  obtain db1 i js where p: "put_node upd n db = (db1, i)" "put_nodes upd ns db1 = (db', js)" "is = i # js"
    using Cons.prems(1) by (auto split: prod.splits)
  have kept: "homes_kept db1 db'" using put_nodes_frame [OF p(2) Cons.prems(2)] by simp
  obtain r where "r \<in> set (g_nodes db1)" "n_id r = i" "n_file r = n_file n"
    using put_node_id [OF p(1) Cons.prems(2)] by blast
  then obtain r' where "r' \<in> set (g_nodes db')" "n_id r' = i" "n_file r' = n_file n"
    using homes_keptE [OF kept] by metis
  then show ?case using Cons.IH [OF p(2) Cons.prems(2)] p(3) by auto
qed simp

lemma put_nodes_length: "put_nodes upd ns db = (db', is) \<Longrightarrow> length is = length ns"
  by (induction ns arbitrary: db db' "is") (auto split: prod.splits)

lemma survives_delete:
  "x \<in> set (g_nodes db) \<Longrightarrow> n_file x \<noteq> store
    \<Longrightarrow> n_id x \<in> node_ids (delete_nodes_of_file store (delete_refs_of_file store db))"
  using deleted_nodes [of store db] by (auto simp: node_ids_def)

text \<open>
  What the batch needs of the rest: every edge and reference ends at a node of the batch, at one
  of its module nodes, or at a node of the database that is not in the file; and no module node
  is named like the file.
\<close>

lemma replace_batch_total:
  assumes ok: "db_ok db" and mods: "\<forall>m\<in>set mods. n_file m \<noteq> store"
    and src: "\<forall>e\<in>set edges. local_end (length nodes) (e_source e)"
    and tgt: "\<forall>e\<in>set edges. local_end (length nodes) (e_target e)
      \<or> (\<exists>name. import_end db (length nodes) (length mods) name (e_target e)
            \<and> (\<forall>x\<in>set (g_nodes db). n_name x = name \<longrightarrow> n_file x \<noteq> store))"
    and parks: "\<forall>r\<in>set refs. local_end (length nodes) (u_from r)"
  shows "\<exists>db' ids. replace_file_index store nodes edges refs frec mods now db = Inr (db', ids)"
proof -
  obtain db1 mids where 1: "put_nodes module_upd (map module_row mods) db = (db1, mids)" by fastforce
  let ?d = "delete_nodes_of_file store (delete_refs_of_file store db1)"
  obtain db4 ids where 4: "put_nodes node_upd (map batch_row nodes) ?d = (db4, ids)" by fastforce
  have ok1: "db_ok db1" using put_nodes_ok [OF 1 _ ok] by simp
  have okd: "db_ok ?d" by (intro delete_nodes_of_file_ok delete_refs_of_file_ok ok1)
  have p4: "node_ids ?d \<subseteq> node_ids db4" "set ids \<subseteq> node_ids db4"
    using put_nodes_ok [OF 4 _ okd] by simp_all
  have len: "length ids = length nodes" "length mids = length mods"
    using put_nodes_length [OF 4] put_nodes_length [OF 1] by simp_all
  have kept: "homes_kept db db1" using put_nodes_frame [OF 1] by simp
  have mid: "r \<in> node_ids ?d" if "r \<in> set mids" for r
  proof -
    obtain x where "x \<in> set (g_nodes db1)" "n_id x = r" "n_file x \<in> n_file ` set (map module_row mods)"
      using put_nodes_ids [OF 1] \<open>r \<in> set mids\<close> by auto
    moreover from this have "n_file x \<noteq> store" using mods by (auto simp: module_row_def)
    ultimately show ?thesis using survives_delete by blast
  qed
  have old: "n_id x \<in> node_ids ?d" if x: "x \<in> set (g_nodes db)" "n_file x \<noteq> store" for x
  proof -
    obtain x' where "x' \<in> set (g_nodes db1)" "n_id x' = n_id x" "n_file x' \<noteq> store"
      using homes_keptE [OF kept x(1)] x(2) by metis
    then show ?thesis using survives_delete by metis
  qed
  have loc: "\<exists>r\<in>node_ids db4. real_id ids mids v = Inr r" if "local_end (length nodes) v" for v
    using real_id_local [of ids v mids] that p4(2) len(1) by auto
  have target: "\<exists>r\<in>node_ids db4. real_id ids mids (e_target e) = Inr r" if e: "e \<in> set edges" for e
  proof (cases "local_end (length nodes) (e_target e)")
    case False
    then obtain name where "import_end db (length ids) (length mids) name (e_target e)"
        "\<forall>x\<in>set (g_nodes db). n_name x = name \<longrightarrow> n_file x \<noteq> store"
      using tgt e len by auto
    then show ?thesis using real_id_import [OF _ ok] mid old p4(1) by blast
  qed (rule loc)
  have "\<exists>db5. foldE (put_edge ids mids) edges db4 = Inr db5 \<and> g_nodes db5 = g_nodes db4"
  proof (rule foldE_total)
    fix e :: edge and u :: gdb
    assume e: "e \<in> set edges" and u: "g_nodes u = g_nodes db4"
    obtain s t where "s \<in> node_ids db4" "real_id ids mids (e_source e) = Inr s"
        "t \<in> node_ids db4" "real_id ids mids (e_target e) = Inr t"
      using loc src target e by blast
    then show "\<exists>v. put_edge ids mids e u = Inr v \<and> g_nodes v = g_nodes db4"
      using upsert_edge_total [of "e\<lparr>e_source := s, e_target := t\<rparr>" u] u
      by (simp add: put_edge_def node_ids_def)
  qed simp
  then obtain db5 where 5: "foldE (put_edge ids mids) edges db4 = Inr db5" "g_nodes db5 = g_nodes db4"
    by blast
  have "\<exists>db6. foldE (put_ref ids mids) refs db5 = Inr db6 \<and> g_nodes db6 = g_nodes db4"
  proof (rule foldE_total)
    fix r :: uref and u :: gdb
    assume r: "r \<in> set refs" and u: "g_nodes u = g_nodes db4"
    obtain f where f: "f \<in> node_ids db4" "real_id ids mids (u_from r) = Inr f" using loc parks r by blast
    then obtain v where "insert_uref (r\<lparr>u_from := f\<rparr>) u = Inr v"
      using insert_uref_succeeds [of "r\<lparr>u_from := f\<rparr>" u] u by (auto simp: node_ids_def)
    then show "\<exists>v. put_ref ids mids r u = Inr v \<and> g_nodes v = g_nodes db4"
      using f(2) insert_uref_nodes u by (auto simp: put_ref_def)
  qed (rule 5(2))
  then show ?thesis using 1 4 5(1) by (auto simp: replace_file_index_def Let_def)
qed

lemma build_batch_mods: "n_file (module_node lang name) = name"
  by (simp add: module_node_def file_node_def)

lemma batch_nodes_files: "n \<in> set (batch_nodes store lang xs) \<Longrightarrow> n_file n = store"
  using set_dedup_by [of conflict_key "{}" "file_node store lang # map (symbol_node store lang) xs"]
  by (auto simp: batch_nodes_def file_node_def symbol_node_def)

definition imports_elsewhere :: "gdb \<Rightarrow> string \<Rightarrow> extraction \<Rightarrow> bool" where
  "imports_elsewhere db store ex \<longleftrightarrow>
     (\<forall>e\<in>set (ex_edges ex). xe_kind e = edge_imports \<longrightarrow> xe_target e \<noteq> store
        \<and> (\<forall>x\<in>set (g_nodes db). n_name x = xe_target e \<longrightarrow> n_file x \<noteq> store))"

lemma park_grow:
  assumes "db_ok db"
  shows "\<exists>db1. park_inbound_refs_for_file store db = Inr db1 \<and> db_ok db1 \<and> refs_grow db db1"
proof (cases "store = []")
  case True
  then show ?thesis using assms by (simp add: park_inbound_refs_for_file_def)
next
  case False
  then show ?thesis using park_parks [OF assms False] by (auto simp: parked_def)
qed

lemma build_batch_total:
  assumes ok: "db_ok db" and imp: "imports_elsewhere db store ex"
    and db1: "db_ok db1" "g_nodes db1 = g_nodes db"
  shows "\<exists>db' ids. replace_file_index store (b_nodes (build_batch db store lang ex routes bridges))
     (b_edges (build_batch db store lang ex routes bridges)) (b_parks (build_batch db store lang ex routes bridges))
     frec (b_modules (build_batch db store lang ex routes bridges)) now db1 = Inr (db', ids)"
proof -
  let ?b = "build_batch db store lang ex routes bridges"
  let ?ns = "batch_nodes store lang (all_nodes ex routes)"
  let ?imp = "import_targets db (length ?ns) [] (ex_edges ex)"
  let ?names = "map xe_target (filter (\<lambda>e. xe_kind e = edge_imports) (ex_edges ex))"
  have ns: "b_nodes ?b = ?ns" and mods: "b_modules ?b = map (module_node lang) (fst ?imp)"
    by (simp_all add: build_batch_def Let_def)
  have lok: "link_ok db (length ?ns) (length (fst ?imp)) ?names l"
    if "l \<in> set (build_links db store lang ex routes bridges)" for l
    using build_links_ok [OF that] .
  have edges: "Link_edge e \<in> set (build_links db store lang ex routes bridges)" if "e \<in> set (b_edges ?b)" for e
    using that by (auto simp: build_batch_def Let_def links_edges_def split: link.splits)
  have parks: "Link_park r \<in> set (build_links db store lang ex routes bridges)" if "r \<in> set (b_parks ?b)" for r
    using that by (auto simp: build_batch_def Let_def links_parks_def split: link.splits)
  have frame: "import_end db1 = import_end db"
    by (intro ext) (simp add: import_end_def db1(2))
  have elsewhere: "\<forall>x\<in>set (g_nodes db). n_name x = name \<longrightarrow> n_file x \<noteq> store"
    if "name \<in> set ?names" for name
    using that imp by (auto simp: imports_elsewhere_def)
  have "set (fst ?imp) \<subseteq> set ?names"
    using import_targets_ok [of db "length ?ns" "[]" "ex_edges ex" "fst ?imp" "snd ?imp"] by auto
  then have "\<forall>m\<in>set (b_modules ?b). n_file m \<noteq> store"
    using imp unfolding mods by (auto simp: build_batch_mods imports_elsewhere_def)
  moreover have "\<forall>e\<in>set (b_edges ?b). local_end (length (b_nodes ?b)) (e_source e)"
    using lok [OF edges] by (simp add: ns link_ok_def)
  moreover have "\<forall>e\<in>set (b_edges ?b). local_end (length (b_nodes ?b)) (e_target e)
      \<or> (\<exists>name. import_end db1 (length (b_nodes ?b)) (length (b_modules ?b)) name (e_target e)
            \<and> (\<forall>x\<in>set (g_nodes db1). n_name x = name \<longrightarrow> n_file x \<noteq> store))"
  proof
    fix e assume "e \<in> set (b_edges ?b)"
    from lok [OF edges [OF this]]
    have "local_end (length ?ns) (e_target e)
       \<or> (\<exists>name\<in>set ?names. import_end db (length ?ns) (length (fst ?imp)) name (e_target e))"
      by (simp add: link_ok_def)
    then show "local_end (length (b_nodes ?b)) (e_target e)
      \<or> (\<exists>name. import_end db1 (length (b_nodes ?b)) (length (b_modules ?b)) name (e_target e)
            \<and> (\<forall>x\<in>set (g_nodes db1). n_name x = name \<longrightarrow> n_file x \<noteq> store))"
      unfolding ns mods length_map frame db1(2) using elsewhere by blast
  qed
  moreover have "\<forall>r\<in>set (b_parks ?b). local_end (length (b_nodes ?b)) (u_from r)"
    using lok [OF parks] by (simp add: ns link_ok_def)
  ultimately show ?thesis by (rule replace_batch_total [OF db1(1)])
qed

lemma touch_file_meta_ok:
  assumes "db_ok db"
  shows "db_ok (touch_file_meta path sz mt hash now db)"
proof -
  have "f_path \<circ> (\<lambda>f :: file_rec. if f_path f = path then f\<lparr>f_size := sz, f_mtime := mt, f_hash := hash,
      f_indexed_at := now\<rparr> else f) = f_path"
    by auto
  then show ?thesis using assms by (simp add: touch_file_meta_def db_ok_def ok_defs)
qed

text \<open>What \<^verbatim>\<open>indexFile\<close> can do to the database: the file records of a replaced file.\<close>

lemma put_node_files: "put_node upd n db = (db', i) \<Longrightarrow> g_files db' = g_files db"
  by (auto simp: put_node_def split: option.splits)

lemma put_nodes_files: "put_nodes upd ns db = (db', is) \<Longrightarrow> g_files db' = g_files db"
  by (induction ns arbitrary: db db' "is") (auto dest: put_node_files split: prod.splits)

lemma put_edge_files: "put_edge ids mids e db = Inr db' \<Longrightarrow> g_files db' = g_files db"
  unfolding put_edge_def by (auto simp: bindE_eq_Inr upsert_edge_def split: if_splits)

lemma put_ref_files: "put_ref ids mids r db = Inr db' \<Longrightarrow> g_files db' = g_files db"
  unfolding put_ref_def by (auto simp: bindE_eq_Inr insert_uref_def Let_def split: if_splits)

lemma replace_file_index_files:
  assumes "replace_file_index store nodes edges refs (Some f) mods now db = Inr (db', ids)"
  shows "g_files db' = upsert_by f_path file_upd (f\<lparr>f_indexed_at := now\<rparr>) (g_files db)"
  using assms
proof (cases rule: replace_file_index_stages)
  case (1 db1 mids db4 db5 db6)
  have "g_files db4 = g_files db"
    using put_nodes_files [OF 1(1)] put_nodes_files [OF 1(2)]
    by (simp add: delete_nodes_of_file_def delete_refs_of_file_def Let_def)
  moreover have "g_files db6 = g_files db4"
    using foldE_frame [OF 1(3), of g_files] foldE_frame [OF 1(4), of g_files] put_edge_files put_ref_files by metis
  ultimately show ?thesis using 1(5) by (simp add: upsert_file_def)
qed

lemma index_file_cases:
  assumes "db_ok db"
    and "index_file force store lang hash stat now ex ts_errored err routes bridges db = (db', res)"
  obtains "\<not> force" "file_has_content_hash store hash db" "db_ok db'" "res = Inr 0"
      "db' = db \<or> (\<exists>s t. db' = touch_file_meta store s t hash now db)"
    | "db' = db" "res = Inl Keep_old_index"
    | e where "refs_grow db db'" "db_ok db'" "res = Inl (Write_failed e)"
    | fr where "g_files db' = upsert_by f_path file_upd fr (g_files db)" "f_path fr = store" "f_hash fr = hash"
        "db_ok db'" "res = Inr (length (all_nodes ex routes))"
proof -
  let ?b = "build_batch db store lang ex routes bridges"
  let ?w = "write_batch store lang (length (all_nodes ex routes)) stat hash now ?b db"
  obtain db1 where db1: "park_inbound_refs_for_file store db = Inr db1" "db_ok db1" "refs_grow db db1"
    using park_grow [OF assms(1)] by blast
  consider "\<not> force" "file_has_content_hash store hash db" "res = Inr 0"
      "db' = db \<or> (\<exists>s t. db' = touch_file_meta store s t hash now db)"
    | "db' = db" "res = Inl Keep_old_index"
    | e where "db' = db1" "res = Inl (Write_failed e)"
    | "?w = Inr db'" "res = Inr (length (all_nodes ex routes))"
    using assms(2) db1(1) by (auto simp: index_file_def Let_def split: if_splits option.splits sum.splits)
  then show thesis
  proof cases
    case 1
    then have "db_ok db'" using assms(1) touch_file_meta_ok by auto
    then show ?thesis using 1 that(1) by blast
  next
    case 2
    then show ?thesis by (rule that(2))
  next
    case 3
    then show ?thesis using db1 that(3) by blast
  next
    case 4
    then obtain frec ids where r: "replace_file_index store (b_nodes ?b) (b_edges ?b) (b_parks ?b) (Some frec)
        (b_modules ?b) now db1 = Inr (db', ids)" and f: "f_path frec = store" "f_hash frec = hash"
      by (auto simp: write_batch_def db1(1) Let_def bindE_eq_Inr split: prod.splits)
    show ?thesis
      using that(4) [of "frec\<lparr>f_indexed_at := now\<rparr>"] replace_file_index_files [OF r]
        replace_file_index_ok_aux [OF r db1(2)] db1(3) f 4(2) by (simp add: refs_grow_def)
  qed
qed

lemma index_batch_ok:
  assumes "db_ok db" "imports_elsewhere db store ex"
  shows "\<exists>db'. write_batch store lang k stat hash now (build_batch db store lang ex routes bridges) db = Inr db'
    \<and> db_ok db'
    \<and> node_key ` {n \<in> set (g_nodes db'). n_file n = store}
        = node_key ` set (batch_nodes store lang (all_nodes ex routes))"
proof -
  let ?b = "build_batch db store lang ex routes bridges"
  obtain db1 where db1: "park_inbound_refs_for_file store db = Inr db1" "db_ok db1" "refs_grow db db1"
    using park_grow [OF assms(1)] by blast
  then have nodes: "g_nodes db1 = g_nodes db" by (simp add: refs_grow_def)
  obtain frec where frec: "write_batch store lang k stat hash now ?b db =
      bindE (replace_file_index store (b_nodes ?b) (b_edges ?b) (b_parks ?b) (Some frec) (b_modules ?b) now db1)
        (\<lambda>(db2, ids). Inr db2)"
    by (simp add: write_batch_def db1(1) Let_def)
  obtain db' ids where r: "replace_file_index store (b_nodes ?b) (b_edges ?b) (b_parks ?b) (Some frec)
      (b_modules ?b) now db1 = Inr (db', ids)"
    using build_batch_total [OF assms db1(2) nodes] by blast
  have f: "\<forall>n\<in>set (b_nodes ?b). n_file n = store"
    using batch_nodes_files by (simp add: build_batch_def Let_def)
  have m: "\<forall>m\<in>set (b_modules ?b). n_file m \<noteq> store"
    using import_targets_ok [OF prod.collapse [symmetric]] assms(2)
    by (fastforce simp: build_batch_def Let_def build_batch_mods imports_elsewhere_def)
  show ?thesis
    using frec r replace_file_index_ok_aux [OF r db1(2)] replace_file_index_exact_aux [OF r f m]
    by (simp add: build_batch_def Let_def)
qed

section \<open>Properties\<close>


text \<open>C9 (\<open>index_file_error_keeps_index\<close>).  Whatever the extractor and the database do, indexing a
  file leaves a well-formed database, and when it fails the symbols, edges and file records of
  the index are the ones of before; only parked references may have been added.\<close>

theorem index_file_error_keeps_index:
  assumes "db_ok db"
    and "index_file force store lang hash stat now ex ts_errored err routes bridges db = (db', res)"
  shows "db_ok db' \<and> (case res of Inl e \<Rightarrow> refs_grow db db' | Inr k \<Rightarrow> True)"
  by (cases rule: index_file_cases [OF assms]) (use assms(1) in auto)

text \<open>A reference becomes a same-file edge only to a symbol
  of the file that bears exactly the referenced name and is not a mere signature, and only when
  the choice is forced: all symbols of that name share its line and rank, or it is the only one
  of them whose lines contain the reference.\<close>

theorem same_file_links_unambiguous:
  assumes "ns \<noteq> []"
    and "link_ref db store lang ns (scan_nodes ns) src target line col kind = Link_edge e"
  shows "\<exists>t. 0 < t \<and> t < length ns \<and> e_target e = placeholder t \<and> n_name (ns ! t) = target
    \<and> n_kind (ns ! t) \<noteq> ''signature''
    \<and> ((\<forall>j. 0 < j \<and> j < length ns \<and> n_name (ns ! j) = target \<and> n_kind (ns ! j) \<noteq> ''signature''
            \<longrightarrow> n_line (ns ! j) = n_line (ns ! t) \<and> bare_rank (n_kind (ns ! j)) = bare_rank (n_kind (ns ! t)))
       \<or> (contains_line (ns ! t) line
          \<and> (\<forall>j. 0 < j \<and> j < length ns \<and> n_name (ns ! j) = target \<and> n_kind (ns ! j) \<noteq> ''signature''
               \<and> j \<noteq> t \<longrightarrow> \<not> contains_line (ns ! j) line)))"
proof -
  obtain t where t: "same_file_target ns (scan_nodes ns) target line = Some t" "e_target e = placeholder t"
    using assms(2) by (auto simp: link_ref_def exact_edge_def split: if_splits option.splits)
  have mem: "j \<in> set (named_at ns target (length ns)) \<longleftrightarrow>
      0 < j \<and> j < length ns \<and> n_name (ns ! j) = target \<and> n_kind (ns ! j) \<noteq> ''signature''" for j
    by (auto simp: named_at_def)
  show ?thesis
    using same_file_targetD [OF assms(1) t(1)] t(2) unfolding Ball_def mem by blast
qed

text \<open>
  The import of a name that an old symbol of the same file bears: the symbol's row is chosen as
  the import's target and then deleted by the replacement, so the import edge violates the
  foreign key and the file cannot be indexed.
\<close>

definition import_of :: "string \<Rightarrow> extraction" where
  "import_of name =
     \<lparr>ex_nodes = [],
      ex_edges = [\<lparr>xe_source = [], xe_target = name, xe_kind = edge_imports, xe_line = 1, xe_col = 0\<rparr>],
      ex_refs = []\<rparr>"

definition no_symbols :: extraction where
  "no_symbols = \<lparr>ex_nodes = [], ex_edges = [], ex_refs = []\<rparr>"

lemma import_of_batch:
  assumes "get_node_by_name name db = [t]" "n_id t \<noteq> 0"
  shows "build_batch db store lang (import_of name) [] [] =
    \<lparr>b_nodes = [file_node store lang],
     b_edges = [import_edge store (hd (ex_edges (import_of name))) (n_id t)], b_parks = [], b_modules = []\<rparr>"
  using assms
  by (simp add: build_batch_def build_links_def all_nodes_def import_of_def batch_nodes_def
      import_target_def route_links_def edge_links_def ref_links_def bridge_links_def
      links_edges_def links_parks_def Let_def)

lemma index_self_import_fails:
  "snd (index_file False ''b.go'' ''go'' ''h'' None 9 (import_of ''Old'') False Extract_ok [] [] sample_db)
     = Inl (Write_failed Fk_violation)"
proof -
  have g: "get_node_by_name ''Old'' sample_db = [sample_node 2 kind_function ''Old'' ''b.go'' 5]"
    by (simp add: get_node_by_name_def sample_db_def sample_node_def node_by_name_cap_def)
  have i: "n_id (sample_node 2 kind_function ''Old'' ''b.go'' 5) = 2" by (simp add: sample_node_def)
  let ?db1 = "sample_db\<lparr>g_refs := [sample_parked\<lparr>u_id := 1\<rparr>], g_next_ref := 2\<rparr>"
  have "replace_file_index ''b.go'' [file_node ''b.go'' ''go''] 
      [import_edge ''b.go'' (hd (ex_edges (import_of ''Old''))) 2] [] frec [] 9 ?db1 = Inl Fk_violation" for frec
    by (simp add: import_edge_def import_of_def file_node_def placeholder_def sample_defs store_eval
        Let_def del: set_filter)
  then have "write_batch ''b.go'' ''go'' 0 None ''h'' 9
      (build_batch sample_db ''b.go'' ''go'' (import_of ''Old'') [] []) sample_db = Inl Fk_violation"
    using import_of_batch [OF g] by (simp add: write_batch_def sample_park i)
  then show ?thesis
    by (simp add: index_file_def file_has_content_hash_def row_with_key_def keeps_old_index_def
        all_nodes_def import_of_def sample_db_def)
qed

text \<open>
  An import edge that ends at the file node of the imported file (a C include by its root
  relative path) is neither parked nor rebuilt when the imported file is indexed again: the
  edge is gone, and the importing file, which did not change, is not indexed again.
\<close>

definition include_db :: gdb where
  "include_db =
     \<lparr>g_nodes = [(file_node ''m.c'' ''c'')\<lparr>n_id := 1\<rparr>, (file_node ''u.h'' ''c'')\<lparr>n_id := 2\<rparr>],
      g_next_node = 3,
      g_edges = [\<lparr>e_source = 1, e_target = 2, e_kind = edge_imports, e_file = ''m.c'', e_line = 1,
                  e_col = 0, e_provenance = ''exact'', e_metadata = []\<rparr>],
      g_refs = [], g_next_ref = 1, g_files = []\<rparr>"

lemma include_db_ok: "db_ok include_db"
  by (simp add: db_ok_def ok_defs include_db_def node_key_def file_node_def)

lemma no_symbols_batch:
  "build_batch db store lang no_symbols [] [] =
    \<lparr>b_nodes = [file_node store lang], b_edges = [], b_parks = [], b_modules = []\<rparr>"
  by (simp add: build_batch_def build_links_def all_nodes_def no_symbols_def batch_nodes_def
      route_links_def edge_links_def ref_links_def bridge_links_def links_edges_def links_parks_def Let_def)

lemma include_park: "park_inbound_refs_for_file ''u.h'' include_db = Inr include_db"
proof -
  have "paged node_batch n_id (sort_key n_id (filter (\<lambda>n. n_file n = ''u.h'') (g_nodes include_db))) 0
      = [(file_node ''u.h'' ''c'')\<lparr>n_id := 2\<rparr>]"
    by (simp add: include_db_def file_node_def node_batch_def paged.simps)
  then show ?thesis
    by (simp add: park_inbound_refs_for_file_def park_target_def file_node_def)
qed

definition include_db2 :: gdb where
  "include_db2 =
     \<lparr>g_nodes = [(file_node ''m.c'' ''c'')\<lparr>n_id := 1\<rparr>, (file_node ''u.h'' ''c'')\<lparr>n_id := 3\<rparr>],
      g_next_node = 4, g_edges = [], g_refs = [], g_next_ref = 1,
      g_files = [\<lparr>f_path = ''u.h'', f_size = 0, f_mtime = 0, f_indexed_at = 9, f_hash = ''h'',
                  f_language = ''c'', f_node_count = 0\<rparr>]\<rparr>"

lemma include_write:
  "write_batch ''u.h'' ''c'' 0 None ''h'' 9 (build_batch include_db ''u.h'' ''c'' no_symbols [] []) include_db
     = Inr include_db2"
  unfolding write_batch_def no_symbols_batch include_park
  by (simp add: include_db_def include_db2_def file_node_def store_eval upsert_file_def Let_def del: set_filter)

lemma reindex_loses_import_edge:
  "g_edges include_db \<noteq> []
   \<and> g_edges (fst (index_file False ''u.h'' ''c'' ''h'' None 9 no_symbols False Extract_ok [] [] include_db)) = []
   \<and> g_refs (fst (index_file False ''u.h'' ''c'' ''h'' None 9 no_symbols False Extract_ok [] [] include_db)) = []"
proof -
  have "fst (index_file False ''u.h'' ''c'' ''h'' None 9 no_symbols False Extract_ok [] [] include_db) = include_db2"
    using include_write
    by (simp add: index_file_def file_has_content_hash_def row_with_key_def keeps_old_index_def
        all_nodes_def no_symbols_def include_db_def)
  then show ?thesis by (simp add: include_db_def include_db2_def)
qed

text \<open>
  Two workers: the batch of \<^verbatim>\<open>m.c\<close> is built while \<^verbatim>\<open>u.h\<close> still has its old file node, which another
  worker then replaces; the batch cannot be written any more.
\<close>

lemma index_race_fails:
  "write_batch ''u.h'' ''c'' 0 None ''h'' 9 (build_batch include_db ''u.h'' ''c'' no_symbols [] []) include_db
     = Inr include_db2
   \<and> write_batch ''m.c'' ''c'' 0 None ''h'' 9
       (build_batch include_db ''m.c'' ''c'' (import_of ''u.h'') [] []) include_db2 = Inl Fk_violation"
proof -
  have g: "get_node_by_name ''u.h'' include_db = [(file_node ''u.h'' ''c'')\<lparr>n_id := 2\<rparr>]"
    by (simp add: get_node_by_name_def include_db_def file_node_def node_by_name_cap_def)
  have i: "n_id ((file_node ''u.h'' ''c'')\<lparr>n_id := 2\<rparr>) = 2" by simp
  have "paged node_batch n_id (sort_key n_id (filter (\<lambda>n. n_file n = ''m.c'') (g_nodes include_db2))) 0
      = [(file_node ''m.c'' ''c'')\<lparr>n_id := 1\<rparr>]"
    by (simp add: include_db2_def file_node_def node_batch_def paged.simps)
  then have "park_inbound_refs_for_file ''m.c'' include_db2 = Inr include_db2"
    by (simp add: park_inbound_refs_for_file_def park_target_def file_node_def)
  moreover have "replace_file_index ''m.c'' [file_node ''m.c'' ''c'']
      [import_edge ''m.c'' (hd (ex_edges (import_of ''u.h''))) 2] [] frec [] 9 include_db2 = Inl Fk_violation" for frec
    by (simp add: import_edge_def import_of_def file_node_def placeholder_def include_db2_def store_eval
        Let_def del: set_filter)
  ultimately have "write_batch ''m.c'' ''c'' 0 None ''h'' 9
      (build_batch include_db ''m.c'' ''c'' (import_of ''u.h'') [] []) include_db2 = Inl Fk_violation"
    using import_of_batch [OF g] by (simp add: write_batch_def i)
  then show ?thesis using include_write by simp
qed

section \<open>Witnesses\<close>


theorem index_file_error_keeps_index_witness:
  "refs_grow sample_db (fst (index_file False ''b.go'' ''go'' ''h'' None 9 (import_of ''Old'') False Extract_ok
     [] [] sample_db))"
  using index_file_error_keeps_index [OF sample_db_ok prod.collapse [symmetric]] index_self_import_fails
  by (metis (no_types, lifting) sum.case(1))

definition two_funcs :: "node list" where
  "two_funcs = [file_node ''b.go'' ''go'', sample_node 0 kind_function ''f'' ''b.go'' 3,
                sample_node 0 kind_function ''g'' ''b.go'' 7]"

theorem same_file_links_unambiguous_witness:
  "\<exists>e. link_ref sample_db ''b.go'' ''go'' two_funcs (scan_nodes two_funcs) 1 ''g'' 4 0 edge_calls = Link_edge e
     \<and> (\<exists>t. 0 < t \<and> t < length two_funcs \<and> e_target e = placeholder t \<and> n_name (two_funcs ! t) = ''g'')"
proof -
  have ne: "two_funcs \<noteq> []" by (simp add: two_funcs_def)
  have "same_file_bare (scan_nodes two_funcs) ''g'' = Some 2"
    by (simp add: scan_nodes_def two_funcs_def same_file_bare_def scan_node_fields)
      (simp add: empty_maps_def sample_node_def scan_node_fields)
  then have l: "link_ref sample_db ''b.go'' ''go'' two_funcs (scan_nodes two_funcs) 1 ''g'' 4 0 edge_calls
      = Link_edge (exact_edge ''b.go'' 1 2 edge_calls 4 0)"
    by (simp add: link_ref_def same_file_target_def)
  from same_file_links_unambiguous [OF ne l] show ?thesis
    by (elim exE conjE) (intro exI conjI, rule l)
qed

end
