(* ===== verification/Symbol_View.thy ===== *)
theory Symbol_View
  imports Index_Builder
begin

text \<open>
  Lookup of symbols and files by what an agent types (\<^verbatim>\<open>tools/node.go\<close>): file hints, the narrowing of
  overloaded definitions, and the jail in front of every disk read.  \<open>low\<close> stands for the case
  folding of \<^verbatim>\<open>strings.ToLower\<close>, \<open>evals\<close> for \<^verbatim>\<open>filepath.EvalSymlinks\<close> (\<^const>\<open>None\<close> on error).
\<close>

section \<open>Paths below a root\<close>

definition path_within_root :: "string \<Rightarrow> string \<Rightarrow> string option" where
  "path_within_root root0 target0 =
     (let root = clean root0; target = clean target0 in
      if root = [] \<or> target = [] then None
      else case filepath_rel root target of
             None \<Rightarrow> None
           | Some rel \<Rightarrow> if rel_escapes rel then None else Some target)"

definition safe_read_path :: "(string \<Rightarrow> string option) \<Rightarrow> string \<Rightarrow> string \<Rightarrow> string option" where
  "safe_read_path evals workdir target0 =
     (let target = clean target0 in
      if workdir = [] then Some target
      else
        (let root = clean workdir in
         case path_within_root root target of
           None \<Rightarrow> None
         | Some _ \<Rightarrow>
             (case evals target of
                None \<Rightarrow> Some target
              | Some real_target \<Rightarrow>
                  (let real_root = (case evals root of None \<Rightarrow> root | Some r \<Rightarrow> r) in
                   case path_within_root real_root real_target of
                     None \<Rightarrow> None
                   | Some _ \<Rightarrow> Some real_target))))"

section \<open>File hints\<close>

definition norm_path :: "(string \<Rightarrow> string) \<Rightarrow> string \<Rightarrow> string" where
  "norm_path low p = trim_right_byte slash (low (clean p))"

definition resolve_hint_under_root :: "string \<Rightarrow> string \<Rightarrow> string option" where
  "resolve_hint_under_root root hint =
     (if root = [] \<or> hint = [] then None
      else path_within_root root (if is_abs hint then clean hint else clean (filepath_join [root, hint])))"

definition hint_forms :: "(string \<Rightarrow> string) \<Rightarrow> string \<Rightarrow> string \<Rightarrow> string list" where
  "hint_forms low hint workdir =
     norm_path low hint
     # (if workdir \<noteq> [] then
          (case resolve_hint_under_root workdir hint of
             None \<Rightarrow> []
           | Some p \<Rightarrow> [norm_path low p, norm_path low (storage_path workdir p)])
          @ [norm_path low (storage_path workdir hint)]
        else [])
     @ (let h = trim_prefix (norm_path low hint) ''./'' in if h = [] then [] else [h])"

definition file_hint_matches :: "(string \<Rightarrow> string) \<Rightarrow> string \<Rightarrow> string \<Rightarrow> string \<Rightarrow> bool" where
  "file_hint_matches low file_path hint0 workdir =
     (let hint = trim_space hint0; nf = norm_path low file_path in
      if hint = [] \<or> file_path = [] then False
      else if list_ex (\<lambda>h. h \<noteq> [] \<and> (nf = h \<or> has_suffix nf (''/'' @ h))) (hint_forms low hint workdir) then True
      else if slash \<notin> set hint \<and> backslash \<notin> set hint \<and> hint \<noteq> ''.'' \<and> hint \<noteq> ''..''
           then filepath_base nf = low (filepath_base hint)
      else False)"

text \<open>\<^verbatim>\<open>resolveIndexedFile\<close>, given the candidates of the query: one path, or the several matches.\<close>

definition resolve_indexed_file ::
    "(string \<Rightarrow> string) \<Rightarrow> string list \<Rightarrow> string \<Rightarrow> string \<Rightarrow> string option \<times> string list" where
  "resolve_indexed_file low cands workdir file_arg =
     (if trim_space file_arg = [] then (None, [])
      else
        (let scoped = (if workdir = [] then cands
                       else filter (\<lambda>f. path_within_root workdir (abs_path workdir f) \<noteq> None) cands)
         in case filter (\<lambda>f. file_hint_matches low f file_arg workdir) scoped of
              [] \<Rightarrow> (None, [])
            | [f] \<Rightarrow> (Some f, [])
            | hits \<Rightarrow> (None, hits)))"

section \<open>Overloaded symbols\<close>

definition contains_line :: "int \<Rightarrow> node \<Rightarrow> bool" where
  "contains_line line n \<longleftrightarrow> n_line n \<le> line \<and> line \<le> max (n_line n) (n_end_line n)"

text \<open>The first of the definitions that start nearest to a line.\<close>

fun nearest :: "int \<Rightarrow> node \<Rightarrow> node list \<Rightarrow> node" where
  "nearest line best [] = best"
| "nearest line best (n # ns) =
     (if \<bar>n_line n - line\<bar> < \<bar>n_line best - line\<bar> then nearest line n ns else nearest line best ns)"

definition narrow_by_line :: "int \<Rightarrow> node list \<Rightarrow> node list" where
  "narrow_by_line line ns =
     (if 0 < line \<and> 1 < length ns then
        (case filter (contains_line line) ns of
           [] \<Rightarrow> [nearest line (hd ns) (tl ns)]
         | inside \<Rightarrow> inside)
      else ns)"

definition narrow_by_file :: "(string \<Rightarrow> string) \<Rightarrow> string \<Rightarrow> string \<Rightarrow> node list \<Rightarrow> node list" where
  "narrow_by_file low workdir hint ns =
     (if hint = [] then ns
      else case filter (\<lambda>n. file_hint_matches low (n_file n) hint workdir) ns of [] \<Rightarrow> ns | by_file \<Rightarrow> by_file)"

definition find_symbol_matches ::
    "(string \<Rightarrow> string) \<Rightarrow> gdb \<Rightarrow> string \<Rightarrow> string \<Rightarrow> string \<Rightarrow> int \<Rightarrow> node list" where
  "find_symbol_matches low db workdir name file_hint line_hint =
     (let defs = filter (\<lambda>n. n_kind n \<notin> {''file'', ''module'', ''import'', ''export''}) (get_node_by_name name db) in
      if 1 < length defs \<and> (file_hint \<noteq> [] \<or> 0 < line_hint)
      then narrow_by_line line_hint (narrow_by_file low workdir file_hint defs)
      else defs)"

text \<open>Numbered source lines; the empty piece after a final newline is dropped.\<close>

definition number_source_lines :: "string \<Rightarrow> int \<Rightarrow> string" where
  "number_source_lines body start0 =
     (let start = (if start0 \<le> 0 then 1 else start0); parts = split_on newline body;
          ls = (if parts \<noteq> [] \<and> last parts = [] then butlast parts else parts)
      in join_with [newline] (map (\<lambda>i. itoa (start + int i) @ CHR 0x09 # ls ! i) [0..<length ls]))"

section \<open>The jail\<close>

lemma path_within_rootD:
  assumes "path_within_root root t = Some t'"
  obtains k where "t' = clean t" "path_elems t' = path_elems (clean root) @ k" "is_abs t' = is_abs root"
proof -
  obtain rel where r: "filepath_rel (clean root) (clean t) = Some rel" "\<not> rel_escapes rel" "t' = clean t"
    using assms by (auto simp: path_within_root_def Let_def split: if_splits option.splits)
  from filepath_rel_inside [OF r(1,2)] obtain k where
    "path_elems (clean (clean t)) = path_elems (clean (clean root)) @ k" "is_abs (clean t) = is_abs (clean root)" by metis
  then show ?thesis using that [of k] r(3) by (simp add: clean_idem is_abs_clean)
qed

text \<open>
  What a tool reads lies below the workdir: a path handed to the
  disk read is below the workdir as written, and if it exists it is the resolved path and lies
  below the resolved workdir too, so neither parent elements nor a symbolic link lead out.
\<close>

theorem safe_read_stays_inside:
  assumes "safe_read_path evals workdir target = Some p" "workdir \<noteq> []"
  shows "(\<exists>k. path_elems (clean target) = path_elems (clean workdir) @ k)
    \<and> (if evals (clean target) = None then p = clean target
       else \<exists>k. evals (clean target) = Some p \<and> path_elems (clean p)
              = path_elems (clean (case evals (clean workdir) of None \<Rightarrow> clean workdir | Some r \<Rightarrow> r)) @ k)"
proof -
  obtain t where t: "path_within_root (clean workdir) (clean target) = Some t"
    using assms by (auto simp: safe_read_path_def Let_def split: option.splits)
  from path_within_rootD [OF this] have in_root: "\<exists>k. path_elems (clean target) = path_elems (clean workdir) @ k"
    by (metis clean_idem)
  show ?thesis
  proof (cases "evals (clean target)")
    case None
    then show ?thesis using assms t in_root by (simp add: safe_read_path_def Let_def)
  next
    case (Some real)
    let ?root = "case evals (clean workdir) of None \<Rightarrow> clean workdir | Some r \<Rightarrow> r"
    have p: "p = real" "\<exists>t'. path_within_root ?root real = Some t'"
      using assms t Some by (auto simp: safe_read_path_def Let_def split: option.splits)
    then obtain t' where "path_within_root ?root real = Some t'" by blast
    from path_within_rootD [OF this] have "\<exists>k. path_elems (clean real) = path_elems (clean ?root) @ k" by metis
    then show ?thesis using in_root Some p(1) by simp
  qed
qed

theorem safe_read_stays_inside_witness:
  "safe_read_path (\<lambda>p. Some (if p = ''/w/link'' then ''/etc/passwd'' else p)) ''/w'' ''/w/link'' = None
   \<and> safe_read_path Some ''/w'' ''/w/x/../a.go'' = Some ''/w/a.go''
   \<and> (\<exists>k. path_elems (clean ''/w/x/../a.go'') = path_elems (clean ''/w'') @ k)"
proof -
  have e: "safe_read_path Some ''/w'' ''/w/x/../a.go'' = Some ''/w/a.go''"
    by (simp add: safe_read_path_def path_within_root_def path_eval str_eval)
  moreover have "safe_read_path (\<lambda>p. Some (if p = ''/w/link'' then ''/etc/passwd'' else p)) ''/w'' ''/w/link'' = None"
    by (simp add: safe_read_path_def path_within_root_def path_eval str_eval)
  ultimately show ?thesis using safe_read_stays_inside [OF e] by blast
qed

end
