(* ===== verification/Call_Graph.thy ===== *)
theory Call_Graph
  imports Reach Symbol_View Go_Match "HOL-Library.AList" "HOL-Library.List_Lexorder" "HOL-Library.Char_ord"
    "HOL-Library.Product_Lexorder"
begin

text \<open>
  The call-graph tools (\<^verbatim>\<open>tools/graph.go\<close> over \<^verbatim>\<open>db/query_edges.go\<close>): the definitions a name stands for, its
  callers and callees as lines of text, and the files a change of it affects, found by a bounded
  breadth-first search against the edges.  The full-text engine behind the fallback for unknown
  names is the argument \<open>fts\<close>.
\<close>

section \<open>The queries\<close>

text \<open>Edge kinds that count as a dependency, and the row limit of the graph queries.\<close>

definition structural_kinds :: "string set" where
  "structural_kinds = {''calls'', ''references'', ''bridge''}"

definition graph_query_row_limit :: nat where
  "graph_query_row_limit = 50000"

record node_ref =
  nr_node :: node
  nr_kind :: string

text \<open>The rows of the join, ordered by the node's id and the line of the edge.\<close>

definition get_callers_with_kind :: "gdb \<Rightarrow> int \<Rightarrow> node_ref list" where
  "get_callers_with_kind db i =
     map (\<lambda>(e, n). \<lparr>nr_node = n\<lparr>n_line := (if 0 < e_line e then e_line e else n_line n)\<rparr>, nr_kind = e_kind e\<rparr>)
       (take graph_query_row_limit
         (sort_key (\<lambda>(e, n). (n_id n, e_line e))
           [(e, n). e \<leftarrow> g_edges db, e_target e = i \<and> e_kind e \<in> structural_kinds,
                    n \<leftarrow> g_nodes db, n_id n = e_source e]))"

definition get_callees_with_kind :: "gdb \<Rightarrow> int \<Rightarrow> node_ref list" where
  "get_callees_with_kind db i =
     map (\<lambda>(e, n). \<lparr>nr_node = n, nr_kind = e_kind e\<rparr>)
       (take graph_query_row_limit
         (sort_key (\<lambda>(e, n). n_id n)
           [(e, n). e \<leftarrow> g_edges db, e_source e = i \<and> e_kind e \<in> structural_kinds,
                    n \<leftarrow> g_nodes db, n_id n = e_target e]))"

section \<open>What a name stands for\<close>

record graph_query =
  gq_name :: string
  gq_path :: string
  gq_file :: string
  gq_glob :: string
  gq_max :: int
  gq_depth :: int

text \<open>\<open>low\<close> and \<open>evals\<close> as in \<^theory_text>\<open>Symbol_View\<close>; \<open>fts\<close> gives the ranked rows of a full-text query.\<close>

record tool_env =
  te_low :: "string \<Rightarrow> string"
  te_evals :: "string \<Rightarrow> string option"
  te_fts :: "gdb \<Rightarrow> string \<Rightarrow> nat \<Rightarrow> node list"
  te_workdir :: string

definition glob_keeps :: "string \<Rightarrow> string \<Rightarrow> node \<Rightarrow> bool" where
  "glob_keeps workdir glob n \<longleftrightarrow>
     glob = [] \<or> go_match glob (rel_path workdir (n_file n)) = Some True
     \<or> go_match glob (filepath_base (n_file n)) = Some True"

text \<open>By exact name, else by full text with the same name or a qualified form of it.\<close>

definition named_nodes :: "tool_env \<Rightarrow> gdb \<Rightarrow> string \<Rightarrow> node list" where
  "named_nodes te db name =
     (case get_node_by_name name db of
        [] \<Rightarrow> filter (\<lambda>n. n_name n = name \<or> has_suffix (n_name n) (''.'' @ name)) (te_fts te db name 20)
      | named \<Rightarrow> named)"

definition resolve_defs :: "tool_env \<Rightarrow> gdb \<Rightarrow> graph_query \<Rightarrow> node list" where
  "resolve_defs te db q =
     (let wd = te_workdir te;
          defs = filter (\<lambda>n. n_kind n \<notin> {''file'', ''module''}
                    \<and> (gq_path q = [] \<or> path_under_root (te_evals te) (n_file n) wd (gq_path q))
                    \<and> glob_keeps wd (gq_glob q) n) (named_nodes te db (gq_name q))
      in if 1 < length defs then narrow_by_file (te_low te) wd (gq_file q) defs else defs)"

section \<open>Callers and callees\<close>

definition clamp_graph_max :: "int \<Rightarrow> nat" where
  "clamp_graph_max v = (if v \<le> 0 then 40 else if 200 < v then 200 else nat v)"

definition overflow_line :: "nat \<Rightarrow> string" where
  "overflow_line m = ''... (max '' @ itoa (int m) @ '')'' @ [newline]"

definition hit_key :: "node_ref \<Rightarrow> string" where
  "hit_key c = n_name (nr_node c) @ ''|'' @ n_file (nr_node c) @ ''|'' @ itoa (n_line (nr_node c))"

definition hit_line :: "string \<Rightarrow> node_ref \<Rightarrow> string" where
  "hit_line wd c = rel_path wd (n_file (nr_node c)) @ '':'' @ itoa (n_line (nr_node c)) @ [newline]"

text \<open>One row: the seen keys, the number of lines and the text; on the left the text to return at once.\<close>

definition emit_hit :: "string \<Rightarrow> nat \<Rightarrow> node_ref \<Rightarrow> string set \<times> nat \<times> string \<Rightarrow> string + (string set \<times> nat \<times> string)" where
  "emit_hit wd m c s =
     (let (seen, k, b) = s; key = hit_key c in
      if key \<in> seen then Inr s
      else if m \<le> k then Inl (b @ overflow_line m)
      else Inr (insert key seen, k + 1, b @ hit_line wd c))"

text \<open>The tools over either query.  The second component is false when the index knows no edge.\<close>

definition list_hits :: "(int \<Rightarrow> node_ref list) \<Rightarrow> tool_env \<Rightarrow> gdb \<Rightarrow> graph_query \<Rightarrow> string \<times> bool" where
  "list_hits rows te db q =
     (let m = clamp_graph_max (gq_max q); defs = resolve_defs te db q in
      case foldE (\<lambda>d. foldE (emit_hit (te_workdir te) m) (rows (n_id d))) defs ({}, 0, []) of
        Inl text \<Rightarrow> (text, True)
      | Inr (seen, k, b) \<Rightarrow> if list_all (\<lambda>d. rows (n_id d) = []) defs then ([], False) else (b, True))"

datatype tool_error = Name_required

definition tool_callers_graph :: "tool_env \<Rightarrow> gdb \<Rightarrow> graph_query \<Rightarrow> tool_error + (string \<times> bool)" where
  "tool_callers_graph te db q =
     (if gq_name q = [] then Inl Name_required else Inr (list_hits (get_callers_with_kind db) te db q))"

definition tool_callees_graph :: "tool_env \<Rightarrow> gdb \<Rightarrow> graph_query \<Rightarrow> tool_error + (string \<times> bool)" where
  "tool_callees_graph te db q =
     (if gq_name q = [] then Inl Name_required else Inr (list_hits (get_callees_with_kind db) te db q))"

section \<open>Impact\<close>

text \<open>Files with the number of call sites found in them and the distance of the first one.\<close>

type_synonym file_hits = "(string \<times> nat \<times> nat) list"

definition bump_hit :: "nat \<Rightarrow> string \<Rightarrow> file_hits \<Rightarrow> file_hits" where
  "bump_hit d f hits =
     (case map_of hits f of
        None \<Rightarrow> hits @ [(f, 1, d + 1)]
      | Some (n, d0) \<Rightarrow> AList.update f (n + 1, d0) hits)"

definition visit_caller ::
    "nat \<Rightarrow> node_ref \<Rightarrow> file_hits \<times> int set \<times> (int \<times> nat) list \<Rightarrow> file_hits \<times> int set \<times> (int \<times> nat) list" where
  "visit_caller d c s =
     (let (hits, visited, queue) = s; i = n_id (nr_node c); hits' = bump_hit d (n_file (nr_node c)) hits in
      if i \<in> visited then (hits', visited, queue) else (hits', insert i visited, queue @ [(i, d + 1)]))"

partial_function (option) impact_loop ::
    "(int \<Rightarrow> node_ref list) \<Rightarrow> nat \<Rightarrow> file_hits \<Rightarrow> int set \<Rightarrow> (int \<times> nat) list \<Rightarrow> file_hits option" where
  "impact_loop callers depth hits visited queue =
     (case queue of
        [] \<Rightarrow> Some hits
      | (i, d) # rest \<Rightarrow>
          if depth \<le> d then impact_loop callers depth hits visited rest
          else
            (let (hits', visited', queue') = fold (visit_caller d) (callers i) (hits, visited, rest)
             in impact_loop callers depth hits' visited' queue'))"

definition clamp_depth :: "int \<Rightarrow> nat" where
  "clamp_depth d = (if d \<le> 0 then 2 else if 5 < d then 5 else nat d)"

text \<open>By falling count, then by name.\<close>

definition rank_hits :: "file_hits \<Rightarrow> file_hits" where
  "rank_hits = sort_key (\<lambda>(f, n, d). (- int n, f))"

definition impact_text :: "string \<Rightarrow> nat \<Rightarrow> string list \<Rightarrow> string" where
  "impact_text wd m fs =
     concat (map (\<lambda>f. rel_path wd f @ [newline]) (take m fs)) @ (if m < length fs then overflow_line m else [])"

definition tool_impact_graph :: "tool_env \<Rightarrow> gdb \<Rightarrow> graph_query \<Rightarrow> (tool_error + (string \<times> bool)) option" where
  "tool_impact_graph te db q =
     (if gq_name q = [] then Some (Inl Name_required)
      else
        (let ids = map n_id (resolve_defs te db q) in
         case impact_loop (get_callers_with_kind db) (clamp_depth (gq_depth q)) [] (set ids) (map (\<lambda>i. (i, 0)) ids) of
           None \<Rightarrow> None
         | Some hits \<Rightarrow>
             Some (Inr (if hits = [] then ([], False)
               else (impact_text (te_workdir te) (clamp_graph_max (gq_max q)) (map fst (rank_hits hits)), True)))))"


section \<open>The lists of hits\<close>

lemma foldE_concat: "foldE (\<lambda>d. foldE f (g d)) ds s = foldE f (concat (map g ds)) s"
proof (induction ds arbitrary: s)
  case (Cons d ds)
  then show ?case by (cases "foldE f (g d) s") (simp_all add: foldE_append)
qed simp

text \<open>The loop with its early return is the first \<open>m\<close> distinct hits, and a marker if there are more.\<close>

lemma emit_hits:
  assumes "k \<le> m" "ks = dedup_by hit_key seen rows"
  shows "foldE (emit_hit wd m) rows (seen, k, b) =
    (if k + length ks \<le> m then Inr (seen \<union> hit_key ` set rows, k + length ks, b @ concat (map (hit_line wd) ks))
     else Inl (b @ concat (map (hit_line wd) (take (m - k) ks)) @ overflow_line m))"
  using assms
proof (induction rows arbitrary: seen k b ks)
  case (Cons c rows)
  show ?case
  proof (cases "hit_key c \<in> seen")
    case True
    then show ?thesis using Cons.IH [OF Cons.prems(1)] Cons.prems(2)
      by (simp add: emit_hit_def Let_def insert_absorb)
  next
    case False
    show ?thesis
    proof (cases "k < m")
      case True
      let ?ks = "dedup_by hit_key (insert (hit_key c) seen) rows"
      have "take (m - k) (c # ?ks) = c # take (m - Suc k) ?ks" using True by (simp add: take_Cons' Suc_diff_Suc)
      then show ?thesis using Cons.IH [of "Suc k" ?ks] Cons.prems True False
        by (simp add: emit_hit_def Let_def)
    qed (use Cons.prems False in \<open>simp add: emit_hit_def Let_def\<close>)
  qed
qed simp

lemma list_hits_text:
  fixes rows te db q
  defines "ks \<equiv> dedup_by hit_key {} (concat (map (rows \<circ> n_id) (resolve_defs te db q)))"
  shows "list_hits rows te db q =
    (concat (map (hit_line (te_workdir te)) (take (clamp_graph_max (gq_max q)) ks))
       @ (if clamp_graph_max (gq_max q) < length ks then overflow_line (clamp_graph_max (gq_max q)) else []), ks \<noteq> [])"
proof -
  let ?defs = "resolve_defs te db q" and ?m = "clamp_graph_max (gq_max q)"
  let ?rows = "concat (map (rows \<circ> n_id) ?defs)"
  have "(list_all (\<lambda>d. rows (n_id d) = []) ?defs) \<longleftrightarrow> ?rows = []" by (auto simp: list_all_iff)
  moreover have "ks = [] \<longleftrightarrow> ?rows = []"
    using keys_dedup_by [of hit_key "{}" ?rows] by (auto simp: ks_def simp del: keys_dedup_by)
  ultimately have none: "(list_all (\<lambda>d. rows (n_id d) = []) ?defs) \<longleftrightarrow> ks = []" by simp
  have 0: "0 \<le> ?m" by simp
  show ?thesis
    unfolding list_hits_def Let_def foldE_concat [where g = "\<lambda>d. rows (n_id d)"]
    using emit_hits [OF 0 refl, where seen = "{}" and rows = ?rows and b = "[]"] none
    by (auto simp: ks_def comp_def)
qed


section \<open>The search\<close>

definition hit_count :: "file_hits \<Rightarrow> string \<Rightarrow> nat" where
  "hit_count hits f = (case map_of hits f of None \<Rightarrow> 0 | Some (n, d) \<Rightarrow> n)"

text \<open>File records occur once and count something.\<close>

definition hits_ok :: "file_hits \<Rightarrow> bool" where
  "hits_ok hits \<longleftrightarrow> distinct (map fst hits) \<and> list_all (\<lambda>(f, n, d). 0 < n) hits"

lemma hits_okD: "hits_ok hits \<Longrightarrow> f \<in> fst ` set hits \<longleftrightarrow> 0 < hit_count hits f"
proof (cases "map_of hits f")
  case None
  then show ?thesis by (simp add: hit_count_def) (simp add: map_of_eq_None_iff)
next
  case (Some nd)
  moreover assume "hits_ok hits"
  ultimately show ?thesis using map_of_SomeD [OF Some]
    by (auto simp: hits_ok_def hit_count_def list_all_iff intro: rev_image_eqI)
qed

lemma bump_hit_ok:
  assumes "hits_ok hits"
  shows "hits_ok (bump_hit d f hits) \<and> hit_count (bump_hit d f hits) g = hit_count hits g + (if g = f then 1 else 0)"
proof (cases "map_of hits f")
  case None
  then have "f \<notin> fst ` set hits" by (simp add: map_of_eq_None_iff)
  then show ?thesis using assms None
    by (auto simp: bump_hit_def hits_ok_def hit_count_def map_add_def split: option.split)
next
  case (Some nd)
  obtain n d0 where nd: "nd = (n, d0)" by fastforce
  have "list_all (\<lambda>(f, n, d). 0 < n) (AList.update f (n + 1, d0) hits)"
    using assms by (induction hits) (auto simp: hits_ok_def)
  then show ?thesis using assms Some nd
    by (simp add: bump_hit_def hits_ok_def hit_count_def distinct_update update_conv)
qed

lemma fold_bump_ok:
  assumes "hits_ok hits"
  shows "hits_ok (fold (\<lambda>c. bump_hit d (h c)) cs hits)
    \<and> hit_count (fold (\<lambda>c. bump_hit d (h c)) cs hits) g = hit_count hits g + length (filter (\<lambda>c. h c = g) cs)"
  using assms
proof (induction cs arbitrary: hits)
  case (Cons c cs)
  then show ?case using bump_hit_ok [OF Cons.prems, of d "h c"] by auto
qed simp

abbreviation caller_id :: "node_ref \<Rightarrow> int" where
  "caller_id c \<equiv> n_id (nr_node c)"

abbreviation caller_file :: "node_ref \<Rightarrow> string" where
  "caller_file c \<equiv> n_file (nr_node c)"

lemma fold_visit:
  "fold (visit_caller d) cs (hits, V, queue) =
     (fold (\<lambda>c. bump_hit d (caller_file c)) cs hits, V \<union> caller_id ` set cs,
      queue @ map (\<lambda>i. (i, d + 1)) (dedup_by (\<lambda>i. i) V (map caller_id cs)))"
  by (induction cs arbitrary: hits V queue) (auto simp: visit_caller_def Let_def insert_absorb)

text \<open>The queue holds one level and the beginning of the next; a level is taken at once.\<close>

lemma impact_level:
  assumes "d < depth" "R = concat (map callers xs)"
  shows "impact_loop callers depth hits V (map (\<lambda>i. (i, d)) xs @ map (\<lambda>i. (i, d + 1)) ys) =
    impact_loop callers depth (fold (\<lambda>c. bump_hit d (caller_file c)) R hits) (V \<union> caller_id ` set R)
      (map (\<lambda>i. (i, d + 1)) (ys @ dedup_by (\<lambda>i. i) V (map caller_id R)))"
  using assms(2)
proof (induction xs arbitrary: hits V ys R)
  case (Cons x xs)
  let ?cs = "callers x" and ?V = "V \<union> caller_id ` set (callers x)"
  have "impact_loop callers depth hits V (map (\<lambda>i. (i, d)) (x # xs) @ map (\<lambda>i. (i, d + 1)) ys) =
    impact_loop callers depth (fold (\<lambda>c. bump_hit d (caller_file c)) ?cs hits) ?V
      (map (\<lambda>i. (i, d)) xs @ map (\<lambda>i. (i, d + 1)) (ys @ dedup_by (\<lambda>i. i) V (map caller_id ?cs)))"
    using assms(1) by (subst impact_loop.simps) (simp add: fold_visit)
  also have "\<dots> = impact_loop callers depth (fold (\<lambda>c. bump_hit d (caller_file c)) R hits) (V \<union> caller_id ` set R)
      (map (\<lambda>i. (i, d + 1)) (ys @ dedup_by (\<lambda>i. i) V (map caller_id R)))"
    using Cons.IH [OF refl, of "fold (\<lambda>c. bump_hit d (caller_file c)) ?cs hits" ?V
        "ys @ dedup_by (\<lambda>i. i) V (map caller_id ?cs)"] Cons.prems
    by (simp add: dedup_by_append Un_assoc image_Un)
  finally show ?case .
qed simp

lemma impact_drain: "depth \<le> d \<Longrightarrow> impact_loop callers depth hits V (map (\<lambda>i. (i, d)) xs) = Some hits"
  by (induction xs) (simp_all add: impact_loop.simps)

lemma impact_next:
  assumes "d < depth" "R = concat (map callers xs)"
  shows "impact_loop callers depth hits V (map (\<lambda>i. (i, d)) xs) =
    impact_loop callers depth (fold (\<lambda>c. bump_hit d (caller_file c)) R hits) (V \<union> caller_id ` set R)
      (map (\<lambda>i. (i, d + 1)) (dedup_by (\<lambda>i. i) V (map caller_id R)))"
  using impact_level [OF assms, of hits V "[]"] by simp

lemma impact_returns: "d \<le> depth \<Longrightarrow> \<exists>hs. impact_loop callers depth hits V (map (\<lambda>i. (i, d)) xs) = Some hs"
proof (induction "depth - d" arbitrary: d hits V xs)
  case (Suc n)
  then have "d < depth" "n = depth - (d + 1)" "d + 1 \<le> depth" by simp_all
  then show ?case using Suc.hyps(1) [of "d + 1"] impact_next [OF _ refl] by metis
qed (simp add: impact_drain)

text \<open>Call sites in a file, over all nodes within the depth.\<close>

definition callers_of :: "(int \<Rightarrow> node_ref list) \<Rightarrow> int \<Rightarrow> int set" where
  "callers_of callers i = caller_id ` set (callers i)"

definition impact_count :: "(int \<Rightarrow> node_ref list) \<Rightarrow> int set \<Rightarrow> nat \<Rightarrow> string \<Rightarrow> nat" where
  "impact_count callers S depth f =
     (\<Sum>i\<in>within (callers_of callers) S depth. length (filter (\<lambda>c. caller_file c = f) (callers i)))"

lemma level_rows:
  "distinct xs \<Longrightarrow> length (filter P (concat (map callers xs))) = (\<Sum>i\<in>set xs. length (filter P (callers i)))"
  by (induction xs) auto

lemma impact_loop_exact:
  assumes "finite S" "d \<le> depth" "V = within (callers_of callers) S (Suc d)"
    and "distinct xs" "set xs = within (callers_of callers) S (Suc d) - within (callers_of callers) S d"
    and "hits_ok hits" "\<And>f. hit_count hits f = impact_count callers S d f"
  shows "\<exists>hs. impact_loop callers depth hits V (map (\<lambda>i. (i, d)) xs) = Some hs \<and> hits_ok hs
    \<and> (\<forall>f. hit_count hs f = impact_count callers S depth f)"
  using assms(2-)
proof (induction "depth - d" arbitrary: d hits V xs)
  case 0
  then show ?case by (simp add: impact_drain)
next
  case (Suc n)
  let ?W = "within (callers_of callers) S" and ?R = "concat (map callers xs)"
  let ?hits = "fold (\<lambda>c. bump_hit d (caller_file c)) ?R hits" and ?V = "V \<union> caller_id ` set ?R"
    and ?xs = "dedup_by (\<lambda>i. i) V (map caller_id ?R)"
  have d: "d < depth" using Suc.hyps(2) by simp
  have fin: "finite (?W k)" for k using assms(1) by (rule finite_within) (simp add: callers_of_def)
  have R: "caller_id ` set ?R = (\<Union>i\<in>set xs. callers_of callers i)" by (auto simp: callers_of_def)
  have split: "?W (Suc d) = set xs \<union> ?W d" using Suc.prems(4) within_mono_Suc [of "callers_of callers" S d] by blast
  have V: "?V = ?W (Suc (Suc d))"
    unfolding R Suc.prems(2) by (rule within_level [OF split, symmetric])
  have xs: "set ?xs = ?W (Suc (Suc d)) - ?W (Suc d)"
  proof -
    have "set ?xs = caller_id ` set ?R - V" using keys_dedup_by [of "\<lambda>i. i" V "map caller_id ?R"] by simp
    then show ?thesis unfolding V [symmetric] Suc.prems(2) [symmetric] by blast
  qed
  have "distinct ?xs" using distinct_dedup_by [of "\<lambda>i. i" V "map caller_id ?R"] by simp
  have disj: "set xs \<inter> ?W d = {}" unfolding Suc.prems(4) by blast
  have "impact_count callers S (Suc d) f = impact_count callers S d f + length (filter (\<lambda>c. caller_file c = f) ?R)" for f
  proof -
    have "impact_count callers S (Suc d) f = impact_count callers S d f
        + (\<Sum>i\<in>set xs. length (filter (\<lambda>c. caller_file c = f) (callers i)))"
      unfolding impact_count_def split using disj by (simp add: sum.union_disjoint [OF _ fin] add.commute)
    then show ?thesis by (simp add: level_rows [OF Suc.prems(3)])
  qed
  then have count: "hits_ok ?hits" "\<And>f. hit_count ?hits f = impact_count callers S (Suc d) f"
    using fold_bump_ok [OF Suc.prems(5), of d caller_file ?R] Suc.prems(6) by simp_all
  have "n = depth - Suc d" using Suc.hyps(2) by simp
  then show ?case
    using Suc.hyps(1) [of "Suc d" ?V ?xs ?hits] d V xs \<open>distinct ?xs\<close> count impact_next [OF d refl, where hits = hits and V = V and callers = callers and xs = xs]
    by (simp del: within.simps)
qed


section \<open>Properties of the tools\<close>

text \<open>The definitions of a name have different ids, if the full-text engine gives each row once.\<close>

lemma resolve_defs_distinct:
  assumes "db_ok db" "distinct (map n_id (te_fts te db (gq_name q) 20))"
  shows "distinct (map n_id (resolve_defs te db q))"
proof -
  have "distinct (map n_id (get_node_by_name (gq_name q) db))"
  proof -
    have "distinct (map n_id (sort_key n_id (filter (\<lambda>n. n_name n = gq_name q) (g_nodes db))))"
      using assms(1) by (auto simp: db_ok_def ok_defs distinct_map intro: inj_on_subset)
    then show ?thesis by (simp add: get_node_by_name_def take_map [symmetric] distinct_take)
  qed
  then have named: "distinct (map n_id (named_nodes te db (gq_name q)))"
    using assms(2) by (cases "get_node_by_name (gq_name q) db") (simp_all add: named_nodes_def distinct_map_filter)
  have "distinct (map n_id (narrow_by_file low wd hint ns))" if "distinct (map n_id ns)" for low wd hint ns
    using that distinct_map_filter [OF that, of "\<lambda>n. file_hint_matches low (n_file n) hint wd"]
    by (cases "filter (\<lambda>n. file_hint_matches low (n_file n) hint wd) ns") (simp_all add: narrow_by_file_def)
  then show ?thesis using distinct_map_filter [OF named] by (simp add: resolve_defs_def Let_def)
qed

lemma clamp_graph_max_bounds: "1 \<le> clamp_graph_max v \<and> clamp_graph_max v \<le> 200"
  by (simp add: clamp_graph_max_def) arith

text \<open>
  The callers and callees tools list every hit of every definition once, in
  the order of the definitions and rows and never more than the clamped maximum, and say so
  exactly when something was left out; they report nothing found exactly when the index has no
  edge at all, so that a text search is tried only then.
\<close>

theorem hits_text_exact:
  assumes "gq_name q \<noteq> []" "m = clamp_graph_max (gq_max q)" "wd = te_workdir te"
    and "ins = dedup_by hit_key {} (concat (map (get_callers_with_kind db \<circ> n_id) (resolve_defs te db q)))"
    and "outs = dedup_by hit_key {} (concat (map (get_callees_with_kind db \<circ> n_id) (resolve_defs te db q)))"
  shows "tool_callers_graph te db q =
      Inr (concat (map (hit_line wd) (take m ins)) @ (if m < length ins then overflow_line m else []), ins \<noteq> [])
    \<and> tool_callees_graph te db q =
      Inr (concat (map (hit_line wd) (take m outs)) @ (if m < length outs then overflow_line m else []), outs \<noteq> [])
    \<and> 1 \<le> m \<and> m \<le> 200"
  using assms clamp_graph_max_bounds by (simp add: tool_callers_graph_def tool_callees_graph_def list_hits_text)

text \<open>
  The search for affected files ends on every graph, cyclic ones included,
  and for every request: the tool always answers.
\<close>

theorem impact_terminates: "\<exists>answer. tool_impact_graph te db q = Some answer"
proof -
  have "\<exists>hs. impact_loop (get_callers_with_kind db) depth [] (set ids) (map (\<lambda>i. (i, 0)) ids) = Some hs" for depth ids
    by (rule impact_returns) simp
  then show ?thesis unfolding tool_impact_graph_def Let_def by (metis (no_types, lifting) option.simps(5))
qed

text \<open>
  C15 (\<open>impact_exact\<close>).  The impact tool lists exactly the files with a call site of a node that reaches
  a definition of the name in fewer steps than the depth, each file once, by falling number of
  those call sites and then by name; every node counts once however many paths lead to it.
\<close>

theorem impact_exact:
  assumes "db_ok db" "distinct (map n_id (te_fts te db (gq_name q) 20))" "gq_name q \<noteq> []"
    and "sites = impact_count (get_callers_with_kind db) (n_id ` set (resolve_defs te db q)) (clamp_depth (gq_depth q))"
  shows "\<exists>fs. tool_impact_graph te db q
        = Some (Inr (impact_text (te_workdir te) (clamp_graph_max (gq_max q)) fs, fs \<noteq> []))
    \<and> distinct fs \<and> set fs = {f. 0 < sites f}
    \<and> sorted_wrt (\<lambda>f g. sites g < sites f \<or> sites f = sites g \<and> f \<le> g) fs"
proof -
  let ?ids = "map n_id (resolve_defs te db q)" and ?callers = "get_callers_with_kind db"
  let ?depth = "clamp_depth (gq_depth q)"
  have "\<exists>hs. impact_loop ?callers ?depth [] (set ?ids) (map (\<lambda>i. (i, 0)) ?ids) = Some hs
      \<and> hits_ok hs \<and> (\<forall>f. hit_count hs f = impact_count ?callers (set ?ids) ?depth f)"
    using resolve_defs_distinct [OF assms(1,2)]
    by (intro impact_loop_exact) (auto simp: hits_ok_def hit_count_def impact_count_def)
  then obtain hs where hs: "impact_loop ?callers ?depth [] (set ?ids) (map (\<lambda>i. (i, 0)) ?ids) = Some hs"
    "hits_ok hs" "\<And>f. hit_count hs f = sites f" by (auto simp: assms(4))
  let ?rank = "\<lambda>(f, n, d). (- int n, f)" and ?fs = "map fst (rank_hits hs)"
  have set: "set (rank_hits hs) = set hs" and dist: "distinct ?fs"
    using hs(2) by (simp_all add: rank_hits_def hits_ok_def distinct_map)
  then have "rank_hits hs = [] \<longleftrightarrow> hs = []" by (metis set_empty)
  then have tool: "tool_impact_graph te db q
      = Some (Inr (impact_text (te_workdir te) (clamp_graph_max (gq_max q)) ?fs, ?fs \<noteq> []))"
    using hs(1) assms(3) by (auto simp: tool_impact_graph_def Let_def impact_text_def)
  have "set ?fs = {f. 0 < sites f}" using hits_okD [OF hs(2)] hs(3) set by auto
  moreover have count: "n = sites f" if "(f, n, d) \<in> set (rank_hits hs)" for f n d
    using that set hs(2) hs(3) [of f] by (simp add: hits_ok_def hit_count_def)
  have "sorted_wrt (\<lambda>x y. ?rank x \<le> ?rank y) (rank_hits hs)"
    using sorted_sort_key [where f = ?rank and xs = hs] by (simp add: rank_hits_def sorted_wrt_map)
  then have "sorted_wrt (\<lambda>x y. sites (fst y) < sites (fst x) \<or> sites (fst x) = sites (fst y) \<and> fst x \<le> fst y) (rank_hits hs)"
    by (rule sorted_wrt_mono_rel [rotated]) (auto dest!: count simp: less_eq_prod_def)
  then have "sorted_wrt (\<lambda>f g. sites g < sites f \<or> sites f = sites g \<and> f \<le> g) ?fs"
    by (simp add: sorted_wrt_map)
  ultimately show ?thesis using tool dist by blast
qed


section \<open>A call of the tools\<close>

definition sample_tool :: tool_env where
  "sample_tool = \<lparr>te_low = (\<lambda>s. s), te_evals = Some, te_fts = (\<lambda>db name k. []), te_workdir = ''/w''\<rparr>"

definition sample_query :: graph_query where
  "sample_query = \<lparr>gq_name = ''Old'', gq_path = [], gq_file = [], gq_glob = [], gq_max = 0, gq_depth = 0\<rparr>"

lemma sample_old: "resolve_defs sample_tool sample_db sample_query = [sample_node 2 kind_function ''Old'' ''b.go'' 5]"
  by (simp add: resolve_defs_def named_nodes_def get_node_by_name_def node_by_name_cap_def sample_tool_def
      sample_query_def sample_defs glob_keeps_def)

lemma sample_callers:
  "get_callers_with_kind sample_db 2 =
     [\<lparr>nr_node = (sample_node 1 kind_function ''main'' ''a.go'' 3)\<lparr>n_line := 7\<rparr>, nr_kind = edge_calls\<rparr>]"
  "get_callers_with_kind sample_db 1 = []" "get_callees_with_kind sample_db 2 = []"
  by (simp_all add: get_callers_with_kind_def get_callees_with_kind_def graph_query_row_limit_def sample_defs
      structural_kinds_def)

theorem hits_text_exact_witness:
  "tool_callers_graph sample_tool sample_db sample_query = Inr (''a.go:7'' @ [newline], True)
   \<and> tool_callees_graph sample_tool sample_db sample_query = Inr ([], False)"
proof -
  have name: "gq_name sample_query \<noteq> []" and m: "clamp_graph_max (gq_max sample_query) = 40"
    and wd: "te_workdir sample_tool = ''/w''"
    by (simp_all add: sample_query_def sample_tool_def clamp_graph_max_def)
  have id: "n_id (sample_node 2 kind_function ''Old'' ''b.go'' 5) = 2" by (simp add: sample_node_def)
  have line: "hit_line ''/w'' \<lparr>nr_node = (sample_node 1 kind_function ''main'' ''a.go'' 3)\<lparr>n_line := 7\<rparr>, nr_kind = edge_calls\<rparr>
      = ''a.go:7'' @ [newline]"
    by (simp add: hit_line_def sample_node_def rel_path_def path_eval itoa_def digits.simps [of 7] char_of_def bit_Suc_0_iff)
  show ?thesis
    using hits_text_exact [OF name refl refl refl refl, of sample_tool sample_db]
    unfolding sample_old m wd by (simp add: id sample_callers line)
qed

theorem impact_exact_witness:
  "\<exists>fs. tool_impact_graph sample_tool sample_db sample_query = Some (Inr (impact_text ''/w'' 40 fs, True))
     \<and> fs = [''a.go'']"
proof -
  have name: "gq_name sample_query \<noteq> []" and m: "clamp_graph_max (gq_max sample_query) = 40"
    and wd: "te_workdir sample_tool = ''/w''" and depth: "clamp_depth (gq_depth sample_query) = Suc (Suc 0)"
    and fts: "distinct (map n_id (te_fts sample_tool sample_db (gq_name sample_query) 20))"
    by (simp_all add: sample_query_def sample_tool_def clamp_graph_max_def clamp_depth_def)
  have id: "n_id ` set [sample_node 2 kind_function ''Old'' ''b.go'' 5] = {2}" by (simp add: sample_node_def)
  have within: "within (callers_of (get_callers_with_kind sample_db)) {2} (Suc (Suc 0)) = {2, 1}"
    by (simp add: callers_of_def sample_callers) (auto simp: sample_node_def)
  have sites: "impact_count (get_callers_with_kind sample_db) {2} (Suc (Suc 0)) f = (if f = ''a.go'' then 1 else 0)" for f
    unfolding impact_count_def within by (simp add: sample_callers) (simp add: sample_node_def)
  obtain fs where fs: "tool_impact_graph sample_tool sample_db sample_query = Some (Inr (impact_text
        (te_workdir sample_tool) (clamp_graph_max (gq_max sample_query)) fs, fs \<noteq> []))" "distinct fs"
      "set fs = {f. 0 < impact_count (get_callers_with_kind sample_db)
        (n_id ` set (resolve_defs sample_tool sample_db sample_query)) (clamp_depth (gq_depth sample_query)) f}"
    using impact_exact [OF sample_db_ok fts name refl] by blast
  have "set fs = {''a.go''}" unfolding fs(3) sample_old id depth sites by simp
  then have "fs = [''a.go'']" using distinct_eq_single [OF fs(2)] by simp
  then show ?thesis using fs(1) unfolding wd m by simp
qed

end
