(* ===== verification/Edge_Writer.thy ===== *)
theory Edge_Writer
  imports Keyed_Table
begin

text \<open>
  The batched edge writer and the loop of a resolution pass (\<^verbatim>\<open>edgeWriter\<close>, and the loops that
  \<^verbatim>\<open>ResolveAll\<close> and \<^verbatim>\<open>ResolveForFiles\<close> share, in \<^verbatim>\<open>internal/resolution/resolver.go\<close>).  They use the
  database through three operations, which are arguments here: \<open>plan\<close> (\<^verbatim>\<open>resolveOne\<close>), \<open>wr\<close>
  (one resolved reference: upsert the edge, delete the reference) and \<open>mark\<close> (\<^verbatim>\<open>markRefFailed\<close>).
  The locale \<open>resolution_store\<close> states what the loop relies on; under it the result does not
  depend on the batch size.
\<close>

section \<open>The writer\<close>

record ('s, 'p) edge_writer =
  w_db :: 's
  w_batch :: "'p list"
  w_resolved :: nat
  w_failed :: "'p list"

definition new_edge_writer :: "'s \<Rightarrow> ('s, 'p) edge_writer" where
  "new_edge_writer db = \<lparr>w_db = db, w_batch = [], w_resolved = 0, w_failed = []\<rparr>"

text \<open>\<^verbatim>\<open>applyOne\<close> with the bookkeeping of \<^verbatim>\<open>flush\<close>'s retry loop.\<close>

definition retry_one :: "('p \<Rightarrow> 's \<Rightarrow> 'e + 's) \<Rightarrow> ('s, 'p) edge_writer \<Rightarrow> 'p \<Rightarrow> ('s, 'p) edge_writer" where
  "retry_one wr w p =
     (case wr p (w_db w) of
        Inr db \<Rightarrow> w\<lparr>w_db := db, w_resolved := w_resolved w + 1\<rparr>
      | Inl _ \<Rightarrow> w\<lparr>w_failed := w_failed w @ [p]\<rparr>)"

text \<open>\<^verbatim>\<open>flush\<close>: one transaction for the whole batch, and one per plan if that fails.\<close>

definition flush :: "('p \<Rightarrow> 's \<Rightarrow> 'e + 's) \<Rightarrow> ('s, 'p) edge_writer \<Rightarrow> ('s, 'p) edge_writer" where
  "flush wr w =
     (if w_batch w = [] then w
      else case foldE wr (w_batch w) (w_db w) of
             Inr db \<Rightarrow> w\<lparr>w_db := db, w_resolved := w_resolved w + length (w_batch w), w_batch := []\<rparr>
           | Inl _ \<Rightarrow> (foldl (retry_one wr) w (w_batch w))\<lparr>w_batch := []\<rparr>)"

definition add_plan ::
  "('p \<Rightarrow> 's \<Rightarrow> 'e + 's) \<Rightarrow> nat \<Rightarrow> 'p \<Rightarrow> ('s, 'p) edge_writer \<Rightarrow> ('s, 'p) edge_writer" where
  "add_plan wr batch_size p w =
     (let w1 = w\<lparr>w_batch := w_batch w @ [p]\<rparr> in
      if batch_size \<le> length (w_batch w1) then flush wr w1 else w1)"

section \<open>The loop\<close>

record stats =
  s_resolved :: nat
  s_failed :: nat
  s_retried :: nat
  s_abandoned :: nat

definition count_failed :: "bool \<Rightarrow> stats \<Rightarrow> stats" where
  "count_failed abandoned st =
     st\<lparr>s_failed := s_failed st + 1,
        s_abandoned := s_abandoned st + (if abandoned then 1 else 0)\<rparr>"

definition mark_failed ::
  "('r \<Rightarrow> 's \<Rightarrow> 's \<times> bool) \<Rightarrow> 'r \<Rightarrow> 's \<times> stats \<Rightarrow> 's \<times> stats" where
  "mark_failed mark r s =
     (let (db, ab) = mark r (fst s) in (db, count_failed ab (snd s)))"

definition resolve_step ::
  "('s \<Rightarrow> 'r \<Rightarrow> 'p option) \<Rightarrow> ('p \<Rightarrow> 's \<Rightarrow> 'e + 's) \<Rightarrow> ('r \<Rightarrow> 's \<Rightarrow> 's \<times> bool) \<Rightarrow> nat
     \<Rightarrow> ('s, 'p) edge_writer \<times> stats \<Rightarrow> 'r \<Rightarrow> ('s, 'p) edge_writer \<times> stats" where
  "resolve_step plan wr mark batch_size s r =
     (case plan (w_db (fst s)) r of
        None \<Rightarrow>
          (let (db, st) = mark_failed mark r (w_db (fst s), snd s) in ((fst s)\<lparr>w_db := db\<rparr>, st))
      | Some p \<Rightarrow> (add_plan wr batch_size p (fst s), snd s))"

definition finish_pass ::
  "('p \<Rightarrow> 's \<Rightarrow> 'e + 's) \<Rightarrow> ('r \<Rightarrow> 's \<Rightarrow> 's \<times> bool) \<Rightarrow> ('p \<Rightarrow> 'r)
     \<Rightarrow> ('s, 'p) edge_writer \<times> stats \<Rightarrow> 's \<times> stats" where
  "finish_pass wr mark ref_of s =
     (let w = flush wr (fst s);
          st = (snd s)\<lparr>s_resolved := s_resolved (snd s) + w_resolved w\<rparr>
      in foldl (\<lambda>d p. mark_failed mark (ref_of p) d) (w_db w, st) (w_failed w))"

definition resolve_loop ::
  "('s \<Rightarrow> 'r \<Rightarrow> 'p option) \<Rightarrow> ('p \<Rightarrow> 's \<Rightarrow> 'e + 's) \<Rightarrow> ('r \<Rightarrow> 's \<Rightarrow> 's \<times> bool) \<Rightarrow> ('p \<Rightarrow> 'r) \<Rightarrow> nat
     \<Rightarrow> 'r list \<Rightarrow> 's \<Rightarrow> stats \<Rightarrow> 's \<times> stats" where
  "resolve_loop plan wr mark ref_of batch_size rs db st =
     finish_pass wr mark ref_of
       (foldl (resolve_step plan wr mark batch_size) (new_edge_writer db, st) rs)"

section \<open>A flush is its retry loop\<close>

lemma foldl_retry_batch: "w_batch (foldl (retry_one wr) w ps) = w_batch w"
  by (induction ps arbitrary: w) (simp_all add: retry_one_def split: sum.split)

lemma foldE_retry:
  "foldE wr ps (w_db w) = Inr db \<Longrightarrow>
     foldl (retry_one wr) w ps = w\<lparr>w_db := db, w_resolved := w_resolved w + length ps\<rparr>"
proof (induction ps arbitrary: w)
  case (Cons p ps)
  obtain db1 where 1: "wr p (w_db w) = Inr db1" "foldE wr ps db1 = Inr db"
    using Cons.prems by (auto simp: bindE_eq_Inr)
  then show ?case using Cons.IH [of "w\<lparr>w_db := db1, w_resolved := w_resolved w + 1\<rparr>"]
    by (simp add: retry_one_def)
qed simp

lemma flush_retry: "flush wr w = (foldl (retry_one wr) w (w_batch w))\<lparr>w_batch := []\<rparr>"
  by (cases "foldE wr (w_batch w) (w_db w)") (auto simp: flush_def foldE_retry)

lemma flush_batch [simp]: "w_batch (flush wr w) = []"
  by (simp add: flush_retry)

lemma flush_empty [simp]: "w_batch w = [] \<Longrightarrow> flush wr w = w"
  by (simp add: flush_def)

lemma retry_one_batch: "retry_one wr (w\<lparr>w_batch := b\<rparr>) p = (retry_one wr w p)\<lparr>w_batch := b\<rparr>"
  by (simp add: retry_one_def split: sum.split)

lemma retry_batch_update:
  "foldl (retry_one wr) (w\<lparr>w_batch := b\<rparr>) ps = (foldl (retry_one wr) w ps)\<lparr>w_batch := b\<rparr>"
  by (induction ps arbitrary: w) (simp_all add: retry_one_batch)

text \<open>Adding a plan and flushing later is flushing first and applying the plan alone.\<close>

lemma flush_add:
  "flush wr (w\<lparr>w_batch := w_batch w @ [p]\<rparr>) = retry_one wr (flush wr w) p"
  unfolding flush_retry by (simp add: retry_batch_update retry_one_batch)

lemma retry_one_keeps_batch [simp]: "w_batch (retry_one wr w p) = w_batch w"
  by (simp add: retry_one_def split: sum.split)

lemma flush_add_plan: "flush wr (add_plan wr bs p w) = retry_one wr (flush wr w) p"
  by (simp add: add_plan_def Let_def flush_add)

lemma add_plan_one: "w_batch w = [] \<Longrightarrow> add_plan wr 1 p w = retry_one wr w p"
  using flush_add [of wr w p] by (simp add: add_plan_def Let_def)

section \<open>The batch size does not matter\<close>

locale resolution_store =
  fixes plan :: "'s \<Rightarrow> 'r \<Rightarrow> 'p option" and wr :: "'p \<Rightarrow> 's \<Rightarrow> 'e + 's"
    and mark :: "'r \<Rightarrow> 's \<Rightarrow> 's \<times> bool" and ref_of :: "'p \<Rightarrow> 'r"
    and rid :: "'r \<Rightarrow> 'i" and symbolic :: "'p \<Rightarrow> bool"
  assumes plan_ref: "plan s r = Some p \<Longrightarrow> ref_of p = r"
    and plan_write: "symbolic p \<Longrightarrow> wr p s = Inr t \<Longrightarrow> plan t r = plan s r"
    and mark_write: "wr p (fst (mark r s)) = map_sum id (\<lambda>t. fst (mark r t)) (wr p s)"
    and mark_flag: "rid r \<noteq> rid (ref_of p) \<Longrightarrow> wr p s = Inr t \<Longrightarrow> snd (mark r t) = snd (mark r s)"
begin

lemma retry_plan:
  "\<forall>p\<in>set ps. symbolic p \<Longrightarrow> plan (w_db (foldl (retry_one wr) w ps)) r = plan (w_db w) r"
proof (induction ps arbitrary: w)
  case (Cons p ps)
  have "plan (w_db (retry_one wr w p)) r = plan (w_db w) r"
    using Cons.prems plan_write [of p "w_db w"] by (auto simp: retry_one_def split: sum.split)
  then show ?case using Cons by simp
qed simp

lemma retry_mark:
  "foldl (retry_one wr) (w\<lparr>w_db := fst (mark r (w_db w))\<rparr>) ps
     = (foldl (retry_one wr) w ps)\<lparr>w_db := fst (mark r (w_db (foldl (retry_one wr) w ps)))\<rparr>"
proof (induction ps arbitrary: w)
  case (Cons p ps)
  have "retry_one wr (w\<lparr>w_db := fst (mark r (w_db w))\<rparr>) p
      = (retry_one wr w p)\<lparr>w_db := fst (mark r (w_db (retry_one wr w p)))\<rparr>"
    by (simp add: retry_one_def mark_write split: sum.split)
  then show ?case using Cons.IH [of "retry_one wr w p"] by simp
qed simp

lemma retry_flag:
  "\<forall>p\<in>set ps. rid r \<noteq> rid (ref_of p)
     \<Longrightarrow> snd (mark r (w_db (foldl (retry_one wr) w ps))) = snd (mark r (w_db w))"
proof (induction ps arbitrary: w)
  case (Cons p ps)
  have "snd (mark r (w_db (retry_one wr w p))) = snd (mark r (w_db w))"
    using Cons.prems mark_flag [of r p "w_db w"] by (auto simp: retry_one_def split: sum.split)
  then show ?case using Cons by simp
qed simp

text \<open>The simulation: the writer of the unbatched loop is the flushed writer of the batched one.\<close>

lemma step_simulates:
  assumes "\<forall>p\<in>set (w_batch w). symbolic p \<and> rid (ref_of p) \<noteq> rid r"
    and "resolve_step plan wr mark bs (w, st) r = (w', st')"
  shows "resolve_step plan wr mark 1 (flush wr w, st) r = (flush wr w', st')"
    and "\<forall>p\<in>set (w_batch w'). p \<in> set (w_batch w) \<or> (\<exists>s. plan s r = Some p)"
proof -
  have pl: "plan (w_db (flush wr w)) r = plan (w_db w) r"
    unfolding flush_retry using retry_plan [of "w_batch w" w r] assms(1) by simp
  show "resolve_step plan wr mark 1 (flush wr w, st) r = (flush wr w', st')"
  proof (cases "plan (w_db w) r")
    case None
    have w': "w' = w\<lparr>w_db := fst (mark r (w_db w))\<rparr>"
      and st': "st' = count_failed (snd (mark r (w_db w))) st"
      using assms(2) None by (auto simp: resolve_step_def mark_failed_def split_def Let_def)
    have "snd (mark r (w_db (flush wr w))) = snd (mark r (w_db w))"
      unfolding flush_retry using retry_flag [of "w_batch w" r w] assms(1) by force
    moreover have "flush wr w' = (flush wr w)\<lparr>w_db := fst (mark r (w_db (flush wr w)))\<rparr>"
      unfolding flush_retry w' using retry_mark [of r w "w_batch w"] by (simp add: retry_batch_update)
    ultimately show ?thesis
      using None pl st' by (simp add: resolve_step_def mark_failed_def split_def Let_def)
  next
    case (Some p)
    then have "w' = add_plan wr bs p w" "st' = st" using assms(2) by (simp_all add: resolve_step_def)
    then show ?thesis
      using Some pl by (simp add: resolve_step_def add_plan_one flush_add_plan del: One_nat_def)
  qed
  show "\<forall>p\<in>set (w_batch w'). p \<in> set (w_batch w) \<or> (\<exists>s. plan s r = Some p)"
    using assms(2)
    by (auto simp: resolve_step_def add_plan_def mark_failed_def split_def Let_def
        split: option.splits if_splits)
qed

lemma loop_simulates:
  assumes "distinct (map rid rs)" "\<forall>r\<in>set rs. \<forall>s p. plan s r = Some p \<longrightarrow> symbolic p"
    and "\<forall>p\<in>set (w_batch w). symbolic p \<and> rid (ref_of p) \<notin> rid ` set rs"
    and "foldl (resolve_step plan wr mark bs) (w, st) rs = (w', st')"
  shows "foldl (resolve_step plan wr mark 1) (flush wr w, st) rs = (flush wr w', st')"
  using assms
proof (induction rs arbitrary: w st)
  case (Cons r rs)
  obtain w1 st1 where step: "resolve_step plan wr mark bs (w, st) r = (w1, st1)" by fastforce
  have b: "\<forall>p\<in>set (w_batch w). symbolic p \<and> rid (ref_of p) \<noteq> rid r"
    using Cons.prems(3) by auto
  have b1: "\<forall>p\<in>set (w_batch w1). symbolic p \<and> rid (ref_of p) \<notin> rid ` set rs"
    using step_simulates(2) [OF b step] Cons.prems(1-3) plan_ref by fastforce
  show ?case
    using step_simulates(1) [OF b step] Cons.IH [OF _ _ b1] Cons.prems(1,2,4) step by simp
qed simp

lemma loop_batch_size:
  assumes "distinct (map rid rs)" "\<forall>r\<in>set rs. \<forall>s p. plan s r = Some p \<longrightarrow> symbolic p"
  shows "resolve_loop plan wr mark ref_of bs rs db st = resolve_loop plan wr mark ref_of 1 rs db st"
proof -
  let ?w = "new_edge_writer db"
  have n: "w_batch ?w = []" by (simp add: new_edge_writer_def)
  obtain w' st' where f: "foldl (resolve_step plan wr mark bs) (?w, st) rs = (w', st')" by fastforce
  have "foldl (resolve_step plan wr mark 1) (?w, st) rs = (flush wr w', st')"
    using loop_simulates [OF assms _ f] unfolding flush_empty [OF n] n by simp
  then show ?thesis by (simp add: resolve_loop_def finish_pass_def f)
qed

end

section \<open>What a pass does to every reference of its batch\<close>

text \<open>
  \<open>inv\<close> is kept by both operations; \<open>settled r\<close> holds once \<open>r\<close> was written or marked, and is
  never undone.
\<close>

locale resolution_effects =
  fixes plan :: "'s \<Rightarrow> 'r \<Rightarrow> 'p option" and wr :: "'p \<Rightarrow> 's \<Rightarrow> 'e + 's"
    and mark :: "'r \<Rightarrow> 's \<Rightarrow> 's \<times> bool" and ref_of :: "'p \<Rightarrow> 'r"
    and refs :: "'r set" and inv :: "'s \<Rightarrow> bool" and settled :: "'r \<Rightarrow> 's \<Rightarrow> bool"
  assumes plan_ref: "plan s r = Some p \<Longrightarrow> ref_of p = r"
    and inv_wr: "inv s \<Longrightarrow> ref_of p \<in> refs \<Longrightarrow> wr p s = Inr t \<Longrightarrow> inv t"
    and inv_mark: "inv s \<Longrightarrow> r \<in> refs \<Longrightarrow> inv (fst (mark r s))"
    and settled_wr: "wr p s = Inr t \<Longrightarrow> settled r s \<Longrightarrow> settled r t"
    and settled_mark: "settled r s \<Longrightarrow> settled r (fst (mark q s))"
    and wr_settles: "wr p s = Inr t \<Longrightarrow> settled (ref_of p) t"
    and mark_settles: "settled r (fst (mark r s))"
begin

text \<open>The writer's state after the references \<open>rs\<close>: each is settled or still in the writer.\<close>

definition wr_inv :: "'r set \<Rightarrow> ('s, 'p) edge_writer \<Rightarrow> bool" where
  "wr_inv rs w \<longleftrightarrow>
     inv (w_db w) \<and> ref_of ` (set (w_batch w) \<union> set (w_failed w)) \<subseteq> refs
     \<and> (\<forall>r\<in>rs. settled r (w_db w) \<or> r \<in> ref_of ` (set (w_batch w) \<union> set (w_failed w)))"

lemma retry_mono:
  "(settled r (w_db w) \<longrightarrow> settled r (w_db (foldl (retry_one wr) w ps)))
     \<and> set (w_failed w) \<subseteq> set (w_failed (foldl (retry_one wr) w ps))"
proof (induction ps arbitrary: w)
  case (Cons p ps)
  have "(settled r (w_db w) \<longrightarrow> settled r (w_db (retry_one wr w p)))
      \<and> set (w_failed w) \<subseteq> set (w_failed (retry_one wr w p))"
    by (auto simp: retry_one_def dest: settled_wr split: sum.split)
  then show ?case using Cons.IH [of "retry_one wr w p"] by auto
qed simp

lemma retry_settles:
  "p \<in> set ps \<Longrightarrow> settled (ref_of p) (w_db (foldl (retry_one wr) w ps))
     \<or> p \<in> set (w_failed (foldl (retry_one wr) w ps))"
proof (induction ps arbitrary: w)
  case (Cons q ps)
  show ?case
  proof (cases "p = q")
    case True
    have "settled (ref_of p) (w_db (retry_one wr w p)) \<or> p \<in> set (w_failed (retry_one wr w p))"
      by (auto simp: retry_one_def intro: wr_settles split: sum.split)
    then show ?thesis using retry_mono [of "ref_of p" "retry_one wr w p" ps] True by auto
  next
    case False
    then show ?thesis using Cons by simp
  qed
qed simp

lemma retry_inv:
  "inv (w_db w) \<Longrightarrow> ref_of ` set ps \<subseteq> refs \<Longrightarrow> ref_of ` set (w_failed w) \<subseteq> refs
     \<Longrightarrow> inv (w_db (foldl (retry_one wr) w ps))
       \<and> ref_of ` set (w_failed (foldl (retry_one wr) w ps)) \<subseteq> refs"
proof (induction ps arbitrary: w)
  case (Cons p ps)
  have "inv (w_db (retry_one wr w p)) \<and> ref_of ` set (w_failed (retry_one wr w p)) \<subseteq> refs"
  proof (cases "wr p (w_db w)")
    case (Inl e)
    then show ?thesis using Cons.prems by (simp add: retry_one_def)
  next
    case (Inr t)
    then have "inv t" using inv_wr [OF Cons.prems(1) _ Inr] Cons.prems(2) by simp
    then show ?thesis using Inr Cons.prems by (simp add: retry_one_def)
  qed
  then show ?case using Cons.IH [of "retry_one wr w p"] Cons.prems(2) by simp
qed simp

lemma flush_inv:
  assumes "wr_inv rs w"
  shows "wr_inv rs (flush wr w)"
proof -
  let ?w = "foldl (retry_one wr) w (w_batch w)"
  have "inv (w_db ?w) \<and> ref_of ` set (w_failed ?w) \<subseteq> refs"
    using retry_inv [of w "w_batch w"] assms by (auto simp: wr_inv_def)
  moreover have "settled r (w_db ?w) \<or> r \<in> ref_of ` set (w_failed ?w)" if r: "r \<in> rs" for r
  proof -
    consider "settled r (w_db w)" | p where "p \<in> set (w_failed w)" "r = ref_of p"
      | p where "p \<in> set (w_batch w)" "r = ref_of p"
      using assms r unfolding wr_inv_def by blast
    then show ?thesis
      using retry_mono [of r w "w_batch w"] retry_settles [of _ "w_batch w" w] by cases blast+
  qed
  ultimately show ?thesis unfolding flush_retry wr_inv_def by simp
qed

lemma step_inv:
  assumes "wr_inv rs w" "r \<in> refs" "resolve_step plan wr mark bs (w, st) r = (w', st')"
  shows "wr_inv (insert r rs) w'"
proof (cases "plan (w_db w) r")
  case None
  then have "w' = w\<lparr>w_db := fst (mark r (w_db w))\<rparr>"
    using assms(3) by (auto simp: resolve_step_def mark_failed_def split_def Let_def)
  then show ?thesis
    using assms(1) inv_mark [OF _ assms(2)] mark_settles settled_mark by (auto simp: wr_inv_def)
next
  case (Some p)
  have "wr_inv (insert r rs) (w\<lparr>w_batch := w_batch w @ [p]\<rparr>)"
    using assms(1,2) plan_ref [OF Some] by (auto simp: wr_inv_def)
  then show ?thesis
    using assms(3) Some flush_inv by (auto simp: resolve_step_def add_plan_def Let_def split: if_splits)
qed

lemma steps_inv:
  "wr_inv rs w \<Longrightarrow> set qs \<subseteq> refs \<Longrightarrow> foldl (resolve_step plan wr mark bs) (w, st) qs = (w', st')
     \<Longrightarrow> wr_inv (rs \<union> set qs) w'"
proof (induction qs arbitrary: w st rs)
  case (Cons q qs)
  obtain w1 st1 where step: "resolve_step plan wr mark bs (w, st) q = (w1, st1)" by fastforce
  show ?case
    using Cons.IH [OF step_inv [OF Cons.prems(1) _ step]] Cons.prems(2,3) step by simp
qed simp

lemma marks_inv:
  "inv (fst d) \<Longrightarrow> ref_of ` set ps \<subseteq> refs
     \<Longrightarrow> inv (fst (foldl (\<lambda>d p. mark_failed mark (ref_of p) d) d ps))
       \<and> (\<forall>r. settled r (fst d) \<or> r \<in> ref_of ` set ps
            \<longrightarrow> settled r (fst (foldl (\<lambda>d p. mark_failed mark (ref_of p) d) d ps)))"
proof (induction ps arbitrary: d)
  case (Cons p ps)
  have m: "fst (mark_failed mark (ref_of p) d) = fst (mark (ref_of p) (fst d))"
    by (simp add: mark_failed_def split_def Let_def)
  show ?case
    using Cons.IH [of "mark_failed mark (ref_of p) d"] Cons.prems inv_mark mark_settles settled_mark
    by (auto simp: m)
qed simp

lemma loop_inv:
  assumes "inv db" "set rs \<subseteq> refs" "resolve_loop plan wr mark ref_of bs rs db st = (db', st')"
  shows "inv db' \<and> (\<forall>r\<in>set rs. settled r db')"
proof -
  obtain w1 st1 where f: "foldl (resolve_step plan wr mark bs) (new_edge_writer db, st) rs = (w1, st1)"
    by fastforce
  have "wr_inv {} (new_edge_writer db)" using assms(1) by (simp add: wr_inv_def new_edge_writer_def)
  then have "wr_inv ({} \<union> set rs) w1" by (rule steps_inv [OF _ assms(2) f])
  then have w: "wr_inv (set rs) (flush wr w1)" using flush_inv by simp
  have "db' = fst (finish_pass wr mark ref_of (w1, st1))"
    using assms(3) by (simp add: resolve_loop_def f)
  then show ?thesis
    using w marks_inv [of "(w_db (flush wr w1), st1\<lparr>s_resolved := s_resolved st1 + w_resolved (flush wr w1)\<rparr>)"
        "w_failed (flush wr w1)"]
    by (auto simp: finish_pass_def Let_def wr_inv_def)
qed

end

section \<open>Counting\<close>

lemma flush_count:
  "w_resolved (flush wr w) + length (w_failed (flush wr w))
     = w_resolved w + length (w_failed w) + length (w_batch w)"
proof -
  have "w_resolved (foldl (retry_one wr) w ps) + length (w_failed (foldl (retry_one wr) w ps))
      = w_resolved w + length (w_failed w) + length ps" for ps
    by (induction ps arbitrary: w) (simp_all add: retry_one_def split: sum.split)
  then show ?thesis by (simp add: flush_retry)
qed

lemma step_count:
  assumes "resolve_step plan wr mark bs (w, st) r = (w', st')"
  shows "w_resolved w' + length (w_failed w') + length (w_batch w') + s_failed st'
      = w_resolved w + length (w_failed w) + length (w_batch w) + s_failed st + 1
    \<and> s_resolved st' = s_resolved st"
  using assms flush_count [of wr "w\<lparr>w_batch := w_batch w @ [the (plan (w_db w) r)]\<rparr>"]
  by (auto simp: resolve_step_def add_plan_def mark_failed_def count_failed_def split_def Let_def
      split: option.splits if_splits)

lemma steps_count:
  "foldl (resolve_step plan wr mark bs) (w, st) rs = (w', st') \<Longrightarrow>
     w_resolved w' + length (w_failed w') + length (w_batch w') + s_failed st'
      = w_resolved w + length (w_failed w) + length (w_batch w) + s_failed st + length rs
    \<and> s_resolved st' = s_resolved st"
proof (induction rs arbitrary: w st)
  case (Cons r rs)
  obtain w1 st1 where step: "resolve_step plan wr mark bs (w, st) r = (w1, st1)" by fastforce
  show ?case using Cons.IH [of w1 st1] Cons.prems step step_count [OF step] by simp
qed simp

lemma marks_count:
  "s_failed (snd (foldl (\<lambda>d p. mark_failed mark (ref_of p) d) d ps)) = s_failed (snd d) + length ps
   \<and> s_resolved (snd (foldl (\<lambda>d p. mark_failed mark (ref_of p) d) d ps)) = s_resolved (snd d)"
  by (induction ps arbitrary: d) (simp_all add: mark_failed_def count_failed_def split_def Let_def)

lemma loop_count:
  assumes "resolve_loop plan wr mark ref_of bs rs db st = (db', st')"
  shows "s_resolved st' + s_failed st' = s_resolved st + s_failed st + length rs"
proof -
  obtain w1 st1 where f: "foldl (resolve_step plan wr mark bs) (new_edge_writer db, st) rs = (w1, st1)"
    by fastforce
  have st': "st' = snd (finish_pass wr mark ref_of (w1, st1))"
    using assms by (simp add: resolve_loop_def f)
  show ?thesis
    using steps_count [OF f] flush_count [of wr w1]
    by (simp add: st' finish_pass_def Let_def marks_count new_edge_writer_def)
qed

end
