(* ===== verification/Resolver.thy ===== *)
theory Resolver
  imports Ref_Parking Edge_Writer
begin

text \<open>
  Reference resolution (\<^verbatim>\<open>internal/resolution/resolver.go\<close>): the decision for one reference, import
  closure filtering (\<^verbatim>\<open>FilterByImports\<close> of \<^verbatim>\<open>import_resolver.go\<close>), and the two passes
  \<^verbatim>\<open>ResolveAll\<close> and \<^verbatim>\<open>ResolveForFiles\<close> with the lookups of \<^verbatim>\<open>query_refs.go\<close> they start from.
  \<open>rip\<close> is \<^verbatim>\<open>ResolveImportPath\<close>: workdir, importing file, specifier and language to the files it
  finds on disk.
\<close>

section \<open>Import closure\<close>

definition get_import_target_names :: "string \<Rightarrow> gdb \<Rightarrow> string list" where
  "get_import_target_names file db =
     remdups (concat (map (\<lambda>e. map n_name (filter (\<lambda>n. n_id n = e_target e) (g_nodes db)))
       (filter (\<lambda>e. e_kind e = edge_imports \<and> e_file e = file) (g_edges db))))"

definition spec_matches_file :: "string \<Rightarrow> string \<Rightarrow> bool" where
  "spec_matches_file file spec \<longleftrightarrow>
     file = spec \<or> has_prefix file (spec @ ''/'') \<or> has_suffix file (''/'' @ spec)
     \<or> contains_str file (''/'' @ spec @ ''/'')"

type_synonym import_resolver = "string \<Rightarrow> string \<Rightarrow> string \<Rightarrow> string \<Rightarrow> string list"

definition imported_files ::
  "import_resolver \<Rightarrow> string \<Rightarrow> string \<Rightarrow> string \<Rightarrow> string list \<Rightarrow> node list \<Rightarrow> string set" where
  "imported_files rip workdir from_file lang specs cands =
     set (concat (map (\<lambda>spec.
       concat (map (\<lambda>p. [storage_path workdir p, clean p]) (rip workdir from_file spec lang))
       @ concat (map (\<lambda>c. if spec_matches_file (n_file c) spec
                           then [storage_path workdir (n_file c), n_file c] else []) cands)) specs))"

definition filter_by_imports ::
  "gdb \<Rightarrow> import_resolver \<Rightarrow> string \<Rightarrow> string \<Rightarrow> string \<Rightarrow> node list \<Rightarrow> node list \<times> bool" where
  "filter_by_imports db rip workdir from_file lang cands =
     (if cands = [] then ([], False)
      else
        (let store_from = storage_path workdir from_file;
             specs0 = get_import_target_names store_from db;
             specs = (if specs0 = [] \<and> store_from \<noteq> from_file
                      then get_import_target_names from_file db else specs0)
         in if specs = [] then (cands, False)
            else
              (let files = imported_files rip workdir from_file lang specs cands;
                   hits = filter (\<lambda>c. n_file c \<in> files \<or> storage_path workdir (n_file c) \<in> files) cands
               in if hits = [] then (cands, False) else (hits, True))))"

section \<open>One reference\<close>

record edge_plan =
  p_ref :: uref
  p_target :: int
  p_kind :: string
  p_provenance :: string

definition ref_kind :: "uref \<Rightarrow> string" where
  "ref_kind r = (if u_kind r = [] then edge_calls else u_kind r)"

definition prefers_call :: "string \<Rightarrow> bool" where
  "prefers_call kind \<longleftrightarrow> kind = edge_calls \<or> kind = edge_references \<or> kind = ''bridge''"

text \<open>The last resort: a unique callable candidate that the imports or its directory support.\<close>

definition unique_callable ::
  "gdb \<Rightarrow> import_resolver \<Rightarrow> string \<Rightarrow> string \<Rightarrow> string \<Rightarrow> node list \<Rightarrow> match_result" where
  "unique_callable db rip workdir from_file lang cands =
     (case filter (\<lambda>c. call_target_kind (n_kind c)) cands of
        [c] \<Rightarrow>
          (let cdir = filepath_dir (n_file c); from_dir = filepath_dir from_file in
           if snd (filter_by_imports db rip workdir from_file lang [c])
           then \<lparr>m_target = n_id c, m_provenance = prov_import, m_score = 0\<rparr>
           else if cdir = from_dir \<or> filepath_dir cdir = from_dir
           then \<lparr>m_target = n_id c, m_provenance = prov_heuristic, m_score = 0\<rparr>
           else no_match)
      | _ \<Rightarrow> no_match)"

definition resolve_one :: "import_resolver \<Rightarrow> string \<Rightarrow> gdb \<Rightarrow> uref \<Rightarrow> edge_plan option" where
  "resolve_one rip workdir db r =
     (if u_from r = 0 \<or> u_name r = [] then None
      else
        (let kind = ref_kind r;
             prefer_call = prefers_call kind;
             cands = filter (\<lambda>c. n_id c \<noteq> u_from r) (collect_candidates db (u_name r))
         in if cands = [] then None
            else
              (let (imp, ok) = filter_by_imports db rip workdir (u_file r) (u_language r) cands;
                   mi = match_name imp (u_name r) (u_file r) prefer_call
               in if ok \<and> m_target mi \<noteq> 0
                  then Some \<lparr>p_ref = r, p_target = m_target mi, p_kind = kind, p_provenance = prov_import\<rparr>
                  else
                    (let m0 = match_name cands (u_name r) (u_file r) prefer_call;
                         m1 = (if m_target m0 \<noteq> 0 \<and> m_provenance m0 = prov_heuristic \<and> prefer_call
                               then no_match else m0);
                         m = (if m_target m1 = 0 \<and> prefer_call
                              then unique_callable db rip workdir (u_file r) (u_language r) cands
                              else m1)
                     in if m_target m = 0 then None
                        else Some \<lparr>p_ref = r, p_target = m_target m, p_kind = kind,
                                   p_provenance = (if m_provenance m = [] then prov_heuristic
                                                   else m_provenance m)\<rparr>))))"

section \<open>Writing and parking\<close>

definition plan_edge :: "edge_plan \<Rightarrow> edge" where
  "plan_edge p =
     \<lparr>e_source = u_from (p_ref p), e_target = p_target p, e_kind = p_kind p,
      e_file = u_file (p_ref p), e_line = u_line (p_ref p), e_col = u_col (p_ref p),
      e_provenance = p_provenance p, e_metadata = []\<rparr>"

definition apply_plan :: "edge_plan \<Rightarrow> gdb \<Rightarrow> db_error + gdb" where
  "apply_plan p db =
     bindE (upsert_edge (plan_edge p) db) (\<lambda>db1. Inr (delete_uref (u_id (p_ref p)) db1))"

text \<open>\<^verbatim>\<open>ApplyResolvedRefs\<close>: all of the batch in one transaction, or none of it.\<close>

definition apply_resolved_refs :: "edge_plan list \<Rightarrow> gdb \<Rightarrow> db_error + gdb" where
  "apply_resolved_refs ps db = foldE apply_plan ps db"

definition mark_ref_failed :: "nat \<Rightarrow> uref \<Rightarrow> gdb \<Rightarrow> gdb \<times> bool" where
  "mark_ref_failed max_attempts r db =
     mark_unresolved_failed (u_id r) (if u_tail r = [] then name_tail (u_name r) else u_tail r)
       max_attempts db"

definition run_pass ::
  "import_resolver \<Rightarrow> string \<Rightarrow> nat \<Rightarrow> nat \<Rightarrow> uref list \<Rightarrow> gdb \<Rightarrow> stats \<Rightarrow> gdb \<times> stats" where
  "run_pass rip workdir max_attempts batch_size rs db st =
     resolve_loop (resolve_one rip workdir) apply_plan (mark_ref_failed max_attempts) p_ref
       batch_size rs db st"

definition no_stats :: stats where
  "no_stats = \<lparr>s_resolved = 0, s_failed = 0, s_retried = 0, s_abandoned = 0\<rparr>"

definition all_batch :: "gdb \<Rightarrow> uref list \<times> nat" where
  "all_batch db =
     (let pending = list_unresolved_refs [] st_pending db;
          failed = list_unresolved_refs [] st_failed db;
          retry = filter (\<lambda>r. collect_candidates db (u_name r) \<noteq> []) failed
      in (pending @ retry, length retry))"

definition resolve_all ::
  "import_resolver \<Rightarrow> string \<Rightarrow> nat \<Rightarrow> nat \<Rightarrow> gdb \<Rightarrow> gdb \<times> stats" where
  "resolve_all rip workdir max_attempts batch_size db =
     (let (batch, retried) = all_batch db in
      run_pass rip workdir max_attempts batch_size batch db (no_stats\<lparr>s_retried := retried\<rparr>))"

section \<open>The incremental pass\<close>

text \<open>Chunks of an argument list (the 400 names or paths of one \<^verbatim>\<open>IN\<close> list).\<close>

fun chunks :: "nat \<Rightarrow> 'a list \<Rightarrow> 'a list list" where
  "chunks n [] = []"
| "chunks n (x # xs) = (x # take (n - 1) xs) # chunks n (drop (n - 1) xs)"

definition in_chunk :: nat where
  "in_chunk = 400"

definition list_refs_by_files :: "string list \<Rightarrow> string \<Rightarrow> gdb \<Rightarrow> uref list" where
  "list_refs_by_files files status db =
     concat (map (\<lambda>chunk. filter (\<lambda>r. u_file r \<in> set chunk \<and> (status \<noteq> [] \<longrightarrow> u_status r = status))
       (g_refs db)) (chunks in_chunk files))"

definition list_refs_by_names :: "string list \<Rightarrow> string list \<Rightarrow> gdb \<Rightarrow> uref list" where
  "list_refs_by_names names statuses db =
     (if names = [] then []
      else
        dedup_by u_id {} (concat (map (\<lambda>status. concat (map (\<lambda>chunk.
          (let sel = filter (\<lambda>r. status \<noteq> [] \<longrightarrow> u_status r = status) (g_refs db) in
           filter (\<lambda>r. u_name r \<in> set chunk) sel @ filter (\<lambda>r. u_tail r \<in> set chunk) sel))
          (chunks in_chunk names))) (if statuses = [] then [[]] else statuses))))"

definition list_refs_empty_tail :: "string list \<Rightarrow> gdb \<Rightarrow> uref list" where
  "list_refs_empty_tail statuses db =
     dedup_by u_id {} (concat (map (\<lambda>status.
       filter (\<lambda>r. (status \<noteq> [] \<longrightarrow> u_status r = status) \<and> u_tail r = []) (g_refs db))
       (if statuses = [] then [[]] else statuses)))"

definition changed_names :: "string list \<Rightarrow> gdb \<Rightarrow> string set" where
  "changed_names files db =
     set (concat (map (\<lambda>f. map n_name (for_each_node_by_file_light f db)) files))"

text \<open>
  The rows one incremental pass looks at; \<open>iter\<close> is the iteration order of Go's map of changed
  names.  The number is that of the failed rows picked up by name.
\<close>

definition files_batch :: "(string set \<Rightarrow> string list) \<Rightarrow> string list \<Rightarrow> gdb \<Rightarrow> uref list \<times> nat" where
  "files_batch iter files db =
     (let by_files = list_refs_by_files files st_pending db @ list_refs_by_files files st_failed db;
          names = changed_names files db
      in if names = {} then (by_files, 0)
         else
           (let by_names = filter (\<lambda>r. u_file r \<notin> set files)
                  (list_refs_by_names (iter names) [st_pending, st_failed] db);
                tails = filter (\<lambda>r. u_file r \<notin> set files \<and> u_name r \<notin> names
                                   \<and> name_tail (u_name r) \<in> names)
                  (list_refs_empty_tail [st_pending, st_failed] db)
            in (by_files @ by_names @ tails,
                length (filter (\<lambda>r. u_status r = st_failed) (by_names @ tails)))))"

definition resolve_for_files ::
  "import_resolver \<Rightarrow> (string set \<Rightarrow> string list) \<Rightarrow> string \<Rightarrow> nat \<Rightarrow> nat \<Rightarrow> string list \<Rightarrow> gdb
     \<Rightarrow> gdb \<times> stats" where
  "resolve_for_files rip iter workdir max_attempts batch_size files db =
     (if files = [] then resolve_all rip workdir max_attempts batch_size db
      else
        (let (batch, retried) = files_batch iter files db in
         run_pass rip workdir max_attempts batch_size (dedup_by u_id {} batch) db
           (no_stats\<lparr>s_retried := retried\<rparr>)))"

section \<open>The store the loop runs on\<close>

lemma resolve_one_ref: "resolve_one rip wd db r = Some p \<Longrightarrow> p_ref p = r \<and> p_kind p = ref_kind r"
  by (auto simp: resolve_one_def Let_def split: if_splits prod.splits)

text \<open>The decision reads the nodes and the import edges only.\<close>

definition import_edges :: "gdb \<Rightarrow> edge list" where
  "import_edges db = filter (\<lambda>e. e_kind e = edge_imports) (g_edges db)"

lemma import_names_frame:
  assumes "g_nodes db' = g_nodes db" "import_edges db' = import_edges db"
  shows "get_import_target_names f db' = get_import_target_names f db"
proof -
  have "filter (\<lambda>e. e_kind e = edge_imports \<and> e_file e = f) (g_edges d)
      = filter (\<lambda>e. e_file e = f) (import_edges d)" for d
    by (simp add: import_edges_def conj_commute)
  then show ?thesis using assms by (simp add: get_import_target_names_def)
qed

lemma collect_frame: "g_nodes db' = g_nodes db \<Longrightarrow> collect_candidates db' n = collect_candidates db n"
  by (simp add: collect_candidates_def for_each_node_by_name_def Let_def)

lemma resolve_one_frame:
  assumes "g_nodes db' = g_nodes db" "import_edges db' = import_edges db"
  shows "resolve_one rip wd db' r = resolve_one rip wd db r"
proof -
  have f: "filter_by_imports db' rip wd f l cs = filter_by_imports db rip wd f l cs" for f l cs
    using import_names_frame [OF assms] by (simp add: filter_by_imports_def Let_def)
  have u: "unique_callable db' rip wd f l cs = unique_callable db rip wd f l cs" for f l cs
    by (simp only: unique_callable_def f)
  show ?thesis by (simp only: resolve_one_def f u collect_frame [OF assms(1)])
qed

lemma apply_plan_frame:
  assumes "apply_plan p db = Inr db'"
  shows "g_nodes db' = g_nodes db" "p_kind p \<noteq> edge_imports \<Longrightarrow> import_edges db' = import_edges db"
proof -
  have db': "g_nodes db' = g_nodes db"
      "g_edges db' = upsert_by edge_key edge_upd (plan_edge p) (g_edges db)"
    using assms by (auto simp: apply_plan_def bindE_eq_Inr upsert_edge_def delete_uref_def split: if_splits)
  then show "g_nodes db' = g_nodes db" by simp
  assume k: "p_kind p \<noteq> edge_imports"
  have kind: "e_kind (edge_upd e x) = e_kind e" for e x by (simp add: edge_upd_def)
  have key: "edge_key e = edge_key (plan_edge p) \<Longrightarrow> e_kind e = p_kind p" for e
    by (simp add: edge_key_def plan_edge_def)
  have new: "e_kind (plan_edge p) = p_kind p" by (simp add: plan_edge_def)
  have "filter (\<lambda>e. e_kind e = edge_imports) (map (\<lambda>r. if edge_key r = edge_key (plan_edge p)
        then edge_upd r (plan_edge p) else r) es) = filter (\<lambda>e. e_kind e = edge_imports) es" for es
    using k key by (induction es) (auto simp: kind)
  then show "import_edges db' = import_edges db"
    using k unfolding import_edges_def db'(2) upsert_by_def by (simp add: new)
qed

lemma ref_kind_imports [simp]: "ref_kind r = edge_imports \<longleftrightarrow> u_kind r = edge_imports"
  by (simp add: ref_kind_def)

lemma mark_apply:
  "apply_plan p (fst (mark_ref_failed m r db)) = map_sum id (\<lambda>t. fst (mark_ref_failed m r t)) (apply_plan p db)"
  by (auto simp: mark_ref_failed_def mark_unresolved_failed_def apply_plan_def upsert_edge_def
      delete_uref_def node_ids_def filter_map comp_def mark_row_def if_distrib cong: if_cong)

lemma mark_flag_frame:
  assumes "u_id r \<noteq> u_id (p_ref p)" "apply_plan p db = Inr t"
  shows "snd (mark_ref_failed m r t) = snd (mark_ref_failed m r db)"
proof -
  have "g_refs t = filter (\<lambda>x. u_id x \<noteq> u_id (p_ref p)) (g_refs db)"
    using assms(2) by (auto simp: apply_plan_def bindE_eq_Inr upsert_edge_def delete_uref_def split: if_splits)
  then show ?thesis using assms(1) by (auto simp: mark_ref_failed_def mark_unresolved_failed_def)
qed

interpretation resolver: resolution_store "resolve_one rip wd" apply_plan "mark_ref_failed m" p_ref u_id
    "\<lambda>p. p_kind p \<noteq> edge_imports" for rip wd m
proof unfold_locales
  show "resolve_one rip wd s r = Some p \<Longrightarrow> p_ref p = r" for s r p
    using resolve_one_ref by blast
  show "p_kind p \<noteq> edge_imports \<Longrightarrow> apply_plan p s = Inr t
      \<Longrightarrow> resolve_one rip wd t r = resolve_one rip wd s r" for p s t r
    using resolve_one_frame apply_plan_frame by blast
qed (rule mark_apply, erule (1) mark_flag_frame)

text \<open>What a reference needs to be settled: its row is gone or no longer pending.\<close>

definition row_settled :: "uref \<Rightarrow> gdb \<Rightarrow> bool" where
  "row_settled r db \<longleftrightarrow> (\<forall>x\<in>set (g_refs db). u_id x = u_id r \<longrightarrow> u_status x \<noteq> st_pending)"

text \<open>What a pass over the references \<open>rs\<close> leaves alone.\<close>

definition pass_inv :: "uref set \<Rightarrow> gdb \<Rightarrow> gdb \<Rightarrow> bool" where
  "pass_inv rs db0 db \<longleftrightarrow>
     db_ok db \<and> g_nodes db = g_nodes db0 \<and> g_files db = g_files db0
     \<and> (\<forall>x. u_id x \<notin> u_id ` rs \<longrightarrow> (x \<in> set (g_refs db) \<longleftrightarrow> x \<in> set (g_refs db0)))"

lemma apply_plan_fields:
  assumes "apply_plan p db = Inr db'"
  shows "g_nodes db' = g_nodes db \<and> g_files db' = g_files db
    \<and> g_refs db' = filter (\<lambda>x. u_id x \<noteq> u_id (p_ref p)) (g_refs db)"
  using assms by (auto simp: apply_plan_def bindE_eq_Inr upsert_edge_def delete_uref_def split: if_splits)

lemma apply_plan_ok: "apply_plan p db = Inr db' \<Longrightarrow> db_ok db \<Longrightarrow> db_ok db'"
  by (auto simp: apply_plan_def bindE_eq_Inr dest: upsert_edge_ok intro: delete_uref_ok)

lemma mark_fields:
  "g_nodes (fst (mark_ref_failed m r db)) = g_nodes db \<and> g_files (fst (mark_ref_failed m r db)) = g_files db"
  by (simp add: mark_ref_failed_def mark_unresolved_failed_def)

lemma mark_other:
  assumes "u_id x \<noteq> u_id r"
  shows "x \<in> set (g_refs (fst (mark_ref_failed m r db))) \<longleftrightarrow> x \<in> set (g_refs db)"
proof -
  have "u_id (mark_row t m y) = u_id y" for t y by (simp add: mark_row_def)
  then show ?thesis using assms by (auto simp: mark_ref_failed_def mark_unresolved_failed_def)
qed

lemma mark_settled:
  "row_settled r (fst (mark_ref_failed m r db))"
  "row_settled q db \<Longrightarrow> row_settled q (fst (mark_ref_failed m r db))"
  by (auto simp: row_settled_def mark_ref_failed_def mark_unresolved_failed_def mark_row_def
      split: if_splits)

interpretation effects: resolution_effects "resolve_one rip wd" apply_plan "mark_ref_failed m" p_ref rs
    "pass_inv rs db0" row_settled for rip wd m rs db0
proof unfold_locales
  show "resolve_one rip wd s r = Some p \<Longrightarrow> p_ref p = r" for s r p
    using resolve_one_ref by blast
  show "pass_inv rs db0 s \<Longrightarrow> p_ref p \<in> rs \<Longrightarrow> apply_plan p s = Inr t \<Longrightarrow> pass_inv rs db0 t" for s p t
    using apply_plan_fields [of p s t] apply_plan_ok [of p s t] by (auto simp: pass_inv_def)
  show "pass_inv rs db0 (fst (mark_ref_failed m r s))" if "pass_inv rs db0 s" "r \<in> rs" for s r
  proof -
    have "x \<in> set (g_refs (fst (mark_ref_failed m r s))) \<longleftrightarrow> x \<in> set (g_refs db0)"
      if "u_id x \<notin> u_id ` rs" for x
      using mark_other [of x r m s] that \<open>pass_inv rs db0 s\<close> \<open>r \<in> rs\<close> by (auto simp: pass_inv_def)
    moreover have "db_ok (fst (mark_ref_failed m r s))"
      using that(1) mark_unresolved_failed_ok by (simp add: pass_inv_def mark_ref_failed_def)
    ultimately show ?thesis using that(1) mark_fields by (simp add: pass_inv_def)
  qed
  show "apply_plan p s = Inr t \<Longrightarrow> row_settled r s \<Longrightarrow> row_settled r t" for p s t r
    using apply_plan_fields [of p s t] by (auto simp: row_settled_def)
  show "apply_plan p s = Inr t \<Longrightarrow> row_settled (p_ref p) t" for p s t
    using apply_plan_fields [of p s t] by (auto simp: row_settled_def)
qed (rule mark_settled, assumption, rule mark_settled)

section \<open>The batches of the two passes\<close>

lemma all_batch_set:
  "set (fst (all_batch db)) = {r \<in> set (g_refs db). u_status r = st_pending
     \<or> (u_status r = st_failed \<and> collect_candidates db (u_name r) \<noteq> [])}"
  by (auto simp: all_batch_def list_unresolved_refs_def Let_def)

lemma all_batch_distinct:
  assumes "db_ok db"
  shows "distinct (map u_id (fst (all_batch db)))"
proof -
  have d: "distinct (map u_id (g_refs db))" using assms by (simp add: db_ok_def refs_ok_def)
  then have inj: "inj_on u_id (set (g_refs db))" by (simp add: distinct_map)
  have "distinct (fst (all_batch db))"
    using d by (auto simp: all_batch_def list_unresolved_refs_def distinct_map Let_def)
  moreover have "inj_on u_id (set (fst (all_batch db)))"
    by (rule inj_on_subset [OF inj]) (auto simp: all_batch_set)
  ultimately show ?thesis by (simp add: distinct_map)
qed

lemma concat_chunks: "0 < n \<Longrightarrow> concat (chunks n xs) = xs"
  by (induction n xs rule: chunks.induct) auto

lemma set_chunks: "(\<Union>c\<in>set (chunks in_chunk xs). set c) = set xs"
proof -
  have "set (concat (chunks in_chunk xs)) = set xs" by (simp add: concat_chunks in_chunk_def)
  then show ?thesis by simp
qed

lemma in_chunks: "(\<exists>c\<in>set (chunks in_chunk xs). x \<in> set c) \<longleftrightarrow> x \<in> set xs"
  using set_chunks [of xs] by blast

lemma list_refs_by_files_set:
  "set (list_refs_by_files files status db)
     = {r \<in> set (g_refs db). u_file r \<in> set files \<and> (status \<noteq> [] \<longrightarrow> u_status r = status)}"
  unfolding list_refs_by_files_def using in_chunks [where xs = files] by auto

text \<open>Rows with distinct ids are determined by them.\<close>

lemma dedup_rows:
  assumes "db_ok db" "set rs \<subseteq> set (g_refs db)"
  shows "set (dedup_by u_id {} rs) = set rs"
proof -
  have inj: "inj_on u_id (set (g_refs db))"
    using assms(1) by (simp add: db_ok_def refs_ok_def distinct_map)
  have sub: "set (dedup_by u_id {} rs) \<subseteq> set rs" using set_dedup_by [of u_id "{}" rs] by blast
  have img: "u_id ` set (dedup_by u_id {} rs) = u_id ` set rs" by simp
  show ?thesis
    using inj_on_image_eq_iff [OF inj order_trans [OF sub assms(2)] assms(2)] img by simp
qed

lemma list_refs_by_names_set:
  assumes "db_ok db"
  shows "set (list_refs_by_names names [st_pending, st_failed] db)
     = {r \<in> set (g_refs db). u_status r \<in> {st_pending, st_failed}
          \<and> (u_name r \<in> set names \<or> u_tail r \<in> set names)}"
proof (cases "names = []")
  case True
  then show ?thesis by (simp add: list_refs_by_names_def)
next
  case False
  let ?f = "\<lambda>status. concat (map (\<lambda>chunk.
          (let sel = filter (\<lambda>r. status \<noteq> [] \<longrightarrow> u_status r = status) (g_refs db) in
           filter (\<lambda>r. u_name r \<in> set chunk) sel @ filter (\<lambda>r. u_tail r \<in> set chunk) sel))
          (chunks in_chunk names))"
  have f: "set (?f status) = {r \<in> set (g_refs db). (status \<noteq> [] \<longrightarrow> u_status r = status)
      \<and> (u_name r \<in> set names \<or> u_tail r \<in> set names)}" for status
    using in_chunks [where xs = names] by (auto simp: Let_def)
  let ?all = "?f st_pending @ ?f st_failed"
  have "set ?all \<subseteq> set (g_refs db)" unfolding set_append f by blast
  from dedup_rows [OF assms this]
  have "set (dedup_by u_id {} ?all) = {r \<in> set (g_refs db). u_status r \<in> {st_pending, st_failed}
          \<and> (u_name r \<in> set names \<or> u_tail r \<in> set names)}"
    unfolding set_append f by auto
  moreover have "list_refs_by_names names [st_pending, st_failed] db = dedup_by u_id {} ?all"
    using False unfolding list_refs_by_names_def by simp
  ultimately show ?thesis by simp
qed

lemma list_refs_empty_tail_set:
  assumes "db_ok db"
  shows "set (list_refs_empty_tail [st_pending, st_failed] db)
     = {r \<in> set (g_refs db). u_status r \<in> {st_pending, st_failed} \<and> u_tail r = []}"
proof -
  have "set (concat (map (\<lambda>status. filter (\<lambda>r. (status \<noteq> [] \<longrightarrow> u_status r = status) \<and> u_tail r = [])
      (g_refs db)) [st_pending, st_failed])) \<subseteq> set (g_refs db)" by auto
  from dedup_rows [OF assms this] show ?thesis by (auto simp: list_refs_empty_tail_def)
qed

lemma files_batch_set:
  assumes "db_ok db" "set (iter (changed_names files db)) = changed_names files db"
  shows "set (fst (files_batch iter files db)) = {r \<in> set (g_refs db). u_status r \<in> {st_pending, st_failed}
     \<and> (u_file r \<in> set files \<or> u_name r \<in> changed_names files db \<or> u_tail r \<in> changed_names files db
        \<or> (u_tail r = [] \<and> name_tail (u_name r) \<in> changed_names files db))}"
proof (cases "changed_names files db = {}")
  case True
  then show ?thesis by (auto simp: files_batch_def list_refs_by_files_set)
next
  case False
  then show ?thesis
    using assms(2) by (auto simp: files_batch_def list_refs_by_files_set Let_def
        list_refs_by_names_set [OF assms(1)] list_refs_empty_tail_set [OF assms(1)])
qed

section \<open>Properties\<close>

lemma plans_symbolic:
  assumes "\<forall>r\<in>set (g_refs db). u_kind r \<noteq> edge_imports" "set rs \<subseteq> set (g_refs db)"
  shows "\<forall>r\<in>set rs. \<forall>s p. resolve_one rip wd s r = Some p \<longrightarrow> p_kind p \<noteq> edge_imports"
  using assms resolve_one_ref by fastforce

lemma all_batch_sub: "set (fst (all_batch db)) \<subseteq> set (g_refs db)"
  by (auto simp: all_batch_set)

text \<open>C3 (\<open>resolve_batching_transparent\<close>).  Persisting resolved references in batches of any size,
  with one transaction per batch and a row by row retry after a failed one, leaves the same
  database and the same statistics as writing each reference on its own, in the full and in the
  incremental pass.\<close>

theorem resolve_batching_transparent:
  assumes "db_ok db" "\<forall>r\<in>set (g_refs db). u_kind r \<noteq> edge_imports"
    and "set (iter (changed_names files db)) = changed_names files db"
  shows "resolve_all rip workdir maxa bs db = resolve_all rip workdir maxa 1 db
    \<and> resolve_for_files rip iter workdir maxa bs files db
        = resolve_for_files rip iter workdir maxa 1 files db"
proof
  show all: "resolve_all rip workdir maxa bs db = resolve_all rip workdir maxa 1 db"
    using resolver.loop_batch_size
        [OF all_batch_distinct [OF assms(1)] plans_symbolic [OF assms(2) all_batch_sub]]
    by (simp add: resolve_all_def run_pass_def split_def Let_def)
  let ?rs = "dedup_by u_id {} (fst (files_batch iter files db))"
  have "set (fst (files_batch iter files db)) \<subseteq> set (g_refs db)"
    using files_batch_set [where iter = iter and files = files, OF assms(1,3)] by blast
  then have "set ?rs \<subseteq> set (g_refs db)"
    using set_dedup_by [of u_id "{}" "fst (files_batch iter files db)"] by blast
  then have "resolve_loop (resolve_one rip workdir) apply_plan (mark_ref_failed maxa) p_ref bs ?rs db st
      = resolve_loop (resolve_one rip workdir) apply_plan (mark_ref_failed maxa) p_ref 1 ?rs db st" for st
    by (intro resolver.loop_batch_size distinct_dedup_by plans_symbolic [OF assms(2)])
  then show "resolve_for_files rip iter workdir maxa bs files db
        = resolve_for_files rip iter workdir maxa 1 files db"
    using all by (simp add: resolve_for_files_def run_pass_def split_def Let_def)
qed

text \<open>C5 (\<open>resolve_all_settles\<close>).  A full pass keeps the database well-formed and the nodes and
  files as they were; it accounts for every reference it took up, resolved or failed; afterwards
  no reference is pending; and a reference it did not take up, an abandoned one in particular,
  has the row it had.\<close>

theorem resolve_all_settles:
  assumes "db_ok db" "resolve_all rip workdir maxa bs db = (db', st)"
  shows "db_ok db' \<and> g_nodes db' = g_nodes db \<and> g_files db' = g_files db
    \<and> s_resolved st + s_failed st = length (fst (all_batch db))
    \<and> (\<forall>r\<in>set (g_refs db'). u_status r \<noteq> st_pending)
    \<and> {r \<in> set (g_refs db). u_status r = st_abandoned} \<subseteq> set (g_refs db')"
proof -
  let ?rs = "fst (all_batch db)"
  let ?st = "no_stats\<lparr>s_retried := snd (all_batch db)\<rparr>"
  have run: "resolve_loop (resolve_one rip workdir) apply_plan (mark_ref_failed maxa) p_ref bs ?rs db ?st
      = (db', st)"
    using assms(2) by (simp add: resolve_all_def run_pass_def split_def Let_def)
  have "pass_inv (set ?rs) db db" using assms(1) by (simp add: pass_inv_def)
  from effects.loop_inv [OF this subset_refl run]
  have inv: "pass_inv (set ?rs) db db'" and settled: "\<forall>r\<in>set ?rs. row_settled r db'" by simp_all
  have inj: "inj_on u_id (set (g_refs db))"
    using assms(1) by (simp add: db_ok_def refs_ok_def distinct_map)
  have "u_status r \<noteq> st_pending" if r: "r \<in> set (g_refs db')" for r
  proof (cases "u_id r \<in> u_id ` set ?rs")
    case True
    then show ?thesis using settled r by (auto simp: row_settled_def)
  next
    case False
    then have "r \<in> set (g_refs db)" using inv r by (simp add: pass_inv_def)
    then show ?thesis using False by (auto simp: all_batch_set)
  qed
  moreover have "r \<in> set (g_refs db')" if r: "r \<in> set (g_refs db)" "u_status r = st_abandoned" for r
  proof -
    have "u_id r \<notin> u_id ` set ?rs"
    proof
      assume "u_id r \<in> u_id ` set ?rs"
      then obtain x where x: "x \<in> set ?rs" "u_id r = u_id x" by blast
      then have "r = x" using inj_onD [OF inj x(2) r(1)] all_batch_sub by blast
      then show False using x(1) r(2) by (simp add: all_batch_set)
    qed
    then show ?thesis using inv r(1) by (simp add: pass_inv_def)
  qed
  moreover have "s_resolved st + s_failed st = length ?rs"
    using loop_count [OF run] by (simp add: no_stats_def)
  ultimately show ?thesis using inv by (auto simp: pass_inv_def)
qed

lemma filter_by_imports_sub: "set (fst (filter_by_imports db rip wd f l cs)) \<subseteq> set cs"
  by (auto simp: filter_by_imports_def Let_def)

lemma collect_names:
  assumes "db_ok db" "c \<in> set (collect_candidates db ref)"
  shows "c \<in> set (g_nodes db)
    \<and> (n_name c = trim_space ref \<or> n_name c = name_tail (trim_space ref))"
proof -
  have "trim_space ref \<noteq> []" using assms(2) by (auto simp: collect_candidates_def)
  then show ?thesis using collect_candidates_exact [OF assms(1)] assms(2) by blast
qed

lemma unique_callable_target:
  assumes "m_target (unique_callable db rip wd f l cs) \<noteq> 0"
  shows "\<exists>c\<in>set cs. n_id c = m_target (unique_callable db rip wd f l cs) \<and> call_target_kind (n_kind c)"
proof -
  obtain c where c: "filter (\<lambda>c. call_target_kind (n_kind c)) cs = [c]"
      "m_target (unique_callable db rip wd f l cs) = n_id c"
    using assms by (auto simp: unique_callable_def Let_def split: list.splits if_splits)
  have "c \<in> set (filter (\<lambda>c. call_target_kind (n_kind c)) cs)" unfolding c(1) by simp
  then show ?thesis using c(2) by auto
qed

text \<open>A plan's target is a candidate other than the source, and callable where it has to be.\<close>

lemma resolve_one_target:
  assumes "resolve_one rip wd db r = Some p"
  shows "\<exists>c\<in>set (collect_candidates db (u_name r)). n_id c = p_target p \<and> n_id c \<noteq> u_from r
    \<and> eligible (prefers_call (ref_kind r)) c"
proof -
  let ?cs = "filter (\<lambda>c. n_id c \<noteq> u_from r) (collect_candidates db (u_name r))"
  let ?pc = "prefers_call (ref_kind r)"
  let ?imp = "filter_by_imports db rip wd (u_file r) (u_language r) ?cs"
  let ?mi = "match_name (fst ?imp) (u_name r) (u_file r) ?pc"
  let ?m0 = "match_name ?cs (u_name r) (u_file r) ?pc"
  let ?u = "unique_callable db rip wd (u_file r) (u_language r) ?cs"
  consider "p_target p = m_target ?mi" "m_target ?mi \<noteq> 0" | "p_target p = m_target ?m0" "m_target ?m0 \<noteq> 0"
    | "p_target p = m_target ?u" "m_target ?u \<noteq> 0"
    using assms by (auto simp: resolve_one_def Let_def split_def split: if_splits)
  then have "\<exists>c\<in>set ?cs. n_id c = p_target p \<and> eligible ?pc c"
  proof cases
    case 1
    then show ?thesis using match_name_target [OF 1(2)] filter_by_imports_sub by fastforce
  next
    case 2
    then show ?thesis using match_name_target [OF 2(2)] by auto
  next
    case 3
    then show ?thesis using unique_callable_target [OF 3(2)] by (auto simp: eligible_def)
  qed
  then show ?thesis by auto
qed

text \<open>An edge is only planned to a node of the index that is not the
  referring node itself, bears the referenced name or its last segment, and, for calls,
  references and bridges, is of a kind that can be called.\<close>

theorem resolve_one_sound:
  assumes "db_ok db" "resolve_one rip workdir db r = Some p"
  shows "\<exists>n\<in>set (g_nodes db). n_id n = p_target p \<and> n_id n \<noteq> u_from r
    \<and> (n_name n = trim_space (u_name r) \<or> n_name n = name_tail (trim_space (u_name r)))
    \<and> (prefers_call (ref_kind r) \<longrightarrow> call_target_kind (n_kind n))"
  using resolve_one_target [OF assms(2)] collect_names [OF assms(1)]
  unfolding eligible_def by fastforce

text \<open>The incremental pass, which asks the database by file, by name
  and by stored tail in chunks of 400, takes up exactly the rows a scan of the whole table would
  select: the pending and failed ones that lie in a changed file or whose name or name tail is
  defined in one.\<close>

theorem files_batch_full_scan:
  assumes "db_ok db" "set (iter (changed_names files db)) = changed_names files db"
  shows "set (fst (files_batch iter files db)) =
    set (filter (\<lambda>r. u_status r \<in> {st_pending, st_failed}
       \<and> (u_file r \<in> set files \<or> u_name r \<in> changed_names files db
          \<or> u_tail r \<in> changed_names files db
          \<or> (u_tail r = [] \<and> name_tail (u_name r) \<in> changed_names files db))) (g_refs db))"
  unfolding files_batch_set [where iter = iter, OF assms] by auto

section \<open>A pass over the sample database\<close>

definition sample_pending :: gdb where
  "sample_pending = sample_db\<lparr>g_refs := [sample_parked\<lparr>u_id := 1\<rparr>], g_next_ref := 2\<rparr>"

definition no_imports :: import_resolver where
  "no_imports workdir from_file spec lang = []"

lemma sample_pending_ok: "db_ok sample_pending"
  using park_inbound_complete [OF sample_db_ok, of "''b.go''"] sample_park
  by (simp add: sample_pending_def)

lemma sample_refs: "g_refs sample_pending = [sample_parked\<lparr>u_id := 1\<rparr>]"
  by (simp add: sample_pending_def)

lemma sample_names: "changed_names [''b.go''] sample_pending = {''Old''}"
  by (simp add: changed_names_def for_each_node_by_file_light_def sample_pending_def sample_defs
      node_batch_def paged.simps)

lemma sample_collect:
  "collect_candidates sample_pending ''Old'' = [sample_node 2 kind_function ''Old'' ''b.go'' 5]"
proof -
  have "trim_space ''Old'' = ''Old''" by (simp add: str_eval)
  moreover from this have "name_tail ''Old'' = ''Old''" by (simp add: name_tail_def)
  ultimately show ?thesis
    by (simp add: collect_candidates_def for_each_node_by_name_def sample_pending_def sample_defs
        node_batch_def paged.simps Let_def)
qed

lemma sample_resolve:
  "resolve_one no_imports ''/w'' sample_pending (sample_parked\<lparr>u_id := 1\<rparr>)
     = Some \<lparr>p_ref = sample_parked\<lparr>u_id := 1\<rparr>, p_target = 2, p_kind = edge_calls,
             p_provenance = prov_proximity\<rparr>"
proof -
  let ?c = "sample_node 2 kind_function ''Old'' ''b.go'' 5"
  have f: "filter_by_imports sample_pending no_imports ''/w'' ''a.go'' ''go'' [?c] = ([?c], False)"
    by (simp add: filter_by_imports_def get_import_target_names_def sample_pending_def sample_defs Let_def)
  have d: "filepath_dir ''a.go'' = ''.''" "filepath_dir ''b.go'' = ''.''"
    by (simp_all add: filepath_dir_def path_eval str_eval)
  have m: "match_name [?c] ''Old'' ''a.go'' True = \<lparr>m_target = 2, m_provenance = prov_proximity, m_score = 57\<rparr>"
    by (simp add: match_name_def match_step_def ambiguous_ceiling_def call_target_kind_def score_def
        proximity_def kind_points_def hit_def d sample_node_def)
  have "filter (\<lambda>c. n_id c \<noteq> 1) [?c] = [?c]" by (simp add: sample_node_def)
  then show ?thesis
    using f m by (simp add: resolve_one_def sample_collect ref_kind_def prefers_call_def)
qed

theorem resolve_batching_transparent_witness:
  "resolve_all no_imports ''/w'' 20 500 sample_pending = resolve_all no_imports ''/w'' 20 1 sample_pending
   \<and> resolve_for_files no_imports (\<lambda>_. [''Old'']) ''/w'' 20 500 [''b.go''] sample_pending
     = resolve_for_files no_imports (\<lambda>_. [''Old'']) ''/w'' 20 1 [''b.go''] sample_pending"
  by (rule resolve_batching_transparent [OF sample_pending_ok])
    (simp_all add: sample_refs sample_names)

theorem resolve_all_settles_witness:
  "filter (\<lambda>r. u_status r = st_pending)
     (g_refs (fst (resolve_all no_imports ''/w'' 20 500 sample_pending))) = []"
  using resolve_all_settles [OF sample_pending_ok surjective_pairing] by (simp add: filter_empty_conv)

theorem resolve_one_sound_witness:
  "\<exists>n\<in>set (g_nodes sample_pending). n_id n = 2 \<and> n_name n = ''Old'' \<and> call_target_kind (n_kind n)"
  using resolve_one_sound [OF sample_pending_ok sample_resolve]
  by (auto simp: sample_pending_def sample_defs call_target_kind_def)

theorem files_batch_full_scan_witness:
  "set (fst (files_batch (\<lambda>_. [''Old'']) [''b.go''] sample_pending)) = {sample_parked\<lparr>u_id := 1\<rparr>}"
  by (subst files_batch_full_scan [OF sample_pending_ok])
    (simp_all add: sample_names sample_refs del: set_filter)

end
