(* ===== verification/Orchestrator.thy ===== *)
theory Orchestrator
  imports Index_Builder Resolver Skip_Rules "HOL-Library.List_Lexorder" "HOL-Library.Char_ord"
begin

text \<open>
  The index passes (\<^verbatim>\<open>extraction/orchestrator.go\<close>, \<^verbatim>\<open>orchestrator_file.go\<close>): the walk that collects
  the jobs, the incremental gate in front of the index writer, pruning, the full, the incremental
  and the rebuilding pass, the deletion of files and trees, and the schema revision that only a
  complete rebuild may set.

  The file system is a tree during one pass.  What the passes ask it for (contents, sizes,
  times, whether a path is a link) are fields of \<open>index_env\<close>, as are the hash, the clock, the
  extractors and the synthesis of dynamic edges.  The worker pool is the loop it degenerates to
  with one worker; the theorems hold for the jobs in any order.  A shutdown is an \<open>alarm\<close>, the
  number of polls of the done channel that still find it open.
\<close>

section \<open>Languages\<close>

definition lower_rune :: "nat \<Rightarrow> nat" where
  "lower_rune r =
     (if 65 \<le> r \<and> r \<le> 90 then r + 32 else if r = 8490 then 107 else if r = 304 then 105 else r)"

definition language_table :: "(string list \<times> string) list" where
  "language_table =
     [([''.go''], ''go''), ([''.ts'', ''.tsx''], ''typescript''),
      ([''.js'', ''.jsx'', ''.mjs'', ''.cjs''], ''javascript''), ([''.py''], ''python''), ([''.rs''], ''rust''),
      ([''.java''], ''java''), ([''.cs''], ''csharp''), ([''.rb''], ''ruby''), ([''.php''], ''php''),
      ([''.c'', ''.h''], ''c''), ([''.cpp'', ''.cc'', ''.cxx'', ''.hpp'', ''.hxx''], ''cpp''),
      ([''.swift''], ''swift''), ([''.kt'', ''.kts''], ''kotlin''), ([''.scala''], ''scala''),
      ([''.dart''], ''dart''), ([''.lua''], ''lua''), ([''.luau''], ''luau''), ([''.r'', ''.R''], ''r''),
      ([''.m'', ''.mm''], ''objective-c''), ([''.svelte''], ''svelte''), ([''.vue''], ''vue''),
      ([''.astro''], ''astro''), ([''.liquid''], ''liquid''),
      ([''.pas'', ''.dpr'', ''.dpk'', ''.lpr''], ''pascal'')]"

text \<open>
  \<^verbatim>\<open>strings.ToLower\<close> of the extension, as runes: only the capitals, the Kelvin sign and the dotted
  capital I become ASCII letters, and the table holds nothing but ASCII.
\<close>

definition detect_language :: "string \<Rightarrow> string" where
  "detect_language path =
     (let ext = map lower_rune (runes_of (filepath_ext path)) in
      case find (\<lambda>(exts, lang). ext \<in> set (map (map byte_of) exts)) language_table of
        None \<Rightarrow> [] | Some (exts, lang) \<Rightarrow> lang)"

definition is_supported_language :: "string \<Rightarrow> bool" where
  "is_supported_language lang \<longleftrightarrow>
     lang \<in> set [''go'', ''typescript'', ''javascript'', ''python'', ''rust'', ''java'', ''csharp'', ''ruby'',
       ''php'', ''c'', ''cpp'', ''swift'', ''kotlin'', ''scala'', ''dart'', ''lua'', ''luau'', ''r'', ''objective-c'',
       ''svelte'', ''vue'', ''astro'', ''liquid'', ''pascal'']"

section \<open>The walk\<close>

text \<open>
  A regular file and a symbolic link with size and time, and a folder: whether it can be listed,
  and its entries in the order of the listing, \<^const>\<open>None\<close> for an entry whose \<^verbatim>\<open>Lstat\<close> fails.
\<close>

datatype fs = Reg int int | Link int int | Folder bool "(string \<times> fs option) list"

lemma fs_entry_smaller:
  "(n, Some t) \<in> set entries \<Longrightarrow> size t < Suc (size_list (size_prod (\<lambda>_. 0) (size_option size)) entries)"
  by (induction entries) (auto simp: size_option_def)

text \<open>The callbacks of \<^verbatim>\<open>filepath.Walk\<close>.  A folder that cannot be listed is reported with the error.\<close>

datatype walk_event = Ev_error string | Ev_dir string | Ev_file string bool int int

function walk :: "walk_env \<Rightarrow> string \<Rightarrow> string \<Rightarrow> string \<Rightarrow> fs \<Rightarrow> walk_event list" where
  "walk env wd path name (Reg sz t) = [Ev_file path False sz t]"
| "walk env wd path name (Link sz t) = [Ev_file path True sz t]"
| "walk env wd path name (Folder readable entries) =
     (if \<not> readable then [Ev_error path]
      else Ev_dir path #
        (if should_skip_dir_in env wd path name then []
         else concat (map (\<lambda>(n, e). let p = filepath_join [path, n] in
                case e of None \<Rightarrow> [Ev_error p] | Some t \<Rightarrow> walk env wd p n t) entries)))"
  by pat_completeness auto
termination
  by (relation "measure (\<lambda>(_, _, _, _, t). size t)") (auto intro: fs_entry_smaller)

type_synonym alarm = "nat option"

text \<open>One poll of the done channel; once closed it stays closed.\<close>

definition poll :: "alarm \<Rightarrow> bool \<times> alarm" where
  "poll a = (case a of None \<Rightarrow> (False, None) | Some 0 \<Rightarrow> (True, Some 0) | Some (Suc n) \<Rightarrow> (False, Some n))"

record index_job =
  j_path :: string
  j_size :: int
  j_mtime :: int
  j_lang :: string

definition max_index_file_size :: int where
  "max_index_file_size = 1024 * 1024"

definition job_of :: "walk_event \<Rightarrow> index_job option" where
  "job_of ev =
     (case ev of
        Ev_file path linked sz t \<Rightarrow>
          (let lang = detect_language path in
           if linked \<or> max_index_file_size < sz \<or> lang = [] \<or> \<not> is_supported_language lang then None
           else Some \<lparr>j_path = path, j_size = sz, j_mtime = t, j_lang = lang\<rparr>)
      | _ \<Rightarrow> None)"

text \<open>\<^verbatim>\<open>collectIndexJobs\<close>: jobs, walk errors, whether the walk was interrupted, and the alarm.\<close>

fun visit_indexable :: "alarm \<Rightarrow> walk_event list \<Rightarrow> index_job list \<times> nat \<times> bool \<times> alarm" where
  "visit_indexable a [] = ([], 0, False, a)"
| "visit_indexable a (ev # evs) =
     (case ev of
        Ev_error p \<Rightarrow> (let (js, n, i, a') = visit_indexable a evs in (js, n + 1, i, a'))
      | _ \<Rightarrow>
          (let (closed, a1) = poll a in
           if closed then ([], 0, True, a1)
           else
             (let (js, n, i, a') = visit_indexable a1 evs in
              ((case job_of ev of None \<Rightarrow> js | Some j \<Rightarrow> j # js), n, i, a'))))"

text \<open>The root itself may be unreadable.\<close>

definition walk_root :: "walk_env \<Rightarrow> string \<Rightarrow> fs option \<Rightarrow> walk_event list" where
  "walk_root env wd root = (case root of None \<Rightarrow> [Ev_error wd] | Some t \<Rightarrow> walk env wd wd (filepath_base wd) t)"

definition collect_index_jobs ::
    "walk_env \<Rightarrow> string \<Rightarrow> fs option \<Rightarrow> alarm \<Rightarrow> index_job list \<times> nat \<times> bool \<times> alarm" where
  "collect_index_jobs env wd root a = visit_indexable a (walk_root env wd root)"

section \<open>One file\<close>

datatype stat_result = Stat_ok bool int int | Stat_missing | Stat_error

text \<open>
  \<^verbatim>\<open>ix_stat\<close> gives whether the path is a directory, its size and time; \<^verbatim>\<open>ix_extract\<close> the results of
  the extractors and the route and bridge detectors for language, source and key;
  \<^verbatim>\<open>ix_synth\<close> is \<^verbatim>\<open>SynthesizeAll\<close>, with whether it succeeded.
\<close>

record index_env =
  ix_link :: "string \<Rightarrow> bool"
  ix_read :: "string \<Rightarrow> string option"
  ix_stat :: "string \<Rightarrow> stat_result"
  ix_hash :: "string \<Rightarrow> string"
  ix_extract :: "string \<Rightarrow> string \<Rightarrow> string \<Rightarrow> extraction \<times> bool \<times> extract_error \<times> route list \<times> bridge list"
  ix_now :: int
  ix_rip :: import_resolver
  ix_iter :: "string set \<Rightarrow> string list"
  ix_attempts :: nat
  ix_batch :: nat
  ix_synth :: "gdb \<Rightarrow> gdb \<times> bool"

datatype pass_error = Read_failed | Stat_failed | Index_failed db_error | Synthesis_failed | Interrupted

text \<open>\<^verbatim>\<open>indexFile\<close> with its reading of the file, when the gate has not read it already.\<close>

definition stat_meta :: "index_env \<Rightarrow> string \<Rightarrow> (int \<times> int) option" where
  "stat_meta ix path = (case ix_stat ix path of Stat_ok d sz t \<Rightarrow> Some (sz, t) | _ \<Rightarrow> None)"

datatype file_outcome = Indexed nat | Kept_old | File_error pass_error

definition index_path :: "index_env \<Rightarrow> string \<Rightarrow> bool \<Rightarrow> string \<Rightarrow> string \<Rightarrow> string option \<Rightarrow> gdb \<Rightarrow> gdb \<times> file_outcome" where
  "index_path ix wd force path lang data0 db =
     (case (case data0 of None \<Rightarrow> ix_read ix path | Some d \<Rightarrow> Some d) of
        None \<Rightarrow> (db, File_error Read_failed)
      | Some data \<Rightarrow>
          (let store = storage_path wd path;
               (ex, ts, err, routes, bridges) = ix_extract ix lang data store
           in case index_file force store lang (ix_hash ix data) (stat_meta ix path) (ix_now ix) ex ts err
                    routes bridges db of
                (db', Inr n) \<Rightarrow> (db', Indexed n)
              | (db', Inl Keep_old_index) \<Rightarrow> (db', Kept_old)
              | (db', Inl (Write_failed e)) \<Rightarrow> (db', File_error (Index_failed e))))"

definition file_needs_reindex :: "string \<Rightarrow> int \<Rightarrow> int \<Rightarrow> gdb \<Rightarrow> bool" where
  "file_needs_reindex path sz mtime db =
     (case row_with_key f_path path (g_files db) of
        None \<Rightarrow> True
      | Some f \<Rightarrow> f_size f \<noteq> sz \<or> f_mtime f \<noteq> mtime)"

text \<open>The counts of files and nodes, or that the file was skipped.\<close>

datatype gate_outcome = Skipped | Done file_outcome

definition index_if_needed :: "index_env \<Rightarrow> string \<Rightarrow> bool \<Rightarrow> index_job \<Rightarrow> gdb \<Rightarrow> gdb \<times> gate_outcome" where
  "index_if_needed ix wd force j db =
     (let path = j_path j; key = storage_path wd path;
          go = (\<lambda>data. let (db', r) = index_path ix wd force path (j_lang j) data db in (db', Done r))
      in if ix_link ix path then (db, Skipped)
         else if force \<or> file_needs_reindex key (j_size j) (j_mtime j) db then go None
         else case ix_read ix path of
                None \<Rightarrow> (db, Done (File_error Read_failed))
              | Some data \<Rightarrow>
                  if file_has_content_hash key (ix_hash ix data) db then (db, Skipped) else go (Some data))"

section \<open>The passes\<close>

text \<open>The counters of a pass: \<open>ps_failed\<close> is the list behind \<^verbatim>\<open>IndexFailedFiles\<close>.\<close>

record pass_state =
  ps_db :: gdb
  ps_files :: nat
  ps_nodes :: nat
  ps_errs :: "(string \<times> pass_error) list"
  ps_partial :: nat
  ps_failed :: "string list"

definition start_pass :: "gdb \<Rightarrow> pass_state" where
  "start_pass db = \<lparr>ps_db = db, ps_files = 0, ps_nodes = 0, ps_errs = [], ps_partial = 0, ps_failed = []\<rparr>"

definition count_outcome :: "string \<Rightarrow> gdb \<times> gate_outcome \<Rightarrow> pass_state \<Rightarrow> pass_state" where
  "count_outcome path res s =
     (case res of
        (db', Skipped) \<Rightarrow> s\<lparr>ps_db := db'\<rparr>
      | (db', Done (Indexed n)) \<Rightarrow> s\<lparr>ps_db := db', ps_files := ps_files s + 1, ps_nodes := ps_nodes s + n\<rparr>
      | (db', Done Kept_old) \<Rightarrow> s\<lparr>ps_db := db', ps_partial := ps_partial s + 1\<rparr>
      | (db', Done (File_error e)) \<Rightarrow> s\<lparr>ps_db := db', ps_errs := ps_errs s @ [(path, e)]\<rparr>)"

text \<open>\<^verbatim>\<open>runIndexJobs\<close> with one worker; a shutdown stops before the next file.\<close>

fun run_index_jobs ::
    "index_env \<Rightarrow> string \<Rightarrow> bool \<Rightarrow> alarm \<Rightarrow> index_job list \<Rightarrow> pass_state \<Rightarrow> pass_state \<times> alarm" where
  "run_index_jobs ix wd force a [] s = (s, a)"
| "run_index_jobs ix wd force a (j # js) s =
     (let (closed, a1) = poll a in
      if closed then (s, a1)
      else run_index_jobs ix wd force a1 js
             (count_outcome (j_path j) (index_if_needed ix wd force j (ps_db s)) s))"

definition clear_file :: "string \<Rightarrow> gdb \<Rightarrow> gdb" where
  "clear_file path db =
     (let db1 = delete_nodes_of_file path (delete_refs_of_file path db) in
      db1\<lparr>g_files := filter (\<lambda>f. f_path f \<noteq> path) (g_files db1)\<rparr>)"

definition list_files_cap :: nat where
  "list_files_cap = 100000"

definition list_files :: "gdb \<Rightarrow> string list" where
  "list_files db = take list_files_cap (sort (map f_path (g_files db)))"

definition prune_missing_files :: "string \<Rightarrow> index_job list \<Rightarrow> gdb \<Rightarrow> gdb" where
  "prune_missing_files wd jobs db =
     (let keep = set (map (\<lambda>j. storage_path wd (j_path j)) jobs) in
      foldl (\<lambda>d f. clear_file f d) db (filter (\<lambda>f. f \<notin> keep) (list_files db)))"

text \<open>\<^verbatim>\<open>ScrubNoisyFailedRefsForFiles\<close>, for given files or (\<^const>\<open>None\<close>, Go's nil) for all.\<close>

definition scrub_noisy_failed_refs_for_files :: "string list option \<Rightarrow> gdb \<Rightarrow> gdb \<times> nat" where
  "scrub_noisy_failed_refs_for_files files db =
     (let refs = (\<lambda>status d. case files of None \<Rightarrow> list_unresolved_refs [] status d
                            | Some fs \<Rightarrow> list_refs_by_files fs status d);
          (db1, n1) = scrub_list (refs st_failed db) db;
          (db2, n2) = scrub_list (refs st_pending db1) db1
      in (db2, n1 + n2))"

definition run_synthesis :: "index_env \<Rightarrow> string list option \<Rightarrow> pass_state \<Rightarrow> pass_state" where
  "run_synthesis ix files s =
     (let (db1, n) = scrub_noisy_failed_refs_for_files files (ps_db s); (db2, ok) = ix_synth ix db1 in
      if ok then s\<lparr>ps_db := db2\<rparr> else s\<lparr>ps_db := db2, ps_errs := ps_errs s @ [([], Synthesis_failed)]\<rparr>)"

definition interrupt :: "pass_state \<Rightarrow> pass_state" where
  "interrupt s = s\<lparr>ps_errs := ([], Interrupted) # ps_errs s\<rparr>"

text \<open>The resolution and synthesis tail of a full pass, with the polls between its steps.\<close>

definition finish_all :: "index_env \<Rightarrow> string \<Rightarrow> alarm \<Rightarrow> pass_state \<Rightarrow> pass_state \<times> alarm" where
  "finish_all ix wd a s =
     (let (closed, a1) = poll a in
      if closed then (interrupt s, a1)
      else
        (let s1 = s\<lparr>ps_db := fst (resolve_all (ix_rip ix) wd (ix_attempts ix) (ix_batch ix) (ps_db s))\<rparr>;
             (closed, a2) = poll a1
         in if closed then (interrupt s1, a2) else (run_synthesis ix None s1, a2)))"

definition index_all ::
    "walk_env \<Rightarrow> index_env \<Rightarrow> string \<Rightarrow> fs option \<Rightarrow> bool \<Rightarrow> alarm \<Rightarrow> gdb \<Rightarrow> pass_state \<times> alarm" where
  "index_all env ix wd root force a db =
     (let (jobs, walk_errs, intr, a1) = collect_index_jobs env wd root a in
      if intr then (interrupt (start_pass db), a1)
      else
        (let (closed, a2) = poll a1 in
         if closed then (interrupt (start_pass db), a2)
         else
           (let db1 = (if walk_errs = 0 then prune_missing_files wd jobs db else db);
                (s, a3) = run_index_jobs ix wd force a2 jobs (start_pass db1)
            in finish_all ix wd a3 s)))"

text \<open>\<^verbatim>\<open>RebuildAll\<close> on the database and its schema revision; marking it may fail as well.\<close>

definition wipe_index :: "gdb \<Rightarrow> gdb" where
  "wipe_index db = db\<lparr>g_nodes := [], g_edges := [], g_refs := [], g_files := []\<rparr>"

definition needs_rebuild :: "string \<Rightarrow> string option \<Rightarrow> bool" where
  "needs_rebuild current revision \<longleftrightarrow> revision \<noteq> Some current"

definition rebuild_all ::
    "walk_env \<Rightarrow> index_env \<Rightarrow> string \<Rightarrow> fs option \<Rightarrow> alarm \<Rightarrow> string \<Rightarrow> bool \<Rightarrow> gdb \<Rightarrow> string option
       \<Rightarrow> pass_state \<times> string option \<times> bool" where
  "rebuild_all env ix wd root a current mark_ok db revision =
     (let (s, a1) = index_all env ix wd root True a (wipe_index db) in
      if ps_errs s \<noteq> [] then (s, revision, False)
      else if mark_ok then (s, Some current, True)
      else (s, revision, False))"

text \<open>\<^verbatim>\<open>IndexFile\<close>, \<^verbatim>\<open>DeleteFile\<close> and \<^verbatim>\<open>DeleteTree\<close>.\<close>

definition index_single ::
    "index_env \<Rightarrow> string \<Rightarrow> bool \<Rightarrow> string \<Rightarrow> gdb \<Rightarrow> pass_state option" where
  "index_single ix wd force path db =
     (let lang = detect_language path in
      if lang = [] \<or> \<not> is_supported_language lang then None
      else
        (let (db1, r) = index_path ix wd force path lang None db;
             s = count_outcome path (db1, Done r) (start_pass db);
             key = storage_path wd path
         in case r of
              Indexed n \<Rightarrow>
                Some (run_synthesis ix (Some [key])
                  (s\<lparr>ps_db := fst (resolve_for_files (ix_rip ix) (ix_iter ix) wd (ix_attempts ix) (ix_batch ix)
                       [key] (ps_db s))\<rparr>))
            | _ \<Rightarrow> Some s))"

definition delete_file :: "string \<Rightarrow> string \<Rightarrow> gdb \<Rightarrow> gdb" where
  "delete_file wd path db = clear_file (storage_path wd path) db"

definition delete_tree :: "string \<Rightarrow> string \<Rightarrow> gdb \<Rightarrow> gdb" where
  "delete_tree wd path db =
     (let key = storage_path wd path in
      if key = [] then db
      else if key = ''.'' then foldl (\<lambda>d f. clear_file f d) db (list_files db)
      else foldl (\<lambda>d f. clear_file f d) db
             (filter (\<lambda>f. f = key \<or> has_prefix f (key @ ''/'')) (list_files db)))"

text \<open>One path of \<^verbatim>\<open>IndexChanges\<close>: the state, and its key when it takes part in the resolution.\<close>

definition index_change :: "index_env \<Rightarrow> string \<Rightarrow> bool \<Rightarrow> string \<Rightarrow> pass_state \<Rightarrow> pass_state \<times> string list" where
  "index_change ix wd force path s =
     (case ix_stat ix path of
        Stat_missing \<Rightarrow> (s\<lparr>ps_db := clear_file (storage_path wd path) (ps_db s)\<rparr>, [])
      | Stat_error \<Rightarrow> (s\<lparr>ps_errs := ps_errs s @ [(path, Stat_failed)], ps_failed := ps_failed s @ [path]\<rparr>, [])
      | Stat_ok dir sz t \<Rightarrow>
          (let lang = detect_language path in
           if dir \<or> max_index_file_size < sz \<or> lang = [] \<or> \<not> is_supported_language lang then (s, [])
           else
             (let res = index_if_needed ix wd force \<lparr>j_path = path, j_size = sz, j_mtime = t, j_lang = lang\<rparr> (ps_db s);
                  s1 = count_outcome path res s;
                  s2 = (case snd res of
                          Done Kept_old \<Rightarrow> s1\<lparr>ps_failed := ps_failed s1 @ [path]\<rparr>
                        | Done (File_error e) \<Rightarrow> s1\<lparr>ps_failed := ps_failed s1 @ [path]\<rparr>
                        | _ \<Rightarrow> s1)
              in (s2, [storage_path wd path]))))"

fun run_changes ::
    "index_env \<Rightarrow> string \<Rightarrow> bool \<Rightarrow> alarm \<Rightarrow> string list \<Rightarrow> pass_state \<Rightarrow> pass_state \<times> string list \<times> alarm" where
  "run_changes ix wd force a [] s = (s, [], a)"
| "run_changes ix wd force a (p # ps) s =
     (let (closed, a1) = poll a in
      if closed then (s, [], a1)
      else
        (let (s1, keys) = index_change ix wd force p s;
             (s2, keys', a2) = run_changes ix wd force a1 ps s1
         in (s2, keys @ keys', a2)))"

definition index_changes ::
    "index_env \<Rightarrow> string \<Rightarrow> bool \<Rightarrow> alarm \<Rightarrow> string list \<Rightarrow> gdb \<Rightarrow> pass_state \<times> alarm" where
  "index_changes ix wd force a files db =
     (let (s, keys, a1) = run_changes ix wd force a files (start_pass db);
          (closed, a2) = poll a1
      in if closed then (s\<lparr>ps_errs := ps_errs s @ [([], Interrupted)]\<rparr>, a2)
         else
           (let s1 = s\<lparr>ps_db := fst (resolve_for_files (ix_rip ix) (ix_iter ix) wd (ix_attempts ix) (ix_batch ix)
                       keys (ps_db s))\<rparr>
            in (run_synthesis ix (Some keys) s1, a2)))"

section \<open>What the walk finds\<close>

text \<open>The entry at a path of names below a tree.\<close>

fun fs_at :: "fs \<Rightarrow> string list \<Rightarrow> fs option" where
  "fs_at t [] = Some t"
| "fs_at (Folder readable entries) (n # k) =
     (if readable then (case map_of entries n of Some (Some t) \<Rightarrow> fs_at t k | _ \<Rightarrow> None) else None)"
| "fs_at _ (n # k) = None"

text \<open>Entry names are plain and occur once in their folder.\<close>

function wf_fs :: "fs \<Rightarrow> bool" where
  "wf_fs (Reg sz t) = True"
| "wf_fs (Link sz t) = True"
| "wf_fs (Folder readable entries) =
     (distinct (map fst entries)
      \<and> list_all (\<lambda>(n, e). plain_seg n \<and> (case e of None \<Rightarrow> True | Some t \<Rightarrow> wf_fs t)) entries)"
  by pat_completeness auto
termination
  by (relation "measure size") (auto intro: fs_entry_smaller)

definition file_event :: "string \<Rightarrow> fs \<Rightarrow> walk_event option" where
  "file_event path t =
     (case t of Reg sz tm \<Rightarrow> Some (Ev_file path False sz tm) | Link sz tm \<Rightarrow> Some (Ev_file path True sz tm)
      | Folder r es \<Rightarrow> None)"

lemma fs_at_leaf [simp]:
  "fs_at (Reg sz t) k = Some u \<longleftrightarrow> k = [] \<and> u = Reg sz t"
  "fs_at (Link sz t) k = Some u \<longleftrightarrow> k = [] \<and> u = Link sz t"
  by (cases k; auto)+

lemma walk_file_events:
  assumes "is_abs wd" "clean wd = wd" "list_all plain_seg p" "wf_fs t"
  shows "Ev_file q l sz tm \<in> set (walk env wd (below_path wd p) name t) \<longleftrightarrow>
    (\<exists>k u. fs_at t k = Some u \<and> list_all plain_seg k \<and> file_event (below_path wd (p @ k)) u = Some (Ev_file q l sz tm)
      \<and> (k = [] \<or> \<not> should_skip_dir_in env wd (below_path wd p) name
             \<and> \<not> blocked_below env wd (below_path wd p) (butlast k)))" (is "_ \<longleftrightarrow> ?found p name t")
  using assms(3,4)
proof (induction t arbitrary: p name rule: wf_fs.induct)
  case (3 readable entries)
  let ?d = "below_path wd p"
  have names: "plain_seg n" "map_of entries n = Some e \<longleftrightarrow> (n, e) \<in> set entries" if "(n, e) \<in> set entries" for n e
    using "3.prems"(2) that by (auto simp: list_all_iff)
  have IH: "Ev_file q l sz tm \<in> set (walk env wd (filepath_join [?d, n]) n t) \<longleftrightarrow> ?found (p @ [n]) n t"
    if "(n, Some t) \<in> set entries" for n t
  proof -
    have "plain_seg n" "wf_fs t" using that "3.prems"(2) by (auto simp: list_all_iff)
    then show ?thesis
      using "3.IH" [OF that refl refl, of "p @ [n]" n] "3.prems"(1) join_below_path [OF assms(1,2) "3.prems"(1)]
      by (simp del: append_assoc)
  qed
  have "Ev_file q l sz tm \<in> set (walk env wd ?d name (Folder readable entries)) \<longleftrightarrow>
      readable \<and> \<not> should_skip_dir_in env wd ?d name
      \<and> (\<exists>(n, e)\<in>set entries. \<exists>t. e = Some t \<and> Ev_file q l sz tm \<in> set (walk env wd (filepath_join [?d, n]) n t))"
    by (auto simp: Let_def split: option.splits)
  also have "\<dots> \<longleftrightarrow> readable \<and> \<not> should_skip_dir_in env wd ?d name
      \<and> (\<exists>n t. (n, Some t) \<in> set entries \<and> ?found (p @ [n]) n t)"
    using IH by (simp only: Bex_def split_paired_Ex split_conv) blast
  also have "\<dots> \<longleftrightarrow> ?found p name (Folder readable entries)" (is "?l \<longleftrightarrow> ?r")
  proof
    assume ?l
    then obtain n t k u where h: "readable" "\<not> should_skip_dir_in env wd ?d name" "(n, Some t) \<in> set entries"
      "fs_at t k = Some u" "list_all plain_seg k" "file_event (below_path wd ((p @ [n]) @ k)) u = Some (Ev_file q l sz tm)"
      "k = [] \<or> \<not> should_skip_dir_in env wd (below_path wd (p @ [n])) n
         \<and> \<not> blocked_below env wd (below_path wd (p @ [n])) (butlast k)" by blast
    have n: "plain_seg n" "n \<noteq> []" "n \<noteq> ''.''"
      using names [OF h(3)] by (auto simp: plain_seg_def normal_seg_def)
    have "fs_at (Folder readable entries) (n # k) = Some u" using h(1,3,4) names [OF h(3)] by simp
    moreover have "\<not> blocked_below env wd ?d (butlast (n # k))"
      using h(7) n join_below_path [OF assms(1,2) "3.prems"(1) n(1)] base_below_path [OF n(1)]
      by (cases "k = []") (simp_all add: Let_def)
    ultimately show ?r using h(2,5,6) n(1) by (intro exI [of _ "n # k"]) auto
  next
    assume ?r
    then obtain k u where h: "fs_at (Folder readable entries) k = Some u" "list_all plain_seg k"
      "file_event (below_path wd (p @ k)) u = Some (Ev_file q l sz tm)"
      "k = [] \<or> \<not> should_skip_dir_in env wd ?d name \<and> \<not> blocked_below env wd ?d (butlast k)" by blast
    then obtain n k' where k: "k = n # k'" by (cases k) (auto simp: file_event_def)
    then obtain t where t: "readable" "map_of entries n = Some (Some t)" "fs_at t k' = Some u"
      using h(1) by (auto split: if_splits option.splits)
    have m: "(n, Some t) \<in> set entries" using t(2) by (rule map_of_SomeD)
    have n: "plain_seg n" "n \<noteq> []" "n \<noteq> ''.''"
      using names [OF m] by (auto simp: plain_seg_def normal_seg_def)
    have "k' = [] \<or> \<not> should_skip_dir_in env wd (below_path wd (p @ [n])) n
         \<and> \<not> blocked_below env wd (below_path wd (p @ [n])) (butlast k')"
      using h(4) k n join_below_path [OF assms(1,2) "3.prems"(1) n(1)] base_below_path [OF n(1)]
      by (auto simp: Let_def split: if_splits)
    then show ?l using h(2-4) k t(1,3) m by (intro conjI exI [of _ n] exI [of _ t] exI [of _ k'] exI [of _ u]) auto
  qed
  finally show ?case .
qed (auto simp: file_event_def)

lemma visit_indexable_jobs:
  "visit_indexable a evs = (js, n, False, a') \<Longrightarrow> set js = {j. \<exists>ev\<in>set evs. job_of ev = Some j}"
proof (induction a evs arbitrary: js n a' rule: visit_indexable.induct)
  case (2 a ev evs)
  show ?case
  proof (cases ev)
    case (Ev_error p)
    then show ?thesis using 2 by (auto simp: job_of_def split: prod.splits)
  next
    case (Ev_dir p)
    then show ?thesis using 2 by (auto simp: job_of_def Let_def split: prod.splits if_splits)
  next
    case (Ev_file p l sz t)
    then show ?thesis using 2 by (auto simp: Let_def split: prod.splits if_splits option.splits)
  qed
qed simp

section \<open>One file brought up to date\<close>

text \<open>The index has a record of the file with the hash of its present contents.\<close>

definition file_current :: "index_env \<Rightarrow> string \<Rightarrow> gdb \<Rightarrow> string \<Rightarrow> bool" where
  "file_current ix wd db path \<longleftrightarrow>
     (case ix_read ix path of
        None \<Rightarrow> False
      | Some data \<Rightarrow>
          list_ex (\<lambda>f. f_path f = storage_path wd path \<and> f_hash f = ix_hash ix data) (g_files db))"

definition good_outcome :: "gate_outcome \<Rightarrow> bool" where
  "good_outcome out \<longleftrightarrow> (case out of Skipped \<Rightarrow> True | Done (Indexed n) \<Rightarrow> True | _ \<Rightarrow> False)"

text \<open>Every file record but the one of \<open>key\<close> stays, and no other record appears.\<close>

definition files_frame :: "string set \<Rightarrow> gdb \<Rightarrow> gdb \<Rightarrow> bool" where
  "files_frame keys db db' \<longleftrightarrow>
     (\<forall>f. f_path f \<notin> keys \<longrightarrow> (f \<in> set (g_files db') \<longleftrightarrow> f \<in> set (g_files db)))
     \<and> f_path ` set (g_files db') \<subseteq> keys \<union> f_path ` set (g_files db)"

lemma files_frame_refl [simp]: "g_files db' = g_files db \<Longrightarrow> files_frame ks db db'"
  by (auto simp: files_frame_def)

lemma files_frame_trans:
  "files_frame ks db db1 \<Longrightarrow> files_frame js db1 db2 \<Longrightarrow> files_frame (ks \<union> js) db db2"
  unfolding files_frame_def by blast

lemma file_current_frame:
  "files_frame ks db db' \<Longrightarrow> storage_path wd path \<notin> ks \<Longrightarrow> file_current ix wd db path \<Longrightarrow> file_current ix wd db' path"
  by (auto simp: files_frame_def file_current_def list_ex_iff split: option.splits)

lemma has_hash_record:
  "file_has_content_hash key h db \<Longrightarrow> list_ex (\<lambda>f. f_path f = key \<and> f_hash f = h) (g_files db)"
  by (auto simp: file_has_content_hash_def row_with_key_def list_ex_iff split: option.splits dest!: find_SomeD)

lemma list_ex_map: "list_ex P xs \<Longrightarrow> (\<And>x. P x \<Longrightarrow> P (g x)) \<Longrightarrow> list_ex P (map g xs)"
  by (induction xs) auto

lemma touch_record:
  assumes "list_ex (\<lambda>f. f_path f = key \<and> f_hash f = h) (g_files db)"
  shows "list_ex (\<lambda>f. f_path f = key \<and> f_hash f = h) (g_files (touch_file_meta key sz t h now db))
     \<and> files_frame {key} db (touch_file_meta key sz t h now db)"
proof
  show "list_ex (\<lambda>f. f_path f = key \<and> f_hash f = h) (g_files (touch_file_meta key sz t h now db))"
    unfolding touch_file_meta_def using assms by (auto intro!: list_ex_map)
  show "files_frame {key} db (touch_file_meta key sz t h now db)"
    by (auto simp: touch_file_meta_def files_frame_def)
qed

lemma upsert_record:
  assumes "g_files db' = upsert_by f_path file_upd fr (g_files db)"
  shows "list_ex (\<lambda>f. f_path f = f_path fr \<and> f_hash f = f_hash fr) (g_files db') \<and> files_frame {f_path fr} db db'"
proof
  show "list_ex (\<lambda>f. f_path f = f_path fr \<and> f_hash f = f_hash fr) (g_files db')"
    unfolding assms by (auto simp: upsert_by_def list_ex_iff file_upd_def)
  show "files_frame {f_path fr} db db'"
    unfolding files_frame_def assms
    by (auto simp: files_t.keys_upsert elim: files_t.upsert_cases intro: files_t.upsert_other simp: file_upd_def)
qed

text \<open>\<^verbatim>\<open>indexFile\<close>: on success the file is current, otherwise no file record has changed.\<close>

lemma index_path_spec:
  assumes "db_ok db" "index_path ix wd force path lang data0 db = (db', out)"
    and "data0 = None \<or> data0 = ix_read ix path"
  shows "db_ok db' \<and> files_frame {storage_path wd path} db db'
    \<and> (good_outcome (Done out) \<longrightarrow> file_current ix wd db' path)"
proof (cases "ix_read ix path")
  case None
  then have "db' = db" "out = File_error Read_failed" using assms(2,3) by (auto simp: index_path_def)
  then show ?thesis using assms(1) by (simp add: good_outcome_def)
next
  case (Some data)
  let ?key = "storage_path wd path" and ?h = "ix_hash ix data"
  obtain ex ts err routes bridges where e: "ix_extract ix lang data ?key = (ex, ts, err, routes, bridges)"
    by (cases "ix_extract ix lang data ?key") auto
  obtain db1 res where f: "index_file force ?key lang ?h (stat_meta ix path) (ix_now ix) ex ts err routes bridges db
      = (db1, res)" by fastforce
  have r: "index_path ix wd force path lang data0 db = (db1, case res of Inr n \<Rightarrow> Indexed n
      | Inl Keep_old_index \<Rightarrow> Kept_old | Inl (Write_failed e) \<Rightarrow> File_error (Index_failed e))"
    using assms(3) Some e f by (auto simp: index_path_def Let_def split: sum.split index_error.split)
  have cur: "file_current ix wd d path \<longleftrightarrow> list_ex (\<lambda>f. f_path f = ?key \<and> f_hash f = ?h) (g_files d)" for d
    by (simp add: file_current_def Some)
  from assms(1) f show ?thesis
  proof (cases rule: index_file_cases)
    case 1
    then show ?thesis
      using r assms(2) has_hash_record [OF 1(2)] touch_record [of ?key ?h db] by (auto simp: cur)
  next
    case 2
    then show ?thesis using r assms(1,2) by (simp add: good_outcome_def)
  next
    case 3
    then show ?thesis using r assms(2) by (simp add: good_outcome_def refs_grow_def)
  next
    case 4
    then show ?thesis using r assms(2) upsert_record [OF 4(1)] by (auto simp: cur)
  qed
qed

lemma gate_spec:
  assumes "db_ok db" "index_if_needed ix wd force j db = (db', out)" "\<not> ix_link ix (j_path j)"
  shows "db_ok db' \<and> files_frame {storage_path wd (j_path j)} db db'
    \<and> (good_outcome out \<longrightarrow> file_current ix wd db' (j_path j))"
proof -
  let ?path = "j_path j" and ?key = "storage_path wd (j_path j)"
  consider r data0 where "index_path ix wd force ?path (j_lang j) data0 db = (db', r)" "out = Done r"
      "data0 = None \<or> data0 = ix_read ix ?path"
    | "db' = db" "out = Done (File_error Read_failed)"
    | data where "db' = db" "out = Skipped" "ix_read ix ?path = Some data" "file_has_content_hash ?key (ix_hash ix data) db"
    using assms(2,3) by (auto simp: index_if_needed_def Let_def split: if_splits option.splits prod.splits)
  then show ?thesis
  proof cases
    case 1
    then show ?thesis using index_path_spec [OF assms(1)] by blast
  next
    case 2
    then show ?thesis using assms(1) by (simp add: good_outcome_def)
  next
    case 3
    then show ?thesis using assms(1) has_hash_record [OF 3(4)] by (simp add: file_current_def)
  qed
qed

section \<open>A pass over the jobs\<close>

definition run_job :: "index_env \<Rightarrow> string \<Rightarrow> bool \<Rightarrow> pass_state \<Rightarrow> index_job \<Rightarrow> pass_state" where
  "run_job ix wd force s j = count_outcome (j_path j) (index_if_needed ix wd force j (ps_db s)) s"

lemma poll_closed: "fst (poll a) \<Longrightarrow> snd (poll a) = Some 0"
  by (auto simp: poll_def split: option.splits nat.splits)

lemma poll_Some_0 [simp]: "poll (Some 0) = (True, Some 0)"
  by (simp add: poll_def)

lemma run_index_jobs_complete:
  "run_index_jobs ix wd force a js s = (s', a') \<Longrightarrow> \<not> fst (poll a') \<Longrightarrow> s' = foldl (run_job ix wd force) s js"
proof (induction js arbitrary: a s)
  case (Cons j js)
  have "\<not> fst (poll a)"
  proof
    assume "fst (poll a)"
    then have "a' = Some 0" using Cons.prems(1) poll_closed by (auto simp: split_def Let_def)
    then show False using Cons.prems(2) by simp
  qed
  then show ?case using Cons.IH [of "snd (poll a)" "run_job ix wd force s j"] Cons.prems
    by (simp add: split_def Let_def run_job_def)
qed simp

text \<open>A pass without errors and kept indexes so far.\<close>

definition clean_pass :: "pass_state \<Rightarrow> bool" where
  "clean_pass s \<longleftrightarrow> ps_errs s = [] \<and> ps_partial s = 0"

lemma run_job_clean:
  assumes "clean_pass (run_job ix wd force s j)"
  shows "clean_pass s \<and> good_outcome (snd (index_if_needed ix wd force j (ps_db s)))"
  using assms
  by (cases "index_if_needed ix wd force j (ps_db s)")
    (auto simp: run_job_def count_outcome_def clean_pass_def good_outcome_def
      split: gate_outcome.splits file_outcome.splits)

lemma run_job_db: "ps_db (run_job ix wd force s j) = fst (index_if_needed ix wd force j (ps_db s))"
  by (cases "index_if_needed ix wd force j (ps_db s)")
    (auto simp: run_job_def count_outcome_def split: gate_outcome.splits file_outcome.splits)

lemma foldl_clean: "clean_pass (foldl (run_job ix wd force) s js) \<Longrightarrow> clean_pass s"
  by (induction js arbitrary: s) (auto dest: run_job_clean)

lemma foldl_files:
  assumes "db_ok (ps_db s)" "list_all (\<lambda>j. \<not> ix_link ix (j_path j)) js"
  shows "db_ok (ps_db (foldl (run_job ix wd force) s js))
    \<and> files_frame ((storage_path wd \<circ> j_path) ` set js) (ps_db s) (ps_db (foldl (run_job ix wd force) s js))"
  using assms
proof (induction js arbitrary: s)
  case (Cons j js)
  let ?s = "run_job ix wd force s j"
  have g: "db_ok (ps_db ?s) \<and> files_frame {storage_path wd (j_path j)} (ps_db s) (ps_db ?s)"
    using gate_spec [OF Cons.prems(1) prod.collapse [symmetric]] Cons.prems(2) by (simp add: run_job_db)
  have ih: "db_ok (ps_db (foldl (run_job ix wd force) ?s js)) \<and> files_frame ((storage_path wd \<circ> j_path) ` set js)
      (ps_db ?s) (ps_db (foldl (run_job ix wd force) ?s js))"
    using Cons.IH [of ?s] g Cons.prems(2) by simp
  show ?case using files_frame_trans [OF conjunct2 [OF g] conjunct2 [OF ih]] ih by simp
qed simp

text \<open>When nothing failed, every file of the job list is current afterwards.\<close>

lemma foldl_current:
  assumes "db_ok (ps_db s)" "list_all (\<lambda>j. \<not> ix_link ix (j_path j)) js"
    and "distinct (map (storage_path wd \<circ> j_path) js)" "clean_pass (foldl (run_job ix wd force) s js)"
  shows "list_all (\<lambda>j. file_current ix wd (ps_db (foldl (run_job ix wd force) s js)) (j_path j)) js"
  using assms
proof (induction js arbitrary: s)
  case (Cons j js)
  let ?s = "run_job ix wd force s j"
  have "clean_pass ?s" using Cons.prems(4) foldl_clean by simp
  then have g: "db_ok (ps_db ?s)" "file_current ix wd (ps_db ?s) (j_path j)"
    using gate_spec [OF Cons.prems(1) prod.collapse [symmetric]] Cons.prems(2) run_job_clean
    by (auto simp: run_job_db)
  have "files_frame ((storage_path wd \<circ> j_path) ` set js) (ps_db ?s) (ps_db (foldl (run_job ix wd force) ?s js))"
    using foldl_files [OF g(1)] Cons.prems(2) by simp
  then have "file_current ix wd (ps_db (foldl (run_job ix wd force) ?s js)) (j_path j)"
    using file_current_frame g(2) Cons.prems(3) by fastforce
  then show ?case using Cons.IH [OF g(1)] Cons.prems(2-4) by simp
qed simp

lemma current_key: "file_current ix wd db path \<Longrightarrow> storage_path wd path \<in> f_path ` set (g_files db)"
  by (auto simp: file_current_def list_ex_iff split: option.splits intro: rev_image_eqI)

section \<open>Resolution and synthesis leave the file records alone\<close>

interpretation keeps_files: resolution_effects "resolve_one rip wd" apply_plan "mark_ref_failed m" p_ref UNIV
    "\<lambda>db. g_files db = fs" "\<lambda>r db. True" for rip wd m fs
proof unfold_locales
  show "resolve_one rip wd s r = Some p \<Longrightarrow> p_ref p = r" for s r p
    using resolve_one_ref by blast
  show "g_files s = fs \<Longrightarrow> p_ref p \<in> UNIV \<Longrightarrow> apply_plan p s = Inr t \<Longrightarrow> g_files t = fs" for s p t
    using apply_plan_fields by simp
  show "g_files s = fs \<Longrightarrow> r \<in> UNIV \<Longrightarrow> g_files (fst (mark_ref_failed m r s)) = fs" for s r
    using mark_fields by simp
qed simp_all

lemma run_pass_files: "g_files (fst (run_pass rip wd m bs rs db st)) = g_files db"
proof -
  obtain db' st' where "run_pass rip wd m bs rs db st = (db', st')" by fastforce
  then show ?thesis
    using keeps_files.loop_inv [of db "g_files db" rs rip wd m bs st db' st'] by (simp add: run_pass_def)
qed

lemma resolve_all_files: "g_files (fst (resolve_all rip wd m bs db)) = g_files db"
  by (simp add: resolve_all_def split_def Let_def run_pass_files)

lemma scrub_list_files: "g_files (fst (scrub_list rs db)) = g_files db"
proof -
  have "g_files (foldl (\<lambda>d r. delete_uref (u_id r) d) d xs) = g_files d" for d and xs :: "uref list"
    by (induction xs arbitrary: d) (simp_all add: delete_uref_def)
  then show ?thesis by (simp add: scrub_list_def Let_def)
qed

lemma run_synthesis_files:
  assumes "\<And>db. g_files (fst (ix_synth ix db)) = g_files db"
  shows "g_files (ps_db (run_synthesis ix files s)) = g_files (ps_db s)"
  using assms by (simp add: run_synthesis_def scrub_noisy_failed_refs_for_files_def split_def Let_def scrub_list_files)

lemma run_synthesis_errs: "ps_errs (run_synthesis ix files s) = [] \<Longrightarrow> ps_errs s = []"
  by (auto simp: run_synthesis_def split_def Let_def split: if_splits)

lemma finish_all_clean:
  assumes "finish_all ix wd a s = (s', a')" "ps_errs s' = []"
    and "\<And>db. g_files (fst (ix_synth ix db)) = g_files db"
  shows "\<not> fst (poll a) \<and> ps_errs s = [] \<and> g_files (ps_db s') = g_files (ps_db s) \<and> ps_partial s' = ps_partial s"
proof -
  let ?s = "s\<lparr>ps_db := fst (resolve_all (ix_rip ix) wd (ix_attempts ix) (ix_batch ix) (ps_db s))\<rparr>"
  have c: "\<not> fst (poll a)" "s' = run_synthesis ix None ?s"
    using assms(1,2) by (auto simp: finish_all_def split_def Let_def interrupt_def split: if_splits)
  have "ps_errs s = []" using run_synthesis_errs [of ix None ?s] c(2) assms(2) by simp
  moreover have "ps_partial s' = ps_partial s"
    unfolding c(2) by (simp add: run_synthesis_def split_def Let_def)
  ultimately show ?thesis
    using c run_synthesis_files [OF assms(3), where files = None and s = ?s] by (simp add: resolve_all_files)
qed

section \<open>Clearing files\<close>

lemma clear_file_ok: "db_ok db \<Longrightarrow> db_ok (clear_file f db)"
proof -
  assume "db_ok db"
  then have "db_ok (delete_nodes_of_file f (delete_refs_of_file f db))" (is "db_ok ?d")
    by (intro delete_nodes_of_file_ok delete_refs_of_file_ok)
  then show ?thesis by (simp add: clear_file_def Let_def db_ok_def ok_defs distinct_map_filter)
qed

lemma clear_file_rows:
  "g_files (clear_file f db) = filter (\<lambda>r. f_path r \<noteq> f) (g_files db)"
  "g_nodes (clear_file f db) = filter (\<lambda>n. n_file n \<noteq> f) (g_nodes db)"
  by (simp_all add: clear_file_def delete_nodes_of_file_def delete_refs_of_file_def Let_def)

lemma clear_files_rows:
  "g_files (foldl (\<lambda>d f. clear_file f d) db fs) = filter (\<lambda>r. f_path r \<notin> set fs) (g_files db)
   \<and> g_nodes (foldl (\<lambda>d f. clear_file f d) db fs) = filter (\<lambda>n. n_file n \<notin> set fs) (g_nodes db)
   \<and> (db_ok db \<longrightarrow> db_ok (foldl (\<lambda>d f. clear_file f d) db fs))"
proof (induction fs arbitrary: db)
  case (Cons f fs)
  then show ?case
    using clear_file_ok [of db f] by (auto simp: clear_file_rows intro: filter_cong)
qed simp

lemma list_files_all: "length (g_files db) \<le> list_files_cap \<Longrightarrow> set (list_files db) = f_path ` set (g_files db)"
  by (simp add: list_files_def)

lemma prune_rows:
  assumes "length (g_files db) \<le> list_files_cap"
  shows "g_files (prune_missing_files wd jobs db) =
    filter (\<lambda>r. f_path r \<in> set (map (storage_path wd \<circ> j_path) jobs)) (g_files db)"
  using list_files_all [OF assms] by (auto simp: prune_missing_files_def clear_files_rows intro: filter_cong)

text \<open>
  Pruning after a complete walk removes the rows of exactly those files that
  have a file record but were not found by the walk: the records that stay are those of the jobs,
  symbols of found files and shared module nodes stay as they are, and no edge or reference is
  left without its node.
\<close>

theorem prune_exact:
  assumes "db_ok db" "length (g_files db) \<le> list_files_cap"
    and "keys = set (map (storage_path wd \<circ> j_path) jobs)"
  shows "db_ok (prune_missing_files wd jobs db)
    \<and> g_files (prune_missing_files wd jobs db) = filter (\<lambda>r. f_path r \<in> keys) (g_files db)
    \<and> g_nodes (prune_missing_files wd jobs db)
        = filter (\<lambda>n. n_file n \<in> keys \<or> n_file n \<notin> f_path ` set (g_files db)) (g_nodes db)"
  using assms prune_rows [OF assms(2), of wd jobs] list_files_all [OF assms(2)]
  by (auto simp: prune_missing_files_def clear_files_rows intro: filter_cong)

text \<open>
  \<^verbatim>\<open>DeleteTree\<close> removes a directory's whole subtree and nothing beside
  it: the file records and symbols left are those whose key is neither the directory nor below
  it, so a directory whose name only starts with the deleted one keeps its files.
\<close>

theorem delete_tree_exact:
  assumes "db_ok db" "length (g_files db) \<le> list_files_cap" "key = storage_path wd path" "key \<noteq> []"
  shows "db_ok (delete_tree wd path db)
    \<and> g_files (delete_tree wd path db)
        = filter (\<lambda>r. \<not> path_key_under_root (f_path r) key) (g_files db)
    \<and> g_nodes (delete_tree wd path db)
        = filter (\<lambda>n. \<not> (path_key_under_root (n_file n) key \<and> n_file n \<in> f_path ` set (g_files db))) (g_nodes db)"
  using assms(1,4) list_files_all [OF assms(2)] unfolding delete_tree_def assms(3) [symmetric]
  by (auto simp: clear_files_rows path_key_under_root_def Let_def intro: filter_cong)

section \<open>A full pass\<close>

text \<open>The databases a full pass indexes into: pruned, if the walk was complete.\<close>

lemma index_all_clean:
  assumes "index_all env ix wd root force a db = (s, a')" "clean_pass s"
    and "\<And>db. g_files (fst (ix_synth ix db)) = g_files db"
    and "collect_index_jobs env wd root a = (jobs, walk_errs, intr, a1)"
  obtains db1 where "\<not> intr" "db1 = (if walk_errs = 0 then prune_missing_files wd jobs db else db)"
    and "clean_pass (foldl (run_job ix wd force) (start_pass db1) jobs)"
    and "g_files (ps_db s) = g_files (ps_db (foldl (run_job ix wd force) (start_pass db1) jobs))"
proof -
  let ?db1 = "if walk_errs = 0 then prune_missing_files wd jobs db else db"
  have errs: "ps_errs s = []" using assms(2) by (simp add: clean_pass_def)
  obtain s1 a3 where run: "run_index_jobs ix wd force (snd (poll a1)) jobs (start_pass ?db1) = (s1, a3)" by fastforce
  have c: "\<not> intr" "finish_all ix wd a3 s1 = (s, a')"
    using assms(1) errs run
    by (auto simp: index_all_def assms(4) Let_def split_def interrupt_def split: if_splits)
  note f = finish_all_clean [OF c(2) errs assms(3)]
  have s1: "s1 = foldl (run_job ix wd force) (start_pass ?db1) jobs"
    using run_index_jobs_complete [OF run] f by blast
  then have "clean_pass (foldl (run_job ix wd force) (start_pass ?db1) jobs)"
    using f assms(2) by (simp add: clean_pass_def)
  then show ?thesis using that [OF c(1) refl] f s1 by blast
qed

lemma index_all_current_aux:
  assumes "db_ok db" "index_all env ix wd root force a db = (s, a')" "ps_errs s = []" "ps_partial s = 0"
    and "\<And>db. g_files (fst (ix_synth ix db)) = g_files db"
    and "collect_index_jobs env wd root a = (jobs, walk_errs, intr, a1)"
    and "list_all (\<lambda>j. \<not> ix_link ix (j_path j)) jobs" "distinct (map (storage_path wd \<circ> j_path) jobs)"
  shows "\<not> intr \<and> list_all (\<lambda>j. file_current ix wd (ps_db s) (j_path j)) jobs
    \<and> set (map (storage_path wd \<circ> j_path) jobs) \<subseteq> f_path ` set (g_files (ps_db s))
    \<and> f_path ` set (g_files (ps_db s))
        \<subseteq> set (map (storage_path wd \<circ> j_path) jobs)
          \<union> f_path ` set (g_files (if walk_errs = 0 then prune_missing_files wd jobs db else db))"
proof -
  have "clean_pass s" using assms(3,4) by (simp add: clean_pass_def)
  from index_all_clean [OF assms(2) this assms(5,6)] obtain db1 where
    d: "\<not> intr" "db1 = (if walk_errs = 0 then prune_missing_files wd jobs db else db)"
    and c: "clean_pass (foldl (run_job ix wd force) (start_pass db1) jobs)"
    and g: "g_files (ps_db s) = g_files (ps_db (foldl (run_job ix wd force) (start_pass db1) jobs))" by blast
  have ok: "db_ok (ps_db (start_pass db1))"
    using assms(1) clear_files_rows d(2) by (simp add: start_pass_def prune_missing_files_def Let_def)
  have cur: "list_all (\<lambda>j. file_current ix wd (ps_db s) (j_path j)) jobs"
    using foldl_current [OF ok assms(7,8) c] unfolding file_current_def g .
  then have "set (map (storage_path wd \<circ> j_path) jobs) \<subseteq> f_path ` set (g_files (ps_db s))"
    using current_key by (fastforce simp: list_all_iff)
  moreover have "f_path ` set (g_files (ps_db s)) \<subseteq> set (map (storage_path wd \<circ> j_path) jobs) \<union> f_path ` set (g_files db1)"
    using foldl_files [OF ok assms(7), of wd force] g by (simp add: files_frame_def start_pass_def)
  ultimately show ?thesis using d cur by simp
qed

text \<open>
  C12 (\<open>index_all_current\<close>).  A full pass that reports no error and no partial failure was not
  interrupted, and leaves for every file the walk found a record with the hash of its present
  contents, whatever the index held before and however the incremental gate decided; when the
  walk met no error these are the only file records.
\<close>

theorem index_all_current:
  assumes "db_ok db" "index_all env ix wd root force a db = (s, a')" "ps_errs s = []" "ps_partial s = 0"
    and "\<And>db. g_files (fst (ix_synth ix db)) = g_files db"
    and "collect_index_jobs env wd root a = (jobs, walk_errs, intr, a1)"
    and "list_all (\<lambda>j. \<not> ix_link ix (j_path j)) jobs" "distinct (map (storage_path wd \<circ> j_path) jobs)"
  shows "\<not> intr \<and> list_all (\<lambda>j. file_current ix wd (ps_db s) (j_path j)) jobs
    \<and> (walk_errs = 0 \<and> length (g_files db) \<le> list_files_cap \<longrightarrow>
        f_path ` set (g_files (ps_db s)) = set (map (storage_path wd \<circ> j_path) jobs))"
  using index_all_current_aux [OF assms] prune_rows [of db wd jobs] by (auto split: if_splits)



section \<open>A small tree\<close>

definition sample_tree :: fs where
  "sample_tree = Folder True [(''a.go'', Some (Reg 1 1)), (''node_modules'', Some (Folder True [(''b.go'', Some (Reg 1 1))]))]"

definition sample_env :: walk_env where
  "sample_env = \<lparr>we_cwd = None, we_home = None, we_exists = (\<lambda>_. False), we_exclude = [], we_home_all = False\<rparr>"

definition sample_ix :: index_env where
  "sample_ix = \<lparr>ix_link = (\<lambda>_. False), ix_read = (\<lambda>_. Some ''x''), ix_stat = (\<lambda>_. Stat_ok False 1 1),
     ix_hash = (\<lambda>_. ''h''), ix_extract = (\<lambda>_ _ _. (no_symbols, False, Extract_ok, [], [])), ix_now = 9,
     ix_rip = no_imports, ix_iter = (\<lambda>_. []), ix_attempts = 3, ix_batch = 1, ix_synth = (\<lambda>db. (db, True))\<rparr>"

definition empty_db :: gdb where
  "empty_db = \<lparr>g_nodes = [], g_next_node = 1, g_edges = [], g_refs = [], g_next_ref = 1, g_files = []\<rparr>"

definition sample_job :: index_job where
  "sample_job = \<lparr>j_path = ''/w/a.go'', j_size = 1, j_mtime = 1, j_lang = ''go''\<rparr>"

lemma empty_db_ok: "db_ok empty_db"
  by (simp add: db_ok_def ok_defs empty_db_def)

lemma detect_go: "detect_language ''/w/a.go'' = ''go''"
  by (simp add: detect_language_def language_table_def runes_of_ascii ascii_string_def lower_rune_def path_eval)

lemma sample_walk:
  "walk sample_env ''/w'' ''/w'' (filepath_base ''/w'') sample_tree
     = [Ev_dir ''/w'', Ev_file ''/w/a.go'' False 1 1, Ev_dir ''/w/node_modules'']"
proof -
  have root: "\<not> should_skip_dir_in sample_env ''/w'' ''/w'' name" for name
    by (rule root_not_skipped) simp_all
  have skip: "should_skip_dir_in sample_env ''/w'' ''/w/node_modules'' ''node_modules''"
    by (simp add: should_skip_dir_in_def skip_dir_names_def abs_clean_def filepath_abs_def path_eval Let_def)
  have join: "filepath_join [''/w'', ''a.go''] = ''/w/a.go''"
    "filepath_join [''/w'', ''node_modules''] = ''/w/node_modules''"
    by (simp_all add: path_eval)
  show ?thesis by (simp add: sample_tree_def root skip join)
qed

lemma sample_tree_jobs: "collect_index_jobs sample_env ''/w'' (Some sample_tree) None = ([sample_job], 0, False, None)"
  by (simp add: collect_index_jobs_def walk_root_def sample_walk poll_def job_of_def detect_go
      is_supported_language_def max_index_file_size_def sample_job_def Let_def)


text \<open>An empty file is always written: its batch is the file node alone.\<close>

lemma index_empty_file:
  assumes "db_ok db" "force \<or> \<not> file_has_content_hash store hash db" "get_file_node_count store db = 0"
  shows "\<exists>db'. index_file force store lang hash stat now no_symbols False Extract_ok [] [] db = (db', Inr 0)"
proof -
  obtain db1 where db1: "park_inbound_refs_for_file store db = Inr db1" "db_ok db1" "refs_grow db db1"
    using park_grow [OF assms(1)] by blast
  have imp: "imports_elsewhere db store no_symbols" by (simp add: imports_elsewhere_def no_symbols_def)
  have "g_nodes db1 = g_nodes db" using db1(3) by (simp add: refs_grow_def)
  from build_batch_total [OF assms(1) imp db1(2) this] have w: "\<exists>db2. write_batch store lang 0 stat hash now
      (build_batch db store lang no_symbols [] []) db = Inr db2"
    by (auto simp: write_batch_def db1(1) Let_def) (metis (no_types, lifting) bindE_Inr old.prod.case)
  have "\<not> keeps_old_index db store no_symbols False Extract_ok"
    using assms(3) by (simp add: keeps_old_index_def)
  moreover have "length (all_nodes no_symbols []) = 0" by (simp add: all_nodes_def no_symbols_def)
  ultimately show ?thesis using assms(2) w by (auto simp: index_file_def Let_def)
qed

lemma sample_pass:
  obtains s where "index_all sample_env sample_ix ''/w'' (Some sample_tree) force None empty_db = (s, None)"
    and "ps_errs s = []" "ps_partial s = 0"
proof -
  let ?key = "storage_path ''/w'' ''/w/a.go''"
  have "force' \<or> \<not> file_has_content_hash ?key ''h'' empty_db" "get_file_node_count ?key empty_db = 0" for force'
    by (simp_all add: file_has_content_hash_def get_file_node_count_def empty_db_def row_with_key_def)
  then obtain d where d: "index_file force ?key ''go'' ''h'' (Some (1, 1)) 9 no_symbols False Extract_ok [] [] empty_db = (d, Inr 0)"
    using index_empty_file [OF empty_db_ok] by blast
  have gate: "index_if_needed sample_ix ''/w'' force sample_job empty_db = (d, Done (Indexed 0))"
    using d by (simp add: index_if_needed_def sample_ix_def sample_job_def index_path_def stat_meta_def
        file_needs_reindex_def row_with_key_def empty_db_def)
  have prune: "prune_missing_files ''/w'' jobs empty_db = empty_db" for jobs
    by (simp add: prune_missing_files_def list_files_def empty_db_def)
  let ?s = "\<lparr>ps_db = d, ps_files = 1, ps_nodes = 0, ps_errs = [], ps_partial = 0, ps_failed = []\<rparr>"
  have run: "run_index_jobs sample_ix ''/w'' force None [sample_job] (start_pass empty_db) = (?s, None)"
    using gate by (simp add: poll_def start_pass_def count_outcome_def)
  have ok: "ix_synth sample_ix db' = (db', True)" for db' by (simp add: sample_ix_def)
  have synth: "ps_errs (run_synthesis sample_ix fs t) = ps_errs t" "ps_partial (run_synthesis sample_ix fs t) = ps_partial t" for fs t
    by (simp_all add: run_synthesis_def split_def Let_def ok)
  have "index_all sample_env sample_ix ''/w'' (Some sample_tree) force None empty_db
      = finish_all sample_ix ''/w'' None ?s"
    unfolding index_all_def sample_tree_jobs using run by (simp add: poll_def prune)
  then show thesis by (intro that [of "fst (finish_all sample_ix ''/w'' None ?s)"]) (simp_all add: finish_all_def poll_def synth Let_def)
qed


text \<open>A database with one file and its node, and another file beside.\<close>

definition two_file_db :: gdb where
  "two_file_db = empty_db\<lparr>g_files :=
     [\<lparr>f_path = ''a.go'', f_size = 1, f_mtime = 1, f_indexed_at = 0, f_hash = ''h'', f_language = ''go'', f_node_count = 0\<rparr>,
      \<lparr>f_path = ''d/b.go'', f_size = 1, f_mtime = 1, f_indexed_at = 0, f_hash = ''h'', f_language = ''go'', f_node_count = 0\<rparr>,
      \<lparr>f_path = ''dd.go'', f_size = 1, f_mtime = 1, f_indexed_at = 0, f_hash = ''h'', f_language = ''go'', f_node_count = 0\<rparr>]\<rparr>"

lemma two_file_db_ok: "db_ok two_file_db"
  by (simp add: db_ok_def ok_defs two_file_db_def empty_db_def)

lemma two_file_db_small: "length (g_files two_file_db) \<le> list_files_cap"
  by (simp add: two_file_db_def list_files_cap_def)

lemma sample_key: "storage_path ''/w'' ''/w/a.go'' = ''a.go''"
  by (simp add: storage_path_def path_eval str_eval)

theorem prune_exact_witness:
  "map f_path (g_files (prune_missing_files ''/w'' [sample_job] two_file_db)) = [''a.go'']"
  using prune_exact [OF two_file_db_ok two_file_db_small refl, of "''/w''" "[sample_job]"] sample_key
  by (simp add: sample_job_def two_file_db_def)

theorem delete_tree_exact_witness:
  "map f_path (g_files (delete_tree ''/w'' ''/w/d'' two_file_db)) = [''a.go'', ''dd.go'']"
proof -
  have "storage_path ''/w'' ''/w/d'' = ''d''" by (simp add: storage_path_def path_eval str_eval)
  then show ?thesis
    using delete_tree_exact [OF two_file_db_ok two_file_db_small, of "''d''" "''/w''" "''/w/d''"]
    by (simp add: two_file_db_def path_key_under_root_def has_prefix_def)
qed

lemma sample_jobs_ok:
  "list_all (\<lambda>j. \<not> ix_link sample_ix (j_path j)) [sample_job]" "distinct (map (storage_path ''/w'' \<circ> j_path) [sample_job])"
  "g_files (fst (ix_synth sample_ix db)) = g_files db"
  by (simp_all add: sample_ix_def)

theorem index_all_current_witness:
  "\<exists>s. index_all sample_env sample_ix ''/w'' (Some sample_tree) False None empty_db = (s, None)
     \<and> file_current sample_ix ''/w'' (ps_db s) ''/w/a.go'' \<and> f_path ` set (g_files (ps_db s)) = {''a.go''}"
proof -
  obtain s where s: "index_all sample_env sample_ix ''/w'' (Some sample_tree) False None empty_db = (s, None)"
    "ps_errs s = []" "ps_partial s = 0" by (rule sample_pass)
  have "length (g_files empty_db) \<le> list_files_cap" by (simp add: empty_db_def)
  then show ?thesis
    using index_all_current [OF empty_db_ok s sample_jobs_ok(3) sample_tree_jobs sample_jobs_ok(1,2)] s(1) sample_key
    by (auto simp: sample_job_def)
qed


end
