(* ===== verification/Affected.thy ===== *)
theory Affected
  imports Call_Graph Orchestrator
begin

text \<open>
  Test files affected by changes (\<^verbatim>\<open>tools/affected.go\<close>): admission of the input paths, the package a
  file belongs to, the recognition of test files, and the bounded closure under "imports" with the
  test files beside every file it reaches.  The file system is asked through \<open>affected_env\<close>.
\<close>

section \<open>Environment\<close>

text \<open>
  Symbolic link resolution, the contents of a \<^verbatim>\<open>go.mod\<close>, the name in a \<^verbatim>\<open>package.json\<close> that decodes,
  and whether the two queries fail for a package or directory.
\<close>

record affected_env =
  ae_real :: "string \<Rightarrow> string option"
  ae_go_mod :: "string \<Rightarrow> string option"
  ae_npm_name :: "string \<Rightarrow> string option"
  ae_importers_fail :: "string \<Rightarrow> bool"
  ae_listing_fails :: "string \<Rightarrow> bool"

section \<open>Input paths\<close>

function resolve_real_ancestor :: "(string \<Rightarrow> string option) \<Rightarrow> string \<Rightarrow> string \<Rightarrow> string option" where
  "resolve_real_ancestor real tail cur =
     (case real cur of
        Some resolved \<Rightarrow> Some (if tail = [] then resolved else filepath_join [resolved, tail])
      | None \<Rightarrow>
          (let parent = filepath_dir cur in
           if parent = cur then None
           else resolve_real_ancestor real (filepath_join [filepath_base cur, tail]) parent))"
  by pat_completeness auto
termination
  by (relation "measure (\<lambda>(_, _, cur). path_weight cur)") (auto intro: filepath_dir_smaller)

declare resolve_real_ancestor.simps [simp del]

datatype skip_reason = Lexical_jail | No_ancestor | Link_escape

text \<open>One input: the path to start from, or why it is skipped.\<close>

definition admit_input :: "affected_env \<Rightarrow> string \<Rightarrow> string \<Rightarrow> skip_reason + string" where
  "admit_input ae workdir raw =
     (let wd = clean workdir;
          real_wd = (case ae_real ae wd of None \<Rightarrow> wd | Some r \<Rightarrow> if r = [] then wd else r);
          f = clean (if is_abs raw then raw else filepath_join [wd, raw])
      in if f \<noteq> wd \<and> \<not> has_prefix f (wd @ ''/'') then Inl Lexical_jail
         else case (case ae_real ae f of Some r \<Rightarrow> Some r | None \<Rightarrow> resolve_real_ancestor (ae_real ae) [] f) of
                None \<Rightarrow> Inl No_ancestor
              | Some real_f \<Rightarrow> if path_within_root real_wd real_f = None then Inl Link_escape else Inr f)"

section \<open>Packages\<close>

definition module_line :: "string \<Rightarrow> string option" where
  "module_line line =
     (let l = trim_space line in
      if has_prefix l ''module '' then Some (trim_space (trim_prefix l ''module'')) else None)"

fun first_module :: "string list \<Rightarrow> string option" where
  "first_module [] = None"
| "first_module (l # ls) = (case module_line l of None \<Rightarrow> first_module ls | Some m \<Rightarrow> Some m)"

text \<open>The walks look at no more than 24 directories; they may leave the workdir on purpose.\<close>

fun find_go_module :: "(string \<Rightarrow> string option) \<Rightarrow> nat \<Rightarrow> string \<Rightarrow> (string \<times> string) option" where
  "find_go_module go_mod 0 cur = None"
| "find_go_module go_mod (Suc n) cur =
     (case (case go_mod cur of None \<Rightarrow> None | Some content \<Rightarrow> first_module (split_on newline content)) of
        Some m \<Rightarrow> Some (cur, m)
      | None \<Rightarrow> (let parent = filepath_dir cur in if parent = cur then None else find_go_module go_mod n parent))"

fun find_npm_package :: "(string \<Rightarrow> string option) \<Rightarrow> nat \<Rightarrow> string \<Rightarrow> (string \<times> string) option" where
  "find_npm_package npm_name 0 cur = None"
| "find_npm_package npm_name (Suc n) cur =
     (case npm_name cur of
        Some (c # name) \<Rightarrow> Some (cur, c # name)
      | _ \<Rightarrow> (let parent = filepath_dir cur in if parent = cur then None else find_npm_package npm_name n parent))"

definition below_package :: "string \<Rightarrow> string \<Rightarrow> string \<Rightarrow> string" where
  "below_package root name dir =
     (case filepath_rel root dir of
        None \<Rightarrow> name
      | Some rel \<Rightarrow> if rel = ''.'' \<or> rel = [] then name else name @ ''/'' @ rel)"

definition dir_package :: "affected_env \<Rightarrow> string \<Rightarrow> string" where
  "dir_package ae dir =
     (case find_go_module (ae_go_mod ae) 24 dir of
        Some (root, m) \<Rightarrow> below_package root m dir
      | None \<Rightarrow>
          (case find_npm_package (ae_npm_name ae) 24 dir of
             Some (root, name) \<Rightarrow> below_package root name dir
           | None \<Rightarrow> filepath_base dir))"

definition file_to_package :: "affected_env \<Rightarrow> string \<Rightarrow> string" where
  "file_to_package ae file = dir_package ae (filepath_dir file)"

section \<open>Test files\<close>

definition test_patterns :: "string list" where
  "test_patterns =
     [''*_test.go'', ''*.test.ts'', ''*.test.tsx'', ''*.spec.ts'', ''*.spec.tsx'',
      ''*.test.js'', ''*.test.jsx'', ''*.spec.js'', ''*.spec.jsx'', ''test_*.py'', ''*_test.py'',
      ''tests/*.rs'', ''src/*test*.rs'', ''*Test.java'', ''*Tests.java'', ''*Test.cs'', ''*Tests.cs'']"

definition is_test_file :: "string \<Rightarrow> string \<Rightarrow> string \<Rightarrow> bool" where
  "is_test_file workdir custom file =
     (let base = filepath_base file; rel = (case filepath_rel workdir file of None \<Rightarrow> [] | Some r \<Rightarrow> r) in
      if custom \<noteq> [] then go_match custom base = Some True \<or> go_match custom rel = Some True
      else list_ex (\<lambda>seg. seg = ''tests'' \<or> seg = ''test'' \<or> seg = ''__tests__'') (split_on slash rel)
        \<or> list_ex (\<lambda>p. go_match p base = Some True) test_patterns)"

section \<open>Queries\<close>

text \<open>\<^verbatim>\<open>LIKE\<close> folds the case of ASCII letters.\<close>

definition ascii_fold :: "string \<Rightarrow> string" where
  "ascii_fold = map (\<lambda>c. if CHR ''A'' \<le> c \<and> c \<le> CHR ''Z'' then char_of (of_char c + 32 :: nat) else c)"

definition find_importers :: "string \<Rightarrow> gdb \<Rightarrow> string list" where
  "find_importers pkg db =
     remdups [e_file e. e \<leftarrow> g_edges db, e_kind e = ''imports'',
                n \<leftarrow> g_nodes db, n_id n = e_target e
                  \<and> (n_name n = pkg \<or> has_prefix (ascii_fold (n_name n)) (ascii_fold pkg @ ''/''))]"

definition list_files_in_dir :: "string \<Rightarrow> gdb \<Rightarrow> string list" where
  "list_files_in_dir dir0 db =
     (let dir = clean (trim_space dir0); paths = sort (map f_path (g_files db)) in
      if dir = ''.'' then filter (\<lambda>p. slash \<notin> set p) (take list_files_cap paths)
      else filter (\<lambda>p. filepath_dir p = dir)
             (take list_files_cap (filter (\<lambda>p. has_prefix (ascii_fold p) (ascii_fold dir @ ''/'')
                \<and> slash \<notin> set (drop (Suc (length dir)) p)) paths)))"

section \<open>The closure\<close>

text \<open>\<^const>\<open>None\<close> for a failed query; an empty package name asks nothing.\<close>

definition importers_of :: "affected_env \<Rightarrow> gdb \<Rightarrow> string \<Rightarrow> string \<Rightarrow> string list option" where
  "importers_of ae db workdir file =
     (let pkg = file_to_package ae file in
      if pkg = [] then Some []
      else if ae_importers_fail ae pkg then None
      else Some (map (\<lambda>i. if is_abs i then i else abs_path workdir i) (find_importers pkg db)))"

definition sibling_tests :: "affected_env \<Rightarrow> gdb \<Rightarrow> string \<Rightarrow> string \<Rightarrow> string \<Rightarrow> string list" where
  "sibling_tests ae db workdir custom file =
     (let dir = storage_path workdir (filepath_dir file) in
      if is_test_file workdir custom file \<or> ae_listing_fails ae dir then []
      else filter (\<lambda>t. t \<noteq> file \<and> is_test_file workdir custom t)
             (map (abs_path workdir) (list_files_in_dir dir db)))"

text \<open>One file of a level: the affected set, the next level and the failed queries so far.\<close>

definition visit_file ::
    "(string \<Rightarrow> string list option) \<Rightarrow> (string \<Rightarrow> string list) \<Rightarrow> string
      \<Rightarrow> string set \<times> string list \<times> nat \<Rightarrow> string set \<times> string list \<times> nat" where
  "visit_file imps sibs file s =
     (let (aff, nxt, fails) = s in
      if file \<in> aff then s
      else
        (let aff' = insert file aff \<union> set (sibs file) in
         case imps file of
           None \<Rightarrow> (aff', nxt, fails + 1)
         | Some is \<Rightarrow> (aff', nxt @ filter (\<lambda>i. i \<notin> aff') is, fails)))"

primrec affected_levels ::
    "(string \<Rightarrow> string list option) \<Rightarrow> (string \<Rightarrow> string list) \<Rightarrow> nat \<Rightarrow> string list
      \<Rightarrow> string set \<times> nat \<Rightarrow> string set \<times> nat" where
  "affected_levels imps sibs 0 queue s = s"
| "affected_levels imps sibs (Suc n) queue s =
     (if queue = [] then s
      else
        (let (aff, fails) = s; (aff', nxt, fails') = fold (visit_file imps sibs) queue (aff, [], fails)
         in affected_levels imps sibs n nxt (aff', fails')))"

definition clamped_depth :: "int \<Rightarrow> nat" where
  "clamped_depth d = (if d < 1 \<or> 10 < d then 5 else nat d)"

text \<open>The outcome: the skipped inputs, and the affected test files with the number of failed queries.\<close>

datatype affected_result =
    No_files
  | All_discarded "(string \<times> skip_reason) list"
  | Affected_tests "string list" nat "(string \<times> skip_reason) list"

definition skipped_inputs :: "affected_env \<Rightarrow> string \<Rightarrow> string list \<Rightarrow> (string \<times> skip_reason) list" where
  "skipped_inputs ae workdir files =
     concat (map (\<lambda>f. case admit_input ae workdir f of Inl r \<Rightarrow> [(f, r)] | Inr p \<Rightarrow> []) files)"

definition admitted_inputs :: "affected_env \<Rightarrow> string \<Rightarrow> string list \<Rightarrow> string list" where
  "admitted_inputs ae workdir files =
     concat (map (\<lambda>f. case admit_input ae workdir f of Inl r \<Rightarrow> [] | Inr p \<Rightarrow> [p]) files)"

definition tool_affected :: "affected_env \<Rightarrow> gdb \<Rightarrow> string \<Rightarrow> string list \<Rightarrow> int \<Rightarrow> string \<Rightarrow> affected_result" where
  "tool_affected ae db workdir files depth custom =
     (let skipped = skipped_inputs ae workdir files; inputs = admitted_inputs ae workdir files in
      if files = [] then No_files
      else if inputs = [] \<and> skipped \<noteq> [] then All_discarded skipped
      else
        (let (aff, fails) = affected_levels (importers_of ae db workdir) (sibling_tests ae db workdir custom)
                              (clamped_depth depth) inputs ({}, 0);
             names = (\<lambda>f. case filepath_rel workdir f of None \<Rightarrow> f | Some r \<Rightarrow> if r = [] then f else r)
         in Affected_tests (sorted_list_of_set (names ` {f \<in> aff. is_test_file workdir custom f})) fails skipped))"

section \<open>The closure is complete\<close>

text \<open>What one file leads to; a failed query leads nowhere.\<close>

definition leads_to :: "(string \<Rightarrow> string list option) \<Rightarrow> string \<Rightarrow> string set" where
  "leads_to imps f = (case imps f of None \<Rightarrow> {} | Some is \<Rightarrow> set is)"

text \<open>
  A test file marked beside another file is never expanded itself.  Nothing is lost, because it
  belongs to the same package: whatever imports it imports the file beside it.
\<close>

definition sibs_same_package :: "(string \<Rightarrow> string list option) \<Rightarrow> (string \<Rightarrow> string list) \<Rightarrow> string set \<Rightarrow> bool" where
  "sibs_same_package imps sibs F \<longleftrightarrow>
     (\<forall>f\<in>F. \<forall>t\<in>set (sibs f). leads_to imps t = leads_to imps f \<and> sibs t = [])"

lemma same_packageD:
  "sibs_same_package imps sibs F \<Longrightarrow> f \<in> F \<Longrightarrow> t \<in> set (sibs f) \<Longrightarrow> leads_to imps t = leads_to imps f"
  "sibs_same_package imps sibs F \<Longrightarrow> f \<in> F \<Longrightarrow> t \<in> set (sibs f) \<Longrightarrow> sibs t = []"
  unfolding sibs_same_package_def by blast+

lemma same_package_mono: "sibs_same_package imps sibs F \<Longrightarrow> G \<subseteq> F \<Longrightarrow> sibs_same_package imps sibs G"
  unfolding sibs_same_package_def by blast

lemma fold_visit_file:
  assumes "fold (visit_file imps sibs) queue (aff, nxt, fails) = (aff', nxt', fails')"
    and "sibs_same_package imps sibs (set queue)"
    and "\<forall>f\<in>aff. leads_to imps f \<subseteq> aff \<union> set queue \<union> set nxt"
  shows "aff \<subseteq> aff' \<and> set queue \<subseteq> aff' \<and> aff' \<subseteq> aff \<union> set queue \<union> (\<Union>f\<in>set queue. set (sibs f))
    \<and> (\<forall>f\<in>aff'. leads_to imps f \<subseteq> aff' \<union> set nxt') \<and> set nxt \<subseteq> set nxt'
    \<and> set nxt' \<subseteq> set nxt \<union> (\<Union>f\<in>set queue. leads_to imps f)
    \<and> (\<forall>f\<in>set queue. f \<in> aff \<or> set (sibs f) \<subseteq> aff' \<or> (\<exists>g\<in>set queue. f \<in> set (sibs g)))"
  using assms
proof (induction queue arbitrary: aff nxt fails)
  case (Cons f queue)
  obtain aff1 nxt1 fails1 where s: "visit_file imps sibs f (aff, nxt, fails) = (aff1, nxt1, fails1)"
    using prod_cases3 by blast
  have step: "aff \<subseteq> aff1" "f \<in> aff1" "aff1 \<subseteq> insert f aff \<union> set (sibs f)" "set nxt \<subseteq> set nxt1"
      "set nxt1 \<subseteq> set nxt \<union> leads_to imps f" "f \<in> aff \<or> set (sibs f) \<subseteq> aff1"
    using s by (auto simp: visit_file_def leads_to_def Let_def split: if_splits option.splits)
  have "leads_to imps g \<subseteq> aff1 \<union> set queue \<union> set nxt1" if g: "g \<in> aff1" for g
  proof (cases "g \<in> aff")
    case True
    then have "leads_to imps g \<subseteq> aff \<union> set (f # queue) \<union> set nxt" using Cons.prems(3) by blast
    also have "\<dots> \<subseteq> aff1 \<union> set queue \<union> set nxt1" using step(1,2,4) by auto
    finally show ?thesis .
  next
    case False
    then have "f \<notin> aff" using s g by (auto simp: visit_file_def)
    then have "leads_to imps f \<subseteq> aff1 \<union> set nxt1"
      using s by (auto simp: visit_file_def leads_to_def Let_def split: option.splits)
    moreover have "g = f \<or> g \<in> set (sibs f)" using step(3) g False by auto
    then have "leads_to imps g = leads_to imps f" using same_packageD(1) [OF Cons.prems(2), of f g] by auto
    ultimately show ?thesis by auto
  qed
  then have closed: "\<forall>g\<in>aff1. leads_to imps g \<subseteq> aff1 \<union> set queue \<union> set nxt1" by simp
  have sub: "sibs_same_package imps sibs (set queue)" by (rule same_package_mono [OF Cons.prems(2)]) auto
  have run: "fold (visit_file imps sibs) queue (aff1, nxt1, fails1) = (aff', nxt', fails')"
    using Cons.prems(1) s by simp
  have ih: "aff1 \<subseteq> aff'" "set queue \<subseteq> aff'" "set nxt1 \<subseteq> set nxt'"
    "aff' \<subseteq> aff1 \<union> set queue \<union> (\<Union>f\<in>set queue. set (sibs f))"
    "\<forall>f\<in>aff'. leads_to imps f \<subseteq> aff' \<union> set nxt'"
    "set nxt' \<subseteq> set nxt1 \<union> (\<Union>f\<in>set queue. leads_to imps f)"
    "\<forall>f\<in>set queue. f \<in> aff1 \<or> set (sibs f) \<subseteq> aff' \<or> (\<exists>g\<in>set queue. f \<in> set (sibs g))"
    using Cons.IH [OF run sub closed] by - (elim conjE, assumption)+
  have "set (f # queue) \<subseteq> aff'" using ih(1,2) step(2) by auto
  moreover have "aff' \<subseteq> aff \<union> set (f # queue) \<union> (\<Union>f\<in>set (f # queue). set (sibs f))"
  proof -
    have "aff' \<subseteq> (insert f aff \<union> set (sibs f)) \<union> set queue \<union> (\<Union>f\<in>set queue. set (sibs f))"
      using ih(4) Un_mono [OF Un_mono [OF step(3) order_refl] order_refl] by (rule order_trans)
    then show ?thesis by (simp add: Un_ac)
  qed
  moreover have "set nxt' \<subseteq> set nxt \<union> (\<Union>f\<in>set (f # queue). leads_to imps f)"
  proof -
    have "set nxt' \<subseteq> (set nxt \<union> leads_to imps f) \<union> (\<Union>f\<in>set queue. leads_to imps f)"
      using ih(6) Un_mono [OF step(5) order_refl] by (rule order_trans)
    then show ?thesis by (simp add: Un_ac)
  qed
  moreover have "\<forall>g\<in>set (f # queue). g \<in> aff \<or> set (sibs g) \<subseteq> aff' \<or> (\<exists>h\<in>set (f # queue). g \<in> set (sibs h))"
  proof
    fix g assume g: "g \<in> set (f # queue)"
    show "g \<in> aff \<or> set (sibs g) \<subseteq> aff' \<or> (\<exists>h\<in>set (f # queue). g \<in> set (sibs h))"
    proof (cases "g = f")
      case True
      then show ?thesis using step(6) ih(1) by blast
    next
      case False
      then have "g \<in> aff1 \<or> set (sibs g) \<subseteq> aff' \<or> (\<exists>h\<in>set queue. g \<in> set (sibs h))" using g ih(7) by simp
      moreover have "g \<in> aff1 \<Longrightarrow> g \<in> aff \<or> g \<in> set (sibs f)" using step(3) False by auto
      ultimately show ?thesis by auto
    qed
  qed
  ultimately show ?case
    using order_trans [OF step(1) ih(1)] order_trans [OF step(4) ih(3)] ih(5) by (intro conjI)
qed auto


lemma affected_levels_exact:
  assumes "set queue \<subseteq> within (leads_to imps) S (Suc d)" "within (leads_to imps) S (Suc d) \<subseteq> aff \<union> set queue"
    and "within (leads_to imps) S d \<subseteq> aff" "\<forall>f\<in>aff. leads_to imps f \<subseteq> aff \<union> set queue"
    and "aff \<subseteq> within (leads_to imps) S d \<union> (\<Union>f\<in>within (leads_to imps) S d. set (sibs f))"
    and "(\<Union>f\<in>within (leads_to imps) S d. set (sibs f)) \<subseteq> aff"
    and "sibs_same_package imps sibs (within (leads_to imps) S (d + n))"
  shows "fst (affected_levels imps sibs n queue (aff, fails)) =
    within (leads_to imps) S (d + n) \<union> (\<Union>f\<in>within (leads_to imps) S (d + n). set (sibs f))"
  using assms
proof (induction n arbitrary: d queue aff fails)
  case 0
  then show ?case by (auto simp del: within.simps)
next
  case (Suc n)
  let ?W = "within (leads_to imps) S"
  have same: "sibs_same_package imps sibs (?W (Suc d))"
    by (rule same_package_mono [OF Suc.prems(7) within_mono]) simp
  have marked: "set (sibs f) \<subseteq> aff" if mem: "f \<in> aff" for f
  proof (cases "f \<in> ?W d")
    case True
    then show ?thesis using Suc.prems(6) by auto
  next
    case False
    then obtain g where "g \<in> ?W d" "f \<in> set (sibs g)" using subsetD [OF Suc.prems(5) mem] by auto
    then have "sibs f = []" using same_packageD(2) [OF same subsetD [OF within_mono_Suc]] by blast
    then show ?thesis by simp
  qed
  show ?case
  proof (cases "queue = []")
    case True
    have closed: "?W k \<subseteq> aff" if "d \<le> k" for k
      using that
    proof (induction k rule: dec_induct)
      case base
      then show ?case by (rule Suc.prems(3))
    next
      case (step k)
      have "S \<subseteq> ?W (Suc d)" by simp
      then have "S \<subseteq> aff" using Suc.prems(2) True by auto
      then show ?case using step.IH Suc.prems(4) True by auto
    qed
    have d: "?W d \<subseteq> ?W (d + Suc n)" by (rule within_mono) simp
    have n: "?W (d + Suc n) \<subseteq> aff" by (rule closed) simp
    have "aff = ?W (d + Suc n) \<union> (\<Union>f\<in>?W (d + Suc n). set (sibs f))"
    proof (rule antisym)
      show "aff \<subseteq> ?W (d + Suc n) \<union> (\<Union>f\<in>?W (d + Suc n). set (sibs f))"
        by (rule order_trans [OF Suc.prems(5) Un_mono [OF d UN_mono [OF d order_refl]]])
      show "?W (d + Suc n) \<union> (\<Union>f\<in>?W (d + Suc n). set (sibs f)) \<subseteq> aff"
        by (rule Un_least [OF n UN_least]) (rule marked [OF subsetD [OF n]])
    qed
    then show ?thesis using True by simp
  next
    case False
    obtain aff' nxt fails' where run: "fold (visit_file imps sibs) queue (aff, [], fails) = (aff', nxt, fails')"
      using prod_cases3 by blast
    have "sibs_same_package imps sibs (set queue)" by (rule same_package_mono [OF same Suc.prems(1)])
    have "\<forall>f\<in>aff. leads_to imps f \<subseteq> aff \<union> set queue \<union> set []" using Suc.prems(4) by simp
    note level = fold_visit_file [OF run \<open>sibs_same_package imps sibs (set queue)\<close> this]
    have lv: "aff \<subseteq> aff'" "set queue \<subseteq> aff'" "aff' \<subseteq> aff \<union> set queue \<union> (\<Union>f\<in>set queue. set (sibs f))"
      "\<forall>f\<in>aff'. leads_to imps f \<subseteq> aff' \<union> set nxt" "set nxt \<subseteq> set [] \<union> (\<Union>f\<in>set queue. leads_to imps f)"
      "\<forall>f\<in>set queue. f \<in> aff \<or> set (sibs f) \<subseteq> aff' \<or> (\<exists>g\<in>set queue. f \<in> set (sibs g))"
      using level by - (elim conjE, assumption)+
    have W1: "?W (Suc d) \<subseteq> aff'" using Suc.prems(2) lv(1,2) by blast
    have W2: "?W (Suc (Suc d)) = S \<union> (\<Union>f\<in>?W (Suc d). leads_to imps f)" "S \<subseteq> ?W (Suc d)" by simp_all
    have "fst (affected_levels imps sibs n nxt (aff', fails')) =
      ?W (Suc d + n) \<union> (\<Union>f\<in>?W (Suc d + n). set (sibs f))"
    proof (rule Suc.IH)
      show "set nxt \<subseteq> ?W (Suc (Suc d))" using lv(5) Suc.prems(1) unfolding W2(1) by (auto simp del: within.simps)
      show "?W (Suc (Suc d)) \<subseteq> aff' \<union> set nxt"
        unfolding W2(1) using W1 W2(2) lv(4) by (auto simp del: within.simps)
      show "?W (Suc d) \<subseteq> aff'" "\<forall>f\<in>aff'. leads_to imps f \<subseteq> aff' \<union> set nxt" by (rule W1, rule lv(4))
      show "aff' \<subseteq> ?W (Suc d) \<union> (\<Union>f\<in>?W (Suc d). set (sibs f))"
        using lv(3) Suc.prems(1,5) within_mono_Suc [of "leads_to imps" S d] by (auto simp del: within.simps) (blast+)
      show "(\<Union>f\<in>?W (Suc d). set (sibs f)) \<subseteq> aff'"
      proof (rule UN_least)
        fix f assume f: "f \<in> ?W (Suc d)"
        show "set (sibs f) \<subseteq> aff'"
        proof (cases "f \<in> aff")
          case True
          then show ?thesis using order_trans [OF marked lv(1)] by simp
        next
          case False
          then have "f \<in> set queue" using subsetD [OF Suc.prems(2) f] by simp
          then consider "set (sibs f) \<subseteq> aff'" | g where "g \<in> set queue" "f \<in> set (sibs g)" using lv(6) False by blast
          then show ?thesis
          proof cases
            case 2
            then have "sibs f = []" using same_packageD(2) [OF same subsetD [OF Suc.prems(1)]] by blast
            then show ?thesis by simp
          qed
        qed
      qed
      show "sibs_same_package imps sibs (?W (Suc d + n))" using Suc.prems(7) by simp
    qed
    then show ?thesis using False run by simp
  qed
qed

section \<open>Files beside each other share their package\<close>

text \<open>
  The keys of an index: absolute and clean, or plain names joined by slashes; and paths whose
  directory survives the trimming of blanks on its way through the storage key.
\<close>

definition key_ok :: "string \<Rightarrow> bool" where
  "key_ok k \<longleftrightarrow> trim_space k = k
     \<and> (if is_abs k then clean k = k else \<exists>es s. list_all plain_seg (es @ [s]) \<and> k = join_with [slash] (es @ [s]))"

definition tidy_path :: "string \<Rightarrow> string \<Rightarrow> bool" where
  "tidy_path wd p \<longleftrightarrow> is_abs p \<and> clean p = p \<and> trim_space (filepath_dir p) = filepath_dir p
     \<and> trim_space (storage_path wd (filepath_dir p)) = storage_path wd (filepath_dir p)"

definition tidy_index :: "string \<Rightarrow> gdb \<Rightarrow> bool" where
  "tidy_index wd db \<longleftrightarrow>
     list_all (\<lambda>f. key_ok (f_path f)) (g_files db)
     \<and> list_all (\<lambda>e. tidy_path wd (if is_abs (e_file e) then e_file e else abs_path wd (e_file e)))
         (filter (\<lambda>e. e_kind e = ''imports'') (g_edges db))"

lemma normal_of_plain: "list_all plain_seg k \<Longrightarrow> list_all normal_seg k \<and> ''..'' \<notin> set k"
  by (auto simp: list_all_iff plain_seg_def)

lemma normal_segs_plain: "list_all plain_seg k \<Longrightarrow> normal_segs r k"
  using normal_segs_append [of r "[]" k] normal_of_plain by simp

lemma join_with_snoc: "es \<noteq> [] \<Longrightarrow> join_with [slash] (es @ [s]) = join_with [slash] es @ slash # s"
proof (induction es)
  case (Cons e es)
  then show ?case by (cases es) (simp_all add: join_with_Cons)
qed simp

lemma dir_join_snoc:
  assumes "list_all plain_seg (es @ [s])"
  shows "filepath_dir (join_with [slash] (es @ [s])) = render False es"
proof (cases "es = []")
  case True
  then have "last_index_any {slash} s = None"
    using assms by (auto simp: last_index_any_None plain_seg_def normal_seg_def)
  then show ?thesis using True by (simp add: filepath_dir_def clean_eq_render path_elems_def clean_segs_def is_abs_def)
next
  case False
  have s: "set s \<inter> {slash} = {}" using assms by (auto simp: plain_seg_def normal_seg_def)
  have es: "normal_segs False es" using assms by (intro normal_segs_plain) simp
  have r: "render False es = join_with [slash] es" "render False es \<noteq> []"
    using False render_not_Nil [OF es] by (simp_all add: render_def)
  have "filepath_dir (join_with [slash] (es @ [s])) = clean (render False es @ [slash])"
    unfolding join_with_snoc [OF False] filepath_dir_def using last_index_any_append [OF s, of slash] r(1) by simp
  also have "\<dots> = render False es" using clean_trailing_slash [OF r(2)] clean_render [OF es] by simp
  finally show ?thesis .
qed

lemma dir_render_snoc:
  assumes "normal_segs True (es @ [s])" "normal_segs True es"
  shows "filepath_dir (render True (es @ [s])) = render True es"
proof -
  have "normal_seg s" using normal_segs_no_slash [OF assms(1)] by simp
  then have s: "set s \<inter> {slash} = {}" by (auto simp: normal_seg_def)
  show ?thesis
  proof (cases "es = []")
    case True
    then have "filepath_dir (render True (es @ [s])) = clean [slash]"
      using last_index_any_append [OF s, of slash "[]"] by (simp add: render_def filepath_dir_def)
    then show ?thesis using True by (simp add: clean_def render_def clean_segs_def clean_step_def is_abs_def)
  next
    case False
    have "render True (es @ [s]) = render True es @ slash # s" using join_with_snoc [OF False] by (simp add: render_def)
    then have "filepath_dir (render True (es @ [s])) = clean (render True es @ [slash])"
      using last_index_any_append [OF s, of slash "render True es"] by (simp add: filepath_dir_def)
    then show ?thesis using clean_trailing_slash [of "render True es"] clean_render [OF assms(2)] by (simp add: render_def)
  qed
qed

lemma render_False_inj:
  assumes "list_all plain_seg xs" "list_all plain_seg ys" "render False xs = render False ys"
  shows "xs = ys"
  using split_render [OF normal_segs_plain [OF assms(1)]] split_render [OF normal_segs_plain [OF assms(2)]] assms(3) by metis

lemma is_abs_Cons: "is_abs (c # p) \<longleftrightarrow> c = slash"
  by (simp add: is_abs_def)

lemma is_abs_dir: "is_abs (filepath_dir p) = is_abs p"
proof (cases "last_index_any {slash} p")
  case None
  then have "slash \<notin> set p" by (simp add: last_index_any_None)
  then have "\<not> is_abs p" by (cases p) (auto simp: is_abs_def)
  moreover have "\<not> is_abs []" by (simp add: is_abs_def)
  ultimately show ?thesis using None by (simp add: filepath_dir_def)
next
  case (Some i)
  then show ?thesis by (cases p) (simp_all add: filepath_dir_def is_abs_Cons)
qed

lemma list_files_in_dirD:
  assumes "key \<in> set (list_files_in_dir dir0 db)"
  shows "key \<in> f_path ` set (g_files db)"
    and "if clean (trim_space dir0) = ''.'' then slash \<notin> set key else filepath_dir key = clean (trim_space dir0)"
  using assms by (auto simp: list_files_in_dir_def Let_def split: if_splits dest!: in_set_takeD)

lemma key_below:
  assumes wd: "is_abs wd" and k: "list_all plain_seg (k @ [s])" and key: "key = join_with [slash] (k @ [s])" "trim_space key = key"
    and d: "path_elems d = path_elems (clean wd) @ k" "is_abs d" "clean d = d"
  shows "filepath_dir (abs_path wd key) = d"
proof -
  let ?w = "path_elems (clean wd)"
  have "normal_segs True ?w" using path_elems_clean_normal [of wd] wd by simp
  then have n: "normal_segs True (?w @ k @ [s])" "normal_segs True (?w @ k)"
    using normal_segs_append [of True ?w k] normal_segs_append [of True ?w "k @ [s]"] normal_of_plain [OF k] by simp_all
  have "abs_path wd key = render True (?w @ k @ [s])"
    using abs_path_below [OF wd, of "k @ [s]"] normal_of_plain [OF k] key by simp
  then have "filepath_dir (abs_path wd key) = render True (?w @ k)"
    using dir_render_snoc [of "?w @ k" s] n by simp
  then show ?thesis using clean_as_render [of d] d by simp
qed

lemma sibling_dir:
  assumes wd: "is_abs wd" and f: "tidy_path wd f" and keys: "list_all (\<lambda>f. key_ok (f_path f)) (g_files db)"
    and mem: "key \<in> set (list_files_in_dir (storage_path wd (filepath_dir f)) db)"
  shows "filepath_dir (abs_path wd key) = filepath_dir f"
proof -
  let ?d = "filepath_dir f" and ?st = "storage_path wd (filepath_dir f)"
  have d: "is_abs ?d" "clean ?d = ?d" "trim_space ?d = ?d" "trim_space ?st = ?st"
    using f by (auto simp: tidy_path_def is_abs_dir) (simp add: filepath_dir_def)
  have key: "key_ok key" using list_files_in_dirD(1) [OF mem] keys by (auto simp: list_all_iff)
  note dir = list_files_in_dirD(2) [OF mem, unfolded d(4)]
  from wd d(1,3) show ?thesis
  proof (cases rule: storage_path_abs_cases)
    case outside
    then have st: "clean ?st = ?d" using d(2) by simp
    then have kd: "filepath_dir key = ?d" using dir d(1) by (auto simp: is_abs_def split: if_splits)
    then have "is_abs key" using d(1) is_abs_dir [of key] by simp
    then have "abs_path wd key = key" using key by (auto simp: abs_path_def key_ok_def is_abs_def Let_def)
    then show ?thesis using kd by simp
  next
    case (inside k)
    have el: "path_elems ?d = path_elems (clean wd) @ k" using inside(1) d(2) by simp
    have "normal_segs True (path_elems ?d)" using path_elems_clean_normal [of ?d] d(1,2) by simp
    then have k: "list_all plain_seg k"
      using inside(2) normal_segs_no_slash el by (auto simp: list_all_iff plain_seg_def)
    have st: "clean ?st = render False k"
      using clean_render [OF normal_segs_plain [OF k], of False] inside(3) by (simp add: render_def split: if_splits)
    have rel: "\<not> is_abs (render False k)" using is_abs_render [OF normal_segs_plain [OF k]] by simp
    have "\<not> is_abs key"
    proof
      assume "is_abs key"
      then have "slash \<in> set key" by (cases key) (auto simp: is_abs_def)
      moreover have "is_abs (filepath_dir key)" using \<open>is_abs key\<close> by (simp only: is_abs_dir)
      ultimately show False using dir rel unfolding st by (auto split: if_splits)
    qed
    then obtain es s where es: "list_all plain_seg (es @ [s])" "key = join_with [slash] (es @ [s])" "trim_space key = key"
      using key by (auto simp: key_ok_def)
    have "es = k"
    proof (cases "render False k = ''.''")
      case True
      then have "k = []" using split_render [OF normal_segs_plain [OF k], of False] by (simp add: path_elems_def)
      moreover have "es = []" using dir True es(2) join_with_snoc [of es s] unfolding st by (cases "es = []") auto
      ultimately show ?thesis by simp
    next
      case False
      then have "render False es = render False k" using dir dir_join_snoc [OF es(1)] es(2) unfolding st by simp
      then show ?thesis using render_False_inj es(1) k by (metis list_all_append)
    qed
    then show ?thesis using key_below [OF wd es(1-3) _ d(1,2)] el by simp
  qed
qed

section \<open>The tool\<close>

lemma find_importersD:
  "i \<in> set (find_importers pkg db) \<Longrightarrow> \<exists>e\<in>set (g_edges db). e_kind e = ''imports'' \<and> e_file e = i"
  by (auto simp: find_importers_def)

lemma reached_tidy:
  assumes "tidy_index wd db" "list_all (tidy_path wd) inputs"
    and "f \<in> within (leads_to (importers_of ae db wd)) (set inputs) n"
  shows "tidy_path wd f"
  using assms(3)
proof (induction n arbitrary: f)
  case (Suc n)
  show ?case
  proof (cases "f \<in> set inputs")
    case True
    then show ?thesis using assms(2) by (simp add: list_all_iff)
  next
    case False
    then obtain g where "f \<in> leads_to (importers_of ae db wd) g" using Suc.prems by auto
    then obtain i where i: "i \<in> set (find_importers (file_to_package ae g) db)" "f = (if is_abs i then i else abs_path wd i)"
      by (auto simp: leads_to_def importers_of_def Let_def split: if_splits)
    obtain e where "e \<in> set (g_edges db)" "e_kind e = ''imports''" "e_file e = i"
      using find_importersD [OF i(1)] by blast
    then show ?thesis using assms(1) i(2) by (auto simp: tidy_index_def list_all_iff)
  qed
qed simp

lemma siblings_same_package:
  assumes "is_abs wd" "tidy_index wd db" "\<And>f. f \<in> F \<Longrightarrow> tidy_path wd f"
  shows "sibs_same_package (importers_of ae db wd) (sibling_tests ae db wd custom) F"
  unfolding sibs_same_package_def
proof (intro ballI conjI)
  fix f t
  assume f: "f \<in> F" and t: "t \<in> set (sibling_tests ae db wd custom f)"
  then obtain key where key: "key \<in> set (list_files_in_dir (storage_path wd (filepath_dir f)) db)" "t = abs_path wd key"
    and test: "is_test_file wd custom t"
    by (auto simp: sibling_tests_def Let_def split: if_splits)
  have "filepath_dir t = filepath_dir f"
    using sibling_dir [OF assms(1) assms(3) [OF f] _ key(1)] assms(2) key(2) by (simp add: tidy_index_def)
  then show "leads_to (importers_of ae db wd) t = leads_to (importers_of ae db wd) f"
    by (simp add: leads_to_def importers_of_def file_to_package_def)
  show "sibling_tests ae db wd custom t = []" using test by (simp add: sibling_tests_def)
qed

text \<open>
  C16 (\<open>affected_exact\<close>).  The affected tool reports exactly the test files among the files that the
  admitted inputs reach through fewer import steps than the depth and the indexed test files in
  the directories of those that are not tests themselves; although a test file marked beside
  another file is never followed, no importer of it is lost.
\<close>

theorem affected_exact:
  assumes "is_abs wd" "tidy_index wd db" "files \<noteq> []" "inputs = admitted_inputs ae wd files" "inputs \<noteq> []"
    and "list_all (tidy_path wd) inputs"
    and "reached = within (leads_to (importers_of ae db wd)) (set inputs) (clamped_depth depth)"
    and "name = (\<lambda>f. case filepath_rel wd f of None \<Rightarrow> f | Some r \<Rightarrow> if r = [] then f else r)"
  shows "\<exists>fails. tool_affected ae db wd files depth custom =
    Affected_tests (sorted_list_of_set (name ` {f \<in> reached \<union> (\<Union>g\<in>reached. set (sibling_tests ae db wd custom g)).
        is_test_file wd custom f})) fails (skipped_inputs ae wd files)"
proof -
  let ?imps = "importers_of ae db wd" and ?sibs = "sibling_tests ae db wd custom" and ?n = "clamped_depth depth"
  have "sibs_same_package ?imps ?sibs (within (leads_to ?imps) (set inputs) ?n)"
    using siblings_same_package [OF assms(1,2)] reached_tidy [OF assms(2,6)] by blast
  then have "fst (affected_levels ?imps ?sibs ?n inputs ({}, 0)) = reached \<union> (\<Union>g\<in>reached. set (?sibs g))"
    using affected_levels_exact [of inputs ?imps "set inputs" 0 "{}" ?sibs ?n 0] assms(7) by simp
  then show ?thesis using assms(3-5,8)
    by (cases "affected_levels ?imps ?sibs ?n inputs ({}, 0)") (simp add: tool_affected_def Let_def)
qed

text \<open>
  An input is only followed if it lies below the workdir as written and its
  real location, or that of its deepest existing ancestor, lies below the real workdir.
\<close>

theorem admitted_inside:
  assumes "admit_input ae wd raw = Inr f" "is_abs wd"
  shows "is_abs f \<and> clean f = f \<and> (f = clean wd \<or> has_prefix f (clean wd @ ''/''))
    \<and> (\<exists>real_f k. path_elems (clean real_f)
          = path_elems (clean (case ae_real ae (clean wd) of None \<Rightarrow> clean wd | Some r \<Rightarrow> if r = [] then clean wd else r)) @ k
        \<and> (ae_real ae f = Some real_f
           \<or> ae_real ae f = None \<and> resolve_real_ancestor (ae_real ae) [] f = Some real_f))"
proof -
  let ?root = "case ae_real ae (clean wd) of None \<Rightarrow> clean wd | Some r \<Rightarrow> if r = [] then clean wd else r"
  have f: "f = clean (if is_abs raw then raw else filepath_join [clean wd, raw])" "f = clean wd \<or> has_prefix f (clean wd @ ''/'')"
    using assms(1) by (auto simp: admit_input_def Let_def split: if_splits option.splits)
  obtain real_f t where r: "path_within_root ?root real_f = Some t"
    "ae_real ae f = Some real_f \<or> ae_real ae f = None \<and> resolve_real_ancestor (ae_real ae) [] f = Some real_f"
    using assms(1) by (auto simp: admit_input_def Let_def split: if_splits option.splits)
  from path_within_rootD [OF r(1)] obtain k where "path_elems (clean real_f) = path_elems (clean ?root) @ k" by metis
  moreover have "is_abs f" "clean f = f" using f(1) assms(2) by (auto split: if_splits)
  ultimately show ?thesis using f(2) r(2) by blast
qed


section \<open>A small workspace\<close>

definition sample_files :: "string list" where
  "sample_files = [''a/t.go'', ''a/x.go'', ''b/t.go'']"

definition affected_db :: gdb where
  "affected_db = empty_db\<lparr>
     g_nodes := [sample_node 1 ''module'' ''m/a'' ''m/a'' 0, sample_node 2 kind_function ''T'' ''b/t.go'' 1],
     g_edges := [\<lparr>e_source = 2, e_target = 1, e_kind = ''imports'', e_file = ''b/t.go'', e_line = 1, e_col = 0,
                  e_provenance = [], e_metadata = []\<rparr>],
     g_files := map (\<lambda>p. \<lparr>f_path = p, f_size = 1, f_mtime = 1, f_indexed_at = 0, f_hash = ''h'',
                  f_language = ''go'', f_node_count = 1\<rparr>) sample_files\<rparr>"

definition sample_ae :: affected_env where
  "sample_ae = \<lparr>ae_real = Some, ae_go_mod = (\<lambda>d. if d = ''/w'' then Some ''module m'' else None),
     ae_npm_name = (\<lambda>_. None), ae_importers_fail = (\<lambda>_. False), ae_listing_fails = (\<lambda>_. False)\<rparr>"

lemma sample_test: "is_test_file ''/w'' ''t.go'' f \<longleftrightarrow> filepath_base f = ''t.go'' \<or> filepath_rel ''/w'' f = Some ''t.go''"
  by (auto simp: is_test_file_def go_match_literal glob_meta_def split: option.splits)

lemma sample_admitted: "admitted_inputs sample_ae ''/w'' [''a/x.go''] = [''/w/a/x.go'']"
  by (simp add: admitted_inputs_def admit_input_def sample_ae_def path_within_root_def path_eval str_eval)

lemma rust_source_test_missed: "\<not> is_test_file ''/w'' [] ''/w/src/parser_test.rs''"
  by code_simp


lemma sample_package: "file_to_package sample_ae ''/w/a/x.go'' = ''m/a''"
proof -
  have dirs: "filepath_dir ''/w/a/x.go'' = ''/w/a''" "filepath_dir ''/w/a'' = ''/w''" by (simp_all add: path_eval str_eval)
  have "trim_space ''module m'' = ''module m''" "trim_space '' m'' = ''m''"
    by (simp_all add: trim_space_ascii ascii_string_def is_space_def)
  then have m: "first_module (split_on newline ''module m'') = Some ''m''"
    by (simp add: module_line_def Let_def has_prefix_def trim_prefix_def)
  have env: "ae_go_mod sample_ae ''/w/a'' = None" "ae_go_mod sample_ae ''/w'' = Some ''module m''"
    by (simp_all add: sample_ae_def)
  have "find_go_module (ae_go_mod sample_ae) (Suc (Suc 22)) ''/w/a'' = Some (''/w'', ''m'')"
    unfolding find_go_module.simps env option.case m dirs Let_def by simp
  moreover have "(24::nat) = Suc (Suc 22)" by simp
  ultimately have root: "find_go_module (ae_go_mod sample_ae) 24 ''/w/a'' = Some (''/w'', ''m'')" by (simp only:)
  have "below_package ''/w'' ''m'' ''/w/a'' = ''m/a''" by (simp add: below_package_def path_eval str_eval)
  then show ?thesis unfolding file_to_package_def dir_package_def dirs root option.case prod.case .
qed

lemma sample_importers: "leads_to (importers_of sample_ae affected_db ''/w'') ''/w/a/x.go'' = {''/w/b/t.go''}"
proof -
  have "find_importers ''m/a'' affected_db = [''b/t.go'']"
    by (simp add: find_importers_def affected_db_def sample_node_def)
  moreover have "abs_path ''/w'' ''b/t.go'' = ''/w/b/t.go''" by (simp add: abs_path_def path_eval str_eval)
  moreover have "\<not> is_abs ''b/t.go''" by (simp add: is_abs_def)
  moreover have "\<not> ae_importers_fail sample_ae pkg" for pkg by (simp add: sample_ae_def)
  ultimately show ?thesis unfolding leads_to_def importers_of_def sample_package by simp
qed

lemma sample_tests:
  "\<not> is_test_file ''/w'' ''t.go'' ''/w/a/x.go''" "is_test_file ''/w'' ''t.go'' ''/w/a/t.go''"
  "is_test_file ''/w'' ''t.go'' ''/w/b/t.go''"
  by (simp_all add: sample_test path_eval str_eval)

lemma sample_siblings:
  "sibling_tests sample_ae affected_db ''/w'' ''t.go'' ''/w/a/x.go'' = [''/w/a/t.go'']"
  "sibling_tests sample_ae affected_db ''/w'' ''t.go'' ''/w/b/t.go'' = []"
proof -
  have dir: "storage_path ''/w'' (filepath_dir ''/w/a/x.go'') = ''a''" by (simp add: storage_path_def path_eval str_eval)
  have paths: "sort (map f_path (g_files affected_db)) = sample_files"
    by (simp add: affected_db_def sample_files_def)
  have files: "list_files_in_dir ''a'' affected_db = [''a/t.go'', ''a/x.go'']"
    unfolding list_files_in_dir_def Let_def paths by (simp add: sample_files_def ascii_fold_def list_files_cap_def path_eval str_eval)
  have disk: "abs_path ''/w'' ''a/t.go'' = ''/w/a/t.go''" "abs_path ''/w'' ''a/x.go'' = ''/w/a/x.go''"
    by (simp_all add: abs_path_def path_eval str_eval)
  have "\<not> ae_listing_fails sample_ae d" for d by (simp add: sample_ae_def)
  then show "sibling_tests sample_ae affected_db ''/w'' ''t.go'' ''/w/a/x.go'' = [''/w/a/t.go'']"
    unfolding sibling_tests_def dir Let_def files using sample_tests disk by simp
  show "sibling_tests sample_ae affected_db ''/w'' ''t.go'' ''/w/b/t.go'' = []"
    unfolding sibling_tests_def using sample_tests(3) by simp
qed

lemma sample_keys: "list_all key_ok sample_files"
proof -
  have "key_ok (join_with [slash] [d, f])" if "list_all plain_seg [d, f]" "trim_space (join_with [slash] [d, f]) = join_with [slash] [d, f]"
    for d f
  proof -
    have "\<not> is_abs (join_with [slash] [d, f])"
      using that(1) by (cases d) (auto simp: is_abs_def plain_seg_def normal_seg_def)
    then show ?thesis using that unfolding key_ok_def by (metis append_Cons append_Nil)
  qed
  from this [of "''a''" "''t.go''"] this [of "''a''" "''x.go''"] this [of "''b''" "''t.go''"]
  show ?thesis by (simp add: sample_files_def plain_seg_def normal_seg_def str_eval)
qed

theorem affected_exact_witness:
  "\<exists>fails. tool_affected sample_ae affected_db ''/w'' [''a/x.go''] 2 ''t.go'' = Affected_tests [''a/t.go'', ''b/t.go''] fails []"
proof -
  let ?reached = "within (leads_to (importers_of sample_ae affected_db ''/w'')) (set [''/w/a/x.go'']) (clamped_depth 2)"
  let ?name = "\<lambda>f. case filepath_rel ''/w'' f of None \<Rightarrow> f | Some r \<Rightarrow> if r = [] then f else r"
  have reached: "?reached = {''/w/a/x.go'', ''/w/b/t.go''}"
    using sample_importers by (simp add: clamped_depth_def eval_nat_numeral insert_commute)
  have all: "?reached \<union> (\<Union>g\<in>?reached. set (sibling_tests sample_ae affected_db ''/w'' ''t.go'' g))
      = set [''/w/a/x.go'', ''/w/b/t.go'', ''/w/a/t.go'']"
    unfolding reached using sample_siblings by (simp add: insert_commute)
  have "{f \<in> set [''/w/a/x.go'', ''/w/b/t.go'', ''/w/a/t.go'']. is_test_file ''/w'' ''t.go'' f}
      = {''/w/a/t.go'', ''/w/b/t.go''}"
    unfolding set_filter [symmetric] using sample_tests by (simp add: insert_commute)
  then have set: "{f \<in> ?reached \<union> (\<Union>g\<in>?reached. set (sibling_tests sample_ae affected_db ''/w'' ''t.go'' g)).
      is_test_file ''/w'' ''t.go'' f} = {''/w/a/t.go'', ''/w/b/t.go''}"
    unfolding all .
  have names: "?name ` {''/w/a/t.go'', ''/w/b/t.go''} = {''a/t.go'', ''b/t.go''}"
    by (simp add: path_eval str_eval)
  have sorted: "sorted_list_of_set {''a/t.go'', ''b/t.go''} = [''a/t.go'', ''b/t.go'']" by simp
  have tidy: "tidy_path ''/w'' ''/w/a/x.go''" "tidy_path ''/w'' ''/w/b/t.go''"
    by (simp_all add: tidy_path_def storage_path_def path_eval str_eval)
  then have inputs: "list_all (tidy_path ''/w'') [''/w/a/x.go'']" by simp
  have "abs_path ''/w'' ''b/t.go'' = ''/w/b/t.go''" by (simp add: abs_path_def path_eval str_eval)
  then have index: "tidy_index ''/w'' affected_db"
    using tidy(2) sample_keys by (simp add: tidy_index_def affected_db_def sample_files_def is_abs_def)
  have skipped: "skipped_inputs sample_ae ''/w'' [''a/x.go''] = []"
    by (simp add: skipped_inputs_def admit_input_def sample_ae_def path_within_root_def path_eval str_eval)
  show ?thesis
    using affected_exact [OF _ index _ sample_admitted [symmetric] _ inputs refl refl, of 2 "''t.go''"]
    unfolding set names sorted skipped by (simp add: is_abs_def)
qed

text \<open>With the root directory as workdir the prefix test asks for two slashes: every file is refused.\<close>

lemma root_workdir_refuses: "admit_input sample_ae ''/'' ''/a.go'' = Inl Lexical_jail"
  by (simp add: admit_input_def sample_ae_def path_within_root_def path_eval str_eval)

theorem admitted_inside_witness:
  "admit_input sample_ae ''/w'' ''../etc/passwd'' = Inl Lexical_jail
   \<and> admit_input sample_ae ''/w'' ''a/x.go'' = Inr ''/w/a/x.go'' \<and> has_prefix ''/w/a/x.go'' (clean ''/w'' @ ''/'')"
proof -
  have "admit_input sample_ae ''/w'' ''a/x.go'' = Inr ''/w/a/x.go''"
    "admit_input sample_ae ''/w'' ''../etc/passwd'' = Inl Lexical_jail"
    by (simp_all add: admit_input_def sample_ae_def path_within_root_def path_eval str_eval)
  moreover have "\<not> ''/w/a/x.go'' = clean ''/w''" by (simp add: path_eval)
  ultimately show ?thesis using admitted_inside [of sample_ae "''/w''" "''a/x.go''" "''/w/a/x.go''"] by (simp add: is_abs_def)
qed

end
