(* ===== verification/Explore_Flow.thy ===== *)
theory Explore_Flow
  imports Call_Graph
begin

text \<open>
  The call chain of the explore tool (\<^verbatim>\<open>tools/explore_flow.go\<close>): the symbols a free-text query names, and
  the chain of calls among them, found by a breadth-first search from each named symbol over the
  edges of the index that bridges at most one symbol the query does not name.
\<close>

section \<open>Tokens of the query\<close>

text \<open>
  The two regular expressions.  The first ends in a file extension, without regard to case: the Unicode
  folding of Go's expressions adds the Kelvin sign and the long s to their letters.
\<close>

definition lower_ascii :: "char \<Rightarrow> char" where
  "lower_ascii c = (if CHR ''A'' \<le> c \<and> c \<le> CHR ''Z'' then char_of (of_char c + 32 :: nat) else c)"

fun fold_match :: "string \<Rightarrow> string \<Rightarrow> bool" where
  "fold_match [] s \<longleftrightarrow> s = []"
| "fold_match (c # cs) s \<longleftrightarrow>
     (case s of [] \<Rightarrow> False | x # xs \<Rightarrow> lower_ascii x = c \<and> fold_match cs xs)
     \<or> (c = CHR ''k'' \<and> prefix [CHR 0xE2, CHR 0x84, CHR 0xAA] s \<and> fold_match cs (drop 3 s))
     \<or> (c = CHR ''s'' \<and> prefix [CHR 0xC5, CHR 0xBF] s \<and> fold_match cs (drop 2 s))"

definition explore_exts :: "string list" where
  "explore_exts =
     [''java'', ''kt'', ''kts'', ''ts'', ''tsx'', ''js'', ''jsx'', ''mjs'', ''cjs'', ''cs'', ''py'', ''go'', ''rb'', ''php'',
      ''swift'', ''rs'', ''cpp'', ''cc'', ''cxx'', ''c'', ''h'', ''hpp'', ''scala'', ''lua'', ''dart'', ''vue'', ''svelte'',
      ''astro'', ''erl'', ''hrl'']"

definition strip_file_ext :: "string \<Rightarrow> string" where
  "strip_file_ext p =
     (case last_index_any {dot} p of
        None \<Rightarrow> p
      | Some i \<Rightarrow> if list_ex (\<lambda>e. fold_match e (drop (i + 1) p)) explore_exts then take i p else p)"

definition ident_start :: "char \<Rightarrow> bool" where
  "ident_start c \<longleftrightarrow> (CHR ''A'' \<le> c \<and> c \<le> CHR ''Z'') \<or> (CHR ''a'' \<le> c \<and> c \<le> CHR ''z'') \<or> c = CHR ''_'' \<or> c = CHR ''$''"

definition ident_char :: "char \<Rightarrow> bool" where
  "ident_char c \<longleftrightarrow> ident_start c \<or> (CHR ''0'' \<le> c \<and> c \<le> CHR ''9'')"

text \<open>The second, as an automaton: inside a segment, behind a separator, behind the first of two colons.\<close>

datatype ident_state = In_segment | After_separator | After_colon

fun ident_rest :: "ident_state \<Rightarrow> string \<Rightarrow> bool" where
  "ident_rest In_segment [] \<longleftrightarrow> True"
| "ident_rest After_separator [] \<longleftrightarrow> False"
| "ident_rest After_colon [] \<longleftrightarrow> False"
| "ident_rest In_segment (c # cs) \<longleftrightarrow>
     (if ident_char c then ident_rest In_segment cs
      else if c = dot then ident_rest After_separator cs
      else if c = CHR '':'' then ident_rest After_colon cs else False)"
| "ident_rest After_separator (c # cs) \<longleftrightarrow> ident_char c \<and> ident_rest In_segment cs"
| "ident_rest After_colon (c # cs) \<longleftrightarrow> c = CHR '':'' \<and> ident_rest After_separator cs"

definition explore_ident :: "string \<Rightarrow> bool" where
  "explore_ident s \<longleftrightarrow> (case s of [] \<Rightarrow> False | c # cs \<Rightarrow> ident_start c \<and> ident_rest In_segment cs)"

text \<open>\<^verbatim>\<open>tokenizeExploreQuery\<close>: at most sixteen tokens, each once without regard to case.\<close>

definition token_separator :: "nat \<Rightarrow> bool" where
  "token_separator r \<longleftrightarrow> is_space r \<or> r = 44 \<or> r = 40 \<or> r = 41 \<or> r = 91 \<or> r = 93"

fun pick_tokens :: "(string \<Rightarrow> string) \<Rightarrow> string set \<Rightarrow> nat \<Rightarrow> string list \<Rightarrow> string list" where
  "pick_tokens low seen n [] = []"
| "pick_tokens low seen n (p0 # ps) =
     (let p = strip_file_ext (trim_space p0) in
      if length p < 3 \<or> \<not> explore_ident p then pick_tokens low seen n ps
      else if low p \<in> seen then pick_tokens low seen n ps
      else p # (if 16 \<le> n + 1 then [] else pick_tokens low (insert (low p) seen) (n + 1) ps))"

definition tokenize_explore_query :: "(string \<Rightarrow> string) \<Rightarrow> string \<Rightarrow> string list" where
  "tokenize_explore_query low query = pick_tokens low {} 0 (fields_func token_separator query)"

definition token_segments :: "(string \<Rightarrow> string) \<Rightarrow> string \<Rightarrow> string list" where
  "token_segments low token = filter (\<lambda>p. p \<noteq> []) (fields_func (\<lambda>r. r = 46 \<or> r = 58) (low token))"

section \<open>The named symbols\<close>

text \<open>Beside the surroundings of the graph tools, \<^verbatim>\<open>strings.EqualFold\<close>.\<close>

record flow_env = tool_env +
  te_equal_fold :: "string \<Rightarrow> string \<Rightarrow> bool"

definition is_explore_callable :: "string \<Rightarrow> bool" where
  "is_explore_callable k \<longleftrightarrow> k \<in> {kind_function, kind_method, ''component'', ''constructor''}"

definition qualifier_chars :: "char set" where
  "qualifier_chars = {dot, CHR ''#'', slash}"

definition last_segment :: "string \<Rightarrow> string" where
  "last_segment token =
     (case last_index_any qualifier_chars token of
        None \<Rightarrow> token
      | Some i \<Rightarrow> if i + 1 < length token then drop (i + 1) token else token)"

definition find_callable_symbols :: "flow_env \<Rightarrow> gdb \<Rightarrow> string \<Rightarrow> node list" where
  "find_callable_symbols te db token =
     (let named = get_node_by_name token db;
          tails = (if named \<noteq> [] then named
            else case last_index_any qualifier_chars token of
              None \<Rightarrow> []
            | Some i \<Rightarrow> if i + 1 < length token then get_node_by_name (drop (i + 1) token) db else []);
          want = last_segment token;
          nodes = (if tails \<noteq> [] then tails
            else filter (\<lambda>n. n_name n = want \<or> te_equal_fold te (n_name n) want) (te_fts te db want 20));
          out = filter (\<lambda>n. is_explore_callable (n_kind n)) nodes;
          exact = filter (\<lambda>n. n_name n = want) out
      in if set token \<inter> qualifier_chars \<noteq> {} \<and> exact \<noteq> [] then exact else out)"

definition in_explore_root :: "flow_env \<Rightarrow> string \<Rightarrow> node \<Rightarrow> bool" where
  "in_explore_root te root n \<longleftrightarrow> path_under_root (te_evals te) (n_file n) (te_workdir te) root"

definition container_matches :: "(string \<Rightarrow> string) \<Rightarrow> string set \<Rightarrow> node \<Rightarrow> bool" where
  "container_matches low seg_pool n \<longleftrightarrow>
     (if n_qname n = []
      then low (trim_suffix (filepath_base (n_file n)) (filepath_ext (n_file n))) \<in> seg_pool
      else (let segs = token_segments low (n_qname n) in
            if length segs < 2 then False else segs ! (length segs - 2) \<in> seg_pool))"

text \<open>The picks of one token, and the loop over the tokens: the named symbols in order and the specific ones.\<close>

definition token_picks :: "flow_env \<Rightarrow> gdb \<Rightarrow> string \<Rightarrow> string set \<Rightarrow> string \<Rightarrow> bool \<times> node list" where
  "token_picks te db root seg_pool token =
     (let hits = filter (in_explore_root te root) (find_callable_symbols te db token);
          specific = length hits \<le> 3
      in (specific, take 6 (if specific then hits else filter (container_matches (te_low te) seg_pool) hits)))"

definition add_pick :: "bool \<Rightarrow> node \<Rightarrow> node list \<times> int set \<Rightarrow> node list \<times> int set" where
  "add_pick specific n s =
     (let (named, uniq) = s in
      if n_id n \<in> n_id ` set named then s
      else (named @ [n], if specific then insert (n_id n) uniq else uniq))"

fun collect_named :: "flow_env \<Rightarrow> gdb \<Rightarrow> string \<Rightarrow> string set \<Rightarrow> string list \<Rightarrow> node list \<times> int set \<Rightarrow> node list \<times> int set" where
  "collect_named te db root seg_pool [] s = s"
| "collect_named te db root seg_pool (t # ts) s =
     (let (specific, pick) = token_picks te db root seg_pool t; s' = fold (add_pick specific) pick s
      in if 40 < length (fst s') then s' else collect_named te db root seg_pool ts s')"

section \<open>The search from one seed\<close>

definition max_hops :: nat where
  "max_hops = 7"

definition max_bridge :: nat where
  "max_bridge = 1"

definition max_parents :: nat where
  "max_parents = 1500"

record parent_info =
  pi_prev :: int
  pi_kind :: string
  pi_node :: node

record q_item =
  qi_id :: int
  qi_depth :: nat
  qi_streak :: nat

type_synonym parents = "(int \<times> parent_info) list"

text \<open>What the search sees: the named ids, the filter of the subtree, and the rows of the callees.\<close>

record flow_graph =
  fg_named :: "int set"
  fg_inside :: "node \<Rightarrow> bool"
  fg_callees :: "int \<Rightarrow> node_ref list"

definition edge_label :: "node_ref \<Rightarrow> string" where
  "edge_label c = (if nr_kind c = [] then edge_calls else nr_kind c)"

definition visit_callee :: "flow_graph \<Rightarrow> q_item \<Rightarrow> node_ref \<Rightarrow> parents \<times> q_item list \<Rightarrow> parents \<times> q_item list" where
  "visit_callee g cur c s =
     (let (parents, queue) = s; i = n_id (nr_node c);
          streak = (if i \<in> fg_named g then 0 else qi_streak cur + 1)
      in if map_of parents i \<noteq> None then s
         else if \<not> fg_inside g (nr_node c) then s
         else if max_bridge < streak then s
         else (parents @ [(i, \<lparr>pi_prev = qi_id cur, pi_kind = edge_label c, pi_node = nr_node c\<rparr>)],
               queue @ [\<lparr>qi_id = i, qi_depth = qi_depth cur + 1, qi_streak = streak\<rparr>]))"

lemma visit_callees_grow:
  "fold (visit_callee g cur) cs (P, Q) = (P', Q') \<Longrightarrow>
   \<exists>new. length P' = length P + length new \<and> Q' = Q @ new"
proof (induction cs arbitrary: P Q)
  case (Cons c cs)
  obtain P1 Q1 where s: "visit_callee g cur c (P, Q) = (P1, Q1)" by fastforce
  have "\<exists>new1. length P1 = length P + length new1 \<and> Q1 = Q @ new1"
    using s by (auto simp: visit_callee_def Let_def split: if_splits)
  then obtain new1 where n1: "length P1 = length P + length new1" "Q1 = Q @ new1" by blast
  obtain new2 where "length P' = length P1 + length new2" "Q' = Q1 @ new2"
    using Cons.IH[of P1 Q1] Cons.prems s by auto
  then show ?case using n1 by (intro exI[of _ "new1 @ new2"]) simp
qed simp

definition note_depth :: "flow_graph \<Rightarrow> int \<Rightarrow> q_item \<Rightarrow> int \<times> nat \<Rightarrow> int \<times> nat" where
  "note_depth g seed cur deep =
     (if qi_id cur \<noteq> seed \<and> qi_id cur \<in> fg_named g \<and> snd deep < qi_depth cur then (qi_id cur, qi_depth cur) else deep)"

function flow_loop :: "flow_graph \<Rightarrow> int \<Rightarrow> parents \<Rightarrow> q_item list \<Rightarrow> int \<times> nat \<Rightarrow> parents \<times> int \<times> nat" where
  "flow_loop g seed parents [] deep = (parents, deep)"
| "flow_loop g seed parents (cur # rest) deep =
     (if max_parents \<le> length parents then (parents, deep)
      else if max_hops - 1 \<le> qi_depth cur then flow_loop g seed parents rest (note_depth g seed cur deep)
      else (let (parents', queue') = fold (visit_callee g cur) (fg_callees g (qi_id cur)) (parents, rest)
            in flow_loop g seed parents' queue' (note_depth g seed cur deep)))"
  by pat_completeness auto
termination
proof (relation "measures [\<lambda>(g, seed, P, Q, deep). max_parents - length P, \<lambda>(g, seed, P, Q, deep). length Q]", goal_cases)
  case (3 g seed P cur rest deep x P' Q')
  then have "fold (visit_callee g cur) (fg_callees g (qi_id cur)) (P, rest) = (P', Q')" by simp
  from visit_callees_grow[OF this] obtain new where "length P' = length P + length new" "Q' = rest @ new" by blast
  then show ?case using 3(1) by (cases new) auto
qed auto

text \<open>The way back over the parents; a chain never has more nodes than hops are allowed.\<close>

fun chain_back :: "parents \<Rightarrow> nat \<Rightarrow> int \<Rightarrow> (node \<times> string) list" where
  "chain_back P 0 i = []"
| "chain_back P (Suc k) i =
     (if i = 0 then []
      else case map_of P i of None \<Rightarrow> [] | Some p \<Rightarrow> (pi_node p, pi_kind p) # chain_back P k (pi_prev p))"

definition flow_search :: "flow_graph \<Rightarrow> node \<Rightarrow> (node \<times> string) list option" where
  "flow_search g seed =
     (let (parents, deep_id, deep_depth) =
            flow_loop g (n_id seed) [(n_id seed, \<lparr>pi_prev = 0, pi_kind = [], pi_node = seed\<rparr>)]
              [\<lparr>qi_id = n_id seed, qi_depth = 0, qi_streak = 0\<rparr>] (0, 0)
      in if deep_id = 0 then None else Some (rev (chain_back parents max_hops deep_id)))"

section \<open>The flow\<close>

definition better_chain :: "flow_graph \<Rightarrow> node \<Rightarrow> (node \<times> string) list option \<Rightarrow> (node \<times> string) list option" where
  "better_chain g seed best =
     (case flow_search g seed of
        None \<Rightarrow> best
      | Some chain \<Rightarrow>
          (case best of None \<Rightarrow> Some chain | Some b \<Rightarrow> if length b < length chain then Some chain else best))"

definition best_chain :: "flow_graph \<Rightarrow> node list \<Rightarrow> (node \<times> string) list" where
  "best_chain g seeds = (case fold (better_chain g) (take 8 seeds) None of None \<Rightarrow> [] | Some b \<Rightarrow> b)"

record flow_result =
  fl_text :: string
  fl_path_ids :: "int set"
  fl_named_ids :: "int set"
  fl_unique :: "int set"
  fl_named :: "node list"
  fl_path :: "node list"

definition empty_flow :: flow_result where
  "empty_flow = \<lparr>fl_text = [], fl_path_ids = {}, fl_named_ids = {}, fl_unique = {}, fl_named = [], fl_path = []\<rparr>"

definition down_arrow :: string where
  "down_arrow = [CHR 0xE2, CHR 0x86, CHR 0x93]"

definition em_dash :: string where
  "em_dash = [CHR 0xE2, CHR 0x80, CHR 0x94]"

definition flow_line :: "string \<Rightarrow> nat \<Rightarrow> node \<times> string \<Rightarrow> string" where
  "flow_line wd i step =
     (let (n, k) = step in
      (if 0 < i \<and> k \<noteq> [] then ''   '' @ down_arrow @ '' '' @ k @ [newline] else [])
      @ itoa (int i + 1) @ ''. '' @ n_name n @ '' ('' @ rel_path wd (n_file n) @ '':'' @ itoa (n_line n) @ '')'' @ [newline])"

definition flow_text :: "string \<Rightarrow> bool \<Rightarrow> (node \<times> string) list \<Rightarrow> string" where
  "flow_text wd skip_code best =
     ''**Flow (call path among the symbols you queried)**'' @ [newline, newline]
     @ concat (map (\<lambda>(i, step). flow_line wd i step) (zip [0..<length best] best)) @ [newline]
     @ (if skip_code then ''> Locations and call trail only (skipCode); use node includeCode=true for a body.''
        else ''> Full source for these symbols is below '' @ em_dash @ '' treat as already read; no need for external Read.'')
     @ [newline, newline]"

definition flow_graph_of :: "flow_env \<Rightarrow> gdb \<Rightarrow> string \<Rightarrow> node list \<Rightarrow> flow_graph" where
  "flow_graph_of te db root named =
     \<lparr>fg_named = n_id ` set named, fg_inside = in_explore_root te root, fg_callees = get_callees_with_kind db\<rparr>"

definition build_flow :: "flow_env \<Rightarrow> gdb \<Rightarrow> string \<Rightarrow> string \<Rightarrow> bool \<Rightarrow> flow_result" where
  "build_flow te db root0 query skip_code =
     (let tokens = tokenize_explore_query (te_low te) query;
          root = (if root0 = [] then te_workdir te else root0);
          seg_pool = (\<Union>t\<in>set tokens. set (token_segments (te_low te) t));
          (named, uniq) = collect_named te db root seg_pool tokens ([], {});
          best = best_chain (flow_graph_of te db root named) named
      in if length tokens < 2 then empty_flow
         else if length named < 2 then empty_flow
         else if length best < 2
         then empty_flow\<lparr>fl_named_ids := n_id ` set named, fl_unique := uniq, fl_named := named\<rparr>
         else \<lparr>fl_text = flow_text (te_workdir te) skip_code best, fl_path_ids = n_id ` set (map fst best),
               fl_named_ids = n_id ` set named, fl_unique = uniq, fl_named = named, fl_path = map fst best\<rparr>)"

section \<open>What a chain is\<close>

text \<open>
  One hop of the search: a callee inside the subtree, where of the two ends at least one is named, so
  that no two consecutive nodes of a chain are unnamed.
\<close>

abbreviation callee_id :: "node_ref \<Rightarrow> int" where
  "callee_id c \<equiv> n_id (nr_node c)"

definition allowed :: "flow_graph \<Rightarrow> int \<Rightarrow> node_ref \<Rightarrow> bool" where
  "allowed g x c \<longleftrightarrow> fg_inside g (nr_node c) \<and> (callee_id c \<in> fg_named g \<or> x \<in> fg_named g)"

definition flow_step :: "flow_graph \<Rightarrow> int \<Rightarrow> int set" where
  "flow_step g x = callee_id ` {c \<in> set (fg_callees g x). allowed g x c}"

inductive flow_chain :: "flow_graph \<Rightarrow> node \<Rightarrow> (node \<times> string) list \<Rightarrow> bool" for g seed where
  start: "flow_chain g seed [(seed, [])]"
| hop: "flow_chain g seed ch \<Longrightarrow> x = n_id (fst (last ch)) \<Longrightarrow> c \<in> set (fg_callees g x) \<Longrightarrow> allowed g x c \<Longrightarrow>
    flow_chain g seed (ch @ [(nr_node c, edge_label c)])"

text \<open>The item of a node on a level: its streak only depends on whether it is named.\<close>

definition flow_item :: "flow_graph \<Rightarrow> nat \<Rightarrow> int \<Rightarrow> q_item" where
  "flow_item g d i = \<lparr>qi_id = i, qi_depth = d, qi_streak = (if i \<in> fg_named g then 0 else 1)\<rparr>"

lemma flow_item_simps [simp]:
  "qi_id (flow_item g d i) = i" "qi_depth (flow_item g d i) = d"
  "qi_streak (flow_item g d i) = (if i \<in> fg_named g then 0 else 1)"
  by (simp_all add: flow_item_def)

definition flow_entry :: "int \<Rightarrow> node_ref \<Rightarrow> int \<times> parent_info" where
  "flow_entry x c = (callee_id c, \<lparr>pi_prev = x, pi_kind = edge_label c, pi_node = nr_node c\<rparr>)"

lemma fst_flow_entry [simp]: "fst (flow_entry x c) = callee_id c"
  by (simp add: flow_entry_def)

definition new_callees :: "flow_graph \<Rightarrow> parents \<Rightarrow> int \<Rightarrow> node_ref list" where
  "new_callees g P x = dedup_by callee_id (fst ` set P) (filter (allowed g x) (fg_callees g x))"

lemma visit_callee_item:
  "visit_callee g (flow_item g d x) c (P, Q) =
     (if callee_id c \<in> fst ` set P \<or> \<not> allowed g x c then (P, Q)
      else (P @ [flow_entry x c], Q @ [flow_item g (d + 1) (callee_id c)]))"
proof (cases "callee_id c \<in> fst ` set P")
  case True
  then obtain p where "map_of P (callee_id c) = Some p" by (metis map_of_eq_None_iff not_None_eq)
  then show ?thesis using True by (simp add: visit_callee_def Let_def)
next
  case False
  then have "map_of P (callee_id c) = None" by (simp add: map_of_eq_None_iff)
  then show ?thesis using False
    by (simp add: visit_callee_def Let_def allowed_def flow_entry_def flow_item_def max_bridge_def)
qed

lemma fold_visit_callees:
  "fold (visit_callee g (flow_item g d x)) cs (P, Q) =
     (P @ map (flow_entry x) (dedup_by callee_id (fst ` set P) (filter (allowed g x) cs)),
      Q @ map (\<lambda>c. flow_item g (d + 1) (callee_id c)) (dedup_by callee_id (fst ` set P) (filter (allowed g x) cs)))"
proof (induction cs arbitrary: P Q)
  case (Cons c cs)
  show ?case
  proof (cases "callee_id c \<in> fst ` set P \<or> \<not> allowed g x c")
    case True
    then show ?thesis using Cons.IH[of P Q] by (auto simp: visit_callee_item)
  next
    case False
    then show ?thesis
      using Cons.IH[of "P @ [flow_entry x c]" "Q @ [flow_item g (d + 1) (callee_id c)]"]
      by (simp add: visit_callee_item)
  qed
qed simp

lemma visit_new_callees:
  "fold (visit_callee g (flow_item g d x)) (fg_callees g x) (P, Q) =
     (P @ map (flow_entry x) (new_callees g P x), Q @ map (\<lambda>c. flow_item g (d + 1) (callee_id c)) (new_callees g P x))"
  unfolding new_callees_def by (rule fold_visit_callees)

lemma new_callees_step: "callee_id ` set (new_callees g P x) = flow_step g x - fst ` set P"
  by (simp add: new_callees_def flow_step_def)

lemma new_callees_sub: "c \<in> set (new_callees g P x) \<Longrightarrow> c \<in> set (fg_callees g x) \<and> allowed g x c \<and> callee_id c \<notin> fst ` set P"
  using set_dedup_by[of callee_id "fst ` set P" "filter (allowed g x) (fg_callees g x)"] by (auto simp: new_callees_def)

section \<open>Chains through the parents\<close>

text \<open>The parents lead from a node back to the seed in a number of hops.\<close>

fun chain_to :: "flow_graph \<Rightarrow> node \<Rightarrow> parents \<Rightarrow> nat \<Rightarrow> int \<Rightarrow> bool" where
  "chain_to g s P 0 i \<longleftrightarrow> i = n_id s \<and> map_of P i = Some \<lparr>pi_prev = 0, pi_kind = [], pi_node = s\<rparr>"
| "chain_to g s P (Suc n) i \<longleftrightarrow>
     (\<exists>c x. i = callee_id c \<and> map_of P i = Some \<lparr>pi_prev = x, pi_kind = edge_label c, pi_node = nr_node c\<rparr>
        \<and> c \<in> set (fg_callees g x) \<and> allowed g x c \<and> chain_to g s P n x)"

lemma chain_to_append: "chain_to g s P n i \<Longrightarrow> chain_to g s (P @ E) n i"
proof (induction n arbitrary: i)
  case (Suc n)
  then obtain c x where "i = callee_id c" "map_of P i = Some \<lparr>pi_prev = x, pi_kind = edge_label c, pi_node = nr_node c\<rparr>"
    "c \<in> set (fg_callees g x)" "allowed g x c" "chain_to g s P n x" by auto
  then show ?case using Suc.IH[of x] by (auto simp: map_add_Some_iff)
qed (auto simp: map_add_Some_iff)

lemma chain_to_new:
  assumes "chain_to g s P n x" "c \<in> set (new_callees g P x)"
  shows "chain_to g s (P @ map (flow_entry x) (new_callees g P x)) (Suc n) (callee_id c)"
proof -
  have "map_of P (callee_id c) = None"
    using new_callees_sub[OF assms(2)] by (simp add: map_of_eq_None_iff)
  moreover have "map_of (map (flow_entry x) (new_callees g P x)) (callee_id c) = Some (snd (flow_entry x c))"
  proof (rule map_of_is_SomeI)
    have "map fst (map (flow_entry x) (new_callees g P x)) = map callee_id (new_callees g P x)" by simp
    then show "distinct (map fst (map (flow_entry x) (new_callees g P x)))"
      by (simp add: new_callees_def comp_def)
    show "(callee_id c, snd (flow_entry x c)) \<in> set (map (flow_entry x) (new_callees g P x))"
      using assms(2) by (force simp: flow_entry_def)
  qed
  ultimately show ?thesis
    using new_callees_sub[OF assms(2)] chain_to_append[OF assms(1)]
    by (auto simp: flow_entry_def map_add_def intro!: exI[of _ c] exI[of _ x])
qed

definition nonzero_callees :: "flow_graph \<Rightarrow> bool" where
  "nonzero_callees g \<longleftrightarrow> (\<forall>x. \<forall>c\<in>set (fg_callees g x). callee_id c \<noteq> 0)"

lemma chain_back_to:
  assumes "nonzero_callees g" "n_id s \<noteq> 0"
  shows "chain_to g s P n i \<Longrightarrow> n < k \<Longrightarrow>
    length (chain_back P k i) = Suc n \<and> flow_chain g s (rev (chain_back P k i)) \<and> n_id (fst (hd (chain_back P k i))) = i"
proof (induction n arbitrary: i k)
  case 0
  then obtain k' where k: "k = Suc k'" by (cases k) auto
  have "chain_back P k' 0 = []" by (cases k') simp_all
  then show ?case using 0 assms(2) k by (auto intro: flow_chain.start)
next
  case (Suc n)
  then obtain k' where k: "k = Suc k'" "n < k'" by (cases k) auto
  obtain c x where c: "i = callee_id c" "map_of P i = Some \<lparr>pi_prev = x, pi_kind = edge_label c, pi_node = nr_node c\<rparr>"
    "c \<in> set (fg_callees g x)" "allowed g x c" "chain_to g s P n x" using Suc.prems(1) by auto
  note IH = Suc.IH[OF c(5) k(2)]
  have eq: "chain_back P k i = (nr_node c, edge_label c) # chain_back P k' x"
    using c assms(1) k by (auto simp: nonzero_callees_def)
  have "x = n_id (fst (last (rev (chain_back P k' x))))" using IH by (cases "chain_back P k' x") simp_all
  then have "flow_chain g s (rev (chain_back P k' x) @ [(nr_node c, edge_label c)])"
    using IH c by (blast intro: flow_chain.hop)
  then show ?case using IH eq c(1) by simp
qed

section \<open>The loop is sound\<close>

definition deep_ok :: "flow_graph \<Rightarrow> node \<Rightarrow> parents \<Rightarrow> int \<times> nat \<Rightarrow> bool" where
  "deep_ok g s P deep \<longleftrightarrow>
     fst deep = 0 \<or> (chain_to g s P (snd deep) (fst deep) \<and> fst deep \<in> fg_named g \<and> fst deep \<noteq> n_id s \<and> snd deep < max_hops)"

definition item_ok :: "flow_graph \<Rightarrow> node \<Rightarrow> parents \<Rightarrow> q_item \<Rightarrow> bool" where
  "item_ok g s P q \<longleftrightarrow> q = flow_item g (qi_depth q) (qi_id q) \<and> chain_to g s P (qi_depth q) (qi_id q) \<and> qi_depth q < max_hops"

lemma deep_ok_append: "deep_ok g s P deep \<Longrightarrow> deep_ok g s (P @ E) deep"
  by (auto simp: deep_ok_def chain_to_append)

lemma item_ok_append: "item_ok g s P q \<Longrightarrow> item_ok g s (P @ E) q"
  by (auto simp: item_ok_def chain_to_append)

lemma note_depth_ok: "deep_ok g s P deep \<Longrightarrow> item_ok g s P q \<Longrightarrow> deep_ok g s P (note_depth g (n_id s) q deep)"
  by (auto simp: deep_ok_def item_ok_def note_depth_def)

lemma flow_loop_sound:
  "flow_loop g (n_id s) P Q deep = (P', deep') \<Longrightarrow> \<forall>q\<in>set Q. item_ok g s P q \<Longrightarrow> deep_ok g s P deep \<Longrightarrow> deep_ok g s P' deep'"
proof (induction g "n_id s" P Q deep rule: flow_loop.induct)
  case (1 g P deep)
  then show ?case by simp
next
  case (2 g P cur rest deep)
  let ?deep = "note_depth g (n_id s) cur deep"
  have cur: "item_ok g s P cur" using 2(4) by simp
  have note': "deep_ok g s P ?deep" by (rule note_depth_ok[OF 2(5) cur])
  show ?case
  proof (cases "max_parents \<le> length P")
    case True
    then show ?thesis using 2(3,5) by simp
  next
    case False
    show ?thesis
    proof (cases "max_hops - 1 \<le> qi_depth cur")
      case True
      then show ?thesis using 2(1)[OF False True] 2(3,4) False note' by simp
    next
      case deep: False
      define x d where xd: "x = qi_id cur" "d = qi_depth cur"
      have item: "cur = flow_item g d x" "chain_to g s P d x" "d < max_hops - 1"
        using cur deep by (simp_all add: item_ok_def xd)
      let ?new = "new_callees g P x"
      let ?E = "map (flow_entry x) ?new" and ?Q = "map (\<lambda>c. flow_item g (d + 1) (callee_id c)) ?new"
      have visit: "fold (visit_callee g cur) (fg_callees g (qi_id cur)) (P, rest) = (P @ ?E, rest @ ?Q)"
        using visit_new_callees[of g d x P rest] item(1) by simp
      have "item_ok g s (P @ ?E) q" if q: "q \<in> set (rest @ ?Q)" for q
      proof (cases "q \<in> set rest")
        case True
        then show ?thesis using 2(4) item_ok_append by simp
      next
        case False
        then obtain c where "c \<in> set ?new" "q = flow_item g (d + 1) (callee_id c)" using q by auto
        then show ?thesis using chain_to_new[OF item(2)] item(3) by (simp add: item_ok_def)
      qed
      then show ?thesis
        using 2(2)[OF False deep _ refl] 2(3) visit False deep deep_ok_append[OF note'] by simp
    qed
  qed
qed

lemma flow_search_sound:
  assumes nz: "nonzero_callees g" "n_id s \<noteq> 0"
    and seed: "n_id s \<in> fg_named g" and res: "flow_search g s = Some chain"
  shows "flow_chain g s chain \<and> length chain \<le> max_hops \<and> n_id (fst (last chain)) \<in> fg_named g
    \<and> n_id (fst (last chain)) \<noteq> n_id s"
proof -
  let ?P = "[(n_id s, \<lparr>pi_prev = 0, pi_kind = [], pi_node = s\<rparr>)]"
    and ?Q = "[\<lparr>qi_id = n_id s, qi_depth = 0, qi_streak = 0\<rparr>]"
  obtain P i D where loop: "flow_loop g (n_id s) ?P ?Q (0, 0) = (P, i, D)" by (metis prod.collapse)
  have "deep_ok g s P (i, D)"
    by (rule flow_loop_sound[OF loop]) (use seed in \<open>simp_all add: item_ok_def deep_ok_def flow_item_def max_hops_def\<close>)
  moreover have i: "i \<noteq> 0" "chain = rev (chain_back P max_hops i)"
    using res loop by (auto simp: flow_search_def split: if_splits)
  ultimately have ok: "chain_to g s P D i" "i \<in> fg_named g" "i \<noteq> n_id s" "D < max_hops" by (simp_all add: deep_ok_def)
  note len = chain_back_to[OF nz ok(1,4)]
  have "fst (last chain) = fst (hd (chain_back P max_hops i))"
    using len unfolding i(2) by (cases "chain_back P max_hops i") simp_all
  then show ?thesis using len ok i(2) by simp
qed

section \<open>The loop is exhaustive\<close>

text \<open>The parents that one level adds.\<close>

fun level_entries :: "flow_graph \<Rightarrow> parents \<Rightarrow> int list \<Rightarrow> parents" where
  "level_entries g P [] = []"
| "level_entries g P (x # xs) =
     (let E = map (flow_entry x) (new_callees g P x) in E @ level_entries g (P @ E) xs)"

lemma level_entries_keys:
  "fst ` set (level_entries g P xs) = (\<Union>x\<in>set xs. flow_step g x) - fst ` set P \<and>
   (distinct (map fst P) \<longrightarrow> distinct (map fst (P @ level_entries g P xs)))"
proof (induction xs arbitrary: P)
  case (Cons x xs)
  let ?E = "map (flow_entry x) (new_callees g P x)"
  have keys: "fst ` set ?E = flow_step g x - fst ` set P"
    using new_callees_step[of g P x] by (simp add: image_image)
  have "distinct (map fst ?E)" by (simp add: comp_def new_callees_def)
  then have dist: "distinct (map fst (P @ ?E))" if d: "distinct (map fst P)"
  proof -
    have "set (map fst P) \<inter> set (map fst ?E) = {}"
    proof (rule equals0I)
      fix i assume i: "i \<in> set (map fst P) \<inter> set (map fst ?E)"
      then have "i \<in> callee_id ` set (new_callees g P x)" by (simp add: image_image)
      then obtain c where "c \<in> set (new_callees g P x)" "i = callee_id c" by (rule imageE)
      then show False using new_callees_sub[of c g P x] i by simp
    qed
    then show ?thesis using d \<open>distinct (map fst ?E)\<close> by (simp only: map_append distinct_append)
  qed
  have PE: "fst ` set (P @ ?E) = fst ` set P \<union> (flow_step g x - fst ` set P)"
    using keys by (simp only: set_append image_Un)
  have all: "level_entries g P (x # xs) = ?E @ level_entries g (P @ ?E) xs" by (simp add: Let_def)
  have "fst ` set (level_entries g P (x # xs)) =
      (flow_step g x - fst ` set P) \<union> ((\<Union>y\<in>set xs. flow_step g y) - (fst ` set P \<union> (flow_step g x - fst ` set P)))"
    unfolding all set_append image_Un using keys Cons.IH[of "P @ ?E"] PE by (simp only:)
  moreover have "distinct (map fst (P @ level_entries g P (x # xs)))" if d: "distinct (map fst P)"
    using Cons.IH[of "P @ ?E"] dist[OF d] unfolding all append_assoc by (simp only:)
  ultimately show ?case by auto
qed simp

text \<open>\<open>N\<close> holds the ids the search can meet; there are fewer of them than the loop's limit.\<close>

definition roomy :: "flow_graph \<Rightarrow> int set \<Rightarrow> parents \<Rightarrow> bool" where
  "roomy g N P \<longleftrightarrow> finite N \<and> card N < max_parents \<and> (\<forall>x. flow_step g x \<subseteq> N) \<and> distinct (map fst P) \<and> fst ` set P \<subseteq> N"

lemma roomy_length: "roomy g N P \<Longrightarrow> length P < max_parents"
proof -
  assume r: "roomy g N P"
  then have "length P = card (fst ` set P)" by (metis roomy_def distinct_card length_map set_map)
  also have "\<dots> \<le> card N" using r by (auto simp: roomy_def intro: card_mono)
  finally show ?thesis using r by (simp add: roomy_def)
qed

lemma roomy_level: "roomy g N P \<Longrightarrow> roomy g N (P @ level_entries g P xs)"
proof -
  assume r: "roomy g N P"
  then have "(\<Union>x\<in>set xs. flow_step g x) \<subseteq> N" by (auto simp: roomy_def)
  then have "fst ` set (P @ level_entries g P xs) \<subseteq> N"
    using level_entries_keys[of g P xs] r by (simp add: image_Un roomy_def)
  then show ?thesis using level_entries_keys[of g P xs] r by (simp add: roomy_def)
qed

lemma roomy_new: "roomy g N P \<Longrightarrow> roomy g N (P @ map (flow_entry x) (new_callees g P x))"
  using roomy_level[of g N P "[x]"] by (simp add: Let_def)

lemma flow_level:
  assumes "roomy g N P" "d < max_hops - 1"
  shows "flow_loop g s P (map (flow_item g d) xs @ map (flow_item g (d + 1)) ys) deep =
    flow_loop g s (P @ level_entries g P xs) (map (flow_item g (d + 1)) (ys @ map fst (level_entries g P xs)))
      (fold (note_depth g s) (map (flow_item g d) xs) deep)"
  using assms(1)
proof (induction xs arbitrary: P ys deep)
  case (Cons x xs)
  let ?new = "new_callees g P x"
  let ?E = "map (flow_entry x) ?new"
  have ids: "map fst ?E = map callee_id ?new" by simp
  have "flow_loop g s P (map (flow_item g d) (x # xs) @ map (flow_item g (d + 1)) ys) deep =
    flow_loop g s (P @ ?E) (map (flow_item g d) xs @ map (flow_item g (d + 1)) (ys @ map fst ?E))
      (note_depth g s (flow_item g d x) deep)"
    using assms(2) roomy_length[OF Cons.prems] visit_new_callees[of g d x P]
    by (simp add: comp_def)
  then show ?case
    using Cons.IH[OF roomy_new[OF Cons.prems, of x], of "ys @ map fst ?E" "note_depth g s (flow_item g d x) deep"]
    by (simp add: Let_def)
qed simp

lemma flow_drain:
  assumes "length P < max_parents" "max_hops - 1 \<le> d"
  shows "flow_loop g s P (map (flow_item g d) xs) deep = (P, fold (note_depth g s) (map (flow_item g d) xs) deep)"
  using assms by (induction xs arbitrary: deep) simp_all

text \<open>The first named node of a level that is deeper than what was noted before.\<close>

definition wanted :: "flow_graph \<Rightarrow> int \<Rightarrow> int \<Rightarrow> bool" where
  "wanted g s t \<longleftrightarrow> t \<in> fg_named g \<and> t \<noteq> s"

lemma note_level_none:
  "(\<And>i. i \<in> set xs \<Longrightarrow> \<not> wanted g s i) \<Longrightarrow> fold (note_depth g s) (map (flow_item g d) xs) deep = deep"
  by (induction xs arbitrary: deep) (auto simp: note_depth_def wanted_def)

lemma note_level_kept: "d \<le> snd deep \<Longrightarrow> fold (note_depth g s) (map (flow_item g d) xs) deep = deep"
  by (induction xs arbitrary: deep) (auto simp: note_depth_def)

lemma note_level_some:
  assumes "i \<in> set xs" "wanted g s i" "snd deep < d"
  shows "\<exists>j\<in>set xs. wanted g s j \<and> fold (note_depth g s) (map (flow_item g d) xs) deep = (j, d)"
  using assms
proof (induction xs)
  case (Cons x xs)
  show ?case
  proof (cases "wanted g s x")
    case True
    then have "note_depth g s (flow_item g d x) deep = (x, d)"
      using Cons.prems(3) by (simp add: note_depth_def wanted_def)
    then show ?thesis using True note_level_kept[of d "(x, d)" g s xs] by simp
  next
    case False
    then have "note_depth g s (flow_item g d x) deep = deep" by (auto simp: note_depth_def wanted_def)
    then show ?thesis using Cons False by auto
  qed
qed simp

text \<open>What is noted after \<open>d\<close> levels: nothing, or a wanted node such that no other one is farther away.\<close>

definition noted :: "flow_graph \<Rightarrow> int \<Rightarrow> nat \<Rightarrow> int \<times> nat \<Rightarrow> bool" where
  "noted g s d deep \<longleftrightarrow>
     (if \<exists>t\<in>within (flow_step g) {s} d. wanted g s t
      then wanted g s (fst deep) \<and> 0 < snd deep \<and> snd deep < d
        \<and> (\<forall>t\<in>within (flow_step g) {s} d. wanted g s t \<longrightarrow> t \<in> within (flow_step g) {s} (snd deep + 1))
      else deep = (0, 0))"

lemma noted_step:
  assumes "noted g s d deep" and xs: "set xs = within (flow_step g) {s} (Suc d) - within (flow_step g) {s} d"
  shows "noted g s (Suc d) (fold (note_depth g s) (map (flow_item g d) xs) deep)"
proof -
  let ?W = "within (flow_step g) {s}"
  have split: "?W (Suc d) = set xs \<union> ?W d" using xs within_mono_Suc[of "flow_step g" "{s}" d] by blast
  have deep0: "snd deep < d \<or> deep = (0, 0)" using assms(1) by (auto simp: noted_def split: if_splits)
  show ?thesis
  proof (cases "\<exists>i\<in>set xs. wanted g s i")
    case True
    then obtain i where i: "i \<in> set xs" "wanted g s i" by blast
    have "d \<noteq> 0"
    proof
      assume "d = 0"
      then have "set xs \<subseteq> {s}" using xs by simp
      then show False using i by (auto simp: wanted_def)
    qed
    then have "snd deep < d" using deep0 by auto
    from note_level_some[OF i this] obtain j where "j \<in> set xs" "wanted g s j"
      "fold (note_depth g s) (map (flow_item g d) xs) deep = (j, d)" by blast
    then show ?thesis using split \<open>d \<noteq> 0\<close> by (auto simp: noted_def simp del: within.simps)
  next
    case False
    then have "fold (note_depth g s) (map (flow_item g d) xs) deep = deep" by (intro note_level_none) blast
    moreover have "(\<exists>t\<in>?W (Suc d). wanted g s t) \<longleftrightarrow> (\<exists>t\<in>?W d. wanted g s t)" using False split by blast
    moreover have "(\<forall>t\<in>?W (Suc d). wanted g s t \<longrightarrow> t \<in> ?W k) \<longleftrightarrow> (\<forall>t\<in>?W d. wanted g s t \<longrightarrow> t \<in> ?W k)" for k
      using False split by blast
    ultimately show ?thesis using assms(1) by (auto simp: noted_def simp del: within.simps split: if_splits)
  qed
qed

lemma flow_loop_exact:
  assumes "roomy g N P" "d < max_hops" "fst ` set P = within (flow_step g) {s} (Suc d)"
    and "distinct xs" "set xs = within (flow_step g) {s} (Suc d) - within (flow_step g) {s} d" "noted g s d deep"
  shows "noted g s max_hops (snd (flow_loop g s P (map (flow_item g d) xs) deep))"
  using assms
proof (induction "max_hops - 1 - d" arbitrary: d P xs deep)
  case 0
  then have d: "Suc d = max_hops" by simp
  then have "flow_loop g s P (map (flow_item g d) xs) deep = (P, fold (note_depth g s) (map (flow_item g d) xs) deep)"
    by (intro flow_drain) (use roomy_length[OF 0(2)] in simp_all)
  then show ?case using noted_step[OF 0(7,6)] d by simp
next
  case (Suc n)
  let ?W = "within (flow_step g) {s}" and ?E = "level_entries g P xs"
  have d: "d < max_hops - 1" using Suc.hyps(2) by simp
  have split: "?W (Suc d) = set xs \<union> ?W d" using Suc.prems(5) within_mono_Suc[of "flow_step g" "{s}" d] by blast
  have next_level: "?W (Suc (Suc d)) = ?W (Suc d) \<union> (\<Union>x\<in>set xs. flow_step g x)" by (rule within_level[OF split])
  have E: "fst ` set ?E = ?W (Suc (Suc d)) - ?W (Suc d)"
    using level_entries_keys[of g P xs] Suc.prems(3) next_level by auto
  have P: "fst ` set (P @ ?E) = ?W (Suc (Suc d))"
    using E Suc.prems(3) within_mono_Suc[of "flow_step g" "{s}" "Suc d"] by (simp add: image_Un del: within.simps) blast
  have "distinct (map fst (P @ ?E))" using level_entries_keys[of g P xs] Suc.prems(1) by (simp add: roomy_def)
  then have dist: "distinct (map fst ?E)" by simp
  have "noted g s max_hops (snd (flow_loop g s (P @ ?E) (map (flow_item g (Suc d)) (map fst ?E))
      (fold (note_depth g s) (map (flow_item g d) xs) deep)))"
    by (rule Suc.hyps(1)) (use Suc.hyps(2) d roomy_level[OF Suc.prems(1)] P E dist noted_step[OF Suc.prems(6,5)]
      in \<open>simp_all del: within.simps\<close>)
  then show ?case using flow_level[OF Suc.prems(1) d, of s xs "[]" deep] by simp
qed

section \<open>The search and the best chain\<close>

lemma flow_search_exact:
  assumes nz: "nonzero_callees g" "n_id s \<noteq> 0" "0 \<notin> fg_named g" and seed: "n_id s \<in> fg_named g"
    and room: "finite N" "card N < max_parents" "\<forall>x. flow_step g x \<subseteq> N" "n_id s \<in> N"
    and t: "wanted g (n_id s) t" "t \<in> within (flow_step g) {n_id s} max_hops"
  shows "\<exists>chain. flow_search g s = Some chain \<and> t \<in> within (flow_step g) {n_id s} (length chain)"
proof -
  let ?P = "[(n_id s, \<lparr>pi_prev = 0, pi_kind = [], pi_node = s\<rparr>)]"
    and ?Q = "[\<lparr>qi_id = n_id s, qi_depth = 0, qi_streak = 0\<rparr>]" and ?W = "within (flow_step g) {n_id s}"
  obtain P i D where loop: "flow_loop g (n_id s) ?P ?Q (0, 0) = (P, i, D)" by (metis prod.collapse)
  have Q: "?Q = map (flow_item g 0) [n_id s]" using seed by (simp add: flow_item_def)
  have ok: "deep_ok g s P (i, D)"
    by (rule flow_loop_sound[OF loop]) (use seed in \<open>simp_all add: item_ok_def deep_ok_def flow_item_def max_hops_def\<close>)
  have "noted g (n_id s) max_hops (snd (flow_loop g (n_id s) ?P (map (flow_item g 0) [n_id s]) (0, 0)))"
    by (rule flow_loop_exact) (use room in \<open>simp_all add: roomy_def noted_def max_hops_def\<close>)
  then have farthest: "noted g (n_id s) max_hops (i, D)" using loop unfolding Q by simp
  have ex: "\<exists>u\<in>?W max_hops. wanted g (n_id s) u" using t by blast
  have far: "wanted g (n_id s) i" "t \<in> ?W (D + 1)"
    using farthest t ex unfolding noted_def by auto
  then have "i \<noteq> 0" using nz(3) by (auto simp: wanted_def)
  then have res: "flow_search g s = Some (rev (chain_back P max_hops i))" using loop by (simp add: flow_search_def)
  have "chain_to g s P D i" "D < max_hops" using ok \<open>i \<noteq> 0\<close> by (simp_all add: deep_ok_def)
  from chain_back_to[OF nz(1,2) this] have "length (rev (chain_back P max_hops i)) = D + 1" by simp
  then show ?thesis using res far(2) by auto
qed

lemma best_fold:
  "case fold (better_chain g) seeds best of
     None \<Rightarrow> best = None \<and> (\<forall>s\<in>set seeds. flow_search g s = None)
   | Some b \<Rightarrow> (best = Some b \<or> (\<exists>s\<in>set seeds. flow_search g s = Some b))
       \<and> (\<forall>s\<in>set seeds. \<forall>c. flow_search g s = Some c \<longrightarrow> length c \<le> length b)
       \<and> (\<forall>b0. best = Some b0 \<longrightarrow> length b0 \<le> length b)"
proof (induction seeds arbitrary: best)
  case (Cons s seeds)
  have step: "better_chain g s best = best \<and> (\<forall>c. flow_search g s = Some c \<longrightarrow> (\<exists>b. best = Some b \<and> length c \<le> length b))
    \<or> (better_chain g s best = flow_search g s \<and> flow_search g s \<noteq> None
       \<and> (\<forall>b c. best = Some b \<longrightarrow> flow_search g s = Some c \<longrightarrow> length b < length c))"
    by (auto simp: better_chain_def split: option.splits)
  have IH: "case fold (better_chain g) seeds (better_chain g s best) of
     None \<Rightarrow> better_chain g s best = None \<and> (\<forall>s\<in>set seeds. flow_search g s = None)
   | Some b \<Rightarrow> (better_chain g s best = Some b \<or> (\<exists>s\<in>set seeds. flow_search g s = Some b))
       \<and> (\<forall>s\<in>set seeds. \<forall>c. flow_search g s = Some c \<longrightarrow> length c \<le> length b)
       \<and> (\<forall>b0. better_chain g s best = Some b0 \<longrightarrow> length b0 \<le> length b)" by (rule Cons.IH)
  show ?case
  proof (cases "fold (better_chain g) seeds (better_chain g s best)")
    case None
    then have "better_chain g s best = None" "\<forall>s\<in>set seeds. flow_search g s = None" using IH by simp_all
    then show ?thesis using step None by (cases "flow_search g s") auto
  next
    case (Some b)
    then have i: "better_chain g s best = Some b \<or> (\<exists>s\<in>set seeds. flow_search g s = Some b)"
      "\<And>s c. s \<in> set seeds \<Longrightarrow> flow_search g s = Some c \<Longrightarrow> length c \<le> length b"
      "\<And>b0. better_chain g s best = Some b0 \<Longrightarrow> length b0 \<le> length b" using IH by simp_all
    have "best = Some b \<or> (\<exists>s\<in>set (s # seeds). flow_search g s = Some b)" using i(1) step by auto
    moreover have "length c \<le> length b" if "flow_search g s = Some c" for c
      using step that i(3) by (elim disjE) (force, force)
    moreover have "length b0 \<le> length b" if b0: "best = Some b0" for b0
    proof (cases "flow_search g s")
      case None
      then show ?thesis using step i(3) b0 by auto
    next
      case (Some c)
      from step show ?thesis
      proof
        assume "better_chain g s best = best \<and> (\<forall>c. flow_search g s = Some c \<longrightarrow> (\<exists>b. best = Some b \<and> length c \<le> length b))"
        then show ?thesis using i(3) b0 by simp
      next
        assume "better_chain g s best = flow_search g s \<and> flow_search g s \<noteq> None
          \<and> (\<forall>b c. best = Some b \<longrightarrow> flow_search g s = Some c \<longrightarrow> length b < length c)"
        then have "length b0 < length c" "length c \<le> length b" using i(3)[of c] b0 Some by auto
        then show ?thesis by simp
      qed
    qed
    ultimately show ?thesis using Some i(2) by auto
  qed
qed (simp split: option.split)

lemma best_chain_cases:
  "(best_chain g seeds = [] \<or> (\<exists>s\<in>set (take 8 seeds). flow_search g s = Some (best_chain g seeds)))
   \<and> (\<forall>s\<in>set (take 8 seeds). \<forall>c. flow_search g s = Some c \<longrightarrow> length c \<le> length (best_chain g seeds))"
  using best_fold[where g = g and seeds = "take 8 seeds" and best = None] by (auto simp: best_chain_def split: option.splits)

section \<open>The symbols come from the index\<close>

lemma get_node_by_name_sub: "set (get_node_by_name name db) \<subseteq> set (g_nodes db)"
  using set_take_subset[of node_by_name_cap "sort_key n_id (filter (\<lambda>n. n_name n = name) (g_nodes db))"]
  by (auto simp: get_node_by_name_def)

lemma find_callable_sub:
  assumes "\<And>w. set (te_fts te db w 20) \<subseteq> set (g_nodes db)"
  shows "set (find_callable_symbols te db token) \<subseteq> set (g_nodes db)"
  unfolding find_callable_symbols_def Let_def
  using get_node_by_name_sub[of _ db] assms by (auto split: if_splits option.splits)

lemma add_picks_sub: "set (fst (fold (add_pick sp) ps s)) \<subseteq> set (fst s) \<union> set ps"
proof (induction ps arbitrary: s)
  case (Cons p ps)
  have "set (fst (add_pick sp p s)) \<subseteq> insert p (set (fst s))" by (auto simp: add_pick_def split_def Let_def)
  then show ?case using Cons.IH[of "add_pick sp p s"] by auto
qed simp

lemma collect_named_sub:
  assumes fts: "\<And>w. set (te_fts te db w 20) \<subseteq> set (g_nodes db)"
  shows "set (fst (collect_named te db root pool ts s)) \<subseteq> set (fst s) \<union> set (g_nodes db)"
proof (induction ts arbitrary: s)
  case (Cons t ts)
  obtain sp ps where p: "token_picks te db root pool t = (sp, ps)" by fastforce
  have "set ps \<subseteq> set (find_callable_symbols te db t)"
    using p in_set_takeD[of _ 6] by (fastforce simp: token_picks_def Let_def)
  then have "set ps \<subseteq> set (g_nodes db)" using find_callable_sub[of te db t, OF fts] by blast
  then have "set (fst (fold (add_pick sp) ps s)) \<subseteq> set (fst s) \<union> set (g_nodes db)"
    using add_picks_sub[of sp ps s] by blast
  then show ?case using Cons.IH[of "fold (add_pick sp) ps s"] p
    by (cases "40 < length (fst (fold (add_pick sp) ps s))") (auto simp: Let_def)
qed simp

section \<open>The flow of a query\<close>

text \<open>The graph the search for a result ran on.\<close>

definition flow_graph_for :: "flow_env \<Rightarrow> gdb \<Rightarrow> string \<Rightarrow> flow_result \<Rightarrow> flow_graph" where
  "flow_graph_for te db root r = flow_graph_of te db (if root = [] then te_workdir te else root) (fl_named r)"

lemma flow_graph_of_simps [simp]:
  "fg_named (flow_graph_of te db root named) = n_id ` set named"
  "fg_callees (flow_graph_of te db root named) = get_callees_with_kind db"
  by (simp_all add: flow_graph_of_def)

lemma callees_in_db: "c \<in> set (get_callees_with_kind db x) \<Longrightarrow> nr_node c \<in> set (g_nodes db)"
  by (auto simp: get_callees_with_kind_def dest!: in_set_takeD)

lemma nonzero_flow: "db_ok db \<Longrightarrow> nonzero_callees (flow_graph_of te db root named)"
  using callees_in_db by (fastforce simp: nonzero_callees_def db_ok_def ok_defs)

lemma flow_step_in_db: "flow_step (flow_graph_of te db root named) x \<subseteq> n_id ` set (g_nodes db)"
  using callees_in_db by (fastforce simp: flow_step_def)

text \<open>The cases of \<^verbatim>\<open>buildFlowFromNamedSymbols\<close>: with a named symbol in the result, its path is the best chain.\<close>

lemma build_flow_cases:
  assumes "r = build_flow te db root q skip" "best = best_chain (flow_graph_for te db root r) (fl_named r)"
  shows "(fl_named r = [] \<and> fl_path r = []) \<or> fl_path r = (if length best < 2 then [] else map fst best)"
proof -
  let ?root = "if root = [] then te_workdir te else root"
  let ?tokens = "tokenize_explore_query (te_low te) q"
  obtain named uniq where n: "collect_named te db ?root (\<Union>t\<in>set ?tokens. set (token_segments (te_low te) t)) ?tokens ([], {})
      = (named, uniq)" by fastforce
  show ?thesis
  proof (cases "length ?tokens < 2 \<or> length named < 2")
    case True
    then have "r = empty_flow" using assms(1) n by (auto simp: build_flow_def Let_def)
    then show ?thesis by (simp add: empty_flow_def)
  next
    case False
    then have "fl_named r = named" using assms(1) n by (simp add: build_flow_def Let_def)
    then have "best = best_chain (flow_graph_of te db ?root named) named" using assms(2) by (simp add: flow_graph_for_def)
    then show ?thesis using False assms(1) n by (simp add: build_flow_def Let_def empty_flow_def)
  qed
qed

lemma build_flow_named:
  assumes "\<And>w. set (te_fts te db w 20) \<subseteq> set (g_nodes db)"
  shows "set (fl_named (build_flow te db root q skip)) \<subseteq> set (g_nodes db)"
proof -
  let ?root = "if root = [] then te_workdir te else root"
  let ?tokens = "tokenize_explore_query (te_low te) q"
  obtain named uniq where n: "collect_named te db ?root (\<Union>t\<in>set ?tokens. set (token_segments (te_low te) t)) ?tokens ([], {})
      = (named, uniq)" by fastforce
  have "set named \<subseteq> set (g_nodes db)"
    using collect_named_sub[OF assms, where root = ?root and ts = ?tokens and s = "([], {})"
        and pool = "\<Union>t\<in>set ?tokens. set (token_segments (te_low te) t)"] n by simp
  then show ?thesis using n by (simp add: build_flow_def Let_def empty_flow_def)
qed

text \<open>
  C26 (\<open>flow_path_sound\<close>).  The flow shown is a real chain of calls: it starts at one of the named symbols and
  ends at another, each hop is an edge of the index to a symbol inside the subtree, no two
  consecutive symbols are unnamed, and it has between two and seven symbols.
\<close>

theorem flow_path_sound:
  assumes "db_ok db" "\<And>w. set (te_fts te db w 20) \<subseteq> set (g_nodes db)"
    and "r = build_flow te db root q skip" "fl_path r \<noteq> []"
  shows "\<exists>seed chain. seed \<in> set (take 8 (fl_named r)) \<and> flow_chain (flow_graph_for te db root r) seed chain
    \<and> fl_path r = map fst chain \<and> 2 \<le> length chain \<and> length chain \<le> max_hops
    \<and> n_id (last (fl_path r)) \<in> n_id ` set (fl_named r) \<and> n_id (last (fl_path r)) \<noteq> n_id seed"
proof -
  let ?g = "flow_graph_for te db root r"
  let ?best = "best_chain ?g (fl_named r)"
  have path: "fl_path r = map fst ?best" "2 \<le> length ?best"
    using build_flow_cases[OF assms(3) refl] assms(4) by (auto split: if_splits)
  then have "?best \<noteq> []" by auto
  then obtain s where s: "s \<in> set (take 8 (fl_named r))" "flow_search ?g s = Some ?best"
    using best_chain_cases[of ?g "fl_named r"] by auto
  have mem: "s \<in> set (fl_named r)" using s(1) by (rule in_set_takeD)
  then have "s \<in> set (g_nodes db)" using build_flow_named[OF assms(2), where root = root and q = q and skip = skip] assms(3) by blast
  then have "n_id s \<noteq> 0" using assms(1) by (auto simp: db_ok_def ok_defs)
  moreover have "nonzero_callees ?g" unfolding flow_graph_for_def by (rule nonzero_flow[OF assms(1)])
  moreover have "n_id s \<in> fg_named ?g" using mem by (simp add: flow_graph_for_def)
  ultimately have ok: "flow_chain ?g s ?best \<and> length ?best \<le> max_hops \<and> n_id (fst (last ?best)) \<in> fg_named ?g
    \<and> n_id (fst (last ?best)) \<noteq> n_id s"
    using flow_search_sound s(2) by blast
  have "last (fl_path r) = fst (last ?best)" unfolding path(1) using \<open>?best \<noteq> []\<close> by (rule last_map)
  moreover have "fg_named ?g = n_id ` set (fl_named r)" by (simp add: flow_graph_for_def)
  ultimately show ?thesis using s(1) ok path by metis
qed


section \<open>Witnesses\<close>

text \<open>Three functions that call each other in a triangle: \<open>one\<close> calls \<open>two\<close> and \<open>three\<close>, \<open>two\<close> calls \<open>three\<close>.\<close>

definition flow_db :: gdb where
  "flow_db = sample_db\<lparr>g_nodes := [sample_node 1 ''function'' ''one'' ''f'' 1, sample_node 2 ''function'' ''two'' ''f'' 2,
      sample_node 3 ''function'' ''three'' ''f'' 3], g_next_node := 4,
     g_edges := [sample_edge 1 2, sample_edge 1 3, sample_edge 2 3], g_refs := []\<rparr>"

definition flow_sample :: flow_env where
  "flow_sample = \<lparr>te_low = id, te_evals = Some, te_fts = (\<lambda>db q n. []), te_workdir = ''/w'', te_equal_fold = (=)\<rparr>"

lemma flow_fields: "fields_func token_separator ''one two three'' = [''one'', ''two'', ''three'']"
proof -
  have "rune_segs ''one two three'' = map (\<lambda>c. (byte_of c, [c])) ''one two three''"
    by (rule rune_segs_ascii) (simp add: ascii_string_def)
  then show ?thesis by (simp add: fields_func_def token_separator_def is_space_def)
qed

lemma flow_tokens: "tokenize_explore_query id ''one two three'' = [''one'', ''two'', ''three'']"
proof -
  have strip: "strip_file_ext (trim_space p) = p" if "p \<in> {''one'', ''two'', ''three''}" for p
    using that by (auto simp: strip_file_ext_def str_eval)
  have ident: "explore_ident p" if "p \<in> {''one'', ''two'', ''three''}" for p
    using that by (auto simp: explore_ident_def ident_start_def ident_char_def less_eq_char_def)
  show ?thesis
    by (simp add: tokenize_explore_query_def flow_fields strip ident)
qed

abbreviation flow_node :: "int \<Rightarrow> node" where
  "flow_node i \<equiv> sample_node i ''function'' (if i = 1 then ''one'' else if i = 2 then ''two'' else ''three'') ''f'' i"

lemma flow_nodes: "g_nodes flow_db = [flow_node 1, flow_node 2, flow_node 3]"
  by (simp add: flow_db_def sample_db_def)

lemma flow_db_ok: "db_ok flow_db"
  by (simp add: db_ok_def ok_defs flow_db_def sample_defs node_key_def edge_key_def)

lemma flow_rows:
  "get_callees_with_kind flow_db 1 = [\<lparr>nr_node = flow_node 2, nr_kind = edge_calls\<rparr>, \<lparr>nr_node = flow_node 3, nr_kind = edge_calls\<rparr>]"
  "get_callees_with_kind flow_db 2 = [\<lparr>nr_node = flow_node 3, nr_kind = edge_calls\<rparr>]"
  "get_callees_with_kind flow_db 3 = []"
  by (simp_all add: get_callees_with_kind_def graph_query_row_limit_def flow_db_def sample_defs structural_kinds_def)

lemma flow_finds:
  "find_callable_symbols flow_sample flow_db ''one'' = [flow_node 1]"
  "find_callable_symbols flow_sample flow_db ''two'' = [flow_node 2]"
  "find_callable_symbols flow_sample flow_db ''three'' = [flow_node 3]"
  by (simp_all add: find_callable_symbols_def get_node_by_name_def node_by_name_cap_def flow_nodes sample_node_def
      is_explore_callable_def qualifier_chars_def)

lemma flow_inside: "in_explore_root flow_sample ''/w'' n"
  by (simp add: in_explore_root_def flow_sample_def path_under_root_def)

lemma flow_collect:
  "collect_named flow_sample flow_db ''/w'' pool [''one'', ''two'', ''three''] ([], {}) = (map flow_node [1, 2, 3], {1, 2, 3})"
  by (simp add: token_picks_def flow_finds flow_inside add_pick_def sample_node_def insert_commute)

definition flow_sample_graph :: flow_graph where
  "flow_sample_graph = flow_graph_of flow_sample flow_db ''/w'' (map flow_node [1, 2, 3])"

lemma flow_id [simp]: "n_id (sample_node i k m f l) = i"
  by (simp add: sample_node_def)

lemma flow_visit:
  "fg_inside flow_sample_graph n" "fg_named flow_sample_graph = {1, 2, 3}"
  "fg_callees flow_sample_graph = get_callees_with_kind flow_db"
  by (simp_all add: flow_sample_graph_def flow_graph_of_def flow_inside)

lemma flow_searches:
  "flow_search flow_sample_graph (flow_node 1) = Some [(flow_node 1, []), (flow_node 2, edge_calls)]"
  "flow_search flow_sample_graph (flow_node 2) = Some [(flow_node 2, []), (flow_node 3, edge_calls)]"
  "flow_search flow_sample_graph (flow_node 3) = None"
  by (simp_all add: flow_search_def flow_rows visit_callee_def flow_visit note_depth_def max_parents_def max_hops_def
      max_bridge_def edge_label_def eval_nat_numeral)

lemma flow_sample_run:
  "fl_named (build_flow flow_sample flow_db [] ''one two three'' True) = map flow_node [1, 2, 3]"
  "fl_path (build_flow flow_sample flow_db [] ''one two three'' True) = [flow_node 1, flow_node 2]"
proof -
  have best: "best_chain flow_sample_graph (map flow_node [1, 2, 3]) = [(flow_node 1, []), (flow_node 2, edge_calls)]"
    using flow_searches by (simp add: best_chain_def better_chain_def)
  have env: "te_low flow_sample = id" "te_workdir flow_sample = ''/w''" by (simp_all add: flow_sample_def)
  show "fl_named (build_flow flow_sample flow_db [] ''one two three'' True) = map flow_node [1, 2, 3]"
    "fl_path (build_flow flow_sample flow_db [] ''one two three'' True) = [flow_node 1, flow_node 2]"
    using best flow_collect unfolding flow_sample_graph_def by (simp_all add: build_flow_def env flow_tokens)
qed

lemma flow_sample_fts: "set (te_fts flow_sample flow_db w 20) \<subseteq> set (g_nodes flow_db)"
  by (simp add: flow_sample_def)

abbreviation flow_sample_result :: flow_result where
  "flow_sample_result \<equiv> build_flow flow_sample flow_db [] ''one two three'' True"

theorem flow_path_sound_witness:
  "2 \<le> length (fl_path flow_sample_result) \<and> last (fl_path flow_sample_result) = flow_node 2"
proof -
  have ne: "fl_path flow_sample_result \<noteq> []" by (simp add: flow_sample_run)
  have "2 \<le> length (fl_path flow_sample_result)"
    using flow_path_sound[OF flow_db_ok flow_sample_fts refl ne] by auto
  then show ?thesis by (simp add: flow_sample_run)
qed

lemma flow_sample_step: "3 \<in> flow_step (flow_graph_for flow_sample flow_db [] flow_sample_result) 1"
proof -
  have "te_workdir flow_sample = ''/w''" by (simp add: flow_sample_def)
  then have "flow_graph_for flow_sample flow_db [] flow_sample_result = flow_sample_graph"
    unfolding flow_graph_for_def flow_sample_graph_def flow_sample_run by simp
  moreover have "callee_id \<lparr>nr_node = flow_node 3, nr_kind = edge_calls\<rparr> \<in> flow_step flow_sample_graph 1"
    unfolding flow_step_def by (rule imageI) (simp add: flow_visit flow_rows allowed_def)
  ultimately show ?thesis by simp
qed


section \<open>What the search does not find\<close>

text \<open>
  The chain is a shortest one to the farthest symbol, not the longest among the named symbols: in the
  triangle the search shows \<open>one\<close>, \<open>two\<close> although \<open>one\<close>, \<open>two\<close>, \<open>three\<close> is a chain of named symbols too.
\<close>

lemma flow_not_longest:
  "length (fl_path flow_sample_result) = 2
   \<and> flow_chain flow_sample_graph (flow_node 1) [(flow_node 1, []), (flow_node 2, edge_calls), (flow_node 3, edge_calls)]"
proof -
  have two: "flow_chain flow_sample_graph (flow_node 1) ([(flow_node 1, [])] @ [(flow_node 2, edge_calls)])"
    using flow_chain.hop[OF flow_chain.start refl, of "\<lparr>nr_node = flow_node 2, nr_kind = edge_calls\<rparr>" flow_sample_graph "flow_node 1"]
    by (simp add: flow_visit flow_rows allowed_def edge_label_def)
  have "flow_chain flow_sample_graph (flow_node 1)
      (([(flow_node 1, [])] @ [(flow_node 2, edge_calls)]) @ [(flow_node 3, edge_calls)])"
    using flow_chain.hop[OF two refl, of "\<lparr>nr_node = flow_node 3, nr_kind = edge_calls\<rparr>"]
    by (simp add: flow_visit flow_rows allowed_def edge_label_def)
  then show ?thesis by (simp add: flow_sample_run)
qed

text \<open>
  A token qualified with \<open>::\<close> has no tail to fall back on: only a symbol of exactly that name, or one the
  full-text search equates with the whole token, is found.
\<close>

lemma scoped_token_whole:
  assumes "set token \<inter> qualifier_chars = {}" "n \<in> set (find_callable_symbols te db token)"
    and "\<And>w n. n \<in> set (te_fts te db w 20) \<Longrightarrow> te_equal_fold te (n_name n) w \<Longrightarrow> n_name n = w"
  shows "n_name n = token"
proof -
  have none: "last_index_any qualifier_chars token = None" using assms(1) by (simp add: last_index_any_None)
  then have "last_segment token = token" by (simp add: last_segment_def)
  then show ?thesis
    using assms none by (auto simp: find_callable_symbols_def Let_def get_node_by_name_def split: if_splits dest!: in_set_takeD)
qed

end
