(* ===== verification/Watcher.thy ===== *)
theory Watcher
  imports Orchestrator
begin

text \<open>
  The file watcher (\<^verbatim>\<open>sync/watcher.go\<close>): the paths waiting to be synced with their debounce times
  and retry budgets, the walk that registers directories, the event loop, and the pass that takes
  a snapshot of the ready paths and settles or requeues them.

  The event loop and the pass are two goroutines.  Every access to the shared state is one step of
  the relation \<open>watch_step\<close>, so any interleaving of the two is a run of it.  A pointer to a pending
  entry is the entry's number: entries are numbered as they are made, and the code compares
  pointers only to see whether an entry has been replaced.
\<close>

section \<open>State\<close>

record pending_entry =
  pe_id :: nat
  pe_since :: int
  pe_retries :: nat

record pending_job =
  pj_path :: string
  pj_id :: nat

text \<open>
  The pending paths, the next entry number, the clock in nanoseconds, the done channel, the
  counters, and the directories registered for events.
\<close>

record watcher =
  w_pending :: "string \<Rightarrow> pending_entry option"
  w_next :: nat
  w_clock :: int
  w_stopped :: bool
  w_dropped :: nat
  w_blind :: nat
  w_unreadable :: nat
  w_watched :: "string set"

definition max_pending_retries :: nat where
  "max_pending_retries = 3"

definition debounce :: int where
  "debounce = 2000000000"

definition new_watcher :: "int \<Rightarrow> watcher" where
  "new_watcher now =
     \<lparr>w_pending = Map.empty, w_next = 0, w_clock = now, w_stopped = False, w_dropped = 0, w_blind = 0,
      w_unreadable = 0, w_watched = {}\<rparr>"

section \<open>The pending paths\<close>

definition put_pending :: "string \<Rightarrow> nat \<Rightarrow> watcher \<Rightarrow> watcher" where
  "put_pending path retries w =
     w\<lparr>w_pending := (w_pending w)(path \<mapsto> \<lparr>pe_id = w_next w, pe_since = w_clock w, pe_retries = retries\<rparr>),
       w_next := w_next w + 1\<rparr>"

definition enqueue :: "string \<Rightarrow> watcher \<Rightarrow> watcher" where
  "enqueue path w = put_pending path 0 w"

text \<open>\<^verbatim>\<open>requeue\<close>, and whether it gives the path up.\<close>

definition requeue_drops :: "pending_job \<Rightarrow> watcher \<Rightarrow> bool" where
  "requeue_drops j w \<longleftrightarrow>
     \<not> w_stopped w
     \<and> (case w_pending w (pj_path j) of
          None \<Rightarrow> False
        | Some cur \<Rightarrow> pe_id cur = pj_id j \<and> max_pending_retries \<le> pe_retries cur + 1)"

definition requeue :: "pending_job \<Rightarrow> watcher \<Rightarrow> watcher" where
  "requeue j w =
     (if w_stopped w then w
      else case w_pending w (pj_path j) of
        None \<Rightarrow> put_pending (pj_path j) 1 w
      | Some cur \<Rightarrow>
          if pe_id cur \<noteq> pj_id j then w
          else if max_pending_retries \<le> pe_retries cur + 1
          then w\<lparr>w_pending := (w_pending w)(pj_path j := None), w_dropped := w_dropped w + 1\<rparr>
          else w\<lparr>w_pending := (w_pending w)(pj_path j \<mapsto>
                   cur\<lparr>pe_since := w_clock w, pe_retries := pe_retries cur + 1\<rparr>)\<rparr>)"

definition settled :: "pending_job \<Rightarrow> watcher \<Rightarrow> watcher" where
  "settled j w =
     (case w_pending w (pj_path j) of
        None \<Rightarrow> w
      | Some cur \<Rightarrow> if pe_id cur = pj_id j then w\<lparr>w_pending := (w_pending w)(pj_path j := None)\<rparr> else w)"

text \<open>The jobs a pass may pick up now.\<close>

definition ready_jobs :: "watcher \<Rightarrow> pending_job set" where
  "ready_jobs w =
     (\<lambda>p. \<lparr>pj_path = p, pj_id = pe_id (the (w_pending w p))\<rparr>)
       ` {p \<in> dom (w_pending w). debounce \<le> w_clock w - pe_since (the (w_pending w p))}"

section \<open>Registering directories\<close>

text \<open>The walk of \<^verbatim>\<open>Start\<close>: the watcher, and whether the walk went through.\<close>

fun start_walk :: "walk_env \<Rightarrow> string \<Rightarrow> (string \<Rightarrow> bool) \<Rightarrow> walk_event list \<Rightarrow> watcher \<Rightarrow> watcher \<times> bool" where
  "start_walk env wd add_ok [] w = (w, True)"
| "start_walk env wd add_ok (ev # evs) w =
     (case ev of
        Ev_error p \<Rightarrow>
          (let w1 = w\<lparr>w_unreadable := w_unreadable w + 1\<rparr> in
           if clean p = clean wd then (w1, False) else start_walk env wd add_ok evs w1)
      | Ev_dir p \<Rightarrow>
          (if should_skip_dir_in env wd p (filepath_base p) then start_walk env wd add_ok evs w
           else if add_ok p then start_walk env wd add_ok evs (w\<lparr>w_watched := insert p (w_watched w)\<rparr>)
           else if clean p = clean wd then (w, False)
           else start_walk env wd add_ok evs (w\<lparr>w_blind := w_blind w + 1\<rparr>))
      | Ev_file p linked sz t \<Rightarrow> start_walk env wd add_ok evs w)"

definition start_watching :: "walk_env \<Rightarrow> string \<Rightarrow> (string \<Rightarrow> bool) \<Rightarrow> fs option \<Rightarrow> watcher \<Rightarrow> watcher \<times> bool" where
  "start_watching env wd add_ok root w = start_walk env wd add_ok (walk_root env wd root) w"

definition is_supported :: "string \<Rightarrow> bool" where
  "is_supported path = (let lang = detect_language path in lang \<noteq> [] \<and> is_supported_language lang)"

text \<open>One callback of \<^verbatim>\<open>watchTree\<close>; \<open>add_ok\<close> says whether the directory could be registered.\<close>

definition visit_queues :: "walk_event \<Rightarrow> string option" where
  "visit_queues ev = (case ev of Ev_file p linked sz t \<Rightarrow> if is_supported p then Some p else None | _ \<Rightarrow> None)"

definition watch_tree_visit :: "walk_env \<Rightarrow> string \<Rightarrow> bool \<Rightarrow> walk_event \<Rightarrow> watcher \<Rightarrow> watcher" where
  "watch_tree_visit env wd add_ok ev w =
     (case ev of
        Ev_error p \<Rightarrow> w
      | Ev_file p linked sz t \<Rightarrow> if is_supported p then enqueue p w else w
      | Ev_dir p \<Rightarrow>
          if should_skip_dir_in env wd p (filepath_base p) then w
          else if add_ok then w\<lparr>w_watched := insert p (w_watched w)\<rparr>
          else w\<lparr>w_blind := w_blind w + 1\<rparr>)"

section \<open>Events\<close>

text \<open>The flags of an event's operation.\<close>

datatype fs_op = Op_create | Op_write | Op_remove | Op_rename | Op_chmod

definition should_queue_watch_path :: "string \<Rightarrow> fs_op set \<Rightarrow> bool" where
  "should_queue_watch_path path op =
     (if op \<inter> {Op_create, Op_write, Op_remove, Op_rename} = {} then False
      else if is_supported path then True
      else op \<inter> {Op_remove, Op_rename} \<noteq> {})"

datatype loop_action = Ignore | Watch_tree | Queue_path

text \<open>What the loop does with an event; \<open>is_dir\<close> is the \<^verbatim>\<open>Stat\<close> of the path.\<close>

definition on_event :: "string \<Rightarrow> fs_op set \<Rightarrow> bool \<Rightarrow> loop_action" where
  "on_event path op is_dir =
     (if op \<inter> {Op_create, Op_write, Op_remove, Op_rename} = {} then Ignore
      else if Op_create \<in> op \<and> is_dir then Watch_tree
      else if should_queue_watch_path path op then Queue_path
      else Ignore)"

section \<open>The pass\<close>

text \<open>
  The interface \<^verbatim>\<open>indexer\<close>: \<^verbatim>\<open>IndexChanges\<close> with how it ended and what \<^verbatim>\<open>PartialFailures\<close> and
  \<^verbatim>\<open>IndexFailedFiles\<close> say right after it, \<^verbatim>\<open>DeleteFile\<close> and \<^verbatim>\<open>DeleteTree\<close> with whether they succeed.
\<close>

datatype index_end = Index_ok | Index_interrupted | Index_error

record index_report =
  ir_end :: index_end
  ir_partial :: nat
  ir_failed :: "string list"

record 'o indexer =
  ix_changes :: "string list \<Rightarrow> 'o \<Rightarrow> 'o \<times> index_report"
  ix_delete_file :: "string \<Rightarrow> 'o \<Rightarrow> 'o \<times> bool"
  ix_delete_tree :: "string \<Rightarrow> 'o \<Rightarrow> 'o \<times> bool"

text \<open>
  A verdict is a job to settle or to requeue.  What \<^verbatim>\<open>requeueFailed\<close> and the end of
  \<^verbatim>\<open>processPending\<close> decide about the jobs of a batch:
\<close>

definition requeue_failed :: "string list \<Rightarrow> pending_job list \<Rightarrow> (pending_job \<times> bool) list" where
  "requeue_failed failed jobs =
     (if set failed = {} then map (\<lambda>j. (j, False)) jobs
      else map (\<lambda>j. (j, pj_path j \<notin> set failed)) jobs)"

definition batch_verdicts :: "index_report \<Rightarrow> pending_job list \<Rightarrow> (pending_job \<times> bool) list" where
  "batch_verdicts r jobs =
     (case ir_end r of
        Index_interrupted \<Rightarrow> []
      | Index_error \<Rightarrow> requeue_failed (ir_failed r) jobs
      | Index_ok \<Rightarrow> if 0 < ir_partial r then requeue_failed (ir_failed r) jobs else map (\<lambda>j. (j, True)) jobs)"

text \<open>One ready path: what \<^verbatim>\<open>Lstat\<close> says, and the verdict unless the path joins the batch.\<close>

datatype lstat_result = L_dir | L_regular | L_other | L_missing | L_error

definition decide_path :: "'o indexer \<Rightarrow> lstat_result \<Rightarrow> string \<Rightarrow> 'o \<Rightarrow> 'o \<times> bool option" where
  "decide_path ir ls path ox =
     (case ls of
        L_dir \<Rightarrow> map_prod id Some (ix_delete_tree ir path ox)
      | L_other \<Rightarrow> map_prod id Some (ix_delete_file ir path ox)
      | L_regular \<Rightarrow> (ox, None)
      | L_missing \<Rightarrow> map_prod id Some (ix_delete_tree ir path ox)
      | L_error \<Rightarrow> (ox, Some False))"

text \<open>The jobs not yet looked at, those for the batch, and the verdicts not yet carried out.\<close>

record watch_pass =
  wp_ready :: "pending_job list"
  wp_batch :: "pending_job list"
  wp_verdicts :: "(pending_job \<times> bool) list"

text \<open>The whole process: what the loop still has to visit, the running pass, and the index.\<close>

record 'o watch_state =
  s_watcher :: watcher
  s_todo :: "walk_event list"
  s_pass :: "watch_pass option"
  s_index :: 'o

definition start_state :: "int \<Rightarrow> 'o \<Rightarrow> 'o watch_state" where
  "start_state now ox = \<lparr>s_watcher = new_watcher now, s_todo = [], s_pass = None, s_index = ox\<rparr>"

definition carry_out :: "pending_job \<times> bool \<Rightarrow> watcher \<Rightarrow> watcher" where
  "carry_out v w = (if snd v then settled (fst v) w else requeue (fst v) w)"

text \<open>
  What a step tells: a path queued, an overflow sweep begun, a pass begun, a path cleared from the
  index, a batch given to the indexer in a state of the index, a path given up, or nothing; of the
  silent steps those of the pass are kept apart.
\<close>

datatype 'o watch_act =
    Queued string
  | Overflow "fs option"
  | Began "pending_job list"
  | Cleared lstat_result string
  | Batch "'o indexer" "string list" 'o
  | Dropped string
  | Pass_step
  | Loop_step

inductive watch_step ::
    "walk_env \<Rightarrow> string \<Rightarrow> 'o indexer set \<Rightarrow> 'o watch_state \<Rightarrow> 'o watch_act \<Rightarrow> 'o watch_state \<Rightarrow> bool"
  for env wd irs where
  tick: "0 \<le> d \<Longrightarrow>
    watch_step env wd irs s Loop_step (s\<lparr>s_watcher := (s_watcher s)\<lparr>w_clock := w_clock (s_watcher s) + d\<rparr>\<rparr>)"
| stop: "watch_step env wd irs s Loop_step (s\<lparr>s_watcher := (s_watcher s)\<lparr>w_stopped := True\<rparr>\<rparr>)"
| queue_event: "s_todo s = [] \<Longrightarrow> on_event path op is_dir = Queue_path \<Longrightarrow>
    watch_step env wd irs s (Queued path) (s\<lparr>s_watcher := enqueue path (s_watcher s)\<rparr>)"
| tree_event: "s_todo s = [] \<Longrightarrow> on_event path op is_dir = Watch_tree \<Longrightarrow>
    watch_step env wd irs s Loop_step (s\<lparr>s_todo := walk env wd path (filepath_base path) tree\<rparr>)"
| overflow: "s_todo s = [] \<Longrightarrow>
    watch_step env wd irs s (Overflow root) (s\<lparr>s_todo := walk_root env wd root\<rparr>)"
| visit: "s_todo s = ev # evs \<Longrightarrow>
    watch_step env wd irs s (case visit_queues ev of None \<Rightarrow> Loop_step | Some p \<Rightarrow> Queued p)
      (s\<lparr>s_watcher := watch_tree_visit env wd add_ok ev (s_watcher s), s_todo := evs\<rparr>)"
| snapshot: "s_pass s = None \<Longrightarrow> distinct jobs \<Longrightarrow> set jobs = ready_jobs (s_watcher s) \<Longrightarrow> jobs \<noteq> [] \<Longrightarrow>
    \<not> w_stopped (s_watcher s) \<Longrightarrow>
    watch_step env wd irs s (Began jobs) (s\<lparr>s_pass := Some \<lparr>wp_ready = jobs, wp_batch = [], wp_verdicts = []\<rparr>\<rparr>)"
| decide_batch: "s_pass s = Some \<lparr>wp_ready = j # js, wp_batch = b, wp_verdicts = []\<rparr> \<Longrightarrow> ir \<in> irs \<Longrightarrow>
    decide_path ir ls (pj_path j) (s_index s) = (ox, None) \<Longrightarrow>
    watch_step env wd irs s Pass_step
      (s\<lparr>s_pass := Some \<lparr>wp_ready = js, wp_batch = b @ [j], wp_verdicts = []\<rparr>, s_index := ox\<rparr>)"
| decide_now: "s_pass s = Some \<lparr>wp_ready = j # js, wp_batch = b, wp_verdicts = []\<rparr> \<Longrightarrow> ir \<in> irs \<Longrightarrow>
    decide_path ir ls (pj_path j) (s_index s) = (ox, Some ok) \<Longrightarrow>
    watch_step env wd irs s (if ok then Cleared ls (pj_path j) else Pass_step)
      (s\<lparr>s_pass := Some \<lparr>wp_ready = js, wp_batch = b, wp_verdicts = [(j, ok)]\<rparr>, s_index := ox\<rparr>)"
| batch_stopped: "s_pass s = Some \<lparr>wp_ready = [], wp_batch = j # b, wp_verdicts = []\<rparr> \<Longrightarrow>
    w_stopped (s_watcher s) \<Longrightarrow> watch_step env wd irs s Pass_step (s\<lparr>s_pass := None\<rparr>)"
| batch: "s_pass s = Some \<lparr>wp_ready = [], wp_batch = b, wp_verdicts = []\<rparr> \<Longrightarrow> b \<noteq> [] \<Longrightarrow>
    \<not> w_stopped (s_watcher s) \<Longrightarrow> ir \<in> irs \<Longrightarrow> ix_changes ir (map pj_path b) (s_index s) = (ox, r) \<Longrightarrow>
    watch_step env wd irs s (Batch ir (map pj_path b) (s_index s))
      (s\<lparr>s_pass := Some \<lparr>wp_ready = [], wp_batch = [], wp_verdicts = batch_verdicts r b\<rparr>, s_index := ox\<rparr>)"
| verdict: "s_pass s = Some \<lparr>wp_ready = js, wp_batch = b, wp_verdicts = v # vs\<rparr> \<Longrightarrow>
    watch_step env wd irs s
      (if \<not> snd v \<and> requeue_drops (fst v) (s_watcher s) then Dropped (pj_path (fst v)) else Pass_step)
      (s\<lparr>s_watcher := carry_out v (s_watcher s),
         s_pass := Some \<lparr>wp_ready = js, wp_batch = b, wp_verdicts = vs\<rparr>\<rparr>)"
| finish: "s_pass s = Some \<lparr>wp_ready = [], wp_batch = [], wp_verdicts = []\<rparr> \<Longrightarrow>
    watch_step env wd irs s Pass_step (s\<lparr>s_pass := None\<rparr>)"

inductive watch_run ::
    "walk_env \<Rightarrow> string \<Rightarrow> 'o indexer set \<Rightarrow> 'o watch_state \<Rightarrow> 'o watch_act list \<Rightarrow> 'o watch_state \<Rightarrow> bool"
  for env wd irs s where
  run_nil: "watch_run env wd irs s [] s"
| run_step: "watch_run env wd irs s acts s1 \<Longrightarrow> watch_step env wd irs s1 act s2 \<Longrightarrow>
    watch_run env wd irs s (acts @ [act]) s2"

section \<open>What the status tool shows\<close>

definition max_pending_files :: nat where
  "max_pending_files = 500"

definition pending_name :: "string \<Rightarrow> string \<Rightarrow> string" where
  "pending_name wd path = (case filepath_rel wd path of None \<Rightarrow> path | Some r \<Rightarrow> if r = [] then path else r)"

fun pending_listing :: "string \<Rightarrow> nat \<Rightarrow> string list \<Rightarrow> string list \<Rightarrow> string list \<times> bool" where
  "pending_listing wd n [] files = (files, False)"
| "pending_listing wd n (p # ps) files =
     (let files1 = files @ [pending_name wd p] in
      if max_pending_files \<le> length files1 then (files1, length files1 < n)
      else pending_listing wd n ps files1)"

definition pending_file_stats :: "string \<Rightarrow> watcher \<Rightarrow> string list \<times> nat \<times> bool" where
  "pending_file_stats wd w =
     (let paths = sorted_list_of_set (dom (w_pending w)); n = length paths;
          (files, truncated) = pending_listing wd n paths []
      in (files, n, truncated))"

section \<open>The invariant of the watcher\<close>

definition pending_ok :: "watcher \<Rightarrow> bool" where
  "pending_ok w \<longleftrightarrow>
     finite (dom (w_pending w))
     \<and> (\<forall>p e. w_pending w p = Some e \<longrightarrow>
          pe_id e < w_next w \<and> pe_since e \<le> w_clock w \<and> pe_retries e < max_pending_retries)"

definition pass_jobs :: "watch_pass \<Rightarrow> pending_job list" where
  "pass_jobs ps = wp_ready ps @ wp_batch ps @ map fst (wp_verdicts ps)"

text \<open>
  Every job of the running pass has its path still pending, under the entry of the snapshot or a
  newer one, and no path is in the pass twice.
\<close>

definition jobs_ok :: "pending_job list \<Rightarrow> watcher \<Rightarrow> bool" where
  "jobs_ok js w \<longleftrightarrow>
     distinct (map pj_path js)
     \<and> (\<forall>j \<in> set js. \<exists>e. w_pending w (pj_path j) = Some e \<and> pj_id j \<le> pe_id e)"

definition watch_inv :: "'o watch_state \<Rightarrow> bool" where
  "watch_inv s \<longleftrightarrow>
     pending_ok (s_watcher s) \<and> (\<forall>ps. s_pass s = Some ps \<longrightarrow> jobs_ok (pass_jobs ps) (s_watcher s))"

lemmas watcher_ops = enqueue_def put_pending_def requeue_def settled_def carry_out_def requeue_drops_def

lemma pending_ok_clock: "pending_ok w \<Longrightarrow> 0 \<le> d \<Longrightarrow> pending_ok (w\<lparr>w_clock := w_clock w + d\<rparr>)"
  by (fastforce simp: pending_ok_def)

lemma pending_ok_put: "pending_ok w \<Longrightarrow> r < max_pending_retries \<Longrightarrow> pending_ok (put_pending p r w)"
  by (fastforce simp: pending_ok_def put_pending_def)

lemma pending_ok_enqueue: "pending_ok w \<Longrightarrow> pending_ok (enqueue p w)"
  by (simp add: enqueue_def pending_ok_put max_pending_retries_def)

lemma pending_ok_settled: "pending_ok w \<Longrightarrow> pending_ok (settled j w)"
  by (auto simp: pending_ok_def settled_def split: option.splits)

lemma pending_ok_entry:
  "pending_ok w \<Longrightarrow> w_pending w p = Some e \<Longrightarrow>
   pe_id e < w_next w \<and> pe_since e \<le> w_clock w \<and> pe_retries e < max_pending_retries"
  by (simp add: pending_ok_def)

lemma pending_ok_update:
  "pending_ok w \<Longrightarrow> pe_id e < w_next w \<Longrightarrow> pe_since e \<le> w_clock w \<Longrightarrow> pe_retries e < max_pending_retries \<Longrightarrow>
   pending_ok (w\<lparr>w_pending := (w_pending w)(p \<mapsto> e)\<rparr>)"
  by (simp add: pending_ok_def)

lemma pending_ok_drop: "pending_ok w \<Longrightarrow> pending_ok (w\<lparr>w_pending := (w_pending w)(p := None), w_dropped := n\<rparr>)"
  by (simp add: pending_ok_def)

lemma pending_ok_requeue: "pending_ok w \<Longrightarrow> pending_ok (requeue j w)"
  using pending_ok_put [of w 1 "pj_path j"] pending_ok_entry [of w "pj_path j"]
  by (auto simp: requeue_def max_pending_retries_def split: option.splits intro!: pending_ok_update pending_ok_drop)

lemma pending_ok_visit: "pending_ok w \<Longrightarrow> pending_ok (watch_tree_visit env wd ok ev w)"
  using pending_ok_enqueue [of w]
  by (auto simp: watch_tree_visit_def pending_ok_def split: walk_event.splits)

lemma jobs_ok_frame [simp]:
  "jobs_ok js (w\<lparr>w_clock := c\<rparr>) \<longleftrightarrow> jobs_ok js w"
  "jobs_ok js (w\<lparr>w_stopped := b\<rparr>) \<longleftrightarrow> jobs_ok js w"
  by (simp_all add: jobs_ok_def)

lemma enqueue_grows:
  "pending_ok w \<Longrightarrow> w_pending w p = Some e \<Longrightarrow> \<exists>e'. w_pending (enqueue q w) p = Some e' \<and> pe_id e \<le> pe_id e'"
  by (auto simp: pending_ok_def enqueue_def put_pending_def intro: less_imp_le)

lemma visit_grows:
  "pending_ok w \<Longrightarrow> w_pending w p = Some e \<Longrightarrow>
   \<exists>e'. w_pending (watch_tree_visit env wd ok ev w) p = Some e' \<and> pe_id e \<le> pe_id e'"
  using enqueue_grows [of w p e] by (auto simp: watch_tree_visit_def split: walk_event.splits)

lemma jobs_ok_grows:
  assumes "\<And>p e. w_pending w p = Some e \<Longrightarrow> \<exists>e'. w_pending w' p = Some e' \<and> pe_id e \<le> pe_id e'" "jobs_ok js w"
  shows "jobs_ok js w'"
  using assms unfolding jobs_ok_def by (meson order_trans)

lemma jobs_ok_enqueue: "pending_ok w \<Longrightarrow> jobs_ok js w \<Longrightarrow> jobs_ok js (enqueue p w)"
  by (rule jobs_ok_grows [OF enqueue_grows])

lemma jobs_ok_visit: "pending_ok w \<Longrightarrow> jobs_ok js w \<Longrightarrow> jobs_ok js (watch_tree_visit env wd ok ev w)"
  by (rule jobs_ok_grows [OF visit_grows])

lemma carry_out_other: "q \<noteq> pj_path (fst v) \<Longrightarrow> w_pending (carry_out v w) q = w_pending w q"
  by (auto simp: watcher_ops split: option.splits)

lemma jobs_ok_carry_out:
  "jobs_ok (js @ fst v # ks) w \<Longrightarrow> jobs_ok (js @ ks) (carry_out v w)"
  unfolding jobs_ok_def using carry_out_other [of _ v w]
  by (simp add: ball_Un disjoint_iff) (metis imageI)

lemma pending_ok_carry_out: "pending_ok w \<Longrightarrow> pending_ok (carry_out v w)"
  by (simp add: carry_out_def pending_ok_settled pending_ok_requeue)

lemma jobs_ok_Nil [simp]: "jobs_ok [] w"
  by (simp add: jobs_ok_def)

text \<open>The place of a job in the pass does not matter.\<close>

lemma jobs_ok_perm: "mset ks = mset js \<Longrightarrow> jobs_ok ks w \<longleftrightarrow> jobs_ok js w"
  using mset_eq_imp_distinct_iff [of "map pj_path ks" "map pj_path js"] mset_eq_setD [of ks js]
  by (simp add: jobs_ok_def)

lemma ready_jobs_ok: "distinct js \<Longrightarrow> set js = ready_jobs w \<Longrightarrow> jobs_ok js w"
  by (auto simp: jobs_ok_def distinct_map ready_jobs_def inj_on_def)

lemma batch_verdict_jobs:
  "map fst (batch_verdicts r b) = (if ir_end r = Index_interrupted then [] else b)"
  by (auto simp: batch_verdicts_def requeue_failed_def comp_def split: index_end.splits)

lemma watch_step_inv: "watch_step env wd irs s act s' \<Longrightarrow> watch_inv s \<Longrightarrow> watch_inv s'"
proof (induction rule: watch_step.induct)
  case (tick d s)
  then show ?case by (simp add: watch_inv_def pending_ok_clock)
next
  case (stop s)
  then show ?case by (simp add: watch_inv_def pending_ok_def)
next
  case (visit s ev evs add_ok)
  then show ?case by (simp add: watch_inv_def pending_ok_visit jobs_ok_visit)
next
  case (snapshot s jobs)
  then show ?case by (simp add: watch_inv_def pass_jobs_def ready_jobs_ok)
next
  case (batch s b ir ox r)
  then show ?case by (simp add: watch_inv_def pass_jobs_def batch_verdict_jobs)
next
  case (queue_event s path op is_dir)
  then show ?case by (simp add: watch_inv_def pending_ok_enqueue jobs_ok_enqueue)
next
  case (decide_batch s j js b ir ls ox)
  then show ?case
    using jobs_ok_perm [of "js @ b @ [j]" "j # js @ b"] by (simp add: watch_inv_def pass_jobs_def)
next
  case (decide_now s j js b ir ls ox ok)
  then show ?case
    using jobs_ok_perm [of "js @ b @ [j]" "j # js @ b"] by (simp add: watch_inv_def pass_jobs_def)
next
  case (verdict s js b v vs)
  then show ?case
    using jobs_ok_carry_out [of "js @ b" v "map fst vs"]
    by (simp add: watch_inv_def pass_jobs_def pending_ok_carry_out)
qed (simp_all add: watch_inv_def)

lemma watch_inv_job:
  "watch_inv s \<Longrightarrow> s_pass s = Some ps \<Longrightarrow> j \<in> set (pass_jobs ps) \<Longrightarrow>
   \<exists>e. w_pending (s_watcher s) (pj_path j) = Some e \<and> pj_id j \<le> pe_id e"
  by (simp add: watch_inv_def jobs_ok_def)

lemma start_state_inv: "watch_inv (start_state now ox)"
  by (simp add: watch_inv_def start_state_def new_watcher_def pending_ok_def)

lemma watch_run_inv: "watch_run env wd irs s acts s' \<Longrightarrow> watch_inv s \<Longrightarrow> watch_inv s'"
  by (induction rule: watch_run.induct) (auto intro: watch_step_inv)

section \<open>No event is lost\<close>

text \<open>\<^verbatim>\<open>IndexChanges\<close> has dealt with the path, as far as its report shows.\<close>

definition accepted :: "index_report \<Rightarrow> string \<Rightarrow> bool" where
  "accepted r p \<longleftrightarrow>
     ir_end r \<noteq> Index_interrupted
     \<and> (ir_end r = Index_ok \<and> ir_partial r = 0 \<or> ir_failed r \<noteq> [] \<and> p \<notin> set (ir_failed r))"

lemma batch_verdict_iff: "(j, True) \<in> set (batch_verdicts r b) \<longleftrightarrow> j \<in> set b \<and> accepted r (pj_path j)"
  by (auto simp: batch_verdicts_def requeue_failed_def accepted_def split: index_end.splits)

text \<open>A step that accounts for the events of a path so far.\<close>

fun accounts :: "string \<Rightarrow> 'o watch_act \<Rightarrow> bool" where
  "accounts p (Cleared ls q) \<longleftrightarrow> q = p"
| "accounts p (Batch ir ps ox) \<longleftrightarrow> p \<in> set ps \<and> accepted (snd (ix_changes ir ps ox)) p"
| "accounts p (Dropped q) \<longleftrightarrow> q = p"
| "accounts p act \<longleftrightarrow> False"

text \<open>
  The path is pending under entry \<open>g\<close> or a newer one, and every job of it that is about to be
  settled is older.
\<close>

definition keeps_event :: "string \<Rightarrow> nat \<Rightarrow> 'o watch_state \<Rightarrow> bool" where
  "keeps_event p g s \<longleftrightarrow>
     (\<exists>e. w_pending (s_watcher s) p = Some e \<and> g \<le> pe_id e)
     \<and> (\<forall>ps j. s_pass s = Some ps \<longrightarrow> (j, True) \<in> set (wp_verdicts ps) \<longrightarrow> pj_path j = p \<longrightarrow> pj_id j < g)"

lemma keeps_event_pending:
  "keeps_event p g s \<Longrightarrow> s_pass s' = s_pass s \<Longrightarrow>
   (\<And>e. w_pending (s_watcher s) p = Some e \<Longrightarrow> \<exists>e'. w_pending (s_watcher s') p = Some e' \<and> pe_id e \<le> pe_id e') \<Longrightarrow>
   keeps_event p g s'"
  by (fastforce simp: keeps_event_def)

lemma carry_out_keeps:
  assumes "w_pending w p = Some e" "g \<le> pe_id e" "snd v \<Longrightarrow> pj_path (fst v) = p \<Longrightarrow> pj_id (fst v) < g"
    and "\<not> (\<not> snd v \<and> requeue_drops (fst v) w \<and> pj_path (fst v) = p)"
  shows "\<exists>e'. w_pending (carry_out v w) p = Some e' \<and> g \<le> pe_id e'"
proof (cases "pj_path (fst v) = p")
  case True
  then show ?thesis using assms by (cases "snd v") (auto simp: watcher_ops)
next
  case False
  then show ?thesis using assms(1,2) carry_out_other [of p v w] by auto
qed

lemma watch_step_keeps:
  "watch_step env wd irs s act s' \<Longrightarrow> watch_inv s \<Longrightarrow> keeps_event p g s \<Longrightarrow> accounts p act \<or> keeps_event p g s'"
proof (induction rule: watch_step.induct)
  case (queue_event s path op is_dir)
  then show ?case using enqueue_grows by (auto simp: watch_inv_def intro: keeps_event_pending)
next
  case (visit s ev evs add_ok)
  then show ?case using visit_grows by (auto simp: watch_inv_def intro: keeps_event_pending)
next
  case (batch s b ir ox r)
  show ?case
  proof (cases "accounts p (Batch ir (map pj_path b) (s_index s))")
    case False
    then have "pj_path j = p \<Longrightarrow> (j, True) \<notin> set (batch_verdicts r b)" for j
      using batch.hyps(5) by (auto simp: batch_verdict_iff)
    then show ?thesis using batch.prems by (auto simp: keeps_event_def)
  qed simp
next
  case (verdict s js b v vs)
  show ?case
  proof (cases "\<not> snd v \<and> requeue_drops (fst v) (s_watcher s) \<and> pj_path (fst v) = p")
    case False
    obtain e where e: "w_pending (s_watcher s) p = Some e" "g \<le> pe_id e"
      using verdict.prems by (auto simp: keeps_event_def)
    have "snd v \<Longrightarrow> pj_path (fst v) = p \<Longrightarrow> pj_id (fst v) < g"
      using verdict by (cases v) (auto simp: keeps_event_def)
    from carry_out_keeps [OF e this False]
    show ?thesis using verdict by (auto simp: keeps_event_def)
  qed simp
qed (auto simp: keeps_event_def)

lemma watch_run_Nil [simp]: "watch_run env wd irs s [] s' \<longleftrightarrow> s' = s"
  by (auto intro: run_nil elim: watch_run.cases)

lemma watch_run_snoc:
  "watch_run env wd irs s (acts @ [act]) s' \<longleftrightarrow> (\<exists>t. watch_run env wd irs s acts t \<and> watch_step env wd irs t act s')"
  by (auto intro: run_step elim: watch_run.cases)

lemma watch_run_append:
  "watch_run env wd irs s (acts @ bcts) s' \<longleftrightarrow>
     (\<exists>t. watch_run env wd irs s acts t \<and> watch_run env wd irs t bcts s')"
proof (induction bcts arbitrary: s' rule: rev_induct)
  case (snoc b bcts)
  show ?case
    using snoc.IH watch_run_snoc [of env wd irs s "acts @ bcts"] by (auto simp: watch_run_snoc)
qed simp

lemma watch_run_single: "watch_run env wd irs s [act] s' \<longleftrightarrow> watch_step env wd irs s act s'"
  using watch_run_snoc [of env wd irs s "[]"] by simp

lemma watch_run_Cons:
  "watch_run env wd irs s (act # acts) s' \<longleftrightarrow> (\<exists>t. watch_step env wd irs s act t \<and> watch_run env wd irs t acts s')"
  using watch_run_append [of env wd irs s "[act]" acts s'] by (simp add: watch_run_single)

lemma watch_run_keeps:
  "watch_run env wd irs s acts s' \<Longrightarrow> watch_inv s \<Longrightarrow> keeps_event p g s \<Longrightarrow>
   (\<exists>act \<in> set acts. accounts p act) \<or> keeps_event p g s'"
proof (induction rule: watch_run.induct)
  case (run_step acts s1 act s2)
  show ?case
    using run_step.IH run_step.prems watch_step_keeps [OF run_step.hyps(2) watch_run_inv [OF run_step.hyps(1)]]
    by auto
qed simp

text \<open>Queueing a path puts it under a new entry, which no job of the pass can bear.\<close>

lemma enqueue_keeps:
  assumes "watch_inv s" "s_pass s' = s_pass s" "s_watcher s' = enqueue p (s_watcher s)"
  shows "keeps_event p (w_next (s_watcher s)) s'"
proof -
  have "pj_id j < w_next (s_watcher s)"
    if "s_pass s = Some ps" "(j, True) \<in> set (wp_verdicts ps)" for ps j
  proof -
    have "j \<in> set (pass_jobs ps)" using that(2) by (force simp: pass_jobs_def)
    with watch_inv_job [OF assms(1) that(1)] obtain e where
      "w_pending (s_watcher s) (pj_path j) = Some e" "pj_id j \<le> pe_id e" by blast
    moreover have "pending_ok (s_watcher s)" using assms(1) by (simp add: watch_inv_def)
    ultimately show ?thesis using pending_ok_entry by fastforce
  qed
  then show ?thesis using assms(2,3) by (auto simp: keeps_event_def enqueue_def put_pending_def)
qed

inductive_cases queued_stepE: "watch_step env wd irs s (Queued p) s'"

lemma queued_step_watcher:
  assumes "watch_step env wd irs s (Queued p) s'"
  shows "s_pass s' = s_pass s \<and> s_watcher s' = enqueue p (s_watcher s)"
  using assms
  by (rule queued_stepE)
    (auto simp: visit_queues_def watch_tree_visit_def split: walk_event.splits if_splits option.splits)

lemma queued_step_keeps:
  "watch_step env wd irs s (Queued p) s' \<Longrightarrow> watch_inv s \<Longrightarrow> keeps_event p (w_next (s_watcher s)) s'"
  using queued_step_watcher enqueue_keeps by blast

lemma watcher_no_lost_event_aux:
  assumes "watch_run env wd irs s (Queued p # acts) s'" "watch_inv s"
  shows "(\<exists>act \<in> set acts. accounts p act) \<or> (\<exists>g. keeps_event p g s')"
proof -
  obtain t where t: "watch_step env wd irs s (Queued p) t" "watch_run env wd irs t acts s'"
    using assms(1) by (auto simp: watch_run_Cons)
  show ?thesis
    using watch_run_keeps [OF t(2) watch_step_inv [OF t(1) assms(2)] queued_step_keeps [OF t(1) assms(2)]] by blast
qed

lemma watcher_no_lost_event_aux2:
  assumes "watch_run env wd irs (start_state now ox) (before @ Queued p # acts) s"
    and "w_pending (s_watcher s) p = None"
  shows "\<exists>act \<in> set acts. accounts p act"
proof -
  obtain t where t: "watch_run env wd irs (start_state now ox) before t" "watch_run env wd irs t (Queued p # acts) s"
    using assms(1) by (auto simp: watch_run_append)
  show ?thesis
    using watcher_no_lost_event_aux [OF t(2) watch_run_inv [OF t(1) start_state_inv]] assms(2)
    by (auto simp: keeps_event_def)
qed

text \<open>
  C17 (\<open>watcher_no_lost_event\<close>).  However the event loop and the passes interleave, a path that was
  queued is still pending, or since then it was cleared from the index, or taken by an
  \<^verbatim>\<open>IndexChanges\<close> whose report does not hold it back, or given up after its retries.  In
  particular an event that arrives while its path is being indexed is not lost when the pass
  settles the path.
\<close>

theorem watcher_no_lost_event:
  assumes "watch_run env wd irs (start_state now ox) (before @ Queued p # acts) s"
    and "w_pending (s_watcher s) p = None"
  shows "\<exists>act \<in> set acts. accounts p act"
  using assms by (rule watcher_no_lost_event_aux2)

text \<open>
  In every state the watcher can reach, a pending path has failed fewer
  times than the retry limit, entries and their times are never from the future, and every job of
  the running pass has its path still pending, under the snapshot's entry or a newer one: a path
  leaves the pending set only by the verdict of its own job.
\<close>

theorem watcher_invariant:
  assumes "watch_run env wd irs (start_state now ox) acts s"
  shows "(\<forall>p e. w_pending (s_watcher s) p = Some e \<longrightarrow>
            pe_retries e < 3 \<and> pe_since e \<le> w_clock (s_watcher s) \<and> pe_id e < w_next (s_watcher s))
    \<and> finite (dom (w_pending (s_watcher s)))
    \<and> (\<forall>ps. s_pass s = Some ps \<longrightarrow> distinct (map pj_path (pass_jobs ps))
         \<and> (\<forall>j \<in> set (pass_jobs ps). \<exists>e. w_pending (s_watcher s) (pj_path j) = Some e \<and> pj_id j \<le> pe_id e))"
  using watch_run_inv [OF assms start_state_inv]
  by (simp add: watch_inv_def pending_ok_def jobs_ok_def max_pending_retries_def)

section \<open>The sweep after an overflow\<close>

text \<open>A callback of the sweep has been dealt with.\<close>

definition swept :: "walk_env \<Rightarrow> string \<Rightarrow> walk_event \<Rightarrow> 'o watch_act list \<Rightarrow> 'o watch_state \<Rightarrow> bool" where
  "swept env wd ev acts s \<longleftrightarrow>
     (\<forall>p. visit_queues ev = Some p \<longrightarrow> (\<exists>act \<in> set acts. accounts p act) \<or> (\<exists>g. keeps_event p g s))
     \<and> (\<forall>p. ev = Ev_dir p \<longrightarrow> \<not> should_skip_dir_in env wd p (filepath_base p) \<longrightarrow>
          p \<in> w_watched (s_watcher s) \<or> 0 < w_blind (s_watcher s))"

lemma carry_out_dirs [simp]:
  "w_watched (carry_out v w) = w_watched w" "w_blind (carry_out v w) = w_blind w"
  by (auto simp: watcher_ops split: option.splits)

lemma visit_dirs:
  "w_watched w \<subseteq> w_watched (watch_tree_visit env wd ok ev w)"
  "w_blind w \<le> w_blind (watch_tree_visit env wd ok ev w)"
  by (auto simp: watch_tree_visit_def enqueue_def put_pending_def split: walk_event.splits)

lemma watch_step_dirs:
  "watch_step env wd irs s act s' \<Longrightarrow>
   w_watched (s_watcher s) \<subseteq> w_watched (s_watcher s') \<and> w_blind (s_watcher s) \<le> w_blind (s_watcher s')"
  by (induction rule: watch_step.induct) (simp_all add: visit_dirs enqueue_def put_pending_def)

lemma swept_step:
  assumes "watch_step env wd irs s act s'" "watch_inv s" "swept env wd ev acts s"
  shows "swept env wd ev (acts @ [act]) s'"
proof -
  have "(\<exists>a \<in> set (acts @ [act]). accounts p a) \<or> (\<exists>g. keeps_event p g s')"
    if p: "visit_queues ev = Some p" for p
    using assms(3) p watch_step_keeps [OF assms(1,2), of p] by (auto simp: swept_def)
  moreover have "p \<in> w_watched (s_watcher s') \<or> 0 < w_blind (s_watcher s')"
    if "ev = Ev_dir p" "\<not> should_skip_dir_in env wd p (filepath_base p)" for p
    using assms(3) that watch_step_dirs [OF assms(1)] by (auto simp: swept_def)
  ultimately show ?thesis by (simp add: swept_def)
qed

lemma visit_sweeps:
  assumes "watch_inv s" "s' = s\<lparr>s_watcher := watch_tree_visit env wd ok ev (s_watcher s), s_todo := evs\<rparr>"
  shows "swept env wd ev acts s'"
proof -
  have "\<exists>g. keeps_event p g s'" if "visit_queues ev = Some p" for p
  proof -
    have "s_watcher s' = enqueue p (s_watcher s)"
      using that assms(2) by (auto simp: visit_queues_def watch_tree_visit_def split: walk_event.splits if_splits)
    then have "keeps_event p (w_next (s_watcher s)) s'" using assms by (intro enqueue_keeps) simp_all
    then show ?thesis ..
  qed
  then show ?thesis using assms(2) by (auto simp: swept_def watch_tree_visit_def)
qed

inductive_cases overflow_stepE: "watch_step env wd irs s (Overflow root) s'"

lemma overflow_step: "watch_step env wd irs s (Overflow root) s' \<Longrightarrow> s' = s\<lparr>s_todo := walk_root env wd root\<rparr>"
  by (erule overflow_stepE) (simp_all split: if_splits option.splits)

text \<open>Only a visit takes a callback off the list.\<close>

lemma watch_step_todo:
  assumes "watch_step env wd irs s act s'" "watch_inv s" "ev \<in> set (s_todo s)"
  shows "ev \<in> set (s_todo s') \<or> swept env wd ev acts s'"
  using assms
proof (induction rule: watch_step.induct)
  case (visit s ev' evs add_ok)
  then show ?case using visit_sweeps [OF visit.prems(1) refl] by auto
qed simp_all

lemma sweep_run:
  assumes "watch_run env wd irs s acts s'" "watch_inv s" "ev \<in> set (s_todo s)"
  shows "ev \<in> set (s_todo s') \<or> swept env wd ev acts s'"
  using assms
proof (induction rule: watch_run.induct)
  case (run_step acts s1 act s2)
  have inv: "watch_inv s1" using watch_run_inv [OF run_step.hyps(1) run_step.prems(1)] .
  show ?case
    using run_step.IH [OF run_step.prems] watch_step_todo [OF run_step.hyps(2) inv]
      swept_step [OF run_step.hyps(2) inv] by blast
qed simp

lemma job_of_queues: "job_of ev = Some j \<Longrightarrow> visit_queues ev = Some (j_path j)"
  by (auto simp: job_of_def visit_queues_def is_supported_def Let_def split: walk_event.splits if_splits)


section \<open>Passes end\<close>

fun pass_act :: "'o watch_act \<Rightarrow> bool" where
  "pass_act (Cleared ls p) = True"
| "pass_act (Batch ir ps ox) = True"
| "pass_act (Dropped p) = True"
| "pass_act Pass_step = True"
| "pass_act act = False"

fun begins :: "'o watch_act \<Rightarrow> bool" where
  "begins (Began jobs) = True"
| "begins act = False"

text \<open>The steps a pass has left at most.\<close>

definition pass_work :: "'o watch_state \<Rightarrow> nat" where
  "pass_work s =
     (case s_pass s of
        None \<Rightarrow> 0
      | Some ps \<Rightarrow> 3 * length (wp_ready ps) + 2 * length (wp_batch ps) + length (wp_verdicts ps) + 1)"

lemma batch_verdicts_length: "length (batch_verdicts r b) \<le> length b"
  using batch_verdict_jobs [of r b] by (metis length_map le_refl list.size(3) zero_le)

lemma watch_step_work:
  "watch_step env wd irs s act s' \<Longrightarrow> \<not> begins act \<Longrightarrow>
   (if pass_act act then pass_work s' < pass_work s else pass_work s' = pass_work s)"
proof (induction rule: watch_step.induct)
  case (batch s b ir ox r)
  have "length (batch_verdicts r b) < 2 * length b" using batch_verdicts_length [of r b] batch.hyps(2) by (cases b) auto
  then show ?case using batch by (simp add: pass_work_def)
qed (auto simp: pass_work_def split: option.splits)

lemma progressI: "watch_step env wd irs s act s' \<Longrightarrow> pass_act act \<Longrightarrow> \<exists>act t. pass_act act \<and> watch_step env wd irs s act t"
  by blast

lemma watch_progress:
  assumes "s_pass s = Some ps" "irs \<noteq> {}"
  shows "\<exists>act t. pass_act act \<and> watch_step env wd irs s act t"
proof -
  obtain js b vs where ps: "s_pass s = Some \<lparr>wp_ready = js, wp_batch = b, wp_verdicts = vs\<rparr>"
    using assms(1) by (cases ps) auto
  obtain ir where ir: "ir \<in> irs" using assms(2) by auto
  consider v vs' where "vs = v # vs'" | "vs = []" "js = []" "b = []" | j js' where "vs = []" "js = j # js'"
    | j b' where "vs = []" "js = []" "b = j # b'" by (meson list.exhaust)
  then show ?thesis
  proof cases
    case 1
    show ?thesis by (rule progressI, rule verdict) (use ps 1 in auto)
  next
    case 2
    show ?thesis by (rule progressI, rule finish) (use ps 2 in auto)
  next
    case 3
    show ?thesis by (rule progressI, rule decide_batch [where ls = L_regular]) (use ps 3 ir in \<open>auto simp: decide_path_def\<close>)
  next
    case 4
    obtain ox r where "ix_changes ir (map pj_path b) (s_index s) = (ox, r)" by fastforce
    show ?thesis
    proof (cases "w_stopped (s_watcher s)")
      case True
      show ?thesis by (rule progressI, rule batch_stopped) (use ps 4 True in auto)
    next
      case False
      show ?thesis by (rule progressI, rule batch) (use ps 4 False ir \<open>_ = (ox, r)\<close> in auto)
    qed
  qed
qed


section \<open>Requeueing and the status list\<close>

text \<open>
  A failed attempt under the entry of the snapshot counts once and restarts the debounce time; the
  attempt that reaches the limit drops the path and shows in the counter; a newer entry keeps its
  full budget; after a stop nothing changes.
\<close>

lemma requeue_cases:
  assumes "w_pending w (pj_path j) = Some cur"
  shows "w_stopped w \<Longrightarrow> requeue j w = w"
    and "pe_id cur \<noteq> pj_id j \<Longrightarrow> requeue j w = w"
    and "\<not> w_stopped w \<Longrightarrow> pe_id cur = pj_id j \<Longrightarrow> pe_retries cur + 1 < 3 \<Longrightarrow>
      w_pending (requeue j w) (pj_path j) = Some (cur\<lparr>pe_since := w_clock w, pe_retries := pe_retries cur + 1\<rparr>)
      \<and> w_dropped (requeue j w) = w_dropped w"
    and "\<not> w_stopped w \<Longrightarrow> pe_id cur = pj_id j \<Longrightarrow> 3 \<le> pe_retries cur + 1 \<Longrightarrow>
      w_pending (requeue j w) (pj_path j) = None \<and> w_dropped (requeue j w) = w_dropped w + 1"
  using assms by (simp_all add: requeue_def max_pending_retries_def)

lemma pending_listing_take:
  "length files < max_pending_files \<Longrightarrow> length files + length ps = n \<Longrightarrow>
   pending_listing wd n ps files
     = (files @ map (pending_name wd) (take (max_pending_files - length files) ps), max_pending_files < n)"
proof (induction ps arbitrary: files)
  case (Cons p ps)
  show ?case
  proof (cases "max_pending_files \<le> length (files @ [pending_name wd p])")
    case True
    then have "max_pending_files = length files + 1" "max_pending_files - length files = 1"
      using Cons.prems(1) by simp_all
    then show ?thesis using Cons.prems(2) by (cases ps) auto
  next
    case False
    then have "max_pending_files - length files = Suc (max_pending_files - length (files @ [pending_name wd p]))"
      by simp
    then show ?thesis using Cons.IH [of "files @ [pending_name wd p]"] Cons.prems(2) False by simp
  qed
qed simp

lemma pending_file_stats_exact:
  assumes "finite (dom (w_pending w))" "paths = sorted_list_of_set (dom (w_pending w))"
  shows "pending_file_stats wd w
    = (map (pending_name wd) (take 500 paths), card (dom (w_pending w)), 500 < card (dom (w_pending w)))"
proof -
  have "length paths = card (dom (w_pending w))" using assms by simp
  then show ?thesis
    using pending_listing_take [of "[]" paths "length paths" wd] assms(2)
    by (simp add: pending_file_stats_def max_pending_files_def Let_def)
qed

section \<open>Sample runs\<close>

definition sample_indexer :: "unit indexer" where
  "sample_indexer =
     \<lparr>ix_changes = (\<lambda>ps u. (u, \<lparr>ir_end = Index_ok, ir_partial = 0, ir_failed = []\<rparr>)),
      ix_delete_file = (\<lambda>p u. (u, True)), ix_delete_tree = (\<lambda>p u. (u, True))\<rparr>"

definition gone_entry :: pending_entry where
  "gone_entry = \<lparr>pe_id = 0, pe_since = 0, pe_retries = 0\<rparr>"

definition gone_job :: pending_job where
  "gone_job = \<lparr>pj_path = ''x'', pj_id = 0\<rparr>"

definition sample_watcher :: "int \<Rightarrow> watcher" where
  "sample_watcher now =
     \<lparr>w_pending = [''x'' \<mapsto> gone_entry], w_next = 1, w_clock = now, w_stopped = False, w_dropped = 0,
      w_blind = 0, w_unreadable = 0, w_watched = {}\<rparr>"

definition sample_state :: "int \<Rightarrow> watch_pass option \<Rightarrow> 'o \<Rightarrow> 'o watch_state" where
  "sample_state now ps ox = \<lparr>s_watcher = sample_watcher now, s_todo = [], s_pass = ps, s_index = ox\<rparr>"

definition sample_done :: "'o \<Rightarrow> 'o watch_state" where
  "sample_done ox =
     (sample_state debounce (Some \<lparr>wp_ready = [], wp_batch = [], wp_verdicts = []\<rparr>) ox)
       \<lparr>s_watcher := (sample_watcher debounce)\<lparr>w_pending := Map.empty\<rparr>\<rparr>"

lemmas sample_watch_defs = sample_state_def sample_watcher_def gone_entry_def gone_job_def

lemma sample_queued: "watch_step sample_env ''/w'' irs (start_state 0 ox) (Queued ''x'') (sample_state 0 None ox)"
proof -
  have "on_event ''x'' {Op_remove} False = Queue_path"
    by (simp add: on_event_def should_queue_watch_path_def)
  from queue_event [OF _ this, of "start_state 0 ox" sample_env "''/w''" irs] show ?thesis
    by (simp add: start_state_def new_watcher_def sample_watch_defs enqueue_def put_pending_def)
qed

lemma sample_wait:
  "watch_step sample_env ''/w'' irs (sample_state 0 None ox) Loop_step (sample_state debounce None ox)"
  using tick [of debounce sample_env "''/w''" irs "sample_state 0 None ox"]
  by (simp add: sample_watch_defs debounce_def)

lemma sample_ready: "ready_jobs (sample_watcher debounce) = {gone_job}"
  by (auto simp: ready_jobs_def sample_watch_defs)

lemma sample_began:
  "watch_step sample_env ''/w'' irs (sample_state debounce None ox) (Began [gone_job])
     (sample_state debounce (Some \<lparr>wp_ready = [gone_job], wp_batch = [], wp_verdicts = []\<rparr>) ox)"
  using snapshot [of "sample_state debounce None ox" "[gone_job]" sample_env "''/w''" irs] sample_ready
  by (simp add: sample_state_def sample_watcher_def)

lemma sample_cleared:
  "ir \<in> irs \<Longrightarrow> ix_delete_tree ir ''x'' ox = (oy, True) \<Longrightarrow>
   watch_step sample_env ''/w'' irs
     (sample_state debounce (Some \<lparr>wp_ready = [gone_job], wp_batch = [], wp_verdicts = []\<rparr>) ox)
     (Cleared L_missing ''x'')
     (sample_state debounce (Some \<lparr>wp_ready = [], wp_batch = [], wp_verdicts = [(gone_job, True)]\<rparr>) oy)"
  using decide_now [of "sample_state debounce (Some \<lparr>wp_ready = [gone_job], wp_batch = [], wp_verdicts = []\<rparr>) ox"
      gone_job "[]" "[]" ir irs L_missing oy True sample_env "''/w''"]
  by (simp add: sample_state_def decide_path_def gone_job_def)

lemma sample_settled:
  "watch_step sample_env ''/w'' irs
     (sample_state debounce (Some \<lparr>wp_ready = [], wp_batch = [], wp_verdicts = [(gone_job, True)]\<rparr>) ox)
     Pass_step (sample_done ox)"
  using verdict [of "sample_state debounce (Some \<lparr>wp_ready = [], wp_batch = [], wp_verdicts = [(gone_job, True)]\<rparr>) ox"
      "[]" "[]" "(gone_job, True)" "[]" sample_env "''/w''" irs]
  by (simp add: sample_done_def sample_watch_defs carry_out_def settled_def)

lemma sample_run:
  assumes "ir \<in> irs" "ix_delete_tree ir ''x'' ox = (oy, True)"
  shows "watch_run sample_env ''/w'' irs (start_state 0 ox)
     ([] @ Queued ''x'' # [Loop_step, Began [gone_job], Cleared L_missing ''x'', Pass_step]) (sample_done oy)"
  using sample_queued [of irs ox] sample_wait [of irs ox] sample_began [of irs ox] sample_cleared [OF assms]
    sample_settled [of irs oy]
  unfolding append_Nil watch_run_Cons watch_run_Nil by blast

lemma sample_indexer_deletes: "sample_indexer \<in> {sample_indexer}" "ix_delete_tree sample_indexer p () = ((), True)"
  by (simp_all add: sample_indexer_def)

abbreviation sample_step :: "unit watch_state \<Rightarrow> unit watch_act \<Rightarrow> unit watch_state \<Rightarrow> bool" where
  "sample_step \<equiv> watch_step sample_env ''/w'' {sample_indexer}"

theorem watcher_no_lost_event_witness:
  "\<exists>act \<in> set [Loop_step, Began [gone_job], Cleared L_missing ''x'', Pass_step]. accounts ''x'' (act :: unit watch_act)"
  by (rule watcher_no_lost_event [OF sample_run [OF sample_indexer_deletes]]) (simp add: sample_done_def)

theorem watcher_invariant_witness:
  "finite (dom (w_pending (s_watcher (sample_done ()))))"
  using watcher_invariant [OF sample_run [OF sample_indexer_deletes]] by simp


definition sweep_state :: "walk_event list \<Rightarrow> string set \<Rightarrow> bool \<Rightarrow> unit watch_state" where
  "sweep_state evs dirs found =
     \<lparr>s_watcher = (let w = (new_watcher 0)\<lparr>w_watched := dirs\<rparr> in if found then enqueue ''/w/a.go'' w else w),
      s_todo = evs, s_pass = None, s_index = ()\<rparr>"

lemma sample_overflow:
  "sample_step (start_state 0 ()) (Overflow (Some sample_tree))
     (sweep_state [Ev_dir ''/w'', Ev_file ''/w/a.go'' False 1 1, Ev_dir ''/w/node_modules''] {} False)"
  using overflow [of "start_state 0 ()" sample_env "''/w''" "{sample_indexer}" "Some sample_tree"]
  by (simp add: start_state_def sweep_state_def walk_root_def sample_walk new_watcher_def)

lemma sample_visits:
  "sample_step (sweep_state (Ev_dir ''/w'' # evs) {} False) Loop_step (sweep_state evs {''/w''} False)"
  "sample_step (sweep_state (Ev_file ''/w/a.go'' False 1 1 # evs) {''/w''} False) (Queued ''/w/a.go'')
     (sweep_state evs {''/w''} True)"
  "sample_step (sweep_state [Ev_dir ''/w/node_modules''] {''/w''} True) Loop_step (sweep_state [] {''/w''} True)"
proof -
  have root: "\<not> should_skip_dir_in sample_env ''/w'' ''/w'' name" for name
    by (rule root_not_skipped) simp_all
  have base: "filepath_base ''/w/node_modules'' = ''node_modules''"
    by (simp add: filepath_base_def str_eval)
  have skip: "should_skip_dir_in sample_env ''/w'' ''/w/node_modules'' (filepath_base ''/w/node_modules'')"
    unfolding base
    by (simp add: should_skip_dir_in_def skip_dir_names_def abs_clean_def filepath_abs_def path_eval Let_def)
  have go: "is_supported ''/w/a.go''" by (simp add: is_supported_def detect_go is_supported_language_def Let_def)
  show "sample_step (sweep_state (Ev_dir ''/w'' # evs) {} False) Loop_step (sweep_state evs {''/w''} False)"
    using visit [of "sweep_state (Ev_dir ''/w'' # evs) {} False" "Ev_dir ''/w''" evs sample_env "''/w''" "{sample_indexer}" True] root
    by (simp add: sweep_state_def watch_tree_visit_def visit_queues_def)
  show "sample_step (sweep_state (Ev_file ''/w/a.go'' False 1 1 # evs) {''/w''} False) (Queued ''/w/a.go'')
     (sweep_state evs {''/w''} True)"
    using visit [of "sweep_state (Ev_file ''/w/a.go'' False 1 1 # evs) {''/w''} False" "Ev_file ''/w/a.go'' False 1 1" evs sample_env "''/w''" "{sample_indexer}" True] go
    by (simp add: sweep_state_def watch_tree_visit_def visit_queues_def)
  show "sample_step (sweep_state [Ev_dir ''/w/node_modules''] {''/w''} True) Loop_step (sweep_state [] {''/w''} True)"
    using visit [of "sweep_state [Ev_dir ''/w/node_modules''] {''/w''} True" "Ev_dir ''/w/node_modules''" "[]" sample_env "''/w''" "{sample_indexer}" True] skip
    by (simp add: sweep_state_def watch_tree_visit_def visit_queues_def)
qed


end
