(* ===== verification/Sync_Index.thy ===== *)
theory Sync_Index
  imports Watcher
begin

text \<open>
  What the watcher relies on: the contract of the interface \<^verbatim>\<open>indexer\<close> as a locale, and the
  orchestrator's \<^verbatim>\<open>IndexChanges\<close>, \<^verbatim>\<open>DeleteFile\<close> and \<^verbatim>\<open>DeleteTree\<close> as its model.
\<close>

section \<open>The incremental pass keeps the database well-formed\<close>

lemma run_pass_ok: "db_ok db \<Longrightarrow> db_ok (fst (run_pass rip wd m bs rs db st))"
proof -
  assume "db_ok db"
  then have "pass_inv (set rs) db db" by (simp add: pass_inv_def)
  moreover obtain db' st' where "run_pass rip wd m bs rs db st = (db', st')" by fastforce
  ultimately show ?thesis
    using effects.loop_inv [of "set rs" db db rs rip wd m bs st db' st'] by (simp add: run_pass_def pass_inv_def)
qed

lemma resolve_for_files_ok: "db_ok db \<Longrightarrow> db_ok (fst (resolve_for_files rip iter wd m bs fs db))"
  by (simp add: resolve_for_files_def resolve_all_def run_pass_ok split_def Let_def)

lemma resolve_for_files_files: "g_files (fst (resolve_for_files rip iter wd m bs fs db)) = g_files db"
  by (simp add: resolve_for_files_def resolve_all_files run_pass_files split_def Let_def)

lemma scrub_list_ok: "db_ok db \<Longrightarrow> db_ok (fst (scrub_list rs db))"
proof -
  have "db_ok d \<Longrightarrow> db_ok (foldl (\<lambda>d r. delete_uref (u_id r) d) d xs)" for d and xs :: "uref list"
    by (induction xs arbitrary: d) (simp_all add: delete_uref_ok)
  then show "db_ok db \<Longrightarrow> db_ok (fst (scrub_list rs db))" by (simp add: scrub_list_def Let_def)
qed

lemma run_synthesis_ok:
  assumes "\<And>db. db_ok db \<Longrightarrow> db_ok (fst (ix_synth ix db))" "db_ok (ps_db s)"
  shows "db_ok (ps_db (run_synthesis ix files s))"
  using assms by (simp add: run_synthesis_def scrub_noisy_failed_refs_for_files_def split_def Let_def scrub_list_ok)

section \<open>One changed path\<close>

text \<open>What \<^verbatim>\<open>IndexChanges\<close> owes a path it does not report as failed.\<close>

definition change_settled :: "index_env \<Rightarrow> string \<Rightarrow> gdb \<Rightarrow> string \<Rightarrow> bool" where
  "change_settled ix wd db path \<longleftrightarrow>
     (case ix_stat ix path of
        Stat_missing \<Rightarrow> storage_path wd path \<notin> f_path ` set (g_files db)
      | Stat_error \<Rightarrow> False
      | Stat_ok dir sz t \<Rightarrow>
          \<not> dir \<and> sz \<le> max_index_file_size \<and> is_supported path \<and> \<not> ix_link ix path
            \<longrightarrow> file_current ix wd db path)"

lemma gate_frame:
  assumes "db_ok db" "index_if_needed ix wd force j db = (db', out)"
  shows "db_ok db' \<and> files_frame {storage_path wd (j_path j)} db db'"
  using assms gate_spec [OF assms]
  by (cases "ix_link ix (j_path j)") (auto simp: index_if_needed_def Let_def)

lemma change_settled_frame:
  "files_frame ks db db' \<Longrightarrow> storage_path wd p \<notin> ks \<Longrightarrow> change_settled ix wd db p \<Longrightarrow> change_settled ix wd db' p"
  using file_current_frame [of ks db db' wd p ix]
  by (auto simp: change_settled_def files_frame_def split: stat_result.splits)

lemma clear_file_frame: "files_frame {k} db (clear_file k db) \<and> k \<notin> f_path ` set (g_files (clear_file k db))"
  by (auto simp: files_frame_def clear_file_rows)

lemma index_change_spec:
  assumes "db_ok (ps_db s)" "index_change ix wd force path s = (s', keys)"
  shows "db_ok (ps_db s') \<and> files_frame {storage_path wd path} (ps_db s) (ps_db s')
    \<and> set (ps_failed s) \<subseteq> set (ps_failed s') \<and> set (ps_failed s') \<subseteq> insert path (set (ps_failed s))
    \<and> (path \<in> set (ps_failed s') \<or> change_settled ix wd (ps_db s') path)"
proof (cases "ix_stat ix path")
  case Stat_missing
  then show ?thesis
    using assms clear_file_ok clear_file_frame [of "storage_path wd path" "ps_db s"]
    by (auto simp: index_change_def change_settled_def)
next
  case Stat_error
  then show ?thesis using assms by (auto simp: index_change_def)
next
  case (Stat_ok dir sz t)
  let ?lang = "detect_language path"
  let ?j = "\<lparr>j_path = path, j_size = sz, j_mtime = t, j_lang = ?lang\<rparr>"
  show ?thesis
  proof (cases "dir \<or> max_index_file_size < sz \<or> ?lang = [] \<or> \<not> is_supported_language ?lang")
    case True
    then have "s' = s" using assms(2) Stat_ok by (auto simp: index_change_def Let_def)
    then show ?thesis using True assms(1) Stat_ok by (auto simp: change_settled_def is_supported_def Let_def)
  next
    case False
    obtain db' out where g: "index_if_needed ix wd force ?j (ps_db s) = (db', out)" by fastforce
    note gate = gate_frame [OF assms(1) g, simplified] gate_spec [OF assms(1) g, simplified]
    have s': "ps_db s' = db'" "ps_failed s' = (if good_outcome out then ps_failed s else ps_failed s @ [path])"
      using assms(2) Stat_ok False g
      by (auto simp: index_change_def count_outcome_def good_outcome_def Let_def
          split: gate_outcome.splits file_outcome.splits)
    have "change_settled ix wd db' path" if "good_outcome out"
      using gate(2) that Stat_ok by (auto simp: change_settled_def)
    then show ?thesis using gate(1) s' by auto
  qed
qed

section \<open>A batch\<close>

lemma files_frame_files: "g_files db' = g_files db \<Longrightarrow> files_frame ks db0 db' \<longleftrightarrow> files_frame ks db0 db"
  by (simp add: files_frame_def)

lemma change_settled_files: "g_files db' = g_files db \<Longrightarrow> change_settled ix wd db' p \<longleftrightarrow> change_settled ix wd db p"
proof -
  assume files: "g_files db' = g_files db"
  then have "file_current ix wd db' p \<longleftrightarrow> file_current ix wd db p" by (simp add: file_current_def cong: option.case_cong)
  then show ?thesis using files by (simp add: change_settled_def cong: stat_result.case_cong)
qed

lemma run_changes_spec:
  assumes "db_ok (ps_db s)" "run_changes ix wd force a ps s = (s', keys, a')"
  shows "db_ok (ps_db s') \<and> files_frame (storage_path wd ` set ps) (ps_db s) (ps_db s')
    \<and> set (ps_failed s) \<subseteq> set (ps_failed s')
    \<and> (distinct (map (storage_path wd) ps) \<and> \<not> fst (poll a') \<longrightarrow>
        (\<forall>p \<in> set ps. p \<in> set (ps_failed s') \<or> change_settled ix wd (ps_db s') p))"
  using assms
proof (induction ps arbitrary: a s s' keys)
  case (Cons p ps)
  show ?case
  proof (cases "fst (poll a)")
    case True
    then have "s' = s" "a' = Some 0" using Cons.prems(2) poll_closed by (auto simp: split_def Let_def)
    then show ?thesis using Cons.prems(1) by simp
  next
    case False
    obtain s1 k1 where c: "index_change ix wd force p s = (s1, k1)" by fastforce
    obtain k2 where r: "run_changes ix wd force (snd (poll a)) ps s1 = (s', k2, a')"
      using Cons.prems(2) False c by (auto simp: split_def Let_def prod_eq_iff)
    note one = index_change_spec [OF Cons.prems(1) c]
    note rest = Cons.IH [OF conjunct1 [OF one] r]
    have frame: "files_frame (storage_path wd ` set (p # ps)) (ps_db s) (ps_db s')"
      using files_frame_trans [of "{storage_path wd p}" "ps_db s" "ps_db s1"] one rest by simp
    have "p \<in> set (ps_failed s') \<or> change_settled ix wd (ps_db s') p" if "storage_path wd p \<notin> storage_path wd ` set ps"
      using one rest change_settled_frame [OF _ that] by blast
    then show ?thesis using one rest frame by auto
  qed
qed simp

lemma index_changes_settles_aux:
  assumes "db_ok db" "index_changes ix wd force a ps db = (s, a')"
    and "\<And>db. g_files (fst (ix_synth ix db)) = g_files db" "\<And>db. db_ok db \<Longrightarrow> db_ok (fst (ix_synth ix db))"
  shows "db_ok (ps_db s) \<and> files_frame (storage_path wd ` set ps) db (ps_db s)
    \<and> (([], Interrupted) \<notin> set (ps_errs s) \<and> distinct (map (storage_path wd) ps) \<longrightarrow>
        (\<forall>p \<in> set ps. p \<in> set (ps_failed s) \<or> change_settled ix wd (ps_db s) p))"
proof -
  obtain s1 keys a1 where r: "run_changes ix wd force a ps (start_pass db) = (s1, keys, a1)"
    by (cases "run_changes ix wd force a ps (start_pass db)") auto
  note spec = run_changes_spec [OF _ r, unfolded start_pass_def, simplified, OF assms(1)]
  show ?thesis
  proof (cases "fst (poll a1)")
    case True
    then have "s = s1\<lparr>ps_errs := ps_errs s1 @ [([], Interrupted)]\<rparr>"
      using assms(2) r by (auto simp: index_changes_def split_def Let_def)
    then show ?thesis using spec by simp
  next
    case False
    let ?db2 = "fst (resolve_for_files (ix_rip ix) (ix_iter ix) wd (ix_attempts ix) (ix_batch ix) keys (ps_db s1))"
    have s: "s = run_synthesis ix (Some keys) (s1\<lparr>ps_db := ?db2\<rparr>)"
      using assms(2) r False by (auto simp: index_changes_def split_def Let_def)
    have files: "g_files (ps_db s) = g_files (ps_db s1)"
      unfolding s by (simp add: run_synthesis_files [OF assms(3)] resolve_for_files_files)
    have ok: "db_ok (ps_db s)"
      unfolding s using spec by (intro run_synthesis_ok assms(4)) (simp_all add: resolve_for_files_ok)
    have failed: "ps_failed s = ps_failed s1" unfolding s by (simp add: run_synthesis_def split_def Let_def)
    show ?thesis
      using spec False ok unfolding files_frame_files [OF files] change_settled_files [OF files] failed by blast
  qed
qed

text \<open>
  Unless it is interrupted, \<^verbatim>\<open>IndexChanges\<close> brings every path of its
  batch up to date or reports it as failed: a path that is gone has no file record, a regular file
  of a supported language within the size limit has a record with the hash of its present
  contents, and a path that could not be examined is always reported.  Records of other files
  stay as they were, and the database stays well-formed.
\<close>

theorem index_changes_settles:
  assumes "db_ok db" "index_changes ix wd force a ps db = (s, a')"
    and "\<And>db. g_files (fst (ix_synth ix db)) = g_files db" "\<And>db. db_ok db \<Longrightarrow> db_ok (fst (ix_synth ix db))"
  shows "db_ok (ps_db s) \<and> files_frame (storage_path wd ` set ps) db (ps_db s)
    \<and> (([], Interrupted) \<notin> set (ps_errs s) \<and> distinct (map (storage_path wd) ps) \<longrightarrow>
        (\<forall>p \<in> set ps. p \<in> set (ps_failed s) \<or> change_settled ix wd (ps_db s) p))"
  using assms by (rule index_changes_settles_aux)

text \<open>A failed path shows in the errors or in the count of kept indexes.\<close>

definition failures_counted :: "pass_state \<Rightarrow> bool" where
  "failures_counted s \<longleftrightarrow> (clean_pass s \<longrightarrow> ps_failed s = [])"

lemma index_change_counted: "failures_counted s \<Longrightarrow> failures_counted (fst (index_change ix wd force p s))"
  by (auto simp: failures_counted_def clean_pass_def index_change_def count_outcome_def Let_def split_def
      split: stat_result.splits gate_outcome.splits file_outcome.splits)

lemma run_changes_counted: "failures_counted s \<Longrightarrow> failures_counted (fst (run_changes ix wd force a ps s))"
proof (induction ps arbitrary: a s)
  case (Cons p ps)
  then show ?case
    using Cons.IH [OF index_change_counted [OF Cons.prems], of "snd (poll a)" ix wd force p] by (simp add: split_def Let_def)
qed simp

lemma index_changes_counted: "failures_counted (fst (index_changes ix wd force a ps db))"
proof -
  have "failures_counted (fst (run_changes ix wd force a ps (start_pass db)))"
    by (rule run_changes_counted) (simp add: failures_counted_def start_pass_def)
  then show ?thesis
    by (auto simp: index_changes_def failures_counted_def clean_pass_def run_synthesis_def split_def Let_def)
qed

section \<open>The contract of the indexer\<close>

text \<open>
  \<open>fine\<close> is kept by all three operations, and \<^verbatim>\<open>IndexChanges\<close> makes every path it accepts current,
  when the keys of the batch are distinct.
\<close>

inductive_cases batch_stepE: "watch_step env wd irs s (Batch ir ps ox) s'"

locale indexer_contract =
  fixes irs :: "'o indexer set" and fine :: "'o \<Rightarrow> bool" and key :: "string \<Rightarrow> 'k"
    and current :: "'o indexer \<Rightarrow> string \<Rightarrow> 'o \<Rightarrow> bool"
  assumes changes_fine: "ir \<in> irs \<Longrightarrow> fine ox \<Longrightarrow> fine (fst (ix_changes ir ps ox))"
    and changes_current: "ir \<in> irs \<Longrightarrow> fine ox \<Longrightarrow> ix_changes ir ps ox = (oy, r) \<Longrightarrow> distinct (map key ps) \<Longrightarrow>
      p \<in> set ps \<Longrightarrow> accepted r p \<Longrightarrow> current ir p oy"
    and delete_file_fine: "ir \<in> irs \<Longrightarrow> fine ox \<Longrightarrow> fine (fst (ix_delete_file ir p ox))"
    and delete_tree_fine: "ir \<in> irs \<Longrightarrow> fine ox \<Longrightarrow> fine (fst (ix_delete_tree ir p ox))"
begin

lemma decide_fine: "ir \<in> irs \<Longrightarrow> fine ox \<Longrightarrow> fine (fst (decide_path ir ls p ox))"
  by (cases ls) (simp_all add: decide_path_def delete_file_fine delete_tree_fine)

lemma step_fine: "watch_step env wd irs s act s' \<Longrightarrow> fine (s_index s) \<Longrightarrow> fine (s_index s')"
proof (induction rule: watch_step.induct)
  case (decide_batch s j js b ir ls ox)
  then show ?case using decide_fine [of ir "s_index s" ls "pj_path j"] by simp
next
  case (decide_now s j js b ir ls ox ok)
  then show ?case using decide_fine [of ir "s_index s" ls "pj_path j"] by simp
next
  case (batch s b ir ox r)
  then show ?case using changes_fine [of ir "s_index s" "map pj_path b"] by simp
qed simp_all

lemma run_fine: "watch_run env wd irs s acts s' \<Longrightarrow> fine (s_index s) \<Longrightarrow> fine (s_index s')"
  by (induction rule: watch_run.induct) (auto intro: step_fine)

lemma batch_current:
  assumes "watch_step env wd irs s (Batch ir ps ox) s'" "fine (s_index s)" "distinct (map key ps)"
    and "accounts p (Batch ir ps ox)"
  shows "current ir p (s_index s')"
  using assms(1)
proof (rule batch_stepE)
  fix b oy r
  assume "ps = map pj_path b" "ox = s_index s" "ir \<in> irs" "ix_changes ir (map pj_path b) (s_index s) = (oy, r)"
    and "s' = s\<lparr>s_pass := Some \<lparr>wp_ready = [], wp_batch = [], wp_verdicts = batch_verdicts r b\<rparr>, s_index := oy\<rparr>"
  then show ?thesis using changes_current [of ir "s_index s" ps oy r p] assms(2-4) by simp
qed (simp_all split: if_splits option.splits)

text \<open>The moment at which a queued path that is no longer pending was dealt with.\<close>

lemma dealt_with:
  assumes "watch_run env wd irs (start_state now ox) (before @ Queued p # acts) s" "fine ox"
    and "w_pending (s_watcher s) p = None" "Dropped p \<notin> set acts"
  obtains acts1 act acts2 t where "acts = acts1 @ act # acts2"
    "watch_run env wd irs (start_state now ox) (before @ Queued p # acts1 @ [act]) t" "watch_run env wd irs t acts2 s"
    "(\<exists>ls. act = Cleared ls p)
      \<or> (\<exists>ir ps oy. act = Batch ir ps oy \<and> p \<in> set ps \<and> (distinct (map key ps) \<longrightarrow> current ir p (s_index t)))"
proof -
  obtain act where act: "act \<in> set acts" "accounts p act"
    using watcher_no_lost_event_aux2 [OF assms(1,3)] by blast
  then obtain acts1 acts2 where split: "acts = acts1 @ act # acts2" by (meson split_list)
  have "watch_run env wd irs (start_state now ox) ((before @ Queued p # acts1 @ [act]) @ acts2) s"
    using assms(1) split by simp
  then obtain t where t: "watch_run env wd irs (start_state now ox) (before @ Queued p # acts1 @ [act]) t"
      "watch_run env wd irs t acts2 s" unfolding watch_run_append by blast
  then have "watch_run env wd irs (start_state now ox) ((before @ Queued p # acts1) @ [act]) t" by simp
  then obtain u where u: "watch_run env wd irs (start_state now ox) (before @ Queued p # acts1) u"
      "watch_step env wd irs u act t" unfolding watch_run_snoc by blast
  have "fine (s_index u)" using run_fine [OF u(1)] assms(2) by (simp add: start_state_def)
  note cur = batch_current [OF _ this]
  have "(\<exists>ls. act = Cleared ls p)
      \<or> (\<exists>ir ps oy. act = Batch ir ps oy \<and> p \<in> set ps \<and> (distinct (map key ps) \<longrightarrow> current ir p (s_index t)))"
  proof (cases act)
    case (Batch ir ps oy)
    then show ?thesis using cur [of env wd ir ps oy t p] u(2) act(2) by auto
  qed (use act assms(4) in auto)
  with that split t show thesis by blast
qed

end

section \<open>The orchestrator as indexer\<close>

definition changes_report :: "pass_state \<Rightarrow> index_report" where
  "changes_report s =
     \<lparr>ir_end = (if ([], Interrupted) \<in> set (ps_errs s) then Index_interrupted
                else if ps_errs s = [] then Index_ok else Index_error),
      ir_partial = ps_partial s, ir_failed = ps_failed s\<rparr>"

definition orchestrator_indexer :: "index_env \<Rightarrow> string \<Rightarrow> bool \<Rightarrow> alarm \<Rightarrow> gdb indexer" where
  "orchestrator_indexer ix wd force a =
     \<lparr>ix_changes = (\<lambda>ps db. let s = fst (index_changes ix wd force a ps db) in (ps_db s, changes_report s)),
      ix_delete_file = (\<lambda>p db. (delete_file wd p db, True)),
      ix_delete_tree = (\<lambda>p db. (delete_tree wd p db, True))\<rparr>"

text \<open>The file system, the clock and the shutdown may differ from operation to operation.\<close>

definition lawful_synthesis :: "index_env \<Rightarrow> bool" where
  "lawful_synthesis ix \<longleftrightarrow>
     (\<forall>db. g_files (fst (ix_synth ix db)) = g_files db \<and> (db_ok db \<longrightarrow> db_ok (fst (ix_synth ix db))))"

definition orchestrators :: "string \<Rightarrow> gdb indexer set" where
  "orchestrators wd = {orchestrator_indexer ix wd force a | ix force a. lawful_synthesis ix}"

definition made_current :: "string \<Rightarrow> gdb indexer \<Rightarrow> string \<Rightarrow> gdb \<Rightarrow> bool" where
  "made_current wd ir p db \<longleftrightarrow>
     (\<exists>ix force a. ir = orchestrator_indexer ix wd force a \<and> change_settled ix wd db p)"

lemma accepted_settled:
  assumes "accepted (changes_report s) p" "failures_counted s"
  shows "([], Interrupted) \<notin> set (ps_errs s) \<and> p \<notin> set (ps_failed s)"
  using assms by (auto simp: accepted_def changes_report_def failures_counted_def clean_pass_def split: if_splits)

interpretation orch: indexer_contract "orchestrators wd" db_ok "storage_path wd" "made_current wd" for wd
proof unfold_locales
  fix ir ox ps
  assume ir: "ir \<in> orchestrators wd" and ok: "db_ok ox"
  obtain ix force a where d: "ir = orchestrator_indexer ix wd force a" "lawful_synthesis ix"
    using ir by (auto simp: orchestrators_def)
  obtain s a' where s: "index_changes ix wd force a ps ox = (s, a')" by fastforce
  have c: "ix_changes ir ps ox = (ps_db s, changes_report s)" by (simp add: d orchestrator_indexer_def s)
  have laws: "\<And>db. g_files (fst (ix_synth ix db)) = g_files db" "\<And>db. db_ok db \<Longrightarrow> db_ok (fst (ix_synth ix db))"
    using d(2) by (simp_all add: lawful_synthesis_def)
  note spec = index_changes_settles_aux [OF ok s laws]
  show "db_ok (fst (ix_changes ir ps ox))" using c spec by simp
  show "made_current wd ir p oy"
    if "ix_changes ir ps ox = (oy, r)" "distinct (map (storage_path wd) ps)" "p \<in> set ps" "accepted r p" for oy r p
  proof -
    have "failures_counted s" using index_changes_counted [of ix wd force a ps ox] s by simp
    then have "change_settled ix wd (ps_db s) p" using accepted_settled [of s p] spec that c by auto
    then show ?thesis using that(1) c d(1) by (auto simp: made_current_def)
  qed
next
  fix ir ox p
  assume "ir \<in> orchestrators wd" "db_ok ox"
  then show "db_ok (fst (ix_delete_file ir p ox))" "db_ok (fst (ix_delete_tree ir p ox))"
    using clear_files_rows
    by (auto simp: orchestrators_def orchestrator_indexer_def delete_file_def delete_tree_def clear_file_ok Let_def)
qed


section \<open>A file that grows over the limit\<close>

text \<open>
  \<^verbatim>\<open>IndexChanges\<close> skips a file over the size limit without clearing it: the rows of its smaller
  version stay, although a full pass would prune them, and the watcher settles the path.
\<close>

lemma oversize_keeps_stale_rows:
  assumes "ix_stat ix p = Stat_ok False sz t" "max_index_file_size < sz"
  shows "fst (index_change ix wd force p s) = s"
  using assms by (simp add: index_change_def Let_def)

section \<open>Samples\<close>

definition gone_ix :: index_env where
  "gone_ix = sample_ix\<lparr>ix_stat := (\<lambda>_. Stat_missing)\<rparr>"

lemma gone_ix_lawful: "lawful_synthesis gone_ix"
  by (simp add: lawful_synthesis_def gone_ix_def sample_ix_def)

theorem index_changes_settles_witness:
  "''a.go'' \<notin> f_path ` set (g_files (ps_db (fst (index_changes gone_ix ''/w'' False None [''/w/a.go''] two_file_db))))"
proof -
  obtain s a where s: "index_changes gone_ix ''/w'' False None [''/w/a.go''] two_file_db = (s, a)" by fastforce
  have "ps_errs s = []" "ps_failed s = []"
    using s by (auto simp: index_changes_def index_change_def gone_ix_def sample_ix_def start_pass_def poll_def
        run_synthesis_def split_def Let_def)
  moreover have "\<And>db. g_files (fst (ix_synth gone_ix db)) = g_files db"
    "\<And>db. db_ok db \<Longrightarrow> db_ok (fst (ix_synth gone_ix db))"
    using gone_ix_lawful by (simp_all add: lawful_synthesis_def)
  note index_changes_settles [OF two_file_db_ok s this]
  ultimately have "change_settled gone_ix ''/w'' (ps_db s) ''/w/a.go''" by simp
  then show ?thesis using s sample_key by (simp add: change_settled_def gone_ix_def)
qed


end
