(* ===== verification/Daemon_Sessions.thy ===== *)
theory Daemon_Sessions
  imports Prelude
begin

text \<open>
  The sessions of the daemon (\<^verbatim>\<open>daemon/server.go\<close>): counting connections from acceptance to the end
  of their session, the idle timer, and the two ways to shut down.  The accept loop, one goroutine
  for each connection, the timer's callbacks and a call of \<^verbatim>\<open>Stop\<close> run concurrently; each critical
  section under the mutex is one operation, and the step relation interleaves them in every order.
\<close>

section \<open>State\<close>

text \<open>
  Where the goroutine of a connection is: in the handshake, past the check of the session limit,
  in its session, past \<^verbatim>\<open>dropClient\<close>'s critical section (with its verdict whether no session is
  left), on its way out, past \<^verbatim>\<open>finishConn\<close>'s critical section and about to arm the timer, or done.
\<close>

datatype conn_phase = Absent | Handshake | Checked | Serving | Dropped bool | Finishing | Arming | Closed

text \<open>
  Timers are numbered; \<open>d_live\<close> are those that can still fire, \<open>d_callbacks\<close> counts callbacks that
  have started but not yet taken the mutex and \<open>d_rearms\<close> those about to arm the timer again.
\<close>

record daemon_state =
  d_clients :: nat
  d_in_flight :: nat
  d_conns :: "nat set"
  d_timer :: "nat option"
  d_live :: "nat set"
  d_next :: nat
  d_stopping :: bool
  d_phase :: "nat \<Rightarrow> conn_phase"
  d_callbacks :: nat
  d_rearms :: nat
  d_drained :: bool

definition max_sessions :: nat where
  "max_sessions = 64"

section \<open>Operations\<close>

definition stop_timer :: "daemon_state \<Rightarrow> daemon_state" where
  "stop_timer d = (case d_timer d of None \<Rightarrow> d | Some t \<Rightarrow> d\<lparr>d_live := d_live d - {t}, d_timer := None\<rparr>)"

definition set_phase :: "nat \<Rightarrow> conn_phase \<Rightarrow> daemon_state \<Rightarrow> daemon_state" where
  "set_phase c p d = d\<lparr>d_phase := (d_phase d)(c := p)\<rparr>"

text \<open>The registration in \<^verbatim>\<open>acceptLoop\<close>.\<close>

definition accept_conn :: "nat \<Rightarrow> daemon_state \<Rightarrow> daemon_state" where
  "accept_conn c d =
     (if d_stopping d then set_phase c Closed d
      else set_phase c Handshake (stop_timer (d\<lparr>d_in_flight := d_in_flight d + 1\<rparr>)))"

definition add_client :: "nat \<Rightarrow> daemon_state \<Rightarrow> daemon_state \<times> bool" where
  "add_client c d =
     (if d_stopping d then (d, False)
      else (stop_timer (d\<lparr>d_clients := d_clients d + 1, d_conns := insert c (d_conns d)\<rparr>), True))"

definition drop_client :: "nat \<Rightarrow> daemon_state \<Rightarrow> daemon_state \<times> bool" where
  "drop_client c d =
     (let n = (if 0 < d_clients d then d_clients d - 1 else d_clients d)
      in (d\<lparr>d_conns := d_conns d - {c}, d_clients := n\<rparr>, n = 0))"

definition finish_conn :: "daemon_state \<Rightarrow> daemon_state \<times> bool" where
  "finish_conn d =
     (let n = (if 0 < d_in_flight d then d_in_flight d - 1 else d_in_flight d)
      in (d\<lparr>d_in_flight := n\<rparr>, d_clients d = 0 \<and> n = 0))"

text \<open>\<^verbatim>\<open>armIdleTimer\<close>; \<open>stopping\<close> is the flag as it was read before taking the mutex.\<close>

definition arm_idle_timer :: "bool \<Rightarrow> bool \<Rightarrow> daemon_state \<Rightarrow> daemon_state" where
  "arm_idle_timer enabled stopping d =
     (if \<not> enabled \<or> stopping then d
      else if 0 < d_clients d \<or> 0 < d_in_flight d \<or> d_timer d \<noteq> None then d
      else d\<lparr>d_timer := Some (d_next d), d_live := insert (d_next d) (d_live d), d_next := d_next d + 1\<rparr>)"

definition stop_if_idle :: "daemon_state \<Rightarrow> daemon_state \<times> bool" where
  "stop_if_idle d =
     (if 0 < d_clients d \<or> 0 < d_in_flight d then (d, False)
      else if d_stopping d then (d, False)
      else (stop_timer (d\<lparr>d_stopping := True\<rparr>), True))"

definition start_daemon :: "bool \<Rightarrow> daemon_state" where
  "start_daemon enabled =
     arm_idle_timer enabled False
       \<lparr>d_clients = 0, d_in_flight = 0, d_conns = {}, d_timer = None, d_live = {}, d_next = 0, d_stopping = False,
        d_phase = (\<lambda>_. Absent), d_callbacks = 0, d_rearms = 0, d_drained = False\<rparr>"

section \<open>Steps\<close>

text \<open>\<open>enabled\<close> says whether the idle timeout is positive.\<close>

inductive daemon_step :: "bool \<Rightarrow> daemon_state \<Rightarrow> daemon_state \<Rightarrow> bool" for enabled where
  accept: "d_phase d c = Absent \<Longrightarrow> \<not> d_drained d \<Longrightarrow> daemon_step enabled d (accept_conn c d)"
| reject: "d_phase d c = Handshake \<Longrightarrow> daemon_step enabled d (set_phase c Finishing d)"
| check: "d_phase d c = Handshake \<Longrightarrow>
    daemon_step enabled d (set_phase c (if max_sessions \<le> d_clients d then Finishing else Checked) d)"
| add: "d_phase d c = Checked \<Longrightarrow> add_client c d = (d', ok) \<Longrightarrow>
    daemon_step enabled d (set_phase c (if ok then Serving else Finishing) d')"
| session_end: "d_phase d c = Serving \<Longrightarrow> drop_client c d = (d', zero) \<Longrightarrow>
    daemon_step enabled d (set_phase c (Dropped zero) d')"
| drop_arm: "d_phase d c = Dropped zero \<Longrightarrow> (d_stopping d \<or> \<not> stopping) \<Longrightarrow>
    daemon_step enabled d (set_phase c Finishing (if zero then arm_idle_timer enabled stopping d else d))"
| finish: "d_phase d c = Finishing \<Longrightarrow> finish_conn d = (d', idle) \<Longrightarrow>
    daemon_step enabled d (set_phase c (if idle then Arming else Closed) d')"
| finish_arm: "d_phase d c = Arming \<Longrightarrow> (d_stopping d \<or> \<not> stopping) \<Longrightarrow>
    daemon_step enabled d (set_phase c Closed (arm_idle_timer enabled stopping d))"
| fire: "t \<in> d_live d \<Longrightarrow>
    daemon_step enabled d (d\<lparr>d_live := d_live d - {t}, d_callbacks := d_callbacks d + 1\<rparr>)"
| callback: "0 < d_callbacks d \<Longrightarrow> stop_if_idle (d\<lparr>d_callbacks := d_callbacks d - 1\<rparr>) = (d', ok) \<Longrightarrow>
    daemon_step enabled d (if ok then d' else d'\<lparr>d_rearms := d_rearms d' + 1\<rparr>)"
| rearm: "0 < d_rearms d \<Longrightarrow> (d_stopping d \<or> \<not> stopping) \<Longrightarrow>
    daemon_step enabled d (arm_idle_timer enabled stopping (d\<lparr>d_rearms := d_rearms d - 1\<rparr>))"
| root_gone: "stop_if_idle d = (d', ok) \<Longrightarrow> daemon_step enabled d d'"
| stop_flag: "daemon_step enabled d (d\<lparr>d_stopping := True\<rparr>)"
| stop_begin: "d_stopping d \<Longrightarrow> daemon_step enabled d (stop_timer d)"
| drain: "d_stopping d \<Longrightarrow> \<forall>c. d_phase d c = Absent \<or> d_phase d c = Closed \<Longrightarrow>
    daemon_step enabled d (d\<lparr>d_drained := True\<rparr>)"

inductive daemon_reachable :: "bool \<Rightarrow> daemon_state \<Rightarrow> bool" for enabled where
  start: "daemon_reachable enabled (start_daemon enabled)"
| step: "daemon_reachable enabled d \<Longrightarrow> daemon_step enabled d d' \<Longrightarrow> daemon_reachable enabled d'"

section \<open>Invariants\<close>

text \<open>The goroutines that count as in flight.\<close>

definition in_flight_phase :: "conn_phase \<Rightarrow> bool" where
  "in_flight_phase p \<longleftrightarrow> p \<in> {Handshake, Checked, Serving, Finishing} \<or> (\<exists>z. p = Dropped z)"

definition flying :: "daemon_state \<Rightarrow> nat set" where
  "flying d = {c. in_flight_phase (d_phase d c)}"

definition serving :: "daemon_state \<Rightarrow> nat set" where
  "serving d = {c. d_phase d c = Serving}"

definition counts_ok :: "daemon_state \<Rightarrow> bool" where
  "counts_ok d \<longleftrightarrow>
     finite (flying d) \<and> d_in_flight d = card (flying d) \<and> d_conns d = serving d \<and> d_clients d = card (serving d)"

text \<open>An idle daemon that is not stopping has a live timer, or someone is about to see to it.\<close>

definition timer_ok :: "bool \<Rightarrow> daemon_state \<Rightarrow> bool" where
  "timer_ok enabled d \<longleftrightarrow>
     (enabled \<and> \<not> d_stopping d \<and> d_in_flight d = 0 \<longrightarrow>
        (\<exists>t. d_timer d = Some t \<and> t \<in> d_live d) \<or> 0 < d_callbacks d \<or> (d_timer d = None \<and> 0 < d_rearms d)
        \<or> (d_timer d = None \<and> (\<exists>c. d_phase d c = Arming)))"

subsection \<open>The phases under an update\<close>

lemma set_phase_simps [simp]:
  "d_clients (set_phase c p d) = d_clients d" "d_in_flight (set_phase c p d) = d_in_flight d"
  "d_conns (set_phase c p d) = d_conns d" "d_timer (set_phase c p d) = d_timer d"
  "d_live (set_phase c p d) = d_live d" "d_stopping (set_phase c p d) = d_stopping d"
  "d_callbacks (set_phase c p d) = d_callbacks d" "d_rearms (set_phase c p d) = d_rearms d"
  "d_drained (set_phase c p d) = d_drained d" "d_phase (set_phase c p d) = (d_phase d)(c := p)"
  by (simp_all add: set_phase_def)

lemma stop_timer_simps [simp]:
  "d_clients (stop_timer d) = d_clients d" "d_in_flight (stop_timer d) = d_in_flight d"
  "d_conns (stop_timer d) = d_conns d" "d_timer (stop_timer d) = None"
  "d_stopping (stop_timer d) = d_stopping d" "d_callbacks (stop_timer d) = d_callbacks d"
  "d_rearms (stop_timer d) = d_rearms d" "d_drained (stop_timer d) = d_drained d"
  "d_phase (stop_timer d) = d_phase d"
  by (simp_all add: stop_timer_def split: option.split)

lemma arm_simps [simp]:
  "d_clients (arm_idle_timer e s d) = d_clients d" "d_in_flight (arm_idle_timer e s d) = d_in_flight d"
  "d_conns (arm_idle_timer e s d) = d_conns d" "d_stopping (arm_idle_timer e s d) = d_stopping d"
  "d_callbacks (arm_idle_timer e s d) = d_callbacks d" "d_rearms (arm_idle_timer e s d) = d_rearms d"
  "d_drained (arm_idle_timer e s d) = d_drained d" "d_phase (arm_idle_timer e s d) = d_phase d"
  by (simp_all add: arm_idle_timer_def)

lemma flying_fun: "flying d = {c. in_flight_phase (d_phase d c)}"
  by (simp add: flying_def)

lemma in_flight_phase_simps [simp]:
  "in_flight_phase Handshake" "in_flight_phase Checked" "in_flight_phase Serving" "in_flight_phase Finishing"
  "in_flight_phase (Dropped z)" "\<not> in_flight_phase Absent" "\<not> in_flight_phase Arming" "\<not> in_flight_phase Closed"
  by (simp_all add: in_flight_phase_def)

lemma sets_of_phase:
  "d_phase d' = d_phase d \<Longrightarrow> flying d' = flying d"
  "d_phase d' = d_phase d \<Longrightarrow> serving d' = serving d"
  by (simp_all add: flying_def serving_def)

lemma flying_upd:
  "d_phase d' = (d_phase d)(c := p) \<Longrightarrow>
     flying d' = (if in_flight_phase p then insert c (flying d) else flying d - {c})"
  by (auto simp: flying_def)

lemma serving_upd:
  "d_phase d' = (d_phase d)(c := p) \<Longrightarrow>
     serving d' = (if p = Serving then insert c (serving d) else serving d - {c})"
  by (auto simp: serving_def)

lemma mem_flying: "c \<in> flying d \<longleftrightarrow> in_flight_phase (d_phase d c)"
  by (simp add: flying_def)

lemma mem_serving: "c \<in> serving d \<longleftrightarrow> d_phase d c = Serving"
  by (simp add: serving_def)

lemma serving_flying: "serving d \<subseteq> flying d"
  by (auto simp: serving_def flying_def)

lemma finite_serving: "counts_ok d \<Longrightarrow> finite (serving d)"
  using finite_subset[OF serving_flying[of d]] by (simp add: counts_ok_def)

lemma clients_le: "counts_ok d \<Longrightarrow> d_clients d \<le> d_in_flight d"
  using card_mono[OF _ serving_flying[of d]] by (simp add: counts_ok_def)

lemma drop_client_eq:
  "drop_client c d =
     (d\<lparr>d_conns := d_conns d - {c}, d_clients := d_clients d - 1\<rparr>, d_clients d - 1 = 0)"
proof -
  have "(if 0 < d_clients d then d_clients d - 1 else d_clients d) = d_clients d - 1" by simp
  then show ?thesis unfolding drop_client_def Let_def by simp
qed

lemma finish_conn_eq:
  "finish_conn d = (d\<lparr>d_in_flight := d_in_flight d - 1\<rparr>, d_clients d = 0 \<and> d_in_flight d - 1 = 0)"
proof -
  have "(if 0 < d_in_flight d then d_in_flight d - 1 else d_in_flight d) = d_in_flight d - 1" by simp
  then show ?thesis unfolding finish_conn_def Let_def by simp
qed

lemma counts_same:
  assumes "counts_ok d" "d_phase d' = d_phase d" "d_clients d' = d_clients d" "d_in_flight d' = d_in_flight d"
    "d_conns d' = d_conns d"
  shows "counts_ok d'"
  using assms sets_of_phase[OF assms(2)] by (simp add: counts_ok_def)

text \<open>A move of one connection between phases that count the same.\<close>

lemma counts_move:
  assumes ok: "counts_ok d" and ph: "d_phase d' = (d_phase d)(c := p)"
    and same: "in_flight_phase p = in_flight_phase (d_phase d c)" "(p = Serving) = (d_phase d c = Serving)"
    and st: "d_clients d' = d_clients d" "d_in_flight d' = d_in_flight d" "d_conns d' = d_conns d"
  shows "counts_ok d'"
proof -
  have "flying d' = flying d" "serving d' = serving d"
    using flying_upd[OF ph] serving_upd[OF ph] same mem_flying[of c d] mem_serving[of c d] by auto
  then show ?thesis using ok st by (simp add: counts_ok_def)
qed

lemma counts_accept:
  assumes ok: "counts_ok d" and ab: "d_phase d c = Absent"
  shows "counts_ok (accept_conn c d)"
proof (cases "d_stopping d")
  case True
  then show ?thesis using ab
    by (auto simp: accept_conn_def intro!: counts_move[OF ok, where c = c and p = Closed])
next
  case False
  let ?d = "accept_conn c d"
  have ph: "d_phase ?d = (d_phase d)(c := Handshake)" using False by (simp add: accept_conn_def)
  have "c \<notin> flying d" "c \<notin> serving d" using ab by (simp_all add: mem_flying mem_serving)
  then have "flying ?d = insert c (flying d)" "serving ?d = serving d" "c \<notin> flying d"
    using flying_upd[OF ph] serving_upd[OF ph] by simp_all
  then show ?thesis using ok False by (simp add: counts_ok_def accept_conn_def)
qed

lemma counts_add:
  assumes ok: "counts_ok d" and ch: "d_phase d c = Checked" and add: "add_client c d = (d', b)"
  shows "counts_ok (set_phase c (if b then Serving else Finishing) d')"
proof (cases "d_stopping d")
  case True
  then show ?thesis using add ch
    by (auto simp: add_client_def intro!: counts_move[OF ok, where c = c and p = Finishing])
next
  case False
  let ?d = "set_phase c Serving d'"
  have d': "d' = stop_timer (d\<lparr>d_clients := d_clients d + 1, d_conns := insert c (d_conns d)\<rparr>)" "b"
    using add False by (auto simp: add_client_def)
  have ph: "d_phase ?d = (d_phase d)(c := Serving)" by (simp add: d')
  have "c \<in> flying d" and c: "c \<notin> serving d" using ch by (simp_all add: mem_flying mem_serving)
  then have "flying ?d = flying d" "serving ?d = insert c (serving d)"
    using flying_upd[OF ph] serving_upd[OF ph] by auto
  then show ?thesis using ok c d'(2) finite_serving[OF ok] by (simp add: counts_ok_def d'(1))
qed

lemma counts_drop:
  assumes ok: "counts_ok d" and ch: "d_phase d c = Serving" and drop: "drop_client c d = (d', z)"
  shows "counts_ok (set_phase c (Dropped z) d')"
proof -
  let ?d = "set_phase c (Dropped z) d'"
  have d': "d' = d\<lparr>d_conns := d_conns d - {c}, d_clients := d_clients d - 1\<rparr>"
    using drop by (simp add: drop_client_eq)
  have ph: "d_phase ?d = (d_phase d)(c := Dropped z)" by (simp add: d')
  have "c \<in> flying d" and c: "c \<in> serving d" using ch by (simp_all add: mem_flying mem_serving)
  then have "flying ?d = flying d" "serving ?d = serving d - {c}"
    using flying_upd[OF ph] serving_upd[OF ph] by auto
  then show ?thesis using ok c finite_serving[OF ok] by (simp add: counts_ok_def d')
qed

lemma counts_finish:
  assumes ok: "counts_ok d" and ch: "d_phase d c = Finishing" and fin: "finish_conn d = (d', z)"
  shows "counts_ok (set_phase c (if z then Arming else Closed) d')"
proof -
  let ?d = "set_phase c (if z then Arming else Closed) d'"
  have d': "d' = d\<lparr>d_in_flight := d_in_flight d - 1\<rparr>"
    using fin by (simp add: finish_conn_eq)
  have ph: "d_phase ?d = (d_phase d)(c := if z then Arming else Closed)" by (simp add: d')
  have c: "c \<in> flying d" and "c \<notin> serving d" using ch by (simp_all add: mem_flying mem_serving)
  then have "flying ?d = flying d - {c}" "serving ?d = serving d"
    using flying_upd[OF ph] serving_upd[OF ph] by (auto split: if_splits)
  then show ?thesis using ok c by (simp add: counts_ok_def d')
qed

lemma accept_conn_simps [simp]:
  "d_clients (accept_conn c d) = d_clients d" "d_conns (accept_conn c d) = d_conns d"
  "d_in_flight (accept_conn c d) = (if d_stopping d then d_in_flight d else d_in_flight d + 1)"
  "d_timer (accept_conn c d) = (if d_stopping d then d_timer d else None)"
  "d_stopping (accept_conn c d) = d_stopping d" "d_callbacks (accept_conn c d) = d_callbacks d"
  "d_rearms (accept_conn c d) = d_rearms d" "d_drained (accept_conn c d) = d_drained d"
  "d_phase (accept_conn c d) = (d_phase d)(c := if d_stopping d then Closed else Handshake)"
  by (simp_all add: accept_conn_def)

text \<open>Arming either leaves the timer alone or, with no connection in flight, sets a live one.\<close>

lemma arm_cases:
  obtains "arm_idle_timer e s d = d" "e \<and> \<not> s \<and> d_clients d = 0 \<and> d_in_flight d = 0 \<longrightarrow> d_timer d \<noteq> None"
  | "d_timer (arm_idle_timer e s d) = Some (d_next d)" "d_next d \<in> d_live (arm_idle_timer e s d)"
    "d_in_flight d = 0" "d_timer d = None"
  unfolding arm_idle_timer_def by (cases "e \<and> \<not> s \<and> d_clients d = 0 \<and> d_in_flight d = 0 \<and> d_timer d = None") auto

text \<open>The part of the invariant about the timer, apart from the counts.\<close>

definition timer_inv :: "bool \<Rightarrow> daemon_state \<Rightarrow> bool" where
  "timer_inv enabled d \<longleftrightarrow>
     (d_timer d \<noteq> None \<longrightarrow> d_in_flight d = 0) \<and>
     (\<not> d_stopping d \<longrightarrow> (\<forall>t. d_timer d = Some t \<longrightarrow> t \<in> d_live d \<or> 0 < d_callbacks d)) \<and>
     (enabled \<and> \<not> d_stopping d \<and> d_in_flight d = 0 \<and> d_timer d = None \<longrightarrow>
        0 < d_rearms d \<or> (\<exists>c. d_phase d c = Arming))"

lemma timer_inv_start: "timer_inv e (start_daemon e)"
  by (simp add: timer_inv_def start_daemon_def arm_idle_timer_def)

lemma timer_inv_flying: "d_timer d = None \<Longrightarrow> 0 < d_in_flight d \<Longrightarrow> timer_inv e d"
  by (simp add: timer_inv_def)

lemma timer_inv_stopping: "d_stopping d \<Longrightarrow> d_timer d = None \<or> d_in_flight d = 0 \<Longrightarrow> timer_inv e d"
  by (auto simp: timer_inv_def)

text \<open>Changes that leave the timer and the counters alone, and no goroutine forgets to arm.\<close>

lemma timer_inv_same:
  assumes "timer_inv e d" "d_timer d' = d_timer d" "d_live d' = d_live d" "d_in_flight d' = d_in_flight d"
    "d_stopping d' = d_stopping d" "d_callbacks d' = d_callbacks d" "d_rearms d' = d_rearms d"
    "\<And>c. d_phase d c = Arming \<Longrightarrow> d_phase d' c = Arming"
  shows "timer_inv e d'"
  using assms unfolding timer_inv_def by metis

lemma timer_inv_arm:
  assumes inv: "d_timer d \<noteq> None \<longrightarrow> d_in_flight d = 0"
    "\<not> d_stopping d \<longrightarrow> (\<forall>t. d_timer d = Some t \<longrightarrow> t \<in> d_live d \<or> 0 < d_callbacks d)"
    and s: "d_stopping d \<or> \<not> s" and le: "d_clients d \<le> d_in_flight d"
  shows "timer_inv e (arm_idle_timer e s d)"
proof (cases rule: arm_cases[of e s d])
  case 1
  have "e \<and> \<not> d_stopping d \<and> d_in_flight d = 0 \<longrightarrow> d_timer d \<noteq> None" using 1 s le by auto
  then show ?thesis using inv by (auto simp: timer_inv_def 1(1))
next
  case 2
  then show ?thesis by (simp add: timer_inv_def)
qed

definition session_inv :: "bool \<Rightarrow> daemon_state \<Rightarrow> bool" where
  "session_inv enabled d \<longleftrightarrow>
     counts_ok d \<and> timer_inv enabled d \<and>
     (d_drained d \<longrightarrow> d_stopping d \<and> (\<forall>c. d_phase d c = Absent \<or> d_phase d c = Closed))"

lemma stop_if_idle_cases:
  assumes "stop_if_idle d = (d', ok)"
  obtains "ok" "d_clients d = 0" "d_in_flight d = 0" "\<not> d_stopping d" "d' = stop_timer (d\<lparr>d_stopping := True\<rparr>)"
  | "\<not> ok" "d' = d" "0 < d_clients d \<or> 0 < d_in_flight d \<or> d_stopping d"
proof (cases "0 < d_clients d \<or> 0 < d_in_flight d \<or> d_stopping d")
  case True
  then have "stop_if_idle d = (d, False)" by (auto simp: stop_if_idle_def)
  then show ?thesis using that(2) True assms by simp
next
  case False
  then have "stop_if_idle d = (stop_timer (d\<lparr>d_stopping := True\<rparr>), True)" by (simp add: stop_if_idle_def)
  then show ?thesis using that(1) False assms by simp
qed

lemma in_flight_pos: "counts_ok d \<Longrightarrow> c \<in> flying d \<Longrightarrow> 0 < d_in_flight d"
  by (auto simp: counts_ok_def card_gt_0_iff)

lemma set_phase_arm: "set_phase c p (arm_idle_timer e s d) = arm_idle_timer e s (set_phase c p d)"
  by (simp add: set_phase_def arm_idle_timer_def)

lemma counts_step:
  assumes "daemon_step e d d'" and ok: "counts_ok d"
  shows "counts_ok d'"
  using assms(1)
proof cases
  case (accept c)
  then show ?thesis by (simp add: counts_accept[OF ok])
next
  case (reject c)
  then show ?thesis by (auto intro!: counts_move[OF ok, where c = c and p = Finishing])
next
  case (check c)
  then show ?thesis
    by (auto intro!: counts_move[OF ok, where c = c and p = "if max_sessions \<le> d_clients d then Finishing else Checked"])
next
  case (add c a b)
  then show ?thesis using counts_add[OF ok] by blast
next
  case (session_end c a z)
  then show ?thesis using counts_drop[OF ok] by blast
next
  case (drop_arm c z s)
  then show ?thesis by (auto intro!: counts_move[OF ok, where c = c and p = Finishing])
next
  case (finish c a z)
  then show ?thesis using counts_finish[OF ok] by blast
next
  case (finish_arm c s)
  then show ?thesis by (auto intro!: counts_move[OF ok, where c = c and p = Closed])
next
  case (callback a b)
  have "counts_ok (d\<lparr>d_callbacks := d_callbacks d - 1\<rparr>)" by (rule counts_same[OF ok]) simp_all
  from callback(3) this show ?thesis
    by (cases rule: stop_if_idle_cases) (auto simp: callback(1) intro!: counts_same[OF ok])
next
  case (root_gone a)
  from this(1) show ?thesis by (cases rule: stop_if_idle_cases) (auto simp: ok intro!: counts_same[OF ok])
qed (auto intro!: counts_same[OF ok])

lemma timer_inv_stop_if_idle:
  assumes "stop_if_idle d = (d', ok)" and le: "d_clients d \<le> d_in_flight d"
    and inv: "d_timer d \<noteq> None \<longrightarrow> d_in_flight d = 0"
  shows "timer_inv e (if ok then d' else d'\<lparr>d_rearms := d_rearms d' + 1\<rparr>)"
  using assms(1)
proof (cases rule: stop_if_idle_cases)
  case 1
  then show ?thesis by (simp add: timer_inv_def)
next
  case 2
  then show ?thesis using inv le by (auto simp: timer_inv_def)
qed

lemma timer_step:
  assumes "daemon_step e d d'" and ok: "counts_ok d" and inv: "timer_inv e d"
  shows "timer_inv e d'"
proof -
  have le: "d_clients d \<le> d_in_flight d" by (rule clients_le[OF ok])
  have quiet: "d_timer d \<noteq> None \<longrightarrow> d_in_flight d = 0"
    and live: "\<not> d_stopping d \<longrightarrow> (\<forall>t. d_timer d = Some t \<longrightarrow> t \<in> d_live d \<or> 0 < d_callbacks d)"
    using inv by (simp_all add: timer_inv_def)
  have pos: "0 < d_in_flight d" if "in_flight_phase (d_phase d c)" for c
    using in_flight_pos[OF ok] that by (simp add: mem_flying)
  show ?thesis using assms(1)
  proof cases
    case (accept c)
    then show ?thesis using quiet
      by (cases "d_stopping d") (auto intro: timer_inv_flying timer_inv_stopping)
  next
    case (reject c)
    then show ?thesis by (auto intro!: timer_inv_same[OF inv])
  next
    case (check c)
    then show ?thesis by (auto intro!: timer_inv_same[OF inv])
  next
    case (add c a b)
    show ?thesis
    proof (cases "d_stopping d")
      case True
      then have d': "d' = set_phase c Finishing d" using add by (simp add: add_client_def)
      show ?thesis by (rule timer_inv_same[OF inv]) (use \<open>d_phase d c = Checked\<close> in \<open>auto simp: d'\<close>)
    next
      case False
      then show ?thesis using add pos[of c] by (auto simp: add_client_def intro!: timer_inv_flying)
    qed
  next
    case (session_end c a z)
    have d': "d' = set_phase c (Dropped z) (d\<lparr>d_conns := d_conns d - {c}, d_clients := d_clients d - 1\<rparr>)"
      using session_end by (simp add: drop_client_eq)
    show ?thesis by (rule timer_inv_same[OF inv]) (use \<open>d_phase d c = Serving\<close> in \<open>auto simp: d'\<close>)
  next
    case (drop_arm c z s)
    have "timer_inv e (set_phase c Finishing d)"
      by (rule timer_inv_same[OF inv]) (use \<open>d_phase d c = Dropped z\<close> in auto)
    moreover have "timer_inv e (arm_idle_timer e s (set_phase c Finishing d))"
      by (rule timer_inv_arm) (use quiet live drop_arm le in simp_all)
    ultimately show ?thesis by (simp add: drop_arm(1) set_phase_arm)
  next
    case (finish c a z)
    have "counts_ok d'" by (rule counts_step[OF assms(1) ok])
    then have le': "d_clients d' \<le> d_in_flight d'" by (rule clients_le)
    have "0 < d_in_flight d" using finish(2) by (intro pos[of c]) simp
    then have none: "d_timer d = None" using quiet by auto
    have "d_in_flight d' = 0 \<longrightarrow> d_phase d' c = Arming"
      using finish le' by (auto simp: finish_conn_eq)
    then show ?thesis using none finish by (auto simp: timer_inv_def finish_conn_eq)
  next
    case (finish_arm c s)
    have "timer_inv e (arm_idle_timer e s (set_phase c Closed d))"
      by (rule timer_inv_arm) (use quiet live finish_arm le in simp_all)
    then show ?thesis by (simp add: finish_arm(1) set_phase_arm)
  next
    case (fire t)
    then show ?thesis using inv by (auto simp: timer_inv_def)
  next
    case (callback a b)
    show ?thesis unfolding callback(1)
      by (rule timer_inv_stop_if_idle[OF callback(3)]) (use le quiet in simp_all)
  next
    case (rearm s)
    show ?thesis unfolding rearm(1) by (rule timer_inv_arm) (use quiet live rearm le in simp_all)
  next
    case (root_gone b)
    from root_gone(1) show ?thesis
      by (cases rule: stop_if_idle_cases) (use inv in \<open>simp_all add: timer_inv_def\<close>)
  next
    case stop_flag
    then show ?thesis using quiet by (auto intro!: timer_inv_stopping)
  next
    case stop_begin
    then show ?thesis by (auto intro!: timer_inv_stopping)
  next
    case drain
    then show ?thesis using quiet by (auto intro!: timer_inv_stopping)
  qed
qed

lemma drained_step:
  assumes "daemon_step e d d'"
    and inv: "d_drained d \<longrightarrow> d_stopping d \<and> (\<forall>c. d_phase d c = Absent \<or> d_phase d c = Closed)"
  shows "d_drained d' \<longrightarrow> d_stopping d' \<and> (\<forall>c. d_phase d' c = Absent \<or> d_phase d' c = Closed)"
proof (cases "d_drained d")
  case True
  then have stop: "d_stopping d" and ph: "\<And>c. d_phase d c = Absent \<or> d_phase d c = Closed" using inv by auto
  have "d_stopping d' \<and> d_phase d' = d_phase d"
    using assms(1)
  proof cases
    case (callback a b)
    from callback(3) show ?thesis
      by (cases rule: stop_if_idle_cases) (use stop in \<open>simp_all add: callback(1)\<close>)
  next
    case (root_gone b)
    from root_gone(1) show ?thesis by (cases rule: stop_if_idle_cases) (use stop in simp_all)
  next
    case (reject c)
    then show ?thesis using ph[of c] by simp
  next
    case (check c)
    then show ?thesis using ph[of c] by simp
  next
    case (add c a b)
    then show ?thesis using ph[of c] by simp
  next
    case (session_end c a z)
    then show ?thesis using ph[of c] by simp
  next
    case (drop_arm c z s)
    then show ?thesis using ph[of c] by simp
  next
    case (finish c a z)
    then show ?thesis using ph[of c] by simp
  next
    case (finish_arm c s)
    then show ?thesis using ph[of c] by simp
  qed (use True stop in simp_all)
  then show ?thesis using ph by simp
next
  case False
  show ?thesis using assms(1)
  proof cases
    case (add c a b)
    then have "d_drained d' = d_drained d" by (auto simp: add_client_def split: if_splits)
    then show ?thesis using False by simp
  next
    case (callback a b)
    from callback(3) show ?thesis
      by (cases rule: stop_if_idle_cases) (use False in \<open>simp_all add: callback(1)\<close>)
  next
    case (root_gone b)
    from root_gone(1) show ?thesis by (cases rule: stop_if_idle_cases) (use False in simp_all)
  next
    case (session_end c a z)
    then have "d_drained d' = d_drained d" by (auto simp: drop_client_eq)
    then show ?thesis using False by simp
  next
    case (finish c a z)
    then have "d_drained d' = d_drained d" by (auto simp: finish_conn_eq)
    then show ?thesis using False by simp
  qed (use False in simp_all)
qed

lemma counts_start: "counts_ok (start_daemon e)"
  by (simp add: counts_ok_def start_daemon_def flying_def serving_def)

lemma drained_start: "\<not> d_drained (start_daemon e)"
  by (simp add: start_daemon_def)

lemma reachable_inv: "daemon_reachable e d \<Longrightarrow> session_inv e d"
proof (induction rule: daemon_reachable.induct)
  case start
  then show ?case by (simp add: session_inv_def counts_start timer_inv_start drained_start)
next
  case (step d d')
  then show ?case
    using counts_step[OF step.hyps(2)] timer_step[OF step.hyps(2)] drained_step[OF step.hyps(2)]
    unfolding session_inv_def by blast
qed

lemma reachable_steps: "(daemon_step e)\<^sup>*\<^sup>* d d' \<Longrightarrow> daemon_reachable e d \<Longrightarrow> daemon_reachable e d'"
  by (induction rule: rtranclp_induct) (auto intro: daemon_reachable.step)

section \<open>Properties\<close>

text \<open>
  C23 (\<open>sessions_counted\<close>).  In every reachable state of the daemon, under every interleaving of the
  accept loop, the connections' goroutines, timers and shutdowns, the session count is the number of
  connections being served, the table of connections holds exactly those, the in-flight count is
  the number of connections accepted and not yet finished, and the artifacts are only cleaned up
  when no connection is left and none can come.
\<close>

theorem sessions_counted:
  assumes "daemon_reachable enabled d"
  shows "d_conns d = serving d \<and> d_clients d = card (serving d) \<and> d_in_flight d = card (flying d) \<and>
    (d_drained d \<longrightarrow> d_stopping d \<and> flying d = {})"
proof -
  have inv: "session_inv enabled d" by (rule reachable_inv[OF assms])
  have "flying d = {}" if "d_drained d"
  proof -
    have "\<not> in_flight_phase (d_phase d c)" for c
      using inv that in_flight_phase_simps(6,8) unfolding session_inv_def by metis
    then show ?thesis by (simp add: flying_def)
  qed
  then show ?thesis using inv by (simp add: session_inv_def counts_ok_def)
qed

text \<open>
  C24 (\<open>idle_stop_safe\<close>).  When the idle timer or the check of the working directory stops the
  daemon, no connection is in flight at that moment, not even one that is still in its handshake,
  and no session is ever started afterwards: no client is cut off or stranded by them.
\<close>

lemma stopped_stays:
  assumes "daemon_step e d d'" "d_stopping d" "flying d = {}"
  shows "d_stopping d' \<and> flying d' = {}"
proof -
  have ph: "\<not> in_flight_phase (d_phase d c)" for c using assms(3) by (auto simp: flying_def)
  have "d_stopping d' \<and> (\<forall>c. \<not> in_flight_phase (d_phase d' c))"
    using assms(1)
  proof cases
    case (reject c)
    then show ?thesis using ph[of c] by simp
  next
    case (check c)
    then show ?thesis using ph[of c] by simp
  next
    case (add c a b)
    then show ?thesis using ph[of c] by simp
  next
    case (session_end c a z)
    then show ?thesis using ph[of c] by simp
  next
    case (drop_arm c z s)
    then show ?thesis using ph[of c] by simp
  next
    case (finish c a z)
    then show ?thesis using ph[of c] by simp
  next
    case (callback a b)
    from callback(3) show ?thesis
      by (cases rule: stop_if_idle_cases) (use assms(2) ph in \<open>simp_all add: callback(1)\<close>)
  next
    case (root_gone b)
    from root_gone(1) show ?thesis by (cases rule: stop_if_idle_cases) (use assms(2) ph in simp_all)
  qed (use assms(2) ph in simp_all)
  then show ?thesis by (simp add: flying_def)
qed

theorem idle_stop_safe:
  assumes reach: "daemon_reachable enabled d" and stop: "stop_if_idle d = (d1, True)"
    and run: "(daemon_step enabled)\<^sup>*\<^sup>* d1 d2"
  shows "flying d = {} \<and> flying d2 = {} \<and> d_clients d2 = 0"
proof -
  have ok: "counts_ok d" using reachable_inv[OF reach] by (simp add: session_inv_def)
  have d1: "d_in_flight d = 0" "d1 = stop_timer (d\<lparr>d_stopping := True\<rparr>)"
    using stop by (cases rule: stop_if_idle_cases; simp)+
  have none: "flying d = {}" using ok d1(1) by (auto simp: counts_ok_def)
  have "flying d1 = flying d" by (rule sets_of_phase) (simp add: d1)
  moreover have "d_stopping d1" by (simp add: d1)
  ultimately have start: "d_stopping d1 \<and> flying d1 = {}" using none by simp
  have "d_stopping d2 \<and> flying d2 = {}"
    using run start by (induction rule: rtranclp_induct) (auto dest: stopped_stays)
  moreover have "daemon_step enabled d d1" by (rule daemon_step.root_gone[OF stop])
  then have "daemon_reachable enabled d2"
    using reach run by (blast intro: daemon_reachable.step reachable_steps)
  then have "d_clients d2 = card (serving d2)"
    using reachable_inv by (auto simp: session_inv_def counts_ok_def)
  ultimately show ?thesis using none serving_flying[of d2] by simp
qed

text \<open>
  A daemon with an idle timeout that has no connection in flight and
  is not stopping has a timer that will fire, a callback that is about to stop it, or a goroutine
  that is about to set the timer: an idle daemon never stays behind without a timer.
\<close>

theorem idle_daemon_has_timer:
  assumes "daemon_reachable True d" "\<not> d_stopping d" "flying d = {}"
  shows "(\<exists>t. d_timer d = Some t \<and> t \<in> d_live d) \<or> 0 < d_callbacks d \<or>
    (d_timer d = None \<and> (0 < d_rearms d \<or> (\<exists>c. d_phase d c = Arming)))"
proof -
  have inv: "counts_ok d" "timer_inv True d" using reachable_inv[OF assms(1)] by (simp_all add: session_inv_def)
  have "d_in_flight d = 0" using inv(1) assms(3) by (simp add: counts_ok_def)
  then show ?thesis using inv(2) assms(2) by (cases "d_timer d") (auto simp: timer_inv_def)
qed

section \<open>The limit on sessions\<close>

text \<open>
  The check of the limit and the registration are two critical sections: with \<open>n\<close> connections past
  the check before the first registers, any number of sessions runs at once.
\<close>

definition handshakes_upto :: "nat \<Rightarrow> nat \<Rightarrow> nat \<Rightarrow> daemon_state \<Rightarrow> bool" where
  "handshakes_upto s k n d \<longleftrightarrow> \<not> d_stopping d \<and> \<not> d_drained d \<and> d_clients d = s \<and>
     d_phase d = (\<lambda>c. if c < s then Serving else if c < k then Checked else if c < n then Handshake else Absent)"

lemma accepts_reachable: "\<exists>d. daemon_reachable e d \<and> handshakes_upto 0 0 n d"
proof (induction n)
  case 0
  have "handshakes_upto 0 0 0 (start_daemon e)" by (simp add: handshakes_upto_def start_daemon_def)
  then show ?case using daemon_reachable.start by blast
next
  case (Suc n)
  then obtain d where d: "daemon_reachable e d" "handshakes_upto 0 0 n d" by blast
  then have "daemon_step e d (accept_conn n d)" by (intro daemon_step.accept) (simp_all add: handshakes_upto_def)
  moreover have "handshakes_upto 0 0 (Suc n) (accept_conn n d)"
    using d(2) by (auto simp: handshakes_upto_def fun_eq_iff)
  ultimately show ?case using d(1) daemon_reachable.step by blast
qed

lemma checks_reachable: "k \<le> n \<Longrightarrow> \<exists>d. daemon_reachable e d \<and> handshakes_upto 0 k n d"
proof (induction k)
  case 0
  then show ?case using accepts_reachable by blast
next
  case (Suc k)
  then obtain d where d: "daemon_reachable e d" "handshakes_upto 0 k n d" by auto
  then have ph: "d_phase d k = Handshake" "d_clients d = 0" using Suc.prems by (simp_all add: handshakes_upto_def)
  then have "daemon_step e d (set_phase k Checked d)"
    using daemon_step.check[OF ph(1), of e] by (simp add: max_sessions_def)
  moreover have "handshakes_upto 0 (Suc k) n (set_phase k Checked d)"
    using d(2) Suc.prems by (auto simp: handshakes_upto_def fun_eq_iff)
  ultimately show ?case using d(1) daemon_reachable.step by blast
qed

lemma adds_reachable: "s \<le> n \<Longrightarrow> \<exists>d. daemon_reachable e d \<and> handshakes_upto s n n d"
proof (induction s)
  case 0
  then show ?case using checks_reachable by blast
next
  case (Suc s)
  then obtain d where d: "daemon_reachable e d" "handshakes_upto s n n d" by auto
  let ?d = "stop_timer (d\<lparr>d_clients := d_clients d + 1, d_conns := insert s (d_conns d)\<rparr>)"
  have "add_client s d = (?d, True)" "d_phase d s = Checked"
    using d(2) Suc.prems by (simp_all add: handshakes_upto_def add_client_def)
  then have "daemon_step e d (set_phase s Serving ?d)" using daemon_step.add[of d s ?d True e] by simp
  moreover have "handshakes_upto (Suc s) n n (set_phase s Serving ?d)"
    using d(2) Suc.prems by (auto simp: handshakes_upto_def fun_eq_iff)
  ultimately show ?case using d(1) daemon_reachable.step by blast
qed

lemma session_limit_exceeded: "\<exists>d. daemon_reachable e d \<and> max_sessions < d_clients d"
proof -
  obtain d where "daemon_reachable e d" "handshakes_upto 65 65 65 d" using adds_reachable[of 65 65 e] by auto
  then show ?thesis by (auto simp: handshakes_upto_def max_sessions_def)
qed

section \<open>Witnesses\<close>

lemma one_connection: "daemon_reachable True (accept_conn 7 (start_daemon True))"
proof -
  have "daemon_step True (start_daemon True) (accept_conn 7 (start_daemon True))"
    by (rule daemon_step.accept) (simp_all add: start_daemon_def)
  then show ?thesis using daemon_reachable.start daemon_reachable.step by blast
qed

theorem sessions_counted_witness:
  "d_in_flight (accept_conn 7 (start_daemon True)) = 1 \<and>
   card (flying (accept_conn 7 (start_daemon True))) = 1"
  using sessions_counted[OF one_connection] by (simp add: start_daemon_def)

theorem idle_stop_safe_witness:
  "flying (fst (stop_if_idle (start_daemon True))) = {}"
proof -
  have "stop_if_idle (start_daemon True) = (fst (stop_if_idle (start_daemon True)), True)"
    by (simp add: stop_if_idle_def start_daemon_def)
  from idle_stop_safe[OF daemon_reachable.start this rtranclp.rtrancl_refl] show ?thesis by simp
qed

theorem idle_daemon_has_timer_witness: "d_timer (start_daemon True) = Some 0"
proof -
  have "\<not> d_stopping (start_daemon True)" "flying (start_daemon True) = {}"
    by (simp_all add: start_daemon_def flying_def)
  from idle_daemon_has_timer[OF daemon_reachable.start this] show ?thesis
    by (auto simp: start_daemon_def arm_idle_timer_def)
qed

end
