(* ===== verification/Proc_Identity.thy ===== *)
theory Proc_Identity
  imports Go_Filepath
begin

text \<open>
  How a process is recognised (\<^verbatim>\<open>daemon/lock.go\<close>, \<^verbatim>\<open>daemon/recovery.go\<close>, \<^verbatim>\<open>daemon/paths.go\<close>): the
  record in the pidfile, the start time in \<^verbatim>\<open>/proc/<pid>/stat\<close>, the working directory and the
  binary in the command line, and the marker in the environment; and the command line and
  environment \<^verbatim>\<open>daemon/spawn.go\<close> gives a daemon.
\<close>

section \<open>Numbers\<close>

definition is_digit :: "char \<Rightarrow> bool" where
  "is_digit c \<longleftrightarrow> 48 \<le> byte_of c \<and> byte_of c \<le> 57"

definition digits_value :: "string \<Rightarrow> nat" where
  "digits_value s = foldl (\<lambda>n c. 10 * n + (byte_of c - 48)) 0 s"

text \<open>\<^verbatim>\<open>strconv.ParseInt(s, 10, 64)\<close> and \<^verbatim>\<open>strconv.Atoi\<close> on a 64-bit platform.\<close>

definition parse_int64 :: "string \<Rightarrow> int option" where
  "parse_int64 s =
     (let (neg, ds) = (case s of
            [] \<Rightarrow> (False, [])
          | c # cs \<Rightarrow> if c = CHR ''-'' then (True, cs) else if c = CHR ''+'' then (False, cs) else (False, s));
          n = int (digits_value ds)
      in if ds = [] \<or> \<not> list_all is_digit ds then None
         else if neg then (if n \<le> 2 ^ 63 then Some (- n) else None)
         else (if n < 2 ^ 63 then Some n else None))"

section \<open>The pidfile\<close>

record lock_info =
  li_pid :: int
  li_version :: string
  li_socket :: string
  li_started :: int
  li_proc_start :: int

definition package_version :: string where
  "package_version = ''0.9.13''"

text \<open>\<open>json\<close> is \<^verbatim>\<open>json.Unmarshal\<close> into the record, \<^const>\<open>None\<close> when it fails.\<close>

definition decode_lock :: "(string \<Rightarrow> lock_info option) \<Rightarrow> string \<Rightarrow> lock_info option" where
  "decode_lock json raw =
     (let trimmed = trim_space raw in
      if trimmed = [] then None
      else case json trimmed of
        Some info \<Rightarrow> if 0 < li_pid info \<and> li_version info \<noteq> [] then Some info else None
      | None \<Rightarrow>
          (case parse_int64 trimmed of
             None \<Rightarrow> None
           | Some pid \<Rightarrow>
               if pid \<le> 0 then None
               else Some \<lparr>li_pid = pid, li_version = ''unknown'', li_socket = [], li_started = 0, li_proc_start = 0\<rparr>))"

text \<open>Whatever the file holds, a decoded record names a process and a version.\<close>

lemma decode_lock_pid: "decode_lock json raw = Some info \<Longrightarrow> 0 < li_pid info \<and> li_version info \<noteq> []"
  by (auto simp: decode_lock_def Let_def split: option.splits if_splits)

section \<open>Process records\<close>

definition str_fields :: "string \<Rightarrow> string list" where
  "str_fields s = fields_func is_space s"

text \<open>\<^verbatim>\<open>procStartTime\<close> on the contents of \<^verbatim>\<open>/proc/<pid>/stat\<close>.\<close>

definition stat_start :: "string \<Rightarrow> int" where
  "stat_start raw =
     (case last_index_any {CHR '')''} raw of
        None \<Rightarrow> 0
      | Some i \<Rightarrow>
          if length raw \<le> i + 2 then 0
          else
            (let fs = str_fields (drop (i + 2) raw) in
             if length fs < 20 then 0
             else case parse_int64 (fs ! 19) of None \<Rightarrow> 0 | Some v \<Rightarrow> v))"

definition nul :: char where
  "nul = CHR 0x00"

definition env_daemon_internal :: string where
  "env_daemon_internal = ''CODEGRAPH_DAEMON_INTERNAL''"

definition has_daemon_env_marker :: "string \<Rightarrow> bool" where
  "has_daemon_env_marker environ =
     (if environ = [] then False
      else list_ex (\<lambda>kv. kv = env_daemon_internal @ ''=1'') (split_on nul environ))"

fun flag_value :: "string \<Rightarrow> string list \<Rightarrow> string" where
  "flag_value flag (a # v # args) = (if a = flag then v else flag_value flag (v # args))"
| "flag_value flag args = []"

definition cmdline_workdir :: "string \<Rightarrow> string" where
  "cmdline_workdir cmdline = (if cmdline = [] then [] else flag_value ''-workdir'' (split_on nul cmdline))"

definition cmdline_workdir_matches :: "string \<Rightarrow> string \<Rightarrow> bool" where
  "cmdline_workdir_matches cmdline root =
     (if root = [] then False
      else let wd = cmdline_workdir cmdline in wd \<noteq> [] \<and> clean wd = clean root)"

definition is_self_binary :: "string option \<Rightarrow> string \<Rightarrow> bool" where
  "is_self_binary self exe = (case self of None \<Rightarrow> False | Some s \<Rightarrow> s \<noteq> [] \<and> clean exe = clean s)"

definition is_codegraph_cmdline :: "string \<Rightarrow> bool" where
  "is_codegraph_cmdline cmdline =
     (let argv0 = (case index_byte nul cmdline of None \<Rightarrow> cmdline | Some i \<Rightarrow> take i cmdline) in
      if argv0 = [] then False
      else if filepath_base argv0 \<in> {''codegraph'', ''codegraph-go''} then True
      else
        (let cleaned = clean argv0 in
         ''codegraph-go'' \<in> set (split_on slash cleaned)
         \<or> cleaned = ''codegraph'' \<or> has_suffix cleaned ''/codegraph'' \<or> has_suffix cleaned ''/codegraph-go''))"

definition is_invisible_holder :: "string \<Rightarrow> string \<Rightarrow> string \<Rightarrow> bool" where
  "is_invisible_holder root cmdline environ =
     (if cmdline = [] \<or> environ = [] then False
      else if \<not> is_codegraph_cmdline cmdline then False
      else
        (let workdir = flag_value ''-workdir'' (split_on nul cmdline) in
         if workdir = [] \<or> clean workdir \<noteq> clean root then False
         else list_ex (\<lambda>kv. kv = env_daemon_internal @ ''=1'') (split_on nul environ)))"

section \<open>What a spawned daemon looks like\<close>

record spawn_opts =
  so_config :: string
  so_no_sync :: bool

definition daemon_args :: "string \<Rightarrow> spawn_opts option \<Rightarrow> string list" where
  "daemon_args root opts =
     [''-workdir'', root]
     @ (case opts of
          None \<Rightarrow> []
        | Some o' \<Rightarrow>
            (if so_config o' \<noteq> [] then [''-config'', so_config o'] else [])
            @ (if so_no_sync o' then [''-no-sync''] else []))"

definition daemon_env :: "string list \<Rightarrow> string list" where
  "daemon_env env =
     filter (\<lambda>e. \<not> has_prefix e (env_daemon_internal @ ''='')) env @ [env_daemon_internal @ ''=1'']"

text \<open>\<^verbatim>\<open>/proc\<close> shows both as sequences of strings, each ended by a zero byte.\<close>

definition proc_strings :: "string list \<Rightarrow> string" where
  "proc_strings xs = concat (map (\<lambda>x. x @ [nul]) xs)"

section \<open>The start time in a stat line\<close>

lemma fields_by_map: "fields_by f (map h acc) (map h xs) = map (map h) (fields_by (\<lambda>x. f (h x)) acc xs)"
proof (induction xs arbitrary: acc)
  case Nil
  show ?case by (simp add: rev_map)
next
  case (Cons x xs)
  have "map h (x # acc) = h x # map h acc" by simp
  then show ?case using Cons.IH [of "[]"] Cons.IH [of "x # acc"] by (simp add: rev_map)
qed

lemma str_fields_ascii:
  assumes "ascii_string s"
  shows "str_fields s = fields_by (\<lambda>c. is_space (byte_of c)) [] s"
proof -
  have sing: "concat (map (\<lambda>c. [c]) xs) = xs" for xs :: string by (induction xs) auto
  show ?thesis
    using fields_by_map [of "\<lambda>(r, bs). is_space r" "\<lambda>c. (byte_of c, [c])" "[]" s]
    by (simp add: str_fields_def fields_func_def rune_segs_ascii [OF assms] comp_def sing)
qed

text \<open>A word is visible and has no blanks.\<close>

definition is_word :: "string \<Rightarrow> bool" where
  "is_word w \<longleftrightarrow> w \<noteq> [] \<and> ascii_string w \<and> list_all (\<lambda>c. \<not> is_space (byte_of c)) w"

lemma fields_by_word:
  assumes "list_all (\<lambda>x. \<not> sp x) w"
  shows "fields_by sp acc (w @ xs) = fields_by sp (rev w @ acc) xs"
  using assms by (induction w arbitrary: acc) auto

lemma fields_by_words:
  assumes "sp b" "list_all (\<lambda>w. w \<noteq> [] \<and> list_all (\<lambda>x. \<not> sp x) w) ws" "sp c"
  shows "fields_by sp [] (join_with [b] ws @ [c]) = ws"
  using assms(2)
proof (induction ws)
  case (Cons x ws)
  show ?case
  proof (cases ws)
    case Nil
    then show ?thesis using Cons.prems fields_by_word [of sp x "[]" "[c]"] assms(3) by simp
  next
    case (Cons y ys)
    then show ?thesis
      using Cons.IH Cons.prems fields_by_word [of sp x "[]" "b # join_with [b] ws @ [c]"] assms(1) by simp
  qed
qed (use assms(3) in simp)

lemma stat_start_after:
  assumes "set (b # rest) \<inter> {CHR '')''} = {}" "rest \<noteq> []"
  shows "stat_start (p @ CHR '')'' # b # rest) =
    (let fs = str_fields rest in
     if length fs < 20 then 0 else case parse_int64 (fs ! 19) of None \<Rightarrow> 0 | Some v \<Rightarrow> v)"
proof -
  have "drop (length p + 2) (p @ CHR '')'' # b # rest) = rest" by simp
  moreover have "\<not> length (p @ CHR '')'' # b # rest) \<le> length p + 2" using assms(2) by (cases rest) auto
  ultimately show ?thesis
    using last_index_any_append [OF assms(1), of "CHR '')''" p] by (simp add: stat_start_def)
qed

lemma stat_start_aux:
  assumes "list_all is_word fs" "list_all (\<lambda>w. CHR '')'' \<notin> set w) fs" "20 \<le> length fs"
  shows "stat_start (pid @ '' ('' @ comm @ '') '' @ join_with '' '' fs @ [CHR 0x0A])
    = (case parse_int64 (fs ! 19) of None \<Rightarrow> 0 | Some v \<Rightarrow> v)"
proof -
  let ?nl = "CHR 0x0A" and ?par = "CHR '')''"
  let ?rest = "join_with '' '' fs @ [?nl]"
  have nl: "?nl \<noteq> ?par" "is_space (byte_of ?nl)" "is_space (byte_of (CHR '' ''))" "ascii_string [?nl]"
    by (simp_all add: is_space_def ascii_string_def)
  have set_join: "set (join_with '' '' ws) \<subseteq> insert (CHR '' '') (\<Union> (set ` set ws))" for ws
    by (induction "'' ''" ws rule: join_with.induct) auto
  have no_par: "set ('' '' @ ?rest) \<inter> {?par} = {}"
    using set_join [of fs] assms(2) nl(1) by (auto simp: list_all_iff)
  have "ascii_string ?rest"
    using set_join [of fs] assms(1) nl(4) by (fastforce simp: list_all_iff is_word_def ascii_string_def)
  then have "str_fields ?rest = fs"
    using fields_by_words [of "\<lambda>c. is_space (byte_of c)" "CHR '' ''" fs ?nl] nl assms(1)
    by (simp add: str_fields_ascii list_all_iff is_word_def)
  then show ?thesis
    using stat_start_after [of "CHR '' ''" ?rest "pid @ '' ('' @ comm"] no_par assms(3) by (simp add: Let_def)
qed

text \<open>
  The start time is read from the right field of a stat line for every
  process name, also one with blanks and parentheses: the fields are counted from the last closing
  parenthesis.
\<close>

theorem stat_start_exact:
  assumes "list_all is_word fs" "list_all (\<lambda>w. CHR '')'' \<notin> set w) fs" "20 \<le> length fs"
  shows "stat_start (pid @ '' ('' @ comm @ '') '' @ join_with '' '' fs @ [CHR 0x0A])
    = (case parse_int64 (fs ! 19) of None \<Rightarrow> 0 | Some v \<Rightarrow> v)"
  using assms by (rule stat_start_aux)

section \<open>A spawned daemon is recognised\<close>

lemma proc_strings_append [simp]: "proc_strings (xs @ ys) = proc_strings xs @ proc_strings ys"
  by (simp add: proc_strings_def)

lemma proc_strings_split:
  "list_all (\<lambda>x. nul \<notin> set x) xs \<Longrightarrow> split_on nul (proc_strings xs) = xs @ [[]]"
  by (induction xs) (simp_all add: proc_strings_def split_on_append_sep)

lemma proc_strings_end: "xs \<noteq> [] \<Longrightarrow> \<exists>z. proc_strings xs = z @ [nul]"
  by (induction xs rule: rev_induct) (simp_all add: proc_strings_def)

lemma last_in_split:
  assumes "nul \<notin> set kv"
  shows "kv \<in> set (split_on nul (proc_strings (xs @ [kv])))"
proof -
  have kv: "split_on nul (kv @ [nul]) = [kv, []]" using assms split_on_append_sep [of nul kv "[]"] by simp
  show ?thesis
  proof (cases "xs = []")
    case True
    then show ?thesis using kv by (simp add: proc_strings_def)
  next
    case False
    then obtain z where "proc_strings xs = z @ [nul]" using proc_strings_end by blast
    then show ?thesis using kv split_on_append [of nul z "kv @ [nul]"] by (simp add: proc_strings_def)
  qed
qed

lemma marker_no_nul: "nul \<notin> set (env_daemon_internal @ ''=1'')"
  by (simp add: env_daemon_internal_def nul_def)

lemma has_marker_iff: "has_daemon_env_marker e \<longleftrightarrow> e \<noteq> [] \<and> env_daemon_internal @ ''=1'' \<in> set (split_on nul e)"
  by (simp add: has_daemon_env_marker_def list_ex_iff)

text \<open>
  What \<^verbatim>\<open>SpawnDetached\<close> gives a daemon is what the checks look for:
  the process it starts shows the working directory of its project to \<^verbatim>\<open>cmdlineWorkdirMatches\<close> and
  carries the marker, whatever markers the parent's environment had; started under a binary with
  the program's name it also fits the profile of an invisible holder, and under no other project.
\<close>

theorem spawned_daemon_recognised:
  assumes "root \<noteq> []" "self \<noteq> ''-workdir''" "list_all (\<lambda>x. nul \<notin> set x) (self # daemon_args root opts)"
    and "cmd = proc_strings (self # daemon_args root opts)" "envs = proc_strings (daemon_env env)"
  shows "cmdline_workdir_matches cmd root \<and> has_daemon_env_marker envs
    \<and> (other \<noteq> [] \<and> cmdline_workdir_matches cmd other \<longrightarrow> clean other = clean root)
    \<and> (is_codegraph_cmdline cmd \<longrightarrow> is_invisible_holder root cmd envs)"
proof -
  have ne: "cmd \<noteq> []" "envs \<noteq> []" using assms(4,5) by (simp_all add: proc_strings_def daemon_env_def)
  have "flag_value ''-workdir'' (split_on nul cmd) = root"
    using proc_strings_split [OF assms(3)] assms(2,4) by (simp add: daemon_args_def)
  moreover have "env_daemon_internal @ ''=1'' \<in> set (split_on nul envs)"
    using last_in_split [OF marker_no_nul] assms(5) unfolding daemon_env_def by simp
  ultimately show ?thesis
    using ne assms(1)
    by (auto simp: cmdline_workdir_matches_def cmdline_workdir_def has_marker_iff is_invisible_holder_def
        list_ex_iff Let_def)
qed

section \<open>Samples\<close>

definition sample_fields :: "string list" where
  "sample_fields = replicate 20 ''9''"

definition sample_stat :: string where
  "sample_stat = ''7'' @ '' ('' @ '') ('' @ '') '' @ join_with '' '' sample_fields @ [CHR 0x0A]"

lemma nine: "is_word ''9''" "parse_int64 ''9'' = Some 9" "CHR '')'' \<notin> set ''9''"
  by (simp_all add: is_word_def ascii_string_def is_space_def parse_int64_def is_digit_def digits_value_def Let_def)

lemma sample_fields_ok:
  "list_all is_word sample_fields" "list_all (\<lambda>w. CHR '')'' \<notin> set w) sample_fields" "20 \<le> length sample_fields"
  "sample_fields ! 19 = ''9''"
  using nine by (simp_all add: sample_fields_def list_all_iff)

lemma sample_start: "stat_start sample_stat = 9"
  unfolding sample_stat_def
  using stat_start_aux [OF sample_fields_ok(1-3), of "''7''" "'') (''"] sample_fields_ok(4) nine(2) by simp

theorem stat_start_exact_witness: "stat_start sample_stat = 9"
  unfolding sample_stat_def
  using stat_start_exact [OF sample_fields_ok(1-3), of "''7''" "'') (''"] sample_fields_ok(4) nine(2) by simp

theorem spawned_daemon_recognised_witness:
  "cmdline_workdir_matches (proc_strings [''/b/codegraph-go'', ''-workdir'', ''/w'']) ''/w''
   \<and> has_daemon_env_marker (proc_strings (daemon_env []))"
  using spawned_daemon_recognised [of "''/w''" "''/b/codegraph-go''" None _ "proc_strings (daemon_env [])" "[]"]
  by (simp add: daemon_args_def nul_def)

end
