(* ===== verification/Daemon_Kill.thy ===== *)
theory Daemon_Kill
  imports Proc_Identity
begin

text \<open>
  Taking the daemon's lock, clearing it, and terminating a stale daemon or an invisible holder of
  the database lock (\<^verbatim>\<open>daemon/lock.go\<close>, \<^verbatim>\<open>daemon/pidfd.go\<close>, \<^verbatim>\<open>daemon/recovery.go\<close>).

  The operating system is a history: what every process id, file and call shows at every moment.
  Each system call of the code takes one moment, and between two moments the system may do anything,
  so a theorem about all histories covers every interleaving with other processes: exits, the reuse
  of a process id, a rewritten pidfile.  What the code itself does to the system, signals delivered
  and files removed, is the list of effects it returns.
\<close>

section \<open>The operating system\<close>

text \<open>
  A process: its incarnation, which no other process ever has, and what \<^verbatim>\<open>/proc\<close> shows of it at that
  moment, \<^const>\<open>None\<close> or the empty string where it cannot be read.
\<close>

record proc =
  pr_inc :: nat
  pr_stat :: "string option"
  pr_cmdline :: string
  pr_environ :: string
  pr_exe :: "string option"

datatype file_read = Contents string | No_file | Read_error
datatype remove_result = Removed | Not_there | Remove_failed
datatype send_result = Sent | No_process | Send_failed

record os =
  os_proc :: "nat \<Rightarrow> int \<Rightarrow> proc option"
  os_pids :: "nat \<Rightarrow> int list option"
  os_pidfd :: "nat \<Rightarrow> bool"
  os_denied :: "nat \<Rightarrow> bool"
  os_file :: "nat \<Rightarrow> string \<Rightarrow> file_read"
  os_remove :: "nat \<Rightarrow> string \<Rightarrow> remove_result"
  os_nanos :: "nat \<Rightarrow> int"
  os_polls :: "nat \<Rightarrow> nat"
  os_self :: int
  os_executable :: "string option"
  os_json :: "string \<Rightarrow> lock_info option"

datatype signal = Term | Kill

text \<open>A signal delivered to an incarnation, and a file removed, each with its moment.\<close>

datatype effect = Signalled nat signal nat | Deleted string nat

definition is_process_alive :: "os \<Rightarrow> nat \<Rightarrow> int \<Rightarrow> bool" where
  "is_process_alive os t pid \<longleftrightarrow> 0 < pid \<and> os_proc os t pid \<noteq> None"

definition proc_start_time :: "os \<Rightarrow> nat \<Rightarrow> int \<Rightarrow> int" where
  "proc_start_time os t pid =
     (case os_proc os t pid of
        None \<Rightarrow> 0
      | Some p \<Rightarrow> (case pr_stat p of None \<Rightarrow> 0 | Some raw \<Rightarrow> stat_start raw))"

definition proc_cmdline :: "os \<Rightarrow> nat \<Rightarrow> int \<Rightarrow> string" where
  "proc_cmdline os t pid = (case os_proc os t pid of None \<Rightarrow> [] | Some p \<Rightarrow> pr_cmdline p)"

definition proc_environ :: "os \<Rightarrow> nat \<Rightarrow> int \<Rightarrow> string" where
  "proc_environ os t pid = (case os_proc os t pid of None \<Rightarrow> [] | Some p \<Rightarrow> pr_environ p)"

definition proc_exe :: "os \<Rightarrow> nat \<Rightarrow> int \<Rightarrow> string option" where
  "proc_exe os t pid = (case os_proc os t pid of None \<Rightarrow> None | Some p \<Rightarrow> pr_exe p)"

text \<open>
  \<^verbatim>\<open>pidfd_open\<close> pins the incarnation that has the id now; \<^verbatim>\<open>pidfd_send_signal\<close> reaches that incarnation
  or none; \<^verbatim>\<open>kill\<close> reaches whatever has the id.
\<close>

definition pidfd_open :: "os \<Rightarrow> nat \<Rightarrow> int \<Rightarrow> nat option" where
  "pidfd_open os t pid = (if os_pidfd os t then map_option pr_inc (os_proc os t pid) else None)"

definition pidfd_send :: "os \<Rightarrow> nat \<Rightarrow> int \<Rightarrow> nat \<Rightarrow> send_result" where
  "pidfd_send os t pid inc =
     (case os_proc os t pid of
        None \<Rightarrow> No_process
      | Some p \<Rightarrow> if pr_inc p \<noteq> inc then No_process else if os_denied os t then Send_failed else Sent)"

definition kill_send :: "os \<Rightarrow> nat \<Rightarrow> int \<Rightarrow> send_result" where
  "kill_send os t pid =
     (if os_proc os t pid = None then No_process else if os_denied os t then Send_failed else Sent)"

definition kill_effects :: "os \<Rightarrow> nat \<Rightarrow> int \<Rightarrow> signal \<Rightarrow> effect list" where
  "kill_effects os t pid sig = (case os_proc os t pid of None \<Rightarrow> [] | Some p \<Rightarrow> [Signalled (pr_inc p) sig t])"

text \<open>\<^verbatim>\<open>waitForExit\<close>: the polls that fit before its deadline.\<close>

fun wait_polls :: "os \<Rightarrow> int \<Rightarrow> nat \<Rightarrow> nat \<Rightarrow> bool \<times> nat" where
  "wait_polls os pid 0 t = (False, t)"
| "wait_polls os pid (Suc n) t = (if \<not> is_process_alive os t pid then (True, t + 1) else wait_polls os pid n (t + 1))"

definition wait_for_exit :: "os \<Rightarrow> int \<Rightarrow> nat \<Rightarrow> bool \<times> nat" where
  "wait_for_exit os pid t = wait_polls os pid (os_polls os t) t"

section \<open>The lock file\<close>

definition pid_path :: "string \<Rightarrow> string" where
  "pid_path root = filepath_join [filepath_join [root, ''.codegraph''], ''daemon.pid'']"

definition remove_file :: "os \<Rightarrow> nat \<Rightarrow> string \<Rightarrow> bool \<times> effect list" where
  "remove_file os t path =
     (case os_remove os t path of Removed \<Rightarrow> (True, [Deleted path t]) | Not_there \<Rightarrow> (True, []) | Remove_failed \<Rightarrow> (False, []))"

definition clear_stale_lock :: "os \<Rightarrow> string \<Rightarrow> int \<Rightarrow> nat \<Rightarrow> bool \<times> effect list \<times> nat" where
  "clear_stale_lock os path expected t =
     (case os_file os t path of
        Read_error \<Rightarrow> (False, [], t + 1)
      | No_file \<Rightarrow> (True, [], t + 1)
      | Contents raw \<Rightarrow>
          (case decode_lock (os_json os) raw of
             None \<Rightarrow> (let (ok, effs) = remove_file os (t + 1) path in (ok, effs, t + 2))
           | Some info \<Rightarrow>
               if 0 < expected \<and> li_pid info \<noteq> expected then (False, [], t + 1)
               else if 0 < li_pid info \<and> is_process_alive os (t + 1) (li_pid info) then (False, [], t + 2)
               else (let (ok, effs) = remove_file os (t + 2) path in (ok, effs, t + 3))))"

section \<open>Recognising the daemon\<close>

datatype refusal = No_start_recorded | Start_unreadable | Start_changed | Wrong_project | Not_a_daemon

definition verify_daemon_identity :: "os \<Rightarrow> lock_info \<Rightarrow> string \<Rightarrow> nat \<Rightarrow> refusal option \<times> nat" where
  "verify_daemon_identity os info root t =
     (let pid = li_pid info in
      if li_proc_start info \<le> 0 then (Some No_start_recorded, t)
      else
        (let cur = proc_start_time os t pid in
         if cur = 0 then (Some Start_unreadable, t + 1)
         else if cur \<noteq> li_proc_start info then (Some Start_changed, t + 1)
         else if \<not> cmdline_workdir_matches (proc_cmdline os (t + 1) pid) root then (Some Wrong_project, t + 2)
         else if (case proc_exe os (t + 2) pid of
                    None \<Rightarrow> False
                  | Some exe \<Rightarrow> exe \<noteq> [] \<and> is_self_binary (os_executable os) exe) then (None, t + 3)
         else if has_daemon_env_marker (proc_environ os (t + 3) pid) then (None, t + 4)
         else (Some Not_a_daemon, t + 4)))"

section \<open>Terminating a stale daemon\<close>

datatype kill_error = Refused refusal | Lock_unreadable | Signal_failed | Survived

type_synonym kill_result = "(kill_error + unit) \<times> effect list \<times> nat"

text \<open>The two ends the paths below share: the process is gone, or it is not the recorded daemon.\<close>

definition cleared :: "os \<Rightarrow> string \<Rightarrow> int \<Rightarrow> nat \<Rightarrow> kill_result" where
  "cleared os path pid t = (let (ok, effs, t') = clear_stale_lock os path pid t in (Inr (), effs, t'))"

definition mismatch :: "os \<Rightarrow> string \<Rightarrow> int \<Rightarrow> refusal \<Rightarrow> nat \<Rightarrow> kill_result" where
  "mismatch os path pid r t =
     (if \<not> is_process_alive os t pid then cleared os path pid (t + 1) else (Inl (Refused r), [], t + 1))"

definition terminate_stale_via_pidfd :: "os \<Rightarrow> nat \<Rightarrow> lock_info \<Rightarrow> string \<Rightarrow> string \<Rightarrow> nat \<Rightarrow> kill_result" where
  "terminate_stale_via_pidfd os fd info root path t =
     (let pid = li_pid info; (v, t1) = verify_daemon_identity os info root t in
      case v of
        Some r \<Rightarrow> mismatch os path pid r t1
      | None \<Rightarrow>
          (case pidfd_send os t1 pid fd of
             No_process \<Rightarrow> cleared os path pid (t1 + 1)
           | Send_failed \<Rightarrow> (Inl Signal_failed, [], t1 + 1)
           | Sent \<Rightarrow>
               (let (gone, t2) = wait_for_exit os pid (t1 + 1); sent = [Signalled fd Term t1] in
                if gone then (Inr (), sent, t2)
                else
                  (let (v2, t3) = verify_daemon_identity os info root t2 in
                   case v2 of
                     Some r \<Rightarrow> (let (res, effs, t4) = mismatch os path pid r t3 in (res, sent @ effs, t4))
                   | None \<Rightarrow>
                       (case pidfd_send os t3 pid fd of
                          Send_failed \<Rightarrow> (Inl Signal_failed, sent, t3 + 1)
                        | res \<Rightarrow>
                            (let effs = sent @ (if res = Sent then [Signalled fd Kill t3] else []);
                                 (gone2, t4) = wait_for_exit os pid (t3 + 1)
                             in (if gone2 then Inr () else Inl Survived, effs, t4)))))))"

definition terminate_stale_via_kill :: "os \<Rightarrow> lock_info \<Rightarrow> string \<Rightarrow> string \<Rightarrow> nat \<Rightarrow> kill_result" where
  "terminate_stale_via_kill os info root path t =
     (let pid = li_pid info; failed = (\<lambda>effs u. if \<not> is_process_alive os u pid
            then (let (res, effs', u') = cleared os path pid (u + 1) in (res, effs @ effs', u'))
            else (Inl Signal_failed, effs, u + 1))
      in case kill_send os t pid of
           Sent \<Rightarrow>
             (let sent = kill_effects os t pid Term; (gone, t1) = wait_for_exit os pid (t + 1) in
              if gone then (Inr (), sent, t1)
              else
                (let (v, t2) = verify_daemon_identity os info root t1 in
                 case v of
                   Some r \<Rightarrow> (let (res, effs, t3) = mismatch os path pid r t2 in (res, sent @ effs, t3))
                 | None \<Rightarrow>
                     (case kill_send os t2 pid of
                        Sent \<Rightarrow>
                          (let effs = sent @ kill_effects os t2 pid Kill; (gone2, t3) = wait_for_exit os pid (t2 + 1)
                           in (if gone2 then Inr () else Inl Survived, effs, t3))
                      | _ \<Rightarrow> failed sent (t2 + 1))))
         | _ \<Rightarrow> failed [] (t + 1))"

definition terminate_stale_daemon :: "os \<Rightarrow> lock_info \<Rightarrow> string \<Rightarrow> string \<Rightarrow> nat \<Rightarrow> kill_result" where
  "terminate_stale_daemon os info root path t =
     (case pidfd_open os t (li_pid info) of
        None \<Rightarrow> terminate_stale_via_kill os info root path (t + 1)
      | Some fd \<Rightarrow> terminate_stale_via_pidfd os fd info root path (t + 1))"

definition kill_stale_daemon :: "os \<Rightarrow> string \<Rightarrow> nat \<Rightarrow> kill_result" where
  "kill_stale_daemon os root t =
     (let path = pid_path root in
      case os_file os t path of
        No_file \<Rightarrow> (Inr (), [], t + 1)
      | Read_error \<Rightarrow> (Inl Lock_unreadable, [], t + 1)
      | Contents raw \<Rightarrow>
          (case decode_lock (os_json os) raw of
             None \<Rightarrow> cleared os path 0 (t + 1)
           | Some info \<Rightarrow>
               if is_process_alive os (t + 1) (li_pid info)
               then
                 (let (v, t1) = verify_daemon_identity os info root (t + 2) in
                  case v of
                    Some r \<Rightarrow> (Inl (Refused r), [], t1)
                  | None \<Rightarrow>
                      (case terminate_stale_daemon os info root path t1 of
                         (Inl e, effs, t2) \<Rightarrow> (Inl e, effs, t2)
                       | (Inr u, effs, t2) \<Rightarrow>
                           (let (res, effs', t3) = cleared os path (li_pid info) t2 in (res, effs @ effs', t3))))
               else cleared os path (li_pid info) (t + 2)))"

section \<open>Invisible holders of the database lock\<close>

definition half_dead_startup_grace :: int where
  "half_dead_startup_grace = 3 * 1000000000"

definition newborn_daemon_in_startup_grace :: "os \<Rightarrow> string \<Rightarrow> nat \<Rightarrow> bool \<times> nat" where
  "newborn_daemon_in_startup_grace os root t =
     (case os_file os t (pid_path root) of
        Contents raw \<Rightarrow>
          (case decode_lock (os_json os) raw of
             None \<Rightarrow> (False, t + 1)
           | Some info \<Rightarrow>
               if li_pid info \<le> 0 \<or> li_started info \<le> 0 then (False, t + 1)
               else if \<not> is_process_alive os (t + 1) (li_pid info) then (False, t + 2)
               else (os_nanos os (t + 2) - 1000000 * li_started info < half_dead_startup_grace, t + 3))
      | _ \<Rightarrow> (False, t + 1))"

definition live_invisible_holder_match :: "os \<Rightarrow> string \<Rightarrow> int \<Rightarrow> nat \<Rightarrow> bool \<times> nat" where
  "live_invisible_holder_match os root pid t =
     (if pid = os_self os then (False, t)
      else (is_invisible_holder root (proc_cmdline os t pid) (proc_environ os (t + 1) pid), t + 2))"

datatype holder_error = Pidfd_not_supported | Holder_signal_failed | Holder_survived

type_synonym holder_result = "(holder_error + bool) \<times> effect list \<times> nat"

definition terminate_via_pidfd :: "os \<Rightarrow> string \<Rightarrow> int \<Rightarrow> nat \<Rightarrow> holder_result" where
  "terminate_via_pidfd os root pid t =
     (case pidfd_open os t pid of
        None \<Rightarrow> (Inl Pidfd_not_supported, [], t + 1)
      | Some fd \<Rightarrow>
          (let (live, t1) = live_invisible_holder_match os root pid (t + 1) in
           if \<not> live then (Inr False, [], t1)
           else case pidfd_send os t1 pid fd of
             No_process \<Rightarrow> (Inr False, [], t1 + 1)
           | Send_failed \<Rightarrow> (Inl Holder_signal_failed, [], t1 + 1)
           | Sent \<Rightarrow>
               (let (gone, t2) = wait_for_exit os pid (t1 + 1); sent = [Signalled fd Term t1] in
                if gone then (Inr True, sent, t2)
                else
                  (let (live2, t3) = live_invisible_holder_match os root pid t2 in
                   if \<not> live2 then (Inr False, sent, t3)
                   else case pidfd_send os t3 pid fd of
                     Send_failed \<Rightarrow> (Inl Holder_signal_failed, sent, t3 + 1)
                   | res \<Rightarrow>
                       (let effs = sent @ (if res = Sent then [Signalled fd Kill t3] else []);
                            (gone2, t4) = wait_for_exit os pid (t3 + 1)
                        in (if gone2 then Inr True else Inl Holder_survived, effs, t4))))))"

definition terminate_via_kill :: "os \<Rightarrow> string \<Rightarrow> int \<Rightarrow> nat \<Rightarrow> holder_result" where
  "terminate_via_kill os root pid t =
     (let (live, t1) = live_invisible_holder_match os root pid t in
      if \<not> live then (Inr False, [], t1)
      else if kill_send os t1 pid \<noteq> Sent
      then (if \<not> is_process_alive os (t1 + 1) pid then Inr False else Inl Holder_signal_failed, [], t1 + 2)
      else
        (let (gone, t2) = wait_for_exit os pid (t1 + 1); sent = kill_effects os t1 pid Term in
         if gone then (Inr True, sent, t2)
         else
           (let (live2, t3) = live_invisible_holder_match os root pid t2 in
            if \<not> live2 then (Inr False, sent, t3)
            else if kill_send os t3 pid \<noteq> Sent
            then (if \<not> is_process_alive os (t3 + 1) pid then Inr False else Inl Holder_signal_failed, sent, t3 + 2)
            else
              (let effs = sent @ kill_effects os t3 pid Kill; (gone2, t4) = wait_for_exit os pid (t3 + 1)
               in (if gone2 then Inr True else Inl Holder_survived, effs, t4)))))"

definition terminate_invisible_holder :: "os \<Rightarrow> string \<Rightarrow> int \<Rightarrow> nat \<Rightarrow> holder_result" where
  "terminate_invisible_holder os root pid t =
     (let (live, t1) = live_invisible_holder_match os root pid t in
      if \<not> live then (Inr False, [], t1)
      else
        (let (res, effs, t2) = terminate_via_pidfd os root pid t1 in
         if res = Inl Pidfd_not_supported then terminate_via_kill os root pid t2 else (res, effs, t2)))"

text \<open>The loop of \<^verbatim>\<open>killInvisibleHolderProcs\<close> over a snapshot of ids, command lines and environments.\<close>

fun kill_holders :: "os \<Rightarrow> string \<Rightarrow> bool \<Rightarrow> (int \<times> string \<times> string) list \<Rightarrow> nat \<Rightarrow> (nat \<times> holder_error option) \<times> effect list \<times> nat" where
  "kill_holders os root newborn [] t = ((0, None), [], t)"
| "kill_holders os root newborn ((pid, cmdline, environ) # ps) t =
     (if pid = os_self os \<or> \<not> is_invisible_holder root cmdline environ \<or> newborn
      then kill_holders os root newborn ps t
      else case terminate_invisible_holder os root pid t of
        (Inl e, effs, t1) \<Rightarrow> ((0, Some e), effs, t1)
      | (Inr ok, effs, t1) \<Rightarrow>
          (let ((n, e), effs', t2) = kill_holders os root newborn ps t1
           in ((if ok then n + 1 else n, e), effs @ effs', t2)))"

definition kill_invisible_holder_procs ::
    "os \<Rightarrow> string \<Rightarrow> (int \<times> string \<times> string) list \<Rightarrow> nat \<Rightarrow> (nat \<times> holder_error option) \<times> effect list \<times> nat" where
  "kill_invisible_holder_procs os root procs t =
     (let (newborn, t1) = newborn_daemon_in_startup_grace os root t in kill_holders os root newborn procs t1)"

fun read_procs :: "os \<Rightarrow> int list \<Rightarrow> nat \<Rightarrow> (int \<times> string \<times> string) list \<times> nat" where
  "read_procs os [] t = ([], t)"
| "read_procs os (pid # pids) t =
     (let (ps, t1) = read_procs os pids (t + 2)
      in ((pid, proc_cmdline os t pid, proc_environ os (t + 1) pid) # ps, t1))"

definition kill_invisible_holders :: "os \<Rightarrow> string \<Rightarrow> nat \<Rightarrow> (nat \<times> holder_error option) \<times> effect list \<times> nat" where
  "kill_invisible_holders os root t =
     (case os_pids os t of
        None \<Rightarrow> ((0, None), [], t + 1)
      | Some pids \<Rightarrow> (let (procs, t1) = read_procs os pids (t + 1) in kill_invisible_holder_procs os root procs t1))"

section \<open>Who receives the signals\<close>

definition owner :: "os \<Rightarrow> nat \<Rightarrow> int \<Rightarrow> nat option" where
  "owner os t pid = map_option pr_inc (os_proc os t pid)"

text \<open>An incarnation has its id from its start to its exit: the id is reused only afterwards.\<close>

definition lawful :: "os \<Rightarrow> bool" where
  "lawful os \<longleftrightarrow>
     (\<forall>t u v pid inc. t \<le> u \<longrightarrow> u \<le> v \<longrightarrow> owner os t pid = Some inc \<longrightarrow> owner os v pid = Some inc \<longrightarrow>
        owner os u pid = Some inc)"

lemma lawfulD:
  "lawful os \<Longrightarrow> owner os t pid = Some inc \<Longrightarrow> owner os v pid = Some inc \<Longrightarrow> t \<le> u \<Longrightarrow> u \<le> v \<Longrightarrow> owner os u pid = Some inc"
  unfolding lawful_def by blast

text \<open>
  The incarnation itself has shown the recorded start time, the working directory of this project,
  and this binary or the marker of a daemon.
\<close>

definition is_recorded_daemon :: "os \<Rightarrow> string \<Rightarrow> lock_info \<Rightarrow> nat \<Rightarrow> bool" where
  "is_recorded_daemon os root info inc \<longleftrightarrow>
     (let pid = li_pid info in
      0 < li_proc_start info
      \<and> (\<exists>u. owner os u pid = Some inc \<and> proc_start_time os u pid = li_proc_start info)
      \<and> (\<exists>u. owner os u pid = Some inc \<and> cmdline_workdir_matches (proc_cmdline os u pid) root)
      \<and> (\<exists>u. owner os u pid = Some inc
           \<and> ((\<exists>exe. proc_exe os u pid = Some exe \<and> exe \<noteq> [] \<and> is_self_binary (os_executable os) exe)
              \<or> has_daemon_env_marker (proc_environ os u pid))))"

lemma pidfd_open_owner: "pidfd_open os t pid = Some fd \<Longrightarrow> owner os t pid = Some fd"
  by (simp add: pidfd_open_def owner_def split: if_splits)

lemma pidfd_send_owner: "pidfd_send os t pid fd = Sent \<Longrightarrow> owner os t pid = Some fd"
  by (auto simp: pidfd_send_def owner_def split: option.splits if_splits)

lemma wait_polls_mono: "wait_polls os pid n t = (g, t') \<Longrightarrow> t \<le> t'"
  by (induction os pid n t rule: wait_polls.induct) (auto split: if_splits)

lemma wait_mono: "wait_for_exit os pid t = (g, t') \<Longrightarrow> t \<le> t'"
  unfolding wait_for_exit_def by (rule wait_polls_mono)

lemma verify_mono: "verify_daemon_identity os info root t = (v, t') \<Longrightarrow> t \<le> t'"
  by (auto simp: verify_daemon_identity_def Let_def split: if_splits)

lemma verify_None:
  assumes "verify_daemon_identity os info root t = (None, t')" "pid = li_pid info"
  shows "0 < li_proc_start info \<and> proc_start_time os t pid = li_proc_start info
    \<and> cmdline_workdir_matches (proc_cmdline os (t + 1) pid) root \<and> t + 3 \<le> t'
    \<and> ((\<exists>exe. proc_exe os (t + 2) pid = Some exe \<and> exe \<noteq> [] \<and> is_self_binary (os_executable os) exe)
       \<or> t + 4 \<le> t' \<and> has_daemon_env_marker (proc_environ os (t + 3) pid))"
  using assms by (auto simp: verify_daemon_identity_def Let_def split: if_splits option.splits)

lemma verified_daemon:
  assumes "verify_daemon_identity os info root t = (None, t')"
    and "\<And>u. t \<le> u \<Longrightarrow> u < t' \<Longrightarrow> owner os u (li_pid info) = Some inc"
  shows "is_recorded_daemon os root info inc"
proof -
  note v = verify_None [OF assms(1) refl]
  have own: "owner os t (li_pid info) = Some inc" "owner os (t + 1) (li_pid info) = Some inc"
    "owner os (t + 2) (li_pid info) = Some inc" "t + 4 \<le> t' \<Longrightarrow> owner os (t + 3) (li_pid info) = Some inc"
    using assms(2) v by simp_all
  then show ?thesis using v unfolding is_recorded_daemon_def Let_def by blast
qed

text \<open>Between the pin and a delivered signal the pinned incarnation has the id all the time.\<close>

lemma pinned_daemon:
  assumes "lawful os" "owner os t0 (li_pid info) = Some fd" "t0 \<le> t"
    and "verify_daemon_identity os info root t = (None, t1)" "owner os u (li_pid info) = Some fd" "t1 \<le> u"
  shows "is_recorded_daemon os root info fd"
  using assms(3,6) by (intro verified_daemon [OF assms(4)] lawfulD [OF assms(1,2,5)]) simp_all

lemma remove_file_effects: "Signalled inc sig u \<notin> set (snd (remove_file os t path))"
  by (simp add: remove_file_def split: remove_result.split)

lemma cleared_deletes [simp]: "Signalled inc sig u \<notin> set (fst (snd (cleared os path pid t)))"
  by (simp add: cleared_def clear_stale_lock_def remove_file_effects split_def Let_def
      split: file_read.split option.split)

lemma mismatch_deletes [simp]: "Signalled inc sig u \<notin> set (fst (snd (mismatch os path pid r t)))"
  by (simp add: mismatch_def)

lemma stale_pidfd_cases:
  assumes "Signalled inc sig u \<in> set (fst (snd (terminate_stale_via_pidfd os fd info root path t)))"
  obtains t1 where "verify_daemon_identity os info root t = (None, t1)" "pidfd_send os t1 (li_pid info) fd = Sent" "inc = fd"
proof -
  obtain v t1 where v: "verify_daemon_identity os info root t = (v, t1)" by fastforce
  have none: "v = None" and sent: "pidfd_send os t1 (li_pid info) fd = Sent"
    using assms v
    by (auto simp: terminate_stale_via_pidfd_def Let_def split: option.splits send_result.splits)
  have "inc = fd"
    using assms v none sent
    by (auto simp: terminate_stale_via_pidfd_def Let_def split_def split: option.splits send_result.splits if_splits)
  then show thesis using that v none sent by blast
qed

lemma stale_pidfd_signals:
  assumes "lawful os" "owner os t0 (li_pid info) = Some fd" "t0 \<le> t"
    and "Signalled inc sig u \<in> set (fst (snd (terminate_stale_via_pidfd os fd info root path t)))"
  shows "is_recorded_daemon os root info inc"
  using assms(4)
proof (cases rule: stale_pidfd_cases)
  case (1 t1)
  then show ?thesis using pinned_daemon [OF assms(1-3) 1(1) pidfd_send_owner [OF 1(2)] order_refl] by simp
qed

lemma kill_effects_iff:
  "Signalled inc sig u \<in> set (kill_effects os t pid sg) \<longleftrightarrow> owner os t pid = Some inc \<and> sig = sg \<and> u = t"
  by (cases "os_proc os t pid") (auto simp: kill_effects_def owner_def)

lemma stale_kill_signals:
  assumes "Signalled inc sig u \<in> set (fst (snd (terminate_stale_via_kill os info root path t)))"
  shows "owner os u (li_pid info) = Some inc \<and> t \<le> u"
proof -
  obtain g t1 where w: "wait_for_exit os (li_pid info) (t + 1) = (g, t1)" by fastforce
  obtain v t2 where v: "verify_daemon_identity os info root t1 = (v, t2)" by fastforce
  have "t \<le> t1" "t1 \<le> t2" using wait_mono [OF w] verify_mono [OF v] by simp_all
  then show ?thesis
    using assms w v
    by (auto simp: terminate_stale_via_kill_def Let_def split_def kill_effects_iff
        split: option.splits send_result.splits if_splits)
qed

lemma terminate_stale_cases:
  assumes "lawful os" "verify_daemon_identity os info root w = (None, v)"
    and "Signalled inc sig u \<in> set (fst (snd (terminate_stale_daemon os info root path v)))"
  shows "is_recorded_daemon os root info inc
    \<or> (pidfd_open os v (li_pid info) = None \<and> v < u \<and> owner os u (li_pid info) = Some inc
       \<and> owner os w (li_pid info) \<noteq> Some inc)"
proof (cases "pidfd_open os v (li_pid info)")
  case None
  then have u: "owner os u (li_pid info) = Some inc" "v + 1 \<le> u"
    using assms(3) stale_kill_signals [of inc sig u os info root path "v + 1"]
    by (auto simp: terminate_stale_daemon_def)
  have "is_recorded_daemon os root info inc" if w: "owner os w (li_pid info) = Some inc"
    by (rule verified_daemon [OF assms(2)], rule lawfulD [OF assms(1) w u(1)]) (use u in simp_all)
  then show ?thesis using None u by auto
next
  case (Some fd)
  then show ?thesis
    using assms(3) stale_pidfd_signals [OF assms(1) pidfd_open_owner [OF Some], of "v + 1"]
    by (auto simp: terminate_stale_daemon_def)
qed

text \<open>
  Whatever happens between the system calls, also when process
  ids are reused or the pidfile names a process of someone else: a process that
  \<^verbatim>\<open>KillStaleDaemon\<close> signals has itself shown the start time of the pidfile's record, a
  command line for this project, and this binary or the daemon's marker.  The one exception is the
  path without pidfd, when the id changed hands after the check.
\<close>

lemma stale_signals_only_daemon:
  assumes "lawful os" "Signalled inc sig u \<in> set (fst (snd (kill_stale_daemon os root t)))"
  shows "\<exists>raw info. os_file os t (pid_path root) = Contents raw \<and> decode_lock (os_json os) raw = Some info
    \<and> (is_recorded_daemon os root info inc
       \<or> (\<exists>w v. verify_daemon_identity os info root w = (None, v) \<and> pidfd_open os v (li_pid info) = None \<and> v < u
            \<and> owner os u (li_pid info) = Some inc \<and> owner os w (li_pid info) \<noteq> Some inc))"
proof -
  let ?path = "pid_path root"
  obtain raw where raw: "os_file os t ?path = Contents raw"
    using assms(2) by (cases "os_file os t ?path") (simp_all add: kill_stale_daemon_def)
  obtain info where info: "decode_lock (os_json os) raw = Some info"
    using assms(2) raw by (cases "decode_lock (os_json os) raw") (simp_all add: kill_stale_daemon_def)
  have alive: "is_process_alive os (t + 1) (li_pid info)"
    by (rule ccontr) (use assms(2) raw info in \<open>simp add: kill_stale_daemon_def Let_def\<close>)
  obtain r v where v: "verify_daemon_identity os info root (t + 2) = (r, v)" by fastforce
  have r: "r = None"
    using assms(2) raw info alive v by (cases r) (simp_all add: kill_stale_daemon_def)
  obtain res effs t2 where k: "terminate_stale_daemon os info root ?path v = (res, effs, t2)"
    by (cases "terminate_stale_daemon os info root ?path v") auto
  have "Signalled inc sig u \<in> set effs"
    using assms(2) raw info alive v r k by (cases res) (simp_all add: kill_stale_daemon_def split_def Let_def)
  then have "Signalled inc sig u \<in> set (fst (snd (terminate_stale_daemon os info root ?path v)))" by (simp add: k)
  from terminate_stale_cases [OF assms(1) v [unfolded r] this] show ?thesis
    using raw info v [unfolded r] by blast
qed

section \<open>When the lock is removed\<close>

text \<open>Before the removal the file was read, and held no record or the record of a dead process.\<close>

definition seen_stale :: "os \<Rightarrow> string \<Rightarrow> nat \<Rightarrow> bool" where
  "seen_stale os path u \<longleftrightarrow>
     (\<exists>v raw. v < u \<and> os_file os v path = Contents raw
        \<and> (case decode_lock (os_json os) raw of
             None \<Rightarrow> True
           | Some info \<Rightarrow> \<exists>w. v < w \<and> w < u \<and> \<not> is_process_alive os w (li_pid info)))"

lemma clear_stale_deletes:
  assumes "Deleted p u \<in> set (fst (snd (clear_stale_lock os path expected t)))"
  shows "p = path \<and> seen_stale os path u"
proof -
  obtain raw where raw: "os_file os t path = Contents raw"
    using assms by (cases "os_file os t path") (simp_all add: clear_stale_lock_def)
  show ?thesis
  proof (cases "decode_lock (os_json os) raw")
    case None
    then have "p = path" "u = t + 1"
      using assms raw by (auto simp: clear_stale_lock_def remove_file_def split: remove_result.splits)
    then show ?thesis using raw None unfolding seen_stale_def by (intro conjI exI [of _ t] exI [of _ raw]) simp_all
  next
    case (Some info)
    then have "p = path" "u = t + 2" "\<not> is_process_alive os (t + 1) (li_pid info)"
      using assms raw decode_lock_pid [OF Some]
      by (auto simp: clear_stale_lock_def remove_file_def split: remove_result.splits if_splits)
    then show ?thesis
      using raw Some unfolding seen_stale_def
      by (intro conjI exI [of _ t] exI [of _ raw]) (simp_all add: exI [of _ "t + 1"])
  qed
qed

lemma cleared_seen: "Deleted p u \<in> set (fst (snd (cleared os path pid t))) \<Longrightarrow> p = path \<and> seen_stale os path u"
  using clear_stale_deletes [of p u os path pid t] by (simp add: cleared_def split_def Let_def)

lemma cleared_ok [simp]: "fst (cleared os path pid t) = Inr ()"
  by (simp add: cleared_def split_def Let_def)

lemma mismatch_seen:
  "Deleted p u \<in> set (fst (snd (mismatch os path pid r t))) \<Longrightarrow>
   p = path \<and> seen_stale os path u \<and> fst (mismatch os path pid r t) = Inr ()"
  using cleared_seen by (auto simp: mismatch_def split: if_splits)

lemma kill_effects_signals [simp]: "Deleted p u \<notin> set (kill_effects os t pid sg)"
  by (simp add: kill_effects_def split: option.splits)

lemma stale_pidfd_deletes:
  "Deleted p u \<in> set (fst (snd (terminate_stale_via_pidfd os fd info root path t))) \<Longrightarrow>
   p = path \<and> seen_stale os path u \<and> fst (terminate_stale_via_pidfd os fd info root path t) = Inr ()"
  using cleared_seen mismatch_seen
  by (auto simp: terminate_stale_via_pidfd_def Let_def split_def split: option.splits send_result.splits if_splits)

lemma stale_kill_deletes:
  "Deleted p u \<in> set (fst (snd (terminate_stale_via_kill os info root path t))) \<Longrightarrow>
   p = path \<and> seen_stale os path u \<and> fst (terminate_stale_via_kill os info root path t) = Inr ()"
  using cleared_seen mismatch_seen
  by (auto simp: terminate_stale_via_kill_def Let_def split_def split: option.splits send_result.splits if_splits)

lemma terminate_stale_deletes:
  "Deleted p u \<in> set (fst (snd (terminate_stale_daemon os info root path t))) \<Longrightarrow>
   p = path \<and> seen_stale os path u \<and> fst (terminate_stale_daemon os info root path t) = Inr ()"
  using stale_pidfd_deletes stale_kill_deletes by (auto simp: terminate_stale_daemon_def split: option.splits)

text \<open>
  \<^verbatim>\<open>KillStaleDaemon\<close> removes nothing but the project's pidfile, only when
  it returns no error, and only after it read a pidfile that held no valid record or that named a
  process which was dead afterwards: a refusal, a failed signal and a process that survives
  \<^verbatim>\<open>SIGKILL\<close> all leave the lock in place.
\<close>

theorem stale_lock_removal:
  assumes "Deleted p u \<in> set (fst (snd (kill_stale_daemon os root t)))"
  shows "p = pid_path root \<and> seen_stale os p u \<and> fst (kill_stale_daemon os root t) = Inr ()"
proof -
  let ?path = "pid_path root"
  obtain raw where raw: "os_file os t ?path = Contents raw"
    using assms by (cases "os_file os t ?path") (simp_all add: kill_stale_daemon_def)
  show ?thesis
  proof (cases "decode_lock (os_json os) raw")
    case None
    then show ?thesis using assms raw cleared_seen [of p u os ?path 0 "t + 1"] by (simp add: kill_stale_daemon_def)
  next
    case (Some info)
    obtain r v where v: "verify_daemon_identity os info root (t + 2) = (r, v)" by fastforce
    obtain res effs t2 where k: "terminate_stale_daemon os info root ?path v = (res, effs, t2)"
      by (cases "terminate_stale_daemon os info root ?path v") auto
    show ?thesis
      using assms raw Some v k cleared_seen [of p u os ?path "li_pid info"]
        terminate_stale_deletes [of p u os info root ?path v]
      by (cases r; cases res; cases "is_process_alive os (t + 1) (li_pid info)")
        (auto simp: kill_stale_daemon_def split_def Let_def)
  qed
qed

section \<open>Who is an invisible holder\<close>

definition seen_holder :: "os \<Rightarrow> string \<Rightarrow> int \<Rightarrow> nat \<Rightarrow> bool" where
  "seen_holder os root pid inc \<longleftrightarrow>
     (\<exists>v w. owner os v pid = Some inc \<and> owner os w pid = Some inc
        \<and> is_invisible_holder root (proc_cmdline os v pid) (proc_environ os w pid))"

lemma live_match_mono: "live_invisible_holder_match os root pid t = (b, t') \<Longrightarrow> t \<le> t'"
  by (auto simp: live_invisible_holder_match_def split: if_splits)

lemma live_match_True:
  "live_invisible_holder_match os root pid t = (True, t') \<Longrightarrow>
   t' = t + 2 \<and> pid \<noteq> os_self os \<and> is_invisible_holder root (proc_cmdline os t pid) (proc_environ os (t + 1) pid)"
  by (auto simp: live_invisible_holder_match_def split: if_splits)

lemma matched_holder:
  assumes "lawful os" "owner os t0 pid = Some inc" "t0 \<le> t" "owner os u pid = Some inc" "t + 1 \<le> u"
    and "is_invisible_holder root (proc_cmdline os t pid) (proc_environ os (t + 1) pid)"
  shows "seen_holder os root pid inc"
proof -
  have "owner os t pid = Some inc" "owner os (t + 1) pid = Some inc"
    using assms(3,5) by (auto intro: lawfulD [OF assms(1,2,4)])
  then show ?thesis using assms(6) unfolding seen_holder_def by blast
qed

lemma holder_pidfd_signals:
  assumes "lawful os" "Signalled inc sig u \<in> set (fst (snd (terminate_via_pidfd os root pid t)))"
  shows "pid \<noteq> os_self os \<and> seen_holder os root pid inc"
proof -
  obtain fd where fd: "pidfd_open os t pid = Some fd"
    using assms(2) by (cases "pidfd_open os t pid") (simp_all add: terminate_via_pidfd_def)
  obtain b t1 where m: "live_invisible_holder_match os root pid (t + 1) = (b, t1)" by fastforce
  have b: "b" using assms(2) fd m by (cases b) (simp_all add: terminate_via_pidfd_def)
  have sent: "pidfd_send os t1 pid fd = Sent"
    using assms(2) fd m b by (cases "pidfd_send os t1 pid fd") (simp_all add: terminate_via_pidfd_def)
  have "inc = fd"
    using assms(2) fd m b sent
    by (auto simp: terminate_via_pidfd_def Let_def split_def split: send_result.splits if_splits)
  then show ?thesis
    using live_match_True [of os root pid "t + 1" t1] m b
      matched_holder [OF assms(1) pidfd_open_owner [OF fd], of "t + 1" t1 root] pidfd_send_owner [OF sent] by auto
qed

lemma holder_kill_signals:
  assumes "Signalled inc sig u \<in> set (fst (snd (terminate_via_kill os root pid t)))"
  shows "t \<le> u \<and> pid \<noteq> os_self os \<and> owner os u pid = Some inc
    \<and> (\<exists>v. u = v + 2 \<and> is_invisible_holder root (proc_cmdline os v pid) (proc_environ os (v + 1) pid))"
proof -
  obtain b t1 where m: "live_invisible_holder_match os root pid t = (b, t1)" by fastforce
  obtain g t2 where w: "wait_for_exit os pid (t1 + 1) = (g, t2)" by fastforce
  obtain b2 t3 where m2: "live_invisible_holder_match os root pid t2 = (b2, t3)" by fastforce
  have le: "t \<le> t1" "t1 < t2" "t2 \<le> t3" using live_match_mono [OF m] wait_mono [OF w] live_match_mono [OF m2] by simp_all
  have b: "b" using assms m by (cases b) (simp_all add: terminate_via_kill_def)
  have cases: "u = t1 \<and> owner os u pid = Some inc \<or> b2 \<and> u = t3 \<and> owner os u pid = Some inc"
    using assms m w m2 b
    by (cases b2) (auto simp: terminate_via_kill_def kill_effects_iff Let_def split_def split: if_splits)
  show ?thesis using cases
  proof
    assume u: "u = t1 \<and> owner os u pid = Some inc"
    then show ?thesis using live_match_True [of os root pid t t1] m b le by (auto intro: exI [of _ t])
  next
    assume u: "b2 \<and> u = t3 \<and> owner os u pid = Some inc"
    then show ?thesis using live_match_True [of os root pid t2 t3] m2 le by (auto intro: exI [of _ t2])
  qed
qed

lemma holder_signals:
  assumes "lawful os" "Signalled inc sig u \<in> set (fst (snd (terminate_invisible_holder os root pid t)))"
  shows "pid \<noteq> os_self os \<and> (seen_holder os root pid inc
    \<or> (\<exists>v. pidfd_open os v pid = None \<and> v < u) \<and> owner os u pid = Some inc \<and> owner os (u - 2) pid \<noteq> Some inc)"
proof -
  obtain b t1 where m: "live_invisible_holder_match os root pid t = (b, t1)" by fastforce
  have b: "b" using assms(2) m by (cases b) (simp_all add: terminate_invisible_holder_def)
  obtain res effs t2 where k: "terminate_via_pidfd os root pid t1 = (res, effs, t2)"
    by (cases "terminate_via_pidfd os root pid t1") auto
  show ?thesis
  proof (cases "res = Inl Pidfd_not_supported")
    case False
    then have "Signalled inc sig u \<in> set (fst (snd (terminate_via_pidfd os root pid t1)))"
      using assms(2) m b k by (simp add: terminate_invisible_holder_def)
    then show ?thesis using holder_pidfd_signals [OF assms(1)] by blast
  next
    case True
    then have none: "pidfd_open os t1 pid = None" "t2 = t1 + 1"
      using k by (auto simp: terminate_via_pidfd_def Let_def split_def split: option.splits send_result.splits if_splits)
    have "Signalled inc sig u \<in> set (fst (snd (terminate_via_kill os root pid t2)))"
      using assms(2) m b k True by (simp add: terminate_invisible_holder_def)
    from holder_kill_signals [OF this] obtain v where v: "t2 \<le> u" "pid \<noteq> os_self os" "owner os u pid = Some inc"
      "u = v + 2" "is_invisible_holder root (proc_cmdline os v pid) (proc_environ os (v + 1) pid)" by blast
    have "seen_holder os root pid inc" if "owner os (u - 2) pid = Some inc"
      by (rule matched_holder [OF assms(1) that _ v(3) _ v(5)]) (use v(4) in simp_all)
    then show ?thesis using none v by auto
  qed
qed

text \<open>
  The cleanup of invisible holders signals only processes of its
  snapshot that match the profile of a daemon of this project, never itself, and nothing while a
  newborn daemon starts; and the process that receives the signal has itself shown that profile,
  but for the path without pidfd when the id changed hands within the two moments between the
  last check and the signal.
\<close>

lemma holder_signals_only_daemons:
  assumes "lawful os" "Signalled inc sig u \<in> set (fst (snd (kill_invisible_holder_procs os root procs t)))"
  shows "\<not> fst (newborn_daemon_in_startup_grace os root t)
    \<and> (\<exists>pid cmdline environ. (pid, cmdline, environ) \<in> set procs \<and> is_invisible_holder root cmdline environ
        \<and> pid \<noteq> os_self os
        \<and> (seen_holder os root pid inc
           \<or> (\<exists>v. pidfd_open os v pid = None \<and> v < u) \<and> owner os u pid = Some inc \<and> owner os (u - 2) pid \<noteq> Some inc))"
proof -
  obtain nb t0 where nb: "newborn_daemon_in_startup_grace os root t = (nb, t0)" by fastforce
  have claim: "\<not> newborn \<and> (\<exists>pid cmdline environ. (pid, cmdline, environ) \<in> set procs \<and> is_invisible_holder root cmdline environ
        \<and> pid \<noteq> os_self os
        \<and> (seen_holder os root pid inc
           \<or> (\<exists>v. pidfd_open os v pid = None \<and> v < u) \<and> owner os u pid = Some inc \<and> owner os (u - 2) pid \<noteq> Some inc))"
    if "Signalled inc sig u \<in> set (fst (snd (kill_holders os root newborn procs t1)))" for newborn t1
    using that
  proof (induction procs arbitrary: t1)
    case (Cons p ps)
    obtain pid cmdline environ where p: "p = (pid, cmdline, environ)" by (cases p) auto
    show ?case
    proof (cases "pid = os_self os \<or> \<not> is_invisible_holder root cmdline environ \<or> newborn")
      case True
      then show ?thesis using Cons.IH [of t1] Cons.prems p by auto
    next
      case False
      obtain res effs t2 where k: "terminate_invisible_holder os root pid t1 = (res, effs, t2)"
        by (cases "terminate_invisible_holder os root pid t1") auto
      have "Signalled inc sig u \<in> set effs \<or> Signalled inc sig u \<in> set (fst (snd (kill_holders os root newborn ps t2)))"
        using Cons.prems p False k by (cases res) (auto simp: split_def Let_def)
      then show ?thesis
      proof
        assume "Signalled inc sig u \<in> set effs"
        then show ?thesis using holder_signals [OF assms(1), of inc sig u root pid t1] k p False by auto
      next
        assume "Signalled inc sig u \<in> set (fst (snd (kill_holders os root newborn ps t2)))"
        then show ?thesis using Cons.IH [of t2] by auto
      qed
    qed
  qed simp
  show ?thesis using claim [of nb t0] assms(2) nb by (simp add: kill_invisible_holder_procs_def)
qed

section \<open>Sample histories\<close>

definition sample_daemon :: proc where
  "sample_daemon =
     \<lparr>pr_inc = 1, pr_stat = Some sample_stat, pr_cmdline = proc_strings [''/b/codegraph-go'', ''-workdir'', ''/w''],
      pr_environ = proc_strings (daemon_env []), pr_exe = Some ''/b/codegraph-go''\<rparr>"

definition innocent :: proc where
  "innocent = \<lparr>pr_inc = 4, pr_stat = None, pr_cmdline = ''sh'', pr_environ = [], pr_exe = None\<rparr>"

definition sample_record :: lock_info where
  "sample_record = \<lparr>li_pid = 7, li_version = ''0'', li_socket = [], li_started = 0, li_proc_start = 9\<rparr>"

text \<open>The daemon has id 7 before \<open>n\<close>, and what \<open>later\<close> says after it.\<close>

definition sample_os :: "nat \<Rightarrow> (nat \<Rightarrow> proc option) \<Rightarrow> os" where
  "sample_os n later =
     \<lparr>os_proc = (\<lambda>t pid. if pid = 7 then (if t < n then Some sample_daemon else later t) else None),
      os_pids = (\<lambda>t. None), os_pidfd = (\<lambda>t. True), os_denied = (\<lambda>t. False), os_file = (\<lambda>t p. Contents ''x''),
      os_remove = (\<lambda>t p. Removed), os_nanos = (\<lambda>t. 0), os_polls = (\<lambda>t. 1), os_self = 3,
      os_executable = Some ''/b/codegraph-go'', os_json = (\<lambda>s. Some sample_record)\<rparr>"

lemma sample_decode: "decode_lock (os_json (sample_os n later)) ''x'' = Some sample_record"
  by (simp add: decode_lock_def sample_os_def sample_record_def trim_space_id_ascii ascii_string_def is_space_def)

lemma sample_daemon_facts:
  "cmdline_workdir_matches (pr_cmdline sample_daemon) ''/w''" "is_self_binary (Some ''/b/codegraph-go'') ''/b/codegraph-go''"
  by (simp_all add: sample_daemon_def cmdline_workdir_matches_def cmdline_workdir_def proc_strings_def nul_def
      is_self_binary_def)

lemma sample_verify:
  "t + 3 \<le> n \<Longrightarrow> verify_daemon_identity (sample_os n later) sample_record ''/w'' t = (None, t + 3)"
  using sample_daemon_facts
  by (simp add: verify_daemon_identity_def sample_record_def sample_os_def proc_start_time_def proc_cmdline_def
      proc_exe_def sample_start sample_daemon_def Let_def)

lemma sample_alive:
  "is_process_alive (sample_os n later) t 7 \<longleftrightarrow> t < n \<or> later t \<noteq> None"
  by (simp add: is_process_alive_def sample_os_def)

text \<open>The daemon exits when it is asked to.\<close>

definition polite_os :: os where
  "polite_os = sample_os 10 (\<lambda>t. None)"

lemma polite_lawful: "lawful polite_os"
  by (auto simp: lawful_def owner_def polite_os_def sample_os_def split: if_splits)

lemma sample_pid: "li_pid sample_record = 7"
  by (simp add: sample_record_def)

lemma polite_cleared: "cleared polite_os (pid_path ''/w'') 7 t = (Inr (), [Deleted (pid_path ''/w'') (t + 2)], t + 3)" if "9 \<le> t"
proof -
  have "os_file polite_os t (pid_path ''/w'') = Contents ''x''" "os_remove polite_os u p = Removed" for u p
    by (simp_all add: polite_os_def sample_os_def)
  then show ?thesis
    using that sample_decode [of 10 "\<lambda>t. None"] sample_alive [of 10 "\<lambda>t. None" "t + 1"]
    by (simp add: cleared_def clear_stale_lock_def remove_file_def polite_os_def [symmetric] sample_pid Let_def)
qed

lemma polite_pidfd:
  "terminate_stale_daemon polite_os sample_record ''/w'' (pid_path ''/w'') 5 = (Inr (), [Signalled 1 Term 9], 11)"
proof -
  let ?os = "polite_os"
  have "pidfd_open ?os 5 7 = Some 1" "pidfd_send ?os 9 7 1 = Sent"
    by (simp_all add: pidfd_open_def pidfd_send_def polite_os_def sample_os_def sample_daemon_def)
  moreover have "wait_for_exit ?os 7 10 = (True, 11)"
  proof -
    have "os_polls ?os 10 = Suc 0" by (simp add: polite_os_def sample_os_def)
    moreover have "\<not> is_process_alive ?os 10 7" by (simp add: polite_os_def sample_alive)
    ultimately show ?thesis by (simp add: wait_for_exit_def)
  qed
  moreover have "verify_daemon_identity ?os sample_record ''/w'' 6 = (None, 9)"
    using sample_verify [of 6 10] by (simp add: polite_os_def)
  ultimately show ?thesis
    by (simp add: terminate_stale_daemon_def terminate_stale_via_pidfd_def sample_pid)
qed

lemma polite_run:
  "kill_stale_daemon polite_os ''/w'' 0 = (Inr (), [Signalled 1 Term 9, Deleted (pid_path ''/w'') 13], 14)"
proof -
  have "os_file polite_os 0 p = Contents ''x''" for p by (simp add: polite_os_def sample_os_def)
  moreover have "decode_lock (os_json polite_os) ''x'' = Some sample_record"
    using sample_decode by (simp add: polite_os_def)
  moreover have "is_process_alive polite_os 1 7" by (simp add: polite_os_def sample_alive)
  moreover have "verify_daemon_identity polite_os sample_record ''/w'' 2 = (None, 5)"
    using sample_verify [of 2 10] by (simp add: polite_os_def)
  ultimately show ?thesis
    using numeral_2_eq_2 by (simp add: kill_stale_daemon_def sample_pid polite_pidfd polite_cleared Let_def)
qed

lemma stale_signals_only_daemon_witness: "is_recorded_daemon polite_os ''/w'' sample_record 1"
proof -
  have "Signalled 1 Term 9 \<in> set (fst (snd (kill_stale_daemon polite_os ''/w'' 0)))" by (simp add: polite_run)
  note stale_signals_only_daemon [OF polite_lawful this]
  moreover have "os_file polite_os 0 p = Contents ''x''" for p by (simp add: polite_os_def sample_os_def)
  moreover have "decode_lock (os_json polite_os) ''x'' = Some sample_record"
    using sample_decode by (simp add: polite_os_def)
  moreover have "owner polite_os w 7 = Some 1" if "verify_daemon_identity polite_os sample_record ''/w'' w = (None, v)" for w v
    using verify_None [OF that refl]
    by (auto simp: sample_pid owner_def proc_start_time_def polite_os_def sample_os_def sample_record_def
        sample_daemon_def split: if_splits)
  ultimately show ?thesis by (auto simp: sample_pid)
qed

theorem stale_lock_removal_witness: "seen_stale polite_os (pid_path ''/w'') 13"
proof -
  have "Deleted (pid_path ''/w'') 13 \<in> set (fst (snd (kill_stale_daemon polite_os ''/w'' 0)))" by (simp add: polite_run)
  from stale_lock_removal [OF this] show ?thesis by simp
qed

text \<open>
  Without pidfd, or when the daemon exits just before \<^verbatim>\<open>pidfd_open\<close>, the first signal follows the check
  without a recheck: a process that got the id in between receives it.
\<close>

definition reused_os :: os where
  "reused_os = sample_os 5 (\<lambda>t. if t = 5 then None else Some innocent)"

lemma reused_lawful: "lawful reused_os"
  by (auto simp: lawful_def owner_def reused_os_def sample_os_def sample_daemon_def innocent_def split: if_splits)

lemma reused_not_daemon: "\<not> is_recorded_daemon reused_os ''/w'' sample_record 4"
proof
  assume "is_recorded_daemon reused_os ''/w'' sample_record 4"
  then obtain u where "owner reused_os u 7 = Some 4" "proc_start_time reused_os u 7 = 9"
    by (auto simp: is_recorded_daemon_def sample_record_def)
  then show False
    by (auto simp: owner_def proc_start_time_def reused_os_def sample_os_def sample_daemon_def innocent_def split: if_splits)
qed

lemma stale_kill_window:
  "lawful reused_os \<and> Signalled 4 Term 6 \<in> set (fst (snd (kill_stale_daemon reused_os ''/w'' 0)))
   \<and> \<not> is_recorded_daemon reused_os ''/w'' sample_record 4"
proof -
  let ?os = "reused_os"
  have "pidfd_open ?os 5 7 = None" by (simp add: pidfd_open_def reused_os_def sample_os_def)
  moreover have "kill_send ?os 6 7 = Sent" "kill_effects ?os 6 7 Term = [Signalled 4 Term 6]"
    by (simp_all add: kill_send_def kill_effects_def reused_os_def sample_os_def innocent_def)
  ultimately have "Signalled 4 Term 6 \<in> set (fst (snd (terminate_stale_daemon ?os sample_record ''/w'' (pid_path ''/w'') 5)))"
    by (simp add: terminate_stale_daemon_def terminate_stale_via_kill_def sample_pid split_def Let_def split: option.split send_result.split)
  moreover have "os_file ?os 0 p = Contents ''x''" for p by (simp add: reused_os_def sample_os_def)
  moreover have "decode_lock (os_json ?os) ''x'' = Some sample_record" using sample_decode by (simp add: reused_os_def)
  moreover have "is_process_alive ?os 1 7" by (simp add: reused_os_def sample_alive)
  moreover have "verify_daemon_identity ?os sample_record ''/w'' 2 = (None, 5)"
    using sample_verify [of 2 5] by (simp add: reused_os_def)
  ultimately have "Signalled 4 Term 6 \<in> set (fst (snd (kill_stale_daemon ?os ''/w'' 0)))"
    using numeral_2_eq_2 by (simp add: kill_stale_daemon_def sample_pid split_def Let_def split: sum.split)
  then show ?thesis using reused_lawful reused_not_daemon by blast
qed

text \<open>
  \<^verbatim>\<open>ClearStaleLock\<close> reads and removes in separate steps: a pidfile that a new daemon has written in
  between is removed although it names a live process.  And a pidfile that is still empty, as
  the fallback without hard links leaves it between creation and write, counts as stale at once.
\<close>

lemma clear_stale_race:
  assumes "os_file os t path = Contents old" "decode_lock (os_json os) old = Some info"
    and "\<not> is_process_alive os (t + 1) (li_pid info)" "os_remove os (t + 2) path = Removed"
  shows "clear_stale_lock os path (li_pid info) t = (True, [Deleted path (t + 2)], t + 3)"
  using assms decode_lock_pid [OF assms(2)] by (simp add: clear_stale_lock_def remove_file_def Let_def)

lemma exclusive_open_window:
  assumes "os_file os t path = Contents []" "os_remove os (t + 1) path = Removed"
  shows "clear_stale_lock os path 0 t = (True, [Deleted path (t + 1)], t + 2)"
  using assms by (simp add: clear_stale_lock_def remove_file_def decode_lock_def Let_def)

lemma sample_holder: "is_invisible_holder ''/w'' (pr_cmdline sample_daemon) (pr_environ sample_daemon)"
  by (simp add: is_invisible_holder_def sample_daemon_def proc_strings_def nul_def daemon_env_def env_daemon_internal_def
      is_codegraph_cmdline_def filepath_base_def str_eval Let_def)

lemma holder_signals_only_daemons_witness: "seen_holder polite_os ''/w'' 7 1"
proof -
  let ?os = "polite_os" and ?procs = "[(7, pr_cmdline sample_daemon, pr_environ sample_daemon)]"
  have self: "os_self ?os = 3" by (simp add: polite_os_def sample_os_def)
  have live: "live_invisible_holder_match ?os ''/w'' 7 t = (True, t + 2)" if "t + 2 \<le> 10" for t
    using that sample_holder by (simp add: live_invisible_holder_match_def self proc_cmdline_def proc_environ_def)
      (simp add: polite_os_def sample_os_def)
  have "pidfd_open ?os 3 7 = Some 1" "pidfd_send ?os 6 7 1 = Sent"
    by (simp_all add: pidfd_open_def pidfd_send_def polite_os_def sample_os_def sample_daemon_def)
  then have "Signalled 1 Term 6 \<in> set (fst (snd (terminate_via_pidfd ?os ''/w'' 7 3)))"
    using live [of 4] by (simp add: terminate_via_pidfd_def split_def Let_def split: send_result.split)
  moreover have "fst (terminate_via_pidfd ?os ''/w'' 7 3) \<noteq> Inl Pidfd_not_supported"
    using \<open>pidfd_open ?os 3 7 = Some 1\<close> by (simp add: terminate_via_pidfd_def split_def Let_def split: send_result.split)
  ultimately have "Signalled 1 Term 6 \<in> set (fst (snd (terminate_invisible_holder ?os ''/w'' 7 1)))"
    using live [of 1] by (simp add: terminate_invisible_holder_def split_def Let_def numeral_3_eq_3)
  moreover have newborn: "newborn_daemon_in_startup_grace ?os ''/w'' 0 = (False, 1)"
    using sample_decode by (simp add: newborn_daemon_in_startup_grace_def polite_os_def sample_os_def sample_record_def)
  ultimately have "Signalled 1 Term 6 \<in> set (fst (snd (kill_invisible_holder_procs ?os ''/w'' ?procs 0)))"
    using sample_holder self
    by (cases "terminate_invisible_holder ?os ''/w'' 7 1")
      (simp add: kill_invisible_holder_procs_def split_def Let_def split: sum.split)
  from holder_signals_only_daemons [OF polite_lawful this]
  have "seen_holder ?os ''/w'' 7 1 \<or> (\<exists>v. pidfd_open ?os v 7 = None \<and> v < 6)" by auto
  moreover have "pidfd_open ?os v 7 \<noteq> None" if "v < 6" for v
    using that by (simp add: pidfd_open_def polite_os_def sample_os_def)
  ultimately show ?thesis by blast
qed

end
