(* ===== verification/Daemon_Hello.thy ===== *)
theory Daemon_Hello
  imports Proc_Identity
begin

text \<open>
  The handshake on a new connection (\<^verbatim>\<open>daemon/hello.go\<close>, the first part of \<^verbatim>\<open>serveConn\<close>): the bounded
  reading of one line, the daemon's greeting and its check by the proxy, the proxy's optional
  greeting, the check of the token, and the bytes the session then reads.

  A connection is the bytes that arrive before the read deadline or the end of the stream;
  reading past them fails.  JSON and SHA-256 are arguments.
\<close>

section \<open>Reading lines\<close>

abbreviation carriage_return :: char where
  "carriage_return \<equiv> CHR 0x0D"

text \<open>The size of a \<^verbatim>\<open>bufio.Reader\<close>'s buffer.\<close>

definition buffer_size :: nat where
  "buffer_size = 4096"

definition strip_cr :: "string \<Rightarrow> string" where
  "strip_cr l = (if l \<noteq> [] \<and> last l = carriage_return then butlast l else l)"

text \<open>
  \<^verbatim>\<open>bufio.Reader.ReadLine\<close>: the line, whether it is only a prefix, and what is left; \<^const>\<open>None\<close> for an
  error.  At the end of the available bytes a partial line is returned like a complete one.
\<close>

definition bufio_read_line :: "string \<Rightarrow> (string \<times> bool \<times> string) option" where
  "bufio_read_line s =
     (let l = takeWhile (\<lambda>c. c \<noteq> newline) s in
      if length l < length s \<and> length l < buffer_size then Some (strip_cr l, False, drop (length l + 1) s)
      else if buffer_size \<le> length s
      then (if s ! (buffer_size - 1) = carriage_return
            then Some (take (buffer_size - 1) s, True, drop (buffer_size - 1) s)
            else Some (take buffer_size s, True, drop buffer_size s))
      else if s = [] then None
      else Some (s, False, []))"

lemma bufio_read_line_shrinks: "bufio_read_line s = Some (part, pre, rest) \<Longrightarrow> length rest < length s"
  by (auto simp: bufio_read_line_def Let_def buffer_size_def split: if_splits)

text \<open>\<^verbatim>\<open>readLineLimited\<close>: the line or \<^const>\<open>None\<close> for an error, and the bytes left in the connection.\<close>

function read_line_loop :: "nat \<Rightarrow> string \<Rightarrow> string \<Rightarrow> string option \<times> string" where
  "read_line_loop limit buf s =
     (case bufio_read_line s of
        None \<Rightarrow> (None, s)
      | Some (part, is_prefix, rest) \<Rightarrow>
          if limit < length (buf @ part) then (None, rest)
          else if \<not> is_prefix then (Some (buf @ part), rest)
          else read_line_loop limit (buf @ part) rest)"
  by pat_completeness auto
termination by (relation "measure (\<lambda>(limit, buf, s). length s)") (auto dest: bufio_read_line_shrinks)

declare read_line_loop.simps [simp del]

definition read_line_limited :: "nat \<Rightarrow> string \<Rightarrow> string option \<times> string" where
  "read_line_limited limit s = read_line_loop limit [] s"

section \<open>Greetings\<close>

record hello =
  he_codegraph :: string
  he_pid :: int
  he_socket :: string
  he_protocol :: int

record client_hello =
  ch_client :: int
  ch_pid :: int
  ch_token :: string

definition max_hello_line :: nat where
  "max_hello_line = 4096"

definition handshake_protocol :: int where
  "handshake_protocol = 1"

definition own_hello :: "int \<Rightarrow> string \<Rightarrow> hello" where
  "own_hello pid socket =
     \<lparr>he_codegraph = package_version, he_pid = pid, he_socket = socket, he_protocol = handshake_protocol\<rparr>"

definition write_hello :: "(hello \<Rightarrow> string) \<Rightarrow> int \<Rightarrow> string \<Rightarrow> string" where
  "write_hello marshal pid socket = marshal (own_hello pid socket) @ [newline]"

datatype hello_error = Hello_unreadable | Bad_hello | Unsupported_hello

definition read_hello :: "(string \<Rightarrow> hello option) \<Rightarrow> string \<Rightarrow> hello_error + hello" where
  "read_hello json s =
     (case fst (read_line_limited max_hello_line s) of
        None \<Rightarrow> Inl Hello_unreadable
      | Some line \<Rightarrow>
          (case json line of
             None \<Rightarrow> Inl Bad_hello
           | Some h \<Rightarrow>
               if he_codegraph h = [] \<or> he_protocol h \<noteq> handshake_protocol then Inl Unsupported_hello else Inr h))"

definition own_client_hello :: "int \<Rightarrow> string \<Rightarrow> client_hello" where
  "own_client_hello pid token = \<lparr>ch_client = 1, ch_pid = pid, ch_token = token\<rparr>"

definition write_client_hello :: "(client_hello \<Rightarrow> string) \<Rightarrow> int \<Rightarrow> string \<Rightarrow> string" where
  "write_client_hello marshal pid token = marshal (own_client_hello pid token) @ [newline]"

text \<open>The greeting if there is one, the bytes to hand on to the session, and the bytes left.\<close>

definition try_read_client_hello ::
    "(string \<Rightarrow> client_hello option) \<Rightarrow> string \<Rightarrow> client_hello option \<times> string \<times> string" where
  "try_read_client_hello json s =
     (case read_line_limited max_hello_line s of
        (None, rest) \<Rightarrow> (None, [], rest)
      | (Some line, rest) \<Rightarrow>
          (case json line of
             None \<Rightarrow> (None, line @ [newline], rest)
           | Some h \<Rightarrow> if ch_client h \<noteq> 1 then (None, line @ [newline], rest) else (Some h, [], rest)))"

definition constant_time_token_equal :: "(string \<Rightarrow> string) \<Rightarrow> string \<Rightarrow> string \<Rightarrow> bool" where
  "constant_time_token_equal sha256 a b \<longleftrightarrow> sha256 a = sha256 b"

text \<open>
  The verdict of \<^verbatim>\<open>serveConn\<close> up to the check of the token: \<^const>\<open>None\<close> when the connection is dropped,
  else what the session reads first.
\<close>

definition admitted_input ::
    "(string \<Rightarrow> string) \<Rightarrow> (string \<Rightarrow> client_hello option) \<Rightarrow> string \<Rightarrow> string \<Rightarrow> string option" where
  "admitted_input sha256 json token s =
     (let (greeting, leftover, rest) = try_read_client_hello json s in
      if token \<noteq> [] \<and> (case greeting of None \<Rightarrow> True | Some h \<Rightarrow> \<not> constant_time_token_equal sha256 (ch_token h) token)
      then None else Some (leftover @ rest))"

section \<open>Lines that fit\<close>

lemma takeWhile_line: "newline \<notin> set l \<Longrightarrow> takeWhile (\<lambda>c. c \<noteq> newline) (l @ newline # s) = l"
  by (induction l) auto

lemma bufio_read_line_fits:
  assumes "newline \<notin> set l" "length l < buffer_size"
  shows "bufio_read_line (l @ newline # s) = Some (strip_cr l, False, s)"
  by (simp add: bufio_read_line_def Let_def takeWhile_line[OF assms(1)] assms(2))

lemma read_line_fits:
  assumes "newline \<notin> set l" "length l < buffer_size" "length l \<le> limit"
  shows "read_line_limited limit (l @ newline # s) = (Some (strip_cr l), s)"
proof -
  have "length (strip_cr l) \<le> limit" using assms(3) by (auto simp: strip_cr_def)
  then show ?thesis
    by (simp add: read_line_limited_def read_line_loop.simps[of limit "[]"] bufio_read_line_fits[OF assms(1,2)])
qed

lemma strip_cr_id: "carriage_return \<notin> set l \<Longrightarrow> strip_cr l = l"
  by (metis last_in_set strip_cr_def)

text \<open>The line is never longer than the limit.\<close>

lemma read_line_bound: "fst (read_line_loop limit buf s) = Some line \<Longrightarrow> length line \<le> limit"
proof (induction limit buf s rule: read_line_loop.induct)
  case (1 limit buf s)
  show ?case
  proof (cases "bufio_read_line s")
    case None
    then show ?thesis using 1(2) by (simp add: read_line_loop.simps[of limit buf s])
  next
    case (Some a)
    obtain part pre rest where a: "a = (part, pre, rest)" by (cases a) auto
    have IH: "\<not> limit < length (buf @ part) \<Longrightarrow> \<not> \<not> pre \<Longrightarrow>
        fst (read_line_loop limit (buf @ part) rest) = Some line \<Longrightarrow> length line \<le> limit"
      using 1(1)[OF Some] a by simp
    show ?thesis using 1(2) IH Some a
      by (cases pre) (auto simp: read_line_loop.simps[of limit buf s] split: if_splits)
  qed
qed

section \<open>Properties\<close>


text \<open>
  With a token set on the daemon, a session only starts for a connection
  whose first line is a greeting with a token of the same digest, and it never reads that greeting.
\<close>

theorem token_guards_session:
  assumes "token \<noteq> []" "admitted_input sha256 json token s = Some input"
  shows "\<exists>line h. read_line_limited max_hello_line s = (Some line, input) \<and> json line = Some h \<and> ch_client h = 1
    \<and> sha256 (ch_token h) = sha256 token \<and> length line \<le> max_hello_line"
proof -
  obtain greeting leftover rest where t: "try_read_client_hello json s = (greeting, leftover, rest)"
    by (cases "try_read_client_hello json s") auto
  obtain h where h: "greeting = Some h" "sha256 (ch_token h) = sha256 token" "input = leftover @ rest"
    using assms t by (cases greeting) (auto simp: admitted_input_def constant_time_token_equal_def split: if_splits)
  obtain r rest' where r: "read_line_limited max_hello_line s = (r, rest')" by fastforce
  obtain line where line: "r = Some line"
    using t h(1) r by (cases r) (simp_all add: try_read_client_hello_def)
  obtain h' where h': "json line = Some h'"
    using t h(1) r line by (cases "json line") (simp_all add: try_read_client_hello_def)
  have "h' = h" "ch_client h = 1" "leftover = []" "rest' = rest"
    using t h(1) r line h' by (auto simp: try_read_client_hello_def split: if_splits)
  moreover have "length line \<le> max_hello_line"
    using read_line_bound[of max_hello_line "[]" s line] r line by (simp add: read_line_limited_def)
  ultimately show ?thesis using h r line h' by auto
qed

text \<open>The proxy accepts the greeting of a daemon of its own version, and knows its process.\<close>

lemma hello_roundtrip:
  assumes "json (marshal (own_hello pid socket)) = Some (own_hello pid socket)"
    and "newline \<notin> set (marshal (own_hello pid socket))" "carriage_return \<notin> set (marshal (own_hello pid socket))"
    and "length (marshal (own_hello pid socket)) < buffer_size"
  shows "read_hello json (write_hello marshal pid socket @ s) = Inr (own_hello pid socket)"
proof -
  have "read_line_limited max_hello_line (marshal (own_hello pid socket) @ newline # s) = (Some (marshal (own_hello pid socket)), s)"
    using read_line_fits[OF assms(2,4), of max_hello_line s] assms(4)
    by (simp add: strip_cr_id[OF assms(3)] max_hello_line_def buffer_size_def)
  then show ?thesis using assms(1)
    by (simp add: read_hello_def write_hello_def own_hello_def handshake_protocol_def package_version_def)
qed

section \<open>Where the stream is not kept\<close>

text \<open>
  The deadline of three seconds can fall into the middle of a first line.  The reader then returns the
  part that has arrived like a complete line, and \<^verbatim>\<open>TryReadClientHello\<close> hands it on with a newline
  the client never sent: the session reads the message in two broken lines.
\<close>

lemma partial_line_split:
  assumes "newline \<notin> set part" "part \<noteq> []" "length part < buffer_size" "json part = None"
  shows "admitted_input sha256 json [] part = Some (part @ [newline])"
proof -
  have "takeWhile (\<lambda>c. c \<noteq> newline) part = part"
    by (rule takeWhile_eq_all_conv[THEN iffD2]) (use assms(1) in blast)
  then have len: "length (takeWhile (\<lambda>c. c \<noteq> newline) part) = length part" by (rule arg_cong)
  have "bufio_read_line part = Some (part, False, [])"
    unfolding bufio_read_line_def Let_def len using assms(2,3) by simp
  then have "read_line_limited max_hello_line part = (Some part, [])"
    using assms(3) by (simp add: read_line_limited_def read_line_loop.simps[of _ "[]"] max_hello_line_def buffer_size_def)
  then show ?thesis using assms(4) by (simp add: admitted_input_def try_read_client_hello_def)
qed

text \<open>A first line longer than the limit is consumed and lost: the session starts behind its first 8192 bytes.\<close>

lemma long_line_lost:
  assumes "newline \<notin> set a" "newline \<notin> set b" "length a = buffer_size" "length b = buffer_size"
    "carriage_return \<notin> set a" "carriage_return \<notin> set b"
  shows "admitted_input sha256 json [] (a @ b @ s) = Some s"
proof -
  have step: "bufio_read_line (c @ t) = Some (c, True, t)"
    if "newline \<notin> set c" "length c = buffer_size" "carriage_return \<notin> set c" for c t
  proof -
    have "takeWhile (\<lambda>x. x \<noteq> newline) (c @ t) = c @ takeWhile (\<lambda>x. x \<noteq> newline) t"
      using that(1) by (induction c) auto
    moreover have "(c @ t) ! (buffer_size - 1) \<in> set c"
      using that(2) by (simp add: nth_append buffer_size_def)
    then have "(c @ t) ! (buffer_size - 1) \<noteq> carriage_return" using that(3) by metis
    ultimately show ?thesis using that(2) by (simp add: bufio_read_line_def Let_def)
  qed
  have "b \<noteq> []" using assms(4) by (auto simp: buffer_size_def)
  then have "read_line_loop max_hello_line a (b @ s) = (None, s)"
    using assms step[of b s] by (simp add: read_line_loop.simps[of _ a] max_hello_line_def buffer_size_def)
  then have "read_line_limited max_hello_line (a @ b @ s) = (None, s)"
    using assms step[of a "b @ s"]
    by (simp add: read_line_limited_def read_line_loop.simps[of _ "[]"] max_hello_line_def buffer_size_def)
  then show ?thesis by (simp add: admitted_input_def try_read_client_hello_def)
qed

section \<open>Witnesses\<close>


definition sample_json :: "string \<Rightarrow> client_hello option" where
  "sample_json s = (if s = ''h'' then Some (own_client_hello 5 ''secret'') else None)"

lemma greeting_admitted: "admitted_input id sample_json ''secret'' (''h'' @ newline # ''x'') = Some ''x''"
proof -
  have "read_line_limited max_hello_line (''h'' @ newline # ''x'') = (Some ''h'', ''x'')"
    using read_line_fits[of "''h''" max_hello_line "''x''"] by (simp add: buffer_size_def max_hello_line_def strip_cr_def)
  then show ?thesis
    by (simp add: admitted_input_def try_read_client_hello_def sample_json_def own_client_hello_def constant_time_token_equal_def)
qed

theorem token_guards_session_witness:
  "\<exists>line h. read_line_limited max_hello_line (''h'' @ newline # ''x'') = (Some line, ''x'') \<and> sample_json line = Some h
    \<and> id (ch_token h) = id ''secret''"
  using token_guards_session[OF _ greeting_admitted] by blast

end
