(* ===== verification/Daemon_Connect.thy ===== *)
theory Daemon_Connect
  imports Daemon_Kill Daemon_Hello
begin

text \<open>
  How a client gets its daemon (\<^verbatim>\<open>daemon/proxy.go\<close>): dialling the candidate sockets, recognising a
  daemon of another version or a half-dead one, replacing it, spawning, and the self-heal when an
  invisible process still holds the lock of the database.  It runs over the history of
  \<^verbatim>\<open>Daemon_Kill\<close>: each call takes a moment and anything may happen in between.
\<close>

section \<open>Surroundings\<close>

text \<open>
  What a socket answers: nothing there, an error of the dial with its cause, or a connection with
  the bytes that arrive on it.
\<close>

datatype socket_answer = Socket_missing | Dial_failed string | Connected string

text \<open>
  \<open>cn_tmp_socket\<close> is the name in the temporary directory, which depends on a hash; \<open>cn_spawn\<close>
  whether \<^verbatim>\<open>SpawnDetached\<close> succeeds; \<open>cn_flock\<close> whether the probe finds the lock held; and
  \<open>cn_polls\<close> the number of polls that fit before a deadline set at that moment.
\<close>

record connector =
  cn_socket :: "nat \<Rightarrow> string \<Rightarrow> socket_answer"
  cn_json :: "string \<Rightarrow> hello option"
  cn_error :: "hello_error \<Rightarrow> string"
  cn_tmp_socket :: "string \<Rightarrow> string"
  cn_spawn :: "nat \<Rightarrow> bool"
  cn_flock :: "nat \<Rightarrow> bool"
  cn_polls :: "nat \<Rightarrow> nat"

section \<open>Dialling\<close>

definition posix_socket_path_limit :: nat where
  "posix_socket_path_limit = 100"

definition socket_candidates :: "connector \<Rightarrow> string \<Rightarrow> string list" where
  "socket_candidates cn root =
     (let in_project = filepath_join [filepath_join [root, ''.codegraph''], ''daemon.sock''] in
      if posix_socket_path_limit < length in_project then [cn_tmp_socket cn root]
      else [in_project, cn_tmp_socket cn root])"

definition version_mismatch :: string where
  "version_mismatch = ''version mismatch''"

text \<open>The outcome of \<^verbatim>\<open>ConnectHello\<close>: a connection, or the reason for a fallback.\<close>

definition connect_hello :: "connector \<Rightarrow> string \<Rightarrow> nat \<Rightarrow> string + hello" where
  "connect_hello cn path t =
     (if path = [] then Inl ''empty socket path''
      else case cn_socket cn t path of
        Socket_missing \<Rightarrow> Inl ''socket file missing''
      | Dial_failed e \<Rightarrow> Inl (''dial unix '' @ path @ '': '' @ e)
      | Connected s \<Rightarrow>
          (case read_hello (cn_json cn) s of
             Inl e \<Rightarrow> Inl (cn_error cn e)
           | Inr h \<Rightarrow>
               if he_codegraph h \<noteq> package_version
               then Inl (version_mismatch @ '' daemon='' @ he_codegraph h @ '' ours='' @ package_version)
               else Inr h))"

fun dial_candidates :: "connector \<Rightarrow> string list \<Rightarrow> nat \<Rightarrow> (string + hello) \<times> nat" where
  "dial_candidates cn [] t = (Inl [], t)"
| "dial_candidates cn (c # cs) t =
     (case connect_hello cn c t of
        Inr h \<Rightarrow> (Inr h, t + 1)
      | Inl reason \<Rightarrow>
          if reason \<noteq> [] \<and> contains_str reason version_mismatch then (Inl reason, t + 1)
          else dial_candidates cn cs (t + 1))"

definition dial_any_candidate :: "connector \<Rightarrow> string \<Rightarrow> nat \<Rightarrow> (string + hello) \<times> nat" where
  "dial_any_candidate cn root t = dial_candidates cn (socket_candidates cn root) t"

section \<open>Replacing a daemon\<close>

definition half_dead_daemon_holds_lock :: "os \<Rightarrow> string \<Rightarrow> nat \<Rightarrow> bool \<times> nat" where
  "half_dead_daemon_holds_lock os root t =
     (case os_file os t (pid_path root) of
        Contents raw \<Rightarrow>
          (case decode_lock (os_json os) raw of
             None \<Rightarrow> (False, t + 1)
           | Some info \<Rightarrow>
               if li_pid info \<le> 0 \<or> \<not> is_process_alive os (t + 1) (li_pid info) then (False, t + 2)
               else if 0 < li_started info \<and> os_nanos os (t + 2) - 1000000 * li_started info < half_dead_startup_grace
               then (False, t + 3)
               else if li_started info \<le> 0 then (False, t + 3)
               else (True, t + 3))
      | _ \<Rightarrow> (False, t + 1))"

text \<open>A refusal stops the caller; any other failure is logged only.\<close>

definition kill_stale_daemon_for_spawn :: "os \<Rightarrow> string \<Rightarrow> nat \<Rightarrow> refusal option \<times> effect list \<times> nat" where
  "kill_stale_daemon_for_spawn os root t =
     (case kill_stale_daemon os root t of
        (Inl (Refused r), effs, t1) \<Rightarrow> (Some r, effs, t1)
      | (_, effs, t1) \<Rightarrow> (None, effs, t1))"

section \<open>Connecting\<close>

datatype connect_error = Stale_refused refusal | Spawn_failed | Holders_remain holder_error

datatype event = Effect effect | Spawned nat

type_synonym connect_result = "(connect_error + hello option) \<times> event list \<times> nat"

text \<open>The loop that sleeps and dials until the deadline.\<close>

fun dial_polls :: "connector \<Rightarrow> string \<Rightarrow> nat \<Rightarrow> nat \<Rightarrow> hello option \<times> nat" where
  "dial_polls cn root 0 t = (None, t)"
| "dial_polls cn root (Suc n) t =
     (case dial_any_candidate cn root t of
        (Inr h, t1) \<Rightarrow> (Some h, t1)
      | (Inl _, t1) \<Rightarrow> dial_polls cn root n t1)"

fun probe_polls :: "connector \<Rightarrow> nat \<Rightarrow> nat \<Rightarrow> bool \<times> nat" where
  "probe_polls cn 0 t = (False, t)"
| "probe_polls cn (Suc n) t = (if \<not> cn_flock cn t then (True, t + 1) else probe_polls cn n (t + 1))"

definition probe_flock_freed :: "connector \<Rightarrow> nat \<Rightarrow> bool \<times> nat" where
  "probe_flock_freed cn t = probe_polls cn (cn_polls cn t) t"

text \<open>The spawn and the wait for the new daemon, which \<^verbatim>\<open>EnsureAndDial\<close> contains twice.\<close>

definition spawn_and_dial :: "connector \<Rightarrow> string \<Rightarrow> nat \<Rightarrow> (connect_error + hello option) \<times> event list \<times> nat" where
  "spawn_and_dial cn root t =
     (if \<not> cn_spawn cn t then (Inl Spawn_failed, [], t + 1)
      else (let (h, t1) = dial_polls cn root (cn_polls cn (t + 1)) (t + 1) in (Inr h, [Spawned t], t1)))"

definition heal_invisible_holder :: "os \<Rightarrow> connector \<Rightarrow> string \<Rightarrow> nat \<Rightarrow> connect_result" where
  "heal_invisible_holder os cn root t =
     (case kill_invisible_holders os root t of
        ((n, Some e), effs, t1) \<Rightarrow> (Inl (Holders_remain e), map Effect effs, t1)
      | ((n, None), effs, t1) \<Rightarrow>
          (let (freed, t2) = (if 0 < n then (False, t1) else probe_flock_freed cn t1) in
           if freed then (Inr None, map Effect effs, t2)
           else (let (res, evs, t3) = spawn_and_dial cn root t2 in (res, map Effect effs @ evs, t3))))"

definition replace_stale_daemon :: "os \<Rightarrow> string \<Rightarrow> string \<Rightarrow> nat \<Rightarrow> refusal option \<times> effect list \<times> nat" where
  "replace_stale_daemon os root reason t =
     (if contains_str reason version_mismatch then kill_stale_daemon_for_spawn os root t
      else (let (half_dead, t1) = half_dead_daemon_holds_lock os root t in
            if half_dead then kill_stale_daemon_for_spawn os root t1 else (None, [], t1)))"

definition ensure_and_dial :: "os \<Rightarrow> connector \<Rightarrow> string \<Rightarrow> nat \<Rightarrow> connect_result" where
  "ensure_and_dial os cn root t =
     (case dial_any_candidate cn root t of
        (Inr h, t1) \<Rightarrow> (Inr (Some h), [], t1)
      | (Inl reason, t1) \<Rightarrow>
          (case replace_stale_daemon os root reason t1 of
             (Some r, effs, t2) \<Rightarrow> (Inl (Stale_refused r), map Effect effs, t2)
           | (None, effs, t2) \<Rightarrow>
               (case spawn_and_dial cn root t2 of
                  (Inr None, evs, t3) \<Rightarrow>
                    if cn_flock cn t3
                    then (let (res, evs', t4) = heal_invisible_holder os cn root (t3 + 1)
                          in (res, map Effect effs @ evs @ evs', t4))
                    else (Inr None, map Effect effs @ evs, t3 + 1)
                | (res, evs, t3) \<Rightarrow> (res, map Effect effs @ evs, t3))))"

section \<open>Spawns\<close>

definition spawns :: "event list \<Rightarrow> nat" where
  "spawns evs = length (filter (\<lambda>e. case e of Spawned t \<Rightarrow> True | Effect x \<Rightarrow> False) evs)"

lemma spawns_simps [simp]:
  "spawns [] = 0" "spawns (evs @ evs') = spawns evs + spawns evs'" "spawns [Spawned t] = 1" "spawns (map Effect effs) = 0"
  by (simp_all add: spawns_def filter_empty_conv)

text \<open>A daemon that greets the client is of its version and protocol.\<close>

definition own_version :: "hello \<Rightarrow> bool" where
  "own_version h \<longleftrightarrow> he_codegraph h = package_version \<and> he_protocol h = handshake_protocol"

lemma connect_hello_version: "connect_hello cn path t = Inr h \<Longrightarrow> own_version h"
  by (auto simp: connect_hello_def read_hello_def own_version_def
      split: if_splits socket_answer.splits sum.splits option.splits)

lemma dial_candidates_version: "fst (dial_candidates cn cs t) = Inr h \<Longrightarrow> own_version h"
proof (induction cs arbitrary: t)
  case (Cons c cs)
  show ?case
  proof (cases "connect_hello cn c t")
    case (Inl reason)
    then show ?thesis using Cons by (simp split: if_splits)
  next
    case (Inr h')
    then show ?thesis using Cons.prems connect_hello_version[OF Inr] by simp
  qed
qed simp

lemma dial_polls_version: "fst (dial_polls cn root n t) = Some h \<Longrightarrow> own_version h"
proof (induction n arbitrary: t)
  case (Suc n)
  obtain r t1 where d: "dial_any_candidate cn root t = (r, t1)" by fastforce
  show ?case
  proof (cases r)
    case (Inl reason)
    then show ?thesis using Suc d by simp
  next
    case (Inr h')
    then show ?thesis using Suc.prems d dial_candidates_version[of cn "socket_candidates cn root" t h']
      by (simp add: dial_any_candidate_def)
  qed
qed simp

text \<open>What a connection attempt may have done, by its result.\<close>

definition spawns_fit :: "nat \<Rightarrow> connect_error + hello option \<Rightarrow> bool" where
  "spawns_fit n res \<longleftrightarrow> n \<le> 2 \<and>
     (case res of
        Inl (Stale_refused r) \<Rightarrow> n = 0
      | Inl (Holders_remain e) \<Rightarrow> n = 1
      | Inl Spawn_failed \<Rightarrow> n \<le> 1
      | Inr None \<Rightarrow> 1 \<le> n
      | Inr (Some h) \<Rightarrow> own_version h)"

lemma spawn_and_dial_fits:
  assumes "spawn_and_dial cn root t = (res, evs, t1)"
  shows "spawns evs \<le> 1 \<and>
    (case res of Inl e \<Rightarrow> e = Spawn_failed \<and> spawns evs = 0 | Inr None \<Rightarrow> spawns evs = 1 | Inr (Some h) \<Rightarrow> own_version h)"
proof (cases "cn_spawn cn t")
  case False
  then have "res = Inl Spawn_failed" "evs = []" using assms by (simp_all add: spawn_and_dial_def)
  then show ?thesis by simp
next
  case True
  obtain h t2 where d: "dial_polls cn root (cn_polls cn (t + 1)) (t + 1) = (h, t2)" by fastforce
  then have "res = Inr h" "evs = [Spawned t]" using True assms by (simp_all add: spawn_and_dial_def)
  moreover have "own_version x" if "h = Some x" for x
    using dial_polls_version[of cn root "cn_polls cn (t + 1)" "t + 1" x] d that by simp
  ultimately show ?thesis by (cases h) simp_all
qed

lemma heal_fits:
  assumes "heal_invisible_holder os cn root t = (res, evs, t1)"
  shows "spawns evs \<le> 1 \<and>
    (case res of
        Inl (Stale_refused r) \<Rightarrow> False
      | Inl (Holders_remain e) \<Rightarrow> spawns evs = 0
      | Inl Spawn_failed \<Rightarrow> spawns evs = 0
      | Inr None \<Rightarrow> True
      | Inr (Some h) \<Rightarrow> own_version h)"
proof -
  obtain n e effs t2 where k: "kill_invisible_holders os root t = ((n, e), effs, t2)"
    by (metis prod.collapse)
  show ?thesis
  proof (cases e)
    case (Some err)
    then have "res = Inl (Holders_remain err)" "evs = map Effect effs"
      using assms k by (simp_all add: heal_invisible_holder_def)
    then show ?thesis by simp
  next
    case None
    obtain freed t3 where f: "(if 0 < n then (False, t2) else probe_flock_freed cn t2) = (freed, t3)" by fastforce
    show ?thesis
    proof (cases freed)
      case True
      then have "res = Inr None" "evs = map Effect effs"
        using assms k None f by (simp_all add: heal_invisible_holder_def)
      then show ?thesis by simp
    next
      case False
      obtain res' evs' t4 where s: "spawn_and_dial cn root t3 = (res', evs', t4)" by (metis prod.collapse)
      have "res = res'" "evs = map Effect effs @ evs'"
        using assms k None f False s by (simp_all add: heal_invisible_holder_def)
      then show ?thesis using spawn_and_dial_fits[OF s] by (auto split: sum.splits option.splits)
    qed
  qed
qed


section \<open>Signals\<close>

text \<open>
  The windows that stay open where \<^verbatim>\<open>pidfd_open\<close> fails: the id of the recorded daemon changed hands
  after a check that passed, or the id of a holder did within the two moments before the signal.
\<close>

definition daemon_id_reused :: "os \<Rightarrow> string \<Rightarrow> lock_info \<Rightarrow> nat \<Rightarrow> nat \<Rightarrow> bool" where
  "daemon_id_reused os root info inc u \<longleftrightarrow>
     (\<exists>w v. verify_daemon_identity os info root w = (None, v) \<and> pidfd_open os v (li_pid info) = None \<and> v < u
        \<and> owner os u (li_pid info) = Some inc \<and> owner os w (li_pid info) \<noteq> Some inc)"

definition holder_id_reused :: "os \<Rightarrow> int \<Rightarrow> nat \<Rightarrow> nat \<Rightarrow> bool" where
  "holder_id_reused os pid inc u \<longleftrightarrow>
     (\<exists>v. pidfd_open os v pid = None \<and> v < u) \<and> owner os u pid = Some inc \<and> owner os (u - 2) pid \<noteq> Some inc"

definition rightly_signalled :: "os \<Rightarrow> string \<Rightarrow> nat \<Rightarrow> nat \<Rightarrow> bool" where
  "rightly_signalled os root inc u \<longleftrightarrow>
     (\<exists>t raw info. os_file os t (pid_path root) = Contents raw \<and> decode_lock (os_json os) raw = Some info
        \<and> (is_recorded_daemon os root info inc \<or> daemon_id_reused os root info inc u))
     \<or> (\<exists>pid. pid \<noteq> os_self os \<and> (seen_holder os root pid inc \<or> holder_id_reused os pid inc u))"

lemma stale_rightly:
  assumes "lawful os" "Signalled inc sig u \<in> set (fst (snd (kill_stale_daemon os root t)))"
  shows "rightly_signalled os root inc u"
  using stale_signals_only_daemon[OF assms] unfolding rightly_signalled_def daemon_id_reused_def by blast

lemma holders_rightly:
  assumes "lawful os" "Signalled inc sig u \<in> set (fst (snd (kill_invisible_holders os root t)))"
  shows "rightly_signalled os root inc u"
proof -
  obtain pids where pids: "os_pids os t = Some pids"
    using assms(2) by (cases "os_pids os t") (simp_all add: kill_invisible_holders_def)
  obtain procs t1 where p: "read_procs os pids (t + 1) = (procs, t1)" by fastforce
  have "Signalled inc sig u \<in> set (fst (snd (kill_invisible_holder_procs os root procs t1)))"
    using assms(2) pids p by (simp add: kill_invisible_holders_def)
  from holder_signals_only_daemons[OF assms(1) this] show ?thesis
    unfolding rightly_signalled_def holder_id_reused_def by blast
qed

lemma replace_rightly:
  assumes "lawful os" "Signalled inc sig u \<in> set (fst (snd (replace_stale_daemon os root reason t)))"
  shows "rightly_signalled os root inc u"
proof -
  have "\<exists>v. Signalled inc sig u \<in> set (fst (snd (kill_stale_daemon_for_spawn os root v)))"
    using assms(2) by (auto simp: replace_stale_daemon_def split_def Let_def split: if_splits)
  then obtain v where "Signalled inc sig u \<in> set (fst (snd (kill_stale_daemon_for_spawn os root v)))" by blast
  then have "Signalled inc sig u \<in> set (fst (snd (kill_stale_daemon os root v)))"
    by (auto simp: kill_stale_daemon_for_spawn_def split: prod.splits sum.splits kill_error.splits)
  then show ?thesis by (rule stale_rightly[OF assms(1)])
qed

lemma spawn_no_effects: "Effect x \<notin> set (fst (snd (spawn_and_dial cn root t)))"
  by (simp add: spawn_and_dial_def split_def Let_def)

lemma heal_rightly:
  assumes "lawful os" "Effect (Signalled inc sig u) \<in> set (fst (snd (heal_invisible_holder os cn root t)))"
  shows "rightly_signalled os root inc u"
proof -
  obtain n e effs t2 where k: "kill_invisible_holders os root t = ((n, e), effs, t2)" by (metis prod.collapse)
  have "Effect (Signalled inc sig u) \<in> set (map Effect effs)"
    using assms(2) k spawn_no_effects by (cases e) (auto simp: heal_invisible_holder_def split_def Let_def split: if_splits)
  then have "Signalled inc sig u \<in> set (fst (snd (kill_invisible_holders os root t)))" using k by auto
  then show ?thesis by (rule holders_rightly[OF assms(1)])
qed


section \<open>Witnesses\<close>

definition silent :: connector where
  "silent =
     \<lparr>cn_socket = (\<lambda>t p. Socket_missing), cn_json = (\<lambda>s. None), cn_error = (\<lambda>e. ''e''), cn_tmp_socket = (\<lambda>r. ''/t''),
      cn_spawn = (\<lambda>t. True), cn_flock = (\<lambda>t. True), cn_polls = (\<lambda>t. 1)\<rparr>"

lemma silent_dial: "dial_any_candidate silent ''/w'' t = (Inl [], t + 2)"
proof -
  have "socket_candidates silent ''/w'' = [''/w/.codegraph/daemon.sock'', ''/t'']"
    by (simp add: socket_candidates_def posix_socket_path_limit_def silent_def path_eval str_eval)
  moreover have "connect_hello silent (c # cs) u = Inl ''socket file missing''" for c cs u
    by (simp add: connect_hello_def silent_def)
  moreover have "\<not> contains_str ''socket file missing'' version_mismatch"
    by (simp add: contains_str_def version_mismatch_def sublist_Cons_right)
  ultimately show ?thesis by (simp add: dial_any_candidate_def)
qed

text \<open>Nothing answers and the lock stays held: two spawns, and no connection.\<close>

definition empty_os :: os where
  "empty_os =
     \<lparr>os_proc = (\<lambda>t pid. None), os_pids = (\<lambda>t. None), os_pidfd = (\<lambda>t. True), os_denied = (\<lambda>t. False),
      os_file = (\<lambda>t p. No_file), os_remove = (\<lambda>t p. Not_there), os_nanos = (\<lambda>t. 0), os_polls = (\<lambda>t. 1), os_self = 3,
      os_executable = None, os_json = (\<lambda>s. None)\<rparr>"

lemma silent_attempt: "spawn_and_dial silent ''/w'' t = (Inr None, [Spawned t], t + 3)"
proof -
  have "cn_polls silent (t + 1) = Suc 0" "cn_spawn silent t" by (simp_all add: silent_def)
  then show ?thesis by (simp add: spawn_and_dial_def silent_dial)
qed

lemma silent_probe: "probe_flock_freed silent t = (False, t + 1)"
proof -
  have "cn_polls silent t = Suc 0" "cn_flock silent t" by (simp_all add: silent_def)
  then show ?thesis by (simp add: probe_flock_freed_def)
qed

lemma silent_connect: "ensure_and_dial empty_os silent ''/w'' 10 = (Inr None, [Spawned 13, Spawned 19], 22)"
proof -
  have "replace_stale_daemon empty_os ''/w'' [] 12 = (None, [], 13)"
    by (simp add: replace_stale_daemon_def half_dead_daemon_holds_lock_def empty_os_def contains_str_def version_mismatch_def)
  moreover have "kill_invisible_holders empty_os ''/w'' 17 = ((0, None), [], 18)"
    by (simp add: kill_invisible_holders_def empty_os_def)
  then have "heal_invisible_holder empty_os silent ''/w'' 17 = (Inr None, [Spawned 19], 22)"
    by (simp add: heal_invisible_holder_def silent_probe silent_attempt)
  moreover have "cn_flock silent 16" by (simp add: silent_def)
  ultimately show ?thesis by (simp add: ensure_and_dial_def silent_dial silent_attempt)
qed


text \<open>A daemon with id 7 that outlives every signal, and a second process with id 8.\<close>

definition steady_os :: "(nat \<Rightarrow> string) \<Rightarrow> (string \<Rightarrow> lock_info option) \<Rightarrow> os" where
  "steady_os pidfile json =
     \<lparr>os_proc = (\<lambda>t pid. if pid = 7 then Some sample_daemon else if pid = 8 then Some innocent else None),
      os_pids = (\<lambda>t. None), os_pidfd = (\<lambda>t. True), os_denied = (\<lambda>t. False), os_file = (\<lambda>t p. Contents (pidfile t)),
      os_remove = (\<lambda>t p. Removed), os_nanos = (\<lambda>t. 10 ^ 10), os_polls = (\<lambda>t. 1), os_self = 3,
      os_executable = Some ''/b/codegraph-go'', os_json = json\<rparr>"

lemma steady_lawful: "lawful (steady_os pidfile json)"
  by (auto simp: lawful_def owner_def steady_os_def split: if_splits)

lemma steady_verify:
  "li_pid info = 7 \<Longrightarrow> li_proc_start info = 9 \<Longrightarrow>
   verify_daemon_identity (steady_os pidfile json) info ''/w'' t = (None, t + 3)"
  using sample_daemon_facts
  by (simp add: verify_daemon_identity_def steady_os_def proc_start_time_def proc_cmdline_def
      proc_exe_def sample_start sample_daemon_def Let_def)

lemma steady_kill:
  assumes info: "decode_lock json (pidfile t) = Some info" "li_pid info = 7" "li_proc_start info = 9"
  shows "Signalled 1 Term (t + 9) \<in> set (fst (snd (kill_stale_daemon (steady_os pidfile json) ''/w'' t)))"
proof -
  let ?os = "steady_os pidfile json" and ?path = "pid_path ''/w''"
  note verify = steady_verify[OF info(2,3), of pidfile json]
  have fd: "pidfd_open ?os u 7 = Some 1" "pidfd_send ?os u 7 1 = Sent" for u
    by (simp_all add: pidfd_open_def pidfd_send_def steady_os_def sample_daemon_def)
  have "Signalled 1 Term (t + 9) \<in> set (fst (snd (terminate_stale_via_pidfd ?os 1 info ''/w'' ?path (t + 6))))"
    using verify[of "t + 6"] fd
    by (simp add: terminate_stale_via_pidfd_def info(2) split_def Let_def add.assoc split: option.split)
  then have "Signalled 1 Term (t + 9) \<in> set (fst (snd (terminate_stale_daemon ?os info ''/w'' ?path (t + 5))))"
    using fd by (simp add: terminate_stale_daemon_def info(2) eval_nat_numeral)
  moreover have "os_file ?os t ?path = Contents (pidfile t)" "os_json ?os = json" "is_process_alive ?os (t + 1) 7"
    by (simp_all add: steady_os_def is_process_alive_def)
  ultimately show ?thesis
    using info verify[of "t + 2"]
    by (simp add: kill_stale_daemon_def split_def Let_def eval_nat_numeral split: sum.split)
qed

definition recorded :: "int \<Rightarrow> int \<Rightarrow> lock_info" where
  "recorded pid started = \<lparr>li_pid = pid, li_version = ''0'', li_socket = [], li_started = started, li_proc_start = 9\<rparr>"

text \<open>The pidfile names the process 8, and from the moment 13 on the newborn daemon 7.\<close>

definition handover :: "nat \<Rightarrow> string" where
  "handover t = (if t < 13 then ''old'' else ''new'')"

definition handover_json :: "string \<Rightarrow> lock_info option" where
  "handover_json s = Some (if s = ''old'' then recorded 8 1 else recorded 7 10000)"

abbreviation handover_os :: os where
  "handover_os \<equiv> steady_os handover handover_json"

lemma handover_decode:
  "decode_lock handover_json (handover t) = Some (if t < 13 then recorded 8 1 else recorded 7 10000)"
  by (simp add: decode_lock_def handover_def handover_json_def recorded_def trim_space_id_ascii ascii_string_def is_space_def)

text \<open>A daemon of another version answers.\<close>

definition old_daemon :: connector where
  "old_daemon = silent\<lparr>cn_socket := (\<lambda>t p. Connected (''h'' @ [newline])),
      cn_json := (\<lambda>s. Some \<lparr>he_codegraph = ''0.1'', he_pid = 7, he_socket = [], he_protocol = 1\<rparr>)\<rparr>"

lemma old_daemon_dial:
  "dial_any_candidate old_daemon ''/w'' t = (Inl (version_mismatch @ '' daemon=0.1 ours='' @ package_version), t + 1)"
proof -
  have "socket_candidates old_daemon ''/w'' = [''/w/.codegraph/daemon.sock'', ''/t'']"
    by (simp add: socket_candidates_def posix_socket_path_limit_def silent_def old_daemon_def path_eval str_eval)
  moreover have "read_line_limited max_hello_line (''h'' @ newline # []) = (Some ''h'', [])"
    using read_line_fits[of "''h''" max_hello_line "[]"] by (simp add: buffer_size_def max_hello_line_def strip_cr_def)
  then have "connect_hello old_daemon (c # cs) u = Inl (version_mismatch @ '' daemon=0.1 ours='' @ package_version)" for c cs u
    by (simp add: connect_hello_def old_daemon_def read_hello_def handshake_protocol_def package_version_def)
  moreover have "contains_str (version_mismatch @ s) version_mismatch" for s
    by (simp add: contains_str_def)
  moreover have "version_mismatch \<noteq> []" by (simp add: version_mismatch_def)
  ultimately show ?thesis by (simp add: dial_any_candidate_def)
qed

lemma old_daemon_connect:
  "Effect (Signalled 1 Term 23) \<in> set (fst (snd (ensure_and_dial handover_os old_daemon ''/w'' 13)))"
proof -
  have "Signalled 1 Term (14 + 9) \<in> set (fst (snd (kill_stale_daemon handover_os ''/w'' 14)))"
    by (rule steady_kill[where info = "recorded 7 10000"]) (use handover_decode[of 14] in \<open>simp_all add: recorded_def\<close>)
  then have "Signalled 1 Term 23 \<in> set (fst (snd (replace_stale_daemon handover_os ''/w''
      (version_mismatch @ '' daemon=0.1 ours='' @ package_version) 14)))"
    by (simp add: replace_stale_daemon_def contains_str_def kill_stale_daemon_for_spawn_def split_def
        split: sum.split kill_error.split)
  then show ?thesis
    by (simp add: ensure_and_dial_def old_daemon_dial split_def Let_def split: option.split sum.split)
qed


section \<open>Two ways past the startup grace\<close>

text \<open>
  The age of the pidfile is judged on one reading and the process to kill is taken from the next: a
  daemon that has taken over the lock in between is killed although it has only just started.
\<close>

lemma newborn_killed:
  "fst (newborn_daemon_in_startup_grace handover_os ''/w'' 15)
   \<and> Effect (Signalled 1 Term 24) \<in> set (fst (snd (ensure_and_dial handover_os silent ''/w'' 10)))"
proof -
  have pidfile: "os_file handover_os t p = Contents (handover t)" "os_json handover_os = handover_json"
      "os_nanos handover_os t = 10 ^ 10" "is_process_alive handover_os t 7" "is_process_alive handover_os t 8" for t p
    by (simp_all add: steady_os_def is_process_alive_def)
  have half: "half_dead_daemon_holds_lock handover_os ''/w'' 12 = (True, 15)"
    using pidfile handover_decode[of 12] by (simp add: half_dead_daemon_holds_lock_def recorded_def half_dead_startup_grace_def)
  have newborn: "fst (newborn_daemon_in_startup_grace handover_os ''/w'' 15)"
    using pidfile handover_decode[of 15] by (simp add: newborn_daemon_in_startup_grace_def recorded_def half_dead_startup_grace_def)
  have "Signalled 1 Term (15 + 9) \<in> set (fst (snd (kill_stale_daemon handover_os ''/w'' 15)))"
    by (rule steady_kill[where info = "recorded 7 10000"]) (use handover_decode[of 15] in \<open>simp_all add: recorded_def\<close>)
  then have "Signalled 1 Term 24 \<in> set (fst (snd (replace_stale_daemon handover_os ''/w'' [] 12)))"
    using half by (simp add: replace_stale_daemon_def contains_str_def version_mismatch_def kill_stale_daemon_for_spawn_def
        split_def split: sum.split kill_error.split)
  then have "Effect (Signalled 1 Term 24) \<in> set (fst (snd (ensure_and_dial handover_os silent ''/w'' 10)))"
    by (simp add: ensure_and_dial_def silent_dial split_def Let_def split: option.split sum.split)
  with newborn show ?thesis by blast
qed

text \<open>
  The mismatch is recognised by searching the reason, and the reason of a failed dial contains the
  path of the socket: in a directory whose name contains the words, every failed dial counts as a
  daemon of another version, and the daemon is replaced without regard to its age.
\<close>

lemma mismatch_in_path:
  assumes "contains_str c version_mismatch" "cn_socket cn t c = Dial_failed e"
  shows "\<exists>reason. dial_candidates cn (c # cs) t = (Inl reason, t + 1)
    \<and> replace_stale_daemon os root reason u = kill_stale_daemon_for_spawn os root u"
proof -
  have ne: "c \<noteq> []" using assms(1) by (auto simp: contains_str_def version_mismatch_def)
  have "contains_str (''dial unix '' @ c @ '': '' @ e) version_mismatch"
    unfolding contains_str_def
    by (rule sublist_order.order.trans[OF assms(1)[unfolded contains_str_def] sublist_appendI])
  moreover have "connect_hello cn c t = Inl (''dial unix '' @ c @ '': '' @ e)"
    using ne assms(2) by (simp add: connect_hello_def)
  ultimately show ?thesis by (simp add: replace_stale_daemon_def)
qed

end
