(* ===== verification/Daemon_Spawn.thy ===== *)
theory Daemon_Spawn
  imports Daemon_Kill
begin

text \<open>
  Starting the daemon as a process of its own (\<^verbatim>\<open>daemon/spawn.go\<close>): the choice of the binary, the
  launch with its wrapper and the fallbacks, who owns the open log, and the bounded tail of the log
  that a warning carries.
\<close>

section \<open>The binary\<close>

definition is_go_run_temp_path :: "string \<Rightarrow> bool" where
  "is_go_run_temp_path p \<longleftrightarrow>
     has_suffix (filepath_dir p) (slash # ''exe'') \<and> contains_str (filepath_dir p) (slash # ''go-build'')"

text \<open>\<open>absolute\<close> is \<^verbatim>\<open>filepath.Abs\<close> and \<open>regular\<close> says that a path is there and no directory.\<close>

definition resolve_daemon_binary_from ::
    "(string \<Rightarrow> string option) \<Rightarrow> (string \<Rightarrow> bool) \<Rightarrow> string \<Rightarrow> string \<Rightarrow> string" where
  "resolve_daemon_binary_from absolute regular executable argv0 =
     (if is_go_run_temp_path executable \<and> argv0 \<noteq> []
      then (case absolute argv0 of None \<Rightarrow> executable | Some p \<Rightarrow> if regular p then p else executable)
      else executable)"

section \<open>The launch\<close>

text \<open>The availability of the quota wrapper on Linux.\<close>

record spawn_host =
  sh_euid :: int
  sh_systemd_dir :: bool
  sh_systemd_run :: "string option"

definition systemd_run_args_for :: "spawn_host \<Rightarrow> (nat \<Rightarrow> string) \<Rightarrow> string \<Rightarrow> string list \<Rightarrow> int option \<Rightarrow> string list option" where
  "systemd_run_args_for h decimal self args quota =
     (case quota of
        None \<Rightarrow> None
      | Some q \<Rightarrow>
          if q \<le> 0 \<or> sh_euid h \<noteq> 0 \<or> \<not> sh_systemd_dir h then None
          else map_option (\<lambda>run. [run, ''--quiet'', ''--no-ask-password'', ''--scope'', ''-p'',
                                  ''CPUQuota='' @ decimal (nat q) @ ''%'', ''--'', self] @ args) (sh_systemd_run h))"

text \<open>
  What the system answers: the guard of the directory, the binary, the open of the log, whether
  each start succeeds, how the wrapper ended within the window (\<^const>\<open>None\<close> when it still runs, else
  whether with an error), and whether a live daemon holds the pidfile then.
\<close>

record spawn_answers =
  sa_dir_ok :: bool
  sa_binary :: "string option"
  sa_log_ok :: bool
  sa_start :: "string list \<Rightarrow> nat \<Rightarrow> bool"
  sa_wrapper_exit :: "bool option"
  sa_daemon_alive :: bool

datatype spawn_error = Dir_refused | No_binary | Log_refused | Start_failed

text \<open>Who holds the open log afterwards: nobody, the watcher of the child, or the watcher of the wrapper.\<close>

datatype log_owner = Never_opened | Closed_here | Exit_watcher | Wrapper_watcher

text \<open>The result, the commands started, and the owner of the log.\<close>

type_synonym spawn_outcome = "spawn_error option \<times> string list list \<times> log_owner"

definition spawn_detached :: "spawn_answers \<Rightarrow> (string \<Rightarrow> string list option) \<Rightarrow> string list \<Rightarrow> spawn_outcome" where
  "spawn_detached a wrap args =
     (if \<not> sa_dir_ok a then (Some Dir_refused, [], Never_opened)
      else case sa_binary a of
        None \<Rightarrow> (Some No_binary, [], Never_opened)
      | Some self \<Rightarrow>
          if \<not> sa_log_ok a then (Some Log_refused, [], Never_opened)
          else
            (let direct = self # args in
             case wrap self of
               None \<Rightarrow>
                 if sa_start a direct 0 then (None, [direct], Exit_watcher) else (Some Start_failed, [], Closed_here)
             | Some argv \<Rightarrow>
                 if \<not> sa_start a argv 0
                 then (if sa_start a direct 1 then (None, [direct], Exit_watcher) else (Some Start_failed, [], Closed_here))
                 else
                   (case sa_wrapper_exit a of
                      None \<Rightarrow> (None, [argv], Wrapper_watcher)
                    | Some failed \<Rightarrow>
                        if failed \<and> \<not> sa_daemon_alive a
                        then (if sa_start a direct 1 then (None, [argv, direct], Exit_watcher)
                              else (Some Start_failed, [argv], Closed_here))
                        else (None, [argv], Closed_here))))"

section \<open>The tail of the log\<close>

definition daemon_log_tail_bytes :: nat where
  "daemon_log_tail_bytes = 4 * 1024"

text \<open>The loop that drops leading records until the text fits.\<close>

function clamp_records :: "string \<Rightarrow> string" where
  "clamp_records out =
     (if length out \<le> daemon_log_tail_bytes then out
      else case index_byte newline out of
        None \<Rightarrow> []
      | Some i \<Rightarrow> clamp_records (drop (i + 1) out))"
  by pat_completeness auto
termination by (relation "measure length") (auto simp: daemon_log_tail_bytes_def)

declare clamp_records.simps [simp del]

text \<open>
  \<open>contents\<close> is the file behind the descriptor, \<^const>\<open>None\<close> when it is not a regular file; \<open>scrub\<close> masks
  secrets by regular expressions.
\<close>

definition daemon_log_tail :: "(string \<Rightarrow> string) \<Rightarrow> string option \<Rightarrow> string" where
  "daemon_log_tail scrub contents =
     (case contents of
        None \<Rightarrow> []
      | Some s \<Rightarrow>
          if s = [] then []
          else if daemon_log_tail_bytes < length s
          then (case index_byte newline (drop (length s - daemon_log_tail_bytes) s) of
                  None \<Rightarrow> []
                | Some i \<Rightarrow> clamp_records (scrub (drop (i + 1) (drop (length s - daemon_log_tail_bytes) s))))
          else clamp_records (scrub s))"

section \<open>Is a daemon alive\<close>

text \<open>\<^verbatim>\<open>daemonAliveAt\<close> over the history; \<open>leaf\<close> is what the guarded open of the pidfile reads, if anything.\<close>

definition daemon_alive_at :: "os \<Rightarrow> string option \<Rightarrow> nat \<Rightarrow> bool" where
  "daemon_alive_at os leaf t =
     (case leaf of
        None \<Rightarrow> False
      | Some raw \<Rightarrow>
          (case decode_lock (os_json os) raw of
             None \<Rightarrow> False
           | Some info \<Rightarrow>
               if li_pid info \<le> 0 \<or> \<not> is_process_alive os t (li_pid info) then False
               else \<not> (0 < li_proc_start info
                        \<and> 0 < proc_start_time os (t + 1) (li_pid info)
                        \<and> proc_start_time os (t + 1) (li_pid info) \<noteq> li_proc_start info)))"

section \<open>Properties\<close>

text \<open>A suffix that starts at the beginning of a line.\<close>

definition whole_lines_suffix :: "string \<Rightarrow> string \<Rightarrow> bool" where
  "whole_lines_suffix out s \<longleftrightarrow> out = [] \<or> (\<exists>pre. s = pre @ out \<and> (pre = [] \<or> last pre = newline))"

lemma index_byte_split: "index_byte c s = Some i \<Longrightarrow> s = take i s @ c # drop (i + 1) s"
  by (induction c s arbitrary: i rule: index_byte.induct) (auto split: if_splits option.splits)

lemma clamp_records_suffix:
  "length (clamp_records out) \<le> daemon_log_tail_bytes \<and> whole_lines_suffix (clamp_records out) out"
proof (induction out rule: clamp_records.induct)
  case (1 out)
  show ?case
  proof (cases "length out \<le> daemon_log_tail_bytes")
    case True
    then show ?thesis by (simp add: clamp_records.simps[of out] whole_lines_suffix_def)
  next
    case False
    show ?thesis
    proof (cases "index_byte newline out")
      case None
      then show ?thesis using False by (simp add: clamp_records.simps[of out] whole_lines_suffix_def)
    next
      case (Some i)
      let ?r = "clamp_records (drop (i + 1) out)"
      have eq: "clamp_records out = ?r" using False Some by (simp add: clamp_records.simps[of out])
      note IH = 1[OF False Some]
      have "whole_lines_suffix ?r out"
      proof (cases "?r = []")
        case False
        then obtain pre where pre: "drop (i + 1) out = pre @ ?r" "pre = [] \<or> last pre = newline"
          using IH by (auto simp: whole_lines_suffix_def)
        have "out = (take i out @ newline # pre) @ ?r" using index_byte_split[OF Some] pre(1) by simp
        moreover have "last (take i out @ newline # pre) = newline" using pre(2) by auto
        ultimately show ?thesis unfolding whole_lines_suffix_def by blast
      qed (simp add: whole_lines_suffix_def)
      then show ?thesis using IH eq by simp
    qed
  qed
qed

text \<open>
  The tail of the log is never longer than the bound; it is what scrubbing made
  of whole final lines of the log, cut at the start of a line: no cut hides the beginning of a record from the scrubber
  or from the reader.
\<close>

theorem log_tail_whole_lines:
  "length (daemon_log_tail scrub (Some s)) \<le> daemon_log_tail_bytes
   \<and> (\<exists>body. whole_lines_suffix body s \<and> length body \<le> daemon_log_tail_bytes
        \<and> whole_lines_suffix (daemon_log_tail scrub (Some s)) (scrub body))"
proof (cases "daemon_log_tail_bytes < length s")
  case False
  have "whole_lines_suffix s s" by (simp add: whole_lines_suffix_def)
  moreover have "whole_lines_suffix (daemon_log_tail scrub (Some s)) (scrub s)
      \<and> length (daemon_log_tail scrub (Some s)) \<le> daemon_log_tail_bytes"
    using False clamp_records_suffix[of "scrub s"] by (cases "s = []") (simp_all add: daemon_log_tail_def whole_lines_suffix_def)
  ultimately show ?thesis using False by (meson not_le)
next
  case True
  let ?n = "length s - daemon_log_tail_bytes"
  show ?thesis
  proof (cases "index_byte newline (drop ?n s)")
    case None
    then have "daemon_log_tail scrub (Some s) = []" using True by (simp add: daemon_log_tail_def)
    then show ?thesis by (auto simp: whole_lines_suffix_def intro!: exI[of _ "[]"])
  next
    case (Some i)
    let ?body = "drop (i + 1) (drop ?n s)"
    have "s = take ?n s @ take i (drop ?n s) @ newline # ?body"
      using index_byte_split[OF Some] append_take_drop_id[of ?n s] by simp
    then have "s = (take ?n s @ take i (drop ?n s) @ [newline]) @ ?body" by simp
    then have "whole_lines_suffix ?body s"
      unfolding whole_lines_suffix_def by (metis append_is_Nil_conv last_appendR last_snoc not_Cons_self2)
    moreover have "daemon_log_tail scrub (Some s) = clamp_records (scrub ?body)"
      using True Some by (auto simp: daemon_log_tail_def)
    moreover have "length ?body \<le> daemon_log_tail_bytes" by simp
    ultimately show ?thesis using clamp_records_suffix[of "scrub ?body"] by metis
  qed
qed

text \<open>
  A spawn starts the daemon directly at most once, and after the wrapper only when the
  wrapper could not be started or failed while no daemon was alive; it reports an error exactly when no command
  it relies on runs; and the open log has exactly one owner: it is handed to a watcher only with a started command, and
  closed on every failure after its open.
\<close>

theorem spawn_launches:
  assumes "spawn_detached a wrap args = (err, cmds, own)"
  shows "length cmds \<le> 2
    \<and> (length cmds = 2 \<longrightarrow> sa_wrapper_exit a = Some True \<and> \<not> sa_daemon_alive a
         \<and> (\<exists>self argv. wrap self = Some argv \<and> cmds = [argv, self # args]))
    \<and> (err = None \<longrightarrow> cmds \<noteq> [])
    \<and> (own = Never_opened \<longleftrightarrow> err \<in> {Some Dir_refused, Some No_binary, Some Log_refused})
    \<and> (err = Some Start_failed \<longrightarrow> own = Closed_here)
    \<and> (own = Exit_watcher \<longrightarrow> (\<exists>self. sa_binary a = Some self \<and> cmds \<noteq> [] \<and> last cmds = self # args))"
  using assms by (auto simp: spawn_detached_def Let_def split: if_splits option.splits)

definition failing_scope :: spawn_answers where
  "failing_scope =
     \<lparr>sa_dir_ok = True, sa_binary = Some ''cg'', sa_log_ok = True, sa_start = (\<lambda>c n. True),
      sa_wrapper_exit = Some True, sa_daemon_alive = False\<rparr>"

lemma failing_scope_run:
  "spawn_detached failing_scope (\<lambda>self. Some [''systemd-run'', self]) []
   = (None, [[''systemd-run'', ''cg''], [''cg'']], Exit_watcher)"
  by (simp add: spawn_detached_def failing_scope_def)

theorem spawn_launches_witness: "last [[''systemd-run'', ''cg''], [''cg'']] = [''cg''] \<and> sa_wrapper_exit failing_scope = Some True"
  using spawn_launches[OF failing_scope_run] by simp

end
