(* ===== verification/Project_Cache.thy ===== *)
theory Project_Cache
  imports Main
begin

text \<open>
  The cross-project databases of the server (\<^verbatim>\<open>server/project.go\<close> and the adoption of a secondary
  workdir in \<^verbatim>\<open>server/server.go\<close>): a cache of open databases in least-recently-used order, with
  reference counts, evicted entries that stay open while somebody still uses them, and the watched
  workdirs whose databases belong to the server.  Tool calls run concurrently; each critical section
  under \<^verbatim>\<open>ExtraMu\<close> or \<^verbatim>\<open>ProjectMu\<close> is one operation and the step relation interleaves them in every
  order.
\<close>

section \<open>State\<close>

text \<open>A \<^verbatim>\<open>dbEntry\<close>; databases are the numbers of the handles that \<^verbatim>\<open>db.Open\<close> returned.\<close>

record db_entry =
  e_db :: nat
  e_refs :: int

text \<open>
  \<open>ps_ready\<close> tells whether \<^verbatim>\<open>ProjectCache\<close> is allocated; a nil map reads as the empty one.
  \<open>ps_open\<close> are the handles that are open and \<open>ps_next\<close> the next handle \<^verbatim>\<open>db.Open\<close> will return.
\<close>

record project_state =
  ps_workdir :: string
  ps_primary :: nat
  ps_extra :: "string \<rightharpoonup> nat"
  ps_ready :: bool
  ps_cache :: "string \<rightharpoonup> db_entry"
  ps_lru :: "string list"
  ps_max :: int
  ps_pending :: "string \<rightharpoonup> db_entry"
  ps_open :: "nat set"
  ps_next :: nat

definition close_db :: "nat \<Rightarrow> project_state \<Rightarrow> project_state" where
  "close_db h s = s\<lparr>ps_open := ps_open s - {h}\<rparr>"

text \<open>\<^verbatim>\<open>db.Open\<close>; whether it succeeds is not up to this code.\<close>

definition open_db :: "project_state \<Rightarrow> project_state \<times> nat" where
  "open_db s = (s\<lparr>ps_open := insert (ps_next s) (ps_open s), ps_next := Suc (ps_next s)\<rparr>, ps_next s)"

section \<open>Operations\<close>

definition init_project_cache :: "project_state \<Rightarrow> project_state" where
  "init_project_cache s =
     (if ps_ready s then s
      else s\<lparr>ps_ready := True, ps_cache := Map.empty, ps_pending := Map.empty,
             ps_max := (if ps_max s = 0 then 10 else ps_max s)\<rparr>)"

definition touch_project_lru :: "string \<Rightarrow> string list \<Rightarrow> string list" where
  "touch_project_lru root lru = (if root \<in> set lru then remove1 root lru @ [root] else lru)"

definition remove_project_lru :: "string \<Rightarrow> string list \<Rightarrow> string list" where
  "remove_project_lru root lru = remove1 root lru"

definition add_ref :: "db_entry \<Rightarrow> db_entry" where
  "add_ref e = e\<lparr>e_refs := e_refs e + 1\<rparr>"

definition drop_ref :: "db_entry \<Rightarrow> db_entry" where
  "drop_ref e = e\<lparr>e_refs := e_refs e - 1\<rparr>"

definition lru_full :: "project_state \<Rightarrow> bool" where
  "lru_full s \<longleftrightarrow> 0 < ps_max s \<and> ps_max s \<le> int (length (ps_lru s))"

text \<open>The eviction that makes room for an entry coming back from \<^verbatim>\<open>ProjectPendingClose\<close>.\<close>

definition evict_oldest :: "project_state \<Rightarrow> project_state" where
  "evict_oldest s =
     (if lru_full s then
        (let oldest = hd (ps_lru s); s1 = s\<lparr>ps_lru := tl (ps_lru s)\<rparr> in
         case ps_cache s1 oldest of
           None \<Rightarrow> s1
         | Some e \<Rightarrow>
             (let s2 = s1\<lparr>ps_cache := (ps_cache s1)(oldest := None)\<rparr> in
              if e_refs e = 0 then close_db (e_db e) s2
              else s2\<lparr>ps_pending := (ps_pending s2)(oldest \<mapsto> e)\<rparr>))
      else s)"

definition reuse_pending :: "string \<Rightarrow> db_entry \<Rightarrow> project_state \<Rightarrow> project_state" where
  "reuse_pending root e s =
     (let s1 = evict_oldest (s\<lparr>ps_pending := (ps_pending s)(root := None)\<rparr>) in
      s1\<lparr>ps_cache := (ps_cache s1)(root \<mapsto> add_ref e), ps_lru := ps_lru s1 @ [root]\<rparr>)"

text \<open>Eviction before an open: what was evicted is kept, to be put back if the open fails.\<close>

definition evict_for_open :: "project_state \<Rightarrow> project_state \<times> (string \<times> db_entry) option" where
  "evict_for_open s =
     (if lru_full s then
        (let oldest = hd (ps_lru s) in
         case ps_cache s oldest of
           None \<Rightarrow> (s, None)
         | Some e \<Rightarrow>
             (let s1 = s\<lparr>ps_lru := tl (ps_lru s), ps_cache := (ps_cache s)(oldest := None)\<rparr> in
              (if 0 < e_refs e then s1\<lparr>ps_pending := (ps_pending s1)(oldest \<mapsto> e)\<rparr> else s1, Some (oldest, e))))
      else (s, None))"

definition put_back :: "(string \<times> db_entry) option \<Rightarrow> project_state \<Rightarrow> project_state" where
  "put_back evicted s =
     (case evicted of
        None \<Rightarrow> s
      | Some (k, e) \<Rightarrow>
          s\<lparr>ps_cache := (ps_cache s)(k \<mapsto> e), ps_lru := k # ps_lru s, ps_pending := (ps_pending s)(k := None)\<rparr>)"

definition open_project :: "bool \<Rightarrow> string \<Rightarrow> project_state \<Rightarrow> project_state \<times> nat option" where
  "open_project opens root s =
     (let (s1, evicted) = evict_for_open s in
      if \<not> opens then (put_back evicted s1, None)
      else
        (let (s2, h) = open_db s1;
             s3 = (case evicted of
                     Some (k, e) \<Rightarrow> if e_refs e = 0 then close_db (e_db e) s2 else s2
                   | None \<Rightarrow> s2)
         in (s3\<lparr>ps_cache := (ps_cache s3)(root \<mapsto> \<lparr>e_db = h, e_refs = 1\<rparr>), ps_lru := ps_lru s3 @ [root]\<rparr>, Some h)))"

text \<open>The part of \<^verbatim>\<open>resolveProject\<close> under \<^verbatim>\<open>ProjectMu\<close>: the database of a root that is not watched.\<close>

definition acquire_project :: "bool \<Rightarrow> string \<Rightarrow> project_state \<Rightarrow> project_state \<times> nat option" where
  "acquire_project opens root s0 =
     (let s = init_project_cache s0 in
      case ps_cache s root of
        Some e \<Rightarrow>
          (s\<lparr>ps_lru := touch_project_lru root (ps_lru s), ps_cache := (ps_cache s)(root \<mapsto> add_ref e)\<rparr>, Some (e_db e))
      | None \<Rightarrow>
          (case ps_pending s root of
             Some e \<Rightarrow> (reuse_pending root e s, Some (e_db e))
           | None \<Rightarrow> open_project opens root s))"

text \<open>The part of \<^verbatim>\<open>releaseProject\<close> under \<^verbatim>\<open>ProjectMu\<close>.\<close>

definition release_project :: "string \<Rightarrow> project_state \<Rightarrow> project_state" where
  "release_project root s =
     (case ps_pending s root of
        Some e \<Rightarrow>
          (if e_refs e - 1 = 0 then close_db (e_db e) (s\<lparr>ps_pending := (ps_pending s)(root := None)\<rparr>)
           else s\<lparr>ps_pending := (ps_pending s)(root \<mapsto> drop_ref e)\<rparr>)
      | None \<Rightarrow>
          (case ps_cache s root of
             Some e \<Rightarrow> s\<lparr>ps_cache := (ps_cache s)(root \<mapsto> drop_ref e)\<rparr>
           | None \<Rightarrow> s))"

text \<open>The background goroutine takes over a secondary workdir once its watcher runs.\<close>

definition adopt_workdir :: "string \<Rightarrow> project_state \<Rightarrow> project_state" where
  "adopt_workdir wd s0 =
     (let (s, h) = open_db s0;
          s1 = (case ps_cache s wd of
                  None \<Rightarrow> s
                | Some e \<Rightarrow>
                    (let s2 = s\<lparr>ps_cache := (ps_cache s)(wd := None), ps_lru := remove_project_lru wd (ps_lru s)\<rparr> in
                     if e_refs e = 0 then close_db (e_db e) s2
                     else s2\<lparr>ps_pending := (ps_pending s2)(wd \<mapsto> e)\<rparr>))
      in s1\<lparr>ps_extra := (ps_extra s1)(wd \<mapsto> h)\<rparr>)"

section \<open>Interleavings\<close>

text \<open>
  A tool call: past the check of the watched workdirs and about to look into the cache, using a
  database, or past that check again on its way out.
\<close>

datatype call = Idle | Resolving string | Holding string nat | Releasing string nat

inductive project_step :: "project_state \<times> (nat \<Rightarrow> call) \<Rightarrow> project_state \<times> (nat \<Rightarrow> call) \<Rightarrow> bool" where
  resolve_default: "f c = Idle \<Longrightarrow> project_step (s, f) (s, f(c := Holding (ps_workdir s) (ps_primary s)))"
| resolve_watched: "f c = Idle \<Longrightarrow> root \<noteq> ps_workdir s \<Longrightarrow> ps_extra s root = Some h \<Longrightarrow>
    project_step (s, f) (s, f(c := Holding root h))"
| resolve_begin: "f c = Idle \<Longrightarrow> root \<noteq> ps_workdir s \<Longrightarrow> ps_extra s root = None \<Longrightarrow>
    project_step (s, f) (s, f(c := Resolving root))"
| resolve_locked: "f c = Resolving root \<Longrightarrow> acquire_project opens root s = (s', r) \<Longrightarrow>
    project_step (s, f) (s', f(c := (case r of Some h \<Rightarrow> Holding root h | None \<Rightarrow> Idle)))"
| release_owned: "f c = Holding root h \<Longrightarrow> root = ps_workdir s \<or> ps_extra s root \<noteq> None \<Longrightarrow>
    project_step (s, f) (s, f(c := Idle))"
| release_begin: "f c = Holding root h \<Longrightarrow> root \<noteq> ps_workdir s \<Longrightarrow> ps_extra s root = None \<Longrightarrow>
    project_step (s, f) (s, f(c := Releasing root h))"
| release_locked: "f c = Releasing root h \<Longrightarrow> project_step (s, f) (release_project root s, f(c := Idle))"
| adopt: "project_step (s, f) (adopt_workdir wd s, f)"

inductive_cases project_stepE: "project_step (s, f) (s', f')"

lemmas project_step_cases = project_stepE [consumes 1, case_names resolve_default resolve_watched
    resolve_begin resolve_locked release_owned release_begin release_locked adopt]


section \<open>The pool behind the three maps\<close>

text \<open>A root has at most one entry, in the cache or pending.\<close>

definition entry_of :: "project_state \<Rightarrow> string \<Rightarrow> db_entry option" where
  "entry_of s root = (case ps_cache s root of Some e \<Rightarrow> Some e | None \<Rightarrow> ps_pending s root)"

text \<open>The shape of the maps and the list, and the handles of the entries.\<close>

definition shape_ok :: "project_state \<Rightarrow> bool" where
  "shape_ok s \<longleftrightarrow>
     set (ps_lru s) = dom (ps_cache s) \<and> distinct (ps_lru s)
     \<and> dom (ps_cache s) \<inter> dom (ps_pending s) = {}
     \<and> (0 < ps_max s \<longrightarrow> int (length (ps_lru s)) \<le> ps_max s)
     \<and> (\<not> ps_ready s \<longrightarrow> ps_cache s = Map.empty \<and> ps_pending s = Map.empty)"

definition entries_ok :: "project_state \<Rightarrow> bool" where
  "entries_ok s \<longleftrightarrow>
     (\<forall>r e. entry_of s r = Some e \<longrightarrow> e_db e \<in> ps_open s \<and> 0 \<le> e_refs e)
     \<and> (\<forall>r e. ps_pending s r = Some e \<longrightarrow> 0 < e_refs e)
     \<and> (\<forall>r r' e e'. entry_of s r = Some e \<longrightarrow> entry_of s r' = Some e' \<longrightarrow> e_db e = e_db e' \<longrightarrow> r = r')
     \<and> (\<forall>h\<in>ps_open s. h < ps_next s)"

text \<open>
  What an eviction does to the pool: the entries of the roots \<open>K\<close>, which nobody uses, are gone and
  their databases closed; everything else is as before.
\<close>

definition frees :: "project_state \<Rightarrow> string set \<Rightarrow> project_state \<Rightarrow> bool" where
  "frees s K s' \<longleftrightarrow>
     (\<forall>k\<in>K. \<exists>e. entry_of s k = Some e \<and> e_refs e = 0)
     \<and> entry_of s' = (\<lambda>k. if k \<in> K then None else entry_of s k)
     \<and> ps_open s' = ps_open s - {h. \<exists>k\<in>K. \<exists>e. entry_of s k = Some e \<and> e_db e = h}
     \<and> ps_next s' = ps_next s \<and> ps_extra s' = ps_extra s
     \<and> ps_workdir s' = ps_workdir s \<and> ps_primary s' = ps_primary s"

lemma frees_refl: "frees s {} s"
  by (auto simp: frees_def)

lemma shape_lru_full_ne: "lru_full s \<Longrightarrow> ps_lru s \<noteq> []"
  by (auto simp: lru_full_def)

lemma entry_of_simps:
  "ps_cache s r = Some e \<Longrightarrow> entry_of s r = Some e"
  "ps_cache s r = None \<Longrightarrow> entry_of s r = ps_pending s r"
  by (auto simp: entry_of_def)

lemma init_entry [simp]: "shape_ok s \<Longrightarrow> entry_of (init_project_cache s) = entry_of s"
  by (auto simp: init_project_cache_def shape_ok_def entry_of_def fun_eq_iff)

lemma init_frame [simp]:
  "ps_open (init_project_cache s) = ps_open s" "ps_next (init_project_cache s) = ps_next s"
  "ps_extra (init_project_cache s) = ps_extra s" "ps_workdir (init_project_cache s) = ps_workdir s"
  "ps_primary (init_project_cache s) = ps_primary s" "ps_lru (init_project_cache s) = ps_lru s"
  by (auto simp: init_project_cache_def)

lemma init_pending: "shape_ok s \<Longrightarrow> ps_pending (init_project_cache s) = ps_pending s"
  by (auto simp: init_project_cache_def shape_ok_def)

lemma init_shape: "shape_ok s \<Longrightarrow> shape_ok (init_project_cache s)"
  by (auto simp: init_project_cache_def shape_ok_def)

lemma init_entries: "shape_ok s \<Longrightarrow> entries_ok s \<Longrightarrow> entries_ok (init_project_cache s)"
  using init_entry [of s] init_pending [of s] by (simp add: entries_ok_def)

text \<open>The oldest key is in the cache and, once removed from the list, nowhere else in it.\<close>

lemma oldest_cached:
  assumes "shape_ok s" "lru_full s"
  obtains k ks e where "ps_lru s = k # ks" "ps_cache s k = Some e" "k \<notin> set ks" "ps_pending s k = None"
proof -
  obtain k ks where l: "ps_lru s = k # ks" using shape_lru_full_ne [OF assms(2)] by (cases "ps_lru s") auto
  then have "k \<in> dom (ps_cache s)" "k \<notin> set ks" using assms(1) by (auto simp: shape_ok_def)
  moreover have "k \<notin> dom (ps_pending s)" using calculation(1) assms(1) by (auto simp: shape_ok_def)
  ultimately show ?thesis using that l by blast
qed

text \<open>All three evictions retire a root: its entry is closed if it is unused and pending if not.\<close>

definition retire :: "string \<Rightarrow> project_state \<Rightarrow> project_state" where
  "retire k s =
     (case ps_cache s k of
        None \<Rightarrow> s
      | Some e \<Rightarrow>
          (let s2 = s\<lparr>ps_cache := (ps_cache s)(k := None), ps_lru := remove1 k (ps_lru s)\<rparr> in
           if e_refs e = 0 then close_db (e_db e) s2 else s2\<lparr>ps_pending := (ps_pending s2)(k \<mapsto> e)\<rparr>))"

lemma evict_oldest_retire:
  assumes "shape_ok s"
  shows "evict_oldest s = (if lru_full s then retire (hd (ps_lru s)) s else s)"
proof (cases "lru_full s")
  case True
  obtain k ks e where k: "ps_lru s = k # ks" "ps_cache s k = Some e"
    using oldest_cached [OF assms True] by metis
  then show ?thesis using True by (simp add: evict_oldest_def retire_def close_db_def Let_def)
qed (simp add: evict_oldest_def)

lemma adopt_retire:
  "adopt_workdir wd s = (let s1 = retire wd (fst (open_db s)) in s1\<lparr>ps_extra := (ps_extra s1)(wd \<mapsto> ps_next s)\<rparr>)"
  by (simp add: adopt_workdir_def retire_def open_db_def remove_project_lru_def Let_def split: option.splits)

lemma retire_frame [simp]:
  "ps_next (retire k s) = ps_next s" "ps_extra (retire k s) = ps_extra s" "ps_workdir (retire k s) = ps_workdir s"
  "ps_primary (retire k s) = ps_primary s" "ps_max (retire k s) = ps_max s" "ps_ready (retire k s) = ps_ready s"
  by (auto simp: retire_def close_db_def Let_def split: option.splits)

lemma retire_cache: "ps_cache (retire k s) = (ps_cache s)(k := None)"
  by (auto simp: retire_def close_db_def Let_def fun_eq_iff split: option.splits)

lemma retire_lru: "ps_cache s k \<noteq> None \<Longrightarrow> ps_lru (retire k s) = remove1 k (ps_lru s)"
  by (auto simp: retire_def close_db_def Let_def)

lemma retire_pending:
  "ps_pending (retire k s) = (case ps_cache s k of
     Some e \<Rightarrow> if e_refs e = 0 then ps_pending s else (ps_pending s)(k \<mapsto> e) | None \<Rightarrow> ps_pending s)"
  by (auto simp: retire_def close_db_def Let_def split: option.splits)

lemma retire_open:
  "ps_open (retire k s) = (case ps_cache s k of
     Some e \<Rightarrow> if e_refs e = 0 then ps_open s - {e_db e} else ps_open s | None \<Rightarrow> ps_open s)"
  by (auto simp: retire_def close_db_def Let_def split: option.splits)

lemma retire_entry:
  assumes "shape_ok s"
  shows "entry_of (retire k s) = (case ps_cache s k of
    Some e \<Rightarrow> if e_refs e = 0 then (entry_of s)(k := None) else entry_of s | None \<Rightarrow> entry_of s)"
proof (cases "ps_cache s k")
  case None
  then show ?thesis by (simp add: retire_def)
next
  case (Some e)
  then have "ps_pending s k = None" using assms by (auto simp: shape_ok_def)
  then show ?thesis
    using Some unfolding entry_of_def retire_cache retire_pending
    by (auto simp: fun_eq_iff split: option.splits)
qed

lemma retire_shape:
  assumes "shape_ok s"
  shows "shape_ok (retire k s)"
proof (cases "ps_cache s k")
  case None
  then show ?thesis using assms by (simp add: retire_def)
next
  case (Some e)
  have d: "dom (ps_cache (retire k s)) = dom (ps_cache s) - {k}" by (simp add: retire_cache)
  have l: "ps_lru (retire k s) = remove1 k (ps_lru s)" using Some by (simp add: retire_lru)
  have len: "length (remove1 k (ps_lru s)) \<le> length (ps_lru s)" by (simp add: length_remove1)
  have p: "dom (ps_pending (retire k s)) \<subseteq> insert k (dom (ps_pending s))"
    using Some by (auto simp: retire_pending)
  show ?thesis
    using assms Some len p unfolding shape_ok_def d l by (auto simp: retire_cache)
qed

lemma retire_entries:
  assumes sh: "shape_ok s" and en: "entries_ok s"
  shows "entries_ok (retire k s)"
proof (cases "ps_cache s k")
  case None
  then show ?thesis using en by (simp add: retire_def)
next
  case (Some e)
  have ek: "entry_of s k = Some e" using Some by (simp add: entry_of_simps)
  show ?thesis
  proof (cases "e_refs e = 0")
    case True
    have other: "r \<noteq> k \<Longrightarrow> entry_of s r = Some e' \<Longrightarrow> e_db e' \<noteq> e_db e" for r e'
      using en ek unfolding entries_ok_def by blast
    show ?thesis
      using en Some True other unfolding entries_ok_def retire_entry [OF sh] retire_pending retire_open retire_frame
      by (auto split: if_splits)
  next
    case False
    then have "0 < e_refs e" using en ek unfolding entries_ok_def by force
    then show ?thesis
      using en Some False unfolding entries_ok_def retire_entry [OF sh] retire_pending retire_open retire_frame
      by (auto split: if_splits)
  qed
qed

lemma retire_frees:
  assumes sh: "shape_ok s"
  shows "\<exists>K \<subseteq> {k} \<inter> dom (ps_cache s). frees s K (retire k s)"
proof (cases "\<exists>e. ps_cache s k = Some e \<and> e_refs e = 0")
  case True
  then obtain e where e: "ps_cache s k = Some e" "e_refs e = 0" by blast
  then have ek: "entry_of s k = Some e" by (simp add: entry_of_simps)
  have "frees s {k} (retire k s)"
    using e ek by (auto simp: frees_def retire_entry [OF sh] retire_open fun_eq_iff)
  then show ?thesis using e(1) by blast
next
  case False
  then have "frees s {} (retire k s)"
    by (auto simp: frees_def retire_entry [OF sh] retire_open fun_eq_iff split: option.splits)
  then show ?thesis by blast
qed


text \<open>A reference is taken and given back, and an entry comes into being, at one root.\<close>

lemma entry_update:
  "entry_of (s\<lparr>ps_cache := (ps_cache s)(r \<mapsto> e), ps_lru := l\<rparr>) = (entry_of s)(r \<mapsto> e)"
  by (auto simp: entry_of_def fun_eq_iff split: option.splits)

lemma entries_ok_cache:
  assumes "entries_ok s" "0 \<le> e_refs e" "e_db e \<in> ps_open s"
    "\<And>r' e'. r' \<noteq> r \<Longrightarrow> entry_of s r' = Some e' \<Longrightarrow> e_db e' \<noteq> e_db e"
  shows "entries_ok (s\<lparr>ps_cache := (ps_cache s)(r \<mapsto> e), ps_lru := l\<rparr>)"
  using assms(1-3) unfolding entries_ok_def entry_update by (auto split: if_splits dest: assms(4))

lemma shape_ok_append:
  assumes "shape_ok s" "ps_cache s r = None" "ps_pending s r = None" "ps_ready s"
    "0 < ps_max s \<Longrightarrow> int (length (ps_lru s)) < ps_max s"
  shows "shape_ok (s\<lparr>ps_cache := (ps_cache s)(r \<mapsto> e), ps_lru := ps_lru s @ [r]\<rparr>)"
  using assms by (auto simp: shape_ok_def dom_def)

lemma init_ready [simp]: "ps_ready (init_project_cache s)"
  by (simp add: init_project_cache_def)

text \<open>Room after an eviction.\<close>

lemma retire_room:
  assumes sh: "shape_ok s" and m: "0 < ps_max s"
  shows "int (length (ps_lru (if lru_full s then retire (hd (ps_lru s)) s else s))) < ps_max s"
proof (cases "lru_full s")
  case True
  obtain k ks e where k: "ps_lru s = k # ks" "ps_cache s k = Some e"
    using oldest_cached [OF sh True] by metis
  have "int (length (ps_lru s)) \<le> ps_max s" using sh m by (simp add: shape_ok_def)
  then show ?thesis using True k by (simp add: retire_lru)
next
  case False
  then show ?thesis using m by (simp add: lru_full_def)
qed

text \<open>What taking a database does to the pool.\<close>

definition takes :: "project_state \<Rightarrow> string \<Rightarrow> nat \<Rightarrow> project_state \<Rightarrow> bool" where
  "takes s root h s' \<longleftrightarrow>
     (\<exists>K s1. frees s K s1 \<and> root \<notin> K \<and>
       (case entry_of s root of
          Some e \<Rightarrow> h = e_db e \<and> entry_of s' = (entry_of s1)(root \<mapsto> add_ref e) \<and> ps_open s' = ps_open s1
                    \<and> ps_next s' = ps_next s1
        | None \<Rightarrow> h = ps_next s \<and> entry_of s' = (entry_of s1)(root \<mapsto> \<lparr>e_db = h, e_refs = 1\<rparr>)
                    \<and> ps_open s' = insert h (ps_open s1) \<and> ps_next s' = Suc (ps_next s1))
       \<and> ps_extra s' = ps_extra s \<and> ps_workdir s' = ps_workdir s \<and> ps_primary s' = ps_primary s)"

lemma evict_pending_other:
  "ps_pending s r = None \<Longrightarrow> r \<noteq> k \<Longrightarrow> ps_pending (retire k s) r = None"
  by (auto simp: retire_pending split: option.splits)

lemma oldest_or_stay:
  assumes "shape_ok s" "ps_cache s root = None"
  defines "s' \<equiv> if lru_full s then retire (hd (ps_lru s)) s else s"
  shows "\<exists>K. frees s K s' \<and> root \<notin> K" "ps_cache s' root = None"
    "ps_pending s root = None \<Longrightarrow> ps_pending s' root = None"
proof -
  have ne: "lru_full s \<Longrightarrow> hd (ps_lru s) \<noteq> root"
    using oldest_cached [OF assms(1)] assms(2) by (metis list.sel(1) option.distinct(1))
  show "\<exists>K. frees s K s' \<and> root \<notin> K"
  proof (cases "lru_full s")
    case True
    obtain K where "K \<subseteq> {hd (ps_lru s)} \<inter> dom (ps_cache s)" "frees s K (retire (hd (ps_lru s)) s)"
      using retire_frees [OF assms(1)] by blast
    then show ?thesis using True ne unfolding s'_def by auto
  qed (use frees_refl s'_def in auto)
  show "ps_cache s' root = None" using assms(2) by (simp add: s'_def retire_cache)
  show "ps_pending s root = None \<Longrightarrow> ps_pending s' root = None"
    using ne evict_pending_other [of s root "hd (ps_lru s)"] by (auto simp: s'_def)
qed

lemma reuse_pending_ok:
  assumes sh: "shape_ok s" and en: "entries_ok s" and rd: "ps_ready s"
    and c: "ps_cache s root = None" and p: "ps_pending s root = Some e"
  shows "takes s root (e_db e) (reuse_pending root e s)" "shape_ok (reuse_pending root e s)"
    "entries_ok (reuse_pending root e s)"
proof -
  define s0 where "s0 = s\<lparr>ps_pending := (ps_pending s)(root := None)\<rparr>"
  define s1 where "s1 = (if lru_full s0 then retire (hd (ps_lru s0)) s0 else s0)"
  have f0: "ps_cache s0 = ps_cache s" "ps_lru s0 = ps_lru s" "ps_open s0 = ps_open s" "ps_next s0 = ps_next s"
    "ps_extra s0 = ps_extra s" "ps_workdir s0 = ps_workdir s" "ps_primary s0 = ps_primary s" "ps_max s0 = ps_max s"
    "ps_pending s0 = (ps_pending s)(root := None)" "ps_ready s0 = ps_ready s" by (simp_all add: s0_def)
  have e0: "entry_of s0 = (entry_of s)(root := None)"
    using c by (auto simp: entry_of_def f0 fun_eq_iff split: option.splits)
  have er: "entry_of s root = Some e" using c p by (simp add: entry_of_simps)
  have sh0: "shape_ok s0" using sh by (auto simp: shape_ok_def f0)
  have en0: "entries_ok s0" using en unfolding entries_ok_def e0 by (auto simp: f0 split: if_splits)
  have c0: "ps_cache s0 root = None" "ps_pending s0 root = None" using c by (simp_all add: f0)
  obtain K where K: "frees s0 K s1" "root \<notin> K"
    using oldest_or_stay(1) [OF sh0 c0(1)] unfolding s1_def by blast
  have c1: "ps_cache s1 root = None" "ps_pending s1 root = None"
    using oldest_or_stay(2,3) [OF sh0 c0(1)] c0(2) unfolding s1_def by blast+
  have sh1: "shape_ok s1" using sh0 retire_shape by (simp add: s1_def)
  have en1: "entries_ok s1" using sh0 en0 retire_entries by (simp add: s1_def)
  have m1: "ps_max s1 = ps_max s0" "ps_ready s1 = ps_ready s0" by (simp_all add: s1_def)
  have r: "reuse_pending root e s = s1\<lparr>ps_cache := (ps_cache s1)(root \<mapsto> add_ref e), ps_lru := ps_lru s1 @ [root]\<rparr>"
    unfolding reuse_pending_def s0_def [symmetric] evict_oldest_retire [OF sh0] s1_def Let_def ..
  have dk: "e_db e \<notin> {h. \<exists>k\<in>K. \<exists>e. entry_of s0 k = Some e \<and> e_db e = h}"
    using en er K(2) unfolding e0 entries_ok_def by (auto split: if_splits)
  have op1: "e_db e \<in> ps_open s1"
    using en er K(1) dk unfolding frees_def entries_ok_def by (auto simp: f0)
  have fr: "frees s K (s1\<lparr>ps_pending := (ps_pending s1)(root \<mapsto> e)\<rparr>)"
  proof -
    have "entry_of (s1\<lparr>ps_pending := (ps_pending s1)(root \<mapsto> e)\<rparr>) = (entry_of s1)(root \<mapsto> e)"
      using c1(1) by (auto simp: entry_of_def fun_eq_iff split: option.splits)
    moreover have "k \<in> K \<Longrightarrow> k \<noteq> root" for k using K(2) by blast
    ultimately show ?thesis
      using K er unfolding frees_def e0 by (auto simp: fun_eq_iff f0)
  qed
  show "takes s root (e_db e) (reuse_pending root e s)"
  proof -
    let ?s1 = "s1\<lparr>ps_pending := (ps_pending s1)(root \<mapsto> e)\<rparr>"
    have "(entry_of ?s1)(root \<mapsto> add_ref e) = (entry_of s1)(root \<mapsto> add_ref e)"
      by (auto simp: entry_of_def fun_eq_iff split: option.splits)
    moreover have "ps_extra s1 = ps_extra s" "ps_workdir s1 = ps_workdir s" "ps_primary s1 = ps_primary s"
      by (simp_all add: s1_def f0)
    ultimately show ?thesis
      unfolding takes_def using fr K(2) er by (intro exI [of _ K] exI [of _ ?s1]) (simp add: r entry_update)
  qed
  show "shape_ok (reuse_pending root e s)"
    unfolding r using sh1 c1 rd retire_room [OF sh0] by (intro shape_ok_append) (auto simp: m1 f0 s1_def)
  show "entries_ok (reuse_pending root e s)"
    unfolding r
  proof (rule entries_ok_cache [OF en1])
    show "0 \<le> e_refs (add_ref e)" using en er by (auto simp: entries_ok_def add_ref_def)
    show "e_db (add_ref e) \<in> ps_open s1" using op1 by (simp add: add_ref_def)
    fix r' e' assume r': "r' \<noteq> root" "entry_of s1 r' = Some e'"
    then have "entry_of s r' = Some e'" using K unfolding frees_def e0 by (auto split: if_splits)
    then show "e_db e' \<noteq> e_db (add_ref e)" using en er r'(1) unfolding entries_ok_def add_ref_def by force
  qed
qed


text \<open>A failing open leaves the pool as it was; a successful one adds an entry in one use.\<close>

lemma put_back_evicted:
  assumes "shape_ok s"
  shows "put_back (snd (evict_for_open s)) (fst (evict_for_open s)) = s"
proof (cases "lru_full s")
  case True
  obtain k ks e where k: "ps_lru s = k # ks" "ps_cache s k = Some e" "ps_pending s k = None"
    using oldest_cached [OF assms True] by metis
  have "(ps_pending s)(k := None) = ps_pending s" "(ps_cache s)(k \<mapsto> e) = ps_cache s"
    using k by (auto simp: fun_eq_iff)
  then show ?thesis using True k by (simp add: evict_for_open_def put_back_def Let_def)
qed (simp add: evict_for_open_def put_back_def)

lemma open_project_fails:
  assumes "shape_ok s"
  shows "open_project False root s = (s, None)"
  using put_back_evicted [OF assms] by (simp add: open_project_def split_beta)

lemma open_project_retire:
  assumes sh: "shape_ok s" and en: "entries_ok s"
  defines "s1 \<equiv> if lru_full s then retire (hd (ps_lru s)) s else s"
  shows "open_project True root s =
    (s1\<lparr>ps_open := insert (ps_next s) (ps_open s1), ps_next := Suc (ps_next s),
        ps_cache := (ps_cache s1)(root \<mapsto> \<lparr>e_db = ps_next s, e_refs = 1\<rparr>), ps_lru := ps_lru s1 @ [root]\<rparr>,
     Some (ps_next s))"
proof (cases "lru_full s")
  case True
  obtain k ks e where k: "ps_lru s = k # ks" "ps_cache s k = Some e"
    using oldest_cached [OF sh True] by metis
  then have "entry_of s k = Some e" by (simp add: entry_of_simps)
  then have "e_db e < ps_next s" "0 \<le> e_refs e" using en by (auto simp: entries_ok_def)
  then have "insert (ps_next s) (ps_open s) - {e_db e} = insert (ps_next s) (ps_open s - {e_db e})" by auto
  then show ?thesis
    using True k \<open>0 \<le> e_refs e\<close> unfolding s1_def
    by (auto simp: open_project_def evict_for_open_def retire_def open_db_def close_db_def Let_def)
qed (simp add: open_project_def evict_for_open_def open_db_def s1_def)

lemma open_project_ok:
  assumes sh: "shape_ok s" and en: "entries_ok s" and rd: "ps_ready s"
    and c: "ps_cache s root = None" and p: "ps_pending s root = None"
    and op: "open_project True root s = (s', Some h)"
  shows "takes s root h s'" "shape_ok s'" "entries_ok s'"
proof -
  define s1 where "s1 = (if lru_full s then retire (hd (ps_lru s)) s else s)"
  have s': "s' = s1\<lparr>ps_open := insert (ps_next s) (ps_open s1), ps_next := Suc (ps_next s),
        ps_cache := (ps_cache s1)(root \<mapsto> \<lparr>e_db = ps_next s, e_refs = 1\<rparr>), ps_lru := ps_lru s1 @ [root]\<rparr>"
    and h: "h = ps_next s"
    using op [unfolded open_project_retire [OF sh en, of root, folded s1_def]] by auto
  obtain K where K: "frees s K s1" "root \<notin> K"
    using oldest_or_stay(1) [OF sh c] unfolding s1_def by blast
  have c1: "ps_cache s1 root = None" "ps_pending s1 root = None"
    using oldest_or_stay(2,3) [OF sh c] p unfolding s1_def by blast+
  have sh1: "shape_ok s1" and en1: "entries_ok s1" using sh en retire_shape retire_entries by (simp_all add: s1_def)
  have m1: "ps_max s1 = ps_max s" "ps_ready s1 = ps_ready s" "ps_next s1 = ps_next s" "ps_extra s1 = ps_extra s"
    "ps_workdir s1 = ps_workdir s" "ps_primary s1 = ps_primary s" by (simp_all add: s1_def)
  define s2 where "s2 = s1\<lparr>ps_open := insert (ps_next s) (ps_open s1), ps_next := Suc (ps_next s)\<rparr>"
  have s'2: "s' = s2\<lparr>ps_cache := (ps_cache s2)(root \<mapsto> \<lparr>e_db = ps_next s, e_refs = 1\<rparr>), ps_lru := ps_lru s2 @ [root]\<rparr>"
    by (simp add: s' s2_def)
  have e2: "entry_of s2 = entry_of s1" by (auto simp: s2_def entry_of_def fun_eq_iff split: option.splits)
  have er: "entry_of s root = None" using c p by (simp add: entry_of_simps)
  show "takes s root h s'"
    unfolding takes_def using K er h
    by (intro exI [of _ K] exI [of _ s1]) (simp add: s'2 entry_update e2, simp add: s2_def m1)
  have sh2: "shape_ok s2" using sh1 by (simp add: shape_ok_def s2_def)
  show "shape_ok s'"
    unfolding s'2 using sh2 c1 rd retire_room [OF sh] by (intro shape_ok_append) (auto simp: m1 s2_def s1_def)
  have en2: "entries_ok s2"
    using en1 unfolding entries_ok_def e2 by (auto simp: s2_def m1 less_Suc_eq)
  show "entries_ok s'"
    unfolding s'2
  proof (rule entries_ok_cache [OF en2])
    fix r' e' assume "r' \<noteq> root" "entry_of s2 r' = Some e'"
    then have "e_db e' < ps_next s" using en1 by (auto simp: entries_ok_def e2 m1)
    then show "e_db e' \<noteq> e_db \<lparr>e_db = ps_next s, e_refs = 1\<rparr>" by simp
  qed (simp_all add: s2_def)
qed

lemma touch_lru_set [simp]: "set (touch_project_lru r l) = set l"
  by (auto simp: touch_project_lru_def dest: notin_set_remove1 in_set_remove1 [THEN iffD1, rotated])
    (metis in_set_remove1)

lemma touch_lru_distinct: "distinct l \<Longrightarrow> distinct (touch_project_lru r l)"
  by (simp add: touch_project_lru_def)

lemma touch_lru_length [simp]: "length (touch_project_lru r l) = length l"
proof (cases "r \<in> set l")
  case True
  then have "0 < length l" by (cases l) auto
  then show ?thesis using True by (simp add: touch_project_lru_def length_remove1)
qed (simp add: touch_project_lru_def)

lemma cached_ok:
  assumes sh: "shape_ok s" and en: "entries_ok s" and c: "ps_cache s root = Some e"
  defines "s' \<equiv> s\<lparr>ps_lru := touch_project_lru root (ps_lru s), ps_cache := (ps_cache s)(root \<mapsto> add_ref e)\<rparr>"
  shows "takes s root (e_db e) s'" "shape_ok s'" "entries_ok s'"
proof -
  have s': "s' = s\<lparr>ps_cache := (ps_cache s)(root \<mapsto> add_ref e), ps_lru := touch_project_lru root (ps_lru s)\<rparr>"
    by (simp add: s'_def)
  have er: "entry_of s root = Some e" using c by (simp add: entry_of_simps)
  show "takes s root (e_db e) s'"
    unfolding takes_def using frees_refl [of s] er
    by (intro exI [of _ "{}"] exI [of _ s]) (simp add: s' entry_update)
  show "shape_ok s'" using sh c by (auto simp: s' shape_ok_def touch_lru_distinct dom_def)
  show "entries_ok s'"
    unfolding s'
  proof (rule entries_ok_cache [OF en])
    show "0 \<le> e_refs (add_ref e)" "e_db (add_ref e) \<in> ps_open s" using en er by (auto simp: entries_ok_def add_ref_def)
    fix r' e' assume "r' \<noteq> root" "entry_of s r' = Some e'"
    then show "e_db e' \<noteq> e_db (add_ref e)" using en er unfolding entries_ok_def add_ref_def by force
  qed
qed

lemma takes_init: "shape_ok s \<Longrightarrow> takes (init_project_cache s) root h s' \<Longrightarrow> takes s root h s'"
  unfolding takes_def frees_def by (simp only: init_entry init_frame)

lemma acquire_project_ok:
  assumes "shape_ok s" "entries_ok s" "acquire_project opens root s = (s', Some h)"
  shows "takes s root h s' \<and> shape_ok s' \<and> entries_ok s'"
proof -
  define s0 where "s0 = init_project_cache s"
  have s0: "shape_ok s0" "entries_ok s0" "ps_ready s0"
    using assms init_shape init_entries by (simp_all add: s0_def)
  have "takes s0 root h s' \<and> shape_ok s' \<and> entries_ok s'"
  proof (cases "ps_cache s0 root")
    case (Some e)
    then show ?thesis using assms(3) cached_ok [OF s0(1,2) Some]
      by (auto simp: acquire_project_def s0_def [symmetric] Let_def)
  next
    case c: None
    show ?thesis
    proof (cases "ps_pending s0 root")
      case (Some e)
      then show ?thesis using assms(3) c reuse_pending_ok [OF s0 c Some]
        by (auto simp: acquire_project_def s0_def [symmetric] Let_def)
    next
      case None
      then have op: "open_project opens root s0 = (s', Some h)"
        using assms(3) c by (simp add: acquire_project_def s0_def [symmetric] Let_def)
      have "opens" using op open_project_fails [OF s0(1)] by (cases opens) auto
      then show ?thesis using open_project_ok [OF s0 c None] op by simp
    qed
  qed
  then show ?thesis using takes_init assms(1) by (simp add: s0_def)
qed

lemma acquire_project_fails:
  assumes "shape_ok s" "acquire_project opens root s = (s', None)"
  shows "s' = init_project_cache s"
proof -
  define s0 where "s0 = init_project_cache s"
  have sh: "shape_ok s0" using assms(1) init_shape by (simp add: s0_def)
  have "ps_cache s0 root = None" "ps_pending s0 root = None" "open_project opens root s0 = (s', None)"
    using assms(2) by (auto simp: acquire_project_def s0_def [symmetric] Let_def split: option.splits)
  then show ?thesis
    using open_project_fails [OF sh] by (cases opens) (auto simp: open_project_def s0_def split_beta Let_def)
qed


text \<open>Giving a reference back.\<close>

definition drops :: "project_state \<Rightarrow> string \<Rightarrow> project_state \<Rightarrow> bool" where
  "drops s root s' \<longleftrightarrow>
     (\<exists>e. entry_of s root = Some e
       \<and> (entry_of s' = (entry_of s)(root \<mapsto> drop_ref e) \<and> ps_open s' = ps_open s
          \<or> e_refs e = 1 \<and> entry_of s' = (entry_of s)(root := None) \<and> ps_open s' = ps_open s - {e_db e}))
     \<and> ps_next s' = ps_next s \<and> ps_extra s' = ps_extra s \<and> ps_workdir s' = ps_workdir s
     \<and> ps_primary s' = ps_primary s"

lemma release_project_ok:
  assumes sh: "shape_ok s" and en: "entries_ok s" and er: "entry_of s root = Some e" and pos: "0 < e_refs e"
  shows "drops s root (release_project root s) \<and> shape_ok (release_project root s)
    \<and> entries_ok (release_project root s)"
proof (cases "ps_pending s root")
  case p: (Some e')
  then have c: "ps_cache s root = None" using sh by (auto simp: shape_ok_def)
  then have e: "e' = e" using p er by (simp add: entry_of_simps)
  show ?thesis
  proof (cases "e_refs e - 1 = 0")
    case True
    let ?s = "release_project root s"
    have s': "?s = close_db (e_db e) (s\<lparr>ps_pending := (ps_pending s)(root := None)\<rparr>)"
      using p e True by (simp add: release_project_def)
    have e': "entry_of ?s = (entry_of s)(root := None)"
      unfolding s' using c by (auto simp: entry_of_def close_db_def fun_eq_iff split: option.splits)
    have other: "r \<noteq> root \<Longrightarrow> entry_of s r = Some x \<Longrightarrow> e_db x \<noteq> e_db e" for r x
      using en er unfolding entries_ok_def by blast
    have "shape_ok ?s" using sh by (auto simp: s' shape_ok_def close_db_def)
    moreover have "entries_ok ?s"
      using en other unfolding entries_ok_def e' by (auto simp: s' close_db_def split: if_splits)
    moreover have "drops s root ?s"
      using er True unfolding drops_def e' by (simp add: s' close_db_def)
    ultimately show ?thesis by blast
  next
    case False
    let ?s = "release_project root s"
    have s': "?s = s\<lparr>ps_pending := (ps_pending s)(root \<mapsto> drop_ref e)\<rparr>"
      using p e False by (simp add: release_project_def)
    have e': "entry_of ?s = (entry_of s)(root \<mapsto> drop_ref e)"
      unfolding s' using c by (auto simp: entry_of_def fun_eq_iff split: option.splits)
    have "shape_ok ?s" using sh p by (auto simp: s' shape_ok_def)
    moreover have "0 < e_refs (drop_ref e)" using False pos by (simp add: drop_ref_def)
    then have "entries_ok ?s"
      using en er False unfolding entries_ok_def e' by (auto simp: s' drop_ref_def split: if_splits)
    moreover have "drops s root ?s" using er unfolding drops_def e' by (simp add: s')
    ultimately show ?thesis by blast
  qed
next
  case None
  then have c: "ps_cache s root = Some e" using er by (auto simp: entry_of_def split: option.splits)
  let ?s = "release_project root s"
  have s': "?s = s\<lparr>ps_cache := (ps_cache s)(root \<mapsto> drop_ref e)\<rparr>"
    using None c by (simp add: release_project_def)
  have s'2: "?s = s\<lparr>ps_cache := (ps_cache s)(root \<mapsto> drop_ref e), ps_lru := ps_lru s\<rparr>"
    by (simp add: s')
  have e': "entry_of ?s = (entry_of s)(root \<mapsto> drop_ref e)" unfolding s'2 by (rule entry_update)
  have "shape_ok ?s" using sh c by (auto simp: s' shape_ok_def)
  moreover have "entries_ok ?s"
    unfolding s'2
  proof (rule entries_ok_cache [OF en])
    show "0 \<le> e_refs (drop_ref e)" "e_db (drop_ref e) \<in> ps_open s"
      using en er pos by (auto simp: entries_ok_def drop_ref_def)
    fix r' e' assume "r' \<noteq> root" "entry_of s r' = Some e'"
    then show "e_db e' \<noteq> e_db (drop_ref e)" using en er unfolding entries_ok_def drop_ref_def by force
  qed
  moreover have "drops s root ?s" using er unfolding drops_def e' by (simp add: s')
  ultimately show ?thesis by blast
qed

text \<open>Adopting a workdir retires its entry; the new database is watched, not pooled.\<close>

definition adopts :: "project_state \<Rightarrow> string \<Rightarrow> project_state \<Rightarrow> bool" where
  "adopts s wd s' \<longleftrightarrow>
     (\<exists>K s1. frees s K s1 \<and> entry_of s' = entry_of s1 \<and> ps_open s' = insert (ps_next s) (ps_open s1)
       \<and> ps_next s' = Suc (ps_next s) \<and> ps_extra s' = (ps_extra s)(wd \<mapsto> ps_next s)
       \<and> ps_workdir s' = ps_workdir s \<and> ps_primary s' = ps_primary s)"

lemma adopt_workdir_ok:
  assumes sh: "shape_ok s" and en: "entries_ok s"
  shows "adopts s wd (adopt_workdir wd s) \<and> shape_ok (adopt_workdir wd s) \<and> entries_ok (adopt_workdir wd s)"
proof -
  define s0 where "s0 = fst (open_db s)"
  have f0: "ps_cache s0 = ps_cache s" "ps_pending s0 = ps_pending s" "ps_lru s0 = ps_lru s" "ps_max s0 = ps_max s"
    "ps_ready s0 = ps_ready s" "ps_extra s0 = ps_extra s" "ps_workdir s0 = ps_workdir s" "ps_primary s0 = ps_primary s"
    "ps_open s0 = insert (ps_next s) (ps_open s)" "ps_next s0 = Suc (ps_next s)"
    by (simp_all add: s0_def open_db_def)
  have e0: "entry_of s0 = entry_of s" by (auto simp: entry_of_def f0 fun_eq_iff split: option.splits)
  have sh0: "shape_ok s0" using sh by (simp add: shape_ok_def f0)
  have en0: "entries_ok s0" using en unfolding entries_ok_def e0 by (auto simp: f0)
  let ?s = "adopt_workdir wd s" and ?r = "retire wd s0"
  have a: "?s = ?r\<lparr>ps_extra := (ps_extra s)(wd \<mapsto> ps_next s)\<rparr>"
    by (simp add: adopt_retire s0_def [symmetric] Let_def f0)
  have ea: "entry_of ?s = entry_of ?r" unfolding a by (auto simp: entry_of_def fun_eq_iff split: option.splits)
  have "shape_ok ?s" using retire_shape [OF sh0, of wd] by (simp add: a shape_ok_def)
  moreover have "entries_ok ?s" using retire_entries [OF sh0 en0, of wd] unfolding entries_ok_def ea by (simp add: a)
  moreover have "adopts s wd ?s"
  proof -
    obtain K where K: "frees s0 K ?r" using retire_frees [OF sh0] by blast
    define s1 where "s1 = ?r\<lparr>ps_open := ps_open s - {h. \<exists>k\<in>K. \<exists>e. entry_of s k = Some e \<and> e_db e = h},
      ps_next := ps_next s\<rparr>"
    have e1: "entry_of s1 = entry_of ?r" unfolding s1_def by (auto simp: entry_of_def fun_eq_iff split: option.splits)
    have fr: "frees s K s1"
      using K unfolding frees_def e0 e1 by (simp add: s1_def f0)
    have "entry_of s k = Some e \<Longrightarrow> e_db e < ps_next s" for k e using en by (auto simp: entries_ok_def)
    then have "ps_next s \<notin> {h. \<exists>k\<in>K. \<exists>e. entry_of s k = Some e \<and> e_db e = h}" by force
    then have "ps_open ?r = insert (ps_next s) (ps_open s1)"
      using K unfolding frees_def e0 by (auto simp: s1_def f0)
    then show ?thesis
      unfolding adopts_def using fr by (intro exI [of _ K] exI [of _ s1]) (simp add: ea e1, simp add: a f0)
  qed
  ultimately show ?thesis by blast
qed


section \<open>No database is closed under a call that uses it\<close>

definition users :: "(nat \<Rightarrow> call) \<Rightarrow> string \<Rightarrow> nat \<Rightarrow> nat set" where
  "users f r h = {c. f c = Holding r h \<or> f c = Releasing r h}"

definition shared :: "project_state \<Rightarrow> string \<Rightarrow> nat \<Rightarrow> bool" where
  "shared s r h \<longleftrightarrow> (\<exists>e. entry_of s r = Some e \<and> e_db e = h)"

text \<open>A handle that belongs to the server: open, and no entry of the pool.\<close>

definition owned :: "project_state \<Rightarrow> nat \<Rightarrow> bool" where
  "owned s h \<longleftrightarrow> h \<in> ps_open s \<and> (\<forall>r. \<not> shared s r h)"

definition calls_ok :: "project_state \<Rightarrow> (nat \<Rightarrow> call) \<Rightarrow> bool" where
  "calls_ok s f \<longleftrightarrow>
     finite {c. f c \<noteq> Idle}
     \<and> entry_of s (ps_workdir s) = None \<and> (\<forall>c. f c \<noteq> Resolving (ps_workdir s))
     \<and> owned s (ps_primary s) \<and> (\<forall>r h. ps_extra s r = Some h \<longrightarrow> owned s h)
     \<and> (\<forall>c r h. f c = Holding r h \<longrightarrow>
          shared s r h \<or> owned s h \<and> (r = ps_workdir s \<or> ps_extra s r \<noteq> None))
     \<and> (\<forall>c r h. f c = Releasing r h \<longrightarrow> shared s r h)
     \<and> (\<forall>r e. entry_of s r = Some e \<longrightarrow> int (card (users f r (e_db e))) \<le> e_refs e)"

text \<open>Without adopted workdirs the counts are exact and nothing else is open.\<close>

definition counts_exact :: "project_state \<Rightarrow> (nat \<Rightarrow> call) \<Rightarrow> bool" where
  "counts_exact s f \<longleftrightarrow>
     (ps_extra s = Map.empty \<longrightarrow>
       (\<forall>r e. entry_of s r = Some e \<longrightarrow> int (card (users f r (e_db e))) = e_refs e)
       \<and> (\<forall>h\<in>ps_open s. h = ps_primary s \<or> (\<exists>r. shared s r h))
       \<and> (\<forall>c r h. f c = Holding r h \<longrightarrow> \<not> shared s r h \<longrightarrow> r = ps_workdir s))"

lemma finite_users: "finite {c. f c \<noteq> Idle} \<Longrightarrow> finite (users f r h)"
  by (rule finite_subset [of _ "{c. f c \<noteq> Idle}"]) (auto simp: users_def)

lemma users_in: "c \<in> users f r h \<longleftrightarrow> f c = Holding r h \<or> f c = Releasing r h"
  by (simp add: users_def)

lemma users_upd:
  "users (f(c := x)) r h =
     (if x = Holding r h \<or> x = Releasing r h then insert c (users f r h) else users f r h - {c})"
  by (auto simp: users_def)

lemma calls_refs: "calls_ok s f \<Longrightarrow> entry_of s r = Some e \<Longrightarrow> int (card (users f r (e_db e))) \<le> e_refs e"
  by (simp add: calls_ok_def)

lemma calls_using:
  assumes "calls_ok s f" "c \<in> users f r h"
  shows "shared s r h \<or> owned s h \<and> (r = ps_workdir s \<or> ps_extra s r \<noteq> None)"
  using assms unfolding calls_ok_def users_in by blast

text \<open>An evicted entry has no users, so a call in the middle of its work does not see evictions.\<close>

lemma frees_shared:
  assumes "frees s K s'"
  shows "shared s' r h \<longleftrightarrow> shared s r h \<and> r \<notin> K"
  using assms by (auto simp: frees_def shared_def)

lemma frees_owned:
  assumes "frees s K s'" "owned s h"
  shows "owned s' h"
  using assms frees_shared [OF assms(1)] by (auto simp: owned_def frees_def shared_def)

lemma frees_unused:
  assumes "frees s K s'" "calls_ok s f" "k \<in> K" "shared s k h"
  shows "users f k h = {}"
proof -
  obtain e where e: "entry_of s k = Some e" "e_refs e = 0" using assms(1,3) by (auto simp: frees_def)
  then have "e_db e = h" using assms(4) by (auto simp: shared_def)
  then have "card (users f k h) = 0" using e calls_refs [OF assms(2) e(1)] by simp
  moreover have "finite (users f k h)" using assms(2) finite_users by (auto simp: calls_ok_def)
  ultimately show ?thesis by simp
qed

lemma frees_calls:
  assumes K: "frees s K s'" and ok: "calls_ok s f"
  shows "calls_ok s' f"
proof -
  have sh: "c \<in> users f r h \<Longrightarrow> shared s r h \<Longrightarrow> shared s' r h" for c r h
    using frees_shared [OF K] frees_unused [OF K ok] by blast
  have ent: "entry_of s' r = Some e \<Longrightarrow> entry_of s r = Some e" for r e
    using K by (auto simp: frees_def split: if_splits)
  have fr: "ps_extra s' = ps_extra s" "ps_workdir s' = ps_workdir s" "ps_primary s' = ps_primary s"
    using K by (simp_all add: frees_def)
  have hold: "shared s' r h \<or> owned s' h \<and> (r = ps_workdir s \<or> ps_extra s r \<noteq> None)" if "c \<in> users f r h" for c r h
    using calls_using [OF ok that] sh [OF that] frees_owned [OF K] by blast
  show ?thesis
    unfolding calls_ok_def fr
  proof (intro conjI allI impI)
    show "finite {c. f c \<noteq> Idle}" using ok by (simp add: calls_ok_def)
    show "entry_of s' (ps_workdir s) = None" using K ok by (simp add: frees_def calls_ok_def)
    show "f c \<noteq> Resolving (ps_workdir s)" for c using ok by (simp add: calls_ok_def)
    show "owned s' (ps_primary s)" using frees_owned [OF K] ok by (simp add: calls_ok_def)
    show "ps_extra s r = Some h \<Longrightarrow> owned s' h" for r h using frees_owned [OF K] ok by (simp add: calls_ok_def)
    show "f c = Holding r h \<Longrightarrow> shared s' r h \<or> owned s' h \<and> (r = ps_workdir s \<or> ps_extra s r \<noteq> None)" for c r h
      using hold [of c r h] by (simp add: users_in)
    show "shared s' r h" if "f c = Releasing r h" for c r h
      using sh [of c r h] that ok by (simp add: users_in calls_ok_def)
    show "entry_of s' r = Some e \<Longrightarrow> int (card (users f r (e_db e))) \<le> e_refs e" for r e
      using ent calls_refs [OF ok] by blast
  qed
qed

lemma frees_exact:
  assumes K: "frees s K s'" and ex: "counts_exact s f" and ok: "calls_ok s f"
  shows "counts_exact s' f"
proof -
  have ent: "entry_of s' r = Some e \<Longrightarrow> entry_of s r = Some e" for r e
    using K by (auto simp: frees_def split: if_splits)
  have fr: "ps_extra s' = ps_extra s" "ps_workdir s' = ps_workdir s" "ps_primary s' = ps_primary s"
    using K by (simp_all add: frees_def)
  have op: "h \<in> ps_open s' \<Longrightarrow> h \<in> ps_open s \<and> (\<forall>k\<in>K. \<not> shared s k h)" for h
    using K by (auto simp: frees_def shared_def)
  have sh: "c \<in> users f r h \<Longrightarrow> shared s r h \<Longrightarrow> shared s' r h" for c r h
    using frees_shared [OF K] frees_unused [OF K ok] by blast
  show ?thesis
    unfolding counts_exact_def fr
  proof (intro impI conjI allI ballI)
    assume e: "ps_extra s = Map.empty"
    show "entry_of s' r = Some e \<Longrightarrow> int (card (users f r (e_db e))) = e_refs e" for r e
      using ent ex e by (auto simp: counts_exact_def)
    show "h = ps_primary s \<or> (\<exists>r. shared s' r h)" if "h \<in> ps_open s'" for h
      using op [OF that] ex e frees_shared [OF K] unfolding counts_exact_def by blast
    show "r = ps_workdir s" if "f c = Holding r h" "\<not> shared s' r h" for c r h
      using that sh [of c r h] ex e unfolding counts_exact_def users_in by blast
  qed
qed


lemma users_add:
  assumes "finite {c. f c \<noteq> Idle}" "f c = Resolving r0"
  shows "card (users (f(c := Holding r h)) r' h') = card (users f r' h') + (if r' = r \<and> h' = h then 1 else 0)"
proof -
  have "c \<notin> users f r' h'" using assms(2) by (simp add: users_def)
  then show ?thesis using finite_users [OF assms(1)] by (auto simp: users_upd)
qed

lemma takes_calls:
  assumes t: "takes s root h s'" and en: "entries_ok s" and ok: "calls_ok s f" and ex: "counts_exact s f"
    and fc: "f c = Resolving root"
  shows "calls_ok s' (f(c := Holding root h)) \<and> counts_exact s' (f(c := Holding root h))"
proof -
  let ?f = "f(c := Holding root h)"
  obtain K s1 where K: "frees s K s1" "root \<notin> K"
    and cs: "case entry_of s root of
          Some e \<Rightarrow> h = e_db e \<and> entry_of s' = (entry_of s1)(root \<mapsto> add_ref e) \<and> ps_open s' = ps_open s1
                    \<and> ps_next s' = ps_next s1
        | None \<Rightarrow> h = ps_next s \<and> entry_of s' = (entry_of s1)(root \<mapsto> \<lparr>e_db = h, e_refs = 1\<rparr>)
                    \<and> ps_open s' = insert h (ps_open s1) \<and> ps_next s' = Suc (ps_next s1)"
    and fr: "ps_extra s' = ps_extra s" "ps_workdir s' = ps_workdir s" "ps_primary s' = ps_primary s"
    using t unfolding takes_def by blast
  have ok1: "calls_ok s1 f" and ex1: "counts_exact s1 f"
    using frees_calls [OF K(1) ok] frees_exact [OF K(1) ex ok] by blast+
  have fr1: "ps_extra s1 = ps_extra s" "ps_workdir s1 = ps_workdir s" "ps_primary s1 = ps_primary s"
    using K(1) by (simp_all add: frees_def)
  have e1: "entry_of s1 root = entry_of s root" using K by (simp add: frees_def)
  have fin: "finite {c. f c \<noteq> Idle}" using ok by (simp add: calls_ok_def)
  have finf: "finite {x. ?f x \<noteq> Idle}" by (rule finite_subset [OF _ fin]) (auto simp: fc)
  note add = users_add [OF fin fc, of root h]
  have new: "entry_of s root = None \<Longrightarrow> \<forall>h'\<in>ps_open s1. h' \<noteq> h"
    using cs K(1) en by (auto simp: frees_def entries_ok_def)
  have none1: "entry_of s root = None \<Longrightarrow> \<not> shared s1 root h'" for h' using e1 by (simp add: shared_def)
  have sh: "shared s' r h' \<longleftrightarrow> shared s1 r h' \<or> r = root \<and> h' = h" for r h'
  proof (cases "entry_of s root")
    case None
    then show ?thesis using cs none1 [OF None] by (auto simp: shared_def split: if_splits)
  next
    case (Some e)
    then show ?thesis using cs e1 by (auto simp: shared_def add_ref_def split: if_splits)
  qed
  have ow: "owned s' h'" if "owned s1 h'" for h'
  proof (cases "entry_of s root")
    case None
    then show ?thesis using that cs sh new [OF None] by (auto simp: owned_def)
  next
    case (Some e)
    then have "shared s1 root h" using cs e1 by (auto simp: shared_def)
    then show ?thesis using that cs sh Some by (auto simp: owned_def)
  qed
  have unew: "entry_of s root = None \<Longrightarrow> users f root h = {}"
    using calls_using [OF ok1] new none1 unfolding owned_def by blast
  have refs: "\<exists>e0. e_refs e = e_refs e0 + (if r = root then 1 else 0) \<and> entry_of s1 r = Some e0 \<and> e_db e0 = e_db e
      \<or> r = root \<and> entry_of s root = None \<and> e_db e = h \<and> e_refs e = 1" if "entry_of s' r = Some e" for r e
    using that cs e1 by (cases "entry_of s root") (auto simp: add_ref_def split: if_splits)
  have dbh: "entry_of s' root = Some e \<Longrightarrow> e_db e = h" for e
    using cs by (cases "entry_of s root") (auto simp: add_ref_def)
  have cnt: "int (card (users ?f r (e_db e))) = e_refs e \<and> (\<exists>e0. True)
      \<or> (\<exists>e0. entry_of s1 r = Some e0 \<and> e_db e0 = e_db e \<and> e_refs e - int (card (users ?f r (e_db e)))
           = e_refs e0 - int (card (users f r (e_db e0))))" if e: "entry_of s' r = Some e" for r e
    using refs [OF e] dbh e add [of r "e_db e"] unew by (auto split: if_splits)
  have ok': "calls_ok s' ?f"
    unfolding calls_ok_def fr
  proof (intro conjI allI impI)
    show "finite {x. ?f x \<noteq> Idle}" by (rule finf)
    have "root \<noteq> ps_workdir s" using ok fc by (auto simp: calls_ok_def)
    then show "entry_of s' (ps_workdir s) = None"
      using cs ok1 fr1 by (cases "entry_of s root") (simp_all add: calls_ok_def)
    show "?f x \<noteq> Resolving (ps_workdir s)" for x using ok by (simp add: calls_ok_def)
    show "owned s' (ps_primary s)" using ow ok1 fr1 by (simp add: calls_ok_def)
    show "ps_extra s r = Some h' \<Longrightarrow> owned s' h'" for r h' using ow ok1 fr1 by (simp add: calls_ok_def)
    show "shared s' r h' \<or> owned s' h' \<and> (r = ps_workdir s \<or> ps_extra s r \<noteq> None)"
      if "?f x = Holding r h'" for x r h'
      using that calls_using [OF ok1, of x r h'] ow sh fr1 by (auto simp: users_in split: if_splits)
    show "shared s' r h'" if "?f x = Releasing r h'" for x r h'
      using that ok1 sh by (auto simp: calls_ok_def split: if_splits)
    show "int (card (users ?f r (e_db e))) \<le> e_refs e" if e: "entry_of s' r = Some e" for r e
      using cnt [OF e] calls_refs [OF ok1] by force
  qed
  moreover have "counts_exact s' ?f"
    unfolding counts_exact_def fr
  proof (intro impI conjI allI ballI)
    assume em: "ps_extra s = Map.empty"
    then have ex1': "\<And>r e. entry_of s1 r = Some e \<Longrightarrow> int (card (users f r (e_db e))) = e_refs e"
      using ex1 fr1 by (auto simp: counts_exact_def)
    show "int (card (users ?f r (e_db e))) = e_refs e" if e: "entry_of s' r = Some e" for r e
      using cnt [OF e] ex1' by force
    show "h' = ps_primary s \<or> (\<exists>r. shared s' r h')" if "h' \<in> ps_open s'" for h'
    proof -
      have "h' = h \<or> h' \<in> ps_open s1" using that cs by (cases "entry_of s root") auto
      then show ?thesis using em ex1 fr1 sh unfolding counts_exact_def by metis
    qed
    show "r = ps_workdir s" if "?f x = Holding r h'" "\<not> shared s' r h'" for x r h'
      using that em ex1 fr1 sh unfolding counts_exact_def by (auto split: if_splits)
  qed
  ultimately show ?thesis by blast
qed


lemma users_idle: "users (f(c := Idle)) r h = users f r h - {c}"
  by (auto simp: users_def)

lemma users_drop:
  assumes "finite {c. f c \<noteq> Idle}" "c \<in> users f r h"
  shows "int (card (users (f(c := Idle)) r' h')) = int (card (users f r' h')) - (if r' = r \<and> h' = h then 1 else 0)"
proof -
  have "c \<in> users f r' h' \<longleftrightarrow> r' = r \<and> h' = h" using assms(2) by (auto simp: users_in)
  moreover have "c \<in> users f r h \<Longrightarrow> 0 < card (users f r h)"
    using finite_users [OF assms(1)] card_gt_0_iff by blast
  ultimately show ?thesis using assms(2) finite_users [OF assms(1)] by (auto simp: users_idle card_Diff_singleton of_nat_diff)
qed

lemma drops_calls:
  assumes d: "drops s root s'" and en: "entries_ok s" and ok: "calls_ok s f" and ex: "counts_exact s f"
    and fc: "f c = Releasing root h"
  shows "calls_ok s' (f(c := Idle)) \<and> counts_exact s' (f(c := Idle))"
proof -
  let ?f = "f(c := Idle)"
  obtain e where er: "entry_of s root = Some e"
    and cs: "entry_of s' = (entry_of s)(root \<mapsto> drop_ref e) \<and> ps_open s' = ps_open s
          \<or> e_refs e = 1 \<and> entry_of s' = (entry_of s)(root := None) \<and> ps_open s' = ps_open s - {e_db e}"
    and fr: "ps_extra s' = ps_extra s" "ps_workdir s' = ps_workdir s" "ps_primary s' = ps_primary s"
    using d unfolding drops_def by blast
  have "shared s root h" using ok fc by (simp add: calls_ok_def)
  then have eh: "e_db e = h" using er by (simp add: shared_def)
  have cin: "c \<in> users f root h" using fc by (simp add: users_in)
  have fin: "finite {c. f c \<noteq> Idle}" using ok by (simp add: calls_ok_def)
  have finf: "finite {x. ?f x \<noteq> Idle}" by (rule finite_subset [OF _ fin]) auto
  note drop = users_drop [OF fin cin]
  have le: "int (card (users f root h)) \<le> e_refs e" using calls_refs [OF ok er] eh by simp
  have sub: "\<exists>e0. entry_of s r = Some e0 \<and> e_db e0 = e_db e'
      \<and> e_refs e' = e_refs e0 - (if r = root then 1 else 0)" if "entry_of s' r = Some e'" for r e'
    using cs
  proof (elim disjE conjE)
    assume "entry_of s' = (entry_of s)(root \<mapsto> drop_ref e)"
    then show ?thesis using er that by (cases "r = root") (auto simp: drop_ref_def)
  next
    assume "entry_of s' = (entry_of s)(root := None)"
    then show ?thesis using that by (cases "r = root") auto
  qed
  have shs: "shared s' r h' \<Longrightarrow> shared s r h'" for r h' using sub unfolding shared_def by blast
  have lost: "\<lbrakk>shared s r h'; \<not> shared s' r h'\<rbrakk> \<Longrightarrow> r = root \<and> h' = h \<and> e_refs e = 1 \<and> ps_open s' = ps_open s - {h}"
    for r h'
    using cs
  proof (elim disjE conjE)
    assume *: "shared s r h'" "\<not> shared s' r h'" and e: "entry_of s' = (entry_of s)(root \<mapsto> drop_ref e)"
    then have "shared s' r h'" using er by (cases "r = root") (auto simp: shared_def drop_ref_def)
    then show ?thesis using *(2) by blast
  next
    assume *: "shared s r h'" "\<not> shared s' r h'" and e: "entry_of s' = (entry_of s)(root := None)"
      "e_refs e = 1" "ps_open s' = ps_open s - {e_db e}"
    then have "r = root" by (auto simp: shared_def split: if_splits)
    then show ?thesis using * e er eh by (auto simp: shared_def)
  qed
  have used: "shared s' r h'" if "x \<in> users ?f r h'" "shared s r h'" for x r h'
  proof (rule ccontr)
    assume "\<not> shared s' r h'"
    then have *: "r = root" "h' = h" "e_refs e = 1" using lost that(2) by blast+
    then have "int (card (users ?f root h)) \<le> 0" using drop [of root h] le by simp
    then have "users ?f root h = {}" using finite_users [OF finf, of root h] by simp
    then show False using that(1) * by blast
  qed
  have ow: "owned s' h'" if "owned s h'" for h'
  proof -
    have "h' \<noteq> h" using that \<open>shared s root h\<close> by (auto simp: owned_def)
    then show ?thesis using that cs shs eh unfolding owned_def by blast
  qed
  have mem: "x \<in> users ?f r h' \<Longrightarrow> x \<in> users f r h'" for x r h' by (simp add: users_idle)
  have cnt: "\<exists>e0. entry_of s r = Some e0 \<and> e_refs e' - int (card (users ?f r (e_db e')))
        = e_refs e0 - int (card (users f r (e_db e0)))" if e: "entry_of s' r = Some e'" for r e'
  proof -
    obtain e0 where e0: "entry_of s r = Some e0" "e_db e0 = e_db e'"
      "e_refs e' = e_refs e0 - (if r = root then 1 else 0)" using sub [OF e] by blast
    then have "r = root \<Longrightarrow> e_db e' = h" using er eh by simp
    then show ?thesis using e0 drop [of r "e_db e'"] by (intro exI [of _ e0]) auto
  qed
  have "calls_ok s' ?f"
    unfolding calls_ok_def fr
  proof (intro conjI allI impI)
    show "finite {x. ?f x \<noteq> Idle}" by (rule finf)
    show "entry_of s' (ps_workdir s) = None"
      using sub [of "ps_workdir s"] ok by (cases "entry_of s' (ps_workdir s)") (auto simp: calls_ok_def)
    show "?f x \<noteq> Resolving (ps_workdir s)" for x using ok by (simp add: calls_ok_def)
    show "owned s' (ps_primary s)" using ow ok by (simp add: calls_ok_def)
    show "ps_extra s r = Some h' \<Longrightarrow> owned s' h'" for r h' using ow ok by (simp add: calls_ok_def)
    show "shared s' r h' \<or> owned s' h' \<and> (r = ps_workdir s \<or> ps_extra s r \<noteq> None)"
      if "?f x = Holding r h'" for x r h'
    proof -
      have "x \<in> users ?f r h'" using that by (simp add: users_in)
      then show ?thesis using used ow calls_using [OF ok mem] by blast
    qed
    show "shared s' r h'" if "?f x = Releasing r h'" for x r h'
    proof -
      have "x \<in> users ?f r h'" using that by (simp add: users_in)
      moreover have "shared s r h'" using that ok by (auto simp: calls_ok_def split: if_splits)
      ultimately show ?thesis using used by blast
    qed
    show "int (card (users ?f r (e_db e'))) \<le> e_refs e'" if e: "entry_of s' r = Some e'" for r e'
      using cnt [OF e] calls_refs [OF ok] by force
  qed
  moreover have "counts_exact s' ?f"
    unfolding counts_exact_def fr
  proof (intro impI conjI allI ballI)
    assume em: "ps_extra s = Map.empty"
    show "int (card (users ?f r (e_db e'))) = e_refs e'" if e: "entry_of s' r = Some e'" for r e'
      using cnt [OF e] ex em unfolding counts_exact_def by force
    show "h' = ps_primary s \<or> (\<exists>r. shared s' r h')" if "h' \<in> ps_open s'" for h'
    proof -
      have "h' \<in> ps_open s" using that cs by auto
      then have "h' = ps_primary s \<or> (\<exists>r. shared s r h')" using ex em by (simp add: counts_exact_def)
      then show ?thesis using lost that by blast
    qed
    show "r = ps_workdir s" if "?f x = Holding r h'" "\<not> shared s' r h'" for x r h'
    proof -
      have "x \<in> users ?f r h'" "f x = Holding r h'" using that(1) by (auto simp: users_in split: if_splits)
      then show ?thesis using used that(2) ex em unfolding counts_exact_def by blast
    qed
  qed
  ultimately show ?thesis by blast
qed

lemma adopts_calls:
  assumes a: "adopts s wd s'" and en: "entries_ok s" and ok: "calls_ok s f" and ex: "counts_exact s f"
  shows "calls_ok s' f \<and> counts_exact s' f"
proof -
  obtain K s1 where K: "frees s K s1" and e': "entry_of s' = entry_of s1"
    and op: "ps_open s' = insert (ps_next s) (ps_open s1)" and x: "ps_extra s' = (ps_extra s)(wd \<mapsto> ps_next s)"
    and fr: "ps_workdir s' = ps_workdir s" "ps_primary s' = ps_primary s"
    using a unfolding adopts_def by blast
  have ok1: "calls_ok s1 f" by (rule frees_calls [OF K ok])
  have fr1: "ps_extra s1 = ps_extra s" "ps_workdir s1 = ps_workdir s" "ps_primary s1 = ps_primary s"
    using K by (simp_all add: frees_def)
  have sh: "shared s' r h \<longleftrightarrow> shared s1 r h" for r h by (simp add: shared_def e')
  have ow: "owned s1 h \<Longrightarrow> owned s' h" for h by (simp add: owned_def sh op)
  have new: "owned s' (ps_next s)"
  proof -
    have "shared s1 r h \<Longrightarrow> shared s r h" for r h using frees_shared [OF K] by blast
    moreover have "shared s r h \<Longrightarrow> h < ps_next s" for r h using en by (auto simp: entries_ok_def shared_def)
    ultimately show ?thesis unfolding owned_def sh op by blast
  qed
  have "calls_ok s' f"
    unfolding calls_ok_def fr e' sh
  proof (intro conjI allI impI)
    show "finite {c. f c \<noteq> Idle}" using ok by (simp add: calls_ok_def)
    show "entry_of s1 (ps_workdir s) = None" using ok1 fr1 by (simp add: calls_ok_def)
    show "f c \<noteq> Resolving (ps_workdir s)" for c using ok by (simp add: calls_ok_def)
    show "owned s' (ps_primary s)" using ow ok1 fr1 by (simp add: calls_ok_def)
    show "ps_extra s' r = Some h \<Longrightarrow> owned s' h" for r h
      using ow new ok1 fr1 by (auto simp: calls_ok_def x split: if_splits)
    show "shared s1 r h \<or> owned s' h \<and> (r = ps_workdir s \<or> ps_extra s' r \<noteq> None)" if "f c = Holding r h" for c r h
      using calls_using [OF ok1, of c r h] that ow fr1 by (auto simp: users_in x)
    show "f c = Releasing r h \<Longrightarrow> shared s1 r h" for c r h using ok1 by (simp add: calls_ok_def)
    show "entry_of s1 r = Some e \<Longrightarrow> int (card (users f r (e_db e))) \<le> e_refs e" for r e
      by (rule calls_refs [OF ok1])
  qed
  moreover have "counts_exact s' f" using x by (auto simp: counts_exact_def)
  ultimately show ?thesis by blast
qed

section \<open>Every interleaving\<close>

definition project_start :: "project_state \<times> (nat \<Rightarrow> call) \<Rightarrow> bool" where
  "project_start = (\<lambda>(s, f). ps_cache s = Map.empty \<and> ps_pending s = Map.empty \<and> ps_lru s = []
     \<and> ps_extra s = Map.empty \<and> ps_open s = {ps_primary s} \<and> ps_primary s < ps_next s \<and> (\<forall>c. f c = Idle))"

definition pool_ok :: "project_state \<times> (nat \<Rightarrow> call) \<Rightarrow> bool" where
  "pool_ok = (\<lambda>(s, f). shape_ok s \<and> entries_ok s \<and> calls_ok s f \<and> counts_exact s f)"

lemma pool_ok_start:
  assumes "project_start (s, f)"
  shows "pool_ok (s, f)"
proof -
  have st: "ps_cache s = Map.empty" "ps_pending s = Map.empty" "ps_lru s = []" "ps_extra s = Map.empty"
    "ps_open s = {ps_primary s}" "ps_primary s < ps_next s" "\<And>c. f c = Idle"
    using assms by (auto simp: project_start_def)
  have e: "entry_of s = Map.empty" using st by (simp add: entry_of_def fun_eq_iff)
  have "shape_ok s" using st by (simp add: shape_ok_def)
  moreover have "entries_ok s" using st by (simp add: entries_ok_def e)
  moreover have "calls_ok s f" using st by (simp add: calls_ok_def e owned_def shared_def)
  moreover have "counts_exact s f" using st by (simp add: counts_exact_def e)
  ultimately show ?thesis by (simp add: pool_ok_def)
qed

text \<open>A call that starts with, or gives back, a database of the server.\<close>

lemma idle_owned:
  assumes "calls_ok s f" "counts_exact s f" "f c = Idle" "owned s h" "r = ps_workdir s \<or> ps_extra s r \<noteq> None"
  shows "calls_ok s (f(c := Holding r h)) \<and> counts_exact s (f(c := Holding r h))"
proof -
  let ?f = "f(c := Holding r h)"
  have fin: "finite {x. ?f x \<noteq> Idle}"
    by (rule finite_subset [of _ "insert c {x. f x \<noteq> Idle}"]) (use assms(1) in \<open>auto simp: calls_ok_def\<close>)
  have ns: "\<not> shared s r h" using assms(4) by (simp add: owned_def)
  have u: "users ?f r' (e_db e) = users f r' (e_db e)" if "entry_of s r' = Some e" for r' e
  proof -
    have "\<not> (r' = r \<and> e_db e = h)" using that ns by (auto simp: shared_def)
    then show ?thesis using assms(3) by (auto simp: users_def)
  qed
  have "calls_ok s ?f"
    using assms(1,4,5) fin u unfolding calls_ok_def by (auto split: if_splits)
  moreover have "counts_exact s ?f"
    using assms(2,5) u unfolding counts_exact_def by (auto split: if_splits)
  ultimately show ?thesis by blast
qed

lemma unused_calls:
  assumes "calls_ok s f" "counts_exact s f" "\<And>r h. shared s r h \<Longrightarrow> users f' r h = users f r h"
    "finite {x. f' x \<noteq> Idle}" "\<And>x r h. x \<in> users f' r h \<Longrightarrow> x \<in> users f r h"
    "\<And>x r h. f' x = Releasing r h \<Longrightarrow> shared s r h" "\<And>x. f' x \<noteq> Resolving (ps_workdir s)"
  shows "calls_ok s f' \<and> counts_exact s f'"
proof -
  have u: "entry_of s r = Some e \<Longrightarrow> users f' r (e_db e) = users f r (e_db e)" for r e
    using assms(3) by (auto simp: shared_def)
  have hold: "f' x = Holding r h \<Longrightarrow> x \<in> users f r h" for x r h using assms(5) by (simp add: users_in)
  have "calls_ok s f'"
    unfolding calls_ok_def
    using assms(1,4,6,7) u calls_using [OF assms(1) hold] by (auto simp: calls_ok_def)
  moreover have "counts_exact s f'"
    unfolding counts_exact_def
  proof (intro impI conjI allI ballI)
    assume em: "ps_extra s = Map.empty"
    show "entry_of s r = Some e \<Longrightarrow> int (card (users f' r (e_db e))) = e_refs e" for r e
      using assms(2) u em by (simp add: counts_exact_def)
    show "h \<in> ps_open s \<Longrightarrow> h = ps_primary s \<or> (\<exists>r. shared s r h)" for h
      using assms(2) em by (simp add: counts_exact_def)
    show "r = ps_workdir s" if "f' x = Holding r h" "\<not> shared s r h" for x r h
      using hold [OF that(1)] that(2) calls_using [OF assms(1)] em by force
  qed
  ultimately show ?thesis by blast
qed

lemma pool_ok_step:
  assumes "project_step (s, f) (s', f')" "pool_ok (s, f)"
  shows "pool_ok (s', f')"
proof -
  have ok: "shape_ok s" "entries_ok s" "calls_ok s f" "counts_exact s f" using assms(2) by (auto simp: pool_ok_def)
  have fin: "finite {x. f x \<noteq> Idle}" using ok(3) by (simp add: calls_ok_def)
  have finu: "finite {x. (f(c := p)) x \<noteq> Idle}" for c p
    by (rule finite_subset [of _ "insert c {x. f x \<noteq> Idle}"]) (use fin in auto)
  from assms(1) show ?thesis
  proof (cases rule: project_step_cases)
    case (resolve_default c)
    have "owned s (ps_primary s)" using ok(3) by (simp add: calls_ok_def)
    then show ?thesis using idle_owned [OF ok(3,4), of c] resolve_default ok by (simp add: pool_ok_def)
  next
    case (resolve_watched c root h)
    have "owned s h" using ok(3) resolve_watched by (simp add: calls_ok_def)
    then show ?thesis using idle_owned [OF ok(3,4), of c h root] resolve_watched ok by (simp add: pool_ok_def)
  next
    case (resolve_begin c root)
    have "calls_ok s f' \<and> counts_exact s f'"
      using resolve_begin finu ok(3)
      by (intro unused_calls [OF ok(3,4)]) (auto simp: users_def calls_ok_def split: if_splits)
    then show ?thesis using ok resolve_begin by (simp add: pool_ok_def)
  next
    case (resolve_locked c root opens r)
    show ?thesis
    proof (cases r)
      case None
      then have s': "s' = init_project_cache s" using acquire_project_fails ok(1) resolve_locked by blast
      have i: "entry_of s' = entry_of s" "ps_open s' = ps_open s" "ps_extra s' = ps_extra s" "ps_workdir s' = ps_workdir s"
        "ps_primary s' = ps_primary s" using ok(1) by (simp_all add: s')
      have "calls_ok s f' \<and> counts_exact s f'"
        using resolve_locked None finu ok(3)
        by (intro unused_calls [OF ok(3,4)]) (auto simp: users_def calls_ok_def split: if_splits)
      then have "calls_ok s' f' \<and> counts_exact s' f'"
        by (simp add: calls_ok_def counts_exact_def owned_def shared_def i)
      then show ?thesis using init_shape init_entries ok s' by (simp add: pool_ok_def)
    next
      case (Some h)
      then have t: "takes s root h s'" "shape_ok s'" "entries_ok s'"
        using acquire_project_ok [OF ok(1,2)] resolve_locked by blast+
      have "calls_ok s' (f(c := Holding root h)) \<and> counts_exact s' (f(c := Holding root h))"
        using takes_calls [OF t(1) ok(2-4)] resolve_locked by blast
      then show ?thesis using resolve_locked Some t by (simp add: pool_ok_def)
    qed
  next
    case (release_owned c root h)
    have f': "f' = f(c := Idle)" and s': "s' = s" using release_owned by simp_all
    have le: "card (users f' r h') \<le> card (users f r h')" for r h'
      unfolding f' users_idle by (rule card_mono [OF finite_users [OF fin]]) auto
    have "calls_ok s f'"
      using ok(3) le finu [of c Idle] unfolding calls_ok_def f'
      by (auto split: if_splits) (meson le of_nat_mono order_trans)
    moreover have "counts_exact s f'"
      unfolding counts_exact_def
    proof (intro impI conjI allI ballI)
      assume em: "ps_extra s = Map.empty"
      then have "root = ps_workdir s" using release_owned by simp
      then have "users f' r (e_db e) = users f r (e_db e)" if "entry_of s r = Some e" for r e
        using that ok(3) release_owned unfolding f' users_idle by (auto simp: users_in calls_ok_def)
      then show "entry_of s r = Some e \<Longrightarrow> int (card (users f' r (e_db e))) = e_refs e" for r e
        using ok(4) em by (simp add: counts_exact_def)
      show "h' \<in> ps_open s \<Longrightarrow> h' = ps_primary s \<or> (\<exists>r. shared s r h')" for h'
        using ok(4) em by (simp add: counts_exact_def)
      show "r = ps_workdir s" if "f' x = Holding r h'" "\<not> shared s r h'" for x r h'
        using that ok(4) em unfolding f' by (auto simp: counts_exact_def split: if_splits)
    qed
    ultimately show ?thesis using ok by (simp add: pool_ok_def s')
  next
    case (release_begin c root h)
    have sh: "shared s root h"
      using calls_using [OF ok(3), of c root h] release_begin by (simp add: users_in)
    have "users f' r h' = users f r h'" for r h'
      using release_begin by (auto simp: users_def)
    then have "calls_ok s f' \<and> counts_exact s f'"
      using release_begin finu sh ok(3)
      by (intro unused_calls [OF ok(3,4)]) (auto simp: calls_ok_def split: if_splits)
    then show ?thesis using ok release_begin by (simp add: pool_ok_def)
  next
    case (release_locked c root h)
    have "shared s root h" using ok(3) release_locked by (simp add: calls_ok_def)
    then obtain e where e: "entry_of s root = Some e" "e_db e = h" by (auto simp: shared_def)
    have "c \<in> users f root h" using release_locked by (simp add: users_in)
    then have "0 < card (users f root h)" using finite_users [OF fin] card_gt_0_iff by blast
    then have "0 < e_refs e" using calls_refs [OF ok(3) e(1)] e(2) by simp
    then have r: "drops s root s'" "shape_ok s'" "entries_ok s'"
      using release_project_ok [OF ok(1,2) e(1)] release_locked by simp_all
    then show ?thesis using drops_calls [OF r(1) ok(2-4)] release_locked by (simp add: pool_ok_def)
  next
    case (adopt wd)
    have a: "adopts s wd (adopt_workdir wd s)" "shape_ok (adopt_workdir wd s)" "entries_ok (adopt_workdir wd s)"
      using adopt_workdir_ok [OF ok(1,2)] by blast+
    then show ?thesis using adopts_calls [OF a(1) ok(2-4)] adopt by (simp add: pool_ok_def)
  qed
qed

lemma pool_ok_reachable:
  assumes "project_step\<^sup>*\<^sup>* c0 c" "project_start c0"
  shows "pool_ok c"
  using assms
proof (induction rule: rtranclp_induct)
  case base
  then show ?case using pool_ok_start by (metis surj_pair)
next
  case (step c1 c2)
  then show ?case using pool_ok_step by (metis surj_pair)
qed

text \<open>
  C28 (\<open>project_db_open_in_use\<close>).  No tool call ever works on a closed database: in every
  interleaving of calls that take and give back project databases, with evictions, failing opens
  and the adoption of watched workdirs in between, the database a call holds is open.
\<close>

theorem project_db_open_in_use:
  assumes "project_start c0" "project_step\<^sup>*\<^sup>* c0 (s, f)" "f c = Holding r h \<or> f c = Releasing r h"
  shows "h \<in> ps_open s"
proof -
  have ok: "pool_ok (s, f)" using pool_ok_reachable assms(1,2) by blast
  then have "shared s r h \<or> owned s h" using calls_using assms(3) by (simp add: pool_ok_def users_in) blast
  then show ?thesis using ok by (auto simp: pool_ok_def owned_def shared_def entries_ok_def)
qed

text \<open>A server with one cache slot, a call that holds one project while another opens a second.\<close>

definition one_slot :: project_state where
  "one_slot = \<lparr>ps_workdir = ''/w'', ps_primary = 0, ps_extra = Map.empty, ps_ready = True, ps_cache = Map.empty,
     ps_lru = [], ps_max = 1, ps_pending = Map.empty, ps_open = {0}, ps_next = 1\<rparr>"

definition one_slot_a :: project_state where
  "one_slot_a = fst (acquire_project True ''/a'' one_slot)"

definition one_slot_ab :: project_state where
  "one_slot_ab = fst (acquire_project True ''/b'' one_slot_a)"

lemma one_slot_a_eq:
  "one_slot_a = one_slot\<lparr>ps_cache := [''/a'' \<mapsto> \<lparr>e_db = 1, e_refs = 1\<rparr>], ps_lru := [''/a''], ps_open := {0, 1}, ps_next := 2\<rparr>"
  "snd (acquire_project True ''/a'' one_slot) = Some 1"
  by (auto simp: one_slot_a_def acquire_project_def init_project_cache_def one_slot_def open_project_def
      evict_for_open_def lru_full_def open_db_def)

lemma one_slot_ab_eq:
  "one_slot_ab = one_slot\<lparr>ps_cache := [''/b'' \<mapsto> \<lparr>e_db = 2, e_refs = 1\<rparr>], ps_lru := [''/b''],
     ps_pending := [''/a'' \<mapsto> \<lparr>e_db = 1, e_refs = 1\<rparr>], ps_open := {0, 1, 2}, ps_next := 3\<rparr>"
  "snd (acquire_project True ''/b'' one_slot_a) = Some 2"
  by (auto simp: one_slot_ab_def one_slot_a_eq acquire_project_def init_project_cache_def one_slot_def open_project_def
      evict_for_open_def lru_full_def open_db_def fun_eq_iff Let_def)

lemma one_slot_run:
  "project_start (one_slot, \<lambda>_. Idle)"
  "project_step\<^sup>*\<^sup>* (one_slot, \<lambda>_. Idle) (one_slot_a, (\<lambda>_. Idle)(0 := Holding ''/a'' 1))"
  "project_step\<^sup>*\<^sup>* (one_slot, \<lambda>_. Idle) (one_slot_ab, (\<lambda>_. Idle)(0 := Holding ''/a'' 1, 1 := Holding ''/b'' 2))"
proof -
  show "project_start (one_slot, \<lambda>_. Idle)" by (simp add: project_start_def one_slot_def)
  let ?f0 = "\<lambda>_. Idle"
  let ?f1 = "?f0(0 := Resolving ''/a'')" let ?f2 = "?f0(0 := Holding ''/a'' 1)"
  have "project_step (one_slot, ?f0) (one_slot, ?f1)" by (rule resolve_begin) (simp_all add: one_slot_def)
  moreover have "project_step (one_slot, ?f1) (one_slot_a, ?f1(0 := (case Some 1 of Some h \<Rightarrow> Holding ''/a'' h | None \<Rightarrow> Idle)))"
    using one_slot_a_eq(2) by (intro resolve_locked [where opens = True]) (simp_all add: one_slot_a_def prod_eq_iff)
  ultimately show a: "project_step\<^sup>*\<^sup>* (one_slot, ?f0) (one_slot_a, ?f2)" by (simp add: fun_upd_upd)
  let ?f3 = "?f2(1 := Resolving ''/b'')"
  have "project_step (one_slot_a, ?f2) (one_slot_a, ?f3)"
    by (rule resolve_begin) (simp_all add: one_slot_a_eq one_slot_def)
  moreover have "project_step (one_slot_a, ?f3) (one_slot_ab, ?f3(1 := (case Some 2 of Some h \<Rightarrow> Holding ''/b'' h | None \<Rightarrow> Idle)))"
    using one_slot_ab_eq(2) by (intro resolve_locked [where opens = True]) (simp_all add: one_slot_ab_def prod_eq_iff)
  ultimately have "project_step\<^sup>*\<^sup>* (one_slot_a, ?f2) (one_slot_ab, ?f3(1 := (case Some 2 of Some h \<Rightarrow> Holding ''/b'' h | None \<Rightarrow> Idle)))"
    by (rule converse_rtranclp_into_rtranclp [OF _ r_into_rtranclp])
  with a show "project_step\<^sup>*\<^sup>* (one_slot, ?f0) (one_slot_ab, ?f2(1 := Holding ''/b'' 2))"
    by (simp add: fun_upd_upd)
qed

theorem project_db_open_in_use_witness:
  "ps_cache one_slot_ab ''/a'' = None \<and> 1 \<in> ps_open one_slot_ab"
  using project_db_open_in_use [OF one_slot_run(1,3), of 0 "''/a''" 1] by (simp add: one_slot_ab_eq)

text \<open>
  The pool stays within its limit and leaks nothing: the cache never
  outgrows \<^verbatim>\<open>ProjectMaxLRU\<close>, an evicted database is open only while a call uses it, and as long as no
  workdir was adopted, once all calls are done the open databases are the primary one and those in
  the cache.
\<close>

theorem project_dbs_bounded:
  assumes "project_start c0" "project_step\<^sup>*\<^sup>* c0 (s, f)"
  shows "(0 < ps_max s \<longrightarrow> int (card (dom (ps_cache s))) \<le> ps_max s)
    \<and> (ps_extra s = Map.empty \<longrightarrow>
        (\<forall>r e. ps_pending s r = Some e \<longrightarrow> users f r (e_db e) \<noteq> {})
        \<and> ((\<forall>c. f c = Idle) \<longrightarrow>
            ps_pending s = Map.empty \<and> ps_open s = insert (ps_primary s) (e_db ` ran (ps_cache s))))"
proof -
  have ok: "shape_ok s" "entries_ok s" "calls_ok s f" "counts_exact s f"
    using pool_ok_reachable [OF assms(2,1)] by (simp_all add: pool_ok_def)
  have lru: "set (ps_lru s) = dom (ps_cache s)" "distinct (ps_lru s)" using ok(1) by (simp_all add: shape_ok_def)
  have "card (dom (ps_cache s)) = length (ps_lru s)" using lru distinct_card by metis
  then have bound: "0 < ps_max s \<longrightarrow> int (card (dom (ps_cache s))) \<le> ps_max s" using ok(1) by (simp add: shape_ok_def)
  have pend: "entry_of s r = Some e" if "ps_pending s r = Some e" for r e
  proof -
    have "r \<notin> dom (ps_cache s)" using that ok(1) by (auto simp: shape_ok_def)
    then show ?thesis using that by (simp add: entry_of_def domIff)
  qed
  have used: "users f r (e_db e) \<noteq> {}" if "ps_extra s = Map.empty" "ps_pending s r = Some e" for r e
  proof -
    have "0 < e_refs e" using ok(2) that(2) by (auto simp: entries_ok_def)
    moreover have "int (card (users f r (e_db e))) = e_refs e"
      using ok(4) that pend by (simp add: counts_exact_def)
    ultimately show ?thesis by force
  qed
  have idle: "ps_pending s = Map.empty \<and> ps_open s = insert (ps_primary s) (e_db ` ran (ps_cache s))"
    if "ps_extra s = Map.empty" "\<forall>c. f c = Idle"
  proof -
    have "users f r h = {}" for r h using that(2) by (simp add: users_def)
    then have np: "ps_pending s = Map.empty" using used that(1) by (intro ext) (metis not_None_eq)
    then have sh: "shared s r h \<Longrightarrow> h \<in> e_db ` ran (ps_cache s)" for r h
      by (auto simp: shared_def entry_of_def ran_def split: option.splits)
    have "\<forall>h\<in>ps_open s. h = ps_primary s \<or> (\<exists>r. shared s r h)" using ok(4) that(1) by (simp add: counts_exact_def)
    then have "ps_open s \<subseteq> insert (ps_primary s) (e_db ` ran (ps_cache s))" using sh by blast
    moreover have "ps_primary s \<in> ps_open s" using ok(3) by (simp add: calls_ok_def owned_def)
    moreover have "e_db ` ran (ps_cache s) \<subseteq> ps_open s"
      using ok(2) entry_of_simps(1) [of s] unfolding ran_def entries_ok_def by blast
    ultimately show ?thesis using np by blast
  qed
  show ?thesis using bound used idle by blast
qed

theorem project_dbs_bounded_witness:
  "int (card (dom (ps_cache one_slot_ab))) \<le> 1
   \<and> users ((\<lambda>_. Idle)(0 := Holding ''/a'' 1, 1 := Holding ''/b'' 2)) ''/a'' 1 \<noteq> {}"
proof -
  have "ps_max one_slot_ab = 1" "ps_extra one_slot_ab = Map.empty"
    "ps_pending one_slot_ab ''/a'' = Some \<lparr>e_db = 1, e_refs = 1\<rparr>"
    by (simp_all add: one_slot_ab_eq one_slot_def)
  with project_dbs_bounded [OF one_slot_run(1,3)] show ?thesis by force
qed

section \<open>A database that is never closed\<close>

text \<open>
  When a workdir is adopted while a call uses its cached database, the release of that call returns
  early, because the root is watched now: the count never falls to zero and the database, a second
  connection to the same index, stays open for good.
\<close>

definition leaked :: "string \<Rightarrow> db_entry \<Rightarrow> project_state \<times> (nat \<Rightarrow> call) \<Rightarrow> bool" where
  "leaked r e = (\<lambda>(s, f). pool_ok (s, f) \<and> ps_extra s r \<noteq> None \<and> entry_of s r = Some e \<and> 0 < e_refs e
     \<and> (\<forall>c h. f c \<noteq> Resolving r \<and> f c \<noteq> Releasing r h))"

lemma leaked_step:
  assumes "project_step (s, f) (s', f')" "leaked r e (s, f)"
  shows "leaked r e (s', f')"
proof -
  have l: "pool_ok (s, f)" "ps_extra s r \<noteq> None" "entry_of s r = Some e" "0 < e_refs e"
    "\<And>c. f c \<noteq> Resolving r" "\<And>c h. f c \<noteq> Releasing r h"
    using assms(2) by (auto simp: leaked_def)
  have ok: "shape_ok s" "entries_ok s" using l(1) by (simp_all add: pool_ok_def)
  have kept: "frees s K s1 \<Longrightarrow> r \<notin> K \<and> entry_of s1 r = Some e" for K s1
    using l(3,4) by (auto simp: frees_def)
  have ok': "pool_ok (s', f')" using pool_ok_step assms(1) l(1) by blast
  from assms(1) have "ps_extra s' r \<noteq> None \<and> entry_of s' r = Some e \<and> (\<forall>c h. f' c \<noteq> Resolving r \<and> f' c \<noteq> Releasing r h)"
  proof (cases rule: project_step_cases)
    case (resolve_locked c root opens x)
    have nr: "root \<noteq> r" using l(5) resolve_locked by blast
    show ?thesis
    proof (cases x)
      case None
      then have "s' = init_project_cache s" using acquire_project_fails ok(1) resolve_locked by blast
      then show ?thesis using l resolve_locked None ok(1) by simp
    next
      case (Some h)
      then have "takes s root h s'" using acquire_project_ok [OF ok] resolve_locked by blast
      then have "entry_of s' r = Some e \<and> ps_extra s' = ps_extra s"
        using kept nr unfolding takes_def by (auto split: option.splits)
      then show ?thesis using l resolve_locked Some by simp
    qed
  next
    case (release_locked c root h)
    have nr: "root \<noteq> r" using l(6) release_locked by blast
    then have "entry_of s' r = Some e" "ps_extra s' = ps_extra s"
      using l(3) release_locked
      by (auto simp: release_project_def entry_of_def close_db_def split: option.splits)
    then show ?thesis using l release_locked by simp
  next
    case (adopt wd)
    have "adopts s wd s'" using adopt_workdir_ok [OF ok, of wd] adopt by simp
    then have "entry_of s' r = Some e \<and> ps_extra s' r \<noteq> None"
      using kept l(2) unfolding adopts_def by auto
    then show ?thesis using l adopt by simp
  qed (use l in auto)
  then show ?thesis using ok' l(4) by (auto simp: leaked_def)
qed

lemma leaked_for_good:
  assumes "project_step\<^sup>*\<^sup>* c0 c" "leaked r e c0"
  shows "leaked r e c"
  using assms
proof (induction rule: rtranclp_induct)
  case (step c1 c2)
  then show ?case using leaked_step by (metis surj_pair)
qed

definition adopted_a :: project_state where
  "adopted_a = adopt_workdir ''/a'' one_slot_a"

lemma adopted_a_eq:
  "adopted_a = one_slot\<lparr>ps_pending := [''/a'' \<mapsto> \<lparr>e_db = 1, e_refs = 1\<rparr>], ps_extra := [''/a'' \<mapsto> 2],
     ps_open := {0, 1, 2}, ps_next := 3\<rparr>"
  by (auto simp: adopted_a_def adopt_workdir_def one_slot_a_eq one_slot_def open_db_def remove_project_lru_def
      fun_eq_iff Let_def)

theorem adopted_in_use_leaks:
  "\<exists>s f. project_step\<^sup>*\<^sup>* (one_slot, \<lambda>_. Idle) (s, f) \<and> (\<forall>c. f c = Idle) \<and> ps_extra s ''/a'' = Some 2
     \<and> (\<forall>s' f'. project_step\<^sup>*\<^sup>* (s, f) (s', f') \<longrightarrow> 1 \<in> ps_open s')"
proof (intro exI [of _ adopted_a] exI [of _ "\<lambda>_. Idle"] conjI allI impI)
  let ?f = "(\<lambda>_. Idle)(0 := Holding ''/a'' 1)"
  have "project_step (one_slot_a, ?f) (adopted_a, ?f)" unfolding adopted_a_def by (rule adopt)
  moreover have "project_step (adopted_a, ?f) (adopted_a, ?f(0 := Idle))"
    by (rule release_owned [of _ _ "''/a''" 1]) (simp_all add: adopted_a_eq)
  ultimately show run: "project_step\<^sup>*\<^sup>* (one_slot, \<lambda>_. Idle) (adopted_a, \<lambda>_. Idle)"
    using one_slot_run(2) by (auto simp: fun_upd_idem)
  show "ps_extra adopted_a ''/a'' = Some 2" by (simp add: adopted_a_eq)
  have "pool_ok (adopted_a, \<lambda>_. Idle)" using pool_ok_reachable run one_slot_run(1) by blast
  then have l: "leaked ''/a'' \<lparr>e_db = 1, e_refs = 1\<rparr> (adopted_a, \<lambda>_. Idle)"
    by (simp add: leaked_def entry_of_def adopted_a_eq one_slot_def)
  show "1 \<in> ps_open s'" if "project_step\<^sup>*\<^sup>* (adopted_a, \<lambda>_. Idle) (s', f')" for s' f'
  proof -
    have "entries_ok s'" "entry_of s' ''/a'' = Some \<lparr>e_db = 1, e_refs = 1\<rparr>"
      using leaked_for_good [OF that l] by (simp_all add: leaked_def pool_ok_def)
    then have "e_db \<lparr>e_db = 1, e_refs = 1\<rparr> \<in> ps_open s'" unfolding entries_ok_def by blast
    then show ?thesis by simp
  qed
qed simp

end
