(* ===== verification/Server_Paths.thy ===== *)
theory Server_Paths
  imports Rg_Globs Symbol_View Project_Cache
begin

text \<open>
  How the server turns the paths of a request into a project and a place inside it
  (\<^verbatim>\<open>server/paths.go\<close>, \<^verbatim>\<open>server/project.go\<close>, \<^verbatim>\<open>db/root.go\<close>): the jail around the workspace root, the
  walk up to the nearest index, the selection of a project by its directory name when the workdir
  is a home directory, and the directories handed to the search tool.
\<close>

section \<open>The environment and the server's state\<close>

text \<open>
  What the code asks of the file system: \<^verbatim>\<open>filepath.EvalSymlinks\<close>, \<^verbatim>\<open>os.Stat\<close> (whether the path is a
  directory, \<^const>\<open>None\<close> on error), \<^verbatim>\<open>os.Lstat\<close> (whether it is a directory and no link) and
  \<^verbatim>\<open>os.ReadDir\<close> (names with \<^verbatim>\<open>IsDir\<close>); \<open>sv_low\<close> and \<open>sv_equal_fold\<close> stand for \<^verbatim>\<open>strings.ToLower\<close>
  and \<^verbatim>\<open>strings.EqualFold\<close>.
\<close>

record server_env =
  sv_walk :: walk_env
  sv_evals :: "string \<Rightarrow> string option"
  sv_stat :: "string \<Rightarrow> bool option"
  sv_lstat_dir :: "string \<Rightarrow> bool"
  sv_read_dir :: "string \<Rightarrow> (string \<times> bool) list option"
  sv_low :: "string \<Rightarrow> string"
  sv_equal_fold :: "string \<Rightarrow> string \<Rightarrow> bool"

record server_state =
  ss_workdirs :: "string list"
  ss_real_roots :: "string \<rightharpoonup> string"
  ss_detect_done :: bool
  ss_detect_dirs :: "string list"
  ss_projects :: project_state

abbreviation ss_workdir :: "server_state \<Rightarrow> string" where
  "ss_workdir s \<equiv> ps_workdir (ss_projects s)"

section \<open>The jail\<close>

definition path_within_real_root :: "string \<Rightarrow> string \<Rightarrow> bool" where
  "path_within_real_root root0 target0 =
     (let root = clean root0; target = clean target0 in
      if root = [] \<or> target = [] then False
      else case filepath_rel root target of
             None \<Rightarrow> False
           | Some rel \<Rightarrow> rel = ''.'' \<or> rel \<noteq> ''..'' \<and> \<not> has_prefix rel ''../'')"

text \<open>The resolved form of a root, remembered from its first use.\<close>

definition real_root :: "server_env \<Rightarrow> server_state \<Rightarrow> string \<Rightarrow> string \<times> server_state" where
  "real_root env s root =
     (case ss_real_roots s root of
        Some rp \<Rightarrow> (rp, s)
      | None \<Rightarrow>
          (let rp = (case sv_evals env root of
                       None \<Rightarrow> clean root
                     | Some r \<Rightarrow> if r = [] then clean root else r)
           in (rp, s\<lparr>ss_real_roots := (ss_real_roots s)(root \<mapsto> rp)\<rparr>)))"

text \<open>\<open>tail\<close> collects the missing segments on the way up.\<close>

function resolve_ancestor_loop :: "(string \<Rightarrow> string option) \<Rightarrow> string \<Rightarrow> string \<Rightarrow> string option" where
  "resolve_ancestor_loop evals cur tail =
     (case evals cur of
        Some r \<Rightarrow> Some (if tail = [] then r else filepath_join [r, tail])
      | None \<Rightarrow>
          (let parent = filepath_dir cur in
           if parent = cur then None
           else resolve_ancestor_loop evals parent (filepath_join [filepath_base cur, tail])))"
  by pat_completeness auto
termination
  by (relation "measure (\<lambda>(evals, cur, tail). path_weight cur)") (auto simp: filepath_dir_smaller)

declare resolve_ancestor_loop.simps [simp del]

definition resolve_existing_ancestor :: "(string \<Rightarrow> string option) \<Rightarrow> string \<Rightarrow> string option" where
  "resolve_existing_ancestor evals path = resolve_ancestor_loop evals path []"

datatype path_error = Outside_workspace | Symlink_escape | Not_found

definition jail_target :: "string \<Rightarrow> string \<Rightarrow> string" where
  "jail_target root p = (if is_abs p then clean p else clean (filepath_join [root, p]))"

definition resolve_path_in ::
    "server_env \<Rightarrow> server_state \<Rightarrow> string \<Rightarrow> string \<Rightarrow> (path_error + string) \<times> server_state" where
  "resolve_path_in env s root p =
     (if p = [] then (Inr root, s)
      else
        (let target = jail_target root p in
         if target = root then (Inr target, s)
         else
           (let (rr, s1) = real_root env s root in
            case (case sv_evals env target of
                    Some t \<Rightarrow> Some t
                  | None \<Rightarrow> resolve_existing_ancestor (sv_evals env) target) of
              None \<Rightarrow> (Inl Outside_workspace, s1)
            | Some t \<Rightarrow>
                if \<not> path_within_real_root rr t then (Inl Symlink_escape, s1)
                else if sv_stat env t = None then (Inl Not_found, s1)
                else (Inr t, s1))))"

text \<open>\<^verbatim>\<open>resolvePath\<close>: the first workdir under which the path resolves.\<close>

fun resolve_path :: "server_env \<Rightarrow> server_state \<Rightarrow> string list \<Rightarrow> string \<Rightarrow> string option \<times> server_state" where
  "resolve_path env s [] p = (None, s)"
| "resolve_path env s (wd # wds) p =
     (case resolve_path_in env s wd p of
        (Inr q, s1) \<Rightarrow> (Some q, s1)
      | (Inl e, s1) \<Rightarrow> resolve_path env s1 wds p)"

text \<open>How roots and paths are shown to clients.\<close>

definition display_root :: "string \<Rightarrow> string \<Rightarrow> string" where
  "display_root workdir root =
     (if workdir \<noteq> [] \<and> clean root \<noteq> clean workdir then
        (case filepath_rel workdir root of
           Some rel \<Rightarrow> if rel \<noteq> ''..'' \<and> \<not> has_prefix rel ''../'' then rel else filepath_base root
         | None \<Rightarrow> filepath_base root)
      else filepath_base root)"

definition display_path :: "string \<Rightarrow> string \<Rightarrow> string" where
  "display_path workdir p =
     (if workdir \<noteq> [] then
        (case filepath_rel workdir p of
           Some rel \<Rightarrow> if rel \<noteq> ''..'' \<and> \<not> has_prefix rel ''../'' then rel else filepath_base p
         | None \<Rightarrow> filepath_base p)
      else filepath_base p)"

section \<open>The nearest index\<close>

definition is_indexed :: "server_env \<Rightarrow> string \<Rightarrow> bool" where
  "is_indexed env dir \<longleftrightarrow> dir \<noteq> [] \<and> sv_lstat_dir env (filepath_join [dir, ''.codegraph''])"

text \<open>
  The directories from the start up to, and without, one of its ancestors.  The second condition
  ends the recursion at a path without a parent; the search never asks for one that is not an
  ancestor.
\<close>

function steps_up :: "string \<Rightarrow> string \<Rightarrow> string list" where
  "steps_up step current =
     (if step = current then []
      else if filepath_dir step = step then [step]
      else step # steps_up (filepath_dir step) current)"
  by pat_completeness auto
termination
  by (relation "measure (\<lambda>(step, current). path_weight step)") (auto simp: filepath_dir_smaller)

declare steps_up.simps [simp del]

function find_root_from :: "server_env \<Rightarrow> string \<Rightarrow> string \<Rightarrow> string option" where
  "find_root_from env start current =
     (if is_indexed env current then
        (if current = start then Some current
         else if list_ex (\<lambda>step. should_skip_dir_in (sv_walk env) current step (filepath_base step))
                   (steps_up start current) then None
         else Some current)
      else
        (let parent = filepath_dir current in
         if parent = current then None else find_root_from env start parent))"
  by pat_completeness auto
termination
  by (relation "measure (\<lambda>(env, start, current). path_weight current)") (auto simp: filepath_dir_smaller)

declare find_root_from.simps [simp del]

definition start_dir :: "server_env \<Rightarrow> string \<Rightarrow> string" where
  "start_dir env start_path =
     (let current = (case filepath_abs (we_cwd (sv_walk env)) start_path of None \<Rightarrow> clean start_path | Some a \<Rightarrow> a)
      in if sv_stat env current = Some False then filepath_dir current else current)"

definition find_nearest_root :: "server_env \<Rightarrow> string \<Rightarrow> string option" where
  "find_nearest_root env start_path =
     (if start_path = [] then None
      else let start = start_dir env start_path in find_root_from env start start)"

section \<open>Projects by name\<close>

text \<open>The project directories below the workdirs, scanned once and kept until a lookup fails.\<close>

definition projects_below :: "server_env \<Rightarrow> string \<Rightarrow> string list" where
  "projects_below env wd =
     (case sv_read_dir env wd of
        None \<Rightarrow> []
      | Some entries \<Rightarrow>
          filter (\<lambda>d. has_project_marker (sv_walk env) d)
            (map (\<lambda>(name, is_dir). filepath_join [wd, name])
              (filter (\<lambda>(name, is_dir). is_dir \<and> \<not> has_prefix name ''.''
                  \<and> \<not> should_skip_dir_in (sv_walk env) wd (filepath_join [wd, name]) name) entries)))"

definition detected_project_dirs :: "server_env \<Rightarrow> server_state \<Rightarrow> string list \<times> server_state" where
  "detected_project_dirs env s =
     (let s1 = (if ss_detect_done s then s
                else s\<lparr>ss_detect_dirs := ss_detect_dirs s @ concat (map (projects_below env) (ss_workdirs s)),
                       ss_detect_done := True\<rparr>)
      in (ss_detect_dirs s1, s1))"

definition reset_detect :: "server_state \<Rightarrow> server_state" where
  "reset_detect s = s\<lparr>ss_detect_done := False, ss_detect_dirs := []\<rparr>"

definition selector :: "server_env \<Rightarrow> string \<Rightarrow> string" where
  "selector env q = trim_right_byte slash (trim_prefix (sv_low env (trim_space q)) ''./'')"

text \<open>The first query, and for it the first directory, that matches.\<close>

fun first_selected :: "(string \<Rightarrow> string \<Rightarrow> bool) \<Rightarrow> string list \<Rightarrow> string list \<Rightarrow> string option" where
  "first_selected sel dirs [] = None"
| "first_selected sel dirs (q # qs) =
     (if q = [] then first_selected sel dirs qs
      else case find (sel q) dirs of
             Some d \<Rightarrow> Some d
           | None \<Rightarrow> first_selected sel dirs qs)"

definition detect_project :: "server_env \<Rightarrow> server_state \<Rightarrow> string list \<Rightarrow> string option \<times> server_state" where
  "detect_project env s queries =
     (if \<not> list_ex (is_broad_workdir (sv_walk env)) (ss_workdirs s) then (None, s)
      else
        (let (dirs, s1) = detected_project_dirs env s;
             qs = map (selector env) queries;
             base = (\<lambda>d. sv_low env (filepath_base d))
         in (case first_selected (\<lambda>q d. base d = q) dirs qs of
               Some d \<Rightarrow> Some d
             | None \<Rightarrow> first_selected (\<lambda>q d. has_prefix q (base d @ ''/'')) dirs qs, s1)))"

definition strip_detected_project_prefix :: "server_env \<Rightarrow> string \<Rightarrow> string \<Rightarrow> string" where
  "strip_detected_project_prefix env path0 project_dir =
     (let path = trim_space path0 in
      if path = [] \<or> project_dir = [] then path
      else
        (let base = filepath_base project_dir;
             slashed = trim_right_byte slash (trim_prefix path ''./'');
             pref = base @ ''/''
         in if sv_equal_fold env slashed base then []
            else if length pref < length slashed \<and> sv_equal_fold env (take (length pref) slashed) pref
            then drop (length pref) slashed
            else path))"

text \<open>\<^verbatim>\<open>adoptDetectedProject\<close>: the project path, the fields to strip, and further selectors.\<close>

definition adopt_detected_project ::
    "server_env \<Rightarrow> server_state \<Rightarrow> string \<Rightarrow> string list \<Rightarrow> string list \<Rightarrow> (string \<times> string list) \<times> server_state" where
  "adopt_detected_project env s project_path strip extra =
     (if trim_space project_path \<noteq> [] then ((project_path, strip), s)
      else case detect_project env s (strip @ extra) of
             (None, s1) \<Rightarrow> ((project_path, strip), s1)
           | (Some found, s1) \<Rightarrow> ((found, map (\<lambda>p. strip_detected_project_prefix env p found) strip), s1))"

section \<open>The project of a call\<close>

fun allowed_under :: "server_env \<Rightarrow> server_state \<Rightarrow> string \<Rightarrow> string list \<Rightarrow> bool \<times> server_state" where
  "allowed_under env s real [] = (False, s)"
| "allowed_under env s real (wd # wds) =
     (let (rr, s1) = real_root env s wd in
      if path_within_real_root rr real then (True, s1) else allowed_under env s1 real wds)"

definition project_root_allowed :: "server_env \<Rightarrow> server_state \<Rightarrow> string \<Rightarrow> bool \<times> server_state" where
  "project_root_allowed env s root =
     allowed_under env s
       (case sv_evals env root of None \<Rightarrow> clean root | Some r \<Rightarrow> if r = [] then clean root else r) (ss_workdirs s)"

datatype project_error = Bad_project_path | No_index | Outside_workdirs | Open_failed

definition resolve_project ::
    "server_env \<Rightarrow> bool \<Rightarrow> server_state \<Rightarrow> string \<Rightarrow> (project_error + string \<times> nat) \<times> server_state" where
  "resolve_project env opens s project_path =
     (if trim_space project_path = [] then (Inr (ss_workdir s, ps_primary (ss_projects s)), s)
      else case filepath_abs (we_cwd (sv_walk env)) project_path of
        None \<Rightarrow> (Inl Bad_project_path, s)
      | Some a \<Rightarrow>
          (case find_nearest_root env a of
             None \<Rightarrow> (Inl No_index, reset_detect s)
           | Some resolved \<Rightarrow>
               (let (ok, s1) = project_root_allowed env s resolved in
                if \<not> ok then (Inl Outside_workdirs, s1)
                else if resolved = ss_workdir s1 then (Inr (ss_workdir s1, ps_primary (ss_projects s1)), s1)
                else case ps_extra (ss_projects s1) resolved of
                       Some h \<Rightarrow> (Inr (resolved, h), s1)
                     | None \<Rightarrow>
                         (case acquire_project opens resolved (ss_projects s1) of
                            (ps, None) \<Rightarrow> (Inl Open_failed, s1\<lparr>ss_projects := ps\<rparr>)
                          | (ps, Some h) \<Rightarrow> (Inr (resolved, h), s1\<lparr>ss_projects := ps\<rparr>)))))"

text \<open>The message of an error that leaves the client a way on becomes a plain answer.\<close>

definition recoverable_project_err :: "string \<Rightarrow> bool" where
  "recoverable_project_err msg \<longleftrightarrow> contains_str msg ''no .codegraph index'' \<or> contains_str msg ''isn't indexed''"

section \<open>Directories for the search tool\<close>

text \<open>\<^verbatim>\<open>rgSearchRoots\<close>: the roots and whether to refuse a search of the whole home.\<close>

definition rg_search_roots ::
    "server_env \<Rightarrow> server_state \<Rightarrow> string \<Rightarrow> string \<Rightarrow> (path_error + string list \<times> bool) \<times> server_state" where
  "rg_search_roots env s proj_root path =
     (if path \<noteq> [] then
        (case resolve_path_in env s proj_root path of
           (Inl e, s1) \<Rightarrow> (Inl e, s1)
         | (Inr r, s1) \<Rightarrow> (Inr ([r], False), s1))
      else if is_broad_workdir (sv_walk env) proj_root then
        (let (dirs, s1) = detected_project_dirs env s in (Inr (dirs, dirs = []), s1))
      else
        (case resolve_path_in env s proj_root [] of
           (Inl e, s1) \<Rightarrow> (Inl e, s1)
         | (Inr r, s1) \<Rightarrow> (Inr ([r], False), s1)))"

definition rg_exclude_pair :: "string \<Rightarrow> string list" where
  "rg_exclude_pair g = [''-g'', ''!'' @ g @ ''/'', ''-g'', ''!'' @ g @ ''/**'']"

definition rg_exclude_args :: "walk_env \<Rightarrow> string \<Rightarrow> bool \<Rightarrow> string list" where
  "rg_exclude_args env root no_ignore =
     (if no_ignore then []
      else concat (map rg_exclude_pair (builtin_skip_globs env root @ concat (map rg_exclude_globs (we_exclude env)))))"

section \<open>What the jail lets through\<close>

lemma not_escaping: "(rel = ''.'' \<or> rel \<noteq> ''..'' \<and> \<not> has_prefix rel ''../'') \<longleftrightarrow> \<not> rel_escapes rel"
  by (auto simp: rel_escapes_def has_prefix_def)

lemma path_within_real_root_iff:
  "path_within_real_root root t \<longleftrightarrow>
     is_abs t = is_abs root \<and> (\<exists>k. path_elems (clean t) = path_elems (clean root) @ k \<and> (k = [] \<or> hd k \<noteq> ''..''))"
  (is "?L \<longleftrightarrow> ?R")
proof
  assume ?L
  then obtain rel where r: "filepath_rel (clean root) (clean t) = Some rel" "\<not> rel_escapes rel"
    unfolding path_within_real_root_def not_escaping by (auto simp: Let_def split: option.splits)
  from filepath_rel_inside [OF r] obtain k where
    "path_elems (clean t) = path_elems (clean root) @ k" "is_abs t = is_abs root" "''..'' \<notin> set (take 1 k)"
    by (metis clean_idem is_abs_clean)
  then show ?R by (intro conjI exI [of _ k]) (cases k, auto)+
next
  assume ?R
  then obtain k where k: "is_abs (clean t) = is_abs (clean root)"
    "path_elems (clean (clean t)) = path_elems (clean (clean root)) @ k" "k = [] \<or> hd k \<noteq> ''..''" by auto
  have "\<forall>s\<in>set k. slash \<notin> set s" using k(2) path_elems_no_slash [of _ "clean (clean t)"] by auto
  then have "\<not> rel_escapes (if k = [] then ''.'' else join_with [slash] k)"
    using join_escapes_hd [of k] k(3) by (auto simp: rel_escapes_def has_prefix_def)
  then show ?L
    using filepath_rel_below [OF k(1,2)] by (simp add: path_within_real_root_def not_escaping Let_def)
qed

text \<open>
  C29 (\<open>resolve_path_jail\<close>).  Exactly the existing places below the workspace pass the jail: a path
  that does not name the root itself is accepted if and only if its resolved form (or, when the path
  does not exist, the resolved form of its deepest existing ancestor followed by the missing
  segments) lies below the resolved root and exists; that form is what the tools get.
\<close>

theorem resolve_path_jail:
  assumes "p \<noteq> []" "jail_target root p \<noteq> root"
  shows "fst (resolve_path_in env s root p) = Inr q \<longleftrightarrow>
    (sv_evals env (jail_target root p) = Some q
      \<or> sv_evals env (jail_target root p) = None
        \<and> resolve_existing_ancestor (sv_evals env) (jail_target root p) = Some q)
    \<and> is_abs q = is_abs (fst (real_root env s root))
    \<and> (\<exists>k. path_elems (clean q) = path_elems (clean (fst (real_root env s root))) @ k \<and> (k = [] \<or> hd k \<noteq> ''..''))
    \<and> sv_stat env q \<noteq> None"
  using assms
  by (cases "sv_evals env (jail_target root p)"; cases "resolve_existing_ancestor (sv_evals env) (jail_target root p)")
    (auto simp: resolve_path_in_def split_beta Let_def path_within_real_root_iff)

definition jail_env :: server_env where
  "jail_env = \<lparr>sv_walk = \<lparr>we_cwd = Some ''/w'', we_home = None, we_exists = (\<lambda>_. False), we_exclude = [], we_home_all = False\<rparr>,
     sv_evals = (\<lambda>p. if p = ''/w/out'' then Some ''/etc'' else if p \<in> {''/w'', ''/w/a.go''} then Some p else None),
     sv_stat = (\<lambda>p. if p \<in> {''/w'', ''/etc'', ''/etc/passwd''} then Some True else if p = ''/w/a.go'' then Some False else None),
     sv_lstat_dir = (\<lambda>p. p = ''/w/.codegraph''), sv_read_dir = (\<lambda>_. None), sv_low = id, sv_equal_fold = (=)\<rparr>"

definition jail_state :: server_state where
  "jail_state = \<lparr>ss_workdirs = [''/w''], ss_real_roots = Map.empty, ss_detect_done = False, ss_detect_dirs = [],
     ss_projects = one_slot\<rparr>"

lemma jail_sample:
  "fst (resolve_path_in jail_env jail_state ''/w'' ''x/../a.go'') = Inr ''/w/a.go''"
  "fst (resolve_path_in jail_env jail_state ''/w'' ''out/passwd'') = Inl Symlink_escape"
  "fst (resolve_path_in jail_env jail_state ''/w'' ''b.go'') = Inl Not_found"
  by (simp_all add: resolve_path_in_def jail_target_def jail_env_def jail_state_def real_root_def
      path_within_real_root_def resolve_existing_ancestor_def resolve_ancestor_loop.simps path_eval str_eval Let_def)

theorem resolve_path_jail_witness:
  "sv_stat jail_env ''/w/a.go'' \<noteq> None \<and> (\<exists>k. path_elems ''/w/a.go'' = path_elems ''/w'' @ k)"
proof -
  have "jail_target ''/w'' ''x/../a.go'' \<noteq> ''/w''" "fst (real_root jail_env jail_state ''/w'') = ''/w''"
    by (simp_all add: jail_target_def jail_env_def jail_state_def real_root_def path_eval str_eval Let_def)
  with resolve_path_jail [of "''x/../a.go''" "''/w''" jail_env jail_state "''/w/a.go''"] jail_sample(1) show ?thesis
    by (auto simp: path_eval str_eval)
qed

text \<open>
  The root itself is handed on as written: neither resolved nor checked to exist, although the
  comment promises a canonical path that exists.
\<close>

theorem root_not_resolved:
  "resolve_path_in env s root [] = (Inr root, s)"
  "jail_target root p = root \<Longrightarrow> resolve_path_in env s root p = (Inr root, s) \<or> p = []"
  by (simp_all add: resolve_path_in_def)

section \<open>What the walk up finds\<close>

lemma steps_up_chain:
  "\<forall>m<n. (filepath_dir ^^ m) start \<noteq> (filepath_dir ^^ n) start \<Longrightarrow>
     steps_up start ((filepath_dir ^^ n) start) = map (\<lambda>m. (filepath_dir ^^ m) start) [0..<n]"
proof (induction n arbitrary: start)
  case (Suc n)
  let ?d = "filepath_dir start"
  have sh: "(filepath_dir ^^ Suc m) start = (filepath_dir ^^ m) ?d" for m by (simp add: funpow_swap1)
  have ne: "start \<noteq> (filepath_dir ^^ n) ?d" using Suc.prems [rule_format, of 0] unfolding sh by simp
  have "?d \<noteq> start"
  proof
    assume "?d = start"
    then have "(filepath_dir ^^ k) start = start" for k by (induction k) auto
    then show False using ne by (metis \<open>filepath_dir start = start\<close>)
  qed
  moreover have "steps_up ?d ((filepath_dir ^^ n) ?d) = map (\<lambda>m. (filepath_dir ^^ m) ?d) [0..<n]"
    using Suc.prems unfolding sh by (intro Suc.IH) (metis Suc_mono sh)
  ultimately have "steps_up start ((filepath_dir ^^ n) ?d) = start # map (\<lambda>m. (filepath_dir ^^ Suc m) start) [0..<n]"
    using ne unfolding sh by (subst steps_up.simps) simp
  then show ?case unfolding sh by (simp add: map_upt_Suc del: upt_Suc funpow.simps) (simp add: funpow_swap1)
qed (simp add: steps_up.simps)

definition skips_between :: "server_env \<Rightarrow> string \<Rightarrow> string \<Rightarrow> bool" where
  "skips_between env r step = should_skip_dir_in (sv_walk env) r step (filepath_base step)"

lemma find_root_from_exact:
  assumes "\<forall>m<k. \<not> is_indexed env ((filepath_dir ^^ m) start)"
  shows "find_root_from env start ((filepath_dir ^^ k) start) = Some r \<longleftrightarrow>
    (\<exists>n. r = (filepath_dir ^^ n) start \<and> is_indexed env r
       \<and> (\<forall>m<n. \<not> is_indexed env ((filepath_dir ^^ m) start) \<and> \<not> skips_between env r ((filepath_dir ^^ m) start)))"
    (is "_ \<longleftrightarrow> (\<exists>n. ?P n)")
  using assms
proof (induction "path_weight ((filepath_dir ^^ k) start)" arbitrary: k rule: less_induct)
  case less
  let ?c = "(filepath_dir ^^ k) start"
  show ?case
  proof (cases "is_indexed env ?c")
    case True
    have "\<forall>m<k. (filepath_dir ^^ m) start \<noteq> ?c" using less.prems True by metis
    then have st: "steps_up start ?c = map (\<lambda>m. (filepath_dir ^^ m) start) [0..<k]" by (rule steps_up_chain)
    have "find_root_from env start ?c = Some r \<longleftrightarrow> r = ?c \<and> (\<forall>m<k. \<not> skips_between env ?c ((filepath_dir ^^ m) start))"
    proof (cases "?c = start")
      case True
      then have "k = 0" using \<open>\<forall>m<k. (filepath_dir ^^ m) start \<noteq> ?c\<close> by (metis funpow_0 not_gr_zero)
      then show ?thesis using \<open>is_indexed env ?c\<close> by (subst find_root_from.simps) auto
    next
      case False
      then show ?thesis
        using True by (subst find_root_from.simps) (auto simp: st list_ex_iff skips_between_def)
    qed
    also have "\<dots> \<longleftrightarrow> (\<exists>n. ?P n)"
    proof
      assume "r = ?c \<and> (\<forall>m<k. \<not> skips_between env ?c ((filepath_dir ^^ m) start))"
      then show "\<exists>n. ?P n" using True less.prems by blast
    next
      assume "\<exists>n. ?P n"
      then obtain n where n: "?P n" by blast
      then have "n = k" using True less.prems by (metis linorder_neqE_nat)
      then show "r = ?c \<and> (\<forall>m<k. \<not> skips_between env ?c ((filepath_dir ^^ m) start))" using n by blast
    qed
    finally show ?thesis .
  next
    case False
    have all: "\<forall>m<Suc k. \<not> is_indexed env ((filepath_dir ^^ m) start)" using False less.prems less_Suc_eq by auto
    show ?thesis
    proof (cases "filepath_dir ?c = ?c")
      case True
      have "(filepath_dir ^^ (k + j)) start = ?c" for j
        by (induction j) (use True in auto)
      then have "\<not> is_indexed env ((filepath_dir ^^ n) start)" for n
        using all False by (metis le_add_diff_inverse linorder_not_less less_Suc_eq)
      then have "\<not> (\<exists>n. ?P n)" by blast
      moreover have "find_root_from env start ?c = None"
        using True False by (subst find_root_from.simps) (simp add: Let_def)
      ultimately show ?thesis by simp
    next
      case parent: False
      have "find_root_from env start ?c = find_root_from env start ((filepath_dir ^^ Suc k) start)"
        using parent False by (subst find_root_from.simps) (simp add: Let_def)
      moreover have "path_weight ((filepath_dir ^^ Suc k) start) < path_weight ?c"
        using filepath_dir_smaller [OF parent] by simp
      ultimately show ?thesis using less.hyps [of "Suc k"] all by simp
    qed
  qed
qed

text \<open>
  C30 (\<open>nearest_root_exact\<close>).  The project of a path is its nearest ancestor with an index, and only
  if the exclusion rules of that ancestor hide none of the directories on the way: an excluded
  subtree never falls through to an index further up.
\<close>

theorem nearest_root_exact:
  assumes "p \<noteq> []"
  shows "find_nearest_root env p = Some r \<longleftrightarrow>
    (\<exists>n. r = (filepath_dir ^^ n) (start_dir env p) \<and> is_indexed env r
       \<and> (\<forall>m<n. \<not> is_indexed env ((filepath_dir ^^ m) (start_dir env p))
            \<and> \<not> skips_between env r ((filepath_dir ^^ m) (start_dir env p))))"
  using find_root_from_exact [of 0 env "start_dir env p" r] assms by (simp add: find_nearest_root_def Let_def)

theorem nearest_root_exact_witness:
  "find_nearest_root jail_env ''/w/pkg/x'' = Some ''/w'' \<and> find_nearest_root jail_env ''/w/vendor/x'' = None"
proof -
  have dirs: "filepath_dir ''/w/pkg/x'' = ''/w/pkg''" "filepath_dir ''/w/pkg'' = ''/w''"
    "filepath_dir ''/w/vendor/x'' = ''/w/vendor''" "filepath_dir ''/w/vendor'' = ''/w''" "filepath_dir ''/w'' = ''/''"
    "filepath_dir ''/'' = ''/''"
    by (simp_all add: path_eval)
  have st: "start_dir jail_env ''/w/pkg/x'' = ''/w/pkg/x''" "start_dir jail_env ''/w/vendor/x'' = ''/w/vendor/x''"
    by (simp_all add: start_dir_def jail_env_def filepath_abs_def path_eval)
  have ix: "is_indexed jail_env d \<longleftrightarrow> d \<noteq> [] \<and> filepath_join [d, ''.codegraph''] = ''/w/.codegraph''" for d
    by (simp add: is_indexed_def jail_env_def)
  have root: "is_indexed jail_env ''/w''" and other: "\<not> is_indexed jail_env ''/w/pkg/x''" "\<not> is_indexed jail_env ''/w/pkg''"
    "\<not> is_indexed jail_env ''/w/vendor/x''" "\<not> is_indexed jail_env ''/w/vendor''" "\<not> is_indexed jail_env ''/''"
    unfolding ix by (simp_all add: path_eval)
  have skip: "\<not> skips_between jail_env ''/w'' ''/w/pkg/x''" "\<not> skips_between jail_env ''/w'' ''/w/pkg''"
    "skips_between jail_env ''/w'' ''/w/vendor''"
    by (simp_all add: skips_between_def jail_env_def should_skip_dir_in_def skip_dir_names_def abs_clean_def
        filepath_abs_def cache_tree_below_def is_go_toolchain_path_def skip_path_fragments_def home_mode_skips_def
        is_broad_workdir_def trim_set_def sublist_Cons_right path_eval str_eval)
  have "find_nearest_root jail_env ''/w/pkg/x'' = Some ''/w''"
    unfolding nearest_root_exact [OF list.distinct(2)] st using root other dirs skip
    by (intro exI [of _ 2]) (auto simp: numeral_2_eq_2 less_Suc_eq)
  moreover have "find_nearest_root jail_env ''/w/vendor/x'' \<noteq> Some r" for r
  proof
    assume "find_nearest_root jail_env ''/w/vendor/x'' = Some r"
    then obtain n where n: "r = (filepath_dir ^^ n) ''/w/vendor/x''" "is_indexed jail_env r"
      "\<forall>m<n. \<not> is_indexed jail_env ((filepath_dir ^^ m) ''/w/vendor/x'')
        \<and> \<not> skips_between jail_env r ((filepath_dir ^^ m) ''/w/vendor/x'')"
      unfolding nearest_root_exact [OF list.distinct(2)] st by blast
    have "n \<noteq> 0" using n(1,2) other(3) by (intro notI) simp
    moreover have "n \<noteq> 1" using n(1,2) other(4) dirs(3) by (intro notI) simp
    moreover have "\<not> 2 < n"
    proof
      assume "2 < n"
      then have "\<not> is_indexed jail_env ((filepath_dir ^^ 2) ''/w/vendor/x'')" using n(3) by blast
      then show False using root dirs by (simp add: numeral_2_eq_2)
    qed
    ultimately have "n = 2" by simp
    then have "r = ''/w''" "\<not> skips_between jail_env r ''/w/vendor''"
      using n(1) n(3) [rule_format, of 1] dirs by (simp_all add: numeral_2_eq_2)
    then show False using skip(3) by simp
  qed
  ultimately show ?thesis by auto
qed

section \<open>The project of a call\<close>

lemma real_root_again: "fst (real_root env (snd (real_root env s a)) b) = fst (real_root env s b)"
  by (simp add: real_root_def Let_def split: option.splits)

lemma real_root_frame [simp]:
  "ss_workdirs (snd (real_root env s a)) = ss_workdirs s" "ss_projects (snd (real_root env s a)) = ss_projects s"
  by (simp_all add: real_root_def Let_def split: option.splits)

lemma allowed_under_cases:
  "allowed_under env s real wds = (ok, s') \<Longrightarrow>
     (ok \<longleftrightarrow> (\<exists>wd\<in>set wds. path_within_real_root (fst (real_root env s wd)) real)) \<and> ss_projects s' = ss_projects s"
proof (induction wds arbitrary: s)
  case (Cons wd wds)
  obtain rr s1 where r: "real_root env s wd = (rr, s1)" by fastforce
  show ?case
  proof (cases "path_within_real_root rr real")
    case True
    then show ?thesis using Cons.prems r real_root_frame(2) [of env s wd] by auto
  next
    case False
    have "fst (real_root env s1 b) = fst (real_root env s b)" for b using real_root_again [of env s wd b] r by simp
    then show ?thesis
      using Cons.IH [of s1] Cons.prems False r real_root_frame(2) [of env s wd] by auto
  qed
qed auto

text \<open>
  A request that names a project gets the nearest index above the
  path it names, and only if that index, with symbolic links resolved, lies below a configured
  workdir; a project that is neither the primary nor a watched one is opened through the cache.
\<close>

theorem resolve_project_allowed:
  assumes "resolve_project env opens s p = (Inr (root, h), s')" "trim_space p \<noteq> []"
  shows "(\<exists>a. filepath_abs (we_cwd (sv_walk env)) p = Some a \<and> find_nearest_root env a = Some root)
    \<and> (\<exists>wd\<in>set (ss_workdirs s). path_within_real_root (fst (real_root env s wd))
           (case sv_evals env root of None \<Rightarrow> clean root | Some r \<Rightarrow> if r = [] then clean root else r))
    \<and> (root \<noteq> ss_workdir s \<and> ps_extra (ss_projects s) root = None
         \<longrightarrow> acquire_project opens root (ss_projects s) = (ss_projects s', Some h))"
proof (cases "filepath_abs (we_cwd (sv_walk env)) p")
  case None
  then show ?thesis using assms by (simp add: resolve_project_def)
next
  case a: (Some a)
  show ?thesis
  proof (cases "find_nearest_root env a")
    case None
    then show ?thesis using assms a by (simp add: resolve_project_def)
  next
    case r: (Some r)
    obtain ok s1 where al: "project_root_allowed env s r = (ok, s1)" by fastforce
    have ok: "ok" using assms a r al by (auto simp: resolve_project_def split: if_splits)
    from allowed_under_cases [OF al [unfolded project_root_allowed_def]]
    have in_wd: "\<exists>wd\<in>set (ss_workdirs s). path_within_real_root (fst (real_root env s wd))
        (case sv_evals env r of None \<Rightarrow> clean r | Some t \<Rightarrow> if t = [] then clean r else t)"
      and ps: "ss_projects s1 = ss_projects s"
      using ok by blast+
    have res: "resolve_project env opens s p =
        (if r = ss_workdir s then (Inr (ss_workdir s, ps_primary (ss_projects s)), s1)
         else case ps_extra (ss_projects s) r of
             Some h \<Rightarrow> (Inr (r, h), s1)
           | None \<Rightarrow> (case acquire_project opens r (ss_projects s) of
                 (ps, None) \<Rightarrow> (Inl Open_failed, s1\<lparr>ss_projects := ps\<rparr>)
               | (ps, Some h) \<Rightarrow> (Inr (r, h), s1\<lparr>ss_projects := ps\<rparr>)))"
      using assms(2) a r al ok unfolding resolve_project_def by (simp add: ps cong: option.case_cong)
    have root: "root = r"
      using assms(1) unfolding res by (auto split: if_splits option.splits prod.splits)
    have "acquire_project opens root (ss_projects s) = (ss_projects s', Some h)"
      if "root \<noteq> ss_workdir s" "ps_extra (ss_projects s) root = None"
      using assms(1) that unfolding res root by (auto split: option.splits prod.splits)
    then show ?thesis using a r in_wd root by blast
  qed
qed

theorem resolve_project_allowed_witness:
  "path_within_real_root (fst (real_root jail_env jail_state ''/w'')) ''/w''"
proof -
  have st: "start_dir jail_env ''/w'' = ''/w''" "filepath_abs (we_cwd (sv_walk jail_env)) ''/w'' = Some ''/w''"
    by (simp_all add: start_dir_def jail_env_def filepath_abs_def path_eval)
  have "is_indexed jail_env ''/w''" by (simp add: is_indexed_def jail_env_def path_eval)
  then have f: "find_nearest_root jail_env ''/w'' = Some ''/w''"
    by (simp add: find_nearest_root_def st find_root_from.simps)
  have al: "fst (project_root_allowed jail_env jail_state ''/w'')"
    by (simp add: project_root_allowed_def jail_env_def jail_state_def real_root_def path_within_real_root_def
        path_eval str_eval Let_def)
  have wd: "ss_workdir jail_state = ''/w''" by (simp add: jail_state_def one_slot_def)
  obtain s1 where s1: "project_root_allowed jail_env jail_state ''/w'' = (True, s1)" using al by (metis fst_conv surj_pair)
  then have "ss_projects s1 = ss_projects jail_state"
    using allowed_under_cases unfolding project_root_allowed_def by blast
  have ts: "trim_space ''/w'' \<noteq> []" by (simp add: str_eval)
  from \<open>ss_projects s1 = ss_projects jail_state\<close>
  have "resolve_project jail_env True jail_state ''/w'' = (Inr (''/w'', ps_primary (ss_projects jail_state)), s1)"
    using f s1 wd st(2) ts by (simp add: resolve_project_def)
  from resolve_project_allowed [OF this ts] show ?thesis
    by (auto simp: jail_state_def jail_env_def)
qed

section \<open>Selecting a project by name\<close>

text \<open>
  Selecting a project by the first segment of a path and stripping that
  segment names the same place: the stripped path below the project is the path below the workdir.
\<close>

theorem strip_same_place:
  assumes wd: "is_abs wd" "clean wd = wd" and b: "plain_seg base" and rest: "rest \<noteq> []" "hd rest \<noteq> slash" "last rest \<noteq> slash"
    and sp: "trim_space (base @ slash # rest) = base @ slash # rest"
    and fold: "\<And>x. sv_equal_fold env x x" "\<not> sv_equal_fold env (base @ slash # rest) base"
    and d: "project = filepath_join [wd, base]"
  shows "filepath_join [project, strip_detected_project_prefix env (base @ slash # rest) project]
    = filepath_join [wd, base @ slash # rest]"
proof -
  have pb: "project = below_path wd [base]"
    using join_below_path [OF wd, of "[]" base] b d below_path_Nil [OF wd] by simp
  have base: "filepath_base project = base" using base_below_path [of base wd "[]"] b pb by simp
  have ne: "project \<noteq> []" "wd \<noteq> []" using wd b unfolding pb by (auto simp: below_path_def render_def is_abs_def)
  have s: "slash \<notin> set base" "base \<noteq> []" "base \<noteq> ''.''" using b by (auto simp: plain_seg_def normal_seg_def)
  let ?p = "base @ slash # rest"
  have np: "\<not> prefix ''./'' ?p" using s by (cases base; cases "tl base") (auto simp: prefix_def)
  have tp: "trim_prefix ?p ''./'' = ?p" using np by (simp add: trim_prefix_def)
  have "trim_right_byte slash ?p = ?p"
    using rest by (cases rest rule: rev_cases) (auto simp: trim_right_byte_def)
  then have st: "strip_detected_project_prefix env ?p project = rest"
    using fold ne(1) sp tp rest(1) base
    by (simp add: strip_detected_project_prefix_def Let_def)
  have el: "path_elems (clean project) = path_elems wd @ [base]"
    using path_elems_below_path [OF wd, of "[base]"] b ne(2) clean_join [of wd base] unfolding d [symmetric] pb by simp
  have "path_elems (clean (filepath_join [project, rest])) = path_elems (clean (filepath_join [wd, ?p]))"
    using ne d wd path_elems_plain [OF b] el
    by (simp add: path_elems_join path_elems_append)
  moreover have "is_abs (filepath_join [project, rest]) = is_abs (filepath_join [wd, ?p])" using ne d by simp
  ultimately have "clean (filepath_join [project, rest]) = clean (filepath_join [wd, ?p])"
    by (intro clean_inj) auto
  then show ?thesis using ne st by simp
qed

text \<open>
  With a doubled slash the stripped path becomes absolute, so the jail looks for it at the root of
  the file system instead of below the project.
\<close>

theorem doubled_slash_made_absolute:
  "strip_detected_project_prefix jail_env ''app//pkg'' ''/w/app'' = ''/pkg''"
  "jail_target ''/w/app'' ''/pkg'' = ''/pkg''" "filepath_join [''/w'', ''app//pkg''] = ''/w/app/pkg''"
  by (simp_all add: strip_detected_project_prefix_def jail_env_def jail_target_def path_eval str_eval)

end
