(* ===== verification/Go_Regexp.thy ===== *)
theory Go_Regexp
  imports Prelude
begin

text \<open>
  Go's package \<^verbatim>\<open>regexp\<close>, as far as the program's patterns need it: the matches of a pattern at a
  place in the order of its preference (an alternative before the next, one more repetition before
  none), of which the package reports the first, at the leftmost place that has one.

  The patterns are read byte by byte.  They only test ASCII bytes and complements of ASCII sets, and a
  complement is always repeated and followed by ASCII or the end of a line, so the bytes of a longer
  rune are taken together as the package takes the rune.
\<close>

section \<open>Classes of bytes\<close>

definition is_alpha :: "char \<Rightarrow> bool" where
  "is_alpha c \<longleftrightarrow> (65 \<le> byte_of c \<and> byte_of c \<le> 90) \<or> (97 \<le> byte_of c \<and> byte_of c \<le> 122)"

definition is_digit_byte :: "char \<Rightarrow> bool" where
  "is_digit_byte c \<longleftrightarrow> 48 \<le> byte_of c \<and> byte_of c \<le> 57"

definition is_word :: "char \<Rightarrow> bool" where
  "is_word c \<longleftrightarrow> is_alpha c \<or> is_digit_byte c \<or> c = CHR ''_''"

definition ident_start :: "char \<Rightarrow> bool" where
  "ident_start c \<longleftrightarrow> is_alpha c \<or> c = CHR ''_''"

definition re_space :: "char \<Rightarrow> bool" where
  "re_space c \<longleftrightarrow> c = CHR 0x09 \<or> c = newline \<or> c = CHR 0x0C \<or> c = CHR 0x0D \<or> c = CHR '' ''"

section \<open>Patterns and their matches\<close>

text \<open>
  \<open>Lazy\<close> is \<^verbatim>\<open>*?\<close>; \<open>Line_start\<close> and \<open>Line_end\<close> are \<^verbatim>\<open>^\<close> and \<^verbatim>\<open>$\<close> under \<^verbatim>\<open>(?m)\<close>, \<open>Text_start\<close> and \<open>Text_end\<close> without it.
\<close>

datatype re =
    Byte "char \<Rightarrow> bool" | Nothing | Then re re | Either re re | Many re | Maybe re | Group nat re
  | Line_start | Line_end | Text_start | Text_end | Word_edge | Lazy re

definition lit :: "string \<Rightarrow> re" where
  "lit s = foldr (\<lambda>c. Then (Byte (\<lambda>x. x = c))) s Nothing"

definition some_of :: "(char \<Rightarrow> bool) \<Rightarrow> re" where
  "some_of P = Then (Byte P) (Many (Byte P))"

definition any_of :: "(char \<Rightarrow> bool) \<Rightarrow> re" where
  "any_of P = Many (Byte P)"

definition word_plus :: re where
  "word_plus = some_of is_word"

definition spaces :: re where
  "spaces = some_of re_space"

definition opt_spaces :: re where
  "opt_spaces = any_of re_space"

definition is_upper_byte :: "char \<Rightarrow> bool" where
  "is_upper_byte c \<longleftrightarrow> 65 \<le> byte_of c \<and> byte_of c \<le> 90"

fun one_of :: "string list \<Rightarrow> re" where
  "one_of [] = Nothing"
| "one_of [s] = lit s"
| "one_of (s # ss) = Either (lit s) (one_of ss)"

definition quote_char :: "char \<Rightarrow> bool" where
  "quote_char c \<longleftrightarrow> c = CHR 0x22 \<or> c = CHR 0x27"

fun seq :: "re list \<Rightarrow> re" where
  "seq [] = Nothing"
| "seq [r] = r"
| "seq (r # rs) = Then r (seq rs)"

text \<open>A place: what is before it, reversed, what is after it, and the groups taken so far.\<close>

type_synonym place = "string \<times> string \<times> (nat \<Rightarrow> string option)"

primrec repeated :: "nat \<Rightarrow> (place \<Rightarrow> place list) \<Rightarrow> place \<Rightarrow> place list" where
  "repeated 0 f p = [p]"
| "repeated (Suc n) f p =
     concat (map (\<lambda>q. if length (fst (snd q)) < length (fst (snd p)) then repeated n f q else []) (f p)) @ [p]"

primrec repeated_lazy :: "nat \<Rightarrow> (place \<Rightarrow> place list) \<Rightarrow> place \<Rightarrow> place list" where
  "repeated_lazy 0 f p = [p]"
| "repeated_lazy (Suc n) f p =
     p # concat (map (\<lambda>q. if length (fst (snd q)) < length (fst (snd p)) then repeated_lazy n f q else []) (f p))"

primrec matches :: "re \<Rightarrow> place \<Rightarrow> place list" where
  "matches (Byte P) = (\<lambda>(b, a, g). case a of [] \<Rightarrow> [] | c # r \<Rightarrow> if P c then [(c # b, r, g)] else [])"
| "matches Nothing = (\<lambda>p. [p])"
| "matches (Then r q) = (\<lambda>p. concat (map (matches q) (matches r p)))"
| "matches (Either r q) = (\<lambda>p. matches r p @ matches q p)"
| "matches (Many r) = (\<lambda>p. repeated (length (fst (snd p))) (matches r) p)"
| "matches (Maybe r) = (\<lambda>p. matches r p @ [p])"
| "matches (Group i r) = (\<lambda>p. map (\<lambda>(b, a, g). (b, a, g(i \<mapsto> take (length (fst (snd p)) - length a) (fst (snd p)))))
     (matches r p))"
| "matches Line_start = (\<lambda>p. if fst p = [] \<or> hd (fst p) = newline then [p] else [])"
| "matches Line_end = (\<lambda>p. if fst (snd p) = [] \<or> hd (fst (snd p)) = newline then [p] else [])"
| "matches Text_start = (\<lambda>p. if fst p = [] then [p] else [])"
| "matches Text_end = (\<lambda>p. if fst (snd p) = [] then [p] else [])"
| "matches Word_edge = (\<lambda>p. if (fst p \<noteq> [] \<and> is_word (hd (fst p))) \<noteq> (fst (snd p) \<noteq> [] \<and> is_word (hd (fst (snd p))))
     then [p] else [])"
| "matches (Lazy r) = (\<lambda>p. repeated_lazy (length (fst (snd p))) (matches r) p)"

definition no_groups :: "nat \<Rightarrow> string option" where
  "no_groups = (\<lambda>_. None)"

text \<open>The leftmost match from a place on: what is before it, and the place where it ends.\<close>

fun find_from :: "re \<Rightarrow> string \<Rightarrow> string \<Rightarrow> (string \<times> place) option" where
  "find_from r b [] = (case matches r (b, [], no_groups) of [] \<Rightarrow> None | p # _ \<Rightarrow> Some (b, p))"
| "find_from r b (c # s) =
     (case matches r (b, c # s, no_groups) of [] \<Rightarrow> find_from r (c # b) s | p # _ \<Rightarrow> Some (b, p))"

text \<open>\<^verbatim>\<open>FindStringSubmatch\<close> (the groups, absent ones empty), \<^verbatim>\<open>MatchString\<close>, \<^verbatim>\<open>FindStringIndex\<close>.\<close>

definition find_submatch :: "re \<Rightarrow> string \<Rightarrow> (nat \<Rightarrow> string) option" where
  "find_submatch r s =
     map_option (\<lambda>(_, _, _, g) i. case g i of None \<Rightarrow> [] | Some x \<Rightarrow> x) (find_from r [] s)"

definition match_string :: "re \<Rightarrow> string \<Rightarrow> bool" where
  "match_string r s \<longleftrightarrow> find_from r [] s \<noteq> None"

definition find_index :: "re \<Rightarrow> string \<Rightarrow> (nat \<times> nat) option" where
  "find_index r s = map_option (\<lambda>(b, _, a, _). (length b, length s - length a)) (find_from r [] s)"

text \<open>\<^verbatim>\<open>ReplaceAllString\<close> with one group in the place of every match; the pattern never matches nothing.\<close>

function replace_all :: "re \<Rightarrow> nat \<Rightarrow> string \<Rightarrow> string \<Rightarrow> string" where
  "replace_all r i b [] = []"
| "replace_all r i b (c # s) =
     (case matches r (b, c # s, no_groups) of
        (b', a, g) # _ \<Rightarrow>
          if length a < length (c # s) then (case g i of None \<Rightarrow> [] | Some x \<Rightarrow> x) @ replace_all r i b' a
          else c # replace_all r i (c # b) s
      | [] \<Rightarrow> c # replace_all r i (c # b) s)"
  by pat_completeness auto
termination by (relation "measure (\<lambda>(r, i, b, s). length s)") auto

declare replace_all.simps(2) [simp del]

text \<open>\<^verbatim>\<open>FindAllStringSubmatch\<close>: the matches one after the other, each with what is before it; the patterns never match nothing.\<close>

function find_all :: "re \<Rightarrow> string \<Rightarrow> string \<Rightarrow> (string \<times> place) list" where
  "find_all r b s =
     (case find_from r b s of
        None \<Rightarrow> []
      | Some (b0, b', a, g) \<Rightarrow> if length a < length s then (b0, b', a, g) # find_all r b' a else [])"
  by pat_completeness auto
termination by (relation "measure (\<lambda>(r, b, s). length s)") auto

declare find_all.simps [simp del]

definition group_text :: "string \<times> place \<Rightarrow> nat \<Rightarrow> string" where
  "group_text m i = (case m of (b0, b', a, g) \<Rightarrow> (case g i of None \<Rightarrow> [] | Some x \<Rightarrow> x))"

text \<open>Where a match begins, and its text.\<close>

definition match_begin :: "string \<times> place \<Rightarrow> nat" where
  "match_begin m = length (fst m)"

definition match_text :: "string \<times> place \<Rightarrow> string" where
  "match_text m = (case m of (b0, b', a, g) \<Rightarrow> drop (length b0) (rev b'))"

section \<open>Greedy repetition of a class\<close>

text \<open>What a repeated class can take at a place: any number of its leading bytes, more before less.\<close>

definition taken :: "nat \<Rightarrow> place \<Rightarrow> place" where
  "taken n p = (case p of (b, a, g) \<Rightarrow> (rev (take n a) @ b, drop n a, g))"

definition run_length :: "(char \<Rightarrow> bool) \<Rightarrow> string \<Rightarrow> nat" where
  "run_length P s = length (takeWhile P s)"

lemma run_length_Cons [simp]: "run_length P (c # s) = (if P c then Suc (run_length P s) else 0)"
  by (simp add: run_length_def)

lemma run_length_Nil [simp]: "run_length P [] = 0"
  by (simp add: run_length_def)

lemma run_length_le: "run_length P s \<le> length s"
  by (simp add: run_length_def length_takeWhile_le)

lemma taken_0 [simp]: "taken 0 p = p"
  by (cases p) (simp add: taken_def)

lemma taken_Suc: "taken (Suc n) (b, c # a, g) = taken n (c # b, a, g)"
  by (simp add: taken_def)

lemma repeated_class:
  assumes "length a \<le> n"
  shows "repeated n (matches (Byte P)) (b, a, g) = map (\<lambda>k. taken k (b, a, g)) (rev [0..<Suc (run_length P a)])"
  using assms
proof (induction a arbitrary: n b)
  case Nil
  then show ?case by (cases n) (auto simp: taken_def)
next
  case (Cons c a)
  then obtain m where m: "n = Suc m" "length a \<le> m" by (cases n) auto
  have up: "[0..<Suc (Suc k)] = 0 # map Suc [0..<Suc k]" for k by (simp add: upt_conv_Cons map_Suc_upt del: upt_Suc)
  show ?case
  proof (cases "P c")
    case True
    have "map (\<lambda>k. taken k (b, c # a, g)) (rev [0..<Suc (Suc (run_length P a))])
        = map (\<lambda>k. taken k (c # b, a, g)) (rev [0..<Suc (run_length P a)]) @ [(b, c # a, g)]"
      unfolding up by (simp add: rev_map taken_Suc comp_def del: upt_Suc)
    then show ?thesis using True Cons.IH [OF m(2), of "c # b"] by (simp add: m(1) del: upt_Suc)
  next
    case False
    then show ?thesis by (simp add: m(1))
  qed
qed

lemma matches_any_of:
  "matches (any_of P) (b, a, g) = map (\<lambda>k. taken k (b, a, g)) (rev [0..<Suc (run_length P a)])"
  using repeated_class [of a "length a" P b g] unfolding any_of_def by (simp only: matches.simps(5) fst_conv snd_conv order.refl)

lemma matches_some_of:
  "matches (some_of P) (b, a, g) = map (\<lambda>k. taken k (b, a, g)) (rev [1..<Suc (run_length P a)])"
proof (cases a)
  case (Cons c r)
  have up: "[1..<Suc (Suc k)] = map Suc [0..<Suc k]" for k by (simp add: map_Suc_upt del: upt_Suc)
  show ?thesis
  proof (cases "P c")
    case True
    have "map (\<lambda>k. taken k (b, c # r, g)) (rev [1..<Suc (Suc (run_length P r))])
        = map (\<lambda>k. taken k (c # b, r, g)) (rev [0..<Suc (run_length P r)])"
      unfolding up by (simp add: rev_map taken_Suc comp_def del: upt_Suc)
    moreover have "matches (some_of P) (b, a, g) = matches (any_of P) (c # b, r, g)"
      using True by (simp add: Cons some_of_def any_of_def)
    ultimately show ?thesis using True by (simp only: Cons matches_any_of run_length_Cons if_True)
  qed (simp add: Cons some_of_def)
qed (simp add: some_of_def)

lemma concat_filter: "concat (map (\<lambda>p. if Q p then [p] else []) ps) = filter Q ps"
  by (induction ps) auto

lemma matches_seq: "rs \<noteq> [] \<Longrightarrow> matches (seq (r # rs)) p = concat (map (matches (seq rs)) (matches r p))"
  by (cases rs) auto

lemma matches_lit:
  "matches (lit s) (b, a, g) = (if prefix s a then [taken (length s) (b, a, g)] else [])"
proof (induction s arbitrary: a b)
  case Nil
  then show ?case by (simp add: lit_def taken_def)
next
  case (Cons c s)
  show ?case
  proof (cases a)
    case (Cons d r)
    have "lit (c # s) = Then (Byte (\<lambda>x. x = c)) (lit s)" by (simp add: lit_def)
    then show ?thesis using Cons.IH [of "c # b" r] by (auto simp: Cons taken_Suc)
  qed (simp add: lit_def)
qed

text \<open>
  When what follows a repeated class can only match after all of it, only the longest repetition
  counts.
\<close>

lemma concat_map_last:
  assumes "\<forall>k\<in>set [m..<n]. f k = []" "m \<le> n"
  shows "concat (map f (rev [m..<Suc n])) = f n"
proof -
  have "concat (map f (rev [m..<n])) = []" using assms(1) by simp
  then show ?thesis using assms(2) by simp
qed

lemma seq_any_of_longest:
  assumes "rs \<noteq> []" "\<forall>k<run_length P a. matches (seq rs) (taken k (b, a, g)) = []"
  shows "matches (seq (any_of P # rs)) (b, a, g) = matches (seq rs) (taken (run_length P a) (b, a, g))"
proof -
  have "\<forall>k\<in>set [0..<run_length P a]. matches (seq rs) (taken k (b, a, g)) = []" using assms(2) by simp
  from concat_map_last [OF this] show ?thesis
    unfolding matches_seq [OF assms(1)] matches_any_of by (simp add: comp_def del: upt_Suc)
qed

text \<open>What follows takes none of the class at its start.\<close>

definition stops :: "(char \<Rightarrow> bool) \<Rightarrow> re \<Rightarrow> bool" where
  "stops P r \<longleftrightarrow> (\<forall>c b a g. P c \<longrightarrow> matches r (b, c # a, g) = [])"

lemma taken_inside:
  assumes "k < run_length P a"
  shows "\<exists>c r b'. P c \<and> taken k (b, a, g) = (b', c # r, g)"
proof -
  have "k < length (takeWhile P a)" using assms by (simp add: run_length_def)
  then have "P (a ! k)" "k < length a"
    using nth_mem takeWhile_nth set_takeWhileD length_takeWhile_le by (metis, metis less_le_trans)
  then show ?thesis by (auto simp: taken_def Cons_nth_drop_Suc [symmetric])
qed

lemma stops_inside: "stops P r \<Longrightarrow> k < run_length P a \<Longrightarrow> matches r (taken k (b, a, g)) = []"
  using taken_inside [of k P a b g] by (auto simp: stops_def)

lemma seq_any_of_stops:
  "rs \<noteq> [] \<Longrightarrow> stops P (seq rs) \<Longrightarrow>
     matches (seq (any_of P # rs)) (b, a, g) = matches (seq rs) (taken (run_length P a) (b, a, g))"
  by (rule seq_any_of_longest) (auto simp: stops_inside)

lemma seq_some_of_longest:
  assumes "rs \<noteq> []" "\<forall>k<run_length P a. 0 < k \<longrightarrow> matches (seq rs) (taken k (b, a, g)) = []"
  shows "matches (seq (some_of P # rs)) (b, a, g)
    = (if run_length P a = 0 then [] else matches (seq rs) (taken (run_length P a) (b, a, g)))"
proof (cases "run_length P a = 0")
  case False
  have "\<forall>k\<in>set [1..<run_length P a]. matches (seq rs) (taken k (b, a, g)) = []" using assms(2) by simp
  from concat_map_last [OF this] False show ?thesis
    unfolding matches_seq [OF assms(1)] matches_some_of by (simp add: comp_def del: upt_Suc)
qed (simp add: matches_seq [OF assms(1)] matches_some_of)

lemma seq_some_of_stops:
  "rs \<noteq> [] \<Longrightarrow> stops P (seq rs) \<Longrightarrow> matches (seq (some_of P # rs)) (b, a, g)
     = (if run_length P a = 0 then [] else matches (seq rs) (taken (run_length P a) (b, a, g)))"
  by (rule seq_some_of_longest) (auto simp: stops_inside)

lemma seq_lit:
  "rs \<noteq> [] \<Longrightarrow> matches (seq (lit s # rs)) (b, a, g)
     = (if prefix s a then matches (seq rs) (taken (length s) (b, a, g)) else [])"
  by (simp add: matches_seq matches_lit)

text \<open>A group around a repeated class keeps what the class took.\<close>

definition keep_group :: "nat \<Rightarrow> string \<Rightarrow> place \<Rightarrow> place" where
  "keep_group i x p = (case p of (b, a, g) \<Rightarrow> (b, a, g(i \<mapsto> x)))"

lemma matches_group_some_of:
  "matches (Group i (some_of P)) (b, a, g)
     = map (\<lambda>k. keep_group i (take k a) (taken k (b, a, g))) (rev [1..<Suc (run_length P a)])"
proof -
  have "k \<le> length a" if "k \<in> set [1..<Suc (run_length P a)]" for k
    using that run_length_le [of P a] by (simp del: upt_Suc)
  then show ?thesis
    by (simp add: matches_some_of keep_group_def taken_def comp_def split_beta del: upt_Suc)
qed

lemma seq_group_longest:
  assumes "rs \<noteq> []" "\<forall>k<run_length P a. 0 < k \<longrightarrow> matches (seq rs) (keep_group i (take k a) (taken k (b, a, g))) = []"
  shows "matches (seq (Group i (some_of P) # rs)) (b, a, g)
    = (if run_length P a = 0 then []
       else matches (seq rs) (keep_group i (take (run_length P a) a) (taken (run_length P a) (b, a, g))))"
proof (cases "run_length P a = 0")
  case False
  have "\<forall>k\<in>set [1..<run_length P a]. matches (seq rs) (keep_group i (take k a) (taken k (b, a, g))) = []"
    using assms(2) by simp
  from concat_map_last [OF this] False show ?thesis
    unfolding matches_seq [OF assms(1)] matches_group_some_of by (simp add: comp_def del: upt_Suc)
qed (simp add: matches_seq [OF assms(1)] matches_group_some_of del: matches.simps(7))

text \<open>The first of the preferences, when the longest repetition leads to a match.\<close>

lemma hd_concat_map_rev:
  "f n \<noteq> [] \<Longrightarrow> m \<le> n \<Longrightarrow> \<exists>t. concat (map f (rev [m..<Suc n])) = hd (f n) # t"
  by (cases "f n") simp_all

lemma first_of_group:
  assumes "rs \<noteq> []" "run_length P a \<noteq> 0"
    and "matches (seq rs) (keep_group i (take (run_length P a) a) (taken (run_length P a) (b, a, g))) = p # ps"
  shows "\<exists>t. matches (seq (Group i (some_of P) # rs)) (b, a, g) = p # t"
proof -
  let ?f = "\<lambda>k. matches (seq rs) (keep_group i (take k a) (taken k (b, a, g)))"
  have "\<exists>t. concat (map ?f (rev [1..<Suc (run_length P a)])) = hd (?f (run_length P a)) # t"
    by (rule hd_concat_map_rev) (use assms in auto)
  then show ?thesis unfolding matches_seq [OF assms(1)] matches_group_some_of
    by (simp add: comp_def assms(3) del: upt_Suc)
qed

lemma first_of_any:
  assumes "rs \<noteq> []" "matches (seq rs) (taken (run_length P a) (b, a, g)) = p # ps"
  shows "\<exists>t. matches (seq (any_of P # rs)) (b, a, g) = p # t"
proof -
  let ?f = "\<lambda>k. matches (seq rs) (taken k (b, a, g))"
  have "\<exists>t. concat (map ?f (rev [0..<Suc (run_length P a)])) = hd (?f (run_length P a)) # t"
    by (rule hd_concat_map_rev) (use assms in auto)
  then show ?thesis unfolding matches_seq [OF assms(1)] matches_any_of
    by (simp add: comp_def assms(2) del: upt_Suc)
qed

end
