(* ===== verification/Line_Scan.thy ===== *)
theory Line_Scan
  imports Go_Runes Go_Regexp
begin

text \<open>
  Reading source text without a parser (\<^verbatim>\<open>server/textutil.go\<close>, the scanners of
  \<^verbatim>\<open>server/callees_fallback.go\<close>): blanking strings and comments of a line, finding the calls on it,
  and finding where the body of a definition ends, by braces or by indentation.
\<close>

section \<open>Blanking strings and comments\<close>

abbreviation blank :: char where "blank \<equiv> CHR '' ''"
abbreviation dquote :: char where "dquote \<equiv> CHR 0x22"
abbreviation squote :: char where "squote \<equiv> CHR 0x27"
abbreviation backquote :: char where "backquote \<equiv> CHR 0x60"
abbreviation star :: char where "star \<equiv> CHR ''*''"

definition is_quote :: "char \<Rightarrow> bool" where
  "is_quote c \<longleftrightarrow> c = dquote \<or> c = squote \<or> c = backquote"

text \<open>
  The inner loop over a block comment, from the star that opens it: what it writes and where the
  outer loop goes on.  The star of the opening is looked at again.
\<close>

fun block_comment :: "string \<Rightarrow> string \<times> string" where
  "block_comment (a # b # r) =
     (if a = star \<and> b = slash then ([blank, blank], r)
      else (let (w, r') = block_comment (b # r) in (blank # w, r')))"
| "block_comment r = ([], [])"

lemma block_comment_shorter: "length (snd (block_comment r)) \<le> length r"
  by (induction r rule: block_comment.induct) (auto simp: split_beta)

lemma block_comment_less: "r \<noteq> [] \<Longrightarrow> length (snd (block_comment r)) < length r"
  using block_comment_shorter by (induction r rule: block_comment.induct) (auto simp: split_beta)

text \<open>
  The state is \<open>inString\<close>, \<open>stringChar\<close> (zero inside a block comment) and \<open>skip\<close>; the argument
  is the rest of the line.
\<close>

function strip_from :: "bool \<Rightarrow> char \<Rightarrow> bool \<Rightarrow> string \<Rightarrow> string" where
  "strip_from ins sc skip [] = []"
| "strip_from ins sc skip (ch # r) =
     (if skip then blank # strip_from ins sc False r
      else if \<not> ins \<and> ch = slash \<and> r \<noteq> [] \<and> hd r = slash then replicate (length (ch # r)) blank
      else if \<not> ins \<and> ch = slash \<and> r \<noteq> [] \<and> hd r = star then
        (let (w, r') = block_comment r in blank # blank # w @ strip_from ins sc False r')
      else if ins then
        (if sc = CHR 0x00 then
           (if ch = star \<and> r \<noteq> [] \<and> hd r = slash then blank # blank # strip_from False sc False (tl r)
            else blank # strip_from ins sc False r)
         else if ch = backslash then
           (if sc \<noteq> backquote then blank # strip_from ins sc True r
            else blank # blank # strip_from ins sc False r)
         else if ch = sc then blank # strip_from False sc False r
         else blank # strip_from ins sc False r)
      else if is_quote ch then
        (if ch \<noteq> backquote \<and> 2 \<le> length r \<and> r ! 0 = ch \<and> r ! 1 = ch then replicate (length (ch # r)) blank
         else blank # strip_from True ch False r)
      else ch # strip_from ins sc False r)"
  by pat_completeness auto
termination
  using block_comment_shorter
  by (relation "measure (\<lambda>(ins, sc, skip, r). length r)") (auto simp: less_Suc_eq_le prod_eq_iff)

declare strip_from.simps(2) [simp del]

text \<open>One equation for each branch of the loop.\<close>

lemma strip_branch:
  "skip \<Longrightarrow> strip_from ins sc skip (ch # r) = blank # strip_from ins sc False r"
  "\<not> skip \<Longrightarrow> \<not> ins \<Longrightarrow> ch = slash \<Longrightarrow> r \<noteq> [] \<Longrightarrow> hd r = slash \<Longrightarrow>
     strip_from ins sc skip (ch # r) = blank # replicate (length r) blank"
  "\<not> skip \<Longrightarrow> \<not> ins \<Longrightarrow> ch = slash \<Longrightarrow> r \<noteq> [] \<Longrightarrow> hd r = star \<Longrightarrow> block_comment r = (w, r') \<Longrightarrow>
     strip_from ins sc skip (ch # r) = blank # blank # w @ strip_from ins sc False r'"
  "\<not> skip \<Longrightarrow> ins \<Longrightarrow> sc = CHR 0x00 \<Longrightarrow> ch = star \<Longrightarrow> r \<noteq> [] \<Longrightarrow> hd r = slash \<Longrightarrow>
     strip_from ins sc skip (ch # r) = blank # blank # strip_from False sc False (tl r)"
  "\<not> skip \<Longrightarrow> ins \<Longrightarrow> sc = CHR 0x00 \<Longrightarrow> \<not> (ch = star \<and> r \<noteq> [] \<and> hd r = slash) \<Longrightarrow>
     strip_from ins sc skip (ch # r) = blank # strip_from ins sc False r"
  "\<not> skip \<Longrightarrow> ins \<Longrightarrow> sc \<noteq> CHR 0x00 \<Longrightarrow> ch = backslash \<Longrightarrow> sc \<noteq> backquote \<Longrightarrow>
     strip_from ins sc skip (ch # r) = blank # strip_from ins sc True r"
  "\<not> skip \<Longrightarrow> ins \<Longrightarrow> ch = backslash \<Longrightarrow> sc = backquote \<Longrightarrow>
     strip_from ins sc skip (ch # r) = blank # blank # strip_from ins sc False r"
  "\<not> skip \<Longrightarrow> ins \<Longrightarrow> sc \<noteq> CHR 0x00 \<Longrightarrow> ch \<noteq> backslash \<Longrightarrow>
     strip_from ins sc skip (ch # r) = blank # strip_from (ch \<noteq> sc) sc False r"
  "\<not> skip \<Longrightarrow> \<not> ins \<Longrightarrow> is_quote ch \<Longrightarrow> ch \<noteq> backquote \<Longrightarrow> 2 \<le> length r \<Longrightarrow> r ! 0 = ch \<Longrightarrow> r ! 1 = ch \<Longrightarrow>
     strip_from ins sc skip (ch # r) = blank # replicate (length r) blank"
  "\<not> skip \<Longrightarrow> \<not> ins \<Longrightarrow> is_quote ch \<Longrightarrow> \<not> (ch \<noteq> backquote \<and> 2 \<le> length r \<and> r ! 0 = ch \<and> r ! 1 = ch) \<Longrightarrow>
     strip_from ins sc skip (ch # r) = blank # strip_from True ch False r"
  "\<not> skip \<Longrightarrow> \<not> ins \<Longrightarrow> \<not> is_quote ch \<Longrightarrow> \<not> (ch = slash \<and> r \<noteq> [] \<and> (hd r = slash \<or> hd r = star)) \<Longrightarrow>
     strip_from ins sc skip (ch # r) = ch # strip_from ins sc False r"
  by (subst strip_from.simps; force simp: is_quote_def)+

definition strip_strings_and_comments :: "string \<Rightarrow> string" where
  "strip_strings_and_comments line = strip_from False (CHR 0x00) False line"

definition count_leading_spaces :: "string \<Rightarrow> nat" where
  "count_leading_spaces line = length (takeWhile (\<lambda>c. c = blank \<or> c = CHR 0x09) line)"

section \<open>Calls on a line\<close>

text \<open>
  The matches of \<^verbatim>\<open>\b([a-zA-Z_]\w*)\s*\(\<close>, by the semantics of package \<^verbatim>\<open>regexp\<close>: from left to right
  and without overlap; the word boundary asks whether the byte before is a word character.  The two
  repetitions are greedy, and no shorter choice can match, since what follows a word is no word
  character and what follows the spaces is no space.
\<close>

definition call_at :: "bool \<Rightarrow> string \<Rightarrow> (string \<times> string) option" where
  "call_at after_word s =
     (case s of
        [] \<Rightarrow> None
      | c # cs \<Rightarrow>
          if after_word \<or> \<not> ident_start c then None
          else (case dropWhile re_space (dropWhile is_word s) of
                  p # t \<Rightarrow> if p = CHR ''('' then Some (takeWhile is_word s, t) else None
                | [] \<Rightarrow> None))"

lemma call_at_shorter: "call_at aw s = Some (w, t) \<Longrightarrow> length t < length s"
proof -
  assume "call_at aw s = Some (w, t)"
  then obtain p where "dropWhile re_space (dropWhile is_word s) = p # t"
    by (auto simp: call_at_def split: list.splits if_splits)
  then have "length t < length (dropWhile re_space (dropWhile is_word s))" by simp
  also have "\<dots> \<le> length s" using length_dropWhile_le [of re_space "dropWhile is_word s"] length_dropWhile_le [of is_word s] by simp
  finally show ?thesis .
qed

function find_calls :: "bool \<Rightarrow> string \<Rightarrow> string list" where
  "find_calls after_word [] = []"
| "find_calls after_word (c # cs) =
     (case call_at after_word (c # cs) of
        Some (w, t) \<Rightarrow> w # find_calls False t
      | None \<Rightarrow> find_calls (is_word c) cs)"
  by pat_completeness auto
termination
  by (relation "measure (\<lambda>(aw, s). length s)") (auto dest: call_at_shorter)

definition calls_on :: "string \<Rightarrow> string list" where
  "calls_on line = find_calls False (strip_strings_and_comments line)"

section \<open>The end of a body in braces\<close>

text \<open>
  One line of the brace counter, which has its own reading of strings and comments: the count and
  whether an opening brace has been seen.
\<close>

function brace_line :: "bool \<Rightarrow> char \<Rightarrow> bool \<Rightarrow> string \<Rightarrow> int \<times> bool \<Rightarrow> int \<times> bool" where
  "brace_line ins sc skip [] acc = acc"
| "brace_line ins sc skip (ch # r) acc =
     (if skip then brace_line ins sc False r acc
      else if \<not> ins \<and> ch = slash \<and> r \<noteq> [] \<and> hd r = slash then acc
      else if \<not> ins \<and> ch = slash \<and> r \<noteq> [] \<and> hd r = star then brace_line True (CHR 0x00) False (tl r) acc
      else if ins then
        (if sc = CHR 0x00 then
           (if ch = star \<and> r \<noteq> [] \<and> hd r = slash then brace_line False sc False (tl r) acc
            else brace_line ins sc False r acc)
         else if sc \<noteq> backquote \<and> ch = backslash then brace_line ins sc True r acc
         else if ch = sc then brace_line False sc False r acc
         else brace_line ins sc False r acc)
      else if is_quote ch then brace_line True ch False r acc
      else if ch = CHR 0x7B then brace_line ins sc False r (fst acc + 1, True)
      else if ch = CHR 0x7D then brace_line ins sc False r (fst acc - 1, snd acc)
      else brace_line ins sc False r acc)"
  by pat_completeness auto
termination
  by (relation "measure (\<lambda>(ins, sc, skip, r, acc). length r)") auto

text \<open>The loop over the lines from \<open>i\<close> on: the last line it looks at.\<close>

fun brace_end :: "nat \<Rightarrow> nat \<Rightarrow> int \<times> bool \<Rightarrow> string list \<Rightarrow> nat" where
  "brace_end body_end i acc [] = body_end"
| "brace_end body_end i acc (line # ls) =
     (let acc' = brace_line False (CHR 0x00) False line acc in
      if snd acc' \<and> fst acc' = 0 then i else brace_end i (Suc i) acc' ls)"

definition max_body_scan :: nat where
  "max_body_scan = 500"

definition has_brace :: "string list \<Rightarrow> nat \<Rightarrow> bool" where
  "has_brace ls start = list_ex (\<lambda>l. CHR 0x7B \<in> set (strip_strings_and_comments l)) (take 3 (drop start ls))"

definition brace_body_end :: "string list \<Rightarrow> nat \<Rightarrow> nat" where
  "brace_body_end ls start =
     brace_end start start (0, False) (drop start (take (min (start + max_body_scan) (length ls)) ls))"

section \<open>The end of a body by indentation\<close>

text \<open>The line with the colon that ends the header of the definition, within the first six.\<close>

fun colon_line :: "nat \<Rightarrow> string list \<Rightarrow> nat \<Rightarrow> nat option" where
  "colon_line 0 ls i = None"
| "colon_line (Suc n) ls i =
     (if length ls \<le> i then None
      else if CHR '':'' \<in> set (trim_space (ls ! i)) then Some i
      else colon_line n ls (Suc i))"

definition skipped_line :: "string \<Rightarrow> bool" where
  "skipped_line l \<longleftrightarrow> trim_space l = [] \<or> has_prefix (trim_space l) ''#''"

text \<open>The first line of the body; \<open>i\<close> is the number of the first line of the list.\<close>

fun first_body_line :: "nat \<Rightarrow> string list \<Rightarrow> nat option" where
  "first_body_line i [] = None"
| "first_body_line i (l # ls) = (if skipped_line l then first_body_line (Suc i) ls else Some i)"

fun indent_end :: "nat \<Rightarrow> nat \<Rightarrow> nat \<Rightarrow> string list \<Rightarrow> nat" where
  "indent_end base body_end i [] = body_end"
| "indent_end base body_end i (l # ls) =
     (if skipped_line l then indent_end base body_end (Suc i) ls
      else if count_leading_spaces l < base then body_end
      else indent_end base i (Suc i) ls)"

definition indent_body_end :: "string list \<Rightarrow> nat \<Rightarrow> nat option" where
  "indent_body_end ls start =
     (case colon_line 6 ls start of
        None \<Rightarrow> None
      | Some c \<Rightarrow>
          (case first_body_line (Suc c) (drop (Suc c) ls) of
             None \<Rightarrow> None
           | Some f \<Rightarrow>
               (let base = count_leading_spaces (ls ! f) in
                if base = 0 then None
                else Some (indent_end base f (Suc f)
                       (drop (Suc f) (take (min (start + max_body_scan) (length ls)) ls))))))"

text \<open>The body of a definition in a file: its last line, if there is a body to scan.\<close>

definition body_end :: "string \<Rightarrow> string list \<Rightarrow> nat \<Rightarrow> nat option" where
  "body_end file ls start =
     (if length ls \<le> start then None
      else if has_brace ls start then Some (brace_body_end ls start)
      else if has_suffix file ''.py'' then indent_body_end ls start
      else None)"

section \<open>What blanking leaves\<close>

text \<open>Text without quotes and without the openings of comments is read as code.\<close>

fun masked :: "string \<Rightarrow> bool" where
  "masked [] = True"
| "masked (c # r) = (\<not> is_quote c \<and> \<not> (c = slash \<and> r \<noteq> [] \<and> (hd r = slash \<or> hd r = star)) \<and> masked r)"

lemma masked_strip_id: "masked s \<Longrightarrow> strip_from False sc False s = s"
  by (induction s) (auto simp: strip_branch(11))

lemma blank_props [simp]: "\<not> is_quote blank"
  by (simp add: is_quote_def)

lemma masked_blanks: "masked (replicate n blank)"
  by (induction n) auto

lemma masked_blanks_append: "masked (replicate n blank @ s) \<longleftrightarrow> masked s"
  by (induction n) auto

lemma block_comment_blank: "fst (block_comment r) = replicate (length (fst (block_comment r))) blank"
  by (induction r rule: block_comment.induct) (auto simp: split_beta)

lemma masked_blank_prefix: "w = replicate (length w) blank \<Longrightarrow> masked (w @ s) \<longleftrightarrow> masked s"
  using masked_blanks_append [of "length w" s] by simp

text \<open>Every step writes blanks or keeps the byte.\<close>

lemma strip_induct [case_names nil blank rest comment close two keep]:
  assumes nil: "Q [] []"
    and bl: "\<And>ch r out. Q r out \<Longrightarrow> Q (ch # r) (blank # out)"
    and rest: "\<And>ch r. Q (ch # r) (blank # replicate (length r) blank)"
    and comment: "\<And>ch r w r' out. Q r' out \<Longrightarrow> block_comment r = (w, r') \<Longrightarrow> Q (ch # r) (blank # blank # w @ out)"
    and close: "\<And>ch c r out. Q r out \<Longrightarrow> Q (ch # c # r) (blank # blank # out)"
    and two: "\<And>ch r out. Q r out \<Longrightarrow> Q (ch # r) (blank # blank # out)"
    and keep: "\<And>ch r ins sc. Q r (strip_from ins sc False r) \<Longrightarrow> \<not> is_quote ch
      \<Longrightarrow> \<not> (ch = slash \<and> r \<noteq> [] \<and> (hd r = slash \<or> hd r = star)) \<Longrightarrow> Q (ch # r) (ch # strip_from ins sc False r)"
  shows "Q s (strip_from ins sc skip s)"
proof (induction ins sc skip s rule: strip_from.induct)
  case (1 ins sc skip)
  show ?case using nil by simp
next
  case (2 ins sc skip ch r)
  show ?case
  proof (cases "skip")
    case True
    then show ?thesis using bl [OF 2(1)] by (simp add: strip_branch(1))
  next
    case sk: False
    show ?thesis
    proof (cases ins)
      case ins: True
      consider (close) "sc = CHR 0x00" "ch = star" "r \<noteq> []" "hd r = slash"
        | (comment) "sc = CHR 0x00" "\<not> (ch = star \<and> r \<noteq> [] \<and> hd r = slash)"
        | (esc) "sc \<noteq> CHR 0x00" "ch = backslash" "sc \<noteq> backquote"
        | (raw) "sc \<noteq> CHR 0x00" "ch = backslash" "sc = backquote"
        | (str) "sc \<noteq> CHR 0x00" "ch \<noteq> backslash" by blast
      then show ?thesis
      proof cases
        case close
        then obtain r2 where r: "r = slash # r2" by (cases r) auto
        have "Q (tl r) (strip_from False sc False (tl r))" by (rule 2(3)) (use sk ins close in auto)
        then show ?thesis using strip_branch(4) [OF sk ins close] close(1) r by (simp add: assms(5))
      next
        case comment
        have "Q r (strip_from ins sc False r)" by (rule 2(4)) (use sk ins comment in auto)
        then show ?thesis using strip_branch(5) [OF sk ins comment] bl by simp
      next
        case esc
        have "Q r (strip_from ins sc True r)" by (rule 2(5)) (use sk ins esc in auto)
        then show ?thesis using strip_branch(6) [OF sk ins esc] bl by simp
      next
        case raw
        have "Q r (strip_from ins sc False r)" by (rule 2(6)) (use sk ins raw in auto)
        then show ?thesis using strip_branch(7) [OF sk ins raw(2,3)] two by simp
      next
        case str
        have "Q r (strip_from (ch \<noteq> sc) sc False r)"
        proof (cases "ch = sc")
          case True
          have "Q r (strip_from False sc False r)" by (rule 2(7)) (use sk ins str True in auto)
          then show ?thesis using True by simp
        next
          case False
          have "Q r (strip_from ins sc False r)" by (rule 2(8)) (use sk ins str False in auto)
          then show ?thesis using False ins by simp
        qed
        then show ?thesis using strip_branch(8) [OF sk ins str] bl by simp
      qed
    next
      case ins: False
      consider (line) "ch = slash" "r \<noteq> []" "hd r = slash"
        | (block) "ch = slash" "r \<noteq> []" "hd r = star"
        | (doc) "is_quote ch" "ch \<noteq> backquote" "2 \<le> length r" "r ! 0 = ch" "r ! 1 = ch"
        | (quote) "is_quote ch" "\<not> (ch \<noteq> backquote \<and> 2 \<le> length r \<and> r ! 0 = ch \<and> r ! 1 = ch)"
        | (code) "\<not> is_quote ch" "\<not> (ch = slash \<and> r \<noteq> [] \<and> (hd r = slash \<or> hd r = star))" by blast
      then show ?thesis
      proof cases
        case line
        then show ?thesis using strip_branch(2) [OF sk ins line] rest by simp
      next
        case block
        obtain w r' where bc: "block_comment r = (w, r')" by fastforce
        have "Q r' (strip_from ins sc False r')" by (rule 2(2) [OF _ _ _ bc [symmetric] refl]) (use sk ins block in auto)
        then show ?thesis using strip_branch(3) [OF sk ins block bc] assms(4) bc by simp
      next
        case doc
        then show ?thesis using strip_branch(9) [OF sk ins doc] rest by simp
      next
        case quote
        have "ch \<noteq> slash" using quote(1) by (auto simp: is_quote_def)
        then have "Q r (strip_from True ch False r)" by (intro 2(9)) (use sk ins quote in auto)
        then show ?thesis using strip_branch(10) [OF sk ins quote] bl by simp
      next
        case code
        have "Q r (strip_from ins sc False r)" by (rule 2(10)) (use sk ins code in auto)
        then have "Q (ch # r) (ch # strip_from ins sc False r)" using code by (rule keep)
        then show ?thesis using strip_branch(11) [OF sk ins code] by simp
      qed
    qed
  qed
qed

text \<open>What follows a kept byte starts with a blank or with the next byte of the line.\<close>

lemma strip_head: "s \<noteq> [] \<longrightarrow> hd (strip_from ins sc skip s) \<in> {blank, hd s}"
  by (induction rule: strip_induct) auto

lemma strip_nonempty: "s \<noteq> [] \<longleftrightarrow> strip_from ins sc skip s \<noteq> []"
  by (rule strip_induct [where Q = "\<lambda>s out. s \<noteq> [] \<longleftrightarrow> out \<noteq> []"]) simp_all

lemma strip_masked: "masked (strip_from ins sc skip s)"
proof (induction rule: strip_induct)
  case (comment ch r w r' out)
  then have "w = replicate (length w) blank" using block_comment_blank [of r] by simp
  then show ?case using comment(1) masked_blank_prefix by simp
next
  case (keep ch r ins sc)
  then show ?case using strip_head [of r ins sc False] strip_nonempty [of r ins sc False] by auto
qed (auto simp: masked_blanks)

lemma block_comment_suffix: "\<exists>p. r = p @ snd (block_comment r)"
proof (induction r rule: block_comment.induct)
  case (1 a b r)
  show ?case
  proof (cases "a = star \<and> b = slash")
    case True
    then show ?thesis by (intro exI [of _ "[a, b]"]) simp
  next
    case False
    then obtain p where "b # r = p @ snd (block_comment (b # r))" using 1 by blast
    then show ?thesis using False by (intro exI [of _ "a # p"]) (auto simp: split_beta)
  qed
qed auto

lemma strip_subseq: "subseq (filter (\<lambda>c. c \<noteq> blank) (strip_from ins sc skip s)) s"
proof (rule strip_induct [where Q = "\<lambda>s out. subseq (filter (\<lambda>c. c \<noteq> blank) out) s"], goal_cases nil bl rest comment close two keep)
  case (comment ch r w r' out)
  obtain n where "w = replicate n blank" using block_comment_blank [of r] unfolding comment(2) by auto
  then have "filter (\<lambda>c. c \<noteq> blank) w = []" by simp
  moreover obtain p where "r = p @ r'" using block_comment_suffix [of r] comment(2) by auto
  ultimately show ?case using comment(1) list_emb_append2 [of "(=)" _ r' "ch # p"] by simp
next
  case (close ch c r out)
  then show ?case using list_emb_append2 [of "(=)" _ r "[ch, c]"] by simp
qed (simp_all add: list_emb_Cons)

text \<open>
  Blanking is complete and changes nothing else: the result holds no quote and
  no opening of a comment, blanking it again gives the same text, and apart from blanks it is what
  is left of the line in order.
\<close>

theorem strip_masks:
  "masked (strip_strings_and_comments line)
   \<and> strip_strings_and_comments (strip_strings_and_comments line) = strip_strings_and_comments line
   \<and> subseq (filter (\<lambda>c. c \<noteq> blank) (strip_strings_and_comments line)) line"
proof -
  have m: "masked (strip_strings_and_comments line)" unfolding strip_strings_and_comments_def by (rule strip_masked)
  then have "strip_strings_and_comments (strip_strings_and_comments line) = strip_strings_and_comments line"
    unfolding strip_strings_and_comments_def [of "strip_strings_and_comments line"] by (rule masked_strip_id)
  with m show ?thesis using strip_subseq by (simp add: strip_strings_and_comments_def)
qed

section \<open>What counts as a call\<close>

definition go_ident :: "string \<Rightarrow> bool" where
  "go_ident w \<longleftrightarrow> w \<noteq> [] \<and> ident_start (hd w) \<and> (\<forall>c\<in>set w. is_word c)"

text \<open>A call: an identifier that does not continue a word, spaces, and an opening parenthesis.\<close>

definition call_in :: "bool \<Rightarrow> string \<Rightarrow> string \<Rightarrow> bool" where
  "call_in after_word s w \<longleftrightarrow>
     (\<exists>pre ws post. s = pre @ w @ ws @ CHR ''('' # post \<and> go_ident w \<and> (\<forall>c\<in>set ws. re_space c)
        \<and> (if pre = [] then \<not> after_word else \<not> is_word (last pre)))"

lemma byte_facts [simp]:
  "\<not> is_word CHR ''(''" "\<not> ident_start CHR ''(''" "\<not> re_space CHR ''(''"
  by (simp_all add: is_word_def is_alpha_def is_digit_byte_def ident_start_def re_space_def)

lemma ident_start_word: "ident_start c \<Longrightarrow> is_word c"
  by (auto simp: ident_start_def is_word_def)

lemma space_not_word: "re_space c \<Longrightarrow> \<not> is_word c \<and> \<not> ident_start c"
  by (auto simp: re_space_def is_word_def is_alpha_def is_digit_byte_def ident_start_def)

lemma takeWhile_exact: "\<forall>c\<in>set w. P c \<Longrightarrow> \<not> P d \<Longrightarrow> takeWhile P (w @ d # r) = w"
  by (induction w) auto

lemma dropWhile_exact: "\<forall>c\<in>set w. P c \<Longrightarrow> \<not> P d \<Longrightarrow> dropWhile P (w @ d # r) = d # r"
  by (induction w) auto

text \<open>A call at the head of the text is the one the matcher takes.\<close>

lemma call_at_head:
  assumes "go_ident w" "\<forall>c\<in>set ws. re_space c"
  shows "call_at False (w @ ws @ CHR ''('' # post) = Some (w, post)"
proof -
  let ?s = "w @ ws @ CHR ''('' # post"
  have w: "\<forall>c\<in>set w. is_word c" using assms(1) by (simp add: go_ident_def)
  obtain d ds where d: "ws @ CHR ''('' # post = d # ds" "\<not> is_word d"
  proof (cases ws)
    case (Cons a as)
    then have "\<not> is_word a" using assms(2) space_not_word by simp
    then show ?thesis using that Cons by simp
  qed (use that in simp)
  have tk: "takeWhile is_word ?s = w" and dr: "dropWhile is_word ?s = ws @ CHR ''('' # post"
    unfolding d(1) using takeWhile_exact [OF w d(2)] dropWhile_exact [OF w d(2)] by simp_all
  have "dropWhile re_space (ws @ CHR ''('' # post) = CHR ''('' # post"
    by (rule dropWhile_exact [OF assms(2)]) simp
  moreover obtain c cs where "w = c # cs" "ident_start c" using assms(1) by (cases w) (auto simp: go_ident_def)
  ultimately show ?thesis using tk dr by (simp add: call_at_def)
qed

lemma call_at_Some:
  assumes "call_at aw s = Some (w, t)"
  obtains ws where "s = w @ ws @ CHR ''('' # t" "go_ident w" "\<forall>c\<in>set ws. re_space c" "\<not> aw"
proof -
  obtain c cs where s: "s = c # cs" using assms by (cases s) (auto simp: call_at_def)
  then have c: "\<not> aw" "ident_start c" using assms by (auto simp: call_at_def split: if_splits)
  then obtain p where d: "dropWhile re_space (dropWhile is_word s) = p # t" "p = CHR ''(''" "w = takeWhile is_word s"
    using assms s by (auto simp: call_at_def split: list.splits if_splits)
  let ?ws = "takeWhile re_space (dropWhile is_word s)"
  have "s = w @ ?ws @ CHR ''('' # t"
    using takeWhile_dropWhile_id [of is_word s] takeWhile_dropWhile_id [of re_space "dropWhile is_word s"] d by metis
  moreover have "go_ident w"
    using c s d(3) ident_start_word set_takeWhileD by (fastforce simp: go_ident_def)
  moreover have "\<forall>x\<in>set ?ws. re_space x" by (auto dest: set_takeWhileD)
  ultimately show ?thesis using that c(1) by blast
qed


text \<open>Inside a call, up to its parenthesis, no other call starts.\<close>

lemma no_call_inside:
  assumes s: "w0 @ ws0 @ CHR ''('' # t = pre @ w @ rest" and w0: "\<forall>c\<in>set w0. is_word c" "\<forall>c\<in>set ws0. re_space c"
    and w: "w \<noteq> []" "ident_start (hd w)" and pre: "pre \<noteq> []" "\<not> is_word (last pre)"
  shows "\<exists>pre'. pre = w0 @ ws0 @ CHR ''('' # pre'"
proof -
  let ?p = "w0 @ ws0 @ [CHR ''('']"
  have "length ?p \<le> length pre"
  proof (rule ccontr)
    assume "\<not> length ?p \<le> length pre"
    then have lt: "length pre < length ?p" by simp
    have hd_w: "(?p @ t) ! length pre = hd w" and last_pre: "(?p @ t) ! (length pre - 1) = last pre"
      using s w(1) pre(1) by (simp_all add: hd_conv_nth last_conv_nth nth_append)
    show False
    proof (cases "length pre \<le> length w0")
      case True
      moreover have "0 < length pre" using pre(1) by simp
      ultimately have i: "length pre - 1 < length w0" by linarith
      then have "last pre = w0 ! (length pre - 1)" using last_pre by (simp add: nth_append)
      then have "last pre \<in> set w0" using nth_mem [OF i] by simp
      then show False using w0(1) pre(2) by blast
    next
      case False
      then have "hd w \<in> set (ws0 @ [CHR ''(''])"
      proof -
        have i: "length pre - length w0 < length (ws0 @ [CHR ''(''])" using lt False by simp
        have "hd w = (ws0 @ [CHR ''('']) ! (length pre - length w0)"
          using hd_w False i by (auto simp: nth_append nth_Cons')
        then show ?thesis using nth_mem [OF i] by simp
      qed
      then consider "hd w \<in> set ws0" | "hd w = CHR ''(''" by auto
      then show False
      proof cases
        case 1
        then show False using w(2) w0(2) space_not_word by blast
      next
        case 2
        then show False using w(2) byte_facts(2) by metis
      qed
    qed
  qed
  moreover have "?p @ t = pre @ (w @ rest)" using s by simp
  then have "take (length ?p) (?p @ t) = take (length ?p) (pre @ (w @ rest))" by (rule arg_cong)
  ultimately have "?p = take (length ?p) pre" by simp
  then have "pre = ?p @ drop (length ?p) pre" using append_take_drop_id by metis
  then show ?thesis by (metis append.assoc append_Cons append_Nil)
qed

lemma find_calls_exact: "w \<in> set (find_calls aw s) \<longleftrightarrow> call_in aw s w"
proof (induction aw s rule: find_calls.induct)
  case (1 aw)
  show ?case by (simp add: call_in_def)
next
  case (2 aw c cs)
  show ?case
  proof (cases "call_at aw (c # cs)")
    case None
    have "call_in aw (c # cs) w \<longleftrightarrow> call_in (is_word c) cs w"
    proof
      assume "call_in aw (c # cs) w"
      then obtain pre ws post where d: "c # cs = pre @ w @ ws @ CHR ''('' # post" "go_ident w" "\<forall>x\<in>set ws. re_space x"
        "if pre = [] then \<not> aw else \<not> is_word (last pre)" by (auto simp: call_in_def)
      have "pre \<noteq> []"
      proof
        assume "pre = []"
        then have "call_at aw (c # cs) = Some (w, post)" using d call_at_head [OF d(2,3)] by simp
        then show False using None by simp
      qed
      then obtain pre' where "pre = c # pre'" using d(1) by (cases pre) auto
      then show "call_in (is_word c) cs w" unfolding call_in_def
        using d by (intro exI [of _ pre'] exI [of _ ws] exI [of _ post]) auto
    next
      assume "call_in (is_word c) cs w"
      then obtain pre ws post where d: "cs = pre @ w @ ws @ CHR ''('' # post" "go_ident w" "\<forall>x\<in>set ws. re_space x"
        "if pre = [] then \<not> is_word c else \<not> is_word (last pre)" by (auto simp: call_in_def)
      then show "call_in aw (c # cs) w" unfolding call_in_def
        by (intro exI [of _ "c # pre"] exI [of _ ws] exI [of _ post]) auto
    qed
    then show ?thesis using 2(1) [OF None] None by simp
  next
    case (Some wt)
    obtain w0 t where wt: "wt = (w0, t)" by fastforce
    then obtain ws0 where d0: "c # cs = w0 @ ws0 @ CHR ''('' # t" "go_ident w0" "\<forall>x\<in>set ws0. re_space x" "\<not> aw"
      using call_at_Some Some by metis
    have w0: "\<forall>x\<in>set w0. is_word x" using d0(2) by (simp add: go_ident_def)
    have "call_in aw (c # cs) w \<longleftrightarrow> w = w0 \<or> call_in False t w"
    proof
      assume "call_in aw (c # cs) w"
      then obtain pre ws post where d: "c # cs = pre @ w @ ws @ CHR ''('' # post" "go_ident w" "\<forall>x\<in>set ws. re_space x"
        "if pre = [] then \<not> aw else \<not> is_word (last pre)" by (auto simp: call_in_def)
      show "w = w0 \<or> call_in False t w"
      proof (cases "pre = []")
        case True
        then have "call_at False (c # cs) = Some (w, post)" using d call_at_head [OF d(2,3)] by simp
        then show ?thesis using Some wt d0(4) by simp
      next
        case False
        have "\<exists>pre'. pre = w0 @ ws0 @ CHR ''('' # pre'"
          by (rule no_call_inside [of w0 ws0 t pre w "ws @ CHR ''('' # post"])
            (use d d0 w0 False in \<open>auto simp: go_ident_def\<close>)
        then obtain pre' where p: "pre = w0 @ ws0 @ CHR ''('' # pre'" by blast
        then have "t = pre' @ w @ ws @ CHR ''('' # post" using d(1) d0(1) by simp
        moreover have "pre' \<noteq> [] \<Longrightarrow> \<not> is_word (last pre')" using d(4) p by (simp split: if_splits)
        ultimately show ?thesis
          unfolding call_in_def using d by (intro disjI2 exI [of _ pre'] exI [of _ ws] exI [of _ post]) auto
      qed
    next
      assume "w = w0 \<or> call_in False t w"
      then show "call_in aw (c # cs) w"
      proof
        assume "w = w0"
        then show ?thesis unfolding call_in_def using d0
          by (intro exI [of _ "[]"] exI [of _ ws0] exI [of _ t]) simp
      next
        assume "call_in False t w"
        then obtain pre ws post where d: "t = pre @ w @ ws @ CHR ''('' # post" "go_ident w" "\<forall>x\<in>set ws. re_space x"
          "if pre = [] then \<not> False else \<not> is_word (last pre)" unfolding call_in_def by blast
        then show ?thesis unfolding call_in_def using d0
          by (intro exI [of _ "w0 @ ws0 @ CHR ''('' # pre"] exI [of _ ws] exI [of _ post]) auto
      qed
    qed
    then show ?thesis using 2(2) [OF Some wt [symmetric]] Some wt by auto
  qed
qed

text \<open>
  The calls found on a line are exactly the identifiers that stand, outside
  strings and comments, as whole words before an opening parenthesis.
\<close>

theorem calls_exact:
  "w \<in> set (calls_on line) \<longleftrightarrow> call_in False (strip_strings_and_comments line) w"
  unfolding calls_on_def by (rule find_calls_exact)

section \<open>Where a body ends\<close>

definition depth_run :: "int \<times> bool \<Rightarrow> string list \<Rightarrow> int \<times> bool" where
  "depth_run acc ls = foldl (\<lambda>acc l. brace_line False (CHR 0x00) False l acc) acc ls"

definition depth_after :: "string list \<Rightarrow> nat \<Rightarrow> nat \<Rightarrow> int \<times> bool" where
  "depth_after ls start i =
     depth_run (0, False) (take (Suc i - start) (drop start ls))"

definition closed_at :: "int \<times> bool \<Rightarrow> bool" where
  "closed_at acc \<longleftrightarrow> snd acc \<and> fst acc = 0"

lemma brace_end_spec:
  assumes "ls \<noteq> []"
  shows "\<exists>k<length ls. brace_end b i acc ls = i + k \<and> (\<forall>j<k. \<not> closed_at (depth_run acc (take (Suc j) ls)))
    \<and> (closed_at (depth_run acc (take (Suc k) ls)) \<or> k = length ls - 1)"
  using assms(1)
proof (induction ls arbitrary: b i acc)
  case (Cons l ls)
  let ?a = "brace_line False (CHR 0x00) False l acc"
  show ?case
  proof (cases "closed_at ?a \<or> ls = []")
    case True
    then have "brace_end b i acc (l # ls) = i" by (auto simp: closed_at_def Let_def)
    then show ?thesis using True by (intro exI [of _ 0]) (auto simp: depth_run_def)
  next
    case False
    then obtain k where k: "k < length ls" "brace_end i (Suc i) ?a ls = Suc i + k"
      "\<forall>j<k. \<not> closed_at (depth_run ?a (take (Suc j) ls))"
      "closed_at (depth_run ?a (take (Suc k) ls)) \<or> k = length ls - 1"
      using Cons.IH [of i "Suc i" ?a] by blast
    have "brace_end b i acc (l # ls) = brace_end i (Suc i) ?a ls"
      using False by (auto simp: closed_at_def Let_def)
    moreover have "\<forall>j<Suc k. \<not> closed_at (depth_run acc (take (Suc j) (l # ls)))"
      using k(3) False by (auto simp: less_Suc_eq_0_disj depth_run_def)
    ultimately show ?thesis using k by (intro exI [of _ "Suc k"]) (auto simp: depth_run_def)
  qed
qed simp

text \<open>
  The body of a definition ends on the first line after which every
  brace opened since its first line is closed again; if there is none within the scanned lines, on
  the last of these.
\<close>

theorem brace_body_end_first:
  assumes "start < length ls"
  defines "e \<equiv> brace_body_end ls start" and "stop \<equiv> min (start + max_body_scan) (length ls)"
  shows "start \<le> e \<and> e < stop \<and> (\<forall>i. start \<le> i \<and> i < e \<longrightarrow> \<not> closed_at (depth_after ls start i))
    \<and> (closed_at (depth_after ls start e) \<or> e = stop - 1)"
proof -
  let ?l = "drop start (take stop ls)"
  have len: "length ?l = stop - start" "start < stop" using assms(1) by (simp_all add: stop_def max_body_scan_def)
  then have "?l \<noteq> []" by (metis length_0_conv zero_less_diff less_numeral_extra(3))
  from brace_end_spec [OF this, of start start "(0, False)"] obtain k where k: "k < length ?l" "e = start + k"
    "\<forall>j<k. \<not> closed_at (depth_run (0, False) (take (Suc j) ?l))"
    "closed_at (depth_run (0, False) (take (Suc k) ?l)) \<or> k = length ?l - 1"
    unfolding e_def brace_body_end_def stop_def by blast
  have d: "depth_run (0, False) (take (Suc j) ?l) = depth_after ls start (start + j)"
    if "j < length ?l" for j
    using that len by (simp add: depth_after_def drop_take min_def Suc_diff_le)
  have "\<not> closed_at (depth_after ls start i)" if "start \<le> i" "i < e" for i
  proof -
    have "i - start < k" "i - start < length ?l" using that k(1,2) by linarith+
    then have "\<not> closed_at (depth_run (0, False) (take (Suc (i - start)) ?l))" using k(3) by blast
    then show ?thesis using d [OF \<open>i - start < length ?l\<close>] that(1) by simp
  qed
  moreover have "closed_at (depth_after ls start e) \<or> e = stop - 1" using k d [of k] len by auto
  ultimately show ?thesis using k(1,2) len by auto
qed

definition sample_body :: "string list" where
  "sample_body = [''func f() {'', ''  g(x)'', ''}'', ''}'']"

theorem brace_body_end_first_witness:
  "brace_body_end sample_body 0 = 2 \<and> closed_at (depth_after sample_body 0 2)"
proof -
  have "brace_body_end sample_body 0 = 2"
    by (simp add: brace_body_end_def max_body_scan_def sample_body_def is_quote_def Let_def)
  then show ?thesis using brace_body_end_first [of 0 sample_body] by (simp add: sample_body_def max_body_scan_def)
qed

text \<open>
  Each line is read from a fresh state, so a brace inside a comment or raw string that spans lines
  counts: here the body ends inside the comment and the call after it is not seen.
\<close>

theorem comment_brace_ends_body:
  "brace_body_end [''func f() {'', ''/*'', ''}'', ''*/'', ''g(x)'', ''}''] 0 = 2"
  by (simp add: brace_body_end_def max_body_scan_def is_quote_def Let_def)

text \<open>The star that opens a comment also closes it when a slash follows.\<close>

theorem comment_closed_by_its_opening:
  "calls_on ''/*/ f() */'' = [''f'']"
  by (simp add: calls_on_def strip_strings_and_comments_def strip_branch is_quote_def call_at_def ident_start_def
      is_word_def is_alpha_def is_digit_byte_def re_space_def)

end
