(* ===== verification/Tool_Output.thy ===== *)
theory Tool_Output
  imports Storage_Paths
begin

text \<open>
  What the tools read from the search program and what they hand to clients
  (\<^verbatim>\<open>server/output.go\<close>, \<^verbatim>\<open>server/textutil.go\<close>, \<^verbatim>\<open>server/staleness.go\<close>): limits, truncation, the
  capped reading of a child's output, and the cache of compiled patterns.
\<close>

section \<open>Limits and truncation\<close>

definition default_output_chars :: int where "default_output_chars = 18000"
definition default_search_global :: int where "default_search_global = 70"
definition default_search_per_file :: int where "default_search_per_file = 12"

definition clamp_limit :: "int \<Rightarrow> int \<Rightarrow> int \<Rightarrow> int" where
  "clamp_limit v def_val hard = (if v \<le> 0 then def_val else if hard < v then hard else v)"

definition search_per_file_cap :: "int \<Rightarrow> int" where
  "search_per_file_cap global0 =
     (let global = (if global0 \<le> 0 then default_search_global else global0) in
      if global < default_search_per_file then global else default_search_per_file)"

definition truncated_hint :: string where
  "truncated_hint = newline # ''... (truncated; narrow path/glob or raise max_results)''"

text \<open>The loop that backs up to a place where the text before it is valid.\<close>

fun back_to_valid :: "string \<Rightarrow> nat \<Rightarrow> nat" where
  "back_to_valid text 0 = 0"
| "back_to_valid text (Suc n) = (if valid_utf8 (take (Suc n) text) then Suc n else back_to_valid text n)"

definition truncate_output :: "string \<Rightarrow> int \<Rightarrow> string" where
  "truncate_output text max0 =
     (let m = (if max0 \<le> 0 then default_output_chars else max0) in
      if int (length text) \<le> m then text
      else take (back_to_valid text (nat m)) text @ truncated_hint)"

definition limit_lines :: "string \<Rightarrow> int \<Rightarrow> string" where
  "limit_lines text n =
     (if n \<le> 0 \<or> text = [] then text
      else
        (let parts = split_on newline text;
             ls = (if parts \<noteq> [] \<and> last parts = [] then butlast parts else parts)
         in if int (length ls) \<le> n then text
            else join_with [newline] (take (nat n) ls)
                 @ newline # ''... (max '' @ itoa n @ '' lines; narrow path/glob or raise max_results)''))"

definition max_pending_warning_files :: nat where "max_pending_warning_files = 50"

text \<open>
  \<^verbatim>\<open>addStalenessWarning\<close>: the pending files of the watcher, if there is one.  \<open>head\<close> and \<open>more\<close>
  are the two texts with symbols outside ASCII, the second around the number of files left out.
\<close>

definition add_staleness_warning :: "string \<Rightarrow> (nat \<Rightarrow> string) \<Rightarrow> string list option \<Rightarrow> string \<Rightarrow> string" where
  "add_staleness_warning head_text more_text watcher text =
     (case watcher of
        None \<Rightarrow> text
      | Some pending \<Rightarrow>
          if pending = [] then text
          else
            (let shown = take max_pending_warning_files pending in
             text @ head_text @ concat (map (\<lambda>f. ''- '' @ f @ [newline]) shown)
             @ (if length shown < length pending then more_text (length pending - length shown) else [])
             @ newline # ''The index may be stale for these files. Consider reading them directly for the latest content.''))"

section \<open>Output of the search program\<close>

text \<open>
  A child process as the reader sees it: whether it started, the bytes it wrote until the stream
  ended or failed, and what \<^verbatim>\<open>Wait\<close> reports then: an exit code, or \<^const>\<open>None\<close> for another error.
\<close>

record child =
  ch_started :: bool
  ch_out :: string
  ch_exit :: "int option"

datatype rg_error = Start_failed | Exit_failed "int option"

definition line_text :: "string \<Rightarrow> string" where
  "line_text line = trim_suffix (trim_suffix line [newline]) [CHR 0x0D]"

text \<open>
  The next line with its end, and what follows if the line has an end.  \<^verbatim>\<open>ReadSlice\<close> hands out a long
  line in fragments; the check of its length is made on every fragment and the last one sees the
  whole line, so the line is taken at once.
\<close>

definition take_line :: "string \<Rightarrow> string \<times> string option" where
  "take_line s =
     (case dropWhile (\<lambda>c. c \<noteq> newline) s of
        [] \<Rightarrow> (s, None)
      | _ # r \<Rightarrow> (takeWhile (\<lambda>c. c \<noteq> newline) s @ [newline], Some r))"

lemma take_line_Some: "take_line s = (l, Some r) \<Longrightarrow> s = l @ r \<and> l \<noteq> [] \<and> length r < length s"
proof -
  assume a: "take_line s = (l, Some r)"
  then obtain c where c: "dropWhile (\<lambda>c. c \<noteq> newline) s = c # r" and l: "l = takeWhile (\<lambda>c. c \<noteq> newline) s @ [newline]"
    by (auto simp: take_line_def split: list.splits)
  have "c = newline" using dropWhile_eq_hd [OF c] by simp
  then have sl: "s = l @ r" using takeWhile_dropWhile_id [of "\<lambda>c. c \<noteq> newline" s] c l by simp
  then have "length s = length l + length r" by (metis length_append)
  moreover have "l \<noteq> []" using l by simp
  ultimately show ?thesis using sl by simp
qed

lemma take_line_newline: "newline \<notin> set body \<Longrightarrow> take_line (body @ newline # r) = (body @ [newline], Some r)"
proof -
  assume "newline \<notin> set body"
  then have "takeWhile (\<lambda>c. c \<noteq> newline) (body @ newline # r) = body"
    "dropWhile (\<lambda>c. c \<noteq> newline) (body @ newline # r) = newline # r"
    by (induction body) auto
  then show ?thesis by (simp add: take_line_def)
qed

lemma take_line_last: "newline \<notin> set s \<Longrightarrow> take_line s = (s, None)"
proof -
  assume "newline \<notin> set s"
  then have d: "dropWhile (\<lambda>c. c \<noteq> newline) s = []" by (induction s) auto
  show ?thesis unfolding take_line_def d by simp
qed

lemma take_line_None: "take_line s = (l, None) \<Longrightarrow> l = s"
  by (auto simp: take_line_def split: list.splits)

text \<open>The reading loop: the lines, and whether it stopped at a cap.\<close>

function read_rg :: "nat \<Rightarrow> nat \<Rightarrow> string list \<Rightarrow> nat \<Rightarrow> string \<Rightarrow> string list \<times> bool" where
  "read_rg max_lines max_bytes ls used s =
     (if \<not> (length ls < max_lines \<and> used < max_bytes) then (ls, True)
      else case take_line s of
        (line, after) \<Rightarrow>
          if max_bytes < length line then (ls, True)
          else case after of
                 None \<Rightarrow> (if line = [] then ls else ls @ [line_text line], False)
               | Some rest \<Rightarrow> read_rg max_lines max_bytes (ls @ [line_text line]) (used + length line) rest)"
  by pat_completeness auto
termination
  by (relation "measure (\<lambda>(ml, mb, ls, used, s). length s)") (auto dest: take_line_Some [OF sym])

declare read_rg.simps [simp del]

text \<open>\<^verbatim>\<open>rgOutputLines\<close>: the lines, the truncation mark and the error; exit code 1 means no match.\<close>

definition rg_output_lines :: "child \<Rightarrow> int \<Rightarrow> int \<Rightarrow> string list \<times> bool \<times> rg_error option" where
  "rg_output_lines ch max_lines max_bytes =
     (if \<not> ch_started ch then ([], False, Some Start_failed)
      else
        (let ml = (if max_lines \<le> 0 then 2 ^ 30 else nat max_lines);
             mb = (if max_bytes \<le> 0 then 2 ^ 30 else nat max_bytes);
             (ls, truncated) = read_rg ml mb [] 0 (ch_out ch)
         in if truncated then (ls, True, None)
            else (ls, False, if ch_exit ch = Some 0 \<or> ch_exit ch = Some 1 then None else Some (Exit_failed (ch_exit ch)))))"

text \<open>One run for each root, under common caps.\<close>

fun rg_each_root_loop ::
    "string list \<Rightarrow> rg_error option \<Rightarrow> int \<Rightarrow> int \<Rightarrow> child list \<Rightarrow> string list \<times> rg_error option" where
  "rg_each_root_loop all_lines first_err remain_lines remain_bytes [] = (all_lines, first_err)"
| "rg_each_root_loop all_lines first_err remain_lines remain_bytes (ch # chs) =
     (if remain_lines \<le> 0 \<or> remain_bytes \<le> 0 then (all_lines, first_err)
      else
        (let (ls, truncated, err) = rg_output_lines ch remain_lines remain_bytes in
         if err \<noteq> None then
           rg_each_root_loop all_lines (if first_err = None then err else first_err) remain_lines remain_bytes chs
         else
           rg_each_root_loop (all_lines @ ls) first_err (remain_lines - int (length ls))
             (remain_bytes - int (sum_list (map (\<lambda>l. length l + 1) ls))) chs))"

definition rg_each_root :: "child list \<Rightarrow> int \<Rightarrow> int \<Rightarrow> rg_error + string list" where
  "rg_each_root children max_lines max_bytes =
     (case rg_each_root_loop [] None max_lines max_bytes children of
        ([], Some e) \<Rightarrow> Inl e
      | (ls, _) \<Rightarrow> Inr ls)"

text \<open>Absolute paths at the head of the lines become relative to the project.\<close>

definition relativize_line :: "string \<Rightarrow> string \<Rightarrow> string" where
  "relativize_line proj_root line =
     (if line = [] then []
      else case index_byte (CHR '':'') line of
             None \<Rightarrow> line @ [newline]
           | Some i \<Rightarrow> rel_path proj_root (take i line) @ ''':'' @ drop (Suc i) line @ [newline])"

definition relativize_rg_output :: "string \<Rightarrow> string \<Rightarrow> string" where
  "relativize_rg_output out proj_root =
     trim_suffix (concat (map (relativize_line proj_root) (split_on newline out))) [newline]"

section \<open>Files\<close>

text \<open>\<^verbatim>\<open>strings.ReplaceAll(s, "\r\n", "\n")\<close>.\<close>

fun unix_lines :: "string \<Rightarrow> string" where
  "unix_lines (a # b # s) =
     (if a = CHR 0x0D \<and> b = newline then newline # unix_lines s else a # unix_lines (b # s))"
| "unix_lines s = s"

definition max_read_size :: nat where "max_read_size = 10 * 1024 * 1024"

text \<open>\<^verbatim>\<open>readLines\<close>, given what reading the file returns.\<close>

definition read_lines :: "string option \<Rightarrow> string list option" where
  "read_lines content =
     (case content of
        None \<Rightarrow> None
      | Some data \<Rightarrow>
          if max_read_size < length data then None
          else if data = [] then Some []
          else Some (split_on newline (unix_lines data)))"

fun line_with :: "string \<Rightarrow> nat \<Rightarrow> string list \<Rightarrow> nat option" where
  "line_with pat i [] = None"
| "line_with pat i (l # ls) = (if contains_str l pat then Some i else line_with pat (Suc i) ls)"

text \<open>
  The line of the first occurrence of a pattern in a node: \<open>body\<close> is its stored body and \<open>content\<close>
  what reading its file returns.
\<close>

definition match_line_for_node :: "string \<Rightarrow> int \<Rightarrow> int \<Rightarrow> string \<Rightarrow> string option \<Rightarrow> string \<Rightarrow> int" where
  "match_line_for_node name line0 end_line body content pattern =
     (let line = (if line0 \<le> 0 then 1 else line0) in
      if pattern = [] \<or> name = pattern then line
      else if body \<noteq> [] then
        (case index_str pattern body of
           Some i \<Rightarrow> line + int (count_list (take i body) newline)
         | None \<Rightarrow> line)
      else case read_lines content of
             None \<Rightarrow> line
           | Some ls \<Rightarrow>
               if ls = [] then line
               else
                 (let start = nat (line - 1);
                      e = (if end_line \<le> 0 \<or> int (length ls) < end_line then length ls else nat end_line);
                      e' = (if e < start then length ls else e)
                  in case line_with pattern start (drop start (take e' ls)) of
                       Some i \<Rightarrow> int i + 1
                     | None \<Rightarrow>
                         (case line_with pattern 0 ls of
                            Some i \<Rightarrow> int i + 1
                          | None \<Rightarrow> line)))"

definition is_simple_ident :: "string \<Rightarrow> bool" where
  "is_simple_ident s \<longleftrightarrow>
     s \<noteq> [] \<and> list_all (\<lambda>c. (97 \<le> byte_of c \<and> byte_of c \<le> 122) \<or> (65 \<le> byte_of c \<and> byte_of c \<le> 90)
        \<or> c = CHR ''_'' \<or> c = CHR ''$'' \<or> (48 \<le> byte_of c \<and> byte_of c \<le> 57)) s
     \<and> \<not> (48 \<le> byte_of (hd s) \<and> byte_of (hd s) \<le> 57)"

section \<open>The cache of definition patterns\<close>

text \<open>A bounded first-in-first-out cache; \<open>compile\<close> stands for building the pattern of a name.\<close>

record 'r def_re_cache =
  dc_map :: "(string \<rightharpoonup> 'r) option"
  dc_order :: "string list"
  dc_cap :: nat

definition def_re_cache_cap :: nat where "def_re_cache_cap = 256"

definition def_re_get :: "(string \<Rightarrow> 'r) \<Rightarrow> string \<Rightarrow> 'r def_re_cache \<Rightarrow> 'r \<times> 'r def_re_cache" where
  "def_re_get compile name c0 =
     (let c = (case dc_map c0 of None \<Rightarrow> c0\<lparr>dc_map := Some Map.empty, dc_cap := def_re_cache_cap\<rparr> | Some _ \<Rightarrow> c0);
          m = the (dc_map c)
      in case m name of
           Some re \<Rightarrow> (re, c)
         | None \<Rightarrow>
             (let re = compile name; m1 = m(name \<mapsto> re); order = dc_order c @ [name] in
              if dc_cap c < length order then
                (re, c\<lparr>dc_map := Some (m1(hd order := None)), dc_order := tl order\<rparr>)
              else (re, c\<lparr>dc_map := Some m1, dc_order := order\<rparr>)))"

section \<open>Reading under caps\<close>

text \<open>The lines of a text with their ends.\<close>

function raw_lines :: "string \<Rightarrow> string list" where
  "raw_lines s =
     (case take_line s of
        (line, None) \<Rightarrow> if line = [] then [] else [line]
      | (line, Some rest) \<Rightarrow> line # raw_lines rest)"
  by pat_completeness auto
termination
  by (relation "measure length") (auto dest: take_line_Some [OF sym])

declare raw_lines.simps [simp del]

lemma raw_lines_None: "take_line s = (line, None) \<Longrightarrow> raw_lines s = (if line = [] then [] else [line])"
  by (subst raw_lines.simps) simp

lemma raw_lines_Some: "take_line s = (line, Some rest) \<Longrightarrow> raw_lines s = line # raw_lines rest"
  by (subst raw_lines.simps) simp

lemma concat_raw_lines: "concat (raw_lines s) = s"
proof (induction s rule: raw_lines.induct)
  case (1 s)
  obtain line after where t: "take_line s = (line, after)" by fastforce
  show ?case
  proof (cases after)
    case None
    then show ?thesis using take_line_None raw_lines_None t by simp
  next
    case (Some rest)
    then have "concat (raw_lines rest) = rest" using 1 [OF t [symmetric]] by simp
    then show ?thesis using take_line_Some [of s line rest] raw_lines_Some t Some by simp
  qed
qed

lemma read_rg_lines:
  assumes "read_rg ml mb ls u s = (out, tr)" "length ls \<le> ml"
  shows "\<exists>k\<le>length (raw_lines s). out = ls @ map line_text (take k (raw_lines s)) \<and> length ls + k \<le> ml
    \<and> (0 < k \<longrightarrow> u + sum_list (map length (take (k - 1) (raw_lines s))) < mb)
    \<and> (\<forall>l\<in>set (take k (raw_lines s)). length l \<le> mb)
    \<and> (\<not> tr \<longrightarrow> k = length (raw_lines s))"
  using assms
proof (induction ml mb ls u s arbitrary: out rule: read_rg.induct)
  case (1 ml mb ls u s)
  obtain line after where t: "take_line s = (line, after)" by fastforce
  show ?case
  proof (cases "\<not> (length ls < ml \<and> u < mb) \<or> mb < length line")
    case True
    then have "out = ls \<and> tr" using 1(2) t by (subst (asm) read_rg.simps) (auto split: if_splits)
    then show ?thesis using 1(3) by (intro exI [of _ 0]) auto
  next
    case cont: False
    show ?thesis
    proof (cases after)
      case None
      then have out: "out = (if line = [] then ls else ls @ [line_text line])" "\<not> tr"
        using cont 1(2) t by (subst (asm) read_rg.simps, simp)+
      show ?thesis
        using out raw_lines_None t None cont by (intro exI [of _ "length (raw_lines s)"]) auto
    next
      case (Some rest)
      then have rec: "read_rg ml mb (ls @ [line_text line]) (u + length line) rest = (out, tr)"
        using cont 1(2) t by (subst (asm) read_rg.simps) simp
      have raw: "raw_lines s = line # raw_lines rest" using raw_lines_Some t Some by simp
      obtain k where k: "k \<le> length (raw_lines rest)"
        "out = (ls @ [line_text line]) @ map line_text (take k (raw_lines rest))"
        "length (ls @ [line_text line]) + k \<le> ml"
        "0 < k \<longrightarrow> u + length line + sum_list (map length (take (k - 1) (raw_lines rest))) < mb"
        "\<forall>l\<in>set (take k (raw_lines rest)). length l \<le> mb" "\<not> tr \<longrightarrow> k = length (raw_lines rest)"
        using 1(1) [OF _ t [symmetric] _ Some rec] cont by auto
      have "u + sum_list (map length (take k (raw_lines s))) < mb"
      proof (cases k)
        case (Suc k')
        then show ?thesis using k(4) raw by simp
      qed (use cont in simp)
      then show ?thesis using k raw cont by (intro exI [of _ "Suc k"]) auto
    qed
  qed
qed

text \<open>
  Reading the search program's output under its caps yields the first
  lines of what it wrote, at most the allowed number, each within the byte limit and all but the
  last together below it; unless the reader reports a cut (and then no error), they are all lines.
\<close>

theorem rg_output_bounded:
  assumes "rg_output_lines ch max_lines max_bytes = (ls, truncated, err)" "0 < max_lines" "0 < max_bytes" "ch_started ch"
  shows "\<exists>k. ls = map line_text (take k (raw_lines (ch_out ch))) \<and> int (length ls) \<le> max_lines
    \<and> int (sum_list (map length (take (k - 1) (raw_lines (ch_out ch))))) < max_bytes
    \<and> (\<forall>l\<in>set (take k (raw_lines (ch_out ch))). int (length l) \<le> max_bytes)
    \<and> (if truncated then err = None else k = length (raw_lines (ch_out ch)))"
proof -
  obtain tr where r: "read_rg (nat max_lines) (nat max_bytes) [] 0 (ch_out ch) = (ls, tr)" "tr = truncated"
    using assms by (auto simp: rg_output_lines_def Let_def split: prod.splits if_splits)
  from read_rg_lines [OF r(1)] obtain k where k: "k \<le> length (raw_lines (ch_out ch))"
    "ls = map line_text (take k (raw_lines (ch_out ch)))" "k \<le> nat max_lines"
    "0 < k \<longrightarrow> sum_list (map length (take (k - 1) (raw_lines (ch_out ch)))) < nat max_bytes"
    "\<forall>l\<in>set (take k (raw_lines (ch_out ch))). length l \<le> nat max_bytes"
    "\<not> tr \<longrightarrow> k = length (raw_lines (ch_out ch))" by auto
  have "truncated \<Longrightarrow> err = None" using assms by (auto simp: rg_output_lines_def split: prod.splits if_splits)
  moreover have "int (length ls) \<le> max_lines" using k(1-3) assms(2) by simp
  moreover have "int (sum_list (map length (take (k - 1) (raw_lines (ch_out ch))))) < max_bytes"
    using k(4) assms(3) by (cases k) auto
  moreover have "\<forall>l\<in>set (take k (raw_lines (ch_out ch))). int (length l) \<le> max_bytes"
    using k(5) assms(3) by (auto simp: le_nat_iff)
  ultimately show ?thesis using k(2,6) r(2) by (intro exI [of _ k]) auto
qed

definition sample_child :: child where
  "sample_child = \<lparr>ch_started = True, ch_out = ''a:1'' @ newline # ''b:2'' @ newline # ''c'', ch_exit = Some 0\<rparr>"

lemma line_text_newline [simp]: "line_text (''a:1'' @ [newline]) = ''a:1''" "line_text (''b:2'' @ [newline]) = ''b:2''"
  "line_text (''12345678'' @ [newline]) = ''12345678''"
  by (simp_all add: line_text_def str_eval suffix_def)

lemma sample_child_read: "read_rg 2 100 [] 0 (ch_out sample_child) = ([''a:1'', ''b:2''], True)"
proof -
  have 1: "take_line (ch_out sample_child) = (''a:1'' @ [newline], Some (''b:2'' @ newline # ''c''))"
    unfolding sample_child_def child.simps by (rule take_line_newline) simp
  have 2: "take_line (''b:2'' @ newline # ''c'') = (''b:2'' @ [newline], Some ''c'')"
    by (rule take_line_newline) simp
  show ?thesis
    apply (subst read_rg.simps)
    apply (simp only: 1 prod.case option.case line_text_newline)
    apply (subst read_rg.simps)
    apply (simp only: 2 [simplified] 2 prod.case option.case line_text_newline)
    apply (subst read_rg.simps)
    apply simp
    done
qed

theorem rg_output_bounded_witness:
  "rg_output_lines sample_child 2 100 = ([''a:1'', ''b:2''], True, None)
   \<and> (\<exists>k. [''a:1'', ''b:2''] = map line_text (take k (raw_lines (ch_out sample_child))))"
proof -
  have st: "ch_started sample_child" by (simp add: sample_child_def)
  then have r: "rg_output_lines sample_child 2 100 = ([''a:1'', ''b:2''], True, None)"
    using sample_child_read by (simp add: rg_output_lines_def)
  have "0 < (2::int)" "0 < (100::int)" by simp_all
  from rg_output_bounded [OF r this st] obtain k
    where "[''a:1'', ''b:2''] = map line_text (take k (raw_lines (ch_out sample_child)))" by (elim exE conjE)
  then show ?thesis using r by (intro conjI exI)
qed

text \<open>
  The byte cap bounds all lines but the last: nearly twice as many bytes can come back as allowed.
\<close>

theorem byte_cap_exceeded:
  "read_rg 5 10 [] 0 (''12345678'' @ newline # ''12345678'' @ [newline]) = ([''12345678'', ''12345678''], True)"
proof -
  have 1: "take_line (''12345678'' @ newline # ''12345678'' @ [newline])
      = (''12345678'' @ [newline], Some (''12345678'' @ [newline]))"
    by (rule take_line_newline) simp
  have 2: "take_line (''12345678'' @ [newline]) = (''12345678'' @ [newline], Some [])"
    by (rule take_line_newline) simp
  show ?thesis
    apply (subst read_rg.simps)
    apply (simp only: 1 prod.case option.case line_text_newline)
    apply (subst read_rg.simps)
    apply (simp only: 2 prod.case option.case line_text_newline)
    apply (subst read_rg.simps)
    apply simp
    done
qed

section \<open>Truncation\<close>

lemma back_to_valid_max:
  "back_to_valid text n \<le> n \<and> valid_utf8 (take (back_to_valid text n) text)
   \<and> (\<forall>m. back_to_valid text n < m \<and> m \<le> n \<longrightarrow> \<not> valid_utf8 (take m text))"
  by (induction n) (auto simp: le_Suc_eq)

theorem truncate_output_longest_valid:
  "0 < m \<Longrightarrow> m < int (length text) \<Longrightarrow>
     \<exists>n. truncate_output text m = take n text @ truncated_hint \<and> n \<le> nat m \<and> valid_utf8 (take n text)
       \<and> (\<forall>k. n < k \<and> k \<le> nat m \<longrightarrow> \<not> valid_utf8 (take k text))"
  using back_to_valid_max [of "text" "nat m"] by (auto simp: truncate_output_def)

text \<open>
  The cut goes back to a place where everything before it is valid, so one invalid byte in the output
  of a tool, however early, removes all that follows it.
\<close>

lemma invalid_head: "0 < n \<Longrightarrow> \<not> valid_utf8 (take n (CHR 0xFF # text))"
  by (cases n) (simp_all add: valid_utf8_def rune_segs_nonempty decode_rune_def rune_error_def)

theorem invalid_byte_cuts_all:
  assumes "0 < m" "m \<le> int (length text)"
  shows "truncate_output (CHR 0xFF # text) m = truncated_hint"
proof -
  have "back_to_valid (CHR 0xFF # text) n = 0" for n
    using back_to_valid_max [of "CHR 0xFF # text" n] invalid_head by (metis gr0I)
  then show ?thesis using assms by (simp add: truncate_output_def)
qed

theorem invalid_byte_cuts_all_witness:
  "truncate_output (CHR 0xFF # ''found it'') 4 = truncated_hint"
  using invalid_byte_cuts_all [of 4 "''found it''"] by simp

section \<open>The cache is transparent\<close>

definition def_cache_ok :: "(string \<Rightarrow> 'r) \<Rightarrow> 'r def_re_cache \<Rightarrow> bool" where
  "def_cache_ok compile c \<longleftrightarrow>
     (case dc_map c of
        None \<Rightarrow> dc_order c = []
      | Some m \<Rightarrow> dom m = set (dc_order c) \<and> distinct (dc_order c) \<and> length (dc_order c) \<le> dc_cap c \<and> 0 < dc_cap c
          \<and> (\<forall>k r. m k = Some r \<longrightarrow> r = compile k))"

theorem def_re_get_transparent:
  assumes "def_cache_ok compile c"
  shows "fst (def_re_get compile name c) = compile name \<and> def_cache_ok compile (snd (def_re_get compile name c))"
proof -
  define c1 where "c1 = (case dc_map c of None \<Rightarrow> c\<lparr>dc_map := Some Map.empty, dc_cap := def_re_cache_cap\<rparr> | Some _ \<Rightarrow> c)"
  obtain m where m: "dc_map c1 = Some m" by (cases "dc_map c") (auto simp: c1_def)
  have ok: "dom m = set (dc_order c1)" "distinct (dc_order c1)" "length (dc_order c1) \<le> dc_cap c1" "0 < dc_cap c1"
    "\<And>k r. m k = Some r \<Longrightarrow> r = compile k"
    using assms m by (auto simp: def_cache_ok_def c1_def def_re_cache_cap_def split: option.splits)
  show ?thesis
  proof (cases "m name")
    case (Some r)
    then have "def_re_get compile name c = (r, c1)" using m by (simp add: def_re_get_def c1_def [symmetric])
    then show ?thesis using ok Some m by (auto simp: def_cache_ok_def)
  next
    case None
    then have new: "name \<notin> set (dc_order c1)" using ok(1) by (metis domIff)
    show ?thesis
    proof (cases "dc_cap c1 < length (dc_order c1 @ [name])")
      case True
      then obtain x xs where x: "dc_order c1 = x # xs" using ok(4) by (cases "dc_order c1") auto
      have g: "def_re_get compile name c =
          (compile name, c1\<lparr>dc_map := Some (m(name \<mapsto> compile name, x := None)), dc_order := xs @ [name]\<rparr>)"
        using True None m x by (simp add: def_re_get_def c1_def [symmetric] Let_def)
      have "dom (m(name \<mapsto> compile name, x := None)) = set (xs @ [name])"
        using ok(1,2) x new by auto
      then show ?thesis
        unfolding g using ok new x by (auto simp: def_cache_ok_def split: if_splits)
    next
      case False
      have g: "def_re_get compile name c =
          (compile name, c1\<lparr>dc_map := Some (m(name \<mapsto> compile name)), dc_order := dc_order c1 @ [name]\<rparr>)"
        using False None m by (simp add: def_re_get_def c1_def [symmetric] Let_def)
      show ?thesis
        unfolding g using ok new False by (auto simp: def_cache_ok_def split: if_splits)
    qed
  qed
qed

end
