(* ===== verification/Module_Disk.thy ===== *)
theory Module_Disk
  imports Go_Filepath
begin

text \<open>
  What the readers of module files (\<^verbatim>\<open>resolution/go_module.go\<close>, \<^verbatim>\<open>path_aliases.go\<close>,
  \<^verbatim>\<open>workspace_packages.go\<close>, \<^verbatim>\<open>cargo_workspace.go\<close>) share: the disk they ask, the package-level caches
  stamped with modification times, and the choice of the longest name that leads an import path.
\<close>

section \<open>The disk\<close>

text \<open>
  \<open>dk_stat\<close> is \<^verbatim>\<open>os.Stat\<close>: whether a path is a directory, and its modification time; \<open>dk_there\<close> whether
  \<^verbatim>\<open>Lstat\<close> finds it; \<open>dk_read\<close> its contents; \<open>dk_dir\<close> the entries of \<^verbatim>\<open>os.ReadDir\<close> in their order, with
  \<^verbatim>\<open>IsDir\<close>; \<open>dk_tree\<close> the directories \<^verbatim>\<open>filepath.WalkDir\<close> finds below a directory.  \<open>dk_iter\<close> is the
  order in which a loop over a Go map meets its keys.
\<close>

datatype dir_tree = Dirs "(string \<times> dir_tree) list"

record disk =
  dk_stat :: "string \<Rightarrow> (bool \<times> int) option"
  dk_there :: "string \<Rightarrow> bool"
  dk_read :: "string \<Rightarrow> string option"
  dk_dir :: "string \<Rightarrow> (string \<times> bool) list option"
  dk_tree :: "string \<Rightarrow> dir_tree option"
  dk_iter :: "string list \<Rightarrow> string list"

definition stat_ok :: "disk \<Rightarrow> string \<Rightarrow> bool" where
  "stat_ok d p \<longleftrightarrow> dk_stat d p \<noteq> None"

definition is_file :: "disk \<Rightarrow> string \<Rightarrow> bool" where
  "is_file d p \<longleftrightarrow> (case dk_stat d p of Some (dir, _) \<Rightarrow> \<not> dir | None \<Rightarrow> False)"

definition mod_time :: "disk \<Rightarrow> string \<Rightarrow> int option" where
  "mod_time d p = map_option snd (dk_stat d p)"

lemma is_file_there: "is_file d p \<Longrightarrow> stat_ok d p"
  by (auto simp: is_file_def stat_ok_def split: option.splits)

text \<open>\<^verbatim>\<open>uniqueExisting\<close> and \<^verbatim>\<open>expandWithExt\<close> of \<^verbatim>\<open>import_resolver.go\<close>.\<close>

definition unique_existing :: "disk \<Rightarrow> string list \<Rightarrow> string list" where
  "unique_existing d paths = dedup_by (\<lambda>p. p) {} (filter (\<lambda>p. p \<noteq> [] \<and> stat_ok d p) paths)"

definition expand_with_ext :: "disk \<Rightarrow> string \<Rightarrow> string list \<Rightarrow> string list" where
  "expand_with_ext d base exts = unique_existing d (filter (is_file d) (base # map (\<lambda>s. base @ s) exts))"

lemma unique_existing_ok:
  "set (unique_existing d ps) = {p \<in> set ps. p \<noteq> [] \<and> stat_ok d p}" "distinct (unique_existing d ps)"
  using keys_dedup_by [of "\<lambda>p. p" "{}" "filter (\<lambda>p. p \<noteq> [] \<and> stat_ok d p) ps"]
    distinct_dedup_by [of "\<lambda>p. p" "{}" "filter (\<lambda>p. p \<noteq> [] \<and> stat_ok d p) ps"]
  by (auto simp: unique_existing_def)

text \<open>What an import resolves to: files, each once.\<close>

definition found_files :: "disk \<Rightarrow> string list \<Rightarrow> bool" where
  "found_files d ps \<longleftrightarrow> distinct ps \<and> (\<forall>p\<in>set ps. p \<noteq> [] \<and> is_file d p)"

lemma found_Nil [simp]: "found_files d []"
  by (simp add: found_files_def)

lemma found_expand [simp]: "found_files d (expand_with_ext d base exts)"
  by (auto simp: found_files_def expand_with_ext_def unique_existing_ok)

lemma expand_with_ext_in:
  "p \<in> set (expand_with_ext d base exts) \<longleftrightarrow> p \<noteq> [] \<and> is_file d p \<and> (p = base \<or> (\<exists>s\<in>set exts. p = base @ s))"
  by (auto simp: expand_with_ext_def unique_existing_ok is_file_there)

text \<open>A map is met in some order of its keys.\<close>

definition fair_iter :: "disk \<Rightarrow> bool" where
  "fair_iter d \<longleftrightarrow> (\<forall>ks. set (dk_iter d ks) = set ks)"

text \<open>The contents of a file are determined by its path and its modification time.\<close>

definition dated :: "(string \<Rightarrow> int \<Rightarrow> string option) \<Rightarrow> disk set" where
  "dated h = {d. \<forall>p t. mod_time d p = Some t \<longrightarrow> dk_read d p = h p t}"

text \<open>The quotes the readers trim.\<close>

definition quotes :: "char set" where
  "quotes = {CHR ''\"'', CHR 0x27}"

section \<open>Caches with a time stamp\<close>

text \<open>
  The four caches have the same shape: an entry is used while its stamp is the present one, otherwise
  the value is read again and stored; a value that cannot be read is not stored.
\<close>

type_synonym ('k, 'm) stamped = "'k \<Rightarrow> (int \<times> 'm) option"

definition load_stamped ::
    "('k \<Rightarrow> int option) \<Rightarrow> ('k \<Rightarrow> 'm option) \<Rightarrow> 'k \<Rightarrow> ('k, 'm) stamped \<Rightarrow> 'm option \<times> ('k, 'm) stamped" where
  "load_stamped stamp fresh k c =
     (case stamp k of
        None \<Rightarrow> (None, c)
      | Some t \<Rightarrow>
          (case c k of
             Some (t', m) \<Rightarrow>
               (if t' = t then (Some m, c)
                else (case fresh k of None \<Rightarrow> (None, c) | Some m \<Rightarrow> (Some m, c(k \<mapsto> (t, m)))))
           | None \<Rightarrow> (case fresh k of None \<Rightarrow> (None, c) | Some m \<Rightarrow> (Some m, c(k \<mapsto> (t, m))))))"

text \<open>Reading without a cache.\<close>

definition load_fresh :: "('k \<Rightarrow> int option) \<Rightarrow> ('k \<Rightarrow> 'm option) \<Rightarrow> 'k \<Rightarrow> 'm option" where
  "load_fresh stamp fresh k = (case stamp k of None \<Rightarrow> None | Some t \<Rightarrow> fresh k)"

text \<open>An entry that could be used on one of the disks is what reading there would give.\<close>

definition coherent ::
    "('d \<Rightarrow> 'k \<Rightarrow> int option) \<Rightarrow> ('d \<Rightarrow> 'k \<Rightarrow> 'm option) \<Rightarrow> 'd set \<Rightarrow> ('k, 'm) stamped \<Rightarrow> bool" where
  "coherent stamp fresh disks c \<longleftrightarrow>
     (\<forall>d\<in>disks. \<forall>k t m. c k = Some (t, m) \<and> stamp d k = Some t \<longrightarrow> fresh d k = Some m)"

lemma coherent_empty [simp]: "coherent stamp fresh disks Map.empty"
  by (simp add: coherent_def)

locale stamped_cache =
  fixes stamp :: "'d \<Rightarrow> 'k \<Rightarrow> int option"
    and fresh :: "'d \<Rightarrow> 'k \<Rightarrow> 'm option"
    and disks :: "'d set"
  assumes stamp_tells:
    "d \<in> disks \<Longrightarrow> d' \<in> disks \<Longrightarrow> stamp d k = Some t \<Longrightarrow> stamp d' k = Some t \<Longrightarrow> fresh d k = fresh d' k"
begin

lemma load_is_fresh:
  assumes "coherent stamp fresh disks c" "d \<in> disks"
  shows "fst (load_stamped (stamp d) (fresh d) k c) = load_fresh (stamp d) (fresh d) k"
  using assms by (auto simp: load_stamped_def load_fresh_def coherent_def split: option.splits)

lemma load_keeps:
  assumes "coherent stamp fresh disks c" "d \<in> disks"
  shows "coherent stamp fresh disks (snd (load_stamped (stamp d) (fresh d) k c))"
proof -
  have new: "coherent stamp fresh disks (c(k \<mapsto> (t, m)))" if "stamp d k = Some t" "fresh d k = Some m" for t m
    unfolding coherent_def
  proof (intro ballI allI impI)
    fix d' j u n assume a: "d' \<in> disks" "(c(k \<mapsto> (t, m))) j = Some (u, n) \<and> stamp d' j = Some u"
    show "fresh d' j = Some n"
    proof (cases "j = k")
      case True
      then show ?thesis using a that stamp_tells [OF a(1) assms(2), of k t] by simp
    next
      case False
      then show ?thesis using a assms(1) by (simp add: coherent_def)
    qed
  qed
  show ?thesis using new assms(1) by (simp add: load_stamped_def split: option.splits)
qed

lemmas load_ok = load_is_fresh load_keeps

end

section \<open>The longest name that leads a path\<close>

definition leads :: "string \<Rightarrow> string \<Rightarrow> bool" where
  "leads name path \<longleftrightarrow> path = name \<or> has_prefix path (name @ ''/'')"

text \<open>The loop over a map of names that \<^verbatim>\<open>ResolveGoImport\<close> and \<^verbatim>\<open>ResolveWorkspaceImport\<close> make.\<close>

fun best_name :: "string \<Rightarrow> string \<Rightarrow> string list \<Rightarrow> string" where
  "best_name path best [] = best"
| "best_name path best (name # names) =
     best_name path (if leads name path \<and> length best < length name then name else best) names"

text \<open>Two names of the same length that lead the same path are the same.\<close>

lemma leads_prefix: "leads name path \<Longrightarrow> prefix name path"
  by (auto simp: leads_def has_prefix_def prefix_def)

lemma leads_same_length: "leads a path \<Longrightarrow> leads b path \<Longrightarrow> length a = length b \<Longrightarrow> a = b"
  by (metis append_eq_append_conv leads_prefix prefix_def)

lemma best_name_best:
  "(best_name path best names = best \<or> best_name path best names \<in> set names \<and> leads (best_name path best names) path)
   \<and> length best \<le> length (best_name path best names)
   \<and> (\<forall>n\<in>set names. leads n path \<longrightarrow> length n \<le> length (best_name path best names))"
proof (induction names arbitrary: best)
  case (Cons n names)
  let ?b = "if leads n path \<and> length best < length n then n else best"
  note ih = Cons.IH [of ?b]
  have "length best \<le> length ?b" "leads n path \<longrightarrow> length n \<le> length ?b" by auto
  then show ?case using ih by (auto split: if_splits)
qed simp

text \<open>The chosen name is the longest non-empty one, in whatever order the map is met.\<close>

lemma best_name_iff:
  assumes "b \<noteq> []"
  shows "best_name path [] names = b \<longleftrightarrow>
    b \<in> set names \<and> leads b path \<and> (\<forall>n\<in>set names. leads n path \<longrightarrow> length n \<le> length b)"
proof
  assume "best_name path [] names = b"
  then show "b \<in> set names \<and> leads b path \<and> (\<forall>n\<in>set names. leads n path \<longrightarrow> length n \<le> length b)"
    using best_name_best [of path "[]" names] assms by auto
next
  let ?x = "best_name path [] names"
  assume b: "b \<in> set names \<and> leads b path \<and> (\<forall>n\<in>set names. leads n path \<longrightarrow> length n \<le> length b)"
  then have le: "length b \<le> length ?x" using best_name_best [of path "[]" names] by auto
  then have "?x \<noteq> []" using assms by auto
  then have x: "?x \<in> set names" "leads ?x path" using best_name_best [of path "[]" names] by auto
  then have "length ?x = length b" using b le by (simp add: le_antisym)
  then show "?x = b" using leads_same_length x(2) b by blast
qed

lemma best_name_none:
  "best_name path [] names = [] \<longleftrightarrow> (\<forall>n\<in>set names. leads n path \<longrightarrow> n = [])"
  using best_name_best [of path "[]" names] by auto

lemma best_name_order:
  assumes "set names = set names'"
  shows "best_name path [] names = best_name path [] names'"
proof (cases "best_name path [] names = []")
  case True
  then show ?thesis using best_name_none assms by metis
next
  case False
  then show ?thesis using best_name_iff assms by metis
qed

end
