(* ===== verification/Go_Module.thy ===== *)
theory Go_Module
  imports Module_Disk Go_Regexp "HOL-Library.AList"
begin

text \<open>
  Go modules (\<^verbatim>\<open>resolution/go_module.go\<close>): reading \<^verbatim>\<open>go.mod\<close> with its local replacements, the package
  directory of an import path, and the files of a package.
\<close>

section \<open>Reading go.mod\<close>

text \<open>\<^verbatim>\<open>(?m)^\s*module\s+(\S+)\s*$\<close> and the pattern of a replacement.\<close>

definition graph_char :: "char \<Rightarrow> bool" where
  "graph_char c \<longleftrightarrow> \<not> re_space c"

definition go_module_re :: re where
  "go_module_re =
     seq [Line_start, any_of re_space, lit ''module'', some_of re_space, Group 1 (some_of graph_char),
          any_of re_space, Line_end]"

definition version_re :: re where
  "version_re = Maybe (seq [some_of re_space, Byte (\<lambda>c. c = CHR ''v''), some_of graph_char])"

definition go_replace_re :: re where
  "go_replace_re =
     seq [Text_start, any_of re_space, Group 1 (some_of graph_char), version_re, any_of re_space, lit ''=>'',
          any_of re_space, Group 2 (some_of graph_char), version_re, any_of re_space, Text_end]"

record go_module =
  gm_path :: string
  gm_root :: string
  gm_replace :: "(string \<times> string) list"

definition parse_replace_line :: "string \<Rightarrow> go_module \<Rightarrow> go_module" where
  "parse_replace_line line gm =
     (case find_submatch go_replace_re line of
        None \<Rightarrow> gm
      | Some m \<Rightarrow>
          (let old_path = trim_set quotes (m 1); new_path = trim_set quotes (m 2) in
           if old_path = [] \<or> new_path = [] then gm
           else if \<not> has_prefix new_path ''.'' \<and> \<not> is_abs new_path then gm
           else gm\<lparr>gm_replace := AList.update old_path
                     (if is_abs new_path then clean new_path else clean (filepath_join [gm_root gm, new_path]))
                     (gm_replace gm)\<rparr>))"

fun replace_lines :: "bool \<Rightarrow> string list \<Rightarrow> go_module \<Rightarrow> go_module" where
  "replace_lines in_replace [] gm = gm"
| "replace_lines in_replace (line # ls) gm =
     (let t = trim_space line in
      if t = [] then replace_lines in_replace ls gm
      else if has_prefix t ''replace ('' then replace_lines True ls gm
      else if in_replace then
        (if t = '')'' then replace_lines False ls gm else replace_lines True ls (parse_replace_line t gm))
      else if has_prefix t ''replace '' then
        replace_lines False ls (parse_replace_line (trim_space (trim_prefix t ''replace'')) gm)
      else replace_lines False ls gm)"

fun before_comment :: "string \<Rightarrow> string" where
  "before_comment (a # b # r) = (if a = slash \<and> b = slash then [] else a # before_comment (b # r))"
| "before_comment s = s"

definition parse_go_mod :: "string \<Rightarrow> string \<Rightarrow> go_module option" where
  "parse_go_mod project_root content =
     (let stripped = concat (map (\<lambda>line. before_comment line @ [newline]) (split_on newline content)) in
      case find_submatch go_module_re stripped of
        None \<Rightarrow> None
      | Some m \<Rightarrow>
          (let module_path = trim_set quotes (m 1) in
           if module_path = [] then None
           else Some (replace_lines False (split_on newline stripped)
                  \<lparr>gm_path = module_path, gm_root = project_root, gm_replace = []\<rparr>)))"

section \<open>Loading\<close>

text \<open>The cache is keyed by the root; a file without a usable module line is remembered as such.\<close>

definition go_mod_stamp :: "disk \<Rightarrow> string \<Rightarrow> int option" where
  "go_mod_stamp d root = mod_time d (filepath_join [root, ''go.mod''])"

definition read_go_mod :: "disk \<Rightarrow> string \<Rightarrow> go_module option option" where
  "read_go_mod d root = map_option (parse_go_mod root) (dk_read d (filepath_join [root, ''go.mod'']))"

type_synonym go_cache = "(string, go_module option) stamped"

definition load_go_module :: "disk \<Rightarrow> string \<Rightarrow> go_cache \<Rightarrow> go_module option \<times> go_cache" where
  "load_go_module d root0 c =
     (let root = clean root0; (r, c') = load_stamped (go_mod_stamp d) (read_go_mod d) root c
      in (case r of None \<Rightarrow> None | Some m \<Rightarrow> m, c'))"

interpretation go_mod: stamped_cache go_mod_stamp read_go_mod "dated h" for h
  by unfold_locales (auto simp: go_mod_stamp_def read_go_mod_def dated_def)

section \<open>The package directory of an import\<close>

definition resolve_go_import :: "(string list \<Rightarrow> string list) \<Rightarrow> go_module \<Rightarrow> string \<Rightarrow> string" where
  "resolve_go_import iter m import_path =
     (if import_path = [] then []
      else
        (let best = best_name import_path [] (iter (map fst (gm_replace m))) in
         if best \<noteq> [] then
           (let best_dir = the (map_of (gm_replace m) best);
                rest = trim_prefix (trim_prefix import_path best) ''/''
            in if rest = [] then best_dir else filepath_join [best_dir, rest])
         else if import_path = gm_path m then gm_root m
         else if has_prefix import_path (gm_path m @ ''/'') then
           filepath_join [gm_root m, trim_prefix import_path (gm_path m @ ''/'')]
         else []))"

definition list_go_package_files :: "disk \<Rightarrow> string \<Rightarrow> string list" where
  "list_go_package_files d dir =
     (case dk_dir d dir of
        None \<Rightarrow> []
      | Some entries \<Rightarrow>
          (let names = map fst (filter (\<lambda>e. \<not> snd e) entries);
               out = filter (\<lambda>n. has_suffix n ''.go'' \<and> \<not> has_suffix n ''_test.go'') names
           in map (\<lambda>n. filepath_join [dir, n]) (if out = [] then filter (\<lambda>n. has_suffix n ''.go'') names else out)))"

section \<open>The longest replacement\<close>

text \<open>Where an import leads: the rest of its path below a directory.\<close>

definition below_dir :: "string \<Rightarrow> string \<Rightarrow> string" where
  "below_dir dir rest = (if rest = [] then dir else filepath_join [dir, rest])"

lemma leads_rest: "leads name path \<Longrightarrow> trim_prefix (trim_prefix path name) ''/'' = drop (Suc (length name)) path"
  by (auto simp: leads_def has_prefix_iff trim_prefix_def prefix_def)

text \<open>
  An import path is looked up under the longest replacement that leads it,
  whatever the order in which the map is met; without one, below the module's own directory if the
  module's path leads it; otherwise it has no local directory.
\<close>

theorem go_import_longest:
  assumes "\<forall>ks. set (iter ks) = set ks" "p \<noteq> []" "\<forall>old\<in>fst ` set (gm_replace m). old \<noteq> []"
  shows "(\<forall>old dir. map_of (gm_replace m) old = Some dir \<and> leads old p
            \<and> (\<forall>k\<in>fst ` set (gm_replace m). leads k p \<longrightarrow> length k \<le> length old)
            \<longrightarrow> resolve_go_import iter m p = below_dir dir (drop (Suc (length old)) p))
    \<and> ((\<forall>k\<in>fst ` set (gm_replace m). \<not> leads k p) \<longrightarrow>
         resolve_go_import iter m p =
           (if p = gm_path m then gm_root m
            else if leads (gm_path m) p then filepath_join [gm_root m, drop (Suc (length (gm_path m))) p]
            else []))"
proof (intro conjI allI impI)
  let ?keys = "iter (map fst (gm_replace m))"
  have keys: "set ?keys = fst ` set (gm_replace m)" using assms(1) by simp
  {
    fix old dir
    assume a: "map_of (gm_replace m) old = Some dir \<and> leads old p
      \<and> (\<forall>k\<in>fst ` set (gm_replace m). leads k p \<longrightarrow> length k \<le> length old)"
    have "old \<in> fst ` set (gm_replace m)" using a by (metis fst_conv image_iff map_of_SomeD)
    then have ne: "old \<noteq> []" using assms(3) by blast
    have "best_name p [] ?keys = old"
      unfolding best_name_iff [OF ne] keys using a \<open>old \<in> fst ` set (gm_replace m)\<close> by blast
    then show "resolve_go_import iter m p = below_dir dir (drop (Suc (length old)) p)"
      using a ne assms(2) leads_rest [of old p] by (simp add: resolve_go_import_def below_dir_def)
  }
  assume "\<forall>k\<in>fst ` set (gm_replace m). \<not> leads k p"
  then have "best_name p [] ?keys = []" unfolding best_name_none keys by blast
  then show "resolve_go_import iter m p =
      (if p = gm_path m then gm_root m
       else if leads (gm_path m) p then filepath_join [gm_root m, drop (Suc (length (gm_path m))) p] else [])"
    using assms(2) by (auto simp: resolve_go_import_def leads_def has_prefix_iff trim_prefix_def)
qed

section \<open>Reading back a go.mod\<close>

text \<open>The layout \<^verbatim>\<open>go mod edit\<close> writes for single replacements, and tokens without special characters.\<close>

definition plain_token :: "string \<Rightarrow> bool" where
  "plain_token t \<longleftrightarrow> t \<noteq> [] \<and> (\<forall>c\<in>set t. 33 \<le> byte_of c \<and> byte_of c \<le> 126) \<and> set t \<inter> quotes = {}
     \<and> before_comment t = t"

definition replace_text :: "string \<times> string \<Rightarrow> string" where
  "replace_text r = ''replace '' @ fst r @ '' => '' @ snd r"

definition go_mod_text :: "string \<Rightarrow> (string \<times> string) list \<Rightarrow> string" where
  "go_mod_text module_path rs = concat (map (\<lambda>l. l @ [newline]) ((''module '' @ module_path) # map replace_text rs))"

definition replace_dir :: "string \<Rightarrow> string \<Rightarrow> string" where
  "replace_dir root new = (if is_abs new then clean new else clean (filepath_join [root, new]))"

lemma graph_tokens:
  assumes "plain_token t"
  shows "\<forall>c\<in>set t. graph_char c"
proof
  fix c assume "c \<in> set t"
  then have c: "33 \<le> byte_of c" using assms by (simp add: plain_token_def)
  show "graph_char c"
  proof (rule ccontr)
    assume "\<not> graph_char c"
    then have "c = CHR 0x09 \<or> c = newline \<or> c = CHR 0x0C \<or> c = CHR 0x0D \<or> c = CHR '' ''"
      by (simp add: graph_char_def re_space_def)
    then show False using c by auto
  qed
qed

lemma run_length_all: "\<forall>c\<in>set t. P c \<Longrightarrow> run_length P (t @ r) = length t + run_length P r"
  by (simp add: run_length_def)

lemma graph_space [simp]: "graph_char (CHR '' '') = False" "re_space (CHR '' '') = True"
  "graph_char newline = False" "re_space newline = True" "re_space (CHR ''='') = False" "graph_char (CHR ''='') = True"
  "re_space (CHR ''m'') = False"
  by (simp_all add: graph_char_def re_space_def)

lemma version_re_none:
  assumes "a = [] \<or> (\<exists>r. a = CHR '' '' # CHR ''='' # r)"
  shows "matches version_re (b, a, g) = [(b, a, g)]"
proof -
  have "matches (seq [some_of re_space, Byte (\<lambda>c. c = CHR ''v''), some_of graph_char]) (b, a, g) = []"
    using assms by (auto simp: matches_seq matches_some_of taken_def)
  then show ?thesis by (simp only: version_re_def matches.simps append_Nil)
qed

text \<open>A place after the first group, or both, with what is left.\<close>

lemma no_space_run: "a = [] \<or> \<not> re_space (hd a) \<Longrightarrow> run_length re_space a = 0"
  by (cases a) auto

lemma stops_line_end: "stops re_space Text_end"
  by (simp add: stops_def)

lemma replace_tail:
  "\<exists>t. matches (seq [version_re, any_of re_space, Text_end]) (b, [], g) = (b, [], g) # t"
  by (simp add: matches_seq version_re_none matches_any_of taken_def)

lemma replace_new:
  assumes "new \<noteq> []" "\<forall>c\<in>set new. graph_char c"
  shows "\<exists>b t. matches (seq [any_of re_space, Group 2 (some_of graph_char), version_re, any_of re_space, Text_end])
     (b0, CHR '' '' # new, g) = (b, [], g(2 \<mapsto> new)) # t"
proof -
  have run: "run_length graph_char new = length new" using run_length_all [of new graph_char "[]"] assms(2) by simp
  have sp: "run_length re_space (CHR '' '' # new) = 1"
    using assms by (cases new) (auto simp: graph_char_def)
  obtain t where t: "matches (seq [version_re, any_of re_space, Text_end]) (rev new @ CHR '' '' # b0, [], g(2 \<mapsto> new))
      = (rev new @ CHR '' '' # b0, [], g(2 \<mapsto> new)) # t" using replace_tail by blast
  have "\<exists>u. matches (seq [Group 2 (some_of graph_char), version_re, any_of re_space, Text_end]) (CHR '' '' # b0, new, g)
      = (rev new @ CHR '' '' # b0, [], g(2 \<mapsto> new)) # u"
    by (rule first_of_group) (use assms(1) t in \<open>simp_all add: run keep_group_def taken_def\<close>)
  then obtain u where u: "matches (seq [Group 2 (some_of graph_char), version_re, any_of re_space, Text_end])
      (CHR '' '' # b0, new, g) = (rev new @ CHR '' '' # b0, [], g(2 \<mapsto> new)) # u" by blast
  have "\<exists>v. matches (seq (any_of re_space # [Group 2 (some_of graph_char), version_re, any_of re_space, Text_end]))
      (b0, CHR '' '' # new, g) = (rev new @ CHR '' '' # b0, [], g(2 \<mapsto> new)) # v"
    by (rule first_of_any) (use u in \<open>simp_all only: sp taken_def prod.case take_Suc_Cons drop_Suc_Cons One_nat_def
      take_0 drop_0 rev.simps append.simps list.distinct simp_thms\<close>)
  then show ?thesis by (intro exI [of _ "rev new @ CHR '' '' # b0"]) (simp only:)
qed

lemma replace_line_match:
  assumes "old \<noteq> []" "\<forall>c\<in>set old. graph_char c" "new \<noteq> []" "\<forall>c\<in>set new. graph_char c"
  shows "\<exists>m. find_submatch go_replace_re (old @ '' => '' @ new) = Some m \<and> m 1 = old \<and> m 2 = new"
proof -
  let ?rest = "[any_of re_space, Group 2 (some_of graph_char), version_re, any_of re_space, Text_end]"
  let ?line = "old @ CHR '' '' # CHR ''='' # CHR ''>'' # CHR '' '' # new"
  let ?g = "no_groups(1 \<mapsto> old)"
  let ?a = "CHR '' '' # CHR ''='' # CHR ''>'' # CHR '' '' # new"
  have run: "run_length graph_char ?line = length old" using run_length_all [OF assms(2), of ?a] by simp
  obtain b t where t: "matches (seq ?rest) (CHR ''>'' # CHR ''='' # CHR '' '' # rev old, CHR '' '' # new, ?g)
      = (b, [], ?g(2 \<mapsto> new)) # t"
    using replace_new [OF assms(3,4)] by blast
  have arrow: "matches (seq (lit ''=>'' # ?rest)) (CHR '' '' # rev old, CHR ''='' # CHR ''>'' # CHR '' '' # new, ?g)
      = (b, [], ?g(2 \<mapsto> new)) # t"
    by (subst seq_lit) (simp_all add: taken_def t del: seq.simps One_nat_def)
  have st: "stops re_space (seq (lit ''=>'' # ?rest))"
    by (auto simp: stops_def seq_lit simp del: seq.simps)
  have "matches (seq (any_of re_space # lit ''=>'' # ?rest)) (rev old, ?a, ?g) = (b, [], ?g(2 \<mapsto> new)) # t"
    using arrow by (subst seq_any_of_stops [OF _ st]) (simp_all add: taken_def del: seq.simps One_nat_def)
  then have v: "matches (seq (version_re # any_of re_space # lit ''=>'' # ?rest)) (rev old, ?a, ?g)
      = (b, [], ?g(2 \<mapsto> new)) # t"
    by (subst matches_seq) (simp_all add: version_re_none del: seq.simps One_nat_def)
  have "\<exists>u. matches (seq (Group 1 (some_of graph_char) # version_re # any_of re_space # lit ''=>'' # ?rest)) ([], ?line, no_groups)
      = (b, [], ?g(2 \<mapsto> new)) # u"
    by (rule first_of_group) (use assms(1) v in \<open>simp_all add: run keep_group_def taken_def del: seq.simps One_nat_def\<close>)
  then obtain u where u: "matches (seq (Group 1 (some_of graph_char) # version_re # any_of re_space # lit ''=>'' # ?rest))
      ([], ?line, no_groups) = (b, [], ?g(2 \<mapsto> new)) # u" by blast
  have z: "run_length re_space ?line = 0"
    using assms(1,2) by (intro no_space_run) (cases old, auto simp: graph_char_def)
  have "\<exists>w. matches (seq (any_of re_space # Group 1 (some_of graph_char) # version_re # any_of re_space # lit ''=>'' # ?rest))
      ([], ?line, no_groups) = (b, [], ?g(2 \<mapsto> new)) # w"
    by (rule first_of_any) (use u in \<open>simp_all only: z taken_0 list.distinct simp_thms\<close>)
  then obtain w where w0: "matches (seq (any_of re_space # Group 1 (some_of graph_char) # version_re # any_of re_space # lit ''=>'' # ?rest))
      ([], ?line, no_groups) = (b, [], ?g(2 \<mapsto> new)) # w" by blast
  have w: "matches go_replace_re ([], ?line, no_groups) = (b, [], ?g(2 \<mapsto> new)) # w"
    unfolding go_replace_re_def by (subst matches_seq) (simp_all add: w0 del: seq.simps One_nat_def)
  then have "find_from go_replace_re [] ?line = Some ([], b, [], ?g(2 \<mapsto> new))"
    by (cases ?line) simp_all
  then show ?thesis by (simp add: find_submatch_def)
qed

lemma module_line_match:
  assumes "m \<noteq> []" "\<forall>c\<in>set m. graph_char c"
  shows "\<exists>g. find_submatch go_module_re (''module '' @ m @ newline # r) = Some g \<and> g 1 = m"
proof -
  let ?g = "no_groups(1 \<mapsto> m)"
  let ?text = "''module '' @ m @ newline # r"
  have tail: "\<exists>b a t. matches (seq [any_of re_space, Line_end]) (b0, newline # r, g) = (b, a, g) # t" for b0 g
  proof -
    let ?ps = "matches (seq [any_of re_space, Line_end]) (b0, newline # r, g)"
    have ps: "?ps = filter (\<lambda>p. fst (snd p) = [] \<or> hd (fst (snd p)) = newline)
        (map (\<lambda>k. taken k (b0, newline # r, g)) (rev [0..<Suc (run_length re_space (newline # r))]))"
      by (simp only: matches_seq [of "[Line_end]"] list.distinct simp_thms matches_any_of seq.simps matches.simps
            concat_filter)
    have "0 \<in> set (rev [0..<Suc (run_length re_space (newline # r))])" by (simp del: upt_Suc run_length_Cons)
    from imageI [OF this, of "\<lambda>k. taken k (b0, newline # r, g)"]
    have "taken 0 (b0, newline # r, g) \<in> set ?ps"
      unfolding ps set_filter mem_Collect_eq set_map by (intro conjI) simp_all
    then have "?ps \<noteq> []" by (metis empty_iff list.set(1))
    moreover have "\<forall>p\<in>set ?ps. snd (snd p) = g" unfolding ps by (auto simp: taken_def)
    moreover obtain q t where q: "?ps = q # t" using \<open>?ps \<noteq> []\<close> by (cases ?ps) (blast, blast)
    ultimately have "snd (snd q) = g" by (metis list.set_intros(1))
    then show ?thesis using q by (cases q) (simp only: snd_conv, blast)
  qed
  have run: "run_length graph_char (m @ newline # r) = length m"
    using run_length_all [OF assms(2), of "newline # r"] by simp
  obtain b a t where t: "matches (seq [any_of re_space, Line_end]) (rev m @ rev ''module '', newline # r, ?g) = (b, a, ?g) # t"
    using tail by blast
  have "\<exists>u. matches (seq (Group 1 (some_of graph_char) # [any_of re_space, Line_end])) (rev ''module '', m @ newline # r, no_groups)
      = (b, a, ?g) # u"
    by (rule first_of_group) (use assms(1) t in \<open>simp_all add: run keep_group_def taken_def del: seq.simps One_nat_def\<close>)
  then obtain u where u: "matches (seq (Group 1 (some_of graph_char) # [any_of re_space, Line_end]))
      (rev ''module '', m @ newline # r, no_groups) = (b, a, ?g) # u" by blast
  have sp: "run_length re_space (CHR '' '' # m @ newline # r) = Suc 0"
    using assms by (cases m) (auto simp: graph_char_def)
  have st: "stops re_space (seq (Group 1 (some_of graph_char) # [any_of re_space, Line_end]))"
    by (auto simp: stops_def matches_seq matches_group_some_of graph_char_def simp del: seq.simps matches.simps(7))
  have v: "matches (seq (some_of re_space # Group 1 (some_of graph_char) # [any_of re_space, Line_end]))
      (rev ''module'', CHR '' '' # m @ newline # r, no_groups) = (b, a, ?g) # u"
    by (subst seq_some_of_stops [OF _ st]) (use u in \<open>simp_all add: sp taken_def del: seq.simps One_nat_def run_length_Cons\<close>)
  have l: "matches (seq (lit ''module'' # some_of re_space # Group 1 (some_of graph_char) # [any_of re_space, Line_end]))
      ([], ?text, no_groups) = (b, a, ?g) # u"
    by (subst seq_lit) (use v in \<open>simp_all add: taken_def del: seq.simps One_nat_def\<close>)
  have z: "run_length re_space ?text = 0" by simp
  have "\<exists>w. matches (seq (any_of re_space # lit ''module'' # some_of re_space # Group 1 (some_of graph_char) # [any_of re_space, Line_end]))
      ([], ?text, no_groups) = (b, a, ?g) # w"
    by (rule first_of_any) (use l in \<open>simp_all only: z taken_0 list.distinct simp_thms\<close>)
  then obtain w where w0: "matches (seq (any_of re_space # lit ''module'' # some_of re_space # Group 1 (some_of graph_char)
      # [any_of re_space, Line_end])) ([], ?text, no_groups) = (b, a, ?g) # w" by blast
  have w: "matches go_module_re ([], ?text, no_groups) = (b, a, ?g) # w"
    unfolding go_module_re_def by (subst matches_seq) (use w0 in \<open>simp_all del: seq.simps One_nat_def\<close>)
  then have "find_from go_module_re [] ?text = Some ([], b, a, ?g)" by simp
  then show ?thesis by (simp add: find_submatch_def)
qed

text \<open>Lines of tokens survive the removal of comments and the trimming.\<close>

lemma before_comment_tokens:
  "before_comment t = t \<Longrightarrow> before_comment (t @ CHR '' '' # r) = t @ CHR '' '' # before_comment r"
proof (induction t rule: before_comment.induct)
  case (1 a b u)
  then show ?case by (auto split: if_splits)
qed (cases r; auto)+

lemma before_comment_arrow: "before_comment (CHR ''='' # CHR ''>'' # CHR '' '' # r) = CHR ''='' # CHR ''>'' # CHR '' '' # before_comment r"
  by (cases r) simp_all

lemma token_line:
  assumes "plain_token o1" "plain_token n1"
  shows "before_comment (replace_text (o1, n1)) = replace_text (o1, n1)"
proof -
  have "before_comment (o1 @ CHR '' '' # CHR ''='' # CHR ''>'' # CHR '' '' # n1)
      = o1 @ CHR '' '' # CHR ''='' # CHR ''>'' # CHR '' '' # n1"
    using assms by (simp add: before_comment_tokens before_comment_arrow plain_token_def del: before_comment.simps)
  then have "before_comment (''replace'' @ CHR '' '' # o1 @ CHR '' '' # CHR ''='' # CHR ''>'' # CHR '' '' # n1)
      = ''replace'' @ CHR '' '' # o1 @ CHR '' '' # CHR ''='' # CHR ''>'' # CHR '' '' # n1"
    by (subst before_comment_tokens) simp_all
  then show ?thesis by (simp add: replace_text_def)
qed

lemma visible_ascii: "\<forall>c\<in>set s. 32 \<le> byte_of c \<and> byte_of c \<le> 126 \<Longrightarrow> ascii_string s"
  by (fastforce simp: ascii_string_def)

lemma trim_space_tokens:
  assumes "\<forall>c\<in>set s. 32 \<le> byte_of c \<and> byte_of c \<le> 126" "s \<noteq> []" "hd s \<noteq> CHR '' ''" "last s \<noteq> CHR '' ''"
  shows "trim_space s = s"
proof -
  have ascii: "ascii_string s" using assms(1) by (rule visible_ascii)
  have sp: "is_space (byte_of c) \<longleftrightarrow> c = CHR '' ''" if "c \<in> set s" for c
  proof
    assume "is_space (byte_of c)"
    then have "byte_of c = 32" using assms(1) that by (auto simp: is_space_def)
    then have "of_char c = (of_char (CHR '' '') :: nat)" by simp
    then show "c = CHR '' ''" by (simp only: of_char_eq_iff)
  qed (simp add: is_space_def)
  have "dropWhile (\<lambda>c. is_space (byte_of c)) s = s"
    using assms(2,3) sp by (cases s) auto
  moreover have "dropWhile (\<lambda>c. is_space (byte_of c)) (rev s) = rev s"
    using assms(2,4) sp [of "last s"] by (cases s rule: rev_cases) auto
  ultimately show ?thesis by (simp add: trim_space_ascii [OF ascii])
qed

lemma token_bytes: "plain_token t \<Longrightarrow> \<forall>c\<in>set t. 32 \<le> byte_of c \<and> byte_of c \<le> 126"
  by (auto simp: plain_token_def)

lemma token_edges: "plain_token t \<Longrightarrow> t \<noteq> [] \<and> hd t \<noteq> CHR '' '' \<and> last t \<noteq> CHR '' ''"
  using graph_tokens [of t] by (metis graph_space(1) hd_in_set last_in_set plain_token_def)

lemma trim_quotes: "plain_token t \<Longrightarrow> trim_set quotes t = t"
proof -
  assume t: "plain_token t"
  then have "hd t \<notin> quotes" "last t \<notin> quotes" "t \<noteq> []"
    by (metis Int_iff empty_iff hd_in_set plain_token_def, metis Int_iff empty_iff last_in_set plain_token_def,
        simp add: plain_token_def)
  then have "dropWhile (\<lambda>c. c \<in> quotes) t = t" "dropWhile (\<lambda>c. c \<in> quotes) (rev t) = rev t"
    by (simp_all add: dropWhile_eq_self_iff hd_rev)
  then show ?thesis by (simp add: trim_set_def)
qed

lemma parse_replace_tokens:
  assumes "plain_token o1" "plain_token n1" "has_prefix n1 ''.'' \<or> is_abs n1"
  shows "parse_replace_line (o1 @ '' => '' @ n1) gm
    = gm\<lparr>gm_replace := AList.update o1 (replace_dir (gm_root gm) n1) (gm_replace gm)\<rparr>"
proof -
  obtain m where m: "find_submatch go_replace_re (o1 @ '' => '' @ n1) = Some m" "m 1 = o1" "m 2 = n1"
    using replace_line_match assms(1,2) graph_tokens plain_token_def by meson
  have "trim_set quotes o1 = o1" "trim_set quotes n1 = n1" "o1 \<noteq> []" "n1 \<noteq> []"
    using assms trim_quotes token_edges by blast+
  then have "trim_set quotes (m 1) = o1" "trim_set quotes (m 2) = n1" by (simp_all only: m)
  then show ?thesis using assms(3) \<open>o1 \<noteq> []\<close> \<open>n1 \<noteq> []\<close> unfolding parse_replace_line_def m(1) option.case
    by (auto simp only: Let_def replace_dir_def if_True if_False simp_thms)
qed

lemma replace_lines_tokens:
  assumes "\<forall>(o1, n1)\<in>set rs. plain_token o1 \<and> plain_token n1 \<and> hd o1 \<noteq> CHR ''('' \<and> (has_prefix n1 ''.'' \<or> is_abs n1)"
  shows "replace_lines False (map replace_text rs @ [[], []]) gm
    = gm\<lparr>gm_replace := foldl (\<lambda>m (o1, n1). AList.update o1 (replace_dir (gm_root gm) n1) m) (gm_replace gm) rs\<rparr>"
  using assms
proof (induction rs arbitrary: gm)
  case (Cons r rs)
  obtain o1 n1 where r: "r = (o1, n1)" by (cases r)
  have tok: "plain_token o1" "plain_token n1" "hd o1 \<noteq> CHR ''(''" "has_prefix n1 ''.'' \<or> is_abs n1"
    using Cons.prems by (auto simp: r)
  note edges = token_edges [OF tok(1)] token_edges [OF tok(2)]
  have bytes: "\<forall>c\<in>set (o1 @ '' => '' @ n1). 32 \<le> byte_of c \<and> byte_of c \<le> 126"
    using token_bytes [OF tok(1)] token_bytes [OF tok(2)] by auto
  have inner: "trim_space (o1 @ '' => '' @ n1) = o1 @ '' => '' @ n1"
    by (rule trim_space_tokens [OF bytes]) (use edges in auto)
  have outer: "trim_space (replace_text r) = replace_text r"
    by (rule trim_space_tokens) (use edges bytes in \<open>auto simp: r replace_text_def\<close>)
  have b2: "trim_space ('' '' @ o1 @ '' => '' @ n1) = o1 @ '' => '' @ n1"
  proof -
    have "ascii_string ('' '' @ o1 @ '' => '' @ n1)" "ascii_string (o1 @ '' => '' @ n1)"
      by (rule visible_ascii, use bytes in auto)+
    then show ?thesis using inner by (simp add: trim_space_ascii is_space_def)
  qed
  have shape: "replace_text r \<noteq> []" "\<not> has_prefix (replace_text r) ''replace (''" "has_prefix (replace_text r) ''replace ''"
    "trim_prefix (replace_text r) ''replace'' = '' '' @ o1 @ '' => '' @ n1"
    using edges tok(3) by (cases o1; auto simp: r replace_text_def has_prefix_def trim_prefix_def)+
  let ?gm = "gm\<lparr>gm_replace := AList.update o1 (replace_dir (gm_root gm) n1) (gm_replace gm)\<rparr>"
  have pr: "parse_replace_line (o1 @ '' => '' @ n1) gm = ?gm" by (rule parse_replace_tokens [OF tok(1,2,4)])
  have "replace_lines False (replace_text r # map replace_text rs @ [[], []]) gm
      = replace_lines False (map replace_text rs @ [[], []]) ?gm"
    by (simp only: replace_lines.simps Let_def outer shape b2 pr if_False if_True simp_thms)
  also have "\<dots> = ?gm\<lparr>gm_replace := foldl (\<lambda>m (o1, n1). AList.update o1 (replace_dir (gm_root ?gm) n1) m) (gm_replace ?gm) rs\<rparr>"
    using Cons.prems by (intro Cons.IH) simp
  finally show ?case by (simp add: r)
qed simp

lemma split_lines:
  "\<forall>l\<in>set ls. newline \<notin> set l \<Longrightarrow> split_on newline (concat (map (\<lambda>l. l @ [newline]) ls) @ r) = ls @ split_on newline r"
  by (induction ls) (simp_all add: split_on_append_sep)

text \<open>
  A \<^verbatim>\<open>go.mod\<close> in the standard layout, with any module path and any local
  replacements made of visible characters, is read back as it was written: the path of the module and, for
  every replaced path, the directory of its last replacement.
\<close>

theorem go_mod_read_back:
  assumes "plain_token module_path"
    and "\<forall>(o1, n1)\<in>set rs. plain_token o1 \<and> plain_token n1 \<and> hd o1 \<noteq> CHR ''('' \<and> (has_prefix n1 ''.'' \<or> is_abs n1)"
  shows "\<exists>m. parse_go_mod root (go_mod_text module_path rs) = Some m \<and> gm_path m = module_path \<and> gm_root m = root
    \<and> map_of (gm_replace m) = map_of (rev (map (\<lambda>(o1, n1). (o1, replace_dir root n1)) rs))"
proof -
  let ?first = "''module '' @ module_path"
  let ?ls = "?first # map replace_text rs"
  have nl: "newline \<notin> set t" if "plain_token t" for t using graph_tokens [OF that] graph_space(3) by blast
  have lines: "\<forall>l\<in>set ?ls. newline \<notin> set l" using assms nl by (auto simp: replace_text_def)
  have first: "before_comment ?first = ?first"
  proof -
    have "before_comment (''module'' @ CHR '' '' # module_path) = ''module'' @ CHR '' '' # before_comment module_path"
      by (rule before_comment_tokens) simp
    then show ?thesis using assms(1) by (simp add: plain_token_def)
  qed
  have "\<forall>l\<in>set ?ls. before_comment l = l" using first token_line assms(2) by auto
  then have kept: "map (\<lambda>line. before_comment line @ [newline]) ?ls = map (\<lambda>l. l @ [newline]) ?ls" by simp
  have parts: "split_on newline (go_mod_text module_path rs) = ?ls @ [[]]"
    using split_lines [OF lines, of "[]"] by (simp add: go_mod_text_def)
  let ?stripped = "go_mod_text module_path rs @ [newline]"
  have stripped: "concat (map (\<lambda>line. before_comment line @ [newline]) (split_on newline (go_mod_text module_path rs))) = ?stripped"
    unfolding parts map_append concat_append kept by (simp add: go_mod_text_def)
  have split2: "split_on newline ?stripped = ?ls @ [[], []]"
    using split_lines [OF lines, of "[newline]"] by (simp add: go_mod_text_def)
  obtain g where g: "find_submatch go_module_re ?stripped = Some g" "g 1 = module_path"
    using module_line_match [of module_path "concat (map (\<lambda>l. l @ [newline]) (map replace_text rs)) @ [newline]"]
      graph_tokens [OF assms(1)] token_edges [OF assms(1)] by (auto simp: go_mod_text_def)
  let ?gm = "\<lparr>gm_path = module_path, gm_root = root, gm_replace = []\<rparr>"
  have tm: "trim_space ?first = ?first"
    by (rule trim_space_tokens) (use token_bytes [OF assms(1)] token_edges [OF assms(1)] in auto)
  have "replace_lines False (?first # map replace_text rs @ [[], []]) ?gm = replace_lines False (map replace_text rs @ [[], []]) ?gm"
    using tm by (simp add: has_prefix_def)
  also have "\<dots> = ?gm\<lparr>gm_replace := foldl (\<lambda>m (o1, n1). AList.update o1 (replace_dir root n1) m) [] rs\<rparr>"
    using replace_lines_tokens [OF assms(2), of ?gm] by simp
  finally have rl: "replace_lines False (?ls @ [[], []]) ?gm
      = ?gm\<lparr>gm_replace := foldl (\<lambda>m (o1, n1). AList.update o1 (replace_dir root n1) m) [] rs\<rparr>" by simp
  have quoted: "trim_set quotes (g 1) = module_path" "module_path \<noteq> []"
    using g(2) trim_quotes [OF assms(1)] token_edges [OF assms(1)] by simp_all
  have "parse_go_mod root (go_mod_text module_path rs)
      = Some (?gm\<lparr>gm_replace := foldl (\<lambda>m (o1, n1). AList.update o1 (replace_dir root n1) m) [] rs\<rparr>)"
    unfolding parse_go_mod_def Let_def stripped g(1) option.case quoted(1) split2 rl using quoted(2) by simp
  moreover have "map_of (foldl (\<lambda>m (o1, n1). AList.update o1 (replace_dir root n1) m) m0 rs)
      = map_of m0 ++ map_of (rev (map (\<lambda>(o1, n1). (o1, replace_dir root n1)) rs))" for m0
    by (induction rs arbitrary: m0) (auto simp: update_conv' map_add_def split: option.splits)
  ultimately show ?thesis by simp
qed

theorem go_mod_read_back_witness:
  "\<exists>m. parse_go_mod ''/w'' (go_mod_text ''ex.com/m'' [(''ex.com/lib'', ''./lib''), (''ex.com/lib'', ''/opt/lib'')]) = Some m
    \<and> gm_path m = ''ex.com/m'' \<and> gm_root m = ''/w'' \<and> map_of (gm_replace m) = [''ex.com/lib'' \<mapsto> ''/opt/lib'']"
proof -
  have tok: "plain_token ''ex.com/m''" "plain_token ''ex.com/lib''" "plain_token ''./lib''" "plain_token ''/opt/lib''"
    by (simp_all add: plain_token_def quotes_def)
  have "replace_dir ''/w'' ''/opt/lib'' = ''/opt/lib''" by (simp add: replace_dir_def is_abs_def path_eval str_eval)
  then show ?thesis
    using go_mod_read_back [of "''ex.com/m''" "[(''ex.com/lib'', ''./lib''), (''ex.com/lib'', ''/opt/lib'')]" "''/w''"] tok
    by (auto simp: has_prefix_def is_abs_def)
qed

theorem go_import_longest_witness:
  "resolve_go_import rev \<lparr>gm_path = ''m'', gm_root = ''/w'', gm_replace = [(''a'', ''/x''), (''a/b'', ''/y'')]\<rparr> ''a/b/c''
     = below_dir ''/y'' ''c''
   \<and> resolve_go_import rev \<lparr>gm_path = ''m'', gm_root = ''/w'', gm_replace = [(''a'', ''/x''), (''a/b'', ''/y'')]\<rparr> ''m/p''
     = filepath_join [''/w'', ''p'']"
proof -
  let ?m = "\<lparr>gm_path = ''m'', gm_root = ''/w'', gm_replace = [(''a'', ''/x''), (''a/b'', ''/y'')]\<rparr>"
  have r: "\<forall>ks. set (rev ks) = set ks" "\<forall>old\<in>fst ` set (gm_replace ?m). old \<noteq> []" by simp_all
  have "resolve_go_import rev ?m ''a/b/c'' = below_dir ''/y'' (drop (Suc (length ''a/b'')) ''a/b/c'')"
    by (rule go_import_longest [THEN conjunct1, rule_format]) (use r in \<open>auto simp: leads_def has_prefix_def\<close>)
  moreover have "resolve_go_import rev ?m ''m/p'' = filepath_join [''/w'', ''p'']"
    using go_import_longest [OF r(1) _ r(2), of "''m/p''", THEN conjunct2] by (simp add: leads_def has_prefix_def)
  ultimately show ?thesis by simp
qed

section \<open>The files of a package\<close>

lemma list_go_package_files_in:
  assumes "dk_dir d dir = Some entries"
  defines "go \<equiv> {n. (n, False) \<in> set entries \<and> has_suffix n ''.go''}"
    and "plain \<equiv> {n. (n, False) \<in> set entries \<and> has_suffix n ''.go'' \<and> \<not> has_suffix n ''_test.go''}"
  shows "set (list_go_package_files d dir) = (\<lambda>n. filepath_join [dir, n]) ` (if plain = {} then go else plain)"
proof -
  let ?names = "map fst (filter (\<lambda>e. \<not> snd e) entries)"
  let ?out = "filter (\<lambda>n. has_suffix n ''.go'' \<and> \<not> has_suffix n ''_test.go'') ?names"
  have "n \<in> set ?names \<longleftrightarrow> (n, False) \<in> set entries" for n by force
  then have n: "set (filter P ?names) = {n. (n, False) \<in> set entries \<and> P n}" for P by auto
  have out: "set ?out = plain" "set (filter (\<lambda>n. has_suffix n ''.go'') ?names) = go"
    unfolding plain_def go_def n by (rule refl)+
  have e: "?out = [] \<longleftrightarrow> plain = {}" unfolding out(1) [symmetric] set_empty by (rule refl)
  have "list_go_package_files d dir
      = map (\<lambda>n. filepath_join [dir, n]) (if plain = {} then filter (\<lambda>n. has_suffix n ''.go'') ?names else ?out)"
    unfolding list_go_package_files_def assms(1) option.case Let_def e by (rule refl)
  then have "set (list_go_package_files d dir)
      = (\<lambda>n. filepath_join [dir, n]) ` set (if plain = {} then filter (\<lambda>n. has_suffix n ''.go'') ?names else ?out)"
    unfolding set_map [symmetric] by (rule arg_cong)
  also have "set (if plain = {} then filter (\<lambda>n. has_suffix n ''.go'') ?names else ?out) = (if plain = {} then go else plain)"
    unfolding if_distrib [of set] out by (rule refl)
  finally show ?thesis .
qed

end
