(* ===== verification/Path_Aliases.thy ===== *)
theory Path_Aliases
  imports Module_Disk Go_Regexp
begin

text \<open>
  Path aliases of TypeScript and JavaScript projects (\<^verbatim>\<open>resolution/path_aliases.go\<close>): removing comments
  from a configuration, the patterns of its \<^verbatim>\<open>paths\<close> block in the order of their precedence, the rewriting
  of an import through them, and the conventional aliases.  \<open>js\<close> is \<^verbatim>\<open>json.Unmarshal\<close> into the part of
  \<^verbatim>\<open>tsconfig.json\<close> the code reads: \<^const>\<open>None\<close> for an error, then whether there are compiler options, then the
  base and the entries of \<^verbatim>\<open>paths\<close> in the order in which a loop over the map meets them.
\<close>

type_synonym tsconfig_json = "string \<Rightarrow> (string \<times> (string \<times> string list) list) option option"

section \<open>Configurations with comments\<close>

fun after_block :: "string \<Rightarrow> string" where
  "after_block (a # b # r) = (if a = CHR ''*'' \<and> b = slash then r else after_block (b # r))"
| "after_block r = []"

lemma after_block_length: "length (after_block r) \<le> length r"
  by (induction r rule: after_block.induct) auto

function jsonc_from :: "bool \<Rightarrow> string \<Rightarrow> string" where
  "jsonc_from in_string [] = []"
| "jsonc_from in_string (ch # r) =
     (if in_string then
        (if ch = backslash \<and> r \<noteq> [] then ch # hd r # jsonc_from True (tl r)
         else ch # jsonc_from (ch \<noteq> CHR 0x22) r)
      else if ch = CHR 0x22 then ch # jsonc_from True r
      else if ch = slash \<and> r \<noteq> [] \<and> hd r = slash then jsonc_from False (dropWhile (\<lambda>c. c \<noteq> newline) r)
      else if ch = slash \<and> r \<noteq> [] \<and> hd r = CHR ''*'' then jsonc_from False (after_block (tl r))
      else ch # jsonc_from False r)"
  by pat_completeness auto
termination
proof (relation "measure (\<lambda>(i, r). length r)", goal_cases)
  case (5 i ch r)
  then show ?case using length_dropWhile_le [of _ r] by (simp add: less_Suc_eq_le)
next
  case (6 i ch r)
  then show ?case using after_block_length [of "tl r"] by (cases r) auto
qed auto

declare jsonc_from.simps(2) [simp del]

text \<open>\<^verbatim>\<open>,(\s*[}\]])\<close>.\<close>

definition trailing_comma_re :: re where
  "trailing_comma_re =
     seq [Byte (\<lambda>c. c = CHR '',''), Group 1 (seq [any_of re_space, Byte (\<lambda>c. c = CHR 0x7D \<or> c = CHR '']'')])]"

definition strip_jsonc :: "string \<Rightarrow> string" where
  "strip_jsonc src = replace_all trailing_comma_re 1 [] (jsonc_from False src)"

section \<open>Patterns\<close>

record alias_pattern =
  ap_prefix :: string
  ap_suffix :: string
  ap_wild :: bool
  ap_repl :: "string list"

record alias_map =
  am_base :: string
  am_patterns :: "alias_pattern list"

definition split_wildcard :: "string \<Rightarrow> string \<times> string \<times> bool" where
  "split_wildcard pattern =
     (case index_byte (CHR ''*'') pattern of
        None \<Rightarrow> (pattern, [], False)
      | Some i \<Rightarrow> (take i pattern, drop (Suc i) pattern, True))"

definition alias_pattern_of :: "string \<times> string list \<Rightarrow> alias_pattern option" where
  "alias_pattern_of e =
     (let filtered = filter (\<lambda>t. trim_space t \<noteq> []) (snd e) in
      if filtered = [] then None
      else (let (p, s, w) = split_wildcard (fst e) in
            Some \<lparr>ap_prefix = p, ap_suffix = s, ap_wild = w, ap_repl = filtered\<rparr>))"

text \<open>The comparison of the sort, as a number: longer prefixes first, then literals.\<close>

definition alias_rank :: "alias_pattern \<Rightarrow> int" where
  "alias_rank p = (if ap_wild p then 1 else 0) - 2 * int (length (ap_prefix p))"

definition parse_tsconfig_aliases :: "tsconfig_json \<Rightarrow> string \<Rightarrow> string \<Rightarrow> alias_map option" where
  "parse_tsconfig_aliases js project_root raw =
     (case js (strip_jsonc raw) of
        Some (Some (base0, paths)) \<Rightarrow>
          (let base_rel = (if base0 = [] then ''.'' else base0);
               patterns = map the (filter (\<lambda>p. p \<noteq> None) (map alias_pattern_of paths))
           in if patterns = [] then None
              else Some \<lparr>am_base = clean (filepath_join [project_root, base_rel]),
                         am_patterns = sort_key alias_rank patterns\<rparr>)
      | _ \<Rightarrow> None)"

section \<open>Rewriting an import\<close>

text \<open>What the wildcard stands for, if the pattern fits.\<close>

definition alias_capture :: "alias_pattern \<Rightarrow> string \<Rightarrow> string option" where
  "alias_capture p path =
     (if \<not> has_prefix path (ap_prefix p) then None
      else if ap_suffix p \<noteq> [] \<and> \<not> has_suffix path (ap_suffix p) then None
      else if ap_wild p then
        (if length path - length (ap_suffix p) < length (ap_prefix p) then None
         else Some (drop (length (ap_prefix p)) (take (length path - length (ap_suffix p)) path)))
      else if path \<noteq> ap_prefix p then None
      else Some [])"

text \<open>\<^verbatim>\<open>strings.Replace(target, "*", captured, 1)\<close>.\<close>

definition fill_star :: "string \<Rightarrow> string \<Rightarrow> string" where
  "fill_star target captured =
     (case index_byte (CHR ''*'') target of
        None \<Rightarrow> target
      | Some i \<Rightarrow> take i target @ captured @ drop (Suc i) target)"

definition alias_target :: "alias_map \<Rightarrow> string \<Rightarrow> alias_pattern \<Rightarrow> string \<Rightarrow> string \<Rightarrow> string option" where
  "alias_target am project_root p captured target =
     (let filled = (if ap_wild p then fill_star target captured else target) in
      case filepath_rel project_root (clean (filepath_join [am_base am, filled])) of
        None \<Rightarrow> None
      | Some rel \<Rightarrow> (if has_prefix rel ''..'' then None else Some rel))"

definition alias_targets :: "alias_map \<Rightarrow> string \<Rightarrow> alias_pattern \<Rightarrow> string \<Rightarrow> string list" where
  "alias_targets am project_root p captured =
     map the (filter (\<lambda>r. r \<noteq> None) (map (alias_target am project_root p captured) (ap_repl p)))"

fun apply_patterns :: "alias_map \<Rightarrow> string \<Rightarrow> string \<Rightarrow> alias_pattern list \<Rightarrow> string list" where
  "apply_patterns am project_root path [] = []"
| "apply_patterns am project_root path (p # ps) =
     (case alias_capture p path of
        None \<Rightarrow> apply_patterns am project_root path ps
      | Some captured \<Rightarrow> alias_targets am project_root p captured)"

definition apply_aliases :: "string \<Rightarrow> alias_map \<Rightarrow> string \<Rightarrow> string list" where
  "apply_aliases path am project_root =
     (if path = [] then [] else apply_patterns am (clean project_root) path (am_patterns am))"

definition fallback_aliases :: "(string \<times> string) list" where
  "fallback_aliases =
     [(''@/'', ''src/''), (''~/'', ''src/''), (''@src/'', ''src/''), (''src/'', ''src/''),
      (''@app/'', ''app/''), (''app/'', ''app/'')]"

definition apply_fallback_aliases :: "string \<Rightarrow> string" where
  "apply_fallback_aliases path =
     (case find (\<lambda>(p, r). has_prefix path p) fallback_aliases of
        None \<Rightarrow> []
      | Some (p, r) \<Rightarrow> r @ trim_prefix path p)"

section \<open>Loading\<close>

definition alias_stamp :: "disk \<Rightarrow> string \<times> string \<Rightarrow> int option" where
  "alias_stamp d k = mod_time d (filepath_join [fst k, snd k])"

definition read_aliases :: "tsconfig_json \<Rightarrow> disk \<Rightarrow> string \<times> string \<Rightarrow> alias_map option option" where
  "read_aliases js d k = map_option (parse_tsconfig_aliases js (fst k)) (dk_read d (filepath_join [fst k, snd k]))"

type_synonym alias_cache = "(string \<times> string, alias_map option) stamped"

text \<open>The key of the cache is the root and the name of the file.\<close>

fun load_alias_files ::
    "tsconfig_json \<Rightarrow> disk \<Rightarrow> string \<Rightarrow> string list \<Rightarrow> alias_cache \<Rightarrow> alias_map option \<times> alias_cache" where
  "load_alias_files js d root [] c = (None, c)"
| "load_alias_files js d root (name # names) c =
     (case load_stamped (alias_stamp d) (read_aliases js d) (root, name) c of
        (Some (Some a), c') \<Rightarrow> (Some a, c')
      | (_, c') \<Rightarrow> load_alias_files js d root names c')"

definition load_project_aliases ::
    "tsconfig_json \<Rightarrow> disk \<Rightarrow> string \<Rightarrow> alias_cache \<Rightarrow> alias_map option \<times> alias_cache" where
  "load_project_aliases js d project_root c =
     load_alias_files js d (clean project_root) [''tsconfig.json'', ''jsconfig.json''] c"

interpretation aliases: stamped_cache alias_stamp "read_aliases js" "dated h" for js h
  by unfold_locales (auto simp: alias_stamp_def read_aliases_def dated_def)

section \<open>Precedence\<close>

text \<open>The pattern that decides: it fits, and no pattern that fits ranks before it.\<close>

definition decides :: "alias_map \<Rightarrow> string \<Rightarrow> alias_pattern \<Rightarrow> bool" where
  "decides am path p \<longleftrightarrow> p \<in> set (am_patterns am) \<and> alias_capture p path \<noteq> None
     \<and> (\<forall>q\<in>set (am_patterns am). alias_capture q path \<noteq> None \<longrightarrow> alias_rank p \<le> alias_rank q)"

lemma alias_rank_le:
  "alias_rank p \<le> alias_rank q \<longleftrightarrow>
     length (ap_prefix q) < length (ap_prefix p)
     \<or> length (ap_prefix q) = length (ap_prefix p) \<and> (ap_wild p \<longrightarrow> ap_wild q)"
  by (auto simp: alias_rank_def)

lemma apply_patterns_first:
  assumes "sorted (map alias_rank ps)"
  shows "(\<exists>p\<in>set ps. alias_capture p path \<noteq> None \<and> (\<forall>q\<in>set ps. alias_capture q path \<noteq> None \<longrightarrow> alias_rank p \<le> alias_rank q)
            \<and> apply_patterns am root path ps = alias_targets am root p (the (alias_capture p path)))
    \<or> (\<forall>p\<in>set ps. alias_capture p path = None) \<and> apply_patterns am root path ps = []"
  using assms
proof (induction ps)
  case (Cons p ps)
  show ?case
  proof (cases "alias_capture p path")
    case None
    then show ?thesis using Cons by auto
  next
    case (Some x)
    then show ?thesis using Cons.prems by (intro disjI1 bexI [of _ p]) auto
  qed
qed simp

lemma alias_targets_below: "rel \<in> set (alias_targets am root p cap) \<Longrightarrow> \<not> has_prefix rel ''..''"
  by (auto simp: alias_targets_def alias_target_def Let_def split: option.splits if_splits)

lemma parse_sorted: "parse_tsconfig_aliases js root raw = Some am \<Longrightarrow> sorted (map alias_rank (am_patterns am))"
  by (auto simp: parse_tsconfig_aliases_def Let_def split: option.splits prod.splits if_splits)

text \<open>
  An import is rewritten by a pattern of the configuration that fits it
  and has the longest prefix among those that fit, a literal one where there is one; nothing it yields
  leaves the project, and without a pattern that fits there is no rewriting.
\<close>

theorem alias_most_specific:
  assumes "parse_tsconfig_aliases js root raw = Some am" "path \<noteq> []"
  shows "((\<exists>p. decides am path p \<and> apply_aliases path am root = alias_targets am (clean root) p (the (alias_capture p path)))
      \<or> (\<forall>p\<in>set (am_patterns am). alias_capture p path = None) \<and> apply_aliases path am root = [])
    \<and> (\<forall>p q. decides am path p \<and> q \<in> set (am_patterns am) \<and> alias_capture q path \<noteq> None \<longrightarrow>
         length (ap_prefix q) < length (ap_prefix p) \<or> ap_prefix q = ap_prefix p \<and> (ap_wild p \<longrightarrow> ap_wild q))
    \<and> (\<forall>rel\<in>set (apply_aliases path am root). \<not> has_prefix rel ''..'')"
proof -
  note fst_cases = apply_patterns_first [OF parse_sorted [OF assms(1)], of path am "clean root"]
  have app: "apply_aliases path am root = apply_patterns am (clean root) path (am_patterns am)"
    using assms(2) by (simp add: apply_aliases_def)
  have one: "(\<exists>p. decides am path p \<and> apply_aliases path am root = alias_targets am (clean root) p (the (alias_capture p path)))
      \<or> (\<forall>p\<in>set (am_patterns am). alias_capture p path = None) \<and> apply_aliases path am root = []"
    using fst_cases unfolding app decides_def by blast
  have same: "ap_prefix q = ap_prefix p"
    if "alias_capture p path \<noteq> None" "alias_capture q path \<noteq> None" "length (ap_prefix q) = length (ap_prefix p)" for p q
  proof -
    have "prefix (ap_prefix p) path" "prefix (ap_prefix q) path"
      using that(1,2) by (auto simp: alias_capture_def has_prefix_def split: if_splits)
    then show ?thesis using that(3) by (metis append_eq_append_conv prefix_def)
  qed
  have two: "length (ap_prefix q) < length (ap_prefix p) \<or> ap_prefix q = ap_prefix p \<and> (ap_wild p \<longrightarrow> ap_wild q)"
    if "decides am path p" "q \<in> set (am_patterns am)" "alias_capture q path \<noteq> None" for p q
    using that same [of p q] by (auto simp: decides_def alias_rank_le)
  have "\<forall>rel\<in>set (apply_aliases path am root). \<not> has_prefix rel ''..''"
    using one alias_targets_below by auto
  then show ?thesis using one two by blast
qed

text \<open>With two patterns that share a prefix, the order of a Go map decides.\<close>

definition ambiguous_paths :: "(string \<times> string list) list" where
  "ambiguous_paths = [(''a/*'', [''x/*'']), (''a/*.js'', [''y/*''])]"

lemma alias_order_matters:
  defines "am ps \<equiv> the (parse_tsconfig_aliases (\<lambda>_. Some (Some ([], ps))) ''/w'' [])"
  shows "apply_aliases ''a/b.js'' (am ambiguous_paths) ''/w'' = [''x/b.js'']
    \<and> apply_aliases ''a/b.js'' (am (rev ambiguous_paths)) ''/w'' = [''y/b'']"
proof -
  have t: "trim_space ''x/*'' = ''x/*''" "trim_space ''y/*'' = ''y/*''"
    by (simp_all add: str_eval)
  let ?x = "\<lparr>ap_prefix = ''a/'', ap_suffix = [], ap_wild = True, ap_repl = [''x/*'']\<rparr>"
  let ?y = "\<lparr>ap_prefix = ''a/'', ap_suffix = ''.js'', ap_wild = True, ap_repl = [''y/*'']\<rparr>"
  have pats: "alias_pattern_of (''a/*'', [''x/*'']) = Some ?x" "alias_pattern_of (''a/*.js'', [''y/*'']) = Some ?y"
    by (simp_all add: alias_pattern_of_def t split_wildcard_def)
  have targets: "filepath_rel ''/w'' (clean (filepath_join [''/w'', ''x/b.js''])) = Some ''x/b.js''"
    "filepath_rel ''/w'' (clean (filepath_join [''/w'', ''y/b''])) = Some ''y/b''" "clean ''/w'' = ''/w''"
    "clean (filepath_join [''/w'', ''.'']) = ''/w''"
    by (simp_all add: path_eval str_eval filepath_rel_def filepath_join_def)
  have "am ambiguous_paths = \<lparr>am_base = ''/w'', am_patterns = [?x, ?y]\<rparr>"
    "am (rev ambiguous_paths) = \<lparr>am_base = ''/w'', am_patterns = [?y, ?x]\<rparr>"
    by (simp_all add: am_def ambiguous_paths_def parse_tsconfig_aliases_def pats targets alias_rank_def)
  moreover have "alias_capture ?x ''a/b.js'' = Some ''b.js''" "alias_capture ?y ''a/b.js'' = Some ''b''"
    by (simp_all add: alias_capture_def has_prefix_def has_suffix_def suffix_def)
  moreover have "alias_targets \<lparr>am_base = ''/w'', am_patterns = ps\<rparr> ''/w'' ?x ''b.js'' = [''x/b.js'']"
    "alias_targets \<lparr>am_base = ''/w'', am_patterns = ps\<rparr> ''/w'' ?y ''b'' = [''y/b'']" for ps
    using targets by (simp_all add: alias_targets_def alias_target_def fill_star_def has_prefix_def)
  ultimately show ?thesis by (simp add: apply_aliases_def targets)
qed

text \<open>A trailing comma is removed inside a string as well.\<close>

lemma jsonc_no_slash: "slash \<notin> set s \<Longrightarrow> jsonc_from b s = s"
proof (induction "length s" arbitrary: b s rule: less_induct)
  case less
  show ?case
  proof (cases s)
    case (Cons ch r)
    have ch: "ch \<noteq> slash" and r: "slash \<notin> set r" using less.prems by (auto simp: Cons)
    have ih: "jsonc_from b' r = r" for b' using less.hyps [of r] r by (simp add: Cons)
    have "jsonc_from True (tl r) = tl r" if "r \<noteq> []"
      using less.hyps [of "tl r" True] r that by (cases r) (simp_all add: Cons)
    then have tl: "r \<noteq> [] \<Longrightarrow> hd r # jsonc_from True (tl r) = r" by simp
    show ?thesis unfolding Cons jsonc_from.simps(2) ih
      using ch tl by (cases "r = []") (simp_all only: if_cancel simp_thms if_False split: if_split)
  qed simp
qed

lemma jsonc_changes_string: "strip_jsonc ''{\"a\":\",]\"}'' = ''{\"a\":\"]\"}''"
proof -
  have "jsonc_from False ''{\"a\":\",]\"}'' = ''{\"a\":\",]\"}''" by (rule jsonc_no_slash) simp
  then show ?thesis
    by (simp add: strip_jsonc_def replace_all.simps(2) trailing_comma_re_def any_of_def re_space_def)
qed

theorem alias_most_specific_witness:
  "\<exists>am. parse_tsconfig_aliases (\<lambda>_. Some (Some ([], [(''@/*'', [''lib/*'']), (''@/x'', [''y'']), (''z*'', ['' ''])]))) ''/w'' [] = Some am
     \<and> am_patterns am = [\<lparr>ap_prefix = ''@/x'', ap_suffix = [], ap_wild = False, ap_repl = [''y'']\<rparr>,
          \<lparr>ap_prefix = ''@/'', ap_suffix = [], ap_wild = True, ap_repl = [''lib/*'']\<rparr>]
     \<and> (\<forall>rel\<in>set (apply_aliases ''@/x'' am ''/w''). \<not> has_prefix rel ''..'')"
proof -
  let ?js = "\<lambda>_. Some (Some ([], [(''@/*'', [''lib/*'']), (''@/x'', [''y'']), (''z*'', ['' ''])]))"
  have t: "trim_space ''lib/*'' = ''lib/*''" "trim_space ''y'' = ''y''" "trim_space '' '' = []"
    by (simp_all add: str_eval trim_space_ascii)
  obtain am where am: "parse_tsconfig_aliases ?js ''/w'' [] = Some am"
    "am_patterns am = [\<lparr>ap_prefix = ''@/x'', ap_suffix = [], ap_wild = False, ap_repl = [''y'']\<rparr>,
          \<lparr>ap_prefix = ''@/'', ap_suffix = [], ap_wild = True, ap_repl = [''lib/*'']\<rparr>]"
    by (simp add: parse_tsconfig_aliases_def alias_pattern_of_def t split_wildcard_def alias_rank_def)
  then show ?thesis using alias_most_specific [OF am(1), of "''@/x''"] by blast
qed

end
