(* ===== verification/Workspace_Packages.thy ===== *)
theory Workspace_Packages
  imports Module_Disk Go_Match "HOL-Library.List_Lexorder" "HOL-Library.Char_ord"
begin

text \<open>
  Packages of a monorepo (\<^verbatim>\<open>resolution/workspace_packages.go\<close>): the globs of \<^verbatim>\<open>package.json\<close> and
  \<^verbatim>\<open>pnpm-workspace.yaml\<close>, the directories they stand for, the names of the packages there, and the
  directory an import of a package leads to.  \<open>pkg_json\<close> is \<^verbatim>\<open>json.Unmarshal\<close> into the parts of a
  \<^verbatim>\<open>package.json\<close> the code reads, \<^const>\<open>None\<close> for an error.
\<close>

record pkg_json =
  pj_name :: "string \<Rightarrow> string option"
  pj_workspaces :: "string \<Rightarrow> string option"
  pj_strings :: "string \<Rightarrow> string list option"
  pj_packages :: "string \<Rightarrow> string list option"

section \<open>Reading the globs\<close>

definition read_package_name :: "pkg_json \<Rightarrow> disk \<Rightarrow> string \<Rightarrow> string" where
  "read_package_name js d path =
     (case dk_read d path of
        None \<Rightarrow> []
      | Some raw \<Rightarrow> (case pj_name js raw of None \<Rightarrow> [] | Some name \<Rightarrow> trim_space name))"

fun pnpm_lines :: "bool \<Rightarrow> string list \<Rightarrow> string list" where
  "pnpm_lines in_packages [] = []"
| "pnpm_lines in_packages (line # ls) =
     (if contains_str line ''packages:'' \<and> trim_space (hd (split_on (CHR '':'') line)) = ''packages'' then pnpm_lines True ls
      else if \<not> in_packages then pnpm_lines False ls
      else
        (let t = trim_space line in
         if t = [] then pnpm_lines True ls
         else if has_prefix t ''-'' then
           (let item = trim_set quotes (trim_space (trim_prefix t ''-'')) in
            if item \<noteq> [] then item # pnpm_lines True ls else pnpm_lines True ls)
         else pnpm_lines (hd line = CHR '' '' \<or> hd line = CHR 0x09) ls))"

definition parse_pnpm_packages :: "string \<Rightarrow> string list" where
  "parse_pnpm_packages yaml = pnpm_lines False (split_on newline yaml)"

definition read_workspace_globs :: "pkg_json \<Rightarrow> disk \<Rightarrow> string \<Rightarrow> string list" where
  "read_workspace_globs js d root =
     (case dk_read d (filepath_join [root, ''package.json'']) of
        None \<Rightarrow> []
      | Some raw \<Rightarrow>
          (case pj_workspaces js raw of
             None \<Rightarrow> []
           | Some ws \<Rightarrow>
               (case pj_strings js ws of
                  Some arr \<Rightarrow> arr
                | None \<Rightarrow> (case pj_packages js ws of Some ps \<Rightarrow> ps | None \<Rightarrow> []))))
     @ (case dk_read d (filepath_join [root, ''pnpm-workspace.yaml'']) of
          None \<Rightarrow> [] | Some yaml \<Rightarrow> parse_pnpm_packages yaml)"

section \<open>\<^verbatim>\<open>filepath.Glob\<close>\<close>

text \<open>The entries of one directory, after what has been found before; a malformed pattern is an error.\<close>

fun glob_names :: "string \<Rightarrow> string \<Rightarrow> string list \<Rightarrow> string list \<Rightarrow> string list option" where
  "glob_names dir pattern found [] = Some found"
| "glob_names dir pattern found (n # ns) =
     (case go_match pattern n of
        None \<Rightarrow> None
      | Some m \<Rightarrow> glob_names dir pattern (if m then found @ [filepath_join [dir, n]] else found) ns)"

definition glob_in :: "disk \<Rightarrow> string \<Rightarrow> string \<Rightarrow> string list \<Rightarrow> string list option" where
  "glob_in d dir pattern found =
     (case dk_stat d dir of
        Some (True, _) \<Rightarrow> (case dk_dir d dir of None \<Rightarrow> Some found | Some es \<Rightarrow> glob_names dir pattern found (map fst es))
      | _ \<Rightarrow> Some found)"

fun glob_each :: "disk \<Rightarrow> string \<Rightarrow> string list \<Rightarrow> string list \<Rightarrow> string list option" where
  "glob_each d pattern found [] = Some found"
| "glob_each d pattern found (dir # dirs) =
     (case glob_in d dir pattern found of None \<Rightarrow> None | Some found' \<Rightarrow> glob_each d pattern found' dirs)"

text \<open>\<^verbatim>\<open>Split\<close> with \<^verbatim>\<open>cleanGlobPath\<close> of the directory.\<close>

definition glob_split :: "string \<Rightarrow> string \<times> string" where
  "glob_split pattern =
     (case last_index_any {slash} pattern of
        None \<Rightarrow> (''.'', pattern)
      | Some 0 \<Rightarrow> (''/'', drop 1 pattern)
      | Some i \<Rightarrow> (take i pattern, drop (Suc i) pattern))"

definition path_separators_limit :: nat where
  "path_separators_limit = 10000"

function glob :: "disk \<Rightarrow> nat \<Rightarrow> string \<Rightarrow> string list option" where
  "glob d depth pattern =
     (if depth = path_separators_limit then None
      else if go_match pattern [] = None then None
      else if set pattern \<inter> glob_meta = {} then Some (if dk_there d pattern then [pattern] else [])
      else
        (let (dir, part) = glob_split pattern in
         if set dir \<inter> glob_meta = {} then glob_in d dir part []
         else if dir = pattern then None
         else (case glob d (Suc depth) dir of None \<Rightarrow> None | Some ms \<Rightarrow> glob_each d part [] ms)))"
  by pat_completeness auto
termination
proof (relation "measure (\<lambda>(d, n, pattern). length pattern)", goal_cases)
  case (2 d depth pattern x dir part)
  have "glob_split pattern = (dir, part)" using 2 by simp
  then have "dir = ''.'' \<or> dir = ''/'' \<or> length dir < length pattern"
    using last_index_any_Some [of "{slash}" pattern]
    by (auto simp: glob_split_def split: option.splits nat.splits)
  then show ?case using 2 by (auto simp: glob_meta_def)
qed simp

declare glob.simps [simp del]

section \<open>The directories of a glob\<close>

primrec match_segments :: "string list \<Rightarrow> string list \<Rightarrow> bool" where
  "match_segments [] rest = (rest = [])"
| "match_segments (t # ts) rest =
     (if t = ''**'' then list_ex (\<lambda>i. match_segments ts (drop i rest)) [0..<Suc (length rest)]
      else case rest of [] \<Rightarrow> False | r # rs \<Rightarrow> go_match t r = Some True \<and> match_segments ts rs)"

fun collapse_stars :: "string list \<Rightarrow> string list \<Rightarrow> string list" where
  "collapse_stars acc [] = acc"
| "collapse_stars acc (s # ss) =
     (if s = ''**'' \<and> acc \<noteq> [] \<and> last acc = ''**'' then collapse_stars acc ss else collapse_stars (acc @ [s]) ss)"

definition hidden_dir :: "string \<Rightarrow> bool" where
  "hidden_dir name \<longleftrightarrow> name = ''node_modules'' \<or> has_prefix name ''.''"

lemma tree_entry_smaller: "(n, t) \<in> set es \<Longrightarrow> size t < Suc (size_list (size_prod (\<lambda>_. 0) size) es)"
  by (induction es) auto

text \<open>The directories \<^verbatim>\<open>WalkDir\<close> reaches, without those below a skipped one.\<close>

function dirs_below :: "(string \<Rightarrow> string list) \<Rightarrow> string \<Rightarrow> dir_tree \<Rightarrow> string list" where
  "dirs_below out path (Dirs es) =
     concat (map (\<lambda>(n, t). let p = filepath_join [path, n] in
       if hidden_dir (filepath_base p) then [] else out p @ dirs_below out p t) es)"
  by pat_completeness auto
termination by (relation "measure (\<lambda>(_, _, t). size t)") (auto intro: tree_entry_smaller)

definition expand_double_star_glob :: "disk \<Rightarrow> string \<Rightarrow> string \<Rightarrow> string list" where
  "expand_double_star_glob d root pattern =
     (let segs = split_on slash pattern;
          front = takeWhile (\<lambda>s. \<not> contains_str s ''**'') segs;
          tail0 = collapse_stars [] (dropWhile (\<lambda>s. \<not> contains_str s ''**'') segs)
      in if \<not> contains_str pattern ''**'' \<or> length front = length segs then []
         else
           (let tail = (if tail0 = [] then [''**''] else tail0);
                pref = join_with ''/'' front;
                base = filepath_join [root, pref];
                out = (\<lambda>path. case filepath_rel root path of
                         None \<Rightarrow> []
                       | Some rel \<Rightarrow>
                           (if match_segments tail (split_on slash (trim_prefix (trim_prefix rel pref) ''/''))
                            then [rel] else []))
            in case dk_tree d base of None \<Rightarrow> [] | Some t \<Rightarrow> sort (dirs_below out base t)))"

definition expand_workspace_glob :: "disk \<Rightarrow> string \<Rightarrow> string \<Rightarrow> string list" where
  "expand_workspace_glob d root pattern =
     (let norm = trim_right_byte slash pattern in
      if contains_str norm ''**'' then expand_double_star_glob d root norm
      else case glob d 0 (filepath_join [root, norm]) of
             None \<Rightarrow> []
           | Some ms \<Rightarrow>
               sort (map the (filter (\<lambda>r. r \<noteq> None) (map (filepath_rel root)
                 (filter (\<lambda>m. (case dk_stat d m of Some (dir, _) \<Rightarrow> dir | None \<Rightarrow> False)
                            \<and> \<not> hidden_dir (filepath_base m)) ms)))))"

section \<open>The packages\<close>

definition add_package :: "(string \<times> string) list \<Rightarrow> string \<times> string \<Rightarrow> (string \<times> string) list" where
  "add_package by_name e =
     (if fst e = [] \<or> map_of by_name (fst e) \<noteq> None then by_name else by_name @ [e])"

definition workspace_packages :: "pkg_json \<Rightarrow> disk \<Rightarrow> string \<Rightarrow> (string \<times> string) list" where
  "workspace_packages js d root =
     foldl add_package []
       ((read_package_name js d (filepath_join [root, ''package.json'']), ''.'')
        # map (\<lambda>dir. (read_package_name js d (filepath_join [root, dir, ''package.json'']), dir))
            (concat (map (expand_workspace_glob d root) (read_workspace_globs js d root))))"

definition workspace_stamp :: "disk \<Rightarrow> string \<Rightarrow> int option" where
  "workspace_stamp d root =
     Some (foldl (\<lambda>m name. case mod_time d (filepath_join [root, name]) of Some t \<Rightarrow> (if m < t then t else m) | None \<Rightarrow> m)
       0 [''package.json'', ''pnpm-workspace.yaml''])"

definition read_workspace :: "pkg_json \<Rightarrow> disk \<Rightarrow> string \<Rightarrow> (string \<times> string) list option option" where
  "read_workspace js d root =
     (let by_name = workspace_packages js d root in Some (if by_name = [] then None else Some by_name))"

type_synonym workspace_cache = "(string, (string \<times> string) list option) stamped"

definition load_workspace_packages ::
    "pkg_json \<Rightarrow> disk \<Rightarrow> string \<Rightarrow> workspace_cache \<Rightarrow> (string \<times> string) list option \<times> workspace_cache" where
  "load_workspace_packages js d root0 c =
     (let (r, c') = load_stamped (workspace_stamp d) (read_workspace js d) (clean root0) c
      in (case r of None \<Rightarrow> None | Some ws \<Rightarrow> ws, c'))"

definition resolve_workspace_import :: "(string list \<Rightarrow> string list) \<Rightarrow> string \<Rightarrow> (string \<times> string) list \<Rightarrow> string" where
  "resolve_workspace_import iter path ws =
     (if path = [] then []
      else
        (let best = best_name path [] (iter (map fst ws)) in
         if best = [] then []
         else
           (let dir = the (map_of ws best);
                sub = trim_prefix (trim_prefix path best) ''/''
            in if dir = ''.'' then (if sub = [] then ''.'' else sub)
               else if sub = [] then dir
               else filepath_join [dir, sub])))"

section \<open>Segments\<close>

text \<open>
  A tail of a glob covers a path when the path can be cut into one piece per segment: any number of
  names for a double star, one name that matches for any other segment.
\<close>

definition piece_fits :: "string \<Rightarrow> string list \<Rightarrow> bool" where
  "piece_fits t w \<longleftrightarrow> t = ''**'' \<or> (\<exists>r. w = [r] \<and> go_match t r = Some True)"

definition covers :: "string list \<Rightarrow> string list \<Rightarrow> bool" where
  "covers tail rest \<longleftrightarrow> (\<exists>ws. concat ws = rest \<and> list_all2 piece_fits tail ws)"

lemma covers_Nil: "covers [] rest \<longleftrightarrow> rest = []"
  by (auto simp: covers_def)

lemma covers_Cons: "covers (t # ts) rest \<longleftrightarrow> (\<exists>w v. rest = w @ v \<and> piece_fits t w \<and> covers ts v)"
proof
  assume "covers (t # ts) rest"
  then obtain ws where ws: "concat ws = rest" "list_all2 piece_fits (t # ts) ws" by (auto simp: covers_def)
  then obtain w vs where "ws = w # vs" "piece_fits t w" "list_all2 piece_fits ts vs" by (cases ws) auto
  then show "\<exists>w v. rest = w @ v \<and> piece_fits t w \<and> covers ts v" using ws(1) by (auto simp: covers_def)
next
  assume "\<exists>w v. rest = w @ v \<and> piece_fits t w \<and> covers ts v"
  then obtain w v vs where "rest = w @ v" "piece_fits t w" "concat vs = v" "list_all2 piece_fits ts vs"
    by (auto simp: covers_def)
  then show "covers (t # ts) rest" unfolding covers_def by (intro exI [of _ "w # vs"]) simp
qed

lemma match_segments_covers: "match_segments tail rest \<longleftrightarrow> covers tail rest"
proof (induction tail arbitrary: rest)
  case Nil
  show ?case by (simp add: covers_Nil)
next
  case (Cons t ts)
  show ?case
  proof (cases "t = ''**''")
    case True
    have "(\<exists>i\<le>length rest. covers ts (drop i rest)) \<longleftrightarrow> (\<exists>w v. rest = w @ v \<and> covers ts v)"
    proof
      assume "\<exists>i\<le>length rest. covers ts (drop i rest)"
      then show "\<exists>w v. rest = w @ v \<and> covers ts v" by (metis append_take_drop_id)
    next
      assume "\<exists>w v. rest = w @ v \<and> covers ts v"
      then obtain w v where "rest = w @ v" "covers ts v" by blast
      then show "\<exists>i\<le>length rest. covers ts (drop i rest)" by (intro exI [of _ "length w"]) simp
    qed
    then show ?thesis using True by (simp add: Cons.IH covers_Cons piece_fits_def list_ex_iff atLeast0LessThan Bex_def less_Suc_eq_le del: upt_Suc)
  next
    case False
    show ?thesis
    proof (cases rest)
      case (Cons r rs)
      have "(\<exists>w v. r # rs = w @ v \<and> (\<exists>r. w = [r] \<and> go_match t r = Some True) \<and> covers ts v)
          \<longleftrightarrow> go_match t r = Some True \<and> covers ts rs"
        by (auto intro: exI [of _ "[r]"])
      then show ?thesis using False by (simp add: Cons Cons.IH covers_Cons piece_fits_def)
    qed (use False in \<open>simp add: covers_Cons piece_fits_def\<close>)
  qed
qed

text \<open>The directories the walk reaches, none of them skipped and none below a skipped one.\<close>

inductive walked :: "string \<Rightarrow> dir_tree \<Rightarrow> string \<Rightarrow> dir_tree \<Rightarrow> bool" where
  child: "(n, t) \<in> set es \<Longrightarrow> \<not> hidden_dir (filepath_base (filepath_join [path, n])) \<Longrightarrow>
    walked path (Dirs es) (filepath_join [path, n]) t"
| deeper: "(n, t) \<in> set es \<Longrightarrow> \<not> hidden_dir (filepath_base (filepath_join [path, n])) \<Longrightarrow>
    walked (filepath_join [path, n]) t p t' \<Longrightarrow> walked path (Dirs es) p t'"

inductive_simps walked_simps: "walked path (Dirs es) p t"

lemma dirs_below_walked: "x \<in> set (dirs_below out path t) \<longleftrightarrow> (\<exists>p t'. walked path t p t' \<and> x \<in> set (out p))"
proof (induction out path t rule: dirs_below.induct)
  case (1 out path es)
  let ?p = "\<lambda>n. filepath_join [path, n]"
  have ih: "x \<in> set (dirs_below out (?p n) t) \<longleftrightarrow> (\<exists>p t'. walked (?p n) t p t' \<and> x \<in> set (out p))"
    if "(n, t) \<in> set es" "\<not> hidden_dir (filepath_base (?p n))" for n t
    using 1 [OF that(1) refl refl] that(2) by blast
  have "x \<in> set (dirs_below out path (Dirs es)) \<longleftrightarrow>
      (\<exists>(n, t)\<in>set es. \<not> hidden_dir (filepath_base (?p n)) \<and> (x \<in> set (out (?p n)) \<or> x \<in> set (dirs_below out (?p n) t)))"
    by (auto simp: Let_def split: if_splits)
  also have "\<dots> \<longleftrightarrow> (\<exists>(n, t)\<in>set es. \<not> hidden_dir (filepath_base (?p n))
      \<and> (x \<in> set (out (?p n)) \<or> (\<exists>p t'. walked (?p n) t p t' \<and> x \<in> set (out p))))"
    using ih by (intro bex_cong refl) (auto split: prod.splits)
  also have "\<dots> \<longleftrightarrow> (\<exists>p t'. walked path (Dirs es) p t' \<and> x \<in> set (out p))"
  proof
    assume "\<exists>(n, t)\<in>set es. \<not> hidden_dir (filepath_base (?p n))
      \<and> (x \<in> set (out (?p n)) \<or> (\<exists>p t'. walked (?p n) t p t' \<and> x \<in> set (out p)))"
    then obtain n t where "(n, t) \<in> set es" "\<not> hidden_dir (filepath_base (?p n))"
      "x \<in> set (out (?p n)) \<or> (\<exists>p t'. walked (?p n) t p t' \<and> x \<in> set (out p))" by blast
    then show "\<exists>p t'. walked path (Dirs es) p t' \<and> x \<in> set (out p)" using child deeper by meson
  next
    assume "\<exists>p t'. walked path (Dirs es) p t' \<and> x \<in> set (out p)"
    then obtain p t' where w: "walked path (Dirs es) p t'" "x \<in> set (out p)" by blast
    from w(1) show "\<exists>(n, t)\<in>set es. \<not> hidden_dir (filepath_base (?p n))
      \<and> (x \<in> set (out (?p n)) \<or> (\<exists>p t'. walked (?p n) t p t' \<and> x \<in> set (out p)))"
      using w(2) unfolding walked_simps by blast
  qed
  finally show ?case .
qed

text \<open>The parts of a pattern with a double star: what stands before it and the collapsed tail.\<close>

definition star_front :: "string \<Rightarrow> string" where
  "star_front pattern = join_with ''/'' (takeWhile (\<lambda>s. \<not> contains_str s ''**'') (split_on slash pattern))"

definition star_tail :: "string \<Rightarrow> string list" where
  "star_tail pattern = collapse_stars [] (dropWhile (\<lambda>s. \<not> contains_str s ''**'') (split_on slash pattern))"

lemma collapse_stars_Nil: "collapse_stars acc ss = [] \<longleftrightarrow> acc = [] \<and> ss = []"
  by (induction acc ss rule: collapse_stars.induct) auto

text \<open>
  C33 (\<open>double_star_exact\<close>).  A glob with a double star stands for exactly those directories the walk
  below its fixed front reaches without entering a dependency or hidden directory whose names after
  the front can be cut into pieces that fit the segments of the glob, any number of names for a double
  star.
\<close>

theorem double_star_exact:
  assumes "\<exists>s\<in>set (split_on slash pattern). contains_str s ''**''"
  shows "rel \<in> set (expand_double_star_glob d root pattern) \<longleftrightarrow>
    (\<exists>t p t'. dk_tree d (filepath_join [root, star_front pattern]) = Some t
       \<and> walked (filepath_join [root, star_front pattern]) t p t' \<and> filepath_rel root p = Some rel
       \<and> covers (star_tail pattern) (split_on slash (trim_prefix (trim_prefix rel (star_front pattern)) ''/'')))"
proof -
  let ?segs = "split_on slash pattern"
  let ?drop = "dropWhile (\<lambda>s. \<not> contains_str s ''**'') ?segs"
  let ?base = "filepath_join [root, star_front pattern]"
  have "?drop \<noteq> []" using assms by (simp add: dropWhile_eq_Nil_conv)
  then have tail: "star_tail pattern \<noteq> []" by (simp add: star_tail_def collapse_stars_Nil)
  have len: "length (takeWhile (\<lambda>s. \<not> contains_str s ''**'') ?segs) \<noteq> length ?segs"
    using \<open>?drop \<noteq> []\<close> by (metis append_Nil2 append_eq_append_conv takeWhile_dropWhile_id)
  have star: "contains_str pattern ''**''"
  proof -
    obtain s where s: "s \<in> set ?segs" "sublist ''**'' s" using assms by (auto simp: contains_str_def)
    obtain us vs where "?segs = us @ s # vs" using s(1) by (meson split_list)
    then have "pattern = join_with [slash] (us @ s # vs)" by (metis join_split)
    moreover have "sublist s (join_with [slash] (us @ s # vs))" for us vs
    proof (induction us)
      case Nil
      show ?case by (cases vs) (simp_all add: sublist_append_rightI)
    next
      case (Cons u us)
      then have "sublist s ((u @ [slash]) @ join_with [slash] (us @ s # vs))" using sublist_append by blast
      then show ?case by (simp add: join_with_Cons)
    qed
    ultimately show ?thesis using s(2) by (metis contains_str_def sublist_order.order.trans)
  qed
  let ?segs_of = "\<lambda>rel. split_on slash (trim_prefix (trim_prefix rel (star_front pattern)) ''/'')"
  let ?out = "\<lambda>path. case filepath_rel root path of None \<Rightarrow> []
    | Some rel \<Rightarrow> (if match_segments (star_tail pattern) (?segs_of rel) then [rel] else [])"
  have o: "rel \<in> set (?out p) \<longleftrightarrow> filepath_rel root p = Some rel \<and> covers (star_tail pattern) (?segs_of rel)" for p
    by (auto simp: match_segments_covers split: option.splits)
  have "expand_double_star_glob d root pattern
      = (case dk_tree d ?base of None \<Rightarrow> [] | Some t \<Rightarrow> sort (dirs_below ?out ?base t))"
    using tail len star by (simp add: expand_double_star_glob_def Let_def
        star_front_def [symmetric] star_tail_def [symmetric])
  then show ?thesis unfolding o [symmetric] by (cases "dk_tree d ?base") (simp_all add: dirs_below_walked)
qed

definition mono_tree :: dir_tree where
  "mono_tree = Dirs [(''node_modules'', Dirs [(''lib'', Dirs [])]), (''web'', Dirs [(''lib'', Dirs [])])]"

definition mono_disk :: disk where
  "mono_disk = \<lparr>dk_stat = (\<lambda>_. None), dk_there = (\<lambda>_. False), dk_read = (\<lambda>_. None), dk_dir = (\<lambda>_. None),
     dk_tree = [''/w/apps'' \<mapsto> mono_tree], dk_iter = (\<lambda>ks. ks)\<rparr>"

theorem double_star_exact_witness:
  "''apps/web/lib'' \<in> set (expand_double_star_glob mono_disk ''/w'' ''apps/**/lib'')"
proof -
  have sp: "split_on slash ''apps/**/lib'' = [''apps'', ''**'', ''lib'']" by simp
  have c: "\<not> contains_str ''apps'' ''**''" "contains_str ''**'' ''**''" by (simp_all add: contains_str_def sublist_Cons_right)
  have front: "star_front ''apps/**/lib'' = ''apps''" and tail: "star_tail ''apps/**/lib'' = [''**'', ''lib'']"
    by (simp_all only: star_front_def star_tail_def sp) (simp_all add: c)
  have paths: "filepath_join [''/w'', ''apps''] = ''/w/apps''" "filepath_join [''/w/apps'', ''web''] = ''/w/apps/web''"
    "filepath_join [''/w/apps/web'', ''lib''] = ''/w/apps/web/lib''" "filepath_base ''/w/apps/web'' = ''web''"
    "filepath_base ''/w/apps/web/lib'' = ''lib''" "filepath_rel ''/w'' ''/w/apps/web/lib'' = Some ''apps/web/lib''"
    by (simp_all add: path_eval str_eval)
  have vis: "\<not> hidden_dir ''web''" "\<not> hidden_dir ''lib''" by (simp_all add: hidden_dir_def has_prefix_def)
  have "walked ''/w/apps/web'' (Dirs [(''lib'', Dirs [])]) ''/w/apps/web/lib'' (Dirs [])"
    using walked.child [of "''lib''" "Dirs []" "[(''lib'', Dirs [])]" "''/w/apps/web''"] by (simp add: paths vis)
  then have inner: "walked (filepath_join [''/w/apps'', ''web'']) (Dirs [(''lib'', Dirs [])]) ''/w/apps/web/lib'' (Dirs [])"
    unfolding paths .
  have web: "\<not> hidden_dir (filepath_base (filepath_join [''/w/apps'', ''web'']))" unfolding paths by (rule vis)
  have w: "walked ''/w/apps'' mono_tree ''/w/apps/web/lib'' (Dirs [])"
    unfolding mono_tree_def by (rule walked.deeper [OF _ web inner]) simp
  have "go_match ''lib'' ''lib'' = Some True" by (simp add: go_match_literal glob_meta_def)
  then have "covers [''**'', ''lib''] [''web'', ''lib'']"
    by (simp add: covers_Cons covers_Nil piece_fits_def) (rule exI [of _ "[''web'']"], simp)
  moreover have "split_on slash (trim_prefix (trim_prefix ''apps/web/lib'' ''apps'') ''/'') = [''web'', ''lib'']"
    by (simp add: trim_prefix_def)
  moreover have "dk_tree mono_disk ''/w/apps'' = Some mono_tree" by (simp add: mono_disk_def)
  moreover have "\<exists>s\<in>set (split_on slash ''apps/**/lib''). contains_str s ''**''" unfolding sp using c by simp
  ultimately show ?thesis
    using w paths(6) double_star_exact [of "''apps/**/lib''" "''apps/web/lib''" mono_disk "''/w''"]
    unfolding front tail paths(1) by (metis (no_types))
qed

section \<open>The longest package\<close>

lemma workspace_import_longest:
  assumes "\<forall>ks. set (iter ks) = set ks" "path \<noteq> []" "map_of ws name = Some dir" "name \<noteq> []" "leads name path"
    and "\<forall>k\<in>fst ` set ws. leads k path \<longrightarrow> length k \<le> length name"
  shows "resolve_workspace_import iter path ws =
    (let sub = drop (Suc (length name)) path in
     if dir = ''.'' then (if sub = [] then ''.'' else sub) else if sub = [] then dir else filepath_join [dir, sub])"
proof -
  have "name \<in> fst ` set ws" using assms(3) by (metis fst_conv image_iff map_of_SomeD)
  then have "best_name path [] (iter (map fst ws)) = name"
    unfolding best_name_iff [OF assms(4)] using assms by simp
  moreover have "trim_prefix (trim_prefix path name) ''/'' = drop (Suc (length name)) path"
    using assms(5) by (auto simp: leads_def has_prefix_iff trim_prefix_def prefix_def)
  ultimately show ?thesis using assms(2-4) by (simp add: resolve_workspace_import_def Let_def)
qed

section \<open>The stamp does not cover the members\<close>

text \<open>
  The stamp is taken from the two files of the root alone: when a member is renamed in its own
  \<^verbatim>\<open>package.json\<close> the cached table is still used.
\<close>

lemma workspace_cache_stale:
  assumes "workspace_stamp d' root = workspace_stamp d root" "clean root = root"
  shows "fst (load_workspace_packages js d' root (snd (load_workspace_packages js d root Map.empty)))
    = (if workspace_packages js d root = [] then None else Some (workspace_packages js d root))"
  using assms by (simp add: load_workspace_packages_def load_stamped_def workspace_stamp_def read_workspace_def
      Let_def split_beta)

interpretation workspaces: stamped_cache workspace_stamp "read_workspace js" "{d}" for js d
  by unfold_locales auto

end
