(* ===== verification/Cargo_Workspace.thy ===== *)
theory Cargo_Workspace
  imports Module_Disk Go_Regexp Go_Match
begin

text \<open>
  Rust crates of a Cargo workspace (\<^verbatim>\<open>resolution/cargo_workspace.go\<close>): the parts of \<^verbatim>\<open>Cargo.toml\<close> the code
  reads, the member directories and their crate names, and the files a \<^verbatim>\<open>use\<close> path leads to.
\<close>

section \<open>Reading Cargo.toml\<close>

definition toml_line :: "string \<Rightarrow> string" where
  "toml_line line =
     (let t = trim_space line in
      case index_byte (CHR ''#'') t of None \<Rightarrow> t | Some i \<Rightarrow> trim_space (take i t))"

fun toml_body :: "string list \<Rightarrow> string list" where
  "toml_body [] = []"
| "toml_body (line # ls) =
     (let t = toml_line line in
      if has_prefix t ''['' \<and> has_suffix t '']'' then [] else line # toml_body ls)"

definition get_toml_section :: "string \<Rightarrow> string \<Rightarrow> string" where
  "get_toml_section content name =
     (case dropWhile (\<lambda>line. toml_line line \<noteq> ''['' @ name @ '']'') (split_on newline content) of
        [] \<Rightarrow> []
      | _ # ls \<Rightarrow> join_with [newline] (toml_body ls))"

text \<open>\<^verbatim>\<open>(?m)^\s*name\s*=\s*["']([^"'\n]+)["']\<close> and \<^verbatim>\<open>(?m)\bkey\b\s*=\<close>.\<close>

definition toml_name_re :: re where
  "toml_name_re =
     seq [Line_start, any_of re_space, lit ''name'', any_of re_space, Byte (\<lambda>c. c = CHR ''=''), any_of re_space,
          Byte (\<lambda>c. c \<in> quotes), Group 1 (some_of (\<lambda>c. c \<notin> quotes \<and> c \<noteq> newline)), Byte (\<lambda>c. c \<in> quotes)]"

definition toml_key_re :: "string \<Rightarrow> re" where
  "toml_key_re key = seq [Word_edge, lit key, Word_edge, any_of re_space, Byte (\<lambda>c. c = CHR ''='')]"

definition parse_toml_package_name :: "string \<Rightarrow> string" where
  "parse_toml_package_name content =
     (let sec = get_toml_section content ''package'' in
      if sec = [] then []
      else case find_submatch toml_name_re sec of None \<Rightarrow> [] | Some m \<Rightarrow> trim_space (m 1))"

text \<open>The text up to the bracket that closes the array, empty if none does.\<close>

fun array_body :: "nat \<Rightarrow> char option \<Rightarrow> bool \<Rightarrow> string \<Rightarrow> string \<Rightarrow> string" where
  "array_body depth quote esc acc [] = []"
| "array_body depth quote esc acc (ch # r) =
     (case quote of
        Some q \<Rightarrow>
          (if esc then array_body depth quote False (acc @ [ch]) r
           else if ch = backslash then array_body depth quote True (acc @ [ch]) r
           else array_body depth (if ch = q then None else quote) False (acc @ [ch]) r)
      | None \<Rightarrow>
          (if ch \<in> quotes then array_body depth (Some ch) esc (acc @ [ch]) r
           else if ch = CHR ''['' then array_body (depth + 1) None esc (acc @ [ch]) r
           else if ch = CHR '']'' then (if depth = 1 then acc else array_body (depth - 1) None esc (acc @ [ch]) r)
           else array_body depth None esc (acc @ [ch]) r))"

definition get_toml_array_value :: "string \<Rightarrow> string \<Rightarrow> string" where
  "get_toml_array_value section key =
     (case find_from (toml_key_re key) [] section of
        None \<Rightarrow> []
      | Some (_, _, after, _) \<Rightarrow>
          (case dropWhile (\<lambda>c. c = CHR '' '' \<or> c = CHR 0x09 \<or> c = newline \<or> c = CHR 0x0D) after of
             [] \<Rightarrow> []
           | c # r \<Rightarrow> (if c = CHR ''['' then array_body 1 None False [] r else [])))"

fun quoted_values :: "char option \<Rightarrow> bool \<Rightarrow> string \<Rightarrow> string \<Rightarrow> string list" where
  "quoted_values quote esc cur [] = []"
| "quoted_values quote esc cur (ch # r) =
     (case quote of
        None \<Rightarrow> (if ch \<in> quotes then quoted_values (Some ch) esc [] r else quoted_values None esc cur r)
      | Some q \<Rightarrow>
          (if esc then quoted_values quote False (cur @ [ch]) r
           else if ch = backslash then quoted_values quote True cur r
           else if ch = q then
             (let v = trim_space cur in (if v \<noteq> [] then [v] else []) @ quoted_values None False cur r)
           else quoted_values quote False (cur @ [ch]) r))"

definition extract_quoted_values :: "string \<Rightarrow> string list" where
  "extract_quoted_values s = quoted_values None False [] s"

definition parse_workspace_members :: "string \<Rightarrow> string list" where
  "parse_workspace_members content =
     (let sec = get_toml_section content ''workspace'' in
      if sec = [] then []
      else (let arr = get_toml_array_value sec ''members'' in if arr = [] then [] else extract_quoted_values arr))"

section \<open>The members\<close>

text \<open>\<^verbatim>\<open>[*?\[\]{}!]\<close>.\<close>

definition glob_char :: "char \<Rightarrow> bool" where
  "glob_char c \<longleftrightarrow> c \<in> {CHR ''*'', CHR ''?'', CHR ''['', CHR '']'', CHR 0x7B, CHR 0x7D, CHR ''!''}"

definition cargo_skip_dir :: "string \<Rightarrow> bool" where
  "cargo_skip_dir name \<longleftrightarrow>
     name \<in> set [''target'', ''node_modules'', ''.git'', ''dist'', ''build'', ''.codegraph'']"

fun cargo_glob_segs :: "string list \<Rightarrow> string list \<Rightarrow> bool" where
  "cargo_glob_segs [] path = (path = [])"
| "cargo_glob_segs (p # ps) [] = False"
| "cargo_glob_segs (p # ps) (s # ss) =
     (let p' = (if p = ''**'' then ''*'' else p) in
      if p' = ''*'' then cargo_glob_segs ps ss
      else if go_match p' s = Some True then cargo_glob_segs ps ss
      else False)"

definition cargo_glob_match :: "string \<Rightarrow> string \<Rightarrow> bool" where
  "cargo_glob_match pattern path = cargo_glob_segs (split_on slash pattern) (split_on slash path)"

definition in_dir :: "string \<Rightarrow> string \<Rightarrow> string" where
  "in_dir rel name = (if rel \<noteq> [] \<and> rel \<noteq> ''.'' then rel @ ''/'' @ name else name)"

text \<open>The number is how many more levels are entered; the code starts at depth 0 and stops past 5.\<close>

fun cargo_walk :: "disk \<Rightarrow> string \<Rightarrow> string \<Rightarrow> nat \<Rightarrow> string \<Rightarrow> string list" where
  "cargo_walk d root pattern 0 rel = []"
| "cargo_walk d root pattern (Suc n) rel =
     (case dk_dir d (if rel \<noteq> [] \<and> rel \<noteq> ''.'' then filepath_join [root, rel] else root) of
        None \<Rightarrow> []
      | Some entries \<Rightarrow>
          concat (map (\<lambda>(name, is_dir).
            if \<not> is_dir \<or> cargo_skip_dir name \<or> has_prefix name ''.'' then []
            else (let child = in_dir rel name in
                  (if cargo_glob_match pattern child then [child] else []) @ cargo_walk d root pattern n child)) entries))"

definition cargo_levels :: nat where
  "cargo_levels = 6"

definition expand_cargo_glob :: "disk \<Rightarrow> string \<Rightarrow> string \<Rightarrow> string list" where
  "expand_cargo_glob d root pattern =
     (if \<not> list_ex glob_char pattern then [pattern]
      else
        (let front = takeWhile (\<lambda>c. \<not> glob_char c) pattern;
             pref = (case last_index_any {slash} front of Some i \<Rightarrow> take i front | None \<Rightarrow> []);
             start = (if pref = [] then ''.'' else pref)
         in cargo_walk d root pattern cargo_levels start))"

definition trim_slashes :: "string \<Rightarrow> string" where
  "trim_slashes s = trim_set {slash} s"

definition expand_cargo_members :: "disk \<Rightarrow> string \<Rightarrow> string list \<Rightarrow> string list" where
  "expand_cargo_members d root members =
     dedup_by (\<lambda>c. c) {} (filter (\<lambda>c. c \<noteq> [])
       (map trim_slashes (concat (map (\<lambda>m0. let m = trim_slashes m0 in
          if list_ex glob_char m then expand_cargo_glob d root m else [m]) members))))"

section \<open>Crate names\<close>

record cargo_ws =
  cw_root :: string
  cw_names :: "(string \<times> string) list"

definition add_first :: "string \<Rightarrow> string \<Rightarrow> (string \<times> string) list \<Rightarrow> (string \<times> string) list" where
  "add_first k v m = (if map_of m k = None then m @ [(k, v)] else m)"

definition add_crate_alias :: "(string \<times> string) list \<Rightarrow> string \<times> string \<Rightarrow> (string \<times> string) list" where
  "add_crate_alias m e =
     (let crate = fst e;
          member0 = trim_slashes (snd e);
          member = (if member0 = [] then ''.'' else member0);
          m1 = add_first crate member m;
          norm = map (\<lambda>c. if c = CHR ''-'' then CHR ''_'' else c) crate
      in if norm \<noteq> crate then add_first norm member m1 else m1)"

text \<open>Members whose manifest is missing or names no package are left out.\<close>

definition cargo_members :: "disk \<Rightarrow> string \<Rightarrow> string \<Rightarrow> (string \<times> string) list" where
  "cargo_members d root content =
     filter (\<lambda>e. fst e \<noteq> [])
       ((parse_toml_package_name content, ''.'')
        # map (\<lambda>member. ((case dk_read d (filepath_join [root, member, ''Cargo.toml'']) of
                              None \<Rightarrow> [] | Some raw \<Rightarrow> parse_toml_package_name raw), member))
            (expand_cargo_members d root (parse_workspace_members content)))"

definition cargo_stamp :: "disk \<Rightarrow> string \<Rightarrow> int option" where
  "cargo_stamp d root = mod_time d (filepath_join [root, ''Cargo.toml''])"

definition read_cargo :: "disk \<Rightarrow> string \<Rightarrow> cargo_ws option option" where
  "read_cargo d root =
     (case dk_read d (filepath_join [root, ''Cargo.toml'']) of
        None \<Rightarrow> None
      | Some content \<Rightarrow>
          (let by_name = foldl add_crate_alias [] (cargo_members d root content) in
           Some (if by_name = [] then None else Some \<lparr>cw_root = root, cw_names = by_name\<rparr>)))"

type_synonym cargo_cache = "(string, cargo_ws option) stamped"

definition load_cargo_workspace :: "disk \<Rightarrow> string \<Rightarrow> cargo_cache \<Rightarrow> cargo_ws option \<times> cargo_cache" where
  "load_cargo_workspace d root0 c =
     (let (r, c') = load_stamped (cargo_stamp d) (read_cargo d) (clean root0) c
      in (case r of None \<Rightarrow> None | Some ws \<Rightarrow> ws, c'))"

interpretation cargo: stamped_cache cargo_stamp read_cargo "{d}" for d
  by unfold_locales auto

section \<open>Finding the crate\<close>

definition rust_entries :: "string list" where
  "rust_entries = [''lib.rs'', ''main.rs'']"

definition rust_crate_entry_files :: "disk \<Rightarrow> string \<Rightarrow> string list" where
  "rust_crate_entry_files d src_root =
     unique_existing d (filter (is_file d) (map (\<lambda>name. filepath_join [src_root, name]) rust_entries))"

definition has_rust_entry :: "disk \<Rightarrow> string \<Rightarrow> bool" where
  "has_rust_entry d dir = list_ex (\<lambda>name. is_file d (filepath_join [dir, name])) rust_entries"

definition crate_levels :: nat where
  "crate_levels = 64"

text \<open>The climb of \<^verbatim>\<open>findRustCrateSrcRoot\<close>, at most so many levels.\<close>

fun climb_to_crate :: "disk \<Rightarrow> string \<Rightarrow> nat \<Rightarrow> string \<Rightarrow> string option" where
  "climb_to_crate d stop 0 cur = None"
| "climb_to_crate d stop (Suc n) cur =
     (if has_rust_entry d cur then Some cur
      else if stat_ok d (filepath_join [cur, ''Cargo.toml'']) \<and> has_rust_entry d (filepath_join [cur, ''src''])
      then Some (filepath_join [cur, ''src''])
      else if cur = stop then None
      else if filepath_dir cur = cur then None
      else climb_to_crate d stop n (filepath_dir cur))"

definition src_of :: "disk \<Rightarrow> string \<Rightarrow> string" where
  "src_of d dir = (let src = filepath_join [dir, ''src''] in if has_rust_entry d src then src else [])"

definition find_rust_crate_src_root :: "disk \<Rightarrow> string \<Rightarrow> string \<Rightarrow> string" where
  "find_rust_crate_src_root d from_file stop_at =
     (if from_file = [] then src_of d stop_at
      else (case climb_to_crate d (clean stop_at) crate_levels (filepath_dir from_file) of
              Some r \<Rightarrow> r
            | None \<Rightarrow> src_of d (clean stop_at)))"

text \<open>\<^verbatim>\<open>findNearestCargoRoot\<close>; at the last directory the code asks the same question again.\<close>

function nearest_cargo :: "disk \<Rightarrow> string \<Rightarrow> string \<Rightarrow> string" where
  "nearest_cargo d stop cur =
     (if stat_ok d (filepath_join [cur, ''Cargo.toml'']) then cur
      else if cur = stop then (if stat_ok d (filepath_join [stop, ''Cargo.toml'']) then stop else [])
      else if filepath_dir cur = cur then []
      else nearest_cargo d stop (filepath_dir cur))"
  by pat_completeness auto
termination
  by (relation "measure (\<lambda>(d, stop, cur). path_weight cur)") (auto simp: filepath_dir_smaller)

declare nearest_cargo.simps [simp del]

definition find_nearest_cargo_root :: "disk \<Rightarrow> string \<Rightarrow> string \<Rightarrow> string" where
  "find_nearest_cargo_root d from_file stop_at = nearest_cargo d (clean stop_at) (filepath_dir from_file)"

section \<open>Modules below a source root\<close>

definition rust_self_module_dir :: "string \<Rightarrow> string \<Rightarrow> string" where
  "rust_self_module_dir from_file src_root =
     (if from_file = [] then src_root
      else
        (let base = filepath_base from_file; dir = filepath_dir from_file in
         if base \<in> set [''mod.rs'', ''lib.rs'', ''main.rs''] then dir
         else filepath_join [dir, trim_suffix base ''.rs'']))"

fun leading_supers :: "string \<Rightarrow> string list \<Rightarrow> string \<times> string list" where
  "leading_supers start [] = (start, [])"
| "leading_supers start (s # ss) = (if s = ''super'' then leading_supers (filepath_dir start) ss else (start, s # ss))"

fun clean_rust_segs :: "string \<Rightarrow> string list \<Rightarrow> string \<times> string list" where
  "clean_rust_segs start [] = (start, [])"
| "clean_rust_segs start (s # ss) =
     (if s = [] \<or> s = ''self'' \<or> s = ''crate'' then clean_rust_segs start ss
      else if s = ''super'' then clean_rust_segs (filepath_dir start) ss
      else (let (st, rest) = clean_rust_segs start ss in (st, s # rest)))"

text \<open>One module after the other, as a file or as a directory with \<^verbatim>\<open>mod.rs\<close>.\<close>

fun rust_modules :: "disk \<Rightarrow> string \<Rightarrow> string \<Rightarrow> string list \<Rightarrow> string list" where
  "rust_modules d dir target [] = (if target = [] then [] else [target])"
| "rust_modules d dir target (s # ss) =
     (let as_file = filepath_join [dir, s @ ''.rs'']; as_mod = filepath_join [dir, s, ''mod.rs''] in
      if is_file d as_file then rust_modules d (filepath_join [dir, s]) as_file ss
      else if is_file d as_mod then rust_modules d (filepath_join [dir, s]) as_mod ss
      else [])"

definition resolve_rust_module_under :: "disk \<Rightarrow> string \<Rightarrow> string \<Rightarrow> string \<Rightarrow> string list \<Rightarrow> string list" where
  "resolve_rust_module_under d src_root from_file anchor segs0 =
     (let (start0, segs) =
        (if anchor = ''crate'' then (src_root, segs0)
         else if anchor = ''self'' then (rust_self_module_dir from_file src_root, segs0)
         else if anchor = ''super'' then
           (let (st, ss) = leading_supers (rust_self_module_dir from_file src_root) segs0 in (filepath_dir st, ss))
         else (src_root, segs0))
      in if start0 = [] then []
         else (let (start, names) = clean_rust_segs start0 segs in
               if names = [] then rust_crate_entry_files d src_root else rust_modules d start [] names))"

section \<open>The files of a use path\<close>

text \<open>\<^verbatim>\<open>strings.Split(spec, "::")\<close>.\<close>

fun split_colons :: "string \<Rightarrow> string list" where
  "split_colons (a # b # r) =
     (if a = CHR '':'' \<and> b = CHR '':'' then [] # split_colons r
      else case split_colons (b # r) of [] \<Rightarrow> [[a]] | p # ps \<Rightarrow> (a # p) # ps)"
| "split_colons s = [s]"

definition first_found :: "string list list \<Rightarrow> string list" where
  "first_found hits = (case find (\<lambda>h. h \<noteq> []) hits of None \<Rightarrow> [] | Some h \<Rightarrow> h)"

text \<open>A path of modules that may end with a symbol: all of it, all but its last name, the crate itself.\<close>

definition modules_or_entry :: "disk \<Rightarrow> string \<Rightarrow> string \<Rightarrow> string \<Rightarrow> string list \<Rightarrow> string list" where
  "modules_or_entry d src_root from_file anchor segs =
     first_found [resolve_rust_module_under d src_root from_file anchor segs,
       (if 1 < length segs then resolve_rust_module_under d src_root from_file anchor (butlast segs) else []),
       rust_crate_entry_files d src_root]"

text \<open>The workspace an import belongs to: the root's, or the nearest one above the file.\<close>

definition cargo_for :: "disk \<Rightarrow> string \<Rightarrow> string \<Rightarrow> cargo_cache \<Rightarrow> (cargo_ws option \<times> string) \<times> cargo_cache" where
  "cargo_for d workdir from_file c =
     (case load_cargo_workspace d workdir c of
        (Some ws, c1) \<Rightarrow> ((Some ws, workdir), c1)
      | (None, c1) \<Rightarrow>
          (let near = (if from_file = [] then [] else find_nearest_cargo_root d from_file workdir) in
           if near = [] then ((None, workdir), c1)
           else case load_cargo_workspace d near c1 of
                  (Some ws, c2) \<Rightarrow> ((Some ws, near), c2)
                | (None, c2) \<Rightarrow> ((None, workdir), c2)))"

definition rust_use :: "disk \<Rightarrow> cargo_ws option \<Rightarrow> string \<Rightarrow> string \<Rightarrow> string list \<Rightarrow> string list" where
  "rust_use d ws workdir from_file parts =
     (let first = hd parts; rest = tl parts in
      if first \<in> set [''crate'', ''self'', ''super''] then
        (let crate_root = find_rust_crate_src_root d from_file workdir in
         if crate_root = [] then [] else resolve_rust_module_under d crate_root from_file first rest)
      else
        (case (case ws of None \<Rightarrow> None | Some w \<Rightarrow> map_of (cw_names w) first) of
           Some member \<Rightarrow>
             (let member_abs = (if member \<noteq> ''.'' then filepath_join [workdir, member] else workdir);
                  src_root = filepath_join [member_abs, ''src'']
              in if rest = [] then rust_crate_entry_files d src_root
                 else modules_or_entry d src_root [] ''crate'' rest)
         | None \<Rightarrow>
             (let crate_root = find_rust_crate_src_root d from_file workdir in
              if crate_root = [] then [] else modules_or_entry d crate_root from_file ''self'' parts)))"

definition resolve_cargo_import ::
    "disk \<Rightarrow> string \<Rightarrow> string \<Rightarrow> string \<Rightarrow> cargo_cache \<Rightarrow> string list \<times> cargo_cache" where
  "resolve_cargo_import d workdir0 from_file spec0 c =
     (let spec1 = trim_space spec0 in
      if spec1 = [] then ([], c)
      else
        (let parts = split_colons (trim_suffix (trim_suffix spec1 ''::*'') ''::self'') in
         if hd parts = [] then ([], c)
         else
           (let ((ws, workdir), c') = cargo_for d (clean workdir0) from_file c
            in (rust_use d ws workdir from_file parts, c'))))"

section \<open>What is found\<close>

lemma found_entry [simp]: "found_files d (rust_crate_entry_files d src)"
  by (auto simp: found_files_def rust_crate_entry_files_def unique_existing_ok)

lemma found_modules: "target = [] \<or> is_file d target \<Longrightarrow> found_files d (rust_modules d dir target ss)"
proof (induction d dir target ss rule: rust_modules.induct)
  case (1 d dir target)
  then show ?case by (auto simp: found_files_def)
next
  case (2 d dir target s ss)
  show ?case
  proof (cases "is_file d (filepath_join [dir, s @ ''.rs''])")
    case True
    then show ?thesis using "2.IH"(1) [OF refl refl True] by (simp add: Let_def)
  next
    case False
    show ?thesis
    proof (cases "is_file d (filepath_join [dir, s, ''mod.rs''])")
      case True
      then show ?thesis using "2.IH"(2) [OF refl refl False True] False by (simp add: Let_def)
    qed (use False in \<open>simp add: Let_def\<close>)
  qed
qed

lemma found_under [simp]: "found_files d (resolve_rust_module_under d src from anchor segs)"
proof -
  have found: "found_files d (case p of (start0, segs) \<Rightarrow> if start0 = [] then []
      else (case clean_rust_segs start0 segs of (start, names) \<Rightarrow>
        if names = [] then rust_crate_entry_files d src else rust_modules d start [] names))" for p
    by (cases p) (simp add: found_modules split: prod.split)
  show ?thesis unfolding resolve_rust_module_under_def Let_def by (rule found)
qed

lemma first_found_in: "\<forall>h\<in>set hits. Q h \<Longrightarrow> Q [] \<Longrightarrow> Q (first_found hits)"
  by (auto simp: first_found_def find_Some_iff split: option.splits)

lemma found_modules_or_entry [simp]: "found_files d (modules_or_entry d src from anchor segs)"
  unfolding modules_or_entry_def by (rule first_found_in) auto

lemma found_rust_use [simp]: "found_files d (rust_use d ws workdir from parts)"
proof (cases "hd parts \<in> set [''crate'', ''self'', ''super'']")
  case True
  then show ?thesis unfolding rust_use_def Let_def by (simp only: if_True found_under found_Nil split: if_split) simp
next
  case False
  then show ?thesis unfolding rust_use_def Let_def
    by (simp only: if_False found_modules_or_entry found_entry found_Nil simp_thms split: if_split option.split)
qed

lemma found_cargo: "found_files d (fst (resolve_cargo_import d workdir from spec c))"
  by (simp add: resolve_cargo_import_def Let_def split_beta)

section \<open>Globs of members\<close>

lemma cargo_glob_segs_iff:
  "cargo_glob_segs ps ss \<longleftrightarrow> list_all2 (\<lambda>p s. p = ''*'' \<or> p = ''**'' \<or> go_match p s = Some True) ps ss"
  by (induction ps ss rule: cargo_glob_segs.induct) (simp_all add: Let_def)

lemma cargo_walk_matches: "c \<in> set (cargo_walk d root pattern n rel) \<Longrightarrow> cargo_glob_match pattern c"
proof (induction n arbitrary: rel)
  case (Suc n)
  then show ?case by (auto simp: Let_def split: option.splits if_splits)
qed simp

section \<open>Chains of modules\<close>

text \<open>The file of one module in a directory, and the directories a path of modules goes through.\<close>

definition module_file :: "disk \<Rightarrow> string \<Rightarrow> string \<Rightarrow> string" where
  "module_file d dir s =
     (if is_file d (filepath_join [dir, s @ ''.rs'']) then filepath_join [dir, s @ ''.rs'']
      else filepath_join [dir, s, ''mod.rs''])"

definition module_dir :: "string \<Rightarrow> string list \<Rightarrow> string" where
  "module_dir dir ss = foldl (\<lambda>p s. filepath_join [p, s]) dir ss"

lemma rust_modules_Cons:
  "rust_modules d dir target (s # ss) =
     (if is_file d (module_file d dir s) then rust_modules d (filepath_join [dir, s]) (module_file d dir s) ss else [])"
  by (simp add: module_file_def Let_def)

text \<open>
  A path of modules below a directory leads to the file of its last
  module exactly if every module on the way has one, and to nothing otherwise.
\<close>

theorem rust_modules_exact:
  assumes "ss \<noteq> []" "\<not> is_file d []"
  shows "rust_modules d dir target ss =
    (if \<forall>i<length ss. is_file d (module_file d (module_dir dir (take i ss)) (ss ! i))
     then [module_file d (module_dir dir (butlast ss)) (last ss)] else [])"
  using assms(1)
proof (induction ss arbitrary: dir target)
  case (Cons s ss)
  let ?f = "module_file d dir s"
  have all: "(\<forall>i<length (s # ss). is_file d (module_file d (module_dir dir (take i (s # ss))) ((s # ss) ! i)))
      \<longleftrightarrow> is_file d ?f \<and> (\<forall>i<length ss. is_file d (module_file d (module_dir (filepath_join [dir, s]) (take i ss)) (ss ! i)))"
    unfolding length_Cons All_less_Suc2 by (simp add: module_dir_def)
  show ?case
  proof (cases "ss = []")
    case True
    then show ?thesis using assms(2) unfolding all rust_modules_Cons by (auto simp: module_dir_def)
  next
    case False
    have "module_dir dir (butlast (s # ss)) = module_dir (filepath_join [dir, s]) (butlast ss)" "last (s # ss) = last ss"
      using False by (simp_all add: module_dir_def)
    then show ?thesis unfolding all rust_modules_Cons Cons.IH [OF False] by simp
  qed
qed simp

definition one_crate :: disk where
  "one_crate = \<lparr>dk_stat = [''/w/src/lib.rs'' \<mapsto> (False, 1), ''/w/src/util.rs'' \<mapsto> (False, 1)], dk_there = (\<lambda>_. False),
     dk_read = (\<lambda>_. None), dk_dir = (\<lambda>_. None), dk_tree = (\<lambda>_. None), dk_iter = (\<lambda>ks. ks)\<rparr>"

lemma one_crate_files:
  "is_file one_crate p \<longleftrightarrow> p = ''/w/src/lib.rs'' \<or> p = ''/w/src/util.rs''"
  "stat_ok one_crate p \<longleftrightarrow> p = ''/w/src/lib.rs'' \<or> p = ''/w/src/util.rs''"
  by (auto simp: is_file_def stat_ok_def one_crate_def)

lemma one_crate_paths:
  "filepath_join [''/w/src'', ''util.rs''] = ''/w/src/util.rs''" "filepath_join [''/w/src'', ''util''] = ''/w/src/util''"
  "filepath_join [''/w/src/util'', ''f.rs''] = ''/w/src/util/f.rs''" "filepath_join [''/w/src/util'', ''f'', ''mod.rs''] = ''/w/src/util/f/mod.rs''"
  "filepath_join [''/w'', ''src''] = ''/w/src''" "filepath_join [''/w/src'', ''lib.rs''] = ''/w/src/lib.rs''"
  "filepath_join [''/w/src'', ''main.rs''] = ''/w/src/main.rs''" "filepath_dir ''/w/src/lib.rs'' = ''/w/src''"
  by (simp_all add: path_eval str_eval)

theorem rust_modules_exact_witness:
  "rust_modules one_crate ''/w/src'' [] [''util''] = [''/w/src/util.rs''] \<and> rust_modules one_crate ''/w/src'' [] [''util'', ''f''] = []"
proof -
  have none: "\<not> is_file one_crate []" by (simp add: one_crate_files)
  have f: "module_file one_crate ''/w/src'' ''util'' = ''/w/src/util.rs''"
    "module_file one_crate ''/w/src/util'' ''f'' = ''/w/src/util/f/mod.rs''"
    by (simp_all add: module_file_def one_crate_paths one_crate_files)
  have "rust_modules one_crate ''/w/src'' [] [''util''] = [''/w/src/util.rs'']"
    by (subst rust_modules_exact [OF _ none]) (simp_all add: module_dir_def f one_crate_files)
  moreover have "rust_modules one_crate ''/w/src'' [] [''util'', ''f''] = []"
    by (subst rust_modules_exact [OF _ none]) (simp_all add: module_dir_def f one_crate_files one_crate_paths All_less_Suc2)
  ultimately show ?thesis ..
qed

text \<open>
  A path that ends with a symbol is cut back to its module when it starts with the name of a crate, but
  not when it starts with \<^verbatim>\<open>crate\<close>, \<^verbatim>\<open>self\<close> or \<^verbatim>\<open>super\<close>: the same import resolves under one name only.
\<close>

lemma crate_symbol_lost:
  defines "ws \<equiv> Some \<lparr>cw_root = ''/w'', cw_names = [(''m'', ''.'')]\<rparr>"
  shows "rust_use one_crate ws ''/w'' ''/w/src/lib.rs'' [''m'', ''util'', ''f''] = [''/w/src/util.rs'']
    \<and> rust_use one_crate ws ''/w'' ''/w/src/lib.rs'' [''crate'', ''util'', ''f''] = []"
proof -
  have m: "rust_modules one_crate ''/w/src'' [] [''util''] = [''/w/src/util.rs'']"
    "rust_modules one_crate ''/w/src'' [] [''util'', ''f''] = []"
    by (simp_all add: one_crate_paths one_crate_files)
  have u: "resolve_rust_module_under one_crate ''/w/src'' from ''crate'' [''util'', ''f''] = []"
    "resolve_rust_module_under one_crate ''/w/src'' from ''crate'' [''util''] = [''/w/src/util.rs'']" for "from"
    by (simp_all add: resolve_rust_module_under_def m del: rust_modules.simps)
  have "find_rust_crate_src_root one_crate ''/w/src/lib.rs'' ''/w'' = ''/w/src''"
    by (simp add: find_rust_crate_src_root_def crate_levels_def eval_nat_numeral one_crate_paths has_rust_entry_def
        rust_entries_def one_crate_files)
  then show ?thesis
    by (simp add: rust_use_def ws_def one_crate_paths modules_or_entry_def u first_found_def)
qed

section \<open>Reading back the members\<close>

lemma trim_space_head: "\<exists>u. trim_space (CHR ''m'' # t) = CHR ''m'' # u"
proof -
  let ?sp = "\<lambda>(r, bs). is_space r"
  have segs: "rune_segs (CHR ''m'' # t) = (109, ''m'') # rune_segs t"
    by (simp add: rune_segs_nonempty decode_rune_ascii)
  have no: "\<not> is_space 109" by (simp add: is_space_def)
  have "dropWhile ?sp (ys @ [(109, ''m'')]) = dropWhile ?sp ys @ [(109, ''m'')]" for ys :: "(nat \<times> string) list"
    using no by (induction ys) (auto split: prod.splits)
  then show ?thesis by (simp add: trim_space_def segs no Let_def)
qed

definition dquoted :: "string \<Rightarrow> string" where
  "dquoted x = CHR 0x22 # x @ [CHR 0x22]"

definition members_text :: "string list \<Rightarrow> string" where
  "members_text xs =
     ''[workspace]'' @ newline # ''members = ['' @ join_with '', '' (map dquoted xs) @ '']'' @ [newline]"

definition member_ok :: "string \<Rightarrow> bool" where
  "member_ok x \<longleftrightarrow> x \<noteq> [] \<and> CHR 0x22 \<notin> set x \<and> backslash \<notin> set x \<and> newline \<notin> set x \<and> trim_space x = x"

lemma array_body_quoted:
  "q \<notin> set x \<Longrightarrow> backslash \<notin> set x \<Longrightarrow> q \<noteq> backslash \<Longrightarrow>
     array_body depth (Some q) False acc (x @ q # r) = array_body depth None False (acc @ x @ [q]) r"
  by (induction x arbitrary: acc) auto

lemma array_body_values:
  "\<forall>x\<in>set xs. member_ok x \<Longrightarrow>
     array_body (Suc 0) None False acc (join_with '', '' (map dquoted xs) @ CHR '']'' # r) = acc @ join_with '', '' (map dquoted xs)"
proof (induction xs arbitrary: acc)
  case (Cons x xs)
  have x: "array_body (Suc 0) None False acc (dquoted x @ r') = array_body (Suc 0) None False (acc @ dquoted x) r'" for r' acc
    using Cons.prems array_body_quoted [of "CHR 0x22" x "Suc 0" "acc @ [CHR 0x22]" r']
    by (simp add: dquoted_def member_ok_def quotes_def)
  show ?case
  proof (cases xs)
    case Nil
    then show ?thesis by (simp only: list.map join_with.simps x) (simp add: quotes_def)
  next
    case (Cons y ys)
    have "join_with '', '' (map dquoted (x # xs)) = dquoted x @ '', '' @ join_with '', '' (map dquoted xs)"
      by (simp add: Cons)
    then show ?thesis using Cons.IH [of "acc @ dquoted x @ '', ''"] Cons.prems by (simp add: x quotes_def)
  qed
qed (simp add: quotes_def)

lemma quoted_values_inside:
  "q \<notin> set x \<Longrightarrow> backslash \<notin> set x \<Longrightarrow> q \<noteq> backslash \<Longrightarrow>
     quoted_values (Some q) False cur (x @ q # r)
       = (let v = trim_space (cur @ x) in (if v \<noteq> [] then [v] else [])) @ quoted_values None False (cur @ x) r"
  by (induction x arbitrary: cur) (auto simp: Let_def)

lemma quoted_values_cur: "quoted_values None False cur s = quoted_values None False cur' s"
  by (induction s arbitrary: cur cur') auto

lemma quoted_values_values:
  "\<forall>x\<in>set xs. member_ok x \<Longrightarrow> quoted_values None False cur (join_with '', '' (map dquoted xs)) = xs"
proof (induction xs arbitrary: cur)
  case (Cons x xs)
  have x: "quoted_values None False cur (dquoted x @ r) = x # quoted_values None False x r" for r cur
    using Cons.prems quoted_values_inside [of "CHR 0x22" x "[]" r]
    by (simp add: dquoted_def member_ok_def quotes_def)
  show ?case
  proof (cases xs)
    case Nil
    then show ?thesis using x [of cur "[]"] by simp
  next
    case (Cons y ys)
    have "join_with '', '' (map dquoted (x # xs)) = dquoted x @ '', '' @ join_with '', '' (map dquoted xs)"
      by (simp add: Cons)
    moreover have "quoted_values None False cur ('', '' @ s) = quoted_values None False cur s" for s
      by (simp add: quotes_def)
    ultimately show ?thesis using Cons.IH [of x] Cons.prems by (simp add: x quotes_def)
  qed
qed simp

lemma members_key:
  "\<exists>b. find_from (toml_key_re ''members'') [] (''members = '' @ r) = Some ([], b, CHR '' '' # r, no_groups)"
proof -
  have sp: "re_space (CHR '' '') = True" "re_space (CHR ''='') = False" by (simp_all add: re_space_def)
  have w: "is_word (CHR ''m'')" "is_word (CHR ''s'')" "\<not> is_word (CHR '' '')"
    by (simp_all add: is_word_def is_alpha_def is_digit_byte_def)
  have "matches (toml_key_re ''members'') ([], ''members = '' @ r, no_groups)
      = [(rev ''members ='', CHR '' '' # r, no_groups)]"
    by (simp add: toml_key_re_def matches_lit taken_def w matches_any_of sp upt_conv_Cons)
  then show ?thesis by simp
qed

text \<open>
  The members of a workspace written as an array of quoted strings
  are read back as they were written.
\<close>

theorem cargo_members_read_back:
  assumes "\<forall>x\<in>set xs. member_ok x"
  shows "parse_workspace_members (members_text xs) = xs"
proof -
  let ?arr = "join_with '', '' (map dquoted xs)"
  let ?line = "''members = ['' @ ?arr @ '']''"
  have nl: "newline \<notin> set ?arr"
  proof -
    have "newline \<notin> set (join_with sep ys)" if "newline \<notin> set sep" "\<forall>y\<in>set ys. newline \<notin> set y" for sep ys
      using that by (induction sep ys rule: join_with.induct) auto
    moreover have "\<forall>y\<in>set (map dquoted xs). newline \<notin> set y" using assms by (auto simp: dquoted_def member_ok_def)
    ultimately show ?thesis by simp
  qed
  have parts: "split_on newline (members_text xs) = [''[workspace]'', ?line, []]"
  proof -
    have "members_text xs = ''[workspace]'' @ newline # ?line @ newline # []" by (simp add: members_text_def)
    then show ?thesis using nl split_on_append_sep [of newline "''[workspace]''" "?line @ newline # []"]
        split_on_append_sep [of newline ?line "[]"] by simp
  qed
  have ascii: "ascii_string ''[workspace]''" by (simp add: ascii_string_def)
  have head: "toml_line ''[workspace]'' = ''[workspace]''"
    by (simp add: toml_line_def trim_space_ascii [OF ascii] is_space_def)
  have "\<not> has_prefix (toml_line ?line) ''[''"
  proof -
    obtain t where t: "trim_space ?line = CHR ''m'' # t"
      using trim_space_head [of "''embers = ['' @ ?arr @ '']''"] by auto
    obtain u where u: "toml_line ?line = trim_space (CHR ''m'' # u) \<or> toml_line ?line = CHR ''m'' # t"
      unfolding toml_line_def t Let_def by (cases "index_byte (CHR ''#'') t") auto
    obtain v where "trim_space (CHR ''m'' # u) = CHR ''m'' # v" using trim_space_head by blast
    with u obtain w where "toml_line ?line = CHR ''m'' # w" by metis
    then show ?thesis by (simp only: has_prefix_def prefix_code) simp
  qed
  moreover have "toml_line [] = []" by (simp add: toml_line_def)
  ultimately have sec: "get_toml_section (members_text xs) ''workspace'' = ?line @ [newline]"
    by (simp add: get_toml_section_def parts head has_prefix_def del: append.simps)
  have "get_toml_array_value (?line @ [newline]) ''members'' = ?arr"
    using members_key [of "CHR ''['' # ?arr @ '']'' @ [newline]"] array_body_values [OF assms, of "[]" "[newline]"]
    by (auto simp: get_toml_array_value_def)
  then show ?thesis using quoted_values_values [OF assms, of "[]"]
    by (auto simp: parse_workspace_members_def sec extract_quoted_values_def Let_def)
qed

theorem cargo_members_read_back_witness:
  "parse_workspace_members (members_text [''crates/a'', ''libs/*'']) = [''crates/a'', ''libs/*'']"
proof -
  have "member_ok ''crates/a''" "member_ok ''libs/*''" by (simp_all add: member_ok_def str_eval)
  then show ?thesis using cargo_members_read_back [of "[''crates/a'', ''libs/*'']"] by simp
qed

text \<open>An apostrophe in a comment inside the array opens a string that never ends: no member is read.\<close>

lemma apostrophe_loses_members:
  "get_toml_array_value (''members = ['' @ dquoted ''a'' @ '', # don'' @ CHR 0x27 # ''t'' @ newline # ''] '') ''members'' = []"
  using members_key [of "CHR ''['' # dquoted ''a'' @ '', # don'' @ CHR 0x27 # ''t'' @ newline # ''] ''"]
  by (auto simp: get_toml_array_value_def dquoted_def quotes_def)

end
