(* ===== verification/Import_Paths.thy ===== *)
theory Import_Paths
  imports Storage_Paths Go_Module Path_Aliases Workspace_Packages Cargo_Workspace
    "HOL-Library.State_Monad" "HOL-Library.Monad_Syntax"
begin

text \<open>
  The files an import specifier stands for (\<^verbatim>\<open>ResolveImportPath\<close> of \<^verbatim>\<open>resolution/import_resolver.go\<close>), by
  language: relative paths, Go modules, the aliases and packages of JavaScript projects, Python modules
  and Rust crates.  The package-level caches of the four readers are the state of a state monad; the
  results do not depend on them.
\<close>

section \<open>The caches\<close>

record import_env =
  ie_disk :: disk
  ie_ts :: tsconfig_json
  ie_pkg :: pkg_json

record import_caches =
  ic_go :: go_cache
  ic_alias :: alias_cache
  ic_ws :: workspace_cache
  ic_cargo :: cargo_cache

definition no_caches :: import_caches where
  "no_caches = \<lparr>ic_go = Map.empty, ic_alias = Map.empty, ic_ws = Map.empty, ic_cargo = Map.empty\<rparr>"

type_synonym 'a import_m = "(import_caches, 'a) state"

definition cached_go :: "import_env \<Rightarrow> string \<Rightarrow> go_module option import_m" where
  "cached_go env root = State (\<lambda>c. let (m, g) = load_go_module (ie_disk env) root (ic_go c) in (m, c\<lparr>ic_go := g\<rparr>))"

definition cached_aliases :: "import_env \<Rightarrow> string \<Rightarrow> alias_map option import_m" where
  "cached_aliases env root =
     State (\<lambda>c. let (m, g) = load_project_aliases (ie_ts env) (ie_disk env) root (ic_alias c) in (m, c\<lparr>ic_alias := g\<rparr>))"

definition cached_packages :: "import_env \<Rightarrow> string \<Rightarrow> (string \<times> string) list option import_m" where
  "cached_packages env root =
     State (\<lambda>c. let (m, g) = load_workspace_packages (ie_pkg env) (ie_disk env) root (ic_ws c) in (m, c\<lparr>ic_ws := g\<rparr>))"

definition cached_cargo :: "import_env \<Rightarrow> string \<Rightarrow> string \<Rightarrow> string \<Rightarrow> string list import_m" where
  "cached_cargo env workdir from_file spec =
     State (\<lambda>c. let (m, g) = resolve_cargo_import (ie_disk env) workdir from_file spec (ic_cargo c) in (m, c\<lparr>ic_cargo := g\<rparr>))"

section \<open>Go\<close>

text \<open>\<^verbatim>\<open>loadNearestGoModule\<close>, from a directory up to the workspace.\<close>

function load_nearest_go_module :: "import_env \<Rightarrow> string \<Rightarrow> string \<Rightarrow> go_module option import_m" where
  "load_nearest_go_module env stop cur = do {
     m \<leftarrow> cached_go env cur;
     if m \<noteq> None \<or> cur = stop \<or> filepath_dir cur = cur \<or> stop \<noteq> [] \<and> \<not> has_prefix cur (stop @ ''/'')
     then State_Monad.return m
     else load_nearest_go_module env stop (filepath_dir cur)
   }"
  by pat_completeness auto
termination
  by (relation "measure (\<lambda>(env, stop, cur). path_weight cur)") (auto simp: filepath_dir_smaller)

declare load_nearest_go_module.simps [simp del]

definition resolve_go_import_path :: "import_env \<Rightarrow> string \<Rightarrow> string \<Rightarrow> string \<Rightarrow> string list import_m" where
  "resolve_go_import_path env workdir from_dir spec =
     (if has_prefix spec ''./'' \<or> has_prefix spec ''../'' then
        State_Monad.return (expand_with_ext (ie_disk env) (filepath_join [from_dir, spec]) [''.go''])
      else do {
        m0 \<leftarrow> cached_go env workdir;
        m \<leftarrow> (if m0 \<noteq> None then State_Monad.return m0
             else load_nearest_go_module env (clean workdir) (clean from_dir));
        State_Monad.return
          (case m of
             None \<Rightarrow> []
           | Some gm \<Rightarrow>
               (let pkg_dir = resolve_go_import (dk_iter (ie_disk env)) gm spec in
                if pkg_dir = [] then []
                else unique_existing (ie_disk env) (list_go_package_files (ie_disk env) pkg_dir)))
      })"

section \<open>TypeScript and JavaScript\<close>

definition js_exts :: "string list" where
  "js_exts = [''.ts'', ''.tsx'', ''.js'', ''.jsx'', ''.mjs'', ''.cjs'', ''.d.ts'',
     ''/index.ts'', ''/index.tsx'', ''/index.js'', ''/index.jsx'']"

function nearest_config_dir :: "disk \<Rightarrow> string list \<Rightarrow> string \<Rightarrow> string \<Rightarrow> string" where
  "nearest_config_dir d names stop cur =
     (if list_ex (\<lambda>n. stat_ok d (filepath_join [cur, n])) names then cur
      else if cur = stop then []
      else if filepath_dir cur = cur then []
      else nearest_config_dir d names stop (filepath_dir cur))"
  by pat_completeness auto
termination
  by (relation "measure (\<lambda>(d, names, stop, cur). path_weight cur)") (auto simp: filepath_dir_smaller)

declare nearest_config_dir.simps [simp del]

definition find_nearest_config_dir :: "disk \<Rightarrow> string \<Rightarrow> string \<Rightarrow> string list \<Rightarrow> string" where
  "find_nearest_config_dir d from_dir stop_at names = nearest_config_dir d names (clean stop_at) (clean from_dir)"

definition js_at :: "disk \<Rightarrow> string \<Rightarrow> string \<Rightarrow> string list" where
  "js_at d root rel = expand_with_ext d (filepath_join [root, rel]) js_exts"

definition js_by_aliases :: "disk \<Rightarrow> alias_map option \<Rightarrow> string \<Rightarrow> string \<Rightarrow> string list" where
  "js_by_aliases d aliases root spec =
     (case aliases of None \<Rightarrow> [] | Some am \<Rightarrow> first_found (map (js_at d root) (apply_aliases spec am root)))"

definition js_by_package :: "disk \<Rightarrow> (string \<times> string) list option \<Rightarrow> string \<Rightarrow> string \<Rightarrow> string list" where
  "js_by_package d packages workdir spec =
     (case packages of
        None \<Rightarrow> []
      | Some ws \<Rightarrow>
          (let rel = resolve_workspace_import (dk_iter d) spec ws in if rel = [] then [] else js_at d workdir rel))"

definition js_by_fallback :: "disk \<Rightarrow> string \<Rightarrow> string \<Rightarrow> string list" where
  "js_by_fallback d workdir spec =
     (let fb = apply_fallback_aliases spec in if fb = [] then [] else js_at d workdir fb)"

definition resolve_js_import_path :: "import_env \<Rightarrow> string \<Rightarrow> string \<Rightarrow> string \<Rightarrow> string list import_m" where
  "resolve_js_import_path env workdir from_dir spec =
     (let d = ie_disk env in
      if has_prefix spec ''.'' then State_Monad.return (js_at d from_dir spec)
      else do {
        aliases \<leftarrow> cached_aliases env workdir;
        let hit1 = js_by_aliases d aliases workdir spec;
        if hit1 \<noteq> [] then State_Monad.return hit1
        else do {
          let near = find_nearest_config_dir d from_dir workdir [''tsconfig.json'', ''jsconfig.json''];
          near_aliases \<leftarrow> (if near \<noteq> [] \<and> near \<noteq> workdir then cached_aliases env near else State_Monad.return None);
          let hit2 = js_by_aliases d near_aliases near spec;
          if hit2 \<noteq> [] then State_Monad.return hit2
          else do {
            packages \<leftarrow> cached_packages env workdir;
            State_Monad.return (first_found
              [js_by_package d packages workdir spec, js_by_fallback d workdir spec, js_at d workdir spec])
          }
        }
      })"

section \<open>Python and Rust\<close>

fun climb_dirs :: "nat \<Rightarrow> string \<Rightarrow> string" where
  "climb_dirs 0 base = base"
| "climb_dirs (Suc n) base = (if filepath_dir base = base then base else climb_dirs n (filepath_dir base))"

definition py_exts :: "string list" where
  "py_exts = [''.py'', ''/__init__.py'']"

definition resolve_python_import_path :: "disk \<Rightarrow> string \<Rightarrow> string \<Rightarrow> string \<Rightarrow> string list" where
  "resolve_python_import_path d workdir from_dir spec =
     (if has_prefix spec ''.'' then
        (let rel = trim_left_byte dot spec;
             ups = nat (int (count_list spec dot) - int (count_list rel dot) - 1)
         in expand_with_ext d (filepath_join (climb_dirs ups from_dir # split_on dot rel)) py_exts)
      else
        (let m = filepath_join (split_on dot spec) in
         unique_existing d
           (expand_with_ext d (filepath_join [from_dir, m]) py_exts @ expand_with_ext d (filepath_join [workdir, m]) py_exts)))"

definition resolve_rust_import_path :: "import_env \<Rightarrow> string \<Rightarrow> string \<Rightarrow> string \<Rightarrow> string list import_m" where
  "resolve_rust_import_path env workdir from_file spec =
     (if has_prefix spec ''./'' \<or> has_prefix spec ''../'' then
        State_Monad.return (expand_with_ext (ie_disk env) (filepath_join [filepath_dir from_file, spec]) [''.rs'', ''/mod.rs''])
      else cached_cargo env workdir from_file spec)"

section \<open>By language\<close>

definition resolve_import_path :: "import_env \<Rightarrow> string \<Rightarrow> string \<Rightarrow> string \<Rightarrow> string \<Rightarrow> string list import_m" where
  "resolve_import_path env workdir0 stored_from spec0 lang =
     (let spec = trim_space spec0 in
      if spec = [] then State_Monad.return []
      else
        (let workdir = clean workdir0; from_file = abs_path workdir stored_from in
         if from_file = [] \<and> stored_from \<noteq> [] then State_Monad.return []
         else
           (let from_dir = filepath_dir from_file in
            if lang = ''go'' then resolve_go_import_path env workdir from_dir spec
            else if lang \<in> set [''typescript'', ''javascript'', ''tsx'', ''jsx''] then
              resolve_js_import_path env workdir from_dir spec
            else if lang = ''python'' then State_Monad.return (resolve_python_import_path (ie_disk env) workdir from_dir spec)
            else if lang = ''rust'' then resolve_rust_import_path env workdir from_file spec
            else if has_prefix spec ''.'' then
              State_Monad.return (expand_with_ext (ie_disk env) (filepath_join [from_dir, spec]) [])
            else do {
              hit \<leftarrow> resolve_js_import_path env workdir from_dir spec;
              if hit \<noteq> [] then State_Monad.return hit
              else if contains_str spec ''::'' then resolve_rust_import_path env workdir from_file spec
              else State_Monad.return []
            })))"

section \<open>The caches change nothing\<close>

interpretation go_here: stamped_cache go_mod_stamp read_go_mod "{d}" for d
  by unfold_locales auto

interpretation aliases_here: stamped_cache alias_stamp "read_aliases js" "{d}" for js d
  by unfold_locales auto

text \<open>Every entry that could be used on this disk is what reading would give.\<close>

definition caches_ok :: "import_env \<Rightarrow> import_caches \<Rightarrow> bool" where
  "caches_ok env c \<longleftrightarrow>
     coherent go_mod_stamp read_go_mod {ie_disk env} (ic_go c)
     \<and> coherent alias_stamp (read_aliases (ie_ts env)) {ie_disk env} (ic_alias c)
     \<and> coherent workspace_stamp (read_workspace (ie_pkg env)) {ie_disk env} (ic_ws c)
     \<and> coherent cargo_stamp read_cargo {ie_disk env} (ic_cargo c)"

lemma no_caches_ok [simp]: "caches_ok env no_caches"
  by (simp add: caches_ok_def no_caches_def)

definition transparent :: "import_env \<Rightarrow> 'a import_m \<Rightarrow> bool" where
  "transparent env f \<longleftrightarrow>
     (\<forall>c. caches_ok env c \<longrightarrow> fst (run_state f c) = fst (run_state f no_caches) \<and> caches_ok env (snd (run_state f c)))"

named_theorems transparent_rules \<open>computations that do not depend on the caches\<close>

lemma transparent_return [transparent_rules]: "transparent env (State_Monad.return x)"
  by (simp add: transparent_def State_Monad.return_def)

lemma transparent_bind [transparent_rules]:
  assumes "transparent env f" "\<And>x. transparent env (g x)"
  shows "transparent env (State_Monad.bind f g)"
  unfolding transparent_def
proof (intro allI impI)
  fix c assume c: "caches_ok env c"
  have run: "run_state (State_Monad.bind f g) s = run_state (g (fst (run_state f s))) (snd (run_state f s))" for s
    by (simp add: State_Monad.bind_def split_beta)
  have f: "fst (run_state f c) = fst (run_state f no_caches)" "caches_ok env (snd (run_state f c))"
    "caches_ok env (snd (run_state f no_caches))"
    using assms(1) c no_caches_ok unfolding transparent_def by blast+
  then show "fst (run_state (State_Monad.bind f g) c) = fst (run_state (State_Monad.bind f g) no_caches)
      \<and> caches_ok env (snd (run_state (State_Monad.bind f g) c))"
    using assms(2) unfolding run transparent_def by metis
qed

lemma transparent_if [transparent_rules]:
  "transparent env f \<Longrightarrow> transparent env g \<Longrightarrow> transparent env (if b then f else g)"
  by simp

lemma load_stamped_empty:
  assumes "stamped_cache stamp fresh {d}" "coherent stamp fresh {d} c"
  shows "fst (load_stamped (stamp d) (fresh d) k c) = load_fresh (stamp d) (fresh d) k"
    "coherent stamp fresh {d} (snd (load_stamped (stamp d) (fresh d) k c))"
  using stamped_cache.load_ok [OF assms] by simp_all

lemma transparent_go [transparent_rules]: "transparent env (cached_go env root)"
  unfolding transparent_def
proof (intro allI impI)
  fix c assume c: "caches_ok env c"
  show "fst (run_state (cached_go env root) c) = fst (run_state (cached_go env root) no_caches)
      \<and> caches_ok env (snd (run_state (cached_go env root) c))"
    using c go_here.load_ok [of "ie_disk env" "ic_go c" "ie_disk env" "clean root"]
      go_here.load_ok [of "ie_disk env" "ic_go no_caches" "ie_disk env" "clean root"] no_caches_ok [of env]
    by (auto simp: cached_go_def load_go_module_def Let_def split_beta caches_ok_def)
qed

lemma load_alias_files_ok:
  assumes "coherent alias_stamp (read_aliases js) {d} c"
  shows "fst (load_alias_files js d root names c) = fst (load_alias_files js d root names Map.empty)
    \<and> coherent alias_stamp (read_aliases js) {d} (snd (load_alias_files js d root names c))"
proof -
  define plain where "plain = (\<lambda>names. foldr (\<lambda>n r. case load_fresh (alias_stamp d) (read_aliases js d) (root, n) of
      Some (Some a) \<Rightarrow> Some a | _ \<Rightarrow> r) names None)"
  have "fst (load_alias_files js d root names c) = plain names
      \<and> coherent alias_stamp (read_aliases js) {d} (snd (load_alias_files js d root names c))"
    if "coherent alias_stamp (read_aliases js) {d} c" for c
    using that
  proof (induction names arbitrary: c)
    case (Cons n names)
    let ?l = "load_stamped (alias_stamp d) (read_aliases js d) (root, n) c"
    have l: "fst ?l = load_fresh (alias_stamp d) (read_aliases js d) (root, n)"
      "coherent alias_stamp (read_aliases js) {d} (snd ?l)"
      using aliases_here.load_ok [OF Cons.prems, of d "(root, n)"] by simp_all
    obtain r c' where rc: "?l = (r, c')" by (cases ?l)
    then show ?case using l Cons.IH [of c']
      by (cases r) (auto simp: plain_def split: option.splits)
  qed (simp add: plain_def)
  then show ?thesis using assms coherent_empty by metis
qed

lemma transparent_aliases [transparent_rules]: "transparent env (cached_aliases env root)"
  unfolding transparent_def
proof (intro allI impI)
  fix c assume c: "caches_ok env c"
  then show "fst (run_state (cached_aliases env root) c) = fst (run_state (cached_aliases env root) no_caches)
      \<and> caches_ok env (snd (run_state (cached_aliases env root) c))"
    using load_alias_files_ok [of "ie_ts env" "ie_disk env" "ic_alias c"]
    by (simp add: cached_aliases_def load_project_aliases_def split_beta caches_ok_def no_caches_def
        del: load_alias_files.simps)
qed

lemma transparent_packages [transparent_rules]: "transparent env (cached_packages env root)"
  unfolding transparent_def
proof (intro allI impI)
  fix c assume c: "caches_ok env c"
  show "fst (run_state (cached_packages env root) c) = fst (run_state (cached_packages env root) no_caches)
      \<and> caches_ok env (snd (run_state (cached_packages env root) c))"
    using c workspaces.load_ok [of "ie_pkg env" "ie_disk env" "ic_ws c" "ie_disk env" "clean root"]
      workspaces.load_ok [of "ie_pkg env" "ie_disk env" "ic_ws no_caches" "ie_disk env" "clean root"] no_caches_ok [of env]
    by (auto simp: cached_packages_def load_workspace_packages_def Let_def split_beta caches_ok_def)
qed

lemma load_cargo_ok:
  assumes "coherent cargo_stamp read_cargo {d} c"
  shows "fst (load_cargo_workspace d root c) = fst (load_cargo_workspace d root Map.empty)"
    "coherent cargo_stamp read_cargo {d} (snd (load_cargo_workspace d root c))"
  using cargo.load_ok [OF assms, of d "clean root"] cargo.load_ok [OF coherent_empty, of d d "clean root"]
  by (simp_all add: load_cargo_workspace_def Let_def split_beta)

lemma cargo_for_ok:
  assumes "coherent cargo_stamp read_cargo {d} c"
  shows "fst (cargo_for d workdir from_file c) = fst (cargo_for d workdir from_file Map.empty)
    \<and> coherent cargo_stamp read_cargo {d} (snd (cargo_for d workdir from_file c))"
proof -
  let ?near = "if from_file = [] then [] else find_nearest_cargo_root d from_file workdir"
  have run: "cargo_for d workdir from_file c =
     (case fst (load_cargo_workspace d workdir c) of
        Some ws \<Rightarrow> ((Some ws, workdir), snd (load_cargo_workspace d workdir c))
      | None \<Rightarrow>
          (if ?near = [] then ((None, workdir), snd (load_cargo_workspace d workdir c))
           else (case fst (load_cargo_workspace d ?near (snd (load_cargo_workspace d workdir c))) of
                   Some ws \<Rightarrow> (Some ws, ?near) | None \<Rightarrow> (None, workdir),
                 snd (load_cargo_workspace d ?near (snd (load_cargo_workspace d workdir c))))))" for c
    unfolding cargo_for_def Let_def by (auto split: prod.splits option.splits)
  note one = load_cargo_ok [OF assms, of workdir]
  note two = load_cargo_ok [OF one(2), of ?near]
  note zero = load_cargo_ok(2) [OF coherent_empty, of d workdir]
  note zero2 = load_cargo_ok [OF zero, of ?near]
  show ?thesis unfolding run one(1)
    by (cases "fst (load_cargo_workspace d workdir Map.empty)"; cases "?near = []")
      (simp_all only: option.case if_True if_False fst_conv snd_conv one(2) two zero2 simp_thms)
qed

lemma transparent_cargo [transparent_rules]: "transparent env (cached_cargo env workdir from_file spec)"
  unfolding transparent_def
proof (intro allI impI)
  fix c assume c: "caches_ok env c"
  then have "coherent cargo_stamp read_cargo {ie_disk env} (ic_cargo c)" by (simp add: caches_ok_def)
  note ok = cargo_for_ok [OF this]
  have "fst (resolve_cargo_import (ie_disk env) workdir from_file spec (ic_cargo c))
        = fst (resolve_cargo_import (ie_disk env) workdir from_file spec Map.empty)
      \<and> coherent cargo_stamp read_cargo {ie_disk env} (snd (resolve_cargo_import (ie_disk env) workdir from_file spec (ic_cargo c)))"
    using ok c by (simp add: resolve_cargo_import_def Let_def split_beta caches_ok_def)
  then show "fst (run_state (cached_cargo env workdir from_file spec) c) = fst (run_state (cached_cargo env workdir from_file spec) no_caches)
      \<and> caches_ok env (snd (run_state (cached_cargo env workdir from_file spec) c))"
    using c by (simp add: cached_cargo_def split_beta caches_ok_def no_caches_def)
qed

lemma transparent_nearest_go [transparent_rules]: "transparent env (load_nearest_go_module env stop cur)"
proof (induction env stop cur rule: load_nearest_go_module.induct)
  case (1 env stop cur)
  let ?stop = "cur = stop \<or> filepath_dir cur = cur \<or> stop \<noteq> [] \<and> \<not> has_prefix cur (stop @ ''/'')"
  have "transparent env (if m \<noteq> None \<or> ?stop then State_Monad.return m
      else load_nearest_go_module env stop (filepath_dir cur))" for m
  proof (cases "m \<noteq> None \<or> ?stop")
    case False
    then have "transparent env (load_nearest_go_module env stop (filepath_dir cur))" using 1 by blast
    then show ?thesis using False by (simp only: if_False)
  qed (simp only: if_True transparent_return)
  then show ?case by (subst load_nearest_go_module.simps) (intro transparent_bind transparent_go)
qed

lemma transparent_js [transparent_rules]: "transparent env (resolve_js_import_path env workdir from_dir spec)"
  unfolding resolve_js_import_path_def Let_def by (intro transparent_rules)

lemma transparent_go_path [transparent_rules]: "transparent env (resolve_go_import_path env workdir from_dir spec)"
  unfolding resolve_go_import_path_def by (intro transparent_rules)

lemma transparent_rust [transparent_rules]: "transparent env (resolve_rust_import_path env workdir from_file spec)"
  unfolding resolve_rust_import_path_def by (intro transparent_rules)

lemma transparent_resolve: "transparent env (resolve_import_path env workdir from_file spec lang)"
  unfolding resolve_import_path_def Let_def by (intro transparent_rules)


definition crate_env :: import_env where
  "crate_env = \<lparr>ie_disk = one_crate, ie_ts = (\<lambda>_. None),
     ie_pkg = \<lparr>pj_name = (\<lambda>_. None), pj_workspaces = (\<lambda>_. None), pj_strings = (\<lambda>_. None), pj_packages = (\<lambda>_. None)\<rparr>\<rparr>"


section \<open>What is found\<close>

definition yields :: "('b \<Rightarrow> bool) \<Rightarrow> 'b import_m \<Rightarrow> bool" where
  "yields Q f \<longleftrightarrow> (\<forall>c. Q (fst (run_state f c)))"

lemma yields_return: "Q x \<Longrightarrow> yields Q (State_Monad.return x)"
  by (simp add: yields_def State_Monad.return_def)

lemma yields_bind: "(\<And>x. yields Q (g x)) \<Longrightarrow> yields Q (State_Monad.bind f g)"
  by (simp add: yields_def State_Monad.bind_def split_beta)

lemma yields_bind_with: "yields P f \<Longrightarrow> (\<And>x. P x \<Longrightarrow> yields Q (g x)) \<Longrightarrow> yields Q (State_Monad.bind f g)"
  by (simp add: yields_def State_Monad.bind_def split_beta)

lemma yields_if: "(b \<Longrightarrow> yields Q f) \<Longrightarrow> (\<not> b \<Longrightarrow> yields Q g) \<Longrightarrow> yields Q (if b then f else g)"
  by simp

definition on_disk :: "disk \<Rightarrow> string list \<Rightarrow> bool" where
  "on_disk d ps \<longleftrightarrow> distinct ps \<and> (\<forall>p\<in>set ps. p \<noteq> [] \<and> stat_ok d p)"

lemma found_on_disk: "found_files d ps \<Longrightarrow> on_disk d ps"
  by (auto simp: found_files_def on_disk_def is_file_there)

lemma on_disk_unique [simp]: "on_disk d (unique_existing d ps)"
  by (simp add: on_disk_def unique_existing_ok)

lemma on_disk_Nil [simp]: "on_disk d []"
  by (simp add: on_disk_def)

lemma on_disk_expand [simp]: "on_disk d (expand_with_ext d base exts)" "on_disk d (js_at d root rel)"
  by (simp_all add: found_on_disk js_at_def)

lemma on_disk_first: "\<forall>h\<in>set hits. on_disk d h \<Longrightarrow> on_disk d (first_found hits)"
  by (rule first_found_in) simp_all

lemma on_disk_js [simp]: "on_disk d (js_by_aliases d a root spec)" "on_disk d (js_by_package d p root spec)"
  "on_disk d (js_by_fallback d root spec)"
  by (auto simp: js_by_aliases_def js_by_package_def js_by_fallback_def Let_def intro!: on_disk_first split: option.splits)

lemma on_disk_python [simp]: "on_disk d (resolve_python_import_path d workdir from_dir spec)"
  by (simp add: resolve_python_import_path_def Let_def)

lemma on_disk_go: "yields (on_disk (ie_disk env)) (resolve_go_import_path env workdir from_dir spec)"
  unfolding resolve_go_import_path_def
  by (intro yields_if yields_bind yields_return) (simp_all add: Let_def split: option.splits)

lemma on_disk_js_path: "yields (on_disk (ie_disk env)) (resolve_js_import_path env workdir from_dir spec)"
  unfolding resolve_js_import_path_def Let_def
  by (intro yields_if yields_bind yields_return) (auto intro!: on_disk_first)

lemma on_disk_rust: "yields (on_disk (ie_disk env)) (resolve_rust_import_path env workdir from_file spec)"
  unfolding resolve_rust_import_path_def
proof (intro yields_if yields_return)
  show "yields (on_disk (ie_disk env)) (cached_cargo env workdir from_file spec)"
    using found_on_disk [OF found_cargo] by (simp add: yields_def cached_cargo_def split_beta)
qed simp

lemma resolve_on_disk: "yields (on_disk (ie_disk env)) (resolve_import_path env workdir from_file spec lang)"
  unfolding resolve_import_path_def Let_def
  by (intro yields_if yields_bind_with [OF on_disk_js_path] yields_return on_disk_go on_disk_js_path on_disk_rust) simp_all

text \<open>
  Every path an import resolves to exists and is listed once, whatever
  the caches hold; the imports of a file whose key leaves the workspace resolve to nothing.
\<close>

theorem import_finds_existing:
  "distinct (fst (run_state (resolve_import_path env workdir from_file spec lang) c))
    \<and> (\<forall>p\<in>set (fst (run_state (resolve_import_path env workdir from_file spec lang) c)). p \<noteq> [] \<and> stat_ok (ie_disk env) p)
    \<and> (from_file \<noteq> [] \<and> abs_path (clean workdir) from_file = [] \<longrightarrow>
         fst (run_state (resolve_import_path env workdir from_file spec lang) c) = [])"
proof -
  have "fst (run_state (resolve_import_path env workdir from_file spec lang) c) = []"
    if "from_file \<noteq> []" "abs_path (clean workdir) from_file = []"
    using that by (simp add: resolve_import_path_def Let_def State_Monad.return_def)
  then show ?thesis using resolve_on_disk by (auto simp: yields_def on_disk_def)
qed

theorem import_finds_existing_witness:
  "fst (run_state (resolve_import_path crate_env ''/w'' ''../x.py'' ''util'' ''python'') no_caches) = []"
proof -
  have "abs_path (clean ''/w'') ''../x.py'' = []" by (simp add: abs_path_def path_eval str_eval)
  then show ?thesis using import_finds_existing [where env = crate_env and workdir = "''/w''" and from_file = "''../x.py''"
      and spec = "''util''" and lang = "''python''" and c = no_caches] by simp
qed

section \<open>The order of a JavaScript import\<close>

lemma run_bind: "run_state (State_Monad.bind f g) c = run_state (g (fst (run_state f c))) (snd (run_state f c))"
  by (simp add: State_Monad.bind_def split_beta)

lemma run_return: "run_state (State_Monad.return x) c = (x, c)"
  by (simp add: State_Monad.return_def)

lemma first_found_Cons: "first_found (h # hs) = (if h \<noteq> [] then h else first_found hs)"
  by (simp add: first_found_def)

lemma first_found_Nil: "first_found [] = []"
  by (simp add: first_found_def)

lemma load_aliases_none: "js_by_aliases d None root spec = []"
  by (simp add: js_by_aliases_def)

text \<open>What the readers say without a cache.\<close>

definition aliases_of :: "import_env \<Rightarrow> string \<Rightarrow> alias_map option" where
  "aliases_of env root = fst (load_project_aliases (ie_ts env) (ie_disk env) root Map.empty)"

definition packages_of :: "import_env \<Rightarrow> string \<Rightarrow> (string \<times> string) list option" where
  "packages_of env root = fst (load_workspace_packages (ie_pkg env) (ie_disk env) root Map.empty)"

lemma cached_aliases_run:
  "caches_ok env c \<Longrightarrow> fst (run_state (cached_aliases env root) c) = aliases_of env root
     \<and> caches_ok env (snd (run_state (cached_aliases env root) c))"
  using transparent_aliases [of env root] unfolding transparent_def
  by (simp add: aliases_of_def cached_aliases_def split_beta no_caches_def)

lemma cached_packages_run:
  "caches_ok env c \<Longrightarrow> fst (run_state (cached_packages env root) c) = packages_of env root
     \<and> caches_ok env (snd (run_state (cached_packages env root) c))"
  using transparent_packages [of env root] unfolding transparent_def
  by (simp add: packages_of_def cached_packages_def split_beta no_caches_def)

text \<open>
  A bare JavaScript import is looked for, in this order and by whatever is read
  from disk, under the aliases of the workspace, those of the nearest configuration above the file, the
  packages of the workspace, the conventional aliases, and as a path in the workspace; the first that
  yields a file decides.
\<close>

theorem js_import_order:
  fixes workdir from_dir :: string
  assumes "caches_ok env c" "\<not> has_prefix spec ''.''"
  defines "d \<equiv> ie_disk env" and "near \<equiv> find_nearest_config_dir (ie_disk env) from_dir workdir [''tsconfig.json'', ''jsconfig.json'']"
  shows "fst (run_state (resolve_js_import_path env workdir from_dir spec) c) = first_found
    [js_by_aliases d (aliases_of env workdir) workdir spec,
     (if near = [] \<or> near = workdir then [] else js_by_aliases d (aliases_of env near) near spec),
     js_by_package d (packages_of env workdir) workdir spec,
     js_by_fallback d workdir spec,
     js_at d workdir spec]"
proof -
  note one = cached_aliases_run [OF assms(1), of workdir]
  let ?c1 = "snd (run_state (cached_aliases env workdir) c)"
  note two = cached_aliases_run [OF one [THEN conjunct2], of near]
  note three = cached_packages_run [OF one [THEN conjunct2], of workdir]
  note four = cached_packages_run [OF two [THEN conjunct2], of workdir]
  show ?thesis
  proof (cases "js_by_aliases d (aliases_of env workdir) workdir spec = []")
    case False
    then show ?thesis using one assms(2)
      by (simp add: resolve_js_import_path_def Let_def split_beta first_found_Cons d_def)
  next
    case hit1: True
    show ?thesis
    proof (cases "near \<noteq> [] \<and> near \<noteq> workdir")
      case True
      then show ?thesis using one two four hit1 assms(2)
        by (simp add: resolve_js_import_path_def Let_def split_beta first_found_Cons d_def near_def [symmetric])
    next
      case False
      have run: "run_state (resolve_js_import_path env workdir from_dir spec) c
          = (let p = run_state (cached_packages env workdir) ?c1 in
             (first_found [js_by_package d (fst p) workdir spec, js_by_fallback d workdir spec, js_at d workdir spec], snd p))"
        using one hit1 assms(2) unfolding resolve_js_import_path_def Let_def near_def [symmetric]
        by (simp only: False if_False) (simp add: split_beta d_def load_aliases_none)
      have "near = [] \<or> near = workdir" using False by blast
      then have second: "(if near = [] \<or> near = workdir then [] else js_by_aliases d (aliases_of env near) near spec) = []"
        by (simp only: if_True)
      show ?thesis unfolding run second Let_def using three hit1 by (simp add: first_found_Cons d_def)
    qed
  qed
qed

theorem js_import_order_witness:
  "fst (run_state (resolve_js_import_path crate_env ''/w'' ''/w/src'' ''src/x'') no_caches) = first_found
    [js_by_aliases one_crate (aliases_of crate_env ''/w'') ''/w'' ''src/x'', [], [],
     js_by_fallback one_crate ''/w'' ''src/x'', js_at one_crate ''/w'' ''src/x'']"
proof -
  have paths: "clean ''/w'' = ''/w''" "clean ''/w/src'' = ''/w/src''" "filepath_dir ''/w/src'' = ''/w''"
    "filepath_join [''/w/src'', ''tsconfig.json''] = ''/w/src/tsconfig.json''"
    "filepath_join [''/w/src'', ''jsconfig.json''] = ''/w/src/jsconfig.json''"
    "filepath_join [''/w'', ''tsconfig.json''] = ''/w/tsconfig.json''"
    "filepath_join [''/w'', ''jsconfig.json''] = ''/w/jsconfig.json''"
    by (simp_all add: path_eval str_eval)
  have near: "find_nearest_config_dir one_crate ''/w/src'' ''/w'' [''tsconfig.json'', ''jsconfig.json''] = []"
    by (simp add: find_nearest_config_dir_def nearest_config_dir.simps [of _ _ _ "''/w/src''"]
        nearest_config_dir.simps [of _ _ _ "''/w''"] paths one_crate_files)
  have "packages_of crate_env ''/w'' = None"
    by (simp add: packages_of_def load_workspace_packages_def load_stamped_def workspace_stamp_def read_workspace_def
        workspace_packages_def read_package_name_def read_workspace_globs_def crate_env_def one_crate_def add_package_def Let_def)
  then have "js_by_package one_crate (packages_of crate_env ''/w'') ''/w'' ''src/x'' = []" by (simp add: js_by_package_def)
  then show ?thesis
    using js_import_order [OF no_caches_ok, of "''src/x''" crate_env "''/w''" "''/w/src''"] near
    by (simp add: crate_env_def has_prefix_def)
qed

section \<open>A workspace at the root\<close>

text \<open>
  With \<^verbatim>\<open>/\<close> as workspace the climb to the nearest \<^verbatim>\<open>go.mod\<close> asks for a prefix of two slashes and stops
  after the first directory.
\<close>

lemma root_workdir_no_climb:
  assumes "cur \<noteq> ''/''" "\<not> has_prefix cur ''//''"
  shows "run_state (load_nearest_go_module env ''/'' cur) c = run_state (cached_go env cur) c"
  using assms by (subst load_nearest_go_module.simps) (simp add: split_beta has_prefix_def)

end
