(* ===== verification/Import_Closure.thy ===== *)
theory Import_Closure
  imports Resolver Import_Paths
begin

text \<open>
  The import closure over the disk: the resolver of import paths that the resolution passes take as an
  argument is the one of \<^verbatim>\<open>import_resolver.go\<close>.  Since the caches change no result
  (\<^verbatim>\<open>import_caches_transparent\<close>), it is a function of its arguments while the disk does not change.
\<close>

definition disk_imports :: "import_env \<Rightarrow> import_resolver" where
  "disk_imports env workdir from_file spec lang =
     fst (run_state (resolve_import_path env workdir from_file spec lang) no_caches)"

text \<open>The specifiers the import edges of a file name, under its key or under the key it is stored with.\<close>

definition import_specs :: "gdb \<Rightarrow> string \<Rightarrow> string \<Rightarrow> string list" where
  "import_specs db workdir from_file =
     (let store_from = storage_path workdir from_file; specs0 = get_import_target_names store_from db in
      if specs0 = [] \<and> store_from \<noteq> from_file then get_import_target_names from_file db else specs0)"

definition same_key :: "string \<Rightarrow> string \<Rightarrow> string set \<Rightarrow> bool" where
  "same_key workdir file keys \<longleftrightarrow> file \<in> keys \<or> storage_path workdir file \<in> keys"

text \<open>
  C31 (\<open>import_closure_sound\<close>).  When the imports of a file narrow the candidates for a reference, every
  candidate that is kept is one of them and lies in a file that exists and that one of the imports
  resolves to, with whatever caches, or in a file like one in whose path an import is a whole segment.
\<close>

theorem import_closure_sound:
  assumes "filter_by_imports db (disk_imports env) workdir from_file lang cands = (hits, True)"
    and "cand \<in> set hits" "caches_ok env caches"
  shows "cand \<in> set cands \<and> (\<exists>spec\<in>set (import_specs db workdir from_file).
    (\<exists>p\<in>set (fst (run_state (resolve_import_path env workdir from_file spec lang) caches)).
        stat_ok (ie_disk env) p \<and> same_key workdir (n_file cand) {storage_path workdir p, clean p})
    \<or> (\<exists>c\<in>set cands. spec_matches_file (n_file c) spec
        \<and> same_key workdir (n_file cand) {storage_path workdir (n_file c), n_file c}))"
proof -
  let ?specs = "import_specs db workdir from_file"
  let ?files = "imported_files (disk_imports env) workdir from_file lang ?specs cands"
  have hits: "hits = filter (\<lambda>c. n_file c \<in> ?files \<or> storage_path workdir (n_file c) \<in> ?files) cands"
    using assms(1) by (simp add: filter_by_imports_def import_specs_def Let_def split: if_splits)
  then have c: "cand \<in> set cands" "n_file cand \<in> ?files \<or> storage_path workdir (n_file cand) \<in> ?files"
    using assms(2) by auto
  have same: "disk_imports env workdir from_file spec lang
      = fst (run_state (resolve_import_path env workdir from_file spec lang) caches)" for spec
    using transparent_resolve assms(3) unfolding transparent_def disk_imports_def by metis
  have there: "stat_ok (ie_disk env) p"
    if "p \<in> set (fst (run_state (resolve_import_path env workdir from_file spec lang) caches))" for p spec
    using that resolve_on_disk by (auto simp: yields_def on_disk_def)
  from c(2) obtain k where k: "k \<in> ?files" "k = n_file cand \<or> k = storage_path workdir (n_file cand)" by blast
  from k(1) obtain spec where spec: "spec \<in> set ?specs"
    "(\<exists>p\<in>set (disk_imports env workdir from_file spec lang). k = storage_path workdir p \<or> k = clean p)
      \<or> (\<exists>c\<in>set cands. spec_matches_file (n_file c) spec \<and> (k = storage_path workdir (n_file c) \<or> k = n_file c))"
    unfolding imported_files_def by (auto split: if_splits)
  then show ?thesis using c(1) k(2) same there unfolding same_key_def by (intro conjI bexI [OF _ spec(1)]) auto
qed

definition rust_db :: gdb where
  "rust_db =
     \<lparr>g_nodes = [sample_node 1 kind_function ''f'' ''src/util.rs'' 3, sample_node 2 kind_function ''f'' ''old.rs'' 5,
                 sample_node 3 kind_function ''util'' ''src/lib.rs'' 1],
      g_next_node = 4,
      g_edges = [(sample_edge 3 3)\<lparr>e_kind := edge_imports, e_file := ''src/lib.rs''\<rparr>],
      g_refs = [], g_next_ref = 1, g_files = []\<rparr>"

lemma rust_import_value: "disk_imports crate_env ''/w'' ''src/lib.rs'' ''util'' ''rust'' = [''/w/src/util.rs'']"
proof -
  have paths: "clean ''/w'' = ''/w''" "abs_path ''/w'' ''src/lib.rs'' = ''/w/src/lib.rs''" "filepath_dir ''/w/src'' = ''/w''"
    "filepath_base ''/w/src/lib.rs'' = ''lib.rs''" "filepath_join [''/w'', ''Cargo.toml''] = ''/w/Cargo.toml''"
    "filepath_join [''/w/src'', ''Cargo.toml''] = ''/w/src/Cargo.toml''"
    by (simp_all add: abs_path_def path_eval str_eval)
  have t: "trim_space ''util'' = ''util''" by (simp add: str_eval)
  have parts: "split_colons (trim_suffix (trim_suffix ''util'' ''::*'') ''::self'') = [''util'']"
    by (simp add: trim_suffix_def suffix_to_prefix)
  have ws: "cargo_for one_crate ''/w'' ''/w/src/lib.rs'' Map.empty = ((None, ''/w''), Map.empty)"
    by (simp add: cargo_for_def load_cargo_workspace_def load_stamped_def cargo_stamp_def mod_time_def one_crate_def
        find_nearest_cargo_root_def one_crate_paths paths nearest_cargo.simps stat_ok_def)
  have m: "rust_modules one_crate ''/w/src'' [] [''util''] = [''/w/src/util.rs'']"
    by (simp add: one_crate_paths one_crate_files)
  have u: "resolve_rust_module_under one_crate ''/w/src'' ''/w/src/lib.rs'' ''self'' [''util''] = [''/w/src/util.rs'']"
    by (simp add: resolve_rust_module_under_def rust_self_module_dir_def paths one_crate_paths m del: rust_modules.simps)
  have root: "find_rust_crate_src_root one_crate ''/w/src/lib.rs'' ''/w'' = ''/w/src''"
    by (simp add: find_rust_crate_src_root_def crate_levels_def eval_nat_numeral one_crate_paths has_rust_entry_def
        rust_entries_def one_crate_files)
  have "fst (resolve_cargo_import one_crate ''/w'' ''/w/src/lib.rs'' ''util'' Map.empty) = [''/w/src/util.rs'']"
    unfolding resolve_cargo_import_def t parts Let_def paths ws
    by (simp add: rust_use_def root modules_or_entry_def u first_found_Cons)
  then show ?thesis
    by (simp add: disk_imports_def resolve_import_path_def t paths resolve_rust_import_path_def has_prefix_def cached_cargo_def
        no_caches_def crate_env_def split_beta Let_def)
qed

theorem import_closure_sound_witness:
  "filter_by_imports rust_db (disk_imports crate_env) ''/w'' ''src/lib.rs'' ''rust''
      [sample_node 1 kind_function ''f'' ''src/util.rs'' 3, sample_node 2 kind_function ''f'' ''old.rs'' 5]
     = ([sample_node 1 kind_function ''f'' ''src/util.rs'' 3], True)
   \<and> (\<exists>spec\<in>set (import_specs rust_db ''/w'' ''src/lib.rs'').
      (\<exists>p\<in>set (fst (run_state (resolve_import_path crate_env ''/w'' ''src/lib.rs'' spec ''rust'') no_caches)).
          stat_ok one_crate p \<and> same_key ''/w'' ''src/util.rs'' {storage_path ''/w'' p, clean p})
      \<or> (\<exists>c\<in>set [sample_node 1 kind_function ''f'' ''src/util.rs'' 3, sample_node 2 kind_function ''f'' ''old.rs'' 5].
          spec_matches_file (n_file c) spec \<and> same_key ''/w'' ''src/util.rs'' {storage_path ''/w'' (n_file c), n_file c}))"
proof -
  let ?a = "sample_node 1 kind_function ''f'' ''src/util.rs'' 3" and ?b = "sample_node 2 kind_function ''f'' ''old.rs'' 5"
  have paths: "storage_path ''/w'' ''src/lib.rs'' = ''src/lib.rs''" "storage_path ''/w'' ''/w/src/util.rs'' = ''src/util.rs''"
    "storage_path ''/w'' ''old.rs'' = ''old.rs''" "clean ''/w/src/util.rs'' = ''/w/src/util.rs''"
    by (simp_all add: storage_path_def path_eval str_eval)
  have specs: "get_import_target_names ''src/lib.rs'' rust_db = [''util'']"
    by (simp add: get_import_target_names_def rust_db_def sample_defs)
  have no: "\<not> spec_matches_file ''src/util.rs'' ''util''" "\<not> spec_matches_file ''old.rs'' ''util''"
    by (simp_all add: spec_matches_file_def has_prefix_def has_suffix_def contains_str_def suffix_to_prefix sublist_Cons_right)
  have files: "n_file ?a = ''src/util.rs''" "n_file ?b = ''old.rs''" by (simp_all add: sample_node_def)
  have "imported_files (disk_imports crate_env) ''/w'' ''src/lib.rs'' ''rust'' [''util''] [?a, ?b] = {''src/util.rs'', ''/w/src/util.rs''}"
    by (simp add: imported_files_def rust_import_value files no paths)
  then have f: "filter_by_imports rust_db (disk_imports crate_env) ''/w'' ''src/lib.rs'' ''rust'' [?a, ?b] = ([?a], True)"
    by (simp add: filter_by_imports_def specs paths files)
  show ?thesis
    using f import_closure_sound [OF f _ no_caches_ok, of ?a] by (simp add: files crate_env_def)
qed

end
