(* ===== verification/Synth_Context.thy ===== *)
theory Synth_Context
  imports Affected Go_Regexp
begin

text \<open>
  What the passes of \<^verbatim>\<open>internal/resolution/synthesize.go\<close> share: the cache of file contents, the lookups
  in the database, the choice among definitions of the same name and the edges they produce.  The
  listings by kind and by file come with the caps of \<^verbatim>\<open>query_nodes.go\<close>.
\<close>

section \<open>The cache of file contents\<close>

text \<open>\<^verbatim>\<open>lruCache\<close>: the linked list with the most recently used entry in front; the map only points into it.\<close>

record lru_cache =
  lru_max :: nat
  lru_list :: "(string \<times> string) list"

definition new_lru_cache :: "nat \<Rightarrow> lru_cache" where
  "new_lru_cache m = \<lparr>lru_max = m, lru_list = []\<rparr>"

definition to_front :: "string \<Rightarrow> string \<Rightarrow> lru_cache \<Rightarrow> lru_cache" where
  "to_front key v l = l\<lparr>lru_list := (key, v) # filter (\<lambda>e. fst e \<noteq> key) (lru_list l)\<rparr>"

definition lru_get :: "string \<Rightarrow> lru_cache \<Rightarrow> string option \<times> lru_cache" where
  "lru_get key l = (case map_of (lru_list l) key of None \<Rightarrow> (None, l) | Some v \<Rightarrow> (Some v, to_front key v l))"

definition lru_put :: "string \<Rightarrow> string \<Rightarrow> lru_cache \<Rightarrow> lru_cache" where
  "lru_put key v l =
     (if map_of (lru_list l) key \<noteq> None then to_front key v l
      else l\<lparr>lru_list := (key, v)
                 # (if lru_max l \<le> length (lru_list l) then butlast (lru_list l) else lru_list l)\<rparr>)"

section \<open>The environment of a pass\<close>

text \<open>
  \<^verbatim>\<open>sy_read\<close> is \<^verbatim>\<open>os.ReadFile\<close>; \<^verbatim>\<open>sy_order\<close> and \<^verbatim>\<open>sy_ids\<close> are the orders in which Go meets the keys of a map;
  \<^verbatim>\<open>sy_fails\<close> names the passes whose queries fail.
\<close>

record synth_env =
  sy_workdir :: string
  sy_read :: "string \<Rightarrow> string option"
  sy_order :: "string list \<Rightarrow> string list"
  sy_ids :: "int list \<Rightarrow> int list"
  sy_fails :: "string \<Rightarrow> bool"

definition file_content_max_entries :: nat where
  "file_content_max_entries = 256"

definition file_text :: "synth_env \<Rightarrow> string \<Rightarrow> string" where
  "file_text env path =
     (case sy_read env (if is_abs path then path else filepath_join [sy_workdir env, path]) of
        Some s \<Rightarrow> s
      | None \<Rightarrow> (case sy_read env path of Some s \<Rightarrow> s | None \<Rightarrow> []))"

definition read_file :: "synth_env \<Rightarrow> string \<Rightarrow> lru_cache \<Rightarrow> string \<times> lru_cache" where
  "read_file env path l =
     (if path = [] then ([], l)
      else (case lru_get path l of
              (Some s, l') \<Rightarrow> (s, l')
            | (None, l') \<Rightarrow> (let s = file_text env path in (s, lru_put path s l'))))"

fun read_files :: "synth_env \<Rightarrow> string list \<Rightarrow> lru_cache \<Rightarrow> string list \<times> lru_cache" where
  "read_files env [] l = ([], l)"
| "read_files env (p # ps) l =
     (let (s, l1) = read_file env p l; (ss, l2) = read_files env ps l1 in (s # ss, l2))"

text \<open>A read without the cache, which is what the passes below are written with.\<close>

definition source_of :: "synth_env \<Rightarrow> string \<Rightarrow> string" where
  "source_of env path = (if path = [] then [] else file_text env path)"

text \<open>
  The keys of a cache that holds at most \<open>m\<close> entries: the most recent distinct ones.
\<close>

definition most_recent :: "nat \<Rightarrow> string list \<Rightarrow> string list" where
  "most_recent m ps = take m (dedup_by (\<lambda>p. p) {} (rev (filter (\<lambda>p. p \<noteq> []) ps)))"

definition lru_valid :: "synth_env \<Rightarrow> lru_cache \<Rightarrow> bool" where
  "lru_valid env l \<longleftrightarrow> (\<forall>(k, v)\<in>set (lru_list l). v = file_text env k)"

lemma dedup_front:
  "dedup_by (\<lambda>p. p) {} (p # ps) = p # filter (\<lambda>q. q \<noteq> p) (dedup_by (\<lambda>p. p) {} ps)"
proof -
  have "dedup_by (\<lambda>p. p) (insert p S) ps = filter (\<lambda>q. q \<noteq> p) (dedup_by (\<lambda>p. p) S ps)" for S
  proof (induction ps arbitrary: S)
    case (Cons a ps)
    then show ?case using Cons.IH [of "insert a S"] by (simp add: insert_commute [of a p])
  qed simp
  then show ?thesis by simp
qed

lemma filter_take_distinct:
  assumes "distinct xs" "x \<in> set (take m xs)"
  shows "filter (\<lambda>y. y \<noteq> x) (take m xs) = take (m - 1) (filter (\<lambda>y. y \<noteq> x) xs)"
  using assms
proof (induction xs arbitrary: m)
  case (Cons a xs)
  obtain k where m: "m = Suc k" using Cons.prems(2) by (cases m) auto
  show ?case
  proof (cases "a = x")
    case True
    then have "x \<notin> set xs" using Cons.prems(1) by simp
    then have "filter (\<lambda>y. y \<noteq> x) xs = xs" "filter (\<lambda>y. y \<noteq> x) (take k xs) = take k xs"
      by (auto simp: filter_id_conv dest: in_set_takeD)
    then show ?thesis using True m by simp
  next
    case False
    then have "x \<in> set (take k xs)" using Cons.prems(2) m by simp
    then have "filter (\<lambda>y. y \<noteq> x) (take k xs) = take (k - 1) (filter (\<lambda>y. y \<noteq> x) xs)" "0 < k"
      using Cons.IH [of k] Cons.prems(1) by (auto intro: gr0I)
    then show ?thesis using False m by (cases k) simp_all
  qed
qed simp

lemma take_filter_absent:
  assumes "x \<notin> set (take m xs)"
  shows "take (m - 1) (filter (\<lambda>y. y \<noteq> x) xs) = take (m - 1) xs"
  using assms
proof (induction xs arbitrary: m)
  case (Cons a xs)
  show ?case
  proof (cases m)
    case (Suc k)
    then have "a \<noteq> x" "x \<notin> set (take k xs)" using Cons.prems by auto
    then show ?thesis using Cons.IH [of k] Suc by (cases k) simp_all
  qed simp
qed simp

lemma butlast_take_full: "m \<le> length (take m xs) \<Longrightarrow> butlast (take m xs) = take (m - 1) xs"
  by (simp add: butlast_take)

lemma map_of_keys: "map_of xs k \<noteq> None \<longleftrightarrow> k \<in> set (map fst xs)"
  by (simp add: map_of_eq_None_iff)

lemma map_fst_filter: "map fst (filter (\<lambda>e. fst e \<noteq> k) xs) = filter (\<lambda>y. y \<noteq> k) (map fst xs)"
  by (induction xs) auto

lemma read_file_step:
  assumes "0 < lru_max l" "lru_valid env l" "map fst (lru_list l) = take (lru_max l) xs" "distinct xs"
  shows "fst (read_file env p l) = source_of env p
    \<and> lru_max (snd (read_file env p l)) = lru_max l \<and> lru_valid env (snd (read_file env p l))
    \<and> map fst (lru_list (snd (read_file env p l)))
        = take (lru_max l) (if p = [] then xs else p # filter (\<lambda>q. q \<noteq> p) xs)"
proof (cases "p = [] \<or> map_of (lru_list l) p = None")
  case True
  show ?thesis
  proof (cases "p = []")
    case False
    then have none: "map_of (lru_list l) p = None" using True by simp
    let ?r = "if lru_max l \<le> length (lru_list l) then butlast (lru_list l) else lru_list l"
    have absent: "p \<notin> set (take (lru_max l) xs)"
      using none unfolding assms(3) [symmetric] by (simp add: map_of_eq_None_iff)
    have len: "length (lru_list l) = length (take (lru_max l) xs)" using assms(3) by (metis length_map)
    have "map fst ?r = take (lru_max l - 1) xs"
    proof (cases "lru_max l \<le> length (lru_list l)")
      case True
      then show ?thesis
        using butlast_take_full [of "lru_max l" xs] unfolding len assms(3) [symmetric] by (simp add: map_butlast len)
    next
      case short: False
      then have "length xs < lru_max l" using len by simp
      then show ?thesis using assms(3) short by simp
    qed
    moreover have "set ?r \<subseteq> set (lru_list l)" by (auto dest: in_set_butlastD)
    ultimately show ?thesis
      using False none assms(1,2) take_filter_absent [OF absent]
      by (cases "lru_max l") (auto simp: read_file_def lru_get_def lru_put_def Let_def lru_valid_def source_of_def)
  qed (use assms in \<open>simp add: read_file_def source_of_def\<close>)
next
  case False
  then obtain v where v: "map_of (lru_list l) p = Some v" by auto
  then have val: "v = file_text env p" using assms(2) by (auto simp: lru_valid_def dest: map_of_SomeD)
  have "p \<in> set (map fst (lru_list l))" using v by (metis map_of_keys option.distinct(1))
  then have "filter (\<lambda>y. y \<noteq> p) (map fst (lru_list l)) = take (lru_max l - 1) (filter (\<lambda>y. y \<noteq> p) xs)"
    using filter_take_distinct [OF assms(4)] unfolding assms(3) by blast
  then show ?thesis
    using False v val assms(1,2)
    by (cases "lru_max l") (auto simp: read_file_def lru_get_def to_front_def lru_valid_def source_of_def map_fst_filter)
qed

lemma read_files_run:
  assumes "0 < lru_max l" "lru_valid env l"
    and "map fst (lru_list l) = take (lru_max l) (dedup_by (\<lambda>p. p) {} (rev (filter (\<lambda>p. p \<noteq> []) qs)))"
  shows "fst (read_files env ps l) = map (source_of env) ps
    \<and> map fst (lru_list (snd (read_files env ps l)))
        = take (lru_max l) (dedup_by (\<lambda>p. p) {} (rev (filter (\<lambda>p. p \<noteq> []) (qs @ ps))))"
  using assms
proof (induction ps arbitrary: l qs)
  case (Cons p ps)
  let ?xs = "dedup_by (\<lambda>p. p) {} (rev (filter (\<lambda>p. p \<noteq> []) qs))"
  let ?l1 = "snd (read_file env p l)"
  have d: "distinct ?xs" using distinct_dedup_by [of "\<lambda>p. p" "{}" "rev (filter (\<lambda>p. p \<noteq> []) qs)"] by simp
  note s = read_file_step [OF Cons.prems d, of p]
  have "map fst (lru_list ?l1) = take (lru_max ?l1) (dedup_by (\<lambda>p. p) {} (rev (filter (\<lambda>p. p \<noteq> []) (qs @ [p]))))"
    using s by (simp add: dedup_front del: dedup_by.simps(2))
  then show ?case
    using Cons.IH [of ?l1 "qs @ [p]"] s Cons.prems(1) by (simp add: split_beta Let_def)
qed simp

text \<open>
  Whatever files the passes read in whatever order, the cache hands out what a
  plain read of the file gives, and it holds the 256 paths read most recently, newest first.
\<close>

theorem synth_reads_plain:
  "fst (read_files env ps (new_lru_cache file_content_max_entries)) = map (source_of env) ps
    \<and> map fst (lru_list (snd (read_files env ps (new_lru_cache file_content_max_entries))))
        = most_recent file_content_max_entries ps"
  using read_files_run [of "new_lru_cache file_content_max_entries" env "[]" ps]
  by (simp add: new_lru_cache_def lru_valid_def file_content_max_entries_def most_recent_def)

section \<open>Lookups\<close>

definition nodes_by_kind_cap :: nat where
  "nodes_by_kind_cap = 50000"

definition nodes_by_file_cap :: nat where
  "nodes_by_file_cap = 10000"

definition get_nodes_by_kind :: "string \<Rightarrow> gdb \<Rightarrow> node list" where
  "get_nodes_by_kind kind db =
     take nodes_by_kind_cap (sort_key n_id (filter (\<lambda>n. n_kind n = kind) (g_nodes db)))"

text \<open>\<^verbatim>\<open>GetNodesByFileBodiesLimited\<close>, with whether there are more.\<close>

definition get_nodes_by_file :: "string \<Rightarrow> int \<Rightarrow> gdb \<Rightarrow> node list \<times> bool" where
  "get_nodes_by_file file limit db =
     (let m = (if limit \<le> 0 then nodes_by_file_cap else nat limit);
          rows = sort_key n_id (filter (\<lambda>n. n_file n = file) (g_nodes db))
      in (take m rows, m < length rows))"

definition nodes_in_file :: "string \<Rightarrow> gdb \<Rightarrow> node list" where
  "nodes_in_file file db = fst (get_nodes_by_file file 0 db)"

definition get_node_by_id :: "int \<Rightarrow> gdb \<Rightarrow> node option" where
  "get_node_by_id i db = find (\<lambda>n. n_id n = i) (g_nodes db)"

definition list_edges :: "(edge \<Rightarrow> int) \<Rightarrow> int \<Rightarrow> string list \<Rightarrow> gdb \<Rightarrow> edge list" where
  "list_edges endpoint i kinds db =
     filter (\<lambda>e. endpoint e = i \<and> (kinds \<noteq> [] \<longrightarrow> e_kind e \<in> set kinds)) (g_edges db)"

definition get_incoming_edges :: "int \<Rightarrow> string list \<Rightarrow> gdb \<Rightarrow> edge list" where
  "get_incoming_edges = list_edges e_target"

definition get_outgoing_edges :: "int \<Rightarrow> string list \<Rightarrow> gdb \<Rightarrow> edge list" where
  "get_outgoing_edges = list_edges e_source"

lemma get_nodes_by_kind_in: "n \<in> set (get_nodes_by_kind kind db) \<Longrightarrow> n \<in> set (g_nodes db) \<and> n_kind n = kind"
  by (auto simp: get_nodes_by_kind_def dest: in_set_takeD)

lemma nodes_in_file_in: "n \<in> set (nodes_in_file file db) \<Longrightarrow> n \<in> set (g_nodes db) \<and> n_file n = file"
  by (auto simp: nodes_in_file_def get_nodes_by_file_def Let_def dest: in_set_takeD)

lemma get_node_by_id_in: "get_node_by_id i db = Some n \<Longrightarrow> n \<in> set (g_nodes db) \<and> n_id n = i"
  by (auto simp: get_node_by_id_def dest: find_SomeD)

lemma paged_in: "r \<in> set (paged b key rows lo) \<Longrightarrow> r \<in> set rows"
proof (induction b key rows lo rule: paged.induct)
  case (1 b key rows lo)
  let ?page = "take b (filter (\<lambda>r. lo < key r) rows)"
  have "set ?page \<subseteq> set rows" by (auto dest: in_set_takeD)
  then show ?case
    using 1(1) [OF refl] 1(2) by (subst (asm) paged.simps) (auto simp: Let_def split: if_splits)
qed

lemma for_each_node_in: "n \<in> set (for_each_node_by_name name db) \<Longrightarrow> n \<in> set (g_nodes db) \<and> n_name n = name"
  by (auto simp: for_each_node_by_name_def split: if_splits dest!: paged_in)

section \<open>Source text and definitions\<close>

definition slice_lines :: "string \<Rightarrow> int \<Rightarrow> int \<Rightarrow> string" where
  "slice_lines content start end0 =
     (if content = [] \<or> start \<le> 0 then []
      else (let ls = split_on newline content; k = int (length ls) in
            if k < start then []
            else (let end1 = (if end0 < start then start else end0); end2 = (if k < end1 then k else end1)
                  in join_with [newline] (take (nat (end2 - (start - 1))) (drop (nat (start - 1)) ls)))))"

definition line_at :: "string \<Rightarrow> nat \<Rightarrow> int" where
  "line_at content i = int (length (filter (\<lambda>c. c = newline) (take i content))) + 1"

definition is_callable_kind :: "string \<Rightarrow> bool" where
  "is_callable_kind kind \<longleftrightarrow> kind \<in> {kind_function, kind_method, ''component'', ''constructor''}"

definition end_of :: "node \<Rightarrow> int" where
  "end_of n = (if n_end_line n = 0 then n_line n else n_end_line n)"

definition encloses :: "int \<Rightarrow> node \<Rightarrow> bool" where
  "encloses line n \<longleftrightarrow> is_callable_kind (n_kind n) \<and> n_line n \<le> line \<and> line \<le> end_of n"

definition enclosing_step :: "int \<Rightarrow> node option \<Rightarrow> node \<Rightarrow> node option" where
  "enclosing_step line best n =
     (if \<not> encloses line n then best
      else (case best of None \<Rightarrow> Some n | Some b \<Rightarrow> if n_line b \<le> n_line n then Some n else best))"

definition enclosing_fn :: "node list \<Rightarrow> int \<Rightarrow> node option" where
  "enclosing_fn nodes line = foldl (enclosing_step line) None nodes"

text \<open>The definition around a line that starts last.\<close>

lemma enclosing_fn_innermost:
  "case enclosing_fn nodes line of
     None \<Rightarrow> \<forall>n\<in>set nodes. \<not> encloses line n
   | Some b \<Rightarrow> b \<in> set nodes \<and> encloses line b \<and> (\<forall>n\<in>set nodes. encloses line n \<longrightarrow> n_line n \<le> n_line b)"
proof (induction nodes rule: rev_induct)
  case (snoc n nodes)
  have step: "enclosing_fn (nodes @ [n]) line = enclosing_step line (enclosing_fn nodes line) n"
    by (simp add: enclosing_fn_def)
  show ?case
    using snoc unfolding step by (fastforce simp: enclosing_step_def split: option.splits)
qed (simp add: enclosing_fn_def)

lemma enclosing_fn_in: "enclosing_fn nodes line = Some b \<Longrightarrow> b \<in> set nodes \<and> encloses line b"
  using enclosing_fn_innermost [of nodes line] by simp

section \<open>The choice among definitions of a name\<close>

definition callable_proximity_score :: "node \<Rightarrow> string \<Rightarrow> string \<Rightarrow> nat" where
  "callable_proximity_score c near_file reg_file =
     (let c_dir = filepath_dir (n_file c) in
      if near_file \<noteq> [] \<and> n_file c = near_file then 1
      else if near_file \<noteq> [] \<and> c_dir = filepath_dir near_file then 2
      else if reg_file \<noteq> [] \<and> n_file c = reg_file then 3
      else if reg_file \<noteq> [] \<and> c_dir = filepath_dir reg_file then 4
      else if near_file \<noteq> [] \<and> has_prefix (n_file c) (filepath_dir near_file @ ''/'') then 10
      else 100)"

definition pick_by_proximity :: "node list \<Rightarrow> string \<Rightarrow> string \<Rightarrow> (string \<Rightarrow> bool) \<Rightarrow> node option" where
  "pick_by_proximity nodes near_file reg_file kind_ok =
     (case filter (\<lambda>n. kind_ok (n_kind n)) nodes of
        [] \<Rightarrow> None
      | c # cs \<Rightarrow> Some (foldl (\<lambda>best x. if callable_proximity_score x near_file reg_file
                                       < callable_proximity_score best near_file reg_file then x else best) c cs))"

definition pick_callable_by_proximity :: "node list \<Rightarrow> string \<Rightarrow> string \<Rightarrow> node option" where
  "pick_callable_by_proximity nodes near_file reg_file =
     pick_by_proximity nodes near_file reg_file (\<lambda>k. k = kind_method \<or> k = kind_function)"

definition pick_jsx_child_by_proximity :: "node list \<Rightarrow> string \<Rightarrow> node option" where
  "pick_jsx_child_by_proximity nodes near_file =
     pick_by_proximity nodes near_file [] (\<lambda>k. k = ''component'' \<or> k = kind_function \<or> k = kind_class)"

text \<open>One of the nearest.\<close>

lemma foldl_nearest:
  fixes f :: "'a \<Rightarrow> nat"
  shows "foldl (\<lambda>best x. if f x < f best then x else best) c cs \<in> set (c # cs)
    \<and> (\<forall>x\<in>set (c # cs). f (foldl (\<lambda>best x. if f x < f best then x else best) c cs) \<le> f x)"
proof (induction cs arbitrary: c)
  case (Cons a cs)
  let ?best = "\<lambda>c. foldl (\<lambda>best x. if f x < f best then x else best) c cs"
  let ?c = "if f a < f c then a else c"
  have IH: "?best ?c \<in> set (?c # cs)" "\<forall>x\<in>set (?c # cs). f (?best ?c) \<le> f x" using Cons.IH [of ?c] by blast+
  have "f (?best ?c) \<le> f ?c" using IH(2) by simp
  then have "f (?best ?c) \<le> f a" "f (?best ?c) \<le> f c" by (auto split: if_splits)
  then show ?case using IH by (auto split: if_splits)
qed simp

lemma pick_by_proximity_nearest:
  assumes "pick_by_proximity nodes near reg ok = Some b"
  shows "b \<in> set nodes \<and> ok (n_kind b)
    \<and> (\<forall>x\<in>set nodes. ok (n_kind x) \<longrightarrow> callable_proximity_score b near reg \<le> callable_proximity_score x near reg)"
proof -
  let ?f = "\<lambda>x. callable_proximity_score x near reg"
  obtain c cs where f: "filter (\<lambda>n. ok (n_kind n)) nodes = c # cs"
    and b: "b = foldl (\<lambda>best x. if ?f x < ?f best then x else best) c cs"
    using assms by (auto simp: pick_by_proximity_def split: list.splits)
  have "b \<in> set (c # cs)" "\<forall>x\<in>set (c # cs). ?f b \<le> ?f x"
    using foldl_nearest [of ?f c cs] unfolding b by blast+
  then show ?thesis unfolding f [symmetric] by simp
qed

section \<open>Edges of a pass\<close>

record synth_edge =
  s_source :: int
  s_target :: int
  s_kind :: string
  s_file :: string
  s_line :: int
  s_meta :: "(string \<times> string) list"

definition edge_key_text :: "int \<Rightarrow> int \<Rightarrow> string \<Rightarrow> string" where
  "edge_key_text src tgt kind = concat [itoa src, ''>'', itoa tgt, '':'', kind]"

definition synth_key :: "synth_edge \<Rightarrow> string" where
  "synth_key e = edge_key_text (s_source e) (s_target e) (s_kind e)"

text \<open>The edges among candidates that are new, up to a cap.\<close>

fun take_new :: "nat \<Rightarrow> string set \<Rightarrow> synth_edge list \<Rightarrow> string set \<times> synth_edge list" where
  "take_new 0 seen es = (seen, [])"
| "take_new (Suc n) seen [] = (seen, [])"
| "take_new (Suc n) seen (e # es) =
     (if synth_key e \<in> seen then take_new (Suc n) seen es
      else (let (seen', new) = take_new n (insert (synth_key e) seen) es in (seen', e # new)))"

text \<open>The same for groups of candidates, the cap being that of one group.\<close>

fun take_groups :: "nat \<Rightarrow> string set \<Rightarrow> synth_edge list list \<Rightarrow> synth_edge list" where
  "take_groups cap seen [] = []"
| "take_groups cap seen (g # gs) =
     (let (seen', new) = take_new cap seen g in new @ take_groups cap seen' gs)"

text \<open>Keys as texts are as good as the triples they are made from.\<close>

lemma digits_nonempty: "digits n \<noteq> []"
  by (subst digits.simps) simp

lemma digits_chars: "c \<in> set (digits n) \<Longrightarrow> 48 \<le> byte_of c \<and> byte_of c \<le> 57"
proof (induction n arbitrary: c rule: digits.induct)
  case (1 n)
  then show ?case by (subst (asm) (2) digits.simps) (auto split: if_splits)
qed

lemma digits_value: "foldl (\<lambda>v c. 10 * v + (byte_of c - 48)) 0 (digits n) = n"
proof (induction n rule: digits.induct)
  case (1 n)
  have "byte_of (char_of (48 + d) :: char) = 48 + d" if "d < 10" for d :: nat
    using that by simp
  then show ?case using 1 by (subst digits.simps) auto
qed

lemma digits_inj: "digits m = digits n \<Longrightarrow> m = n"
  by (metis digits_value)

lemma itoa_chars: "c \<in> set (itoa i) \<Longrightarrow> c = CHR ''-'' \<or> 48 \<le> byte_of c \<and> byte_of c \<le> 57"
  using digits_chars by (auto simp: itoa_def split: if_splits)

lemma itoa_inj:
  assumes "itoa i = itoa j"
  shows "i = j"
proof -
  have minus: "digits n \<noteq> CHR ''-'' # s" for n s
    using digits_chars [of "CHR ''-''" n] by auto
  show ?thesis
    using assms minus minus [symmetric] digits_inj by (fastforce simp: itoa_def split: if_splits)
qed

lemma split_at_sep:
  "c \<notin> set xs \<Longrightarrow> c \<notin> set ys \<Longrightarrow> xs @ c # us = ys @ c # vs \<Longrightarrow> xs = ys \<and> us = vs"
proof (induction xs arbitrary: ys)
  case Nil
  then show ?case by (cases ys) auto
next
  case (Cons x xs)
  then show ?case by (cases ys) auto
qed

lemma edge_key_text_inj:
  assumes "edge_key_text s t k = edge_key_text s' t' k'"
  shows "s = s' \<and> t = t' \<and> k = k'"
proof -
  have a: "itoa s @ CHR ''>'' # (itoa t @ CHR '':'' # k) = itoa s' @ CHR ''>'' # (itoa t' @ CHR '':'' # k')"
    using assms by (simp add: edge_key_text_def)
  have gt: "CHR ''>'' \<notin> set (itoa i)" "CHR '':'' \<notin> set (itoa i)" for i
    using itoa_chars [of "CHR ''>''" i] itoa_chars [of "CHR '':''" i] by auto
  have one: "itoa s = itoa s'" "itoa t @ CHR '':'' # k = itoa t' @ CHR '':'' # k'"
    using split_at_sep [OF gt(1) gt(1) a] by auto
  have two: "itoa t = itoa t'" "k = k'" using split_at_sep [OF gt(2) gt(2) one(2)] by auto
  show ?thesis using itoa_inj [OF one(1)] itoa_inj [OF two(1)] two(2) by simp
qed

lemma synth_key_eq:
  "synth_key a = synth_key b \<longleftrightarrow> s_source a = s_source b \<and> s_target a = s_target b \<and> s_kind a = s_kind b"
proof
  assume "synth_key a = synth_key b"
  then show "s_source a = s_source b \<and> s_target a = s_target b \<and> s_kind a = s_kind b"
    unfolding synth_key_def by (rule edge_key_text_inj)
qed (simp add: synth_key_def)

lemma take_new_seen: "fst (take_new cap seen es) = seen \<union> synth_key ` set (snd (take_new cap seen es))"
  by (induction cap seen es rule: take_new.induct) (auto simp: split_beta Let_def)

lemma take_new_sound:
  "set (snd (take_new cap seen es)) \<subseteq> {e \<in> set es. synth_key e \<notin> seen}
    \<and> distinct (map synth_key (snd (take_new cap seen es))) \<and> length (snd (take_new cap seen es)) \<le> cap"
proof (induction cap seen es rule: take_new.induct)
  case (3 n seen e es)
  then show ?case by (auto simp: split_beta Let_def)
qed simp_all

lemma take_new_all:
  "length es \<le> cap \<Longrightarrow> synth_key ` set (snd (take_new cap seen es)) = synth_key ` set es - seen"
proof (induction cap seen es rule: take_new.induct)
  case (3 n seen e es)
  show ?case
  proof (cases "synth_key e \<in> seen")
    case False
    have "synth_key ` set (snd (take_new n (insert (synth_key e) seen) es))
        = synth_key ` set es - insert (synth_key e) seen"
      using 3(2) [OF False] 3(3) by simp
    then show ?thesis using False by (auto simp: split_beta Let_def)
  qed (use 3 in \<open>auto\<close>)
qed simp_all

lemma take_groups_in: "set (take_groups cap seen gs) \<subseteq> (\<Union>g\<in>set gs. set g)"
proof (induction gs arbitrary: seen)
  case (Cons g gs)
  then show ?case using take_new_sound [of cap seen g] by (fastforce simp: split_beta Let_def)
qed simp

text \<open>Edges between nodes of the database, as its foreign keys ask for.\<close>

definition ends_exist :: "gdb \<Rightarrow> synth_edge set \<Rightarrow> bool" where
  "ends_exist db E \<longleftrightarrow> (\<forall>e\<in>E. s_source e \<in> node_ids db \<and> s_target e \<in> node_ids db)"

lemma ends_existD: "ends_exist db E \<Longrightarrow> e \<in> E \<Longrightarrow> s_source e \<in> node_ids db \<and> s_target e \<in> node_ids db"
  by (simp add: ends_exist_def)

lemma ends_exist_subset: "ends_exist db E \<Longrightarrow> F \<subseteq> E \<Longrightarrow> ends_exist db F"
  by (auto simp: ends_exist_def)

lemma node_idsI: "n \<in> set (g_nodes db) \<Longrightarrow> n_id n \<in> node_ids db"
  by (simp add: node_ids_def)

lemma collect_candidates_in: "n \<in> set (collect_candidates db name) \<Longrightarrow> n \<in> set (g_nodes db)"
  by (auto simp: collect_candidates_def Let_def dest!: set_dedup_by [THEN subsetD] for_each_node_in split: if_splits)

lemma take_groups_within: "\<forall>g\<in>set gs. ends_exist db (set g) \<Longrightarrow> ends_exist db (set (take_groups cap seen gs))"
  using take_groups_in [of cap seen gs] by (auto simp: ends_exist_def subset_iff)

section \<open>An example\<close>

text \<open>A workdir \<^verbatim>\<open>/w\<close> of which some files can be read, and a database of nodes and files.\<close>

definition reading :: "(string \<times> string) list \<Rightarrow> synth_env" where
  "reading files = \<lparr>sy_workdir = ''/w'', sy_read = map_of files, sy_order = (\<lambda>ks. ks), sy_ids = (\<lambda>is. is), sy_fails = (\<lambda>_. False)\<rparr>"

definition nodes_db :: "node list \<Rightarrow> edge list \<Rightarrow> string list \<Rightarrow> gdb" where
  "nodes_db ns es files =
     \<lparr>g_nodes = ns, g_next_node = int (length ns) + 1, g_edges = es, g_refs = [], g_next_ref = 1,
      g_files = map (\<lambda>f. \<lparr>f_path = f, f_size = 1, f_mtime = 1, f_indexed_at = 1, f_hash = [], f_language = [], f_node_count = 1\<rparr>) files\<rparr>"

lemmas nodes_db_eval = nodes_db_def nodes_in_file_def get_nodes_by_file_def get_nodes_by_kind_def nodes_by_kind_cap_def
  nodes_by_file_cap_def list_files_def list_files_cap_def sample_node_def

lemma for_each_node_single:
  assumes "db_ok db" "name \<noteq> []" "{n \<in> set (g_nodes db). n_name n = name} = {x}"
  shows "for_each_node_by_name name db = [x]"
proof -
  have "set (for_each_node_by_name name db) = {n \<in> set (g_nodes db). n_name n = name}"
    "distinct (map n_id (for_each_node_by_name name db))"
    using paged_selection [OF assms(1), of node_batch "\<lambda>n. n_name n = name"] assms(2)
    by (simp_all add: for_each_node_by_name_def node_batch_def)
  then have "set (for_each_node_by_name name db) = {x}" "distinct (for_each_node_by_name name db)"
    using assms(3) by (simp_all add: distinct_map)
  then show ?thesis using distinct_eq_single [of "for_each_node_by_name name db" x] by blast
qed

end
