(* ===== verification/Synth_Channels.thy ===== *)
theory Synth_Channels
  imports Synth_Context "HOL-Library.AList"
begin

text \<open>
  Callbacks and events (\<^verbatim>\<open>internal/resolution/synthesize.go\<close>): \<^verbatim>\<open>fieldChannelEdges\<close> links a dispatcher with the
  callbacks registered in the field it runs over, \<^verbatim>\<open>eventEmitterEdges\<close> the function that emits an event
  with the handlers of the event.
\<close>

section \<open>Patterns\<close>

text \<open>\<^verbatim>\<open>^(on[A-Z]\w*|subscribe|addListener|addEventListener|register|watch|listen|addCallback)$\<close>\<close>

definition registrar_name_re :: re where
  "registrar_name_re = seq [Text_start,
     Group 1 (Either (seq [lit ''on'', Byte is_upper_byte, any_of is_word])
       (one_of [''subscribe'', ''addListener'', ''addEventListener'', ''register'', ''watch'', ''listen'', ''addCallback''])),
     Text_end]"

text \<open>
  \<^verbatim>\<open>(?i)(emit|trigger|notify|dispatch|fire|publish|flush)\<close>; the fold of \<^verbatim>\<open>s\<close> also has the long s, the bytes C5 BF.
\<close>

definition folded :: "char \<Rightarrow> re" where
  "folded c =
     (let ascii = Byte (\<lambda>x. ascii_fold [x] = [c]) in
      if c = CHR ''s'' then Either ascii (lit [CHR 0xC5, CHR 0xBF]) else ascii)"

definition folded_lit :: "string \<Rightarrow> re" where
  "folded_lit s = foldr (\<lambda>c. Then (folded c)) s Nothing"

fun folded_one_of :: "string list \<Rightarrow> re" where
  "folded_one_of [] = Nothing"
| "folded_one_of [s] = folded_lit s"
| "folded_one_of (s # ss) = Either (folded_lit s) (folded_one_of ss)"

definition dispatcher_name_re :: re where
  "dispatcher_name_re = Group 1 (folded_one_of
     [''emit'', ''trigger'', ''notify'', ''dispatch'', ''fire'', ''publish'', ''flush''])"

text \<open>\<^verbatim>\<open>this\.(\w+)\.(?:add|push|set)\(\<close>\<close>

definition registrar_field_re :: re where
  "registrar_field_re = seq [lit ''this.'', Group 1 word_plus, lit ''.'', one_of [''add'', ''push'', ''set''], lit ''('']"

text \<open>\<^verbatim>\<open>\bof\s+(?:Array\.from\(\s*)?this\.(\w+)\<close>\<close>

definition dispatcher_for_of :: re where
  "dispatcher_for_of = seq [Word_edge, lit ''of'', some_of re_space,
     Maybe (Then (lit ''Array.from('') (any_of re_space)), lit ''this.'', Group 1 word_plus]"

text \<open>\<^verbatim>\<open>this\.(\w+)\.forEach\(\<close>\<close>

definition dispatcher_for_each :: re where
  "dispatcher_for_each = seq [lit ''this.'', Group 1 word_plus, lit ''.forEach('']"

text \<open>\<^verbatim>\<open>\b\w+\s*\(\<close>\<close>

definition word_paren_re :: re where
  "word_paren_re = seq [Word_edge, word_plus, any_of re_space, lit ''('']"

text \<open>\<^verbatim>\<open>\.(?:on|once|addListener)\(\s*['"]([^'"]+)['"]\s*,\s*(?:function\s+(\w+)|(?:this\.)?(\w+))\<close>\<close>

definition on_event_re :: re where
  "on_event_re = seq [lit ''.'', one_of [''on'', ''once'', ''addListener''], lit ''('', any_of re_space,
     Byte quote_char, Group 1 (some_of (\<lambda>c. \<not> quote_char c)), Byte quote_char,
     any_of re_space, lit '','', any_of re_space,
     Either (seq [lit ''function'', some_of re_space, Group 2 word_plus])
            (Then (Maybe (lit ''this.'')) (Group 3 word_plus))]"

text \<open>\<^verbatim>\<open>\.(?:emit|fire|dispatchEvent)\(\s*['"]([^'"]+)['"]\<close>\<close>

definition emit_event_re :: re where
  "emit_event_re = seq [lit ''.'', one_of [''emit'', ''fire'', ''dispatchEvent''], lit ''('', any_of re_space,
     Byte quote_char, Group 1 (some_of (\<lambda>c. \<not> quote_char c)), Byte quote_char]"

text \<open>\<^verbatim>\<open>getArgRe\<close>: a call of the registrar with a plain or \<^verbatim>\<open>this.\<close> argument.\<close>

definition get_arg_re :: "string \<Rightarrow> re" where
  "get_arg_re name = seq [lit name, any_of re_space, lit ''('', any_of re_space, Maybe (lit ''this.''), Group 1 word_plus]"

section \<open>Channels\<close>

definition max_callbacks_per_channel :: nat where
  "max_callbacks_per_channel = 40"

definition registrar_field :: "string \<Rightarrow> string" where
  "registrar_field src = (case find_submatch registrar_field_re src of None \<Rightarrow> [] | Some m \<Rightarrow> m 1)"

definition dispatcher_field :: "string \<Rightarrow> string" where
  "dispatcher_field src =
     (let for_each = (case find_submatch dispatcher_for_each src of None \<Rightarrow> [] | Some m \<Rightarrow> m 1) in
      case find_submatch dispatcher_for_of src of
        None \<Rightarrow> for_each
      | Some m \<Rightarrow> if match_string word_paren_re src then m 1 else for_each)"

definition channel_source :: "synth_env \<Rightarrow> node \<Rightarrow> string" where
  "channel_source env m =
     (let src = slice_lines (source_of env (n_file m)) (n_line m) (n_end_line m) in
      if src = [] then n_body m else src)"

definition channel_candidates :: "gdb \<Rightarrow> node list" where
  "channel_candidates db = get_nodes_by_kind kind_method db @ get_nodes_by_kind kind_function db"

text \<open>The candidates of one name pattern with the field that their source names.\<close>

definition channel_ends :: "re \<Rightarrow> (string \<Rightarrow> string) \<Rightarrow> synth_env \<Rightarrow> gdb \<Rightarrow> (node \<times> string) list" where
  "channel_ends name_re field env db =
     [(m, f). m \<leftarrow> channel_candidates db, match_string name_re (n_name m), src \<leftarrow> [channel_source env m], src \<noteq> [],
        f \<leftarrow> [field src], f \<noteq> []]"

definition registrars :: "synth_env \<Rightarrow> gdb \<Rightarrow> (node \<times> string) list" where
  "registrars = channel_ends registrar_name_re registrar_field"

definition dispatchers :: "synth_env \<Rightarrow> gdb \<Rightarrow> (node \<times> string) list" where
  "dispatchers = channel_ends dispatcher_name_re dispatcher_field"

definition resolve_callback_target :: "gdb \<Rightarrow> string \<Rightarrow> node \<Rightarrow> node \<Rightarrow> node option" where
  "resolve_callback_target db cb_name caller reg =
     pick_callable_by_proximity (for_each_node_by_name cb_name db) (n_file caller) (n_file reg)"

text \<open>The caller and the callback that a call of the registrar hands over.\<close>

definition registration :: "synth_env \<Rightarrow> gdb \<Rightarrow> node \<Rightarrow> edge \<Rightarrow> (node \<times> node) option" where
  "registration env db reg e =
     (if e_line e \<le> 0 then None
      else (case get_node_by_id (e_source e) db of
              None \<Rightarrow> None
            | Some caller \<Rightarrow>
                (let ls = split_on newline (source_of env (n_file caller)) in
                 if int (length ls) < e_line e then None
                 else (case find_submatch (get_arg_re (n_name reg)) (ls ! nat (e_line e - 1)) of
                         None \<Rightarrow> None
                       | Some m \<Rightarrow> map_option (\<lambda>fn. (caller, fn)) (resolve_callback_target db (m 1) caller reg)))))"

definition channel_edge :: "node \<times> string \<Rightarrow> node \<Rightarrow> edge \<Rightarrow> node \<Rightarrow> node \<Rightarrow> synth_edge" where
  "channel_edge reg caller e fn disp =
     \<lparr>s_source = n_id disp, s_target = n_id fn, s_kind = edge_calls, s_file = n_file disp, s_line = n_line disp,
      s_meta = [(''synthesizedBy'', ''callback''), (''via'', n_name (fst reg)), (''field'', snd reg),
                (''registeredAt'', concat [n_file caller, '':'', itoa (e_line e)])]\<rparr>"

text \<open>
  The loop over the calls of one registrar.  The cap is looked at before each call; within a call every
  dispatcher of the channel gets its edge.
\<close>

fun channel_calls ::
    "synth_env \<Rightarrow> gdb \<Rightarrow> node \<times> string \<Rightarrow> node list \<Rightarrow> edge list \<Rightarrow> nat \<Rightarrow> string set \<Rightarrow> string set \<times> synth_edge list" where
  "channel_calls env db reg disps [] added seen = (seen, [])"
| "channel_calls env db reg disps (e # es) added seen =
     (if max_callbacks_per_channel \<le> added then (seen, [])
      else (case registration env db (fst reg) e of
              None \<Rightarrow> channel_calls env db reg disps es added seen
            | Some (caller, fn) \<Rightarrow>
                (let new = dedup_by synth_key seen
                       (map (channel_edge reg caller e fn) (filter (\<lambda>d. n_id d \<noteq> n_id fn) disps));
                     (seen', rest) = channel_calls env db reg disps es (added + length new) (seen \<union> synth_key ` set new)
                 in (seen', new @ rest))))"

definition channel_dispatchers :: "(node \<times> string) list \<Rightarrow> node \<times> string \<Rightarrow> node list" where
  "channel_dispatchers ds reg = map fst (filter (\<lambda>d. n_file (fst d) = n_file (fst reg) \<and> snd d = snd reg) ds)"

fun channels :: "synth_env \<Rightarrow> gdb \<Rightarrow> (node \<times> string) list \<Rightarrow> (node \<times> string) list \<Rightarrow> string set \<Rightarrow> synth_edge list" where
  "channels env db ds [] seen = []"
| "channels env db ds (reg # regs) seen =
     (if channel_dispatchers ds reg = [] then channels env db ds regs seen
      else (let (seen', new) = channel_calls env db reg (channel_dispatchers ds reg)
                   (get_incoming_edges (n_id (fst reg)) [edge_calls] db) 0 seen
            in new @ channels env db ds regs seen'))"

definition field_channel_edges :: "synth_env \<Rightarrow> gdb \<Rightarrow> synth_edge list" where
  "field_channel_edges env db = channels env db (dispatchers env db) (registrars env db) {}"

section \<open>Events\<close>

definition event_fanout_cap :: nat where
  "event_fanout_cap = 6"

text \<open>\<^verbatim>\<open>m[event][id] = v\<close>\<close>

definition put_hit :: "string \<Rightarrow> int \<Rightarrow> 'v \<Rightarrow> (string \<times> (int \<times> 'v) list) list \<Rightarrow> (string \<times> (int \<times> 'v) list) list" where
  "put_hit event i v m =
     AList.update event (AList.update i v (case map_of m event of None \<Rightarrow> [] | Some s \<Rightarrow> s)) m"

definition event_emits :: "synth_env \<Rightarrow> gdb \<Rightarrow> string \<Rightarrow> (string \<times> int \<times> string \<times> int) list" where
  "event_emits env db file =
     (let content = source_of env file in
      if contains_str content ''.emit('' \<or> contains_str content ''.fire('' \<or> contains_str content ''.dispatchEvent(''
      then [(group_text m 1, n_id disp, n_file disp, line_at content (match_begin m)).
              m \<leftarrow> find_all emit_event_re [] content,
              Some disp \<leftarrow> [enclosing_fn (nodes_in_file file db) (line_at content (match_begin m))]]
      else [])"

definition handler_name :: "string \<times> place \<Rightarrow> string" where
  "handler_name m = (case m of (b0, b', a, g) \<Rightarrow> if g 2 \<noteq> None then group_text m 2 else group_text m 3)"

definition event_handlers :: "synth_env \<Rightarrow> gdb \<Rightarrow> string \<Rightarrow> (string \<times> int \<times> string) list" where
  "event_handlers env db file =
     (let content = source_of env file in
      if contains_str content ''.on('' \<or> contains_str content ''.once('' \<or> contains_str content ''.addListener(''
      then [(group_text m 1, n_id handler, concat [file, '':'', itoa (line_at content (match_begin m))]).
              m \<leftarrow> find_all on_event_re [] content, handler_name m \<noteq> [],
              Some handler \<leftarrow> [pick_callable_by_proximity (for_each_node_by_name (handler_name m) db) [] file]]
      else [])"

definition emits_by_event :: "synth_env \<Rightarrow> gdb \<Rightarrow> (string \<times> (int \<times> string \<times> int) list) list" where
  "emits_by_event env db =
     foldl (\<lambda>m (event, i, v). put_hit event i v m) [] (concat (map (event_emits env db) (list_files db)))"

definition handlers_by_event :: "synth_env \<Rightarrow> gdb \<Rightarrow> (string \<times> (int \<times> string) list) list" where
  "handlers_by_event env db =
     foldl (\<lambda>m (event, i, v). put_hit event i v m) [] (concat (map (event_handlers env db) (list_files db)))"

definition event_edge :: "string \<Rightarrow> int \<Rightarrow> string \<times> int \<Rightarrow> int \<Rightarrow> string \<Rightarrow> synth_edge" where
  "event_edge event d at h registered_at =
     \<lparr>s_source = d, s_target = h, s_kind = edge_calls, s_file = fst at, s_line = snd at,
      s_meta = [(''synthesizedBy'', ''event-emitter''), (''event'', event), (''registeredAt'', registered_at)]\<rparr>"

definition entries :: "(string \<times> (int \<times> 'v) list) list \<Rightarrow> string \<Rightarrow> (int \<times> 'v) list" where
  "entries m event = (case map_of m event of None \<Rightarrow> [] | Some s \<Rightarrow> s)"

definition event_pairs :: "synth_env \<Rightarrow> gdb \<Rightarrow> synth_edge list" where
  "event_pairs env db =
     (let emits = emits_by_event env db; handlers = handlers_by_event env db in
      [event_edge event d (the (map_of (entries emits event) d)) h (the (map_of (entries handlers event) h)).
         event \<leftarrow> sy_order env (map fst emits), entries handlers event \<noteq> [],
         length (entries emits event) \<le> event_fanout_cap \<and> length (entries handlers event) \<le> event_fanout_cap,
         d \<leftarrow> sy_ids env (map fst (entries emits event)),
         h \<leftarrow> sy_ids env (map fst (entries handlers event)), d \<noteq> h])"

definition event_emitter_edges :: "synth_env \<Rightarrow> gdb \<Rightarrow> synth_edge list" where
  "event_emitter_edges env db = dedup_by synth_key {} (event_pairs env db)"

section \<open>What the channels link\<close>

lemma channel_ends_in:
  "(m, f) \<in> set (channel_ends name_re field env db) \<Longrightarrow>
     m \<in> set (g_nodes db) \<and> (n_kind m = kind_method \<or> n_kind m = kind_function) \<and> match_string name_re (n_name m)
     \<and> f = field (channel_source env m)"
  by (auto simp: channel_ends_def channel_candidates_def dest: get_nodes_by_kind_in split: if_splits)

lemma pick_callable_in:
  "pick_callable_by_proximity nodes a b = Some n \<Longrightarrow> n \<in> set nodes"
  using pick_by_proximity_nearest [of nodes a b _ n] unfolding pick_callable_by_proximity_def by blast

lemma registration_in:
  "registration env db reg e = Some (caller, fn) \<Longrightarrow>
     caller \<in> set (g_nodes db) \<and> n_id caller = e_source e \<and> fn \<in> set (g_nodes db)
     \<and> (\<exists>m. 0 < e_line e \<and> int (nat (e_line e - 1)) < int (length (split_on newline (source_of env (n_file caller))))
          \<and> find_submatch (get_arg_re (n_name reg))
              (split_on newline (source_of env (n_file caller)) ! nat (e_line e - 1)) = Some m
          \<and> n_name fn = m 1)"
  by (auto simp: registration_def Let_def resolve_callback_target_def
      dest!: get_node_by_id_in pick_callable_in for_each_node_in split: if_splits option.splits)

definition linked_by :: "synth_env \<Rightarrow> gdb \<Rightarrow> node \<times> string \<Rightarrow> node list \<Rightarrow> edge list \<Rightarrow> synth_edge \<Rightarrow> bool" where
  "linked_by env db reg disps calls x \<longleftrightarrow>
     (\<exists>e caller fn disp. e \<in> set calls \<and> registration env db (fst reg) e = Some (caller, fn) \<and> disp \<in> set disps
        \<and> n_id disp \<noteq> n_id fn \<and> x = channel_edge reg caller e fn disp)"

lemma channel_calls_linked:
  "x \<in> set (snd (channel_calls env db reg disps es added seen)) \<Longrightarrow> linked_by env db reg disps es x"
proof (induction env db reg disps es added seen rule: channel_calls.induct)
  case (2 env db reg disps e es added seen)
  show ?case
  proof (cases "max_callbacks_per_channel \<le> added")
    case False
    show ?thesis
    proof (cases "registration env db (fst reg) e")
      case None
      then show ?thesis using 2(1) [OF False None] 2(3) False by (auto simp: linked_by_def)
    next
      case (Some cf)
      obtain caller fn where cf: "cf = (caller, fn)" by (cases cf)
      let ?new = "dedup_by synth_key seen (map (channel_edge reg caller e fn) (filter (\<lambda>d. n_id d \<noteq> n_id fn) disps))"
      have "x \<in> set ?new \<or> linked_by env db reg disps es x"
        using 2(2) [OF False Some cf [symmetric] refl] 2(3) False Some cf by (auto simp: split_beta Let_def)
      moreover have "linked_by env db reg disps (e # es) x" if "x \<in> set ?new"
        using that set_dedup_by [of synth_key seen] Some cf unfolding linked_by_def by fastforce
      ultimately show ?thesis by (auto simp: linked_by_def)
    qed
  qed (use 2(3) in simp)
qed simp

lemma channels_linked:
  "x \<in> set (channels env db ds regs seen) \<Longrightarrow>
     \<exists>reg\<in>set regs. linked_by env db reg (channel_dispatchers ds reg) (get_incoming_edges (n_id (fst reg)) [edge_calls] db) x"
proof (induction regs arbitrary: seen)
  case (Cons reg regs)
  let ?ds = "channel_dispatchers ds reg"
  let ?r = "channel_calls env db reg ?ds (get_incoming_edges (n_id (fst reg)) [edge_calls] db) 0 seen"
  show ?case
  proof (cases "?ds = []")
    case True
    then show ?thesis using Cons by simp
  next
    case False
    then have "x \<in> set (snd ?r) \<or> x \<in> set (channels env db ds regs (fst ?r))"
      using Cons.prems by (simp add: split_beta Let_def)
    then show ?thesis using channel_calls_linked Cons.IH by (meson list.set_intros)
  qed
qed simp

lemma channel_edges_ends:
  "x \<in> set (field_channel_edges env db) \<Longrightarrow>
     \<exists>disp fn. {disp, fn} \<subseteq> set (g_nodes db) \<and> s_source x = n_id disp \<and> s_target x = n_id fn"
proof -
  assume "x \<in> set (field_channel_edges env db)"
  then obtain reg where "linked_by env db reg (channel_dispatchers (dispatchers env db) reg)
      (get_incoming_edges (n_id (fst reg)) [edge_calls] db) x"
    using channels_linked unfolding field_channel_edges_def by blast
  then obtain e caller fn disp where c: "registration env db (fst reg) e = Some (caller, fn)"
    "disp \<in> set (channel_dispatchers (dispatchers env db) reg)" "x = channel_edge reg caller e fn disp"
    unfolding linked_by_def by blast
  have "disp \<in> set (g_nodes db)"
    using c(2) channel_ends_in by (fastforce simp: channel_dispatchers_def dispatchers_def)
  then show ?thesis
    using registration_in [OF c(1)] unfolding c(3) by (intro exI [of _ disp] exI [of _ fn]) (simp add: channel_edge_def)
qed

text \<open>
  A callback is only linked with a function that runs over a field of
  \<^verbatim>\<open>this\<close>, if in the same file a registrar stores into that field and some call of the registrar, on a
  line that is there to be read, hands over a name that the callback bears.
\<close>

theorem channel_edges_sound:
  assumes "x \<in> set (field_channel_edges env db)"
  shows "\<exists>reg disp fn caller call m field.
    {reg, disp, fn, caller} \<subseteq> set (g_nodes db) \<and> call \<in> set (g_edges db)
    \<and> s_source x = n_id disp \<and> s_target x = n_id fn \<and> n_id disp \<noteq> n_id fn
    \<and> n_file disp = n_file reg \<and> registrar_field (channel_source env reg) = field
    \<and> dispatcher_field (channel_source env disp) = field
    \<and> match_string registrar_name_re (n_name reg) \<and> match_string dispatcher_name_re (n_name disp)
    \<and> e_kind call = edge_calls \<and> e_target call = n_id reg \<and> e_source call = n_id caller
    \<and> find_submatch (get_arg_re (n_name reg))
        (split_on newline (source_of env (n_file caller)) ! nat (e_line call - 1)) = Some m
    \<and> n_name fn = m 1"
proof -
  obtain reg field where reg: "(reg, field) \<in> set (registrars env db)"
    and l: "linked_by env db (reg, field) (channel_dispatchers (dispatchers env db) (reg, field))
        (get_incoming_edges (n_id reg) [edge_calls] db) x"
    using channels_linked assms unfolding field_channel_edges_def by fastforce
  obtain call caller fn disp where c: "call \<in> set (get_incoming_edges (n_id reg) [edge_calls] db)"
    "registration env db reg call = Some (caller, fn)"
    "disp \<in> set (channel_dispatchers (dispatchers env db) (reg, field))"
    "n_id disp \<noteq> n_id fn" "x = channel_edge (reg, field) caller call fn disp"
    using l unfolding linked_by_def by auto
  note r = channel_ends_in [OF reg [unfolded registrars_def]]
  have "(disp, field) \<in> set (dispatchers env db)" "n_file disp = n_file reg"
    using c(3) by (auto simp: channel_dispatchers_def)
  note d = this(2) channel_ends_in [OF this(1) [unfolded dispatchers_def]]
  have "call \<in> set (g_edges db)" "e_kind call = edge_calls" "e_target call = n_id reg"
    using c(1) by (auto simp: get_incoming_edges_def list_edges_def)
  moreover obtain m where m: "find_submatch (get_arg_re (n_name reg))
        (split_on newline (source_of env (n_file caller)) ! nat (e_line call - 1)) = Some m" "n_name fn = m 1"
    "caller \<in> set (g_nodes db)" "n_id caller = e_source call" "fn \<in> set (g_nodes db)"
    using registration_in [OF c(2)] by auto
  ultimately show ?thesis
    using r d c(4) m unfolding c(5) channel_edge_def
    by (intro exI [of _ reg] exI [of _ disp] exI [of _ fn] exI [of _ caller] exI [of _ call] exI [of _ m] exI [of _ field]) simp
qed

section \<open>What the events link\<close>

lemma put_hit_entries:
  "entries (put_hit event i v m) ev = (if ev = event then AList.update i v (entries m event) else entries m ev)"
  by (auto simp: put_hit_def entries_def update_conv' split: option.splits)

lemma put_hit_keys: "set (map fst (put_hit event i v m)) = insert event (set (map fst m))"
  by (auto simp: put_hit_def update_keys simp del: set_map)

abbreviation put_all :: "(string \<times> int \<times> 'v) list \<Rightarrow> (string \<times> (int \<times> 'v) list) list" where
  "put_all xs \<equiv> foldl (\<lambda>m (event, i, v). put_hit event i v m) [] xs"

lemma put_all_entries:
  "set (map fst (entries (put_all xs) event)) = {i. \<exists>v. (event, i, v) \<in> set xs}
    \<and> distinct (map fst (entries (put_all xs) event)) \<and> set (map fst (put_all xs)) = fst ` set xs"
proof (induction xs rule: rev_induct)
  case (snoc x xs)
  obtain e i v where x: "x = (e, i, v)" by (cases x) auto
  show ?case
    using snoc unfolding x
    by (auto simp: put_hit_entries put_hit_keys update_keys distinct_update simp del: set_map)
qed (simp add: entries_def)

text \<open>The functions that emit an event, the handlers of an event.\<close>

definition emitters :: "synth_env \<Rightarrow> gdb \<Rightarrow> string \<Rightarrow> int set" where
  "emitters env db event = {d. \<exists>file\<in>set (list_files db). \<exists>v. (event, d, v) \<in> set (event_emits env db file)}"

definition handlers_of :: "synth_env \<Rightarrow> gdb \<Rightarrow> string \<Rightarrow> int set" where
  "handlers_of env db event = {h. \<exists>file\<in>set (list_files db). \<exists>v. (event, h, v) \<in> set (event_handlers env db file)}"

lemma emits_by_event_entries:
  "set (map fst (entries (emits_by_event env db) event)) = emitters env db event"
  "length (entries (emits_by_event env db) event) = card (emitters env db event)"
  "emitters env db event \<noteq> {} \<Longrightarrow> event \<in> set (map fst (emits_by_event env db))"
proof -
  let ?xs = "concat (map (event_emits env db) (list_files db))"
  have e: "emits_by_event env db = put_all ?xs" by (simp add: emits_by_event_def)
  note p = put_all_entries [of ?xs event, folded e]
  show s: "set (map fst (entries (emits_by_event env db) event)) = emitters env db event"
    using p unfolding emitters_def by auto
  show "length (entries (emits_by_event env db) event) = card (emitters env db event)"
    using p distinct_card [of "map fst (entries (emits_by_event env db) event)"] unfolding s by simp
  show "emitters env db event \<noteq> {} \<Longrightarrow> event \<in> set (map fst (emits_by_event env db))"
  proof -
    assume "emitters env db event \<noteq> {}"
    then obtain d v where "(event, d, v) \<in> set ?xs" unfolding emitters_def by auto
    then have "event \<in> fst ` set ?xs" by (rule image_eqI [rotated]) simp
    then show ?thesis using p by simp
  qed
qed

lemma handlers_by_event_entries:
  "set (map fst (entries (handlers_by_event env db) event)) = handlers_of env db event"
  "length (entries (handlers_by_event env db) event) = card (handlers_of env db event)"
proof -
  let ?xs = "concat (map (event_handlers env db) (list_files db))"
  have e: "handlers_by_event env db = put_all ?xs" by (simp add: handlers_by_event_def)
  note p = put_all_entries [of ?xs event, folded e]
  show s: "set (map fst (entries (handlers_by_event env db) event)) = handlers_of env db event"
    using p unfolding handlers_of_def by auto
  show "length (entries (handlers_by_event env db) event) = card (handlers_of env db event)"
    using p distinct_card [of "map fst (entries (handlers_by_event env db) event)"] unfolding s by simp
qed

lemma event_pairs_in:
  "e \<in> set (event_pairs env db) \<longleftrightarrow>
     (\<exists>event d h. event \<in> set (sy_order env (map fst (emits_by_event env db)))
        \<and> entries (handlers_by_event env db) event \<noteq> []
        \<and> length (entries (emits_by_event env db) event) \<le> event_fanout_cap
        \<and> length (entries (handlers_by_event env db) event) \<le> event_fanout_cap
        \<and> d \<in> set (sy_ids env (map fst (entries (emits_by_event env db) event)))
        \<and> h \<in> set (sy_ids env (map fst (entries (handlers_by_event env db) event))) \<and> d \<noteq> h
        \<and> e = event_edge event d (the (map_of (entries (emits_by_event env db) event) d)) h
                (the (map_of (entries (handlers_by_event env db) event) h)))"
  unfolding event_pairs_def Let_def by (simp add: if_distrib [of set] Bex_def)

text \<open>
  C35 (\<open>event_edges_exact\<close>).  Exactly those functions are linked with those handlers for which there is an
  event that the one emits and the other handles, with at most six emitters and six handlers, in
  whatever order the maps are met; and no link is made twice.
\<close>

theorem event_edges_exact:
  assumes "\<forall>ks. set (sy_order env ks) = set ks" "\<forall>ks. set (sy_ids env ks) = set ks"
  shows "(\<lambda>e. (s_source e, s_target e)) ` set (event_emitter_edges env db) =
      {(d, h). d \<noteq> h \<and> (\<exists>event. d \<in> emitters env db event \<and> h \<in> handlers_of env db event
         \<and> card (emitters env db event) \<le> event_fanout_cap \<and> card (handlers_of env db event) \<le> event_fanout_cap)}
    \<and> distinct (map (\<lambda>e. (s_source e, s_target e)) (event_emitter_edges env db))"
proof -
  let ?pair = "\<lambda>e. (s_source e, s_target e)"
  let ?es = "event_emitter_edges env db"
  have calls: "\<forall>e\<in>set (event_pairs env db). s_kind e = edge_calls"
    unfolding event_pairs_def Let_def by (auto simp: event_edge_def split: if_splits)
  have sub: "set ?es \<subseteq> set (event_pairs env db)"
    using set_dedup_by [of synth_key "{}"] by (auto simp: event_emitter_edges_def)
  have same: "?pair ` set ?es = ?pair ` set (event_pairs env db)"
  proof (intro equalityI image_mono [OF sub] subsetI)
    fix p
    assume "p \<in> ?pair ` set (event_pairs env db)"
    then obtain e where e: "e \<in> set (event_pairs env db)" "p = ?pair e" by blast
    have "synth_key e \<in> synth_key ` set ?es" using e(1) by (simp add: event_emitter_edges_def)
    then obtain e' where "e' \<in> set ?es" "synth_key e = synth_key e'" by blast
    then show "p \<in> ?pair ` set ?es" unfolding e(2) synth_key_eq by force
  qed
  let ?E = "emits_by_event env db"
  let ?H = "handlers_by_event env db"
  have "p \<in> ?pair ` set (event_pairs env db) \<longleftrightarrow> p \<in>
      {(d, h). d \<noteq> h \<and> (\<exists>event\<in>set (map fst ?E). entries ?H event \<noteq> []
         \<and> length (entries ?E event) \<le> event_fanout_cap \<and> length (entries ?H event) \<le> event_fanout_cap
         \<and> d \<in> set (map fst (entries ?E event)) \<and> h \<in> set (map fst (entries ?H event)))}" for p
  proof
    assume "p \<in> ?pair ` set (event_pairs env db)"
    then obtain e where e: "e \<in> set (event_pairs env db)" "p = ?pair e" by blast
    show "p \<in> {(d, h). d \<noteq> h \<and> (\<exists>event\<in>set (map fst ?E). entries ?H event \<noteq> []
         \<and> length (entries ?E event) \<le> event_fanout_cap \<and> length (entries ?H event) \<le> event_fanout_cap
         \<and> d \<in> set (map fst (entries ?E event)) \<and> h \<in> set (map fst (entries ?H event)))}"
      using e unfolding event_pairs_in assms(1,2) [rule_format] by (auto simp: event_edge_def simp del: set_map)
  next
    assume "p \<in> {(d, h). d \<noteq> h \<and> (\<exists>event\<in>set (map fst ?E). entries ?H event \<noteq> []
         \<and> length (entries ?E event) \<le> event_fanout_cap \<and> length (entries ?H event) \<le> event_fanout_cap
         \<and> d \<in> set (map fst (entries ?E event)) \<and> h \<in> set (map fst (entries ?H event)))}"
    then obtain d h event where p: "p = (d, h)" "d \<noteq> h" "event \<in> set (map fst ?E)" "entries ?H event \<noteq> []"
      "length (entries ?E event) \<le> event_fanout_cap \<and> length (entries ?H event) \<le> event_fanout_cap"
      "d \<in> set (map fst (entries ?E event))" "h \<in> set (map fst (entries ?H event))" by blast
    let ?e = "event_edge event d (the (map_of (entries ?E event) d)) h (the (map_of (entries ?H event) h))"
    have "?e \<in> set (event_pairs env db)"
      unfolding event_pairs_in assms(1,2) [rule_format] using p by blast
    then show "p \<in> ?pair ` set (event_pairs env db)"
      by (rule image_eqI [rotated]) (simp add: p(1) event_edge_def)
  qed
  then have "?pair ` set (event_pairs env db) =
      {(d, h). d \<noteq> h \<and> (\<exists>event\<in>set (map fst ?E). entries ?H event \<noteq> []
         \<and> length (entries ?E event) \<le> event_fanout_cap \<and> length (entries ?H event) \<le> event_fanout_cap
         \<and> d \<in> set (map fst (entries ?E event)) \<and> h \<in> set (map fst (entries ?H event)))}" by blast
  also have "\<dots> = {(d, h). d \<noteq> h \<and> (\<exists>event. d \<in> emitters env db event \<and> h \<in> handlers_of env db event
         \<and> card (emitters env db event) \<le> event_fanout_cap \<and> card (handlers_of env db event) \<le> event_fanout_cap)}"
  proof (intro Collect_cong prod.case_cong refl)
    fix d h
    have "(event \<in> set (map fst ?E) \<and> entries ?H event \<noteq> [] \<and> d \<in> emitters env db event \<and> h \<in> handlers_of env db event)
        \<longleftrightarrow> d \<in> emitters env db event \<and> h \<in> handlers_of env db event" for event
      using emits_by_event_entries(3) [of env db event] handlers_by_event_entries(1) [of env db event]
      by (auto simp del: set_map)
    then show "(d \<noteq> h \<and> (\<exists>event\<in>set (map fst ?E). entries ?H event \<noteq> []
         \<and> length (entries ?E event) \<le> event_fanout_cap \<and> length (entries ?H event) \<le> event_fanout_cap
         \<and> d \<in> set (map fst (entries ?E event)) \<and> h \<in> set (map fst (entries ?H event)))) \<longleftrightarrow>
      (d \<noteq> h \<and> (\<exists>event. d \<in> emitters env db event \<and> h \<in> handlers_of env db event
         \<and> card (emitters env db event) \<le> event_fanout_cap \<and> card (handlers_of env db event) \<le> event_fanout_cap))"
      unfolding emits_by_event_entries(1,2) handlers_by_event_entries(1,2) Bex_def by blast
  qed
  finally have pairs: "?pair ` set ?es = \<dots>" unfolding same .
  have d: "distinct (map synth_key ?es)" by (simp add: event_emitter_edges_def)
  have "inj_on ?pair (set ?es)"
  proof (rule inj_onI)
    fix a b
    assume "a \<in> set ?es" "b \<in> set ?es" "?pair a = ?pair b"
    then show "a = b" using calls sub d unfolding distinct_map inj_on_def by (auto simp: synth_key_eq subset_iff)
  qed
  then have "distinct (map ?pair ?es)" using d by (simp add: distinct_map)
  then show ?thesis using pairs by blast
qed

lemma field_channel_edges_ends: "ends_exist db (set (field_channel_edges env db))"
  unfolding ends_exist_def using channel_edges_ends node_idsI by fastforce

lemma event_edge_ends [simp]:
  "s_source (event_edge event d v h r) = d" "s_target (event_edge event d v h r) = h"
  by (simp_all add: event_edge_def)

lemma emitters_in: "emitters env db event \<subseteq> node_ids db"
  by (auto simp: emitters_def event_emits_def Let_def dest!: sym [of "Some _"] enclosing_fn_in nodes_in_file_in
      intro: node_idsI split: if_splits option.splits)

lemma handlers_of_in: "handlers_of env db event \<subseteq> node_ids db"
  by (auto simp: handlers_of_def event_handlers_def Let_def dest!: sym [of "Some _"] pick_callable_in for_each_node_in
      intro: node_idsI split: if_splits option.splits)

lemma event_emitter_edges_ends:
  assumes "\<forall>ks. set (sy_ids env ks) = set ks"
  shows "ends_exist db (set (event_emitter_edges env db))"
proof -
  have "ends_exist db (set (event_pairs env db))"
    unfolding ends_exist_def
  proof
    fix e
    assume "e \<in> set (event_pairs env db)"
    then obtain event where "s_source e \<in> emitters env db event" "s_target e \<in> handlers_of env db event"
      unfolding event_pairs_in assms [rule_format] emits_by_event_entries(1) handlers_by_event_entries(1) by auto
    then show "s_source e \<in> node_ids db \<and> s_target e \<in> node_ids db"
      using emitters_in [of env db] handlers_of_in [of env db] by blast
  qed
  then show ?thesis
    unfolding event_emitter_edges_def using set_dedup_by [of synth_key "{}" "event_pairs env db"] by (auto simp: ends_exist_def)
qed

section \<open>An example\<close>

text \<open>A file with two lines: \<^verbatim>\<open>x.emit('e')\<close> inside \<^verbatim>\<open>go\<close>, and \<^verbatim>\<open>x.on('e',h)\<close>.\<close>

definition quoted_e :: string where
  "quoted_e = [CHR 0x27, CHR ''e'', CHR 0x27]"

definition event_source :: string where
  "event_source = ''x.emit('' @ quoted_e @ '')'' @ [newline] @ ''x.on('' @ quoted_e @ '',h)''"

definition event_nodes :: "node list" where
  "event_nodes = [sample_node 1 kind_function ''go'' ''a.js'' 1, sample_node 2 kind_function ''h'' ''b.js'' 4]"

definition event_env :: synth_env where
  "event_env = reading [(''/w/a.js'', event_source)]"

definition event_db :: gdb where
  "event_db = nodes_db event_nodes [] [''a.js'']"

lemma event_db_ok: "db_ok event_db"
  by (simp add: event_db_def nodes_db_def event_nodes_def db_ok_def ok_defs sample_node_def node_key_def)

lemma event_text: "source_of event_env ''a.js'' = event_source"
  by (simp add: source_of_def file_text_def event_env_def reading_def path_eval str_eval)

lemma emits_found: "map (\<lambda>m. (match_begin m, group_text m 1)) (find_all emit_event_re [] event_source) = [(1, ''e'')]"
  by code_simp

lemma handlers_found:
  "map (\<lambda>m. (match_begin m, group_text m 1, handler_name m)) (find_all on_event_re [] event_source) = [(13, ''e'', ''h'')]"
  by code_simp

lemma event_lines: "line_at event_source 1 = 1" "line_at event_source 13 = 2"
  by (code_simp, code_simp)

lemma event_calls: "contains_str event_source ''.emit(''" "contains_str event_source ''.on(''"
  unfolding contains_str_def event_source_def
  by (simp_all add: sublist_Cons_right quoted_e_def)

lemma event_emits_value: "event_emits event_env event_db ''a.js'' = [(''e'', 1, ''a.js'', 1)]"
proof -
  obtain m where m: "find_all emit_event_re [] event_source = [m]" "match_begin m = 1" "group_text m 1 = ''e''"
    using emits_found by auto
  have "enclosing_fn (nodes_in_file ''a.js'' event_db) 1 = Some (sample_node 1 kind_function ''go'' ''a.js'' 1)"
    by (simp add: event_db_def event_nodes_def nodes_db_eval enclosing_fn_def enclosing_step_def encloses_def
        is_callable_kind_def end_of_def)
  then show ?thesis
    unfolding event_emits_def event_text Let_def using event_calls m event_lines by (simp add: sample_node_def)
qed

lemma handler_node: "for_each_node_by_name ''h'' event_db = [sample_node 2 kind_function ''h'' ''b.js'' 4]"
  by (rule for_each_node_single [OF event_db_ok]) (auto simp: event_db_def nodes_db_def event_nodes_def sample_node_def)

lemma event_handlers_value: "event_handlers event_env event_db ''a.js'' = [(''e'', 2, ''a.js:2'')]"
proof -
  obtain m where m: "find_all on_event_re [] event_source = [m]" "match_begin m = 13" "group_text m 1 = ''e''" "handler_name m = ''h''"
    using handlers_found by auto
  have "pick_callable_by_proximity [sample_node 2 kind_function ''h'' ''b.js'' 4] [] ''a.js''
      = Some (sample_node 2 kind_function ''h'' ''b.js'' 4)"
    by (simp add: pick_callable_by_proximity_def pick_by_proximity_def sample_node_def)
  then show ?thesis
    unfolding event_handlers_def event_text Let_def using event_calls m event_lines handler_node
    by (simp add: sample_node_def itoa_def digits.simps [of 2] char_of_def bit_Suc_0_iff)
qed

theorem event_edges_exact_witness:
  "(\<lambda>e. (s_source e, s_target e)) ` set (event_emitter_edges event_env event_db) = {(1, 2)}"
proof -
  have files: "list_files event_db = [''a.js'']" by (simp add: event_db_def nodes_db_eval)
  have e: "emitters event_env event_db event = (if event = ''e'' then {1} else {})"
    "handlers_of event_env event_db event = (if event = ''e'' then {2} else {})" for event
    unfolding emitters_def handlers_of_def files by (auto simp: event_emits_value event_handlers_value)
  have "\<forall>ks. set (sy_order event_env ks) = set ks" "\<forall>ks. set (sy_ids event_env ks) = set ks"
    by (simp_all add: event_env_def reading_def)
  from event_edges_exact [OF this, of event_db, THEN conjunct1] show ?thesis
    unfolding e by (auto simp: event_fanout_cap_def split: if_splits)
qed

text \<open>A channel: \<^verbatim>\<open>onX\<close> stores callbacks in \<^verbatim>\<open>this.cbs\<close>, \<^verbatim>\<open>emit\<close> calls them, and \<^verbatim>\<open>main\<close> registers \<^verbatim>\<open>h\<close>.\<close>

definition channel_lines :: "string list" where
  "channel_lines = [''onX(f){this.cbs.push(f)}'', ''emit(){for(f of this.cbs)f()}'', ''onX(h)'']"

definition channel_nodes :: "node list" where
  "channel_nodes = [sample_node 1 kind_method ''onX'' ''a.js'' 1, sample_node 2 kind_method ''emit'' ''a.js'' 2,
     sample_node 3 kind_function ''main'' ''a.js'' 3, sample_node 4 kind_function ''h'' ''b.js'' 4]"

definition channel_db :: gdb where
  "channel_db = nodes_db channel_nodes [(sample_edge 3 1)\<lparr>e_line := 3\<rparr>] [''a.js'']"

definition channel_env :: synth_env where
  "channel_env = reading [(''/w/a.js'', join_with [newline] channel_lines)]"

lemma channel_db_ok: "db_ok channel_db"
  by (simp add: channel_db_def nodes_db_def channel_nodes_def db_ok_def ok_defs sample_node_def node_key_def
      sample_edge_def edge_key_def)

lemma channel_text: "source_of channel_env ''a.js'' = join_with [newline] channel_lines"
  by (simp add: source_of_def file_text_def channel_env_def reading_def path_eval str_eval)

lemma channel_patterns:
  "match_string registrar_name_re ''onX''" "\<not> match_string registrar_name_re ''emit''"
  "\<not> match_string registrar_name_re ''main''" "\<not> match_string registrar_name_re ''h''"
  "match_string dispatcher_name_re ''emit''" "\<not> match_string dispatcher_name_re ''onX''"
  "\<not> match_string dispatcher_name_re ''main''" "\<not> match_string dispatcher_name_re ''h''"
  "registrar_field ''onX(f){this.cbs.push(f)}'' = ''cbs''"
  "dispatcher_field ''emit(){for(f of this.cbs)f()}'' = ''cbs''"
  "map_option (\<lambda>m. m 1) (find_submatch (get_arg_re ''onX'') ''onX(h)'') = Some ''h''"
  by code_simp+

lemma channel_split: "split_on newline (join_with [newline] channel_lines) = channel_lines"
  by (simp add: channel_lines_def)

lemma channel_sources:
  "channel_source channel_env (sample_node 1 kind_method ''onX'' ''a.js'' 1) = ''onX(f){this.cbs.push(f)}''"
  "channel_source channel_env (sample_node 2 kind_method ''emit'' ''a.js'' 2) = ''emit(){for(f of this.cbs)f()}''"
  unfolding channel_source_def sample_node_def node.select_convs channel_text slice_lines_def channel_split Let_def
  by (simp_all add: channel_lines_def)

lemma channel_run:
  "field_channel_edges channel_env channel_db =
     [channel_edge (sample_node 1 kind_method ''onX'' ''a.js'' 1, ''cbs'') (sample_node 3 kind_function ''main'' ''a.js'' 3)
        ((sample_edge 3 1)\<lparr>e_line := 3\<rparr>) (sample_node 4 kind_function ''h'' ''b.js'' 4)
        (sample_node 2 kind_method ''emit'' ''a.js'' 2)]"
proof -
  let ?reg = "sample_node 1 kind_method ''onX'' ''a.js'' 1" and ?disp = "sample_node 2 kind_method ''emit'' ''a.js'' 2"
  let ?main = "sample_node 3 kind_function ''main'' ''a.js'' 3" and ?h = "sample_node 4 kind_function ''h'' ''b.js'' 4"
  let ?call = "(sample_edge 3 1)\<lparr>e_line := 3\<rparr>"
  have names: "n_name ?reg = ''onX''" "n_name ?disp = ''emit''" "n_name ?main = ''main''" "n_name ?h = ''h''"
    "n_file ?reg = ''a.js''" "n_file ?disp = ''a.js''" "n_file ?main = ''a.js''" "n_id ?reg = 1" "n_id ?disp = 2" "n_id ?h = 4"
    by (simp_all add: sample_node_def)
  have cands: "channel_candidates channel_db = [?reg, ?disp, ?main, ?h]"
    by (simp add: channel_candidates_def channel_db_def channel_nodes_def nodes_db_eval)
  have regs: "registrars channel_env channel_db = [(?reg, ''cbs'')]"
    unfolding registrars_def channel_ends_def cands
    by (simp add: names channel_patterns channel_sources)
  have disps: "dispatchers channel_env channel_db = [(?disp, ''cbs'')]"
    unfolding dispatchers_def channel_ends_def cands
    by (simp add: names channel_patterns channel_sources)
  have calls: "get_incoming_edges 1 [edge_calls] channel_db = [?call]"
    by (simp add: get_incoming_edges_def list_edges_def channel_db_def nodes_db_def sample_edge_def)
  have h: "for_each_node_by_name ''h'' channel_db = [?h]"
    by (rule for_each_node_single [OF channel_db_ok]) (auto simp: channel_db_def nodes_db_def channel_nodes_def sample_node_def)
  have main: "get_node_by_id 3 channel_db = Some ?main"
    by (simp add: get_node_by_id_def channel_db_def nodes_db_def channel_nodes_def sample_node_def)
  obtain m where m: "find_submatch (get_arg_re ''onX'') ''onX(h)'' = Some m" "m 1 = ''h''"
    using channel_patterns(11) by auto
  have "pick_callable_by_proximity [?h] (n_file ?main) (n_file ?reg) = Some ?h"
    by (simp add: pick_callable_by_proximity_def pick_by_proximity_def sample_node_def)
  then have target: "resolve_callback_target channel_db (m 1) ?main ?reg = Some ?h"
    unfolding resolve_callback_target_def m(2) h .
  have "e_line ?call = 3" "e_source ?call = 3" by (simp_all add: sample_edge_def)
  then have "registration channel_env channel_db ?reg ?call = Some (?main, ?h)"
    unfolding registration_def names using target
    by (simp add: main names channel_text channel_split m(1)) (simp add: channel_lines_def m(1))
  then show ?thesis
    unfolding field_channel_edges_def regs disps
    by (simp add: channel_dispatchers_def names calls max_callbacks_per_channel_def)
qed

theorem channel_edges_sound_witness:
  "\<exists>reg disp fn. {reg, disp, fn} \<subseteq> set channel_nodes \<and> n_file disp = n_file reg \<and> n_id disp = 2 \<and> n_id fn = 4"
proof -
  let ?x = "channel_edge (sample_node 1 kind_method ''onX'' ''a.js'' 1, ''cbs'') (sample_node 3 kind_function ''main'' ''a.js'' 3)
        ((sample_edge 3 1)\<lparr>e_line := 3\<rparr>) (sample_node 4 kind_function ''h'' ''b.js'' 4)
        (sample_node 2 kind_method ''emit'' ''a.js'' 2)"
  have "?x \<in> set (field_channel_edges channel_env channel_db)" unfolding channel_run by simp
  from channel_edges_sound [OF this] show ?thesis
    by (auto simp: channel_db_def nodes_db_def channel_edge_def sample_node_def simp del: ex_simps)
qed

end
