(* ===== verification/Synth_Render.thy ===== *)
theory Synth_Render
  imports Synth_Context
begin

text \<open>
  React and bridges (\<^verbatim>\<open>internal/resolution/synthesize.go\<close>): \<^verbatim>\<open>reactRenderEdges\<close> links the methods of a class that
  set its state with its \<^verbatim>\<open>render\<close>, \<^verbatim>\<open>reactJSXChildEdges\<close> a component with the components in its markup, and
  \<^verbatim>\<open>bridgeSymbolEdges\<close> a bridge reference that resolution has missed with its only target.
\<close>

section \<open>Setting the state\<close>

definition render_cap :: nat where
  "render_cap = 40"

text \<open>\<^verbatim>\<open>this\.setState\s*\(\<close>\<close>

definition set_state_re :: re where
  "set_state_re = seq [lit ''this.setState'', any_of re_space, lit ''('']"

definition class_methods :: "gdb \<Rightarrow> node \<Rightarrow> node list" where
  "class_methods db cls =
     (let contained = [n. e \<leftarrow> get_outgoing_edges (n_id cls) [edge_contains] db,
                          Some n \<leftarrow> [get_node_by_id (e_target e) db], n_kind n = kind_method]
      in if contained \<noteq> [] then contained
         else filter (\<lambda>n. n_kind n = kind_method \<and> n_line cls \<le> n_line n \<and> n_line n \<le> end_of cls)
                (nodes_in_file (n_file cls) db))"

definition method_source :: "synth_env \<Rightarrow> node \<Rightarrow> string" where
  "method_source env m =
     (if n_body m = [] then slice_lines (source_of env (n_file m)) (n_line m) (n_end_line m) else n_body m)"

definition render_edge :: "node \<Rightarrow> node \<Rightarrow> synth_edge" where
  "render_edge m r =
     \<lparr>s_source = n_id m, s_target = n_id r, s_kind = edge_calls, s_file = n_file m, s_line = n_line m,
      s_meta = [(''synthesizedBy'', ''react-render''), (''via'', ''setState''),
                (''registeredAt'', concat [n_file r, '':'', itoa (n_line r)])]\<rparr>"

definition render_candidates :: "synth_env \<Rightarrow> gdb \<Rightarrow> node \<Rightarrow> synth_edge list" where
  "render_candidates env db cls =
     (let children = class_methods db cls in
      case find (\<lambda>n. n_name n = ''render'') children of
        None \<Rightarrow> []
      | Some r \<Rightarrow>
          [render_edge m r. m \<leftarrow> children, n_id m \<noteq> n_id r, match_string set_state_re (method_source env m)])"

definition react_render_edges :: "synth_env \<Rightarrow> gdb \<Rightarrow> synth_edge list" where
  "react_render_edges env db =
     take_groups render_cap {} (map (render_candidates env db) (get_nodes_by_kind kind_class db))"

section \<open>Markup\<close>

definition max_jsx_children :: nat where
  "max_jsx_children = 30"

definition tag_start :: "char \<Rightarrow> bool" where
  "tag_start c \<longleftrightarrow> 65 \<le> byte_of c \<and> byte_of c \<le> 90"

text \<open>\<^verbatim>\<open><([A-Z][A-Za-z0-9_]*)[\s/>]\<close>\<close>

definition jsx_tag_re :: re where
  "jsx_tag_re = seq [lit ''<'', Group 1 (Then (Byte tag_start) (any_of is_word)),
     Byte (\<lambda>c. re_space c \<or> c = slash \<or> c = CHR ''>'')]"

definition has_markup :: "string \<Rightarrow> bool" where
  "has_markup s \<longleftrightarrow> contains_str s ''</'' \<or> contains_str s ''/>''"

definition parent_source :: "string \<Rightarrow> node \<Rightarrow> string" where
  "parent_source content n =
     (let src = slice_lines content (n_line n) (n_end_line n) in if src = [] then n_body n else src)"

definition child_edge :: "node \<Rightarrow> string \<Rightarrow> node \<Rightarrow> synth_edge" where
  "child_edge parent name child =
     \<lparr>s_source = n_id parent, s_target = n_id child, s_kind = edge_calls, s_file = n_file parent, s_line = n_line parent,
      s_meta = [(''synthesizedBy'', ''jsx-render''), (''via'', name)]\<rparr>"

text \<open>The names of the tags in a parent, in the order of a map.\<close>

definition tag_names :: "synth_env \<Rightarrow> string \<Rightarrow> string list" where
  "tag_names env src = sy_order env (remdups (map (\<lambda>m. group_text m 1) (find_all jsx_tag_re [] src)))"

definition child_candidates :: "synth_env \<Rightarrow> gdb \<Rightarrow> string \<Rightarrow> node \<Rightarrow> synth_edge list" where
  "child_candidates env db file parent =
     (let src = parent_source (source_of env file) parent in
      if is_callable_kind (n_kind parent) \<and> has_markup src
      then [child_edge parent name child. name \<leftarrow> tag_names env src,
              Some child \<leftarrow> [pick_jsx_child_by_proximity (for_each_node_by_name name db) file], n_id child \<noteq> n_id parent]
      else [])"

definition react_jsx_child_edges :: "synth_env \<Rightarrow> gdb \<Rightarrow> synth_edge list" where
  "react_jsx_child_edges env db =
     take_groups max_jsx_children {}
       [child_candidates env db file parent. file \<leftarrow> list_files db, has_markup (source_of env file),
          parent \<leftarrow> nodes_in_file file db]"

section \<open>Bridges\<close>

definition bridge_refs :: "gdb \<Rightarrow> uref list" where
  "bridge_refs db =
     filter (\<lambda>r. u_kind r = edge_bridge \<and> u_from r \<noteq> 0 \<and> u_name r \<noteq> [])
       (list_unresolved_refs [] st_failed db @ list_unresolved_refs [] st_pending db)"

definition bridge_target :: "gdb \<Rightarrow> uref \<Rightarrow> node option" where
  "bridge_target db r =
     (let cands = collect_candidates db (u_name r);
          callables = filter (\<lambda>c. n_id c \<noteq> u_from r \<and> is_callable_kind (n_kind c)) cands;
          chosen = (if callables = [] \<and> length cands = 1 \<and> n_id (hd cands) \<noteq> u_from r then cands else callables)
      in if length chosen = 1 then Some (hd chosen) else None)"

definition bridge_edge :: "uref \<Rightarrow> node \<Rightarrow> synth_edge" where
  "bridge_edge r tgt =
     \<lparr>s_source = u_from r, s_target = n_id tgt, s_kind = edge_bridge, s_file = u_file r, s_line = u_line r,
      s_meta = [(''synthesizedBy'', ''bridge''), (''via'', u_name r)]\<rparr>"

definition bridge_symbol_edges :: "gdb \<Rightarrow> synth_edge list" where
  "bridge_symbol_edges db =
     dedup_by synth_key {} [bridge_edge r tgt. r \<leftarrow> bridge_refs db, Some tgt \<leftarrow> [bridge_target db r]]"

section \<open>What they link\<close>

lemma class_methods_in: "n \<in> set (class_methods db cls) \<Longrightarrow> n \<in> set (g_nodes db) \<and> n_kind n = kind_method"
  by (auto simp: class_methods_def Let_def dest!: sym [of "Some _"] get_node_by_id_in nodes_in_file_in split: if_splits option.splits)

lemma render_candidates_in:
  "e \<in> set (render_candidates env db cls) \<Longrightarrow> \<exists>m r. {m, r} \<subseteq> set (class_methods db cls) \<and> n_name r = ''render''
     \<and> n_id m \<noteq> n_id r \<and> match_string set_state_re (method_source env m) \<and> e = render_edge m r"
  by (auto simp: render_candidates_def Let_def dest!: sym [of "Some _"] find_SomeD split: option.splits if_splits)

lemma react_render_edges_ends: "ends_exist db (set (react_render_edges env db))"
  unfolding react_render_edges_def
proof (intro take_groups_within ballI)
  fix g
  assume "g \<in> set (map (render_candidates env db) (get_nodes_by_kind kind_class db))"
  then show "ends_exist db (set g)"
    by (auto simp: ends_exist_def render_edge_def dest!: render_candidates_in class_methods_in intro: node_idsI)
qed

lemma pick_jsx_in: "pick_jsx_child_by_proximity nodes f = Some n \<Longrightarrow> n \<in> set nodes
    \<and> (n_kind n = ''component'' \<or> n_kind n = kind_function \<or> n_kind n = kind_class)"
  using pick_by_proximity_nearest [of nodes f "[]" _ n] unfolding pick_jsx_child_by_proximity_def by blast

lemma child_candidates_in:
  "e \<in> set (child_candidates env db file parent) \<Longrightarrow>
     \<exists>name child. child \<in> set (g_nodes db) \<and> n_name child = name \<and> n_id child \<noteq> n_id parent
       \<and> e = child_edge parent name child"
  by (auto simp: child_candidates_def Let_def dest!: sym [of "Some _"] pick_jsx_in for_each_node_in split: if_splits option.splits)

lemma react_jsx_child_edges_ends: "ends_exist db (set (react_jsx_child_edges env db))"
  unfolding react_jsx_child_edges_def
proof (intro take_groups_within ballI)
  fix g
  assume "g \<in> set [child_candidates env db file parent. file \<leftarrow> list_files db, has_markup (source_of env file),
          parent \<leftarrow> nodes_in_file file db]"
  then obtain f parent where g: "g = child_candidates env db f parent" "parent \<in> set (nodes_in_file f db)"
    by (auto split: if_splits)
  then have "n_id parent \<in> node_ids db" by (auto dest: nodes_in_file_in intro: node_idsI)
  then show "ends_exist db (set g)"
    unfolding g(1) by (auto simp: ends_exist_def child_edge_def dest!: child_candidates_in intro: node_idsI)
qed

lemma bridge_target_in: "bridge_target db r = Some n \<Longrightarrow> n \<in> set (g_nodes db) \<and> n_id n \<noteq> u_from r"
proof -
  assume b: "bridge_target db r = Some n"
  let ?cands = "collect_candidates db (u_name r)"
  let ?cs = "filter (\<lambda>c. n_id c \<noteq> u_from r \<and> is_callable_kind (n_kind c)) ?cands"
  consider "?cs = [n]" | "?cands = [n]" "n_id n \<noteq> u_from r"
    using b by (auto simp: bridge_target_def Let_def length_Suc_conv split: if_splits)
  then have "n \<in> set ?cands \<and> n_id n \<noteq> u_from r"
  proof cases
    case 1
    have "n \<in> set ?cs" unfolding 1 by simp
    then show ?thesis by simp
  qed simp
  then show ?thesis using collect_candidates_in by blast
qed

lemma Collect_mem_subset: "{x \<in> A. P x} \<subseteq> A"
  by blast

lemma bridge_symbol_edges_ends:
  assumes "db_ok db"
  shows "ends_exist db (set (bridge_symbol_edges db))"
proof -
  have "ends_exist db (set [bridge_edge r tgt. r \<leftarrow> bridge_refs db, Some tgt \<leftarrow> [bridge_target db r]])"
    using assms by (auto simp: ends_exist_def bridge_edge_def bridge_refs_def list_unresolved_refs_def db_ok_def refs_ok_def
        dest!: sym [of "Some _"] bridge_target_in intro: node_idsI split: option.splits)
  then show ?thesis
    unfolding bridge_symbol_edges_def by (rule ends_exist_subset) (rule subset_trans [OF set_dedup_by], rule Collect_mem_subset)
qed

end
