(* ===== verification/Synth_Native.thy ===== *)
theory Synth_Native
  imports Synth_Context
begin

text \<open>
  Function pointers of C (\<^verbatim>\<open>internal/resolution/synth_fnptr.go\<close>) and routes of GoFrame
  (\<^verbatim>\<open>synth_goframe.go\<close>): a call through a field is linked with the functions assigned to a field of that name,
  a route with the controller method that takes its request type.
\<close>

section \<open>Blanking the comments of C\<close>

text \<open>The rest of a literal: what is copied up to its closing quote, and what follows.\<close>

fun skip_literal :: "char \<Rightarrow> string \<Rightarrow> string \<times> string" where
  "skip_literal q [] = ([], [])"
| "skip_literal q (c # s) =
     (if c = backslash \<and> s \<noteq> [] then (let (t, r) = skip_literal q (tl s) in (c # hd s # t, r))
      else if c = q then ([c], s)
      else (let (t, r) = skip_literal q s in (c # t, r)))"

lemma skip_literal_length: "length (fst (skip_literal q s)) + length (snd (skip_literal q s)) = length s"
proof (induction q s rule: skip_literal.induct)
  case (2 q c s)
  then show ?case by (cases s) (auto simp: split_beta Let_def)
qed simp

text \<open>
  The rest of a block comment: the blanks, and what follows.  Without an end the last byte is left over.
\<close>

fun blank_block :: "string \<Rightarrow> string \<times> string" where
  "blank_block (c # d # s) =
     (if c = CHR ''*'' \<and> d = slash then (''  '', s)
      else (let (t, r) = blank_block (d # s) in ((if c = newline then newline else CHR '' '') # t, r)))"
| "blank_block s = ([], s)"

lemma blank_block_length: "length (fst (blank_block s)) + length (snd (blank_block s)) = length s"
  by (induction s rule: blank_block.induct) (auto simp: split_beta Let_def)

function strip_c_comments :: "string \<Rightarrow> string" where
  "strip_c_comments [] = []"
| "strip_c_comments (c # s) =
     (if c = CHR 0x22 \<or> c = CHR 0x27 then
        (let (t, r) = skip_literal c s in c # t @ strip_c_comments r)
      else if c = slash \<and> s \<noteq> [] \<and> hd s = slash then
        CHR '' '' # CHR '' '' # map (\<lambda>_. CHR '' '') (takeWhile (\<lambda>x. x \<noteq> newline) (tl s))
          @ strip_c_comments (dropWhile (\<lambda>x. x \<noteq> newline) (tl s))
      else if c = slash \<and> s \<noteq> [] \<and> hd s = CHR ''*'' then
        (let (t, r) = blank_block (tl s) in CHR '' '' # CHR '' '' # t @ strip_c_comments r)
      else c # strip_c_comments s)"
  by pat_completeness auto
termination
proof (relation "measure length", goal_cases)
  case (2 c s x t r)
  then show ?case using skip_literal_length [of c s] by (cases "skip_literal c s") auto
next
  case (3 c s)
  then show ?case using length_dropWhile_le [of "\<lambda>x. x \<noteq> newline" "tl s"] by (cases s) auto
next
  case (4 c s x t r)
  then show ?case using blank_block_length [of "tl s"] by (cases s; cases "blank_block (tl s)") auto
qed auto

lemma skip_literal_concat: "fst (skip_literal q s) @ snd (skip_literal q s) = s"
proof (induction q s rule: skip_literal.induct)
  case (2 q c s)
  then show ?case by (cases s) (auto simp: split_beta Let_def)
qed simp

text \<open>Positions with the same lines: equally long, with the line breaks in the same places.\<close>

definition same_layout :: "string \<Rightarrow> string \<Rightarrow> bool" where
  "same_layout a b \<longleftrightarrow> list_all2 (\<lambda>x y. x = newline \<longleftrightarrow> y = newline) a b"

lemma same_layout_refl [simp]: "same_layout a a"
  by (simp add: same_layout_def list_all2_refl)

lemma same_layout_Cons [simp]: "same_layout (x # a) (y # b) \<longleftrightarrow> (x = newline \<longleftrightarrow> y = newline) \<and> same_layout a b"
  by (simp add: same_layout_def)

lemma same_layout_append: "same_layout a b \<Longrightarrow> same_layout c d \<Longrightarrow> same_layout (a @ c) (b @ d)"
  by (simp add: same_layout_def list_all2_appendI)

lemma blank_block_layout: "\<exists>t. s = t @ snd (blank_block s) \<and> same_layout t (fst (blank_block s))"
proof (induction s rule: blank_block.induct)
  case (1 c d s)
  show ?case
  proof (cases "c = CHR ''*'' \<and> d = slash")
    case True
    then show ?thesis by (intro exI [of _ "[c, d]"]) simp
  next
    case False
    obtain t where "d # s = t @ snd (blank_block (d # s))" "same_layout t (fst (blank_block (d # s)))"
      using 1 [OF False] by blast
    moreover have "snd (blank_block (c # d # s)) = snd (blank_block (d # s))"
      "fst (blank_block (c # d # s)) = (if c = newline then newline else CHR '' '') # fst (blank_block (d # s))"
      using False by (auto simp: split_beta Let_def)
    ultimately show ?thesis by (intro exI [of _ "c # t"]) (simp del: blank_block.simps)
  qed
qed simp_all

lemma blank_line_layout: "newline \<notin> set t \<Longrightarrow> same_layout t (map (\<lambda>_. CHR '' '') t)"
  by (induction t) auto

lemma strip_layout: "same_layout s (strip_c_comments s)"
proof (induction s rule: strip_c_comments.induct)
  case (2 c s)
  consider (lit) "c = CHR 0x22 \<or> c = CHR 0x27"
    | (line) "\<not> (c = CHR 0x22 \<or> c = CHR 0x27)" "c = slash \<and> s \<noteq> [] \<and> hd s = slash"
    | (block) "\<not> (c = CHR 0x22 \<or> c = CHR 0x27)" "\<not> (c = slash \<and> s \<noteq> [] \<and> hd s = slash)"
        "c = slash \<and> s \<noteq> [] \<and> hd s = CHR ''*''"
    | (other) "\<not> (c = CHR 0x22 \<or> c = CHR 0x27)" "\<not> (c = slash \<and> s \<noteq> [] \<and> hd s = slash)"
        "\<not> (c = slash \<and> s \<noteq> [] \<and> hd s = CHR ''*'')" by blast
  then show ?case
  proof cases
    case lit
    have "same_layout (fst (skip_literal c s) @ snd (skip_literal c s))
        (fst (skip_literal c s) @ strip_c_comments (snd (skip_literal c s)))"
      using 2(1) [OF lit refl prod.collapse] by (intro same_layout_append) auto
    then show ?thesis using lit by (simp add: split_beta Let_def skip_literal_concat)
  next
    case line
    obtain r where s: "s = slash # r" using line(2) by (cases s) auto
    have "same_layout (takeWhile (\<lambda>x. x \<noteq> newline) r @ dropWhile (\<lambda>x. x \<noteq> newline) r)
        (map (\<lambda>_. CHR '' '') (takeWhile (\<lambda>x. x \<noteq> newline) r) @ strip_c_comments (dropWhile (\<lambda>x. x \<noteq> newline) r))"
      using 2(2) [OF line] s by (intro same_layout_append blank_line_layout) (auto dest: set_takeWhileD)
    then show ?thesis using line s by simp
  next
    case block
    obtain r where s: "s = CHR ''*'' # r" using block(3) by (cases s) auto
    obtain t where t: "r = t @ snd (blank_block r)" "same_layout t (fst (blank_block r))"
      using blank_block_layout by blast
    have "same_layout (snd (blank_block r)) (strip_c_comments (snd (blank_block r)))"
      using 2(3) [OF block refl prod.collapse] s by simp
    then have "same_layout (t @ snd (blank_block r)) (fst (blank_block r) @ strip_c_comments (snd (blank_block r)))"
      by (rule same_layout_append [OF t(2)])
    then show ?thesis using block s t(1) [symmetric] by (simp add: split_beta Let_def)
  next
    case other
    then show ?thesis using 2(4) [OF other] by auto
  qed
qed simp

lemma same_layout_line:
  assumes "same_layout a b"
  shows "line_at a i = line_at b i"
proof -
  have "list_all2 (\<lambda>x y. x = newline \<longleftrightarrow> y = newline) (take i a) (take i b)"
    using assms by (simp add: same_layout_def list_all2_takeI)
  then have "length (filter (\<lambda>c. c = newline) (take i a)) = length (filter (\<lambda>c. c = newline) (take i b))"
    by (induction rule: list_all2_induct) auto
  then show ?thesis by (simp add: line_at_def)
qed

text \<open>
  Blanking the comments moves nothing: the text keeps its length and its
  line breaks, so a place found in the blanked text is on the same line of the file.
\<close>

theorem strip_c_comments_layout:
  "length (strip_c_comments s) = length s \<and> (\<forall>i. line_at (strip_c_comments s) i = line_at s i)"
  using strip_layout [of s] same_layout_line [OF strip_layout [of s]] by (simp add: same_layout_def list_all2_lengthD)

section \<open>Function pointers\<close>

definition fnptr_fanout_cap :: nat where
  "fnptr_fanout_cap = 40"

definition word_name :: re where
  "word_name = Then (Byte ident_start) (any_of is_word)"

definition arrow_or_dot :: re where
  "arrow_or_dot = Either (lit ''->'') (lit ''.'')"

text \<open>\<^verbatim>\<open>(?:->|\.)\s*([A-Za-z_]\w*)\s*=\s*&?\s*([A-Za-z_]\w*)\b\<close>\<close>

definition fnptr_assign_re :: re where
  "fnptr_assign_re = seq [arrow_or_dot, any_of re_space, Group 1 word_name, any_of re_space, lit ''='',
     any_of re_space, Maybe (lit ''&''), any_of re_space, Group 2 word_name, Word_edge]"

text \<open>\<^verbatim>\<open>(?:(?:\w+\s*(?:\[[^\]]*\])?\s*(?:->|\.)\s*)+)([A-Za-z_]\w*)\s*\)?\s*\(\<close>\<close>

definition receiver_re :: re where
  "receiver_re = seq [some_of is_word, any_of re_space,
     Maybe (seq [lit ''['', any_of (\<lambda>c. c \<noteq> CHR '']''), lit '']'']), any_of re_space, arrow_or_dot, any_of re_space]"

definition fnptr_dispatch_re :: re where
  "fnptr_dispatch_re = seq [receiver_re, Many receiver_re, Group 1 word_name, any_of re_space,
     Maybe (lit '')''), any_of re_space, lit ''('']"

definition lang_of_path :: "string \<Rightarrow> string" where
  "lang_of_path path =
     (let ext = ascii_fold (filepath_ext path) in
      if ext \<in> {''.c'', ''.h''} then ''c''
      else if ext \<in> {''.cc'', ''.cpp'', ''.cxx'', ''.hpp'', ''.hh'', ''.hxx''} then ''cpp''
      else [])"

text \<open>The last callable of a name in a file, the first anywhere.\<close>

definition callable_by_name :: "node list \<Rightarrow> string \<Rightarrow> node option" where
  "callable_by_name nodes name = find (\<lambda>n. n_name n = name) (rev (filter (\<lambda>n. is_callable_kind (n_kind n)) nodes))"

definition first_callable :: "node list \<Rightarrow> node option" where
  "first_callable nodes = find (\<lambda>n. is_callable_kind (n_kind n)) nodes"

definition c_files :: "synth_env \<Rightarrow> gdb \<Rightarrow> string list" where
  "c_files env db = filter (\<lambda>f. lang_of_path f \<noteq> [] \<and> source_of env f \<noteq> []) (list_files db)"

definition handler_of :: "gdb \<Rightarrow> string \<Rightarrow> string \<Rightarrow> node option" where
  "handler_of db file name =
     (case callable_by_name (nodes_in_file file db) name of
        None \<Rightarrow> first_callable (for_each_node_by_name name db)
      | Some n \<Rightarrow> Some n)"

text \<open>The assignments to fields, in order; the line of the assignment is recorded but not used.\<close>

definition fnptr_regs :: "synth_env \<Rightarrow> gdb \<Rightarrow> string \<Rightarrow> (string \<times> node) list" where
  "fnptr_regs env db file =
     [(group_text m 1, h). m \<leftarrow> find_all fnptr_assign_re [] (strip_c_comments (source_of env file)),
        group_text m 1 \<noteq> [] \<and> group_text m 2 \<noteq> [] \<and> group_text m 1 \<noteq> group_text m 2,
        Some h \<leftarrow> [handler_of db file (group_text m 2)]]"

definition handlers_for :: "(string \<times> node) list \<Rightarrow> string \<Rightarrow> node list" where
  "handlers_for regs field = dedup_by n_id {} (map snd (filter (\<lambda>r. fst r = field) regs))"

definition fnptr_edge :: "node \<Rightarrow> string \<Rightarrow> int \<Rightarrow> string \<Rightarrow> node \<Rightarrow> synth_edge" where
  "fnptr_edge enc file line field h =
     \<lparr>s_source = n_id enc, s_target = n_id h, s_kind = edge_calls, s_file = file, s_line = line,
      s_meta = [(''synthesizedBy'', ''fn-pointer-dispatch''), (''via'', field), (''handler'', n_name h)]\<rparr>"

text \<open>The candidates of every dispatch: one group per call through a field inside a function.\<close>

definition fnptr_groups :: "synth_env \<Rightarrow> gdb \<Rightarrow> (string \<times> node) list \<Rightarrow> string \<Rightarrow> synth_edge list list" where
  "fnptr_groups env db regs file =
     (let safe = strip_c_comments (source_of env file) in
      [map (fnptr_edge enc file (line_at safe (match_begin m)) (group_text m 1))
           (filter (\<lambda>h. n_id h \<noteq> n_id enc) (handlers_for regs (group_text m 1))).
         m \<leftarrow> find_all fnptr_dispatch_re [] safe, handlers_for regs (group_text m 1) \<noteq> [],
         contains_str (match_text m) ''->'' \<or> contains_str (match_text m) ''.'',
         Some enc \<leftarrow> [enclosing_fn (nodes_in_file file db) (line_at safe (match_begin m))]])"

text \<open>A group adds at most 40 edges and all of them 800.\<close>

fun fnptr_take :: "nat \<Rightarrow> string set \<Rightarrow> synth_edge list list \<Rightarrow> synth_edge list" where
  "fnptr_take added seen [] = []"
| "fnptr_take added seen (g # gs) =
     (if fnptr_fanout_cap * 20 \<le> added then []
      else (let (seen', new) = take_new (min fnptr_fanout_cap (fnptr_fanout_cap * 20 - added)) seen g
            in new @ fnptr_take (added + length new) seen' gs))"

definition c_fn_pointer_dispatch_edges :: "synth_env \<Rightarrow> gdb \<Rightarrow> synth_edge list" where
  "c_fn_pointer_dispatch_edges env db =
     (let regs = concat (map (fnptr_regs env db) (c_files env db)) in
      if regs = [] then []
      else fnptr_take 0 {} (concat (map (fnptr_groups env db regs) (c_files env db))))"

section \<open>Routes\<close>

definition goframe_route_marker :: string where
  "goframe_route_marker = ''::goframe-route:''"

definition goframe_fanout_cap :: nat where
  "goframe_fanout_cap = 2000"

text \<open>\<^verbatim>\<open>\*\s*(?:(\w+)\.)?([A-Z]\w*)\b\<close>\<close>

definition go_pointer_type_re :: re where
  "go_pointer_type_re = seq [lit ''*'', any_of re_space, Maybe (Then (Group 1 (some_of is_word)) (lit ''.'')),
     Group 2 (Then (Byte (\<lambda>c. 65 \<le> byte_of c \<and> byte_of c \<le> 90)) (any_of is_word)), Word_edge]"

definition pointer_param_types :: "string \<Rightarrow> string list" where
  "pointer_param_types sig =
     concat (map (\<lambda>m. (if group_text m 1 \<noteq> [] then [group_text m 1 @ ''.'' @ group_text m 2] else []) @ [group_text m 2])
       (find_all go_pointer_type_re [] sig))"

text \<open>What follows the first place of a text in another.\<close>

fun after_text :: "string \<Rightarrow> string \<Rightarrow> string option" where
  "after_text t [] = (if t = [] then Some [] else None)"
| "after_text t (c # s) = (if has_prefix (c # s) t then Some (drop (length t) (c # s)) else after_text t s)"

definition join_key :: "node \<Rightarrow> string" where
  "join_key r = (case after_text goframe_route_marker (n_qname r) of None \<Rightarrow> [] | Some k \<Rightarrow> k)"

definition bare_type :: "string \<Rightarrow> string" where
  "bare_type key = (case last_index_any {dot} key of None \<Rightarrow> key | Some i \<Rightarrow> drop (Suc i) key)"

definition go_node :: "node \<Rightarrow> bool" where
  "go_node n \<longleftrightarrow> n_language n = [] \<or> n_language n = ''go''"

definition goframe_routes :: "gdb \<Rightarrow> node list" where
  "goframe_routes db = filter (\<lambda>r. go_node r \<and> join_key r \<noteq> []) (get_nodes_by_kind ''route'' db)"

definition wanted_types :: "node list \<Rightarrow> string set" where
  "wanted_types routes = set (map join_key routes) \<union> set (map (\<lambda>r. bare_type (join_key r)) routes)"

text \<open>\<^verbatim>\<open>handlersByKey\<close>: a method is listed once for every time its signature names the type.\<close>

definition handlers_by_type :: "gdb \<Rightarrow> string set \<Rightarrow> string \<Rightarrow> node list" where
  "handlers_by_type db wanted t =
     (if t \<in> wanted
      then [m. m \<leftarrow> get_nodes_by_kind kind_method db, go_node m, t' \<leftarrow> pointer_param_types (n_signature m), t' = t]
      else [])"

definition addon_root :: "string \<Rightarrow> string" where
  "addon_root p = (case after_text ''/addons/'' p of None \<Rightarrow> [] | Some rest \<Rightarrow> takeWhile (\<lambda>c. c \<noteq> slash) rest)"

definition in_controller :: "node \<Rightarrow> bool" where
  "in_controller n \<longleftrightarrow> contains_str (n_file n) ''/controller/'' \<or> contains_str (n_file n) ''/controllers/''"

definition select_goframe_handler :: "node list \<Rightarrow> string \<Rightarrow> node option" where
  "select_goframe_handler cands route_file =
     (if length cands = 1 then Some (hd cands)
      else (let ctl = filter in_controller cands in
            if length ctl = 1 then Some (hd ctl)
            else (let same = filter (\<lambda>n. addon_root (n_file n) = addon_root route_file)
                               (if ctl = [] then cands else ctl)
                  in if length same = 1 then Some (hd same) else None)))"

definition route_edge :: "string \<Rightarrow> node \<Rightarrow> node \<Rightarrow> synth_edge" where
  "route_edge bare route h =
     \<lparr>s_source = n_id route, s_target = n_id h, s_kind = edge_calls, s_file = n_file route, s_line = n_line route,
      s_meta = [(''synthesizedBy'', ''goframe-route''), (''route'', n_name route), (''requestType'', bare)]\<rparr>"

definition route_handlers :: "gdb \<Rightarrow> string set \<Rightarrow> string \<Rightarrow> node list" where
  "route_handlers db wanted key =
     (if handlers_by_type db wanted key \<noteq> [] then handlers_by_type db wanted key
      else handlers_by_type db wanted (bare_type key))"

definition goframe_route_edges :: "synth_env \<Rightarrow> gdb \<Rightarrow> synth_edge list" where
  "goframe_route_edges env db =
     (let routes = goframe_routes db; wanted = wanted_types routes in
      snd (take_new goframe_fanout_cap {}
        [route_edge (bare_type key) route h.
           key \<leftarrow> sy_order env (remdups (map join_key routes)), route \<leftarrow> filter (\<lambda>r. join_key r = key) routes,
           Some h \<leftarrow> [select_goframe_handler (route_handlers db wanted key) (n_file route)], n_id h \<noteq> n_id route]))"

lemma after_text_Some: "after_text t s = Some r \<longleftrightarrow> (\<exists>u. s = u @ t @ r \<and> (\<forall>v w. s = v @ t @ w \<longrightarrow> length u \<le> length v))"
proof (induction t s rule: after_text.induct)
  case (1 t)
  then show ?case by auto
next
  case (2 t c s)
  show ?case
  proof (cases "has_prefix (c # s) t")
    case True
    then obtain w where w: "c # s = t @ w" by (auto simp: has_prefix_iff prefix_def)
    have "after_text t (c # s) = Some w" using True w by (metis after_text.simps(2) append_eq_conv_conj)
    moreover have "w = r \<longleftrightarrow> (\<exists>u. c # s = u @ t @ r \<and> (\<forall>v w. c # s = v @ t @ w \<longrightarrow> length u \<le> length v))"
    proof
      assume "w = r"
      then show "\<exists>u. c # s = u @ t @ r \<and> (\<forall>v w. c # s = v @ t @ w \<longrightarrow> length u \<le> length v)"
        using w by (intro exI [of _ "[]"]) simp
    next
      assume "\<exists>u. c # s = u @ t @ r \<and> (\<forall>v w. c # s = v @ t @ w \<longrightarrow> length u \<le> length v)"
      then obtain u where u: "c # s = u @ t @ r" "\<forall>v w. c # s = v @ t @ w \<longrightarrow> length u \<le> length v" by blast
      have "length u \<le> length ([] :: string)" using u(2) w by (metis append_Nil)
      then show "w = r" using u(1) w by simp
    qed
    ultimately show ?thesis by simp
  next
    case False
    have no: "c # s \<noteq> t @ w" for w using False by (auto simp: has_prefix_iff)
    have "(\<exists>u. s = u @ t @ r \<and> (\<forall>v w. s = v @ t @ w \<longrightarrow> length u \<le> length v))
        \<longleftrightarrow> (\<exists>u. c # s = u @ t @ r \<and> (\<forall>v w. c # s = v @ t @ w \<longrightarrow> length u \<le> length v))"
      (is "?A \<longleftrightarrow> ?B")
    proof
      assume ?A
      then obtain u where u: "s = u @ t @ r" "\<forall>v w. s = v @ t @ w \<longrightarrow> length u \<le> length v" by blast
      have "length (c # u) \<le> length v" if "c # s = v @ t @ w" for v w
        using that no u(2) by (cases v) auto
      then show ?B using u(1) by (intro exI [of _ "c # u"]) auto
    next
      assume ?B
      then obtain u where u: "c # s = u @ t @ r" "\<forall>v w. c # s = v @ t @ w \<longrightarrow> length u \<le> length v" by blast
      obtain u' where u': "u = c # u'" using u(1) no by (cases u) auto
      have "length u' \<le> length v" if "s = v @ t @ w" for v w
        using u(2) [rule_format, of "c # v" w] that u' by simp
      then show ?A using u(1) u' by (intro exI [of _ u']) auto
    qed
    then show ?thesis using 2 [OF False] False by simp
  qed
qed

text \<open>The choice of a handler is forced: no other candidate ranks with the one chosen.\<close>

definition only :: "('a \<Rightarrow> bool) \<Rightarrow> 'a list \<Rightarrow> 'a \<Rightarrow> bool" where
  "only P xs x \<longleftrightarrow> filter P xs = [x]"

lemma length_one: "length xs = Suc 0 \<longleftrightarrow> (\<exists>x. xs = [x])"
  by (cases xs) auto

lemma select_goframe_handler_forced:
  "select_goframe_handler cands file = Some h \<longleftrightarrow>
     (if length cands = 1 then cands = [h]
      else if length (filter in_controller cands) = 1 then only in_controller cands h
      else if filter in_controller cands = [] then only (\<lambda>n. addon_root (n_file n) = addon_root file) cands h
      else only (\<lambda>n. in_controller n \<and> addon_root (n_file n) = addon_root file) cands h)"
  by (auto simp: select_goframe_handler_def only_def Let_def length_one conj_commute)

lemma goframe_routes_ok: "r \<in> set (goframe_routes db) \<Longrightarrow> r \<in> set (g_nodes db) \<and> n_kind r = ''route'' \<and> go_node r \<and> join_key r \<noteq> []"
  by (auto simp: goframe_routes_def dest: get_nodes_by_kind_in)

lemma handlers_by_type_in:
  "h \<in> set (handlers_by_type db wanted t) \<Longrightarrow>
     h \<in> set (g_nodes db) \<and> n_kind h = kind_method \<and> go_node h \<and> t \<in> set (pointer_param_types (n_signature h))"
  by (auto simp: handlers_by_type_def dest: get_nodes_by_kind_in split: if_splits)

lemma only_in: "only P xs x \<Longrightarrow> x \<in> set xs"
  unfolding only_def using filter_is_subset [of P xs] by auto

lemma select_goframe_handler_in: "select_goframe_handler cands file = Some h \<Longrightarrow> h \<in> set cands"
  unfolding select_goframe_handler_forced by (auto dest: only_in split: if_splits)

lemma sum_by_key: "distinct ks \<Longrightarrow> sum_list (map (\<lambda>k. length (filter (\<lambda>r. f r = k) rs)) ks) \<le> length rs"
proof (induction rs)
  case (Cons r rs)
  have "sum_list (map (\<lambda>k. length (filter (\<lambda>r. f r = k) (r # rs))) ks)
      = sum_list (map (\<lambda>k. if f r = k then 1 else 0) ks) + sum_list (map (\<lambda>k. length (filter (\<lambda>r. f r = k) rs)) ks)"
    unfolding sum_list_addf [symmetric] by (intro arg_cong [of _ _ sum_list] map_cong) auto
  moreover have "sum_list (map (\<lambda>k. if f r = k then 1 else 0 :: nat) ks) \<le> 1"
    using Cons.prems by (induction ks) (auto simp: sum_list_0 sum_list_eq_0_iff)
  ultimately show ?case using Cons by simp
qed simp

text \<open>The candidates: for every key its routes, each with the handler chosen for it.\<close>

definition route_candidates :: "gdb \<Rightarrow> string list \<Rightarrow> synth_edge list" where
  "route_candidates db keys =
     (let routes = goframe_routes db; wanted = wanted_types routes in
      [route_edge (bare_type key) route h.
         key \<leftarrow> keys, route \<leftarrow> filter (\<lambda>r. join_key r = key) routes,
         Some h \<leftarrow> [select_goframe_handler (route_handlers db wanted key) (n_file route)], n_id h \<noteq> n_id route])"

lemma goframe_route_edges_take:
  "goframe_route_edges env db = snd (take_new goframe_fanout_cap {}
     (route_candidates db (sy_order env (remdups (map join_key (goframe_routes db))))))"
  by (simp add: goframe_route_edges_def route_candidates_def Let_def)

lemma route_candidates_in:
  "e \<in> set (route_candidates db keys) \<longleftrightarrow>
     (\<exists>r h. r \<in> set (goframe_routes db) \<and> join_key r \<in> set keys
        \<and> select_goframe_handler (route_handlers db (wanted_types (goframe_routes db)) (join_key r)) (n_file r) = Some h
        \<and> n_id h \<noteq> n_id r \<and> e = route_edge (bare_type (join_key r)) r h)"
  unfolding route_candidates_def Let_def by (auto split: option.splits if_splits) force+

lemma route_candidates_length: "distinct keys \<Longrightarrow> length (route_candidates db keys) \<le> length (goframe_routes db)"
proof -
  assume d: "distinct keys"
  let ?routes = "goframe_routes db"
  have len_one: "sum_list (map f rs) \<le> length rs" if "\<And>r. f r \<le> Suc 0" for f :: "node \<Rightarrow> nat" and rs
    using that by (induction rs) (simp_all add: add_le_mono [of _ "Suc 0", simplified])
  have "length (route_candidates db keys) \<le> sum_list (map (\<lambda>k. length (filter (\<lambda>r. join_key r = k) ?routes)) keys)"
    unfolding route_candidates_def Let_def length_concat map_map comp_def
    by (intro sum_list_mono len_one) (simp split: option.splits)
  then show ?thesis using sum_by_key [OF d, of join_key ?routes] by simp
qed

lemma route_handlers_in:
  "h \<in> set (route_handlers db wanted key) \<Longrightarrow> h \<in> set (g_nodes db) \<and> n_kind h = kind_method
     \<and> (key \<in> set (pointer_param_types (n_signature h)) \<or> bare_type key \<in> set (pointer_param_types (n_signature h)))"
  by (auto simp: route_handlers_def dest: handlers_by_type_in split: if_splits)


section \<open>The nodes they link\<close>

lemma goframe_route_edges_ends: "ends_exist db (set (goframe_route_edges env db))"
proof -
  have "ends_exist db (set (route_candidates db keys))" for keys
    unfolding ends_exist_def
  proof
    fix e
    assume "e \<in> set (route_candidates db keys)"
    then show "s_source e \<in> node_ids db \<and> s_target e \<in> node_ids db"
      unfolding route_candidates_in
      by (auto simp: route_edge_def dest!: goframe_routes_ok select_goframe_handler_in route_handlers_in intro: node_idsI)
  qed
  then show ?thesis
    unfolding goframe_route_edges_take by (rule ends_exist_subset) (use take_new_sound in blast)
qed

lemma handler_of_in: "handler_of db file name = Some n \<Longrightarrow> n \<in> set (g_nodes db)"
  by (auto simp: handler_of_def callable_by_name_def first_callable_def
      dest!: find_SomeD nodes_in_file_in for_each_node_in split: option.splits)

lemma fnptr_take_in: "set (fnptr_take added seen gs) \<subseteq> (\<Union>g\<in>set gs. set g)"
proof (induction gs arbitrary: added seen)
  case (Cons g gs)
  let ?r = "take_new (min fnptr_fanout_cap (fnptr_fanout_cap * 20 - added)) seen g"
  have "set (snd ?r) \<subseteq> set g" using take_new_sound by blast
  then show ?case using Cons.IH by (auto simp: split_beta Let_def subset_iff)
qed simp

lemma fnptr_take_bounds:
  "length (fnptr_take added seen gs) \<le> fnptr_fanout_cap * 20 - added"
proof (induction gs arbitrary: added seen)
  case (Cons g gs)
  let ?r = "take_new (min fnptr_fanout_cap (fnptr_fanout_cap * 20 - added)) seen g"
  have m: "length (snd ?r) \<le> fnptr_fanout_cap * 20 - added" using take_new_sound by (metis min.boundedE)
  show ?case
  proof (cases "fnptr_fanout_cap * 20 \<le> added")
    case False
    then have "length (fnptr_take added seen (g # gs))
        = length (snd ?r) + length (fnptr_take (added + length (snd ?r)) (fst ?r) gs)"
      by (simp add: split_beta Let_def)
    then show ?thesis using Cons.IH [of "added + length (snd ?r)" "fst ?r"] m by linarith
  qed simp
qed simp

lemma handlers_for_in: "h \<in> set (handlers_for regs field) \<Longrightarrow> (field, h) \<in> set regs"
  unfolding handlers_for_def using set_dedup_by [of n_id "{}" "map snd (filter (\<lambda>r. fst r = field) regs)"] by auto

lemma fnptr_regs_in: "(field, h) \<in> set (fnptr_regs env db file) \<Longrightarrow> h \<in> set (g_nodes db)"
  by (auto simp: fnptr_regs_def dest!: sym [of "Some _"] handler_of_in split: if_splits option.splits)

lemma fnptr_groups_in:
  "g \<in> set (fnptr_groups env db regs file) \<Longrightarrow> e \<in> set g \<Longrightarrow>
     \<exists>enc h field line. e = fnptr_edge enc file line field h \<and> enc \<in> set (nodes_in_file file db) \<and> encloses line enc
       \<and> (field, h) \<in> set regs \<and> n_id h \<noteq> n_id enc"
  by (auto simp: fnptr_groups_def Let_def dest!: sym [of "Some _"] enclosing_fn_in handlers_for_in split: if_splits option.splits) blast+

text \<open>
  A function is only linked with a function that some C file assigns to a
  field, from inside a function that calls through a field of that name at the line the edge bears,
  and at most 800 such edges are made.
\<close>

theorem fnptr_edges_sound:
  "(\<forall>e\<in>set (c_fn_pointer_dispatch_edges env db). \<exists>file enc h field.
      file \<in> set (c_files env db) \<and> enc \<in> set (nodes_in_file file db) \<and> encloses (s_line e) enc \<and> n_id h \<noteq> n_id enc
      \<and> (field, h) \<in> set (concat (map (fnptr_regs env db) (c_files env db)))
      \<and> e = fnptr_edge enc file (s_line e) field h)
    \<and> length (c_fn_pointer_dispatch_edges env db) \<le> 800"
proof (intro conjI ballI)
  let ?regs = "concat (map (fnptr_regs env db) (c_files env db))"
  {
    fix e
    assume "e \<in> set (c_fn_pointer_dispatch_edges env db)"
    then have "e \<in> set (fnptr_take 0 {} (concat (map (fnptr_groups env db ?regs) (c_files env db))))"
      by (simp add: c_fn_pointer_dispatch_edges_def Let_def split: if_splits)
    then obtain f g where "f \<in> set (c_files env db)" "g \<in> set (fnptr_groups env db ?regs f)" "e \<in> set g"
      using fnptr_take_in by fastforce
    with fnptr_groups_in [OF this(2,3)] show "\<exists>file enc h field. file \<in> set (c_files env db)
      \<and> enc \<in> set (nodes_in_file file db) \<and> encloses (s_line e) enc \<and> n_id h \<noteq> n_id enc
      \<and> (field, h) \<in> set ?regs \<and> e = fnptr_edge enc file (s_line e) field h"
      by (metis fnptr_edge_def synth_edge.select_convs(5))
  next
    show "length (c_fn_pointer_dispatch_edges env db) \<le> 800"
      using fnptr_take_bounds [of 0 "{}"] by (simp add: c_fn_pointer_dispatch_edges_def Let_def fnptr_fanout_cap_def)
  }
qed

lemma c_fn_pointer_ends: "ends_exist db (set (c_fn_pointer_dispatch_edges env db))"
proof -
  let ?regs = "concat (map (fnptr_regs env db) (c_files env db))"
  have regs: "(field, h) \<in> set ?regs \<Longrightarrow> h \<in> set (g_nodes db)" for field h by (auto dest: fnptr_regs_in)
  have g: "ends_exist db (set g)" if "g \<in> set (concat (map (fnptr_groups env db ?regs) (c_files env db)))" for g
    using that fnptr_groups_in [of g env db ?regs] regs
    by (fastforce simp: ends_exist_def fnptr_edge_def dest!: nodes_in_file_in intro: node_idsI)
  have "ends_exist db (set (fnptr_take 0 {} (concat (map (fnptr_groups env db ?regs) (c_files env db)))))"
    using fnptr_take_in [of 0 "{}"] g by (fastforce simp: ends_exist_def)
  then show ?thesis by (simp add: c_fn_pointer_dispatch_edges_def Let_def ends_exist_def)
qed

section \<open>An example and three surprises\<close>

text \<open>A route whose request type two methods take, one of them in a controller directory.\<close>

definition route_node :: node where
  "route_node = (sample_node 1 ''route'' ''GET /u'' ''api/u.go'' 3)\<lparr>n_qname := ''GET /u::goframe-route:v1.Req''\<rparr>"

definition method_node :: "int \<Rightarrow> string \<Rightarrow> string \<Rightarrow> node" where
  "method_node i file sig = (sample_node i kind_method ''Get'' file 5)\<lparr>n_signature := sig\<rparr>"

definition route_db :: "string \<Rightarrow> gdb" where
  "route_db sig = nodes_db [route_node, method_node 2 ''app/controller/u.go'' sig, method_node 3 ''old.go'' ''(r *v1.Req)''] [] []"

lemma route_types:
  "pointer_param_types ''(r *v1.Req)'' = [''v1.Req'', ''Req'']"
  "pointer_param_types ''(a, b *v1.Req, c *v1.Req)'' = [''v1.Req'', ''Req'', ''v1.Req'', ''Req'']"
  by code_simp+

lemma route_key: "join_key route_node = ''v1.Req''" "bare_type ''v1.Req'' = ''Req''"
  by code_simp+

lemma route_nodes:
  "get_nodes_by_kind ''route'' (route_db sig) = [route_node]"
  "get_nodes_by_kind kind_method (route_db sig) =
     [method_node 2 ''app/controller/u.go'' sig, method_node 3 ''old.go'' ''(r *v1.Req)'']"
  by (simp_all add: route_db_def route_node_def method_node_def nodes_db_eval)

lemma route_list: "goframe_routes (route_db sig) = [route_node]"
  by (simp add: goframe_routes_def route_nodes route_key) (simp add: go_node_def route_node_def sample_node_def)

lemma route_wanted: "wanted_types [route_node] = {''v1.Req'', ''Req''}"
  by (auto simp: wanted_types_def route_key)

lemma methods_go: "go_node (method_node i f sig)" "n_signature (method_node i f sig) = sig" "n_file (method_node i f sig) = f"
  "n_id (method_node i f sig) = i"
  by (simp_all add: go_node_def method_node_def sample_node_def)

lemma route_controllers: "in_controller (method_node i ''app/controller/u.go'' sig)" "\<not> in_controller (method_node i ''old.go'' sig)"
  by (simp_all add: in_controller_def methods_go contains_str_def sublist_Cons_right)

lemma route_choice:
  "select_goframe_handler (route_handlers (route_db ''(r *v1.Req)'') {''v1.Req'', ''Req''} ''v1.Req'') (n_file route_node)
     = Some (method_node 2 ''app/controller/u.go'' ''(r *v1.Req)'')"
  by (simp add: route_handlers_def handlers_by_type_def route_nodes methods_go route_types select_goframe_handler_def
      route_controllers Let_def)


text \<open>
  A method that takes the type twice is listed twice, so it counts as two candidates; here it rules itself
  out and the route has no handler, although its controller is the only one.
\<close>

lemma twice_named_lost:
  "select_goframe_handler
     (route_handlers (route_db ''(a, b *v1.Req, c *v1.Req)'') {''v1.Req'', ''Req''} ''v1.Req'') (n_file route_node) = None"
proof -
  have "addon_root ''api/u.go'' = []" "addon_root ''app/controller/u.go'' = []" by code_simp+
  then show ?thesis
    by (simp add: route_handlers_def handlers_by_type_def route_nodes methods_go route_types select_goframe_handler_def
      route_controllers Let_def)
qed

text \<open>The last byte of a block comment without an end counts as code.\<close>

lemma unclosed_comment_last_byte: "strip_c_comments ''a /* x'' = ''a    x''"
  by (simp add: blank_block.simps)

lemma take_new_distinct:
  "distinct (map synth_key es) \<Longrightarrow> synth_key ` set es \<inter> seen = {} \<Longrightarrow> snd (take_new cap seen es) = take cap es"
proof (induction cap seen es rule: take_new.induct)
  case (3 n seen e es)
  then show ?case by (auto simp: split_beta Let_def)
qed simp_all

text \<open>
  Above its cap a parent's children depend on the order in which the map of their names is met: in the
  reverse order the last child is linked and the first is not.
\<close>

lemma children_depend_on_order:
  assumes "distinct (map synth_key es)" "cap < length es" "0 < cap"
  shows "hd es \<in> set (snd (take_new cap {} es)) \<and> hd es \<notin> set (snd (take_new cap {} (rev es)))"
proof -
  have d: "distinct (map synth_key (rev es))" using assms(1) by (simp add: rev_map [symmetric])
  have "hd es \<in> set (take cap es)" using assms(2,3) by (cases es; cases cap) auto
  moreover have "hd es \<notin> set (take cap (rev es))"
  proof -
    obtain x xs where es: "es = x # xs" using assms(2) by (cases es) auto
    have "take cap (rev es) = take cap (rev xs)" using assms(2) es by simp
    moreover have "x \<notin> set xs" using assms(1) es by auto
    ultimately show ?thesis using es by (auto dest: in_set_takeD)
  qed
  ultimately show ?thesis using take_new_distinct [OF assms(1), of "{}" cap] take_new_distinct [OF d, of "{}" cap] by simp
qed

end
