(* ===== verification/Synthesize.thy ===== *)
theory Synthesize
  imports Synth_Channels Synth_Render Synth_Native
begin

text \<open>
  \<^verbatim>\<open>SynthesizeAll\<close> (\<^verbatim>\<open>internal/resolution/synthesize.go\<close>): the edges of all passes are merged, each pair of
  nodes and kind once, and written in the place of the edges of the last run in one transaction
  (\<^verbatim>\<open>ReplaceSynthesizedEdges\<close> of \<^verbatim>\<open>internal/db/query_edges.go\<close>).  Synthesized edges are recognised by their
  provenance and by the word \<^verbatim>\<open>synthesizedBy\<close> in their metadata, a JSON object.
\<close>

section \<open>Metadata\<close>

text \<open>\<^verbatim>\<open>encoding/json\<close> for a map from strings to strings.\<close>

definition hex_digit :: "nat \<Rightarrow> char" where
  "hex_digit n = ''0123456789abcdef'' ! (n mod 16)"

definition json_byte :: "char \<Rightarrow> string" where
  "json_byte c =
     (let b = byte_of c in
      if c = CHR 0x22 \<or> c = backslash then [backslash, c]
      else if b = 8 then [backslash, CHR ''b'']
      else if b = 9 then [backslash, CHR ''t'']
      else if b = 10 then [backslash, CHR ''n'']
      else if b = 12 then [backslash, CHR ''f'']
      else if b = 13 then [backslash, CHR ''r'']
      else if b < 32 \<or> c = CHR ''<'' \<or> c = CHR ''>'' \<or> c = CHR ''&''
      then [backslash, CHR ''u'', CHR ''0'', CHR ''0'', hex_digit (b div 16), hex_digit b]
      else [c])"

definition json_rune :: "nat \<times> string \<Rightarrow> string" where
  "json_rune rb =
     (case rb of (r, bs) \<Rightarrow>
        if r < 128 then json_byte (hd bs)
        else if r = rune_error \<and> length bs = 1 then backslash # ''ufffd''
        else if r = 0x2028 \<or> r = 0x2029 then (backslash # ''u202'') @ [hex_digit r]
        else bs)"

definition json_string :: "string \<Rightarrow> string" where
  "json_string s = [CHR 0x22] @ concat (map json_rune (rune_segs s)) @ [CHR 0x22]"

definition json_object :: "(string \<times> string) list \<Rightarrow> string" where
  "json_object fs =
     ''{'' @ join_with '','' (map (\<lambda>(k, v). json_string k @ '':'' @ json_string v) (sort_key fst fs)) @ ''}''"

section \<open>Replacing the edges of the last run\<close>

definition synthesized :: "edge \<Rightarrow> bool" where
  "synthesized e \<longleftrightarrow> e_provenance e = prov_heuristic
     \<and> contains_str (ascii_fold (e_metadata e)) (ascii_fold ''synthesizedBy'')"

definition delete_synthesized_edges :: "gdb \<Rightarrow> gdb" where
  "delete_synthesized_edges db = db\<lparr>g_edges := filter (\<lambda>e. \<not> synthesized e) (g_edges db)\<rparr>"

definition replace_synthesized_edges :: "edge list \<Rightarrow> gdb \<Rightarrow> db_error + gdb" where
  "replace_synthesized_edges es db = foldE upsert_edge es (delete_synthesized_edges db)"

section \<open>All passes\<close>

definition synth_passes :: "synth_env \<Rightarrow> gdb \<Rightarrow> (string \<times> synth_edge list option) list" where
  "synth_passes env db =
     map (\<lambda>(name, es). (name, if sy_fails env name then None else Some es))
       [(''callback'', field_channel_edges env db),
        (''event-emitter'', event_emitter_edges env db),
        (''react-render'', react_render_edges env db),
        (''jsx-render'', react_jsx_child_edges env db),
        (''bridge-link'', bridge_symbol_edges db),
        (''fn-pointer-dispatch'', c_fn_pointer_dispatch_edges env db),
        (''goframe-route'', goframe_route_edges env db)]"

definition proper :: "synth_edge \<Rightarrow> bool" where
  "proper e \<longleftrightarrow> s_source e \<noteq> 0 \<and> s_target e \<noteq> 0 \<and> s_source e \<noteq> s_target e"

text \<open>The merged edges, the numbers by pass and the passes that failed.\<close>

fun merge_passes ::
    "(string \<times> synth_edge list option) list \<Rightarrow> string set \<Rightarrow> synth_edge list \<times> (string \<times> nat) list \<times> string list" where
  "merge_passes [] seen = ([], [], [])"
| "merge_passes ((name, None) # ps) seen =
     (let (merged, by, failed) = merge_passes ps seen in (merged, by, name # failed))"
| "merge_passes ((name, Some es) # ps) seen =
     (let new = dedup_by synth_key seen (filter proper es);
          (merged, by, failed) = merge_passes ps (seen \<union> synth_key ` set new)
      in (new @ merged, (name, length new) # by, failed))"

record synth_stats =
  sy_written :: nat
  sy_by_pass :: "(string \<times> nat) list"

datatype synth_error = Passes_failed "string list" | Write_failed db_error

definition edge_of :: "synth_edge \<Rightarrow> edge" where
  "edge_of e = \<lparr>e_source = s_source e, e_target = s_target e, e_kind = s_kind e, e_file = s_file e, e_line = s_line e,
     e_col = 0, e_provenance = prov_heuristic, e_metadata = json_object (s_meta e)\<rparr>"

definition synthesize_all :: "synth_env \<Rightarrow> gdb \<Rightarrow> synth_error option \<times> gdb \<times> synth_stats" where
  "synthesize_all env db =
     (let (merged, by, failed) = merge_passes (synth_passes env db) {} in
      if failed \<noteq> [] then (Some (Passes_failed failed), db, \<lparr>sy_written = 0, sy_by_pass = by\<rparr>)
      else (case replace_synthesized_edges (map edge_of merged) db of
              Inl e \<Rightarrow> (Some (Write_failed e), db, \<lparr>sy_written = 0, sy_by_pass = by\<rparr>)
            | Inr db' \<Rightarrow> (None, db', \<lparr>sy_written = length merged, sy_by_pass = by\<rparr>)))"

text \<open>The edges a run writes.\<close>

definition merged_edges :: "synth_env \<Rightarrow> gdb \<Rightarrow> synth_edge list" where
  "merged_edges env db = fst (merge_passes (synth_passes env db) {})"

section \<open>The mark of a synthesized edge\<close>

lemma ascii_fold_append: "ascii_fold (a @ b) = ascii_fold a @ ascii_fold b"
  by (simp add: ascii_fold_def)

lemma contains_fold: "contains_str s p \<Longrightarrow> contains_str (ascii_fold s) (ascii_fold p)"
  unfolding contains_str_def sublist_def by (elim exE) (simp add: ascii_fold_append, blast)

lemma json_plain:
  assumes "\<forall>c\<in>set s. 32 \<le> byte_of c \<and> byte_of c < 128 \<and> c \<notin> {CHR 0x22, backslash, CHR ''<'', CHR ''>'', CHR ''&''}"
  shows "json_string s = [CHR 0x22] @ s @ [CHR 0x22]"
proof -
  have "ascii_string s" using assms by (auto simp: ascii_string_def)
  moreover have "json_byte c = [c]" if "c \<in> set s" for c
  proof -
    have "32 \<le> byte_of c" "c \<notin> {CHR 0x22, backslash, CHR ''<'', CHR ''>'', CHR ''&''}" using assms that by blast+
    then show ?thesis unfolding json_byte_def Let_def by simp
  qed
  ultimately have "map json_rune (rune_segs s) = map (\<lambda>c. [c]) s"
    using assms by (auto simp: rune_segs_ascii json_rune_def)
  then show ?thesis by (simp add: json_string_def)
qed

lemma join_with_contains: "x \<in> set xs \<Longrightarrow> sublist x (join_with sep xs)"
proof (induction sep xs rule: join_with.induct)
  case (3 sep a b xs)
  have "sublist x a \<or> sublist x (join_with sep (b # xs))" using 3 by auto
  then show ?case by (auto simp: sublist_def) (metis append_assoc)+
qed auto

lemma json_object_key:
  assumes "(k, v) \<in> set fs"
  shows "sublist (json_string k) (json_object fs)"
proof -
  let ?ms = "map (\<lambda>(k, v). json_string k @ '':'' @ json_string v) (sort_key fst fs)"
  have "json_string k @ '':'' @ json_string v \<in> set ?ms" using assms by force
  then have "sublist (json_string k @ '':'' @ json_string v) (join_with '','' ?ms)" by (rule join_with_contains)
  moreover have "sublist (json_string k) (json_string k @ '':'' @ json_string v)" by simp
  moreover have "sublist (join_with '','' ?ms) (json_object fs)" unfolding json_object_def by (intro sublist_appendI)
  ultimately show ?thesis using sublist_order.order.trans by blast
qed

lemma edge_of_synthesized: "(''synthesizedBy'', v) \<in> set (s_meta e) \<Longrightarrow> synthesized (edge_of e)"
proof -
  assume "(''synthesizedBy'', v) \<in> set (s_meta e)"
  then have 1: "sublist (json_string ''synthesizedBy'') (json_object (s_meta e))" by (rule json_object_key)
  have "json_string ''synthesizedBy'' = [CHR 0x22] @ ''synthesizedBy'' @ [CHR 0x22]"
    by (rule json_plain) simp
  then have "sublist ''synthesizedBy'' (json_string ''synthesizedBy'')" by (metis sublist_appendI)
  then have "sublist ''synthesizedBy'' (json_object (s_meta e))" by (rule sublist_order.order.trans [OF _ 1])
  then have "contains_str (json_object (s_meta e)) ''synthesizedBy''" unfolding contains_str_def .
  then show ?thesis unfolding synthesized_def edge_of_def edge.select_convs by (intro conjI refl contains_fold)
qed

text \<open>Every pass marks its edges.\<close>

definition marked :: "synth_edge \<Rightarrow> bool" where
  "marked e \<longleftrightarrow> (\<exists>v. (''synthesizedBy'', v) \<in> set (s_meta e))"

lemma marked_synthesized: "marked e \<Longrightarrow> synthesized (edge_of e)"
  unfolding marked_def using edge_of_synthesized by blast

lemma marked_edges [simp]:
  "marked (channel_edge reg caller c fn disp)" "marked (event_edge event d v h r)" "marked (render_edge m r')"
  "marked (child_edge parent name child)" "marked (bridge_edge ref tgt)" "marked (fnptr_edge enc file line field hn)"
  "marked (route_edge bare route hn)"
  unfolding marked_def channel_edge_def event_edge_def render_edge_def child_edge_def bridge_edge_def fnptr_edge_def
    route_edge_def synth_edge.select_convs by (auto simp only: list.set insert_iff prod.inject)

definition pass_ok :: "gdb \<Rightarrow> synth_edge list \<Rightarrow> bool" where
  "pass_ok db es \<longleftrightarrow> ends_exist db (set es) \<and> (\<forall>e\<in>set es. marked e)"

lemma pass_okI: "ends_exist db (set es) \<Longrightarrow> (\<And>e. e \<in> set es \<Longrightarrow> marked e) \<Longrightarrow> pass_ok db es"
  by (simp add: pass_ok_def)

lemma channel_pass_ok: "pass_ok db (field_channel_edges env db)"
proof (rule pass_okI [OF field_channel_edges_ends])
  fix e
  assume "e \<in> set (field_channel_edges env db)"
  from channels_linked [OF this [unfolded field_channel_edges_def]] show "marked e"
    unfolding linked_by_def by auto
qed

lemma event_pass_ok: "\<forall>ks. set (sy_ids env ks) = set ks \<Longrightarrow> pass_ok db (event_emitter_edges env db)"
proof (rule pass_okI [OF event_emitter_edges_ends])
  fix e
  assume "e \<in> set (event_emitter_edges env db)"
  then have "e \<in> set (event_pairs env db)"
    unfolding event_emitter_edges_def by (auto dest!: set_dedup_by [THEN subsetD])
  then show "marked e" unfolding event_pairs_in by auto
qed

lemma render_pass_ok: "pass_ok db (react_render_edges env db)"
proof (rule pass_okI [OF react_render_edges_ends])
  fix e
  assume "e \<in> set (react_render_edges env db)"
  then obtain cls where "e \<in> set (render_candidates env db cls)"
    unfolding react_render_edges_def by (auto dest!: take_groups_in [THEN subsetD])
  from render_candidates_in [OF this] show "marked e" by auto
qed

lemma jsx_pass_ok: "pass_ok db (react_jsx_child_edges env db)"
proof (rule pass_okI [OF react_jsx_child_edges_ends])
  fix e
  assume "e \<in> set (react_jsx_child_edges env db)"
  then obtain f parent where "e \<in> set (child_candidates env db f parent)"
    unfolding react_jsx_child_edges_def by (auto dest!: take_groups_in [THEN subsetD] split: if_splits)
  from child_candidates_in [OF this] show "marked e" by auto
qed

lemma bridge_pass_ok: "db_ok db \<Longrightarrow> pass_ok db (bridge_symbol_edges db)"
  by (rule pass_okI [OF bridge_symbol_edges_ends])
    (auto simp: bridge_symbol_edges_def dest!: set_dedup_by [THEN subsetD] split: option.splits)

lemma fnptr_pass_ok: "pass_ok db (c_fn_pointer_dispatch_edges env db)"
proof (rule pass_okI [OF c_fn_pointer_ends])
  fix e
  assume "e \<in> set (c_fn_pointer_dispatch_edges env db)"
  then obtain regs f g where "g \<in> set (fnptr_groups env db regs f)" "e \<in> set g"
    unfolding c_fn_pointer_dispatch_edges_def Let_def by (auto dest!: fnptr_take_in [THEN subsetD] split: if_splits)
  from fnptr_groups_in [OF this] show "marked e" by auto
qed

lemma goframe_pass_ok: "pass_ok db (goframe_route_edges env db)"
proof (rule pass_okI [OF goframe_route_edges_ends])
  fix e
  assume "e \<in> set (goframe_route_edges env db)"
  then have "e \<in> set (route_candidates db (sy_order env (remdups (map join_key (goframe_routes db)))))"
    unfolding goframe_route_edges_take using take_new_sound by blast
  then show "marked e" unfolding route_candidates_in by auto
qed

lemma synth_passes_ok:
  assumes "db_ok db" "\<forall>ks. set (sy_ids env ks) = set ks" "(name, Some es) \<in> set (synth_passes env db)"
  shows "pass_ok db es"
proof -
  let ?P = "\<lambda>(name, r). \<forall>es. r = Some es \<longrightarrow> pass_ok db es"
  have "\<forall>p\<in>set (synth_passes env db). ?P p"
    unfolding synth_passes_def
    by (simp add: channel_pass_ok event_pass_ok [OF assms(2)] render_pass_ok jsx_pass_ok bridge_pass_ok [OF assms(1)]
        fnptr_pass_ok goframe_pass_ok)
  then show ?thesis using assms(3) by fastforce
qed

lemma merge_passes_in:
  "e \<in> set (fst (merge_passes ps seen)) \<Longrightarrow> \<exists>name es. (name, Some es) \<in> set ps \<and> e \<in> set es \<and> proper e"
proof (induction ps seen rule: merge_passes.induct)
  case (3 name es ps seen)
  let ?new = "dedup_by synth_key seen (filter proper es)"
  have "e \<in> set ?new \<or> e \<in> set (fst (merge_passes ps (seen \<union> synth_key ` set ?new)))"
    using 3(2) by (simp add: split_beta Let_def)
  then show ?case
  proof
    assume "e \<in> set ?new"
    then show ?thesis by (intro exI [of _ name] exI [of _ es]) (auto dest!: set_dedup_by [THEN subsetD])
  next
    assume "e \<in> set (fst (merge_passes ps (seen \<union> synth_key ` set ?new)))"
    from 3(1) [OF refl this] show ?thesis by auto
  qed
next
  case (2 name ps seen)
  then show ?case by (auto simp: split_beta Let_def)
qed simp

lemma merge_passes_keys:
  "synth_key ` set (fst (merge_passes ps seen)) \<inter> seen = {} \<and> distinct (map synth_key (fst (merge_passes ps seen)))"
proof (induction ps seen rule: merge_passes.induct)
  case (3 name es ps seen)
  let ?new = "dedup_by synth_key seen (filter proper es)"
  let ?rest = "fst (merge_passes ps (seen \<union> synth_key ` set ?new))"
  have new: "synth_key ` set ?new \<inter> seen = {}" unfolding keys_dedup_by by blast
  have rest: "synth_key ` set ?rest \<inter> (seen \<union> synth_key ` set ?new) = {}" "distinct (map synth_key ?rest)"
    using 3 [OF refl] by blast+
  have "fst (merge_passes ((name, Some es) # ps) seen) = ?new @ ?rest" by (simp add: split_beta Let_def)
  moreover have "distinct (map synth_key (?new @ ?rest))"
    unfolding map_append distinct_append using rest distinct_dedup_by [of synth_key seen "filter proper es"] by auto
  ultimately show ?case using new rest(1) by (simp only: set_append image_Un) blast
qed (auto simp: split_beta Let_def)

lemma merge_passes_failed: "snd (snd (merge_passes ps seen)) = map fst (filter (\<lambda>p. snd p = None) ps)"
  by (induction ps seen rule: merge_passes.induct) (auto simp: split_beta Let_def)

section \<open>Writing them\<close>

lemma edge_of_key: "edge_key (edge_of a) = edge_key (edge_of b) \<Longrightarrow> synth_key a = synth_key b"
  by (simp add: edge_key_def edge_of_def synth_key_eq)

text \<open>An upsert writes exactly its row, since all other columns are overwritten.\<close>

lemma upsert_edge_exact:
  assumes "edge_key old = edge_key new"
  shows "edge_upd old new = new"
  using assms by (cases old, cases new) (simp add: edge_key_def edge_upd_def)

lemma set_upsert_edge:
  "set (upsert_by edge_key edge_upd new rows) = {r \<in> set rows. edge_key r \<noteq> edge_key new} \<union> {new}"
  by (auto simp: upsert_by_def upsert_edge_exact image_iff)

lemma upsert_edges:
  assumes "\<forall>e\<in>set es. e_source e \<in> node_ids db \<and> e_target e \<in> node_ids db" "db_ok db" "distinct (map edge_key es)"
  shows "\<exists>db'. foldE upsert_edge es db = Inr db' \<and> db_ok db' \<and> db' = db\<lparr>g_edges := g_edges db'\<rparr>
    \<and> set (g_edges db') = {e \<in> set (g_edges db). edge_key e \<notin> edge_key ` set es} \<union> set es"
  using assms
proof (induction es arbitrary: db)
  case (Cons e es)
  let ?db = "db\<lparr>g_edges := upsert_by edge_key edge_upd e (g_edges db)\<rparr>"
  have u: "upsert_edge e db = Inr ?db" using Cons.prems(1) by (simp add: upsert_edge_def)
  have ok: "db_ok ?db" using upsert_edge_ok [OF u Cons.prems(2)] .
  obtain db' where db': "foldE upsert_edge es ?db = Inr db'" "db_ok db'" "db' = ?db\<lparr>g_edges := g_edges db'\<rparr>"
    "set (g_edges db') = {x \<in> set (g_edges ?db). edge_key x \<notin> edge_key ` set es} \<union> set es"
    using Cons.IH [of ?db] Cons.prems ok by (auto simp: node_ids_def)
  have "edge_key e \<notin> edge_key ` set es" using Cons.prems(3) by simp
  then have "set (g_edges db') = {x \<in> set (g_edges db). edge_key x \<notin> edge_key ` set (e # es)} \<union> set (e # es)"
    unfolding db'(4) by (auto simp: set_upsert_edge)
  then show ?case using u db' by simp
qed simp

lemma delete_synthesized_ok: "db_ok db \<Longrightarrow> db_ok (delete_synthesized_edges db)"
  by (auto simp: db_ok_def ok_defs delete_synthesized_edges_def distinct_map_filter)

lemma merged_edges_ok:
  assumes "db_ok db" "\<forall>ks. set (sy_ids env ks) = set ks"
  shows "\<forall>e\<in>set (map edge_of (merged_edges env db)). e_source e \<in> node_ids db \<and> e_target e \<in> node_ids db \<and> synthesized e"
    and "distinct (map edge_key (map edge_of (merged_edges env db)))"
proof -
  have "s_source e \<in> node_ids db \<and> s_target e \<in> node_ids db \<and> marked e" if "e \<in> set (merged_edges env db)" for e
    using merge_passes_in [OF that [unfolded merged_edges_def]] synth_passes_ok [OF assms]
    unfolding pass_ok_def ends_exist_def by blast
  then show "\<forall>e\<in>set (map edge_of (merged_edges env db)). e_source e \<in> node_ids db \<and> e_target e \<in> node_ids db \<and> synthesized e"
    unfolding marked_def using edge_of_synthesized by (auto simp: edge_of_def)
  have "distinct (map synth_key (merged_edges env db))" using merge_passes_keys unfolding merged_edges_def by blast
  then show "distinct (map edge_key (map edge_of (merged_edges env db)))"
    using edge_of_key unfolding distinct_map inj_on_def map_map comp_def by (metis (no_types, lifting))
qed


section \<open>An example and two surprises\<close>

text \<open>
  Before the run there is a call and a callback edge that no pass makes any more; a bridge reference of the
  first node has failed.
\<close>

definition stale_edge :: edge where
  "stale_edge = (sample_edge 2 1)\<lparr>e_provenance := prov_heuristic, e_metadata := json_object [(''synthesizedBy'', ''callback'')]\<rparr>"

definition bridge_node :: node where
  "bridge_node = sample_node 2 ''constructor'' ''b'' ''b.c'' 4"

definition failed_bridge :: uref where
  "failed_bridge =
     \<lparr>u_id = 1, u_from = 1, u_name = ''b'', u_kind = edge_bridge, u_line = 9, u_col = 0, u_file = ''a.py'', u_language = [],
      u_status = st_failed, u_attempts = 1, u_tail = ''b'', u_candidates = []\<rparr>"

definition bridge_db :: gdb where
  "bridge_db = (nodes_db [sample_node 1 ''variable'' ''a'' ''a.py'' 1, bridge_node] [sample_edge 1 2, stale_edge] [])
     \<lparr>g_refs := [failed_bridge], g_next_ref := 2\<rparr>"

definition no_files :: synth_env where
  "no_files = reading []"

lemma bridge_db_ok: "db_ok bridge_db"
  by (simp add: bridge_db_def nodes_db_def db_ok_def ok_defs sample_node_def node_key_def edge_key_def stale_edge_def
      sample_edge_def bridge_node_def failed_bridge_def uref_key_def)

lemma bridge_candidates: "collect_candidates bridge_db ''b'' = [bridge_node]"
proof -
  have t: "trim_space ''b'' = ''b''" "name_tail ''b'' = ''b''" by (simp_all add: name_tail_def str_eval)
  have nodes: "g_nodes bridge_db = [sample_node 1 ''variable'' ''a'' ''a.py'' 1, bridge_node]"
    by (simp add: bridge_db_def nodes_db_def)
  have "for_each_node_by_name ''b'' bridge_db = [bridge_node]"
    by (rule for_each_node_single [OF bridge_db_ok]) (auto simp: nodes bridge_node_def sample_node_def)
  then show ?thesis by (simp add: collect_candidates_def t)
qed

lemma bridge_run: "merged_edges no_files bridge_db = [bridge_edge failed_bridge bridge_node]"
proof -
  have kinds: "get_nodes_by_kind kind bridge_db = []" if "kind \<noteq> ''variable''" "kind \<noteq> ''constructor''" for kind
    using that by (simp add: get_nodes_by_kind_def bridge_db_def nodes_db_def bridge_node_def sample_node_def)
  have files: "list_files bridge_db = []" by (simp add: bridge_db_def nodes_db_eval)
  have "field_channel_edges no_files bridge_db = []"
    by (simp add: field_channel_edges_def registrars_def channel_ends_def channel_candidates_def kinds)
  moreover have "event_emitter_edges no_files bridge_db = []"
    by (simp add: event_emitter_edges_def event_pairs_def emits_by_event_def files Let_def no_files_def reading_def)
  moreover have "react_render_edges no_files bridge_db = []" by (simp add: react_render_edges_def kinds)
  moreover have "react_jsx_child_edges no_files bridge_db = []" by (simp add: react_jsx_child_edges_def files)
  moreover have "bridge_symbol_edges bridge_db = [bridge_edge failed_bridge bridge_node]"
  proof -
    have refs: "bridge_refs bridge_db = [failed_bridge]"
      by (simp add: bridge_refs_def list_unresolved_refs_def bridge_db_def failed_bridge_def)
    have "u_name failed_bridge = ''b''" by (simp add: failed_bridge_def)
    then have "bridge_target bridge_db failed_bridge = Some bridge_node"
      by (simp add: bridge_target_def bridge_candidates is_callable_kind_def bridge_node_def sample_node_def failed_bridge_def)
    then show ?thesis by (simp add: bridge_symbol_edges_def refs)
  qed
  moreover have "c_fn_pointer_dispatch_edges no_files bridge_db = []"
    by (simp add: c_fn_pointer_dispatch_edges_def c_files_def files)
  moreover have "goframe_route_edges no_files bridge_db = []"
    by (simp add: goframe_route_edges_def goframe_routes_def kinds goframe_fanout_cap_def no_files_def reading_def
        take_new.simps(2) [of 1999, simplified])
  ultimately show ?thesis
    by (simp add: merged_edges_def synth_passes_def no_files_def reading_def split_beta Let_def proper_def bridge_edge_def
        failed_bridge_def bridge_node_def sample_node_def)
qed


text \<open>
  A call that stands on the line a synthesized edge bears is taken over by it: afterwards it is a heuristic
  edge, and the next run that no longer makes the edge removes it, although the call is still there.
\<close>

lemma synth_takes_over_call:
  fixes n m :: node
  defines "call \<equiv> (sample_edge 1 2)\<lparr>e_line := 5\<rparr>"
    and "e \<equiv> fnptr_edge (sample_node 1 kind_function ''tick'' ''a.c'' 4) ''a.c'' 5 ''run'' (sample_node 2 kind_function ''go'' ''b.c'' 4)"
    and "ns \<equiv> [sample_node 1 kind_function ''tick'' ''a.c'' 4, sample_node 2 kind_function ''go'' ''b.c'' 4]"
  shows "\<exists>db1 db2. replace_synthesized_edges [edge_of e] (nodes_db ns [call] []) = Inr db1
    \<and> replace_synthesized_edges [] db1 = Inr db2 \<and> g_edges db1 = [edge_of e] \<and> g_edges db2 = []"
proof -
  have key: "edge_key call = edge_key (edge_of e)"
    by (simp add: call_def e_def edge_key_def sample_edge_def edge_of_def fnptr_edge_def sample_node_def)
  have no: "\<not> synthesized call" by (simp add: call_def synthesized_def sample_edge_def)
  let ?db = "nodes_db ns [call] []"
  have "delete_synthesized_edges ?db = ?db" using no by (simp add: delete_synthesized_edges_def nodes_db_def)
  moreover have "upsert_edge (edge_of e) ?db = Inr (?db\<lparr>g_edges := [edge_of e]\<rparr>)"
    using key upsert_edge_exact [OF key] by (simp add: upsert_edge_def nodes_db_def upsert_by_def)
  moreover have "synthesized (edge_of e)" unfolding e_def by (rule marked_synthesized) simp
  ultimately show ?thesis
    by (simp add: replace_synthesized_edges_def delete_synthesized_edges_def)
qed

text \<open>Without a failure a second run over the same sources would write the same edges again.\<close>

lemma replace_synthesized_idem:
  assumes "db_ok db" "\<forall>e\<in>set es. e_source e \<in> node_ids db \<and> e_target e \<in> node_ids db \<and> synthesized e"
    and "distinct (map edge_key es)" "replace_synthesized_edges es db = Inr db1"
  shows "\<exists>db2. replace_synthesized_edges es db1 = Inr db2 \<and> set (g_edges db2) = set (g_edges db1)"
proof -
  let ?del = delete_synthesized_edges
  have ids: "node_ids (?del d) = node_ids d" for d by (simp add: delete_synthesized_edges_def node_ids_def)
  have a: "\<forall>e\<in>set es. e_source e \<in> node_ids (?del db) \<and> e_target e \<in> node_ids (?del db)" using assms(2) ids by simp
  have one: "db_ok db1" "db1 = (?del db)\<lparr>g_edges := g_edges db1\<rparr>"
    "set (g_edges db1) = {e \<in> set (g_edges (?del db)). edge_key e \<notin> edge_key ` set es} \<union> set es"
    using upsert_edges [OF a delete_synthesized_ok [OF assms(1)] assms(3)] assms(4)
    unfolding replace_synthesized_edges_def by auto
  have "g_nodes db1 = g_nodes db" using arg_cong [OF one(2), of g_nodes] by (simp add: delete_synthesized_edges_def)
  then have "node_ids db1 = node_ids db" by (simp add: node_ids_def)
  then have b: "\<forall>e\<in>set es. e_source e \<in> node_ids (?del db1) \<and> e_target e \<in> node_ids (?del db1)" using assms(2) ids by simp
  obtain db2 where "replace_synthesized_edges es db1 = Inr db2"
    "set (g_edges db2) = {e \<in> set (g_edges (?del db1)). edge_key e \<notin> edge_key ` set es} \<union> set es"
    using upsert_edges [OF b delete_synthesized_ok [OF one(1)] assms(3)] unfolding replace_synthesized_edges_def by auto
  then show ?thesis using assms(2) unfolding one(3) by (auto simp: delete_synthesized_edges_def one(3))
qed

section \<open>In a full pass\<close>

text \<open>The synthesizer of the program in the environment of the orchestrator.\<close>

definition synth_step :: "synth_env \<Rightarrow> gdb \<Rightarrow> gdb \<times> bool" where
  "synth_step env db = (case synthesize_all env db of (err, db', st) \<Rightarrow> (db', err = None))"

lemma upsert_edge_files: "upsert_edge e db = Inr db' \<Longrightarrow> g_files db' = g_files db"
  by (auto simp: upsert_edge_def split: if_splits)

lemma synth_step_files: "g_files (fst (synth_step env db)) = g_files db"
  using foldE_frame [of upsert_edge _ "delete_synthesized_edges db" _ g_files, OF _ upsert_edge_files]
  by (auto simp: synth_step_def synthesize_all_def split_beta Let_def replace_synthesized_edges_def
      delete_synthesized_edges_def split: sum.splits)

text \<open>So the guarantee of a full pass holds with the synthesizer as it is.\<close>

lemma full_pass_with_synthesis:
  assumes "db_ok db" "index_all env (ix\<lparr>ix_synth := synth_step se\<rparr>) wd root force a db = (s, a')"
    and "ps_errs s = []" "ps_partial s = 0"
    and "collect_index_jobs env wd root a = (jobs, walk_errs, intr, a1)"
    and "list_all (\<lambda>j. \<not> ix_link ix (j_path j)) jobs" "distinct (map (storage_path wd \<circ> j_path) jobs)"
  shows "list_all (\<lambda>j. file_current (ix\<lparr>ix_synth := synth_step se\<rparr>) wd (ps_db s) (j_path j)) jobs"
  using index_all_current_aux [OF assms(1-4) _ assms(5)] assms(6,7) synth_step_files by simp

end
