(* ===== verification/Regexp_Words.thy ===== *)
theory Regexp_Words
  imports Go_Regexp
begin

text \<open>
  What the matches of a pattern look like: the text of a match and of its groups belongs to the language
  of the pattern, read without its anchors, the text of a group is a part of the match, and a group on
  every branch of the pattern is set.
\<close>

section \<open>The language of a pattern\<close>

primrec words :: "re \<Rightarrow> string set" where
  "words (Byte P) = {[c] | c. P c}"
| "words Nothing = {[]}"
| "words (Then r q) = {u @ v | u v. u \<in> words r \<and> v \<in> words q}"
| "words (Either r q) = words r \<union> words q"
| "words (Many r) = {concat ws | ws. set ws \<subseteq> words r}"
| "words (Maybe r) = insert [] (words r)"
| "words (Group i r) = words r"
| "words Line_start = {[]}"
| "words Line_end = {[]}"
| "words Text_start = {[]}"
| "words Text_end = {[]}"
| "words Word_edge = {[]}"
| "words (Lazy r) = {concat ws | ws. set ws \<subseteq> words r}"

text \<open>The texts a group can have, and whether every match sets the group.\<close>

primrec group_words :: "nat \<Rightarrow> re \<Rightarrow> string set" where
  "group_words j (Byte P) = {}"
| "group_words j Nothing = {}"
| "group_words j (Then r q) = group_words j r \<union> group_words j q"
| "group_words j (Either r q) = group_words j r \<union> group_words j q"
| "group_words j (Many r) = group_words j r"
| "group_words j (Maybe r) = group_words j r"
| "group_words j (Group i r) = (if i = j then words r else {}) \<union> group_words j r"
| "group_words j Line_start = {}"
| "group_words j Line_end = {}"
| "group_words j Text_start = {}"
| "group_words j Text_end = {}"
| "group_words j Word_edge = {}"
| "group_words j (Lazy r) = group_words j r"

primrec always_set :: "nat \<Rightarrow> re \<Rightarrow> bool" where
  "always_set j (Byte P) = False"
| "always_set j Nothing = False"
| "always_set j (Then r q) = (always_set j r \<or> always_set j q)"
| "always_set j (Either r q) = (always_set j r \<and> always_set j q)"
| "always_set j (Many r) = False"
| "always_set j (Maybe r) = False"
| "always_set j (Group i r) = (i = j \<or> always_set j r)"
| "always_set j Line_start = False"
| "always_set j Line_end = False"
| "always_set j Text_start = False"
| "always_set j Text_end = False"
| "always_set j Word_edge = False"
| "always_set j (Lazy r) = False"

section \<open>Matches belong to the language\<close>

text \<open>A step of a pattern: what it takes, and what it does to the groups.\<close>

definition taken_in :: "string set \<Rightarrow> (nat \<Rightarrow> string set) \<Rightarrow> place \<Rightarrow> place \<Rightarrow> bool" where
  "taken_in W G p q \<longleftrightarrow>
     (\<exists>w. fst (snd p) = w @ fst (snd q) \<and> fst q = rev w @ fst p \<and> w \<in> W
        \<and> (\<forall>i x. snd (snd q) i = Some x \<longrightarrow> snd (snd p) i = Some x \<or> (x \<in> G i \<and> sublist x w))
        \<and> (\<forall>i. snd (snd p) i \<noteq> None \<longrightarrow> snd (snd q) i \<noteq> None))"

lemma taken_in_same: "[] \<in> W \<Longrightarrow> taken_in W G p p"
  by (simp add: taken_in_def)

lemma taken_in_mono: "taken_in W G p q \<Longrightarrow> W \<subseteq> W' \<Longrightarrow> (\<And>i. G i \<subseteq> G' i) \<Longrightarrow> taken_in W' G' p q"
  unfolding taken_in_def by (meson subsetD)

lemma taken_in_trans:
  assumes "taken_in W G p q" "taken_in V H q r"
  shows "taken_in {u @ v | u v. u \<in> W \<and> v \<in> V} (\<lambda>i. G i \<union> H i) p r"
proof -
  obtain u where u: "fst (snd p) = u @ fst (snd q)" "fst q = rev u @ fst p" "u \<in> W"
      "\<And>i x. snd (snd q) i = Some x \<Longrightarrow> snd (snd p) i = Some x \<or> (x \<in> G i \<and> sublist x u)"
      "\<And>i. snd (snd p) i \<noteq> None \<Longrightarrow> snd (snd q) i \<noteq> None"
    using assms(1) by (auto simp: taken_in_def)
  obtain v where v: "fst (snd q) = v @ fst (snd r)" "fst r = rev v @ fst q" "v \<in> V"
      "\<And>i x. snd (snd r) i = Some x \<Longrightarrow> snd (snd q) i = Some x \<or> (x \<in> H i \<and> sublist x v)"
      "\<And>i. snd (snd q) i \<noteq> None \<Longrightarrow> snd (snd r) i \<noteq> None"
    using assms(2) by (auto simp: taken_in_def)
  have "snd (snd p) i = Some x \<or> (x \<in> G i \<union> H i \<and> sublist x (u @ v))" if "snd (snd r) i = Some x" for i x
    using v(4) [OF that] u(4) [of i x] by (auto simp: sublist_append)
  moreover have "u @ v \<in> {u @ v | u v. u \<in> W \<and> v \<in> V}" using u(3) v(3) by blast
  ultimately show ?thesis unfolding taken_in_def using u v by (intro exI [of _ "u @ v"]) simp
qed

lemma concat_words: "{u @ v | u v. u \<in> W \<and> v \<in> {concat ws | ws. set ws \<subseteq> W}} \<subseteq> {concat ws | ws. set ws \<subseteq> W}"
proof clarify
  fix u ws
  assume "u \<in> W" "set ws \<subseteq> W"
  then have "u @ concat ws = concat (u # ws)" "set (u # ws) \<subseteq> W" by simp_all
  then show "\<exists>ws'. u @ concat ws = concat ws' \<and> set ws' \<subseteq> W" by blast
qed

lemma taken_in_star:
  assumes "taken_in W G p q" "taken_in {concat ws | ws. set ws \<subseteq> W} G q r"
  shows "taken_in {concat ws | ws. set ws \<subseteq> W} G p r"
  by (rule taken_in_mono [OF taken_in_trans [OF assms] concat_words]) simp

lemma star_same: "taken_in {concat ws | ws. set ws \<subseteq> W} G p p"
  by (rule taken_in_same) (auto intro: exI [of _ "[]"])

lemma repeated_taken_in:
  assumes "\<And>p q. q \<in> set (f p) \<Longrightarrow> taken_in W G p q"
  shows "q \<in> set (repeated n f p) \<Longrightarrow> taken_in {concat ws | ws. set ws \<subseteq> W} G p q"
proof (induction n arbitrary: p)
  case 0
  then show ?case by (simp add: star_same)
next
  case (Suc n)
  show ?case
  proof (cases "q = p")
    case False
    then obtain q' where "q' \<in> set (f p)" "q \<in> set (repeated n f q')" using Suc.prems by (auto split: if_splits)
    then show ?thesis using taken_in_star assms Suc.IH by blast
  qed (simp add: star_same)
qed

lemma repeated_lazy_taken_in:
  assumes "\<And>p q. q \<in> set (f p) \<Longrightarrow> taken_in W G p q"
  shows "q \<in> set (repeated_lazy n f p) \<Longrightarrow> taken_in {concat ws | ws. set ws \<subseteq> W} G p q"
proof (induction n arbitrary: p)
  case 0
  then show ?case by (simp add: star_same)
next
  case (Suc n)
  show ?case
  proof (cases "q = p")
    case False
    then obtain q' where "q' \<in> set (f p)" "q \<in> set (repeated_lazy n f q')" using Suc.prems by (auto split: if_splits)
    then show ?thesis using taken_in_star assms Suc.IH by blast
  qed (simp add: star_same)
qed

lemma taken_in_group:
  assumes "taken_in W G p (b, a, g)"
  shows "taken_in W (\<lambda>j. (if i = j then W else {}) \<union> G j) p
    (b, a, g(i \<mapsto> take (length (fst (snd p)) - length a) (fst (snd p))))"
proof -
  obtain w where w: "fst (snd p) = w @ a" "b = rev w @ fst p" "w \<in> W"
      "\<And>i x. g i = Some x \<Longrightarrow> snd (snd p) i = Some x \<or> (x \<in> G i \<and> sublist x w)"
      "\<And>i. snd (snd p) i \<noteq> None \<Longrightarrow> g i \<noteq> None"
    using assms by (auto simp: taken_in_def)
  then show ?thesis unfolding taken_in_def by (intro exI [of _ w]) auto
qed

lemma matches_taken_in: "q \<in> set (matches r p) \<Longrightarrow> taken_in (words r) (\<lambda>i. group_words i r) p q"
proof (induction r arbitrary: p q)
  case (Byte P)
  obtain b a g where p: "p = (b, a, g)" by (cases p)
  then obtain c r where "a = c # r" "P c" "q = (c # b, r, g)" using Byte by (auto split: list.splits if_splits)
  then show ?case by (simp add: p taken_in_def)
next
  case (Then r1 r2)
  then obtain p' where "p' \<in> set (matches r1 p)" "q \<in> set (matches r2 p')" by auto
  then have "taken_in (words (Then r1 r2)) (\<lambda>i. group_words i r1 \<union> group_words i r2) p q"
    using taken_in_trans [OF Then.IH] by simp
  then show ?case by simp
next
  case (Either r1 r2)
  from Either.prems have "q \<in> set (matches r1 p) \<or> q \<in> set (matches r2 p)" by simp
  then have "taken_in (words r1) (\<lambda>i. group_words i r1) p q \<or> taken_in (words r2) (\<lambda>i. group_words i r2) p q"
    using Either.IH by blast
  then show ?case by (auto elim: taken_in_mono)
next
  case (Many r)
  then show ?case using repeated_taken_in [of "matches r"] by simp
next
  case (Lazy r)
  then show ?case using repeated_lazy_taken_in [of "matches r"] by simp
next
  case (Maybe r)
  from Maybe.prems have "q \<in> set (matches r p) \<or> q = p" by auto
  then show ?case using Maybe.IH [of q p] by (auto elim: taken_in_mono intro: taken_in_same)
next
  case (Group i r)
  then obtain b a g where "(b, a, g) \<in> set (matches r p)"
      "q = (b, a, g(i \<mapsto> take (length (fst (snd p)) - length a) (fst (snd p))))" by auto
  then show ?case using taken_in_group [OF Group.IH] by simp
qed (auto intro: taken_in_same split: if_splits)

lemma matches_always_set: "q \<in> set (matches r p) \<Longrightarrow> always_set j r \<Longrightarrow> snd (snd q) j \<noteq> None"
proof (induction r arbitrary: p q)
  case (Then r1 r2)
  then obtain p' where p': "p' \<in> set (matches r1 p)" "q \<in> set (matches r2 p')" by auto
  show ?case
  proof (cases "always_set j r1")
    case True
    from Then.IH(1) [OF p'(1) True] show ?thesis using matches_taken_in [OF p'(2)] by (auto simp: taken_in_def)
  qed (use Then p' in auto)
next
  case (Group i r)
  then obtain b a g where "(b, a, g) \<in> set (matches r p)"
      "q = (b, a, g(i \<mapsto> take (length (fst (snd p)) - length a) (fst (snd p))))" by auto
  then show ?case using Group.IH [of "(b, a, g)" p] Group.prems(2) by auto
qed auto

lemma find_from_matches: "find_from r b s = Some (b0, q) \<Longrightarrow> \<exists>u v. s = u @ v \<and> b0 = rev u @ b \<and> q \<in> set (matches r (b0, v, no_groups))"
proof (induction r b s rule: find_from.induct)
  case (1 r b)
  then show ?case by (auto split: list.splits)
next
  case (2 r b c s)
  show ?case
  proof (cases "matches r (b, c # s, no_groups)")
    case Nil
    then obtain u v where "s = u @ v" "b0 = rev u @ c # b" "q \<in> set (matches r (b0, v, no_groups))"
      using 2 by auto
    then show ?thesis by (intro exI [of _ "c # u"] exI [of _ v]) simp
  next
    case (Cons q' ps)
    then show ?thesis using 2 by (intro exI [of _ "[]"] exI [of _ "c # s"]) auto
  qed
qed

text \<open>The groups of the first match in a line: parts of the line from the language of the group.\<close>

lemma find_submatch_words:
  assumes "find_submatch r s = Some m"
  shows "m i = [] \<or> (m i \<in> group_words i r \<and> sublist (m i) s)"
    and "always_set i r \<Longrightarrow> m i \<in> group_words i r \<and> sublist (m i) s"
proof -
  obtain b0 b a g where f: "find_from r [] s = Some (b0, b, a, g)"
      and m: "m = (\<lambda>i. case g i of None \<Rightarrow> [] | Some x \<Rightarrow> x)"
    using assms by (auto simp: find_submatch_def)
  obtain u v where uv: "s = u @ v" "(b, a, g) \<in> set (matches r (b0, v, no_groups))"
    using find_from_matches [OF f] by blast
  from matches_taken_in [OF uv(2)] obtain w where w: "v = w @ a"
      "\<And>i x. g i = Some x \<Longrightarrow> x \<in> group_words i r \<and> sublist x w"
    by (auto simp: taken_in_def no_groups_def)
  have part: "x \<in> group_words i r \<and> sublist x s" if "g i = Some x" for x
    using w(2) [OF that] unfolding uv(1) w(1) by (auto intro: sublist_order.order.trans [of _ w])
  show "m i = [] \<or> (m i \<in> group_words i r \<and> sublist (m i) s)"
    using part by (cases "g i") (auto simp: m)
  assume "always_set i r"
  then show "m i \<in> group_words i r \<and> sublist (m i) s"
    using part matches_always_set [OF uv(2), of i] by (cases "g i") (auto simp: m)
qed

lemma words_some_of: "words (some_of P) = {w. w \<noteq> [] \<and> (\<forall>c\<in>set w. P c)}"
proof (intro set_eqI iffI)
  fix w
  assume "w \<in> words (some_of P)"
  then obtain c ws where w: "w = c # concat ws" "P c" and ws: "set ws \<subseteq> {[c] | c. P c}" by (auto simp: some_of_def)
  have "P x" if x: "x \<in> set (concat ws)" for x
  proof -
    obtain v where "v \<in> set ws" "x \<in> set v" using x by auto
    then show ?thesis using ws by fastforce
  qed
  then show "w \<in> {w. w \<noteq> [] \<and> (\<forall>c\<in>set w. P c)}" using w by auto
next
  fix w
  assume "w \<in> {w. w \<noteq> [] \<and> (\<forall>c\<in>set w. P c)}"
  then obtain c r where w: "w = c # r" "P c" "\<forall>c\<in>set r. P c" by (cases w) auto
  have "concat (map (\<lambda>c. [c]) xs) = xs" for xs :: string by (induction xs) auto
  then have "r \<in> {concat ws | ws. set ws \<subseteq> {[c] | c. P c}}"
    using w(3) by (intro CollectI exI [of _ "map (\<lambda>c. [c]) r"]) auto
  then have "[c] @ r \<in> {u @ v | u v. u \<in> {[c] | c. P c} \<and> v \<in> {concat ws | ws. set ws \<subseteq> {[c] | c. P c}}}"
    using w(2) by blast
  then show "w \<in> words (some_of P)" by (simp only: some_of_def words.simps w(1) append_Cons append_Nil)
qed

end
