(* ===== verification/Block_Ends.thy ===== *)
theory Block_Ends
  imports Go_Regexp Go_Runes
begin

text \<open>
  Where a block ends (\<^verbatim>\<open>internal/extraction/extractor_brace.go\<close>): the scanner that follows the depth of the
  braces of a line outside of strings, comments and regular expressions, the end of a braced and of an
  indented block, and the text of a block.
\<close>

section \<open>The scanner\<close>

text \<open>The depth, the open string with its quote and whether it is a triple one, and whether a block comment is open.\<close>

record brace_scanner =
  bs_depth :: nat
  bs_string :: "(char \<times> bool) option"
  bs_block :: bool

definition new_scanner :: "nat \<Rightarrow> brace_scanner" where
  "new_scanner d = \<lparr>bs_depth = d, bs_string = None, bs_block = False\<rparr>"

definition blank_byte :: "char \<Rightarrow> bool" where
  "blank_byte c \<longleftrightarrow> c = CHR '' '' \<or> c = CHR 0x09"

definition operand_end :: "char \<Rightarrow> bool" where
  "operand_end c \<longleftrightarrow> is_alpha c \<or> is_digit_byte c \<or>
     c \<in> {CHR ''_'', CHR ''$'', CHR '')'', CHR '']'', CHR ''}'', CHR 0x27, CHR 0x22, CHR 0x60}"

text \<open>\<^verbatim>\<open>isRegexStart\<close> on what is before the slash, reversed.\<close>

definition is_regex_start :: "string \<Rightarrow> bool" where
  "is_regex_start b =
     (case dropWhile blank_byte b of
        [] \<Rightarrow> True
      | prev # b' \<Rightarrow>
          if operand_end prev then False
          else if prev = CHR ''+'' \<or> prev = CHR ''-'' then
            (case dropWhile blank_byte b' of [] \<Rightarrow> True | p # _ \<Rightarrow> \<not> (p = CHR ''+'' \<or> p = CHR ''-''))
          else True)"

text \<open>\<^verbatim>\<open>scanRegexLiteral\<close>: what follows the literal, from what follows its first slash.\<close>

fun regex_rest :: "bool \<Rightarrow> string \<Rightarrow> string" where
  "regex_rest in_class [] = []"
| "regex_rest in_class (c # s) =
     (if c = CHR 0x5C then regex_rest in_class (tl s)
      else if c = CHR ''['' then regex_rest True s
      else if c = CHR '']'' then regex_rest False s
      else if c = CHR ''/'' \<and> \<not> in_class then s
      else regex_rest in_class s)"

lemma regex_rest_length: "length (regex_rest k s) \<le> length s"
proof (induction k s rule: regex_rest.induct)
  case (2 k c s)
  consider "c = CHR 0x5C" | "c \<noteq> CHR 0x5C" "c = CHR ''[''" | "c \<noteq> CHR 0x5C" "c \<noteq> CHR ''[''" "c = CHR '']''"
    | "c \<noteq> CHR 0x5C" "c \<noteq> CHR ''[''" "c \<noteq> CHR '']''" "\<not> (c = CHR ''/'' \<and> \<not> k)"
    | "c = CHR ''/'' \<and> \<not> k" "c \<noteq> CHR 0x5C" "c \<noteq> CHR ''[''" "c \<noteq> CHR '']''" by blast
  then show ?case
  proof cases
    case 1
    then show ?thesis using "2.IH"(1) by simp
  next
    case 2
    then show ?thesis using "2.IH"(2) by simp
  next
    case 3
    then show ?thesis using "2.IH"(3) by simp
  next
    case 4
    then show ?thesis using "2.IH"(4) by simp
  qed simp
qed simp

text \<open>\<^verbatim>\<open>scan\<close>: the line before the place, reversed, and from the place on; whether the block has closed.\<close>

function scan_from :: "string \<Rightarrow> string \<Rightarrow> brace_scanner \<Rightarrow> brace_scanner \<times> bool" where
  "scan_from b [] s = (s, False)"
| "scan_from b (c # r) s =
     (if bs_block s then
        if c = CHR ''*'' \<and> r \<noteq> [] \<and> hd r = CHR ''/'' then scan_from (hd r # c # b) (tl r) (s\<lparr>bs_block := False\<rparr>)
        else scan_from (c # b) r s
      else (case bs_string s of
        Some (q, triple) \<Rightarrow>
          if triple then
            if c = q \<and> prefix [q, q] r then scan_from (q # q # c # b) (drop 2 r) (s\<lparr>bs_string := None\<rparr>)
            else scan_from (c # b) r s
          else if c = CHR 0x5C \<and> r \<noteq> [] \<and> q \<noteq> CHR 0x60 then scan_from (hd r # c # b) (tl r) s
          else if c = q then scan_from (c # b) r (s\<lparr>bs_string := None\<rparr>)
          else scan_from (c # b) r s
      | None \<Rightarrow>
          if quote_char c then
            if prefix [c, c] r then scan_from (c # c # c # b) (drop 2 r) (s\<lparr>bs_string := Some (c, True)\<rparr>)
            else scan_from (c # b) r (s\<lparr>bs_string := Some (c, False)\<rparr>)
          else if c = CHR 0x60 then scan_from (c # b) r (s\<lparr>bs_string := Some (c, False)\<rparr>)
          else if c = CHR ''/'' \<and> r \<noteq> [] \<and> hd r = CHR ''/'' then (s, False)
          else if c = CHR ''/'' \<and> r \<noteq> [] \<and> hd r = CHR ''*'' then scan_from (hd r # c # b) (tl r) (s\<lparr>bs_block := True\<rparr>)
          else if c = CHR ''/'' \<and> r \<noteq> [] \<and> is_regex_start b then
            scan_from (rev (take (length r - length (regex_rest False r)) r) @ c # b) (regex_rest False r) s
          else if c = CHR ''{'' then scan_from (c # b) r (s\<lparr>bs_depth := Suc (bs_depth s)\<rparr>)
          else if c = CHR ''}'' \<and> 0 < bs_depth s then
            if bs_depth s = 1 then (s\<lparr>bs_depth := 0\<rparr>, True)
            else scan_from (c # b) r (s\<lparr>bs_depth := bs_depth s - 1\<rparr>)
          else scan_from (c # b) r s))"
  by pat_completeness auto
termination
  by (relation "measure (\<lambda>(b, r, s). length r)") (auto simp: le_imp_less_Suc [OF regex_rest_length])

declare scan_from.simps(2) [simp del]

definition scan_line :: "string \<Rightarrow> brace_scanner \<Rightarrow> brace_scanner \<times> bool" where
  "scan_line line s = scan_from [] line s"

section \<open>Ends of blocks\<close>

definition max_brace_scan_lines :: nat where
  "max_brace_scan_lines = 20000"

text \<open>The first of the lines in which the block closes.\<close>

fun closing_line :: "brace_scanner \<Rightarrow> string list \<Rightarrow> nat option" where
  "closing_line s [] = None"
| "closing_line s (l # ls) =
     (let (s', closed) = scan_line l s in if closed then Some 0 else map_option Suc (closing_line s' ls))"

definition find_brace_end :: "string list \<Rightarrow> nat \<Rightarrow> nat" where
  "find_brace_end lines start =
     (case closing_line (new_scanner 0) (take max_brace_scan_lines (drop start lines)) of
        None \<Rightarrow> start + 1 | Some k \<Rightarrow> start + k + 1)"

fun first_at :: "('a \<Rightarrow> bool) \<Rightarrow> 'a list \<Rightarrow> nat option" where
  "first_at P [] = None"
| "first_at P (x # xs) = (if P x then Some 0 else map_option Suc (first_at P xs))"

definition count_indent :: "string \<Rightarrow> nat" where
  "count_indent line = length (takeWhile blank_byte line)"

definition no_code :: "string \<Rightarrow> bool" where
  "no_code line \<longleftrightarrow> trim_space line = [] \<or> has_prefix (trim_space line) ''#''"

definition find_indent_end :: "string list \<Rightarrow> nat \<Rightarrow> nat" where
  "find_indent_end lines start =
     (case first_at (\<lambda>l. \<not> no_code l) (drop (start + 1) lines) of
        None \<Rightarrow> start + 1
      | Some k \<Rightarrow>
          (let i = start + 1 + k; base = count_indent (lines ! i) in
           if base = 0 then start + 1
           else (case first_at (\<lambda>l. \<not> no_code l \<and> count_indent l < base) (drop (i + 1) lines) of
                   None \<Rightarrow> length lines | Some j \<Rightarrow> i + 1 + j)))"

definition extract_body :: "string list \<Rightarrow> nat \<Rightarrow> nat \<Rightarrow> string" where
  "extract_body lines start stop = join_with [newline] (drop start (take stop lines))"

section \<open>The ends lie in the file\<close>

lemma first_at_Some: "first_at P xs = Some k \<Longrightarrow> k < length xs \<and> P (xs ! k) \<and> (\<forall>j<k. \<not> P (xs ! j))"
  by (induction xs arbitrary: k) (auto simp: less_Suc_eq_0_disj split: if_splits)

lemma first_at_None: "first_at P xs = None \<longleftrightarrow> (\<forall>x\<in>set xs. \<not> P x)"
  by (induction xs) auto

lemma closing_line_less: "closing_line s ls = Some k \<Longrightarrow> k < length ls"
  by (induction ls arbitrary: s k) (auto simp: split_beta Let_def split: if_splits)

lemma find_brace_end_bounds:
  "start < length lines \<Longrightarrow> start < find_brace_end lines start \<and> find_brace_end lines start \<le> length lines"
  using closing_line_less [of "new_scanner 0" "take max_brace_scan_lines (drop start lines)"]
  unfolding find_brace_end_def by (fastforce split: option.splits)

lemma find_indent_end_bounds:
  "start < length lines \<Longrightarrow> start < find_indent_end lines start \<and> find_indent_end lines start \<le> length lines"
  unfolding find_indent_end_def Let_def
  by (auto dest!: first_at_Some split: option.splits)

section \<open>Braces alone\<close>

text \<open>
  A line without quotes, slashes and backquotes leaves the scanner to its braces: the block closes with
  the first brace that brings the depth back to zero.
\<close>

definition plain_byte :: "char \<Rightarrow> bool" where
  "plain_byte c \<longleftrightarrow> \<not> quote_char c \<and> c \<noteq> CHR 0x60 \<and> c \<noteq> CHR ''/''"

fun depth_step :: "char \<Rightarrow> nat \<Rightarrow> nat" where
  "depth_step c d = (if c = CHR ''{'' then Suc d else if c = CHR ''}'' then d - 1 else d)"

definition depth_of :: "nat \<Rightarrow> string \<Rightarrow> nat" where
  "depth_of d s = foldl (\<lambda>d c. depth_step c d) d s"

text \<open>The text comes back to depth zero at one of its closing braces.\<close>

fun returns :: "nat \<Rightarrow> string \<Rightarrow> bool" where
  "returns d [] = False"
| "returns d (c # s) = (d = 1 \<and> c = CHR ''}'' \<or> returns (depth_step c d) s)"

lemma returns_append: "returns d (s @ t) \<longleftrightarrow> returns d s \<or> returns (depth_of d s) t"
  by (induction s arbitrary: d) (auto simp: depth_of_def)

lemma scan_from_plain:
  "\<forall>c\<in>set r. plain_byte c \<Longrightarrow> snd (scan_from b r (new_scanner d)) = returns d r
     \<and> (\<not> returns d r \<longrightarrow> fst (scan_from b r (new_scanner d)) = new_scanner (depth_of d r))"
proof (induction r arbitrary: b d)
  case (Cons c r)
  have plain: "plain_byte c" "\<forall>c\<in>set r. plain_byte c" using Cons.prems by simp_all
  have "scan_from b (c # r) (new_scanner d) =
      (if d = 1 \<and> c = CHR ''}'' then (new_scanner 0, True) else scan_from (c # b) r (new_scanner (depth_step c d)))"
    using plain(1) by (auto simp: scan_from.simps(2) plain_byte_def new_scanner_def)
  then show ?case using Cons.IH [OF plain(2), of "c # b" "depth_step c d"]
    by (auto simp: depth_of_def simp del: depth_step.simps)
qed (simp add: depth_of_def)

lemma closing_line_plain:
  assumes "\<forall>l\<in>set ls. \<forall>c\<in>set l. plain_byte c"
  shows "closing_line (new_scanner d) ls = Some k \<longleftrightarrow>
    k < length ls \<and> returns d (concat (take (Suc k) ls)) \<and> \<not> returns d (concat (take k ls))"
  using assms
proof (induction ls arbitrary: d k)
  case (Cons l ls)
  have plain: "\<forall>c\<in>set l. plain_byte c" using Cons.prems by simp
  show ?case
  proof (cases "returns d l")
    case True
    then have "closing_line (new_scanner d) (l # ls) = Some 0"
      using scan_from_plain [OF plain, of "[]" d] by (simp add: scan_line_def split_beta Let_def)
    then show ?thesis using True by (cases k) (auto simp: returns_append)
  next
    case False
    have "scan_line l (new_scanner d) = (new_scanner (depth_of d l), False)"
      using scan_from_plain [OF plain, of "[]" d] False by (simp add: scan_line_def prod_eq_iff)
    then have "closing_line (new_scanner d) (l # ls) = map_option Suc (closing_line (new_scanner (depth_of d l)) ls)" by simp
    then show ?thesis using False Cons.IH [of "depth_of d l"] Cons.prems
      by (cases k) (auto simp: returns_append)
  qed
qed simp

end
