(* ===== verification/Extract_Core.thy ===== *)
theory Extract_Core
  imports Index_Builder Regexp_Words Block_Ends
begin

text \<open>
  What the extractors that read a file line by line share (\<^verbatim>\<open>internal/extraction/extractor_core.go\<close>): the
  normal form of the source, the loop over its lines, the calls in the lines of a body, and the calls
  turned into references that name the definition they stand in.
\<close>

section \<open>The source\<close>

definition utf8_bom :: string where
  "utf8_bom = [CHR 0xEF, CHR 0xBB, CHR 0xBF]"

definition carriage :: char where
  "carriage = CHR 0x0D"

fun lf_lines :: "string \<Rightarrow> string" where
  "lf_lines [] = []"
| "lf_lines (c # s) = (if c = carriage \<and> s \<noteq> [] \<and> hd s = newline then lf_lines s else c # lf_lines s)"

definition normalize_source :: "string \<Rightarrow> string" where
  "normalize_source source = lf_lines (trim_prefix source utf8_bom)"

section \<open>Nodes and edges of a line\<close>

definition found_node :: "string \<Rightarrow> string \<Rightarrow> nat \<Rightarrow> nat \<Rightarrow> string \<Rightarrow> xnode" where
  "found_node kind name line stop body =
     \<lparr>x_kind = kind, x_name = name, x_line = int line, x_end_line = int stop, x_body = body, x_qname = [],
      x_signature = [], x_docstring = [], x_visibility = [], x_exported = False, x_return = [],
      x_start_col = 0, x_end_col = 0\<rparr>"

definition found_edge :: "string \<Rightarrow> string \<Rightarrow> string \<Rightarrow> nat \<Rightarrow> xedge" where
  "found_edge kind source target line =
     \<lparr>xe_source = source, xe_target = target, xe_kind = kind, xe_line = int line, xe_col = 0\<rparr>"

text \<open>
  The loop over the lines: every line is handled with its index and what the lines before it left behind.
\<close>

fun over_lines ::
    "('s \<Rightarrow> nat \<Rightarrow> string \<Rightarrow> 's \<times> xnode list \<times> xedge list) \<Rightarrow> 's \<Rightarrow> nat \<Rightarrow> string list \<Rightarrow> xnode list \<times> xedge list" where
  "over_lines f s i [] = ([], [])"
| "over_lines f s i (l # ls) =
     (let (s', ns, es) = f s i l; (ns', es') = over_lines f s' (Suc i) ls in (ns @ ns', es @ es'))"

text \<open>\<^verbatim>\<open>appendCallEdges\<close>: the calls in the lines from one index up to another, each name once a line.\<close>

definition call_edges ::
    "string \<Rightarrow> string list \<Rightarrow> nat \<Rightarrow> nat \<Rightarrow> re \<Rightarrow> string set \<Rightarrow> (string \<Rightarrow> bool) \<Rightarrow> xedge list" where
  "call_edges source lines start stop call_re exclude is_keyword =
     dedup_by (\<lambda>e. (xe_target e, xe_line e)) {}
       [found_edge edge_calls source (group_text m 1) (Suc li).
          li \<leftarrow> [start..<min stop (length lines)], m \<leftarrow> find_all call_re [] (lines ! li),
          group_text m 1 \<notin> exclude, \<not> is_keyword (group_text m 1)]"

section \<open>Calls as references\<close>

definition last_line :: "xnode \<Rightarrow> int" where
  "last_line n = (if x_end_line n = 0 then x_line n else x_end_line n)"

definition spans_line :: "int \<Rightarrow> xnode \<Rightarrow> bool" where
  "spans_line line n \<longleftrightarrow> x_line n \<le> line \<and> line \<le> last_line n"

definition enclosing_def_line :: "xnode list \<Rightarrow> int \<Rightarrow> int" where
  "enclosing_def_line ns line =
     (case foldl (\<lambda>best n. if spans_line line n \<and> (best = None \<or> x_line (the best) \<le> x_line n) then Some n else best) None ns of
        Some n \<Rightarrow> x_line n
      | None \<Rightarrow>
          (case foldl (\<lambda>best n. if x_line n \<le> line \<and> (best = None \<or> x_line (the best) < x_line n) then Some n else best) None ns of
             Some n \<Rightarrow> x_line n
           | None \<Rightarrow> if ns = [] then 0 else x_line (hd ns)))"

definition call_ref :: "xnode list \<Rightarrow> xedge \<Rightarrow> xref" where
  "call_ref nodes e =
     (let ns = sort_key x_line (filter (\<lambda>n. x_name n = xe_source e) nodes) in
      \<lparr>xr_from = xe_source e, xr_from_line = (if ns = [] then 0 else enclosing_def_line ns (xe_line e)),
       xr_name = xe_target e, xr_kind = edge_calls, xr_line = xe_line e, xr_col = xe_col e\<rparr>)"

definition promote_calls_to_refs :: "xnode list \<Rightarrow> xedge list \<Rightarrow> extraction" where
  "promote_calls_to_refs nodes edges =
     \<lparr>ex_nodes = nodes, ex_edges = filter (\<lambda>e. xe_kind e \<noteq> edge_calls) edges,
      ex_refs = map (call_ref nodes) (filter (\<lambda>e. xe_kind e = edge_calls) edges)\<rparr>"

section \<open>Line endings\<close>

text \<open>A file with its line feeds written as carriage return and line feed.\<close>

definition crlf :: "string \<Rightarrow> string" where
  "crlf s = concat (map (\<lambda>c. if c = newline then [carriage, newline] else [c]) s)"

lemma lf_lines_newline: "lf_lines (carriage # newline # s) = newline # lf_lines s"
  by (simp add: carriage_def)

lemma lf_lines_crlf: "carriage \<notin> set s \<Longrightarrow> lf_lines (crlf s) = s"
proof (induction s)
  case (Cons c s)
  show ?case
  proof (cases "c = newline")
    case True
    then have "lf_lines (crlf (c # s)) = lf_lines (carriage # newline # crlf s)" by (simp add: crlf_def)
    then show ?thesis using Cons True by (simp only: lf_lines_newline) simp
  next
    case False
    then have "lf_lines (crlf (c # s)) = lf_lines (c # crlf s)" by (simp add: crlf_def)
    then show ?thesis using Cons by auto
  qed
qed (simp add: crlf_def)

lemma lf_lines_none: "carriage \<notin> set s \<Longrightarrow> lf_lines s = s"
  by (induction s) auto

section \<open>The definition a call stands in\<close>

text \<open>A loop that keeps an element that is at least as good finds one that is best.\<close>

lemma keep_best:
  fixes key :: "'a \<Rightarrow> int"
  assumes step: "\<And>b n. step b n = (if P n \<and> (b = None \<or> better (key (the b)) (key n)) then Some n else b)"
    and "\<And>x y. better x y \<Longrightarrow> x \<le> y" "\<And>x y. x < y \<Longrightarrow> better x y"
  shows "(foldl step best ns = None \<longrightarrow> best = None \<and> (\<forall>n\<in>set ns. \<not> P n))
    \<and> (\<forall>m. foldl step best ns = Some m \<longrightarrow>
        (m \<in> set ns \<and> P m \<or> best = Some m) \<and> (\<forall>n\<in>set ns. P n \<longrightarrow> key n \<le> key m)
        \<and> (\<forall>b. best = Some b \<longrightarrow> key b \<le> key m))"
proof (induction ns arbitrary: best)
  case (Cons n ns)
  have none: "best = None \<and> \<not> P n" if "step best n = None"
    using that by (auto simp: step split: if_splits)
  have some: "(b = n \<and> P n \<or> best = Some b) \<and> (P n \<longrightarrow> key n \<le> key b) \<and> (\<forall>b0. best = Some b0 \<longrightarrow> key b0 \<le> key b)"
    if "step best n = Some b" for b
    using that assms(2) [of "key (the best)" "key n"] assms(3) [of "key (the best)" "key n"]
    by (cases best) (auto simp: step not_le [symmetric] split: if_splits)
  show ?case
  proof (intro conjI impI allI)
    assume "foldl step best (n # ns) = None"
    then show "best = None" "\<forall>m\<in>set (n # ns). \<not> P m" using Cons.IH [of "step best n"] none by auto
  next
    fix m
    assume "foldl step best (n # ns) = Some m"
    then have m: "m \<in> set ns \<and> P m \<or> step best n = Some m" "\<forall>n\<in>set ns. P n \<longrightarrow> key n \<le> key m"
        "\<forall>b. step best n = Some b \<longrightarrow> key b \<le> key m"
      using Cons.IH [of "step best n"] by simp_all
    show "m \<in> set (n # ns) \<and> P m \<or> best = Some m" using m(1) some [of m] by auto
    have low: "(P n \<longrightarrow> key n \<le> key m) \<and> (\<forall>b0. best = Some b0 \<longrightarrow> key b0 \<le> key m)"
    proof (cases "step best n")
      case None
      then show ?thesis using none by simp
    next
      case (Some b)
      then have "key b \<le> key m" using m(3) by blast
      then show ?thesis using some [OF Some] by (smt (verit, best))
    qed
    then show "\<forall>k\<in>set (n # ns). P k \<longrightarrow> key k \<le> key m" using m(2) by simp
    fix b
    assume "best = Some b"
    then show "key b \<le> key m" using low by blast
  qed
qed simp

text \<open>The line of the innermost definition around a call, of the nearest one before it, of the first one.\<close>

lemma enclosing_def_line_spec:
  assumes "ns \<noteq> []"
  shows "\<exists>n\<in>set ns. enclosing_def_line ns line = x_line n
      \<and> (spans_line line n \<and> (\<forall>m\<in>set ns. spans_line line m \<longrightarrow> x_line m \<le> x_line n)
         \<or> (\<forall>m\<in>set ns. \<not> spans_line line m) \<and> x_line n \<le> line \<and> (\<forall>m\<in>set ns. x_line m \<le> line \<longrightarrow> x_line m \<le> x_line n)
         \<or> (\<forall>m\<in>set ns. line < x_line m) \<and> n = hd ns)"
proof -
  let ?f = "\<lambda>best n. if spans_line line n \<and> (best = None \<or> x_line (the best) \<le> x_line n) then Some n else best"
  let ?g = "\<lambda>best n. if x_line n \<le> line \<and> (best = None \<or> x_line (the best) < x_line n) then Some n else best"
  note f = keep_best [of ?f "spans_line line" "(\<le>)" x_line None ns, OF refl, simplified]
  note g = keep_best [of ?g "\<lambda>n. x_line n \<le> line" "(<)" x_line None ns, OF refl, simplified]
  show ?thesis
  proof (cases "foldl ?f None ns")
    case (Some n)
    then have "spans_line line n \<and> n \<in> set ns \<and> (\<forall>m\<in>set ns. spans_line line m \<longrightarrow> x_line m \<le> x_line n)"
      using f [THEN conjunct2, THEN spec, THEN mp, OF Some] by blast
    moreover have "enclosing_def_line ns line = x_line n" using Some by (simp add: enclosing_def_line_def)
    ultimately show ?thesis by blast
  next
    case None
    then have out: "\<forall>m\<in>set ns. \<not> spans_line line m" using f [THEN conjunct1, THEN mp, OF None] by blast
    show ?thesis
    proof (cases "foldl ?g None ns")
      case (Some n)
      then have "x_line n \<le> line \<and> n \<in> set ns \<and> (\<forall>m\<in>set ns. x_line m \<le> line \<longrightarrow> x_line m \<le> x_line n)"
        using g [THEN conjunct2, THEN spec, THEN mp, OF Some] by blast
      moreover have "enclosing_def_line ns line = x_line n" using Some None by (simp add: enclosing_def_line_def)
      ultimately show ?thesis using out by blast
    next
      case none: None
      then have "\<forall>m\<in>set ns. \<not> x_line m \<le> line" using g [THEN conjunct1, THEN mp, OF none] by blast
      moreover have "enclosing_def_line ns line = x_line (hd ns)" using none None assms by (simp add: enclosing_def_line_def)
      ultimately show ?thesis using assms by (intro bexI [of _ "hd ns"]) auto
    qed
  qed
qed

section \<open>The calls of a body\<close>

lemma call_edges_in:
  assumes "e \<in> set (call_edges source lines start stop call_re exclude is_keyword)"
  shows "xe_kind e = edge_calls \<and> xe_source e = source \<and> xe_target e \<notin> exclude \<and> \<not> is_keyword (xe_target e)
    \<and> int start < xe_line e \<and> xe_line e \<le> int (min stop (length lines))
    \<and> (\<exists>m\<in>set (find_all call_re [] (lines ! nat (xe_line e - 1))). xe_target e = group_text m 1)"
  using assms set_dedup_by unfolding call_edges_def by (fastforce simp: found_edge_def)

end
