(* ===== verification/Line_Extractors.thy ===== *)
theory Line_Extractors
  imports Extract_Core Synth_Channels
begin

text \<open>
  The extractors for Go, JavaScript and Python and those that only list declarations
  (\<^verbatim>\<open>internal/extraction/extractor_c_braced.go\<close>, \<^verbatim>\<open>extractor_python_rust.go\<close>, \<^verbatim>\<open>extractor_generic.go\<close>,
  \<^verbatim>\<open>extractor_misc.go\<close>): what a line adds to the nodes and edges of its file, from the patterns it matches.
\<close>

section \<open>Patterns\<close>

definition dquote :: char where
  "dquote = CHR 0x22"

definition js_start :: "char \<Rightarrow> bool" where
  "js_start c \<longleftrightarrow> ident_start c \<or> c = CHR ''$''"

definition js_rest :: "char \<Rightarrow> bool" where
  "js_rest c \<longleftrightarrow> is_word c \<or> c = CHR ''$''"

definition js_ident :: re where
  "js_ident = Then (Byte js_start) (any_of js_rest)"

definition except :: "char set \<Rightarrow> char \<Rightarrow> bool" where
  "except cs c \<longleftrightarrow> c \<notin> cs"

text \<open>\<^verbatim>\<open>\b(\w+)\s*\(\<close> of Go, JavaScript and Python.\<close>

definition call_re :: re where
  "call_re = seq [Word_edge, Group 1 word_plus, opt_spaces, lit ''('']"

definition go_func_re :: re where
  "go_func_re = seq [Text_start, lit ''func'', spaces,
     Maybe (seq [lit ''('', any_of (except {CHR '')''}), lit '')'', spaces]), Group 1 word_plus, opt_spaces, lit ''('']"

definition go_type_re :: re where
  "go_type_re = seq [Text_start, lit ''type'', spaces, Group 1 word_plus, spaces,
     Group 2 (one_of [''struct'', ''interface'']), Word_edge]"

definition go_import_re :: re where
  "go_import_re = seq [lit [dquote], Group 1 (some_of (except {dquote})), lit [dquote]]"

definition js_func_re :: re where
  "js_func_re = seq [Maybe (Then (lit ''export'') spaces), Maybe (Then (lit ''async'') spaces), lit ''function'', spaces,
     Group 1 word_plus, opt_spaces, lit ''('']"

definition js_class_re :: re where
  "js_class_re = seq [Maybe (Then (lit ''export'') spaces), lit ''class'', spaces, Group 1 word_plus]"

definition quoted :: "nat \<Rightarrow> re" where
  "quoted i = seq [Byte quote_char, Group i (some_of (\<lambda>c. \<not> quote_char c)), Byte quote_char]"

definition js_import_re :: re where
  "js_import_re = Either (seq [lit ''from'', spaces, quoted 1])
     (seq [lit ''require'', opt_spaces, lit ''('', opt_spaces, quoted 2, opt_spaces, lit '')''])"

definition js_arrow_re :: re where
  "js_arrow_re = seq [Text_start, Maybe (Then (lit ''export'') spaces), one_of [''const'', ''let'', ''var''], spaces,
     Group 1 js_ident, opt_spaces, lit ''='', opt_spaces, Maybe (Then (lit ''async'') opt_spaces),
     Either (seq [lit ''('', any_of (except {CHR '')''}), lit '')'']) js_ident, opt_spaces, lit ''=>'']"

definition js_method_re :: re where
  "js_method_re = seq [Text_start,
     Many (Then (one_of [''public'', ''private'', ''protected'', ''static'', ''async'']) spaces),
     Maybe (Either (Then (lit ''get'') spaces) (Then (lit ''set'') spaces)), Group 1 js_ident, opt_spaces, lit ''('']"

definition not_space :: "char \<Rightarrow> bool" where
  "not_space c \<longleftrightarrow> \<not> re_space c"

definition py_func_re :: re where
  "py_func_re = seq [Text_start, lit ''def'', spaces, Group 1 word_plus, opt_spaces, lit ''('']"

definition py_class_re :: re where
  "py_class_re = seq [Text_start, lit ''class'', spaces, Group 1 word_plus]"

definition py_import_re :: re where
  "py_import_re = Either (seq [lit ''from'', spaces, Group 1 (some_of not_space), spaces, lit ''import''])
     (seq [lit ''import'', spaces, Group 2 (some_of not_space)])"

definition generic_func_re :: re where
  "generic_func_re = seq [one_of [''function'', ''def'', ''fn'', ''func''], spaces, Group 1 word_plus, opt_spaces, lit ''('']"

definition generic_class_re :: re where
  "generic_class_re = seq [one_of [''class'', ''struct'', ''interface''], spaces, Group 1 word_plus]"

definition digits_then :: "string \<Rightarrow> string \<Rightarrow> re" where
  "digits_then s t = seq [lit s, some_of is_digit_byte, lit t]"

definition c_style_func_re :: re where
  "c_style_func_re = seq [Text_start,
     Many (Then (one_of [''static'', ''inline'', ''extern'', ''const'', ''unsigned'', ''signed'', ''volatile'']) spaces),
     Either (one_of [''void'', ''int'', ''char'', ''float'', ''double'', ''long'', ''short'', ''bool'', ''size_t'', ''ssize_t''])
       (Either (digits_then ''uint'' ''_t'') (Either (digits_then ''int'' ''_t'')
         (some_of (\<lambda>c. is_word c \<or> c = CHR '':'')))),
     opt_spaces, Maybe (lit ''*''), spaces, Group 1 word_plus, opt_spaces, lit ''('']"

definition objc_method_re :: re where
  "objc_method_re = seq [Text_start, Byte (\<lambda>c. c = CHR ''-'' \<or> c = CHR ''+''), opt_spaces, lit ''('',
     some_of (except {CHR '')''}), lit '')'', opt_spaces, Group 1 word_plus]"

definition objc_class_re :: re where
  "objc_class_re = seq [lit ''@interface'', spaces, Group 1 word_plus]"

definition objc_import_re :: re where
  "objc_import_re = seq [lit ''#import'', spaces, Byte (\<lambda>c. c = CHR ''<'' \<or> c = dquote),
     Group 1 (some_of (except {CHR ''>'', dquote})), Byte (\<lambda>c. c = CHR ''>'' \<or> c = dquote)]"

definition liquid_re :: "string \<Rightarrow> re" where
  "liquid_re tag = seq [lit ''{%'', opt_spaces, lit tag, spaces, quoted 1, opt_spaces, lit ''%}'']"

definition lua_func_re :: re where
  "lua_func_re = seq [Maybe (Then (lit ''local'') spaces), lit ''function'', spaces,
     Group 1 (Then word_plus (Many (Then (lit ''.'') word_plus))), opt_spaces, lit ''('']"

definition lua_method_re :: re where
  "lua_method_re = seq [lit ''function'', spaces, Group 1 word_plus, lit '':'', Group 2 word_plus, opt_spaces, lit ''('']"

definition lua_require_re :: re where
  "lua_require_re = seq [lit ''require'', opt_spaces, lit ''('', opt_spaces, quoted 1, opt_spaces, lit '')'']"

text \<open>\<^verbatim>\<open>\w\<close> under \<^verbatim>\<open>(?i)\<close>: the fold of the letters adds the long s and the Kelvin sign.\<close>

definition folded_words :: re where
  "folded_words = (let w = Either (Byte is_word) (Either (lit [CHR 0xC5, CHR 0xBF]) (lit [CHR 0xE2, CHR 0x84, CHR 0xAA]))
     in Then w (Many w))"

definition pascal_params :: re where
  "pascal_params = Maybe (seq [lit ''('', any_of (except {CHR '')''}), lit '')''])"

definition pascal_func_re :: re where
  "pascal_func_re = seq [folded_lit ''function'', spaces, Group 1 folded_words, opt_spaces, pascal_params, opt_spaces, lit '':'']"

definition pascal_proc_re :: re where
  "pascal_proc_re = seq [folded_lit ''procedure'', spaces, Group 1 folded_words, opt_spaces, pascal_params, opt_spaces, lit '';'']"

definition pascal_class_re :: re where
  "pascal_class_re = seq [Group 1 folded_words, opt_spaces, lit ''='', opt_spaces, folded_lit ''class'']"

definition pascal_unit_re :: re where
  "pascal_unit_re = seq [folded_lit ''unit'', spaces, Group 1 folded_words, opt_spaces, lit '';'']"

section \<open>Keywords\<close>

definition is_go_keyword :: "string \<Rightarrow> bool" where
  "is_go_keyword s \<longleftrightarrow> s \<in> set [''if'', ''else'', ''for'', ''range'', ''switch'', ''case'', ''default'', ''select'',
     ''defer'', ''go'', ''goto'', ''return'', ''break'', ''continue'', ''fallthrough'', ''var'', ''const'', ''type'',
     ''func'', ''struct'', ''interface'', ''map'', ''chan'', ''package'', ''import'', ''true'', ''false'', ''nil'', ''_'']"

definition is_js_keyword :: "string \<Rightarrow> bool" where
  "is_js_keyword s \<longleftrightarrow> s \<in> set [''if'', ''else'', ''for'', ''while'', ''do'', ''switch'', ''case'', ''default'',
     ''break'', ''continue'', ''return'', ''throw'', ''try'', ''catch'', ''finally'', ''var'', ''let'', ''const'',
     ''function'', ''class'', ''new'', ''delete'', ''typeof'', ''instanceof'', ''void'', ''this'', ''super'', ''import'',
     ''export'', ''from'', ''async'', ''await'', ''yield'', ''null'', ''undefined'', ''true'', ''false'', ''debugger'',
     ''with'', ''in'', ''of'']"

definition is_python_keyword :: "string \<Rightarrow> bool" where
  "is_python_keyword s \<longleftrightarrow> s \<in> set [''if'', ''elif'', ''else'', ''for'', ''while'', ''break'', ''continue'', ''pass'',
     ''return'', ''yield'', ''raise'', ''try'', ''except'', ''finally'', ''with'', ''as'', ''def'', ''class'', ''lambda'',
     ''and'', ''or'', ''not'', ''is'', ''in'', ''True'', ''False'', ''None'', ''import'', ''from'', ''global'',
     ''nonlocal'', ''assert'', ''del'', ''async'', ''await'', ''match'', ''case'']"

section \<open>What the lines have in common\<close>

definition block_node :: "string \<Rightarrow> string \<Rightarrow> string list \<Rightarrow> nat \<Rightarrow> nat \<Rightarrow> xnode" where
  "block_node kind name lines i stop = found_node kind name (Suc i) stop (extract_body lines i stop)"

definition line_node :: "string \<Rightarrow> string \<Rightarrow> nat \<Rightarrow> xnode" where
  "line_node kind name i = found_node kind name (Suc i) (Suc i) []"

text \<open>The edge of an import, if the pattern names one.\<close>

definition import_found :: "string \<Rightarrow> nat \<Rightarrow> string \<Rightarrow> xedge list" where
  "import_found path i target = (if target = [] then [] else [found_edge edge_imports path target (Suc i)])"

text \<open>A function with a block of braces or of indented lines, and the calls in it.\<close>

definition with_calls ::
    "(string \<Rightarrow> bool) \<Rightarrow> string \<Rightarrow> string \<Rightarrow> string list \<Rightarrow> nat \<Rightarrow> nat \<Rightarrow> xnode list \<times> xedge list" where
  "with_calls is_keyword kind name lines i stop =
     ([block_node kind name lines i stop], call_edges name lines i stop call_re {name} is_keyword)"

section \<open>Go\<close>

definition go_kind :: "string \<Rightarrow> string \<Rightarrow> string" where
  "go_kind t name =
     (case (index_byte (CHR ''('') t, index_str name t) of
        (Some a, Some b) \<Rightarrow> if a < b then kind_method else kind_function
      | _ \<Rightarrow> kind_function)"

definition go_line :: "string \<Rightarrow> string list \<Rightarrow> bool \<Rightarrow> nat \<Rightarrow> string \<Rightarrow> bool \<times> xnode list \<times> xedge list" where
  "go_line path lines in_import i line =
     (let t = trim_space line;
          imported = (case find_submatch go_import_re t of None \<Rightarrow> [] | Some m \<Rightarrow> import_found path i (m 1)) in
      if has_prefix t ''import ('' then (True, [], [])
      else if in_import then if t = '')'' then (False, [], []) else (True, [], imported)
      else if has_prefix t ''import '' then (False, [], imported)
      else (False, case find_submatch go_type_re t of
        Some m \<Rightarrow> ([block_node (if m 2 = ''interface'' then ''interface'' else ''struct'') (m 1) lines i (find_brace_end lines i)], [])
      | None \<Rightarrow>
          (case find_submatch go_func_re t of
             Some m \<Rightarrow> with_calls is_go_keyword (go_kind t (m 1)) (m 1) lines i (find_brace_end lines i)
           | None \<Rightarrow> ([], []))))"

definition extract_go :: "string \<Rightarrow> string \<Rightarrow> xnode list \<times> xedge list" where
  "extract_go source path = (let lines = split_on newline source in over_lines (go_line path lines) False 0 lines)"

section \<open>JavaScript\<close>

definition js_member :: "string \<Rightarrow> string list \<Rightarrow> nat \<Rightarrow> string \<Rightarrow> xnode list \<times> xedge list" where
  "js_member cls lines i line =
     (let t = trim_space line in
      if t = [] \<or> has_prefix t ''//'' then ([], [])
      else (case find_submatch js_method_re t of
        None \<Rightarrow> ([], [])
      | Some m \<Rightarrow>
          (let name = m 1; stop = find_brace_end lines i in
           if is_js_keyword name then ([], [])
           else ([(block_node kind_method name lines i stop)\<lparr>x_qname := cls @ ''.'' @ name\<rparr>],
                 found_edge edge_contains cls name (Suc i) # call_edges name lines i stop call_re {name} is_js_keyword))))"

text \<open>\<^verbatim>\<open>extractJSClassMethods\<close>: the scanner starts inside the class, and only lines at its depth are members.\<close>

definition js_member_step ::
    "string \<Rightarrow> string list \<Rightarrow> brace_scanner \<Rightarrow> nat \<Rightarrow> string \<Rightarrow> brace_scanner \<times> xnode list \<times> xedge list" where
  "js_member_step cls lines sc i line =
     (fst (scan_line line sc), if bs_depth sc = 1 then js_member cls lines i line else ([], []))"

definition js_class_methods :: "string \<Rightarrow> string list \<Rightarrow> nat \<Rightarrow> nat \<Rightarrow> xnode list \<times> xedge list" where
  "js_class_methods cls lines start stop =
     over_lines (js_member_step cls lines) (new_scanner 1) start (drop start (take stop lines))"

definition js_line :: "string \<Rightarrow> string list \<Rightarrow> unit \<Rightarrow> nat \<Rightarrow> string \<Rightarrow> unit \<times> xnode list \<times> xedge list" where
  "js_line path lines u i line =
     (let t = trim_space line; stop = find_brace_end lines i in
      ((), case find_submatch js_import_re t of
        Some m \<Rightarrow> ([], import_found path i (if m 1 = [] then m 2 else m 1))
      | None \<Rightarrow> (case find_submatch js_class_re t of
        Some m \<Rightarrow> (let (ns, es) = js_class_methods (m 1) lines (Suc i) stop
                   in (block_node kind_class (m 1) lines i stop # ns, es))
      | None \<Rightarrow> (case find_submatch js_arrow_re t of
        Some m \<Rightarrow> with_calls is_js_keyword (if m 1 \<noteq> [] \<and> is_upper_byte (hd (m 1)) then ''component'' else kind_function)
                    (m 1) lines i stop
      | None \<Rightarrow> (case find_submatch js_func_re t of
        Some m \<Rightarrow> with_calls is_js_keyword kind_function (m 1) lines i stop
      | None \<Rightarrow> ([], []))))))"

definition extract_js :: "string \<Rightarrow> string \<Rightarrow> xnode list \<times> xedge list" where
  "extract_js source path = (let lines = split_on newline source in over_lines (js_line path lines) () 0 lines)"

section \<open>Python\<close>

definition py_line :: "string \<Rightarrow> string list \<Rightarrow> unit \<Rightarrow> nat \<Rightarrow> string \<Rightarrow> unit \<times> xnode list \<times> xedge list" where
  "py_line path lines u i line =
     (let t = trim_space line; stop = find_indent_end lines i in
      ((), case find_submatch py_import_re t of
        Some m \<Rightarrow> ([], import_found path i (if m 1 = [] then m 2 else m 1))
      | None \<Rightarrow> (case find_submatch py_class_re t of
        Some m \<Rightarrow> ([block_node kind_class (m 1) lines i stop], [])
      | None \<Rightarrow> (case find_submatch py_func_re t of
        Some m \<Rightarrow> with_calls is_python_keyword kind_function (m 1) lines i stop
      | None \<Rightarrow> ([], [])))))"

definition extract_python :: "string \<Rightarrow> string \<Rightarrow> xnode list \<times> xedge list" where
  "extract_python source path = (let lines = split_on newline source in over_lines (py_line path lines) () 0 lines)"

section \<open>Any language\<close>

definition c_function :: "string \<Rightarrow> string \<Rightarrow> string option" where
  "c_function language t =
     (if language = ''c'' \<or> language = ''cpp'' then
        (case find_submatch c_style_func_re t of
           Some m \<Rightarrow> if m 1 \<notin> {''if'', ''for'', ''while'', ''switch''} \<and> \<not> has_suffix t '';'' then Some (m 1) else None
         | None \<Rightarrow> None)
      else None)"

definition generic_line :: "string \<Rightarrow> string list \<Rightarrow> unit \<Rightarrow> nat \<Rightarrow> string \<Rightarrow> unit \<times> xnode list \<times> xedge list" where
  "generic_line language lines u i line =
     (let t = trim_space line; stop = find_brace_end lines i in
      ((), case find_submatch generic_func_re t of
        Some m \<Rightarrow> [block_node kind_function (m 1) lines i stop]
      | None \<Rightarrow> (case c_function language t of
        Some name \<Rightarrow> [block_node kind_function name lines i stop]
      | None \<Rightarrow> (case find_submatch generic_class_re t of
        Some m \<Rightarrow> [block_node kind_class (m 1) lines i stop]
      | None \<Rightarrow> [])), []))"

definition extract_generic :: "string \<Rightarrow> string \<Rightarrow> xnode list \<times> xedge list" where
  "extract_generic language source =
     (let lines = split_on newline source in over_lines (generic_line language lines) () 0 lines)"

section \<open>Declarations alone\<close>

text \<open>The node of the first pattern of a list that matches, with its kind and the group of its name.\<close>

fun first_declared :: "(re \<times> string \<times> nat) list \<Rightarrow> string \<Rightarrow> nat \<Rightarrow> xnode list" where
  "first_declared [] t i = []"
| "first_declared ((r, kind, g) # ds) t i =
     (case find_submatch r t of Some m \<Rightarrow> [line_node kind (m g) i] | None \<Rightarrow> first_declared ds t i)"

definition declared_line ::
    "string \<Rightarrow> re option \<Rightarrow> (re \<times> string \<times> nat) list \<Rightarrow> unit \<Rightarrow> nat \<Rightarrow> string \<Rightarrow> unit \<times> xnode list \<times> xedge list" where
  "declared_line path import_re ds u i line =
     (let t = trim_space line in
      ((), case (case import_re of None \<Rightarrow> None | Some r \<Rightarrow> find_submatch r t) of
        Some m \<Rightarrow> ([], import_found path i (m 1))
      | None \<Rightarrow> (first_declared ds t i, [])))"

definition extract_objc :: "string \<Rightarrow> string \<Rightarrow> xnode list \<times> xedge list" where
  "extract_objc source path =
     over_lines (declared_line path (Some objc_import_re) [(objc_class_re, kind_class, 1), (objc_method_re, kind_method, 1)])
       () 0 (split_on newline source)"

definition extract_lua :: "string \<Rightarrow> string \<Rightarrow> xnode list \<times> xedge list" where
  "extract_lua source path =
     over_lines (declared_line path (Some lua_require_re) [(lua_method_re, kind_method, 2), (lua_func_re, kind_function, 1)])
       () 0 (split_on newline source)"

definition extract_pascal :: "string \<Rightarrow> string \<Rightarrow> xnode list \<times> xedge list" where
  "extract_pascal source path =
     over_lines (declared_line path None [(pascal_unit_re, ''unit'', 1), (pascal_class_re, kind_class, 1),
         (pascal_func_re, kind_function, 1), (pascal_proc_re, ''procedure'', 1)])
       () 0 (split_on newline source)"

definition liquid_line :: "unit \<Rightarrow> nat \<Rightarrow> string \<Rightarrow> unit \<times> xnode list \<times> xedge list" where
  "liquid_line u i line =
     ((), first_declared [(liquid_re ''section'', ''section'', 1)] line i
            @ first_declared [(liquid_re ''snippet'', ''snippet'', 1)] line i, [])"

definition extract_liquid :: "string \<Rightarrow> xnode list \<times> xedge list" where
  "extract_liquid source = over_lines liquid_line () 0 (split_on newline source)"

end
