(* ===== verification/Rust_Extractor.thy ===== *)
theory Rust_Extractor
  imports Line_Extractors
begin

text \<open>
  The extractor for Rust (\<^verbatim>\<open>internal/extraction/extractor_python_rust.go\<close>): the impl blocks with their
  types, the paths of a use item, and functions with their parameters and return types.
\<close>

section \<open>Patterns\<close>

text \<open>\<^verbatim>\<open>pub(?:\s*\([^)]*\))?\s+\<close>\<close>

definition pub_re :: re where
  "pub_re = seq [lit ''pub'', Maybe (seq [opt_spaces, lit ''('', any_of (except {CHR '')''}), lit '')'']), spaces]"

definition type_args_re :: re where
  "type_args_re = seq [lit ''<'', any_of (except {CHR ''>''}), lit ''>'']"

definition rust_fn_head_re :: re where
  "rust_fn_head_re = seq [Text_start, Maybe pub_re, Maybe (Then (lit ''async'') spaces), Maybe (Then (lit ''unsafe'') spaces),
     lit ''fn'', spaces, Group 1 word_plus, opt_spaces, Maybe type_args_re]"

definition rust_struct_re :: re where
  "rust_struct_re = seq [Text_start, Maybe (Group 1 pub_re), Group 2 (one_of [''struct'', ''enum'', ''trait'']), spaces,
     Group 3 word_plus]"

definition rust_impl_re :: re where
  "rust_impl_re = seq [Text_start, lit ''impl'', Maybe (Then opt_spaces type_args_re), spaces,
     Maybe (seq [some_of (\<lambda>c. is_word c \<or> c = CHR '':''), spaces, lit ''for'', spaces]), Group 1 word_plus]"

definition rust_use_re :: re where
  "rust_use_re = seq [Text_start, lit ''use'', spaces,
     Group 1 (Then (Byte (except {newline})) (Lazy (Byte (except {newline})))), lit '';'', opt_spaces, Text_end]"

definition rust_call_re :: re where
  "rust_call_re = seq [Word_edge, Group 1 (Then (Byte ident_start) (any_of is_word)), opt_spaces, lit ''('']"

definition rust_pub_re :: re where
  "rust_pub_re = Then Text_start pub_re"

definition rust_is_pub :: "string \<Rightarrow> bool" where
  "rust_is_pub line = match_string rust_pub_re (trim_space line)"

definition rust_visibility :: "string \<Rightarrow> string" where
  "rust_visibility line = (if rust_is_pub line then ''public'' else ''private'')"

definition is_rust_keyword :: "string \<Rightarrow> bool" where
  "is_rust_keyword s \<longleftrightarrow> s \<in> set [''if'', ''else'', ''for'', ''while'', ''loop'', ''match'', ''return'', ''break'',
     ''continue'', ''move'', ''async'', ''await'', ''unsafe'', ''as'', ''in'', ''ref'', ''mut'', ''let'', ''const'',
     ''static'', ''fn'', ''struct'', ''enum'', ''trait'', ''impl'', ''mod'', ''use'', ''pub'', ''crate'', ''super'',
     ''self'', ''Self'', ''true'', ''false'', ''where'', ''type'', ''Box'', ''Some'', ''None'', ''Ok'', ''Err'', ''Vec'',
     ''String'', ''println'', ''format'', ''panic'', ''assert'', ''assert_eq'', ''dbg'', ''todo'', ''unimplemented'',
     ''drop'', ''clone'', ''into'', ''from'']"

section \<open>Parameter lists\<close>

text \<open>How many bytes up to the parenthesis that closes the first one, outside of literals.\<close>

fun paren_close :: "nat \<Rightarrow> char option \<Rightarrow> string \<Rightarrow> nat option" where
  "paren_close d q [] = None"
| "paren_close d (Some q) (c # s) =
     (if c = CHR 0x5C \<and> s \<noteq> [] then map_option (\<lambda>n. n + 2) (paren_close d (Some q) (tl s))
      else map_option Suc (paren_close d (if c = q then None else Some q) s))"
| "paren_close d None (c # s) =
     (if quote_char c then map_option Suc (paren_close d (Some c) s)
      else if c = CHR ''('' then map_option Suc (paren_close (Suc d) None s)
      else if c = CHR '')'' then if d = 1 then Some 1 else map_option Suc (paren_close (d - 1) None s)
      else map_option Suc (paren_close d None s))"

definition read_paren_group :: "string \<Rightarrow> string \<times> string" where
  "read_paren_group s =
     (case index_byte (CHR ''('') s of
        None \<Rightarrow> ([], [])
      | Some open \<Rightarrow>
          (case paren_close 0 None (drop open s) of
             None \<Rightarrow> ([], [])
           | Some n \<Rightarrow> (take n (drop open s), drop (open + n) s)))"

section \<open>Use items\<close>

text \<open>\<^verbatim>\<open>splitTopLevelComma\<close>, with the part read so far.\<close>

fun split_commas :: "nat \<Rightarrow> string \<Rightarrow> string \<Rightarrow> string list" where
  "split_commas d part [] = [part]"
| "split_commas d part (c # s) =
     (if c = CHR '','' \<and> d = 0 then part # split_commas d [] s
      else split_commas (if c = CHR ''{'' \<or> c = CHR ''('' then Suc d else if c = CHR ''}'' \<or> c = CHR '')'' then d - 1 else d)
             (part @ [c]) s)"

definition drop_alias :: "string \<Rightarrow> string" where
  "drop_alias s = (case index_str '' as '' s of None \<Rightarrow> s | Some j \<Rightarrow> trim_space (take j s))"

definition use_part :: "string \<Rightarrow> string \<Rightarrow> string" where
  "use_part pre part0 =
     (let part = trim_space part0 in
      if part = [] \<or> part = ''self'' then pre
      else if drop_alias part = ''*'' then pre
      else pre @ ''::'' @ drop_alias part)"

definition split_rust_use_paths :: "string \<Rightarrow> string list" where
  "split_rust_use_paths spec0 =
     (let spec = trim_space (trim_prefix (trim_space spec0) ''pub '') in
      if spec = [] then []
      else (case index_str ''::{'' spec of
        Some i \<Rightarrow>
          if has_suffix spec ''}'' then
            map (use_part (take i spec)) (split_commas 0 [] (trim_suffix (drop (i + 3) spec) ''}''))
          else [drop_alias spec]
      | None \<Rightarrow> [drop_alias spec]))"

section \<open>Functions\<close>

fun last_index_str :: "string \<Rightarrow> string \<Rightarrow> nat option" where
  "last_index_str pat [] = (if pat = [] then Some 0 else None)"
| "last_index_str pat (c # s) =
     (case last_index_str pat s of
        Some i \<Rightarrow> Some (Suc i) | None \<Rightarrow> if prefix pat (c # s) then Some 0 else None)"

definition return_text :: "string \<Rightarrow> string" where
  "return_text after =
     (let ret = trim_space after in
      if has_prefix ret ''->'' then trim_space (takeWhile (except {CHR ''{'', CHR '';''}) (trim_space (trim_prefix ret ''->'')))
      else [])"

definition return_type :: "string \<Rightarrow> string" where
  "return_type ret =
     (let bare = takeWhile (except {CHR ''['', CHR ''<''}) (trim_prefix (trim_prefix ret ''&'') ''mut '') in
      trim_space (case last_index_str ''::'' bare of None \<Rightarrow> bare | Some j \<Rightarrow> drop (j + 2) bare))"

text \<open>The impl blocks: first and last line, and the type.\<close>

definition impl_blocks :: "string list \<Rightarrow> (nat \<times> nat \<times> string) list" where
  "impl_blocks lines =
     concat (map (\<lambda>i. case find_submatch rust_impl_re (trim_space (lines ! i)) of
         None \<Rightarrow> [] | Some m \<Rightarrow> [(Suc i, find_brace_end lines i, m 1)]) [0..<length lines])"

definition impl_recv_at :: "(nat \<times> nat \<times> string) list \<Rightarrow> nat \<Rightarrow> string" where
  "impl_recv_at impls line =
     (case find (\<lambda>(start, stop, recv). start \<le> line \<and> line \<le> stop) impls of None \<Rightarrow> [] | Some (_, _, recv) \<Rightarrow> recv)"

definition rust_fn ::
    "(nat \<times> nat \<times> string) list \<Rightarrow> string list \<Rightarrow> nat \<Rightarrow> string \<Rightarrow> string \<Rightarrow> nat \<Rightarrow> xnode list \<times> xedge list" where
  "rust_fn impls lines i t name head_end =
     (let (params, after) = read_paren_group (drop head_end t); ret = return_text after; stop = find_brace_end lines i;
          recv = impl_recv_at impls (Suc i) in
      if params = [] then ([], [])
      else ([(block_node (if recv = [] then kind_function else kind_method) name lines i stop)
               \<lparr>x_qname := (if recv = [] then name else recv @ ''.'' @ name),
                x_signature := (if ret = [] then params else params @ '' -> '' @ ret),
                x_visibility := rust_visibility t, x_exported := rust_is_pub t, x_return := return_type ret\<rparr>],
            (if recv = [] then [] else [found_edge edge_contains recv name (Suc i)])
              @ call_edges name lines i stop rust_call_re {name} is_rust_keyword))"

definition rust_struct :: "string list \<Rightarrow> nat \<Rightarrow> (nat \<Rightarrow> string) \<Rightarrow> xnode" where
  "rust_struct lines i m =
     (block_node (if m 2 = ''trait'' then ''interface'' else m 2) (m 3) lines i (find_brace_end lines i))
       \<lparr>x_qname := m 3, x_visibility := (if m 1 = [] then ''private'' else ''public''), x_exported := (m 1 \<noteq> [])\<rparr>"

definition rust_line ::
    "string \<Rightarrow> string list \<Rightarrow> (nat \<times> nat \<times> string) list \<Rightarrow> unit \<Rightarrow> nat \<Rightarrow> string \<Rightarrow> unit \<times> xnode list \<times> xedge list" where
  "rust_line path lines impls u i line =
     (let t = trim_space line in
      ((), if t = [] \<or> has_prefix t ''//'' then ([], [])
        else (case find_submatch rust_use_re t of
          Some m \<Rightarrow> ([], map (\<lambda>p. found_edge edge_imports path p (Suc i)) (split_rust_use_paths (m 1)))
        | None \<Rightarrow>
            if match_string rust_impl_re t then ([], [])
            else (case find_submatch rust_struct_re t of
              Some m \<Rightarrow> ([rust_struct lines i m], [])
            | None \<Rightarrow> (case find_submatch rust_fn_head_re t of
                Some m \<Rightarrow> rust_fn impls lines i t (m 1) (snd (the (find_index rust_fn_head_re t)))
              | None \<Rightarrow> ([], []))))))"

definition extract_rust :: "string \<Rightarrow> string \<Rightarrow> xnode list \<times> xedge list" where
  "extract_rust source path =
     (let lines = split_on newline source in over_lines (rust_line path lines (impl_blocks lines)) () 0 lines)"

end
