(* ===== verification/Sfc_Extractor.thy ===== *)
theory Sfc_Extractor
  imports Rust_Extractor Orchestrator
begin

text \<open>
  Components of Vue, Svelte and Astro (\<^verbatim>\<open>internal/extraction/sfc.go\<close>) and the choice of the extractor
  (\<^verbatim>\<open>Extract\<close> of \<^verbatim>\<open>extractor_core.go\<close>): the script blocks are extracted on their own and moved to their
  lines, the template refers to other components and to functions.  The tree-sitter extractor is the
  argument \<open>ts\<close>, a function of language, content and path.
\<close>

datatype ts_result = No_grammar | Parsed extraction | Parse_error | Parse_timeout

type_synonym ts_extractor = "string \<Rightarrow> string \<Rightarrow> string \<Rightarrow> ts_result"

section \<open>Patterns\<close>

text \<open>
  The last group of a pattern is not in the source: it is the text before the first group of interest, so
  that its length is where that group starts.
\<close>

definition open_tag_re :: "string \<Rightarrow> re" where
  "open_tag_re name = seq [lit ''<'', folded_lit name, Group 1 (any_of (except {CHR ''>''})), lit ''>'']"

definition sfc_block_re :: "string \<Rightarrow> re" where
  "sfc_block_re name = seq [Group 3 (open_tag_re name), Group 2 (Lazy (Byte (\<lambda>_. True))),
     lit ''</'', folded_lit name, lit ''>'']"

definition tag_name_byte :: "char \<Rightarrow> bool" where
  "tag_name_byte c \<longleftrightarrow> is_word c \<or> c = CHR ''-''"

definition sfc_open_tag_re :: re where
  "sfc_open_tag_re = seq [lit ''<'', Group 1 (Then (Byte is_alpha) (any_of tag_name_byte)), Word_edge]"

definition astro_fm_re :: re where
  "astro_fm_re = Then Text_start (seq [Group 3 (seq [lit ''---'', Maybe (lit [carriage]), lit [newline]]),
     Group 1 (Lazy (Byte (\<lambda>_. True))), Maybe (lit [carriage]), lit [newline], lit ''---''])"

definition tpl_call_re :: re where
  "tpl_call_re = seq [
     Group 2 (Either (Then (lit ''{'') opt_spaces)
       (Either (seq [lit ''@'', word_plus, Many (Then (lit ''.'') word_plus), opt_spaces, lit ''='', opt_spaces, Byte quote_char])
         (seq [lit ''v-on:'', word_plus, opt_spaces, lit ''='', opt_spaces, Byte quote_char]))),
     Group 1 (Then js_ident (Many (Then (lit ''.'') js_ident))), opt_spaces, lit ''('']"

section \<open>Names of tags\<close>

definition sfc_builtin_components :: "string list" where
  "sfc_builtin_components = [''Transition'', ''TransitionGroup'', ''KeepAlive'', ''Suspense'', ''Teleport'', ''Component'',
     ''Slot'', ''Fragment'', ''Code'', ''Debug'', ''RouterView'', ''RouterLink'', ''NuxtLink'', ''NuxtPage'']"

definition html_native_elements :: "string list" where
  "html_native_elements = [''a'', ''abbr'', ''address'', ''area'', ''article'', ''aside'', ''audio'', ''b'', ''base'', ''bdi'',
     ''bdo'', ''blockquote'', ''body'', ''br'', ''button'', ''canvas'', ''caption'', ''cite'', ''code'', ''col'',
     ''colgroup'', ''data'', ''datalist'', ''dd'', ''del'', ''details'', ''dfn'', ''dialog'', ''div'', ''dl'', ''dt'', ''em'',
     ''embed'', ''fieldset'', ''figcaption'', ''figure'', ''footer'', ''form'', ''h1'', ''h2'', ''h3'', ''h4'', ''h5'', ''h6'',
     ''head'', ''header'', ''hgroup'', ''hr'', ''html'', ''i'', ''iframe'', ''img'', ''input'', ''ins'', ''kbd'', ''label'',
     ''legend'', ''li'', ''link'', ''main'', ''map'', ''mark'', ''menu'', ''meta'', ''meter'', ''nav'', ''noscript'', ''object'',
     ''ol'', ''optgroup'', ''option'', ''output'', ''p'', ''param'', ''picture'', ''pre'', ''progress'', ''q'', ''rp'', ''rt'',
     ''ruby'', ''s'', ''samp'', ''script'', ''search'', ''section'', ''select'', ''slot'', ''small'', ''source'', ''span'',
     ''strong'', ''style'', ''sub'', ''summary'', ''sup'', ''svg'', ''table'', ''tbody'', ''td'', ''template'', ''textarea'',
     ''tfoot'', ''th'', ''thead'', ''time'', ''title'', ''tr'', ''track'', ''u'', ''ul'', ''var'', ''video'', ''wbr'',
     ''path'', ''g'', ''circle'', ''rect'', ''line'', ''polyline'', ''polygon'', ''ellipse'', ''text'', ''tspan'', ''defs'',
     ''use'', ''symbol'', ''clippath'', ''mask'', ''pattern'', ''image'', ''foreignobject'', ''lineargradient'',
     ''radialgradient'', ''stop'']"

definition upper_byte :: "char \<Rightarrow> char" where
  "upper_byte c = (if CHR ''a'' \<le> c \<and> c \<le> CHR ''z'' then char_of (of_char c - 32 :: nat) else c)"

definition kebab_to_pascal :: "string \<Rightarrow> string" where
  "kebab_to_pascal s =
     concat (map (\<lambda>p. case p of [] \<Rightarrow> [] | c # r \<Rightarrow> upper_byte c # r) (split_on (CHR ''-'') s))"

definition normalize_template_component :: "string \<Rightarrow> string" where
  "normalize_template_component raw0 =
     (let raw = trim_space raw0 in if CHR ''-'' \<in> set raw then kebab_to_pascal raw else raw)"

definition is_native_html_element :: "string \<Rightarrow> bool" where
  "is_native_html_element raw \<longleftrightarrow> ascii_fold (trim_space raw) \<in> set html_native_elements"

definition sfc_component_name :: "string \<Rightarrow> string" where
  "sfc_component_name path =
     (let base = filepath_base path; name = trim_suffix base (filepath_ext base) in
      if name = [] then ''Component'' else name)"

section \<open>Script blocks\<close>

record script_block =
  sb_content :: string
  sb_offset :: nat
  sb_lang :: string

definition line_breaks :: "string \<Rightarrow> nat" where
  "line_breaks s = count_list s newline"

definition shift_line :: "int \<Rightarrow> nat \<Rightarrow> int" where
  "shift_line line offset = (if line \<le> 0 then line else line + int offset)"

definition script_lang_from_attrs :: "string \<Rightarrow> string" where
  "script_lang_from_attrs attrs =
     (let low = map lower_rune (runes_of attrs); has = (\<lambda>s. sublist (map byte_of s) low) in
      if has (''lang='' @ [dquote] @ ''ts'' @ [dquote]) \<or> has (''lang='' @ [CHR 0x27] @ ''ts'' @ [CHR 0x27])
       \<or> has (''lang='' @ [dquote] @ ''tsx'' @ [dquote]) \<or> has (''lang='' @ [CHR 0x27] @ ''tsx'' @ [CHR 0x27])
       \<or> has (''lang='' @ [dquote] @ ''typescript'' @ [dquote]) \<or> has (''lang='' @ [CHR 0x27] @ ''typescript'' @ [CHR 0x27])
       \<or> has ''lang=ts'' \<or> has ''lang=tsx'' \<or> has ''lang=typescript''
      then ''typescript'' else ''javascript'')"

text \<open>What is before a group, from the start of the text: what is before the match, and the text in front of the group.\<close>

definition before_group :: "string \<times> place \<Rightarrow> nat \<Rightarrow> string" where
  "before_group m k = rev (fst m) @ group_text m k"

definition find_sfc_scripts :: "string \<Rightarrow> script_block list" where
  "find_sfc_scripts source =
     [\<lparr>sb_content = group_text m 2, sb_offset = line_breaks (before_group m 3), sb_lang = script_lang_from_attrs (group_text m 1)\<rparr>.
        m \<leftarrow> find_all (sfc_block_re ''script'') [] source, trim_space (group_text m 2) \<noteq> []]"

definition find_astro_frontmatter :: "string \<Rightarrow> script_block list" where
  "find_astro_frontmatter source =
     (case find_submatch astro_fm_re source of
        None \<Rightarrow> []
      | Some m \<Rightarrow> if trim_space (m 1) = [] then []
                  else [\<lparr>sb_content = m 1, sb_offset = 1, sb_lang = ''typescript''\<rparr>])"

section \<open>References of the template\<close>

text \<open>The parts of a template with the number of line breaks before each.\<close>

definition exclude_spans :: "string \<Rightarrow> string \<Rightarrow> (nat \<times> nat) list" where
  "exclude_spans language source =
     (let spans = (\<lambda>r. map (\<lambda>m. (match_begin m, match_begin m + length (match_text m))) (find_all r [] source)) in
      sort_key fst (spans (sfc_block_re ''script'') @ spans (sfc_block_re ''style'')
        @ (if language = ''astro'' then spans astro_fm_re else [])))"

fun regions_between :: "string \<Rightarrow> nat \<Rightarrow> (nat \<times> nat) list \<Rightarrow> (string \<times> nat) list" where
  "regions_between source pos [] =
     (if pos < length source then [(drop pos source, line_breaks (take pos source))] else [])"
| "regions_between source pos ((start, stop) # spans) =
     (if pos < start then [(drop pos (take start source), line_breaks (take pos source))] else [])
       @ regions_between source (max pos stop) spans"

definition template_regions :: "string \<Rightarrow> string \<Rightarrow> (string \<times> nat) list" where
  "template_regions language source =
     (if language = ''vue''
      then map (\<lambda>m. (group_text m 2, line_breaks (before_group m 3))) (find_all (sfc_block_re ''template'') [] source)
      else regions_between source 0 (exclude_spans language source))"

definition template_ref :: "string \<Rightarrow> string \<Rightarrow> string \<Rightarrow> nat \<Rightarrow> xref" where
  "template_ref owner kind name line =
     \<lparr>xr_from = owner, xr_from_line = 1, xr_name = name, xr_kind = kind, xr_line = int line, xr_col = 0\<rparr>"

definition component_refs :: "string \<Rightarrow> string \<times> nat \<Rightarrow> xref list" where
  "component_refs owner reg =
     [template_ref owner edge_references (normalize_template_component (group_text m 1))
        (line_breaks (rev (fst m)) + 1 + snd reg).
      m \<leftarrow> find_all sfc_open_tag_re [] (fst reg), let name = normalize_template_component (group_text m 1) in
        name \<noteq> [] \<and> name \<noteq> owner \<and> \<not> is_native_html_element (group_text m 1)
        \<and> name \<notin> set sfc_builtin_components \<and> is_upper_byte (hd name)]"

definition called_name :: "string \<Rightarrow> string" where
  "called_name raw = (case last_index_any {dot} raw of None \<Rightarrow> raw | Some i \<Rightarrow> drop (Suc i) raw)"

definition template_call_refs :: "string \<Rightarrow> string \<times> nat \<Rightarrow> xref list" where
  "template_call_refs owner reg =
     [template_ref owner edge_calls (called_name (group_text m 1)) (line_breaks (before_group m 2) + 1 + snd reg).
      m \<leftarrow> find_all tpl_call_re [] (fst reg),
        called_name (group_text m 1) \<noteq> [] \<and> \<not> is_noisy_ref_name (called_name (group_text m 1))]"

definition extract_sfc_template_refs :: "string \<Rightarrow> string \<Rightarrow> string \<Rightarrow> xref list" where
  "extract_sfc_template_refs language source owner =
     dedup_by (\<lambda>r. (xr_kind r, xr_name r)) {}
       (concat (map (\<lambda>reg. component_refs owner reg @ template_call_refs owner reg) (template_regions language source)))"

section \<open>The extractors\<close>

definition regex_js :: "string \<Rightarrow> string \<Rightarrow> extraction" where
  "regex_js content path = (let (ns, es) = extract_js (normalize_source content) path in promote_calls_to_refs ns es)"

definition extract_script_content :: "ts_extractor \<Rightarrow> string \<Rightarrow> string \<Rightarrow> string \<Rightarrow> extraction" where
  "extract_script_content ts lang content path =
     (case ts lang content path of Parsed r \<Rightarrow> r | _ \<Rightarrow> regex_js content path)"

definition shifted :: "nat \<Rightarrow> extraction \<Rightarrow> extraction" where
  "shifted offset part =
     \<lparr>ex_nodes = map (\<lambda>n. n\<lparr>x_line := shift_line (x_line n) offset, x_end_line := shift_line (x_end_line n) offset\<rparr>) (ex_nodes part),
      ex_edges = map (\<lambda>e. e\<lparr>xe_line := shift_line (xe_line e) offset\<rparr>) (ex_edges part),
      ex_refs = map (\<lambda>r. r\<lparr>xr_line := shift_line (xr_line r) offset, xr_from_line := shift_line (xr_from_line r) offset\<rparr>)
        (filter (\<lambda>r. \<not> is_noisy_ref_name (xr_name r)) (ex_refs part))\<rparr>"

definition component_node :: "string \<Rightarrow> string \<Rightarrow> xnode" where
  "component_node owner source =
     (found_node ''component'' owner 1 (line_breaks source + 1) [])
       \<lparr>x_qname := owner, x_visibility := ''public'', x_exported := True\<rparr>"

definition extract_sfc :: "ts_extractor \<Rightarrow> string \<Rightarrow> string \<Rightarrow> string \<Rightarrow> extraction" where
  "extract_sfc ts language source path =
     (let owner = sfc_component_name path;
          blocks = (if language = ''astro'' then find_astro_frontmatter source else []) @ find_sfc_scripts source;
          parts = map (\<lambda>b. shifted (sb_offset b) (extract_script_content ts (sb_lang b) (sb_content b) path)) blocks in
      \<lparr>ex_nodes = component_node owner source # concat (map ex_nodes parts),
       ex_edges = concat (map ex_edges parts),
       ex_refs = concat (map ex_refs parts)
         @ filter (\<lambda>r. \<not> is_noisy_ref_name (xr_name r)) (extract_sfc_template_refs language source owner)\<rparr>)"

definition extract_lines :: "string \<Rightarrow> string \<Rightarrow> string \<Rightarrow> xnode list \<times> xedge list" where
  "extract_lines language source path =
     (if language = ''go'' then extract_go source path
      else if language = ''typescript'' \<or> language = ''javascript'' then extract_js source path
      else if language = ''python'' then extract_python source path
      else if language = ''objective-c'' then extract_objc source path
      else if language = ''liquid'' then extract_liquid source
      else if language = ''luau'' then extract_lua source path
      else if language = ''pascal'' then extract_pascal source path
      else if language = ''rust'' then extract_rust source path
      else extract_generic language source)"

text \<open>\<^verbatim>\<open>Extract\<close>.  Its error is always nil: the extractor of the script blocks falls back on one that cannot fail.\<close>

definition extract_source :: "ts_extractor \<Rightarrow> string \<Rightarrow> string \<Rightarrow> string \<Rightarrow> extraction" where
  "extract_source ts language source0 path =
     (let source = normalize_source source0 in
      if language \<in> {''svelte'', ''vue'', ''astro''} then extract_sfc ts language source path
      else (let (ns, es) = extract_lines language source path in promote_calls_to_refs ns es))"

end
