(* ===== verification/Language_Bridges.thy ===== *)
theory Language_Bridges
  imports Line_Extractors
begin

text \<open>
  Calls into another language (\<^verbatim>\<open>internal/extraction/bridge.go\<close>): cgo, the C extensions of Python, native
  modules of React Native, and the bridge between Swift and Objective-C.
\<close>

record bridge_edge =
  be_source_lang :: string
  be_target_lang :: string
  be_source :: string
  be_target :: string
  be_line :: nat

text \<open>A loop over lines that adds up what each line gives.\<close>

fun gather :: "('s \<Rightarrow> nat \<Rightarrow> string \<Rightarrow> 's \<times> 'a list) \<Rightarrow> 's \<Rightarrow> nat \<Rightarrow> string list \<Rightarrow> 'a list" where
  "gather f s i [] = []"
| "gather f s i (l # ls) = (let (s', xs) = f s i l in xs @ gather f s' (Suc i) ls)"

definition each_line :: "(nat \<Rightarrow> string \<Rightarrow> 'a list) \<Rightarrow> string list \<Rightarrow> 'a list" where
  "each_line f lines = gather (\<lambda>_ i l. ((), f i l)) () 0 lines"

section \<open>cgo\<close>

definition cgo_import_re :: re where
  "cgo_import_re = seq [lit ''import'', spaces, lit [dquote, CHR ''C'', dquote]]"

definition cgo_call_re :: re where
  "cgo_call_re = seq [Word_edge, lit ''C.'', Group 1 word_plus]"

definition cgo_export_re :: re where
  "cgo_export_re = seq [lit ''//export'', spaces, Group 1 word_plus]"

definition cgo_edge :: "string \<Rightarrow> string \<Rightarrow> nat \<Rightarrow> bridge_edge" where
  "cgo_edge source target i =
     \<lparr>be_source_lang = ''go'', be_target_lang = ''c'', be_source = source, be_target = target, be_line = Suc i\<rparr>"

definition cgo_line :: "string \<Rightarrow> nat \<Rightarrow> string \<Rightarrow> string \<times> bridge_edge list" where
  "cgo_line current i line =
     (let t = trim_space line; fn = (case find_submatch go_func_re t of Some m \<Rightarrow> m 1 | None \<Rightarrow> current) in
      (fn, case find_submatch cgo_export_re t of
         Some m \<Rightarrow> [cgo_edge (m 1) (m 1) i]
       | None \<Rightarrow> map (\<lambda>m. cgo_edge fn (group_text m 1) i) (find_all cgo_call_re [] t)))"

definition detect_cgo :: "string \<Rightarrow> bridge_edge list" where
  "detect_cgo source =
     (let lines = split_on newline source in
      case first_at (\<lambda>l. match_string cgo_import_re (trim_space l)) lines of
        None \<Rightarrow> []
      | Some k \<Rightarrow> gather cgo_line [] (Suc k) (drop (Suc k) lines))"

section \<open>Python\<close>

definition ctypes_load_re :: re where
  "ctypes_load_re = seq [Group 1 word_plus, opt_spaces, lit ''='', opt_spaces, lit ''ctypes.'',
     one_of [''cdll.LoadLibrary'', ''CDLL'', ''WinDLL''], opt_spaces, lit ''('']"

definition ctypes_call_re :: re where
  "ctypes_call_re = seq [Group 1 word_plus, lit ''.'', Group 2 word_plus, opt_spaces, lit ''('']"

definition cffi_re :: re where
  "cffi_re = seq [lit ''ffi.'', one_of [''cdef'', ''dlopen''], opt_spaces, lit ''('']"

definition cython_re :: re where
  "cython_re = seq [lit ''cdef'', spaces, lit ''extern'', spaces, lit ''from'', spaces, quoted 1]"

definition python_edge :: "string \<Rightarrow> nat \<Rightarrow> bridge_edge" where
  "python_edge target i =
     \<lparr>be_source_lang = ''python'', be_target_lang = ''c'', be_source = [], be_target = target, be_line = Suc i\<rparr>"

definition python_ext_line :: "string set \<Rightarrow> nat \<Rightarrow> string \<Rightarrow> string set \<times> bridge_edge list" where
  "python_ext_line libs i line =
     (let t = trim_space line in
      case find_submatch ctypes_load_re t of
        Some m \<Rightarrow> (insert (m 1) libs, [])
      | None \<Rightarrow> (libs,
          [python_edge (group_text m 2) i. m \<leftarrow> find_all ctypes_call_re [] t, group_text m 1 \<in> libs]
          @ (if match_string cffi_re t then [python_edge ''cffi_bindgen'' i] else [])
          @ (case find_submatch cython_re t of Some m \<Rightarrow> [python_edge (''cython:'' @ m 1) i] | None \<Rightarrow> [])))"

definition detect_python_c_ext :: "string \<Rightarrow> bridge_edge list" where
  "detect_python_c_ext source = gather python_ext_line {} 0 (split_on newline source)"

section \<open>Native modules\<close>

definition rn_native_re :: re where
  "rn_native_re = seq [lit ''NativeModules.'', Group 1 word_plus, lit ''.'', Group 2 word_plus, opt_spaces, lit ''('']"

definition rn_destruct_re :: re where
  "rn_destruct_re = seq [one_of [''const'', ''let'', ''var''], opt_spaces, lit ''{'', Group 1 (some_of (except {CHR ''}''})), lit ''}'',
     opt_spaces, lit ''='', opt_spaces, lit ''NativeModules.'', Group 2 word_plus]"

definition rn_expo_re :: re where
  "rn_expo_re = seq [lit ''requireNativeModule'', opt_spaces, lit ''('', opt_spaces, quoted 1, opt_spaces, lit '')'']"

definition rn_turbo_re :: re where
  "rn_turbo_re = seq [lit ''import'', spaces, word_plus, spaces, lit ''from'', spaces, Byte quote_char, lit ''./Native'',
     Group 1 word_plus, Byte quote_char]"

definition native_edge :: "nat \<Rightarrow> string \<Rightarrow> bridge_edge" where
  "native_edge i target =
     \<lparr>be_source_lang = ''javascript'', be_target_lang = ''native'', be_source = [], be_target = target, be_line = Suc i\<rparr>"

definition native_line :: "nat \<Rightarrow> string \<Rightarrow> bridge_edge list" where
  "native_line i line =
     (let t = trim_space line in map (native_edge i) (
        (case find_submatch rn_native_re t of Some m \<Rightarrow> [m 1 @ ''.'' @ m 2] | None \<Rightarrow> [])
      @ (case find_submatch rn_destruct_re t of
           Some m \<Rightarrow> map (\<lambda>x. m 2 @ ''.'' @ x) (filter (\<lambda>x. x \<noteq> []) (map trim_space (split_on (CHR '','') (m 1))))
         | None \<Rightarrow> [])
      @ (case find_submatch rn_expo_re t of Some m \<Rightarrow> [m 1] | None \<Rightarrow> [])
      @ (case find_submatch rn_turbo_re t of Some m \<Rightarrow> [m 1] | None \<Rightarrow> [])))"

definition detect_native_modules :: "string \<Rightarrow> bridge_edge list" where
  "detect_native_modules source = each_line native_line (split_on newline source)"

section \<open>Swift and Objective-C\<close>

definition swift_func_re :: re where
  "swift_func_re = seq [lit ''func'', spaces, Group 1 word_plus, opt_spaces, lit ''('']"

text \<open>The name the first of the next four lines gives that a pattern finds and a test accepts.\<close>

definition next_named :: "re \<Rightarrow> (string \<Rightarrow> bool) \<Rightarrow> string list \<Rightarrow> nat \<Rightarrow> string" where
  "next_named r good lines i =
     (case concat (map (\<lambda>l. case find_submatch r (trim_space l) of Some m \<Rightarrow> if good (m 1) then [m 1] else [] | None \<Rightarrow> [])
        (take 4 (drop (Suc i) lines))) of
        [] \<Rightarrow> [] | name # _ \<Rightarrow> name)"

definition swift_line :: "string list \<Rightarrow> nat \<Rightarrow> string \<Rightarrow> bridge_edge list" where
  "swift_line lines i line =
     (let name = next_named swift_func_re (\<lambda>_. True) lines i in
      if contains_str (trim_space line) ''@objc'' \<and> name \<noteq> [] then
        [\<lparr>be_source_lang = ''swift'', be_target_lang = ''objc'', be_source = name, be_target = name, be_line = Suc i\<rparr>]
      else [])"

definition detect_swift_objc :: "string \<Rightarrow> bridge_edge list" where
  "detect_swift_objc source = (let lines = split_on newline source in each_line (swift_line lines) lines)"

definition objc_swift_call_re :: re where
  "objc_swift_call_re = seq [lit ''['', Group 1 word_plus, spaces, Group 2 word_plus,
     Maybe (seq [lit '':'', opt_spaces, word_plus]), lit '']'']"

definition objc_line :: "nat \<Rightarrow> string \<Rightarrow> bridge_edge list" where
  "objc_line i line =
     (case find_submatch objc_swift_call_re (trim_space line) of
        Some m \<Rightarrow> [\<lparr>be_source_lang = ''objc'', be_target_lang = ''swift'', be_source = m 1, be_target = m 2, be_line = Suc i\<rparr>]
      | None \<Rightarrow> [])"

definition detect_objc_swift :: "string \<Rightarrow> bridge_edge list" where
  "detect_objc_swift source = each_line objc_line (split_on newline source)"

definition detect_bridges :: "string \<Rightarrow> string \<Rightarrow> bridge_edge list" where
  "detect_bridges source language =
     (if language = ''go'' then detect_cgo source
      else if language = ''python'' then detect_python_c_ext source
      else if language = ''typescript'' \<or> language = ''javascript'' then detect_native_modules source
      else if language = ''swift'' then detect_swift_objc source
      else if language = ''objective-c'' then detect_objc_swift source
      else [])"

end
