(* ===== verification/Framework_Routes.thy ===== *)
theory Framework_Routes
  imports Language_Bridges
begin

text \<open>
  The routes of web frameworks (\<^verbatim>\<open>internal/extraction/frameworks.go\<close>).  \<^verbatim>\<open>strings.ToUpper\<close> is the argument
  \<open>up\<close>, as the methods of a tag or a decorator can be any text.
\<close>

section \<open>Patterns\<close>

definition word_dot :: "char \<Rightarrow> bool" where
  "word_dot c \<longleftrightarrow> is_word c \<or> c = dot"

definition handler_re :: "nat \<Rightarrow> re" where
  "handler_re i = Group i (Either (some_of word_dot)
     (seq [lit ''('', Maybe (lit ''*''), some_of word_dot, lit '').'', word_plus]))"

definition dquoted :: "nat \<Rightarrow> re" where
  "dquoted i = seq [lit [dquote], Group i (some_of (except {dquote})), lit [dquote]]"

definition open_paren :: re where
  "open_paren = seq [opt_spaces, lit ''('', opt_spaces]"

definition comma :: re where
  "comma = seq [opt_spaces, lit '','', opt_spaces]"

definition gin_route_re :: re where
  "gin_route_re = seq [Group 1 (some_of (\<lambda>c. is_word c \<or> c = CHR '')'')), lit ''.'',
     Group 2 (one_of [''GET'', ''POST'', ''PUT'', ''DELETE'', ''PATCH'', ''HEAD'', ''OPTIONS'', ''Any'']),
     open_paren, dquoted 3, comma, handler_re 4]"

definition chi_route_re :: re where
  "chi_route_re = seq [Group 1 word_plus, lit ''.'',
     Group 2 (one_of [''Get'', ''Post'', ''Put'', ''Delete'', ''Patch'', ''Head'', ''Options'', ''Handle'', ''HandleFunc'']),
     open_paren, dquoted 3, comma, handler_re 4]"

definition mux_route_re :: re where
  "mux_route_re = seq [Group 1 word_plus, lit ''.HandleFunc'', open_paren, dquoted 2, comma, handler_re 3,
     opt_spaces, lit '').Methods'', open_paren, dquoted 4, opt_spaces,
     Many (seq [lit '','', opt_spaces, lit [dquote], some_of (except {dquote}), lit [dquote]]), opt_spaces, lit '')'']"

definition mux_route_re2 :: re where
  "mux_route_re2 = seq [Group 1 word_plus, lit ''.Methods'', open_paren, lit [dquote], Group 2 word_plus, lit [dquote], opt_spaces,
     lit '').Path'', open_paren, dquoted 3, opt_spaces, lit '').HandlerFunc'', open_paren, handler_re 4]"

definition methods_re :: re where
  "methods_re = seq [lit ''.Methods'', open_paren, dquoted 1]"

definition backquote :: char where
  "backquote = CHR 0x60"

definition goframe_meta_re :: re where
  "goframe_meta_re = seq [Word_edge, lit ''type'', spaces, Group 1 (Then (Byte is_upper_byte) (any_of is_word)), spaces,
     lit ''struct'', opt_spaces, lit ''{'', opt_spaces, lit ''g.Meta'', spaces, lit [backquote],
     Group 2 (any_of (except {backquote})), lit [backquote]]"

definition tag_re :: "string \<Rightarrow> re" where
  "tag_re key = seq [Word_edge, lit key, lit '':'', dquoted 1]"

definition go_package_re :: re where
  "go_package_re = seq [Line_start, opt_spaces, lit ''package'', spaces, Group 1 word_plus]"

definition express_verbs :: "string list" where
  "express_verbs = [''get'', ''post'', ''put'', ''delete'', ''patch'', ''head'', ''options'', ''all'']"

definition express_route_re :: re where
  "express_route_re = seq [Group 1 word_plus, lit ''.'', Group 2 (one_of express_verbs), open_paren, quoted 3, comma,
     Group 4 (some_of word_dot)]"

definition express_middleware_re :: re where
  "express_middleware_re = seq [Group 1 word_plus, lit ''.'', Group 2 (one_of express_verbs), open_paren, quoted 3, comma,
     Many (Then (some_of word_dot) comma), Group 4 (some_of word_dot)]"

definition bare_arg :: "nat \<Rightarrow> re" where
  "bare_arg i = seq [Maybe (Byte quote_char),
     Group i (some_of (\<lambda>c. \<not> quote_char c \<and> c \<noteq> CHR '')'' \<and> \<not> re_space c)), Maybe (Byte quote_char)]"

definition nestjs_route_re :: re where
  "nestjs_route_re = seq [lit ''@'',
     Group 1 (one_of [''Get'', ''Post'', ''Put'', ''Delete'', ''Patch'', ''Options'', ''Head'', ''All'']),
     open_paren, bare_arg 2, opt_spaces, lit '')'']"

definition nestjs_controller_re :: re where
  "nestjs_controller_re = seq [lit ''@Controller'', open_paren, quoted 1, opt_spaces, lit '')'']"

definition component_name :: "nat \<Rightarrow> re" where
  "component_name i = Group i (Then (Byte is_upper_byte) (any_of is_word))"

definition react_route_tag_re :: re where
  "react_route_tag_re = Then (lit ''<Route'') Word_edge"

definition assigned :: "string \<Rightarrow> string \<Rightarrow> re" where
  "assigned name sep = seq [Word_edge, lit name, opt_spaces, lit sep, opt_spaces]"

definition react_path_re :: re where
  "react_path_re = Then (assigned ''path'' ''='') (quoted 1)"

definition react_comp_re :: re where
  "react_comp_re = seq [assigned ''component'' ''='', lit ''{'', opt_spaces, component_name 1]"

definition react_elem_re :: re where
  "react_elem_re = seq [assigned ''element'' ''='', lit ''{'', opt_spaces, lit ''<'', opt_spaces, component_name 1]"

definition react_router_api_re :: re where
  "react_router_api_re = seq [Word_edge,
     one_of [''createBrowserRouter'', ''createHashRouter'', ''createMemoryRouter'', ''createRoutesFromElements''], Word_edge]"

definition react_data_path_re :: re where
  "react_data_path_re = seq [assigned ''path'' '':'', Byte quote_char, Group 1 (any_of (\<lambda>c. \<not> quote_char c)), Byte quote_char]"

definition react_data_elem_re :: re where
  "react_data_elem_re = seq [assigned ''element'' '':'', lit ''<'', opt_spaces, component_name 1]"

definition react_data_comp_re :: re where
  "react_data_comp_re = Then (assigned ''Component'' '':'') (component_name 1)"

definition js_handler_re :: re where
  "js_handler_re = seq [Maybe (Then (lit ''async'') spaces), Maybe (Then (lit ''function'') spaces), Group 1 word_plus,
     opt_spaces, lit ''('']"

definition flask_route_re :: re where
  "flask_route_re = seq [lit ''@'', Group 1 word_plus, lit ''.route'', open_paren, quoted 2, opt_spaces,
     Maybe (seq [lit '','', opt_spaces, lit ''methods'', opt_spaces, lit ''='', opt_spaces, lit ''['',
       Group 3 (some_of (except {CHR '']''})), lit '']'']), opt_spaces, lit '')'']"

definition fastapi_route_re :: re where
  "fastapi_route_re = seq [lit ''@'', Group 1 word_plus, lit ''.'',
     Group 2 (one_of [''get'', ''post'', ''put'', ''delete'', ''patch'', ''head'', ''options'']),
     open_paren, quoted 3, opt_spaces, lit '')'']"

definition django_route_re :: re where
  "django_route_re = seq [one_of [''path'', ''re_path''], open_paren, quoted 1, comma, Group 2 (some_of word_dot)]"

definition word_colon :: "char \<Rightarrow> bool" where
  "word_colon c \<longleftrightarrow> is_word c \<or> c = CHR '':''"

definition laravel_route_re :: re where
  "laravel_route_re = seq [lit ''Route::'',
     Group 1 (one_of [''get'', ''post'', ''put'', ''delete'', ''patch'', ''options'', ''any'', ''match'']), open_paren, quoted 2, comma,
     Either (seq [lit ''['', Group 3 (some_of word_colon), lit ''::class'', comma, Maybe (Byte quote_char), Group 4 word_plus,
         Maybe (Byte quote_char), lit '']''])
       (Group 5 (some_of (\<lambda>c. is_word c \<or> c = backslash)))]"

definition laravel_resource_re :: re where
  "laravel_resource_re = seq [lit ''Route::resource'', open_paren, quoted 1, comma, Group 2 (some_of word_colon), lit ''::class'']"

definition rails_route_re :: re where
  "rails_route_re = seq [Group 1 (one_of [''get'', ''post'', ''put'', ''patch'', ''delete'']), spaces, quoted 2, comma,
     lit ''to:'', opt_spaces, quoted 3]"

definition rails_resources_re :: re where
  "rails_resources_re = seq [lit ''resource'', Maybe (lit ''s''), spaces, lit '':'', Group 1 word_plus]"

definition spring_mapping_re :: re where
  "spring_mapping_re = seq [lit ''@'',
     Group 1 (one_of [''GetMapping'', ''PostMapping'', ''PutMapping'', ''DeleteMapping'', ''PatchMapping'', ''RequestMapping'']),
     open_paren, Maybe (seq [lit ''value'', opt_spaces, lit ''='', opt_spaces]), quoted 2]"

definition access_re :: re where
  "access_re = Then (one_of [''public'', ''private'', ''protected'']) spaces"

definition java_handler_re :: re where
  "java_handler_re = seq [access_re, word_plus, spaces, Group 1 word_plus, opt_spaces, lit ''('']"

definition aspnet_route_re :: re where
  "aspnet_route_re = seq [lit ''['',
     Group 1 (one_of [''HttpGet'', ''HttpPost'', ''HttpPut'', ''HttpDelete'', ''HttpPatch'', ''Route'']),
     open_paren, bare_arg 2, opt_spaces, lit '')]'']"

definition csharp_handler_re :: re where
  "csharp_handler_re = seq [access_re, Maybe (Then (lit ''async'') spaces), Maybe (Then word_plus (lit ''<'')), word_plus,
     Maybe (lit ''>''), spaces, Group 1 word_plus, opt_spaces, lit ''('']"

definition http_verbs :: "string list" where
  "http_verbs = [''get'', ''post'', ''put'', ''delete'', ''patch'', ''head'', ''options'']"

definition axum_route_re :: re where
  "axum_route_re = seq [lit ''.route'', open_paren, quoted 1, comma, Group 2 (one_of http_verbs), open_paren,
     Group 3 (some_of word_dot)]"

definition actix_route_re :: re where
  "actix_route_re = seq [lit ''#['', Group 1 (one_of http_verbs), open_paren, quoted 2, opt_spaces, lit '')]'']"

definition rust_handler_re :: re where
  "rust_handler_re = seq [Maybe (Then (lit ''async'') spaces), lit ''fn'', spaces, Group 1 word_plus, opt_spaces, lit ''('']"

definition vapor_route_re :: re where
  "vapor_route_re = seq [Group 1 (one_of [''app'', ''router'']), lit ''.'',
     Group 2 (one_of [''get'', ''post'', ''put'', ''delete'', ''patch'']), open_paren, quoted 3, comma, lit ''use:'', opt_spaces,
     Group 4 (some_of word_dot)]"

definition play_route_re :: re where
  "play_route_re = seq [Group 1 (one_of [''GET'', ''POST'', ''PUT'', ''DELETE'', ''PATCH'']), spaces,
     Group 2 (Then (lit ''/'') (some_of not_space)), spaces, Group 3 (some_of not_space)]"

section \<open>Go\<close>

definition a_route :: "string \<Rightarrow> string \<Rightarrow> string \<Rightarrow> nat \<Rightarrow> route" where
  "a_route meth path handler i =
     \<lparr>rt_method = meth, rt_path = path, rt_handler = handler, rt_line = int (Suc i), rt_qname = []\<rparr>"

definition goframe_route_marker :: string where
  "goframe_route_marker = ''::goframe-route:''"

definition detect_goframe_routes :: "(string \<Rightarrow> string) \<Rightarrow> string \<Rightarrow> string \<Rightarrow> route list" where
  "detect_goframe_routes up source path =
     (if \<not> contains_str source ''g.Meta'' then []
      else (let pkg = (case find_submatch go_package_re source of Some m \<Rightarrow> m 1 | None \<Rightarrow> []) in
        concat (map (\<lambda>m. let req = group_text m 1; tag = group_text m 2 in
          (case find_submatch (tag_re ''path'') tag of
             None \<Rightarrow> []
           | Some pm \<Rightarrow>
               [(a_route (case find_submatch (tag_re ''method'') tag of Some mm \<Rightarrow> up (mm 1) | None \<Rightarrow> ''ANY'') (pm 1) []
                   (count_list (rev (fst m)) newline))
                  \<lparr>rt_qname := path @ goframe_route_marker @ (if pkg = [] then req else pkg @ ''.'' @ req)\<rparr>]))
          (find_all goframe_meta_re [] source))))"

text \<open>The line and the two after it, for the methods of a handler that takes any.\<close>

definition full_call :: "string list \<Rightarrow> nat \<Rightarrow> string \<Rightarrow> string" where
  "full_call lines i t = t @ concat (map (\<lambda>l. CHR '' '' # trim_space l) (take 2 (drop (Suc i) lines)))"

definition go_route_line :: "(string \<Rightarrow> string) \<Rightarrow> string list \<Rightarrow> nat \<Rightarrow> string \<Rightarrow> route list" where
  "go_route_line up lines i line =
     (let t = trim_space line in
      case find_submatch gin_route_re t of
        Some m \<Rightarrow> [a_route (m 2) (m 3) (m 4) i]
      | None \<Rightarrow> (case find_submatch chi_route_re t of
        Some m \<Rightarrow>
          if up (m 2) = ''HANDLE'' \<or> up (m 2) = ''HANDLEFUNC'' then
            (case find_submatch methods_re (full_call lines i t) of
               Some m' \<Rightarrow> [a_route (up (m' 1)) (m 3) (m 4) i] | None \<Rightarrow> [])
          else [a_route (up (m 2)) (m 3) (m 4) i]
      | None \<Rightarrow> (case find_submatch mux_route_re t of
        Some m \<Rightarrow> [a_route (m 4) (m 2) (m 3) i]
      | None \<Rightarrow> (case find_submatch mux_route_re2 t of
        Some m \<Rightarrow> [a_route (m 2) (m 3) (m 4) i]
      | None \<Rightarrow> []))))"

definition detect_go_routes :: "(string \<Rightarrow> string) \<Rightarrow> string \<Rightarrow> string \<Rightarrow> route list" where
  "detect_go_routes up source path =
     (let lines = split_on newline source in
      detect_goframe_routes up source path @ each_line (go_route_line up lines) lines)"

section \<open>JavaScript\<close>

definition extract_js_handler :: "string list \<Rightarrow> nat \<Rightarrow> string" where
  "extract_js_handler lines i = next_named js_handler_re (\<lambda>name. name \<noteq> ''class'' \<and> name \<noteq> ''function'') lines i"

text \<open>A route whose handler is looked for in the lines below; without one there is no route.\<close>

definition handled :: "string \<Rightarrow> string \<Rightarrow> string \<Rightarrow> nat \<Rightarrow> route list" where
  "handled meth path handler i = (if handler = [] then [] else [a_route meth path handler i])"

definition js_route_line :: "(string \<Rightarrow> string) \<Rightarrow> string list \<Rightarrow> string \<Rightarrow> nat \<Rightarrow> string \<Rightarrow> string \<times> route list" where
  "js_route_line up lines controller i line =
     (let t = trim_space line in
      case find_submatch nestjs_controller_re t of
        Some m \<Rightarrow> (m 1, [])
      | None \<Rightarrow> (controller, case find_submatch nestjs_route_re t of
        Some m \<Rightarrow> handled (up (m 1)) (controller @ m 2) (extract_js_handler lines i) i
      | None \<Rightarrow> (case find_submatch express_middleware_re t of
        Some m \<Rightarrow> [a_route (up (m 2)) (m 3) (m 4) i]
      | None \<Rightarrow> (case find_submatch express_route_re t of
        Some m \<Rightarrow> [a_route (up (m 2)) (m 3) (m 4) i]
      | None \<Rightarrow> []))))"

definition window :: "nat \<Rightarrow> string \<times> place \<Rightarrow> string \<Rightarrow> string" where
  "window n m source = take n (drop (match_begin m) source)"

text \<open>The group of the first of some patterns that matches.\<close>

fun first_named :: "re list \<Rightarrow> string \<Rightarrow> string" where
  "first_named [] s = []"
| "first_named (r # rs) s = (case find_submatch r s of Some m \<Rightarrow> m 1 | None \<Rightarrow> first_named rs s)"

definition detect_react_router_routes :: "string \<Rightarrow> route list" where
  "detect_react_router_routes source =
     concat (map (\<lambda>m. case find_submatch react_path_re (window 400 m source) of
          None \<Rightarrow> []
        | Some pm \<Rightarrow> [a_route ''GET'' (pm 1) (first_named [react_comp_re, react_elem_re] (window 400 m source))
                       (count_list (rev (fst m)) newline)])
       (find_all react_route_tag_re [] source))
     @ (if match_string react_router_api_re source then
          concat (map (\<lambda>m. handled ''GET'' (if group_text m 1 = [] then ''/'' else group_text m 1)
              (first_named [react_data_elem_re, react_data_comp_re] (window 300 m source)) (count_list (rev (fst m)) newline))
            (find_all react_data_path_re [] source))
        else [])"

definition detect_js_routes :: "(string \<Rightarrow> string) \<Rightarrow> string \<Rightarrow> route list" where
  "detect_js_routes up source =
     (let lines = split_on newline source in gather (js_route_line up lines) [] 0 lines @ detect_react_router_routes source)"

section \<open>Python\<close>

definition extract_python_handler :: "string list \<Rightarrow> nat \<Rightarrow> string" where
  "extract_python_handler lines i =
     (if length lines \<le> i + 1 then []
      else (let l = trim_space (lines ! (i + 1)) in
        if has_prefix l ''def '' \<or> has_prefix l ''async def '' then
          trim_space (takeWhile (except {CHR ''(''}) (drop 4 (trim_prefix l ''async '')))
        else []))"

definition flask_methods :: "(string \<Rightarrow> string) \<Rightarrow> string \<Rightarrow> string list" where
  "flask_methods up list =
     (let methods = (if list = [] then ''GET'' else trim_space (filter (\<lambda>c. \<not> quote_char c) (up list))) in
      filter (\<lambda>m. m \<noteq> []) (map trim_space (split_on (CHR '','') methods)))"

definition python_route_line :: "(string \<Rightarrow> string) \<Rightarrow> string list \<Rightarrow> nat \<Rightarrow> string \<Rightarrow> route list" where
  "python_route_line up lines i line =
     (let t = trim_space line; handler = extract_python_handler lines i in
      case find_submatch flask_route_re t of
        Some m \<Rightarrow> concat (map (\<lambda>meth. handled meth (m 2) handler i) (flask_methods up (m 3)))
      | None \<Rightarrow> (case find_submatch fastapi_route_re t of
        Some m \<Rightarrow> handled (up (m 2)) (m 3) handler i
      | None \<Rightarrow> (case find_submatch django_route_re t of
        Some m \<Rightarrow> [a_route ''ANY'' (m 1) (m 2) i]
      | None \<Rightarrow> [])))"

section \<open>The other languages\<close>

definition php_route_line :: "(string \<Rightarrow> string) \<Rightarrow> nat \<Rightarrow> string \<Rightarrow> route list" where
  "php_route_line up i line =
     (let t = trim_space line in
      case find_submatch laravel_route_re t of
        Some m \<Rightarrow> [a_route (up (m 1)) (m 2) (if m 4 = [] then m 5 else m 4) i]
      | None \<Rightarrow> (case find_submatch laravel_resource_re t of
        Some m \<Rightarrow> [a_route ''RESOURCE'' (m 1) (m 2) i]
      | None \<Rightarrow> []))"

definition ruby_route_line :: "(string \<Rightarrow> string) \<Rightarrow> nat \<Rightarrow> string \<Rightarrow> route list" where
  "ruby_route_line up i line =
     (let t = trim_space line in
      case find_submatch rails_route_re t of
        Some m \<Rightarrow> [a_route (up (m 1)) (m 2) (m 3) i]
      | None \<Rightarrow> (case find_submatch rails_resources_re t of
        Some m \<Rightarrow> [a_route ''RESOURCE'' (''/'' @ m 1) (m 1) i]
      | None \<Rightarrow> []))"

definition java_route_line :: "(string \<Rightarrow> string) \<Rightarrow> string list \<Rightarrow> nat \<Rightarrow> string \<Rightarrow> route list" where
  "java_route_line up lines i line =
     (case find_submatch spring_mapping_re (trim_space line) of
        Some m \<Rightarrow> (let meth = up (trim_suffix (m 1) ''Mapping'') in
          handled (if meth = ''REQUEST'' then ''GET'' else meth) (m 2) (next_named java_handler_re (\<lambda>_. True) lines i) i)
      | None \<Rightarrow> [])"

definition csharp_route_line :: "(string \<Rightarrow> string) \<Rightarrow> string list \<Rightarrow> nat \<Rightarrow> string \<Rightarrow> route list" where
  "csharp_route_line up lines i line =
     (case find_submatch aspnet_route_re (trim_space line) of
        Some m \<Rightarrow> (let meth = up (trim_prefix (m 1) ''Http'') in
          handled (if meth = ''ROUTE'' then ''ANY'' else meth) (m 2) (next_named csharp_handler_re (\<lambda>_. True) lines i) i)
      | None \<Rightarrow> [])"

definition rust_route_line :: "(string \<Rightarrow> string) \<Rightarrow> string list \<Rightarrow> nat \<Rightarrow> string \<Rightarrow> route list" where
  "rust_route_line up lines i line =
     (let t = trim_space line in
      case find_submatch axum_route_re t of
        Some m \<Rightarrow> [a_route (up (m 2)) (m 1) (m 3) i]
      | None \<Rightarrow> (case find_submatch actix_route_re t of
        Some m \<Rightarrow> handled (up (m 1)) (m 2) (next_named rust_handler_re (\<lambda>_. True) lines i) i
      | None \<Rightarrow> []))"

definition swift_route_line :: "(string \<Rightarrow> string) \<Rightarrow> nat \<Rightarrow> string \<Rightarrow> route list" where
  "swift_route_line up i line =
     (case find_submatch vapor_route_re (trim_space line) of
        Some m \<Rightarrow> [a_route (up (m 2)) (m 3) (m 4) i] | None \<Rightarrow> [])"

definition scala_route_line :: "nat \<Rightarrow> string \<Rightarrow> route list" where
  "scala_route_line i line =
     (case find_submatch play_route_re (trim_space line) of
        Some m \<Rightarrow> [a_route (m 1) (m 2) (m 3) i] | None \<Rightarrow> [])"

definition detect_routes :: "(string \<Rightarrow> string) \<Rightarrow> string \<Rightarrow> string \<Rightarrow> string \<Rightarrow> route list" where
  "detect_routes up source path language =
     (let lines = split_on newline source in
      if language = ''go'' then detect_go_routes up source path
      else if language = ''typescript'' \<or> language = ''javascript'' then detect_js_routes up source
      else if language = ''python'' then each_line (python_route_line up lines) lines
      else if language = ''php'' then each_line (php_route_line up) lines
      else if language = ''ruby'' then each_line (ruby_route_line up) lines
      else if language = ''java'' then each_line (java_route_line up lines) lines
      else if language = ''csharp'' then each_line (csharp_route_line up lines) lines
      else if language = ''rust'' then each_line (rust_route_line up lines) lines
      else if language = ''swift'' then each_line (swift_route_line up) lines
      else if language = ''scala'' then each_line scala_route_line lines
      else [])"

end
