(* ===== verification/Extract_Ranges.thy ===== *)
theory Extract_Ranges
  imports Sfc_Extractor Framework_Routes
begin

text \<open>
  What every extraction guarantees: the symbols, edges and references it reports lie inside the file, have
  names, and a reference starts at a symbol of the extraction.
\<close>

section \<open>Extractions that fit a file\<close>

definition line_count :: "string \<Rightarrow> nat" where
  "line_count s = line_breaks s + 1"

definition node_fits :: "nat \<Rightarrow> xnode \<Rightarrow> bool" where
  "node_fits k n \<longleftrightarrow> x_name n \<noteq> [] \<and> 1 \<le> x_line n \<and> x_line n \<le> x_end_line n \<and> x_end_line n \<le> int k"

definition edge_fits :: "nat \<Rightarrow> xedge \<Rightarrow> bool" where
  "edge_fits k e \<longleftrightarrow> 1 \<le> xe_line e \<and> xe_line e \<le> int k"

definition ref_fits :: "xnode list \<Rightarrow> nat \<Rightarrow> xref \<Rightarrow> bool" where
  "ref_fits ns k r \<longleftrightarrow> xr_name r \<noteq> [] \<and> 1 \<le> xr_line r \<and> xr_line r \<le> int k
     \<and> (xr_from_line r = 0 \<or> (\<exists>n\<in>set ns. x_name n = xr_from r \<and> x_line n = xr_from_line r))"

definition extraction_fits :: "nat \<Rightarrow> extraction \<Rightarrow> bool" where
  "extraction_fits k x \<longleftrightarrow> (\<forall>n\<in>set (ex_nodes x). node_fits k n)
     \<and> (\<forall>e\<in>set (ex_edges x). edge_fits k e \<and> xe_kind e \<noteq> edge_calls) \<and> (\<forall>r\<in>set (ex_refs x). ref_fits (ex_nodes x) k r)"

text \<open>The same of the nodes and edges of some lines, with the calls still among the edges.\<close>

definition lines_fit :: "nat \<Rightarrow> xnode list \<times> xedge list \<Rightarrow> bool" where
  "lines_fit k r \<longleftrightarrow> (\<forall>n\<in>set (fst r). node_fits k n)
     \<and> (\<forall>e\<in>set (snd r). edge_fits k e
          \<and> (xe_kind e = edge_calls \<longrightarrow> xe_target e \<noteq> [] \<and> (\<exists>n\<in>set (fst r). x_name n = xe_source e)))"

lemma lines_fit_Nil [simp]: "lines_fit k ([], [])"
  by (simp add: lines_fit_def)

lemma lines_fit_append:
  "lines_fit k (ns, es) \<Longrightarrow> lines_fit k (ns', es') \<Longrightarrow> lines_fit k (ns @ ns', es @ es')"
  unfolding lines_fit_def by auto

lemma over_lines_fit:
  assumes "\<And>s j. j < length ls \<Longrightarrow> lines_fit k (snd (f s (i + j) (ls ! j)))"
  shows "lines_fit k (over_lines f s i ls)"
  using assms
proof (induction ls arbitrary: s i)
  case (Cons l ls)
  obtain s' ns es where f: "f s i l = (s', ns, es)" by (metis prod.exhaust)
  obtain ns' es' where r: "over_lines f s' (Suc i) ls = (ns', es')" by (metis prod.exhaust)
  have "lines_fit k (ns, es)" using Cons.prems [of 0 s] by (simp add: f)
  moreover have "lines_fit k (snd (f t (Suc i + j) (ls ! j)))" if "j < length ls" for t j
    using Cons.prems [of "Suc j" t] that by simp
  then have "lines_fit k (ns', es')" using Cons.IH [of "Suc i" s'] r by simp
  ultimately show ?case by (simp add: f r lines_fit_append)
qed simp

lemma promote_fits:
  assumes "lines_fit k (ns, es)"
  shows "extraction_fits k (promote_calls_to_refs ns es)"
proof -
  have "ref_fits ns k (call_ref ns e)" if e: "e \<in> set es" "xe_kind e = edge_calls" for e
  proof -
    let ?ds = "sort_key x_line (filter (\<lambda>n. x_name n = xe_source e) ns)"
    have fits: "edge_fits k e" "xe_target e \<noteq> []" "\<exists>n\<in>set ns. x_name n = xe_source e"
      using assms e by (auto simp: lines_fit_def)
    then have "?ds \<noteq> []" by (metis (mono_tags, lifting) empty_filter_conv set_empty set_sort)
    from enclosing_def_line_spec [OF this, of "xe_line e"]
    obtain n where n: "n \<in> set ?ds" "enclosing_def_line ?ds (xe_line e) = x_line n" by blast
    then have "n \<in> set ns" "x_name n = xe_source e" by auto
    then show ?thesis using fits n(2) \<open>?ds \<noteq> []\<close> unfolding ref_fits_def call_ref_def Let_def edge_fits_def
      by (auto simp del: sort_key_simps)
  qed
  then show ?thesis using assms by (auto simp: extraction_fits_def promote_calls_to_refs_def lines_fit_def)
qed

section \<open>The groups of the patterns\<close>

lemma find_all_matches:
  "m \<in> set (find_all r b s) \<Longrightarrow> \<exists>u v. s = u @ v \<and> fst m = rev u @ b \<and> snd m \<in> set (matches r (fst m, v, no_groups))"
proof (induction r b s rule: find_all.induct)
  case (1 r b s)
  show ?case
  proof (cases "find_from r b s")
    case None
    then show ?thesis using "1.prems" by (simp add: find_all.simps)
  next
    case (Some p)
    obtain b0 b' a g where p: "p = (b0, b', a, g)" by (metis prod.exhaust)
    note f = Some [unfolded p]
    obtain u v where uv: "s = u @ v" "b0 = rev u @ b" "(b', a, g) \<in> set (matches r (b0, v, no_groups))"
      using find_from_matches [OF f] by blast
    from matches_taken_in [OF uv(3)] obtain w where w: "v = w @ a" "b' = rev w @ b0" by (auto simp: taken_in_def)
    have "m = (b0, b', a, g) \<or> m \<in> set (find_all r b' a) \<and> length a < length s"
      using "1.prems" by (auto simp: find_all.simps [of r b s] f split: if_splits)
    then show ?thesis
    proof
      assume "m = (b0, b', a, g)"
      then show ?thesis using uv by auto
    next
      assume m: "m \<in> set (find_all r b' a) \<and> length a < length s"
      then obtain u' v' where "a = u' @ v'" "fst m = rev u' @ b'" "snd m \<in> set (matches r (fst m, v', no_groups))"
        using "1.IH" [OF Some, of b0 "(b', a, g)" b' "(a, g)" a g] p by auto
      then show ?thesis using uv(1,2) w by (intro exI [of _ "u @ w @ u'"] exI [of _ v']) simp
    qed
  qed
qed

lemma find_all_group:
  assumes "m \<in> set (find_all r b s)" "always_set i r"
  shows "group_text m i \<in> group_words i r"
proof -
  obtain b0 b' a g where m: "m = (b0, b', a, g)" by (metis prod.exhaust)
  obtain v where v: "(b', a, g) \<in> set (matches r (b0, v, no_groups))" using find_all_matches [OF assms(1)] m by auto
  obtain x where "g i = Some x" using matches_always_set [OF v assms(2)] by auto
  then show ?thesis using matches_taken_in [OF v] by (auto simp: m group_text_def taken_in_def no_groups_def)
qed

text \<open>A group whose words are not empty names something.\<close>

lemma named_by:
  "find_submatch r s = Some m \<Longrightarrow> always_set i r \<Longrightarrow> [] \<notin> group_words i r \<Longrightarrow> m i \<noteq> []"
  using find_submatch_words(2) by metis

lemma group_words_seq: "group_words i (seq rs) = (\<Union>r\<in>set rs. group_words i r)"
  by (induction rs rule: seq.induct) auto

lemma always_set_seq: "always_set i (seq rs) \<longleftrightarrow> (\<exists>r\<in>set rs. always_set i r)"
  by (induction rs rule: seq.induct) auto

lemma group_words_lit [simp]: "group_words i (lit s) = {}"
  by (induction s) (auto simp: lit_def)

lemma always_set_lit [simp]: "\<not> always_set i (lit s)"
  by (induction s) (auto simp: lit_def)

lemma group_words_one_of [simp]: "group_words i (one_of ss) = {}"
  by (induction ss rule: one_of.induct) auto

lemma group_words_folded [simp]: "group_words i (folded_lit s) = {}"
  by (induction s) (auto simp: folded_lit_def folded_def Let_def)

lemma group_words_basic [simp]:
  "group_words i (some_of P) = {}" "group_words i (any_of P) = {}" "group_words i spaces = {}"
  "group_words i opt_spaces = {}" "group_words i word_plus = {}" "group_words i js_ident = {}"
  by (auto simp: some_of_def any_of_def spaces_def opt_spaces_def word_plus_def js_ident_def)

lemma words_named [simp]: "[] \<notin> words (some_of P)" "[] \<notin> words word_plus" "[] \<notin> words js_ident"
  by (auto simp: words_some_of word_plus_def js_ident_def)

lemmas group_eval = group_words_seq always_set_seq

lemma words_quoted: "[] \<notin> group_words i (quoted j)" "always_set i (quoted j) \<longleftrightarrow> i = j"
  by (auto simp: quoted_def group_eval some_of_def)

definition names_group :: "nat \<Rightarrow> re \<Rightarrow> bool" where
  "names_group i r \<longleftrightarrow> always_set i r \<and> [] \<notin> group_words i r"

lemma names_groupD: "names_group i r \<Longrightarrow> find_submatch r s = Some m \<Longrightarrow> m i \<noteq> []"
  by (auto simp: names_group_def dest: named_by)

lemma names_group_all: "names_group i r \<Longrightarrow> m \<in> set (find_all r b s) \<Longrightarrow> group_text m i \<noteq> []"
  using find_all_group by (metis names_group_def)

lemma words_folded_words [simp]: "[] \<notin> words folded_words" "group_words i folded_words = {}"
  by (auto simp: folded_words_def lit_def Let_def)

lemma group_words_digits [simp]: "group_words i (digits_then s t) = {}"
  by (simp add: digits_then_def group_eval)

lemma words_one_of [simp]: "[] \<notin> set ss \<Longrightarrow> ss \<noteq> [] \<Longrightarrow> [] \<notin> words (one_of ss)"
proof (induction ss rule: one_of.induct)
  case (2 s)
  then show ?case by (cases s) (auto simp: lit_def)
next
  case (3 s t ss)
  then show ?case by (cases s) (auto simp: lit_def)
qed simp

lemma line_patterns_named:
  "names_group 1 call_re" "names_group 1 go_func_re" "names_group 1 go_type_re" "names_group 1 js_func_re"
  "names_group 1 js_class_re" "names_group 1 js_arrow_re" "names_group 1 js_method_re" "names_group 1 py_func_re"
  "names_group 1 py_class_re" "names_group 1 generic_func_re" "names_group 1 generic_class_re"
  "names_group 1 c_style_func_re" "names_group 1 objc_method_re" "names_group 1 objc_class_re"
  "names_group 1 (liquid_re tag)" "names_group 1 lua_func_re" "names_group 2 lua_method_re"
  "names_group 1 pascal_func_re" "names_group 1 pascal_proc_re" "names_group 1 pascal_class_re" "names_group 1 pascal_unit_re"
  by (simp_all add: names_group_def group_eval call_re_def go_func_re_def go_type_re_def js_func_re_def js_class_re_def
    js_arrow_re_def js_method_re_def py_func_re_def py_class_re_def generic_func_re_def generic_class_re_def
    c_style_func_re_def objc_method_re_def objc_class_re_def liquid_re_def lua_func_re_def lua_method_re_def
    pascal_func_re_def pascal_proc_re_def pascal_class_re_def pascal_unit_re_def pascal_params_def words_quoted)

lemma rust_patterns_named:
  "names_group 1 rust_fn_head_re" "names_group 3 rust_struct_re" "names_group 1 rust_impl_re" "names_group 1 rust_call_re"
  by (simp_all add: names_group_def group_eval rust_fn_head_re_def rust_struct_re_def rust_impl_re_def rust_call_re_def
    pub_re_def type_args_re_def)

lemmas line_named = line_patterns_named [THEN names_groupD, unfolded One_nat_def]
lemmas rust_named = rust_patterns_named [THEN names_groupD, unfolded One_nat_def]

section \<open>The extractors\<close>

lemma block_node_fits:
  assumes "i < length lines" "name \<noteq> []" "i < stop" "stop \<le> length lines"
  shows "node_fits (length lines) (block_node kind name lines i stop)"
  using assms by (simp add: node_fits_def block_node_def found_node_def)

lemma line_node_fits: "i < length lines \<Longrightarrow> name \<noteq> [] \<Longrightarrow> node_fits (length lines) (line_node kind name i)"
  by (simp add: node_fits_def line_node_def found_node_def)

lemma found_edge_fits: "i < k \<Longrightarrow> edge_fits k (found_edge kind source target (Suc i))"
  by (simp add: edge_fits_def found_edge_def)

lemma call_edges_fit:
  assumes "names_group 1 r" "e \<in> set (call_edges source lines start stop r excl kw)"
  shows "edge_fits (length lines) e" "xe_source e = source" "xe_target e \<noteq> []"
proof -
  note e = call_edges_in [OF assms(2)]
  show "edge_fits (length lines) e" "xe_source e = source" using e by (auto simp: edge_fits_def)
  obtain m where "m \<in> set (find_all r [] (lines ! nat (xe_line e - 1)))" "xe_target e = group_text m 1" using e by blast
  then show "xe_target e \<noteq> []" using names_group_all [OF assms(1)] by simp
qed

lemma with_calls_fit:
  assumes "i < length lines" "name \<noteq> []" "i < stop" "stop \<le> length lines"
  shows "lines_fit (length lines) (with_calls kw kind name lines i stop)"
  using block_node_fits [OF assms] call_edges_fit [OF line_patterns_named(1)]
  by (auto simp: lines_fit_def with_calls_def block_node_def found_node_def)

lemma import_found_fits: "i < k \<Longrightarrow> lines_fit k ([], import_found path i target)"
  by (simp add: lines_fit_def import_found_def edge_fits_def found_edge_def)

lemma node_alone_fits: "node_fits k n \<Longrightarrow> lines_fit k ([n], [])"
  by (simp add: lines_fit_def)

lemmas brace_end = find_brace_end_bounds [THEN conjunct1] find_brace_end_bounds [THEN conjunct2]
lemmas indent_end = find_indent_end_bounds [THEN conjunct1] find_indent_end_bounds [THEN conjunct2]

lemma lines_fit_if: "lines_fit k a \<Longrightarrow> lines_fit k b \<Longrightarrow> lines_fit k (if c then a else b)"
  by simp

lemma go_line_fits:
  assumes i: "i < length lines"
  shows "lines_fit (length lines) (snd (go_line path lines s i l))"
proof -
  let ?t = "trim_space l"
  have imported: "lines_fit (length lines) ([], case find_submatch go_import_re ?t of None \<Rightarrow> [] | Some m \<Rightarrow> import_found path i (m 1))"
    by (cases "find_submatch go_import_re ?t") (simp_all add: import_found_fits [OF i])
  have declared: "lines_fit (length lines) (case find_submatch go_type_re ?t of
        Some m \<Rightarrow> ([block_node (if m 2 = ''interface'' then ''interface'' else ''struct'') (m 1) lines i (find_brace_end lines i)], [])
      | None \<Rightarrow>
          (case find_submatch go_func_re ?t of
             Some m \<Rightarrow> with_calls is_go_keyword (go_kind ?t (m 1)) (m 1) lines i (find_brace_end lines i)
           | None \<Rightarrow> ([], [])))"
    using i brace_end [OF i]
    by (auto dest: line_named intro!: node_alone_fits block_node_fits with_calls_fit split: option.split)
  show ?thesis unfolding go_line_def Let_def if_distrib [of snd] snd_conv
    by (intro lines_fit_if lines_fit_Nil imported declared)
qed

lemma js_member_fits: "i < length lines \<Longrightarrow> lines_fit (length lines) (js_member cls lines i l)"
proof (cases "find_submatch js_method_re (trim_space l)")
  case (Some m)
  assume i: "i < length lines"
  have n: "m 1 \<noteq> []" by (rule names_groupD [OF line_patterns_named(7) Some])
  have "node_fits (length lines) ((block_node kind_method (m 1) lines i (find_brace_end lines i))\<lparr>x_qname := q\<rparr>)" for q
    using block_node_fits [OF i n brace_end [OF i], of kind_method] by (simp add: node_fits_def)
  moreover have "x_name ((block_node kind_method (m 1) lines i (find_brace_end lines i))\<lparr>x_qname := q\<rparr>) = m 1" for q
    by (simp add: block_node_def found_node_def)
  ultimately show ?thesis using found_edge_fits [OF i] call_edges_fit [OF line_patterns_named(1)] i n
    unfolding js_member_def Let_def Some option.case lines_fit_def
    by (auto simp: found_edge_def)
qed (simp add: js_member_def Let_def)

lemma js_class_methods_fit:
  assumes "stop \<le> length lines"
  shows "lines_fit (length lines) (js_class_methods cls lines start stop)"
  unfolding js_class_methods_def
proof (rule over_lines_fit)
  fix s j
  assume "j < length (drop start (take stop lines))"
  then have "start + j < length lines" using assms by auto
  then show "lines_fit (length lines) (snd (js_member_step cls lines s (start + j) (drop start (take stop lines) ! j)))"
    by (simp add: js_member_step_def js_member_fits)
qed

lemma js_line_fits: "i < length lines \<Longrightarrow> lines_fit (length lines) (snd (js_line path lines u i l))"
proof -
  assume i: "i < length lines"
  have cls: "lines_fit (length lines) (let (ns, es) = js_class_methods (m 1) lines (Suc i) (find_brace_end lines i)
      in (block_node kind_class (m 1) lines i (find_brace_end lines i) # ns, es))"
    if "find_submatch js_class_re (trim_space l) = Some m" for m
    using lines_fit_append [OF node_alone_fits [OF block_node_fits [OF i names_groupD [OF line_patterns_named(5) that] brace_end [OF i]]]]
      js_class_methods_fit [OF brace_end(2) [OF i], of "m 1" "Suc i"]
    by (fastforce simp: split_beta Let_def)
  show ?thesis unfolding js_line_def Let_def snd_conv
    using cls i brace_end [OF i]
    by (auto dest: line_named
      intro!: import_found_fits with_calls_fit split: option.split)
qed

lemma py_line_fits: "i < length lines \<Longrightarrow> lines_fit (length lines) (snd (py_line path lines u i l))"
  unfolding py_line_def Let_def snd_conv
  by (auto simp: indent_end dest: line_named
      intro!: import_found_fits node_alone_fits block_node_fits with_calls_fit split: option.split)

lemma c_function_named: "c_function language t = Some name \<Longrightarrow> name \<noteq> []"
  by (auto simp: c_function_def dest: line_named split: if_splits option.splits)

lemma generic_line_fits: "i < length lines \<Longrightarrow> lines_fit (length lines) (snd (generic_line language lines u i l))"
  unfolding generic_line_def Let_def snd_conv
  by (auto simp: brace_end dest: line_named c_function_named
      intro!: node_alone_fits block_node_fits split: option.split)

lemma first_declared_fits:
  assumes "i < length lines" "\<forall>(r, kind, g)\<in>set ds. names_group g r"
  shows "lines_fit (length lines) (first_declared ds t i, [])"
  using assms(2)
proof (induction ds)
  case (Cons d ds)
  obtain r kind g where d: "d = (r, kind, g)" by (metis prod.exhaust)
  then show ?case using Cons names_groupD [of g r t] node_alone_fits [OF line_node_fits [OF assms(1)]]
    by (cases "find_submatch r t") auto
qed simp

lemma declared_line_fits:
  assumes "i < length lines" "\<forall>(r, kind, g)\<in>set ds. names_group g r"
  shows "lines_fit (length lines) (snd (declared_line path ir ds u i l))"
  unfolding declared_line_def Let_def snd_conv
  using assms by (auto intro!: import_found_fits first_declared_fits split: option.split)

lemma liquid_line_fits:
  assumes "i < length lines"
  shows "lines_fit (length lines) (snd (liquid_line u i l))"
proof -
  have "lines_fit (length lines) (first_declared [(liquid_re tag, tag, 1)] l i, [])" for tag
    by (rule first_declared_fits) (simp_all only: assms line_patterns_named list.set ball_simps prod.case simp_thms)
  from lines_fit_append [OF this this] show ?thesis by (simp add: liquid_line_def)
qed

lemma rust_struct_fits:
  assumes "i < length lines" "find_submatch rust_struct_re t = Some m"
  shows "node_fits (length lines) (rust_struct lines i m)"
proof -
  have "m 3 \<noteq> []" by (rule names_groupD [OF rust_patterns_named(2) assms(2)])
  from block_node_fits [OF assms(1) this brace_end [OF assms(1)]] show ?thesis
    by (simp add: node_fits_def rust_struct_def)
qed

lemma rust_fn_fits:
  assumes i: "i < length lines" and "name \<noteq> []"
  shows "lines_fit (length lines) (rust_fn impls lines i t name h)"
proof -
  have "node_fits (length lines) (block_node kind name lines i (find_brace_end lines i))" for kind
    by (rule block_node_fits [OF i assms(2) brace_end [OF i]])
  then show ?thesis using call_edges_fit [OF rust_patterns_named(4)] found_edge_fits [OF i]
    by (auto simp: rust_fn_def lines_fit_def node_fits_def Let_def split_beta block_node_def found_node_def found_edge_def)
qed

lemma rust_line_fits: "i < length lines \<Longrightarrow> lines_fit (length lines) (snd (rust_line path lines impls u i l))"
  unfolding rust_line_def Let_def snd_conv
  by (auto dest: rust_named intro!: node_alone_fits rust_struct_fits rust_fn_fits split: option.split)
    (auto simp: lines_fit_def edge_fits_def found_edge_def)

lemma length_split_on: "length (split_on c s) = count_list s c + 1"
  by (induction s) (auto split: list.split)

lemma line_count_split: "line_count s = length (split_on newline s)"
  by (simp add: line_count_def line_breaks_def length_split_on)

lemma over_all_lines_fit:
  "(\<And>s i l. i < length (split_on newline source) \<Longrightarrow> lines_fit (length (split_on newline source)) (snd (f s i l)))
     \<Longrightarrow> lines_fit (line_count source) (over_lines f s 0 (split_on newline source))"
  unfolding line_count_split by (rule over_lines_fit) simp

lemma declared_fit:
  "\<forall>(r, kind, g)\<in>set ds. names_group g r \<Longrightarrow>
     lines_fit (line_count source) (over_lines (declared_line path ir ds) () 0 (split_on newline source))"
  by (rule over_all_lines_fit) (rule declared_line_fits)

lemma extractors_fit:
  "lines_fit (line_count source) (extract_go source path)" "lines_fit (line_count source) (extract_js source path)"
  "lines_fit (line_count source) (extract_python source path)" "lines_fit (line_count source) (extract_objc source path)"
  "lines_fit (line_count source) (extract_lua source path)" "lines_fit (line_count source) (extract_pascal source path)"
  "lines_fit (line_count source) (extract_liquid source)" "lines_fit (line_count source) (extract_rust source path)"
  "lines_fit (line_count source) (extract_generic language source)"
  unfolding extract_go_def extract_js_def extract_python_def extract_objc_def extract_lua_def extract_pascal_def
    extract_liquid_def extract_rust_def extract_generic_def Let_def
  by (rule over_all_lines_fit go_line_fits js_line_fits py_line_fits declared_fit liquid_line_fits rust_line_fits
        generic_line_fits | assumption | simp only: line_patterns_named list.set ball_simps prod.case simp_thms)+

lemma extract_lines_fit: "lines_fit (line_count source) (extract_lines language source path)"
  unfolding extract_lines_def by (intro lines_fit_if extractors_fit)

section \<open>Components\<close>

definition ts_fits :: "ts_extractor \<Rightarrow> bool" where
  "ts_fits ts \<longleftrightarrow> (\<forall>lang content path r. ts lang content path = Parsed r \<longrightarrow> extraction_fits (line_count content) r)"

lemma lf_lines_breaks: "line_breaks (lf_lines s) = line_breaks s"
  by (induction s) (auto simp: line_breaks_def carriage_def)

lemma normalize_line_count: "line_count (normalize_source s) = line_count s"
proof -
  have "line_breaks (trim_prefix s utf8_bom) = line_breaks s"
    by (auto simp: trim_prefix_def prefix_def line_breaks_def utf8_bom_def)
  then show ?thesis by (simp add: line_count_def normalize_source_def lf_lines_breaks)
qed

lemma script_content_fits:
  assumes "ts_fits ts"
  shows "extraction_fits (line_count content) (extract_script_content ts lang content path)"
proof -
  have "lines_fit (line_count (normalize_source content)) (extract_js (normalize_source content) path)"
    using extract_lines_fit [of "normalize_source content" "''javascript''" path] by (simp add: extract_lines_def)
  then have "extraction_fits (line_count content) (regex_js content path)"
    by (simp add: regex_js_def split_beta promote_fits normalize_line_count)
  then show ?thesis using assms
    by (auto simp: extract_script_content_def ts_fits_def split: ts_result.split)
qed

lemma shifted_fits:
  assumes "extraction_fits k x" "offset + k \<le> n"
  shows "extraction_fits n (shifted offset x)"
proof -
  have "ref_fits (ex_nodes (shifted offset x)) n
      (r\<lparr>xr_line := shift_line (xr_line r) offset, xr_from_line := shift_line (xr_from_line r) offset\<rparr>)"
    if r: "r \<in> set (ex_refs x)" for r
  proof -
    have fit: "ref_fits (ex_nodes x) k r" using assms(1) r by (simp add: extraction_fits_def)
    have "xr_from_line r = 0 \<or> (\<exists>d\<in>set (ex_nodes (shifted offset x)). x_name d = xr_from r
        \<and> x_line d = shift_line (xr_from_line r) offset)"
      using fit by (force simp: ref_fits_def shifted_def)
    then show ?thesis using fit assms(2) by (auto simp: ref_fits_def shift_line_def)
  qed
  moreover have "\<forall>d\<in>set (ex_nodes (shifted offset x)). node_fits n d"
    using assms unfolding extraction_fits_def by (auto simp: shifted_def node_fits_def shift_line_def)
  moreover have "\<forall>e\<in>set (ex_edges (shifted offset x)). edge_fits n e \<and> xe_kind e \<noteq> edge_calls"
    using assms unfolding extraction_fits_def by (auto simp: shifted_def edge_fits_def shift_line_def)
  ultimately show ?thesis unfolding extraction_fits_def by (auto simp: shifted_def)
qed

text \<open>Two groups at the start of a pattern: the match begins with their texts.\<close>

lemma group_kept:
  assumes "q \<in> set (matches r p)" "group_words i r = {}"
  shows "snd (snd q) i = snd (snd p) i"
proof -
  obtain w where w: "\<forall>i x. snd (snd q) i = Some x \<longrightarrow> snd (snd p) i = Some x \<or> (x \<in> group_words i r \<and> sublist x w)"
      "\<forall>i. snd (snd p) i \<noteq> None \<longrightarrow> snd (snd q) i \<noteq> None"
    using matches_taken_in [OF assms(1)] unfolding taken_in_def by blast
  show ?thesis
  proof (cases "snd (snd q) i")
    case (Some x)
    then show ?thesis using w(1) assms(2) by fastforce
  next
    case None
    then have "snd (snd p) i = None" using w(2) by blast
    then show ?thesis using None by simp
  qed
qed

lemma two_groups:
  assumes "q \<in> set (matches (Then (Group i r1) (Then (Group j r2) r3)) p)" "i \<noteq> j"
    and "group_words i r2 = {}" "group_words i r3 = {}" "group_words j r3 = {}"
  shows "\<exists>x y z. fst (snd p) = x @ y @ z \<and> snd (snd q) i = Some x \<and> snd (snd q) j = Some y \<and> x \<in> words r1"
proof -
  obtain p1 where p1: "p1 \<in> set (matches (Group i r1) p)" and q1: "q \<in> set (matches (Then (Group j r2) r3) p1)"
    using assms(1) unfolding matches.simps(3) [of "Group i r1"] set_concat set_map by blast
  obtain p2 where p2: "p2 \<in> set (matches (Group j r2) p1)" and q: "q \<in> set (matches r3 p2)"
    using q1 unfolding matches.simps(3) set_concat set_map by blast
  obtain b a g where g1: "(b, a, g) \<in> set (matches r1 p)"
      "p1 = (b, a, g(i \<mapsto> take (length (fst (snd p)) - length a) (fst (snd p))))" using p1 by auto
  obtain x where x: "fst (snd p) = x @ a" "x \<in> words r1" using matches_taken_in [OF g1(1)] by (auto simp: taken_in_def)
  obtain b' a' g' where g2: "(b', a', g') \<in> set (matches r2 p1)"
      "p2 = (b', a', g'(j \<mapsto> take (length (fst (snd p1)) - length a') (fst (snd p1))))" using p2 by auto
  obtain y where y: "a = y @ a'" using matches_taken_in [OF g2(1)] g1(2) by (auto simp: taken_in_def)
  have "snd (snd p1) i = Some x" using g1(2) x by simp
  moreover have "g' i = snd (snd p1) i" using group_kept [OF g2(1) assms(3)] by simp
  ultimately have "snd (snd p2) i = Some x" using g2(2) assms(2) by simp
  then have "snd (snd q) i = Some x" using group_kept [OF q assms(4)] by simp
  moreover have "snd (snd p2) j = Some y" using g2(2) g1(2) y by simp
  then have "snd (snd q) j = Some y" using group_kept [OF q assms(5)] by simp
  ultimately show ?thesis using x y by (intro exI [of _ x] exI [of _ y] exI [of _ a']) simp
qed

lemma found_two_groups:
  assumes "m \<in> set (find_all (Then (Group i r1) (Then (Group j r2) r3)) [] s)" "i \<noteq> j"
    and "group_words i r2 = {}" "group_words i r3 = {}" "group_words j r3 = {}"
  shows "\<exists>z. s = before_group m i @ group_text m j @ z"
proof -
  obtain u v where uv: "s = u @ v" "fst m = rev u" and
      q: "snd m \<in> set (matches (Then (Group i r1) (Then (Group j r2) r3)) (fst m, v, no_groups))"
    using find_all_matches [OF assms(1)] unfolding append_Nil2 by blast
  obtain x y z where "v = x @ y @ z" "snd (snd (snd m)) i = Some x" "snd (snd (snd m)) j = Some y"
    using two_groups [OF q assms(2-5)] unfolding fst_conv snd_conv by blast
  then show ?thesis using uv by (cases m) (auto simp: before_group_def group_text_def)
qed

lemma sfc_block_text:
  "m \<in> set (find_all (sfc_block_re name) [] s) \<Longrightarrow> \<exists>z. s = before_group m 3 @ group_text m 2 @ z"
  unfolding sfc_block_re_def seq.simps by (erule found_two_groups) (auto simp: open_tag_re_def)

lemma find_sfc_scripts_text:
  assumes "b \<in> set (find_sfc_scripts source)"
  shows "\<exists>u v. source = u @ sb_content b @ v \<and> line_breaks u = sb_offset b"
  using assms sfc_block_text by (fastforce simp: find_sfc_scripts_def split: if_splits)

lemma words_lit: "words (lit s) = {s}"
  by (induction s) (auto simp: lit_def)

lemma find_astro_frontmatter_text:
  assumes "b \<in> set (find_astro_frontmatter source)"
  shows "\<exists>u v. source = u @ sb_content b @ v \<and> line_breaks u = sb_offset b"
proof -
  let ?head = "seq [lit ''---'', Maybe (lit [carriage]), lit [newline]]"
  obtain m where m: "find_submatch astro_fm_re source = Some m" "sb_content b = m 1" "sb_offset b = 1"
    using assms by (cases "find_submatch astro_fm_re source") (auto simp: find_astro_frontmatter_def split: if_splits)
  obtain b0 q where f: "find_from astro_fm_re [] source = Some (b0, q)"
      and g: "m = (\<lambda>i. case snd (snd q) i of None \<Rightarrow> [] | Some x \<Rightarrow> x)"
    using m(1) by (auto simp: find_submatch_def)
  obtain u v where uv: "source = u @ v" "b0 = rev u" "q \<in> set (matches astro_fm_re (b0, v, no_groups))"
    using find_from_matches [OF f] by auto
  have "u = []" and q: "q \<in> set (matches (Then (Group 3 ?head) (Then (Group 1 (Lazy (Byte (\<lambda>_. True))))
      (seq [Maybe (lit [carriage]), lit [newline], lit ''---'']))) (b0, v, no_groups))"
    using uv(2,3) unfolding astro_fm_re_def seq.simps
    by (cases "u = []"; simp only: matches.simps(3) [of Text_start] matches.simps(10) fst_conv rev_is_Nil_conv if_True if_False
          list.map list.set concat.simps append_Nil2 empty_iff)+
  have gs: "group_words 3 (Lazy (Byte (\<lambda>_. True))) = {}"
      "group_words 3 (seq [Maybe (lit [carriage]), lit [newline], lit ''---'']) = {}"
      "group_words 1 (seq [Maybe (lit [carriage]), lit [newline], lit ''---'']) = {}" by simp_all
  obtain x y z where x: "v = x @ y @ z" "snd (snd q) 1 = Some y" "x \<in> words ?head"
    using two_groups [OF q _ gs] unfolding fst_conv snd_conv by (metis numeral_eq_one_iff semiring_norm(86))
  have "line_breaks x = 1" using x(3) by (auto simp: words_lit line_breaks_def carriage_def)
  then show ?thesis using x m g uv(1) \<open>u = []\<close> by auto
qed

lemma line_breaks_append [simp]: "line_breaks (s @ t) = line_breaks s + line_breaks t"
  by (simp add: line_breaks_def)

lemma script_part_fits:
  assumes "ts_fits ts" "\<exists>u v. source = u @ sb_content b @ v \<and> line_breaks u = sb_offset b"
  shows "extraction_fits (line_count source) (shifted (sb_offset b) (extract_script_content ts (sb_lang b) (sb_content b) path))"
proof -
  obtain u v where "source = u @ sb_content b @ v" "line_breaks u = sb_offset b" using assms(2) by blast
  then have "sb_offset b + line_count (sb_content b) \<le> line_count source" by (simp add: line_count_def)
  then show ?thesis by (rule shifted_fits [OF script_content_fits [OF assms(1)]])
qed

text \<open>A part of the template with the number of line breaks before it.\<close>

definition region_of :: "string \<Rightarrow> string \<times> nat \<Rightarrow> bool" where
  "region_of source reg \<longleftrightarrow> (\<exists>u v. source = u @ fst reg @ v \<and> line_breaks u = snd reg)"

lemma regions_between_of: "reg \<in> set (regions_between source pos spans) \<Longrightarrow> region_of source reg"
proof (induction source pos spans rule: regions_between.induct)
  case (1 source pos)
  then have "reg = (drop pos source, line_breaks (take pos source))" by (auto split: if_splits)
  then show ?case unfolding region_of_def
    by (intro exI [of _ "take pos source"] exI [of _ "[]"]) simp
next
  case (2 source pos start stop spans)
  show ?case
  proof (cases "reg \<in> set (regions_between source (max pos stop) spans)")
    case False
    then have "reg = (drop pos (take start source), line_breaks (take pos source))" "pos < start"
      using "2.prems" by (auto split: if_splits)
    moreover have "source = take pos source @ drop pos (take start source) @ drop start source" if "pos < start"
      using that append_take_drop_id [of start source] append_take_drop_id [of pos "take start source"]
      by (metis append.assoc min.absorb1 nat_less_le take_take)
    ultimately show ?thesis unfolding region_of_def
      by (intro exI [of _ "take pos source"] exI [of _ "drop start source"]) simp
  qed (use 2 in blast)
qed

lemma template_regions_of: "reg \<in> set (template_regions language source) \<Longrightarrow> region_of source reg"
proof (cases "language = ''vue''")
  case True
  assume "reg \<in> set (template_regions language source)"
  then obtain m where m: "m \<in> set (find_all (sfc_block_re ''template'') [] source)"
      "reg = (group_text m 2, line_breaks (before_group m 3))"
    unfolding template_regions_def if_P [OF True] by auto
  obtain z where "source = before_group m 3 @ group_text m 2 @ z" using sfc_block_text [OF m(1)] by blast
  then show ?thesis unfolding region_of_def m(2) by auto
next
  case False
  assume "reg \<in> set (template_regions language source)"
  then show ?thesis unfolding template_regions_def if_not_P [OF False] by (rule regions_between_of)
qed

lemma find_all_before: "m \<in> set (find_all r [] s) \<Longrightarrow> \<exists>v. s = rev (fst m) @ v"
  using find_all_matches [of m r "[]" s] by auto

lemma tpl_call_before:
  assumes "m \<in> set (find_all tpl_call_re [] s)"
  shows "\<exists>v. s = before_group m 2 @ v"
proof -
  have "\<exists>z. s = before_group m 2 @ group_text m 1 @ z"
    by (rule found_two_groups [OF assms [unfolded tpl_call_re_def seq.simps]]) simp_all
  then show ?thesis by blast
qed

lemma template_refs_fit:
  assumes "reg \<in> set (template_regions language source)" "r \<in> set (component_refs owner reg @ template_call_refs owner reg)"
  shows "xr_name r \<noteq> [] \<and> xr_from r = owner \<and> xr_from_line r = 1 \<and> 1 \<le> xr_line r \<and> xr_line r \<le> int (line_count source)"
proof -
  obtain u v where uv: "source = u @ fst reg @ v" "line_breaks u = snd reg"
    using template_regions_of [OF assms(1)] by (auto simp: region_of_def)
  obtain kind name w where r: "r = template_ref owner kind name (line_breaks w + 1 + snd reg)" "name \<noteq> []"
      "\<exists>v. fst reg = w @ v"
    using assms(2) find_all_before tpl_call_before
    by (fastforce simp: component_refs_def template_call_refs_def Let_def split: if_splits)
  then obtain v' where "fst reg = w @ v'" by blast
  then show ?thesis using uv r(1,2) by (simp add: template_ref_def line_count_def)
qed

lemma extract_sfc_fits:
  assumes "ts_fits ts"
  shows "extraction_fits (line_count source) (extract_sfc ts language source path)"
proof -
  let ?owner = "sfc_component_name path"
  let ?comp = "component_node ?owner source"
  let ?blocks = "(if language = ''astro'' then find_astro_frontmatter source else []) @ find_sfc_scripts source"
  let ?part = "\<lambda>b. shifted (sb_offset b) (extract_script_content ts (sb_lang b) (sb_content b) path)"
  let ?x = "extract_sfc ts language source path"
  have part: "extraction_fits (line_count source) (?part b)" if "b \<in> set ?blocks" for b
  proof (rule script_part_fits [OF assms])
    have "b \<in> set (find_astro_frontmatter source) \<or> b \<in> set (find_sfc_scripts source)"
      using that by (simp split: if_splits) blast
    then show "\<exists>u v. source = u @ sb_content b @ v \<and> line_breaks u = sb_offset b"
      using find_sfc_scripts_text find_astro_frontmatter_text by blast
  qed
  have nodes: "ex_nodes ?x = ?comp # concat (map (\<lambda>b. ex_nodes (?part b)) ?blocks)"
    by (simp add: extract_sfc_def Let_def comp_def)
  have comp_fits: "node_fits (line_count source) ?comp" "x_name ?comp = ?owner" "x_line ?comp = 1"
    by (simp_all add: component_node_def node_fits_def found_node_def line_count_def sfc_component_name_def Let_def)
  have "ref_fits (ex_nodes ?x) (line_count source) r" if r: "r \<in> set (ex_refs ?x)" for r
  proof -
    consider b where "b \<in> set ?blocks" "r \<in> set (ex_refs (?part b))"
      | "r \<in> set (extract_sfc_template_refs language source ?owner)"
      using r by (auto simp: extract_sfc_def Let_def)
    then show ?thesis
    proof cases
      case 1
      then have "ref_fits (ex_nodes (?part b)) (line_count source) r" using part by (auto simp: extraction_fits_def)
      moreover have "set (ex_nodes (?part b)) \<subseteq> set (ex_nodes ?x)" using 1(1) unfolding nodes by auto
      ultimately show ?thesis unfolding ref_fits_def by blast
    next
      case 2
      then obtain reg where "reg \<in> set (template_regions language source)"
          "r \<in> set (component_refs ?owner reg @ template_call_refs ?owner reg)"
        using set_dedup_by unfolding extract_sfc_template_refs_def by fastforce
      from template_refs_fit [OF this] show ?thesis using comp_fits unfolding ref_fits_def nodes by auto
    qed
  qed
  moreover have "\<forall>n\<in>set (ex_nodes ?x). node_fits (line_count source) n"
    unfolding nodes using comp_fits(1) part by (auto simp: extraction_fits_def)
  moreover have "ex_edges ?x = concat (map (\<lambda>b. ex_edges (?part b)) ?blocks)"
    by (simp add: extract_sfc_def Let_def comp_def)
  then have "\<forall>e\<in>set (ex_edges ?x). edge_fits (line_count source) e \<and> xe_kind e \<noteq> edge_calls"
    using part by (auto simp: extraction_fits_def)
  ultimately show ?thesis unfolding extraction_fits_def by blast
qed

end
