(* ===== verification/Source_Extraction.thy ===== *)
theory Source_Extraction
  imports Extract_Ranges
begin

text \<open>
  The extraction of one file (\<^verbatim>\<open>extractFile\<close> and the detectors in \<^verbatim>\<open>indexFile\<close> of
  \<^verbatim>\<open>internal/extraction/index_writer.go\<close>): tree-sitter first, the extractor of lines when it is missing or
  fails, then routes and bridges, all on the normalised source.  It is an instance of the extractor the
  index passes take as a parameter.
\<close>

definition extract_file :: "ts_extractor \<Rightarrow> string \<Rightarrow> string \<Rightarrow> string \<Rightarrow> extraction \<times> bool \<times> extract_error" where
  "extract_file ts lang source store =
     (let fallback = extract_source ts lang source store in
      case ts lang source store of
        No_grammar \<Rightarrow> (fallback, False, Extract_ok)
      | Parsed r \<Rightarrow> (r, False, Extract_ok)
      | Parse_error \<Rightarrow> (fallback, True, Extract_ok)
      | Parse_timeout \<Rightarrow> (fallback, True, Ts_timeout))"

definition bridge_of :: "bridge_edge \<Rightarrow> bridge" where
  "bridge_of e = \<lparr>br_target = be_target e, br_line = int (be_line e)\<rparr>"

definition source_extract ::
    "ts_extractor \<Rightarrow> (string \<Rightarrow> string) \<Rightarrow> string \<Rightarrow> string \<Rightarrow> string
       \<Rightarrow> extraction \<times> bool \<times> extract_error \<times> route list \<times> bridge list" where
  "source_extract ts up lang data store =
     (let source = normalize_source data; (ex, ts_errored, err) = extract_file ts lang source store in
      (ex, ts_errored, err, detect_routes up source store lang, map bridge_of (detect_bridges source lang)))"

section \<open>Everything lies in the file\<close>

lemma promoted_fits: "lines_fit k r \<Longrightarrow> extraction_fits k (case r of (ns, es) \<Rightarrow> promote_calls_to_refs ns es)"
  by (cases r) (simp add: promote_fits)

lemma extract_source_fits:
  assumes "ts_fits ts"
  shows "extraction_fits (line_count source) (extract_source ts lang source path)"
proof -
  have "extraction_fits (line_count (normalize_source source)) (extract_source ts lang source path)"
  proof (cases "lang \<in> {''svelte'', ''vue'', ''astro''}")
    case True
    show ?thesis unfolding extract_source_def Let_def if_P [OF True] by (rule extract_sfc_fits [OF assms])
  next
    case False
    show ?thesis unfolding extract_source_def Let_def if_not_P [OF False] by (rule promoted_fits [OF extract_lines_fit])
  qed
  then show ?thesis by (simp add: normalize_line_count)
qed

lemma extract_file_fits:
  assumes "ts_fits ts"
  shows "extraction_fits (line_count source) (fst (extract_file ts lang source store))"
  using extract_source_fits [OF assms] assms
  by (auto simp: extract_file_def Let_def ts_fits_def split: ts_result.split)

lemma gather_line:
  "x \<in> set (gather f s i ls) \<Longrightarrow> \<exists>k<length ls. \<exists>s'. x \<in> set (snd (f s' (i + k) (ls ! k)))"
proof (induction ls arbitrary: s i)
  case (Cons l ls)
  obtain s' xs where f: "f s i l = (s', xs)" by (metis prod.exhaust)
  from Cons.prems consider "x \<in> set xs" | "x \<in> set (gather f s' (Suc i) ls)" by (auto simp: f)
  then show ?case
  proof cases
    case 1
    then have "x \<in> set (snd (f s (i + 0) ((l # ls) ! 0)))" by (simp add: f)
    then show ?thesis by (metis length_greater_0_conv list.distinct(1))
  next
    case 2
    then obtain k s'' where "k < length ls" "x \<in> set (snd (f s'' (Suc i + k) (ls ! k)))" using Cons.IH by blast
    then show ?thesis by (intro exI [of _ "Suc k"]) auto
  qed
qed simp

lemma each_line_line: "x \<in> set (each_line f ls) \<Longrightarrow> \<exists>k<length ls. x \<in> set (f k (ls ! k))"
  unfolding each_line_def by (drule gather_line) auto

definition route_fits :: "nat \<Rightarrow> route \<Rightarrow> bool" where
  "route_fits k r \<longleftrightarrow> 1 \<le> rt_line r \<and> rt_line r \<le> int k"

lemma a_route_fits [simp]: "route_fits k (a_route meth path handler i) \<longleftrightarrow> i < k"
  by (auto simp: route_fits_def a_route_def)

lemma handled_fits: "i < k \<Longrightarrow> r \<in> set (handled meth path handler i) \<Longrightarrow> route_fits k r"
  by (auto simp: handled_def split: if_splits)

lemma each_line_fits:
  assumes "\<And>i l r. i < length (split_on newline source) \<Longrightarrow> r \<in> set (f i l) \<Longrightarrow> route_fits (line_count source) r"
  shows "\<forall>r\<in>set (each_line f (split_on newline source)). route_fits (line_count source) r"
proof
  fix r
  assume "r \<in> set (each_line f (split_on newline source))"
  from each_line_line [OF this] show "route_fits (line_count source) r" using assms by blast
qed

lemma route_lines_fit:
  assumes "i < k"
  shows "r \<in> set (go_route_line up lines i l) \<Longrightarrow> route_fits k r"
    "r \<in> set (snd (js_route_line up lines controller i l)) \<Longrightarrow> route_fits k r"
    "r \<in> set (python_route_line up lines i l) \<Longrightarrow> route_fits k r"
    "r \<in> set (php_route_line up i l) \<Longrightarrow> route_fits k r"
    "r \<in> set (ruby_route_line up i l) \<Longrightarrow> route_fits k r"
    "r \<in> set (java_route_line up lines i l) \<Longrightarrow> route_fits k r"
    "r \<in> set (csharp_route_line up lines i l) \<Longrightarrow> route_fits k r"
    "r \<in> set (rust_route_line up lines i l) \<Longrightarrow> route_fits k r"
    "r \<in> set (swift_route_line up i l) \<Longrightarrow> route_fits k r"
    "r \<in> set (scala_route_line i l) \<Longrightarrow> route_fits k r"
  using assms handled_fits [OF assms]
  by (auto simp: go_route_line_def js_route_line_def python_route_line_def php_route_line_def ruby_route_line_def
    java_route_line_def csharp_route_line_def rust_route_line_def swift_route_line_def scala_route_line_def Let_def
    split: option.splits if_splits)

lemma match_line_less:
  assumes "m \<in> set (find_all r [] source)"
  shows "count_list (rev (fst m)) newline < line_count source"
proof -
  obtain v where "source = rev (fst m) @ v" using find_all_before [OF assms] by blast
  then have "line_breaks source = count_list (rev (fst m)) newline + line_breaks v" by (metis line_breaks_append line_breaks_def)
  then show ?thesis by (simp add: line_count_def)
qed

lemma match_routes_fit:
  assumes "\<And>m i r. i < line_count source \<Longrightarrow> i = count_list (rev (fst m)) newline \<Longrightarrow> r \<in> set (f m) \<Longrightarrow> route_fits (line_count source) r"
    and "r \<in> set (concat (map f (find_all p [] source)))"
  shows "route_fits (line_count source) r"
proof -
  obtain m where "m \<in> set (find_all p [] source)" "r \<in> set (f m)" using assms(2) by auto
  from assms(1) [OF match_line_less [OF this(1)] refl this(2)] show ?thesis .
qed

lemma goframe_routes_fit:
  assumes "r \<in> set (detect_goframe_routes up source path)"
  shows "route_fits (line_count source) r"
proof -
  let ?pkg = "case find_submatch go_package_re source of Some m \<Rightarrow> m 1 | None \<Rightarrow> []"
  have "contains_str source ''g.Meta''" using assms by (auto simp: detect_goframe_routes_def split: if_splits)
  then have "r \<in> set (concat (map (\<lambda>m. let req = group_text m 1; tag = group_text m 2 in
          (case find_submatch (tag_re ''path'') tag of
             None \<Rightarrow> []
           | Some pm \<Rightarrow>
               [(a_route (case find_submatch (tag_re ''method'') tag of Some mm \<Rightarrow> up (mm 1) | None \<Rightarrow> ''ANY'') (pm 1) []
                   (count_list (rev (fst m)) newline))
                  \<lparr>rt_qname := path @ goframe_route_marker @ (if ?pkg = [] then req else ?pkg @ ''.'' @ req)\<rparr>]))
          (find_all goframe_meta_re [] source)))"
    using assms unfolding detect_goframe_routes_def Let_def by simp
  then show ?thesis
    by (rule match_routes_fit [rotated]) (auto simp: Let_def route_fits_def a_route_def split: option.splits)
qed

lemma in_append_if: "x \<in> set (xs @ (if c then ys else [])) \<Longrightarrow> x \<in> set xs \<or> x \<in> set ys"
  by (auto split: if_splits)

lemma react_routes_fit:
  assumes "r \<in> set (detect_react_router_routes source)"
  shows "route_fits (line_count source) r"
proof -
  let ?tags = "concat (map (\<lambda>m. case find_submatch react_path_re (window 400 m source) of
          None \<Rightarrow> []
        | Some pm \<Rightarrow> [a_route ''GET'' (pm 1) (first_named [react_comp_re, react_elem_re] (window 400 m source))
                       (count_list (rev (fst m)) newline)]) (find_all react_route_tag_re [] source))"
  let ?data = "concat (map (\<lambda>m. handled ''GET'' (if group_text m 1 = [] then ''/'' else group_text m 1)
      (first_named [react_data_elem_re, react_data_comp_re] (window 300 m source)) (count_list (rev (fst m)) newline))
        (find_all react_data_path_re [] source))"
  consider "r \<in> set ?tags" | "r \<in> set ?data"
    using in_append_if [OF assms [unfolded detect_react_router_routes_def]] by blast
  then show ?thesis
  proof cases
    case 1
    then show ?thesis
      by (rule match_routes_fit [rotated]) (auto simp: route_fits_def a_route_def split: option.splits)
  next
    case 2
    then show ?thesis by (rule match_routes_fit [rotated]) (metis handled_fits)
  qed
qed

lemma detect_routes_fit: "r \<in> set (detect_routes up source path lang) \<Longrightarrow> route_fits (line_count source) r"
proof -
  let ?ls = "split_on newline source"
  have js: "\<forall>r\<in>set (gather (js_route_line up ?ls) [] 0 ?ls). route_fits (line_count source) r"
  proof
    fix r
    assume "r \<in> set (gather (js_route_line up ?ls) [] 0 ?ls)"
    then obtain k s where "k < length ?ls" "r \<in> set (snd (js_route_line up ?ls s (0 + k) (?ls ! k)))"
      using gather_line [of r "js_route_line up ?ls"] by blast
    then show "route_fits (line_count source) r" using route_lines_fit(2) [of k "line_count source"]
      by (simp add: line_count_split)
  qed
  note each = each_line_fits [OF route_lines_fit(1)] each_line_fits [OF route_lines_fit(3)] each_line_fits [OF route_lines_fit(4)]
    each_line_fits [OF route_lines_fit(5)] each_line_fits [OF route_lines_fit(6)] each_line_fits [OF route_lines_fit(7)]
    each_line_fits [OF route_lines_fit(8)] each_line_fits [OF route_lines_fit(9)] each_line_fits [OF route_lines_fit(10)]
  assume r: "r \<in> set (detect_routes up source path lang)"
  have "\<forall>r\<in>set (detect_routes up source path lang). route_fits (line_count source) r"
    unfolding detect_routes_def Let_def detect_go_routes_def detect_js_routes_def
    using goframe_routes_fit react_routes_fit js each
    by (simp only: if_split [where P = "\<lambda>xs. \<forall>r\<in>set xs. route_fits _ r"] set_append ball_Un list.set ball_empty) (simp add: line_count_split)
  then show ?thesis using r by blast
qed

section \<open>Lines of a script block\<close>

lemma split_on_join:
  "split_on x (s @ t) = butlast (split_on x s) @ (last (split_on x s) @ hd (split_on x t)) # tl (split_on x t)"
proof (induction s)
  case Nil
  then show ?case by (cases "split_on x t") (auto simp: split_on_not_Nil [THEN notE])
next
  case (Cons c s)
  show ?case
  proof (cases "split_on x s")
    case (Cons y ys)
    then show ?thesis using Cons.IH by (cases ys) auto
  qed simp
qed

lemma block_line:
  assumes "j < length (split_on x w)"
  shows "sublist (split_on x w ! j) (split_on x (u @ w @ v) ! (count_list u x + j))"
    and "0 < j \<Longrightarrow> Suc j < length (split_on x w) \<Longrightarrow> split_on x (u @ w @ v) ! (count_list u x + j) = split_on x w ! j"
proof -
  let ?w = "split_on x w"
  let ?head = "butlast (split_on x u)"
  have len: "length ?head = count_list u x" by (simp add: length_split_on)
  have w: "split_on x (w @ v) = butlast ?w @ (last ?w @ hd (split_on x v)) # tl (split_on x v)"
    by (rule split_on_join)
  have first: "hd (split_on x (w @ v)) = (if length ?w = 1 then last ?w @ hd (split_on x v) else hd ?w)"
    unfolding w by (cases ?w) (auto simp: neq_Nil_conv)
  have at: "split_on x (u @ w @ v) ! (count_list u x + j)
      = (if j = 0 then last (split_on x u) @ hd (split_on x (w @ v)) else split_on x (w @ v) ! j)"
  proof -
    have "split_on x (u @ w @ v) ! (count_list u x + j)
        = ((last (split_on x u) @ hd (split_on x (w @ v))) # tl (split_on x (w @ v))) ! j"
      unfolding split_on_join [of x u] len [symmetric] by (simp only: nth_append_length_plus)
    moreover obtain y ys where "split_on x (w @ v) = y # ys" by (metis list.exhaust split_on_not_Nil)
    ultimately show ?thesis by (cases j) simp_all
  qed
  have inner: "split_on x (w @ v) ! j = (if Suc j < length ?w then ?w ! j else last ?w @ hd (split_on x v))"
    using assms unfolding w by (auto simp: nth_append nth_butlast)
  have end_: "?w ! j = last ?w" if "\<not> Suc j < length ?w"
    using that assms by (metis Suc_lessI diff_Suc_1 last_conv_nth split_on_not_Nil)
  show "sublist (?w ! j) (split_on x (u @ w @ v) ! (count_list u x + j))"
  proof (cases "j = 0")
    case True
    then have "?w ! j = hd ?w" by (simp add: hd_conv_nth)
    then show ?thesis using True end_ assms unfolding at first
      by (cases "length ?w = 1") (auto intro: sublist_appendI sublist_append_leftI simp: sublist_append_rightI)
  next
    case False
    then show ?thesis unfolding at using inner end_ by (auto simp: sublist_append_rightI)
  qed
  show "0 < j \<Longrightarrow> Suc j < length ?w \<Longrightarrow> split_on x (u @ w @ v) ! (count_list u x + j) = ?w ! j"
    unfolding at using inner by simp
qed

section \<open>Writing the extraction\<close>

lemma batch_node_of:
  assumes "n \<in> set (batch_nodes store lang xs)"
  shows "n = file_node store lang \<or> (\<exists>x\<in>set xs. n = symbol_node store lang x)"
  using assms set_dedup_by [of conflict_key "{}" "file_node store lang # map (symbol_node store lang) xs"]
  by (auto simp: batch_nodes_def)

text \<open>Where the rows of a file can be.\<close>

definition row_in_file :: "nat \<Rightarrow> node \<Rightarrow> bool" where
  "row_in_file k n \<longleftrightarrow> n_kind n = kind_file \<and> n_line n = 0 \<or> n_name n \<noteq> [] \<and> 1 \<le> n_line n \<and> n_line n \<le> int k"

lemma row_in_file_key: "node_key n = node_key m \<Longrightarrow> row_in_file k n = row_in_file k m"
  by (simp add: node_key_def row_in_file_def)

lemma batch_rows_in_file:
  assumes "extraction_fits k ex" "\<forall>r\<in>set routes. route_fits k r" "n \<in> set (batch_nodes store lang (all_nodes ex routes))"
  shows "row_in_file k n"
  using batch_node_of [OF assms(3)] assms(1,2)
  by (fastforce simp: row_in_file_def file_node_def symbol_node_def all_nodes_def route_node_def route_name_def
    extraction_fits_def node_fits_def route_fits_def)

lemma index_path_write:
  assumes "db_ok db" "imports_elsewhere db store ex" "source_extract ts up lang data store = (ex, ts_errored, err, routes, bridges)"
    and "\<not> (\<not> force \<and> file_has_content_hash store hash db)"
    and "index_file force store lang hash stat now ex ts_errored err routes bridges db = (db', res)"
  shows "res = Inl Keep_old_index \<and> db' = db \<or>
    (\<exists>k. res = Inr k \<and> write_batch store lang k stat hash now (build_batch db store lang ex routes bridges) db = Inr db')"
proof (cases "keeps_old_index db store ex ts_errored err")
  case True
  then show ?thesis using assms(4,5) by (auto simp: index_file_def)
next
  case False
  let ?k = "length (all_nodes ex routes)"
  obtain db2 where "write_batch store lang ?k stat hash now (build_batch db store lang ex routes bridges) db = Inr db2"
    using index_batch_ok [OF assms(1,2)] by blast
  then show ?thesis using assms(4,5) False by (auto simp: index_file_def Let_def)
qed

section \<open>Properties\<close>


text \<open>C38 (\<open>calls_attributed\<close>).  Promoting calls loses none and keeps their order; each becomes a reference
  from the innermost definition of the caller's name around the call, without one from the last definition
  before it, and without that from the first one in the file.\<close>

theorem calls_attributed:
  fixes ns :: "xnode list" and es :: "xedge list"
  defines "x \<equiv> promote_calls_to_refs ns es"
  shows "map (\<lambda>r. (xr_from r, xr_name r, xr_line r)) (ex_refs x)
      = map (\<lambda>e. (xe_source e, xe_target e, xe_line e)) (filter (\<lambda>e. xe_kind e = edge_calls) es)
    \<and> ex_edges x = filter (\<lambda>e. xe_kind e \<noteq> edge_calls) es
    \<and> (\<forall>r\<in>set (ex_refs x). let ds = {n \<in> set ns. x_name n = xr_from r}; at = spans_line (xr_line r) in
        if ds = {} then xr_from_line r = 0
        else \<exists>n\<in>ds. xr_from_line r = x_line n \<and>
          (if \<exists>m\<in>ds. at m then at n \<and> (\<forall>m\<in>ds. at m \<longrightarrow> x_line m \<le> x_line n)
           else if \<exists>m\<in>ds. x_line m \<le> xr_line r
           then x_line n \<le> xr_line r \<and> (\<forall>m\<in>ds. x_line m \<le> xr_line r \<longrightarrow> x_line m \<le> x_line n)
           else \<forall>m\<in>ds. x_line n \<le> x_line m))"
proof (intro conjI ballI)
  show "map (\<lambda>r. (xr_from r, xr_name r, xr_line r)) (ex_refs x)
      = map (\<lambda>e. (xe_source e, xe_target e, xe_line e)) (filter (\<lambda>e. xe_kind e = edge_calls) es)"
    by (simp add: x_def promote_calls_to_refs_def call_ref_def Let_def)
  show "ex_edges x = filter (\<lambda>e. xe_kind e \<noteq> edge_calls) es" by (simp add: x_def promote_calls_to_refs_def)
  fix r
  assume "r \<in> set (ex_refs x)"
  then obtain e where r: "r = call_ref ns e" by (auto simp: x_def promote_calls_to_refs_def)
  let ?ds = "{n \<in> set ns. x_name n = xr_from r}"
  let ?l = "sort_key x_line (filter (\<lambda>n. x_name n = xe_source e) ns)"
  have r2: "xr_from r = xe_source e" "xr_line r = xe_line e"
      "xr_from_line r = (if ?l = [] then 0 else enclosing_def_line ?l (xe_line e))"
    by (simp_all add: r call_ref_def Let_def)
  have set: "set ?l = ?ds" by (auto simp: r2)
  show "let ds = ?ds; at = spans_line (xr_line r) in
        if ds = {} then xr_from_line r = 0
        else \<exists>n\<in>ds. xr_from_line r = x_line n \<and>
          (if \<exists>m\<in>ds. at m then at n \<and> (\<forall>m\<in>ds. at m \<longrightarrow> x_line m \<le> x_line n)
           else if \<exists>m\<in>ds. x_line m \<le> xr_line r
           then x_line n \<le> xr_line r \<and> (\<forall>m\<in>ds. x_line m \<le> xr_line r \<longrightarrow> x_line m \<le> x_line n)
           else \<forall>m\<in>ds. x_line n \<le> x_line m)"
  proof (cases "?l = []")
    case True
    then have "?ds = {}" using set by simp
    then show ?thesis using r2(3) True by (simp only: Let_def if_True simp_thms)
  next
    case False
    then have ne: "?ds \<noteq> {}" using set by (metis set_empty)
    have first: "\<forall>m\<in>set ?l. x_line (hd ?l) \<le> x_line m"
      using False sorted_sort_key [of x_line "filter (\<lambda>n. x_name n = xe_source e) ns"]
      by (cases ?l) auto
    from enclosing_def_line_spec [OF False, of "xe_line e"] obtain n where n: "n \<in> set ?l"
        "enclosing_def_line ?l (xe_line e) = x_line n"
        "spans_line (xe_line e) n \<and> (\<forall>m\<in>set ?l. spans_line (xe_line e) m \<longrightarrow> x_line m \<le> x_line n)
         \<or> (\<forall>m\<in>set ?l. \<not> spans_line (xe_line e) m) \<and> x_line n \<le> xe_line e
             \<and> (\<forall>m\<in>set ?l. x_line m \<le> xe_line e \<longrightarrow> x_line m \<le> x_line n)
         \<or> (\<forall>m\<in>set ?l. xe_line e < x_line m) \<and> n = hd ?l" by blast
    have from_line: "xr_from_line r = x_line n" using r2(3) False n(2) by simp
    have out: "\<not> spans_line (xe_line e) m" if "xe_line e < x_line m" for m using that by (simp add: spans_line_def)
    show ?thesis unfolding Let_def if_not_P [OF ne]
    proof (rule bexI [of _ n], rule conjI [OF from_line])
      show "if \<exists>m\<in>?ds. spans_line (xr_line r) m then spans_line (xr_line r) n \<and> (\<forall>m\<in>?ds. spans_line (xr_line r) m \<longrightarrow> x_line m \<le> x_line n)
           else if \<exists>m\<in>?ds. x_line m \<le> xr_line r
           then x_line n \<le> xr_line r \<and> (\<forall>m\<in>?ds. x_line m \<le> xr_line r \<longrightarrow> x_line m \<le> x_line n)
           else \<forall>m\<in>?ds. x_line n \<le> x_line m"
        using n(1,3) first out unfolding set [symmetric] r2(2) by (smt (verit, best))
      show "n \<in> ?ds" using n(1) set by blast
    qed
  qed
qed

text \<open>C39 (\<open>script_lines_exact\<close>).  The line a symbol of a script block is moved to holds the text of its line
  in the block: all of it inside the block, and as a part on the first and last line, where the tags stand.\<close>

theorem script_lines_exact:
  assumes "b \<in> set (find_astro_frontmatter source @ find_sfc_scripts source)"
    and "1 \<le> l" "l \<le> int (line_count (sb_content b))"
  defines "inner \<equiv> split_on newline (sb_content b) ! nat (l - 1)"
    and "outer \<equiv> split_on newline source ! nat (shift_line l (sb_offset b) - 1)"
  shows "sublist inner outer \<and> (1 < l \<and> l < int (line_count (sb_content b)) \<longrightarrow> inner = outer)
    \<and> shift_line l (sb_offset b) \<le> int (line_count source)"
proof -
  obtain u v where uv: "source = u @ sb_content b @ v" "line_breaks u = sb_offset b"
    using assms(1) find_sfc_scripts_text find_astro_frontmatter_text by (metis UnE set_append)
  let ?j = "nat (l - 1)"
  have j: "?j < length (split_on newline (sb_content b))" using assms(2,3) by (simp add: line_count_split)
  have "nat (shift_line l (sb_offset b) - 1) = count_list u newline + ?j"
    using assms(2) uv(2) by (simp add: shift_line_def line_breaks_def)
  then have "outer = split_on newline (u @ sb_content b @ v) ! (count_list u newline + ?j)" by (simp add: outer_def uv(1))
  moreover have "1 < l \<and> l < int (line_count (sb_content b)) \<Longrightarrow> 0 < ?j \<and> Suc ?j < length (split_on newline (sb_content b))"
    by (auto simp: line_count_split)
  moreover have "shift_line l (sb_offset b) \<le> int (line_count source)"
    using assms(2,3) uv by (simp add: shift_line_def line_count_def)
  ultimately show ?thesis using block_line [OF j, of u v] unfolding inner_def by metis
qed

text \<open>C40 (\<open>line_endings_transparent\<close>).  A file with carriage returns before its line feeds, with or without
  a byte order mark, gives the extraction, the routes and the bridges of the same file without them.\<close>

theorem line_endings_transparent:
  assumes "carriage \<notin> set s" "\<not> has_prefix s utf8_bom"
  shows "source_extract ts up lang (crlf s) store = source_extract ts up lang s store
    \<and> source_extract ts up lang (utf8_bom @ crlf s) store = source_extract ts up lang s store"
proof -
  have "\<not> prefix utf8_bom (crlf s)"
  proof
    assume p: "prefix utf8_bom (crlf s)"
    have keep: "crlf (c # t) = c # crlf t" if "c \<noteq> newline" for c t using that by (simp add: crlf_def)
    have head: "\<exists>t. r = c # t \<and> w = crlf t" if "crlf r = c # w" "c \<noteq> carriage" "c \<noteq> newline" for r c w
      using that by (cases r) (auto simp: crlf_def split: if_splits)
    obtain w where w: "crlf s = CHR 0xEF # CHR 0xBB # CHR 0xBF # w" using p by (auto simp: prefix_def utf8_bom_def)
    obtain t1 where t1: "s = CHR 0xEF # t1" "CHR 0xBB # CHR 0xBF # w = crlf t1" using head [OF w] by (auto simp: carriage_def)
    obtain t2 where t2: "t1 = CHR 0xBB # t2" "CHR 0xBF # w = crlf t2" using head [OF t1(2) [symmetric]] by (auto simp: carriage_def)
    obtain t3 where "t2 = CHR 0xBF # t3" using head [OF t2(2) [symmetric]] by (auto simp: carriage_def)
    then show False using assms(2) t1(1) t2(1) by (auto simp: has_prefix_iff utf8_bom_def)
  qed
  then have "normalize_source (crlf s) = s" "normalize_source s = s" "normalize_source (utf8_bom @ crlf s) = s"
    using assms by (simp_all add: normalize_source_def trim_prefix_def has_prefix_def lf_lines_crlf lf_lines_none)
  then show ?thesis by (simp add: source_extract_def)
qed

section \<open>Witnesses\<close>

definition no_grammars :: ts_extractor where
  "no_grammars = (\<lambda>_ _ _. No_grammar)"

definition text_of :: "string list \<Rightarrow> string" where
  "text_of ls = join_with [newline] ls"

definition c_text :: string where
  "c_text = text_of [''int f() {'', ''  g();'', ''}'']"

definition c_ix :: index_env where
  "c_ix = sample_ix\<lparr>ix_extract := source_extract no_grammars id\<rparr>"

lemma no_grammars_fit: "ts_fits no_grammars"
  by (simp add: ts_fits_def no_grammars_def)

lemma generic_no_edges: "snd (over_lines (generic_line lang lines) () i ls) = []"
  by (induction ls arbitrary: i) (auto simp: generic_line_def Let_def split_beta)

lemma c_text_edges: "ex_edges (fst (source_extract no_grammars id ''c'' c_text store)) = []"
  using generic_no_edges
  by (simp add: source_extract_def extract_file_def no_grammars_def extract_source_def extract_lines_def
    extract_generic_def promote_calls_to_refs_def Let_def split_beta)

lemma c_key: "storage_path ''/w'' ''/w/a.c'' = ''a.c''"
  by (simp add: storage_path_def path_eval str_eval)


definition two_defs :: "xnode list" where
  "two_defs = [found_node kind_function ''f'' 1 9 [], found_node kind_function ''f'' 3 5 []]"

theorem calls_attributed_witness:
  "map xr_from_line (ex_refs (promote_calls_to_refs two_defs [found_edge edge_calls ''f'' ''g'' 4])) = [3]"
proof -
  let ?x = "promote_calls_to_refs two_defs [found_edge edge_calls ''f'' ''g'' 4]"
  note c = calls_attributed [of two_defs "[found_edge edge_calls ''f'' ''g'' 4]"]
  have "map (\<lambda>r. (xr_from r, xr_name r, xr_line r)) (ex_refs ?x) = [(''f'', ''g'', 4)]"
    using c [THEN conjunct1] by (simp add: found_edge_def)
  then obtain r where r: "ex_refs ?x = [r]" "xr_from r = ''f''" "xr_line r = 4" by auto
  have in_x: "r \<in> set (ex_refs ?x)" by (simp only: r(1) list.set insertI1)
  let ?outer = "found_node kind_function ''f'' 1 9 []"
  let ?inner = "found_node kind_function ''f'' 3 5 []"
  have ds: "{n \<in> set two_defs. x_name n = xr_from r} = {?outer, ?inner}"
    by (simp only: two_defs_def list.set r(2)) (auto simp only: found_node_def xnode.simps insert_iff empty_iff mem_Collect_eq)
  have facts: "spans_line 4 ?outer" "spans_line 4 ?inner" "x_line ?outer = 1" "x_line ?inner = 3"
    by (simp_all add: spans_line_def last_line_def found_node_def)
  from c [THEN conjunct2, THEN conjunct2, THEN bspec, OF in_x, unfolded Let_def ds r(3)]
  obtain n where "n \<in> {?outer, ?inner}" "xr_from_line r = x_line n" "\<forall>m\<in>{?outer, ?inner}. spans_line 4 m \<longrightarrow> x_line m \<le> x_line n"
    using facts(1) by (auto simp only: insert_not_empty if_False split: if_splits)
  then have "xr_from_line r = 3" using facts by auto
  then show ?thesis by (simp add: r(1))
qed

definition astro_text :: string where
  "astro_text = text_of [''---'', ''a'', ''b'', ''c'', ''---'']"

definition astro_block :: script_block where
  "astro_block = \<lparr>sb_content = text_of [''a'', ''b'', ''c''], sb_offset = 1, sb_lang = ''typescript''\<rparr>"

theorem script_lines_exact_witness:
  "split_on newline astro_text ! 2 = split_on newline (sb_content astro_block) ! 1"
proof -
  have "map_option (\<lambda>m. m 1) (find_submatch astro_fm_re astro_text) = Some (sb_content astro_block)" by code_simp
  then obtain m where m: "find_submatch astro_fm_re astro_text = Some m" "m 1 = sb_content astro_block" by blast
  have "trim_space (sb_content astro_block) \<noteq> []"
    by (simp add: astro_block_def text_of_def trim_space_ascii ascii_string_def is_space_def Let_def)
  then have "find_astro_frontmatter astro_text = [astro_block]"
    using m(2) [unfolded One_nat_def] by (simp add: find_astro_frontmatter_def m(1)) (simp add: astro_block_def)
  then have b: "astro_block \<in> set (find_astro_frontmatter astro_text @ find_sfc_scripts astro_text)" by simp
  have n: "line_count (sb_content astro_block) = 3" "sb_offset astro_block = 1" by code_simp+
  have "1 \<le> (2::int)" "2 \<le> int (line_count (sb_content astro_block))" "2 < int (line_count (sb_content astro_block))"
    by (simp_all only: n of_nat_numeral numeral_le_iff numeral_less_iff one_le_numeral semiring_norm)
  note f = script_lines_exact [OF b this(1,2)] and inside = this(3)
  have "shift_line 2 (sb_offset astro_block) = 3" by (simp only: n shift_line_def) simp
  moreover have "nat (2 - 1) = 1" "nat (3 - 1) = 2" "1 < (2::int)" by simp_all
  ultimately show ?thesis using f inside by metis
qed

theorem line_endings_transparent_witness:
  "source_extract no_grammars id ''go'' [CHR 0xEF, CHR 0xBB, CHR 0xBF, CHR ''x'', carriage, newline] ''a.go''
     = source_extract no_grammars id ''go'' [CHR ''x'', newline] ''a.go''"
proof -
  have s: "carriage \<notin> set [CHR ''x'', newline]" "\<not> has_prefix [CHR ''x'', newline] utf8_bom"
    by (simp_all add: carriage_def has_prefix_def utf8_bom_def)
  have "utf8_bom @ crlf [CHR ''x'', newline] = [CHR 0xEF, CHR 0xBB, CHR 0xBF, CHR ''x'', carriage, newline]"
    by (simp add: utf8_bom_def crlf_def)
  then show ?thesis using line_endings_transparent [OF s, THEN conjunct2] by metis
qed

end
