(* ===== verification/Spec2Isabelle.thy ===== *)
theory Spec2Isabelle
  imports Edit_Distance Rg_Globs Affected Explore_Flow Sync_Index Daemon_Sessions Daemon_Connect Daemon_Spawn
    Project_Cache Server_Paths Line_Scan Tool_Output Import_Closure Synthesize Source_Extraction
begin

text \<open>
  \<^bold>\<open>codegraph-go\<close> keeps a database of the symbols of a source tree and of the calls, imports and other
  edges between them, and answers an agent's questions about it over MCP.  A walk collects the files of
  the workdir, an extractor reads symbols and references from each, the index writer replaces the rows
  of the file, and a resolution pass turns references into edges.  A watcher repeats this for changed
  files.  One daemon per project owns the database; clients find it by a pidfile and a socket, replace
  it when it is stale, and start it when it is missing.  The tools read the database: symbols and
  files, callers and callees, the impact of a change, affected tests, chains of calls.  The server maps
  the paths of a request to a project, keeps the databases of other projects open for a while, and
  falls back on an external search program where the index has no answer.

  The theories follow these parts.  Names of definitions are the names of the code in lower case with
  underscores; every theory opens with what it holds.

  \<^bold>\<open>Ground.\<close>  \<^theory_text>\<open>Prelude\<close> has Go's strings as byte lists, the operations of package \<^verbatim>\<open>strings\<close> and generic
  lemmas; \<^theory_text>\<open>Go_Runes\<close> UTF-8 as \<^verbatim>\<open>unicode/utf8\<close> decodes it; \<^theory_text>\<open>Go_Filepath\<close> \<^verbatim>\<open>path/filepath\<close> on Unix, with
  \<^verbatim>\<open>Clean\<close> characterised by the path elements it keeps; \<^theory_text>\<open>Go_Match\<close> \<^verbatim>\<open>filepath.Match\<close>; \<^theory_text>\<open>Reach\<close> the nodes
  within a number of steps, the specification of the bounded searches.

  \<^bold>\<open>The index database\<close> (\<^verbatim>\<open>internal/db\<close>).  \<^theory_text>\<open>Storage_Paths\<close> (\<^verbatim>\<open>resolve.go\<close>): the keys under which files are
  stored and the jail of the way back.  \<^theory_text>\<open>Keyed_Table\<close> and \<^theory_text>\<open>Graph_Store\<close> (\<^verbatim>\<open>query*.go\<close>): the four tables as
  lists of rows in one record, with unique keys, foreign keys and cascades written out; every statement
  that can violate a constraint returns an error.  The locale \<^verbatim>\<open>keyed_table\<close> is the contract of an
  upsert and is interpreted on all five uses.  \<^verbatim>\<open>db_ok\<close> is the invariant of the database; every writing
  operation keeps it.  \<^theory_text>\<open>Ref_Parking\<close> (\<^verbatim>\<open>query_refs.go\<close>): references into a file are parked as unresolved
  rows before its symbols are replaced, and none is lost.

  \<^bold>\<open>Indexing\<close> (\<^verbatim>\<open>internal/extraction\<close>).  \<^theory_text>\<open>Skip_Rules\<close> and \<^theory_text>\<open>Rg_Globs\<close> (\<^verbatim>\<open>skip.go\<close>): which directories the walk
  enters, and the translation of exclusion rules to globs of the search program.  \<^theory_text>\<open>Index_Builder\<close>
  (\<^verbatim>\<open>index_writer.go\<close>): the whole of \<^verbatim>\<open>indexFile\<close> after extraction.  \<^theory_text>\<open>Orchestrator\<close> (\<^verbatim>\<open>orchestrator.go\<close>,
  \<^verbatim>\<open>orchestrator_file.go\<close>): the walk, the incremental gate, pruning, and the full, incremental and
  rebuilding passes.  They show which files a pass indexes, that a pass without failures leaves every
  file current, and that the schema revision is only marked by a complete rebuild.

  \<^bold>\<open>Resolution\<close> (\<^verbatim>\<open>internal/resolution\<close>).  \<^theory_text>\<open>Name_Matcher\<close> (\<^verbatim>\<open>name_matcher.go\<close>), \<^theory_text>\<open>Edge_Writer\<close> and \<^theory_text>\<open>Resolver\<close>
  (\<^verbatim>\<open>resolver.go\<close>, \<^verbatim>\<open>FilterByImports\<close>).  \<^theory_text>\<open>Edge_Writer\<close> proves the batching of the writer transparent for any
  store that meets the locale \<^verbatim>\<open>resolution_store\<close>; \<^theory_text>\<open>Resolver\<close> interprets it on the database.
  The specifier of an import is resolved on disk by \<^verbatim>\<open>ResolveImportPath\<close>.  \<^theory_text>\<open>Go_Regexp\<close> interprets a Go regular
  expression by its matches in order of priority; \<^theory_text>\<open>Module_Disk\<close> has the disk as a record, the caches
  stamped with modification times and the searches the four tables share; \<^theory_text>\<open>Go_Module\<close> (\<^verbatim>\<open>go_module.go\<close>),
  \<^theory_text>\<open>Path_Aliases\<close> (\<^verbatim>\<open>path_aliases.go\<close>), \<^theory_text>\<open>Workspace_Packages\<close> (\<^verbatim>\<open>workspace_packages.go\<close>) and
  \<^theory_text>\<open>Cargo_Workspace\<close> (\<^verbatim>\<open>cargo_workspace.go\<close>) parse the module files and resolve against them;
  \<^theory_text>\<open>Import_Paths\<close> (\<^verbatim>\<open>import_resolver.go\<close>) puts them together, with the caches threaded by the state
  monad.  The locale \<^verbatim>\<open>stamped_cache\<close> says which cache contents are valid and is interpreted on all five
  caches; through it a chain of calls is proved to answer as if every file were read anew.
  \<^theory_text>\<open>Import_Closure\<close> joins the resolver of references with the resolver of imports.

  \<^bold>\<open>Reading lines\<close> (\<^verbatim>\<open>extractor_*.go\<close>, \<^verbatim>\<open>sfc.go\<close>, \<^verbatim>\<open>bridge.go\<close>, \<^verbatim>\<open>frameworks.go\<close>).  \<^theory_text>\<open>Regexp_Words\<close> gives every
  pattern its language; \<^theory_text>\<open>Block_Ends\<close> finds the end of a block by its braces or its indent; \<^theory_text>\<open>Extract_Core\<close>
  normalises the source, runs over its lines and turns calls into references.  \<^theory_text>\<open>Line_Extractors\<close> and
  \<^theory_text>\<open>Rust_Extractor\<close> have what a line adds in each language, \<^theory_text>\<open>Sfc_Extractor\<close> the components of Vue, Svelte and
  Astro and the choice of the extractor, \<^theory_text>\<open>Language_Bridges\<close> and \<^theory_text>\<open>Framework_Routes\<close> the calls into other
  languages and the routes.  \<^theory_text>\<open>Extract_Ranges\<close> shows that everything they report lies in the file;
  \<^theory_text>\<open>Source_Extraction\<close> puts them together as the extractor the passes of \<^theory_text>\<open>Orchestrator\<close> take as a parameter,
  with the tree-sitter extractors as the argument \<open>ts\<close> and \<^verbatim>\<open>strings.ToUpper\<close> as \<open>up\<close>.

  \<^bold>\<open>Synthesis\<close> (\<^verbatim>\<open>internal/resolution/synth*.go\<close>).  \<^theory_text>\<open>Synth_Context\<close> has the cache of file contents, the lookups
  and the capped collection of edges; \<^theory_text>\<open>Synth_Channels\<close> the callbacks and events, \<^theory_text>\<open>Synth_Render\<close> React and
  bridges, \<^theory_text>\<open>Synth_Native\<close> function pointers of C and GoFrame routes; \<^theory_text>\<open>Synthesize\<close> merges the seven passes and
  replaces the edges of the last run.  Every pattern is a term of \<^theory_text>\<open>Go_Regexp\<close>.  The order in which Go meets
  the keys of a map is a parameter, so the theorems hold for every order.

  \<^bold>\<open>Watching\<close> (\<^verbatim>\<open>internal/sync/watcher.go\<close>).  \<^theory_text>\<open>Watcher\<close> is a step relation: every access of the event loop or
  of the running pass to the shared state is one step, so a theorem about runs covers every
  interleaving.  \<^theory_text>\<open>Sync_Index\<close> states what the watcher asks of an indexer as the locale
  \<^verbatim>\<open>indexer_contract\<close>, interprets it on the orchestrator and carries the result of the two together.

  \<^bold>\<open>The daemon\<close> (\<^verbatim>\<open>internal/daemon\<close>).  \<^theory_text>\<open>Proc_Identity\<close>, \<^theory_text>\<open>Daemon_Kill\<close>, \<^theory_text>\<open>Daemon_Spawn\<close>, \<^theory_text>\<open>Daemon_Hello\<close>,
  \<^theory_text>\<open>Daemon_Connect\<close> and \<^theory_text>\<open>Daemon_Sessions\<close> (\<^verbatim>\<open>lock.go\<close>, \<^verbatim>\<open>recovery.go\<close>, \<^verbatim>\<open>pidfd.go\<close>, \<^verbatim>\<open>spawn.go\<close>, \<^verbatim>\<open>hello.go\<close>,
  \<^verbatim>\<open>proxy.go\<close>, \<^verbatim>\<open>server.go\<close>).  The operating system is a history, a function from moments to what every
  process, file and call shows then; each system call takes a moment and nothing is assumed about what
  happens in between.  The theorems bound what the client does to the machine (signals, removed files,
  spawned processes) under all histories.  \<^theory_text>\<open>Daemon_Sessions\<close> is a step relation over connections.

  \<^bold>\<open>Tools\<close> (\<^verbatim>\<open>internal/tools\<close>, \<^verbatim>\<open>internal/search\<close>).  \<^theory_text>\<open>Symbol_View\<close> (\<^verbatim>\<open>node.go\<close>), \<^theory_text>\<open>Call_Graph\<close> (\<^verbatim>\<open>graph.go\<close>),
  \<^theory_text>\<open>Affected\<close> (\<^verbatim>\<open>affected.go\<close>), \<^theory_text>\<open>Explore_Flow\<close> (\<^verbatim>\<open>explore_flow.go\<close>), \<^theory_text>\<open>Edit_Distance\<close> (\<^verbatim>\<open>edit_distance.go\<close>).
  Searches are proved against \<^theory_text>\<open>Reach\<close>, the edit distance against an inductive definition of edits.

  \<^bold>\<open>The server\<close> (\<^verbatim>\<open>internal/server\<close>).  \<^theory_text>\<open>Project_Cache\<close> (\<^verbatim>\<open>project.go\<close>): the databases of other projects with
  their reference counts, as a step relation over concurrent calls.  \<^theory_text>\<open>Server_Paths\<close> (\<^verbatim>\<open>paths.go\<close>,
  \<^verbatim>\<open>project.go\<close>, \<^verbatim>\<open>db/root.go\<close>): the jail around the workspace and the choice of the project.  \<^theory_text>\<open>Line_Scan\<close>
  (\<^verbatim>\<open>textutil.go\<close>, \<^verbatim>\<open>callees_fallback.go\<close>): reading source lines without a parser.  \<^theory_text>\<open>Tool_Output\<close>
  (\<^verbatim>\<open>output.go\<close>, \<^verbatim>\<open>textutil.go\<close>): caps and truncation.

  \<^bold>\<open>Bounds and fuel.\<close>  Loops are structural recursion or \<^verbatim>\<open>function\<close> with a termination proof; the search of
  \<^verbatim>\<open>impact\<close>, whose bound is the database itself, is a \<^verbatim>\<open>partial_function\<close> and proved to return.  Caps are the
  code's: 50000 rows of a listing, 100000 files of a walk listing, 24 directories of an upward search,
  1500 parents and 7 hops of a flow (the hops are the fuel of \<^verbatim>\<open>chain_back\<close>, proved enough), 500 lines of
  a body, 10 cached databases, 6 levels of member globs of a Cargo workspace, 64 directories up to a crate.  Where the code polls until a deadline, the number of polls is part of
  the history.  Machine integers do not come near their width in the code modelled and are \<open>nat\<close>
  and \<open>int\<close>; subtraction is written on \<open>int\<close> where it can go below zero.

  \<^bold>\<open>Parameters.\<close>  What is not the program's own code is an argument or a field of an environment record:
  the file system (\<open>evals\<close> for \<^verbatim>\<open>EvalSymlinks\<close>, \<open>index_env\<close>, \<open>walk_env\<close>, \<open>affected_env\<close>, \<open>server_env\<close>), the
  operating system (\<open>os\<close>, the connector of \<^theory_text>\<open>Daemon_Connect\<close>, the child process of \<^theory_text>\<open>Tool_Output\<close>),
  case folding (\<open>low\<close>, \<open>equal_fold\<close>), the full-text engine (\<open>fts\<close>), JSON, SHA-256, the tree-sitter
  extractors and the scrubber's regular expressions.  Laws assumed of them are hypotheses of the
  theorems that need them, and the witnesses instantiate them with functions.

  \<^bold>\<open>Conventions.\<close>  An error is the left of a sum or \<open>None\<close>.  A pool of workers is the loop it is with one
  worker, and the theorems hold for every order of the jobs.  Database faults of statements that cannot
  violate a constraint, logging, progress callbacks and cancellation are left out, unless a theory says
  otherwise.  Theorems named \<^verbatim>\<open>..._witness\<close> apply a property to concrete data.  Lemmas that show a
  behaviour the code's comments do not promise are named after what goes wrong, for instance
  \<^verbatim>\<open>index_self_import_fails\<close>, \<^verbatim>\<open>adopted_in_use_leaks\<close> or \<^verbatim>\<open>comment_brace_ends_body\<close>.

  \<^bold>\<open>Not modelled.\<close>
  \<^item> The tree-sitter extractors (\<^verbatim>\<open>treesitter*.go\<close>): queries to third-party grammars; they are a parameter of
    \<^theory_text>\<open>Source_Extraction\<close>.
  \<^item> Opening, migrating and pinning the SQLite file, statistics, facts and full-text search
    (\<^verbatim>\<open>db/migrate.go\<close>, \<^verbatim>\<open>connection.go\<close>, \<^verbatim>\<open>pin_*.go\<close>, \<^verbatim>\<open>wal.go\<close>, \<^verbatim>\<open>query_facts.go\<close>): statements to SQLite whose
    meaning is SQLite's.
  \<^item> Configuration, logging, the command line and the MCP transport (\<^verbatim>\<open>config\<close>, \<^verbatim>\<open>safelog\<close>, \<^verbatim>\<open>cgdir\<close>,
    \<^verbatim>\<open>cmd\<close>, \<^verbatim>\<open>server/server.go\<close>, the handlers of \<^verbatim>\<open>server/tools.go\<close>): input and output around the parts above.
  \<^item> The layout of the longer tool answers (rendering in \<^verbatim>\<open>node.go\<close>, the explore answer of \<^verbatim>\<open>graph.go\<close>, \<^verbatim>\<open>context.go\<close>,
    \<^verbatim>\<open>status.go\<close>), and the copying of bytes by \<^verbatim>\<open>RunProxy\<close>.
\<close>

end
